(* ===== verification/Hezo_Prelude.thy ===== *)
theory Hezo_Prelude
  imports Main "HOL-Library.Word" "HOL-Library.Sublist"
begin

text \<open>
  Shared vocabulary of the development: bytes and big-endian words as the code's typed arrays
  hold them, the first-occurrence search that \<open>indexOfSequence\<close> and JavaScript's
  \<open>indexOf\<close> both are, and the generic list facts the component theories use.

  The collections \<open>hezo_defs\<close> (definitions that a component's automation unfolds) and
  \<open>hezo_inv\<close> (preservation lemmas of its invariants) are filled by the components.
\<close>

named_theorems hezo_defs \<open>definitions unfolded by the component proofs\<close>
named_theorems hezo_inv \<open>invariant preservation lemmas\<close>

unbundle bit_operations_syntax

type_synonym byte = "8 word"
type_synonym bytes = "byte list"
type_synonym u32 = "32 word"

section \<open>Big-endian words\<close>

text \<open>\<open>DataView.setUint32(off, w, false)\<close> and its inverse \<open>getUint32\<close>, on the four bytes.\<close>

definition be32 :: "u32 \<Rightarrow> bytes" where
  "be32 w = [ucast (drop_bit 24 w), ucast (drop_bit 16 w), ucast (drop_bit 8 w), ucast w]"

definition of_be32 :: "bytes \<Rightarrow> u32" where
  "of_be32 bs = (case bs of
     [a, b, c, d] \<Rightarrow>
       push_bit 24 (ucast a) OR push_bit 16 (ucast b) OR push_bit 8 (ucast c) OR ucast d
   | _ \<Rightarrow> 0)"

lemma length_be32 [simp]: "length (be32 w) = 4"
  by (simp add: be32_def)

lemma of_be32_be32 [simp]: "of_be32 (be32 w) = w"
proof (rule bit_word_eqI)
  fix n assume "n < LENGTH(32)"
  then consider "n < 8" | "8 \<le> n" "n < 16" | "16 \<le> n" "n < 24" | "24 \<le> n" "n < 32"
    by fastforce
  then show "bit (of_be32 (be32 w)) n = bit w n"
    unfolding of_be32_def be32_def by cases (auto simp: bit_simps)
qed

lemma byte_bit_high: "8 \<le> n \<Longrightarrow> \<not> bit (b :: byte) n"
  by (auto dest: bit_imp_le_length)

lemma be32_of_be32: "length bs = 4 \<Longrightarrow> be32 (of_be32 bs) = bs"
proof -
  assume "length bs = 4"
  then obtain a b c d where "bs = [a, b, c, d]"
    by (auto simp: numeral_eq_Suc length_Suc_conv)
  then show ?thesis
    unfolding of_be32_def be32_def
    by (auto intro!: bit_word_eqI simp: bit_simps byte_bit_high)
qed

text \<open>The value of a big-endian word, and shifted bytes read as numbers.\<close>

lemma byte_less: "uint (a :: byte) < 256"
  using uint_lt2p [of a] by simp

lemma or_eq_plus: "(x :: u32) AND y = 0 \<Longrightarrow> x OR y = x + y"
  using word_plus_and_or [of x y] by simp

lemma shifted_byte_less:
  assumes "n \<le> k"
  shows "uint (a :: byte) * 2 ^ n < 2 ^ (k + 8)"
proof -
  have "uint a * 2 ^ n < 256 * 2 ^ n" by (rule mult_strict_right_mono [OF byte_less]) simp
  also have "\<dots> \<le> 256 * 2 ^ k" using assms by (intro mult_left_mono power_increasing) simp_all
  finally show ?thesis by (simp add: power_add)
qed

lemma uint_shifted_byte:
  assumes "n \<le> 24"
  shows "uint (push_bit n (ucast (a :: byte)) :: u32) = uint a * 2 ^ n"
proof -
  have "uint (push_bit n (ucast a) :: u32) = (uint a * 2 ^ n) mod 2 ^ 32"
    unfolding unsigned_push_bit_eq unsigned_ucast_eq by (simp add: take_bit_eq_mod push_bit_eq_mult mod_mult_left_eq)
  also have "\<dots> = uint a * 2 ^ n"
    using shifted_byte_less [OF assms, of a] by (intro mod_pos_pos_trivial) simp_all
  finally show ?thesis .
qed

lemma uint_of_be32:
  "uint (of_be32 [a, b, c, d]) = uint a * 2 ^ 24 + uint b * 2 ^ 16 + uint c * 2 ^ 8 + uint d"
proof -
  let ?a = "push_bit 24 (ucast a) :: u32" and ?b = "push_bit 16 (ucast b) :: u32"
    and ?c = "push_bit 8 (ucast c) :: u32" and ?d = "ucast d :: u32"
  have "?c AND ?d = 0" "?b AND (?c OR ?d) = 0" "?a AND (?b OR ?c OR ?d) = 0"
    by (auto intro!: bit_word_eqI simp: bit_simps byte_bit_high)
  then have sum: "of_be32 [a, b, c, d] = ?a + (?b + (?c + ?d))"
    by (simp add: of_be32_def or_eq_plus)
  have d: "uint ?d = uint d" using uint_shifted_byte [of 0 d] by simp
  show ?thesis
    unfolding sum uint_word_ariths d using byte_less [of a] byte_less [of b] byte_less [of c] byte_less [of d]
    by (simp add: uint_shifted_byte)
qed

lemma sint_eq_uint: "uint (x :: u32) < 2 ^ 31 \<Longrightarrow> sint x = uint x"
  by (simp add: sint_uint signed_take_bit_eq_if_positive bit_iff_odd take_bit_eq_mod)

lemma sint_shifted_byte: "n \<le> 16 \<Longrightarrow> sint (push_bit n (ucast (a :: byte)) :: u32) = uint a * 2 ^ n"
  using shifted_byte_less [of n 16 a] by (subst sint_eq_uint) (simp_all add: uint_shifted_byte)

section \<open>First occurrence of a sequence\<close>

fun index_of :: "'a list \<Rightarrow> 'a list \<Rightarrow> nat option" where
  "index_of p xs =
     (if length xs < length p then None
      else if take (length p) xs = p then Some 0
      else (case xs of [] \<Rightarrow> None | _ # ys \<Rightarrow> map_option Suc (index_of p ys)))"

declare index_of.simps [simp del]

definition occurs_at :: "'a list \<Rightarrow> 'a list \<Rightarrow> nat \<Rightarrow> bool" where
  "occurs_at p xs i \<longleftrightarrow> i + length p \<le> length xs \<and> take (length p) (drop i xs) = p"

lemma occurs_at_0: "occurs_at p xs 0 \<longleftrightarrow> take (length p) xs = p"
  by (metis add_0 drop0 length_take min.cobounded1 occurs_at_def)

lemma occurs_at_Suc: "occurs_at p (x # xs) (Suc i) \<longleftrightarrow> occurs_at p xs i"
  by (simp add: occurs_at_def)

lemma index_of_Some_iff:
  "index_of p xs = Some i \<longleftrightarrow> occurs_at p xs i \<and> (\<forall>j < i. \<not> occurs_at p xs j)"
proof (induction p xs arbitrary: i rule: index_of.induct)
  case (1 p xs)
  consider (short) "length xs < length p" | (hit) "\<not> length xs < length p" "take (length p) xs = p"
    | (step) y ys where "\<not> length xs < length p" "take (length p) xs \<noteq> p" "xs = y # ys"
    by (cases xs) auto
  then show ?case
  proof cases
    case short
    then show ?thesis by (simp add: index_of.simps [of p xs] occurs_at_def)
  next
    case hit
    then have "occurs_at p xs 0" by (simp add: occurs_at_0)
    with hit show ?thesis by (cases i) (auto simp: index_of.simps [of p xs])
  next
    case step
    then have no0: "\<not> occurs_at p xs 0" by (simp add: occurs_at_0)
    have "index_of p xs = Some i \<longleftrightarrow> (\<exists>k. i = Suc k \<and> index_of p ys = Some k)"
      unfolding index_of.simps [of p xs] using step by auto
    also have "\<dots> \<longleftrightarrow> (\<exists>k. i = Suc k \<and> occurs_at p ys k \<and> (\<forall>j < k. \<not> occurs_at p ys j))"
      using "1"[OF step(1,2,3)] by simp
    also have "\<dots> \<longleftrightarrow> occurs_at p xs i \<and> (\<forall>j < i. \<not> occurs_at p xs j)"
      using no0 step(3) by (cases i) (auto simp: occurs_at_Suc less_Suc_eq_0_disj)
    finally show ?thesis .
  qed
qed

lemma index_of_None_iff: "index_of p xs = None \<longleftrightarrow> (\<forall>i. \<not> occurs_at p xs i)"
proof
  assume none: "index_of p xs = None"
  show "\<forall>i. \<not> occurs_at p xs i"
  proof
    fix i
    show "\<not> occurs_at p xs i"
    proof (induction i rule: less_induct)
      case (less i)
      then show ?case using none index_of_Some_iff [of p xs i] by auto
    qed
  qed
next
  assume "\<forall>i. \<not> occurs_at p xs i"
  then show "index_of p xs = None"
    by (metis index_of_Some_iff not_None_eq)
qed

lemma occurs_at_append_left:
  "occurs_at p xs i \<Longrightarrow> occurs_at p (xs @ ys) i"
  by (simp add: occurs_at_def)

lemma occurs_at_append_within:
  "i + length p \<le> length xs \<Longrightarrow> occurs_at p (xs @ ys) i \<longleftrightarrow> occurs_at p xs i"
  by (simp add: occurs_at_def)

lemma occurs_at_append_right:
  "length xs \<le> i \<Longrightarrow> occurs_at p (xs @ ys) i \<longleftrightarrow> occurs_at p ys (i - length xs)"
  by (auto simp: occurs_at_def)

lemma occurs_at_drop:
  assumes "p \<noteq> []"
  shows "occurs_at p (drop k xs) i \<longleftrightarrow> occurs_at p xs (k + i)"
proof -
  have "0 < length p" using assms by simp
  then have "i + length p \<le> length xs - k \<longleftrightarrow> k + i + length p \<le> length xs" by linarith
  then show ?thesis by (simp add: occurs_at_def add.commute)
qed

lemma index_of_append_Some:
  "index_of p xs = Some i \<Longrightarrow> index_of p (xs @ ys) = Some i"
proof -
  assume a: "index_of p xs = Some i"
  then have "occurs_at p xs i" "\<And>j. j < i \<Longrightarrow> \<not> occurs_at p xs j"
    by (auto simp: index_of_Some_iff)
  moreover have "\<And>j. j < i \<Longrightarrow> j + length p \<le> length xs"
    using a by (auto simp: index_of_Some_iff occurs_at_def)
  ultimately show ?thesis
    by (auto simp: index_of_Some_iff occurs_at_append_left occurs_at_append_within)
qed

text \<open>
  Dropping all but the last \<open>length p - 1\<close> elements of a buffer that holds no occurrence
  loses no later occurrence and moves it by exactly the dropped amount.
\<close>

lemma index_of_trim:
  assumes none: "index_of p xs = None" and k: "k + (length p - 1) \<le> length xs" and p: "p \<noteq> []"
  shows "index_of p (xs @ ys) = map_option (\<lambda>i. k + i) (index_of p (drop k xs @ ys))"
proof -
  have split: "drop k xs @ ys = drop k (xs @ ys)" using k by simp
  have early: "\<not> occurs_at p (xs @ ys) j" if "j < k" for j
  proof -
    have "j + length p \<le> length xs" using that k p by (cases p) auto
    then show ?thesis using none by (simp add: occurs_at_append_within index_of_None_iff)
  qed
  have shift: "occurs_at p (drop k xs @ ys) i \<longleftrightarrow> occurs_at p (xs @ ys) (k + i)" for i
    using occurs_at_drop [OF p, of k "xs @ ys" i] unfolding split [symmetric] .
  show ?thesis
  proof (cases "index_of p (drop k xs @ ys)")
    case None
    then have "\<not> occurs_at p (xs @ ys) j" for j
      using early [of j] shift [of "j - k"] by (cases "j < k") (auto simp: index_of_None_iff)
    then have "index_of p (xs @ ys) = None" by (simp add: index_of_None_iff)
    with None show ?thesis by simp
  next
    case (Some i)
    then have "occurs_at p (xs @ ys) (k + i)" and less: "\<And>j. j < i \<Longrightarrow> \<not> occurs_at p (xs @ ys) (k + j)"
      by (auto simp: index_of_Some_iff shift)
    moreover have "\<not> occurs_at p (xs @ ys) j" if "j < k + i" for j
      using early [of j] less [of "j - k"] that by (cases "j < k") auto
    ultimately have "index_of p (xs @ ys) = Some (k + i)" by (simp add: index_of_Some_iff)
    with Some show ?thesis by simp
  qed
qed

section \<open>Numbers in decimal\<close>

fun digits :: "nat \<Rightarrow> string" where
  "digits n = (if n < 10 then [char_of (48 + n)] else digits (n div 10) @ [char_of (48 + n mod 10)])"

declare digits.simps [simp del]

section \<open>Lists updated in place\<close>

lemma nth_list_update_if:
  "xs[i := x] ! j = (if i = j \<and> j < length xs then x else xs ! j)"
  by (cases "i < length xs") (auto simp: nth_list_update list_update_beyond)

end
