(* ===== verification/Framing.thy ===== *)
theory Framing
  imports Hezo_Prelude
begin

text \<open>
  The interface every length-prefixed decoder of the server has: the tunnel's
  \<open>FrameDecoder\<close>, the two Docker attach decoders and the ssh-agent \<open>FrameReader\<close>
  buffer a chunk and then read whole frames off the front of the buffer until what is left is a
  partial frame. \<open>step\<close> is one pass of that loop and \<open>drain\<close> the loop.

  The one law that matters is that a decision about a frame never depends on bytes after it.
  From it follows, once for all decoders, that chunk boundaries are not frame boundaries: any
  way of cutting a stream into chunks yields the same frames and the same pending bytes.
\<close>

datatype ('e, 'f) parse = Need | Bad 'e | Got 'f bytes

text \<open>
  Feeding a decoder chunk by chunk: buffer the chunk, drain, keep what is left; stop at the
  first error, with the bytes of the later chunks still unread behind the failing header.
\<close>

fun feed ::
  "(bytes \<Rightarrow> bytes \<times> ('e + 'f list)) \<Rightarrow> bytes \<Rightarrow> bytes list \<Rightarrow> bytes \<times> ('e + 'f list)" where
  "feed drain buf [] = (buf, Inr [])"
| "feed drain buf (c # cs) = (case drain (buf @ c) of
     (b, Inl e) \<Rightarrow> (b @ concat cs, Inl e)
   | (b, Inr fs) \<Rightarrow> (case feed drain b cs of
        (b', Inl e) \<Rightarrow> (b', Inl e)
      | (b', Inr gs) \<Rightarrow> (b', Inr (fs @ gs))))"

locale incremental_parser =
  fixes step :: "bytes \<Rightarrow> ('e, 'f) parse"
    and drain :: "bytes \<Rightarrow> bytes \<times> ('e + 'f list)"
  assumes step_Got_append: "step buf = Got f rest \<Longrightarrow> step (buf @ xs) = Got f (rest @ xs)"
    and step_Bad_append: "step buf = Bad e \<Longrightarrow> step (buf @ xs) = Bad e"
    and step_Got_shrinks: "step buf = Got f rest \<Longrightarrow> length rest < length buf"
    and drain_unfold: "drain buf = (case step buf of
          Need \<Rightarrow> (buf, Inr [])
        | Bad e \<Rightarrow> (buf, Inl e)
        | Got f rest \<Rightarrow> (case drain rest of
              (b, Inl e) \<Rightarrow> (b, Inl e)
            | (b, Inr fs) \<Rightarrow> (b, Inr (f # fs))))"
begin

lemma drain_Need: "step buf = Need \<Longrightarrow> drain buf = (buf, Inr [])"
  by (subst drain_unfold) simp

lemma drain_Bad: "step buf = Bad e \<Longrightarrow> drain buf = (buf, Inl e)"
  by (subst drain_unfold) simp

lemma drain_Got:
  "step buf = Got f rest \<Longrightarrow>
   drain buf = (case drain rest of (b, Inl e) \<Rightarrow> (b, Inl e) | (b, Inr fs) \<Rightarrow> (b, Inr (f # fs)))"
  by (subst drain_unfold) simp

lemma drain_induct [case_names Need Bad Got]:
  assumes "\<And>buf. step buf = Need \<Longrightarrow> P buf"
    and "\<And>buf e. step buf = Bad e \<Longrightarrow> P buf"
    and "\<And>buf f rest. step buf = Got f rest \<Longrightarrow> P rest \<Longrightarrow> P buf"
  shows "P buf"
proof (induction buf rule: length_induct)
  case (1 buf)
  then show ?case
    using assms step_Got_shrinks by (cases "step buf") auto
qed

text \<open>What is left over after a successful pass is a partial frame: draining it again is idle.\<close>

lemma drain_rest_Need: "drain buf = (r, Inr fs) \<Longrightarrow> step r = Need"
  by (induction buf arbitrary: fs rule: drain_induct)
     (auto simp: drain_Need drain_Bad drain_Got split: prod.splits sum.splits)

lemma drain_append_ok:
  "drain xs = (r, Inr fs) \<Longrightarrow>
   drain (xs @ ys) =
     (case drain (r @ ys) of (b, Inl e) \<Rightarrow> (b, Inl e) | (b, Inr gs) \<Rightarrow> (b, Inr (fs @ gs)))"
proof (induction xs arbitrary: fs rule: drain_induct)
  case (Need buf)
  then show ?case by (auto simp: drain_Need split: prod.splits sum.splits)
next
  case (Bad buf e)
  then show ?case by (simp add: drain_Bad)
next
  case (Got buf f rest)
  from Got.prems Got.hyps obtain gs where gs: "drain rest = (r, Inr gs)" and fs: "fs = f # gs"
    by (auto simp: drain_Got split: prod.splits sum.splits)
  have "step (buf @ ys) = Got f (rest @ ys)" by (rule step_Got_append [OF Got.hyps])
  then show ?case
    using Got.IH [OF gs] by (auto simp: drain_Got fs split: prod.splits sum.splits)
qed

lemma drain_append_err:
  "drain xs = (r, Inl e) \<Longrightarrow> drain (xs @ ys) = (r @ ys, Inl e)"
proof (induction xs rule: drain_induct)
  case (Need buf)
  then show ?case by (simp add: drain_Need)
next
  case (Bad buf e')
  then show ?case by (auto simp: drain_Bad step_Bad_append)
next
  case (Got buf f rest)
  then have "step (buf @ ys) = Got f (rest @ ys)" by (intro step_Got_append)
  with Got show ?case by (auto simp: drain_Got split: prod.splits sum.splits)
qed

lemma feed_concat:
  "step buf = Need \<Longrightarrow> feed drain buf cs = drain (buf @ concat cs)"
proof (induction cs arbitrary: buf)
  case Nil
  then show ?case by (simp add: drain_Need)
next
  case (Cons c cs)
  show ?case
  proof (cases "drain (buf @ c)")
    case (Pair b res)
    show ?thesis
    proof (cases res)
      case (Inl e)
      with Pair drain_append_err [of "buf @ c" b e "concat cs"] show ?thesis by simp
    next
      case (Inr fs)
      with Pair have ok: "drain (buf @ c) = (b, Inr fs)" by simp
      have "feed drain b cs = drain (b @ concat cs)"
        using ok by (intro Cons.IH drain_rest_Need)
      then show ?thesis
        using ok drain_append_ok [OF ok, of "concat cs"]
        by (simp split: prod.splits sum.splits)
    qed
  qed
qed

end

end
