(* ===== verification/Utf8.thy ===== *)
theory Utf8
  imports Hezo_Prelude
begin

text \<open>
  The part of the platform's \<open>TextDecoder\<close> and \<open>TextEncoder\<close> the server relies on: the
  streaming UTF-8 decoder of the Encoding standard, with its replacement of ill-formed sequences
  and its removal of a leading byte-order mark. A text is a list of code points.
\<close>

type_synonym utext = "nat list"

definition cps :: "string \<Rightarrow> utext" where
  "cps s = map of_char s"

definition ascii_bytes :: "string \<Rightarrow> bytes" where
  "ascii_bytes s = map (\<lambda>c. word_of_nat (of_char c)) s"

record utf8_state =
  cp :: nat
  seen :: nat
  needed :: nat
  lower :: nat
  upper :: nat
  bom_seen :: bool

definition new_TextDecoder :: utf8_state where
  "new_TextDecoder = \<lparr>cp = 0, seen = 0, needed = 0, lower = 0x80, upper = 0xBF, bom_seen = False\<rparr>"

definition utf8_reset :: "utf8_state \<Rightarrow> utf8_state" where
  "utf8_reset st = st\<lparr>cp := 0, seen := 0, needed := 0, lower := 0x80, upper := 0xBF\<rparr>"

definition REPLACEMENT :: nat where
  "REPLACEMENT = 0xFFFD"

text \<open>A byte met between sequences.\<close>

definition utf8_lead :: "utf8_state \<Rightarrow> nat \<Rightarrow> utf8_state \<times> utext" where
  "utf8_lead st b =
     (if b \<le> 0x7F then (st, [b])
      else if 0xC2 \<le> b \<and> b \<le> 0xDF then (st\<lparr>needed := 1, cp := b mod 32\<rparr>, [])
      else if 0xE0 \<le> b \<and> b \<le> 0xEF then
        (st\<lparr>lower := (if b = 0xE0 then 0xA0 else lower st),
            upper := (if b = 0xED then 0x9F else upper st),
            needed := 2, cp := b mod 16\<rparr>, [])
      else if 0xF0 \<le> b \<and> b \<le> 0xF4 then
        (st\<lparr>lower := (if b = 0xF0 then 0x90 else lower st),
            upper := (if b = 0xF4 then 0x8F else upper st),
            needed := 3, cp := b mod 8\<rparr>, [])
      else (st, [REPLACEMENT]))"

definition utf8_step :: "utf8_state \<Rightarrow> byte \<Rightarrow> utf8_state \<times> utext" where
  "utf8_step st byte =
     (let b = unat byte in
      if needed st = 0 then utf8_lead st b
      else if b < lower st \<or> upper st < b then
        (case utf8_lead (utf8_reset st) b of (st', out) \<Rightarrow> (st', REPLACEMENT # out))
      else
        let st' = st\<lparr>lower := 0x80, upper := 0xBF, cp := cp st * 64 + b mod 64, seen := seen st + 1\<rparr>
        in if seen st' \<noteq> needed st' then (st', []) else (utf8_reset st', [cp st']))"

text \<open>The first code point out of a decoder is dropped when it is the byte-order mark.\<close>

definition bom_filter :: "utf8_state \<times> utext \<Rightarrow> utf8_state \<times> utext" where
  "bom_filter r =
     (case r of (st, out) \<Rightarrow>
        if bom_seen st then (st, out)
        else (case out of
            [] \<Rightarrow> (st, [])
          | c # cs \<Rightarrow> (st\<lparr>bom_seen := True\<rparr>, if c = 0xFEFF then cs else c # cs)))"

fun decode_stream :: "utf8_state \<Rightarrow> bytes \<Rightarrow> utf8_state \<times> utext" where
  "decode_stream st [] = (st, [])"
| "decode_stream st (b # bs) =
     (case bom_filter (utf8_step st b) of (st', out) \<Rightarrow>
        case decode_stream st' bs of (st'', out') \<Rightarrow> (st'', out @ out'))"

text \<open>\<open>decode()\<close> without \<open>stream\<close>: a sequence cut short becomes one replacement.\<close>

definition decode_end :: "utf8_state \<Rightarrow> utext" where
  "decode_end st = (if needed st = 0 then [] else [REPLACEMENT])"

definition decode_text :: "bytes \<Rightarrow> utext" where
  "decode_text bs = (case decode_stream new_TextDecoder bs of (st, out) \<Rightarrow> out @ decode_end st)"

text \<open>
  \<open>Buffer.toString('utf8')\<close> keeps a leading byte-order mark; \<open>Buffer.from(s, 'utf8')\<close>
  writes a lone surrogate as the replacement character.
\<close>

definition buffer_to_text :: "bytes \<Rightarrow> utext" where
  "buffer_to_text bs = (case decode_stream (new_TextDecoder\<lparr>bom_seen := True\<rparr>) bs of (st, out) \<Rightarrow> out @ decode_end st)"

definition utf8_cp :: "nat \<Rightarrow> nat list" where
  "utf8_cp c =
     (if c < 0x80 then [c]
      else if c < 0x800 then [0xC0 + c div 64, 0x80 + c mod 64]
      else if 0xD800 \<le> c \<and> c \<le> 0xDFFF then [0xEF, 0xBF, 0xBD]
      else if c < 0x10000 then [0xE0 + c div 4096, 0x80 + c div 64 mod 64, 0x80 + c mod 64]
      else [0xF0 + c div 262144, 0x80 + c div 4096 mod 64, 0x80 + c div 64 mod 64, 0x80 + c mod 64])"

definition utf8_encode :: "utext \<Rightarrow> bytes" where
  "utf8_encode t = map word_of_nat (concat (map utf8_cp t))"

lemma decode_stream_append:
  "decode_stream st (xs @ ys) =
     (case decode_stream st xs of (st', out) \<Rightarrow>
        case decode_stream st' ys of (st'', out') \<Rightarrow> (st'', out @ out'))"
  by (induction xs arbitrary: st) (auto split: prod.splits)

text \<open>ASCII passes through unchanged from a decoder between sequences.\<close>

lemma utf8_step_ascii:
  "needed st = 0 \<Longrightarrow> of_char c \<le> (0x7F :: nat) \<Longrightarrow> utf8_step st (word_of_nat (of_char c)) = (st, [of_char c])"
  by (simp add: utf8_step_def utf8_lead_def unat_of_nat)

lemma decode_stream_ascii_seen:
  assumes "needed st = 0" "bom_seen st" "\<forall>c \<in> set s. of_char c \<le> (0x7F :: nat)"
  shows "decode_stream st (ascii_bytes s) = (st, cps s)"
  using assms
  by (induction s) (auto simp: ascii_bytes_def cps_def utf8_step_ascii bom_filter_def)

lemma decode_text_ascii:
  assumes "\<forall>c \<in> set s. of_char c \<le> (0x7F :: nat)"
  shows "decode_text (ascii_bytes s) = cps s"
proof (cases s)
  case Nil
  then show ?thesis by (simp add: decode_text_def ascii_bytes_def cps_def decode_end_def new_TextDecoder_def)
next
  case (Cons c cs)
  let ?st = "new_TextDecoder\<lparr>bom_seen := True\<rparr>"
  have c: "of_char c \<le> (0x7F :: nat)" using assms Cons by simp
  have "decode_stream ?st (ascii_bytes cs) = (?st, cps cs)"
    using assms Cons by (intro decode_stream_ascii_seen) (auto simp: new_TextDecoder_def)
  moreover have "bom_filter (utf8_step new_TextDecoder (word_of_nat (of_char c))) = (?st, [of_char c])"
    using c by (simp add: utf8_step_ascii bom_filter_def new_TextDecoder_def)
  ultimately show ?thesis
    using Cons by (simp add: decode_text_def ascii_bytes_def cps_def decode_end_def new_TextDecoder_def)
qed

end
