(* ===== verification/Tunnel_Protocol.thy ===== *)
theory Tunnel_Protocol
  imports Framing Utf8
begin

text \<open>
  The wire format of the container tunnel, \<open>services/sandbox/tunnel/protocol.ts\<close>: the four
  frame types, the 9-byte header \<open>[u8 type][u32 streamId][u32 len]\<close>, the encoders, the
  preamble scan that skips a terminal's noise and the incremental \<open>FrameDecoder\<close>.

  The decoder is a record with the class's three fields. A method that may throw returns the new
  decoder together with \<open>Inl\<close> the error: the object outlives the exception, and the
  multiplexer reads \<open>pending\<close> and \<open>peek\<close> off it afterwards.
\<close>

section \<open>Targets, frame types, frames\<close>

datatype TunnelTarget = Proxy | Mcp | Ssh

fun target_key :: "TunnelTarget \<Rightarrow> string" where
  "target_key Proxy = ''proxy''"
| "target_key Mcp = ''mcp''"
| "target_key Ssh = ''ssh''"

definition TUNNEL_TARGETS :: "TunnelTarget list" where
  "TUNNEL_TARGETS = [Proxy, Mcp, Ssh]"

text \<open>The type guard: the target a text names, if it names one.\<close>

definition isTunnelTarget :: "utext \<Rightarrow> TunnelTarget option" where
  "isTunnelTarget v = find (\<lambda>t. cps (target_key t) = v) TUNNEL_TARGETS"

datatype FrameType = Open | Data | Close | Window

fun frame_type_code :: "FrameType \<Rightarrow> byte" where
  "frame_type_code Open = 1"
| "frame_type_code Data = 2"
| "frame_type_code Close = 3"
| "frame_type_code Window = 4"

definition isFrameType :: "byte \<Rightarrow> FrameType option" where
  "isFrameType b =
     (if b = 1 then Some Open
      else if b = 2 then Some Data
      else if b = 3 then Some Close
      else if b = 4 then Some Window
      else None)"

record Frame =
  type :: FrameType
  streamId :: u32
  payload :: bytes

datatype tunnel_error =
    PayloadTooLong nat
  | LengthTooLong nat
  | UnknownFrameType byte
  | WindowPayloadSize
  | NeverAnnounced

definition TUNNEL_PREAMBLE :: bytes where
  "TUNNEL_PREAMBLE = 0 # ascii_bytes ''HEZO-TUNNEL/1'' @ [0]"

definition MAX_PREAMBLE_SCAN_BYTES :: nat where
  "MAX_PREAMBLE_SCAN_BYTES = 64 * 1024"

definition HEADER_BYTES :: nat where
  "HEADER_BYTES = 9"

definition MAX_PAYLOAD_BYTES :: nat where
  "MAX_PAYLOAD_BYTES = 64 * 1024"

section \<open>Encoding\<close>

definition encodeFrame :: "FrameType \<Rightarrow> u32 \<Rightarrow> bytes \<Rightarrow> tunnel_error + bytes" where
  "encodeFrame t sid p =
     (if length p > MAX_PAYLOAD_BYTES then Inl (PayloadTooLong (length p))
      else Inr (frame_type_code t # be32 sid @ be32 (word_of_nat (length p)) @ p))"

definition encodeOpen :: "u32 \<Rightarrow> TunnelTarget \<Rightarrow> tunnel_error + bytes" where
  "encodeOpen sid target = encodeFrame Open sid (ascii_bytes (target_key target))"

text \<open>A credit is a JavaScript number; \<open>setUint32\<close> keeps it modulo \<open>2^32\<close>.\<close>

definition windowPayload :: "nat \<Rightarrow> bytes" where
  "windowPayload credit = be32 (word_of_nat credit)"

definition encodeWindow :: "u32 \<Rightarrow> nat \<Rightarrow> tunnel_error + bytes" where
  "encodeWindow sid credit = encodeFrame Window sid (windowPayload credit)"

definition decodeWindowCredit :: "bytes \<Rightarrow> tunnel_error + nat" where
  "decodeWindowCredit p =
     (if length p \<noteq> 4 then Inl WindowPayloadSize else Inr (unat (of_be32 p)))"

section \<open>The incremental decoder\<close>

record FrameDecoder =
  buffer :: bytes
  synced :: bool
  scanned :: nat

definition new_FrameDecoder :: "bool \<Rightarrow> FrameDecoder" where
  "new_FrameDecoder expectPreamble = \<lparr>buffer = [], synced = (\<not> expectPreamble), scanned = 0\<rparr>"

definition indexOfSequence :: "bytes \<Rightarrow> bytes \<Rightarrow> nat option" where
  "indexOfSequence haystack needle = index_of needle haystack"

text \<open>\<open>buffer.slice(-keep)\<close>: the last \<open>keep\<close> bytes.\<close>

definition slice_last :: "nat \<Rightarrow> 'a list \<Rightarrow> 'a list" where
  "slice_last n xs = drop (length xs - n) xs"

definition trySync :: "FrameDecoder \<Rightarrow> FrameDecoder \<times> (tunnel_error + bool)" where
  "trySync d =
     (case indexOfSequence (buffer d) TUNNEL_PREAMBLE of
        Some at \<Rightarrow>
          (d\<lparr>buffer := drop (at + length TUNNEL_PREAMBLE) (buffer d), synced := True\<rparr>, Inr True)
      | None \<Rightarrow>
          if scanned d > MAX_PREAMBLE_SCAN_BYTES then (d, Inl NeverAnnounced)
          else
            let keep = length TUNNEL_PREAMBLE - 1 in
            (if length (buffer d) > keep then d\<lparr>buffer := slice_last keep (buffer d)\<rparr> else d,
             Inr False))"

text \<open>One pass of the loop of \<open>push\<close> over the buffer.\<close>

definition read_frame :: "bytes \<Rightarrow> (tunnel_error, Frame) parse" where
  "read_frame buf =
     (if length buf < HEADER_BYTES then Need
      else
        let ty = buf ! 0;
            sid = of_be32 (take 4 (drop 1 buf));
            len = unat (of_be32 (take 4 (drop 5 buf)));
            total = HEADER_BYTES + len
        in if len > MAX_PAYLOAD_BYTES then Bad (LengthTooLong len)
           else (case isFrameType ty of
             None \<Rightarrow> Bad (UnknownFrameType ty)
           | Some t \<Rightarrow>
               if length buf < total then Need
               else Got \<lparr>type = t, streamId = sid, payload = drop HEADER_BYTES (take total buf)\<rparr>
                        (drop total buf)))"

lemma read_frame_Got_length:
  "read_frame buf = Got f rest \<Longrightarrow> length buf = HEADER_BYTES + length (payload f) + length rest"
  by (auto simp: read_frame_def Let_def HEADER_BYTES_def split: if_splits option.splits)

function read_frames :: "bytes \<Rightarrow> bytes \<times> (tunnel_error + Frame list)" where
  "read_frames buf = (case read_frame buf of
     Need \<Rightarrow> (buf, Inr [])
   | Bad e \<Rightarrow> (buf, Inl e)
   | Got f rest \<Rightarrow> (case read_frames rest of
         (b, Inl e) \<Rightarrow> (b, Inl e)
       | (b, Inr fs) \<Rightarrow> (b, Inr (f # fs))))"
  by pat_completeness auto
termination
  by (relation "measure length") (auto dest: read_frame_Got_length simp: HEADER_BYTES_def)

declare read_frames.simps [simp del]

definition push :: "FrameDecoder \<Rightarrow> bytes \<Rightarrow> FrameDecoder \<times> (tunnel_error + Frame list)" where
  "push d chunk =
     (let loop = (\<lambda>d. case read_frames (buffer d) of (b, r) \<Rightarrow> (d\<lparr>buffer := b\<rparr>, r));
          d1 = d\<lparr>buffer := buffer d @ chunk\<rparr>
      in if synced d1 then loop d1
         else
           (case trySync (d1\<lparr>scanned := scanned d1 + length chunk\<rparr>) of
              (d2, Inl e) \<Rightarrow> (d2, Inl e)
            | (d2, Inr False) \<Rightarrow> (d2, Inr [])
            | (d2, Inr True) \<Rightarrow> loop d2))"

definition pending :: "FrameDecoder \<Rightarrow> nat" where
  "pending d = length (buffer d)"

definition peek :: "FrameDecoder \<Rightarrow> nat \<Rightarrow> bytes" where
  "peek d n = take n (buffer d)"

text \<open>Feeding a decoder a sequence of chunks; the tunnel stops at the first error.\<close>

fun push_all :: "FrameDecoder \<Rightarrow> bytes list \<Rightarrow> FrameDecoder \<times> (tunnel_error + Frame list)" where
  "push_all d [] = (d, Inr [])"
| "push_all d (c # cs) = (case push d c of
     (d', Inl e) \<Rightarrow> (d', Inl e)
   | (d', Inr fs) \<Rightarrow> (case push_all d' cs of
        (d'', Inl e) \<Rightarrow> (d'', Inl e)
      | (d'', Inr gs) \<Rightarrow> (d'', Inr (fs @ gs))))"

section \<open>Encoder and decoder agree\<close>

lemma isFrameType_code [simp]: "isFrameType (frame_type_code t) = Some t"
  by (cases t) (simp_all add: isFrameType_def)

lemma isFrameType_Some: "isFrameType b = Some t \<Longrightarrow> b = frame_type_code t"
  by (auto simp: isFrameType_def split: if_splits)

lemma unat_payload_length [simp]:
  "n \<le> MAX_PAYLOAD_BYTES \<Longrightarrow> unat (word_of_nat n :: u32) = n"
  by (simp add: MAX_PAYLOAD_BYTES_def unat_of_nat)

definition frame_bytes :: "Frame \<Rightarrow> bytes" where
  "frame_bytes f = frame_type_code (type f) # be32 (streamId f)
     @ be32 (word_of_nat (length (payload f))) @ payload f"

definition frame_ok :: "Frame \<Rightarrow> bool" where
  "frame_ok f \<longleftrightarrow> length (payload f) \<le> MAX_PAYLOAD_BYTES"

lemma encodeFrame_eq:
  "length p \<le> MAX_PAYLOAD_BYTES \<Longrightarrow>
   encodeFrame t sid p = Inr (frame_bytes \<lparr>type = t, streamId = sid, payload = p\<rparr>)"
  by (simp add: encodeFrame_def frame_bytes_def)

lemma length_frame_bytes: "length (frame_bytes f) = HEADER_BYTES + length (payload f)"
  by (simp add: frame_bytes_def HEADER_BYTES_def)

lemma be32_at:
  "take 4 (drop 1 (t # be32 a @ be32 b @ p)) = be32 a"
  "take 4 (drop 5 (t # be32 a @ be32 b @ p)) = be32 b"
  by simp_all

lemma read_frame_frame_bytes:
  "frame_ok f \<Longrightarrow> read_frame (frame_bytes f @ rest) = Got f rest"
proof -
  assume ok: "frame_ok f"
  let ?n = "length (payload f)"
  have bs: "frame_bytes f @ rest =
      frame_type_code (type f) # be32 (streamId f) @ be32 (word_of_nat ?n) @ payload f @ rest"
    by (simp add: frame_bytes_def)
  have n: "unat (word_of_nat ?n :: u32) = ?n" using ok by (simp add: frame_ok_def)
  have "drop HEADER_BYTES (take (HEADER_BYTES + ?n) (frame_bytes f @ rest)) = payload f"
    by (simp add: bs HEADER_BYTES_def drop_take)
  moreover have "drop (HEADER_BYTES + ?n) (frame_bytes f @ rest) = rest"
    by (metis append_eq_conv_conj length_frame_bytes)
  moreover have "length (frame_bytes f @ rest) \<ge> HEADER_BYTES + ?n"
    by (simp add: length_frame_bytes)
  moreover have "take 4 (drop 1 (frame_bytes f @ rest)) = be32 (streamId f)"
    "take 4 (drop 5 (frame_bytes f @ rest)) = be32 (word_of_nat ?n)"
    "(frame_bytes f @ rest) ! 0 = frame_type_code (type f)"
    unfolding bs by (rule be32_at, rule be32_at, simp)
  ultimately show ?thesis
    using ok n unfolding read_frame_def Let_def by (simp add: frame_ok_def)
qed

text \<open>The converse: a frame that was read is the encoding of what was consumed.\<close>

lemma read_frame_Got_bytes:
  assumes "read_frame buf = Got f rest"
  shows "frame_ok f" "buf = frame_bytes f @ rest"
proof -
  let ?len = "of_be32 (take 4 (drop 5 buf))"
  have len9: "9 \<le> length buf" and ty: "buf ! 0 = frame_type_code (type f)"
    and sid: "streamId f = of_be32 (take 4 (drop 1 buf))"
    and le: "unat ?len \<le> MAX_PAYLOAD_BYTES" "9 + unat ?len \<le> length buf"
    and pl: "payload f = drop 9 (take (9 + unat ?len) buf)" and rest: "rest = drop (9 + unat ?len) buf"
    using assms
    by (auto simp: read_frame_def Let_def HEADER_BYTES_def dest: isFrameType_Some
        split: if_splits option.splits)
  have npl: "length (payload f) = unat ?len" using le by (simp add: pl)
  then show "frame_ok f" using le by (simp add: frame_ok_def)
  have "be32 (streamId f) = take 4 (drop 1 buf)" using len9 by (simp add: sid be32_of_be32)
  moreover have "be32 (word_of_nat (length (payload f))) = take 4 (drop 5 buf)"
    using len9 by (simp add: npl be32_of_be32)
  moreover have "take 1 buf = [frame_type_code (type f)]" using len9 ty by (cases buf) auto
  ultimately have "frame_bytes f @ rest =
      take 1 buf @ take 4 (drop 1 buf) @ take 4 (drop 5 buf) @ take (unat ?len) (drop 9 buf)
        @ drop (unat ?len) (drop 9 buf)"
    using le by (simp add: frame_bytes_def pl rest drop_take add.commute)
  also have "\<dots> = take 1 buf @ take 4 (drop 1 buf) @ take 4 (drop 5 buf) @ drop 9 buf"
    by (metis append_take_drop_id)
  also have "\<dots> = take 1 buf @ take 4 (drop 1 buf) @ drop 5 buf"
    using append_take_drop_id [of 4 "drop 5 buf"] by simp
  also have "\<dots> = buf"
    using append_take_drop_id [of 4 "drop 1 buf"] append_take_drop_id [of 1 buf] by simp
  finally show "buf = frame_bytes f @ rest" by simp
qed

lemma read_frame_Bad_append: "read_frame buf = Bad e \<Longrightarrow> read_frame (buf @ xs) = Bad e"
  by (auto simp: read_frame_def Let_def HEADER_BYTES_def nth_append split: if_splits option.splits)

interpretation tp: incremental_parser read_frame read_frames
proof unfold_locales
  fix buf f rest xs assume "read_frame buf = Got f rest"
  then show "read_frame (buf @ xs) = Got f (rest @ xs)"
    using read_frame_frame_bytes read_frame_Got_bytes by (metis append_assoc)
next
  fix buf e xs assume "read_frame buf = Bad e"
  then show "read_frame (buf @ xs) = Bad e" by (rule read_frame_Bad_append)
next
  fix buf f rest assume "read_frame buf = Got f rest"
  then show "length rest < length buf" by (simp add: read_frame_Got_length HEADER_BYTES_def)
next
  fix buf show "read_frames buf = (case read_frame buf of
      Need \<Rightarrow> (buf, Inr []) | Bad e \<Rightarrow> (buf, Inl e)
    | Got f rest \<Rightarrow> (case read_frames rest of
        (b, Inl e) \<Rightarrow> (b, Inl e) | (b, Inr fs) \<Rightarrow> (b, Inr (f # fs))))"
    by (rule read_frames.simps)
qed

lemma read_frames_encoded:
  "\<forall>f \<in> set fs. frame_ok f \<Longrightarrow> read_frame tail = Need \<Longrightarrow>
   read_frames (concat (map frame_bytes fs) @ tail) = (tail, Inr fs)"
  by (induction fs) (simp_all add: tp.drain_Need tp.drain_Got [OF read_frame_frame_bytes])

lemma read_frames_ok_inv:
  "read_frames buf = (r, Inr fs) \<Longrightarrow>
   buf = concat (map frame_bytes fs) @ r \<and> (\<forall>f \<in> set fs. frame_ok f)"
proof (induction buf arbitrary: fs rule: tp.drain_induct)
  case (Need buf)
  then show ?case by (simp add: tp.drain_Need)
next
  case (Bad buf e)
  then show ?case by (simp add: tp.drain_Bad)
next
  case (Got buf f rest)
  from Got.prems Got.hyps obtain gs where "read_frames rest = (r, Inr gs)" "fs = f # gs"
    by (auto simp: tp.drain_Got split: prod.splits sum.splits)
  with Got.IH [of gs] read_frame_Got_bytes [OF Got.hyps] show ?case by simp
qed

lemma read_frame_Need_bound: "read_frame buf = Need \<Longrightarrow> length buf < HEADER_BYTES + MAX_PAYLOAD_BYTES"
  by (auto simp: read_frame_def Let_def HEADER_BYTES_def MAX_PAYLOAD_BYTES_def
      split: if_splits option.splits)

section \<open>The preamble scan\<close>

text \<open>
  An unsynced decoder that has seen the bytes \<open>h\<close> without the marker holds exactly the tail of
  \<open>h\<close> that could still begin one.
\<close>

definition marker_keep :: nat where
  "marker_keep = length TUNNEL_PREAMBLE - 1"

definition tracks :: "FrameDecoder \<Rightarrow> bytes \<Rightarrow> bool" where
  "tracks d h \<longleftrightarrow> \<not> synced d \<and> index_of TUNNEL_PREAMBLE h = None \<and> scanned d = length h
     \<and> buffer d = slice_last marker_keep h"

lemma preamble_nonempty [simp]: "TUNNEL_PREAMBLE \<noteq> []"
  by (simp add: TUNNEL_PREAMBLE_def)

lemma length_preamble: "length TUNNEL_PREAMBLE = 15"
  by (simp add: TUNNEL_PREAMBLE_def ascii_bytes_def)

lemma slice_last_append: "slice_last n (slice_last n h @ c) = slice_last n (h @ c)"
  by (cases "length h \<le> n") (auto simp: slice_last_def add.commute)

lemma index_of_tail:
  assumes "index_of TUNNEL_PREAMBLE h = None"
  shows "index_of TUNNEL_PREAMBLE (h @ c) =
    map_option (\<lambda>i. (length h - marker_keep) + i) (index_of TUNNEL_PREAMBLE (slice_last marker_keep h @ c))"
proof (cases "length h \<le> marker_keep")
  case True
  then have "slice_last marker_keep h = h" "length h - marker_keep = 0" by (simp_all add: slice_last_def)
  then show ?thesis by (simp add: option.map_id0 [unfolded id_def] option.map_ident)
next
  case False
  then show ?thesis unfolding slice_last_def
    by (intro index_of_trim [OF assms]) (auto simp: marker_keep_def)
qed

definition after_marker :: "bytes \<Rightarrow> nat \<Rightarrow> bytes" where
  "after_marker h i = drop (i + length TUNNEL_PREAMBLE) h"

lemma push_unsynced_miss:
  assumes t: "tracks d h" and none: "index_of TUNNEL_PREAMBLE (h @ c) = None"
    and small: "length (h @ c) \<le> MAX_PREAMBLE_SCAN_BYTES"
  shows "\<exists>d'. push d c = (d', Inr []) \<and> tracks d' (h @ c)"
proof -
  let ?b = "slice_last marker_keep h @ c"
  have "index_of TUNNEL_PREAMBLE ?b = None"
    using none t index_of_tail [of h c] by (simp add: tracks_def)
  moreover have "(if marker_keep < length ?b then slice_last marker_keep ?b else ?b) = slice_last marker_keep (h @ c)"
    unfolding slice_last_append [symmetric, of marker_keep h c] by (simp add: slice_last_def)
  ultimately show ?thesis
    using t small none
    by (auto simp: push_def trySync_def indexOfSequence_def tracks_def Let_def marker_keep_def)
qed

lemma push_unsynced_overrun:
  assumes t: "tracks d h" and none: "index_of TUNNEL_PREAMBLE (h @ c) = None"
    and big: "length (h @ c) > MAX_PREAMBLE_SCAN_BYTES"
  shows "\<exists>d'. push d c = (d', Inl NeverAnnounced)"
proof -
  have "index_of TUNNEL_PREAMBLE (slice_last marker_keep h @ c) = None"
    using none t index_of_tail [of h c] by (simp add: tracks_def)
  then show ?thesis
    using t big by (auto simp: push_def trySync_def indexOfSequence_def tracks_def Let_def)
qed

lemma push_unsynced_hit:
  assumes t: "tracks d h" and hit: "index_of TUNNEL_PREAMBLE (h @ c) = Some i"
  shows "push d c = (case read_frames (after_marker (h @ c) i) of (b, r) \<Rightarrow>
           (d\<lparr>buffer := b, synced := True, scanned := length (h @ c)\<rparr>, r))"
proof -
  let ?k = "length h - marker_keep"
  obtain j where j: "index_of TUNNEL_PREAMBLE (slice_last marker_keep h @ c) = Some j" "i = ?k + j"
    using hit t index_of_tail [of h c]
    by (cases "index_of TUNNEL_PREAMBLE (slice_last marker_keep h @ c)") (auto simp: tracks_def)
  have "drop (j + length TUNNEL_PREAMBLE) (slice_last marker_keep h @ c) = after_marker (h @ c) i"
  proof -
    have "slice_last marker_keep h @ c = drop ?k (h @ c)" by (simp add: slice_last_def)
    then show ?thesis by (simp add: after_marker_def j(2) add.commute add.left_commute)
  qed
  then show ?thesis
    using t j(1)
    by (auto simp: push_def trySync_def indexOfSequence_def tracks_def Let_def split: prod.splits)
qed

lemma push_synced:
  "synced d \<Longrightarrow> push d c = (case read_frames (buffer d @ c) of (b, r) \<Rightarrow> (d\<lparr>buffer := b\<rparr>, r))"
  by (simp add: push_def Let_def)

lemma push_all_synced:
  assumes "synced d" "read_frame (buffer d) = Need" "read_frames (buffer d @ concat cs) = (r, Inr fs)"
  shows "push_all d cs = (d\<lparr>buffer := r\<rparr>, Inr fs)"
  using assms
proof (induction cs arbitrary: d fs)
  case Nil
  then show ?case by (simp add: tp.drain_Need)
next
  case (Cons c cs)
  obtain b res where drain: "read_frames (buffer d @ c) = (b, res)" by (cases "read_frames (buffer d @ c)")
  show ?case
  proof (cases res)
    case (Inl e)
    then show ?thesis
      using tp.drain_append_err [of "buffer d @ c" b e "concat cs"] drain Cons.prems by simp
  next
    case (Inr gs)
    then obtain hs where hs: "read_frames (b @ concat cs) = (r, Inr hs)" "fs = gs @ hs"
      using tp.drain_append_ok [of "buffer d @ c" b gs "concat cs"] drain Cons.prems
      by (auto split: prod.splits sum.splits)
    have "push_all (d\<lparr>buffer := b\<rparr>) cs = (d\<lparr>buffer := r\<rparr>, Inr hs)"
      using Cons.IH [of "d\<lparr>buffer := b\<rparr>" hs] Cons.prems(1) hs(1) drain Inr tp.drain_rest_Need by simp
    then show ?thesis using drain Inr hs(2) Cons.prems(1) by (simp add: push_synced)
  qed
qed

lemma push_all_scan:
  assumes "tracks d h" "h @ concat cs = noise @ TUNNEL_PREAMBLE @ body"
    and "index_of TUNNEL_PREAMBLE (noise @ TUNNEL_PREAMBLE) = Some (length noise)"
    and "length noise + length TUNNEL_PREAMBLE \<le> MAX_PREAMBLE_SCAN_BYTES"
    and body: "read_frames body = (r, Inr fs)"
  shows "\<exists>n. push_all d cs = (\<lparr>buffer = r, synced = True, scanned = n\<rparr>, Inr fs)"
  using assms(1,2)
proof (induction cs arbitrary: d h)
  have whole: "index_of TUNNEL_PREAMBLE (noise @ TUNNEL_PREAMBLE @ body) = Some (length noise)"
    using index_of_append_Some [OF assms(3), of body] by simp
  {
    case Nil
    then show ?case using whole by (simp add: tracks_def)
  next
    case (Cons c cs)
    have eq: "(h @ c) @ concat cs = noise @ TUNNEL_PREAMBLE @ body" using Cons.prems(2) by simp
    show ?case
    proof (cases "index_of TUNNEL_PREAMBLE (h @ c)")
      case None
      have "length (h @ c) < length noise + length TUNNEL_PREAMBLE"
      proof (rule ccontr)
        assume "\<not> ?thesis"
        then have "occurs_at TUNNEL_PREAMBLE (h @ c) (length noise)"
          using whole eq occurs_at_append_within [of "length noise" TUNNEL_PREAMBLE "h @ c" "concat cs"]
          by (simp add: index_of_Some_iff)
        with None show False by (simp add: index_of_None_iff)
      qed
      then obtain d' where "push d c = (d', Inr [])" "tracks d' (h @ c)"
        using push_unsynced_miss [OF Cons.prems(1) None] assms(4) by auto
      moreover obtain n where "push_all d' cs = (\<lparr>buffer = r, synced = True, scanned = n\<rparr>, Inr fs)"
        using Cons.IH [OF calculation(2) eq] by blast
      ultimately show ?thesis by simp
    next
      case (Some i)
      then have i: "i = length noise" using index_of_append_Some [OF Some, of "concat cs"] eq whole by simp
      have len: "length noise + length TUNNEL_PREAMBLE \<le> length (h @ c)"
        using Some i by (simp add: index_of_Some_iff occurs_at_def)
      let ?x = "after_marker (h @ c) i"
      have "?x @ concat cs = drop (length noise + length TUNNEL_PREAMBLE) ((h @ c) @ concat cs)"
        using len by (simp add: after_marker_def i)
      then have x: "?x @ concat cs = body" unfolding eq by simp
      obtain b res where drain: "read_frames ?x = (b, res)" by (cases "read_frames ?x")
      show ?thesis
      proof (cases res)
        case (Inl e)
        then show ?thesis using tp.drain_append_err [of ?x b e "concat cs"] drain body x by simp
      next
        case (Inr gs)
        then obtain hs where hs: "read_frames (b @ concat cs) = (r, Inr hs)" "fs = gs @ hs"
          using tp.drain_append_ok [of ?x b gs "concat cs"] drain body x
          by (auto split: prod.splits sum.splits)
        let ?d = "d\<lparr>buffer := b, synced := True, scanned := length (h @ c)\<rparr>"
        have "push_all ?d cs = (?d\<lparr>buffer := r\<rparr>, Inr hs)"
          using hs(1) drain Inr tp.drain_rest_Need by (intro push_all_synced) auto
        then show ?thesis
          using push_unsynced_hit [OF Cons.prems(1) Some] drain Inr hs(2) by (cases d) simp
      qed
    qed
  }
qed

lemma tracks_new: "tracks (new_FrameDecoder True) []"
  by (simp add: tracks_def new_FrameDecoder_def slice_last_def index_of.simps)

section \<open>Properties\<close>

text \<open>
  (C15) The tunnel decoder recovers the stream whatever the transport does to it: terminal noise
  ahead of the marker is discarded, chunk boundaries may fall anywhere (inside the noise, the
  marker, a header or a payload), and the frames that come out are exactly the frames that were
  encoded, in order, with precisely the trailing partial frame still pending.
\<close>

theorem tunnel_decode_encode:
  assumes "\<forall>f \<in> set fs. frame_ok f"
    and "read_frame tail = Need"
    and "index_of TUNNEL_PREAMBLE (noise @ TUNNEL_PREAMBLE) = Some (length noise)"
    and "length noise + length TUNNEL_PREAMBLE \<le> MAX_PREAMBLE_SCAN_BYTES"
    and "concat chunks = noise @ TUNNEL_PREAMBLE @ concat (map frame_bytes fs) @ tail"
  shows "\<exists>n. push_all (new_FrameDecoder True) chunks =
    (\<lparr>buffer = tail, synced = True, scanned = n\<rparr>, Inr fs)"
proof -
  have "read_frames (concat (map frame_bytes fs) @ tail) = (tail, Inr fs)"
    using assms(1,2) by (rule read_frames_encoded)
  with assms(3-5) tracks_new show ?thesis
    by (intro push_all_scan [where h = "[]"]) auto
qed

theorem tunnel_decode_encode_witness:
  "\<exists>n. push_all (new_FrameDecoder True)
        [[0x24, 0x20, 0], drop 1 TUNNEL_PREAMBLE @ [2, 0, 0, 0], [7, 0, 0, 0, 1, 0xFF, 3, 0]] =
      (\<lparr>buffer = [3, 0], synced = True, scanned = n\<rparr>,
       Inr [\<lparr>type = Data, streamId = 7, payload = [0xFF]\<rparr>])"
proof (rule tunnel_decode_encode [where noise = "[0x24, 0x20]"])
  show "\<forall>f \<in> set [\<lparr>type = Data, streamId = 7, payload = [0xFF]\<rparr>]. frame_ok f"
    by (simp add: frame_ok_def MAX_PAYLOAD_BYTES_def)
  show "read_frame [3, 0] = Need" by (simp add: read_frame_def HEADER_BYTES_def)
  show "index_of TUNNEL_PREAMBLE ([0x24, 0x20] @ TUNNEL_PREAMBLE) = Some (length [0x24, 0x20 :: byte])"
    by (simp add: index_of.simps TUNNEL_PREAMBLE_def ascii_bytes_def)
  show "length [0x24, 0x20 :: byte] + length TUNNEL_PREAMBLE \<le> MAX_PREAMBLE_SCAN_BYTES"
    by (simp add: length_preamble MAX_PREAMBLE_SCAN_BYTES_def)
  show "concat [[0x24, 0x20, 0], drop 1 TUNNEL_PREAMBLE @ [2, 0, 0, 0], [7, 0, 0, 0, 1, 0xFF, 3, 0]] =
      [0x24, 0x20] @ TUNNEL_PREAMBLE
        @ concat (map frame_bytes [\<lparr>type = Data, streamId = 7, payload = [0xFF]\<rparr>]) @ [3, 0]"
    by (simp add: TUNNEL_PREAMBLE_def frame_bytes_def be32_def)
qed

text \<open>
  (Lemma) The bytes a decoder has accepted are accounted for exactly: on an announced channel a
  successful read consumes, byte for byte, the encodings of the frames it returned and keeps the
  rest pending, every returned frame is within the payload cap, and what is pending is shorter
  than one maximal frame, so a stream of good frames never grows the buffer.
\<close>

theorem tunnel_push_accounts:
  assumes "synced d" and "push d chunk = (d', Inr fs)"
  shows "buffer d @ chunk = concat (map frame_bytes fs) @ buffer d'
    \<and> (\<forall>f \<in> set fs. length (payload f) \<le> MAX_PAYLOAD_BYTES)
    \<and> pending d' < HEADER_BYTES + MAX_PAYLOAD_BYTES"
proof -
  from assms have drain: "read_frames (buffer d @ chunk) = (buffer d', Inr fs)"
    by (auto simp: push_synced split: prod.splits)
  show ?thesis
    using read_frames_ok_inv [OF drain] read_frame_Need_bound [OF tp.drain_rest_Need [OF drain]]
    by (auto simp: pending_def frame_ok_def)
qed

theorem tunnel_push_accounts_witness:
  "synced (new_FrameDecoder False)
   \<and> push (new_FrameDecoder False) [3, 0, 0, 0, 9, 0, 0, 0, 0, 1] =
       (\<lparr>buffer = [1], synced = True, scanned = 0\<rparr>, Inr [\<lparr>type = Close, streamId = 9, payload = []\<rparr>])
   \<and> pending \<lparr>buffer = [1], synced = True, scanned = 0\<rparr> < HEADER_BYTES + MAX_PAYLOAD_BYTES"
proof -
  have a: "synced (new_FrameDecoder False)" by (simp add: new_FrameDecoder_def)
  have b: "push (new_FrameDecoder False) [3, 0, 0, 0, 9, 0, 0, 0, 0, 1] =
       (\<lparr>buffer = [1], synced = True, scanned = 0\<rparr>, Inr [\<lparr>type = Close, streamId = 9, payload = []\<rparr>])"
    by (simp add: push_def new_FrameDecoder_def Let_def read_frames.simps read_frame_def
        HEADER_BYTES_def MAX_PAYLOAD_BYTES_def of_be32_def isFrameType_def)
  show ?thesis using a b tunnel_push_accounts [OF a b] by blast
qed

text \<open>
  (Lemma) A channel whose client never announces itself is refused, not buffered: if the bytes
  delivered never contain the marker, the decoder stays unsynced holding at most one byte less
  than the marker as long as no more than the scan limit has gone by, and the first chunk that
  takes the total past the limit raises the never-announced error.
\<close>

theorem tunnel_scan_bounded:
  assumes "index_of TUNNEL_PREAMBLE (concat chunks) = None"
  shows "if length (concat chunks) \<le> MAX_PREAMBLE_SCAN_BYTES
    then \<exists>d. push_all (new_FrameDecoder True) chunks = (d, Inr []) \<and> \<not> synced d
      \<and> pending d < length TUNNEL_PREAMBLE
    else \<exists>d. push_all (new_FrameDecoder True) chunks = (d, Inl NeverAnnounced)"
proof -
  have gen: "if length (h @ concat cs) \<le> MAX_PREAMBLE_SCAN_BYTES
    then \<exists>d'. push_all d cs = (d', Inr []) \<and> tracks d' (h @ concat cs)
    else \<exists>d'. push_all d cs = (d', Inl NeverAnnounced)"
    if "tracks d h" "index_of TUNNEL_PREAMBLE (h @ concat cs) = None" "length h \<le> MAX_PREAMBLE_SCAN_BYTES"
    for d h cs
    using that
  proof (induction cs arbitrary: d h)
    case Nil
    then show ?case by simp
  next
    case (Cons c cs)
    have none: "index_of TUNNEL_PREAMBLE (h @ c) = None"
      using Cons.prems(2) index_of_append_Some [of TUNNEL_PREAMBLE "h @ c" _ "concat cs"] by fastforce
    show ?case
    proof (cases "length (h @ c) \<le> MAX_PREAMBLE_SCAN_BYTES")
      case True
      then obtain d' where d': "push d c = (d', Inr [])" "tracks d' (h @ c)"
        using push_unsynced_miss [OF Cons.prems(1) none] by auto
      show ?thesis using Cons.IH [OF d'(2)] Cons.prems(2) True d'(1) by (auto split: if_splits)
    next
      case False
      then obtain d' where "push d c = (d', Inl NeverAnnounced)"
        using push_unsynced_overrun [OF Cons.prems(1) none] by auto
      then show ?thesis using False by simp
    qed
  qed
  have "tracks d h \<Longrightarrow> \<not> synced d \<and> pending d < length TUNNEL_PREAMBLE" for d h
    by (auto simp: tracks_def pending_def slice_last_def marker_keep_def length_preamble)
  then show ?thesis using gen [OF tracks_new, of chunks] assms by (fastforce split: if_splits)
qed

theorem tunnel_scan_bounded_witness:
  "index_of TUNNEL_PREAMBLE (concat [[1, 2], [3]]) = None
   \<and> (\<exists>d. push_all (new_FrameDecoder True) [[1, 2], [3]] = (d, Inr []) \<and> \<not> synced d
        \<and> pending d < length TUNNEL_PREAMBLE)"
proof -
  have none: "index_of TUNNEL_PREAMBLE (concat [[1, 2], [3]]) = None"
    by (simp add: index_of.simps length_preamble)
  then show ?thesis using tunnel_scan_bounded [OF none] by (simp add: MAX_PREAMBLE_SCAN_BYTES_def)
qed

text \<open>
  (Lemma) A credit survives the wire modulo \<open>2^32\<close>: \<open>decodeWindowCredit\<close> of a
  \<open>WINDOW\<close> payload is the credit that was put in, reduced to 32 bits, and a payload of any
  other length is refused.
\<close>

theorem window_credit_roundtrip:
  "decodeWindowCredit (windowPayload credit) = Inr (credit mod 2 ^ 32)
   \<and> (length p \<noteq> 4 \<longrightarrow> decodeWindowCredit p = Inl WindowPayloadSize)"
  by (simp add: decodeWindowCredit_def windowPayload_def unat_of_nat)

theorem window_credit_roundtrip_witness:
  "decodeWindowCredit (windowPayload 4294967297) = Inr 1 \<and> decodeWindowCredit [1] = Inl WindowPayloadSize"
  using window_credit_roundtrip [of 4294967297 "[1]"] by simp

end
