(* ===== verification/Tunnel_Mux.thy ===== *)
theory Tunnel_Mux
  imports Tunnel_Protocol State_Systems
begin

text \<open>
  The Hezo-side end of the tunnel, \<open>services/sandbox/tunnel/mux.ts\<close>: the class
  \<open>TunnelMux\<close>.

  \<^item> \<open>streams\<close> is the class's \<open>Map\<close>, an association list in insertion order from
    stream id to the address of a \<open>Stream\<close> object in \<open>store\<close>. The indirection is the
    program's: the socket handlers close over the object and the stream id it was opened under
    (\<open>captured\<close>, parallel to \<open>store\<close>), so they still reach a stream that the map no
    longer holds.
  \<^item> \<open>queue\<close>, \<open>work\<close> and \<open>connecting\<close> are the promise chain of
    \<open>handleChunk\<close>: the chunks not yet processed, the frames the running \<open>process\<close>
    call has still to dispatch, and the connect it is suspended on. Socket events, the stall
    timer and \<open>closeAll\<close> may run at any point where \<open>process\<close> is suspended or idle, so the
    machine is a step relation.
  \<^item> What the class does to the outside (channel writes, socket calls, dials) is recorded in
    order in \<open>log\<close>, together with what it is told: each chunk as it arrives, each chunk taken
    off the queue, each frame dispatched, each dial that succeeded with the stream it was for and
    the socket it gave, whether the socket took a write, and each drain event.
    Whether a socket write was accepted, how a connect ends and the time of day are inputs.
\<close>

section \<open>State\<close>

record Stream =
  socket :: nat
  credit :: int
  pausedForCredit :: bool
  awaitingDrain :: bool
  unacked :: nat
  stream_closed :: bool
  blockedSince :: "int option"
  blockReported :: bool

datatype effect =
    ChannelWrite bytes
  | ChannelClose
  | Connect TunnelTarget
  | Connected u32 nat
  | SocketWrite nat bytes bool
  | SocketEnd nat
  | SocketDestroy nat
  | SocketPause nat
  | SocketResume nat
  | Drained nat
  | StallWarning u32
  | Arrived bytes
  | Fed bytes
  | Handled Frame

record TunnelMux =
  decoder :: FrameDecoder
  store :: "Stream list"
  captured :: "u32 list"
  streams :: "(u32 \<times> nat) list"
  window :: nat
  mux_closed :: bool
  next_socket :: nat
  queue :: "bytes list"
  work :: "Frame list option"
  connecting :: "(u32 \<times> TunnelTarget) option"
  framesIn :: nat
  framesOut :: nat
  payloadBytesIn :: nat
  payloadBytesOut :: nat
  socketBytesIn :: nat
  socketBytesOut :: nat
  creditStalls :: nat
  drainStalls :: nat
  log :: "effect list"

definition DEFAULT_WINDOW_BYTES :: nat where
  "DEFAULT_WINDOW_BYTES = 256 * 1024"

definition STALL_WARN_MS :: int where
  "STALL_WARN_MS = 20000"

definition new_TunnelMux :: "nat option \<Rightarrow> TunnelMux" where
  "new_TunnelMux windowBytes =
     \<lparr>decoder = new_FrameDecoder True, store = [], captured = [], streams = [],
      window = (case windowBytes of None \<Rightarrow> DEFAULT_WINDOW_BYTES | Some w \<Rightarrow> w),
      mux_closed = False, next_socket = 0, queue = [], work = None, connecting = None,
      framesIn = 0, framesOut = 0, payloadBytesIn = 0, payloadBytesOut = 0,
      socketBytesIn = 0, socketBytesOut = 0, creditStalls = 0, drainStalls = 0, log = []\<rparr>"

definition emit :: "effect \<Rightarrow> TunnelMux \<Rightarrow> TunnelMux" where
  "emit e m = m\<lparr>log := log m @ [e]\<rparr>"

definition upd :: "nat \<Rightarrow> (Stream \<Rightarrow> Stream) \<Rightarrow> TunnelMux \<Rightarrow> TunnelMux" where
  "upd a f m = m\<lparr>store := (store m)[a := f (store m ! a)]\<rparr>"

text \<open>A handler may throw; the object keeps the changes made before the throw.\<close>

type_synonym outcome = "tunnel_error option \<times> TunnelMux"

definition and_then :: "outcome \<Rightarrow> (TunnelMux \<Rightarrow> outcome) \<Rightarrow> outcome" where
  "and_then r k = (case r of (Some e, m) \<Rightarrow> (Some e, m) | (None, m) \<Rightarrow> k m)"

section \<open>Operations\<close>

definition send :: "FrameType \<Rightarrow> u32 \<Rightarrow> bytes \<Rightarrow> TunnelMux \<Rightarrow> outcome" where
  "send t sid p m =
     (if mux_closed m then (None, m)
      else
        let m1 = m\<lparr>framesOut := framesOut m + 1, payloadBytesOut := payloadBytesOut m + length p\<rparr>
        in case encodeFrame t sid p of
             Inl e \<Rightarrow> (Some e, m1)
           | Inr b \<Rightarrow> (None, emit (ChannelWrite b) m1))"

definition closeAll :: "TunnelMux \<Rightarrow> TunnelMux" where
  "closeAll m =
     (if mux_closed m then m
      else
        let m1 = m\<lparr>mux_closed := True\<rparr>;
            m2 = m1\<lparr>log := log m1 @ map (\<lambda>(_, a). SocketDestroy (socket (store m1 ! a))) (streams m1)\<rparr>
        in emit ChannelClose (m2\<lparr>streams := []\<rparr>))"

definition flushCredit :: "u32 \<Rightarrow> nat \<Rightarrow> TunnelMux \<Rightarrow> outcome" where
  "flushCredit sid a m =
     (let s = store m ! a in
      if awaitingDrain s \<or> stream_closed s then (None, m)
      else if 2 * unacked s < window m then (None, m)
      else and_then (send Window sid (windowPayload (unacked s)) m)
             (\<lambda>m. (None, upd a (\<lambda>s. s\<lparr>unacked := 0\<rparr>) m)))"

text \<open>\<open>onOpen\<close> up to its \<open>await\<close>; the two definitions after it are what follows the await.\<close>

definition onOpen :: "u32 \<Rightarrow> utext \<Rightarrow> TunnelMux \<Rightarrow> outcome" where
  "onOpen sid targetKey m =
     (if map_of (streams m) sid \<noteq> None then (None, m)
      else case isTunnelTarget targetKey of
        None \<Rightarrow> send Close sid [] m
      | Some t \<Rightarrow> (None, emit (Connect t) (m\<lparr>connecting := Some (sid, t)\<rparr>)))"

definition connect_failed :: "TunnelMux \<Rightarrow> outcome" where
  "connect_failed m = (case connecting m of
       None \<Rightarrow> (None, m)
     | Some (sid, t) \<Rightarrow> send Close sid [] (m\<lparr>connecting := None\<rparr>))"

definition connect_done :: "TunnelMux \<Rightarrow> outcome" where
  "connect_done m = (case connecting m of
       None \<Rightarrow> (None, m)
     | Some (sid, t) \<Rightarrow>
         let m1 = emit (Connected sid (next_socket m)) (m\<lparr>connecting := None, next_socket := next_socket m + 1\<rparr>) in
         if mux_closed m then (None, emit (SocketDestroy (next_socket m)) m1)
         else
           let s = \<lparr>socket = next_socket m, credit = int (window m), pausedForCredit = False,
                    awaitingDrain = False, unacked = 0, stream_closed = False,
                    blockedSince = None, blockReported = False\<rparr>;
               m2 = m1\<lparr>store := store m @ [s], captured := captured m @ [sid],
                       streams := streams m @ [(sid, length (store m))]\<rparr>
           in send Window sid (windowPayload (window m)) m2)"

definition onData :: "bool \<Rightarrow> u32 \<Rightarrow> bytes \<Rightarrow> TunnelMux \<Rightarrow> outcome" where
  "onData accepted sid p m = (case map_of (streams m) sid of
       None \<Rightarrow> (None, m)
     | Some a \<Rightarrow>
         if stream_closed (store m ! a) then (None, m)
         else
           let m1 = upd a (\<lambda>s. s\<lparr>unacked := unacked s + length p\<rparr>)
                      (emit (SocketWrite (socket (store m ! a)) p accepted)
                        (m\<lparr>socketBytesIn := socketBytesIn m + length p\<rparr>))
           in if \<not> accepted
              then (None, upd a (\<lambda>s. s\<lparr>awaitingDrain := True\<rparr>)
                     (if awaitingDrain (store m1 ! a) then m1
                      else m1\<lparr>drainStalls := drainStalls m1 + 1\<rparr>))
              else flushCredit sid a m1)"

definition onWindow :: "u32 \<Rightarrow> nat \<Rightarrow> TunnelMux \<Rightarrow> TunnelMux" where
  "onWindow sid c m = (case map_of (streams m) sid of
       None \<Rightarrow> m
     | Some a \<Rightarrow>
         if stream_closed (store m ! a) then m
         else
           let m1 = upd a (\<lambda>s. s\<lparr>credit := credit s + int c\<rparr>) m; s1 = store m1 ! a
           in if pausedForCredit s1 \<and> credit s1 > 0
              then emit (SocketResume (socket s1)) (upd a (\<lambda>s. s\<lparr>pausedForCredit := False\<rparr>) m1)
              else m1)"

definition onRemoteClose :: "u32 \<Rightarrow> TunnelMux \<Rightarrow> TunnelMux" where
  "onRemoteClose sid m = (case map_of (streams m) sid of
       None \<Rightarrow> m
     | Some a \<Rightarrow>
         let m1 = upd a (\<lambda>s. s\<lparr>stream_closed := True\<rparr>) m;
             m2 = (if pausedForCredit (store m1 ! a)
                   then emit (SocketResume (socket (store m1 ! a)))
                          (upd a (\<lambda>s. s\<lparr>pausedForCredit := False\<rparr>) m1)
                   else m1);
             m3 = emit (SocketEnd (socket (store m2 ! a))) m2
         in m3\<lparr>streams := filter (\<lambda>(k, _). k \<noteq> sid) (streams m3)\<rparr>)"

text \<open>The handlers registered on a stream's socket; \<open>a\<close> is the object they close over.\<close>

function slices :: "bytes \<Rightarrow> bytes list" where
  "slices xs = (if xs = [] then [] else take MAX_PAYLOAD_BYTES xs # slices (drop MAX_PAYLOAD_BYTES xs))"
  by pat_completeness auto
termination
  by (relation "measure length") (auto simp: MAX_PAYLOAD_BYTES_def)

declare slices.simps [simp del]

fun send_slices :: "u32 \<Rightarrow> nat \<Rightarrow> bytes list \<Rightarrow> TunnelMux \<Rightarrow> outcome" where
  "send_slices sid a [] m = (None, m)"
| "send_slices sid a (p # ps) m =
     and_then (send Data sid p m)
       (\<lambda>m. send_slices sid a ps (upd a (\<lambda>s. s\<lparr>credit := credit s - int (length p)\<rparr>) m))"

definition onLocalData :: "u32 \<Rightarrow> nat \<Rightarrow> bytes \<Rightarrow> TunnelMux \<Rightarrow> outcome" where
  "onLocalData sid a data m =
     (if stream_closed (store m ! a) then (None, m)
      else and_then (send_slices sid a (slices data) (m\<lparr>socketBytesOut := socketBytesOut m + length data\<rparr>))
        (\<lambda>m. if credit (store m ! a) \<le> 0 \<and> \<not> pausedForCredit (store m ! a)
             then (None, emit (SocketPause (socket (store m ! a)))
                    ((upd a (\<lambda>s. s\<lparr>pausedForCredit := True\<rparr>) m)\<lparr>creditStalls := creditStalls m + 1\<rparr>))
             else (None, m)))"

definition onLocalEnd :: "u32 \<Rightarrow> nat \<Rightarrow> TunnelMux \<Rightarrow> outcome" where
  "onLocalEnd sid a m =
     (if stream_closed (store m ! a) then (None, m)
      else send Close sid []
        ((upd a (\<lambda>s. s\<lparr>stream_closed := True\<rparr>) m)\<lparr>streams := filter (\<lambda>(k, _). k \<noteq> sid) (streams m)\<rparr>))"

definition onDrain :: "u32 \<Rightarrow> nat \<Rightarrow> TunnelMux \<Rightarrow> outcome" where
  "onDrain sid a m =
     flushCredit sid a (upd a (\<lambda>s. s\<lparr>awaitingDrain := False\<rparr>) (emit (Drained (socket (store m ! a))) m))"

text \<open>The stall watchdog: one object at a time, and the pass over the map in its order.\<close>

definition watch :: "int \<Rightarrow> Stream \<Rightarrow> Stream \<times> bool" where
  "watch now s =
     (if \<not> (pausedForCredit s \<or> awaitingDrain s)
      then (s\<lparr>blockedSince := None, blockReported := False\<rparr>, False)
      else case blockedSince s of
        None \<Rightarrow> (s\<lparr>blockedSince := Some now\<rparr>, False)
      | Some since \<Rightarrow>
          if blockReported s \<or> now - since < STALL_WARN_MS then (s, False)
          else (s\<lparr>blockReported := True\<rparr>, True))"

fun report_streams :: "int \<Rightarrow> (u32 \<times> nat) list \<Rightarrow> TunnelMux \<Rightarrow> TunnelMux" where
  "report_streams now [] m = m"
| "report_streams now ((sid, a) # rest) m =
     (case watch now (store m ! a) of (s, warn) \<Rightarrow>
        let m1 = upd a (\<lambda>_. s) m
        in report_streams now rest (if warn then emit (StallWarning sid) m1 else m1))"

definition reportStalledStreams :: "int \<Rightarrow> TunnelMux \<Rightarrow> TunnelMux" where
  "reportStalledStreams now m = (if mux_closed m then m else report_streams now (streams m) m)"

section \<open>The serialized reader\<close>

definition handleChunk :: "bytes \<Rightarrow> TunnelMux \<Rightarrow> TunnelMux" where
  "handleChunk chunk m = m\<lparr>queue := queue m @ [chunk]\<rparr>"

text \<open>A throw anywhere in \<open>process\<close> ends the call and tears the tunnel down.\<close>

definition catch_close :: "outcome \<Rightarrow> TunnelMux" where
  "catch_close r = (case r of (None, m) \<Rightarrow> m | (Some e, m) \<Rightarrow> closeAll (m\<lparr>work := None\<rparr>))"

definition process_begin :: "bytes \<Rightarrow> TunnelMux \<Rightarrow> TunnelMux" where
  "process_begin chunk m =
     (if mux_closed m then m
      else case push (decoder m) chunk of (d, r) \<Rightarrow>
        let m1 = emit (Fed chunk) (m\<lparr>decoder := d\<rparr>)
        in case r of
             Inl e \<Rightarrow> closeAll m1
           | Inr frames \<Rightarrow> m1\<lparr>work := Some frames\<rparr>)"

definition dispatch :: "bool \<Rightarrow> Frame \<Rightarrow> TunnelMux \<Rightarrow> outcome" where
  "dispatch accepted f m =
     (case type f of
        Open \<Rightarrow> onOpen (streamId f) (decode_text (payload f)) m
      | Data \<Rightarrow> onData accepted (streamId f) (payload f) m
      | Close \<Rightarrow> (None, onRemoteClose (streamId f) m)
      | Window \<Rightarrow> (case decodeWindowCredit (payload f) of
            Inl e \<Rightarrow> (Some e, m)
          | Inr c \<Rightarrow> (None, onWindow (streamId f) c m)))"

definition process_frame :: "bool \<Rightarrow> Frame \<Rightarrow> Frame list \<Rightarrow> TunnelMux \<Rightarrow> TunnelMux" where
  "process_frame accepted f rest m =
     catch_close (dispatch accepted f
       (emit (Handled f) (m\<lparr>work := Some rest, framesIn := framesIn m + 1,
          payloadBytesIn := payloadBytesIn m + length (payload f)\<rparr>)))"

inductive mux_step :: "TunnelMux \<Rightarrow> TunnelMux \<Rightarrow> bool" where
  chunk: "mux_step m (handleChunk c (emit (Arrived c) m))"
| begin_chunk: "work m = None \<Longrightarrow> queue m = c # cs \<Longrightarrow> mux_step m (process_begin c (m\<lparr>queue := cs\<rparr>))"
| frame: "work m = Some (f # fs) \<Longrightarrow> connecting m = None \<Longrightarrow> mux_step m (process_frame accepted f fs m)"
| finish: "work m = Some [] \<Longrightarrow> connecting m = None \<Longrightarrow> mux_step m (m\<lparr>work := None\<rparr>)"
| connected: "connecting m \<noteq> None \<Longrightarrow> mux_step m (catch_close (connect_done m))"
| connect_error: "connecting m \<noteq> None \<Longrightarrow> mux_step m (catch_close (connect_failed m))"
| local_data: "a < length (store m) \<Longrightarrow> mux_step m (snd (onLocalData (captured m ! a) a data m))"
| local_end: "a < length (store m) \<Longrightarrow> mux_step m (snd (onLocalEnd (captured m ! a) a m))"
| drain: "a < length (store m) \<Longrightarrow> mux_step m (snd (onDrain (captured m ! a) a m))"
| close: "mux_step m (closeAll m)"
| tick: "mux_step m (reportStalledStreams now m)"

section \<open>What a handler does to the outside\<close>

text \<open>The observations a log holds: the bytes written to the channel, fed chunks, dispatched frames.\<close>

fun written :: "effect list \<Rightarrow> bytes list" where
  "written [] = []"
| "written (ChannelWrite b # es) = b # written es"
| "written (_ # es) = written es"

fun fed :: "effect list \<Rightarrow> bytes list" where
  "fed [] = []"
| "fed (Fed c # es) = c # fed es"
| "fed (_ # es) = fed es"

fun handled :: "effect list \<Rightarrow> Frame list" where
  "handled [] = []"
| "handled (Handled f # es) = f # handled es"
| "handled (_ # es) = handled es"

fun arrived :: "effect list \<Rightarrow> bytes list" where
  "arrived [] = []"
| "arrived (Arrived c # es) = c # arrived es"
| "arrived (_ # es) = arrived es"

lemma arrived_append [simp]: "arrived (xs @ ys) = arrived xs @ arrived ys"
  by (induction xs rule: arrived.induct) auto

lemma written_append [simp]: "written (xs @ ys) = written xs @ written ys"
  by (induction xs rule: written.induct) auto

lemma fed_append [simp]: "fed (xs @ ys) = fed xs @ fed ys"
  by (induction xs rule: fed.induct) auto

lemma handled_append [simp]: "handled (xs @ ys) = handled xs @ handled ys"
  by (induction xs rule: handled.induct) auto

lemma log_destroys [simp]:
  "written (map (\<lambda>(_, a). SocketDestroy (g a)) xs) = []"
  "fed (map (\<lambda>(_, a). SocketDestroy (g a)) xs) = []"
  "handled (map (\<lambda>(_, a). SocketDestroy (g a)) xs) = []"
  "arrived (map (\<lambda>(_, a). SocketDestroy (g a)) xs) = []"
  by (induction xs) auto

text \<open>
  \<open>outward m m'\<close>: going from \<open>m\<close> to \<open>m'\<close> left the reader alone, wrote only whole
  well-formed frames and counted them, and wrote nothing at all if the tunnel was already closed.
\<close>

definition outward :: "TunnelMux \<Rightarrow> TunnelMux \<Rightarrow> bool" where
  "outward m m' \<longleftrightarrow>
     decoder m' = decoder m \<and> work m' = work m \<and> queue m' = queue m \<and> window m' = window m
     \<and> framesIn m' = framesIn m \<and> payloadBytesIn m' = payloadBytesIn m
     \<and> (mux_closed m \<longrightarrow> mux_closed m')
     \<and> (\<exists>es. log m' = log m @ es \<and> fed es = [] \<and> handled es = [] \<and> arrived es = []
          \<and> (mux_closed m \<longrightarrow> written es = [])
          \<and> (\<exists>fs. written es = map frame_bytes fs \<and> (\<forall>f \<in> set fs. frame_ok f)
               \<and> framesOut m' = framesOut m + length fs
               \<and> payloadBytesOut m' = payloadBytesOut m + sum_list (map (length \<circ> payload) fs)))"

lemma outward_refl [simp]: "outward m m"
  by (auto simp: outward_def)

lemma outward_trans [trans]: "outward a b \<Longrightarrow> outward b c \<Longrightarrow> outward a c"
proof -
  assume ab: "outward a b" and bc: "outward b c"
  from ab obtain es fs where 1: "log b = log a @ es" "fed es = []" "handled es = []" "arrived es = []"
    "mux_closed a \<longrightarrow> written es = []" "written es = map frame_bytes fs" "\<forall>f \<in> set fs. frame_ok f"
    "framesOut b = framesOut a + length fs"
    "payloadBytesOut b = payloadBytesOut a + sum_list (map (length \<circ> payload) fs)"
    by (auto simp: outward_def)
  from bc obtain es' fs' where 2: "log c = log b @ es'" "fed es' = []" "handled es' = []" "arrived es' = []"
    "mux_closed b \<longrightarrow> written es' = []" "written es' = map frame_bytes fs'" "\<forall>f \<in> set fs'. frame_ok f"
    "framesOut c = framesOut b + length fs'"
    "payloadBytesOut c = payloadBytesOut b + sum_list (map (length \<circ> payload) fs')"
    by (auto simp: outward_def)
  have same: "decoder c = decoder a" "work c = work a" "queue c = queue a" "window c = window a"
    "framesIn c = framesIn a" "payloadBytesIn c = payloadBytesIn a"
    using ab bc by (simp_all add: outward_def)
  have cl: "mux_closed a \<longrightarrow> mux_closed b" "mux_closed b \<longrightarrow> mux_closed c"
    using ab bc by (simp_all add: outward_def)
  have "log c = log a @ (es @ es')" "fed (es @ es') = []" "handled (es @ es') = []" "arrived (es @ es') = []"
    "written (es @ es') = map frame_bytes (fs @ fs')"
    "framesOut c = framesOut a + length (fs @ fs')"
    "payloadBytesOut c = payloadBytesOut a + sum_list (map (length \<circ> payload) (fs @ fs'))"
    using 1(1-4,6,8,9) 2(1-4,6,8,9) by simp_all
  moreover have "mux_closed a \<longrightarrow> written (es @ es') = []" using 1(5) 2(5) cl(1) by simp
  moreover have "\<forall>f \<in> set (fs @ fs'). frame_ok f" using 1(7) 2(7) by auto
  ultimately show ?thesis
    unfolding outward_def using same cl by blast
qed

definition silent :: "effect \<Rightarrow> bool" where
  "silent e \<longleftrightarrow> written [e] = [] \<and> fed [e] = [] \<and> handled [e] = [] \<and> arrived [e] = []"

lemma silent_simps [simp]:
  "silent ChannelClose" "silent (Connect t)" "silent (Connected sid n)" "silent (SocketWrite n p b)" "silent (SocketEnd n)"
  "silent (SocketDestroy n)" "silent (SocketPause n)" "silent (SocketResume n)" "silent (Drained n)" "silent (StallWarning i)"
  by (simp_all add: silent_def)

lemma outward_silent: "outward m m' \<Longrightarrow> silent e \<Longrightarrow> outward m (emit e m')"
proof -
  assume "outward m m'" "silent e"
  moreover have "outward m' (emit e m')"
    using \<open>silent e\<close> unfolding outward_def emit_def silent_def by (auto intro!: exI [of _ "[e]"])
  ultimately show ?thesis by (blast intro: outward_trans)
qed

lemma outward_upd [simp]: "outward m (upd a g m') = outward m m'" "outward (upd a g m) m' = outward m m'"
  by (simp_all add: outward_def upd_def)

lemma outward_fields [simp]:
  "outward m (m'\<lparr>streams := x1\<rparr>) = outward m m'" "outward m (m'\<lparr>store := x2\<rparr>) = outward m m'"
  "outward m (m'\<lparr>captured := x3\<rparr>) = outward m m'" "outward m (m'\<lparr>connecting := x4\<rparr>) = outward m m'"
  "outward m (m'\<lparr>next_socket := x5\<rparr>) = outward m m'" "outward m (m'\<lparr>socketBytesIn := x6\<rparr>) = outward m m'"
  "outward m (m'\<lparr>socketBytesOut := x6\<rparr>) = outward m m'" "outward m (m'\<lparr>creditStalls := x6\<rparr>) = outward m m'"
  "outward m (m'\<lparr>drainStalls := x6\<rparr>) = outward m m'"
  by (simp_all add: outward_def)

text \<open>Sending a payload within the cap never throws.\<close>

definition sent :: "FrameType \<Rightarrow> u32 \<Rightarrow> bytes \<Rightarrow> TunnelMux \<Rightarrow> TunnelMux" where
  "sent t sid p m =
     (if mux_closed m then m
      else emit (ChannelWrite (frame_bytes \<lparr>type = t, streamId = sid, payload = p\<rparr>))
        (m\<lparr>framesOut := framesOut m + 1, payloadBytesOut := payloadBytesOut m + length p\<rparr>))"

lemma send_ok: "length p \<le> MAX_PAYLOAD_BYTES \<Longrightarrow> send t sid p m = (None, sent t sid p m)"
  by (simp add: send_def sent_def encodeFrame_eq Let_def)

lemma length_windowPayload [simp]: "length (windowPayload c) \<le> MAX_PAYLOAD_BYTES"
  by (simp add: windowPayload_def MAX_PAYLOAD_BYTES_def)

lemma outward_sent:
  "outward m m' \<Longrightarrow> length p \<le> MAX_PAYLOAD_BYTES \<Longrightarrow> outward m (sent t sid p m')"
proof -
  assume "outward m m'" "length p \<le> MAX_PAYLOAD_BYTES"
  moreover have "outward m' (sent t sid p m')"
  proof (cases "mux_closed m'")
    case False
    let ?f = "\<lparr>type = t, streamId = sid, payload = p\<rparr>"
    show ?thesis using False \<open>length p \<le> MAX_PAYLOAD_BYTES\<close>
      unfolding outward_def sent_def emit_def
      by (auto simp: frame_ok_def intro!: exI [of _ "[ChannelWrite (frame_bytes ?f)]"] exI [of _ "[?f]"])
  qed (simp add: sent_def)
  ultimately show ?thesis by (blast intro: outward_trans)
qed

lemma and_then_simps [simp]: "and_then (None, m) k = k m" "and_then (Some e, m) k = (Some e, m)"
  by (simp_all add: and_then_def)

lemma slices_bound: "p \<in> set (slices xs) \<Longrightarrow> length p \<le> MAX_PAYLOAD_BYTES"
  by (induction xs rule: slices.induct) (subst (asm) (2) slices.simps, auto split: if_splits)

lemma concat_slices: "concat (slices xs) = xs"
  by (induction xs rule: slices.induct) (subst slices.simps, auto)

lemma sent_fields [simp]:
  "store (sent t sid p m) = store m" "captured (sent t sid p m) = captured m"
  "streams (sent t sid p m) = streams m" "connecting (sent t sid p m) = connecting m"
  "mux_closed (sent t sid p m) = mux_closed m" "window (sent t sid p m) = window m"
  "work (sent t sid p m) = work m" "next_socket (sent t sid p m) = next_socket m"
  by (simp_all add: sent_def emit_def)

lemma emit_fields [simp]:
  "store (emit e m) = store m" "captured (emit e m) = captured m" "streams (emit e m) = streams m"
  "connecting (emit e m) = connecting m" "mux_closed (emit e m) = mux_closed m"
  "window (emit e m) = window m" "work (emit e m) = work m" "log (emit e m) = log m @ [e]"
  "next_socket (emit e m) = next_socket m"
  by (simp_all add: emit_def)

lemma upd_fields [simp]:
  "captured (upd a g m) = captured m" "streams (upd a g m) = streams m"
  "connecting (upd a g m) = connecting m" "mux_closed (upd a g m) = mux_closed m"
  "window (upd a g m) = window m" "work (upd a g m) = work m" "log (upd a g m) = log m"
  "store (upd a g m) = (store m)[a := g (store m ! a)]" "next_socket (upd a g m) = next_socket m"
  by (simp_all add: upd_def)

lemma outward_closeAll: "outward m m' \<Longrightarrow> outward m (closeAll m')"
proof -
  assume "outward m m'"
  moreover have "outward m' (closeAll m')"
    by (auto simp: outward_def closeAll_def emit_def Let_def)
  ultimately show ?thesis by (blast intro: outward_trans)
qed

lemma flushCredit_eq:
  "flushCredit sid a m = (None,
     (let s = store m ! a in
      if awaitingDrain s \<or> stream_closed s \<or> 2 * unacked s < window m then m
      else upd a (\<lambda>s. s\<lparr>unacked := 0\<rparr>) (sent Window sid (windowPayload (unacked s)) m)))"
  by (simp add: flushCredit_def Let_def send_ok)

lemma outward_flushCredit: "outward m m' \<Longrightarrow> outward m (snd (flushCredit sid a m'))"
  by (simp add: flushCredit_eq Let_def outward_sent)

lemma outward_onOpen: "outward m (snd (onOpen sid k m))"
  by (simp add: onOpen_def send_ok outward_sent outward_silent split: option.split)

lemma outward_connect_failed: "outward m (snd (connect_failed m))"
  by (auto simp: connect_failed_def send_ok outward_sent split: option.split)

lemma outward_connect_done: "outward m (snd (connect_done m))"
  by (auto simp: connect_done_def send_ok outward_sent outward_silent Let_def split: option.split)

lemma outward_onData: "outward m (snd (onData acc sid p m))"
  by (auto simp: onData_def Let_def outward_silent outward_flushCredit split: option.split)

lemma outward_onWindow: "outward m (onWindow sid c m)"
  by (auto simp: onWindow_def Let_def outward_silent split: option.split)

lemma outward_onRemoteClose: "outward m (onRemoteClose sid m)"
  by (auto simp: onRemoteClose_def Let_def outward_silent split: option.split)

lemma outward_dispatch: "outward m (snd (dispatch acc f m))"
  by (auto simp: dispatch_def outward_onOpen outward_onData outward_onWindow outward_onRemoteClose
      split: FrameType.split sum.split)

text \<open>The slices of a local read go out one frame each and are charged to the credit in full.\<close>

lemma send_slices_eq:
  assumes "a < length (store m)" "\<forall>p \<in> set ps. length p \<le> MAX_PAYLOAD_BYTES" "outward m0 m"
  shows "\<exists>m'. send_slices sid a ps m = (None, m') \<and> outward m0 m' \<and> captured m' = captured m
     \<and> store m' = (store m)[a := (store m ! a)\<lparr>credit := credit (store m ! a) - int (length (concat ps))\<rparr>]
     \<and> streams m' = streams m \<and> connecting m' = connecting m \<and> mux_closed m' = mux_closed m"
  using assms
proof (induction ps arbitrary: m)
  case Nil
  then show ?case by simp
next
  case (Cons p ps)
  let ?m = "upd a (\<lambda>s. s\<lparr>credit := credit s - int (length p)\<rparr>) (sent Data sid p m)"
  have "outward m0 ?m" using Cons.prems by (simp add: outward_sent)
  then obtain m' where "send_slices sid a ps ?m = (None, m')" "outward m0 m'" "captured m' = captured m"
     "store m' = (store ?m)[a := (store ?m ! a)\<lparr>credit := credit (store ?m ! a) - int (length (concat ps))\<rparr>]"
     "streams m' = streams m" "connecting m' = connecting m" "mux_closed m' = mux_closed m"
    using Cons.IH [of ?m] Cons.prems by auto
  then show ?case using Cons.prems by (simp add: send_ok algebra_simps)
qed

lemma keep_paused:
  "pausedForCredit s \<Longrightarrow> s\<lparr>credit := c, pausedForCredit := True\<rparr> = s\<lparr>credit := c\<rparr>"
  "\<not> pausedForCredit s \<Longrightarrow> s\<lparr>credit := c, pausedForCredit := False\<rparr> = s\<lparr>credit := c\<rparr>"
  by (cases s, simp)+

lemma onLocalData_eq:
  assumes "a < length (store m)" "\<not> stream_closed (store m ! a)"
  shows "\<exists>m'. onLocalData sid a data m = (None, m') \<and> outward m m' \<and> captured m' = captured m
     \<and> store m' = (store m)[a := (let s = store m ! a; c = credit s - int (length data)
          in s\<lparr>credit := c, pausedForCredit := (pausedForCredit s \<or> c \<le> 0)\<rparr>)]
     \<and> streams m' = streams m \<and> connecting m' = connecting m \<and> mux_closed m' = mux_closed m"
proof -
  let ?m = "m\<lparr>socketBytesOut := socketBytesOut m + length data\<rparr>"
  have "outward m ?m" by simp
  then obtain m' where m': "send_slices sid a (slices data) ?m = (None, m')" "outward m m'"
     "captured m' = captured m"
     "store m' = (store m)[a := (store m ! a)\<lparr>credit := credit (store m ! a) - int (length data)\<rparr>]"
     "streams m' = streams m" "connecting m' = connecting m" "mux_closed m' = mux_closed m"
    using send_slices_eq [of a ?m "slices data" m sid] assms(1) slices_bound concat_slices by auto
  then show ?thesis
    using assms by (auto simp: onLocalData_def Let_def outward_silent keep_paused)
qed

lemma outward_onLocalData: "a < length (store m) \<Longrightarrow> outward m (snd (onLocalData sid a data m))"
  using onLocalData_eq [of a m sid data] by (cases "stream_closed (store m ! a)") (auto simp: onLocalData_def)

lemma onLocalEnd_eq:
  "onLocalEnd sid a m = (None, if stream_closed (store m ! a) then m
     else sent Close sid []
        ((upd a (\<lambda>s. s\<lparr>stream_closed := True\<rparr>) m)\<lparr>streams := filter (\<lambda>(k, _). k \<noteq> sid) (streams m)\<rparr>))"
  by (simp add: onLocalEnd_def send_ok)

lemma outward_onLocalEnd: "outward m (snd (onLocalEnd sid a m))"
  by (simp add: onLocalEnd_eq outward_sent)

lemma outward_onDrain: "outward m (snd (onDrain sid a m))"
  by (simp add: onDrain_def outward_flushCredit outward_silent)

lemma outward_report_streams: "outward m0 m \<Longrightarrow> outward m0 (report_streams now xs m)"
  by (induction now xs m rule: report_streams.induct)
     (auto simp: Let_def outward_silent split: prod.splits)

lemma outward_report: "outward m (reportStalledStreams now m)"
  by (simp add: reportStalledStreams_def outward_report_streams)

section \<open>The invariant of the streams\<close>

text \<open>
  A live stream is paused exactly when it has no credit, and unless it waits for its socket to
  drain it owes the peer less than half a window.
\<close>

definition stream_ok :: "nat \<Rightarrow> Stream \<Rightarrow> bool" where
  "stream_ok w s \<longleftrightarrow> (pausedForCredit s \<longleftrightarrow> credit s \<le> 0) \<and> (awaitingDrain s \<or> 2 * unacked s < w)"

definition mux_inv :: "TunnelMux \<Rightarrow> bool" where
  "mux_inv m \<longleftrightarrow>
     0 < window m \<and> length (captured m) = length (store m)
     \<and> distinct (map fst (streams m))
     \<and> (\<forall>sid a. (sid, a) \<in> set (streams m) \<longrightarrow>
          a < length (store m) \<and> captured m ! a = sid \<and> \<not> stream_closed (store m ! a)
          \<and> stream_ok (window m) (store m ! a))
     \<and> (if mux_closed m then streams m = []
        else \<forall>a < length (store m). \<not> stream_closed (store m ! a) \<longrightarrow> (captured m ! a, a) \<in> set (streams m))
     \<and> (\<forall>sid t. connecting m = Some (sid, t) \<longrightarrow> work m \<noteq> None \<and> sid \<notin> fst ` set (streams m))"

lemma mux_inv_cong:
  "window m' = window m \<Longrightarrow> captured m' = captured m \<Longrightarrow> store m' = store m \<Longrightarrow>
   streams m' = streams m \<Longrightarrow> mux_closed m' = mux_closed m \<Longrightarrow> connecting m' = connecting m \<Longrightarrow>
   work m' = work m \<Longrightarrow> mux_inv m' = mux_inv m"
  by (simp add: mux_inv_def)

lemma mux_inv_emit [simp]: "mux_inv (emit e m) = mux_inv m"
  by (rule mux_inv_cong) simp_all

lemma mux_inv_sent [simp]: "mux_inv (sent t sid p m) = mux_inv m"
  by (rule mux_inv_cong) simp_all

lemma mux_inv_counters [simp]:
  "mux_inv (m\<lparr>socketBytesIn := x\<rparr>) = mux_inv m" "mux_inv (m\<lparr>socketBytesOut := x\<rparr>) = mux_inv m"
  "mux_inv (m\<lparr>drainStalls := x\<rparr>) = mux_inv m" "mux_inv (m\<lparr>creditStalls := x\<rparr>) = mux_inv m"
  "mux_inv (m\<lparr>queue := q\<rparr>) = mux_inv m" "mux_inv (m\<lparr>decoder := d\<rparr>) = mux_inv m"
  "mux_inv (m\<lparr>framesIn := x\<rparr>) = mux_inv m" "mux_inv (m\<lparr>payloadBytesIn := x\<rparr>) = mux_inv m"
  "mux_inv (m\<lparr>log := l\<rparr>) = mux_inv m" "mux_inv (m\<lparr>next_socket := x\<rparr>) = mux_inv m"
  by (rule mux_inv_cong; simp)+

lemma mux_inv_live:
  assumes "mux_inv m" "(sid, a) \<in> set (streams m)"
  shows "a < length (store m)" "captured m ! a = sid" "\<not> stream_closed (store m ! a)"
    "stream_ok (window m) (store m ! a)" "\<not> mux_closed m"
  using assms by (auto simp: mux_inv_def split: if_splits)

lemma mux_inv_open:
  "mux_inv m \<Longrightarrow> \<not> mux_closed m \<Longrightarrow> a < length (store m) \<Longrightarrow> \<not> stream_closed (store m ! a) \<Longrightarrow>
   (captured m ! a, a) \<in> set (streams m)"
  by (simp add: mux_inv_def)

lemma mux_inv_base:
  assumes "mux_inv m"
  shows "0 < window m" "length (captured m) = length (store m)" "distinct (map fst (streams m))"
    "mux_closed m \<Longrightarrow> streams m = []"
    "connecting m = Some (sid, t) \<Longrightarrow> work m \<noteq> None \<and> sid \<notin> fst ` set (streams m)"
  using assms by (auto simp: mux_inv_def)

lemma mux_invI:
  assumes "0 < window m" "length (captured m) = length (store m)" "distinct (map fst (streams m))"
    and "\<And>sid a. (sid, a) \<in> set (streams m) \<Longrightarrow> a < length (store m) \<and> captured m ! a = sid
          \<and> \<not> stream_closed (store m ! a) \<and> stream_ok (window m) (store m ! a)"
    and "mux_closed m \<Longrightarrow> streams m = []"
    and "\<And>a. \<not> mux_closed m \<Longrightarrow> a < length (store m) \<Longrightarrow> \<not> stream_closed (store m ! a) \<Longrightarrow>
          (captured m ! a, a) \<in> set (streams m)"
    and "\<And>sid t. connecting m = Some (sid, t) \<Longrightarrow> work m \<noteq> None \<and> sid \<notin> fst ` set (streams m)"
  shows "mux_inv m"
  unfolding mux_inv_def using assms by (intro conjI) auto

text \<open>Changing one object, keeping it open and well-formed, keeps the invariant.\<close>

lemma mux_inv_update:
  assumes inv: "mux_inv m" and st: "store m' = (store m)[a := s]"
    and cl: "stream_closed s = stream_closed (store m ! a)"
    and ok: "\<And>sid. (sid, a) \<in> set (streams m) \<Longrightarrow> stream_ok (window m) s"
    and eq: "window m' = window m" "captured m' = captured m" "streams m' = streams m"
    "mux_closed m' = mux_closed m" "connecting m' = connecting m" "work m' = work m"
  shows "mux_inv m'"
proof (rule mux_invI)
  fix sid b assume "(sid, b) \<in> set (streams m')"
  with eq have mem: "(sid, b) \<in> set (streams m)" by simp
  show "b < length (store m') \<and> captured m' ! b = sid \<and> \<not> stream_closed (store m' ! b)
      \<and> stream_ok (window m') (store m' ! b)"
    using mux_inv_live [OF inv mem] ok mem cl eq st by (auto simp: nth_list_update_if)
next
  fix b assume "\<not> mux_closed m'" "b < length (store m')" "\<not> stream_closed (store m' ! b)"
  then show "(captured m' ! b, b) \<in> set (streams m')"
    using mux_inv_open [OF inv, of b] cl eq st by (auto simp: nth_list_update_if split: if_splits)
next
  fix sid t assume "connecting m' = Some (sid, t)"
  then show "work m' \<noteq> None \<and> sid \<notin> fst ` set (streams m')"
    using mux_inv_base(5) [OF inv] eq by simp
qed (use mux_inv_base [OF inv] eq st in auto)

text \<open>Marking one object closed and deleting its id from the map keeps the invariant.\<close>

lemma mux_inv_delete:
  assumes inv: "mux_inv m" and a: "a < length (store m)" "captured m ! a = sid"
    and open_a: "\<not> stream_closed (store m ! a)"
    and st: "store m' = (store m)[a := s]" "stream_closed s"
    and eq: "streams m' = filter (\<lambda>(k, _). k \<noteq> sid) (streams m)" "window m' = window m"
    "captured m' = captured m" "mux_closed m' = mux_closed m" "connecting m' = connecting m"
    "work m' = work m"
  shows "mux_inv m'"
proof (rule mux_invI)
  show "distinct (map fst (streams m'))"
    using mux_inv_base(3) [OF inv] eq(1) by (simp add: distinct_map_filter)
next
  fix k b assume "(k, b) \<in> set (streams m')"
  with eq(1) have mem: "(k, b) \<in> set (streams m)" "k \<noteq> sid" by auto
  then have "b \<noteq> a" using mux_inv_live(2) [OF inv mem(1)] a by auto
  then show "b < length (store m') \<and> captured m' ! b = k \<and> \<not> stream_closed (store m' ! b)
      \<and> stream_ok (window m') (store m' ! b)"
    using mux_inv_live [OF inv mem(1)] eq st by (simp add: nth_list_update_if)
next
  fix b assume b: "\<not> mux_closed m'" "b < length (store m')" "\<not> stream_closed (store m' ! b)"
  then have "b \<noteq> a" "\<not> stream_closed (store m ! b)" using st a by (auto simp: nth_list_update_if split: if_splits)
  then have mem: "(captured m ! b, b) \<in> set (streams m)"
    using mux_inv_open [OF inv, of b] b eq st by simp
  have "captured m ! b \<noteq> sid"
  proof
    assume same: "captured m ! b = sid"
    have "(sid, a) \<in> set (streams m)" using mux_inv_open [OF inv, of a] a open_a b(1) eq by simp
    with mem same \<open>b \<noteq> a\<close> mux_inv_base(3) [OF inv] show False
      by (metis eq_key_imp_eq_value)
  qed
  with mem show "(captured m' ! b, b) \<in> set (streams m')" using eq by simp
next
  fix k t assume "connecting m' = Some (k, t)"
  then show "work m' \<noteq> None \<and> k \<notin> fst ` set (streams m')"
    using mux_inv_base(5) [OF inv] eq by auto
qed (use mux_inv_base [OF inv] eq st in auto)

lemma mux_inv_work_Some: "mux_inv m \<Longrightarrow> mux_inv (m\<lparr>work := Some fs\<rparr>)"
  by (auto simp: mux_inv_def)

lemma mux_inv_work_None: "mux_inv m \<Longrightarrow> connecting m = None \<Longrightarrow> mux_inv (m\<lparr>work := None\<rparr>)"
  by (auto simp: mux_inv_def)

lemma mux_inv_closeAll [hezo_inv]: "mux_inv m \<Longrightarrow> mux_inv (closeAll m)"
  by (auto simp: closeAll_def Let_def emit_def mux_inv_def)

lemma mux_inv_onDrain [hezo_inv]:
  assumes inv: "mux_inv m" and a: "a < length (store m)"
  shows "mux_inv (snd (onDrain sid a m))"
  using a mux_inv_live(3,4) [OF inv, of _ a] mux_inv_base(1) [OF inv]
  by (auto simp: onDrain_def flushCredit_eq Let_def stream_ok_def intro!: mux_inv_update [OF inv, of _ a])

lemma mux_inv_onData [hezo_inv]:
  assumes inv: "mux_inv m"
  shows "mux_inv (snd (onData acc sid p m))"
proof (cases "map_of (streams m) sid")
  case None
  then show ?thesis using inv by (simp add: onData_def)
next
  case (Some a)
  have a: "a < length (store m)" and ok: "stream_ok (window m) (store m ! a)"
    using mux_inv_live [OF inv map_of_SomeD [OF Some]] by simp_all
  show ?thesis
    using Some inv a ok mux_inv_base(1) [OF inv]
    by (auto simp: onData_def flushCredit_eq Let_def stream_ok_def intro!: mux_inv_update [OF inv, of _ a])
qed

lemma mux_inv_onWindow [hezo_inv]:
  assumes inv: "mux_inv m"
  shows "mux_inv (onWindow sid c m)"
proof (cases "map_of (streams m) sid")
  case None
  then show ?thesis using inv by (simp add: onWindow_def)
next
  case (Some a)
  have a: "a < length (store m)" and ok: "stream_ok (window m) (store m ! a)"
    using mux_inv_live [OF inv map_of_SomeD [OF Some]] by simp_all
  show ?thesis
    using Some inv a ok
    by (auto simp: onWindow_def Let_def stream_ok_def intro!: mux_inv_update [OF inv, of _ a])
qed

lemma mux_inv_onRemoteClose [hezo_inv]:
  assumes inv: "mux_inv m"
  shows "mux_inv (onRemoteClose sid m)"
proof (cases "map_of (streams m) sid")
  case None
  then show ?thesis using inv by (simp add: onRemoteClose_def)
next
  case (Some a)
  have "a < length (store m)" "captured m ! a = sid" "\<not> stream_closed (store m ! a)"
    using mux_inv_live [OF inv map_of_SomeD [OF Some]] by simp_all
  then show ?thesis
    using Some by (auto simp: onRemoteClose_def Let_def intro!: mux_inv_delete [OF inv, of a sid])
qed

lemma mux_inv_onOpen [hezo_inv]:
  assumes "mux_inv m" "connecting m = None" "work m \<noteq> None"
  shows "mux_inv (snd (onOpen sid k m))"
  using assms
  by (auto simp: onOpen_def send_ok mux_inv_def map_of_eq_None_iff split: option.split)

lemma mux_inv_connect_failed [hezo_inv]: "mux_inv m \<Longrightarrow> mux_inv (snd (connect_failed m))"
  by (auto simp: connect_failed_def send_ok mux_inv_def split: option.split)

lemma mux_inv_connect_done [hezo_inv]:
  assumes inv: "mux_inv m"
  shows "mux_inv (snd (connect_done m))"
proof (cases "connecting m")
  case None
  then show ?thesis using inv by (simp add: connect_done_def)
next
  case (Some c)
  obtain sid t where c: "c = (sid, t)" by (cases c)
  have new: "sid \<notin> fst ` set (streams m)" using mux_inv_base(5) [OF inv] Some c by simp
  show ?thesis
  proof (cases "mux_closed m")
    case True
    then show ?thesis using Some c inv by (simp add: connect_done_def Let_def) (simp add: mux_inv_def)
  next
    case False
    let ?s = "\<lparr>socket = next_socket m, credit = int (window m), pausedForCredit = False,
        awaitingDrain = False, unacked = 0, stream_closed = False, blockedSince = None,
        blockReported = False\<rparr>"
    let ?m = "(emit (Connected sid (next_socket m)) (m\<lparr>connecting := None, next_socket := next_socket m + 1\<rparr>))\<lparr>store := store m @ [?s],
        captured := captured m @ [sid], streams := streams m @ [(sid, length (store m))]\<rparr>"
    have len: "length (captured m) = length (store m)" using mux_inv_base(2) [OF inv] .
    have "mux_inv ?m"
    proof (rule mux_invI)
      fix k b assume "(k, b) \<in> set (streams ?m)"
      then consider "(k, b) \<in> set (streams m)" | "k = sid" "b = length (store m)" by auto
      then show "b < length (store ?m) \<and> captured ?m ! b = k \<and> \<not> stream_closed (store ?m ! b)
          \<and> stream_ok (window ?m) (store ?m ! b)"
      proof cases
        case 1
        then show ?thesis using mux_inv_live [OF inv 1] len by (simp add: nth_append)
      next
        case 2
        then show ?thesis using len mux_inv_base(1) [OF inv] by (simp add: nth_append stream_ok_def)
      qed
    next
      fix b assume "\<not> mux_closed ?m" "b < length (store ?m)" "\<not> stream_closed (store ?m ! b)"
      then show "(captured ?m ! b, b) \<in> set (streams ?m)"
        using mux_inv_open [OF inv, of b] len by (auto simp: nth_append less_Suc_eq)
    qed (use False new len mux_inv_base [OF inv] in auto)
    then show ?thesis using False Some c by (simp add: connect_done_def Let_def send_ok)
  qed
qed

lemma mux_inv_onLocalData [hezo_inv]:
  assumes inv: "mux_inv m" and a: "a < length (store m)"
  shows "mux_inv (snd (onLocalData sid a data m))"
proof (cases "stream_closed (store m ! a)")
  case True
  then show ?thesis using inv by (simp add: onLocalData_def)
next
  case False
  let ?s = "let s = store m ! a; c = credit s - int (length data)
     in s\<lparr>credit := c, pausedForCredit := (pausedForCredit s \<or> c \<le> 0)\<rparr>"
  obtain m' where m': "onLocalData sid a data m = (None, m')" "outward m m'" "captured m' = captured m"
    "store m' = (store m)[a := ?s]" "streams m' = streams m" "connecting m' = connecting m"
    "mux_closed m' = mux_closed m"
    using onLocalData_eq [OF a False, of sid data] by blast
  have "window m' = window m" "work m' = work m" using m'(2) by (simp_all add: outward_def)
  moreover have "stream_ok (window m) ?s" if "(k, a) \<in> set (streams m)" for k
    using mux_inv_live(4) [OF inv that] by (auto simp: stream_ok_def Let_def)
  ultimately have "mux_inv m'"
    using m' by (intro mux_inv_update [OF inv, of m' a ?s]) (auto simp: Let_def)
  then show ?thesis using m'(1) by simp
qed

lemma mux_inv_onLocalEnd [hezo_inv]:
  assumes inv: "mux_inv m" and a: "a < length (store m)"
  shows "mux_inv (snd (onLocalEnd (captured m ! a) a m))"
  using assms
  by (auto simp: onLocalEnd_eq intro!: mux_inv_delete [OF inv a refl])

lemma watch_keeps: "stream_closed (fst (watch now s)) = stream_closed s"
  "stream_ok w (fst (watch now s)) = stream_ok w s"
  by (auto simp: watch_def stream_ok_def split: option.split)

lemma mux_inv_report_streams: "mux_inv m \<Longrightarrow> mux_inv (report_streams now xs m)"
proof (induction now xs m rule: report_streams.induct)
  case (2 now sid a rest m)
  let ?s = "fst (watch now (store m ! a))"
  have "mux_inv (upd a (\<lambda>_. ?s) m)"
    using mux_inv_live(4) [OF "2.prems"]
    by (intro mux_inv_update [OF "2.prems", of _ a ?s]) (auto simp: watch_keeps)
  with "2.IH" show ?case by (auto simp: Let_def split: prod.splits)
qed simp

lemma mux_inv_report [hezo_inv]: "mux_inv m \<Longrightarrow> mux_inv (reportStalledStreams now m)"
  by (simp add: reportStalledStreams_def mux_inv_report_streams)

lemma dispatch_error: "dispatch acc f m = (Some e, m') \<Longrightarrow> m' = m"
  by (auto simp: dispatch_def onOpen_def onData_def send_ok flushCredit_eq Let_def
      split: FrameType.splits sum.splits option.splits if_splits)

lemma mux_inv_dispatch [hezo_inv]:
  "mux_inv m \<Longrightarrow> connecting m = None \<Longrightarrow> work m \<noteq> None \<Longrightarrow> mux_inv (snd (dispatch acc f m))"
  by (auto simp: dispatch_def hezo_inv split: FrameType.split sum.split)

lemma mux_inv_process_frame [hezo_inv]:
  assumes "mux_inv m" "connecting m = None"
  shows "mux_inv (process_frame acc f rest m)"
proof -
  let ?m = "emit (Handled f) (m\<lparr>work := Some rest, framesIn := framesIn m + 1,
          payloadBytesIn := payloadBytesIn m + length (payload f)\<rparr>)"
  have m: "mux_inv ?m" "connecting ?m = None" "work ?m \<noteq> None"
    using assms mux_inv_work_Some [of m rest] by (simp_all add: mux_inv_def)
  obtain e m' where d: "dispatch acc f ?m = (e, m')" by (cases "dispatch acc f ?m")
  show ?thesis
  proof (cases e)
    case None
    then show ?thesis using mux_inv_dispatch [OF m, of acc f] d
      by (simp add: process_frame_def catch_close_def)
  next
    case (Some err)
    then have "m' = ?m" using d dispatch_error by blast
    then show ?thesis using Some d m mux_inv_work_None [OF m(1,2)] mux_inv_closeAll
      by (simp add: process_frame_def catch_close_def del: mux_inv_emit)
  qed
qed

lemma mux_inv_process_begin [hezo_inv]: "mux_inv m \<Longrightarrow> mux_inv (process_begin c m)"
  by (auto simp: process_begin_def Let_def mux_inv_closeAll mux_inv_work_Some split: prod.split sum.split)

lemma connect_no_error: "fst (connect_done m) = None" "fst (connect_failed m) = None"
  by (auto simp: connect_done_def connect_failed_def send_ok Let_def split: option.split)

lemma mux_step_inv: "mux_step m m' \<Longrightarrow> mux_inv m \<Longrightarrow> mux_inv m'"
proof (induction rule: mux_step.induct)
  case (connected m)
  then show ?case using connect_no_error(1) [of m] mux_inv_connect_done [of m]
    by (auto simp: catch_close_def split: prod.splits option.splits)
next
  case (connect_error m)
  then show ?case using connect_no_error(2) [of m] mux_inv_connect_failed [of m]
    by (auto simp: catch_close_def split: prod.splits option.splits)
qed (simp_all add: handleChunk_def hezo_inv mux_inv_work_None)

section \<open>The invariant of the reader and of the wire\<close>

definition to_dispatch :: "TunnelMux \<Rightarrow> Frame list" where
  "to_dispatch m = (case work m of None \<Rightarrow> [] | Some fs \<Rightarrow> fs)"

definition wire_inv :: "TunnelMux \<Rightarrow> bool" where
  "wire_inv m \<longleftrightarrow>
     (\<not> mux_closed m \<longrightarrow>
        arrived (log m) = fed (log m) @ queue m
        \<and> push_all (new_FrameDecoder True) (fed (log m)) = (decoder m, Inr (handled (log m) @ to_dispatch m)))
     \<and> framesIn m = length (handled (log m))
     \<and> payloadBytesIn m = sum_list (map (length \<circ> payload) (handled (log m)))
     \<and> (\<exists>fs. written (log m) = map frame_bytes fs \<and> (\<forall>f \<in> set fs. frame_ok f)
          \<and> framesOut m = length fs \<and> payloadBytesOut m = sum_list (map (length \<circ> payload) fs))"

lemma push_all_snoc:
  "push_all d (cs @ [c]) = (case push_all d cs of
     (d', Inl e) \<Rightarrow> (d', Inl e)
   | (d', Inr fs) \<Rightarrow> (case push d' c of
        (d'', Inl e) \<Rightarrow> (d'', Inl e)
      | (d'', Inr gs) \<Rightarrow> (d'', Inr (fs @ gs))))"
  by (induction cs arbitrary: d) (auto split: prod.splits sum.splits)

lemma wire_inv_outward:
  assumes out: "outward m m'" and inv: "wire_inv m"
  shows "wire_inv m'"
proof -
  from out obtain es fs where es: "log m' = log m @ es" "fed es = []" "handled es = []" "arrived es = []"
    "written es = map frame_bytes fs" "\<forall>f \<in> set fs. frame_ok f" "framesOut m' = framesOut m + length fs"
    "payloadBytesOut m' = payloadBytesOut m + sum_list (map (length \<circ> payload) fs)"
    by (auto simp: outward_def)
  from inv obtain gs where gs: "written (log m) = map frame_bytes gs" "\<forall>f \<in> set gs. frame_ok f"
    "framesOut m = length gs" "payloadBytesOut m = sum_list (map (length \<circ> payload) gs)"
    by (auto simp: wire_inv_def)
  have "\<exists>hs. written (log m') = map frame_bytes hs \<and> (\<forall>f \<in> set hs. frame_ok f)
      \<and> framesOut m' = length hs \<and> payloadBytesOut m' = sum_list (map (length \<circ> payload) hs)"
    using es gs by (intro exI [of _ "gs @ fs"]) auto
  moreover have "decoder m' = decoder m" "work m' = work m" "queue m' = queue m" "framesIn m' = framesIn m"
    "payloadBytesIn m' = payloadBytesIn m" "mux_closed m \<longrightarrow> mux_closed m'"
    using out by (simp_all add: outward_def)
  ultimately show ?thesis using inv es(1-4) by (auto simp: wire_inv_def to_dispatch_def)
qed

lemma wire_inv_closed:
  assumes "wire_inv m" "mux_closed m'" "log m' = log m" "framesIn m' = framesIn m" "framesOut m' = framesOut m"
    "payloadBytesIn m' = payloadBytesIn m" "payloadBytesOut m' = payloadBytesOut m"
  shows "wire_inv m'"
  using assms by (simp add: wire_inv_def)

lemma wire_inv_abort: "wire_inv m \<Longrightarrow> wire_inv (closeAll (m\<lparr>work := None\<rparr>))"
proof -
  assume inv: "wire_inv m"
  have "outward m (closeAll m)" by (rule outward_closeAll) simp
  then have "wire_inv (closeAll m)" using inv by (rule wire_inv_outward)
  then show ?thesis
    by (rule wire_inv_closed) (auto simp: closeAll_def Let_def emit_def)
qed

lemma wire_inv_process_begin:
  assumes inv: "wire_inv (m\<lparr>queue := c # queue m\<rparr>)" and idle: "work m = None"
  shows "wire_inv (process_begin c m)"
proof (cases "mux_closed m")
  case True
  then show ?thesis using inv by (simp add: process_begin_def wire_inv_def)
next
  case False
  obtain d r where push: "push (decoder m) c = (d, r)" by (cases "push (decoder m) c")
  have hist: "push_all (new_FrameDecoder True) (fed (log m)) = (decoder m, Inr (handled (log m)))"
    "arrived (log m) = fed (log m) @ c # queue m"
    using inv False idle by (simp_all add: wire_inv_def to_dispatch_def)
  show ?thesis
  proof (cases r)
    case (Inl e)
    have "wire_inv (closeAll (m\<lparr>queue := c # queue m\<rparr>))"
      using wire_inv_outward [OF outward_closeAll [OF outward_refl] inv] .
    then show ?thesis
      using Inl push False by (auto simp: process_begin_def wire_inv_def closeAll_def Let_def emit_def)
  next
    case (Inr frames)
    then show ?thesis
      using push hist inv False
      by (auto simp: process_begin_def wire_inv_def to_dispatch_def Let_def push_all_snoc emit_def)
  qed
qed

lemma wire_inv_process_frame:
  assumes inv: "wire_inv m" and w: "work m = Some (f # fs)"
  shows "wire_inv (process_frame acc f fs m)"
proof -
  let ?m = "emit (Handled f) (m\<lparr>work := Some fs, framesIn := framesIn m + 1,
          payloadBytesIn := payloadBytesIn m + length (payload f)\<rparr>)"
  have m: "wire_inv ?m" using inv w by (auto simp: wire_inv_def to_dispatch_def emit_def)
  obtain e m' where d: "dispatch acc f ?m = (e, m')" by (cases "dispatch acc f ?m")
  have "wire_inv m'" using wire_inv_outward [OF outward_dispatch m, of acc f] d by simp
  then show ?thesis using d
    by (cases e) (simp_all add: process_frame_def catch_close_def wire_inv_abort)
qed

lemma wire_inv_catch: "fst r = None \<Longrightarrow> wire_inv (snd r) \<Longrightarrow> wire_inv (catch_close r)"
  by (cases r) (simp add: catch_close_def)

lemma mux_step_wire: "mux_step m m' \<Longrightarrow> wire_inv m \<Longrightarrow> wire_inv m'"
proof (induction rule: mux_step.induct)
  case (chunk m c)
  then show ?case by (auto simp: handleChunk_def emit_def wire_inv_def to_dispatch_def)
next
  case (begin_chunk m c cs)
  then show ?case by (intro wire_inv_process_begin) (auto simp: wire_inv_def to_dispatch_def)
next
  case (frame m f fs accepted)
  then show ?case by (intro wire_inv_process_frame)
next
  case (finish m)
  then show ?case by (auto simp: wire_inv_def to_dispatch_def)
next
  case (connected m)
  then show ?case
    using wire_inv_outward [OF outward_connect_done] connect_no_error(1) by (intro wire_inv_catch)
next
  case (connect_error m)
  then show ?case
    using wire_inv_outward [OF outward_connect_failed] connect_no_error(2) by (intro wire_inv_catch)
next
  case (local_data a m data)
  then show ?case using wire_inv_outward [OF outward_onLocalData] by blast
next
  case (local_end a m)
  then show ?case using wire_inv_outward [OF outward_onLocalEnd] by blast
next
  case (drain a m)
  then show ?case using wire_inv_outward [OF outward_onDrain] by blast
next
  case (close m)
  then show ?case using wire_inv_outward [OF outward_closeAll [OF outward_refl]] by blast
next
  case (tick m now)
  then show ?case using wire_inv_outward [OF outward_report] by blast
qed

section \<open>What flows through a stream, read off the log\<close>

text \<open>The part of a log after the dial that gave socket \<open>n\<close>.\<close>

fun since :: "nat \<Rightarrow> effect list \<Rightarrow> effect list" where
  "since n [] = []"
| "since n (Connected sid k # es) = (if k = n then es else since n es)"
| "since n (_ # es) = since n es"

definition dialled :: "nat \<Rightarrow> effect list \<Rightarrow> bool" where
  "dialled n es \<longleftrightarrow> (\<exists>sid. Connected sid n \<in> set es)"

text \<open>Whether the socket is paused, and whether it refused a write and has not drained since.\<close>

fun pause_after :: "nat \<Rightarrow> bool \<Rightarrow> effect \<Rightarrow> bool" where
  "pause_after n p (SocketPause k) = (k = n \<or> p)"
| "pause_after n p (SocketResume k) = (k \<noteq> n \<and> p)"
| "pause_after n p _ = p"

definition socket_paused :: "nat \<Rightarrow> effect list \<Rightarrow> bool" where
  "socket_paused n es = foldl (pause_after n) False es"

fun full_after :: "nat \<Rightarrow> bool \<Rightarrow> effect \<Rightarrow> bool" where
  "full_after n p (SocketWrite k b accepted) = (k = n \<and> \<not> accepted \<or> p)"
| "full_after n p (Drained k) = (k \<noteq> n \<and> p)"
| "full_after n p _ = p"

definition socket_full :: "nat \<Rightarrow> effect list \<Rightarrow> bool" where
  "socket_full n es = foldl (full_after n) False es"

text \<open>
  Bytes handed to the socket, \<open>DATA\<close> bytes and credit sent to the peer, credit received from it.
  What was written to the channel is read back with the frame decoder.
\<close>

fun handed :: "nat \<Rightarrow> effect \<Rightarrow> nat" where
  "handed n (SocketWrite k b accepted) = (if k = n then length b else 0)"
| "handed n _ = 0"

definition delivered :: "nat \<Rightarrow> effect list \<Rightarrow> nat" where
  "delivered n es = sum_list (map (handed n) es)"

definition frames_in :: "bytes \<Rightarrow> Frame list" where
  "frames_in b = (case snd (read_frames b) of Inl e \<Rightarrow> [] | Inr fs \<Rightarrow> fs)"

definition data_bytes :: "u32 \<Rightarrow> Frame \<Rightarrow> nat" where
  "data_bytes sid f = (if type f = Data \<and> streamId f = sid then length (payload f) else 0)"

definition window_credit :: "u32 \<Rightarrow> Frame \<Rightarrow> nat" where
  "window_credit sid f = (if type f = Window \<and> streamId f = sid
     then (case decodeWindowCredit (payload f) of Inl e \<Rightarrow> 0 | Inr c \<Rightarrow> c) else 0)"

definition data_sent :: "u32 \<Rightarrow> effect list \<Rightarrow> nat" where
  "data_sent sid es = sum_list (map (data_bytes sid) (concat (map frames_in (written es))))"

definition credit_granted :: "u32 \<Rightarrow> effect list \<Rightarrow> nat" where
  "credit_granted sid es = sum_list (map (window_credit sid) (concat (map frames_in (written es))))"

definition credit_received :: "u32 \<Rightarrow> effect list \<Rightarrow> nat" where
  "credit_received sid es = sum_list (map (window_credit sid) (handled es))"

lemma since_append: "dialled n l \<Longrightarrow> since n (l @ es) = since n l @ es"
  by (induction n l rule: since.induct) (auto simp: dialled_def)

lemma since_new: "\<not> dialled n l \<Longrightarrow> since n (l @ Connected sid n # es) = es"
  by (induction n l rule: since.induct) (auto simp: dialled_def)

lemma dialled_append [simp]: "dialled n (l @ es) \<longleftrightarrow> dialled n l \<or> dialled n es"
  by (auto simp: dialled_def)

lemma dialled_nil [simp]: "\<not> dialled n []"
  by (simp add: dialled_def)

lemma observed_append [simp]:
  "socket_paused n (l @ es) = foldl (pause_after n) (socket_paused n l) es"
  "socket_full n (l @ es) = foldl (full_after n) (socket_full n l) es"
  "delivered n (l @ es) = delivered n l + delivered n es"
  "data_sent sid (l @ es) = data_sent sid l + data_sent sid es"
  "credit_granted sid (l @ es) = credit_granted sid l + credit_granted sid es"
  "credit_received sid (l @ es) = credit_received sid l + credit_received sid es"
  by (simp_all add: socket_paused_def socket_full_def delivered_def data_sent_def credit_granted_def credit_received_def)

lemma frames_in_frame [simp]: "length (payload f) \<le> MAX_PAYLOAD_BYTES \<Longrightarrow> frames_in (frame_bytes f) = [f]"
proof -
  assume "length (payload f) \<le> MAX_PAYLOAD_BYTES"
  moreover have "read_frame [] = Need" by (simp add: read_frame_def HEADER_BYTES_def)
  ultimately show ?thesis using read_frames_encoded [of "[f]" "[]"] by (simp add: frames_in_def frame_ok_def)
qed

text \<open>The account of one stream: its object against the log since its socket was dialled.\<close>

definition account :: "nat \<Rightarrow> u32 \<Rightarrow> Stream \<Rightarrow> effect list \<Rightarrow> bool" where
  "account w sid s es \<longleftrightarrow>
     socket_paused (socket s) es = pausedForCredit s \<and> socket_full (socket s) es = awaitingDrain s
     \<and> credit s = int w + int (credit_received sid es) - int (data_sent sid es)
     \<and> unacked s \<le> delivered (socket s) es
     \<and> (credit_granted sid es + unacked s) mod 2 ^ 32 = (w + delivered (socket s) es) mod 2 ^ 32
     \<and> (w + delivered (socket s) es < 2 ^ 32 \<longrightarrow> credit_granted sid es + unacked s = w + delivered (socket s) es)"

text \<open>The effects that do not concern a stream.\<close>

fun foreign :: "u32 \<Rightarrow> nat \<Rightarrow> effect \<Rightarrow> bool" where
  "foreign sid n (ChannelWrite b) = (\<forall>f \<in> set (frames_in b). streamId f \<noteq> sid \<or> type f = Open \<or> type f = Close)"
| "foreign sid n (SocketWrite k b accepted) = (k \<noteq> n)"
| "foreign sid n (SocketPause k) = (k \<noteq> n)"
| "foreign sid n (SocketResume k) = (k \<noteq> n)"
| "foreign sid n (Drained k) = (k \<noteq> n)"
| "foreign sid n (Handled f) = (streamId f \<noteq> sid \<or> type f \<noteq> Window)"
| "foreign sid n _ = True"

lemma no_credit: "streamId f \<noteq> sid \<or> type f \<noteq> Window \<Longrightarrow> window_credit sid f = 0"
  unfolding window_credit_def by (rule if_not_P) blast

lemma no_data: "streamId f \<noteq> sid \<or> type f \<noteq> Data \<Longrightarrow> data_bytes sid f = 0"
  unfolding data_bytes_def by (rule if_not_P) blast

lemma sum_zero: "\<forall>x \<in> set xs. g x = 0 \<Longrightarrow> sum_list (map g xs) = (0 :: nat)"
  by (induction xs) simp_all

lemma no_bytes:
  assumes "\<forall>f \<in> set fs. streamId f \<noteq> sid \<or> type f = Open \<or> type f = Close"
  shows "sum_list (map (data_bytes sid) fs) = 0" "sum_list (map (window_credit sid) fs) = 0"
  using assms by (force intro!: sum_zero no_data no_credit)+

lemma foreign_zero:
  assumes "foreign sid n e"
  shows "pause_after n p e = p" "full_after n p e = p" "delivered n [e] = 0" "data_sent sid [e] = 0" "credit_granted sid [e] = 0"
    "credit_received sid [e] = 0"
proof -
  show "pause_after n p e = p" "full_after n p e = p" using assms by (cases e; simp)+
  show "delivered n [e] = 0" using assms by (cases e) (simp_all add: delivered_def)
  show "credit_received sid [e] = 0" using assms by (cases e) (simp_all add: credit_received_def no_credit)
  have "\<forall>f \<in> set (concat (map frames_in (written [e]))). streamId f \<noteq> sid \<or> type f = Open \<or> type f = Close"
    using assms by (cases e) simp_all
  then show "data_sent sid [e] = 0" "credit_granted sid [e] = 0"
    using no_bytes by (simp_all only: data_sent_def credit_granted_def)
qed

lemma account_foreign: "\<forall>e \<in> set es. foreign sid (socket s) e \<Longrightarrow> account w sid s (l @ es) = account w sid s l"
proof (induction es arbitrary: l)
  case (Cons e es)
  have "foreign sid (socket s) e" using Cons.prems by simp
  note zero = foreign_zero [OF this]
  have "account w sid s (l @ [e]) = account w sid s l"
    unfolding account_def observed_append foldl.simps zero add_0_right ..
  then show ?case using Cons.IH [of "l @ [e]"] Cons.prems by simp
qed simp

lemma account_cong:
  "socket s' = socket s \<Longrightarrow> credit s' = credit s \<Longrightarrow> pausedForCredit s' = pausedForCredit s \<Longrightarrow>
   awaitingDrain s' = awaitingDrain s \<Longrightarrow> unacked s' = unacked s \<Longrightarrow> account w sid s' es = account w sid s es"
  by (simp add: account_def)

definition flow_inv :: "TunnelMux \<Rightarrow> bool" where
  "flow_inv m \<longleftrightarrow> mux_closed m \<or>
     (\<forall>n. dialled n (log m) \<longrightarrow> n < next_socket m) \<and> distinct (map socket (store m))
     \<and> (\<forall>s \<in> set (store m). socket s < next_socket m)
     \<and> (\<forall>sid a. (sid, a) \<in> set (streams m) \<longrightarrow> Connected sid (socket (store m ! a)) \<in> set (log m)
          \<and> account (window m) sid (store m ! a) (since (socket (store m ! a)) (log m)))"

text \<open>The part of the streams' invariant that also holds between the writes of one handler.\<close>

definition indexed :: "TunnelMux \<Rightarrow> bool" where
  "indexed m \<longleftrightarrow> distinct (map fst (streams m))
     \<and> (\<forall>sid a. (sid, a) \<in> set (streams m) \<longrightarrow> a < length (store m) \<and> captured m ! a = sid)"

lemma mux_inv_indexed: "mux_inv m \<Longrightarrow> indexed m"
  by (simp add: indexed_def mux_inv_def)

lemma indexed_cong [simp]:
  "indexed (emit e m) = indexed m" "indexed (upd a g m) = indexed m" "indexed (sent t sid p m) = indexed m"
  by (simp_all add: indexed_def)

lemma flow_update:
  assumes inv: "indexed m" "flow_inv m" and log: "log m' = log m @ es" and undialled: "\<And>n. \<not> dialled n es"
    and same: "window m' = window m" "next_socket m' = next_socket m" "map socket (store m') = map socket (store m)"
      "mux_closed m \<Longrightarrow> mux_closed m'"
    and keeps: "\<And>sid a l. (sid, a) \<in> set (streams m') \<Longrightarrow> \<not> mux_closed m \<Longrightarrow> (sid, a) \<in> set (streams m)
        \<and> (account (window m) sid (store m ! a) l \<longrightarrow> account (window m) sid (store m' ! a) (l @ es))"
  shows "flow_inv m'"
proof (cases "mux_closed m'")
  case False
  then have up: "\<not> mux_closed m" using same(4) by blast
  then have flow: "\<forall>n. dialled n (log m) \<longrightarrow> n < next_socket m" "distinct (map socket (store m))"
    "\<forall>s \<in> set (store m). socket s < next_socket m"
    "\<And>sid a. (sid, a) \<in> set (streams m) \<Longrightarrow> Connected sid (socket (store m ! a)) \<in> set (log m)
        \<and> account (window m) sid (store m ! a) (since (socket (store m ! a)) (log m))"
    using inv(2) by (auto simp: flow_inv_def)
  have "socket s \<in> socket ` set (store m)" if "s \<in> set (store m')" for s
    using that same(3) by (metis image_eqI list.set_map)
  then have "\<forall>s \<in> set (store m'). socket s < next_socket m'" using flow(3) same(2) by fastforce
  moreover have "Connected sid (socket (store m' ! a)) \<in> set (log m')
      \<and> account (window m') sid (store m' ! a) (since (socket (store m' ! a)) (log m'))" if "(sid, a) \<in> set (streams m')" for sid a
  proof -
    have old: "(sid, a) \<in> set (streams m)" using keeps [OF that up] by blast
    then have "a < length (store m)" using inv(1) by (simp add: indexed_def)
    then have "socket (store m' ! a) = socket (store m ! a)"
      using same(3) by (metis length_map nth_map)
    moreover have "dialled (socket (store m ! a)) (log m)" using flow(4) [OF old] by (auto simp: dialled_def)
    ultimately show ?thesis using flow(4) [OF old] keeps [OF that up] log same(1) by (simp add: since_append)
  qed
  ultimately show ?thesis using flow(1,2) log undialled same(2,3) by (auto simp: flow_inv_def)
qed (simp add: flow_inv_def)

text \<open>Two streams never share an id or a socket.\<close>

lemma streams_apart:
  assumes "indexed m" "flow_inv m" "\<not> mux_closed m" "(sid, b) \<in> set (streams m)" "a < length (store m)" "b \<noteq> a"
  shows "socket (store m ! b) \<noteq> socket (store m ! a)" and "(k, a) \<in> set (streams m) \<Longrightarrow> sid \<noteq> k"
proof -
  have b: "b < length (store m)" using assms(1,4) by (simp add: indexed_def)
  have "distinct (map socket (store m))" using assms(2,3) by (simp add: flow_inv_def)
  then show "socket (store m ! b) \<noteq> socket (store m ! a)"
    using nth_eq_iff_index_eq [of "map socket (store m)" b a] b assms(5,6) by simp
  show "sid \<noteq> k" if "(k, a) \<in> set (streams m)"
    using assms(1,4,6) that by (auto simp: indexed_def dest: eq_key_imp_eq_value)
qed

text \<open>A write that concerns one stream: its own account has to move with the log, the others' stay.\<close>

lemma flow_at:
  assumes inv: "indexed m" "flow_inv m" and a: "a < length (store m)"
    and log: "log m' = log m @ es" and undialled: "\<And>n. \<not> dialled n es"
    and st: "store m' = (store m)[a := s]" "socket s = socket (store m ! a)" and strs: "set (streams m') \<subseteq> set (streams m)"
    and same: "window m' = window m" "next_socket m' = next_socket m" "mux_closed m \<Longrightarrow> mux_closed m'"
    and own: "\<And>l. \<not> mux_closed m \<Longrightarrow> (captured m ! a, a) \<in> set (streams m') \<Longrightarrow> account (window m) (captured m ! a) (store m ! a) l \<Longrightarrow>
        account (window m) (captured m ! a) s (l @ es)"
    and rest: "\<And>sid n e. e \<in> set es \<Longrightarrow> n \<noteq> socket (store m ! a) \<Longrightarrow> (captured m ! a, a) \<in> set (streams m) \<Longrightarrow> sid \<noteq> captured m ! a \<Longrightarrow>
        foreign sid n e"
      "\<And>sid n e. e \<in> set es \<Longrightarrow> n \<noteq> socket (store m ! a) \<Longrightarrow> (captured m ! a, a) \<notin> set (streams m) \<Longrightarrow> foreign sid n e"
  shows "flow_inv m'"
proof (rule flow_update [OF inv log undialled same(1,2) _ same(3)])
  show "map socket (store m') = map socket (store m)"
    using st a by (simp add: map_update) (metis list_update_id nth_map)
  fix sid b l
  assume b: "(sid, b) \<in> set (streams m')" and up: "\<not> mux_closed m"
  have old: "(sid, b) \<in> set (streams m)" using b strs by blast
  have "account (window m) sid (store m' ! b) (l @ es)" if acc: "account (window m) sid (store m ! b) l"
  proof (cases "b = a")
    case True
    then have "captured m ! a = sid" using old inv(1) by (simp add: indexed_def)
    then show ?thesis using own [OF up] True b acc st(1) a by simp
  next
    case False
    have "foreign sid (socket (store m ! b)) e" if "e \<in> set es" for e
      using rest [OF that] streams_apart [OF inv up old a False] by blast
    then show ?thesis using acc False st(1) by (simp add: account_foreign)
  qed
  then show "(sid, b) \<in> set (streams m) \<and> (account (window m) sid (store m ! b) l \<longrightarrow> account (window m) sid (store m' ! b) (l @ es))"
    using old by blast
qed

lemma flow_quiet:
  assumes "indexed m" "flow_inv m" and "log m' = log m @ es" and "\<And>n. \<not> dialled n es"
    and "store m' = store m" "set (streams m') \<subseteq> set (streams m)"
    and "window m' = window m" "next_socket m' = next_socket m" "mux_closed m \<Longrightarrow> mux_closed m'"
    and "\<And>sid n e. e \<in> set es \<Longrightarrow> foreign sid n e"
  shows "flow_inv m'"
  using assms by (intro flow_update [OF assms(1-4)]) (auto simp: account_foreign)

text \<open>How each effect moves the account of the stream it concerns.\<close>

lemma observed_write [simp]:
  "length p \<le> MAX_PAYLOAD_BYTES \<Longrightarrow> data_sent k [ChannelWrite (frame_bytes \<lparr>type = t, streamId = sid, payload = p\<rparr>)]
     = (if t = Data \<and> sid = k then length p else 0)"
  "length p \<le> MAX_PAYLOAD_BYTES \<Longrightarrow> credit_granted k [ChannelWrite (frame_bytes \<lparr>type = t, streamId = sid, payload = p\<rparr>)]
     = window_credit k \<lparr>type = t, streamId = sid, payload = p\<rparr>"
  by (simp_all add: data_sent_def credit_granted_def data_bytes_def)

lemma observed_other [simp]:
  "data_sent k [SocketWrite n p ok] = 0" "data_sent k [SocketPause n] = 0" "data_sent k [SocketResume n] = 0"
  "data_sent k [Drained n] = 0" "data_sent k [Handled f] = 0"
  "credit_granted k [SocketWrite n p ok] = 0" "credit_granted k [SocketPause n] = 0" "credit_granted k [SocketResume n] = 0"
  "credit_granted k [Drained n] = 0" "credit_granted k [Handled f] = 0"
  "credit_received k [SocketWrite n p ok] = 0" "credit_received k [SocketPause n] = 0" "credit_received k [SocketResume n] = 0"
  "credit_received k [Drained n] = 0" "credit_received k [ChannelWrite b] = 0" "credit_received k [Handled f] = window_credit k f"
  "delivered i [SocketWrite n p ok] = (if n = i then length p else 0)" "delivered i [SocketPause n] = 0" "delivered i [SocketResume n] = 0"
  "delivered i [Drained n] = 0" "delivered i [ChannelWrite b] = 0" "delivered i [Handled f] = 0"
  by (simp_all add: data_sent_def credit_granted_def credit_received_def delivered_def)

lemma window_credit_payload:
  "window_credit sid \<lparr>type = Window, streamId = sid, payload = windowPayload c\<rparr> = c mod 2 ^ 32"
  by (simp add: window_credit_def decodeWindowCredit_def windowPayload_def unat_of_nat)

lemma account_pause: "account w sid s l \<Longrightarrow> account w sid (s\<lparr>pausedForCredit := True\<rparr>) (l @ [SocketPause (socket s)])"
  by (simp add: account_def)

lemma account_resume: "account w sid s l \<Longrightarrow> account w sid (s\<lparr>pausedForCredit := False\<rparr>) (l @ [SocketResume (socket s)])"
  by (simp add: account_def)

lemma account_drain: "account w sid s l \<Longrightarrow> account w sid (s\<lparr>awaitingDrain := False\<rparr>) (l @ [Drained (socket s)])"
  by (simp add: account_def)

lemma account_window:
  "account w sid s l \<Longrightarrow> type f = Window \<Longrightarrow> streamId f = sid \<Longrightarrow> decodeWindowCredit (payload f) = Inr c \<Longrightarrow>
   account w sid (s\<lparr>credit := credit s + int c\<rparr>) (l @ [Handled f])"
  by (simp add: account_def window_credit_def)

lemma mod_add_same: "(a :: nat) mod n = b mod n \<Longrightarrow> (a + k) mod n = (b + k) mod n"
  by (metis mod_add_left_eq)

lemma account_write:
  assumes "account w sid s l"
  shows "account w sid (s\<lparr>unacked := unacked s + length p, awaitingDrain := (ok \<longrightarrow> awaitingDrain s)\<rparr>)
    (l @ [SocketWrite (socket s) p ok])"
proof -
  let ?k = "length p"
  have "(credit_granted sid l + unacked s) mod 2 ^ 32 = (w + delivered (socket s) l) mod 2 ^ 32"
    using assms by (simp only: account_def)
  then have "(credit_granted sid l + unacked s + ?k) mod 2 ^ 32 = (w + delivered (socket s) l + ?k) mod 2 ^ 32"
    by (rule mod_add_same)
  then show ?thesis using assms by (simp add: account_def add.assoc)
qed

lemma account_grant:
  assumes "account w sid s l"
  shows "account w sid (s\<lparr>unacked := 0\<rparr>)
    (l @ [ChannelWrite (frame_bytes \<lparr>type = Window, streamId = sid, payload = windowPayload (unacked s)\<rparr>)])"
proof -
  have "(credit_granted sid l + unacked s mod 2 ^ 32) mod 2 ^ 32 = (w + delivered (socket s) l) mod 2 ^ 32"
    using assms by (simp only: account_def mod_add_right_eq)
  moreover have "w + delivered (socket s) l < 2 ^ 32 \<Longrightarrow> unacked s mod 2 ^ 32 = unacked s"
    using assms by (intro mod_less) (simp add: account_def)
  ultimately show ?thesis using assms by (simp add: account_def window_credit_payload)
qed

lemma account_slices:
  assumes "account w sid s l" "\<forall>p \<in> set ps. length p \<le> MAX_PAYLOAD_BYTES"
  shows "account w sid (s\<lparr>credit := credit s - int (length (concat ps))\<rparr>)
    (l @ map (\<lambda>p. ChannelWrite (frame_bytes \<lparr>type = Data, streamId = sid, payload = p\<rparr>)) ps)"
  using assms
proof (induction ps arbitrary: s l)
  case Nil
  then show ?case by simp
next
  case (Cons p ps)
  have "account w sid (s\<lparr>credit := credit s - int (length p)\<rparr>)
      (l @ [ChannelWrite (frame_bytes \<lparr>type = Data, streamId = sid, payload = p\<rparr>)])"
    using Cons.prems by (simp add: account_def no_credit)
  from Cons.IH [OF this] Cons.prems show ?case by (simp add: algebra_simps)
qed

lemma account_new:
  "account w sid \<lparr>socket = n, credit = int w, pausedForCredit = False, awaitingDrain = False, unacked = 0, stream_closed = False,
      blockedSince = None, blockReported = False\<rparr>
    [ChannelWrite (frame_bytes \<lparr>type = Window, streamId = sid, payload = windowPayload w\<rparr>)]"
  by (simp add: account_def window_credit_payload socket_paused_def socket_full_def)

section \<open>Every step keeps the accounts\<close>

lemma flow_closed: "mux_closed m \<Longrightarrow> flow_inv m"
  by (simp add: flow_inv_def)

lemma log_sent: "\<not> mux_closed m \<Longrightarrow> log (sent t sid p m) = log m @ [ChannelWrite (frame_bytes \<lparr>type = t, streamId = sid, payload = p\<rparr>)]"
  by (simp add: sent_def)

lemma undialled [simp]:
  "\<not> dialled n [ChannelWrite b]" "\<not> dialled n [SocketWrite k p ok]" "\<not> dialled n [SocketPause k]" "\<not> dialled n [SocketResume k]"
  "\<not> dialled n [SocketEnd k]" "\<not> dialled n [Drained k]" "\<not> dialled n [Handled f]" "\<not> dialled n [Connect t]" "\<not> dialled n [Arrived b]"
  "\<not> dialled n [Fed b]" "\<not> dialled n [StallWarning sid]" "\<not> dialled n (map (\<lambda>p. ChannelWrite (g p)) ps)"
  by (auto simp: dialled_def)

lemma flow_cong:
  "log m' = log m \<Longrightarrow> store m' = store m \<Longrightarrow> streams m' = streams m \<Longrightarrow> window m' = window m \<Longrightarrow> next_socket m' = next_socket m \<Longrightarrow>
   mux_closed m' = mux_closed m \<Longrightarrow> flow_inv m' = flow_inv m"
  by (simp add: flow_inv_def)

lemma flow_flushCredit:
  assumes inv: "indexed m" "flow_inv m" and a: "a < length (store m)"
    and live: "\<not> stream_closed (store m ! a) \<Longrightarrow> \<not> mux_closed m \<Longrightarrow> (captured m ! a, a) \<in> set (streams m)"
  shows "flow_inv (snd (flushCredit (captured m ! a) a m))"
proof (cases "mux_closed m \<or> awaitingDrain (store m ! a) \<or> stream_closed (store m ! a) \<or> 2 * unacked (store m ! a) < window m")
  case True
  then show ?thesis using inv(2) by (auto simp: flushCredit_eq Let_def flow_inv_def)
next
  case False
  let ?f = "\<lparr>type = Window, streamId = captured m ! a, payload = windowPayload (unacked (store m ! a))\<rparr>"
  let ?m = "upd a (\<lambda>s. s\<lparr>unacked := 0\<rparr>) (sent Window (captured m ! a) (windowPayload (unacked (store m ! a))) m)"
  have "flow_inv ?m"
    using False live by (intro flow_at [OF inv a, of _ "[ChannelWrite (frame_bytes ?f)]" "(store m ! a)\<lparr>unacked := 0\<rparr>"])
      (simp_all add: log_sent account_grant)
  then show ?thesis using False by (simp add: flushCredit_eq Let_def)
qed

lemma flow_onDrain:
  assumes inv: "mux_inv m" "flow_inv m" and a: "a < length (store m)"
  shows "flow_inv (snd (onDrain (captured m ! a) a m))"
proof -
  let ?m = "upd a (\<lambda>s. s\<lparr>awaitingDrain := False\<rparr>) (emit (Drained (socket (store m ! a))) m)"
  note ix = mux_inv_indexed [OF inv(1)]
  have "flow_inv ?m"
    by (intro flow_at [OF ix inv(2) a, of _ "[Drained (socket (store m ! a))]" "(store m ! a)\<lparr>awaitingDrain := False\<rparr>"])
      (simp_all add: account_drain)
  then show ?thesis using flow_flushCredit [of ?m a] ix a mux_inv_open [OF inv(1) _ a] by (simp add: onDrain_def)
qed

lemma flow_onData:
  assumes inv: "mux_inv m" "flow_inv m"
  shows "flow_inv (snd (onData ok sid p m))"
proof (cases "map_of (streams m) sid")
  case None
  then show ?thesis using inv(2) by (simp add: onData_def)
next
  case (Some a)
  note live = mux_inv_live [OF inv(1) map_of_SomeD [OF Some]]
  let ?s = "(store m ! a)\<lparr>unacked := unacked (store m ! a) + length p, awaitingDrain := (ok \<longrightarrow> awaitingDrain (store m ! a))\<rparr>"
  let ?m = "upd a (\<lambda>_. ?s) (emit (SocketWrite (socket (store m ! a)) p ok) (m\<lparr>socketBytesIn := socketBytesIn m + length p\<rparr>))"
  have flow: "flow_inv ?m"
    by (intro flow_at [OF mux_inv_indexed [OF inv(1)] inv(2) live(1), of _ "[SocketWrite (socket (store m ! a)) p ok]" ?s])
      (simp_all add: account_write)
  show ?thesis
  proof (cases ok)
    case True
    have "?s = (store m ! a)\<lparr>unacked := unacked (store m ! a) + length p\<rparr>" using True by simp
    moreover have "flow_inv (snd (flushCredit (captured ?m ! a) a ?m))"
      using flow live map_of_SomeD [OF Some] mux_inv_indexed [OF inv(1)] by (intro flow_flushCredit) (simp_all add: indexed_def)
    ultimately show ?thesis using Some True live by (simp add: onData_def Let_def upd_def emit_def)
  next
    case False
    have "flow_inv (snd (onData ok sid p m)) = flow_inv ?m"
      by (rule flow_cong) (use Some False live in \<open>simp_all add: onData_def Let_def\<close>)
    then show ?thesis using flow by simp
  qed
qed

lemma flow_onWindow:
  assumes inv: "mux_inv m" "flow_inv m" and f: "type f = Window" "decodeWindowCredit (payload f) = Inr c"
  shows "flow_inv (onWindow (streamId f) c (emit (Handled f) m))"
proof (cases "map_of (streams m) (streamId f)")
  case None
  then have "foreign sid n (Handled f)" if "(sid, b) \<in> set (streams m)" for sid b n
    using that by (auto simp: map_of_eq_None_iff rev_image_eqI)
  then have "flow_inv (emit (Handled f) m)"
    by (intro flow_update [OF mux_inv_indexed [OF inv(1)] inv(2), of _ "[Handled f]"]) (auto simp: account_foreign simp del: foreign.simps)
  then show ?thesis using None by (simp add: onWindow_def)
next
  case (Some a)
  note live = mux_inv_live [OF inv(1) map_of_SomeD [OF Some]] and ix = mux_inv_indexed [OF inv(1)]
  let ?s = "(store m ! a)\<lparr>credit := credit (store m ! a) + int c\<rparr>"
  let ?m = "upd a (\<lambda>_. ?s) (emit (Handled f) m)"
  have flow: "flow_inv ?m"
    using f live(2) by (intro flow_at [OF ix inv(2) live(1), of _ "[Handled f]" ?s])
      (auto simp: account_window map_of_SomeD [OF Some])
  let ?n = "emit (SocketResume (socket ?s)) (upd a (\<lambda>s. s\<lparr>pausedForCredit := False\<rparr>) ?m)"
  have "flow_inv ?n"
    using live(1) ix by (intro flow_at [OF _ flow, of a _ "[SocketResume (socket ?s)]" "?s\<lparr>pausedForCredit := False\<rparr>"])
      (simp_all add: account_resume [of _ _ ?s, simplified])
  moreover have "upd a (\<lambda>s. s\<lparr>credit := credit s + int c\<rparr>) (emit (Handled f) m) = ?m" by (simp add: upd_def)
  ultimately show ?thesis using flow Some live(1,3) by (simp add: onWindow_def Let_def)
qed

lemma flow_onRemoteClose:
  assumes inv: "mux_inv m" "flow_inv m"
  shows "flow_inv (onRemoteClose sid m)"
proof (cases "map_of (streams m) sid")
  case None
  then show ?thesis using inv(2) by (simp add: onRemoteClose_def)
next
  case (Some a)
  note live = mux_inv_live [OF inv(1) map_of_SomeD [OF Some]]
  let ?n = "socket (store m ! a)"
  let ?es = "(if pausedForCredit (store m ! a) then [SocketResume ?n] else []) @ [SocketEnd ?n]"
    and ?s = "(if pausedForCredit (store m ! a) then (store m ! a)\<lparr>stream_closed := True, pausedForCredit := False\<rparr>
      else (store m ! a)\<lparr>stream_closed := True\<rparr>)"
  show ?thesis
    using Some live
    by (intro flow_at [OF mux_inv_indexed [OF inv(1)] inv(2) live(1), of _ ?es ?s])
      (auto simp: onRemoteClose_def Let_def)
qed

lemma flow_onOpen: "mux_inv m \<Longrightarrow> flow_inv m \<Longrightarrow> flow_inv (snd (onOpen sid k m))"
proof -
  assume inv: "mux_inv m" "flow_inv m"
  have "flow_inv (sent Close sid [] m)"
  proof (cases "mux_closed m")
    case False
    then show ?thesis
      by (intro flow_quiet [OF mux_inv_indexed [OF inv(1)] inv(2), of _ "[ChannelWrite (frame_bytes \<lparr>type = Close, streamId = sid, payload = []\<rparr>)]"])
        (auto simp: log_sent)
  qed (simp add: flow_closed)
  moreover have "flow_inv (emit (Connect t) (m\<lparr>connecting := Some (sid, t)\<rparr>))" for t
    by (intro flow_quiet [OF mux_inv_indexed [OF inv(1)] inv(2), of _ "[Connect t]"]) auto
  ultimately show ?thesis using inv(2) by (simp add: onOpen_def send_ok split: option.split)
qed

lemma flow_dispatch:
  assumes inv: "mux_inv m" "flow_inv m"
  shows "flow_inv (snd (dispatch ok f (emit (Handled f) m))) \<or> fst (dispatch ok f (emit (Handled f) m)) \<noteq> None"
proof (cases "type f = Window")
  case True
  then show ?thesis using flow_onWindow [OF inv True] by (auto simp: dispatch_def split: sum.split)
next
  case False
  then have "flow_inv (emit (Handled f) m)"
    by (intro flow_quiet [OF mux_inv_indexed [OF inv(1)] inv(2), of _ "[Handled f]"]) auto
  then show ?thesis using inv(1) False flow_onOpen [of "emit (Handled f) m"] flow_onData [of "emit (Handled f) m"]
      flow_onRemoteClose [of "emit (Handled f) m"]
    by (cases "type f") (simp_all add: dispatch_def)
qed

lemma closeAll_closed [simp]: "mux_closed (closeAll m)"
  by (simp add: closeAll_def Let_def)

lemma flow_process_frame:
  assumes inv: "mux_inv m" "flow_inv m"
  shows "flow_inv (process_frame ok f rest m)"
proof -
  let ?m = "m\<lparr>work := Some rest, framesIn := framesIn m + 1, payloadBytesIn := payloadBytesIn m + length (payload f)\<rparr>"
  have "mux_inv ?m" "flow_inv ?m" using inv mux_inv_work_Some [OF inv(1), of rest] flow_cong [of ?m m] by simp_all
  from flow_dispatch [OF this, of ok f] show ?thesis
    by (cases "dispatch ok f (emit (Handled f) ?m)") (auto simp: process_frame_def catch_close_def flow_closed split: option.split)
qed

lemma flow_connect_failed: "mux_inv m \<Longrightarrow> flow_inv m \<Longrightarrow> flow_inv (snd (connect_failed m))"
proof (cases "connecting m")
  case (Some c)
  assume inv: "mux_inv m" "flow_inv m"
  obtain sid t where c: "c = (sid, t)" by (cases c)
  show ?thesis
  proof (cases "mux_closed m")
    case False
    then show ?thesis using Some c
      by (intro flow_quiet [OF mux_inv_indexed [OF inv(1)] inv(2), of _ "[ChannelWrite (frame_bytes \<lparr>type = Close, streamId = sid, payload = []\<rparr>)]"])
        (auto simp: connect_failed_def send_ok log_sent)
  qed (use Some c in \<open>simp add: connect_failed_def send_ok flow_closed\<close>)
qed (simp add: connect_failed_def)

lemma flow_connect_done:
  assumes inv: "mux_inv m" "flow_inv m"
  shows "flow_inv (snd (connect_done m))"
proof (cases "connecting m")
  case None
  then show ?thesis using inv by (simp add: connect_done_def)
next
  case (Some c)
  obtain sid t where c: "c = (sid, t)" by (cases c)
  show ?thesis
  proof (cases "mux_closed m")
    case True
    then show ?thesis using Some c by (simp add: connect_done_def Let_def flow_closed)
  next
    case False
    let ?n = "next_socket m" and ?m = "snd (connect_done m)" and ?a = "length (store m)"
    let ?w = "ChannelWrite (frame_bytes \<lparr>type = Window, streamId = sid, payload = windowPayload (window m)\<rparr>)"
    let ?s = "\<lparr>socket = ?n, credit = int (window m), pausedForCredit = False, awaitingDrain = False, unacked = 0,
       stream_closed = False, blockedSince = None, blockReported = False\<rparr>"
    have m': "log ?m = log m @ [Connected sid ?n, ?w]" "store ?m = store m @ [?s]" "streams ?m = streams m @ [(sid, ?a)]"
      "window ?m = window m" "next_socket ?m = ?n + 1" "\<not> mux_closed ?m"
      using Some c False by (simp_all add: connect_done_def Let_def send_ok log_sent)
    have flow: "\<forall>n. dialled n (log m) \<longrightarrow> n < ?n" "distinct (map socket (store m))" "\<forall>s \<in> set (store m). socket s < ?n"
      "\<And>sid a. (sid, a) \<in> set (streams m) \<Longrightarrow> Connected sid (socket (store m ! a)) \<in> set (log m)
        \<and> account (window m) sid (store m ! a) (since (socket (store m ! a)) (log m))"
      using inv(2) False by (auto simp: flow_inv_def)
    have new: "\<not> dialled ?n (log m)" using flow(1) by blast
    have "dialled n (log ?m) \<Longrightarrow> n < next_socket ?m" for n
      using flow(1) m'(1,5) by (auto simp: dialled_def less_SucI)
    moreover have "distinct (map socket (store ?m))" "\<forall>s \<in> set (store ?m). socket s < next_socket ?m"
      using flow(2,3) m'(2,5) by fastforce+
    moreover have "Connected k (socket (store ?m ! a)) \<in> set (log ?m) \<and> account (window ?m) k (store ?m ! a) (since (socket (store ?m ! a)) (log ?m))"
      if "(k, a) \<in> set (streams ?m)" for k a
    proof (cases "(k, a) \<in> set (streams m)")
      case True
      have a: "a < ?a" using mux_inv_live(1) [OF inv(1) True] .
      have other: "k \<noteq> sid" using mux_inv_base(5) [OF inv(1)] Some c True by (auto simp: rev_image_eqI)
      have "account (window m) k (store m ! a) (since (socket (store m ! a)) (log m) @ [Connected sid ?n, ?w])"
        using flow(4) [OF True] other by (subst account_foreign) auto
      moreover have "dialled (socket (store m ! a)) (log m)" using flow(4) [OF True] by (auto simp: dialled_def)
      ultimately show ?thesis using flow(4) [OF True] a m'(1,2,4) by (simp add: nth_append since_append)
    next
      case False
      then have "k = sid" "a = ?a" using that m'(3) by auto
      then show ?thesis using m'(1,2,4) new by (simp add: nth_append since_new account_new)
    qed
    ultimately show ?thesis using m'(6) by (auto simp: flow_inv_def)
  qed
qed

lemma send_slices_log:
  assumes "\<forall>p \<in> set ps. length p \<le> MAX_PAYLOAD_BYTES" "\<not> mux_closed m"
  shows "log (snd (send_slices sid a ps m)) = log m @ map (\<lambda>p. ChannelWrite (frame_bytes \<lparr>type = Data, streamId = sid, payload = p\<rparr>)) ps
    \<and> window (snd (send_slices sid a ps m)) = window m \<and> next_socket (snd (send_slices sid a ps m)) = next_socket m"
  using assms by (induction ps arbitrary: m) (simp_all add: send_ok log_sent)

lemma flow_onLocalData:
  assumes inv: "mux_inv m" "flow_inv m" and a: "a < length (store m)"
  shows "flow_inv (snd (onLocalData (captured m ! a) a data m))"
proof (cases "stream_closed (store m ! a) \<or> mux_closed m")
  case True
  then show ?thesis using inv(2) outward_onLocalData [OF a, of "captured m ! a" data]
    by (auto simp: onLocalData_def outward_def intro: flow_closed)
next
  case False
  let ?m = "m\<lparr>socketBytesOut := socketBytesOut m + length data\<rparr>" and ?sid = "captured m ! a"
  let ?ws = "map (\<lambda>p. ChannelWrite (frame_bytes \<lparr>type = Data, streamId = ?sid, payload = p\<rparr>)) (slices data)"
    and ?s = "(store m ! a)\<lparr>credit := credit (store m ! a) - int (length data)\<rparr>"
  obtain m' where m': "send_slices ?sid a (slices data) ?m = (None, m')" "captured m' = captured m"
    "store m' = (store m)[a := ?s]" "streams m' = streams m" "mux_closed m' = mux_closed m"
    using send_slices_eq [of a ?m "slices data" ?m ?sid] a slices_bound concat_slices by auto
  have more: "log m' = log m @ ?ws" "window m' = window m" "next_socket m' = next_socket m"
    using send_slices_log [of "slices data" ?m ?sid a] slices_bound False m'(1) by auto
  have live: "(?sid, a) \<in> set (streams m)" using mux_inv_open [OF inv(1) _ a] False by blast
  have ix: "indexed m" "indexed m'" using mux_inv_indexed [OF inv(1)] m' by (simp_all add: indexed_def)
  have flow: "flow_inv m'"
  proof (rule flow_at [OF ix(1) inv(2) a, of _ ?ws ?s])
    show "account (window m) ?sid ?s (l @ ?ws)" if "account (window m) ?sid (store m ! a) l" for l
      using account_slices [OF that, of "slices data"] slices_bound by (simp add: concat_slices)
  qed (use m' more live slices_bound in auto)
  let ?n = "emit (SocketPause (socket (store m' ! a))) ((upd a (\<lambda>s. s\<lparr>pausedForCredit := True\<rparr>) m')\<lparr>creditStalls := creditStalls m' + 1\<rparr>)"
  have "flow_inv ?n"
    using a m'(3) by (intro flow_at [OF ix(2) flow, of a _ "[SocketPause (socket (store m' ! a))]" "(store m' ! a)\<lparr>pausedForCredit := True\<rparr>"])
      (simp_all add: account_pause [of _ _ ?s, simplified])
  then show ?thesis using flow False m'(1) by (simp add: onLocalData_def)
qed

lemma flow_onLocalEnd:
  assumes inv: "mux_inv m" "flow_inv m" and a: "a < length (store m)"
  shows "flow_inv (snd (onLocalEnd (captured m ! a) a m))"
proof (cases "stream_closed (store m ! a) \<or> mux_closed m")
  case True
  then show ?thesis using inv(2) by (auto simp: onLocalEnd_eq intro: flow_closed)
next
  case False
  then show ?thesis
    using mux_inv_open [OF inv(1) _ a]
    by (intro flow_at [OF mux_inv_indexed [OF inv(1)] inv(2) a, of _
        "[ChannelWrite (frame_bytes \<lparr>type = Close, streamId = captured m ! a, payload = []\<rparr>)]" "(store m ! a)\<lparr>stream_closed := True\<rparr>"])
      (auto simp: onLocalEnd_eq log_sent)
qed

lemma watch_account:
  "socket (fst (watch now s)) = socket s" "account w sid (fst (watch now s)) l = account w sid s l"
  by (auto simp: watch_def account_def split: option.split)

lemma flow_report_streams: "indexed m \<Longrightarrow> flow_inv m \<Longrightarrow> \<forall>(sid, a) \<in> set xs. a < length (store m) \<Longrightarrow> flow_inv (report_streams now xs m)"
proof (induction xs arbitrary: m)
  case (Cons x xs)
  obtain sid a where x: "x = (sid, a)" by (cases x)
  obtain s warn where w: "watch now (store m ! a) = (s, warn)" by (rule prod.exhaust)
  have a: "a < length (store m)" using Cons.prems(3) x by simp
  have flow: "flow_inv (upd a (\<lambda>_. s) m)"
    using watch_account [where now = now and s = "store m ! a"] w by (intro flow_at [OF Cons.prems(1,2) a, of _ "[]" s]) simp_all
  have "flow_inv (emit (StallWarning sid) (upd a (\<lambda>_. s) m))"
    using Cons.prems(1) by (intro flow_quiet [OF _ flow, of _ "[StallWarning sid]"]) simp_all
  then show ?case
    using Cons.IH [of "if warn then emit (StallWarning sid) (upd a (\<lambda>_. s) m) else upd a (\<lambda>_. s) m"] Cons.prems(1,3) flow x w
    by (cases warn) (simp_all add: Let_def)
qed simp

lemma flow_report: "mux_inv m \<Longrightarrow> flow_inv m \<Longrightarrow> flow_inv (reportStalledStreams now m)"
proof -
  assume inv: "mux_inv m" "flow_inv m"
  have "flow_inv (report_streams now (streams m) m)"
    using mux_inv_live(1) [OF inv(1)] by (intro flow_report_streams mux_inv_indexed inv) blast
  then show ?thesis using inv(2) by (simp add: reportStalledStreams_def)
qed

lemma flow_process_begin: "mux_inv m \<Longrightarrow> flow_inv m \<Longrightarrow> flow_inv (process_begin c m)"
proof -
  assume inv: "mux_inv m" "flow_inv m"
  have "flow_inv ((emit (Fed c) (m\<lparr>decoder := d\<rparr>))\<lparr>work := Some fs\<rparr>)" for d fs
    by (rule flow_quiet [OF mux_inv_indexed [OF inv(1)] inv(2), of _ "[Fed c]"]) auto
  then show ?thesis using inv(2) by (auto simp: process_begin_def Let_def flow_closed split: prod.split sum.split)
qed

lemma mux_step_flow: "mux_step m m' \<Longrightarrow> mux_inv m \<Longrightarrow> flow_inv m \<Longrightarrow> flow_inv m'"
proof (induction rule: mux_step.induct)
  case (chunk m c)
  show ?case
    by (rule flow_quiet [OF mux_inv_indexed [OF chunk(1)] chunk(2), of _ "[Arrived c]"]) (simp_all add: handleChunk_def)
next
  case (begin_chunk m c cs)
  then show ?case using flow_process_begin [of "m\<lparr>queue := cs\<rparr>" c] flow_cong [of "m\<lparr>queue := cs\<rparr>" m] by simp
next
  case (finish m)
  then show ?case using flow_cong [of "m\<lparr>work := None\<rparr>" m] by simp
next
  case (connected m)
  then show ?case using connect_no_error(1) [of m] flow_connect_done [of m]
    by (auto simp: catch_close_def split: prod.splits option.splits)
next
  case (connect_error m)
  then show ?case using connect_no_error(2) [of m] flow_connect_failed [of m]
    by (auto simp: catch_close_def split: prod.splits option.splits)
qed (simp_all add: flow_process_frame flow_onLocalData flow_onLocalEnd flow_onDrain flow_report flow_closed)

section \<open>Reachable multiplexers\<close>

definition mux_init :: "TunnelMux \<Rightarrow> bool" where
  "mux_init m \<longleftrightarrow> (\<exists>w. m = new_TunnelMux w) \<and> 0 < window m"

interpretation mux: inductive_invariant mux_init mux_step "\<lambda>m. mux_inv m \<and> wire_inv m \<and> flow_inv m"
proof unfold_locales
  fix m assume "mux_init m"
  then show "mux_inv m \<and> wire_inv m \<and> flow_inv m"
    by (auto simp: mux_init_def new_TunnelMux_def mux_inv_def wire_inv_def to_dispatch_def flow_inv_def)
next
  fix s t assume "mux_inv s \<and> wire_inv s \<and> flow_inv s" "mux_step s t"
  then show "mux_inv t \<and> wire_inv t \<and> flow_inv t" using mux_step_inv mux_step_wire mux_step_flow by blast
qed

lemma outward_closed:
  "outward m m' \<Longrightarrow> mux_closed m \<Longrightarrow> mux_closed m' \<and> written (log m') = written (log m)"
  by (auto simp: outward_def)

lemma closed_catch:
  "mux_closed (snd r) \<Longrightarrow> mux_closed (catch_close r) \<and> log (catch_close r) = log (snd r)"
  by (cases r) (auto simp: catch_close_def closeAll_def split: option.split)

lemma mux_step_closed:
  "mux_step m m' \<Longrightarrow> mux_closed m \<Longrightarrow> mux_closed m' \<and> written (log m') = written (log m)"
proof (induction rule: mux_step.induct)
  case (frame m f fs accepted)
  let ?m = "emit (Handled f) (m\<lparr>work := Some fs, framesIn := framesIn m + 1,
          payloadBytesIn := payloadBytesIn m + length (payload f)\<rparr>)"
  have "mux_closed (snd (dispatch accepted f ?m))
      \<and> written (log (snd (dispatch accepted f ?m))) = written (log ?m)"
    using frame.prems outward_closed [OF outward_dispatch, of ?m accepted f] by simp
  then show ?case
    unfolding process_frame_def using closed_catch [of "dispatch accepted f ?m"] by simp
next
  case (connected m)
  then show ?case using outward_closed [OF outward_connect_done, of m] closed_catch by simp
next
  case (connect_error m)
  then show ?case using outward_closed [OF outward_connect_failed, of m] closed_catch by simp
next
  case (local_data a m data)
  then show ?case using outward_closed [OF outward_onLocalData] by blast
next
  case (local_end a m)
  then show ?case using outward_closed [OF outward_onLocalEnd] by blast
next
  case (drain a m)
  then show ?case using outward_closed [OF outward_onDrain] by blast
qed (auto simp: handleChunk_def process_begin_def closeAll_def reportStalledStreams_def)

lemma send_slices_written:
  assumes "\<forall>p \<in> set ps. length p \<le> MAX_PAYLOAD_BYTES" "\<not> mux_closed m"
  shows "written (log (snd (send_slices sid a ps m))) =
    written (log m) @ map (\<lambda>p. frame_bytes \<lparr>type = Data, streamId = sid, payload = p\<rparr>) ps"
  using assms by (induction ps arbitrary: m) (simp_all add: send_ok sent_def)

section \<open>A run: the container announces itself and opens a stream to the MCP endpoint\<close>

definition demo_frame :: Frame where
  "demo_frame = \<lparr>type = Open, streamId = 1, payload = ascii_bytes ''mcp''\<rparr>"

definition demo_chunk :: bytes where
  "demo_chunk = TUNNEL_PREAMBLE @ frame_bytes demo_frame"

definition demo_read :: TunnelMux where
  "demo_read = process_begin demo_chunk ((handleChunk demo_chunk (emit (Arrived demo_chunk) (new_TunnelMux None)))\<lparr>queue := []\<rparr>)"

definition demo_mux :: TunnelMux where
  "demo_mux = catch_close (connect_done (process_frame True demo_frame [] demo_read))"

lemma demo_push: "\<exists>d. push (new_FrameDecoder True) demo_chunk = (d, Inr [demo_frame])"
proof -
  have hit: "index_of TUNNEL_PREAMBLE ([] @ demo_chunk) = Some 0"
    by (simp add: index_of.simps demo_chunk_def)
  have ok: "frame_ok demo_frame"
    by (simp add: frame_ok_def demo_frame_def ascii_bytes_def MAX_PAYLOAD_BYTES_def)
  have "read_frames (after_marker ([] @ demo_chunk) 0) = ([], Inr [demo_frame])"
    using read_frames_encoded [of "[demo_frame]" "[]"] ok
    by (simp add: after_marker_def demo_chunk_def read_frame_def HEADER_BYTES_def)
  then show ?thesis using push_unsynced_hit [OF tracks_new hit] by simp
qed

lemma demo_target: "isTunnelTarget (decode_text (payload demo_frame)) = Some Mcp"
  by (simp add: demo_frame_def decode_text_ascii isTunnelTarget_def TUNNEL_TARGETS_def cps_def)

lemma demo_read_state:
  "work demo_read = Some [demo_frame]" "connecting demo_read = None" "\<not> mux_closed demo_read"
  "store demo_read = []" "captured demo_read = []" "streams demo_read = []"
  "window demo_read = DEFAULT_WINDOW_BYTES"
proof -
  obtain d where "push (new_FrameDecoder True) demo_chunk = (d, Inr [demo_frame])"
    using demo_push by blast
  then show "work demo_read = Some [demo_frame]" "connecting demo_read = None" "\<not> mux_closed demo_read"
    "store demo_read = []" "captured demo_read = []" "streams demo_read = []"
    "window demo_read = DEFAULT_WINDOW_BYTES"
    by (simp_all add: demo_read_def process_begin_def handleChunk_def emit_def new_TunnelMux_def Let_def)
qed

lemma demo_reads: "reach mux_init mux_step demo_read"
proof -
  let ?m0 = "new_TunnelMux None"
  have "reach mux_init mux_step ?m0"
    by (rule reach_init) (auto simp: mux_init_def, simp add: new_TunnelMux_def DEFAULT_WINDOW_BYTES_def)
  then have "reach mux_init mux_step (handleChunk demo_chunk (emit (Arrived demo_chunk) ?m0))" by (rule reach_step) (rule mux_step.chunk)
  then show ?thesis unfolding demo_read_def
    by (rule reach_step) (rule mux_step.begin_chunk, simp_all add: handleChunk_def emit_def new_TunnelMux_def)
qed

lemma demo_dispatch:
  "connecting (process_frame True demo_frame [] demo_read) = Some (1, Mcp)"
  "work (process_frame True demo_frame [] demo_read) = Some []"
  "store (process_frame True demo_frame [] demo_read) = []"
  "streams (process_frame True demo_frame [] demo_read) = []"
  "\<not> mux_closed (process_frame True demo_frame [] demo_read)"
  "window (process_frame True demo_frame [] demo_read) = DEFAULT_WINDOW_BYTES"
  using demo_target
  by (simp_all add: process_frame_def dispatch_def onOpen_def catch_close_def demo_read_state
      demo_frame_def)

lemma demo_mux_reach: "reach mux_init mux_step demo_mux"
proof -
  have "reach mux_init mux_step (process_frame True demo_frame [] demo_read)"
    by (intro reach_step [OF demo_reads] mux_step.frame demo_read_state)
  then show ?thesis unfolding demo_mux_def
    by (rule reach_step) (rule mux_step.connected, simp add: demo_dispatch)
qed

lemma demo_mux_state:
  "streams demo_mux = [(1, 0)]" "\<not> mux_closed demo_mux" "length (store demo_mux) = 1"
  "window demo_mux = DEFAULT_WINDOW_BYTES" "store demo_mux ! 0 = \<lparr>socket = socket (store demo_mux ! 0),
     credit = int DEFAULT_WINDOW_BYTES, pausedForCredit = False, awaitingDrain = False, unacked = 0,
     stream_closed = False, blockedSince = None, blockReported = False\<rparr>"
  by (simp_all add: demo_mux_def connect_done_def demo_dispatch send_ok catch_close_def Let_def)

lemma demo_mux_inv: "mux_inv demo_mux"
  using mux.reach_inv [OF demo_mux_reach] by simp

section \<open>Properties\<close>

text \<open>
  (Lemma) Frames are processed strictly in arrival order and none is lost: in every reachable open
  multiplexer, whatever the interleaving of chunks, connects, socket events and timers, the chunks
  that have arrived are those already read followed by those queued, in order; and decoding the
  chunks read yields exactly the frames dispatched so far followed by the frames the running
  \<open>process\<close> call still holds.
\<close>

theorem mux_serialized:
  assumes "reach mux_init mux_step m" and "\<not> mux_closed m"
  shows "arrived (log m) = fed (log m) @ queue m
    \<and> push_all (new_FrameDecoder True) (fed (log m)) = (decoder m, Inr (handled (log m) @ to_dispatch m))"
  using mux.reach_inv [OF assms(1)] assms(2) by (simp add: wire_inv_def)

theorem mux_serialized_witness:
  "reach mux_init mux_step demo_read \<and> \<not> mux_closed demo_read \<and>
   push_all (new_FrameDecoder True) (fed (log demo_read)) =
     (decoder demo_read, Inr (handled (log demo_read) @ to_dispatch demo_read))
   \<and> to_dispatch demo_read = [demo_frame]"
  using demo_reads mux_serialized [OF demo_reads demo_read_state(3)]
  by (simp add: to_dispatch_def demo_read_state)

text \<open>
  (C5) Flow control, in terms of what passed the sockets and the channel since the stream's socket was
  dialled, whatever the interleaving. The open streams have distinct ids and sockets. A stream's
  socket is paused - \<open>pause\<close> was called and no \<open>resume\<close> since - exactly while the \<open>DATA\<close> bytes
  sent on it have used up the initial window and every credit the peer's \<open>WINDOW\<close> frames granted.
  In the other direction the \<open>WINDOW\<close> frames the stream sent grant the initial window and every
  byte handed to the socket, except a remainder \<open>held\<close> back (to the 32 bits a \<open>WINDOW\<close> frame
  carries; exactly, below \<open>2^32\<close> bytes), and unless the socket refused a write and has not drained
  since, that remainder is less than half a window.
\<close>

theorem mux_flow_control:
  assumes "reach mux_init mux_step m" and "(sid, a) \<in> set (streams m)"
    and n: "n = socket (store m ! a)" and es: "es = since n (log m)"
  shows "\<not> mux_closed m \<and> Connected sid n \<in> set (log m)
    \<and> distinct (map fst (streams m)) \<and> distinct (map (\<lambda>(k, b). socket (store m ! b)) (streams m))
    \<and> (socket_paused n es \<longleftrightarrow> window m + credit_received sid es \<le> data_sent sid es)
    \<and> (\<exists>held. (credit_granted sid es + held) mod 2 ^ 32 = (window m + delivered n es) mod 2 ^ 32
         \<and> (window m + delivered n es < 2 ^ 32 \<longrightarrow> credit_granted sid es + held = window m + delivered n es)
         \<and> (\<not> socket_full n es \<longrightarrow> 2 * held < window m))"
proof -
  have inv: "mux_inv m" and flow: "flow_inv m" using mux.reach_inv [OF assms(1)] by simp_all
  note live = mux_inv_live [OF inv assms(2)] and ix = mux_inv_indexed [OF inv]
  let ?s = "store m ! a"
  have acc: "Connected sid n \<in> set (log m)" "account (window m) sid ?s es"
    using flow live(5) assms(2) by (simp_all add: flow_inv_def n es)
  have "inj_on (\<lambda>(k, b). socket (store m ! b)) (set (streams m))"
  proof (rule inj_onI, clarify)
    fix k b k' b' assume kb: "(k, b) \<in> set (streams m)" "(k', b') \<in> set (streams m)" "socket (store m ! b) = socket (store m ! b')"
    then have "b = b'" using streams_apart(1) [OF ix flow live(5) kb(1)] ix by (auto simp: indexed_def)
    then show "k = k' \<and> b = b'" using kb(1,2) ix by (auto simp: indexed_def)
  qed
  then have sockets: "distinct (map (\<lambda>(k, b). socket (store m ! b)) (streams m))"
    using mux_inv_base(3) [OF inv] by (simp add: distinct_map)
  have "stream_ok (window m) ?s" by (rule live(4))
  then have "socket_paused n es \<longleftrightarrow> window m + credit_received sid es \<le> data_sent sid es" "\<not> socket_full n es \<longrightarrow> 2 * unacked ?s < window m"
    using acc(2) n by (auto simp: account_def stream_ok_def)
  then show ?thesis using live(5) acc mux_inv_base(3) [OF inv] sockets n unfolding account_def by blast
qed

text \<open>The stream of the demonstration run after a read of the whole window and one byte more.\<close>

definition demo_full :: TunnelMux where
  "demo_full = snd (onLocalData (captured demo_mux ! 0) 0 (replicate (DEFAULT_WINDOW_BYTES + 1) 0) demo_mux)"

theorem mux_flow_control_witness:
  "socket_paused (socket (store demo_full ! 0)) (since (socket (store demo_full ! 0)) (log demo_full))"
proof -
  let ?data = "replicate (DEFAULT_WINDOW_BYTES + 1) 0 :: bytes" and ?n = "socket (store demo_full ! 0)"
  have r: "reach mux_init mux_step demo_full" unfolding demo_full_def
    by (rule reach_step [OF demo_mux_reach]) (rule mux_step.local_data, simp add: demo_mux_state)
  have "\<not> stream_closed (store demo_mux ! 0)" by (subst demo_mux_state(5)) simp
  then have st: "store demo_full ! 0 = (let s = store demo_mux ! 0; c = credit s - int (length ?data)
      in s\<lparr>credit := c, pausedForCredit := (pausedForCredit s \<or> c \<le> 0)\<rparr>)" "streams demo_full = [(1, 0)]" "window demo_full = DEFAULT_WINDOW_BYTES"
    using onLocalData_eq [of 0 demo_mux "captured demo_mux ! 0" ?data] demo_mux_state
    by (auto simp: demo_full_def outward_def)
  have mem: "(1, 0) \<in> set (streams demo_full)" using st by simp
  have "account (window demo_full) 1 (store demo_full ! 0) (since ?n (log demo_full))"
    using mux.reach_inv [OF r] mem mux_inv_live(5) [of demo_full] by (auto simp: flow_inv_def)
  moreover have "credit (store demo_mux ! 0) = int DEFAULT_WINDOW_BYTES" by (subst demo_mux_state(5)) simp
  then have "credit (store demo_full ! 0) \<le> 0" unfolding st(1) by (simp add: Let_def)
  ultimately have "window demo_full + credit_received 1 (since ?n (log demo_full)) \<le> data_sent 1 (since ?n (log demo_full))"
    by (simp add: account_def)
  then show ?thesis using mux_flow_control [OF r mem refl refl] by blast
qed


text \<open>
  (Lemma) Everything the multiplexer ever wrote to the channel is a sequence of whole frames: a peer
  that reads the concatenated bytes gets frames with nothing left over, as many as
  \<open>framesOut\<close> counted, carrying in total the payload bytes \<open>payloadBytesOut\<close> counted.
\<close>

theorem mux_output_decodes:
  assumes "reach mux_init mux_step m"
  shows "\<exists>fs. read_frames (concat (written (log m))) = ([], Inr fs)
    \<and> length fs = framesOut m \<and> sum_list (map (length \<circ> payload) fs) = payloadBytesOut m"
proof -
  obtain fs where "written (log m) = map frame_bytes fs" "\<forall>f \<in> set fs. frame_ok f"
    "framesOut m = length fs" "payloadBytesOut m = sum_list (map (length \<circ> payload) fs)"
    using mux.reach_inv [OF assms] by (auto simp: wire_inv_def)
  moreover have "read_frame [] = Need" by (simp add: read_frame_def HEADER_BYTES_def)
  ultimately show ?thesis using read_frames_encoded [of fs "[]"] by auto
qed

theorem mux_output_decodes_witness:
  "reach mux_init mux_step demo_mux
   \<and> (\<exists>fs. read_frames (concat (written (log demo_mux))) = ([], Inr fs) \<and> length fs = framesOut demo_mux)"
  using demo_mux_reach mux_output_decodes [OF demo_mux_reach] by blast

text \<open>
  (Lemma) Closing is final: once the tunnel is closed no sequence of later events reopens it or
  writes another byte to the channel.
\<close>

theorem mux_closed_final:
  assumes "mux_step\<^sup>*\<^sup>* m m'" and "mux_closed m"
  shows "mux_closed m' \<and> written (log m') = written (log m)"
  using assms by (induction rule: rtranclp_induct) (auto dest: mux_step_closed)

theorem mux_closed_final_witness:
  "mux_closed (closeAll demo_mux)
   \<and> written (log (handleChunk [1] (emit (Arrived [1]) (closeAll demo_mux)))) = written (log (closeAll demo_mux))"
proof -
  have cl: "mux_closed (closeAll demo_mux)" by (simp add: closeAll_def Let_def)
  have st: "mux_step\<^sup>*\<^sup>* (closeAll demo_mux) (handleChunk [1] (emit (Arrived [1]) (closeAll demo_mux)))"
    by (rule r_into_rtranclp) (rule mux_step.chunk)
  show ?thesis using cl mux_closed_final [OF st cl] by blast
qed

text \<open>
  (Lemma) A local read is forwarded in full and metered in full: the frames written carry exactly the
  bytes read, each within the payload cap, the stream's credit drops by exactly that many bytes,
  and the socket ends up paused exactly when the credit is used up.
\<close>

theorem mux_local_read:
  assumes "mux_inv m" and "(sid, a) \<in> set (streams m)"
  shows "\<exists>m' ps. onLocalData sid a data m = (None, m') \<and> concat ps = data
    \<and> (\<forall>p \<in> set ps. length p \<le> MAX_PAYLOAD_BYTES)
    \<and> written (log m') = written (log m)
         @ map (\<lambda>p. frame_bytes \<lparr>type = Data, streamId = sid, payload = p\<rparr>) ps
    \<and> credit (store m' ! a) = credit (store m ! a) - int (length data)
    \<and> (pausedForCredit (store m' ! a) \<longleftrightarrow> credit (store m' ! a) \<le> 0)"
proof -
  note live = mux_inv_live [OF assms]
  let ?m = "m\<lparr>socketBytesOut := socketBytesOut m + length data\<rparr>"
  obtain m' where m': "onLocalData sid a data m = (None, m')"
    "store m' = (store m)[a := (let s = store m ! a; c = credit s - int (length data)
          in s\<lparr>credit := c, pausedForCredit := (pausedForCredit s \<or> c \<le> 0)\<rparr>)]"
    using onLocalData_eq [OF live(1,3), of sid data] by blast
  have "written (log (snd (onLocalData sid a data m))) =
      written (log (snd (send_slices sid a (slices data) ?m)))"
    using live send_slices_eq [of a ?m "slices data" ?m sid] slices_bound
    by (auto simp: onLocalData_def)
  also have "\<dots> = written (log m) @ map (\<lambda>p. frame_bytes \<lparr>type = Data, streamId = sid, payload = p\<rparr>) (slices data)"
    using send_slices_written [of "slices data" ?m sid a] slices_bound live(5) by simp
  finally show ?thesis
    using m' live(1,4) slices_bound [of _ data]
    by (intro exI [of _ m'] exI [of _ "slices data"]) (auto simp: concat_slices Let_def stream_ok_def)
qed

theorem mux_local_read_witness:
  "mux_inv demo_mux \<and> (1, 0) \<in> set (streams demo_mux)
   \<and> (\<exists>m'. onLocalData 1 0 [7, 8] demo_mux = (None, m')
        \<and> credit (store m' ! 0) = int DEFAULT_WINDOW_BYTES - 2)"
proof -
  have mem: "(1, 0) \<in> set (streams demo_mux)" by (simp add: demo_mux_state)
  have "credit (store demo_mux ! 0) = int DEFAULT_WINDOW_BYTES" by (subst demo_mux_state(5)) simp
  then show ?thesis
    using demo_mux_inv mem mux_local_read [OF demo_mux_inv mem, of "[7, 8]"] by auto
qed

text \<open>
  (Lemma) Consumed bytes come back as credit, none twice and none forgotten: handling a
  \<open>DATA\<close> frame hands the payload to the stream's socket, and the credit granted by the frame
  it may send plus what it still owes equals what it owed before plus the payload. Credit is
  granted only when the socket took the bytes and is not waiting to drain.
\<close>

theorem mux_consume_credit:
  assumes "mux_inv m" and "map_of (streams m) sid = Some a"
  shows "\<exists>m' g. onData accepted sid p m = (None, m')
    \<and> (\<exists>rest. log m' = log m @ SocketWrite (socket (store m ! a)) p accepted # rest)
    \<and> written (log m') = written (log m) @
        (if g = 0 then [] else [frame_bytes \<lparr>type = Window, streamId = sid, payload = windowPayload g\<rparr>])
    \<and> unacked (store m' ! a) + g = unacked (store m ! a) + length p
    \<and> (g \<noteq> 0 \<longrightarrow> accepted \<and> \<not> awaitingDrain (store m ! a))"
proof -
  note live = mux_inv_live [OF assms(1) map_of_SomeD [OF assms(2)]]
  let ?u = "unacked (store m ! a) + length p"
  define g where "g = (if accepted \<and> \<not> awaitingDrain (store m ! a) \<and> \<not> 2 * ?u < window m then ?u else 0)"
  have "0 < window m" using mux_inv_base(1) [OF assms(1)] .
  then show ?thesis
    using live assms(2)
    by (intro exI [of _ "snd (onData accepted sid p m)"] exI [of _ g])
       (auto simp: onData_def flushCredit_eq Let_def sent_def g_def emit_def upd_def)
qed

theorem mux_consume_credit_witness:
  "mux_inv demo_mux \<and> map_of (streams demo_mux) 1 = Some 0
   \<and> (\<exists>m' g. onData True 1 [5] demo_mux = (None, m') \<and> unacked (store m' ! 0) + g = 1)"
proof -
  have look: "map_of (streams demo_mux) 1 = Some 0" by (simp add: demo_mux_state)
  have "unacked (store demo_mux ! 0) = 0" by (subst demo_mux_state(5)) simp
  then show ?thesis
    using demo_mux_inv look mux_consume_credit [OF demo_mux_inv look, of True "[5]"] by auto
qed

text \<open>
  (Lemma) The container cannot choose where the tunnel connects: an \<open>OPEN\<close> whose payload does
  not decode to one of the three target keys dials nothing, opens no stream and is answered with
  exactly one \<open>CLOSE\<close> frame for its id.
\<close>

theorem mux_refuses_unknown_target:
  assumes "isTunnelTarget (decode_text p) = None" and "map_of (streams m) sid = None"
    and "\<not> mux_closed m"
  shows "dispatch accepted \<lparr>type = Open, streamId = sid, payload = p\<rparr> m =
    (None, m\<lparr>framesOut := framesOut m + 1,
       log := log m @ [ChannelWrite (frame_bytes \<lparr>type = Close, streamId = sid, payload = []\<rparr>)]\<rparr>)"
  using assms by (simp add: dispatch_def onOpen_def send_ok sent_def emit_def)

theorem mux_refuses_unknown_target_witness:
  "\<exists>m'. dispatch True \<lparr>type = Open, streamId = 2, payload = ascii_bytes ''lan''\<rparr> demo_mux = (None, m')
     \<and> streams m' = streams demo_mux \<and> connecting m' = connecting demo_mux"
proof -
  have a: "isTunnelTarget (decode_text (ascii_bytes ''lan'')) = None"
    by (simp add: decode_text_ascii isTunnelTarget_def TUNNEL_TARGETS_def cps_def)
  have b: "map_of (streams demo_mux) 2 = None" by (simp add: demo_mux_state)
  show ?thesis using mux_refuses_unknown_target [OF a b demo_mux_state(2), of True] by simp
qed

text \<open>
  (Lemma) A stream that cannot be trusted fails closed: a decoding error, or a \<open>WINDOW\<close> frame
  that does not carry four bytes, leaves the tunnel closed with no stream open and no work left,
  with the channel closed last.
\<close>

theorem mux_fails_closed:
  assumes "\<not> mux_closed m"
    and "work m = None \<and> (\<exists>d e. push (decoder m) c = (d, Inl e)) \<and> m' = process_begin c m
       \<or> length (payload f) \<noteq> 4 \<and> type f = Window \<and> m' = process_frame accepted f rest m"
  shows "mux_closed m' \<and> streams m' = [] \<and> work m' = None \<and> last (log m') = ChannelClose"
  using assms
  by (auto simp: process_begin_def process_frame_def dispatch_def decodeWindowCredit_def
      catch_close_def closeAll_def Let_def emit_def)

theorem mux_fails_closed_witness:
  "mux_closed (process_frame True \<lparr>type = Window, streamId = 1, payload = [9]\<rparr> [] demo_mux)
   \<and> streams (process_frame True \<lparr>type = Window, streamId = 1, payload = [9]\<rparr> [] demo_mux) = []"
  using mux_fails_closed [OF demo_mux_state(2), where f = "\<lparr>type = Window, streamId = 1, payload = [9]\<rparr>"
      and accepted = True and rest = "[]"]
  by simp

end
