(* ===== verification/Docker_Frames.thy ===== *)
theory Docker_Frames
  imports Framing Utf8
begin

text \<open>
  Docker's multiplexed attach stream, decoded twice: to text by \<open>DockerFrameDecoder\<close>
  (\<open>services/docker-frames.ts\<close>), which keeps its bytes between two offsets of a growing
  backing buffer and decodes each side with a streaming \<open>TextDecoder\<close>, and to bytes by
  \<open>DockerBinaryFrameDecoder\<close> (\<open>services/sandbox/tunnel/docker-frames-binary.ts\<close>).

  Both are shown to read the frames of one abstract parser, an instance of
  \<open>incremental_parser\<close>; the text decoder is a refinement of it (the bytes between the offsets
  are its buffer), and its output is the decoding of each side's concatenated payloads, however
  the stream was cut into chunks and frames.

  A typed-array write out of range is a value, \<open>None\<close>, as the platform's \<open>RangeError\<close>.
\<close>

section \<open>The text decoder\<close>

datatype DockerStream = Stdout | Stderr

record DockerFrame =
  frame_stream :: DockerStream
  frame_text :: utext

definition HEADER_BYTES :: nat where
  "HEADER_BYTES = 8"

definition INITIAL_CAPACITY :: nat where
  "INITIAL_CAPACITY = 64 * 1024"

text \<open>\<open>lib/sql.ts\<close>: every NUL is removed from a decoded text.\<close>

definition stripNulBytes :: "utext \<Rightarrow> utext" where
  "stripNulBytes = filter (\<lambda>c. c \<noteq> 0)"

text \<open>The doubling loop; it is entered with a positive capacity, from which it always ends.\<close>

function double_until :: "nat \<Rightarrow> nat \<Rightarrow> nat" where
  "double_until capacity wanted =
     (if 0 < capacity \<and> capacity < wanted then double_until (capacity * 2) wanted else capacity)"
  by pat_completeness auto
termination by (relation "measure (\<lambda>(capacity, wanted). wanted - capacity)") auto

declare double_until.simps [simp del]

definition nextCapacity :: "nat \<Rightarrow> nat" where
  "nextCapacity wanted = double_until INITIAL_CAPACITY wanted"

record DockerFrameDecoder =
  buf :: bytes
  start :: nat
  end_at :: nat
  decoders :: "DockerStream \<Rightarrow> utf8_state"

definition new_DockerFrameDecoder :: DockerFrameDecoder where
  "new_DockerFrameDecoder =
     \<lparr>buf = replicate INITIAL_CAPACITY 0, start = 0, end_at = 0, decoders = (\<lambda>_. new_TextDecoder)\<rparr>"

text \<open>\<open>TypedArray.set\<close>, \<open>copyWithin\<close> and \<open>subarray\<close> on a buffer of fixed length.\<close>

definition typed_set :: "bytes \<Rightarrow> bytes \<Rightarrow> nat \<Rightarrow> bytes option" where
  "typed_set dst src off =
     (if off + length src \<le> length dst then Some (take off dst @ src @ drop (off + length src) dst) else None)"

definition subarray :: "bytes \<Rightarrow> nat \<Rightarrow> nat \<Rightarrow> bytes" where
  "subarray b s e = take (e - s) (drop s b)"

definition copyWithin0 :: "bytes \<Rightarrow> nat \<Rightarrow> nat \<Rightarrow> bytes" where
  "copyWithin0 b s e = (let blk = subarray b s e in blk @ drop (length blk) b)"

definition ensureRoom :: "DockerFrameDecoder \<Rightarrow> nat \<Rightarrow> DockerFrameDecoder option" where
  "ensureRoom d incoming =
     (if end_at d + incoming \<le> length (buf d) then Some d
      else
        let pending = end_at d - start d
        in if pending + incoming \<le> length (buf d)
        then Some (d\<lparr>buf := copyWithin0 (buf d) (start d) (end_at d), start := 0, end_at := pending\<rparr>)
        else (case typed_set (replicate (nextCapacity (pending + incoming)) 0)
                     (subarray (buf d) (start d) (end_at d)) 0 of
            None \<Rightarrow> None
          | Some grown \<Rightarrow> Some (d\<lparr>buf := grown, start := 0, end_at := pending\<rparr>)))"

definition push :: "DockerFrameDecoder \<Rightarrow> bytes \<Rightarrow> DockerFrameDecoder option" where
  "push d chunk =
     (if length chunk = 0 then Some d
      else (case ensureRoom d (length chunk) of
          None \<Rightarrow> None
        | Some d' \<Rightarrow> (case typed_set (buf d') chunk (end_at d') of
              None \<Rightarrow> None
            | Some b \<Rightarrow> Some (d'\<lparr>buf := b, end_at := end_at d' + length chunk\<rparr>))))"

text \<open>
  The length field as the code adds it up: shifts are on signed 32-bit integers, and
  \<open>>>> 0\<close> reads the first one unsigned.
\<close>

definition frame_size :: "bytes \<Rightarrow> nat \<Rightarrow> nat" where
  "frame_size b head =
     nat (uint (push_bit 24 (ucast (b ! (head + 4))) :: u32)
        + sint (push_bit 16 (ucast (b ! (head + 5))) :: u32)
        + sint (push_bit 8 (ucast (b ! (head + 6))) :: u32)
        + uint (b ! (head + 7)))"

text \<open>One pass of the loop of \<open>next\<close> up to the payload: the raw frame it consumes, if whole.\<close>

definition take_frame :: "DockerFrameDecoder \<Rightarrow> (DockerFrameDecoder \<times> DockerStream \<times> bytes) option" where
  "take_frame d =
     (if end_at d - start d < HEADER_BYTES then None
      else
        let head = start d; size = frame_size (buf d) head
        in if end_at d - start d < HEADER_BYTES + size then None
        else
          let stream = (if buf d ! head = 2 then Stderr else Stdout);
              payload = subarray (buf d) (head + HEADER_BYTES) (head + HEADER_BYTES + size);
              d1 = d\<lparr>start := start d + (HEADER_BYTES + size)\<rparr>;
              d2 = (if start d1 = end_at d1 then d1\<lparr>start := 0, end_at := 0\<rparr> else d1)
          in Some (d2, stream, payload))"

lemma take_frame_shrinks:
  "take_frame d = Some (d', s, p) \<Longrightarrow> end_at d' - start d' < end_at d - start d"
  by (auto simp: take_frame_def Let_def HEADER_BYTES_def split: if_splits)

function next_frame :: "DockerFrameDecoder \<Rightarrow> DockerFrameDecoder \<times> DockerFrame option" where
  "next_frame d = (case take_frame d of
     None \<Rightarrow> (d, None)
   | Some (d1, stream, payload) \<Rightarrow>
       let (st, decoded) = decode_stream (decoders d1 stream) payload;
           d2 = d1\<lparr>decoders := (decoders d1)(stream := st)\<rparr>;
           t = stripNulBytes decoded
       in if 0 < length t then (d2, Some \<lparr>frame_stream = stream, frame_text = t\<rparr>) else next_frame d2)"
  by pat_completeness auto
termination
  by (relation "measure (\<lambda>d. end_at d - start d)") (auto dest: take_frame_shrinks)

declare next_frame.simps [simp del]

text \<open>\<open>decode()\<close> ends the stream: the held sequence is replaced and the decoder starts afresh.\<close>

definition flush_stream :: "DockerStream \<Rightarrow> DockerFrameDecoder \<Rightarrow> DockerFrameDecoder \<times> DockerFrame list" where
  "flush_stream s d =
     (let t = stripNulBytes (decode_end (decoders d s))
      in (d\<lparr>decoders := (decoders d)(s := new_TextDecoder)\<rparr>,
          if 0 < length t then [\<lparr>frame_stream = s, frame_text = t\<rparr>] else []))"

definition flush :: "DockerFrameDecoder \<Rightarrow> DockerFrameDecoder \<times> DockerFrame list" where
  "flush d = (case flush_stream Stdout d of (d1, xs) \<Rightarrow>
     case flush_stream Stderr d1 of (d2, ys) \<Rightarrow> (d2, xs @ ys))"

lemma next_frame_shrinks:
  "next_frame d = (d', Some f) \<Longrightarrow> end_at d' - start d' < end_at d - start d"
proof (induction d arbitrary: d' f rule: next_frame.induct)
  case (1 d)
  show ?case
  proof (cases "take_frame d")
    case None
    with "1.prems" show ?thesis by (simp add: next_frame.simps)
  next
    case (Some r)
    obtain d1 s p where r: "r = (d1, s, p)" by (cases r)
    obtain st t where dec: "decode_stream (decoders d1 s) p = (st, t)" by fastforce
    have step: "end_at d1 - start d1 < end_at d - start d" using Some r take_frame_shrinks by auto
    show ?thesis
    proof (cases "stripNulBytes t = []")
      case True
      then have "next_frame (d1\<lparr>decoders := (decoders d1)(s := st)\<rparr>) = (d', Some f)"
        using "1.prems" Some r dec by (simp add: next_frame.simps [of d])
      then have "end_at d' - start d' < end_at d1 - start d1"
        using "1.IH" [OF Some _ refl, of d1 s p] r dec True by fastforce
      then show ?thesis using step by simp
    next
      case False
      then show ?thesis using "1.prems" Some r dec step by (auto simp: next_frame.simps [of d])
    qed
  qed
qed

text \<open>The callers' loop: \<open>next\<close> until it answers \<open>null\<close>.\<close>

function next_frames :: "DockerFrameDecoder \<Rightarrow> DockerFrameDecoder \<times> DockerFrame list" where
  "next_frames d = (case next_frame d of
     (d', None) \<Rightarrow> (d', [])
   | (d', Some f) \<Rightarrow> (case next_frames d' of (d'', fs) \<Rightarrow> (d'', f # fs)))"
  by pat_completeness auto
termination
  by (relation "measure (\<lambda>d. end_at d - start d)") (auto dest: next_frame_shrinks [OF sym])

declare next_frames.simps [simp del]

definition text_of :: "DockerStream \<Rightarrow> DockerFrame list \<Rightarrow> utext" where
  "text_of s fs = concat (map frame_text (filter (\<lambda>f. frame_stream f = s) fs))"

definition demuxDockerStream :: "bytes \<Rightarrow> (utext \<times> utext) option" where
  "demuxDockerStream raw = (case push new_DockerFrameDecoder raw of
     None \<Rightarrow> None
   | Some d \<Rightarrow> (case next_frames d of (d', fs) \<Rightarrow>
        let parts = fs @ snd (flush d') in Some (text_of Stdout parts, text_of Stderr parts)))"

text \<open>A follower of a live stream: each chunk pushed, then read to the end.\<close>

fun follow :: "DockerFrameDecoder \<Rightarrow> bytes list \<Rightarrow> (DockerFrameDecoder \<times> DockerFrame list) option" where
  "follow d [] = Some (d, [])"
| "follow d (c # cs) = (case push d c of
     None \<Rightarrow> None
   | Some d1 \<Rightarrow> (case next_frames d1 of (d2, fs) \<Rightarrow>
        map_option (\<lambda>(d3, gs). (d3, fs @ gs)) (follow d2 cs)))"

section \<open>The binary decoder\<close>

record DockerBinaryFrame =
  binary_stream :: DockerStream
  binary_payload :: bytes

definition STDOUT :: byte where
  "STDOUT = 1"

text \<open>The loop of \<open>push\<close> over the concatenated buffer.\<close>

function binary_loop :: "bytes \<Rightarrow> bytes \<times> DockerBinaryFrame list" where
  "binary_loop buffer =
     (if length buffer < HEADER_BYTES then (buffer, [])
      else
        let stream = (if buffer ! 0 = STDOUT then Stdout else Stderr);
            total = HEADER_BYTES + unat (of_be32 (subarray buffer 4 8))
        in if length buffer < total then (buffer, [])
        else (case binary_loop (drop total buffer) of (rest, fs) \<Rightarrow>
          (rest, \<lparr>binary_stream = stream, binary_payload = subarray buffer HEADER_BYTES total\<rparr> # fs)))"
  by pat_completeness auto
termination by (relation "measure length") (auto simp: HEADER_BYTES_def)

declare binary_loop.simps [simp del]

definition binary_push :: "bytes \<Rightarrow> bytes \<Rightarrow> bytes \<times> DockerBinaryFrame list" where
  "binary_push buffer chunk = binary_loop (buffer @ chunk)"

definition binary_pending :: "bytes \<Rightarrow> nat" where
  "binary_pending buffer = length buffer"

section \<open>The abstract parser\<close>

text \<open>
  One frame off the front of a byte string: the stream the type byte selects (the two decoders
  read it differently outside 1 and 2) and the payload.
\<close>

definition docker_step :: "(byte \<Rightarrow> DockerStream) \<Rightarrow> bytes \<Rightarrow> (unit, DockerStream \<times> bytes) parse" where
  "docker_step cls b =
     (if length b < HEADER_BYTES then Need
      else let size = unat (of_be32 (take 4 (drop 4 b)))
        in if length b < HEADER_BYTES + size then Need
        else Got (cls (b ! 0), take size (drop HEADER_BYTES b)) (drop (HEADER_BYTES + size) b))"

function docker_frames :: "(byte \<Rightarrow> DockerStream) \<Rightarrow> bytes \<Rightarrow> bytes \<times> (DockerStream \<times> bytes) list" where
  "docker_frames cls b = (case docker_step cls b of
     Got f rest \<Rightarrow> (case docker_frames cls rest of (r, fs) \<Rightarrow> (r, f # fs))
   | _ \<Rightarrow> (b, []))"
  by pat_completeness auto
termination
  by (relation "measure (length \<circ> snd)") (auto simp: docker_step_def Let_def HEADER_BYTES_def split: if_splits)

declare docker_frames.simps [simp del]

definition docker_drain :: "(byte \<Rightarrow> DockerStream) \<Rightarrow> bytes \<Rightarrow> bytes \<times> (unit + (DockerStream \<times> bytes) list)" where
  "docker_drain cls b = (case docker_frames cls b of (r, fs) \<Rightarrow> (r, Inr fs))"

text \<open>How a frame looks on the wire, for a type byte that selects its stream.\<close>

definition docker_encode :: "byte \<Rightarrow> bytes \<Rightarrow> bytes" where
  "docker_encode ty payload = [ty, 0, 0, 0] @ be32 (word_of_nat (length payload)) @ payload"

interpretation dk: incremental_parser "docker_step cls" "docker_drain cls" for cls
proof unfold_locales
  fix b f rest xs assume "docker_step cls b = Got f rest"
  then show "docker_step cls (b @ xs) = Got f (rest @ xs)" and "length rest < length b"
    by (auto simp: docker_step_def Let_def HEADER_BYTES_def nth_append split: if_splits)
next
  fix b
  show "docker_drain cls b = (case docker_step cls b of Need \<Rightarrow> (b, Inr []) | Bad e \<Rightarrow> (b, Inl e)
      | Got f rest \<Rightarrow> (case docker_drain cls rest of (b, Inl e) \<Rightarrow> (b, Inl e) | (b, Inr fs) \<Rightarrow> (b, Inr (f # fs))))"
    unfolding docker_drain_def
    by (subst docker_frames.simps)
       (auto simp: docker_step_def Let_def split: parse.splits prod.splits if_splits)
qed (auto simp: docker_step_def Let_def split: if_splits)

lemma docker_frames_append:
  "docker_frames cls xs = (r, fs) \<Longrightarrow> docker_frames cls (r @ ys) = (q, gs) \<Longrightarrow>
   docker_frames cls (xs @ ys) = (q, fs @ gs)"
  using dk.drain_append_ok [of cls xs r fs ys] by (auto simp: docker_drain_def split: prod.splits)

lemma docker_frames_Need: "docker_step cls b = Need \<Longrightarrow> docker_frames cls b = (b, [])"
  by (simp add: docker_frames.simps)

lemma docker_frames_rest: "docker_frames cls b = (r, fs) \<Longrightarrow> docker_step cls r = Need"
  using dk.drain_rest_Need [of cls b r fs] by (simp add: docker_drain_def)

lemma docker_step_encode:
  "length p < 2 ^ 32 \<Longrightarrow> docker_step cls (docker_encode ty p @ xs) = Got (cls ty, p) xs"
proof -
  assume p: "length p < 2 ^ 32"
  define h where "h = [ty, 0, 0, 0] @ be32 (word_of_nat (length p))"
  have h: "length h = 8" "h ! 0 = ty" "take 4 (drop 4 h) = be32 (word_of_nat (length p))"
    by (simp_all add: h_def)
  have "docker_encode ty p @ xs = h @ p @ xs" by (simp add: docker_encode_def h_def)
  then show ?thesis using p h by (simp add: docker_step_def HEADER_BYTES_def Let_def unat_of_nat nth_append)
qed

lemma docker_frames_encode:
  "\<forall>(ty, p) \<in> set fs. length p < 2 ^ 32 \<Longrightarrow>
   docker_frames cls (concat (map (\<lambda>(ty, p). docker_encode ty p) fs) @ xs) =
     (case docker_frames cls xs of (r, gs) \<Rightarrow> (r, map (\<lambda>(ty, p). (cls ty, p)) fs @ gs))"
  by (induction fs) (auto simp: docker_frames.simps [of cls "docker_encode _ _ @ _"] docker_step_encode
      split: prod.splits)

section \<open>The backing buffer refines a byte string\<close>

definition text_class :: "byte \<Rightarrow> DockerStream" where
  "text_class ty = (if ty = 2 then Stderr else Stdout)"

definition binary_class :: "byte \<Rightarrow> DockerStream" where
  "binary_class ty = (if ty = STDOUT then Stdout else Stderr)"

text \<open>What the decoder holds, and the well-formedness of its offsets.\<close>

definition held :: "DockerFrameDecoder \<Rightarrow> bytes" where
  "held d = subarray (buf d) (start d) (end_at d)"

definition decoder_inv :: "DockerFrameDecoder \<Rightarrow> bool" where
  "decoder_inv d \<longleftrightarrow> start d \<le> end_at d \<and> end_at d \<le> length (buf d) \<and> INITIAL_CAPACITY \<le> length (buf d)"

lemma double_until_ge: "0 < c \<Longrightarrow> w \<le> double_until c w \<and> c \<le> double_until c w"
  by (induction c w rule: double_until.induct) (fastforce simp: double_until.simps)

lemma double_until_tight: "0 < c \<Longrightarrow> double_until c w = c \<or> double_until c w < 2 * w"
proof (induction c w rule: double_until.induct)
  case (1 c w)
  then show ?case by (cases "c < w") (auto simp: double_until.simps [of c w])
qed

lemma nextCapacity_ge: "w \<le> nextCapacity w" "INITIAL_CAPACITY \<le> nextCapacity w"
  using double_until_ge [of INITIAL_CAPACITY w] by (simp_all add: nextCapacity_def INITIAL_CAPACITY_def)

lemma length_subarray: "s \<le> e \<Longrightarrow> e \<le> length b \<Longrightarrow> length (subarray b s e) = e - s"
  by (simp add: subarray_def)

lemma length_held: "decoder_inv d \<Longrightarrow> length (held d) = end_at d - start d"
  by (simp add: held_def decoder_inv_def length_subarray)

lemma ensureRoom_ok:
  assumes "decoder_inv d"
  shows "\<exists>d'. ensureRoom d n = Some d' \<and> decoder_inv d' \<and> held d' = held d
    \<and> decoders d' = decoders d \<and> end_at d' + n \<le> length (buf d')"
proof -
  have len: "length (subarray (buf d) (start d) (end_at d)) = end_at d - start d"
    using assms by (simp add: decoder_inv_def length_subarray)
  consider (fits) "end_at d + n \<le> length (buf d)"
    | (compact) "\<not> end_at d + n \<le> length (buf d)" "end_at d - start d + n \<le> length (buf d)"
    | (grow) "\<not> end_at d + n \<le> length (buf d)" "\<not> end_at d - start d + n \<le> length (buf d)" by blast
  then show ?thesis
  proof cases
    case fits
    then show ?thesis using assms by (simp add: ensureRoom_def)
  next
    case compact
    then show ?thesis
      using assms len by (simp add: ensureRoom_def Let_def copyWithin0_def decoder_inv_def held_def)
         (simp add: subarray_def)
  next
    case grow
    have "end_at d - start d + n \<le> nextCapacity (end_at d - start d + n)"
      "INITIAL_CAPACITY \<le> nextCapacity (end_at d - start d + n)" by (rule nextCapacity_ge)+
    then show ?thesis
      using assms grow len by (simp add: ensureRoom_def Let_def typed_set_def decoder_inv_def held_def)
         (simp add: subarray_def)
  qed
qed

lemma push_ok:
  assumes "decoder_inv d"
  shows "\<exists>d'. push d chunk = Some d' \<and> decoder_inv d' \<and> held d' = held d @ chunk \<and> decoders d' = decoders d"
proof (cases "chunk = []")
  case True
  then show ?thesis using assms by (simp add: push_def)
next
  case False
  obtain d1 where d1: "ensureRoom d (length chunk) = Some d1" "decoder_inv d1" "held d1 = held d"
    "decoders d1 = decoders d" "end_at d1 + length chunk \<le> length (buf d1)"
    using ensureRoom_ok [OF assms] by blast
  define b where "b = take (end_at d1) (buf d1) @ chunk @ drop (end_at d1 + length chunk) (buf d1)"
  have "push d chunk = Some (d1\<lparr>buf := b, end_at := end_at d1 + length chunk\<rparr>)"
    using False d1 by (simp add: push_def typed_set_def b_def)
  moreover have "held (d1\<lparr>buf := b, end_at := end_at d1 + length chunk\<rparr>) = held d1 @ chunk"
    using d1(2,5) by (simp add: held_def b_def subarray_def decoder_inv_def take_append drop_take)
  ultimately show ?thesis using d1 by (auto simp: decoder_inv_def b_def)
qed

section \<open>Reading frames\<close>

lemma frame_size_be32:
  assumes "head + 8 \<le> length b"
  shows "frame_size b head = unat (of_be32 (take 4 (drop (head + 4) b)))"
proof -
  have "take 4 (drop (head + 4) b) = [b ! (head + 4), b ! (head + 5), b ! (head + 6), b ! (head + 7)]"
    using assms by (intro nth_equalityI) (auto simp: less_Suc_eq numeral_eq_Suc)
  then show ?thesis
    unfolding frame_size_def
    by (simp add: unat_eq_nat_uint uint_of_be32 uint_shifted_byte sint_shifted_byte)
qed

lemma take_frame_held:
  assumes "decoder_inv d"
  shows "case take_frame d of
      None \<Rightarrow> docker_step text_class (held d) = Need
    | Some (d', s, p) \<Rightarrow> docker_step text_class (held d) = Got (s, p) (held d') \<and> decoder_inv d'
        \<and> decoders d' = decoders d"
proof (cases "end_at d - start d < HEADER_BYTES")
  case True
  then show ?thesis using length_held [OF assms] by (simp add: take_frame_def docker_step_def)
next
  case False
  have inv: "start d \<le> end_at d" "end_at d \<le> length (buf d)" "INITIAL_CAPACITY \<le> length (buf d)"
    using assms by (simp_all add: decoder_inv_def)
  let ?n = "frame_size (buf d) (start d)"
  have "take 4 (drop 4 (held d)) = take 4 (drop (start d + 4) (buf d))"
    using False inv by (simp add: held_def subarray_def HEADER_BYTES_def drop_take add.commute min_def)
  then have size: "?n = unat (of_be32 (take 4 (drop 4 (held d))))"
    using False inv frame_size_be32 [of "start d" "buf d"] by (simp add: HEADER_BYTES_def)
  have hd: "held d ! 0 = buf d ! start d"
    using False inv by (simp add: held_def subarray_def HEADER_BYTES_def)
  show ?thesis
  proof (cases "end_at d - start d < HEADER_BYTES + ?n")
    case True
    then show ?thesis
      using False length_held [OF assms] size by (simp add: take_frame_def docker_step_def Let_def)
  next
    case whole: False
    let ?d1 = "d\<lparr>start := start d + (HEADER_BYTES + ?n)\<rparr>"
    let ?d2 = "if start ?d1 = end_at ?d1 then ?d1\<lparr>start := 0, end_at := 0\<rparr> else ?d1"
    have held2: "held ?d2 = drop (HEADER_BYTES + ?n) (held d)"
      using whole inv by (auto simp: held_def subarray_def drop_take add.commute)
    have payload: "subarray (buf d) (start d + HEADER_BYTES) (start d + HEADER_BYTES + ?n)
        = take ?n (drop HEADER_BYTES (held d))"
      using whole inv by (simp add: held_def subarray_def drop_take add.commute min_def)
    have inv2: "decoder_inv ?d2" "decoders ?d2 = decoders d" using whole inv by (auto simp: decoder_inv_def)
    have "take_frame d = Some (?d2, text_class (held d ! 0), take ?n (drop HEADER_BYTES (held d)))"
      using False whole hd payload by (simp add: take_frame_def Let_def text_class_def)
    moreover have "docker_step text_class (held d) =
        Got (text_class (held d ! 0), take ?n (drop HEADER_BYTES (held d))) (held ?d2)"
      using False whole length_held [OF assms] unfolding held2 by (simp add: docker_step_def Let_def size)
    ultimately show ?thesis using inv2 by (simp only: option.case prod.case simp_thms)
  qed
qed

text \<open>The payloads of one side, and the streaming decoder run over them.\<close>

definition payloads :: "DockerStream \<Rightarrow> (DockerStream \<times> bytes) list \<Rightarrow> bytes" where
  "payloads s fs = concat (map snd (filter (\<lambda>f. fst f = s) fs))"

text \<open>
  \<open>reads d raws d' fs\<close>: the decoder went from \<open>d\<close> to \<open>d'\<close> over exactly the raw frames
  \<open>raws\<close> and delivered their text, on each side, in \<open>fs\<close>.
\<close>

definition reads ::
  "DockerFrameDecoder \<Rightarrow> (DockerStream \<times> bytes) list \<Rightarrow> DockerFrameDecoder \<Rightarrow> DockerFrame list \<Rightarrow> bool" where
  "reads d raws d' fs \<longleftrightarrow> decoder_inv d'
     \<and> (\<forall>s. \<exists>out. decode_stream (decoders d s) (payloads s raws) = (decoders d' s, out)
          \<and> text_of s fs = stripNulBytes out)"

lemma text_of_append: "text_of s (xs @ ys) = text_of s xs @ text_of s ys"
  by (simp add: text_of_def)

lemma stripNulBytes_append: "stripNulBytes (xs @ ys) = stripNulBytes xs @ stripNulBytes ys"
  by (simp add: stripNulBytes_def)

lemma reads_refl: "decoder_inv d \<Longrightarrow> reads d [] d []"
  by (simp add: reads_def payloads_def text_of_def stripNulBytes_def)

lemma reads_trans: "reads d xs d1 fs \<Longrightarrow> reads d1 ys d2 gs \<Longrightarrow> reads d (xs @ ys) d2 (fs @ gs)"
proof -
  assume 1: "reads d xs d1 fs" and 2: "reads d1 ys d2 gs"
  have "\<exists>out. decode_stream (decoders d s) (payloads s (xs @ ys)) = (decoders d2 s, out)
      \<and> text_of s (fs @ gs) = stripNulBytes out" for s
  proof -
    obtain o1 where "decode_stream (decoders d s) (payloads s xs) = (decoders d1 s, o1)"
      "text_of s fs = stripNulBytes o1" using 1 by (auto simp: reads_def)
    moreover obtain o2 where "decode_stream (decoders d1 s) (payloads s ys) = (decoders d2 s, o2)"
      "text_of s gs = stripNulBytes o2" using 2 by (auto simp: reads_def)
    ultimately show ?thesis
      by (simp add: payloads_def decode_stream_append text_of_append stripNulBytes_append)
  qed
  then show ?thesis using 2 by (simp add: reads_def)
qed

lemma reads_one:
  assumes "decoder_inv d1" "decoders d1 = decoders d" "decode_stream (decoders d1 s) p = (st, t)"
    and "text_of s fs = stripNulBytes t" "\<And>s'. s' \<noteq> s \<Longrightarrow> text_of s' fs = []"
  shows "reads d [(s, p)] (d1\<lparr>decoders := (decoders d1)(s := st)\<rparr>) fs"
  using assms by (auto simp: reads_def decoder_inv_def payloads_def stripNulBytes_def)

lemma next_frame_reads:
  assumes "decoder_inv d" "next_frame d = (d', r)"
  shows "\<exists>raws. reads d raws d' (case r of None \<Rightarrow> [] | Some f \<Rightarrow> [f])
    \<and> docker_frames text_class (held d) =
        (case docker_frames text_class (held d') of (q, gs) \<Rightarrow> (q, raws @ gs))
    \<and> (r = None \<longrightarrow> docker_step text_class (held d') = Need)"
  using assms
proof (induction d arbitrary: d' r rule: next_frame.induct)
  case (1 d)
  show ?case
  proof (cases "take_frame d")
    case None
    then have "d' = d" "r = None" using "1.prems"(2) by (simp_all add: next_frame.simps)
    then show ?thesis
      using take_frame_held [OF "1.prems"(1)] None "1.prems"(1)
      by (intro exI [of _ "[]"]) (auto simp: reads_refl split: prod.splits)
  next
    case (Some x)
    obtain d1 s p where x: "x = (d1, s, p)" by (cases x)
    obtain st t where dec: "decode_stream (decoders d1 s) p = (st, t)" by fastforce
    let ?d2 = "d1\<lparr>decoders := (decoders d1)(s := st)\<rparr>"
    have step: "docker_step text_class (held d) = Got (s, p) (held d1)" "decoder_inv d1" "decoders d1 = decoders d"
      using take_frame_held [OF "1.prems"(1)] Some x by auto
    have held2: "held ?d2 = held d1" "decoder_inv ?d2" using step(2) by (simp_all add: held_def decoder_inv_def)
    have frames: "docker_frames text_class (held d) =
        (case docker_frames text_class (held d1) of (q, gs) \<Rightarrow> (q, [(s, p)] @ gs))"
      by (subst docker_frames.simps) (simp add: step(1))
    show ?thesis
    proof (cases "stripNulBytes t = []")
      case True
      then have "next_frame ?d2 = (d', r)"
        using "1.prems"(2) Some x dec by (simp add: next_frame.simps [of d])
      then obtain raws where raws: "reads ?d2 raws d' (case r of None \<Rightarrow> [] | Some f \<Rightarrow> [f])"
        "docker_frames text_class (held ?d2) =
          (case docker_frames text_class (held d') of (q, gs) \<Rightarrow> (q, raws @ gs))"
        "r = None \<longrightarrow> docker_step text_class (held d') = Need"
        using "1.IH" [OF Some x [symmetric] refl dec [symmetric] refl refl] True held2 by auto
      have "reads d [(s, p)] ?d2 []"
        using reads_one [OF step(2,3) dec] True by (simp add: text_of_def)
      from reads_trans [OF this raws(1)] show ?thesis
        using raws(2,3) frames held2
        by (intro exI [of _ "[(s, p)] @ raws"]) (auto split: prod.splits)
    next
      case False
      then have "d' = ?d2" "r = Some \<lparr>frame_stream = s, frame_text = stripNulBytes t\<rparr>"
        using "1.prems"(2) Some x dec by (auto simp: next_frame.simps [of d])
      moreover have "reads d [(s, p)] ?d2 [\<lparr>frame_stream = s, frame_text = stripNulBytes t\<rparr>]"
        using reads_one [OF step(2,3) dec] by (simp add: text_of_def)
      ultimately show ?thesis using frames held2 by (intro exI [of _ "[(s, p)]"]) auto
    qed
  qed
qed

lemma next_frames_reads:
  assumes "decoder_inv d" "next_frames d = (d', fs)"
  shows "reads d (snd (docker_frames text_class (held d))) d' fs
    \<and> held d' = fst (docker_frames text_class (held d))"
  using assms
proof (induction d arbitrary: d' fs rule: next_frames.induct)
  case (1 d)
  obtain d1 r where r: "next_frame d = (d1, r)" by fastforce
  obtain raws where raws: "reads d raws d1 (case r of None \<Rightarrow> [] | Some f \<Rightarrow> [f])"
    "docker_frames text_class (held d) = (case docker_frames text_class (held d1) of (q, gs) \<Rightarrow> (q, raws @ gs))"
    "r = None \<longrightarrow> docker_step text_class (held d1) = Need"
    using next_frame_reads [OF "1.prems"(1) r] by blast
  show ?case
  proof (cases r)
    case None
    then have "d' = d1" "fs = []" using "1.prems"(2) r by (simp_all add: next_frames.simps [of d])
    then show ?thesis using None raws by (simp add: docker_frames_Need)
  next
    case (Some f)
    obtain gs where gs: "next_frames d1 = (d', gs)" "fs = f # gs"
      using "1.prems"(2) r Some by (auto simp: next_frames.simps [of d] split: prod.splits)
    have "decoder_inv d1" using raws(1) by (simp add: reads_def)
    then have IH: "reads d1 (snd (docker_frames text_class (held d1))) d' gs"
      "held d' = fst (docker_frames text_class (held d1))"
      using "1.IH" [OF r [symmetric] Some _ gs(1)] by simp_all
    have "reads d (raws @ snd (docker_frames text_class (held d1))) d' ([f] @ gs)"
      using reads_trans [OF raws(1) [unfolded Some option.case] IH(1)] .
    then show ?thesis using raws(2) IH(2) gs(2) by (auto split: prod.splits)
  qed
qed

lemma follow_reads:
  assumes "decoder_inv d" "docker_step text_class (held d) = Need"
  shows "\<exists>d' fs. follow d cs = Some (d', fs)
    \<and> reads d (snd (docker_frames text_class (held d @ concat cs))) d' fs
    \<and> held d' = fst (docker_frames text_class (held d @ concat cs))"
  using assms
proof (induction cs arbitrary: d)
  case Nil
  then show ?case by (simp add: docker_frames_Need reads_refl)
next
  case (Cons c cs)
  obtain d1 where d1: "push d c = Some d1" "decoder_inv d1" "held d1 = held d @ c" "decoders d1 = decoders d"
    using push_ok [OF Cons.prems(1)] by blast
  obtain d2 fs where d2: "next_frames d1 = (d2, fs)" by fastforce
  obtain r raws where raws: "docker_frames text_class (held d @ c) = (r, raws)" by fastforce
  have rd: "reads d1 raws d2 fs" "held d2 = r"
    using next_frames_reads [OF d1(2) d2] raws d1(3) by simp_all
  have inv2: "decoder_inv d2" using rd(1) by (simp add: reads_def)
  have "docker_step text_class (held d2) = Need" using docker_frames_rest [OF raws] rd(2) by simp
  then obtain d3 gs where d3: "follow d2 cs = Some (d3, gs)"
    "reads d2 (snd (docker_frames text_class (held d2 @ concat cs))) d3 gs"
    "held d3 = fst (docker_frames text_class (held d2 @ concat cs))"
    using Cons.IH [OF inv2] by blast
  obtain q more where more: "docker_frames text_class (r @ concat cs) = (q, more)" by fastforce
  have all: "docker_frames text_class (held d @ concat (c # cs)) = (q, raws @ more)"
    using docker_frames_append [OF raws more] by simp
  have "reads d1 (raws @ more) d3 (fs @ gs)"
    using reads_trans [OF rd(1)] d3(2) more rd(2) by simp
  then have "reads d (raws @ more) d3 (fs @ gs)" using d1(4) by (simp add: reads_def)
  then show ?case using d1(1) d2 d3(1,3) all more rd(2) by simp
qed

lemma new_decoder_inv:
  "decoder_inv new_DockerFrameDecoder" "held new_DockerFrameDecoder = []"
  "decoders new_DockerFrameDecoder s = new_TextDecoder"
  by (simp_all add: new_DockerFrameDecoder_def decoder_inv_def held_def subarray_def)

lemma stripNul_end: "stripNulBytes (decode_end st) = decode_end st"
  by (simp add: stripNulBytes_def decode_end_def REPLACEMENT_def)

lemma text_of_flush: "text_of s (snd (flush d)) = stripNulBytes (decode_end (decoders d s))"
  by (cases s) (auto simp: flush_def flush_stream_def text_of_def stripNul_end Let_def)

lemma reads_flush:
  assumes "reads new_DockerFrameDecoder raws d fs"
  shows "text_of s (fs @ snd (flush d)) = stripNulBytes (decode_text (payloads s raws))"
proof -
  obtain out where "decode_stream new_TextDecoder (payloads s raws) = (decoders d s, out)"
    "text_of s fs = stripNulBytes out"
    using assms new_decoder_inv(3) by (auto simp: reads_def)
  then show ?thesis
    by (simp add: text_of_append text_of_flush decode_text_def stripNulBytes_append)
qed

lemma binary_loop_frames:
  "binary_loop b = (case docker_frames binary_class b of (r, fs) \<Rightarrow>
     (r, map (\<lambda>(s, p). \<lparr>binary_stream = s, binary_payload = p\<rparr>) fs))"
proof (induction b rule: binary_loop.induct)
  case (1 b)
  let ?n = "unat (of_be32 (take 4 (drop 4 b)))"
  show ?case
  proof (cases "length b < HEADER_BYTES \<or> length b < HEADER_BYTES + ?n")
    case True
    then have "docker_step binary_class b = Need" by (auto simp: docker_step_def Let_def)
    then show ?thesis using True by (auto simp: binary_loop.simps [of b] docker_frames_Need subarray_def Let_def)
  next
    case False
    then have step: "docker_step binary_class b =
        Got (binary_class (b ! 0), take ?n (drop HEADER_BYTES b)) (drop (HEADER_BYTES + ?n) b)"
      by (simp add: docker_step_def Let_def)
    have "binary_loop (drop (HEADER_BYTES + ?n) b) =
        (case docker_frames binary_class (drop (HEADER_BYTES + ?n) b) of (r, fs) \<Rightarrow>
          (r, map (\<lambda>(s, p). \<lparr>binary_stream = s, binary_payload = p\<rparr>) fs))"
      using "1.IH" False by (simp add: subarray_def)
    then show ?thesis
      using False by (subst binary_loop.simps, subst docker_frames.simps)
        (simp add: step subarray_def Let_def binary_class_def split: prod.splits)
  qed
qed

lemma docker_frames_payloads:
  "map snd (snd (docker_frames c1 b)) = map snd (snd (docker_frames c2 b))"
proof (induction c1 b rule: docker_frames.induct)
  case (1 c1 b)
  show ?case
  proof (cases "docker_step c1 b")
    case (Got f rest)
    then obtain g where "docker_step c2 b = Got g rest" "snd f = snd g"
      by (auto simp: docker_step_def Let_def split: if_splits)
    then show ?thesis
      using 1 [OF Got] Got
      by (auto simp: docker_frames.simps [of c1 b] docker_frames.simps [of c2 b] split: prod.splits)
  next
    case Need
    then have "docker_step c2 b = Need" by (auto simp: docker_step_def Let_def split: if_splits)
    with Need show ?thesis by (simp add: docker_frames_Need)
  qed (auto simp: docker_step_def Let_def split: if_splits)
qed

section \<open>Properties\<close>

text \<open>
  (Lemma) The backing buffer is a faithful queue of bytes: from any well-formed decoder a chunk of
  any size is appended without an out-of-range write, whether it fits, the buffer is compacted or
  it grows; what is held afterwards is what was held followed by the chunk, and the text decoders
  are not touched.
\<close>

theorem docker_push_appends:
  assumes "decoder_inv d"
  shows "\<exists>d'. push d chunk = Some d' \<and> decoder_inv d' \<and> held d' = held d @ chunk \<and> decoders d' = decoders d"
  by (rule push_ok [OF assms])

theorem docker_push_appends_witness:
  "decoder_inv new_DockerFrameDecoder
    \<and> (\<exists>d'. push new_DockerFrameDecoder [1, 2, 3] = Some d' \<and> held d' = [1, 2, 3])"
  using docker_push_appends [OF new_decoder_inv(1), of "[1, 2, 3]"] new_decoder_inv by auto

text \<open>
  (Lemma) Growth is bounded: the new capacity holds what is needed, is never below the initial one
  and, once above it, is less than twice what was asked for.
\<close>

theorem nextCapacity_bounds:
  "wanted \<le> nextCapacity wanted \<and> INITIAL_CAPACITY \<le> nextCapacity wanted
    \<and> (nextCapacity wanted = INITIAL_CAPACITY \<or> nextCapacity wanted < 2 * wanted)"
  using nextCapacity_ge double_until_tight [of INITIAL_CAPACITY wanted]
  by (simp add: nextCapacity_def INITIAL_CAPACITY_def)

text \<open>
  (Lemma) Following a stream of whole frames cut into arbitrary chunks, across frame boundaries and
  inside code points, never fails and loses nothing: the text delivered on each side, with the
  final flush, is the UTF-8 decoding of that side's payloads as one byte string, without NULs, and
  no byte is left over.
\<close>

theorem docker_follow_text:
  assumes "\<forall>(ty, p) \<in> set frames. length p < 2 ^ 32"
    and "concat chunks = concat (map (\<lambda>(ty, p). docker_encode ty p) frames)"
  shows "\<exists>d fs. follow new_DockerFrameDecoder chunks = Some (d, fs) \<and> held d = []
    \<and> (\<forall>s. text_of s (fs @ snd (flush d)) =
         stripNulBytes (decode_text (payloads s (map (\<lambda>(ty, p). (text_class ty, p)) frames))))"
proof -
  have none: "docker_step text_class [] = Need" by (simp add: docker_step_def HEADER_BYTES_def)
  have "docker_frames text_class (concat chunks) = ([], map (\<lambda>(ty, p). (text_class ty, p)) frames)"
    using docker_frames_encode [OF assms(1), of text_class "[]"] assms(2) docker_frames_Need [OF none] by simp
  then obtain d fs where "follow new_DockerFrameDecoder chunks = Some (d, fs)" "held d = []"
    and rd: "reads new_DockerFrameDecoder (map (\<lambda>(ty, p). (text_class ty, p)) frames) d fs"
    using follow_reads [OF new_decoder_inv(1), of chunks] new_decoder_inv(2) none by auto
  then show ?thesis using reads_flush [OF rd] by blast
qed

theorem docker_follow_text_witness:
  "concat [[1, 0, 0, 0, 0, 0], [0, 1, 0xC3, 1, 0, 0], [0, 0, 0, 0, 1, 0xA9 :: byte]]
      = concat (map (\<lambda>(ty, p). docker_encode ty p) [(1, [0xC3]), (1, [0xA9])])
    \<and> (\<exists>d fs. follow new_DockerFrameDecoder [[1, 0, 0, 0, 0, 0], [0, 1, 0xC3, 1, 0, 0], [0, 0, 0, 0, 1, 0xA9]]
          = Some (d, fs) \<and> text_of Stdout (fs @ snd (flush d)) = [0xE9])"
proof -
  have wire: "concat [[1, 0, 0, 0, 0, 0], [0, 1, 0xC3, 1, 0, 0], [0, 0, 0, 0, 1, 0xA9 :: byte]]
      = concat (map (\<lambda>(ty, p). docker_encode ty p) [(1, [0xC3]), (1, [0xA9])])"
    by (simp add: docker_encode_def be32_def)
  have small: "\<forall>(ty, p) \<in> set [(1 :: byte, [0xC3 :: byte]), (1, [0xA9])]. length p < 2 ^ 32" by simp
  have "stripNulBytes (decode_text (payloads Stdout
      (map (\<lambda>(ty, p). (text_class ty, p)) [(1, [0xC3]), (1, [0xA9])]))) = [0xE9]"
    by (simp add: payloads_def text_class_def decode_text_def utf8_step_def utf8_lead_def bom_filter_def
        new_TextDecoder_def utf8_reset_def decode_end_def stripNulBytes_def Let_def)
  then show ?thesis using docker_follow_text [OF small wire] wire by metis
qed

text \<open>
  (Lemma) Demultiplexing a buffered stream, whole or cut short, gives each side the decoding of the
  payloads of its whole frames.
\<close>

theorem demux_text:
  "demuxDockerStream raw =
     (let fs = snd (docker_frames text_class raw)
      in Some (stripNulBytes (decode_text (payloads Stdout fs)), stripNulBytes (decode_text (payloads Stderr fs))))"
proof -
  obtain d where d: "push new_DockerFrameDecoder raw = Some d" "decoder_inv d" "held d = raw"
    "decoders d = decoders new_DockerFrameDecoder"
    using push_ok [OF new_decoder_inv(1), of raw] new_decoder_inv(2) by auto
  obtain d' fs where fs: "next_frames d = (d', fs)" by fastforce
  have "reads d (snd (docker_frames text_class raw)) d' fs"
    using next_frames_reads [OF d(2) fs] d(3) by simp
  then have "reads new_DockerFrameDecoder (snd (docker_frames text_class raw)) d' fs"
    using d(4) by (simp add: reads_def)
  from reads_flush [OF this] show ?thesis by (simp add: demuxDockerStream_def d(1) fs Let_def)
qed

text \<open>
  (Lemma) The binary decoder returns exactly the frames of the concatenated chunks, whatever the
  chunking, and agrees with the text decoder's framing on every payload; their streams agree on
  the documented type bytes 1 and 2, and disagree on every other one.
\<close>

theorem binary_frames:
  "binary_push (fst (docker_frames binary_class xs)) ys =
     (fst (docker_frames binary_class (xs @ ys)),
      drop (length (snd (docker_frames binary_class xs)))
        (map (\<lambda>(s, p). \<lparr>binary_stream = s, binary_payload = p\<rparr>) (snd (docker_frames binary_class (xs @ ys)))))
    \<and> map snd (snd (docker_frames binary_class xs)) = map snd (snd (docker_frames text_class xs))
    \<and> (binary_class ty = text_class ty \<longleftrightarrow> ty = 1 \<or> ty = 2)"
proof -
  obtain r fs where r: "docker_frames binary_class xs = (r, fs)" by fastforce
  obtain q gs where q: "docker_frames binary_class (r @ ys) = (q, gs)" by fastforce
  have "binary_class ty = text_class ty \<longleftrightarrow> ty = 1 \<or> ty = 2"
    by (auto simp: binary_class_def text_class_def STDOUT_def)
  then show ?thesis
    using docker_frames_append [OF r q] docker_frames_payloads [of binary_class xs text_class] r q
    by (simp add: binary_push_def binary_loop_frames)
qed

end
