(* ===== verification/Exec_Channel.thy ===== *)
theory Exec_Channel
  imports Docker_Frames Tunnel_Protocol
begin

text \<open>
  The tunnel's transport on a container engine, \<open>openExecChannel\<close> of \<open>services/docker.ts\<close>:
  socket chunks go through the binary frame decoder, and what arrives on standard output is the
  byte stream the tunnel reads. The end-to-end property composes the two framings: the engine's
  frames around the tunnel's.
\<close>

definition exec_data :: "bytes \<Rightarrow> bytes \<Rightarrow> bytes \<times> bytes list \<times> bytes list" where
  "exec_data left chunk = (case binary_push left chunk of (rest, frames) \<Rightarrow>
     (rest,
      map binary_payload (filter (\<lambda>f. binary_stream f = Stdout) frames),
      map binary_payload (filter (\<lambda>f. binary_stream f \<noteq> Stdout) frames)))"

text \<open>The data events of a socket in order: what \<open>onData\<close> and \<open>onStderr\<close> are called with.\<close>

fun exec_follow :: "bytes \<Rightarrow> bytes list \<Rightarrow> bytes \<times> bytes list \<times> bytes list" where
  "exec_follow left [] = (left, [], [])"
| "exec_follow left (c # cs) = (case exec_data left c of (h1, outs, errs) \<Rightarrow>
     (case exec_follow h1 cs of (h2, outs', errs') \<Rightarrow> (h2, outs @ outs', errs @ errs')))"

lemma exec_follow_frames:
  assumes "docker_step binary_class left = Need" and "docker_frames binary_class (left @ concat cs) = (r, fs)"
  shows "exec_follow left cs =
    (r, map snd (filter (\<lambda>(s, _). s = Stdout) fs), map snd (filter (\<lambda>(s, _). s \<noteq> Stdout) fs))"
  using assms
proof (induction cs arbitrary: left fs r)
  case Nil
  then show ?case by (simp add: docker_frames_Need)
next
  case (Cons c cs)
  obtain h1 gs where first: "docker_frames binary_class (left @ c) = (h1, gs)" by fastforce
  obtain q hs where rest: "docker_frames binary_class (h1 @ concat cs) = (q, hs)" by fastforce
  have all: "r = q" "fs = gs @ hs"
    using docker_frames_append [OF first rest] Cons.prems(2) by simp_all
  have "exec_follow h1 cs = (q, map snd (filter (\<lambda>(s, _). s = Stdout) hs), map snd (filter (\<lambda>(s, _). s \<noteq> Stdout) hs))"
    using Cons.IH [OF docker_frames_rest [OF first] rest] .
  then show ?case
    using first all by (simp add: exec_data_def binary_push_def binary_loop_frames filter_map comp_def case_prod_unfold)
qed

text \<open>
  (Lemma) End to end through a container engine: whatever the engine splits the client's output into,
  whatever it interleaves on standard error and wherever the socket cuts its chunks, the tunnel
  decoder behind the channel recovers exactly the frames the client encoded, with the trailing
  partial frame pending; and standard error is delivered unchanged and never reaches the tunnel.
\<close>

theorem tunnel_over_exec:
  assumes "\<forall>(ty, p) \<in> set parts. length p < 2 ^ 32"
    and "concat chunks = concat (map (\<lambda>(ty, p). docker_encode ty p) parts)"
    and "concat (map snd (filter (\<lambda>(ty, p). ty = STDOUT) parts)) =
         noise @ TUNNEL_PREAMBLE @ concat (map frame_bytes fs) @ tail"
    and "\<forall>f \<in> set fs. frame_ok f" and "read_frame tail = Need"
    and "index_of TUNNEL_PREAMBLE (noise @ TUNNEL_PREAMBLE) = Some (length noise)"
    and "length noise + length TUNNEL_PREAMBLE \<le> MAX_PREAMBLE_SCAN_BYTES"
  shows "\<exists>outs errs n. exec_follow [] chunks = ([], outs, errs)
    \<and> push_all (new_FrameDecoder True) outs = (\<lparr>buffer = tail, synced = True, scanned = n\<rparr>, Inr fs)
    \<and> errs = map snd (filter (\<lambda>(ty, p). ty \<noteq> STDOUT) parts)"
proof -
  have "docker_frames binary_class (concat chunks) = ([], map (\<lambda>(ty, p). (binary_class ty, p)) parts)"
    using docker_frames_encode [OF assms(1), of binary_class "[]"] assms(2)
    by (simp add: docker_frames_Need docker_step_def Docker_Frames.HEADER_BYTES_def)
  then have follow: "exec_follow [] chunks =
      ([], map snd (filter (\<lambda>(ty, p). ty = STDOUT) parts), map snd (filter (\<lambda>(ty, p). ty \<noteq> STDOUT) parts))"
    by (subst exec_follow_frames [where fs = "map (\<lambda>(ty, p). (binary_class ty, p)) parts" and r = "[]"])
      (auto simp: docker_step_def Docker_Frames.HEADER_BYTES_def filter_map comp_def case_prod_unfold binary_class_def)
  have "read_frames (concat (map frame_bytes fs) @ tail) = (tail, Inr fs)"
    using assms(4,5) by (rule read_frames_encoded)
  then have "\<exists>n. push_all (new_FrameDecoder True) (map snd (filter (\<lambda>(ty, p). ty = STDOUT) parts)) =
      (\<lparr>buffer = tail, synced = True, scanned = n\<rparr>, Inr fs)"
    using assms(3,6,7) tracks_new by (intro push_all_scan [where h = "[]"]) auto
  with follow show ?thesis by blast
qed

theorem tunnel_over_exec_witness:
  "\<exists>outs errs n. exec_follow [] [docker_encode 1 TUNNEL_PREAMBLE @ [2, 0, 0], [0, 0, 0, 0, 1, 0x21] @ docker_encode 1 [3, 0, 0, 0, 9, 0, 0, 0, 0]]
      = ([], outs, errs)
    \<and> push_all (new_FrameDecoder True) outs =
        (\<lparr>buffer = [], synced = True, scanned = n\<rparr>, Inr [\<lparr>type = Close, streamId = 9, payload = []\<rparr>])
    \<and> errs = [[0x21]]"
proof -
  have "docker_encode 2 [0x21] = [2, 0, 0, 0, 0, 0, 0, 1, 0x21]" by (simp add: docker_encode_def be32_def)
  then show ?thesis
    using tunnel_over_exec [where parts = "[(1, TUNNEL_PREAMBLE), (2, [0x21]), (1, [3, 0, 0, 0, 9, 0, 0, 0, 0])]" and noise = "[]"
        and fs = "[\<lparr>type = Close, streamId = 9, payload = []\<rparr>]" and tail = "[]"
        and chunks = "[docker_encode 1 TUNNEL_PREAMBLE @ [2, 0, 0], [0, 0, 0, 0, 1, 0x21] @ docker_encode 1 [3, 0, 0, 0, 9, 0, 0, 0, 0]]"]
    by (simp add: STDOUT_def length_preamble frame_bytes_def be32_def frame_ok_def read_frame_def
        Tunnel_Protocol.HEADER_BYTES_def MAX_PAYLOAD_BYTES_def MAX_PREAMBLE_SCAN_BYTES_def
        index_of.simps TUNNEL_PREAMBLE_def ascii_bytes_def)
qed

end
