(* ===== verification/Container_Pool.thy ===== *)
theory Container_Pool
  imports Complex_Main "HOL-Library.Multiset" Hezo_Prelude
begin

text \<open>
  The container pool's decisions, \<open>services/sandbox/pool.ts\<close>: which container a run gets
  (\<open>selectPoolMember\<close>), which idle containers are retired and how (\<open>planIdleShutdown\<close>,
  \<open>planSurplusIdleRetirement\<close>, \<open>planCrossProjectReclaim\<close>) and when reclaiming has turned
  into thrashing (\<open>detectReclaimChurn\<close>).

  Memory figures in GB are rational numbers: the code's numbers are sums of byte counts divided by
  \<open>1024^3\<close>, which a double holds exactly at the sizes of a host. \<open>localeCompare\<close>, the
  platform's collation, is a parameter of the sort.
\<close>

section \<open>Members and decisions\<close>

datatype PoolMemberState = Busy | Idle | Suspended

record PoolMember =
  member_id :: string
  state :: PoolMemberState
  lastTaskId :: "string option"
  hasUnpushedCommits :: bool
  atDiskCeiling :: bool
  memoryBytes :: "nat option"
  imageVersion :: "string option"

datatype PoolDecision =
    Reuse PoolMember
  | Resume PoolMember
  | Recycle "PoolMember list"
  | Create
  | Reclaim rat
  | Queue

record PoolCapacity =
  usedMemoryGb :: rat
  budgetGb :: rat
  requestMemoryGb :: rat
  reclaimableMemoryGb :: rat

definition usable :: "PoolMember \<Rightarrow> bool" where
  "usable m \<longleftrightarrow> state m \<noteq> Busy \<and> \<not> atDiskCeiling m"

definition fitsBudget :: "PoolCapacity \<Rightarrow> bool" where
  "fitsBudget c \<longleftrightarrow> usedMemoryGb c + requestMemoryGb c \<le> budgetGb c"

definition outdated :: "nat \<Rightarrow> string \<Rightarrow> PoolMember \<Rightarrow> bool" where
  "outdated reqMem reqImage m \<longleftrightarrow> memoryBytes m \<noteq> Some reqMem \<or> imageVersion m \<noteq> Some reqImage"

definition selectPoolMember ::
  "string option \<Rightarrow> PoolMember list \<Rightarrow> PoolCapacity \<Rightarrow> nat \<Rightarrow> string \<Rightarrow> PoolDecision" where
  "selectPoolMember taskId members capacity reqMem reqImage =
     (let mismatched = filter (\<lambda>m. state m \<noteq> Busy \<and> \<not> hasUnpushedCommits m \<and> outdated reqMem reqImage m) members
      in if mismatched \<noteq> [] then Recycle mismatched
      else
        let available = filter (\<lambda>m. usable m \<and> \<not> outdated reqMem reqImage m) members;
            affine = (case taskId of
                None \<Rightarrow> None
              | Some t \<Rightarrow> find (\<lambda>m. state m = Idle \<and> lastTaskId m = Some t) available)
        in case affine of
          Some m \<Rightarrow> Reuse m
        | None \<Rightarrow>
            (case find (\<lambda>m. state m = Idle) available of
               Some m \<Rightarrow> Reuse m
             | None \<Rightarrow>
                 (case (find (\<lambda>m. state m = Suspended) available, fitsBudget capacity) of
                    (Some m, True) \<Rightarrow> Resume m
                  | (_, True) \<Rightarrow> Create
                  | (_, False) \<Rightarrow>
                      let needGb = usedMemoryGb capacity + requestMemoryGb capacity - budgetGb capacity
                      in if needGb \<le> reclaimableMemoryGb capacity then Reclaim needGb else Queue)))"

section \<open>Retiring idle members\<close>

record IdleRetirementPlan =
  suspend :: "PoolMember list"
  destroy :: "PoolMember list"

definition planIdleShutdown :: "PoolMember list \<Rightarrow> IdleRetirementPlan" where
  "planIdleShutdown members =
     (let idle = filter (\<lambda>m. state m = Idle) members
      in if idle = [] then \<lparr>suspend = [], destroy = []\<rparr>
      else
        let pinned = filter hasUnpushedCommits idle;
            disposable = filter (\<lambda>m. \<not> hasUnpushedCommits m) idle
        in if pinned \<noteq> [] then \<lparr>suspend = pinned, destroy = disposable\<rparr>
        else if list_ex (\<lambda>m. state m = Suspended) members then \<lparr>suspend = [], destroy = disposable\<rparr>
        else (case disposable of
            [] \<Rightarrow> \<lparr>suspend = [], destroy = []\<rparr>
          | first # rest \<Rightarrow> \<lparr>suspend = [first], destroy = rest\<rparr>))"

definition planSurplusIdleRetirement :: "PoolMember list \<Rightarrow> string set \<Rightarrow> IdleRetirementPlan" where
  "planSurplusIdleRetirement members staleMemberIds =
     (let stale = filter (\<lambda>m. state m = Idle \<and> member_id m \<in> staleMemberIds) members
      in if stale = [] then \<lparr>suspend = [], destroy = []\<rparr>
      else
        let pinned = filter hasUnpushedCommits stale;
            disposable = filter (\<lambda>m. \<not> hasUnpushedCommits m) stale;
            resumableAlready = (pinned \<noteq> [] \<or>
              list_ex (\<lambda>m. state m = Busy \<or> state m = Suspended
                \<or> (state m = Idle \<and> member_id m \<notin> staleMemberIds)) members)
        in if resumableAlready then \<lparr>suspend = pinned, destroy = disposable\<rparr>
        else (case disposable of
            [] \<Rightarrow> \<lparr>suspend = [], destroy = []\<rparr>
          | keep # rest \<Rightarrow> \<lparr>suspend = [keep], destroy = rest\<rparr>))"

section \<open>Reclaiming across projects\<close>

record ReclaimCandidate =
  containerId :: string
  projectId :: string
  memoryGb :: rat
  idleForMs :: int
  ageMs :: "int option"
  projectResumableMembers :: nat
  unpushed :: bool

record ReclaimPlan =
  plan_suspend :: "ReclaimCandidate list"
  plan_destroy :: "ReclaimCandidate list"
  freedGb :: rat

text \<open>\<open>Array.prototype.sort\<close> with a comparator: a stable sort.\<close>

fun insert_by :: "('a \<Rightarrow> 'a \<Rightarrow> int) \<Rightarrow> 'a \<Rightarrow> 'a list \<Rightarrow> 'a list" where
  "insert_by c x [] = [x]"
| "insert_by c x (y # ys) = (if c x y \<le> 0 then x # y # ys else y # insert_by c x ys)"

definition sort_by :: "('a \<Rightarrow> 'a \<Rightarrow> int) \<Rightarrow> 'a list \<Rightarrow> 'a list" where
  "sort_by c xs = foldr (insert_by c) xs []"

definition heldBy :: "ReclaimCandidate list \<Rightarrow> string \<Rightarrow> nat" where
  "heldBy eligible p = length (filter (\<lambda>c. projectId c = p) eligible)"

definition reclaim_order ::
  "(string \<Rightarrow> string \<Rightarrow> int) \<Rightarrow> (string \<Rightarrow> nat) \<Rightarrow> ReclaimCandidate \<Rightarrow> ReclaimCandidate \<Rightarrow> int" where
  "reclaim_order localeCompare held a b =
     (let byHoard = int (held (projectId b)) - int (held (projectId a))
      in if byHoard \<noteq> 0 then byHoard
      else if idleForMs b \<noteq> idleForMs a then idleForMs b - idleForMs a
      else localeCompare (containerId a) (containerId b))"

text \<open>The loop over the ordered candidates, with \<open>takenFrom\<close> as a function.\<close>

fun reclaim_loop ::
  "rat \<Rightarrow> (string \<Rightarrow> nat) \<Rightarrow> ReclaimPlan \<Rightarrow> ReclaimCandidate list \<Rightarrow> ReclaimPlan" where
  "reclaim_loop needGb takenFrom plan [] = plan"
| "reclaim_loop needGb takenFrom plan (c # cs) =
     (if freedGb plan \<ge> needGb then plan
      else
        let taken = takenFrom (projectId c) + 1;
            wouldStrandVictim = (taken \<ge> projectResumableMembers c);
            plan' = (if unpushed c \<or> wouldStrandVictim
                     then plan\<lparr>plan_suspend := plan_suspend plan @ [c]\<rparr>
                     else plan\<lparr>plan_destroy := plan_destroy plan @ [c]\<rparr>)
        in reclaim_loop needGb (takenFrom(projectId c := taken))
             (plan'\<lparr>freedGb := freedGb plan + memoryGb c\<rparr>) cs)"

definition empty_plan :: ReclaimPlan where
  "empty_plan = \<lparr>plan_suspend = [], plan_destroy = [], freedGb = 0\<rparr>"

definition reclaim_eligible :: "int \<Rightarrow> int \<Rightarrow> ReclaimCandidate \<Rightarrow> bool" where
  "reclaim_eligible minIdleMs minAgeMs c \<longleftrightarrow>
     idleForMs c \<ge> minIdleMs \<and> (case ageMs c of None \<Rightarrow> True | Some age \<Rightarrow> age \<ge> minAgeMs)"

definition planCrossProjectReclaim ::
  "(string \<Rightarrow> string \<Rightarrow> int) \<Rightarrow> ReclaimCandidate list \<Rightarrow> rat \<Rightarrow> int \<Rightarrow> int \<Rightarrow> ReclaimPlan" where
  "planCrossProjectReclaim localeCompare candidates needGb minIdleMs minAgeMs =
     (if needGb \<le> 0 then empty_plan
      else
        let eligible = filter (reclaim_eligible minIdleMs minAgeMs) candidates
        in if sum_list (map memoryGb eligible) < needGb then empty_plan
        else reclaim_loop needGb (\<lambda>_. 0) empty_plan
               (sort_by (reclaim_order localeCompare (heldBy eligible)) eligible))"

section \<open>Churn\<close>

record ReclaimEvent =
  atMs :: int
  requestingProjectId :: string
  victimProjectId :: string
  event_freedGb :: rat

record ChurnVerdict =
  churning :: bool
  reclaims :: nat
  reciprocal :: "(string \<times> string) option"
  verdict_freedGb :: rat

text \<open>\<open>edge.split('>')\<close> and the two strings destructured from it.\<close>

fun split_gt :: "string \<Rightarrow> string list" where
  "split_gt [] = [[]]"
| "split_gt (c # cs) =
     (if c = CHR ''>'' then [] # split_gt cs
      else (case split_gt cs of [] \<Rightarrow> [[c]] | w # ws \<Rightarrow> (c # w) # ws))"

definition edge_of :: "string \<Rightarrow> string \<Rightarrow> string" where
  "edge_of from to = from @ ''>'' @ to"

text \<open>A \<open>Set\<close> built from a list iterates in the order of first insertion.\<close>

definition set_order :: "'a list \<Rightarrow> 'a list" where
  "set_order xs = rev (remdups (rev xs))"

fun find_reciprocal :: "string list \<Rightarrow> string list \<Rightarrow> (string \<times> string) option" where
  "find_reciprocal took [] = None"
| "find_reciprocal took (edge # rest) =
     (case split_gt edge of
        from # to # _ \<Rightarrow>
          if edge_of to from \<in> set took then Some (from, to) else find_reciprocal took rest
      | _ \<Rightarrow> find_reciprocal took rest)"

definition detectReclaimChurn :: "ReclaimEvent list \<Rightarrow> int \<Rightarrow> int \<Rightarrow> nat \<Rightarrow> ChurnVerdict" where
  "detectReclaimChurn events nowMs windowMs minReclaims =
     (let recent = filter (\<lambda>e. nowMs - atMs e \<le> windowMs) events;
          freed = sum_list (map event_freedGb recent);
          verdict = (\<lambda>ch r. \<lparr>churning = ch, reclaims = length recent, reciprocal = r, verdict_freedGb = freed\<rparr>)
      in if length recent < minReclaims then verdict False None
      else
        let took = set_order (map (\<lambda>e. edge_of (requestingProjectId e) (victimProjectId e)) recent)
        in case find_reciprocal took took of
             Some p \<Rightarrow> verdict True (Some p)
           | None \<Rightarrow> verdict (length recent \<ge> minReclaims) None)"

section \<open>Lemmas on the ladder\<close>

lemma find_SomeD: "find P xs = Some x \<Longrightarrow> x \<in> set xs \<and> P x"
  by (auto simp: find_Some_iff)

lemma find_NoneD: "find P xs = None \<Longrightarrow> x \<in> set xs \<Longrightarrow> \<not> P x"
  by (simp add: find_None_iff)

text \<open>The rungs as mutually exclusive cases.\<close>

definition mismatched_of :: "nat \<Rightarrow> string \<Rightarrow> PoolMember list \<Rightarrow> PoolMember list" where
  "mismatched_of reqMem reqImage ms =
     filter (\<lambda>m. state m \<noteq> Busy \<and> \<not> hasUnpushedCommits m \<and> outdated reqMem reqImage m) ms"

definition serves :: "nat \<Rightarrow> string \<Rightarrow> PoolMemberState \<Rightarrow> PoolMember \<Rightarrow> bool" where
  "serves reqMem reqImage st m \<longleftrightarrow> state m = st \<and> \<not> atDiskCeiling m
     \<and> memoryBytes m = Some reqMem \<and> imageVersion m = Some reqImage"

lemmas pool_defs = selectPoolMember_def usable_def outdated_def serves_def mismatched_of_def Let_def

section \<open>Applying a retirement plan\<close>

text \<open>What the pool holds after the members of a plan were stopped and removed.\<close>

definition apply_plan :: "IdleRetirementPlan \<Rightarrow> PoolMember list \<Rightarrow> PoolMember list" where
  "apply_plan plan ms =
     map (\<lambda>m. if m \<in> set (suspend plan) then m\<lparr>state := Suspended\<rparr> else m)
       (filter (\<lambda>m. m \<notin> set (destroy plan)) ms)"

text \<open>
  The contract both idle planners promise: only the members in \<open>scope\<close> (idle, and for the
  surplus pass stale) are touched, each of them is retired one way or the other, nothing holding
  unpushed commits is destroyed.
\<close>

locale idle_planner =
  fixes plan :: "PoolMember list \<Rightarrow> IdleRetirementPlan" and scope :: "PoolMember \<Rightarrow> bool"
  assumes scope_idle: "scope m \<Longrightarrow> state m = Idle"
    and retires: "m \<in> set (suspend (plan ms)) \<union> set (destroy (plan ms)) \<longleftrightarrow> m \<in> set ms \<and> scope m"
    and pinned_kept: "m \<in> set (destroy (plan ms)) \<Longrightarrow> \<not> hasUnpushedCommits m"
    and floor: "distinct ms \<Longrightarrow> m \<in> set ms \<Longrightarrow> scope m \<Longrightarrow>
      \<exists>k \<in> set ms. k \<notin> set (destroy (plan ms))"
begin

lemma unpushed_survives:
  assumes "m \<in> set ms" "hasUnpushedCommits m"
  shows "m \<in> set (apply_plan (plan ms) ms) \<or> m\<lparr>state := Suspended\<rparr> \<in> set (apply_plan (plan ms) ms)"
proof -
  have "m \<notin> set (destroy (plan ms))" using pinned_kept assms(2) by blast
  with assms(1) show ?thesis by (auto simp: apply_plan_def)
qed

lemma none_left_in_scope: "m \<in> set (apply_plan (plan ms) ms) \<Longrightarrow> \<not> scope m"
  using retires [of _ ms] scope_idle by (fastforce simp: apply_plan_def split: if_splits)

lemma untouched: "m \<in> set ms \<Longrightarrow> \<not> scope m \<Longrightarrow> m \<in> set (apply_plan (plan ms) ms)"
  using retires [of m ms] by (auto simp: apply_plan_def)

lemma warm_floor:
  assumes "distinct ms" "ms \<noteq> []"
  shows "apply_plan (plan ms) ms \<noteq> []"
proof (cases "\<exists>m \<in> set ms. scope m")
  case True
  then obtain m where "m \<in> set ms" "scope m" by blast
  then obtain k where "k \<in> set ms" "k \<notin> set (destroy (plan ms))" using floor [OF assms(1)] by blast
  then show ?thesis by (auto simp: apply_plan_def filter_empty_conv)
next
  case False
  then show ?thesis using untouched [of "hd ms" ms] assms(2) by (cases ms) auto
qed

end

text \<open>Both planners are the same split of the members in scope; they differ in what keeps a project warm.\<close>

definition retire :: "PoolMember list \<Rightarrow> bool \<Rightarrow> IdleRetirementPlan" where
  "retire xs warm =
     (let pinned = filter hasUnpushedCommits xs; disposable = filter (\<lambda>m. \<not> hasUnpushedCommits m) xs
      in if pinned \<noteq> [] \<or> warm then \<lparr>suspend = pinned, destroy = disposable\<rparr>
      else \<lparr>suspend = take 1 disposable, destroy = drop 1 disposable\<rparr>)"

lemma retire_set: "set (suspend (retire xs warm)) \<union> set (destroy (retire xs warm)) = set xs"
proof -
  have "set (take 1 ys) \<union> set (drop 1 ys) = set ys" for ys :: "PoolMember list"
    by (metis append_take_drop_id set_append)
  moreover have "filter hasUnpushedCommits xs = [] \<Longrightarrow> filter (\<lambda>m. \<not> hasUnpushedCommits m) xs = xs"
    by (auto simp: filter_empty_conv filter_id_conv)
  ultimately show ?thesis by (auto simp: retire_def Let_def)
qed

lemma retire_pinned: "m \<in> set (destroy (retire xs warm)) \<Longrightarrow> \<not> hasUnpushedCommits m"
  by (auto simp: retire_def Let_def split: if_splits dest: in_set_dropD)

lemma retire_cold:
  assumes "distinct xs" "m \<in> set xs" "\<not> warm"
  shows "\<exists>k \<in> set xs. k \<notin> set (destroy (retire xs warm))"
proof (cases "\<exists>k \<in> set xs. hasUnpushedCommits k")
  case True
  then show ?thesis using retire_pinned by blast
next
  case False
  then have "filter hasUnpushedCommits xs = []" "filter (\<lambda>m. \<not> hasUnpushedCommits m) xs = xs"
    by (auto simp: filter_empty_conv filter_id_conv)
  moreover obtain y ys where "xs = y # ys" using assms(2) by (cases xs) auto
  ultimately show ?thesis using assms(1,3) by (auto simp: retire_def Let_def)
qed

lemma retire_suspend: "filter hasUnpushedCommits xs = [] \<Longrightarrow> length (suspend (retire xs warm)) \<le> 1"
  by (simp add: retire_def Let_def)

lemma retire_cases:
  "retire xs warm =
     (if xs = [] then \<lparr>suspend = [], destroy = []\<rparr>
      else if filter hasUnpushedCommits xs \<noteq> []
        then \<lparr>suspend = filter hasUnpushedCommits xs, destroy = filter (\<lambda>m. \<not> hasUnpushedCommits m) xs\<rparr>
      else if warm then \<lparr>suspend = [], destroy = filter (\<lambda>m. \<not> hasUnpushedCommits m) xs\<rparr>
      else (case filter (\<lambda>m. \<not> hasUnpushedCommits m) xs of
          [] \<Rightarrow> \<lparr>suspend = [], destroy = []\<rparr>
        | first # rest \<Rightarrow> \<lparr>suspend = [first], destroy = rest\<rparr>))"
  by (auto simp: retire_def Let_def split: list.split)

lemma planIdleShutdown_retire:
  "planIdleShutdown ms = retire (filter (\<lambda>m. state m = Idle) ms) (list_ex (\<lambda>m. state m = Suspended) ms)"
  unfolding planIdleShutdown_def retire_cases Let_def by (rule refl)

definition keeps_warm :: "string set \<Rightarrow> PoolMember \<Rightarrow> bool" where
  "keeps_warm stale m \<longleftrightarrow> state m = Busy \<or> state m = Suspended \<or> (state m = Idle \<and> member_id m \<notin> stale)"

lemma planSurplus_retire:
  "planSurplusIdleRetirement ms stale =
     retire (filter (\<lambda>m. state m = Idle \<and> member_id m \<in> stale) ms) (list_ex (keeps_warm stale) ms)"
proof -
  have "list_ex (keeps_warm stale) ms = list_ex (\<lambda>m. state m = Busy \<or> state m = Suspended
      \<or> (state m = Idle \<and> member_id m \<notin> stale)) ms"
    by (auto simp: list_ex_iff keeps_warm_def)
  then show ?thesis
    unfolding planSurplusIdleRetirement_def retire_cases Let_def by (simp del: filter_filter)
qed

lemma idle_planner_retire:
  assumes "\<And>m. scope m \<Longrightarrow> state m = Idle" and "\<And>m. warm m \<Longrightarrow> \<not> scope m"
    and "\<And>ms. plan ms = retire (filter scope ms) (list_ex warm ms)"
  shows "idle_planner plan scope"
proof unfold_locales
  fix m ms
  show "m \<in> set (suspend (plan ms)) \<union> set (destroy (plan ms)) \<longleftrightarrow> m \<in> set ms \<and> scope m"
    unfolding assms(3) retire_set by simp
  assume "m \<in> set (destroy (plan ms))"
  then show "\<not> hasUnpushedCommits m" unfolding assms(3) by (rule retire_pinned)
next
  fix ms m assume ms: "distinct ms" "m \<in> set ms" "scope m"
  show "\<exists>k \<in> set ms. k \<notin> set (destroy (plan ms))"
  proof (cases "list_ex warm ms")
    case True
    then obtain k where k: "k \<in> set ms" "\<not> scope k" using assms(2) by (auto simp: list_ex_iff)
    then have "k \<notin> set (destroy (plan ms))"
      using retire_set [of "filter scope ms" "list_ex warm ms"] unfolding assms(3) by auto
    with k show ?thesis by blast
  next
    case False
    then show ?thesis
      using retire_cold [of "filter scope ms" m "list_ex warm ms"] ms unfolding assms(3) by auto
  qed
qed (use assms(1) in simp)

interpretation shutdown: idle_planner planIdleShutdown "\<lambda>m. state m = Idle"
  by (rule idle_planner_retire [OF _ _ planIdleShutdown_retire]) simp_all

interpretation surplus: idle_planner "\<lambda>ms. planSurplusIdleRetirement ms stale"
    "\<lambda>m. state m = Idle \<and> member_id m \<in> stale" for stale
  by (rule idle_planner_retire [OF _ _ planSurplus_retire]) (auto simp: keeps_warm_def)

section \<open>Lemmas on reclaiming\<close>

lemma mset_insert_by: "mset (insert_by c x xs) = add_mset x (mset xs)"
  by (induction xs) auto

lemma mset_sort_by: "mset (sort_by c xs) = mset xs"
  by (induction xs) (simp_all add: sort_by_def mset_insert_by)

lemma sum_sort_by: "sum_list (map f (sort_by c xs)) = (sum_list (map f xs) :: 'b :: comm_monoid_add)"
  by (metis mset_map mset_sort_by sum_mset_sum_list)

text \<open>
  What the loop takes is a prefix of the ordered candidates, each taken only while the plan was
  still short, and it stops only when enough is freed or nothing is left.
\<close>

lemma reclaim_loop_prefix:
  "\<exists>n \<le> length cs.
     mset (plan_suspend (reclaim_loop need tk plan cs)) + mset (plan_destroy (reclaim_loop need tk plan cs))
       = mset (plan_suspend plan) + mset (plan_destroy plan) + mset (take n cs)
     \<and> freedGb (reclaim_loop need tk plan cs) = freedGb plan + sum_list (map memoryGb (take n cs))
     \<and> (\<forall>k < n. freedGb plan + sum_list (map memoryGb (take k cs)) < need)
     \<and> (n = length cs \<or> need \<le> freedGb (reclaim_loop need tk plan cs))"
proof (induction cs arbitrary: tk plan)
  case Nil
  then show ?case by simp
next
  case (Cons c cs)
  show ?case
  proof (cases "freedGb plan \<ge> need")
    case True
    then show ?thesis by (intro exI [of _ 0]) simp
  next
    case False
    define plan' where "plan' = (if unpushed c \<or> tk (projectId c) + 1 \<ge> projectResumableMembers c
        then plan\<lparr>plan_suspend := plan_suspend plan @ [c]\<rparr>
        else plan\<lparr>plan_destroy := plan_destroy plan @ [c]\<rparr>)\<lparr>freedGb := freedGb plan + memoryGb c\<rparr>"
    define tk' where "tk' = tk(projectId c := tk (projectId c) + 1)"
    have step: "reclaim_loop need tk plan (c # cs) = reclaim_loop need tk' plan' cs"
      using False by (simp add: plan'_def tk'_def Let_def)
    have plan': "mset (plan_suspend plan') + mset (plan_destroy plan') =
        add_mset c (mset (plan_suspend plan) + mset (plan_destroy plan))"
      "freedGb plan' = freedGb plan + memoryGb c"
      by (simp_all add: plan'_def)
    obtain n where n: "n \<le> length cs"
      "mset (plan_suspend (reclaim_loop need tk' plan' cs)) + mset (plan_destroy (reclaim_loop need tk' plan' cs))
       = mset (plan_suspend plan') + mset (plan_destroy plan') + mset (take n cs)"
      "freedGb (reclaim_loop need tk' plan' cs) = freedGb plan' + sum_list (map memoryGb (take n cs))"
      "\<forall>k < n. freedGb plan' + sum_list (map memoryGb (take k cs)) < need"
      "n = length cs \<or> need \<le> freedGb (reclaim_loop need tk' plan' cs)"
      using Cons.IH [of tk' plan'] by blast
    have "freedGb plan + sum_list (map memoryGb (take k (c # cs))) < need" if "k < Suc n" for k
      using that n(4) False plan'(2) by (cases k) (auto simp: add.assoc)
    then show ?thesis
      unfolding step using n plan' by (intro exI [of _ "Suc n"]) (auto simp: add.assoc)
  qed
qed

lemma reclaim_loop_destroy:
  assumes "\<And>c. c \<in> set (plan_destroy plan) \<Longrightarrow> \<not> unpushed c"
    and "c \<in> set (plan_destroy (reclaim_loop need tk plan cs))"
  shows "\<not> unpushed c"
  using assms
proof (induction cs arbitrary: tk plan)
  case (Cons k cs)
  show ?case
  proof (cases "freedGb plan \<ge> need")
    case True
    with Cons.prems show ?thesis by simp
  next
    case False
    show ?thesis
      by (rule Cons.IH) (use False Cons.prems in \<open>auto simp: Let_def split: if_splits\<close>)
  qed
qed simp

definition taken_of :: "string \<Rightarrow> ReclaimCandidate list \<Rightarrow> nat" where
  "taken_of q cs = length (filter (\<lambda>c. projectId c = q) cs)"

lemma reclaim_loop_victims:
  assumes "\<And>c. c \<in> set cs \<Longrightarrow> projectResumableMembers c = r (projectId c)"
    and "\<And>q. taken_of q (plan_destroy plan) \<le> tk q"
    and "\<And>q. taken_of q (plan_destroy plan) = 0 \<or> taken_of q (plan_destroy plan) < r q"
  shows "taken_of q (plan_destroy (reclaim_loop need tk plan cs)) = 0
    \<or> taken_of q (plan_destroy (reclaim_loop need tk plan cs)) < r q"
  using assms
proof (induction cs arbitrary: tk plan)
  case Nil
  then show ?case by simp
next
  case (Cons c cs)
  let ?q = "projectId c"
  let ?strand = "unpushed c \<or> tk ?q + 1 \<ge> projectResumableMembers c"
  let ?plan = "(if ?strand then plan\<lparr>plan_suspend := plan_suspend plan @ [c]\<rparr>
      else plan\<lparr>plan_destroy := plan_destroy plan @ [c]\<rparr>)\<lparr>freedGb := freedGb plan + memoryGb c\<rparr>"
  have r: "projectResumableMembers c = r ?q" using Cons.prems(1) by simp
  have tk: "taken_of p (plan_destroy ?plan) \<le> (tk(?q := tk ?q + 1)) p" for p
    using Cons.prems(2) [of p] by (auto simp: taken_of_def)
  have bound: "taken_of p (plan_destroy ?plan) = 0 \<or> taken_of p (plan_destroy ?plan) < r p" for p
    using Cons.prems(2) [of p] Cons.prems(3) [of p] r by (auto simp: taken_of_def)
  have "taken_of q (plan_destroy (reclaim_loop need (tk(?q := tk ?q + 1)) ?plan cs)) = 0
      \<or> taken_of q (plan_destroy (reclaim_loop need (tk(?q := tk ?q + 1)) ?plan cs)) < r q"
    by (rule Cons.IH) (use Cons.prems(1) tk bound in auto)
  then show ?case using Cons.prems(3) [of q] by (auto simp: Let_def)
qed

lemma split_gt_plain: "CHR ''>'' \<notin> set a \<Longrightarrow> split_gt a = [a]"
  by (induction a) auto

lemma split_gt_edge:
  "CHR ''>'' \<notin> set a \<Longrightarrow> CHR ''>'' \<notin> set b \<Longrightarrow> split_gt (edge_of a b) = [a, b]"
  unfolding edge_of_def by (induction a) (auto simp: split_gt_plain)

lemma set_set_order [simp]: "set (set_order xs) = set xs"
  by (simp add: set_order_def)

lemma find_reciprocal_Some:
  assumes "find_reciprocal took es = Some (x, y)"
    and "\<And>e. e \<in> set es \<Longrightarrow> \<exists>a b. e = edge_of a b \<and> CHR ''>'' \<notin> set a \<and> CHR ''>'' \<notin> set b"
  shows "edge_of x y \<in> set es \<and> edge_of y x \<in> set took \<and> CHR ''>'' \<notin> set x \<and> CHR ''>'' \<notin> set y"
  using assms
proof (induction es)
  case (Cons e es)
  obtain a b where e: "e = edge_of a b" "split_gt e = [a, b]" "CHR ''>'' \<notin> set a" "CHR ''>'' \<notin> set b"
    using Cons.prems(2) [of e] split_gt_edge by auto
  then show ?case using Cons by (auto split: if_splits)
qed simp

lemma find_reciprocal_None:
  assumes "find_reciprocal took es = None" "edge_of x y \<in> set es"
    and "CHR ''>'' \<notin> set x" "CHR ''>'' \<notin> set y"
  shows "edge_of y x \<notin> set took"
  using assms
  by (induction es) (auto simp: split_gt_edge split: list.splits if_splits)

lemma edge_of_inject:
  "CHR ''>'' \<notin> set a \<Longrightarrow> CHR ''>'' \<notin> set b \<Longrightarrow> CHR ''>'' \<notin> set x \<Longrightarrow> CHR ''>'' \<notin> set y \<Longrightarrow>
   edge_of a b = edge_of x y \<longleftrightarrow> a = x \<and> b = y"
  by (metis list.inject split_gt_edge)

section \<open>The comparator contract\<close>

text \<open>
  A comparator sorts by a preorder \<open>R\<close> when its sign agrees with it; ties of \<open>R\<close> may be
  broken in any way, which is how \<open>localeCompare\<close> enters.
\<close>

locale sorts_by =
  fixes c :: "'a \<Rightarrow> 'a \<Rightarrow> int" and R :: "'a \<Rightarrow> 'a \<Rightarrow> bool"
  assumes before: "c x y \<le> 0 \<Longrightarrow> R x y" and after: "0 < c x y \<Longrightarrow> R y x"
    and R_trans: "R x y \<Longrightarrow> R y z \<Longrightarrow> R x z"
begin

lemma sorted_insert_by: "sorted_wrt R xs \<Longrightarrow> sorted_wrt R (insert_by c x xs)"
proof (induction xs)
  case (Cons y ys)
  have set: "set (insert_by c x ys) = insert x (set ys)"
    by (metis mset_insert_by set_mset_add_mset_insert set_mset_mset)
  show ?case
  proof (cases "c x y \<le> 0")
    case True
    then show ?thesis using Cons.prems before [OF True] R_trans by auto
  next
    case False
    then show ?thesis using Cons after [of x y] set by auto
  qed
qed simp

lemma sorted_sort_by: "sorted_wrt R (sort_by c xs)"
  unfolding sort_by_def by (induction xs) (simp_all add: sorted_insert_by)

end

definition loses_first :: "(string \<Rightarrow> nat) \<Rightarrow> ReclaimCandidate \<Rightarrow> ReclaimCandidate \<Rightarrow> bool" where
  "loses_first held a b \<longleftrightarrow> held (projectId b) < held (projectId a)
     \<or> held (projectId b) = held (projectId a) \<and> idleForMs b \<le> idleForMs a"

interpretation reclaim_sort: sorts_by "reclaim_order localeCompare held" "loses_first held"
  for localeCompare held
  by unfold_locales (auto simp: reclaim_order_def loses_first_def Let_def split: if_splits)

text \<open>What a plan takes, as a prefix of the candidates in that order.\<close>

lemma reclaim_taken:
  fixes need :: rat
  assumes "0 < need" and "eligible = filter (reclaim_eligible minIdle minAge) cands"
    and "need \<le> sum_list (map memoryGb eligible)"
    and "p = planCrossProjectReclaim lc cands need minIdle minAge"
  shows "\<exists>ks k ds. mset (ks @ k # ds) = mset eligible
     \<and> mset (plan_suspend p @ plan_destroy p) = mset (ks @ [k])
     \<and> sorted_wrt (loses_first (heldBy eligible)) (ks @ k # ds)
     \<and> freedGb p = sum_list (map memoryGb (ks @ [k]))
     \<and> sum_list (map memoryGb ks) < need \<and> need \<le> freedGb p"
proof -
  let ?cs = "sort_by (reclaim_order lc (heldBy eligible)) eligible"
  have p: "p = reclaim_loop need (\<lambda>_. 0) empty_plan ?cs"
    using assms by (simp add: planCrossProjectReclaim_def Let_def)
  obtain n where n: "n \<le> length ?cs"
    "mset (plan_suspend p) + mset (plan_destroy p) = mset (take n ?cs)"
    "freedGb p = sum_list (map memoryGb (take n ?cs))"
    "\<forall>k < n. sum_list (map memoryGb (take k ?cs)) < need"
    "n = length ?cs \<or> need \<le> freedGb p"
    using reclaim_loop_prefix [of ?cs need "\<lambda>_. 0" empty_plan] by (auto simp: p empty_plan_def)
  have total: "sum_list (map memoryGb ?cs) = sum_list (map memoryGb eligible)" by (rule sum_sort_by)
  have enough: "need \<le> freedGb p" using n(3,5) total assms(3) by auto
  then have "n \<noteq> 0" using n(3) assms(1) by (cases n) auto
  then obtain j where j: "n = Suc j" by (cases n) auto
  let ?ks = "take j ?cs" and ?k = "?cs ! j" and ?ds = "drop (Suc j) ?cs"
  have take: "take n ?cs = ?ks @ [?k]" using n(1) j by (simp add: take_Suc_conv_app_nth)
  have split: "?ks @ ?k # ?ds = ?cs" using n(1) j by (simp add: id_take_nth_drop [symmetric])
  have "mset (?ks @ ?k # ?ds) = mset eligible" unfolding split by (rule mset_sort_by)
  moreover have "sorted_wrt (loses_first (heldBy eligible)) (?ks @ ?k # ?ds)"
    unfolding split by (rule reclaim_sort.sorted_sort_by)
  moreover have "mset (plan_suspend p @ plan_destroy p) = mset (?ks @ [?k])"
    using n(2) take by simp
  moreover have "freedGb p = sum_list (map memoryGb (?ks @ [?k]))" using n(3) take by simp
  moreover have "sum_list (map memoryGb ?ks) < need" using n(4) j by simp
  ultimately show ?thesis using enough by blast
qed

lemma reclaim_refused:
  "need \<le> 0 \<or> sum_list (map memoryGb (filter (reclaim_eligible minIdle minAge) cands)) < need \<Longrightarrow>
   planCrossProjectReclaim lc cands need minIdle minAge = empty_plan"
  by (auto simp: planCrossProjectReclaim_def Let_def)

section \<open>A concrete pool\<close>

text \<open>The pool, the candidates and the reclaim log the properties are applied to.\<close>

definition demo_member :: "string \<Rightarrow> PoolMemberState \<Rightarrow> bool \<Rightarrow> PoolMember" where
  "demo_member i st u = \<lparr>member_id = i, state = st, lastTaskId = Some ''t1'', hasUnpushedCommits = u,
     atDiskCeiling = False, memoryBytes = Some 4, imageVersion = Some ''v1''\<rparr>"

definition demo_capacity :: PoolCapacity where
  "demo_capacity = \<lparr>usedMemoryGb = 2, budgetGb = 8, requestMemoryGb = 4, reclaimableMemoryGb = 0\<rparr>"

definition demo_candidate :: "string \<Rightarrow> string \<Rightarrow> int \<Rightarrow> ReclaimCandidate" where
  "demo_candidate i p t = \<lparr>containerId = i, projectId = p, memoryGb = 2, idleForMs = t, ageMs = None,
     projectResumableMembers = 2, unpushed = False\<rparr>"

definition demo_candidates :: "ReclaimCandidate list" where
  "demo_candidates = [demo_candidate ''c1'' ''p'' 90, demo_candidate ''c2'' ''q'' 95, demo_candidate ''c3'' ''p'' 99]"

definition demo_events :: "ReclaimEvent list" where
  "demo_events = [\<lparr>atMs = 10, requestingProjectId = ''p'', victimProjectId = ''q'', event_freedGb = 2\<rparr>,
     \<lparr>atMs = 20, requestingProjectId = ''q'', victimProjectId = ''p'', event_freedGb = 2\<rparr>]"

lemmas demo_defs = demo_member_def demo_capacity_def demo_candidate_def demo_candidates_def demo_events_def

section \<open>Properties\<close>

text \<open>
  (Lemma) One run per container, in a container that fits it. Whatever the members and the budget,
  a reused or resumed member is one of the pool's, is not busy, has disk left and was built to
  exactly the required memory and image; nothing busy and nothing holding unpushed commits is
  recycled; a container is created or resumed only within the budget; and a reclaim asks for
  exactly the shortfall, which is positive and available.
\<close>

theorem select_sound:
  "case selectPoolMember taskId ms cap reqMem reqImage of
     Reuse m \<Rightarrow> m \<in> set ms \<and> serves reqMem reqImage Idle m
   | Resume m \<Rightarrow> m \<in> set ms \<and> serves reqMem reqImage Suspended m \<and> fitsBudget cap
   | Recycle xs \<Rightarrow> xs \<noteq> [] \<and> list_all (\<lambda>m. m \<in> set ms \<and> state m \<noteq> Busy \<and> \<not> hasUnpushedCommits m) xs
   | Create \<Rightarrow> fitsBudget cap
   | Reclaim need \<Rightarrow> 0 < need \<and> need \<le> reclaimableMemoryGb cap
       \<and> usedMemoryGb cap + requestMemoryGb cap = budgetGb cap + need
   | Queue \<Rightarrow> \<not> fitsBudget cap
       \<and> reclaimableMemoryGb cap < usedMemoryGb cap + requestMemoryGb cap - budgetGb cap"
  by (auto simp: pool_defs fitsBudget_def list_all_iff dest!: find_SomeD
      split: option.splits bool.splits if_splits PoolDecision.splits)

text \<open>
  (Lemma) The ladder takes the best rung there is: with nothing to recycle, a run is given a warm
  container that last served its task if the pool has one, else any warm container, else a
  suspended one when it fits; a new container is created only when no existing one could serve.
\<close>

theorem select_ladder:
  assumes "mismatched_of reqMem reqImage ms = []"
  shows "((\<exists>m \<in> set ms. serves reqMem reqImage Idle m \<and> taskId \<noteq> None \<and> lastTaskId m = taskId) \<longrightarrow>
      (\<exists>m. selectPoolMember taskId ms cap reqMem reqImage = Reuse m \<and> lastTaskId m = taskId))
    \<and> ((\<exists>m. selectPoolMember taskId ms cap reqMem reqImage = Reuse m) \<longleftrightarrow>
      (\<exists>m \<in> set ms. serves reqMem reqImage Idle m))
    \<and> ((\<exists>m. selectPoolMember taskId ms cap reqMem reqImage = Resume m) \<longleftrightarrow>
      (\<forall>m \<in> set ms. \<not> serves reqMem reqImage Idle m) \<and> (\<exists>m \<in> set ms. serves reqMem reqImage Suspended m)
      \<and> fitsBudget cap)
    \<and> (selectPoolMember taskId ms cap reqMem reqImage = Create \<longleftrightarrow>
      (\<forall>m \<in> set ms. \<not> serves reqMem reqImage Idle m \<and> \<not> serves reqMem reqImage Suspended m)
      \<and> fitsBudget cap)"
proof -
  define avail where "avail = filter (\<lambda>m. usable m \<and> \<not> outdated reqMem reqImage m) ms"
  have mem: "m \<in> set avail \<and> state m = st \<longleftrightarrow> m \<in> set ms \<and> serves reqMem reqImage st m" if "st \<noteq> Busy" for m st
    using that by (auto simp: avail_def usable_def outdated_def serves_def)
  define affine where "affine = (case taskId of None \<Rightarrow> None
      | Some t \<Rightarrow> find (\<lambda>m. state m = Idle \<and> lastTaskId m = Some t) avail)"
  define warm where "warm = find (\<lambda>m. state m = Idle) avail"
  define susp where "susp = find (\<lambda>m. state m = Suspended) avail"
  have sel: "selectPoolMember taskId ms cap reqMem reqImage = (case affine of Some m \<Rightarrow> Reuse m
      | None \<Rightarrow> (case warm of Some m \<Rightarrow> Reuse m | None \<Rightarrow> (case (susp, fitsBudget cap) of
          (Some m, True) \<Rightarrow> Resume m | (_, True) \<Rightarrow> Create
        | (_, False) \<Rightarrow> let n = usedMemoryGb cap + requestMemoryGb cap - budgetGb cap
            in if n \<le> reclaimableMemoryGb cap then Reclaim n else Queue)))"
    using assms unfolding selectPoolMember_def mismatched_of_def Let_def affine_def warm_def susp_def avail_def
    by simp
  have affine: "affine = Some m \<Longrightarrow> m \<in> set ms \<and> serves reqMem reqImage Idle m \<and> lastTaskId m = taskId"
    "affine = None \<Longrightarrow> m \<in> set ms \<Longrightarrow> serves reqMem reqImage Idle m \<Longrightarrow> taskId \<noteq> None \<Longrightarrow> lastTaskId m \<noteq> taskId" for m
    using mem [of Idle m] unfolding affine_def
    by (auto dest!: find_SomeD find_NoneD [where x = m] split: option.splits)
  have warm: "warm = Some m \<Longrightarrow> m \<in> set ms \<and> serves reqMem reqImage Idle m"
    "warm = None \<Longrightarrow> m \<in> set ms \<Longrightarrow> \<not> serves reqMem reqImage Idle m" for m
    using mem [of Idle m] unfolding warm_def by (auto dest!: find_SomeD find_NoneD [where x = m])
  have susp: "susp = Some m \<Longrightarrow> m \<in> set ms \<and> serves reqMem reqImage Suspended m"
    "susp = None \<Longrightarrow> m \<in> set ms \<Longrightarrow> \<not> serves reqMem reqImage Suspended m" for m
    using mem [of Suspended m] unfolding susp_def by (auto dest!: find_SomeD find_NoneD [where x = m])
  show ?thesis
    unfolding sel
    by (cases affine; cases warm; cases susp; cases "fitsBudget cap")
       (use affine warm susp in \<open>auto simp: Let_def\<close>)
qed

theorem select_ladder_witness:
  "mismatched_of 4 ''v1'' [demo_member ''a'' Busy False, demo_member ''b'' Idle False] = []
    \<and> (\<exists>m. selectPoolMember (Some ''t1'') [demo_member ''a'' Busy False, demo_member ''b'' Idle False]
        demo_capacity 4 ''v1'' = Reuse m \<and> lastTaskId m = Some ''t1'')"
  using select_ladder [of 4 "''v1''" "[demo_member ''a'' Busy False, demo_member ''b'' Idle False]"
      "Some ''t1''" demo_capacity]
  by (simp add: demo_defs mismatched_of_def outdated_def serves_def)

text \<open>
  (Lemma) Recycling converges in one round: after the members a decision said to recycle are gone,
  deciding again over what is left never asks for another recycle.
\<close>

theorem select_recycle_once:
  assumes "selectPoolMember taskId ms cap reqMem reqImage = Recycle xs"
  shows "selectPoolMember taskId' (filter (\<lambda>m. m \<notin> set xs) ms) cap' reqMem reqImage \<noteq> Recycle ys"
proof -
  have "xs = mismatched_of reqMem reqImage ms"
    using assms by (auto simp: selectPoolMember_def mismatched_of_def Let_def
        split: if_splits option.splits bool.splits)
  then have "mismatched_of reqMem reqImage (filter (\<lambda>m. m \<notin> set xs) ms) = []"
    by (auto simp: mismatched_of_def filter_empty_conv)
  then show ?thesis
    by (auto simp: selectPoolMember_def mismatched_of_def Let_def split: option.splits bool.splits)
qed

theorem select_recycle_once_witness:
  "selectPoolMember None [demo_member ''a'' Idle False] demo_capacity 8 ''v1'' = Recycle [demo_member ''a'' Idle False]
    \<and> selectPoolMember None [] demo_capacity 8 ''v1'' \<noteq> Recycle []"
  using select_recycle_once [of None "[demo_member ''a'' Idle False]" demo_capacity 8 "''v1''"
      "[demo_member ''a'' Idle False]" None demo_capacity "[]"]
  by (simp add: demo_defs selectPoolMember_def outdated_def)

text \<open>
  (Lemma) Shutting down a quiet project loses nothing and keeps it warm: afterwards no member is
  idle, members that were not idle are untouched, a member holding unpushed commits is still
  there (stopped at most), a non-empty pool is still non-empty, and a project without unpushed
  work never ends up with more than one suspended container if it had at most one.
\<close>

theorem idle_shutdown_plan:
  assumes "distinct ms" and "ms' = apply_plan (planIdleShutdown ms) ms"
  shows "(\<forall>m \<in> set ms'. state m \<noteq> Idle)
    \<and> (\<forall>m \<in> set ms. state m \<noteq> Idle \<longrightarrow> m \<in> set ms')
    \<and> (\<forall>m \<in> set ms. hasUnpushedCommits m \<longrightarrow> m \<in> set ms' \<or> m\<lparr>state := Suspended\<rparr> \<in> set ms')
    \<and> (ms \<noteq> [] \<longrightarrow> ms' \<noteq> [])
    \<and> ((\<forall>m \<in> set ms. \<not> hasUnpushedCommits m) \<longrightarrow> length (filter (\<lambda>m. state m = Suspended) ms) \<le> 1
        \<longrightarrow> length (filter (\<lambda>m. state m = Suspended) ms') \<le> 1)"
proof -
  let ?plan = "planIdleShutdown ms"
  have single: "length (filter (\<lambda>m. state m = Suspended) ms') \<le> 1"
    if clean: "\<forall>m \<in> set ms. \<not> hasUnpushedCommits m"
      and one: "length (filter (\<lambda>m. state m = Suspended) ms) \<le> 1"
  proof -
    let ?left = "filter (\<lambda>m. m \<notin> set (destroy ?plan)) ms"
    have ms': "length (filter (\<lambda>m. state m = Suspended) ms') =
        length (filter (\<lambda>m. m \<in> set (suspend ?plan) \<or> state m = Suspended) ?left)"
      unfolding assms(2) apply_plan_def filter_map length_map
      by (rule arg_cong [where f = length], rule filter_cong) (auto simp: o_def)
    have idle_clean: "filter hasUnpushedCommits (filter (\<lambda>m. state m = Idle) ms) = []"
      using clean by (auto simp: filter_empty_conv)
    show ?thesis
    proof (cases "\<exists>m \<in> set ms. state m = Suspended")
      case True
      then have "suspend ?plan = []"
        using idle_clean by (auto simp: planIdleShutdown_retire retire_cases list_ex_iff)
      then have "length (filter (\<lambda>m. m \<in> set (suspend ?plan) \<or> state m = Suspended) ?left)
          \<le> length (filter (\<lambda>m. state m = Suspended) ms)"
        by (simp add: conj_commute) (metis filter_filter length_filter_le)
      then show ?thesis using ms' one by simp
    next
      case False
      let ?r = "filter (\<lambda>m. m \<in> set (suspend ?plan) \<or> state m = Suspended) ?left"
      have "set ?r \<subseteq> set (suspend ?plan)" using False by auto
      then have "card (set ?r) \<le> card (set (suspend ?plan))" by (rule card_mono [OF finite_set])
      moreover have "card (set (suspend ?plan)) \<le> length (suspend ?plan)" by (rule card_length)
      moreover have "length (suspend ?plan) \<le> 1"
        unfolding planIdleShutdown_retire by (rule retire_suspend [OF idle_clean])
      moreover have "length ?r = card (set ?r)" by (rule distinct_card [symmetric]) (intro distinct_filter assms(1))
      ultimately show ?thesis using ms' by linarith
    qed
  qed
  show ?thesis
    using shutdown.none_left_in_scope [of _ ms] shutdown.untouched [of _ ms]
      shutdown.unpushed_survives [of _ ms] shutdown.warm_floor [OF assms(1)] single
    unfolding assms(2) by blast
qed

theorem idle_shutdown_plan_witness:
  "distinct [demo_member ''a'' Idle False, demo_member ''b'' Idle True]
    \<and> apply_plan (planIdleShutdown [demo_member ''a'' Idle False, demo_member ''b'' Idle True])
        [demo_member ''a'' Idle False, demo_member ''b'' Idle True] \<noteq> []"
  using idle_shutdown_plan [of "[demo_member ''a'' Idle False, demo_member ''b'' Idle True]", OF _ refl]
  by (simp add: demo_defs)

text \<open>
  (Lemma) The surplus pass retires every stale idle member and touches nothing else, never destroys
  unpushed work, and always leaves a project that had a container with one.
\<close>

theorem surplus_retirement_plan:
  assumes "distinct ms" and "ms' = apply_plan (planSurplusIdleRetirement ms stale) ms"
  shows "(\<forall>m \<in> set ms'. \<not> (state m = Idle \<and> member_id m \<in> stale))
    \<and> (\<forall>m \<in> set ms. \<not> (state m = Idle \<and> member_id m \<in> stale) \<longrightarrow> m \<in> set ms')
    \<and> (\<forall>m \<in> set ms. hasUnpushedCommits m \<longrightarrow> m \<in> set ms' \<or> m\<lparr>state := Suspended\<rparr> \<in> set ms')
    \<and> (ms \<noteq> [] \<longrightarrow> ms' \<noteq> [])"
  using surplus.none_left_in_scope [where ms = ms and stale = stale]
    surplus.untouched [where ms = ms and stale = stale]
    surplus.unpushed_survives [where ms = ms and stale = stale]
    surplus.warm_floor [OF assms(1), where stale = stale]
  unfolding assms(2) by blast

theorem surplus_retirement_plan_witness:
  "distinct [demo_member ''a'' Idle False, demo_member ''b'' Idle True]
    \<and> apply_plan (planSurplusIdleRetirement [demo_member ''a'' Idle False, demo_member ''b'' Idle True] {''a''})
        [demo_member ''a'' Idle False, demo_member ''b'' Idle True] \<noteq> []"
  using surplus_retirement_plan [of "[demo_member ''a'' Idle False, demo_member ''b'' Idle True]" _ "{''a''}", OF _ refl]
  by (simp add: demo_defs)

text \<open>
  (Lemma) A cross-project reclaim is all or nothing, exact and minimal: it is empty unless the
  eligible candidates cover the need; otherwise it frees at least the need, what it says it frees
  is what it takes, every container it takes is an eligible candidate taken once, leaving out the
  last one taken would have been short, and nothing holding unpushed commits is destroyed.
\<close>

theorem reclaim_all_or_nothing:
  fixes need :: rat
  assumes "p = planCrossProjectReclaim lc cands need minIdle minAge"
    and "eligible = filter (reclaim_eligible minIdle minAge) cands"
  shows "(if 0 < need \<and> need \<le> sum_list (map memoryGb eligible)
      then need \<le> freedGb p \<and> (\<exists>c \<in> set (plan_suspend p @ plan_destroy p). freedGb p - memoryGb c < need)
      else p = empty_plan)
    \<and> freedGb p = sum_list (map memoryGb (plan_suspend p @ plan_destroy p))
    \<and> mset (plan_suspend p @ plan_destroy p) \<subseteq># mset eligible
    \<and> (\<forall>c \<in> set (plan_destroy p). \<not> unpushed c)"
proof (cases "0 < need \<and> need \<le> sum_list (map memoryGb eligible)")
  case True
  then obtain ks k ds where t: "mset (ks @ k # ds) = mset eligible"
      "mset (plan_suspend p @ plan_destroy p) = mset (ks @ [k])"
      "freedGb p = sum_list (map memoryGb (ks @ [k]))" "sum_list (map memoryGb ks) < need" "need \<le> freedGb p"
    using reclaim_taken [OF _ assms(2) _ assms(1)] by blast
  have "sum_list (map memoryGb (plan_suspend p @ plan_destroy p)) = sum_list (map memoryGb (ks @ [k]))"
    using t(2) by (metis mset_map sum_mset_sum_list)
  moreover have "mset (ks @ [k]) \<subseteq># mset (ks @ k # ds)" by simp
  moreover have "k \<in> set (plan_suspend p @ plan_destroy p)"
    using t(2) by (metis in_set_conv_decomp set_mset_mset)
  moreover have "p = reclaim_loop need (\<lambda>_. 0) empty_plan
      (sort_by (reclaim_order lc (heldBy eligible)) eligible)"
    using True assms by (simp add: planCrossProjectReclaim_def Let_def)
  then have "\<forall>c \<in> set (plan_destroy p). \<not> unpushed c"
    using reclaim_loop_destroy [of empty_plan] by (fastforce simp: empty_plan_def)
  moreover have "freedGb p - memoryGb k < need" using t(3,4) by simp
  ultimately have "\<exists>c \<in> set (plan_suspend p @ plan_destroy p). freedGb p - memoryGb c < need"
    "freedGb p = sum_list (map memoryGb (plan_suspend p @ plan_destroy p))"
    "mset (plan_suspend p @ plan_destroy p) \<subseteq># mset eligible"
    "\<forall>c \<in> set (plan_destroy p). \<not> unpushed c"
    using t(1,2,3) by (blast, simp, metis, blast)
  then show ?thesis using True t(5) by (simp only: if_True simp_thms)
next
  case False
  then have "p = empty_plan" using reclaim_refused [of need minIdle minAge cands lc] assms by auto
  with False show ?thesis by (auto simp: empty_plan_def)
qed

theorem reclaim_all_or_nothing_witness:
  "3 \<le> freedGb (planCrossProjectReclaim (\<lambda>_ _. 0) demo_candidates 3 50 0)"
  using reclaim_all_or_nothing [where lc = "\<lambda>_ _. 0" and cands = demo_candidates and need = 3
      and minIdle = 50 and minAge = 0, OF refl refl]
  by (simp add: demo_defs reclaim_eligible_def)

text \<open>
  (Lemma) No reclaim strands a victim: if every candidate reports how many members of its project
  could serve its next run, a plan destroys fewer containers of any project than that, so each
  project it takes from keeps at least one to resume.
\<close>

theorem reclaim_never_strands:
  assumes "\<forall>c \<in> set cands. projectResumableMembers c = resumable (projectId c)"
    and "c \<in> set (plan_destroy (planCrossProjectReclaim lc cands need minIdle minAge))"
  shows "taken_of (projectId c) (plan_destroy (planCrossProjectReclaim lc cands need minIdle minAge))
    < resumable (projectId c)"
proof -
  let ?el = "filter (reclaim_eligible minIdle minAge) cands"
  let ?cs = "sort_by (reclaim_order lc (heldBy ?el)) ?el"
  let ?p = "planCrossProjectReclaim lc cands need minIdle minAge"
  have "?p \<noteq> empty_plan" using assms(2) by (auto simp: empty_plan_def)
  then have p: "?p = reclaim_loop need (\<lambda>_. 0) empty_plan ?cs"
    by (auto simp: planCrossProjectReclaim_def Let_def split: if_splits)
  have "set ?cs = set ?el" by (metis mset_sort_by set_mset_mset)
  then have "taken_of (projectId c) (plan_destroy ?p) = 0
      \<or> taken_of (projectId c) (plan_destroy ?p) < resumable (projectId c)"
    unfolding p using assms(1) by (intro reclaim_loop_victims) (auto simp: empty_plan_def taken_of_def)
  moreover have "taken_of (projectId c) (plan_destroy ?p) \<noteq> 0"
    using assms(2) by (auto simp: taken_of_def filter_empty_conv)
  ultimately show ?thesis by blast
qed

theorem reclaim_never_strands_witness:
  "demo_candidate ''c3'' ''p'' 99 \<in> set (plan_destroy (planCrossProjectReclaim (\<lambda>_ _. 0) demo_candidates 3 50 0))
    \<and> taken_of ''p'' (plan_destroy (planCrossProjectReclaim (\<lambda>_ _. 0) demo_candidates 3 50 0)) < 2"
proof -
  have in_plan: "demo_candidate ''c3'' ''p'' 99
      \<in> set (plan_destroy (planCrossProjectReclaim (\<lambda>_ _. 0) demo_candidates 3 50 0))"
    by (simp add: demo_defs planCrossProjectReclaim_def reclaim_eligible_def sort_by_def reclaim_order_def
        heldBy_def empty_plan_def Let_def)
  have resumable: "\<forall>c \<in> set demo_candidates. projectResumableMembers c = (\<lambda>_. 2) (projectId c)"
    by (simp add: demo_defs)
  show ?thesis
    using reclaim_never_strands [OF resumable in_plan] in_plan by (simp add: demo_candidate_def)
qed

text \<open>
  (Lemma) Who loses first: whatever order the collation gives to ties, every container a reclaim
  takes belongs to a project holding at least as many eligible containers as the project of any
  container it leaves, and among equals it has been idle at least as long.
\<close>

theorem reclaim_fairness:
  fixes need :: rat
  assumes "0 < need" and "eligible = filter (reclaim_eligible minIdle minAge) cands"
    and "need \<le> sum_list (map memoryGb eligible)"
    and "p = planCrossProjectReclaim lc cands need minIdle minAge"
  shows "\<exists>left. mset (plan_suspend p @ plan_destroy p) + mset left = mset eligible
    \<and> (\<forall>c \<in> set (plan_suspend p @ plan_destroy p). \<forall>d \<in> set left. loses_first (heldBy eligible) c d)"
proof -
  obtain ks k ds where t: "mset (ks @ k # ds) = mset eligible"
      "mset (plan_suspend p @ plan_destroy p) = mset (ks @ [k])"
      "sorted_wrt (loses_first (heldBy eligible)) (ks @ k # ds)"
    using reclaim_taken [OF assms] by blast
  have "set (plan_suspend p @ plan_destroy p) = set (ks @ [k])" using t(2) by (metis set_mset_mset)
  then show ?thesis
    using t by (intro exI [of _ ds]) (auto simp: sorted_wrt_append)
qed

theorem reclaim_fairness_witness:
  "(0 :: rat) < 3 \<and> (\<exists>left. mset (plan_suspend (planCrossProjectReclaim (\<lambda>_ _. 0) demo_candidates 3 50 0)
      @ plan_destroy (planCrossProjectReclaim (\<lambda>_ _. 0) demo_candidates 3 50 0)) + mset left = mset demo_candidates)"
  using reclaim_fairness [OF _ refl _ refl, of 3 50 0 demo_candidates "\<lambda>_ _. 0"]
  by (auto simp: demo_defs reclaim_eligible_def)

text \<open>
  (Lemma) The churn verdict: churning is reported exactly when enough reclaims fall inside the
  window, and a pair is named exactly when, among them, two projects (ids free of the separator)
  each took from the other.
\<close>

theorem churn_verdict:
  assumes "\<forall>e \<in> set events. CHR ''>'' \<notin> set (requestingProjectId e) \<and> CHR ''>'' \<notin> set (victimProjectId e)"
    and "recent = filter (\<lambda>e. nowMs - atMs e \<le> windowMs) events"
    and "v = detectReclaimChurn events nowMs windowMs minReclaims"
  shows "(churning v \<longleftrightarrow> minReclaims \<le> length recent)
    \<and> reclaims v = length recent
    \<and> (reciprocal v \<noteq> None \<longleftrightarrow> minReclaims \<le> length recent \<and>
        (\<exists>d \<in> set recent. \<exists>e \<in> set recent. requestingProjectId d = victimProjectId e
           \<and> victimProjectId d = requestingProjectId e))"
proof -
  let ?took = "set_order (map (\<lambda>e. edge_of (requestingProjectId e) (victimProjectId e)) recent)"
  have plain: "CHR ''>'' \<notin> set (requestingProjectId e) \<and> CHR ''>'' \<notin> set (victimProjectId e)"
    if "e \<in> set recent" for e using assms(1,2) that by auto
  have some: "\<exists>d \<in> set recent. \<exists>e \<in> set recent. requestingProjectId d = victimProjectId e
      \<and> victimProjectId d = requestingProjectId e" if "find_reciprocal ?took ?took = Some (x, y)" for x y
  proof -
    have xy: "edge_of x y \<in> set ?took \<and> edge_of y x \<in> set ?took \<and> CHR ''>'' \<notin> set x \<and> CHR ''>'' \<notin> set y"
      by (rule find_reciprocal_Some [OF that]) (use plain in auto)
    then obtain d e where de: "d \<in> set recent" "e \<in> set recent"
      "edge_of x y = edge_of (requestingProjectId d) (victimProjectId d)"
      "edge_of y x = edge_of (requestingProjectId e) (victimProjectId e)" by auto
    have "x = requestingProjectId d \<and> y = victimProjectId d"
      using de(3) edge_of_inject plain [OF de(1)] xy by simp
    moreover have "y = requestingProjectId e \<and> x = victimProjectId e"
      using de(4) edge_of_inject plain [OF de(2)] xy by simp
    ultimately show ?thesis using de(1,2) by auto
  qed
  have none: "False" if "find_reciprocal ?took ?took = None" "d \<in> set recent" "e \<in> set recent"
    "requestingProjectId d = victimProjectId e" "victimProjectId d = requestingProjectId e" for d e
  proof -
    have "edge_of (victimProjectId d) (requestingProjectId d) \<notin> set ?took"
      by (rule find_reciprocal_None [OF that(1)]) (use that(2) plain in auto)
    then show False unfolding that(4,5) using that(3) by simp
  qed
  show ?thesis
    unfolding assms(3) detectReclaimChurn_def Let_def assms(2) [symmetric]
    using some none by (cases "find_reciprocal ?took ?took") auto
qed

theorem churn_verdict_witness:
  "churning (detectReclaimChurn demo_events 30 100 2)
    \<and> reciprocal (detectReclaimChurn demo_events 30 100 2) \<noteq> None"
  using churn_verdict [OF _ refl refl, of demo_events 30 100 2] by (simp add: demo_defs)

end
