(* ===== verification/Run_Concurrency.thy ===== *)
theory Run_Concurrency
  imports Container_Pool
begin

text \<open>
  The database-backed concurrency rules of \<open>services/run-concurrency.ts\<close>, with the capacity
  arithmetic of \<open>shared/src/constants.ts\<close>, the pool reads of \<open>services/sandbox/pool-db.ts\<close> and
  the candidates \<open>services/containers.ts\<close> gives the reclaim planner.

  Tables are lists of rows and each query is the list it selects: \<open>UNION\<close> removes duplicate
  rows, a \<open>LEFT JOIN\<close> keeps an unmatched row with nulls, a comparison with a null is not true.
  Times are integers in milliseconds. What the settings store answers (the configured budget, the
  default cap, whether that cap is pinned, the monthly hours and the seconds used in the window)
  is a record of the database. Settings and caps are whole GB, so integers; sums of recorded
  allocations are rationals.
\<close>

section \<open>Tables\<close>

datatype run_status = RunQueued | RunRunning | RunFinished

datatype container_pool_state = PoolCreating | PoolIdle | PoolBusy | PoolSuspended | PoolError

record run_row =
  run_task_id :: "string option"
  run_team_id :: string
  run_member_id :: string
  run_status_of :: run_status

record task_row =
  task_row_id :: string
  task_project_id :: string

record project_row =
  project_row_id :: string
  project_team_id :: string
  project_container_id :: "string option"
  container_running :: bool
  memory_limit_gib :: "int option"

record member_row =
  pm_project_id :: string
  pm_container_id :: string
  pm_state :: container_pool_state
  pm_last_task_id :: "string option"
  pm_disk_used_bytes :: nat
  pm_disk_ceiling_bytes :: nat
  pm_memory_bytes :: "nat option"
  pm_image_version :: "string option"
  pm_has_unpushed :: bool
  pm_last_released_at :: "int option"
  pm_created_at :: int

record capacity_settings =
  maxContainerMemoryGb :: int
  defaultRamCapGb :: int
  ramCapPinned :: bool
  monthlyContainerHours :: int
  windowContainerSeconds :: rat

record hezo_db =
  heartbeat_runs :: "run_row list"
  task_rows :: "task_row list"
  project_rows :: "project_row list"
  container_pool_members :: "member_row list"
  capacity :: capacity_settings

section \<open>Capacity arithmetic\<close>

definition HOST_RESERVED_MEMORY_GB :: int where
  "HOST_RESERVED_MEMORY_GB = 1"

definition MAX_CONTAINER_MEMORY_GB_MAX :: int where
  "MAX_CONTAINER_MEMORY_GB_MAX = 4096"

definition DEFAULT_MAX_CONTAINER_MEMORY_GB :: int where
  "DEFAULT_MAX_CONTAINER_MEMORY_GB = 12"

definition CONTAINER_RECLAIM_MIN_IDLE_SEC :: int where
  "CONTAINER_RECLAIM_MIN_IDLE_SEC = 30"

definition CONTAINER_RECLAIM_MIN_AGE_SEC :: int where
  "CONTAINER_RECLAIM_MIN_AGE_SEC = 300"

text \<open>\<open>Math.round\<close>: the nearest integer, halves upwards.\<close>

definition math_round :: "rat \<Rightarrow> int" where
  "math_round x = \<lfloor>x + 1 / 2\<rfloor>"

definition bytes_gb :: "nat \<Rightarrow> rat" where
  "bytes_gb b = of_nat b / 1024 ^ 3"

definition usableMemoryGibForContainers :: "nat \<Rightarrow> nat \<Rightarrow> int" where
  "usableMemoryGibForContainers totalRamBytes totalSwapBytes =
     (let totalGib = math_round (bytes_gb (totalRamBytes + totalSwapBytes))
      in max 0 (totalGib - HOST_RESERVED_MEMORY_GB))"

definition chatContainerReservationGb :: "int \<Rightarrow> int" where
  "chatContainerReservationGb ramCapGb = max 1 ramCapGb"

definition taskContainerMemoryBudgetGb :: "int \<Rightarrow> int \<Rightarrow> int" where
  "taskContainerMemoryBudgetGb configuredGb ramCapGb = configuredGb - chatContainerReservationGb ramCapGb"

definition minTotalContainerMemoryGb :: "int \<Rightarrow> int" where
  "minTotalContainerMemoryGb ramCapGb = chatContainerReservationGb ramCapGb + max 1 ramCapGb"

definition computeDefaultMaxContainerMemoryGb :: "(nat \<times> nat) option \<Rightarrow> int \<Rightarrow> int" where
  "computeDefaultMaxContainerMemoryGb hostMemory ramCapGb = (case hostMemory of
     None \<Rightarrow> DEFAULT_MAX_CONTAINER_MEMORY_GB
   | Some (totalRamBytes, totalSwapBytes) \<Rightarrow>
       let cap = max 1 ramCapGb;
           usableGib = usableMemoryGibForContainers totalRamBytes totalSwapBytes
       in min MAX_CONTAINER_MEMORY_GB_MAX (max (minTotalContainerMemoryGb cap) usableGib))"

definition projectMemoryFitsBudget :: "int \<Rightarrow> int \<Rightarrow> bool" where
  "projectMemoryFitsBudget capGb limitGb \<longleftrightarrow> capGb \<le> limitGb"

definition containerCountsTowardBudget :: "container_pool_state \<Rightarrow> bool" where
  "containerCountsTowardBudget st \<longleftrightarrow> st = PoolCreating \<or> st = PoolIdle \<or> st = PoolBusy"

definition projectContainerFigure :: "int option \<Rightarrow> int \<Rightarrow> bool \<Rightarrow> int" where
  "projectContainerFigure override instanceFigure pinned = (case override of
     None \<Rightarrow> instanceFigure
   | Some v \<Rightarrow> if pinned then min v instanceFigure else v)"

section \<open>Runs\<close>

definition active_run :: "run_row \<Rightarrow> bool" where
  "active_run r \<longleftrightarrow> run_status_of r = RunQueued \<or> run_status_of r = RunRunning"

definition isTaskBusyInDb :: "hezo_db \<Rightarrow> string \<Rightarrow> bool" where
  "isTaskBusyInDb db taskId \<longleftrightarrow>
     filter (\<lambda>r. run_task_id r = Some taskId \<and> active_run r) (heartbeat_runs db) \<noteq> []"

text \<open>The predicate \<open>runInProjectSql\<close> writes: through the run's task, or for a run without one through its team.\<close>

definition runInProjectSql :: "hezo_db \<Rightarrow> string \<Rightarrow> run_row \<Rightarrow> bool" where
  "runInProjectSql db pid r \<longleftrightarrow>
     list_ex (\<lambda>t. run_task_id r = Some (task_row_id t) \<and> task_project_id t = pid) (task_rows db)
     \<or> (run_task_id r = None
        \<and> list_ex (\<lambda>p. project_row_id p = pid \<and> project_team_id p = run_team_id r) (project_rows db))"

definition countActiveRunsInProject :: "hezo_db \<Rightarrow> string \<Rightarrow> nat" where
  "countActiveRunsInProject db pid =
     length (filter (\<lambda>r. runInProjectSql db pid r \<and> active_run r) (heartbeat_runs db))"

definition getBusyAgentIdsInProject :: "hezo_db \<Rightarrow> string \<Rightarrow> string set" where
  "getBusyAgentIdsInProject db pid =
     set (map run_member_id (filter (\<lambda>r. runInProjectSql db pid r \<and> active_run r) (heartbeat_runs db)))"

section \<open>Memory caps\<close>

text \<open>The overrides of the given projects; absent means the project inherits the default.\<close>

definition loadProjectMemoryCaps :: "hezo_db \<Rightarrow> string set \<Rightarrow> (string \<rightharpoonup> int)" where
  "loadProjectMemoryCaps db projectIds =
     fold (\<lambda>row out. case memory_limit_gib row of
         None \<Rightarrow> out
       | Some g \<Rightarrow> out(project_row_id row \<mapsto> g))
       (filter (\<lambda>row. project_row_id row \<in> projectIds) (project_rows db)) Map.empty"

definition projectContainerMemoryGb :: "hezo_db \<Rightarrow> string \<Rightarrow> int" where
  "projectContainerMemoryGb db pid =
     projectContainerFigure
       (case filter (\<lambda>row. project_row_id row = pid) (project_rows db) of
          [] \<Rightarrow> None
        | row # _ \<Rightarrow> memory_limit_gib row)
       (defaultRamCapGb (capacity db)) (ramCapPinned (capacity db))"

definition sumProjectContainerMemoryGb :: "hezo_db \<Rightarrow> string list \<Rightarrow> int" where
  "sumProjectContainerMemoryGb db projectIds =
     (if length projectIds = 0 then 0
      else
        let overrides = loadProjectMemoryCaps db (set projectIds);
            fallback = defaultRamCapGb (capacity db);
            pinned = ramCapPinned (capacity db)
        in fold (\<lambda>i total. total + projectContainerFigure (overrides i) fallback pinned) projectIds 0)"

text \<open>What a container row is charged: its recorded allocation, else its project's cap.\<close>

definition charged_gb :: "(string \<rightharpoonup> int) \<Rightarrow> hezo_db \<Rightarrow> string \<Rightarrow> nat option \<Rightarrow> rat" where
  "charged_gb overrides db pid memory_bytes = (case memory_bytes of
     None \<Rightarrow> of_int (projectContainerFigure (overrides pid) (defaultRamCapGb (capacity db)) (ramCapPinned (capacity db)))
   | Some b \<Rightarrow> bytes_gb b)"

definition hoursQuotaExhausted :: "hezo_db \<Rightarrow> bool" where
  "hoursQuotaExhausted db =
     (let capHours = monthlyContainerHours (capacity db)
      in if capHours \<le> 0 then False else windowContainerSeconds (capacity db) \<ge> of_int capHours * 3600)"

section \<open>The capacity gate\<close>

definition running_containers :: "hezo_db \<Rightarrow> (string \<times> string) list" where
  "running_containers db = remdups
     (concat (map (\<lambda>p. case project_container_id p of
         Some c \<Rightarrow> if container_running p then [(project_row_id p, c)] else []
       | None \<Rightarrow> []) (project_rows db))
      @ map (\<lambda>m. (pm_project_id m, pm_container_id m))
          (filter (\<lambda>m. pm_state m = PoolCreating \<or> pm_state m = PoolIdle \<or> pm_state m = PoolBusy)
             (container_pool_members db)))"

definition running_rows :: "hezo_db \<Rightarrow> (string \<times> nat option) list" where
  "running_rows db = concat (map (\<lambda>(pid, cid).
     (case filter (\<lambda>m. pm_container_id m = cid) (container_pool_members db) of
        [] \<Rightarrow> [(pid, None)]
      | ms \<Rightarrow> map (\<lambda>m. (pid, pm_memory_bytes m)) ms)) (running_containers db))"

definition spare_projects :: "hezo_db \<Rightarrow> string set" where
  "spare_projects db =
     set (map pm_project_id (filter (\<lambda>m. pm_state m = PoolIdle \<and> pm_disk_used_bytes m < pm_disk_ceiling_bytes m)
        (container_pool_members db)))
     \<union> set (map project_row_id (filter (\<lambda>p. container_running p
          \<and> \<not> list_ex (\<lambda>m. pm_project_id m = project_row_id p) (container_pool_members db)) (project_rows db)))"

definition reclaimable_members :: "hezo_db \<Rightarrow> int \<Rightarrow> member_row list" where
  "reclaimable_members db now = filter (\<lambda>m. pm_state m = PoolIdle
     \<and> (case pm_last_released_at m of
          None \<Rightarrow> False
        | Some t \<Rightarrow> t \<le> now - CONTAINER_RECLAIM_MIN_IDLE_SEC * 1000)
     \<and> pm_created_at m \<le> now - CONTAINER_RECLAIM_MIN_AGE_SEC * 1000) (container_pool_members db)"

text \<open>\<open>Map.set(id, (get(id) ?? 0) + gb)\<close> on a map in insertion order.\<close>

fun add_gb :: "string \<Rightarrow> rat \<Rightarrow> (string \<times> rat) list \<Rightarrow> (string \<times> rat) list" where
  "add_gb i gb [] = [(i, gb)]"
| "add_gb i gb ((j, x) # rest) = (if i = j then (j, x + gb) # rest else (j, x) # add_gb i gb rest)"

record ActiveContainers =
  active_budgetGb :: rat
  totalBudgetGb :: rat
  active_usedMemoryGb :: rat
  projectsWithSpareContainer :: "string set"
  reclaimableMemoryGbByProject :: "(string \<times> rat) list"
  hoursExhausted :: bool

definition reclaimableForOthers :: "ActiveContainers \<Rightarrow> string option \<Rightarrow> rat" where
  "reclaimableForOthers active pid =
     fold (\<lambda>(i, gb) total. if Some i \<noteq> pid then total + gb else total) (reclaimableMemoryGbByProject active) 0"

definition getActiveContainers :: "hezo_db \<Rightarrow> int \<Rightarrow> ActiveContainers" where
  "getActiveContainers db now =
     (let configuredBudgetGb = maxContainerMemoryGb (capacity db);
          defaultCapGb = defaultRamCapGb (capacity db);
          running = running_rows db;
          reclaimable = reclaimable_members db now;
          overrides = loadProjectMemoryCaps db (set (map fst running) \<union> set (map pm_project_id reclaimable))
      in \<lparr>active_budgetGb = of_int (taskContainerMemoryBudgetGb configuredBudgetGb defaultCapGb),
          totalBudgetGb = of_int configuredBudgetGb,
          active_usedMemoryGb = fold (\<lambda>(pid, b) total. total + charged_gb overrides db pid b) running 0,
          projectsWithSpareContainer = spare_projects db,
          reclaimableMemoryGbByProject =
            fold (\<lambda>m acc. add_gb (pm_project_id m) (charged_gb overrides db (pm_project_id m) (pm_memory_bytes m)) acc)
              reclaimable [],
          hoursExhausted = hoursQuotaExhausted db\<rparr>)"

record CapacityVerdict =
  blocked :: bool
  verdict_hoursExhausted :: bool

definition containerCapacityVerdictInDb :: "hezo_db \<Rightarrow> int \<Rightarrow> string \<Rightarrow> CapacityVerdict" where
  "containerCapacityVerdictInDb db now pid =
     (let active = getActiveContainers db now
      in if pid \<in> projectsWithSpareContainer active then \<lparr>blocked = False, verdict_hoursExhausted = False\<rparr>
      else if hoursExhausted active then \<lparr>blocked = True, verdict_hoursExhausted = True\<rparr>
      else
        let headroomGb = active_budgetGb active + reclaimableForOthers active (Some pid)
        in \<lparr>blocked = (active_usedMemoryGb active + of_int (projectContainerMemoryGb db pid) > headroomGb),
            verdict_hoursExhausted = False\<rparr>)"

definition isContainerCapacityBlockedInDb :: "hezo_db \<Rightarrow> int \<Rightarrow> string \<Rightarrow> bool" where
  "isContainerCapacityBlockedInDb db now pid = blocked (containerCapacityVerdictInDb db now pid)"

section \<open>What the pool and the reclaim read\<close>

text \<open>The members the ladder sees; the query's creation order is a stable sort.\<close>

definition ladder_state :: "container_pool_state \<Rightarrow> PoolMemberState option" where
  "ladder_state st = (case st of PoolIdle \<Rightarrow> Some Idle | PoolBusy \<Rightarrow> Some Busy | PoolSuspended \<Rightarrow> Some Suspended | _ \<Rightarrow> None)"

definition to_pool_member :: "member_row \<Rightarrow> PoolMemberState \<Rightarrow> PoolMember" where
  "to_pool_member m st = \<lparr>member_id = pm_container_id m, state = st, lastTaskId = pm_last_task_id m,
     hasUnpushedCommits = pm_has_unpushed m, atDiskCeiling = (pm_disk_used_bytes m \<ge> pm_disk_ceiling_bytes m),
     memoryBytes = pm_memory_bytes m, imageVersion = pm_image_version m\<rparr>"

definition loadPoolMembers :: "hezo_db \<Rightarrow> string \<Rightarrow> PoolMember list" where
  "loadPoolMembers db pid =
     concat (map (\<lambda>m. case ladder_state (pm_state m) of None \<Rightarrow> [] | Some st \<Rightarrow> [to_pool_member m st])
       (sort_by (\<lambda>a b. pm_created_at a - pm_created_at b)
         (filter (\<lambda>m. pm_project_id m = pid) (container_pool_members db))))"

definition decidePoolAcquisition ::
  "hezo_db \<Rightarrow> string \<Rightarrow> string option \<Rightarrow> PoolCapacity \<Rightarrow> nat \<Rightarrow> string \<Rightarrow> PoolDecision" where
  "decidePoolAcquisition db pid taskId cap requiredMemoryBytes requiredImageVersion =
     selectPoolMember taskId (loadPoolMembers db pid) cap requiredMemoryBytes requiredImageVersion"

definition project_resumable :: "hezo_db \<Rightarrow> string \<Rightarrow> nat" where
  "project_resumable db p = length (filter (\<lambda>s. pm_project_id s = p
     \<and> (pm_state s = PoolIdle \<or> pm_state s = PoolBusy \<or> pm_state s = PoolSuspended)) (container_pool_members db))"

text \<open>
  The deciding half of \<open>attemptAcquire\<close> in \<open>acquireRunContainer\<close>: what is thrown, or the rung
  the pool acts on. Caps are at least 1 GB, so \<open>memoryLimitBytes\<close> is a byte count.
\<close>

datatype ContainerWorkload = TaskRun | ChatTurn

datatype acquire_error = PoolCapacityError string | PoolHoursExhaustedError string

definition memoryLimitBytes :: "int \<Rightarrow> nat" where
  "memoryLimitBytes gib = nat (gib * 1024 ^ 3)"

definition attempt_decision ::
  "hezo_db \<Rightarrow> int \<Rightarrow> string \<Rightarrow> string option \<Rightarrow> ContainerWorkload \<Rightarrow> string \<Rightarrow> acquire_error + PoolDecision" where
  "attempt_decision db now pid taskId workload agentImage =
     (let active = getActiveContainers db now;
          request = projectContainerMemoryGb db pid;
          decision = decidePoolAcquisition db pid taskId
            \<lparr>usedMemoryGb = active_usedMemoryGb active,
             budgetGb = (if workload = TaskRun then active_budgetGb active else totalBudgetGb active),
             requestMemoryGb = of_int request,
             reclaimableMemoryGb = reclaimableForOthers active (Some pid)\<rparr>
            (memoryLimitBytes request) agentImage
      in case decision of
           Queue \<Rightarrow> Inl (PoolCapacityError pid)
         | Create \<Rightarrow> if hoursExhausted active then Inl (PoolHoursExhaustedError pid) else Inr decision
         | Resume m \<Rightarrow> if hoursExhausted active then Inl (PoolHoursExhaustedError pid) else Inr decision
         | Reclaim need \<Rightarrow> if hoursExhausted active then Inl (PoolHoursExhaustedError pid) else Inr decision
         | _ \<Rightarrow> Inr decision)"

text \<open>
  The candidates of \<open>reclaimIdleCapacityForProject\<close>: idle members of other projects. A member
  never released has a null idle time, which \<open>Number(null)\<close> reads as 0, and sorts last.
\<close>

definition by_last_released :: "member_row \<Rightarrow> member_row \<Rightarrow> int" where
  "by_last_released a b = (case (pm_last_released_at a, pm_last_released_at b) of
     (Some s, Some t) \<Rightarrow> s - t
   | (None, Some t) \<Rightarrow> 1
   | (Some s, None) \<Rightarrow> - 1
   | (None, None) \<Rightarrow> 0)"

definition reclaim_candidates :: "hezo_db \<Rightarrow> int \<Rightarrow> string \<Rightarrow> ReclaimCandidate list" where
  "reclaim_candidates db now requesting = map (\<lambda>m.
     \<lparr>containerId = pm_container_id m, projectId = pm_project_id m,
      memoryGb = (case pm_memory_bytes m of
          None \<Rightarrow> of_int (projectContainerMemoryGb db (pm_project_id m))
        | Some b \<Rightarrow> bytes_gb b),
      idleForMs = (case pm_last_released_at m of None \<Rightarrow> 0 | Some t \<Rightarrow> now - t),
      ageMs = Some (now - pm_created_at m),
      projectResumableMembers = project_resumable db (pm_project_id m),
      unpushed = pm_has_unpushed m\<rparr>)
     (sort_by by_last_released
       (filter (\<lambda>m. pm_state m = PoolIdle \<and> pm_project_id m \<noteq> requesting
          \<and> list_ex (\<lambda>p. project_row_id p = pm_project_id m) (project_rows db)) (container_pool_members db)))"

text \<open>The plan \<open>reclaimIdleCapacityForProject\<close> then executes.\<close>

definition reclaim_plan :: "(string \<Rightarrow> string \<Rightarrow> int) \<Rightarrow> hezo_db \<Rightarrow> int \<Rightarrow> string \<Rightarrow> rat \<Rightarrow> ReclaimPlan" where
  "reclaim_plan localeCompare db now requesting needGb =
     planCrossProjectReclaim localeCompare (reclaim_candidates db now requesting) needGb
       (CONTAINER_RECLAIM_MIN_IDLE_SEC * 1000) (CONTAINER_RECLAIM_MIN_AGE_SEC * 1000)"

section \<open>The constraints of the schema\<close>

text \<open>
  Primary key of the projects, unique container ids, the foreign key from a member to its project,
  the check on the override column and the clamp on the default cap.
\<close>

definition db_ok :: "hezo_db \<Rightarrow> bool" where
  "db_ok db \<longleftrightarrow> distinct (map project_row_id (project_rows db))
     \<and> distinct (map pm_container_id (container_pool_members db))
     \<and> (\<forall>m \<in> set (container_pool_members db). \<exists>p \<in> set (project_rows db). project_row_id p = pm_project_id m)
     \<and> (\<forall>p \<in> set (project_rows db). \<forall>g. memory_limit_gib p = Some g \<longrightarrow> 1 \<le> g)
     \<and> 1 \<le> defaultRamCapGb (capacity db)"

lemma caps_fold_other:
  "pid \<notin> project_row_id ` set rows \<Longrightarrow>
   fold (\<lambda>row out. case memory_limit_gib row of None \<Rightarrow> out | Some g \<Rightarrow> out(project_row_id row \<mapsto> g)) rows M pid = M pid"
  by (induction rows arbitrary: M) (auto split: option.splits)

lemma caps_fold:
  "distinct (map project_row_id rows) \<Longrightarrow>
   fold (\<lambda>row out. case memory_limit_gib row of None \<Rightarrow> out | Some g \<Rightarrow> out(project_row_id row \<mapsto> g)) rows Map.empty pid
   = (case filter (\<lambda>row. project_row_id row = pid) rows of [] \<Rightarrow> None | row # _ \<Rightarrow> memory_limit_gib row)"
proof (induction rows rule: rev_induct)
  case Nil
  then show ?case by simp
next
  case (snoc r rows)
  show ?case
  proof (cases "project_row_id r = pid")
    case True
    then have notin: "pid \<notin> project_row_id ` set rows" using snoc.prems by auto
    then have "filter (\<lambda>row. project_row_id row = pid) rows = []" by (auto simp: filter_empty_conv)
    with notin show ?thesis using True caps_fold_other [of pid rows Map.empty] by (auto split: option.splits)
  next
    case False
    then show ?thesis using snoc by (auto split: option.splits)
  qed
qed

lemma override_is_cap:
  assumes "db_ok db" "pid \<in> ids"
  shows "projectContainerFigure (loadProjectMemoryCaps db ids pid) (defaultRamCapGb (capacity db)) (ramCapPinned (capacity db))
       = projectContainerMemoryGb db pid"
proof -
  let ?rows = "filter (\<lambda>row. project_row_id row \<in> ids) (project_rows db)"
  have "distinct (map project_row_id ?rows)" using assms(1) by (simp add: db_ok_def distinct_map_filter)
  moreover have "filter (\<lambda>row. project_row_id row = pid) ?rows = filter (\<lambda>row. project_row_id row = pid) (project_rows db)"
    using assms(2) by (auto intro: filter_cong)
  ultimately show ?thesis by (simp add: loadProjectMemoryCaps_def projectContainerMemoryGb_def caps_fold)
qed

text \<open>What one member is charged, whichever of the two readings asks.\<close>

definition member_gb :: "hezo_db \<Rightarrow> member_row \<Rightarrow> rat" where
  "member_gb db m = (case pm_memory_bytes m of
     None \<Rightarrow> of_int (projectContainerMemoryGb db (pm_project_id m))
   | Some b \<Rightarrow> bytes_gb b)"

lemma charged_member:
  "db_ok db \<Longrightarrow> pm_project_id m \<in> ids \<Longrightarrow>
   charged_gb (loadProjectMemoryCaps db ids) db (pm_project_id m) (pm_memory_bytes m) = member_gb db m"
  by (simp add: charged_gb_def member_gb_def override_is_cap split: option.splits)

section \<open>The map of reclaimable memory\<close>

definition others_gb :: "string option \<Rightarrow> (string \<times> rat) list \<Rightarrow> rat" where
  "others_gb who xs = sum_list (map snd (filter (\<lambda>(i, _). Some i \<noteq> who) xs))"

lemma reclaimableForOthers_sum: "reclaimableForOthers a who = others_gb who (reclaimableMemoryGbByProject a)"
proof -
  have "fold (\<lambda>(i, gb) total. if Some i \<noteq> who then total + gb else total) xs t = t + others_gb who xs" for xs t
    by (induction xs arbitrary: t) (auto simp: others_gb_def)
  then show ?thesis by (simp add: reclaimableForOthers_def)
qed

lemma others_add_gb: "others_gb who (add_gb i gb xs) = others_gb who xs + (if Some i \<noteq> who then gb else 0)"
  by (induction i gb xs rule: add_gb.induct) (auto simp: others_gb_def)

lemma others_fold:
  "others_gb who (fold (\<lambda>m acc. add_gb (f m) (g m) acc) ms acc)
   = others_gb who acc + sum_list (map g (filter (\<lambda>m. Some (f m) \<noteq> who) ms))"
  by (induction ms arbitrary: acc) (auto simp: others_add_gb)

lemma reclaimable_promise:
  assumes "db_ok db"
  shows "reclaimableForOthers (getActiveContainers db now) (Some pid)
       = sum_list (map (member_gb db) (filter (\<lambda>m. pm_project_id m \<noteq> pid) (reclaimable_members db now)))"
proof -
  let ?ms = "reclaimable_members db now"
  let ?caps = "loadProjectMemoryCaps db (set (map fst (running_rows db)) \<union> set (map pm_project_id ?ms))"
  have "reclaimableForOthers (getActiveContainers db now) (Some pid)
      = sum_list (map (\<lambda>m. charged_gb ?caps db (pm_project_id m) (pm_memory_bytes m))
          (filter (\<lambda>m. pm_project_id m \<noteq> pid) ?ms))"
    by (simp only: reclaimableForOthers_sum getActiveContainers_def Let_def others_fold ActiveContainers.simps)
      (simp add: others_gb_def)
  also have "\<dots> = sum_list (map (member_gb db) (filter (\<lambda>m. pm_project_id m \<noteq> pid) ?ms))"
    using charged_member [OF assms] by (intro arg_cong [where f = sum_list] map_cong) auto
  finally show ?thesis .
qed

lemma eligible_promise:
  assumes "db_ok db"
  shows "sum_list (map memoryGb (filter (reclaim_eligible (CONTAINER_RECLAIM_MIN_IDLE_SEC * 1000) (CONTAINER_RECLAIM_MIN_AGE_SEC * 1000))
           (reclaim_candidates db now pid)))
       = sum_list (map (member_gb db) (filter (\<lambda>m. pm_project_id m \<noteq> pid) (reclaimable_members db now)))"
proof -
  let ?f = "\<lambda>m. pm_state m = PoolIdle \<and> pm_project_id m \<noteq> pid
      \<and> list_ex (\<lambda>p. project_row_id p = pm_project_id m) (project_rows db)"
  let ?old = "\<lambda>m. (case pm_last_released_at m of None \<Rightarrow> False | Some t \<Rightarrow> t \<le> now - CONTAINER_RECLAIM_MIN_IDLE_SEC * 1000)
      \<and> pm_created_at m \<le> now - CONTAINER_RECLAIM_MIN_AGE_SEC * 1000"
  let ?ms = "container_pool_members db"
  have "sum_list (map memoryGb (filter (reclaim_eligible (CONTAINER_RECLAIM_MIN_IDLE_SEC * 1000) (CONTAINER_RECLAIM_MIN_AGE_SEC * 1000))
           (reclaim_candidates db now pid)))
      = sum_list (map (member_gb db) (filter ?old (sort_by by_last_released (filter ?f ?ms))))"
    by (auto simp: reclaim_candidates_def filter_map comp_def reclaim_eligible_def member_gb_def
        CONTAINER_RECLAIM_MIN_IDLE_SEC_def CONTAINER_RECLAIM_MIN_AGE_SEC_def
        intro!: arg_cong [where f = sum_list] map_cong filter_cong split: option.splits)
  also have "\<dots> = sum_list (map (member_gb db) (filter ?old (filter ?f ?ms)))"
    by (simp flip: sum_mset_sum_list add: mset_sort_by del: filter_filter)
  also have "filter ?old (filter ?f ?ms) = filter (\<lambda>m. pm_project_id m \<noteq> pid) (reclaimable_members db now)"
    using assms by (auto simp: reclaimable_members_def db_ok_def list_ex_iff intro!: filter_cong)
  finally show ?thesis .
qed

section \<open>What is running\<close>

lemma remdups_covered: "set xs \<subseteq> set ys \<Longrightarrow> distinct ys \<Longrightarrow> remdups (xs @ ys) = ys"
  by (induction xs) (auto simp: distinct_remdups_id)

lemma distinct_map_unique: "distinct (map f xs) \<Longrightarrow> x \<in> set xs \<Longrightarrow> filter (\<lambda>y. f y = f x) xs = [x]"
  by (induction xs) (auto simp: filter_empty_conv rev_image_eqI)

text \<open>A project's own container, where one is running, is one the pool also counts for it.\<close>

definition containers_pooled :: "hezo_db \<Rightarrow> bool" where
  "containers_pooled db \<longleftrightarrow> (\<forall>p \<in> set (project_rows db). \<forall>c. project_container_id p = Some c \<longrightarrow> container_running p \<longrightarrow>
     (\<exists>m \<in> set (container_pool_members db). pm_project_id m = project_row_id p \<and> pm_container_id m = c
        \<and> containerCountsTowardBudget (pm_state m)))"

definition counted_members :: "hezo_db \<Rightarrow> member_row list" where
  "counted_members db = filter (\<lambda>m. containerCountsTowardBudget (pm_state m)) (container_pool_members db)"

lemma legacy_pooled:
  "containers_pooled db \<Longrightarrow> p \<in> set (project_rows db) \<Longrightarrow> project_container_id p = Some c \<Longrightarrow> container_running p \<Longrightarrow>
   (project_row_id p, c) \<in> set (map (\<lambda>m. (pm_project_id m, pm_container_id m)) (counted_members db))"
  by (fastforce simp: containers_pooled_def counted_members_def intro: rev_image_eqI)

lemma running_pooled:
  assumes "db_ok db" "containers_pooled db"
  shows "running_containers db = map (\<lambda>m. (pm_project_id m, pm_container_id m)) (counted_members db)"
proof -
  have "distinct (map pm_container_id (counted_members db))"
    using assms(1) by (simp add: db_ok_def counted_members_def distinct_map_filter)
  then have "distinct (map (\<lambda>m. (pm_project_id m, pm_container_id m)) (counted_members db))"
    by (auto simp: distinct_map inj_on_def)
  moreover have "filter (\<lambda>m. pm_state m = PoolCreating \<or> pm_state m = PoolIdle \<or> pm_state m = PoolBusy)
      (container_pool_members db) = counted_members db"
    by (simp add: counted_members_def containerCountsTowardBudget_def)
  ultimately show ?thesis
    unfolding running_containers_def using legacy_pooled [OF assms(2)]
    by (simp only:, intro remdups_covered) (auto split: option.splits if_splits)
qed

lemma running_rows_pooled:
  assumes "db_ok db" "containers_pooled db"
  shows "running_rows db = map (\<lambda>m. (pm_project_id m, pm_memory_bytes m)) (counted_members db)"
proof -
  have "concat (map (\<lambda>m. case filter (\<lambda>n. pm_container_id n = pm_container_id m) (container_pool_members db) of
        [] \<Rightarrow> [(pm_project_id m, None)]
      | ms \<Rightarrow> map (\<lambda>n. (pm_project_id m, pm_memory_bytes n)) ms) ms)
    = map (\<lambda>m. (pm_project_id m, pm_memory_bytes m)) ms" if "set ms \<subseteq> set (container_pool_members db)" for ms
    using that assms(1) by (induction ms) (auto simp: db_ok_def distinct_map_unique)
  from this [of "counted_members db"] show ?thesis
    by (simp add: running_rows_def running_pooled [OF assms] comp_def counted_members_def)
qed

lemma fold_add: "fold (\<lambda>x t. t + f x) xs t = t + sum_list (map f xs)" for t :: "'a :: ab_group_add"
  by (induction xs arbitrary: t) (auto simp: add.assoc)

lemma used_counted:
  assumes "db_ok db" "containers_pooled db"
  shows "active_usedMemoryGb (getActiveContainers db now) = sum_list (map (member_gb db) (counted_members db))"
proof -
  let ?ids = "set (map fst (running_rows db)) \<union> set (map pm_project_id (reclaimable_members db now))"
  have "active_usedMemoryGb (getActiveContainers db now)
      = sum_list (map (\<lambda>(pid, b). charged_gb (loadProjectMemoryCaps db ?ids) db pid b) (running_rows db))"
    by (simp add: getActiveContainers_def Let_def fold_add case_prod_unfold)
  also have "\<dots> = sum_list (map (\<lambda>m. charged_gb (loadProjectMemoryCaps db ?ids) db (pm_project_id m) (pm_memory_bytes m)) (counted_members db))"
    by (simp add: running_rows_pooled [OF assms] comp_def)
  also have "\<dots> = sum_list (map (member_gb db) (counted_members db))"
    using charged_member [OF assms(1)]
    by (intro arg_cong [where f = sum_list] map_cong) (auto simp: running_rows_pooled [OF assms])
  finally show ?thesis .
qed

section \<open>The ladder behind the gate\<close>

lemma loadPoolMembers_row:
  assumes "x \<in> set (loadPoolMembers db pid)"
  shows "\<exists>m st. m \<in> set (container_pool_members db) \<and> pm_project_id m = pid
     \<and> ladder_state (pm_state m) = Some st \<and> x = to_pool_member m st"
proof -
  have "set (sort_by c xs) = set xs" for c and xs :: "member_row list" by (metis mset_sort_by set_mset_mset)
  then show ?thesis using assms by (auto simp: loadPoolMembers_def split: option.splits) metis
qed

lemma ladder_idle: "ladder_state st = Some Idle \<longleftrightarrow> st = PoolIdle"
  by (cases st) (simp_all add: ladder_state_def)

lemma not_spare_no_warm:
  assumes "pid \<notin> spare_projects db" "x \<in> set (loadPoolMembers db pid)" "state x = Idle"
  shows "\<not> usable x"
proof -
  obtain m st where m: "m \<in> set (container_pool_members db)" "pm_project_id m = pid"
    "ladder_state (pm_state m) = Some st" "x = to_pool_member m st"
    using loadPoolMembers_row [OF assms(2)] by blast
  then have "pm_state m = PoolIdle" using assms(3) ladder_idle by (auto simp: to_pool_member_def)
  then have "\<not> pm_disk_used_bytes m < pm_disk_ceiling_bytes m" using assms(1) m(1,2) by (auto simp: spare_projects_def)
  then show ?thesis using m(4) by (simp add: usable_def to_pool_member_def)
qed

lemma select_without_warm:
  assumes "\<And>x. x \<in> set members \<Longrightarrow> state x = Idle \<Longrightarrow> \<not> usable x"
    and "mismatched_of mem img members = []"
  shows "(selectPoolMember taskId members cap mem img = Queue \<longleftrightarrow>
      budgetGb cap + reclaimableMemoryGb cap < usedMemoryGb cap + requestMemoryGb cap \<and> \<not> fitsBudget cap)
    \<and> (\<forall>m. selectPoolMember taskId members cap mem img \<noteq> Reuse m)
    \<and> (\<forall>ms. selectPoolMember taskId members cap mem img \<noteq> Recycle ms)"
proof -
  have "find (\<lambda>m. state m = Idle \<and> Q m) (filter (\<lambda>m. usable m \<and> \<not> outdated mem img m) members) = None" for Q
    using assms(1) by (auto simp: find_None_iff)
  note none = this this [of "\<lambda>_. True", simplified]
  have "selectPoolMember taskId members cap mem img =
      (if fitsBudget cap
       then (case find (\<lambda>m. state m = Suspended) (filter (\<lambda>m. usable m \<and> \<not> outdated mem img m) members) of
               Some m \<Rightarrow> Resume m | None \<Rightarrow> Create)
       else if usedMemoryGb cap + requestMemoryGb cap - budgetGb cap \<le> reclaimableMemoryGb cap
       then Reclaim (usedMemoryGb cap + requestMemoryGb cap - budgetGb cap) else Queue)"
    using assms(2) unfolding selectPoolMember_def mismatched_of_def
    by (cases taskId) (simp_all add: Let_def none split: option.split)
  then show ?thesis by (auto split: option.splits)
qed

lemma select_reclaim:
  "selectPoolMember taskId members cap mem img = Reclaim need \<Longrightarrow>
   need = usedMemoryGb cap + requestMemoryGb cap - budgetGb cap \<and> 0 < need \<and> need \<le> reclaimableMemoryGb cap"
  by (auto simp: selectPoolMember_def Let_def fitsBudget_def split: if_splits option.splits bool.splits)

lemma select_starts:
  "selectPoolMember taskId members cap mem img = d \<Longrightarrow> d = Create \<or> (\<exists>m. d = Resume m) \<Longrightarrow> fitsBudget cap"
  by (auto simp: selectPoolMember_def Let_def split: if_splits option.splits bool.splits)

text \<open>The capacity figures an attempt passes down.\<close>

definition attempt_capacity :: "hezo_db \<Rightarrow> int \<Rightarrow> string \<Rightarrow> ContainerWorkload \<Rightarrow> PoolCapacity" where
  "attempt_capacity db now pid workload =
     (let active = getActiveContainers db now
      in \<lparr>usedMemoryGb = active_usedMemoryGb active,
          budgetGb = (if workload = TaskRun then active_budgetGb active else totalBudgetGb active),
          requestMemoryGb = of_int (projectContainerMemoryGb db pid),
          reclaimableMemoryGb = reclaimableForOthers active (Some pid)\<rparr>)"

lemma attempt_decision_select:
  "attempt_decision db now pid taskId workload img =
     (case selectPoolMember taskId (loadPoolMembers db pid) (attempt_capacity db now pid workload)
             (memoryLimitBytes (projectContainerMemoryGb db pid)) img of
        Queue \<Rightarrow> Inl (PoolCapacityError pid)
      | Reuse m \<Rightarrow> Inr (Reuse m)
      | Recycle ms \<Rightarrow> Inr (Recycle ms)
      | d \<Rightarrow> if hoursExhausted (getActiveContainers db now) then Inl (PoolHoursExhaustedError pid) else Inr d)"
  by (simp add: attempt_decision_def attempt_capacity_def decidePoolAcquisition_def Let_def split: PoolDecision.split)

lemma attempt_InrD:
  "attempt_decision db now pid taskId workload img = Inr d \<Longrightarrow>
   selectPoolMember taskId (loadPoolMembers db pid) (attempt_capacity db now pid workload)
     (memoryLimitBytes (projectContainerMemoryGb db pid)) img = d"
  by (auto simp: attempt_decision_select split: PoolDecision.splits if_splits)

lemma cap_positive: "db_ok db \<Longrightarrow> 1 \<le> projectContainerMemoryGb db pid"
  by (auto simp: db_ok_def projectContainerMemoryGb_def projectContainerFigure_def filter_eq_Cons_iff
      split: option.splits list.splits)

lemma member_gb_nonneg: "db_ok db \<Longrightarrow> 0 \<le> member_gb db m"
  using cap_positive [of db "pm_project_id m"] by (auto simp: member_gb_def bytes_gb_def split: option.splits)

lemma reclaimable_nonneg: "db_ok db \<Longrightarrow> 0 \<le> reclaimableForOthers (getActiveContainers db now) (Some pid)"
  by (auto simp: reclaimable_promise member_gb_nonneg intro!: sum_list_nonneg)

section \<open>A small instance\<close>

definition demo_idle :: "string \<Rightarrow> string \<Rightarrow> bool \<Rightarrow> member_row" where
  "demo_idle pid cid dirty = \<lparr>pm_project_id = pid, pm_container_id = cid, pm_state = PoolIdle, pm_last_task_id = None,
     pm_disk_used_bytes = 0, pm_disk_ceiling_bytes = 10, pm_memory_bytes = Some (2 * 1024 ^ 3),
     pm_image_version = Some ''old'', pm_has_unpushed = dirty, pm_last_released_at = Some 0, pm_created_at = 0\<rparr>"

definition demo_project :: "string \<Rightarrow> project_row" where
  "demo_project pid = \<lparr>project_row_id = pid, project_team_id = ''t'' @ pid, project_container_id = None,
     container_running = False, memory_limit_gib = None\<rparr>"

definition demo_db :: "member_row list \<Rightarrow> hezo_db" where
  "demo_db ms = \<lparr>heartbeat_runs = [], task_rows = [], project_rows = [demo_project ''A'', demo_project ''B''],
     container_pool_members = ms,
     capacity = \<lparr>maxContainerMemoryGb = 4, defaultRamCapGb = 2, ramCapPinned = False,
       monthlyContainerHours = 0, windowContainerSeconds = 0\<rparr>\<rparr>"

lemmas demo_db_defs = demo_idle_def demo_project_def demo_db_def

lemmas gate_defs = getActiveContainers_def running_rows_def running_containers_def reclaimable_members_def
  spare_projects_def reclaimableForOthers_def hoursQuotaExhausted_def taskContainerMemoryBudgetGb_def
  chatContainerReservationGb_def projectContainerMemoryGb_def projectContainerFigure_def charged_gb_def bytes_gb_def
  CONTAINER_RECLAIM_MIN_IDLE_SEC_def CONTAINER_RECLAIM_MIN_AGE_SEC_def

section \<open>Properties\<close>

text \<open>
  (Lemma) The gate and the acquire agree. For a project with no spare container and no member to
  recycle, the dispatch gate reports the instance blocked exactly when an attempt to take a
  container for a task run throws; where members must be recycled first, the attempt recycles all
  of them.
\<close>

theorem gate_agrees:
  assumes "db_ok db" and "pid \<notin> spare_projects db"
    and "stale = mismatched_of (memoryLimitBytes (projectContainerMemoryGb db pid)) img (loadPoolMembers db pid)"
  shows "if stale = [] then
      isContainerCapacityBlockedInDb db now pid \<longleftrightarrow> isl (attempt_decision db now pid taskId TaskRun img)
    else attempt_decision db now pid taskId TaskRun img = Inr (Recycle stale)"
proof (cases "stale = []")
  case True
  note select = select_without_warm [OF not_spare_no_warm [OF assms(2)] True [unfolded assms(3)],
      of taskId "attempt_capacity db now pid TaskRun"]
  have "\<not> fitsBudget (attempt_capacity db now pid TaskRun)"
    if "budgetGb (attempt_capacity db now pid TaskRun) + reclaimableMemoryGb (attempt_capacity db now pid TaskRun)
        < usedMemoryGb (attempt_capacity db now pid TaskRun) + requestMemoryGb (attempt_capacity db now pid TaskRun)"
    using that reclaimable_nonneg [OF assms(1), of now pid] by (auto simp: fitsBudget_def attempt_capacity_def Let_def)
  then have "isl (attempt_decision db now pid taskId TaskRun img) \<longleftrightarrow>
      hoursExhausted (getActiveContainers db now)
      \<or> budgetGb (attempt_capacity db now pid TaskRun) + reclaimableMemoryGb (attempt_capacity db now pid TaskRun)
        < usedMemoryGb (attempt_capacity db now pid TaskRun) + requestMemoryGb (attempt_capacity db now pid TaskRun)"
    using select by (auto simp: attempt_decision_select split: PoolDecision.splits)
  moreover have "projectsWithSpareContainer (getActiveContainers db now) = spare_projects db"
    by (simp add: getActiveContainers_def Let_def)
  ultimately show ?thesis
    using True assms(2)
    by (auto simp: isContainerCapacityBlockedInDb_def containerCapacityVerdictInDb_def attempt_capacity_def Let_def)
next
  case False
  then show ?thesis
    by (auto simp: attempt_decision_select selectPoolMember_def mismatched_of_def assms(3) Let_def)
qed

theorem gate_agrees_witness:
  "\<not> isl (attempt_decision (demo_db [demo_idle ''B'' ''c'' False]) 1000000 ''A'' None TaskRun ''old'')"
  using gate_agrees [where db = "demo_db [demo_idle ''B'' ''c'' False]" and pid = "''A''" and img = "''old''"
      and now = 1000000 and taskId = None, OF _ _ refl]
  by (simp add: demo_db_defs db_ok_def gate_defs mismatched_of_def loadPoolMembers_def sort_by_def
      isContainerCapacityBlockedInDb_def containerCapacityVerdictInDb_def Let_def)

text \<open>
  (C8) The promise the gate makes is one the planner keeps. When an attempt decides to reclaim
  \<open>need\<close> GB, the plan drawn from the same rows frees at least that much, so that the request then
  fits the budget it was measured against; everything it takes is an idle container of another
  project; and what the gate offered as reclaimable is exactly what the planner may take.
\<close>

theorem reclaim_promise_kept:
  assumes "db_ok db" and "attempt_decision db now pid taskId workload img = Inr (Reclaim need)"
  shows "need \<le> freedGb (reclaim_plan lc db now pid need)
    \<and> usedMemoryGb (attempt_capacity db now pid workload) - freedGb (reclaim_plan lc db now pid need)
        + of_int (projectContainerMemoryGb db pid) \<le> budgetGb (attempt_capacity db now pid workload)
    \<and> (\<forall>c \<in> set (plan_suspend (reclaim_plan lc db now pid need) @ plan_destroy (reclaim_plan lc db now pid need)).
         \<exists>m \<in> set (container_pool_members db). pm_container_id m = containerId c \<and> pm_state m = PoolIdle
           \<and> pm_project_id m = projectId c \<and> projectId c \<noteq> pid)
    \<and> reclaimableForOthers (getActiveContainers db now) (Some pid)
      = sum_list (map memoryGb (filter (reclaim_eligible (CONTAINER_RECLAIM_MIN_IDLE_SEC * 1000)
          (CONTAINER_RECLAIM_MIN_AGE_SEC * 1000)) (reclaim_candidates db now pid)))"
proof -
  let ?p = "reclaim_plan lc db now pid need" and ?cap = "attempt_capacity db now pid workload"
  let ?el = "filter (reclaim_eligible (CONTAINER_RECLAIM_MIN_IDLE_SEC * 1000) (CONTAINER_RECLAIM_MIN_AGE_SEC * 1000))
      (reclaim_candidates db now pid)"
  have need: "need = usedMemoryGb ?cap + requestMemoryGb ?cap - budgetGb ?cap" "0 < need" "need \<le> reclaimableMemoryGb ?cap"
    using select_reclaim [OF attempt_InrD [OF assms(2)]] by auto
  have promise: "reclaimableForOthers (getActiveContainers db now) (Some pid) = sum_list (map memoryGb ?el)"
    by (simp only: reclaimable_promise [OF assms(1)] eligible_promise [OF assms(1)])
  then have "need \<le> sum_list (map memoryGb ?el)" using need(3) by (simp add: attempt_capacity_def Let_def)
  then obtain ks k ds where t: "mset (ks @ k # ds) = mset ?el"
      "mset (plan_suspend ?p @ plan_destroy ?p) = mset (ks @ [k])" "need \<le> freedGb ?p"
    using reclaim_taken [OF need(2) refl _ reclaim_plan_def] by blast
  have taken: "set (plan_suspend ?p @ plan_destroy ?p) \<subseteq> set (reclaim_candidates db now pid)"
  proof -
    have "set (plan_suspend ?p @ plan_destroy ?p) = set (ks @ [k])" using t(2) by (metis set_mset_mset)
    moreover have "set (ks @ k # ds) = set ?el" using t(1) by (metis set_mset_mset)
    ultimately show ?thesis by auto
  qed
  have rows: "\<exists>m \<in> set (container_pool_members db). pm_container_id m = containerId c \<and> pm_state m = PoolIdle
      \<and> pm_project_id m = projectId c \<and> projectId c \<noteq> pid" if "c \<in> set (reclaim_candidates db now pid)" for c
  proof -
    have "set (sort_by f xs) = set xs" for f and xs :: "member_row list" by (metis mset_sort_by set_mset_mset)
    then show ?thesis using that by (auto simp: reclaim_candidates_def)
  qed
  have "usedMemoryGb ?cap - freedGb ?p + of_int (projectContainerMemoryGb db pid) \<le> budgetGb ?cap"
    using t(3) need(1) by (simp add: attempt_capacity_def Let_def)
  then show ?thesis using t(3) promise taken rows by blast
qed

theorem reclaim_promise_kept_witness:
  "2 \<le> freedGb (reclaim_plan (\<lambda>_ _. 0) (demo_db [demo_idle ''B'' ''c'' False]) 1000000 ''A'' 2)"
  using reclaim_promise_kept [where db = "demo_db [demo_idle ''B'' ''c'' False]" and pid = "''A''" and img = "''old''"
      and now = 1000000 and taskId = None and workload = TaskRun and need = 2 and lc = "\<lambda>_ _. 0"]
  by (simp add: demo_db_defs db_ok_def gate_defs attempt_decision_def decidePoolAcquisition_def selectPoolMember_def
      fitsBudget_def loadPoolMembers_def sort_by_def Let_def)

text \<open>
  (Lemma) The chat lane. Whenever an attempt for a task run brings a container up, what is running
  together with the new container still leaves the chat reservation free under the configured
  total, so a chat turn of a project at the default cap fits.
\<close>

theorem chat_lane_kept:
  assumes "attempt_decision db now pid taskId TaskRun img = Inr d" and "d = Create \<or> (\<exists>m. d = Resume m)"
  shows "active_usedMemoryGb (getActiveContainers db now) + of_int (projectContainerMemoryGb db pid)
     + of_int (chatContainerReservationGb (defaultRamCapGb (capacity db))) \<le> totalBudgetGb (getActiveContainers db now)"
  using select_starts [OF attempt_InrD [OF assms(1)] assms(2)]
  by (simp add: fitsBudget_def attempt_capacity_def getActiveContainers_def Let_def taskContainerMemoryBudgetGb_def)

theorem chat_lane_kept_witness:
  "active_usedMemoryGb (getActiveContainers (demo_db []) 0) + 2 + 2 \<le> totalBudgetGb (getActiveContainers (demo_db []) 0)"
  using chat_lane_kept [where db = "demo_db []" and pid = "''A''" and img = "''new''" and now = 0 and taskId = None and d = Create]
  by (simp add: demo_db_defs gate_defs attempt_decision_def decidePoolAcquisition_def selectPoolMember_def
      fitsBudget_def loadPoolMembers_def sort_by_def Let_def)

text \<open>
  (Lemma) Every container is charged once, for what it was built with: if the containers the
  projects name are pooled, the memory in use is the sum, over the pool members whose state counts
  toward the budget, of their recorded allocation or their project's cap.
\<close>

theorem each_container_charged_once:
  assumes "db_ok db" and "containers_pooled db"
  shows "active_usedMemoryGb (getActiveContainers db now)
     = (\<Sum>m \<leftarrow> container_pool_members db. if containerCountsTowardBudget (pm_state m)
          then (case pm_memory_bytes m of None \<Rightarrow> of_int (projectContainerMemoryGb db (pm_project_id m)) | Some b \<Rightarrow> bytes_gb b)
          else 0)"
  by (simp add: used_counted [OF assms] counted_members_def member_gb_def [abs_def] sum_list_map_filter')

theorem each_container_charged_once_witness:
  "active_usedMemoryGb (getActiveContainers (demo_db [demo_idle ''B'' ''c'' False]) 0) = 2"
  using each_container_charged_once [where db = "demo_db [demo_idle ''B'' ''c'' False]" and now = 0]
  by (simp add: demo_db_defs db_ok_def containers_pooled_def containerCountsTowardBudget_def bytes_gb_def)

text \<open>
  (Lemma) The automatic budget leaves room for one task container beside the chat lane exactly up to
  a cap of 2048 GB on an engine that reports host memory; on one that reports none the fixed
  default of 12 GB does so only up to a cap of 6 GB.
\<close>

theorem default_budget_admits:
  "max 1 cap \<le> taskContainerMemoryBudgetGb (computeDefaultMaxContainerMemoryGb hostMemory cap) cap
   \<longleftrightarrow> cap \<le> (if hostMemory = None then 6 else 2048)"
  by (cases hostMemory) (auto simp: taskContainerMemoryBudgetGb_def computeDefaultMaxContainerMemoryGb_def
      chatContainerReservationGb_def minTotalContainerMemoryGb_def MAX_CONTAINER_MEMORY_GB_MAX_def
      DEFAULT_MAX_CONTAINER_MEMORY_GB_def Let_def)

text \<open>
  (Lemma) A container the gate takes for spare may be one the ladder never hands out: with one idle
  member that was built from another image and holds unpushed commits, the gate lets the run
  through and every attempt to take a container throws for want of capacity.
\<close>

theorem spare_but_refused:
  "\<exists>db. db_ok db \<and> containers_pooled db \<and> \<not> isContainerCapacityBlockedInDb db 1000000 ''A''
     \<and> (\<forall>taskId. attempt_decision db 1000000 ''A'' taskId TaskRun ''new'' = Inl (PoolCapacityError ''A''))"
proof (intro exI [of _ "demo_db [demo_idle ''A'' ''c'' True]"] conjI allI)
  show "attempt_decision (demo_db [demo_idle ''A'' ''c'' True]) 1000000 ''A'' taskId TaskRun ''new''
      = Inl (PoolCapacityError ''A'')" for taskId
    by (cases taskId) (simp_all add: demo_db_defs gate_defs attempt_decision_def decidePoolAcquisition_def selectPoolMember_def
        fitsBudget_def usable_def outdated_def loadPoolMembers_def to_pool_member_def ladder_state_def sort_by_def Let_def)
qed (simp_all add: demo_db_defs db_ok_def containers_pooled_def isContainerCapacityBlockedInDb_def
    containerCapacityVerdictInDb_def gate_defs Let_def)

text \<open>
  (Lemma) A project counted quiet is quiet: when no active run is counted in it, no agent is busy
  there, none of its tasks is busy, and no run without a task is active in its team.
\<close>

theorem quiet_project:
  assumes "countActiveRunsInProject db pid = 0"
  shows "getBusyAgentIdsInProject db pid = {}
    \<and> (\<forall>t \<in> set (task_rows db). task_project_id t = pid \<longrightarrow> \<not> isTaskBusyInDb db (task_row_id t))
    \<and> (\<forall>r \<in> set (heartbeat_runs db). \<forall>p \<in> set (project_rows db).
         run_task_id r = None \<and> project_row_id p = pid \<and> project_team_id p = run_team_id r \<longrightarrow> \<not> active_run r)"
proof -
  have none: "\<not> (runInProjectSql db pid r \<and> active_run r)" if "r \<in> set (heartbeat_runs db)" for r
    using assms that by (auto simp: countActiveRunsInProject_def filter_empty_conv)
  then have "\<not> isTaskBusyInDb db (task_row_id t)" if "t \<in> set (task_rows db)" "task_project_id t = pid" for t
    using that by (fastforce simp: isTaskBusyInDb_def runInProjectSql_def filter_empty_conv list_ex_iff)
  moreover have "\<not> active_run r" if "r \<in> set (heartbeat_runs db)" "p \<in> set (project_rows db)"
    "run_task_id r = None" "project_row_id p = pid" "project_team_id p = run_team_id r" for r p
    using none [OF that(1)] that by (auto simp: runInProjectSql_def list_ex_iff)
  ultimately show ?thesis using none by (auto simp: getBusyAgentIdsInProject_def)
qed

theorem quiet_project_witness: "getBusyAgentIdsInProject (demo_db []) ''A'' = {}"
  using quiet_project [where db = "demo_db []" and pid = "''A''"]
  by (simp add: demo_db_defs countActiveRunsInProject_def)

end
