(* ===== verification/Keyed_Lock.thy ===== *)
theory Keyed_Lock
  imports State_Systems Hezo_Prelude
begin

text \<open>
  The keyed mutex of \<open>lib/keyed-lock.ts\<close>. Every call of \<open>acquireKeyedLock\<close> gets a number
  in arrival order; what its promise and its release function stand for is its \<open>phase\<close>. The
  registry maps a key to its holder's label and its queue, exactly as the code keeps them, and the
  step relation covers acquires, aborts, timeouts and releases in any order.
\<close>

section \<open>Owners, waiters and errors\<close>

datatype LockOwner = Bare string | Labelled string

definition lockOwnerLabel :: "LockOwner option \<Rightarrow> string option" where
  "lockOwnerLabel owner = (case owner of
     None \<Rightarrow> None
   | Some (Bare s) \<Rightarrow> Some s
   | Some (Labelled l) \<Rightarrow> Some l)"

definition KeyedLockTimeoutError :: "string \<Rightarrow> nat \<Rightarrow> LockOwner option \<Rightarrow> string" where
  "KeyedLockTimeoutError key timeoutMs owner =
     ''timed out after '' @ digits timeoutMs @ ''ms waiting for the '' @ [CHR 39] @ key @ [CHR 39] @ '' lock''
     @ (case lockOwnerLabel owner of
          None \<Rightarrow> []
        | Some label \<Rightarrow> if label = [] then [] else '', held by '' @ label)"

datatype lock_error = TimedOut string | AbortedBy string

record Waiter =
  waiter_id :: nat
  waiter_live :: bool
  waiter_owner :: "LockOwner option"
  waiter_priority :: bool

record LockState =
  lock_owner :: "LockOwner option"
  queue :: "Waiter list"

type_synonym KeyedLockRegistry = "string \<rightharpoonup> LockState"

record AcquireOptions =
  opt_aborted :: "string option"
  opt_timeoutMs :: "nat option"
  opt_owner :: "LockOwner option"
  opt_priority :: bool

text \<open>
  What an acquire has become: still queued (with its timeout), holding the lock through a release
  function not yet called, done, or rejected.
\<close>

datatype phase = Waiting string "nat option" | Holding string | Released string | Rejected lock_error

record lock_system =
  registry :: KeyedLockRegistry
  phases :: "nat \<rightharpoonup> phase"
  next_id :: nat

definition new_lock_system :: lock_system where
  "new_lock_system = \<lparr>registry = Map.empty, phases = Map.empty, next_id = 0\<rparr>"

definition currentOwner :: "KeyedLockRegistry \<Rightarrow> string \<Rightarrow> LockOwner option" where
  "currentOwner reg key = (case reg key of None \<Rightarrow> None | Some st \<Rightarrow> lock_owner st)"

section \<open>Operations\<close>

text \<open>\<open>findIndex\<close> and \<open>splice(at, 0, w)\<close>.\<close>

fun findIndex :: "('a \<Rightarrow> bool) \<Rightarrow> 'a list \<Rightarrow> nat option" where
  "findIndex P [] = None"
| "findIndex P (x # xs) = (if P x then Some 0 else map_option Suc (findIndex P xs))"

definition enqueue :: "Waiter \<Rightarrow> Waiter list \<Rightarrow> Waiter list" where
  "enqueue w q =
     (if waiter_priority w
      then (case findIndex (\<lambda>v. \<not> waiter_priority v) q of
          None \<Rightarrow> q @ [w]
        | Some at \<Rightarrow> take at q @ w # drop at q)
      else q @ [w])"

definition acquireKeyedLock :: "string \<Rightarrow> AcquireOptions \<Rightarrow> lock_system \<Rightarrow> lock_system" where
  "acquireKeyedLock key opts s =
     (let i = next_id s; s' = s\<lparr>next_id := i + 1\<rparr>
      in case registry s key of
        None \<Rightarrow> s'\<lparr>registry := (registry s)(key \<mapsto> \<lparr>lock_owner = opt_owner opts, queue = []\<rparr>),
                  phases := (phases s)(i \<mapsto> Holding key)\<rparr>
      | Some existing \<Rightarrow>
          (case opt_aborted opts of
             Some reason \<Rightarrow> s'\<lparr>phases := (phases s)(i \<mapsto> Rejected (AbortedBy reason))\<rparr>
           | None \<Rightarrow>
               let w = \<lparr>waiter_id = i, waiter_live = True, waiter_owner = opt_owner opts, waiter_priority = opt_priority opts\<rparr>
               in s'\<lparr>registry := (registry s)(key \<mapsto> existing\<lparr>queue := enqueue w (queue existing)\<rparr>),
                     phases := (phases s)(i \<mapsto> Waiting key (opt_timeoutMs opts))\<rparr>))"

text \<open>A waiter that settled is no longer answered; one that gave up also leaves the queue.\<close>

definition giveUp :: "nat \<Rightarrow> lock_error \<Rightarrow> lock_system \<Rightarrow> lock_system" where
  "giveUp i err s = (case phases s i of
     Some (Waiting key _) \<Rightarrow>
       s\<lparr>phases := (phases s)(i \<mapsto> Rejected err),
         registry := (case registry s key of
             None \<Rightarrow> registry s
           | Some st \<Rightarrow> (registry s)(key \<mapsto> st\<lparr>queue := filter (\<lambda>w. waiter_id w \<noteq> i) (queue st)\<rparr>))\<rparr>
   | _ \<Rightarrow> s)"

definition timer_fires :: "nat \<Rightarrow> lock_system \<Rightarrow> lock_system" where
  "timer_fires i s = (case phases s i of
     Some (Waiting key (Some timeoutMs)) \<Rightarrow>
       giveUp i (TimedOut (KeyedLockTimeoutError key timeoutMs (currentOwner (registry s) key))) s
   | _ \<Rightarrow> s)"

text \<open>The loop of a release over the queue: the first live waiter is granted the lock.\<close>

fun hand_over :: "string \<Rightarrow> Waiter list \<Rightarrow> lock_system \<Rightarrow> lock_system" where
  "hand_over key [] s = s\<lparr>registry := (registry s)(key := None)\<rparr>"
| "hand_over key (w # ws) s =
     (if waiter_live w
      then s\<lparr>registry := (registry s)(key \<mapsto> \<lparr>lock_owner = waiter_owner w, queue = ws\<rparr>),
             phases := (phases s)(waiter_id w \<mapsto> Holding key)\<rparr>
      else hand_over key ws s)"

definition release :: "nat \<Rightarrow> lock_system \<Rightarrow> lock_system" where
  "release i s = (case phases s i of
     Some (Holding key) \<Rightarrow>
       (let s' = s\<lparr>phases := (phases s)(i \<mapsto> Released key)\<rparr>
        in case registry s' key of
             None \<Rightarrow> s'
           | Some st \<Rightarrow> hand_over key (queue st) s')
   | _ \<Rightarrow> s)"

definition default_options :: AcquireOptions where
  "default_options = \<lparr>opt_aborted = None, opt_timeoutMs = None, opt_owner = None, opt_priority = False\<rparr>"

text \<open>\<open>withKeyedLock\<close>: the acquire, and the release however the work settled.\<close>

definition withKeyedLock_start :: "string \<Rightarrow> lock_system \<Rightarrow> lock_system" where
  "withKeyedLock_start key s = acquireKeyedLock key default_options s"

definition withKeyedLock_finish :: "nat \<Rightarrow> 'e + 'a \<Rightarrow> lock_system \<Rightarrow> ('e + 'a) \<times> lock_system" where
  "withKeyedLock_finish i result s = (result, release i s)"

inductive lock_step :: "lock_system \<Rightarrow> lock_system \<Rightarrow> bool" where
  Acquire: "lock_step s (acquireKeyedLock key opts s)"
| Abort: "lock_step s (giveUp i (AbortedBy reason) s)"
| Timeout: "lock_step s (timer_fires i s)"
| Release: "lock_step s (release i s)"

section \<open>Invariant\<close>

text \<open>Served before: priority waiters first, each kind in arrival order.\<close>

definition ahead :: "Waiter \<Rightarrow> Waiter \<Rightarrow> bool" where
  "ahead v w \<longleftrightarrow> (waiter_priority v \<and> \<not> waiter_priority w)
     \<or> (waiter_priority v = waiter_priority w \<and> waiter_id v < waiter_id w)"

definition waits :: "lock_system \<Rightarrow> string \<Rightarrow> nat \<Rightarrow> bool" where
  "waits s k i \<longleftrightarrow> (\<exists>t. phases s i = Some (Waiting k t))"

definition holds :: "lock_system \<Rightarrow> string \<Rightarrow> nat \<Rightarrow> bool" where
  "holds s k i \<longleftrightarrow> phases s i = Some (Holding k)"

definition key_ok :: "lock_system \<Rightarrow> string \<Rightarrow> bool" where
  "key_ok s k = (case registry s k of
     None \<Rightarrow> (\<forall>i. \<not> waits s k i \<and> \<not> holds s k i)
   | Some st \<Rightarrow> (\<exists>h. \<forall>i. holds s k i \<longleftrightarrow> i = h)
       \<and> waiter_id ` set (queue st) = Collect (waits s k)
       \<and> distinct (map waiter_id (queue st)) \<and> list_all waiter_live (queue st) \<and> sorted_wrt ahead (queue st))"

definition lock_inv :: "lock_system \<Rightarrow> bool" where
  "lock_inv s \<longleftrightarrow> dom (phases s) = {..<next_id s} \<and> (\<forall>k. key_ok s k)"

lemma findIndex_while:
  "(case findIndex P xs of
      None \<Rightarrow> takeWhile (\<lambda>x. \<not> P x) xs = xs \<and> dropWhile (\<lambda>x. \<not> P x) xs = []
    | Some n \<Rightarrow> take n xs = takeWhile (\<lambda>x. \<not> P x) xs \<and> drop n xs = dropWhile (\<lambda>x. \<not> P x) xs)"
  by (induction xs) (auto split: option.splits)

lemma enqueue_while:
  "enqueue w q = (if waiter_priority w then takeWhile waiter_priority q @ w # dropWhile waiter_priority q else q @ [w])"
proof -
  have "case findIndex (\<lambda>v. \<not> waiter_priority v) q of
      None \<Rightarrow> takeWhile waiter_priority q = q \<and> dropWhile waiter_priority q = []
    | Some n \<Rightarrow> take n q = takeWhile waiter_priority q \<and> drop n q = dropWhile waiter_priority q"
    using findIndex_while [of "\<lambda>v. \<not> waiter_priority v" q] by (simp only: not_not)
  then show ?thesis
    by (cases "findIndex (\<lambda>v. \<not> waiter_priority v) q")
       (simp_all only: enqueue_def option.case simp_thms append_Nil2 if_cancel append_Cons append_Nil split: if_split)
qed

lemma set_enqueue: "set (enqueue w q) = insert w (set q)"
proof -
  have "set q = set (takeWhile waiter_priority q) \<union> set (dropWhile waiter_priority q)"
    by (metis set_append takeWhile_dropWhile_id)
  then show ?thesis by (simp add: enqueue_while)
qed

lemma dropWhile_plain:
  "sorted_wrt ahead q \<Longrightarrow> v \<in> set (dropWhile waiter_priority q) \<Longrightarrow> \<not> waiter_priority v"
  by (induction q) (auto simp: ahead_def split: if_splits)

lemma sorted_enqueue:
  assumes "sorted_wrt ahead q" "\<And>v. v \<in> set q \<Longrightarrow> waiter_id v < waiter_id w"
  shows "sorted_wrt ahead (enqueue w q)"
proof -
  let ?t = "takeWhile waiter_priority q" and ?d = "dropWhile waiter_priority q"
  have td: "sorted_wrt ahead (?t @ ?d)" using assms(1) by simp
  have t: "waiter_priority v" if "v \<in> set ?t" for v using that by (meson set_takeWhileD)
  have sub: "v \<in> set q" if "v \<in> set ?t" for v using that by (meson set_takeWhileD)
  have d: "\<not> waiter_priority v" if "v \<in> set ?d" for v using dropWhile_plain [OF assms(1) that] .
  show ?thesis
  proof (cases "waiter_priority w")
    case True
    then show ?thesis
      using td t d sub assms(2) by (auto simp: enqueue_while sorted_wrt_append ahead_def)
  next
    case False
    then show ?thesis using assms by (auto simp: enqueue_while sorted_wrt_append ahead_def)
  qed
qed

lemma distinct_enqueue:
  assumes "distinct (map waiter_id q)" "waiter_id w \<notin> waiter_id ` set q"
  shows "distinct (map waiter_id (enqueue w q))"
proof -
  let ?t = "takeWhile waiter_priority q" and ?d = "dropWhile waiter_priority q"
  have "distinct (map waiter_id (?t @ ?d))" "waiter_id w \<notin> waiter_id ` set (?t @ ?d)" using assms by simp_all
  then have "distinct (map waiter_id (?t @ w # ?d))"
    unfolding map_append set_append list.simps distinct_append distinct.simps image_Un list.set_map by auto
  then show ?thesis using assms by (simp add: enqueue_while)
qed

lemma key_ok_frame:
  assumes "key_ok s k" "registry t k = registry s k"
    and "\<And>i. waits t k i = waits s k i" "\<And>i. holds t k i = holds s k i"
  shows "key_ok t k"
proof -
  have "waits t k = waits s k" "holds t k = holds s k" using assms(3,4) by auto
  then show ?thesis using assms(1,2) by (cases "registry s k") (simp_all add: key_ok_def)
qed

lemma lock_inv_acquire:
  assumes inv: "lock_inv s"
  shows "lock_inv (acquireKeyedLock key opts s)"
proof -
  let ?t = "acquireKeyedLock key opts s" and ?i = "next_id s"
  have dom: "dom (phases s) = {..<?i}" and ok: "\<And>k. key_ok s k" using inv by (auto simp: lock_inv_def)
  have fresh: "phases s ?i = None" using dom by (metis domIff lessThan_iff less_irrefl)
  have next_id: "next_id ?t = Suc ?i" "dom (phases ?t) = {..<Suc ?i}"
    using dom by (auto simp: acquireKeyedLock_def Let_def lessThan_Suc split: option.splits)
  have other: "key_ok ?t k" if "k \<noteq> key" for k
    by (rule key_ok_frame [OF ok])
       (use that fresh in \<open>auto simp: acquireKeyedLock_def Let_def waits_def holds_def split: option.splits\<close>)
  have "key_ok ?t key"
  proof (cases "registry s key")
    case None
    then have "\<not> waits s key j" "\<not> holds s key j" for j using ok [of key] by (auto simp: key_ok_def)
    then show ?thesis
      using None by (auto simp: key_ok_def acquireKeyedLock_def Let_def waits_def holds_def)
  next
    case (Some st)
    note st = ok [of key, unfolded key_ok_def Some option.case]
    show ?thesis
    proof (cases "opt_aborted opts")
      case Some': (Some reason)
      show ?thesis
        by (rule key_ok_frame [OF ok])
           (use fresh Some Some' in \<open>auto simp: acquireKeyedLock_def Let_def waits_def holds_def\<close>)
    next
      case None
      let ?w = "\<lparr>waiter_id = ?i, waiter_live = True, waiter_owner = opt_owner opts, waiter_priority = opt_priority opts\<rparr>"
      have t: "registry ?t key = Some (st\<lparr>queue := enqueue ?w (queue st)\<rparr>)"
        "phases ?t = (phases s)(?i \<mapsto> Waiting key (opt_timeoutMs opts))"
        using Some None by (simp_all add: acquireKeyedLock_def Let_def)
      have waits: "Collect (waits ?t key) = insert ?i (Collect (waits s key))"
        using fresh by (auto simp: t waits_def)
      have holds: "holds ?t key j = holds s key j" for j using fresh by (auto simp: t holds_def)
      have less: "waiter_id v < ?i" if "v \<in> set (queue st)" for v
        using st that dom by (force simp: waits_def)
      have "sorted_wrt ahead (enqueue ?w (queue st))" using st less by (intro sorted_enqueue) auto
      moreover have "distinct (map waiter_id (enqueue ?w (queue st)))"
        using st less by (intro distinct_enqueue) (simp, fastforce)
      ultimately show ?thesis
        using st by (auto simp: key_ok_def t(1) holds waits set_enqueue list_all_iff)
    qed
  qed
  then show ?thesis using next_id other by (metis lock_inv_def)
qed

lemma lock_inv_giveUp:
  assumes inv: "lock_inv s"
  shows "lock_inv (giveUp i err s)"
proof (cases "\<exists>key t. phases s i = Some (Waiting key t)")
  case False
  then have "giveUp i err s = s" by (auto simp: giveUp_def split: option.splits phase.splits)
  then show ?thesis using inv by simp
next
  case True
  then obtain key t where p: "phases s i = Some (Waiting key t)" by blast
  let ?t = "giveUp i err s"
  have dom: "dom (phases s) = {..<next_id s}" and ok: "\<And>k. key_ok s k" using inv by (auto simp: lock_inv_def)
  have "dom (phases ?t) = {..<next_id ?t}" using dom p by (auto simp: giveUp_def)
  moreover have "key_ok ?t k" if "k \<noteq> key" for k
    by (rule key_ok_frame [OF ok])
       (use that p in \<open>auto simp: giveUp_def waits_def holds_def split: option.splits\<close>)
  moreover have "key_ok ?t key"
  proof (cases "registry s key")
    case None
    then have "\<not> waits s key i" using ok [of key] by (simp add: key_ok_def)
    then show ?thesis using p by (simp add: waits_def)
  next
    case (Some st)
    note st = ok [of key, unfolded key_ok_def Some option.case]
    have t: "registry ?t key = Some (st\<lparr>queue := filter (\<lambda>w. waiter_id w \<noteq> i) (queue st)\<rparr>)"
      "phases ?t = (phases s)(i \<mapsto> Rejected err)" using p Some by (simp_all add: giveUp_def)
    have holds: "holds ?t key j = holds s key j" for j using p by (auto simp: t holds_def)
    have "Collect (waits ?t key) = Collect (waits s key) - {i}" by (auto simp: t waits_def split: if_splits)
    then have waits: "waiter_id ` set (filter (\<lambda>w. waiter_id w \<noteq> i) (queue st)) = Collect (waits ?t key)"
      using st by auto
    have "distinct (map waiter_id (filter (\<lambda>w. waiter_id w \<noteq> i) (queue st)))"
      using st by (simp add: distinct_map_filter)
    then show ?thesis
      using st waits by (auto simp: key_ok_def t(1) holds list_all_iff sorted_wrt_filter)
  qed
  ultimately show ?thesis by (metis lock_inv_def)
qed

text \<open>A release, given the state of its key.\<close>

lemma release_cases:
  assumes inv: "lock_inv s" and h: "holds s key i"
  shows "\<exists>st. registry s key = Some st \<and> release i s =
    (case queue st of
       [] \<Rightarrow> s\<lparr>phases := (phases s)(i \<mapsto> Released key), registry := (registry s)(key := None)\<rparr>
     | w # ws \<Rightarrow> s\<lparr>phases := (phases s)(i \<mapsto> Released key, waiter_id w \<mapsto> Holding key),
         registry := (registry s)(key \<mapsto> \<lparr>lock_owner = waiter_owner w, queue = ws\<rparr>)\<rparr>)"
proof -
  have ok: "key_ok s key" using inv by (simp add: lock_inv_def)
  then obtain st where st: "registry s key = Some st" using h by (cases "registry s key") (auto simp: key_ok_def)
  then have "list_all waiter_live (queue st)" using ok by (simp add: key_ok_def)
  then show ?thesis using h st by (cases "queue st") (auto simp: release_def holds_def)
qed

lemma lock_inv_release:
  assumes inv: "lock_inv s"
  shows "lock_inv (release i s)"
proof (cases "\<exists>key. holds s key i")
  case False
  then have "release i s = s" by (auto simp: release_def holds_def split: option.splits phase.splits)
  then show ?thesis using inv by simp
next
  case True
  then obtain key where h: "holds s key i" by blast
  let ?t = "release i s"
  have dom: "dom (phases s) = {..<next_id s}" and ok: "\<And>k. key_ok s k" using inv by (auto simp: lock_inv_def)
  obtain st where st: "registry s key = Some st" and r: "?t = (case queue st of
       [] \<Rightarrow> s\<lparr>phases := (phases s)(i \<mapsto> Released key), registry := (registry s)(key := None)\<rparr>
     | w # ws \<Rightarrow> s\<lparr>phases := (phases s)(i \<mapsto> Released key, waiter_id w \<mapsto> Holding key),
         registry := (registry s)(key \<mapsto> \<lparr>lock_owner = waiter_owner w, queue = ws\<rparr>)\<rparr>)"
    using release_cases [OF inv h] by blast
  note q = ok [of key, unfolded key_ok_def st option.case]
  have only: "holds s key j \<longleftrightarrow> j = i" for j using q h by metis
  show ?thesis
  proof (cases "queue st")
    case Nil
    then have t: "phases ?t = (phases s)(i \<mapsto> Released key)" "registry ?t = (registry s)(key := None)" "next_id ?t = next_id s"
      using r by simp_all
    have "\<not> waits s key j" for j using q Nil by auto
    then have "key_ok ?t key" using only by (auto simp: key_ok_def t waits_def holds_def split: if_splits)
    moreover have "key_ok ?t k" if "k \<noteq> key" for k
      by (rule key_ok_frame [OF ok]) (use that h in \<open>auto simp: t waits_def holds_def\<close>)
    moreover have "dom (phases ?t) = {..<next_id ?t}" using dom h by (auto simp: t holds_def)
    ultimately show ?thesis by (metis lock_inv_def)
  next
    case (Cons w ws)
    let ?j = "waiter_id w"
    have w: "waits s key ?j" using q Cons by (metis image_eqI list.set_intros(1) mem_Collect_eq)
    have t: "phases ?t = (phases s)(i \<mapsto> Released key, ?j \<mapsto> Holding key)"
      "registry ?t = (registry s)(key \<mapsto> \<lparr>lock_owner = waiter_owner w, queue = ws\<rparr>)" "next_id ?t = next_id s"
      using r Cons by simp_all
    have ij: "?j \<noteq> i" using w h by (auto simp: waits_def holds_def)
    have "Collect (waits ?t key) = Collect (waits s key) - {?j}"
      using h by (auto simp: t waits_def holds_def split: if_splits)
    moreover have "?j \<notin> waiter_id ` set ws" "insert ?j (waiter_id ` set ws) = Collect (waits s key)"
      using q Cons by simp_all
    ultimately have waits: "waiter_id ` set ws = Collect (waits ?t key)" by (metis Diff_insert_absorb)
    have holds: "holds ?t key k \<longleftrightarrow> k = ?j" for k
      using only [of k] ij by (auto simp: t holds_def split: if_splits)
    have "key_ok ?t key" using q Cons waits holds by (auto simp: key_ok_def t(2))
    moreover have "key_ok ?t k" if "k \<noteq> key" for k
      by (rule key_ok_frame [OF ok]) (use that h w in \<open>auto simp: t waits_def holds_def\<close>)
    moreover have "dom (phases ?t) = {..<next_id ?t}" using dom h w by (auto simp: t holds_def waits_def)
    ultimately show ?thesis by (metis lock_inv_def)
  qed
qed

interpretation lock: inductive_invariant "\<lambda>s. s = new_lock_system" lock_step lock_inv
proof unfold_locales
  show "s = new_lock_system \<Longrightarrow> lock_inv s" for s
    by (simp add: lock_inv_def key_ok_def new_lock_system_def waits_def holds_def)
next
  fix s t assume inv: "lock_inv s" and "lock_step s t"
  from this(2) show "lock_inv t"
    by cases (use inv in \<open>auto simp: lock_inv_acquire lock_inv_giveUp lock_inv_release timer_fires_def
      split: option.splits phase.splits\<close>)
qed

section \<open>Properties\<close>

text \<open>
  (Lemma) Mutual exclusion without wedging: in every reachable state at most one acquire holds a
  key, a key is registered exactly while someone holds it, and whoever waits, waits behind a
  holder whose release is still to come.
\<close>

theorem lock_mutual_exclusion:
  assumes "reach (\<lambda>s. s = new_lock_system) lock_step s"
  shows "(holds s key i \<and> holds s key j \<longrightarrow> i = j)
    \<and> (registry s key \<noteq> None \<longleftrightarrow> (\<exists>h. holds s key h))
    \<and> (waits s key i \<longrightarrow> (\<exists>h. holds s key h))"
proof -
  have "key_ok s key" using lock.reach_inv [OF assms] by (simp add: lock_inv_def)
  then show ?thesis by (cases "registry s key") (auto simp: key_ok_def)
qed

text \<open>A run: one holder, a plain waiter, and a priority waiter that arrives after it.\<close>

definition demo_locked :: lock_system where
  "demo_locked = acquireKeyedLock ''k'' (default_options\<lparr>opt_priority := True\<rparr>)
     (acquireKeyedLock ''k'' default_options (acquireKeyedLock ''k'' default_options new_lock_system))"

lemma demo_locked_reach: "reach (\<lambda>s. s = new_lock_system) lock_step demo_locked"
proof -
  have step: "reach (\<lambda>s. s = new_lock_system) lock_step s \<Longrightarrow>
      reach (\<lambda>s. s = new_lock_system) lock_step (acquireKeyedLock key opts s)" for s key opts
    by (blast intro: reach_step lock_step.Acquire)
  show ?thesis unfolding demo_locked_def by (intro step reach_init refl)
qed

lemma demo_locked_state:
  "phases demo_locked = [0 \<mapsto> Holding ''k'', 1 \<mapsto> Waiting ''k'' None, 2 \<mapsto> Waiting ''k'' None]"
  by (simp add: demo_locked_def acquireKeyedLock_def new_lock_system_def default_options_def Let_def numeral_2_eq_2)

theorem lock_mutual_exclusion_witness:
  "reach (\<lambda>s. s = new_lock_system) lock_step demo_locked
    \<and> waits demo_locked ''k'' 1 \<and> (\<exists>h. holds demo_locked ''k'' h)"
proof -
  have "waits demo_locked ''k'' 1" by (simp add: waits_def demo_locked_state)
  then show ?thesis using lock_mutual_exclusion [OF demo_locked_reach, of "''k''" 1] demo_locked_reach by blast
qed

text \<open>
  (C14) Who is served next: a release hands the lock to the waiter ahead of all others, priority
  waiters before plain ones and each kind in arrival order, leaves every other waiter waiting, and
  drops the key when nobody wants it; releasing again changes nothing.
\<close>

theorem lock_handover:
  assumes "reach (\<lambda>s. s = new_lock_system) lock_step s" and "holds s key i"
  shows "(case map waiter_id (queue (the (registry s key))) of
       [] \<Rightarrow> registry (release i s) key = None
     | w # ws \<Rightarrow> holds (release i s) key w \<and> map waiter_id (queue (the (registry (release i s) key))) = ws
         \<and> (\<forall>v. waits s key v \<and> v \<noteq> w \<longrightarrow> waits (release i s) key v))
    \<and> sorted_wrt ahead (queue (the (registry s key)))
    \<and> waiter_id ` set (queue (the (registry s key))) = Collect (waits s key)
    \<and> release i (release i s) = release i s"
proof -
  have inv: "lock_inv s" by (rule lock.reach_inv [OF assms(1)])
  obtain st where st: "registry s key = Some st" and r: "release i s = (case queue st of
       [] \<Rightarrow> s\<lparr>phases := (phases s)(i \<mapsto> Released key), registry := (registry s)(key := None)\<rparr>
     | w # ws \<Rightarrow> s\<lparr>phases := (phases s)(i \<mapsto> Released key, waiter_id w \<mapsto> Holding key),
         registry := (registry s)(key \<mapsto> \<lparr>lock_owner = waiter_owner w, queue = ws\<rparr>)\<rparr>)"
    using release_cases [OF inv assms(2)] by blast
  have q: "key_ok s key" using inv by (simp add: lock_inv_def)
  have waiting: "waits s key (waiter_id w)" if "w \<in> set (queue st)" for w
    using q st that by (auto simp: key_ok_def)
  have once: "release i (release i s) = release i s"
  proof -
    have "phases (release i s) i = Some (Released key)"
      unfolding r using waiting [of "hd (queue st)"] assms(2) by (cases "queue st") (auto simp: waits_def holds_def)
    then show ?thesis by (simp add: release_def)
  qed
  show ?thesis
  proof (cases "queue st")
    case Nil
    then show ?thesis using q st r once by (simp add: key_ok_def)
  next
    case (Cons w ws)
    then have "waits (release i s) key v" if "waits s key v" "v \<noteq> waiter_id w" for v
      using r that assms(2) by (auto simp: waits_def holds_def)
    then show ?thesis using q st r once Cons by (simp add: key_ok_def holds_def)
  qed
qed

theorem lock_handover_witness:
  "holds demo_locked ''k'' 0 \<and> holds (release 0 demo_locked) ''k'' 2"
proof -
  have h: "holds demo_locked ''k'' 0" by (simp add: holds_def demo_locked_state)
  have "map waiter_id (queue (the (registry demo_locked ''k''))) = [2, 1]"
    by (simp add: demo_locked_def acquireKeyedLock_def new_lock_system_def default_options_def enqueue_def Let_def)
  then show ?thesis using lock_handover [OF demo_locked_reach h] h by simp
qed

text \<open>
  (Lemma) Giving up holds nothing: a waiter that times out or aborts leaves the queue for good. The
  holder keeps the lock, the others keep their order, and no later step ever grants the lock to
  an acquire that was rejected.
\<close>

theorem lock_give_up:
  assumes "reach (\<lambda>s. s = new_lock_system) lock_step s" and "waits s key i"
  shows "phases (giveUp i err s) i = Some (Rejected err)
    \<and> queue (the (registry (giveUp i err s) key)) = filter (\<lambda>w. waiter_id w \<noteq> i) (queue (the (registry s key)))
    \<and> (\<forall>j. j \<noteq> i \<longrightarrow> phases (giveUp i err s) j = phases s j)
    \<and> (lock_step\<^sup>*\<^sup>* (giveUp i err s) t \<longrightarrow> phases t i = Some (Rejected err))"
proof -
  obtain tm where p: "phases s i = Some (Waiting key tm)" using assms(2) by (auto simp: waits_def)
  have inv: "lock_inv s" by (rule lock.reach_inv [OF assms(1)])
  then obtain st where st: "registry s key = Some st"
    using assms(2) key_ok_def [of s key] by (cases "registry s key") (auto simp: lock_inv_def)
  have keep: "lock_inv v \<and> phases v i = Some (Rejected err)"
    if a: "lock_inv u" "phases u i = Some (Rejected err)" "lock_step u v" for u v
  proof
    show inv_v: "lock_inv v" using lock.step_inv a by blast
    have less: "i < next_id u" using a by (auto simp: lock_inv_def)
    from a(3) show "phases v i = Some (Rejected err)"
    proof cases
      case (Acquire key opts)
      then show ?thesis using a(2) less by (auto simp: acquireKeyedLock_def Let_def split: option.splits)
    next
      case (Release j)
      show ?thesis
      proof (cases "\<exists>k. holds u k j")
        case True
        then obtain k where h: "holds u k j" by blast
        then obtain st where st: "registry u k = Some st" and r: "release j u = (case queue st of
             [] \<Rightarrow> u\<lparr>phases := (phases u)(j \<mapsto> Released k), registry := (registry u)(k := None)\<rparr>
           | w # ws \<Rightarrow> u\<lparr>phases := (phases u)(j \<mapsto> Released k, waiter_id w \<mapsto> Holding k),
               registry := (registry u)(k \<mapsto> \<lparr>lock_owner = waiter_owner w, queue = ws\<rparr>)\<rparr>)"
          using release_cases [OF a(1) h] by blast
        have "j \<noteq> i" "\<not> waits u k i" using a(2) h by (auto simp: waits_def holds_def)
        moreover have "waiter_id ` set (queue st) = Collect (waits u k)"
          using a(1) st key_ok_def [of u k] by (simp add: lock_inv_def)
        ultimately show ?thesis using Release a(2) r by (cases "queue st") auto
      next
        case False
        then have "release j u = u" by (auto simp: release_def holds_def split: option.splits phase.splits)
        then show ?thesis using Release a(2) by simp
      qed
    qed (use a(2) in \<open>auto simp: timer_fires_def giveUp_def split: option.splits phase.splits\<close>)
  qed
  have "lock_inv t \<and> phases t i = Some (Rejected err)" if "lock_step\<^sup>*\<^sup>* (giveUp i err s) t"
    using that
  proof (induction rule: rtranclp_induct)
    case base
    then show ?case using lock_inv_giveUp [OF inv, of i err] p by (simp add: giveUp_def)
  next
    case (step u v)
    then show ?case using keep by blast
  qed
  then show ?thesis using p st by (simp add: giveUp_def)
qed

theorem lock_give_up_witness:
  "waits demo_locked ''k'' 2 \<and> phases (giveUp 2 (AbortedBy ''gone'') demo_locked) 2 = Some (Rejected (AbortedBy ''gone''))"
proof -
  have w: "waits demo_locked ''k'' 2" by (simp add: waits_def demo_locked_state)
  show ?thesis using lock_give_up [OF demo_locked_reach w] w by simp
qed

end
