(* ===== verification/Civil_Time.thy ===== *)
theory Civil_Time
  imports Main
begin

text \<open>
  The UTC calendar of the platform's \<open>Date\<close>: times are milliseconds since the epoch, as
  integers (the \<open>Date\<close> range of 8.64e15 ms either way is far from any time the server
  handles), and \<open>Date.UTC\<close>, \<open>getUTCFullYear\<close>, \<open>getUTCMonth\<close> and \<open>getUTCDate\<close>
  are those of the language standard, its shift of the years 0 to 99 included.

  Shown here: months tile the time line. The month of a time is the one whose first day is not
  after it and whose successor's is, and every month has 28 to 31 days.
\<close>

definition DAY_MS :: int where
  "DAY_MS = 24 * 60 * 60 * 1000"

definition is_leap :: "int \<Rightarrow> bool" where
  "is_leap y \<longleftrightarrow> (y mod 4 = 0 \<and> y mod 100 \<noteq> 0) \<or> y mod 400 = 0"

definition DayFromYear :: "int \<Rightarrow> int" where
  "DayFromYear y = 365 * (y - 1970) + (y - 1969) div 4 - (y - 1901) div 100 + (y - 1601) div 400"

text \<open>The year of a day: the mean year gives it up to one, and the comparison settles it.\<close>

definition YearFromDay :: "int \<Rightarrow> int" where
  "YearFromDay d =
     (let y = 1970 + (d * 400) div 146097
      in if DayFromYear (y + 1) \<le> d then y + 1 else if d < DayFromYear y then y - 1 else y)"

text \<open>The days of a year before its month \<open>m\<close>, counted from 0.\<close>

definition month_start :: "bool \<Rightarrow> int \<Rightarrow> int" where
  "month_start leap m =
     (let l = (if leap then 1 else 0)
      in if m \<le> 0 then 0 else if m = 1 then 31 else if m = 2 then 59 + l else if m = 3 then 90 + l
      else if m = 4 then 120 + l else if m = 5 then 151 + l else if m = 6 then 181 + l
      else if m = 7 then 212 + l else if m = 8 then 243 + l else if m = 9 then 273 + l
      else if m = 10 then 304 + l else if m = 11 then 334 + l else 365 + l)"

definition MonthFromDayInYear :: "bool \<Rightarrow> int \<Rightarrow> int" where
  "MonthFromDayInYear leap n =
     (if n < month_start leap 1 then 0 else if n < month_start leap 2 then 1
      else if n < month_start leap 3 then 2 else if n < month_start leap 4 then 3
      else if n < month_start leap 5 then 4 else if n < month_start leap 6 then 5
      else if n < month_start leap 7 then 6 else if n < month_start leap 8 then 7
      else if n < month_start leap 9 then 8 else if n < month_start leap 10 then 9
      else if n < month_start leap 11 then 10 else 11)"

definition getUTCFullYear :: "int \<Rightarrow> int" where
  "getUTCFullYear t = YearFromDay (t div DAY_MS)"

definition getUTCMonth :: "int \<Rightarrow> int" where
  "getUTCMonth t =
     (let d = t div DAY_MS; y = YearFromDay d in MonthFromDayInYear (is_leap y) (d - DayFromYear y))"

definition getUTCDate :: "int \<Rightarrow> int" where
  "getUTCDate t =
     (let d = t div DAY_MS; y = YearFromDay d; n = d - DayFromYear y
      in n - month_start (is_leap y) (MonthFromDayInYear (is_leap y) n) + 1)"

text \<open>The day number of the first of month \<open>m\<close> of year \<open>y\<close>; months outside 0 to 11 carry into the year.\<close>

definition first_of :: "int \<Rightarrow> int \<Rightarrow> int" where
  "first_of y m = (let ym = y + m div 12 in DayFromYear ym + month_start (is_leap ym) (m mod 12))"

definition Date_UTC :: "int \<Rightarrow> int \<Rightarrow> int \<Rightarrow> int" where
  "Date_UTC y m dt = (let yr = (if 0 \<le> y \<and> y \<le> 99 then 1900 + y else y) in (first_of yr m + dt - 1) * DAY_MS)"

section \<open>Years\<close>

lemma div_lower: "(0 :: int) < k \<Longrightarrow> k * (x div k) \<le> x"
  by (metis mult_div_mod_eq pos_mod_sign le_add_same_cancel1)

lemma div_upper: "(0 :: int) < k \<Longrightarrow> x < k * (x div k) + k"
  by (metis add_less_cancel_left mult_div_mod_eq pos_mod_bound)

lemma div_step:
  assumes "(0 :: int) < k" "k dvd x + 1 - y"
  shows "(x + 1) div k = x div k + (if y mod k = 0 then 1 else 0)"
proof -
  have y: "(x + 1) mod k = y mod k" using assms(2) by (simp add: mod_eq_dvd_iff)
  have r: "0 \<le> x mod k" "x mod k < k" using assms(1) by simp_all
  show ?thesis
  proof (cases "x mod k = k - 1")
    case True
    then have "x + 1 = (x div k + 1) * k" using mult_div_mod_eq [of k x] by (simp only: algebra_simps mult_1)
    then have "(x + 1) div k = x div k + 1" "(x + 1) mod k = 0" using assms(1) by simp_all
    then show ?thesis using y by simp
  next
    case False
    then have r1: "0 \<le> x mod k + 1" "x mod k + 1 < k" using r by linarith+
    have "x + 1 = x mod k + 1 + x div k * k" by simp
    then have "(x + 1) div k = x div k" "(x + 1) mod k = x mod k + 1"
      using r1 assms(1) by (metis div_mult_self1 div_pos_pos_trivial add_0 less_irrefl add.commute,
          metis mod_mult_self1 mod_pos_pos_trivial)
    then show ?thesis using y r by simp
  qed
qed

lemma leap_cases:
  fixes a b c y :: int
  assumes "p400 \<Longrightarrow> p100" "p100 \<Longrightarrow> p4"
  shows "365 * (y + 1 - 1970) + (a + (if p4 then 1 else 0)) - (b + (if p100 then 1 else 0))
      + (c + (if p400 then 1 else 0)) =
    365 * (y - 1970) + a - b + c + (if p4 \<and> \<not> p100 \<or> p400 then 366 else 365)"
  using assms by (cases p4; cases p100; cases p400) simp_all

lemma year_length: "DayFromYear (y + 1) = DayFromYear y + (if is_leap y then 366 else 365)"
proof -
  have step: "(y + 1 - 1969) div 4 = (y - 1969) div 4 + (if y mod 4 = 0 then 1 else 0)"
    "(y + 1 - 1901) div 100 = (y - 1901) div 100 + (if y mod 100 = 0 then 1 else 0)"
    "(y + 1 - 1601) div 400 = (y - 1601) div 400 + (if y mod 400 = 0 then 1 else 0)"
    unfolding diff_add_eq [symmetric] by (rule div_step; simp)+
  have "y mod 400 = 0 \<Longrightarrow> y mod 100 = 0" "y mod 100 = 0 \<Longrightarrow> y mod 4 = 0"
    using dvd_trans [of 100 400 y] dvd_trans [of 4 100 y] by (simp_all add: mod_eq_0_iff_dvd)
  then show ?thesis unfolding DayFromYear_def is_leap_def step by (rule leap_cases)
qed

lemma mean_year_estimate:
  fixes a b c z :: int
  assumes "4 * a \<le> z - 1969" "z - 1969 < 4 * a + 4" "100 * b \<le> z - 1901" "z - 1901 < 100 * b + 100"
    and "400 * c \<le> z - 1601" "z - 1601 < 400 * c + 400"
  shows "400 * (365 * (z - 1970) + a - b + c) \<le> 146097 * (z - 1970) + 700"
    "146097 * (z - 1970) - 700 \<le> 400 * (365 * (z - 1970) + a - b + c)"
  using assms by simp_all

lemma DayFromYear_estimate:
  "400 * DayFromYear z \<le> 146097 * (z - 1970) + 700" "146097 * (z - 1970) - 700 \<le> 400 * DayFromYear z"
  unfolding DayFromYear_def by (rule mean_year_estimate; rule div_lower div_upper; simp)+

lemma YearFromDay_bounds: "DayFromYear (YearFromDay d) \<le> d" "d < DayFromYear (YearFromDay d + 1)"
proof -
  define q where "q = (d * 400) div 146097"
  have "146097 * q \<le> d * 400" "d * 400 < 146097 * q + 146097"
    unfolding q_def by (rule div_lower div_upper; simp)+
  then have "d < DayFromYear (1970 + q + 2)" "DayFromYear (1970 + q - 1) \<le> d"
    using DayFromYear_estimate(2) [of "1970 + q + 2"] DayFromYear_estimate(1) [of "1970 + q - 1"] by simp_all
  then show "DayFromYear (YearFromDay d) \<le> d" "d < DayFromYear (YearFromDay d + 1)"
    unfolding YearFromDay_def Let_def q_def [symmetric] by (simp_all add: algebra_simps)
qed

section \<open>Months\<close>

text \<open>Months counted through the years, and the day number of the first of each.\<close>

definition first_day :: "int \<Rightarrow> int" where
  "first_day k = DayFromYear (k div 12) + month_start (is_leap (k div 12)) (k mod 12)"

definition month_days :: "int \<Rightarrow> int" where
  "month_days k = first_day (k + 1) - first_day k"

definition month_of :: "int \<Rightarrow> int" where
  "month_of t = 12 * getUTCFullYear t + getUTCMonth t"

lemma first_of_first_day: "first_of y m = first_day (12 * y + m)"
  by (simp add: first_of_def first_day_def Let_def)

lemma month_cases: "0 \<le> (m :: int) \<Longrightarrow> m \<le> 11 \<Longrightarrow> m \<in> {0, 1, 2, 3, 4, 5, 6, 7, 8, 9, 10, 11}"
  unfolding insert_iff empty_iff by presburger

lemma month_start_step:
  assumes "0 \<le> m" "m \<le> 11"
  shows "month_start l m + 28 \<le> month_start l (m + 1)" "month_start l (m + 1) \<le> month_start l m + 31"
  using month_cases [OF assms] unfolding insert_iff empty_iff
  by (elim disjE; simp add: month_start_def)+

lemma first_day_12: "0 \<le> m \<Longrightarrow> m \<le> 11 \<Longrightarrow> first_day (12 * y + m) = DayFromYear y + month_start (is_leap y) m"
  by (simp add: first_day_def)

lemma first_day_next:
  assumes "0 \<le> m" "m \<le> 11"
  shows "first_day (12 * y + m + 1) = DayFromYear y + month_start (is_leap y) (m + 1)"
proof (cases "m = 11")
  case True
  then have "12 * y + m + 1 = 12 * (y + 1) + 0" by simp
  then have "first_day (12 * y + m + 1) = DayFromYear (y + 1) + month_start (is_leap (y + 1)) 0"
    using first_day_12 [of 0 "y + 1"] by (simp only: order.refl zero_le_numeral simp_thms)
  then show ?thesis using year_length [of y] True by (simp add: month_start_def Let_def)
next
  case False
  then have "0 \<le> m + 1" "m + 1 \<le> 11" using assms by linarith+
  then show ?thesis using first_day_12 [of "m + 1" y] by (simp add: add.assoc)
qed

lemma month_days_bounds: "28 \<le> month_days k" "month_days k \<le> 31"
proof -
  obtain y m where k: "k = 12 * y + m" and m: "0 \<le> m" "m \<le> 11"
  proof
    show "k = 12 * (k div 12) + k mod 12" by simp
    show "0 \<le> k mod 12" by simp
    show "k mod 12 \<le> 11" using pos_mod_bound [of 12 k] by linarith
  qed
  show "28 \<le> month_days k" "month_days k \<le> 31"
    using month_start_step [OF m, of "is_leap y"] unfolding month_days_def k first_day_next [OF m] first_day_12 [OF m] by simp_all
qed

lemma first_day_mono: "k \<le> j \<Longrightarrow> first_day k \<le> first_day j"
proof (induction j rule: int_ge_induct)
  case (step j)
  then show ?case using month_days_bounds(1) [of j] by (simp add: month_days_def)
qed simp

lemma month_unique:
  assumes "first_day k \<le> d" "d < first_day (k + 1)" "first_day j \<le> d" "d < first_day (j + 1)"
  shows "k = j"
proof (rule ccontr)
  assume "k \<noteq> j"
  then consider "k + 1 \<le> j" | "j + 1 \<le> k" by linarith
  then show False
    by cases (use assms first_day_mono [of "k + 1" j] first_day_mono [of "j + 1" k] in linarith)+
qed

lemma MonthFromDayInYear_bounds:
  assumes "0 \<le> n" "n < (if l then 366 else 365)"
  shows "0 \<le> MonthFromDayInYear l n" "MonthFromDayInYear l n \<le> 11"
    "month_start l (MonthFromDayInYear l n) \<le> n" "n < month_start l (MonthFromDayInYear l n + 1)"
proof -
  have s: "month_start l 1 = 31" "month_start l 0 = 0" "month_start l 12 = (if l then 366 else 365)"
    by (simp_all add: month_start_def)
  show "0 \<le> MonthFromDayInYear l n" "MonthFromDayInYear l n \<le> 11"
    by (simp_all add: MonthFromDayInYear_def)
  show "month_start l (MonthFromDayInYear l n) \<le> n" "n < month_start l (MonthFromDayInYear l n + 1)"
    using assms s unfolding MonthFromDayInYear_def by simp_all
qed

lemma month_of_bounds:
  "first_day (month_of t) \<le> t div DAY_MS" "t div DAY_MS < first_day (month_of t + 1)"
  and getUTCDate_month: "getUTCDate t = t div DAY_MS - first_day (month_of t) + 1"
proof -
  define d y n where "d = t div DAY_MS" and "y = YearFromDay d" and "n = d - DayFromYear y"
  let ?m = "MonthFromDayInYear (is_leap y) n"
  have n: "0 \<le> n" "n < (if is_leap y then 366 else 365)"
    using YearFromDay_bounds [of d] year_length [of y] by (simp_all add: n_def y_def)
  note m = MonthFromDayInYear_bounds [OF n]
  have k: "month_of t = 12 * y + ?m"
    by (simp add: month_of_def getUTCFullYear_def getUTCMonth_def Let_def y_def n_def d_def)
  have here: "first_day (month_of t) = DayFromYear y + month_start (is_leap y) ?m"
    using first_day_12 [OF m(1,2)] k by simp
  have "first_day (month_of t + 1) = DayFromYear y + month_start (is_leap y) (?m + 1)"
    using first_day_next [OF m(1,2)] k by simp
  then show "first_day (month_of t) \<le> t div DAY_MS" "t div DAY_MS < first_day (month_of t + 1)"
    using here m(3,4) by (simp_all add: n_def d_def)
  show "getUTCDate t = t div DAY_MS - first_day (month_of t) + 1"
    unfolding here by (simp add: getUTCDate_def Let_def d_def y_def n_def)
qed

text \<open>The last day of a month, read as the code reads it: day zero of the next.\<close>

lemma last_day_of_month:
  assumes "100 \<le> y"
  shows "getUTCDate (Date_UTC y (m + 1) 0) = month_days (12 * y + m)"
proof -
  let ?t = "Date_UTC y (m + 1) 0"
  have day: "?t div DAY_MS = first_day (12 * y + m + 1) - 1"
    using assms by (simp add: Date_UTC_def Let_def first_of_first_day DAY_MS_def add.assoc)
  have "first_day (12 * y + m) \<le> ?t div DAY_MS" "?t div DAY_MS < first_day (12 * y + m + 1)"
    using day month_days_bounds(1) [of "12 * y + m"] by (simp_all add: month_days_def)
  then have "month_of ?t = 12 * y + m" using month_of_bounds month_unique by blast
  then show ?thesis using day by (simp add: getUTCDate_month month_days_def)
qed

end
