(* ===== verification/Budget.thy ===== *)
theory Budget
  imports Complex_Main Utf8 Civil_Time
begin

text \<open>
  Budgets: the cross-window rules and the container-hours windows of \<open>shared/src/budget.ts\<close>
  and the write-path checks of \<open>server/src/lib/budget-validation.ts\<close>.

  Limits are integers and the month factors \<open>365/12\<close> and \<open>52/12\<close> are the rational numbers:
  the code computes with doubles, whose rounded factor and product give the same ceiling for every
  limit below 2^44 (the rounding moves a product by less than the twelfth that separates it from
  the next integer, and a product that is an integer rounds to it or just below it).
\<close>

section \<open>Windows in any unit\<close>

record BudgetWindows =
  daily :: int
  weekly :: int
  monthly :: int

definition isEnabled :: "int \<Rightarrow> bool" where
  "isEnabled limit \<longleftrightarrow> limit > 0"

definition DAYS_PER_WEEK :: int where
  "DAYS_PER_WEEK = 7"

definition DAYS_PER_MONTH :: rat where
  "DAYS_PER_MONTH = 365 / 12"

definition WEEKS_PER_MONTH :: rat where
  "WEEKS_PER_MONTH = 52 / 12"

definition minWeeklyLimit :: "int \<Rightarrow> int" where
  "minWeeklyLimit d = (if isEnabled d then d * DAYS_PER_WEEK else 0)"

definition minMonthlyLimit :: "int \<Rightarrow> int \<Rightarrow> int" where
  "minMonthlyLimit d w =
     (let m = 0;
          m = (if isEnabled d then max m \<lceil>of_int d * DAYS_PER_MONTH\<rceil> else m)
      in if isEnabled w then max m \<lceil>of_int w * WEEKS_PER_MONTH\<rceil> else m)"

datatype FloorBasis = WeekFromDay | MonthFromDay | MonthFromWeek

datatype BudgetWindow = Weekly | Monthly

record WindowViolation =
  violated :: BudgetWindow
  min_limit :: int
  basis :: FloorBasis

definition windowViolations :: "BudgetWindows \<Rightarrow> WindowViolation list" where
  "windowViolations w =
     (let weeklyFloor = minWeeklyLimit (daily w);
          monthlyFloor = minMonthlyLimit (daily w) (weekly w);
          dailyImplied = (if isEnabled (daily w) then \<lceil>of_int (daily w) * DAYS_PER_MONTH\<rceil> else 0);
          weeklyImplied = (if isEnabled (weekly w) then \<lceil>of_int (weekly w) * WEEKS_PER_MONTH\<rceil> else 0)
      in (if isEnabled (weekly w) \<and> weekly w < weeklyFloor
          then [\<lparr>violated = Weekly, min_limit = weeklyFloor, basis = WeekFromDay\<rparr>] else [])
       @ (if isEnabled (monthly w) \<and> monthly w < monthlyFloor
          then [\<lparr>violated = Monthly, min_limit = monthlyFloor,
                 basis = (if dailyImplied \<ge> weeklyImplied then MonthFromDay else MonthFromWeek)\<rparr>] else []))"

definition normalizeWindowsUp :: "BudgetWindows \<Rightarrow> BudgetWindows" where
  "normalizeWindowsUp w =
     (let wk = (if isEnabled (weekly w) then max (weekly w) (minWeeklyLimit (daily w)) else weekly w);
          mo = (if isEnabled (monthly w) then max (monthly w) (minMonthlyLimit (daily w) wk) else monthly w)
      in \<lparr>daily = daily w, weekly = wk, monthly = mo\<rparr>)"

section \<open>Refusals as sentences\<close>

text \<open>Numbers in decimal; \<open>englishCount\<close> is \<open>toLocaleString('en-US')\<close> on a whole number.\<close>

fun group3 :: "string \<Rightarrow> string" where
  "group3 (a # b # c # d # ds) = a # b # c # CHR '','' # group3 (d # ds)"
| "group3 ds = ds"

definition englishCount :: "int \<Rightarrow> string" where
  "englishCount v = (if v < 0 then ''-'' else []) @ rev (group3 (rev (digits (nat \<bar>v\<bar>))))"

definition describeTokenBudget :: "int \<Rightarrow> string" where
  "describeTokenBudget tokens = (if tokens > 0 then englishCount tokens @ '' tokens'' else ''unlimited'')"

definition TIMES :: utext where
  "TIMES = [0xD7]"

definition VIOLATION_BASIS :: "FloorBasis \<Rightarrow> utext" where
  "VIOLATION_BASIS b = (case b of
     WeekFromDay \<Rightarrow> cps ''daily budget (daily '' @ TIMES @ cps '' 7)''
   | MonthFromDay \<Rightarrow> cps ''daily budget (daily '' @ TIMES @ cps '' 365/12)''
   | MonthFromWeek \<Rightarrow> cps ''weekly budget (weekly '' @ TIMES @ cps '' 52/12)'')"

definition VIOLATION_WINDOW :: "BudgetWindow \<Rightarrow> string" where
  "VIOLATION_WINDOW w = (case w of Weekly \<Rightarrow> ''Weekly'' | Monthly \<Rightarrow> ''Monthly'')"

definition window_name :: "BudgetWindow \<Rightarrow> string" where
  "window_name w = (case w of Weekly \<Rightarrow> ''weekly'' | Monthly \<Rightarrow> ''monthly'')"

record BudgetViolation =
  field :: string
  min_units :: int
  message :: utext

record BudgetWindowsTokens =
  daily_budget_tokens :: int
  weekly_budget_tokens :: int
  monthly_budget_tokens :: int

definition tokenWindows :: "BudgetWindowsTokens \<Rightarrow> BudgetWindows" where
  "tokenWindows w = \<lparr>daily = daily_budget_tokens w, weekly = weekly_budget_tokens w, monthly = monthly_budget_tokens w\<rparr>"

definition validateBudgetWindows :: "BudgetWindowsTokens \<Rightarrow> BudgetViolation list" where
  "validateBudgetWindows w = map (\<lambda>v.
     \<lparr>field = window_name (violated v) @ ''_budget_tokens'',
      min_units = min_limit v,
      message = cps (VIOLATION_WINDOW (violated v) @ '' budget must be at least '' @ englishCount (min_limit v)
        @ '' tokens to cover the '') @ VIOLATION_BASIS (basis v) @ cps ''.''\<rparr>)
     (windowViolations (tokenWindows w))"

definition normalizeBudgetWindowsUp :: "BudgetWindowsTokens \<Rightarrow> BudgetWindowsTokens" where
  "normalizeBudgetWindowsUp w =
     (let n = normalizeWindowsUp (tokenWindows w)
      in \<lparr>daily_budget_tokens = daily n, weekly_budget_tokens = weekly n, monthly_budget_tokens = monthly n\<rparr>)"

record BudgetWindowsContainerSeconds =
  daily_budget_container_seconds :: int
  weekly_budget_container_seconds :: int
  monthly_budget_container_seconds :: int

definition containerSecondsWindows :: "BudgetWindowsContainerSeconds \<Rightarrow> BudgetWindows" where
  "containerSecondsWindows w = \<lparr>daily = daily_budget_container_seconds w,
     weekly = weekly_budget_container_seconds w, monthly = monthly_budget_container_seconds w\<rparr>"

definition SECONDS_PER_HOUR :: int where
  "SECONDS_PER_HOUR = 3600"

definition containerSecondsToHours :: "int \<Rightarrow> rat" where
  "containerSecondsToHours s = of_int \<lceil>of_int s / (of_int SECONDS_PER_HOUR / 100) :: rat\<rceil> / 100"

text \<open>A number of hundredths as JavaScript prints it, without trailing zeros.\<close>

definition show_hours :: "rat \<Rightarrow> string" where
  "show_hours h =
     (let c = nat \<lfloor>h * 100\<rfloor>; whole = digits (c div 100); f = c mod 100
      in if f = 0 then whole
      else if f mod 10 = 0 then whole @ ''.'' @ digits (f div 10)
      else if f < 10 then whole @ ''.0'' @ digits f
      else whole @ ''.'' @ digits f)"

definition validateContainerHoursBudgetWindows :: "BudgetWindowsContainerSeconds \<Rightarrow> BudgetViolation list" where
  "validateContainerHoursBudgetWindows w = map (\<lambda>v.
     \<lparr>field = window_name (violated v) @ ''_budget_container_seconds'',
      min_units = min_limit v,
      message = cps (VIOLATION_WINDOW (violated v) @ '' hours budget must be at least ''
        @ show_hours (containerSecondsToHours (min_limit v)) @ '' hours ('' @ digits (nat (min_limit v))
        @ '' seconds) to cover the '') @ VIOLATION_BASIS (basis v) @ cps ''.''\<rparr>)
     (windowViolations (containerSecondsWindows w))"

section \<open>Checking a write\<close>

text \<open>
  A request body is a map from keys to values of unknown type; a number is a finite double, NaN
  and the infinities are \<open>JNonFinite\<close>. \<open>Some JUndefined\<close> is a key that is present with the
  value \<open>undefined\<close>.
\<close>

datatype js_value = JUndefined | JNull | JBool bool | JNum rat | JNonFinite | JString string | JObject

type_synonym js_body = "string \<rightharpoonup> js_value"

definition RETIRED_BUDGET_FIELDS :: "(string \<times> string) list" where
  "RETIRED_BUDGET_FIELDS =
     [(''daily_budget_cents'', ''daily_budget_tokens''),
      (''weekly_budget_cents'', ''weekly_budget_tokens''),
      (''monthly_budget_cents'', ''monthly_budget_tokens'')]"

fun join :: "string \<Rightarrow> string list \<Rightarrow> string" where
  "join sep [] = []"
| "join sep [x] = x"
| "join sep (x # y # ys) = x @ sep @ join sep (y # ys)"

definition retiredBudgetFieldMessage :: "(string \<times> string) list \<Rightarrow> string" where
  "retiredBudgetFieldMessage found =
     ''Budgets are counted in tokens, not dollars. Send ''
     @ join '', '' (map (\<lambda>(old, new). old @ '' -> '' @ new) found) @ '' instead.''"

text \<open>\<open>None\<close> for a body that is not an object at all.\<close>

definition retiredBudgetFieldError :: "js_body option \<Rightarrow> utext option" where
  "retiredBudgetFieldError body = (case body of
     None \<Rightarrow> None
   | Some b \<Rightarrow>
       let found = filter (\<lambda>(old, new). b old \<noteq> None) RETIRED_BUDGET_FIELDS
       in if found = [] then None else Some (cps (retiredBudgetFieldMessage found)))"

type_synonym trio = "string \<Rightarrow> js_value"

record TrioRules =
  rule_fields :: "string list"
  unit_name :: string
  violations :: "trio \<Rightarrow> utext list"

text \<open>A checked value read as the integer it is.\<close>

definition the_int :: "js_value \<Rightarrow> int" where
  "the_int v = (case v of JNum r \<Rightarrow> \<lfloor>r\<rfloor> | _ \<Rightarrow> 0)"

definition tokens_of :: "trio \<Rightarrow> BudgetWindowsTokens" where
  "tokens_of w = \<lparr>daily_budget_tokens = the_int (w ''daily_budget_tokens''),
     weekly_budget_tokens = the_int (w ''weekly_budget_tokens''),
     monthly_budget_tokens = the_int (w ''monthly_budget_tokens'')\<rparr>"

definition seconds_of :: "trio \<Rightarrow> BudgetWindowsContainerSeconds" where
  "seconds_of w = \<lparr>daily_budget_container_seconds = the_int (w ''daily_budget_container_seconds''),
     weekly_budget_container_seconds = the_int (w ''weekly_budget_container_seconds''),
     monthly_budget_container_seconds = the_int (w ''monthly_budget_container_seconds'')\<rparr>"

definition TOKEN_RULES :: TrioRules where
  "TOKEN_RULES = \<lparr>rule_fields = [''daily_budget_tokens'', ''weekly_budget_tokens'', ''monthly_budget_tokens''],
     unit_name = ''tokens'', violations = (\<lambda>w. map message (validateBudgetWindows (tokens_of w)))\<rparr>"

definition CONTAINER_HOURS_RULES :: TrioRules where
  "CONTAINER_HOURS_RULES =
     \<lparr>rule_fields = [''daily_budget_container_seconds'', ''weekly_budget_container_seconds'',
        ''monthly_budget_container_seconds''],
      unit_name = ''seconds'', violations = (\<lambda>w. map message (validateContainerHoursBudgetWindows (seconds_of w)))\<rparr>"

definition isSafeInteger :: "rat \<Rightarrow> bool" where
  "isSafeInteger r \<longleftrightarrow> of_int \<lfloor>r\<rfloor> = r \<and> \<bar>r\<bar> \<le> 2 ^ 53 - 1"

definition whole_units :: "js_value \<Rightarrow> bool" where
  "whole_units v = (case v of JNum r \<Rightarrow> isSafeInteger r \<and> \<not> r < 0 | _ \<Rightarrow> False)"

fun first_bad_field :: "trio \<Rightarrow> string list \<Rightarrow> string option" where
  "first_bad_field w [] = None"
| "first_bad_field w (f # fs) = (if \<not> whole_units (w f) then Some f else first_bad_field w fs)"

definition trioError :: "TrioRules \<Rightarrow> trio \<Rightarrow> utext option" where
  "trioError rules w = (case first_bad_field w (rule_fields rules) of
     Some f \<Rightarrow> Some (cps (f @ '' must be a whole number of '' @ unit_name rules @ '' '') @ [0x2265] @ cps '' 0'')
   | None \<Rightarrow> (case violations rules w of m # _ \<Rightarrow> Some m | [] \<Rightarrow> None))"

fun merge_fields :: "js_body \<Rightarrow> string list \<Rightarrow> trio \<times> bool \<Rightarrow> trio \<times> bool" where
  "merge_fields body [] acc = acc"
| "merge_fields body (f # fs) (merged, supplied) =
     (let value = (case body f of None \<Rightarrow> JUndefined | Some v \<Rightarrow> v)
      in merge_fields body fs (if value \<noteq> JUndefined then (merged(f := value), True) else (merged, supplied)))"

definition mergeTrio :: "TrioRules \<Rightarrow> js_body \<Rightarrow> trio \<Rightarrow> trio \<times> bool" where
  "mergeTrio rules body base = merge_fields body (rule_fields rules) (base, False)"

definition budgetWindowsError :: "trio \<Rightarrow> utext option" where
  "budgetWindowsError w = trioError TOKEN_RULES w"

definition budgetWriteError :: "js_body \<Rightarrow> trio \<Rightarrow> utext option" where
  "budgetWriteError body base = (case retiredBudgetFieldError (Some body) of
     Some e \<Rightarrow> Some e
   | None \<Rightarrow> (case mergeTrio TOKEN_RULES body base of (merged, supplied) \<Rightarrow>
       if supplied then trioError TOKEN_RULES merged else None))"

definition containerHoursBudgetWrite :: "js_body \<Rightarrow> trio \<Rightarrow> utext + (trio \<times> bool)" where
  "containerHoursBudgetWrite body base = (case mergeTrio CONTAINER_HOURS_RULES body base of (merged, supplied) \<Rightarrow>
     (case trioError CONTAINER_HOURS_RULES merged of Some e \<Rightarrow> Inl e | None \<Rightarrow> Inr (merged, supplied)))"

section \<open>The container-hours window\<close>

definition CONTAINER_HOURS_ANCHOR_MIN_DAY :: int where
  "CONTAINER_HOURS_ANCHOR_MIN_DAY = 1"

definition CONTAINER_HOURS_ANCHOR_MAX_DAY :: int where
  "CONTAINER_HOURS_ANCHOR_MAX_DAY = 31"

definition MONTH_STRIDE_DAYS :: int where
  "MONTH_STRIDE_DAYS = 32"

definition occurrenceInMonth :: "int \<Rightarrow> int \<Rightarrow> int \<Rightarrow> int" where
  "occurrenceInMonth year month day =
     (let lastDay = getUTCDate (Date_UTC year (month + 1) 0) in Date_UTC year month (min day lastDay))"

definition math_trunc :: "rat \<Rightarrow> int" where
  "math_trunc x = (if x < 0 then \<lceil>x\<rceil> else \<lfloor>x\<rfloor>)"

definition anchor_day :: "rat \<Rightarrow> int" where
  "anchor_day a = min (max (math_trunc a) CONTAINER_HOURS_ANCHOR_MIN_DAY) CONTAINER_HOURS_ANCHOR_MAX_DAY"

definition anchoredWindowStart :: "rat option \<Rightarrow> int \<Rightarrow> int" where
  "anchoredWindowStart anchorDay now =
     (let year = getUTCFullYear now; month = getUTCMonth now
      in case anchorDay of
        None \<Rightarrow> Date_UTC year month 1
      | Some a \<Rightarrow>
          let day = anchor_day a; thisMonth = occurrenceInMonth year month day
          in if thisMonth \<le> now then thisMonth else occurrenceInMonth year (month - 1) day)"

definition containerHoursWindowStart :: "rat option \<Rightarrow> int \<Rightarrow> int option \<Rightarrow> int" where
  "containerHoursWindowStart anchorDay now since =
     (let natural = anchoredWindowStart anchorDay now
      in case since of Some s \<Rightarrow> if s > natural then s else natural | None \<Rightarrow> natural)"

definition containerHoursWindow :: "rat option \<Rightarrow> int \<Rightarrow> int option \<Rightarrow> int \<times> int" where
  "containerHoursWindow anchorDay now since =
     (let anchored = anchoredWindowStart anchorDay now
      in (containerHoursWindowStart anchorDay now since,
          anchoredWindowStart anchorDay (anchored + MONTH_STRIDE_DAYS * DAY_MS)))"

definition previousContainerHoursWindowStart :: "rat option \<Rightarrow> int \<Rightarrow> int option \<Rightarrow> int" where
  "previousContainerHoursWindowStart anchorDay now since =
     (let start = containerHoursWindowStart anchorDay now since;
          previous = containerHoursWindowStart anchorDay (anchoredWindowStart anchorDay now - 1) since
      in if previous < start then previous else start)"

section \<open>Lemmas on the windows\<close>

text \<open>The anchor's occurrence in month \<open>k\<close>, and the day an unset anchor stands for.\<close>

definition occ :: "int \<Rightarrow> int \<Rightarrow> int" where
  "occ day k = (first_day k + min day (month_days k) - 1) * DAY_MS"

definition day_of :: "rat option \<Rightarrow> int" where
  "day_of a = (case a of None \<Rightarrow> 1 | Some x \<Rightarrow> anchor_day x)"

lemma day_of_bounds: "1 \<le> day_of a" "day_of a \<le> 31"
  by (simp_all add: day_of_def anchor_day_def CONTAINER_HOURS_ANCHOR_MIN_DAY_def
      CONTAINER_HOURS_ANCHOR_MAX_DAY_def split: option.split)

lemma DAY_MS_pos: "0 < DAY_MS"
  by (simp add: DAY_MS_def)

lemma occ_step:
  assumes "1 \<le> day" "day \<le> 31"
  shows "occ day k + 28 * DAY_MS \<le> occ day (k + 1)" "occ day (k + 1) \<le> occ day k + 31 * DAY_MS"
proof -
  note b = month_days_bounds [of k] month_days_bounds [of "k + 1"]
  have eq: "occ day (k + 1) = occ day k + (month_days k + min day (month_days (k + 1)) - min day (month_days k)) * DAY_MS"
    by (simp add: occ_def month_days_def algebra_simps)
  have "28 \<le> month_days k + min day (month_days (k + 1)) - min day (month_days k)"
    "month_days k + min day (month_days (k + 1)) - min day (month_days k) \<le> 31"
    using assms b by (auto simp: min_def)
  then show "occ day k + 28 * DAY_MS \<le> occ day (k + 1)" "occ day (k + 1) \<le> occ day k + 31 * DAY_MS"
    unfolding eq using DAY_MS_pos by (simp_all add: mult_right_mono)
qed

lemma occ_mono:
  assumes "1 \<le> day" "day \<le> 31"
  shows "k \<le> j \<Longrightarrow> occ day k \<le> occ day j"
proof (induction j rule: int_ge_induct)
  case (step j)
  then show ?case using occ_step(1) [OF assms, of j] DAY_MS_pos by linarith
qed simp

lemma occ_unique:
  assumes "1 \<le> day" "day \<le> 31" "occ day k \<le> t" "t < occ day (k + 1)" "occ day j \<le> t" "t < occ day (j + 1)"
  shows "k = j"
proof (rule ccontr)
  assume "k \<noteq> j"
  then consider "k + 1 \<le> j" | "j + 1 \<le> k" by linarith
  then show False
    by cases (use assms occ_mono [of day "k + 1" j] occ_mono [of day "j + 1" k] in linarith)+
qed

lemma occurrenceInMonth_occ: "100 \<le> y \<Longrightarrow> occurrenceInMonth y m day = occ day (12 * y + m)"
  unfolding occurrenceInMonth_def Let_def by (subst last_day_of_month; simp add: Date_UTC_def first_of_first_day occ_def)

lemma year_since_epoch: "0 \<le> t \<Longrightarrow> 1969 \<le> getUTCFullYear t"
  by (simp add: getUTCFullYear_def YearFromDay_def Let_def DAY_MS_def pos_imp_zdiv_nonneg_iff)

lemma month_of_times:
  "first_day (month_of t) * DAY_MS \<le> t" "t < first_day (month_of t + 1) * DAY_MS"
proof -
  have "first_day (month_of t) * DAY_MS \<le> (t div DAY_MS) * DAY_MS"
    using month_of_bounds(1) DAY_MS_pos by (simp add: mult_right_mono)
  then show "first_day (month_of t) * DAY_MS \<le> t" using div_lower [OF DAY_MS_pos, of t] by (simp add: mult.commute)
  have "(t div DAY_MS + 1) * DAY_MS \<le> first_day (month_of t + 1) * DAY_MS"
    using month_of_bounds(2) [of t] DAY_MS_pos by (intro mult_right_mono) auto
  then show "t < first_day (month_of t + 1) * DAY_MS"
    using div_upper [OF DAY_MS_pos, of t] by (simp add: algebra_simps)
qed

lemma occ_in_month:
  assumes "1 \<le> day"
  shows "first_day k * DAY_MS \<le> occ day k" "occ day k < first_day (k + 1) * DAY_MS"
proof -
  have "first_day k \<le> first_day k + min day (month_days k) - 1"
    using assms month_days_bounds(1) [of k] by simp
  then show "first_day k * DAY_MS \<le> occ day k"
    unfolding occ_def by (rule mult_right_mono) (simp add: DAY_MS_def)
  have "first_day k + min day (month_days k) - 1 < first_day (k + 1)" by (simp add: month_days_def)
  then show "occ day k < first_day (k + 1) * DAY_MS"
    unfolding occ_def by (rule mult_strict_right_mono) (rule DAY_MS_pos)
qed

lemma anchoredWindowStart_occ:
  assumes "0 \<le> now"
  shows "\<exists>k. anchoredWindowStart a now = occ (day_of a) k \<and> occ (day_of a) k \<le> now \<and> now < occ (day_of a) (k + 1)"
proof -
  let ?y = "getUTCFullYear now" and ?k = "month_of now" and ?d = "day_of a"
  have y: "100 \<le> ?y" using year_since_epoch [OF assms] by simp
  note d = day_of_bounds [of a]
  have occs: "occurrenceInMonth ?y (getUTCMonth now) ?d = occ ?d ?k"
    "occurrenceInMonth ?y (getUTCMonth now - 1) ?d = occ ?d (?k - 1)"
    using y by (simp_all add: occurrenceInMonth_occ month_of_def add_diff_eq)
  have unset: "Date_UTC ?y (getUTCMonth now) 1 = occ 1 ?k"
    using y month_days_bounds(1) [of ?k]
    by (simp add: Date_UTC_def Let_def first_of_first_day occ_def month_of_def)
  have start: "anchoredWindowStart a now = (if occ ?d ?k \<le> now then occ ?d ?k else occ ?d (?k - 1))"
  proof (cases a)
    case None
    moreover have "occ 1 ?k \<le> now"
      using month_of_times(1) [of now] month_days_bounds(1) [of ?k] by (simp add: occ_def)
    ultimately show ?thesis using unset by (simp add: anchoredWindowStart_def day_of_def Let_def)
  next
    case (Some x)
    then show ?thesis using occs by (simp add: anchoredWindowStart_def day_of_def Let_def)
  qed
  show ?thesis
  proof (cases "occ ?d ?k \<le> now")
    case True
    moreover have "now < occ ?d (?k + 1)"
      using month_of_times(2) [of now] occ_in_month(1) [OF d(1), of "?k + 1"] by linarith
    ultimately show ?thesis using start by auto
  next
    case False
    moreover have "occ ?d (?k - 1) \<le> now"
      using month_of_times(1) [of now] occ_in_month(2) [OF d(1), of "?k - 1"] by simp
    ultimately show ?thesis using start by (intro exI [of _ "?k - 1"]) auto
  qed
qed

lemma anchoredWindowStart_eq:
  assumes "0 \<le> t" "occ (day_of a) k \<le> t" "t < occ (day_of a) (k + 1)"
  shows "anchoredWindowStart a t = occ (day_of a) k"
  using anchoredWindowStart_occ [OF assms(1), of a] occ_unique [OF day_of_bounds assms(2,3)] by blast

lemma containerHoursWindow_occ:
  assumes "0 \<le> t" "occ (day_of a) k \<le> t" "t < occ (day_of a) (k + 1)"
  shows "containerHoursWindow a t None = (occ (day_of a) k, occ (day_of a) (k + 1))"
proof -
  let ?d = "day_of a"
  note s = occ_step [OF day_of_bounds [of a]]
  have start: "anchoredWindowStart a t = occ ?d k" by (rule anchoredWindowStart_eq [OF assms])
  have "occ ?d (k + 1) \<le> occ ?d k + 32 * DAY_MS" "occ ?d k + 32 * DAY_MS < occ ?d (k + 1 + 1)"
    using s(2) [of k] s(1) [of k] s(1) [of "k + 1"] DAY_MS_pos by linarith+
  moreover have "0 \<le> occ ?d k + 32 * DAY_MS" using s(2) [of k] assms(1,3) DAY_MS_pos by linarith
  ultimately have "anchoredWindowStart a (occ ?d k + 32 * DAY_MS) = occ ?d (k + 1)"
    by (intro anchoredWindowStart_eq)
  then show ?thesis
    using start by (simp add: containerHoursWindow_def containerHoursWindowStart_def MONTH_STRIDE_DAYS_def Let_def)
qed

lemma getUTCDate_occ: "1 \<le> day \<Longrightarrow> getUTCDate (occ day k) = min day (month_days k) \<and> month_of (occ day k) = k"
proof -
  assume d: "1 \<le> day"
  let ?t = "occ day k"
  have day: "?t div DAY_MS = first_day k + min day (month_days k) - 1" by (simp add: occ_def DAY_MS_def)
  then have "first_day k \<le> ?t div DAY_MS" "?t div DAY_MS < first_day (k + 1)"
    using d month_days_bounds(1) [of k] by (simp_all add: month_days_def)
  then have "month_of ?t = k" using month_of_bounds month_unique by blast
  then show ?thesis using day by (simp add: getUTCDate_month)
qed

section \<open>Lemmas on the floors\<close>

lemma ceiling_le_ratio: "\<lceil>of_int x * (a / 12) :: rat\<rceil> \<le> y \<longleftrightarrow> of_int x * a \<le> of_int (12 * y)"
  by (simp add: ceiling_le_iff field_simps)

lemma floor_iff:
  "\<lceil>of_int x * DAYS_PER_MONTH\<rceil> \<le> y \<longleftrightarrow> 365 * x \<le> 12 * y"
  "\<lceil>of_int x * WEEKS_PER_MONTH\<rceil> \<le> y \<longleftrightarrow> 52 * x \<le> 12 * y"
proof -
  have "\<lceil>of_int x * (of_int n / 12) :: rat\<rceil> \<le> y \<longleftrightarrow> n * x \<le> 12 * y" for n
    unfolding ceiling_le_ratio of_int_mult [symmetric] of_int_le_iff by (simp add: mult.commute)
  from this [of 365] this [of 52]
  show "\<lceil>of_int x * DAYS_PER_MONTH\<rceil> \<le> y \<longleftrightarrow> 365 * x \<le> 12 * y"
    "\<lceil>of_int x * WEEKS_PER_MONTH\<rceil> \<le> y \<longleftrightarrow> 52 * x \<le> 12 * y"
    by (simp_all add: DAYS_PER_MONTH_def WEEKS_PER_MONTH_def)
qed

lemma minMonthlyLimit_le_iff:
  "minMonthlyLimit d w \<le> y \<longleftrightarrow> 0 \<le> y \<and> (0 < d \<longrightarrow> 365 * d \<le> 12 * y) \<and> (0 < w \<longrightarrow> 52 * w \<le> 12 * y)"
  by (auto simp: minMonthlyLimit_def Let_def isEnabled_def floor_iff)

lemma minWeeklyLimit_le_iff: "minWeeklyLimit d \<le> y \<longleftrightarrow> (if 0 < d then 7 * d \<le> y else 0 \<le> y)"
  by (auto simp: minWeeklyLimit_def isEnabled_def DAYS_PER_WEEK_def)

text \<open>The rules as the documentation states them: a longer window covers the rate of a shorter one.\<close>

definition coherent :: "BudgetWindows \<Rightarrow> bool" where
  "coherent w \<longleftrightarrow>
     (0 < weekly w \<and> 0 < daily w \<longrightarrow> 7 * daily w \<le> weekly w)
   \<and> (0 < monthly w \<and> 0 < daily w \<longrightarrow> 365 * daily w \<le> 12 * monthly w)
   \<and> (0 < monthly w \<and> 0 < weekly w \<longrightarrow> 52 * weekly w \<le> 12 * monthly w)"

lemma windowViolations_coherent: "windowViolations w = [] \<longleftrightarrow> coherent w"
  unfolding windowViolations_def Let_def isEnabled_def linorder_not_le [symmetric]
    minMonthlyLimit_le_iff minWeeklyLimit_le_iff coherent_def by auto

lemma violated_windows:
  "map violated (windowViolations w) =
     (if 0 < weekly w \<and> weekly w < minWeeklyLimit (daily w) then [Weekly] else [])
     @ (if 0 < monthly w \<and> monthly w < minMonthlyLimit (daily w) (weekly w) then [Monthly] else [])"
  unfolding windowViolations_def Let_def isEnabled_def map_append if_distrib [of "map violated"] by simp

lemma weekly_violated:
  "Weekly \<in> violated ` set (windowViolations w) \<longleftrightarrow> 0 < weekly w \<and> weekly w < minWeeklyLimit (daily w)"
  unfolding list.set_map [symmetric] violated_windows by simp

lemma monthly_violated:
  "Monthly \<in> violated ` set (windowViolations w) \<longleftrightarrow>
     0 < monthly w \<and> monthly w < minMonthlyLimit (daily w) (weekly w)"
  unfolding list.set_map [symmetric] violated_windows by simp

text \<open>The trio is a valid one for the write path: whole, safe, non-negative and coherent.\<close>

definition sound_tokens :: "trio \<Rightarrow> bool" where
  "sound_tokens w \<longleftrightarrow> (\<forall>f \<in> set (rule_fields TOKEN_RULES). whole_units (w f)) \<and> coherent (tokenWindows (tokens_of w))"

definition sound_seconds :: "trio \<Rightarrow> bool" where
  "sound_seconds w \<longleftrightarrow> (\<forall>f \<in> set (rule_fields CONTAINER_HOURS_RULES). whole_units (w f))
     \<and> coherent (containerSecondsWindows (seconds_of w))"

lemma first_bad_field_None: "first_bad_field w fs = None \<longleftrightarrow> (\<forall>f \<in> set fs. whole_units (w f))"
  by (induction fs) auto

lemma trioError_None:
  "trioError rules w = None \<longleftrightarrow> (\<forall>f \<in> set (rule_fields rules). whole_units (w f)) \<and> violations rules w = []"
  unfolding trioError_def first_bad_field_None [symmetric] by (auto split: option.split list.split)

lemma token_violations: "violations TOKEN_RULES w = [] \<longleftrightarrow> coherent (tokenWindows (tokens_of w))"
  by (simp add: TOKEN_RULES_def validateBudgetWindows_def windowViolations_coherent)

lemma seconds_violations:
  "violations CONTAINER_HOURS_RULES w = [] \<longleftrightarrow> coherent (containerSecondsWindows (seconds_of w))"
  by (simp add: CONTAINER_HOURS_RULES_def validateContainerHoursBudgetWindows_def windowViolations_coherent)

text \<open>The trio a write leaves, and whether it touches any window.\<close>

definition supplies :: "js_body \<Rightarrow> string \<Rightarrow> bool" where
  "supplies body f \<longleftrightarrow> body f \<noteq> None \<and> body f \<noteq> Some JUndefined"

definition overlay :: "js_body \<Rightarrow> string list \<Rightarrow> trio \<Rightarrow> trio" where
  "overlay body fs base = (\<lambda>f. if f \<in> set fs \<and> supplies body f then the (body f) else base f)"

lemma merge_fields_overlay:
  "merge_fields body fs (base, b) = (overlay body fs base, b \<or> (\<exists>f \<in> set fs. supplies body f))"
  by (induction fs arbitrary: base b)
     (auto simp: overlay_def supplies_def Let_def fun_eq_iff split: option.splits)

lemma mergeTrio_overlay:
  "mergeTrio rules body base = (overlay body (rule_fields rules) base, \<exists>f \<in> set (rule_fields rules). supplies body f)"
  by (simp add: mergeTrio_def merge_fields_overlay)

lemma retired_None:
  "retiredBudgetFieldError (Some body) = None \<longleftrightarrow> (\<forall>f \<in> fst ` set RETIRED_BUDGET_FIELDS. body f = None)"
  by (force simp: retiredBudgetFieldError_def Let_def filter_empty_conv)

section \<open>Properties\<close>

text \<open>
  (Lemma) Container-hours windows tile time and never drift: for every time since the epoch and any
  anchor, the time lies in its window, the window is 28 to 31 days long, every time inside it has
  the same window, the next one opens at the instant it ends, and it opens on the anchor day
  itself, or on the last day of a month too short to hold it.
\<close>

theorem container_hours_windows_tile:
  assumes "0 \<le> now" and "containerHoursWindow a now None = (s, e)"
  shows "s \<le> now \<and> now < e \<and> 28 * DAY_MS \<le> e - s \<and> e - s \<le> 31 * DAY_MS
    \<and> (\<forall>t. 0 \<le> t \<and> s \<le> t \<and> t < e \<longrightarrow> containerHoursWindow a t None = (s, e))
    \<and> fst (containerHoursWindow a e None) = e
    \<and> getUTCDate s = min (day_of a) (month_days (month_of s))"
proof -
  let ?d = "day_of a"
  obtain k where k: "occ ?d k \<le> now" "now < occ ?d (k + 1)"
    using anchoredWindowStart_occ [OF assms(1), of a] by blast
  then have w: "s = occ ?d k" "e = occ ?d (k + 1)"
    using containerHoursWindow_occ [OF assms(1) k] assms(2) by simp_all
  have len: "28 * DAY_MS \<le> e - s" "e - s \<le> 31 * DAY_MS"
    using occ_step [OF day_of_bounds [of a], of k] w by simp_all
  have same: "\<forall>t. 0 \<le> t \<and> s \<le> t \<and> t < e \<longrightarrow> containerHoursWindow a t None = (s, e)"
    using containerHoursWindow_occ w by blast
  have "e < occ ?d (k + 1 + 1)"
    using occ_step(1) [OF day_of_bounds [of a], of "k + 1"] w DAY_MS_pos by linarith
  then have next_window: "fst (containerHoursWindow a e None) = e"
    using containerHoursWindow_occ [of e a "k + 1"] k w assms(1) by simp
  have "getUTCDate s = min (day_of a) (month_days (month_of s))"
    using getUTCDate_occ [OF day_of_bounds(1) [of a], of k] w by simp
  then show ?thesis using k w len same next_window by simp
qed

text \<open>2026-03-15T00:00:00Z with the anchor on the 31st: the window is February 28 to March 31.\<close>

lemma demo_day: "day_of (Some 31) = 31"
  by (simp add: day_of_def anchor_day_def math_trunc_def CONTAINER_HOURS_ANCHOR_MIN_DAY_def
      CONTAINER_HOURS_ANCHOR_MAX_DAY_def)

lemma demo_occ:
  "occ 31 24312 = 1769817600000" "occ 31 24313 = 1772236800000" "occ 31 24314 = 1774915200000"
  by (simp_all add: occ_def first_day_def month_days_def DayFromYear_def month_start_def is_leap_def DAY_MS_def)

lemma demo_window:
  "containerHoursWindow (Some 31) 1773532800000 None = (1772236800000, 1774915200000)"
  "containerHoursWindow (Some 31) (1772236800000 - 1) None = (1769817600000, 1772236800000)"
  using containerHoursWindow_occ [of 1773532800000 "Some 31" 24313]
    containerHoursWindow_occ [of "1772236800000 - 1" "Some 31" 24312]
  by (simp_all add: demo_day demo_occ)

theorem container_hours_windows_tile_witness:
  "(0 :: int) \<le> 1773532800000
    \<and> containerHoursWindow (Some 31) 1773532800000 None = (1772236800000, 1774915200000)
    \<and> 1772236800000 \<le> (1773532800000 :: int) \<and> fst (containerHoursWindow (Some 31) 1774915200000 None) = 1774915200000"
  using container_hours_windows_tile [OF _ demo_window(1)] demo_window(1) by simp

text \<open>
  (Lemma) \<open>since\<close> moves where a window starts counting, never where it ends; and the previous
  window is the one that ends where this one's anchor opened, clipped to \<open>since\<close>, empty when
  nothing before \<open>since\<close> is left.
\<close>

theorem container_hours_since:
  assumes "containerHoursWindow a now None = (s, e)" and "0 \<le> now" and "1 \<le> s"
    and "containerHoursWindow a (s - 1) None = (ps, pe)"
  shows "containerHoursWindow a now (Some c) = (max c s, e)
    \<and> pe = s \<and> ps < s
    \<and> previousContainerHoursWindowStart a now None = ps
    \<and> previousContainerHoursWindowStart a now (Some c) = min (max c ps) (max c s)"
proof -
  let ?d = "day_of a"
  obtain k where k: "occ ?d k \<le> now" "now < occ ?d (k + 1)"
    using anchoredWindowStart_occ [OF assms(2), of a] by blast
  have w: "s = occ ?d k" "e = occ ?d (k + 1)"
    using containerHoursWindow_occ [OF assms(2) k] assms(1) by simp_all
  have start: "anchoredWindowStart a now = s" using anchoredWindowStart_eq [OF assms(2) k] w by simp
  have p: "0 \<le> s - 1" "occ ?d (k - 1) \<le> s - 1" "s - 1 < occ ?d (k - 1 + 1)"
    using assms(3) occ_step(1) [OF day_of_bounds [of a], of "k - 1"] w DAY_MS_pos by simp_all
  have pw: "ps = occ ?d (k - 1)" "pe = s" using containerHoursWindow_occ [OF p] assms(4) w by simp_all
  have prev: "anchoredWindowStart a (s - 1) = ps" using anchoredWindowStart_eq [OF p] pw by simp
  have end_at: "anchoredWindowStart a (s + MONTH_STRIDE_DAYS * DAY_MS) = e"
    using assms(1) start by (simp add: containerHoursWindow_def Let_def)
  have "ps < s" using pw p by linarith
  then show ?thesis
    using start prev end_at pw(2)
    by (auto simp: containerHoursWindow_def containerHoursWindowStart_def previousContainerHoursWindowStart_def Let_def)
qed

theorem container_hours_since_witness:
  "containerHoursWindow (Some 31) 1773532800000 None = (1772236800000, 1774915200000)
    \<and> containerHoursWindow (Some 31) 1773532800000 (Some 1772300000000) = (1772300000000, 1774915200000)
    \<and> previousContainerHoursWindowStart (Some 31) 1773532800000 None = 1769817600000"
  using container_hours_since [OF demo_window(1) _ _ demo_window(2), of 1772300000000] demo_window(1) by simp

text \<open>
  (Lemma) The one check every budget write runs: a write is accepted exactly when the body names no
  retired dollar field and, if it supplies a window at all, the trio it leaves is whole,
  non-negative, within the safe integers and coherent; an hours write hands back exactly the trio
  that was checked.
\<close>

theorem budget_write_checked:
  "(budgetWriteError body base = None \<longleftrightarrow>
      (\<forall>f \<in> {''daily_budget_cents'', ''weekly_budget_cents'', ''monthly_budget_cents''}. body f = None)
      \<and> ((\<exists>f \<in> {''daily_budget_tokens'', ''weekly_budget_tokens'', ''monthly_budget_tokens''}. supplies body f) \<longrightarrow>
          sound_tokens (overlay body (rule_fields TOKEN_RULES) base)))
   \<and> (containerHoursBudgetWrite body base = Inr (t, b) \<longleftrightarrow>
      t = overlay body (rule_fields CONTAINER_HOURS_RULES) base \<and> sound_seconds t
      \<and> b = (\<exists>f \<in> set (rule_fields CONTAINER_HOURS_RULES). supplies body f))"
proof
  have retired: "retiredBudgetFieldError (Some body) = None \<longleftrightarrow>
      (\<forall>f \<in> {''daily_budget_cents'', ''weekly_budget_cents'', ''monthly_budget_cents''}. body f = None)"
    unfolding retired_None by (simp add: RETIRED_BUDGET_FIELDS_def)
  have token_fields: "set (rule_fields TOKEN_RULES) =
      {''daily_budget_tokens'', ''weekly_budget_tokens'', ''monthly_budget_tokens''}" by (simp add: TOKEN_RULES_def)
  show "budgetWriteError body base = None \<longleftrightarrow>
      (\<forall>f \<in> {''daily_budget_cents'', ''weekly_budget_cents'', ''monthly_budget_cents''}. body f = None)
      \<and> ((\<exists>f \<in> {''daily_budget_tokens'', ''weekly_budget_tokens'', ''monthly_budget_tokens''}. supplies body f) \<longrightarrow>
          sound_tokens (overlay body (rule_fields TOKEN_RULES) base))"
    unfolding budgetWriteError_def mergeTrio_overlay retired [symmetric] token_fields [symmetric]
    by (auto simp: sound_tokens_def trioError_None token_violations split: option.split)
  show "containerHoursBudgetWrite body base = Inr (t, b) \<longleftrightarrow>
      t = overlay body (rule_fields CONTAINER_HOURS_RULES) base \<and> sound_seconds t
      \<and> b = (\<exists>f \<in> set (rule_fields CONTAINER_HOURS_RULES). supplies body f)"
    unfolding containerHoursBudgetWrite_def mergeTrio_overlay sound_seconds_def seconds_violations [symmetric]
      trioError_None [symmetric]
    by (auto simp del: trioError_None split: option.split)
qed

theorem budget_write_checked_witness:
  "budgetWriteError [''daily_budget_tokens'' \<mapsto> JNum 10] (\<lambda>_. JNum 0) = None"
  using budget_write_checked [of "[''daily_budget_tokens'' \<mapsto> JNum 10]" "\<lambda>_. JNum 0" "\<lambda>_. JNum 0" False]
  by (simp add: sound_tokens_def overlay_def supplies_def TOKEN_RULES_def whole_units_def isSafeInteger_def
      coherent_def tokenWindows_def tokens_of_def the_int_def)

text \<open>
  (Lemma) Raising windows is the least repair: the result is coherent and never lower, every
  coherent trio with the same daily limit that is at least the original on its enabled windows
  (and disables nothing else) is at least the result, so it changes nothing when nothing is wrong.
\<close>

theorem normalize_least:
  "coherent (normalizeWindowsUp w) \<and> daily (normalizeWindowsUp w) = daily w
    \<and> weekly w \<le> weekly (normalizeWindowsUp w) \<and> monthly w \<le> monthly (normalizeWindowsUp w)
    \<and> (coherent v \<and> daily v = daily w \<and> weekly w \<le> weekly v \<and> monthly w \<le> monthly v \<longrightarrow>
        weekly (normalizeWindowsUp w) \<le> weekly v \<and> monthly (normalizeWindowsUp w) \<le> monthly v)
    \<and> (windowViolations w = [] \<longleftrightarrow> normalizeWindowsUp w = w)"
proof -
  let ?n = "normalizeWindowsUp w"
  let ?wk = "if 0 < weekly w then max (weekly w) (minWeeklyLimit (daily w)) else weekly w"
  let ?mo = "if 0 < monthly w then max (monthly w) (minMonthlyLimit (daily w) ?wk) else monthly w"
  have n: "daily ?n = daily w" "weekly ?n = ?wk" "monthly ?n = ?mo"
    by (simp_all add: normalizeWindowsUp_def Let_def isEnabled_def)
  have week: "minWeeklyLimit (daily w) \<le> ?wk" if "0 < weekly w" using that by simp
  have month: "minMonthlyLimit (daily w) ?wk \<le> ?mo" if "0 < monthly w" using that by simp
  have ok: "coherent ?n"
    using week month unfolding coherent_def n minWeeklyLimit_le_iff minMonthlyLimit_le_iff
    by (auto simp: max_def split: if_splits)
  have least: "?wk \<le> weekly v \<and> ?mo \<le> monthly v"
    if v: "coherent v" "daily v = daily w" "weekly w \<le> weekly v" "monthly w \<le> monthly v" for v
  proof
    show wk: "?wk \<le> weekly v"
      using v by (auto simp: coherent_def minWeeklyLimit_le_iff)
    have "52 * ?wk \<le> 12 * monthly v" if "0 < ?wk" "0 < monthly w"
      using v wk that unfolding coherent_def by linarith
    then show "?mo \<le> monthly v"
      using v by (simp add: minMonthlyLimit_le_iff coherent_def)
  qed
  have "windowViolations w = [] \<longleftrightarrow> ?n = w"
  proof
    assume "windowViolations w = []"
    then have "?wk \<le> weekly w \<and> ?mo \<le> monthly w"
      using least [of w] windowViolations_coherent by blast
    then show "?n = w" using n by (intro BudgetWindows.equality) auto
  next
    assume "?n = w"
    then show "windowViolations w = []" using ok windowViolations_coherent by metis
  qed
  then show ?thesis using ok n least by auto
qed

theorem normalize_least_witness:
  "normalizeWindowsUp \<lparr>daily = 10, weekly = 70, monthly = 0\<rparr> = \<lparr>daily = 10, weekly = 70, monthly = 0\<rparr>"
  using normalize_least [of "\<lparr>daily = 10, weekly = 70, monthly = 0\<rparr>"
      "\<lparr>daily = 10, weekly = 70, monthly = 0\<rparr>"]
  by (simp add: windowViolations_coherent coherent_def)

text \<open>
  (Lemma) A refusal names the least value that would have been accepted: setting the violated window
  to the stated floor clears it and one unit less does not; and for an hours budget, typing back
  the hours the refusal states (they are rounded up) always reaches the floor, by less than 36
  seconds over.
\<close>

theorem refusal_names_floor:
  assumes "v \<in> set (windowViolations w)"
  shows "(let set_to = (\<lambda>x. case violated v of Weekly \<Rightarrow> w\<lparr>weekly := x\<rparr> | Monthly \<Rightarrow> w\<lparr>monthly := x\<rparr>)
      in violated v \<notin> violated ` set (windowViolations (set_to (min_limit v)))
       \<and> (\<forall>x. 0 < x \<and> x < min_limit v \<longrightarrow> violated v \<in> violated ` set (windowViolations (set_to x))))
    \<and> of_int (min_limit v) \<le> containerSecondsToHours (min_limit v) * 3600
    \<and> containerSecondsToHours (min_limit v) * 3600 < of_int (min_limit v) + 36"
proof -
  have hours: "of_int x \<le> containerSecondsToHours x * 3600 \<and> containerSecondsToHours x * 3600 < of_int x + 36" for x
  proof -
    define c :: rat where "c = of_int \<lceil>of_int x / 36 :: rat\<rceil>"
    have "of_int x / 36 \<le> c" unfolding c_def by (rule le_of_int_ceiling)
    moreover have "c < of_int x / 36 + 1" unfolding c_def by linarith
    moreover have "containerSecondsToHours x = c / 100"
      by (simp add: containerSecondsToHours_def SECONDS_PER_HOUR_def c_def)
    ultimately show ?thesis by (simp add: field_simps)
  qed
  have "(violated v = Weekly \<and> min_limit v = minWeeklyLimit (daily w))
      \<or> (violated v = Monthly \<and> min_limit v = minMonthlyLimit (daily w) (weekly w))"
    using assms by (auto simp: windowViolations_def Let_def split: if_splits)
  then show ?thesis
    using hours by (elim disjE conjE) (simp_all add: Let_def weekly_violated monthly_violated)
qed

theorem refusal_names_floor_witness:
  "\<lparr>violated = Weekly, min_limit = 70, basis = WeekFromDay\<rparr>
      \<in> set (windowViolations \<lparr>daily = 10, weekly = 60, monthly = 0\<rparr>)
    \<and> (70 :: rat) \<le> containerSecondsToHours 70 * 3600"
proof -
  have v: "\<lparr>violated = Weekly, min_limit = 70, basis = WeekFromDay\<rparr>
      \<in> set (windowViolations \<lparr>daily = 10, weekly = 60, monthly = 0\<rparr>)"
    by (simp add: windowViolations_def minWeeklyLimit_def isEnabled_def DAYS_PER_WEEK_def Let_def)
  show ?thesis using refusal_names_floor [OF v] v by simp
qed

end
