(* ===== verification/Credentials.thy ===== *)
theory Credentials
  imports Complex_Main Utf8
begin

text \<open>
  The credential grammar of \<open>shared/src/credentials\<close>: the placeholder an agent emits for a
  secret (\<open>placeholder.ts\<close>), the host allowlist (\<open>host-match.ts\<close>) and the hosts suggested
  for a credential request (\<open>suggest-allowed-hosts.ts\<close>).

  A text is a list of code points; regular expressions are written out as the matcher they denote,
  greedy choice included. Lower-casing acts on ASCII letters: host names reach this code in their
  ASCII form.
\<close>

section \<open>Text helpers of the language\<close>

definition is_ws :: "nat \<Rightarrow> bool" where
  "is_ws c \<longleftrightarrow> (9 \<le> c \<and> c \<le> 13) \<or> c = 32 \<or> c = 0xA0 \<or> c = 0x1680 \<or> (0x2000 \<le> c \<and> c \<le> 0x200A)
     \<or> c = 0x2028 \<or> c = 0x2029 \<or> c = 0x202F \<or> c = 0x205F \<or> c = 0x3000 \<or> c = 0xFEFF"

definition trim :: "utext \<Rightarrow> utext" where
  "trim s = rev (dropWhile is_ws (rev (dropWhile is_ws s)))"

definition lower_cp :: "nat \<Rightarrow> nat" where
  "lower_cp c = (if 65 \<le> c \<and> c \<le> 90 then c + 32 else c)"

definition toLowerCase :: "utext \<Rightarrow> utext" where
  "toLowerCase = map lower_cp"

definition startsWith :: "utext \<Rightarrow> utext \<Rightarrow> bool" where
  "startsWith s p \<longleftrightarrow> take (length p) s = p"

definition endsWith :: "utext \<Rightarrow> utext \<Rightarrow> bool" where
  "endsWith s p \<longleftrightarrow> length p \<le> length s \<and> drop (length s - length p) s = p"

definition contains_text :: "utext \<Rightarrow> utext \<Rightarrow> bool" where
  "contains_text s p \<longleftrightarrow> index_of p s \<noteq> None"

datatype json = Null | Bool bool | Num rat | Str utext | Arr "json list" | Obj "(utext \<times> json) list"

section \<open>Placeholders\<close>

definition is_upper :: "nat \<Rightarrow> bool" where
  "is_upper c \<longleftrightarrow> 65 \<le> c \<and> c \<le> 90"

definition name_char :: "nat \<Rightarrow> bool" where
  "name_char c \<longleftrightarrow> is_upper c \<or> (48 \<le> c \<and> c \<le> 57) \<or> c = 95"

text \<open>\<open>SECRET_NAME_PATTERN\<close>: \<open>^[A-Z][A-Z0-9_]{0,63}$\<close>.\<close>

definition secret_name :: "utext \<Rightarrow> bool" where
  "secret_name n = (case n of [] \<Rightarrow> False | c # cs \<Rightarrow> is_upper c \<and> length cs \<le> 63 \<and> list_all name_char cs)"

definition PLACEHOLDER_PROBE :: utext where
  "PLACEHOLDER_PROBE = cps ''__HEZO_SECRET_''"

definition credentialPlaceholder :: "utext \<Rightarrow> utext" where
  "credentialPlaceholder name = PLACEHOLDER_PROBE @ name @ cps ''__''"

text \<open>
  \<open>createPlaceholderRegex\<close> at one position: after the probe the name is matched greedily, so
  the matcher tries the longest admissible name first and gives characters back until the two
  closing underscores fit. The result is the name and the text after the match.
\<close>

definition name_fits :: "utext \<Rightarrow> nat \<Rightarrow> bool" where
  "name_fits rest n \<longleftrightarrow> n \<le> length rest \<and> secret_name (take n rest) \<and> startsWith (drop n rest) (cps ''__'')"

definition match_placeholder :: "utext \<Rightarrow> (utext \<times> utext) option" where
  "match_placeholder s =
     (if \<not> startsWith s PLACEHOLDER_PROBE then None
      else
        let rest = drop (length PLACEHOLDER_PROBE) s
        in map_option (\<lambda>n. (take n rest, drop (n + 2) rest)) (find (name_fits rest) (rev [1..<65])))"

fun containsCredentialPlaceholder :: "utext \<Rightarrow> bool" where
  "containsCredentialPlaceholder [] = False"
| "containsCredentialPlaceholder (c # cs) \<longleftrightarrow> match_placeholder (c # cs) \<noteq> None \<or> containsCredentialPlaceholder cs"

definition member_of :: "json \<Rightarrow> utext \<Rightarrow> json option" where
  "member_of j key = (case j of Obj kvs \<Rightarrow> map_of kvs key | _ \<Rightarrow> None)"

definition connectorHasPlaceholderHeader :: "json \<Rightarrow> bool" where
  "connectorHasPlaceholderHeader config =
     (let carries = (\<lambda>v. case v of Str s \<Rightarrow> containsCredentialPlaceholder s | _ \<Rightarrow> False)
      in case member_of config (cps ''headers'') of
        Some (Obj kvs) \<Rightarrow> list_ex (carries \<circ> snd) kvs
      | Some (Arr vs) \<Rightarrow> list_ex carries vs
      | _ \<Rightarrow> False)"

section \<open>Hosts\<close>

fun some_entry_matches :: "utext \<Rightarrow> utext list \<Rightarrow> bool" where
  "some_entry_matches target [] = False"
| "some_entry_matches target (raw # raws) =
     (let entry = toLowerCase (trim raw)
      in if length entry = 0 then some_entry_matches target raws
      else if startsWith entry (cps ''*.'') then
        (if endsWith target (drop 1 entry) then True else some_entry_matches target raws)
      else if target = entry then True else some_entry_matches target raws)"

definition hostMatchesAllowedHosts :: "utext \<Rightarrow> utext list \<Rightarrow> bool" where
  "hostMatchesAllowedHosts host allowedHosts =
     (let target = toLowerCase (trim host)
      in if length target = 0 then False else some_entry_matches target allowedHosts)"

section \<open>Suggested hosts\<close>

definition KNOWN_SERVICE_HOSTS :: "(string \<times> string list) list" where
  "KNOWN_SERVICE_HOSTS =
     [(''netlify'', [''api.netlify.com'']), (''vercel'', [''api.vercel.com'']),
      (''stripe'', [''api.stripe.com'']), (''openai'', [''api.openai.com'']),
      (''anthropic'', [''api.anthropic.com'']), (''openrouter'', [''openrouter.ai'']),
      (''deepseek'', [''api.deepseek.com'']), (''groq'', [''api.groq.com'']),
      (''cohere'', [''api.cohere.com'']),
      (''huggingface'', [''huggingface.co'', ''api-inference.huggingface.co'']),
      (''sendgrid'', [''api.sendgrid.com'']), (''mailgun'', [''api.mailgun.net'']),
      (''postmark'', [''api.postmarkapp.com'']), (''resend'', [''api.resend.com'']),
      (''twilio'', [''api.twilio.com'']), (''slack'', [''slack.com'']), (''discord'', [''discord.com'']),
      (''github'', [''api.github.com'']), (''gitlab'', [''gitlab.com'']), (''linear'', [''api.linear.app'']),
      (''notion'', [''api.notion.com'']), (''airtable'', [''api.airtable.com'']),
      (''hubspot'', [''api.hubapi.com'']), (''shopify'', [''*.myshopify.com'']),
      (''supabase'', [''*.supabase.co'']), (''cloudflare'', [''api.cloudflare.com'']),
      (''digitalocean'', [''api.digitalocean.com'']), (''datadog'', [''api.datadoghq.com'']),
      (''sentry'', [''sentry.io'']), (''pagerduty'', [''api.pagerduty.com'']),
      (''mixpanel'', [''api.mixpanel.com'']), (''amplitude'', [''api.amplitude.com'']),
      (''posthog'', [''app.posthog.com'']), (''algolia'', [''*.algolia.net'']),
      (''pinecone'', [''*.pinecone.io'']), (''contentful'', [''api.contentful.com'']),
      (''datocms'', [''site-api.datocms.com'']), (''sanity'', [''api.sanity.io''])]"

text \<open>The hosts of the connector registry, \<open>shared/src/types/connector-capabilities.ts\<close>.\<close>

definition CONNECTOR_CAPABILITIES :: "(string \<times> string list) list" where
  "CONNECTOR_CAPABILITIES =
     [(''github'', [''api.githubcopilot.com'', ''api.github.com'', ''github.com'', ''codeload.github.com'']),
      (''datocms'', [''mcp.datocms.com'', ''*.datocms.com'']),
      (''linear'', [''mcp.linear.app'', ''api.linear.app'']),
      (''vercel'', [''mcp.vercel.com'', ''api.vercel.com'']),
      (''cloudflare'', [''mcp.cloudflare.com'', ''api.cloudflare.com'']),
      (''sentry'', [''mcp.sentry.dev'', ''sentry.io'', ''*.sentry.io'']),
      (''notion'', [''mcp.notion.com'', ''api.notion.com''])]"

definition GENERIC_HOSTS :: "utext list" where
  "GENERIC_HOSTS = map cps [''example.com'', ''example.org'', ''example.net'', ''localhost'', ''127.0.0.1'', ''0.0.0.0'']"

definition MAX_SUGGESTIONS :: nat where
  "MAX_SUGGESTIONS = 6"

text \<open>\<open>[^\s/:?#"'`)]\<close>, the characters of a host in a URL.\<close>

definition url_host_char :: "nat \<Rightarrow> bool" where
  "url_host_char c \<longleftrightarrow> \<not> is_ws c \<and> c \<notin> {47, 58, 63, 35, 34, 39, 96, 41}"

text \<open>\<open>/https?:\/\/([^\s/:?#"'`)]+)/gi\<close> at one position: the host and the text after it.\<close>

definition match_url :: "utext \<Rightarrow> (utext \<times> utext) option" where
  "match_url s =
     (let after = (\<lambda>scheme. if startsWith (toLowerCase s) (cps scheme) then Some (drop (length scheme) s) else None);
          body = (case after ''https://'' of Some r \<Rightarrow> Some r | None \<Rightarrow> after ''http://'')
      in case body of
        None \<Rightarrow> None
      | Some r \<Rightarrow> (let h = takeWhile url_host_char r in if h = [] then None else Some (h, dropWhile url_host_char r)))"

lemma match_url_shorter: "match_url s = Some (h, r) \<Longrightarrow> length r < length s"
proof -
  assume a: "match_url s = Some (h, r)"
  then obtain k where k: "r = dropWhile url_host_char (drop k s)" "h = takeWhile url_host_char (drop k s)" "h \<noteq> []"
    by (auto simp: match_url_def Let_def split: if_splits option.splits)
  have "length h + length r = length (drop k s)"
    using k(1,2) takeWhile_dropWhile_id [of url_host_char "drop k s"] by (metis length_append)
  then show ?thesis using k(3) by (cases h) auto
qed

function url_matches :: "utext \<Rightarrow> utext list" where
  "url_matches s = (case match_url s of
     Some (h, r) \<Rightarrow> h # url_matches r
   | None \<Rightarrow> (case s of [] \<Rightarrow> [] | _ # cs \<Rightarrow> url_matches cs))"
  by pat_completeness auto
termination by (relation "measure length") (auto dest: match_url_shorter)

declare url_matches.simps [simp del]

definition extractUrlHosts :: "utext \<Rightarrow> utext list" where
  "extractUrlHosts t = filter (\<lambda>h. contains_text h (cps ''.'')) (map toLowerCase (url_matches t))"

definition token_char :: "nat \<Rightarrow> bool" where
  "token_char c \<longleftrightarrow> (97 \<le> c \<and> c \<le> 122) \<or> (48 \<le> c \<and> c \<le> 57)"

function tokens :: "utext \<Rightarrow> utext list" where
  "tokens s = (let r = dropWhile (\<lambda>c. \<not> token_char c) s
     in if r = [] then [] else takeWhile token_char r # tokens (dropWhile token_char r))"
  by pat_completeness auto
termination
proof (relation "measure length")
  fix s r assume r: "r = dropWhile (\<lambda>c. \<not> token_char c) s" "r \<noteq> []"
  then have "token_char (hd r)" by (metis hd_dropWhile)
  then have "length (dropWhile token_char r) < length r"
    using r(2) by (cases r) (auto simp: length_dropWhile_le le_imp_less_Suc)
  also have "length r \<le> length s" using r(1) by (simp add: length_dropWhile_le)
  finally show "(dropWhile token_char r, s) \<in> measure length" by simp
qed simp

declare tokens.simps [simp del]

definition tokenize :: "utext \<Rightarrow> utext list" where
  "tokenize t = tokens (toLowerCase t)"

definition add_host :: "utext \<Rightarrow> utext list \<Rightarrow> utext list" where
  "add_host host ordered =
     (let h = toLowerCase (trim host)
      in if length h = 0 \<or> h \<in> set GENERIC_HOSTS \<or> h \<in> set ordered then ordered else ordered @ [h])"

definition add_services :: "utext list \<Rightarrow> (string \<times> string list) list \<Rightarrow> utext list \<Rightarrow> utext list" where
  "add_services toks table ordered =
     fold (\<lambda>(service, hosts) acc. if cps service \<in> set toks then fold (\<lambda>h. add_host (cps h)) hosts acc else acc)
       table ordered"

definition suggestAllowedHosts :: "utext option \<Rightarrow> utext option \<Rightarrow> utext list" where
  "suggestAllowedHosts name instructions =
     (let nm = (case name of None \<Rightarrow> [] | Some n \<Rightarrow> n); ins = (case instructions of None \<Rightarrow> [] | Some i \<Rightarrow> i);
          ordered = fold add_host (extractUrlHosts ins) [];
          ordered = fold (\<lambda>toks acc. add_services toks CONNECTOR_CAPABILITIES (add_services toks KNOWN_SERVICE_HOSTS acc))
            [tokenize nm, tokenize ins] ordered
      in take MAX_SUGGESTIONS ordered)"

section \<open>Lemmas on placeholders\<close>

lemma find_longest:
  assumes "P k" "1 \<le> k"
  shows "k \<le> m \<Longrightarrow> \<exists>j. find P (rev [1..<Suc m]) = Some j \<and> k \<le> j \<and> P j"
proof (induction m)
  case (Suc m)
  show ?case
  proof (cases "P (Suc m)")
    case True
    then show ?thesis using Suc.prems by simp
  next
    case False
    then have "k \<le> m" using assms(1) Suc.prems by (metis le_Suc_eq)
    then show ?thesis using Suc.IH False by simp
  qed
qed (use assms in simp)

lemma startsWith_iff: "startsWith s p \<longleftrightarrow> (\<exists>r. s = p @ r)"
  by (metis append_eq_conv_conj append_take_drop_id startsWith_def)

lemma secret_name_length: "secret_name n \<Longrightarrow> 1 \<le> length n \<and> length n \<le> 64"
  by (auto simp: secret_name_def split: list.splits)

lemma secret_name_chars: "secret_name n \<Longrightarrow> list_all name_char n"
  by (auto simp: secret_name_def name_char_def split: list.splits)

lemma underscores: "cps ''__'' = [95, 95]"
  by (simp add: cps_def)

lemma match_placeholder_Some:
  assumes "match_placeholder s = Some (n, r)"
  shows "secret_name n" "s = credentialPlaceholder n @ r"
proof -
  define rest where "rest = drop (length PLACEHOLDER_PROBE) s"
  have p: "startsWith s PLACEHOLDER_PROBE" using assms by (auto simp: match_placeholder_def split: if_splits)
  then obtain k where k: "find (name_fits rest) (rev [1..<65]) = Some k" "n = take k rest" "r = drop (k + 2) rest"
    using assms by (auto simp: match_placeholder_def rest_def Let_def)
  then have fits: "name_fits rest k" by (metis find_Some_iff)
  then obtain q where q: "drop k rest = [95, 95] @ q" by (auto simp: name_fits_def startsWith_iff underscores)
  have "rest = n @ [95, 95] @ q" using k(2) q by (metis append_take_drop_id)
  moreover have "q = r" using k(3) q by (metis append_eq_conv_conj drop_drop length_Cons list.size(3) numeral_2_eq_2 add.commute)
  moreover have "s = PLACEHOLDER_PROBE @ rest" using p by (auto simp: startsWith_iff rest_def)
  ultimately show "s = credentialPlaceholder n @ r" by (simp add: credentialPlaceholder_def underscores)
  show "secret_name n" using fits k(2) by (simp add: name_fits_def)
qed

lemma match_placeholder_find:
  "match_placeholder (PLACEHOLDER_PROBE @ rest) =
     map_option (\<lambda>n. (take n rest, drop (n + 2) rest)) (find (name_fits rest) (rev [1..<65]))"
  by (simp add: match_placeholder_def startsWith_def Let_def)

lemma name_fits_self: "secret_name n \<Longrightarrow> name_fits (n @ cps ''__'' @ r) (length n)"
  by (simp add: name_fits_def startsWith_def)

lemma match_placeholder_longest:
  assumes "secret_name n"
  shows "\<exists>m q. match_placeholder (credentialPlaceholder n @ r) = Some (m, q) \<and> length n \<le> length m"
proof -
  let ?rest = "n @ cps ''__'' @ r"
  have "name_fits ?rest (length n)" "1 \<le> length n" "length n \<le> 64"
    using assms secret_name_length name_fits_self by auto
  then obtain j where j: "find (name_fits ?rest) (rev [1..<Suc 64]) = Some j" "length n \<le> j" "name_fits ?rest j"
    using find_longest [of "name_fits ?rest" "length n" 64] by blast
  have "match_placeholder (PLACEHOLDER_PROBE @ ?rest) = Some (take j ?rest, drop (j + 2) ?rest)"
    unfolding match_placeholder_find using j(1) by (simp del: upt_Suc)
  then show ?thesis using j(2,3) by (simp add: credentialPlaceholder_def name_fits_def)
qed

lemma placeholder_boundary:
  assumes "secret_name m" "m @ [95, 95] @ q = n @ [95, 95] @ r" "length n \<le> length m"
    and r: "r = [] \<or> \<not> name_char (hd r)"
  shows "m = n"
proof -
  obtain x where x: "m = n @ x" "x @ [95, 95] @ q = [95, 95] @ r"
    using assms(2,3) by (metis append_assoc append_eq_append_conv_if append_eq_conv_conj append_take_drop_id)
  have chars: "list_all name_char x" using secret_name_chars [OF assms(1)] x(1) by simp
  have under: "name_char 95" by (simp add: name_char_def)
  consider "x = []" | "x = [95]" "95 # q = r" | y where "x = [95, 95] @ y" "y @ [95, 95] @ q = r"
    using x(2) by (cases x rule: list.exhaust; cases "tl x") auto
  then show ?thesis
  proof cases
    case 1
    then show ?thesis using x by simp
  next
    case 2
    then show ?thesis using r under by auto
  next
    case (3 y)
    then have "name_char (hd r)" "r \<noteq> []" using chars under by (cases y; auto)+
    then show ?thesis using r by simp
  qed
qed

lemma match_placeholder_exact:
  assumes "secret_name n" "r = [] \<or> \<not> name_char (hd r)"
  shows "match_placeholder (credentialPlaceholder n @ r) = Some (n, r)"
proof -
  obtain m q where m: "match_placeholder (credentialPlaceholder n @ r) = Some (m, q)" "length n \<le> length m"
    using match_placeholder_longest [OF assms(1)] by blast
  have s: "m @ [95, 95] @ q = n @ [95, 95] @ r"
    using match_placeholder_Some(2) [OF m(1)] by (simp add: credentialPlaceholder_def underscores)
  have "m = n" by (rule placeholder_boundary [OF match_placeholder_Some(1) [OF m(1)] s m(2) assms(2)])
  then show ?thesis using m(1) s by simp
qed

lemma match_placeholder_shorter: "match_placeholder s = Some (n, r) \<Longrightarrow> length r < length s"
  using match_placeholder_Some(2) [of s n r] by (simp add: credentialPlaceholder_def underscores)

section \<open>Lemmas on hosts\<close>

lemma endsWith_iff: "endsWith s p \<longleftrightarrow> (\<exists>r. s = r @ p)"
  by (auto simp: endsWith_def) (metis append_take_drop_id)

text \<open>What an allowlist entry admits: itself, or for \<open>*.d\<close> any text ending in \<open>.d\<close>.\<close>

definition admits :: "utext \<Rightarrow> utext \<Rightarrow> bool" where
  "admits entry target \<longleftrightarrow>
     (if startsWith entry (cps ''*.'') then \<exists>sub. target = sub @ drop 1 entry else target = entry)"

lemma some_entry_matches_step:
  assumes "target \<noteq> []"
  shows "some_entry_matches target (e # es) \<longleftrightarrow> admits (toLowerCase (trim e)) target \<or> some_entry_matches target es"
proof (cases "toLowerCase (trim e) = []")
  case True
  then show ?thesis using assms by (simp add: admits_def startsWith_def cps_def)
next
  case False
  then show ?thesis by (simp add: admits_def endsWith_iff Let_def)
qed

lemma some_entry_matches_iff:
  "target \<noteq> [] \<Longrightarrow> some_entry_matches target es \<longleftrightarrow> (\<exists>e \<in> set es. admits (toLowerCase (trim e)) target)"
  by (induction es) (simp_all add: some_entry_matches_step del: some_entry_matches.simps(2))

section \<open>Properties\<close>

text \<open>
  (Lemma) The placeholder grammar is exact: what the matcher finds is the placeholder of a valid
  secret name followed by the rest, and the placeholder of every valid name is found and gives
  back that name whenever the text after it does not continue the name.
\<close>

theorem placeholder_roundtrip:
  "(match_placeholder s = Some (m, q) \<longrightarrow> secret_name m \<and> s = credentialPlaceholder m @ q)
   \<and> (secret_name n \<and> (r = [] \<or> \<not> name_char (hd r)) \<longrightarrow>
        match_placeholder (credentialPlaceholder n @ r) = Some (n, r))"
  using match_placeholder_Some match_placeholder_exact by blast

theorem placeholder_roundtrip_witness:
  "match_placeholder (credentialPlaceholder (cps ''GITHUB_TOKEN'') @ cps ''@github.com'')
     = Some (cps ''GITHUB_TOKEN'', cps ''@github.com'')"
  using placeholder_roundtrip [of "[]" "[]" "[]" "cps ''GITHUB_TOKEN''" "cps ''@github.com''"]
  by (simp add: secret_name_def name_char_def is_upper_def cps_def)

text \<open>
  (Lemma) The greedy name swallows an adjacent placeholder: two placeholders with nothing between
  them are read as one, under a name nobody stored, whenever the joined name is short enough.
\<close>

theorem adjacent_placeholders_merge:
  assumes "secret_name a" "secret_name b" "length a + length b \<le> 46"
  shows "match_placeholder (credentialPlaceholder a @ credentialPlaceholder b)
    = Some (a @ cps ''____HEZO_SECRET_'' @ b, [])"
proof -
  let ?n = "a @ cps ''____HEZO_SECRET_'' @ b"
  have "list_all name_char (cps ''____HEZO_SECRET_'')" by (simp add: cps_def name_char_def is_upper_def)
  then have "secret_name ?n"
    using assms secret_name_chars [OF assms(2)]
    by (auto simp: secret_name_def cps_def split: list.splits)
  moreover have "credentialPlaceholder a @ credentialPlaceholder b = credentialPlaceholder ?n @ []"
    by (simp add: credentialPlaceholder_def PLACEHOLDER_PROBE_def cps_def)
  ultimately show ?thesis using match_placeholder_exact [of ?n "[]"] by simp
qed

theorem adjacent_placeholders_merge_witness:
  "secret_name (cps ''USER'') \<and> match_placeholder (credentialPlaceholder (cps ''USER'') @ credentialPlaceholder (cps ''PASS''))
    = Some (cps ''USER____HEZO_SECRET_PASS'', [])"
proof -
  have "secret_name (cps ''USER'')" "secret_name (cps ''PASS'')"
    by (simp_all add: secret_name_def name_char_def is_upper_def cps_def)
  then show ?thesis using adjacent_placeholders_merge [of "cps ''USER''" "cps ''PASS''"] by (simp add: cps_def)
qed

text \<open>
  (Lemma) Where a secret may go: a host is inside an allowlist exactly when, trimmed and lowered, it
  equals an entry or ends in the dotted domain of a wildcard entry; a wildcard never admits its
  own apex, and an empty host or an empty list admits nothing.
\<close>

theorem host_match_spec:
  "(hostMatchesAllowedHosts host allowed \<longleftrightarrow> toLowerCase (trim host) \<noteq> []
      \<and> (\<exists>e \<in> set allowed. admits (toLowerCase (trim e)) (toLowerCase (trim host))))
   \<and> \<not> hostMatchesAllowedHosts host []
   \<and> (toLowerCase (trim e) = cps ''*.'' @ toLowerCase (trim host) \<longrightarrow> \<not> hostMatchesAllowedHosts host [e])"
proof -
  have spec: "hostMatchesAllowedHosts h al \<longleftrightarrow> toLowerCase (trim h) \<noteq> []
      \<and> (\<exists>e \<in> set al. admits (toLowerCase (trim e)) (toLowerCase (trim h)))" for h al
    using some_entry_matches_iff by (simp add: hostMatchesAllowedHosts_def Let_def)
  have "\<not> admits (cps ''*.'' @ d) d" for d
  proof
    assume "admits (cps ''*.'' @ d) d"
    then obtain sub where "d = sub @ drop 1 (cps ''*.'' @ d)" by (auto simp: admits_def startsWith_def)
    from arg_cong [OF this, of length] show False by (simp add: cps_def)
  qed
  then show ?thesis unfolding spec by auto
qed

theorem host_match_spec_witness:
  "hostMatchesAllowedHosts (cps ''Site-API.DatoCMS.com'') [cps ''*.datocms.com'']
    \<and> \<not> hostMatchesAllowedHosts (cps ''datocms.com'') [cps ''*.datocms.com'']"
  using host_match_spec [of "cps ''datocms.com''" "[]" "cps ''*.datocms.com''"]
    host_match_spec [of "cps ''Site-API.DatoCMS.com''" "[cps ''*.datocms.com'']" "[]"]
  by (simp add: cps_def trim_def is_ws_def toLowerCase_def lower_cp_def admits_def startsWith_def)

end
