(* ===== verification/Egress_Substitution.thy ===== *)
theory Egress_Substitution
  imports Credentials
begin

text \<open>
  Placeholder substitution in the egress proxy, \<open>services/egress/substitution.ts\<close>: the access
  checks, the rewriting of headers, URL and body, the decoding of Basic credentials, and the
  proxy's pre-flight scan.

  Two platform functions are parameters, collected in a record \<open>platform\<close>: Node's lenient
  base64 codec and \<open>JSON.parse\<close>. Everything shown here holds for any such functions.
\<close>

section \<open>Requests, secrets and failures\<close>

record ResolvedSecret =
  secret_name_of :: utext
  secret_value :: utext
  allowedHosts :: "utext list"
  allowAllHosts :: bool
  allowBodySubstitution :: bool

type_synonym vault = "utext \<rightharpoonup> ResolvedSecret"

datatype SubstitutionFailure =
    Unknown_secret utext
  | Secret_not_allowed_for_host utext utext
  | Secret_not_allowed_in_body utext "utext list" "nat list"
  | Secrets_unavailable

datatype AccessVerdict = Substitute | Forward_literal | Refuse SubstitutionFailure

datatype header_value = HUndefined | HOne utext | HMany "utext list"

record RequestInputs =
  req_url :: utext
  req_headers :: "(utext \<times> header_value) list"
  req_method :: utext
  req_host :: utext
  req_body :: "utext option"

record SubstitutionResult =
  res_headers :: "(utext \<times> header_value) list"
  res_url :: utext
  res_body :: "utext option"
  headersChanged :: bool
  urlChanged :: bool
  bodyChanged :: bool
  secretsUsed :: "utext set"
  res_failure :: "SubstitutionFailure option"

record platform =
  base64_decode :: "utext \<Rightarrow> bytes"
  base64_encode :: "bytes \<Rightarrow> utext"
  json_parse :: "utext \<Rightarrow> json option"

text \<open>\<open>a ??= b\<close>\<close>

definition or_else :: "'a option \<Rightarrow> 'a option \<Rightarrow> 'a option" where
  "or_else a b = (case a of None \<Rightarrow> b | Some x \<Rightarrow> Some x)"

section \<open>Locating a refused placeholder\<close>

definition digits_text :: "nat \<Rightarrow> utext" where
  "digits_text n = cps (digits n)"

fun walk :: "utext \<Rightarrow> utext \<Rightarrow> json \<Rightarrow> utext list"
and walk_items :: "utext \<Rightarrow> utext \<Rightarrow> nat \<Rightarrow> json list \<Rightarrow> utext list"
and walk_entries :: "utext \<Rightarrow> utext \<Rightarrow> (utext \<times> json) list \<Rightarrow> utext list" where
  "walk needle path (Str s) = (if contains_text s needle then [if path = [] then cps ''(root)'' else path] else [])"
| "walk needle path (Arr xs) = walk_items needle path 0 xs"
| "walk needle path (Obj kvs) = walk_entries needle path kvs"
| "walk needle path Null = []"
| "walk needle path (Bool b) = []"
| "walk needle path (Num r) = []"
| "walk_items needle path i [] = []"
| "walk_items needle path i (x # xs) =
     walk needle (path @ cps ''['' @ digits_text i @ cps '']'') x @ walk_items needle path (Suc i) xs"
| "walk_entries needle path [] = []"
| "walk_entries needle path ((key, v) # kvs) =
     walk needle (if path \<noteq> [] then path @ cps ''.'' @ key else key) v @ walk_entries needle path kvs"

text \<open>The byte offset of every index at which the placeholder occurs, and the JSON paths.\<close>

definition locatePlaceholder :: "platform \<Rightarrow> utext \<Rightarrow> utext \<Rightarrow> utext list \<times> nat list" where
  "locatePlaceholder pf body name =
     (let needle = credentialPlaceholder name;
          byteOffsets = map (\<lambda>i. length (utf8_encode (take i body))) (filter (occurs_at needle body) [0..<length body])
      in case json_parse pf body of
        None \<Rightarrow> ([], byteOffsets)
      | Some parsed \<Rightarrow> (walk needle [] parsed, byteOffsets))"

section \<open>Access checks\<close>

definition checkAccess :: "vault \<Rightarrow> utext \<Rightarrow> utext \<Rightarrow> SubstitutionFailure option" where
  "checkAccess secrets host name = (case secrets name of
     None \<Rightarrow> Some (Unknown_secret name)
   | Some s \<Rightarrow>
       if \<not> allowAllHosts s \<and> (length (allowedHosts s) = 0 \<or> \<not> hostMatchesAllowedHosts host (allowedHosts s))
       then Some (Secret_not_allowed_for_host name host)
       else None)"

definition check_text :: "vault \<Rightarrow> utext \<Rightarrow> utext set \<Rightarrow> utext \<Rightarrow> AccessVerdict" where
  "check_text secrets host used name =
     (case checkAccess secrets host name of Some e \<Rightarrow> Refuse e | None \<Rightarrow> Substitute)"

definition checkBodyAccess :: "vault \<Rightarrow> utext \<Rightarrow> utext set \<Rightarrow> utext \<Rightarrow> AccessVerdict" where
  "checkBodyAccess secrets host used name = (case checkAccess secrets host name of
     Some e \<Rightarrow> Refuse e
   | None \<Rightarrow>
       if \<not> (case secrets name of Some s \<Rightarrow> allowBodySubstitution s | None \<Rightarrow> False)
       then (if name \<in> used then Forward_literal else Refuse (Secret_not_allowed_in_body name [] []))
       else Substitute)"

section \<open>Rewriting a string\<close>

definition replace_one ::
  "vault \<Rightarrow> (utext set \<Rightarrow> utext \<Rightarrow> AccessVerdict) \<Rightarrow> utext set \<Rightarrow> SubstitutionFailure option \<Rightarrow> utext
    \<Rightarrow> utext \<times> utext set \<times> SubstitutionFailure option" where
  "replace_one secrets check used failure name = (case check used name of
     Forward_literal \<Rightarrow> (credentialPlaceholder name, used, failure)
   | Refuse e \<Rightarrow> (credentialPlaceholder name, used, or_else failure (Some e))
   | Substitute \<Rightarrow> (case secrets name of
        None \<Rightarrow> (credentialPlaceholder name, used, or_else failure (Some (Unknown_secret name)))
      | Some s \<Rightarrow> (secret_value s, insert name used, failure)))"

text \<open>\<open>String.replace\<close> with the global placeholder expression and its stateful callback.\<close>

function replace_all ::
  "vault \<Rightarrow> (utext set \<Rightarrow> utext \<Rightarrow> AccessVerdict) \<Rightarrow> utext set \<Rightarrow> SubstitutionFailure option \<Rightarrow> utext
    \<Rightarrow> utext \<times> utext set \<times> SubstitutionFailure option" where
  "replace_all secrets check used failure s = (case match_placeholder s of
     Some (name, rest) \<Rightarrow>
       (case replace_one secrets check used failure name of (t, used', failure') \<Rightarrow>
         case replace_all secrets check used' failure' rest of (t', r) \<Rightarrow> (t @ t', r))
   | None \<Rightarrow> (case s of
        [] \<Rightarrow> ([], used, failure)
      | c # cs \<Rightarrow> (case replace_all secrets check used failure cs of (t', r) \<Rightarrow> (c # t', r))))"
  by pat_completeness auto
termination
  by (relation "measure (\<lambda>(_, _, _, _, s). length s)") (auto dest: match_placeholder_shorter)

declare replace_all.simps [simp del]

record ApplyResult =
  out_value :: utext
  out_changed :: bool
  out_failure :: "SubstitutionFailure option"

definition applyToString ::
  "vault \<Rightarrow> (utext set \<Rightarrow> utext \<Rightarrow> AccessVerdict) \<Rightarrow> utext \<Rightarrow> utext set \<Rightarrow> ApplyResult \<times> utext set" where
  "applyToString secrets check input used =
     (if \<not> contains_text input PLACEHOLDER_PROBE
      then (\<lparr>out_value = input, out_changed = False, out_failure = None\<rparr>, used)
      else (case replace_all secrets check used None input of (v, used', f) \<Rightarrow>
        (\<lparr>out_value = v, out_changed = (v \<noteq> input), out_failure = f\<rparr>, used')))"

section \<open>Basic credentials\<close>

definition base64_char :: "nat \<Rightarrow> bool" where
  "base64_char c \<longleftrightarrow> is_upper c \<or> (97 \<le> c \<and> c \<le> 122) \<or> (48 \<le> c \<and> c \<le> 57) \<or> c = 43 \<or> c = 47 \<or> c = 61"

text \<open>
  \<open>/^(\s*Basic\s+)([A-Za-z0-9+/=]+)\s*$/i\<close>: the groups are over disjoint characters, so the
  match is unique.
\<close>

definition match_basic :: "utext \<Rightarrow> (utext \<times> utext) option" where
  "match_basic raw =
     (let ws1 = takeWhile is_ws raw; r1 = dropWhile is_ws raw;
          word = take 5 r1; r2 = drop 5 r1;
          ws2 = takeWhile is_ws r2; r3 = dropWhile is_ws r2;
          b64 = takeWhile base64_char r3; r4 = dropWhile base64_char r3
      in if toLowerCase word = cps ''basic'' \<and> ws2 \<noteq> [] \<and> b64 \<noteq> [] \<and> list_all is_ws r4
         then Some (ws1 @ word @ ws2, b64) else None)"

definition decodeBasicCredential :: "platform \<Rightarrow> utext \<Rightarrow> (utext \<times> utext) option" where
  "decodeBasicCredential pf raw = (case match_basic raw of
     None \<Rightarrow> None
   | Some (pre, b64) \<Rightarrow>
       let decoded = buffer_to_text (base64_decode pf b64)
       in if \<not> contains_text decoded PLACEHOLDER_PROBE then None else Some (pre, decoded))"

definition applyToAuthorization ::
  "platform \<Rightarrow> vault \<Rightarrow> (utext set \<Rightarrow> utext \<Rightarrow> AccessVerdict) \<Rightarrow> utext \<Rightarrow> utext set \<Rightarrow> ApplyResult \<times> utext set" where
  "applyToAuthorization pf secrets check raw used = (case decodeBasicCredential pf raw of
     None \<Rightarrow> applyToString secrets check raw used
   | Some (pre, decoded) \<Rightarrow>
       (case applyToString secrets check decoded used of (out, used') \<Rightarrow>
          if \<not> out_changed out
          then (\<lparr>out_value = raw, out_changed = False, out_failure = out_failure out\<rparr>, used')
          else (\<lparr>out_value = pre @ base64_encode pf (utf8_encode (out_value out)),
                 out_changed = True, out_failure = out_failure out\<rparr>, used')))"

definition headerValueCarriesPlaceholder :: "platform \<Rightarrow> utext \<Rightarrow> utext \<Rightarrow> bool" where
  "headerValueCarriesPlaceholder pf name v \<longleftrightarrow>
     contains_text v PLACEHOLDER_PROBE
     \<or> (toLowerCase name = cps ''authorization'' \<and> decodeBasicCredential pf v \<noteq> None)"

section \<open>A whole request\<close>

type_synonym header_state = "bool \<times> utext set \<times> SubstitutionFailure option"

text \<open>The values of a repeated header, each rewritten in turn.\<close>

fun apply_many :: "vault \<Rightarrow> utext \<Rightarrow> utext list \<Rightarrow> header_state \<Rightarrow> utext list \<times> header_state" where
  "apply_many secrets host [] st = ([], st)"
| "apply_many secrets host (v # vs) (changed, used, failure) =
     (case applyToString secrets (check_text secrets host) v used of (out, used') \<Rightarrow>
        case apply_many secrets host vs (changed \<or> out_changed out, used', or_else failure (out_failure out)) of
          (rest, st) \<Rightarrow> (out_value out # rest, st))"

fun apply_headers ::
  "platform \<Rightarrow> vault \<Rightarrow> utext \<Rightarrow> (utext \<times> header_value) list \<Rightarrow> header_state
    \<Rightarrow> (utext \<times> header_value) list \<times> header_state" where
  "apply_headers pf secrets host [] st = ([], st)"
| "apply_headers pf secrets host ((name, HUndefined) # hs) st = apply_headers pf secrets host hs st"
| "apply_headers pf secrets host ((name, HMany raws) # hs) st =
     (case apply_many secrets host raws st of (replaced, st') \<Rightarrow>
        case apply_headers pf secrets host hs st' of (rest, st'') \<Rightarrow> ((name, HMany replaced) # rest, st''))"
| "apply_headers pf secrets host ((name, HOne raw) # hs) (changed, used, failure) =
     (case (if toLowerCase name = cps ''authorization''
            then applyToAuthorization pf secrets (check_text secrets host) raw used
            else applyToString secrets (check_text secrets host) raw used) of
        (out, used') \<Rightarrow>
          case apply_headers pf secrets host hs (changed \<or> out_changed out, used', or_else failure (out_failure out)) of
            (rest, st) \<Rightarrow> ((name, HOne (out_value out)) # rest, st))"

definition substituteRequest :: "platform \<Rightarrow> RequestInputs \<Rightarrow> vault \<Rightarrow> SubstitutionResult" where
  "substituteRequest pf input secrets =
     (case apply_headers pf secrets (req_host input) (req_headers input) (False, {}, None) of
        (headersOut, hChanged, used1, failure1) \<Rightarrow>
      case applyToString secrets (check_text secrets (req_host input)) (req_url input) used1 of
        (urlOut, used2) \<Rightarrow>
      let failure2 = or_else failure1 (out_failure urlOut)
      in case req_body input of
           None \<Rightarrow> \<lparr>res_headers = headersOut, res_url = out_value urlOut, res_body = None, headersChanged = hChanged,
                    urlChanged = out_changed urlOut, bodyChanged = False, secretsUsed = used2, res_failure = failure2\<rparr>
         | Some b \<Rightarrow>
             (case applyToString secrets (checkBodyAccess secrets (req_host input)) b used2 of (bodyOut, used3) \<Rightarrow>
               let located = (case out_failure bodyOut of
                   Some (Secret_not_allowed_in_body n _ _) \<Rightarrow>
                     (case locatePlaceholder pf b n of (paths, offsets) \<Rightarrow> Some (Secret_not_allowed_in_body n paths offsets))
                 | f \<Rightarrow> f)
               in \<lparr>res_headers = headersOut, res_url = out_value urlOut, res_body = Some (out_value bodyOut),
                   headersChanged = hChanged, urlChanged = out_changed urlOut, bodyChanged = out_changed bodyOut,
                   secretsUsed = used3, res_failure = or_else failure2 located\<rparr>))"

section \<open>What a rewriting does, independently of its state\<close>

text \<open>The names a text mentions, and the text with every placeholder rewritten by \<open>f\<close>.\<close>

function placeholder_names :: "utext \<Rightarrow> utext list" where
  "placeholder_names s = (case match_placeholder s of
     Some (n, r) \<Rightarrow> n # placeholder_names r
   | None \<Rightarrow> (case s of [] \<Rightarrow> [] | _ # cs \<Rightarrow> placeholder_names cs))"
  by pat_completeness auto
termination by (relation "measure length") (auto dest: match_placeholder_shorter)

declare placeholder_names.simps [simp del]

function expand :: "(utext \<Rightarrow> utext) \<Rightarrow> utext \<Rightarrow> utext" where
  "expand f s = (case match_placeholder s of
     Some (n, r) \<Rightarrow> f n @ expand f r
   | None \<Rightarrow> (case s of [] \<Rightarrow> [] | c # cs \<Rightarrow> c # expand f cs))"
  by pat_completeness auto
termination by (relation "measure (length \<circ> snd)") (auto dest: match_placeholder_shorter)

declare expand.simps [simp del]

fun first_some :: "('a \<Rightarrow> 'b option) \<Rightarrow> 'a list \<Rightarrow> 'b option" where
  "first_some g [] = None"
| "first_some g (x # xs) = or_else (g x) (first_some g xs)"

lemma first_some_None: "first_some g xs = None \<longleftrightarrow> (\<forall>x \<in> set xs. g x = None)"
  by (induction xs) (auto simp: or_else_def split: option.splits)

lemma or_else_simps [simp]: "or_else None b = b" "or_else (Some x) b = Some x" "or_else a None = a"
  "or_else (or_else a b) c = or_else a (or_else b c)"
  by (auto simp: or_else_def split: option.splits)

lemma or_else_None: "or_else a b = None \<longleftrightarrow> a = None \<and> b = None"
  by (auto simp: or_else_def split: option.splits)

lemma placeholder_names_simps:
  "match_placeholder s = Some (n, r) \<Longrightarrow> placeholder_names s = n # placeholder_names r"
  "match_placeholder [] = None \<Longrightarrow> placeholder_names [] = []"
  "match_placeholder (c # cs) = None \<Longrightarrow> placeholder_names (c # cs) = placeholder_names cs"
  by (simp_all add: placeholder_names.simps)

lemma expand_simps:
  "match_placeholder s = Some (n, r) \<Longrightarrow> expand f s = f n @ expand f r"
  "match_placeholder [] = None \<Longrightarrow> expand f [] = []"
  "match_placeholder (c # cs) = None \<Longrightarrow> expand f (c # cs) = c # expand f cs"
  by (simp_all add: expand.simps)

text \<open>Induction over a text the way it is scanned.\<close>

lemma scan_induct [case_names Match End Skip]:
  assumes "\<And>s n r. match_placeholder s = Some (n, r) \<Longrightarrow> P r \<Longrightarrow> P s"
    and "match_placeholder [] = None \<Longrightarrow> P []"
    and "\<And>c cs. match_placeholder (c # cs) = None \<Longrightarrow> P cs \<Longrightarrow> P (c # cs)"
  shows "P s"
proof (induction s rule: length_induct)
  case (1 s)
  show ?case
  proof (cases "match_placeholder s")
    case (Some x)
    obtain n r where x: "x = (n, r)" by (cases x)
    then show ?thesis using Some 1 assms(1) match_placeholder_shorter by blast
  next
    case None
    then show ?thesis using 1 assms(2,3) by (cases s) auto
  qed
qed

lemma expand_cong: "(\<And>n. n \<in> set (placeholder_names s) \<Longrightarrow> f n = g n) \<Longrightarrow> expand f s = expand g s"
  by (induction s rule: scan_induct) (simp_all add: expand_simps placeholder_names_simps)

lemma expand_placeholder: "expand credentialPlaceholder s = s"
  by (induction s rule: scan_induct) (auto simp: expand_simps dest: match_placeholder_Some(2))

lemma names_probe: "placeholder_names s \<noteq> [] \<Longrightarrow> contains_text s PLACEHOLDER_PROBE"
proof (induction s rule: scan_induct)
  case (Match s n r)
  then have "occurs_at PLACEHOLDER_PROBE s 0"
    using match_placeholder_Some(2) [OF Match(1)] by (simp add: occurs_at_0 credentialPlaceholder_def)
  then show ?case by (auto simp: contains_text_def index_of_None_iff)
next
  case End
  then show ?case by (simp add: placeholder_names_simps)
next
  case (Skip c cs)
  then have "contains_text cs PLACEHOLDER_PROBE" by (simp add: placeholder_names_simps)
  then obtain i where "occurs_at PLACEHOLDER_PROBE cs i" by (auto simp: contains_text_def index_of_None_iff)
  then have "occurs_at PLACEHOLDER_PROBE (c # cs) (Suc i)" by (simp add: occurs_at_Suc)
  then show ?case unfolding contains_text_def index_of_None_iff by blast
qed

text \<open>
  The contract of an access check: on every state the rewriting can be in (the credentials used
  before it, plus those it allowed) the verdict on a name is one and the same, and what it allows
  exists. Every check the code passes to \<open>applyToString\<close> meets it, and the outcome of a
  rewriting is then a function of the text alone.
\<close>

locale access_check =
  fixes secrets :: vault and check :: "utext set \<Rightarrow> utext \<Rightarrow> AccessVerdict"
    and base :: "utext set" and ok :: "utext \<Rightarrow> bool" and refusal :: "utext \<Rightarrow> SubstitutionFailure option"
  assumes verdict: "base \<subseteq> u \<Longrightarrow> u \<subseteq> base \<union> Collect ok \<Longrightarrow>
      check u n = (if ok n then Substitute else case refusal n of None \<Rightarrow> Forward_literal | Some e \<Rightarrow> Refuse e)"
    and known: "ok n \<Longrightarrow> secrets n \<noteq> None"
begin

definition rewritten :: "utext \<Rightarrow> utext" where
  "rewritten = expand (\<lambda>n. if ok n then secret_value (the (secrets n)) else credentialPlaceholder n)"

definition refused :: "utext \<Rightarrow> SubstitutionFailure option" where
  "refused s = first_some (\<lambda>n. if ok n then None else refusal n) (placeholder_names s)"

lemma replace_one_spec:
  assumes "base \<subseteq> u" "u \<subseteq> base \<union> Collect ok"
  shows "replace_one secrets check u f n =
    (if ok n then (secret_value (the (secrets n)), insert n u, f) else (credentialPlaceholder n, u, or_else f (refusal n)))"
  using known [of n] by (auto simp: replace_one_def verdict [OF assms] split: option.splits)

lemma replace_all_spec:
  assumes "base \<subseteq> u" "u \<subseteq> base \<union> Collect ok"
  shows "replace_all secrets check u f s =
    (rewritten s, u \<union> {n \<in> set (placeholder_names s). ok n}, or_else f (refused s))"
  using assms
proof (induction s arbitrary: u f rule: scan_induct)
  case (Match s n r)
  have IH: "replace_all secrets check u' f' r =
      (rewritten r, u' \<union> {n \<in> set (placeholder_names r). ok n}, or_else f' (refused r))"
    if "base \<subseteq> u'" "u' \<subseteq> base \<union> Collect ok" for u' f' using Match.IH that by blast
  have step: "replace_all secrets check u f s = (case replace_one secrets check u f n of (t, u', f') \<Rightarrow>
      case replace_all secrets check u' f' r of (t', x) \<Rightarrow> (t @ t', x))"
    by (simp add: replace_all.simps [of _ _ _ _ s] Match.hyps)
  have names: "rewritten s = (if ok n then secret_value (the (secrets n)) else credentialPlaceholder n) @ rewritten r"
    "refused s = or_else (if ok n then None else refusal n) (refused r)" "placeholder_names s = n # placeholder_names r"
    by (simp_all add: rewritten_def refused_def expand_simps(1) [OF Match.hyps] placeholder_names_simps(1) [OF Match.hyps])
  show ?case
  proof (cases "ok n")
    case True
    then have "base \<subseteq> insert n u" "insert n u \<subseteq> base \<union> Collect ok" using Match.prems by auto
    then show ?thesis unfolding step replace_one_spec [OF Match.prems] names using True by (auto simp: IH)
  next
    case False
    then show ?thesis unfolding step replace_one_spec [OF Match.prems] names by (auto simp: IH [OF Match.prems])
  qed
next
  case End
  then show ?case
    by (simp add: replace_all.simps [of _ _ _ _ "[]"] rewritten_def refused_def expand_simps placeholder_names_simps)
next
  case (Skip c cs)
  then show ?case
    by (simp add: replace_all.simps [of _ _ _ _ "c # cs"] rewritten_def refused_def expand_simps placeholder_names_simps)
qed

lemma no_names: "placeholder_names s = [] \<Longrightarrow> rewritten s = s \<and> refused s = None"
  using expand_placeholder [of s]
    expand_cong [of s "\<lambda>n. if ok n then secret_value (the (secrets n)) else credentialPlaceholder n" credentialPlaceholder]
  by (simp add: rewritten_def refused_def)

lemma applyToString_spec:
  assumes "base \<subseteq> u" "u \<subseteq> base \<union> Collect ok"
  shows "applyToString secrets check s u =
    (\<lparr>out_value = rewritten s, out_changed = (rewritten s \<noteq> s), out_failure = refused s\<rparr>,
     u \<union> {n \<in> set (placeholder_names s). ok n})"
proof (cases "contains_text s PLACEHOLDER_PROBE")
  case True
  then show ?thesis by (simp add: applyToString_def replace_all_spec [OF assms])
next
  case False
  then have "placeholder_names s = []" using names_probe by blast
  then show ?thesis using False no_names by (simp add: applyToString_def)
qed

end

text \<open>A secret may leave for a host; the two checks of the code as instances.\<close>

definition permitted :: "vault \<Rightarrow> utext \<Rightarrow> utext \<Rightarrow> bool" where
  "permitted secrets host n = (case secrets n of
     None \<Rightarrow> False
   | Some s \<Rightarrow> allowAllHosts s \<or> (allowedHosts s \<noteq> [] \<and> hostMatchesAllowedHosts host (allowedHosts s)))"

definition body_permitted :: "vault \<Rightarrow> utext \<Rightarrow> utext \<Rightarrow> bool" where
  "body_permitted secrets host n \<longleftrightarrow>
     permitted secrets host n \<and> (case secrets n of Some s \<Rightarrow> allowBodySubstitution s | None \<Rightarrow> False)"

definition body_refusal :: "vault \<Rightarrow> utext \<Rightarrow> utext set \<Rightarrow> utext \<Rightarrow> SubstitutionFailure option" where
  "body_refusal secrets host used n =
     (if permitted secrets host n
      then (if n \<in> used then None else Some (Secret_not_allowed_in_body n [] []))
      else checkAccess secrets host n)"

lemma checkAccess_permitted: "checkAccess secrets host n = None \<longleftrightarrow> permitted secrets host n"
  by (auto simp: checkAccess_def permitted_def split: option.splits)

interpretation text_check: access_check secrets "check_text secrets host" "{}" "\<lambda>n. permitted secrets host n"
    "checkAccess secrets host" for secrets host
proof unfold_locales
  fix u n
  show "check_text secrets host u n = (if permitted secrets host n then Substitute
      else case checkAccess secrets host n of None \<Rightarrow> Forward_literal | Some e \<Rightarrow> Refuse e)"
    using checkAccess_permitted [of secrets host n] by (auto simp: check_text_def split: option.splits)
next
  fix n assume "permitted secrets host n"
  then show "secrets n \<noteq> None" by (auto simp: permitted_def split: option.splits)
qed

interpretation body_check: access_check secrets "checkBodyAccess secrets host" used "body_permitted secrets host"
    "body_refusal secrets host used" for secrets host used
proof unfold_locales
  fix u n assume u: "used \<subseteq> u" "u \<subseteq> used \<union> Collect (body_permitted secrets host)"
  then have "n \<in> u \<longleftrightarrow> n \<in> used" if "\<not> body_permitted secrets host n" using that by auto
  then show "checkBodyAccess secrets host u n = (if body_permitted secrets host n then Substitute
      else case body_refusal secrets host used n of None \<Rightarrow> Forward_literal | Some e \<Rightarrow> Refuse e)"
    using checkAccess_permitted [of secrets host n]
    by (auto simp: checkBodyAccess_def body_permitted_def body_refusal_def permitted_def split: option.splits)
next
  fix n assume "body_permitted secrets host n"
  then show "secrets n \<noteq> None" by (auto simp: body_permitted_def permitted_def split: option.splits)
qed

section \<open>Whole requests\<close>

abbreviation used_permitted :: "vault \<Rightarrow> utext \<Rightarrow> utext set \<Rightarrow> bool" where
  "used_permitted secrets host u \<equiv> u \<subseteq> Collect (permitted secrets host)"

lemma applyToString_text_used:
  assumes "used_permitted secrets host u" "applyToString secrets (check_text secrets host) s u = (out, u')"
  shows "used_permitted secrets host u'" "u \<subseteq> u'"
  using assms text_check.applyToString_spec [of u secrets host s] by auto

lemma applyToAuthorization_text_used:
  assumes "used_permitted secrets host u" "applyToAuthorization pf secrets (check_text secrets host) s u = (out, u')"
  shows "used_permitted secrets host u'"
  using assms applyToString_text_used(1) [OF assms(1)]
  by (auto simp: applyToAuthorization_def split: option.splits prod.splits if_splits)

lemma apply_many_used:
  assumes "used_permitted secrets host u" "apply_many secrets host vs (c, u, f) = (out, c', u', f')"
  shows "used_permitted secrets host u'"
  using assms
proof (induction vs arbitrary: c u f out)
  case (Cons v vs)
  obtain o1 u1 where o1: "applyToString secrets (check_text secrets host) v u = (o1, u1)" by fastforce
  then have "used_permitted secrets host u1" using applyToString_text_used(1) Cons.prems(1) by blast
  then show ?case using Cons.IH [of u1] Cons.prems(2) o1 by (auto split: prod.splits)
qed simp

lemma apply_headers_used:
  assumes "used_permitted secrets host u" "apply_headers pf secrets host hs (c, u, f) = (out, c', u', f')"
  shows "used_permitted secrets host u'"
  using assms
proof (induction hs arbitrary: c u f out)
  case (Cons h hs)
  obtain name v where h: "h = (name, v)" by (cases h)
  show ?case
  proof (cases v)
    case HUndefined
    then show ?thesis using Cons h by auto
  next
    case (HMany raws)
    obtain vs c1 u1 f1 where m: "apply_many secrets host raws (c, u, f) = (vs, c1, u1, f1)"
      by (metis prod_cases4)
    then have "used_permitted secrets host u1" using apply_many_used Cons.prems(1) by blast
    then show ?thesis using Cons.IH [of u1] Cons.prems(2) h HMany m by (auto split: prod.splits)
  next
    case (HOne raw)
    obtain o1 u1 where o1: "(if toLowerCase name = cps ''authorization''
        then applyToAuthorization pf secrets (check_text secrets host) raw u
        else applyToString secrets (check_text secrets host) raw u) = (o1, u1)" by fastforce
    then have "used_permitted secrets host u1"
      using applyToString_text_used(1) [OF Cons.prems(1)] applyToAuthorization_text_used [OF Cons.prems(1)]
      by (auto split: if_splits)
    then show ?thesis using Cons.IH [of u1] Cons.prems(2) h HOne o1 by (auto split: prod.splits)
  qed
qed simp

text \<open>Two vaults that differ only in the values they hold.\<close>

definition same_policy :: "vault \<Rightarrow> vault \<Rightarrow> bool" where
  "same_policy V W \<longleftrightarrow> (\<forall>n. map_option (\<lambda>s. s\<lparr>secret_value := []\<rparr>) (V n) = map_option (\<lambda>s. s\<lparr>secret_value := []\<rparr>) (W n))"

lemma same_policyD:
  assumes "same_policy V W"
  shows "(V n = None \<and> W n = None) \<or> (\<exists>s t. V n = Some s \<and> W n = Some t \<and> allowedHosts s = allowedHosts t
    \<and> allowAllHosts s = allowAllHosts t \<and> allowBodySubstitution s = allowBodySubstitution t)"
proof -
  have "map_option (\<lambda>s. s\<lparr>secret_value := []\<rparr>) (V n) = map_option (\<lambda>s. s\<lparr>secret_value := []\<rparr>) (W n)"
    using assms by (simp add: same_policy_def)
  then show ?thesis
    by (cases "V n"; cases "W n")
       (auto dest: arg_cong [where f = allowedHosts] arg_cong [where f = allowAllHosts]
          arg_cong [where f = allowBodySubstitution])
qed

lemma same_policy_checks:
  assumes "same_policy V W"
  shows "checkAccess V = checkAccess W" "check_text V = check_text W" "checkBodyAccess V = checkBodyAccess W"
    "permitted V = permitted W" "body_permitted V = body_permitted W"
proof -
  have access: "checkAccess V host n = checkAccess W host n" for host n
    using same_policyD [OF assms, of n] by (auto simp: checkAccess_def)
  have body: "(case V n of Some s \<Rightarrow> allowBodySubstitution s | None \<Rightarrow> False) =
      (case W n of Some s \<Rightarrow> allowBodySubstitution s | None \<Rightarrow> False)" for n
    using same_policyD [OF assms, of n] by auto
  have perm: "permitted V host n = permitted W host n" for host n
    using access [of host n] checkAccess_permitted by metis
  show "checkAccess V = checkAccess W" "permitted V = permitted W" by (simp_all add: fun_eq_iff access perm)
  show "check_text V = check_text W" by (simp add: check_text_def fun_eq_iff access)
  show "checkBodyAccess V = checkBodyAccess W" "body_permitted V = body_permitted W"
    unfolding checkBodyAccess_def body_permitted_def fun_eq_iff access body perm by simp_all
qed

lemma replace_all_cong:
  assumes "\<And>u n. check u n = Substitute \<Longrightarrow> V n = W n"
  shows "replace_all V check u f s = replace_all W check u f s"
proof (induction s arbitrary: u f rule: scan_induct)
  case (Match s n r)
  have "replace_one V check u f n = replace_one W check u f n" for u f
    using assms [of u n] by (simp add: replace_one_def split: AccessVerdict.split)
  then show ?case
    using Match by (auto simp: replace_all.simps [of _ _ _ _ s] split: prod.splits)
qed (simp_all add: replace_all.simps [of _ _ _ _ "[]"] replace_all.simps [of _ _ _ _ "_ # _"])

lemma applyToString_cong:
  assumes "\<And>u n. check u n = Substitute \<Longrightarrow> V n = W n"
  shows "applyToString V check s u = applyToString W check s u"
  using replace_all_cong [OF assms] by (simp add: applyToString_def)

lemma Substitute_text: "check_text secrets host u n = Substitute \<Longrightarrow> permitted secrets host n"
  using checkAccess_permitted [of secrets host n] by (auto simp: check_text_def split: option.splits)

lemma Substitute_body: "checkBodyAccess secrets host u n = Substitute \<Longrightarrow> body_permitted secrets host n"
  using checkAccess_permitted [of secrets host n]
  by (auto simp: checkBodyAccess_def body_permitted_def split: option.splits if_splits)

text \<open>The credentials a rewriting uses and refuses depend on the policy alone.\<close>

lemma replace_all_state_cong:
  assumes "\<And>u n. check u n = Substitute \<Longrightarrow> V n \<noteq> None \<and> W n \<noteq> None"
  shows "snd (replace_all V check u f s) = snd (replace_all W check u f s)"
proof (induction s arbitrary: u f rule: scan_induct)
  case (Match s n r)
  have same: "snd (replace_one V check u f n) = snd (replace_one W check u f n)"
    using assms [of u n] by (auto simp: replace_one_def split: AccessVerdict.split option.split)
  obtain t1 u1 f1 where V: "replace_one V check u f n = (t1, u1, f1)" by (metis prod_cases3)
  then obtain t2 where W: "replace_one W check u f n = (t2, u1, f1)" using same by (cases "replace_one W check u f n") auto
  note r = V W
  show ?case
    using Match.IH [of u1 f1] by (auto simp: replace_all.simps [of _ _ _ _ s] Match.hyps r split: prod.splits)
next
  case (Skip c cs)
  obtain t1 x1 where V: "replace_all V check u f cs = (t1, x1)" by (meson surj_pair)
  obtain t2 x2 where W: "replace_all W check u f cs = (t2, x2)" by (meson surj_pair)
  show ?case
    using Skip.IH [of u f] by (simp add: replace_all.simps [of _ _ _ _ "c # cs"] Skip.hyps V W)
qed (simp add: replace_all.simps [of _ _ _ _ "[]"])


lemma applyToString_state_cong:
  assumes "\<And>u n. check u n = Substitute \<Longrightarrow> V n \<noteq> None \<and> W n \<noteq> None"
  shows "out_failure (fst (applyToString V check s u)) = out_failure (fst (applyToString W check s u))"
    "snd (applyToString V check s u) = snd (applyToString W check s u)"
  using replace_all_state_cong [of check V W u None s] assms
  by (auto simp: applyToString_def split: prod.splits)

lemma applyToAuthorization_state_cong:
  assumes "\<And>u n. check u n = Substitute \<Longrightarrow> V n \<noteq> None \<and> W n \<noteq> None"
  shows "out_failure (fst (applyToAuthorization pf V check s u)) = out_failure (fst (applyToAuthorization pf W check s u))"
    "snd (applyToAuthorization pf V check s u) = snd (applyToAuthorization pf W check s u)"
  using applyToString_state_cong [of check V W _ u] assms
  by (auto simp: applyToAuthorization_def split: option.splits prod.splits) (metis fst_conv snd_conv)+

lemma apply_many_state_cong:
  assumes "same_policy V W"
  shows "snd (snd (apply_many V host vs (c, u, f))) = snd (snd (apply_many W host vs (c', u, f)))"
proof (induction vs arbitrary: c c' u f)
  case (Cons v vs)
  have known: "check_text V host u n = Substitute \<Longrightarrow> V n \<noteq> None \<and> W n \<noteq> None" for u n
    using text_check.known Substitute_text same_policy_checks [OF assms] by metis
  obtain o1 u1 where V: "applyToString V (check_text V host) v u = (o1, u1)" by fastforce
  obtain o2 u2 where W: "applyToString W (check_text V host) v u = (o2, u2)" by fastforce
  have eq: "out_failure o1 = out_failure o2" "u1 = u2"
    using applyToString_state_cong [of "check_text V host" V W v u] known V W by auto
  show ?case
    using Cons.IH [of "c \<or> out_changed o1" u1 "or_else f (out_failure o1)" "c' \<or> out_changed o2"] V W eq
    by (auto simp: same_policy_checks(2) [OF assms, symmetric] split: prod.splits)
qed simp

lemma apply_headers_state_cong:
  assumes "same_policy V W"
  shows "snd (snd (apply_headers pf V host hs (c, u, f))) = snd (snd (apply_headers pf W host hs (c', u, f)))"
proof (induction hs arbitrary: c c' u f)
  case (Cons h hs)
  obtain name v where h: "h = (name, v)" by (cases h)
  note chk = same_policy_checks(2) [OF assms, symmetric]
  have known: "check_text V host u n = Substitute \<Longrightarrow> V n \<noteq> None \<and> W n \<noteq> None" for u n
    using text_check.known Substitute_text same_policy_checks [OF assms] by metis
  show ?case
  proof (cases v)
    case HUndefined
    then show ?thesis using Cons.IH [of c u f c'] h by simp
  next
    case (HMany raws)
    obtain vs c1 u1 f1 where V: "apply_many V host raws (c, u, f) = (vs, c1, u1, f1)" by (metis prod_cases4)
    obtain vs' c1' u1' f1' where W: "apply_many W host raws (c', u, f) = (vs', c1', u1', f1')" by (metis prod_cases4)
    have "u1 = u1'" "f1 = f1'" using apply_many_state_cong [OF assms, of host raws c u f c'] V W by auto
    then show ?thesis using Cons.IH [of c1 u1 f1 c1'] h HMany V W by (auto split: prod.splits)
  next
    case (HOne raw)
    let ?apply = "\<lambda>X. if toLowerCase name = cps ''authorization'' then applyToAuthorization pf X (check_text V host) raw u
        else applyToString X (check_text V host) raw u"
    obtain o1 u1 where V: "?apply V = (o1, u1)" by fastforce
    obtain o2 u2 where W: "?apply W = (o2, u2)" by fastforce
    have eq: "out_failure o1 = out_failure o2" "u1 = u2"
      using applyToString_state_cong [of "check_text V host" V W raw u]
        applyToAuthorization_state_cong [of "check_text V host" V W pf raw u] known V W by (auto split: if_splits)
    show ?thesis
      using Cons.IH [of "c \<or> out_changed o1" u1 "or_else f (out_failure o1)" "c' \<or> out_changed o2"] h HOne V W eq
      by (simp only: apply_headers.simps chk split: prod.splits) auto
  qed
qed simp

section \<open>Properties\<close>

lemma substitution_confined:
  assumes "same_policy V W" and "\<forall>n. permitted V (req_host input) n \<longrightarrow> V n = W n"
  shows "substituteRequest pf input V = substituteRequest pf input W
    \<and> secretsUsed (substituteRequest pf input V) \<subseteq> Collect (permitted V (req_host input))"
proof
  let ?h = "req_host input"
  note chk = same_policy_checks(2,3) [OF assms(1), symmetric]
  have plain: "applyToString V (check_text V ?h) s u = applyToString W (check_text V ?h) s u" for s u
    using assms(2) Substitute_text by (intro applyToString_cong) blast
  have body: "applyToString V (checkBodyAccess V ?h) s u = applyToString W (checkBodyAccess V ?h) s u" for s u
    using assms(2) Substitute_body unfolding body_permitted_def by (intro applyToString_cong) blast
  have auth: "applyToAuthorization pf V (check_text V ?h) s u = applyToAuthorization pf W (check_text V ?h) s u" for s u
    unfolding applyToAuthorization_def plain by (rule refl)
  have many: "apply_many V ?h vs st = apply_many W ?h vs st" for vs st
  proof (induction vs arbitrary: st)
    case (Cons v vs)
    obtain c u f where "st = (c, u, f)" by (metis prod_cases3)
    then show ?case by (simp only: apply_many.simps chk plain Cons)
  qed simp
  have headers: "apply_headers pf V ?h hs st = apply_headers pf W ?h hs st" for hs st
  proof (induction hs arbitrary: st)
    case (Cons h hs)
    obtain name v where h: "h = (name, v)" by (cases h)
    obtain c u f where st: "st = (c, u, f)" by (metis prod_cases3)
    show ?case unfolding h st by (cases v) (simp_all only: apply_headers.simps chk plain auth many Cons)
  qed simp
  show "substituteRequest pf input V = substituteRequest pf input W"
    by (simp only: substituteRequest_def headers chk plain body)
  obtain hs c u1 f1 where h: "apply_headers pf V ?h (req_headers input) (False, {}, None) = (hs, c, u1, f1)"
    by (metis prod_cases4)
  have u1: "used_permitted V ?h u1" using apply_headers_used [OF _ h] by simp
  obtain urlOut u2 where u: "applyToString V (check_text V ?h) (req_url input) u1 = (urlOut, u2)" by fastforce
  have u2: "used_permitted V ?h u2" using applyToString_text_used(1) [OF u1 u] .
  show "secretsUsed (substituteRequest pf input V) \<subseteq> Collect (permitted V ?h)"
    using u2 body_check.applyToString_spec [of u2 u2 V ?h]
    by (auto simp: substituteRequest_def h u Let_def body_permitted_def split: option.split)
qed

text \<open>
  (C1) Secrets are confined to their hosts. The result of rewriting a request, failure report
  included, does not depend on the value of any secret that is not permitted for the request's
  host: two vaults with the same policy that agree on the permitted secrets give the same result;
  and every credential reported as used is permitted.
\<close>

theorem egress_confined:
  assumes "same_policy V W" and "\<forall>n. permitted V (req_host input) n \<longrightarrow> V n = W n"
  shows "substituteRequest pf input V = substituteRequest pf input W
    \<and> secretsUsed (substituteRequest pf input V) \<subseteq> Collect (permitted V (req_host input))"
  by (rule substitution_confined [OF assms])

text \<open>A request to one host, with a vault holding one secret for it and one for another.\<close>

definition demo_secret :: "string \<Rightarrow> string \<Rightarrow> string \<Rightarrow> bool \<Rightarrow> ResolvedSecret" where
  "demo_secret n v h b = \<lparr>secret_name_of = cps n, secret_value = cps v, allowedHosts = [cps h], allowAllHosts = False,
     allowBodySubstitution = b\<rparr>"

definition demo_vault :: "string \<Rightarrow> vault" where
  "demo_vault v = [cps ''A'' \<mapsto> demo_secret ''A'' ''s3cr3t'' ''a.io'' False, cps ''B'' \<mapsto> demo_secret ''B'' v ''b.io'' False]"

definition demo_request :: RequestInputs where
  "demo_request = \<lparr>req_url = cps ''/'', req_headers = [(cps ''X'', HOne (credentialPlaceholder (cps ''A'')))],
     req_method = cps ''GET'', req_host = cps ''a.io'', req_body = None\<rparr>"

text \<open>A stand-in for the platform: bytes as code points, no body ever parses.\<close>

definition demo_platform :: platform where
  "demo_platform = \<lparr>base64_decode = map word_of_nat, base64_encode = map unat, json_parse = (\<lambda>_. None)\<rparr>"

lemmas demo_request_defs = demo_secret_def demo_vault_def demo_request_def

lemma demo_policy: "same_policy (demo_vault v) (demo_vault w)"
  by (simp add: same_policy_def demo_request_defs)

theorem egress_confined_witness:
  "same_policy (demo_vault ''one'') (demo_vault ''two'')
    \<and> substituteRequest demo_platform demo_request (demo_vault ''one'')
      = substituteRequest demo_platform demo_request (demo_vault ''two'')"
proof -
  have "\<forall>n. permitted (demo_vault ''one'') (req_host demo_request) n \<longrightarrow> demo_vault ''one'' n = demo_vault ''two'' n"
    by (simp add: permitted_def demo_request_defs hostMatchesAllowedHosts_def toLowerCase_def trim_def lower_cp_def
        is_ws_def startsWith_def cps_def)
  then show ?thesis using egress_confined [OF demo_policy] demo_policy by blast
qed

text \<open>
  (Lemma) The body opt-in: what goes out in a request body, the failure reported and the credentials
  counted as used do not depend on the value of any secret that did not opt in to body
  substitution, wherever else in the request that secret is used.
\<close>

theorem egress_body_opt_in:
  assumes "same_policy V W" and "\<forall>n. body_permitted V (req_host input) n \<longrightarrow> V n = W n"
  shows "res_body (substituteRequest pf input V) = res_body (substituteRequest pf input W)
    \<and> res_failure (substituteRequest pf input V) = res_failure (substituteRequest pf input W)
    \<and> secretsUsed (substituteRequest pf input V) = secretsUsed (substituteRequest pf input W)"
proof -
  let ?h = "req_host input"
  note chk = same_policy_checks(2,3) [OF assms(1), symmetric]
  have body: "applyToString V (checkBodyAccess V ?h) s u = applyToString W (checkBodyAccess V ?h) s u" for s u
    using assms(2) Substitute_body by (intro applyToString_cong) blast
  have known: "check_text V ?h u n = Substitute \<Longrightarrow> V n \<noteq> None \<and> W n \<noteq> None" for u n
    using text_check.known Substitute_text same_policy_checks(4) [OF assms(1)] by metis
  obtain hs c u1 f1 where V: "apply_headers pf V ?h (req_headers input) (False, {}, None) = (hs, c, u1, f1)"
    by (metis prod_cases4)
  obtain hs' c' u1' f1' where W: "apply_headers pf W ?h (req_headers input) (False, {}, None) = (hs', c', u1', f1')"
    by (metis prod_cases4)
  have st: "u1' = u1" "f1' = f1"
    using apply_headers_state_cong [OF assms(1), of pf ?h "req_headers input" False "{}" None False] V W by auto
  obtain o1 u2 where oV: "applyToString V (check_text V ?h) (req_url input) u1 = (o1, u2)" by (meson surj_pair)
  obtain o2 u2' where oW: "applyToString W (check_text V ?h) (req_url input) u1 = (o2, u2')" by (meson surj_pair)
  have eq: "out_failure o2 = out_failure o1" "u2' = u2"
    using applyToString_state_cong [of "check_text V ?h" V W "req_url input" u1] known oV oW by auto
  show ?thesis
    by (simp add: substituteRequest_def V W st oV oW eq chk body Let_def split: option.split prod.split)
qed

theorem egress_body_opt_in_witness:
  "same_policy (demo_vault ''one'') (demo_vault ''two'')
    \<and> res_failure (substituteRequest demo_platform demo_request (demo_vault ''one''))
      = res_failure (substituteRequest demo_platform demo_request (demo_vault ''two''))"
proof -
  have "\<forall>n. body_permitted (demo_vault ''one'') (req_host demo_request) n \<longrightarrow> demo_vault ''one'' n = demo_vault ''two'' n"
    by (simp add: body_permitted_def demo_request_defs)
  then show ?thesis using egress_body_opt_in [OF demo_policy] demo_policy by blast
qed

text \<open>
  (Lemma) A request that passes is fully rewritten: when no failure is reported, every placeholder of
  the URL is permitted, counted as used and replaced by its value; a body placeholder is replaced
  when its secret opted in, and otherwise is left as literal text only because the same credential
  already went out in a header or the URL. A placeholder refused anywhere is always reported.
\<close>

theorem egress_no_silent_placeholder:
  assumes "r = substituteRequest pf input secrets" and "res_failure r = None"
  shows "res_url r = expand (\<lambda>n. secret_value (the (secrets n))) (req_url input)
    \<and> (\<forall>n \<in> set (placeholder_names (req_url input)). permitted secrets (req_host input) n \<and> n \<in> secretsUsed r)
    \<and> (\<forall>b. req_body input = Some b \<longrightarrow>
         res_body r = Some (expand (\<lambda>n. if body_permitted secrets (req_host input) n
             then secret_value (the (secrets n)) else credentialPlaceholder n) b)
         \<and> (\<forall>n \<in> set (placeholder_names b). permitted secrets (req_host input) n \<and> n \<in> secretsUsed r))"
proof -
  let ?h = "req_host input" and ?url = "req_url input"
  obtain hs c u1 f1 where h: "apply_headers pf secrets ?h (req_headers input) (False, {}, None) = (hs, c, u1, f1)"
    by (metis prod_cases4)
  have u1: "{} \<subseteq> u1" "u1 \<subseteq> {} \<union> Collect (permitted secrets ?h)" using apply_headers_used [OF _ h] by auto
  define u2 where "u2 = u1 \<union> {n \<in> set (placeholder_names ?url). permitted secrets ?h n}"
  note url = text_check.applyToString_spec [OF u1, of ?url, folded u2_def]
  have body: "applyToString secrets (checkBodyAccess secrets ?h) b u2 =
     (\<lparr>out_value = body_check.rewritten secrets ?h b, out_changed = (body_check.rewritten secrets ?h b \<noteq> b),
       out_failure = body_check.refused secrets ?h u2 b\<rparr>,
      u2 \<union> {n \<in> set (placeholder_names b). body_permitted secrets ?h n})" for b
    by (rule body_check.applyToString_spec) auto
  have fail: "text_check.refused secrets ?h ?url = None"
    and body_fail: "req_body input = Some b \<Longrightarrow> body_check.refused secrets ?h u2 b = None" for b
    using assms(2) unfolding assms(1) substituteRequest_def
    by (auto simp: h url body Let_def or_else_None split: option.splits SubstitutionFailure.splits prod.splits)
  have perm: "permitted secrets ?h n" if "n \<in> set (placeholder_names ?url)" for n
    using fail that checkAccess_permitted by (auto simp: text_check.refused_def first_some_None split: if_splits)
  have bperm: "permitted secrets ?h n \<and> (body_permitted secrets ?h n \<or> n \<in> u2)"
    if "req_body input = Some b" "n \<in> set (placeholder_names b)" for n b
    using body_fail [OF that(1)] that(2) checkAccess_permitted [of secrets ?h n]
    by (auto simp: body_check.refused_def first_some_None body_refusal_def body_permitted_def split: if_splits)
  have res_url: "res_url r = text_check.rewritten secrets ?h ?url" and used: "u2 \<subseteq> secretsUsed r"
    and res_body: "req_body input = Some b \<Longrightarrow> res_body r = Some (body_check.rewritten secrets ?h b)
        \<and> {n \<in> set (placeholder_names b). body_permitted secrets ?h n} \<subseteq> secretsUsed r" for b
    unfolding assms(1) substituteRequest_def by (auto simp: h url body Let_def split: option.split)
  have "text_check.rewritten secrets ?h ?url = expand (\<lambda>n. secret_value (the (secrets n))) ?url"
    unfolding text_check.rewritten_def by (rule expand_cong) (simp add: perm)
  then have url_ok: "res_url r = expand (\<lambda>n. secret_value (the (secrets n))) ?url" using res_url by simp
  have used_ok: "permitted secrets ?h n \<and> n \<in> secretsUsed r" if "n \<in> set (placeholder_names ?url)" for n
    using perm [OF that] used that by (auto simp: u2_def)
  have "permitted secrets ?h n \<and> n \<in> secretsUsed r"
    if "req_body input = Some b" "n \<in> set (placeholder_names b)" for n b
    using bperm [OF that] res_body [OF that(1)] used that(2) by blast
  then show ?thesis
    using url_ok used_ok res_body by (simp add: body_check.rewritten_def)
qed

theorem egress_no_silent_placeholder_witness:
  "res_failure (substituteRequest demo_platform (demo_request\<lparr>req_url := cps ''/x'', req_headers := []\<rparr>) (\<lambda>_. None)) = None
    \<and> res_url (substituteRequest demo_platform (demo_request\<lparr>req_url := cps ''/x'', req_headers := []\<rparr>) (\<lambda>_. None)) = cps ''/x''"
proof -
  let ?in = "demo_request\<lparr>req_url := cps ''/x'', req_headers := []\<rparr>"
  have m: "match_placeholder [47, 120] = None" "match_placeholder [120] = None" "match_placeholder [] = None"
    by (simp_all add: match_placeholder_def startsWith_def PLACEHOLDER_PROBE_def cps_def)
  have ok: "res_failure (substituteRequest demo_platform ?in (\<lambda>_. None)) = None"
    by (simp add: substituteRequest_def demo_request_def applyToString_def contains_text_def index_of.simps
        PLACEHOLDER_PROBE_def cps_def Let_def)
  show ?thesis
    using egress_no_silent_placeholder [OF refl ok] ok
    by (simp add: demo_request_def cps_def expand_simps m)
qed

text \<open>
  (Lemma) The proxy's cheap pre-flight scan sees everything substitution would act on: a header it
  reports as carrying no placeholder, Basic credentials included, is forwarded exactly as it came,
  with no credential used and no failure.
\<close>

theorem preflight_complete:
  assumes "\<not> headerValueCarriesPlaceholder pf name raw"
  shows "apply_headers pf secrets host ((name, HOne raw) # hs) (c, u, f) =
      (case apply_headers pf secrets host hs (c, u, f) of (rest, st) \<Rightarrow> ((name, HOne raw) # rest, st))"
  using assms
  by (auto simp: headerValueCarriesPlaceholder_def applyToAuthorization_def applyToString_def split: option.split)

theorem preflight_complete_witness:
  "\<not> headerValueCarriesPlaceholder demo_platform (cps ''X'') (cps ''y'')
    \<and> apply_headers demo_platform (\<lambda>_. None) [] [(cps ''X'', HOne (cps ''y''))] (False, {}, None)
      = ([(cps ''X'', HOne (cps ''y''))], (False, {}, None))"
proof -
  have n: "\<not> headerValueCarriesPlaceholder demo_platform (cps ''X'') (cps ''y'')"
    by (simp add: headerValueCarriesPlaceholder_def contains_text_def index_of.simps PLACEHOLDER_PROBE_def
        toLowerCase_def lower_cp_def cps_def)
  show ?thesis using preflight_complete [OF n, of "\<lambda>_. None" "[]" "[]" False "{}" None] n by simp
qed

end
