(* ===== verification/Secrets_Vault.thy ===== *)
theory Secrets_Vault
  imports State_Systems Egress_Substitution
begin

text \<open>
  The decrypted-vault cache of \<open>services/egress/substitution.ts\<close> (\<open>loadAllSecrets\<close>,
  \<open>invalidateSecretsVault\<close>, \<open>bindSecretsVaultToMasterKey\<close>, \<open>readAndDecryptVault\<close>) as a
  step relation over every interleaving of its asynchronous parts: a call, the SELECT of a load,
  the moment its awaiting caller resumes, an invalidation, an unlock of the instance, and what the environment does meanwhile
  (writes to the \<open>secrets\<close> table, the clock).

  \<open>decrypt\<close>, of \<open>crypto/encryption.ts\<close>, is a parameter: \<open>None\<close> where it throws. The token
  refresh a load runs before its SELECT is among the environment's writes and invalidations.
\<close>

section \<open>State\<close>

type_synonym key = nat

record secret_row =
  row_name :: utext
  encrypted_value :: utext
  row_allowed_hosts :: "utext list option"
  row_allow_all_hosts :: bool
  row_allow_body :: "bool option"

definition VAULT_CACHE_TTL_MS :: int where
  "VAULT_CACHE_TTL_MS = 5000"

text \<open>The rows read are put into a map in order; one value that does not decrypt fails the load.\<close>

fun decrypt_rows :: "(utext \<Rightarrow> key \<Rightarrow> utext option) \<Rightarrow> key \<Rightarrow> secret_row list \<Rightarrow> vault \<Rightarrow> vault option" where
  "decrypt_rows decrypt k [] out = Some out"
| "decrypt_rows decrypt k (row # rows) out = (case decrypt (encrypted_value row) k of
     None \<Rightarrow> None
   | Some v \<Rightarrow> decrypt_rows decrypt k rows (out(row_name row \<mapsto>
       \<lparr>secret_name_of = row_name row, secret_value = v,
        allowedHosts = (case row_allowed_hosts row of None \<Rightarrow> [] | Some hs \<Rightarrow> hs),
        allowAllHosts = row_allow_all_hosts row,
        allowBodySubstitution = (case row_allow_body row of None \<Rightarrow> False | Some b \<Rightarrow> b)\<rparr>)))"

definition readAndDecryptVault :: "(utext \<Rightarrow> key \<Rightarrow> utext option) \<Rightarrow> key \<Rightarrow> secret_row list \<Rightarrow> vault option" where
  "readAndDecryptVault decrypt k rows = decrypt_rows decrypt k rows Map.empty"

text \<open>A load in progress: what it captured, and its outcome once its SELECT was answered.\<close>

record vault_load =
  load_generation :: nat
  load_key :: key
  outcome :: "vault option option"

datatype vault_error = MasterKeyLocked | LoadFailed

type_synonym vault_answer = "vault_error + vault"

record vault_state =
  vaultCache :: "(vault \<times> int) option"
  vaultInflight :: "nat option"
  vaultGeneration :: nat
  loads :: "vault_load list"
  waiting :: "(nat \<times> nat) list"
  answers :: "(nat \<times> vault_answer) list"
  table :: "secret_row list"
  master_key :: "key option"
  clock :: int

definition new_vault_state :: "secret_row list \<Rightarrow> key option \<Rightarrow> int \<Rightarrow> vault_state" where
  "new_vault_state rows k t = \<lparr>vaultCache = None, vaultInflight = None, vaultGeneration = 0, loads = [], waiting = [],
     answers = [], table = rows, master_key = k, clock = t\<rparr>"

definition invalidateSecretsVault :: "vault_state \<Rightarrow> vault_state" where
  "invalidateSecretsVault s = s\<lparr>vaultCache := None, vaultGeneration := vaultGeneration s + 1\<rparr>"

text \<open>
  \<open>setUnlocked\<close> of the key manager, as the vault sees it: the key is replaced, and the callback \<open>bindSecretsVaultToMasterKey\<close> registered runs only
  when the instance was locked before. There is no operation that locks it again.
\<close>

definition setUnlocked :: "key \<Rightarrow> vault_state \<Rightarrow> vault_state" where
  "setUnlocked k s =
     (let wasLocked = (master_key s = None); s' = s\<lparr>master_key := Some k\<rparr> in if wasLocked then invalidateSecretsVault s' else s')"

section \<open>Steps\<close>

text \<open>The synchronous part of a call \<open>c\<close>: answered at once, joined to a load, or starting one.\<close>

definition loadAllSecrets :: "nat \<Rightarrow> vault_state \<Rightarrow> vault_state" where
  "loadAllSecrets c s = (case master_key s of
     None \<Rightarrow> (let s' = invalidateSecretsVault s in s'\<lparr>answers := (c, Inl MasterKeyLocked) # answers s'\<rparr>)
   | Some k \<Rightarrow>
       let miss = (case vaultInflight s of
             Some l \<Rightarrow> s\<lparr>waiting := (c, l) # waiting s\<rparr>
           | None \<Rightarrow> s\<lparr>loads := loads s @ [\<lparr>load_generation = vaultGeneration s, load_key = k, outcome = None\<rparr>],
               vaultInflight := Some (length (loads s)),
               waiting := (c, length (loads s)) # waiting s\<rparr>)
       in case vaultCache s of
            Some (secrets, loadedAt) \<Rightarrow>
              if clock s - loadedAt < VAULT_CACHE_TTL_MS then s\<lparr>answers := (c, Inr secrets) # answers s\<rparr> else miss
          | None \<Rightarrow> miss)"

text \<open>The SELECT of load \<open>l\<close> is answered and its rows are decrypted.\<close>

definition load_select :: "(utext \<Rightarrow> key \<Rightarrow> utext option) \<Rightarrow> nat \<Rightarrow> vault_state \<Rightarrow> vault_state" where
  "load_select decrypt l s =
     s\<lparr>loads := (loads s)[l := (loads s ! l)\<lparr>outcome := Some (readAndDecryptVault decrypt (load_key (loads s ! l)) (table s))\<rparr>]\<rparr>"

text \<open>The callers of load \<open>l\<close> resume: publish if still current, clear the in-flight slot, answer.\<close>

definition load_settle :: "nat \<Rightarrow> vault \<Rightarrow> vault_state \<Rightarrow> vault_state" where
  "load_settle l secrets s =
     (let s1 = (if load_generation (loads s ! l) = vaultGeneration s
                then s\<lparr>vaultCache := Some (secrets, clock s)\<rparr> else s);
          s2 = (if vaultInflight s1 = Some l then s1\<lparr>vaultInflight := None\<rparr> else s1)
      in s2\<lparr>answers := map (\<lambda>(c, _). (c, Inr secrets)) (filter (\<lambda>w. snd w = l) (waiting s)) @ answers s2,
            waiting := filter (\<lambda>w. snd w \<noteq> l) (waiting s)\<rparr>)"

definition load_fail :: "nat \<Rightarrow> vault_state \<Rightarrow> vault_state" where
  "load_fail l s =
     (let s1 = (if vaultInflight s = Some l then s\<lparr>vaultInflight := None\<rparr> else s)
      in s1\<lparr>answers := map (\<lambda>(c, _). (c, Inl LoadFailed)) (filter (\<lambda>w. snd w = l) (waiting s)) @ answers s1,
            waiting := filter (\<lambda>w. snd w \<noteq> l) (waiting s)\<rparr>)"

inductive vault_step :: "(utext \<Rightarrow> key \<Rightarrow> utext option) \<Rightarrow> vault_state \<Rightarrow> vault_state \<Rightarrow> bool" for decrypt where
  Call: "vault_step decrypt s (loadAllSecrets c s)"
| Select: "l < length (loads s) \<Longrightarrow> outcome (loads s ! l) = None \<Longrightarrow> vault_step decrypt s (load_select decrypt l s)"
| Settle: "l < length (loads s) \<Longrightarrow> outcome (loads s ! l) = Some (Some secrets) \<Longrightarrow> (c, l) \<in> set (waiting s) \<Longrightarrow>
    vault_step decrypt s (load_settle l secrets s)"
| Fail: "l < length (loads s) \<Longrightarrow> outcome (loads s ! l) \<in> {None, Some None} \<Longrightarrow> vault_step decrypt s (load_fail l s)"
| Invalidate: "vault_step decrypt s (invalidateSecretsVault s)"
| Unlock: "vault_step decrypt s (setUnlocked k s)"
| Write: "vault_step decrypt s (s\<lparr>table := rows\<rparr>)"
| Tick: "0 \<le> d \<Longrightarrow> vault_step decrypt s (s\<lparr>clock := clock s + d\<rparr>)"

section \<open>Freshness\<close>

text \<open>
  The history a cached vault is judged against: every content the table has had, and every key the instance has held, since the last
  invalidation, which is the one event that changes the generation.
\<close>

type_synonym vault_history = "secret_row list set \<times> key set"

definition history_step :: "(utext \<Rightarrow> key \<Rightarrow> utext option) \<Rightarrow> vault_state \<times> vault_history \<Rightarrow> vault_state \<times> vault_history \<Rightarrow> bool" where
  "history_step decrypt p q \<longleftrightarrow> vault_step decrypt (fst p) (fst q) \<and>
     snd q = (if vaultGeneration (fst q) = vaultGeneration (fst p)
       then (insert (table (fst q)) (fst (snd p)), set_option (master_key (fst q)) \<union> snd (snd p))
       else ({table (fst q)}, set_option (master_key (fst q))))"

definition history_init :: "vault_state \<times> vault_history \<Rightarrow> bool" where
  "history_init p \<longleftrightarrow> (\<exists>rows k t. p = (new_vault_state rows k t, {rows}, set_option k))"

definition current_vault :: "(utext \<Rightarrow> key \<Rightarrow> utext option) \<Rightarrow> vault_history \<Rightarrow> vault \<Rightarrow> bool" where
  "current_vault decrypt h secrets \<longleftrightarrow> (\<exists>rows \<in> fst h. \<exists>k \<in> snd h. readAndDecryptVault decrypt k rows = Some secrets)"

definition load_ok :: "(utext \<Rightarrow> key \<Rightarrow> utext option) \<Rightarrow> nat \<Rightarrow> vault_history \<Rightarrow> vault_load \<Rightarrow> bool" where
  "load_ok decrypt g h l \<longleftrightarrow> load_generation l \<le> g \<and>
     (load_generation l = g \<longrightarrow> load_key l \<in> snd h
        \<and> (\<forall>secrets. outcome l = Some (Some secrets) \<longrightarrow> (\<exists>rows \<in> fst h. readAndDecryptVault decrypt (load_key l) rows = Some secrets)))"

definition vault_inv :: "(utext \<Rightarrow> key \<Rightarrow> utext option) \<Rightarrow> vault_state \<times> vault_history \<Rightarrow> bool" where
  "vault_inv decrypt p \<longleftrightarrow> table (fst p) \<in> fst (snd p)
     \<and> set_option (master_key (fst p)) \<subseteq> snd (snd p) \<and> (master_key (fst p) = None \<longrightarrow> snd (snd p) = {})
     \<and> (\<forall>l \<in> set (loads (fst p)). load_ok decrypt (vaultGeneration (fst p)) (snd p) l)
     \<and> (\<forall>secrets t. vaultCache (fst p) = Some (secrets, t) \<longrightarrow> t \<le> clock (fst p) \<and> current_vault decrypt (snd p) secrets)"

text \<open>A later moment of the same generation keeps what was current; an older load stays older.\<close>

definition grown :: "vault_history \<Rightarrow> vault_history \<Rightarrow> bool" where
  "grown h h' \<longleftrightarrow> fst h \<subseteq> fst h' \<and> snd h \<subseteq> snd h'"

lemma load_ok_mono: "load_ok decrypt g h l \<Longrightarrow> grown h h' \<Longrightarrow> load_ok decrypt g h' l"
  unfolding load_ok_def grown_def by blast

lemma load_ok_older: "load_ok decrypt g h l \<Longrightarrow> g < g' \<Longrightarrow> load_ok decrypt g' h' l"
  by (auto simp: load_ok_def)

lemma current_vault_mono: "current_vault decrypt h v \<Longrightarrow> grown h h' \<Longrightarrow> current_vault decrypt h' v"
  unfolding current_vault_def grown_def by blast

text \<open>What a step records of the state it leads to.\<close>

abbreviation noted :: "vault_state \<Rightarrow> vault_history \<Rightarrow> vault_history" where
  "noted t h \<equiv> (insert (table t) (fst h), set_option (master_key t) \<union> snd h)"

lemma grown_noted: "grown h (noted t h)"
  by (auto simp: grown_def)

lemma vault_inv_same_generation:
  assumes "vault_inv decrypt (s, h)" "vaultGeneration t = vaultGeneration s"
    and "master_key t = None \<longrightarrow> master_key s = None" "clock s \<le> clock t"
    and "\<And>l. l \<in> set (loads t) \<Longrightarrow> l \<in> set (loads s) \<or> load_ok decrypt (vaultGeneration s) (noted t h) l"
    and "\<And>v x. vaultCache t = Some (v, x) \<Longrightarrow> vaultCache s = Some (v, x) \<or> (x \<le> clock t \<and> current_vault decrypt (noted t h) v)"
  shows "vault_inv decrypt (t, noted t h)"
proof -
  have load_all: "load_ok decrypt (vaultGeneration s) (noted t h) l" if "l \<in> set (loads t)" for l
    using assms(5) [OF that] assms(1) load_ok_mono [OF _ grown_noted] by (auto simp: vault_inv_def)
  have cache_all: "x \<le> clock t \<and> current_vault decrypt (noted t h) v" if "vaultCache t = Some (v, x)" for v x
    using assms(6) [OF that] assms(1,4) current_vault_mono [OF _ grown_noted] by (fastforce simp: vault_inv_def)
  show ?thesis using load_all cache_all assms(1-3) by (simp add: vault_inv_def)
qed

lemma vault_inv_invalidate:
  assumes "vault_inv decrypt (s, h)" "vaultCache t = None" "vaultGeneration s < vaultGeneration t" "loads t = loads s"
  shows "vault_inv decrypt (t, {table t}, set_option (master_key t))"
  using assms load_ok_older [of decrypt "vaultGeneration s" h _ "vaultGeneration t"] by (auto simp: vault_inv_def)

lemma vault_inv_call:
  assumes "vault_inv decrypt (s, h)"
  shows "vault_inv decrypt (loadAllSecrets c s, if vaultGeneration (loadAllSecrets c s) = vaultGeneration s then noted (loadAllSecrets c s) h
    else ({table (loadAllSecrets c s)}, set_option (master_key (loadAllSecrets c s))))"
proof (cases "master_key s")
  case None
  then show ?thesis
    using vault_inv_invalidate [OF assms, of "loadAllSecrets c s"]
    by (simp add: loadAllSecrets_def invalidateSecretsVault_def Let_def)
next
  case (Some k)
  have same: "vaultGeneration (loadAllSecrets c s) = vaultGeneration s" "master_key (loadAllSecrets c s) = master_key s"
    "clock (loadAllSecrets c s) = clock s" "vaultCache (loadAllSecrets c s) = vaultCache s"
    using Some by (auto simp: loadAllSecrets_def Let_def split: option.splits)
  have new: "load_ok decrypt (vaultGeneration s) (noted (loadAllSecrets c s) h) \<lparr>load_generation = vaultGeneration s, load_key = k, outcome = None\<rparr>"
    using Some same by (simp add: load_ok_def)
  have "set (loads (loadAllSecrets c s)) \<subseteq>
      insert \<lparr>load_generation = vaultGeneration s, load_key = k, outcome = None\<rparr> (set (loads s))"
    using Some by (auto simp: loadAllSecrets_def Let_def split: option.splits if_splits)
  then show ?thesis
    using vault_inv_same_generation [OF assms same(1)] same new by auto
qed

lemma vault_inv_select:
  assumes "vault_inv decrypt (s, h)" "l < length (loads s)"
  shows "vault_inv decrypt (load_select decrypt l s, noted (load_select decrypt l s) h)"
proof (rule vault_inv_same_generation [OF assms(1)])
  let ?t = "load_select decrypt l s"
  fix x assume "x \<in> set (loads ?t)"
  then consider "x \<in> set (loads s)"
    | "x = (loads s ! l)\<lparr>outcome := Some (readAndDecryptVault decrypt (load_key (loads s ! l)) (table s))\<rparr>"
    by (auto simp: load_select_def dest: set_update_subset_insert [THEN subsetD])
  then show "x \<in> set (loads s) \<or> load_ok decrypt (vaultGeneration s) (noted ?t h) x"
  proof cases
    case 2
    have "load_ok decrypt (vaultGeneration s) h (loads s ! l)" using assms by (simp add: vault_inv_def)
    with 2 show ?thesis by (auto simp: load_ok_def load_select_def)
  qed simp
qed (auto simp: load_select_def)

lemma vault_inv_settle:
  assumes "vault_inv decrypt (s, h)" "l < length (loads s)" "outcome (loads s ! l) = Some (Some v)"
  shows "vault_inv decrypt (load_settle l v s, noted (load_settle l v s) h)"
proof (rule vault_inv_same_generation [OF assms(1)])
  let ?t = "load_settle l v s"
  have ok: "load_ok decrypt (vaultGeneration s) h (loads s ! l)" using assms by (simp add: vault_inv_def)
  fix w x assume "vaultCache ?t = Some (w, x)"
  then consider "vaultCache s = Some (w, x)" | "w = v" "x = clock s" "load_generation (loads s ! l) = vaultGeneration s"
    by (auto simp: load_settle_def Let_def split: if_splits)
  then show "vaultCache s = Some (w, x) \<or> (x \<le> clock ?t \<and> current_vault decrypt (noted ?t h) w)"
  proof cases
    case 2
    then have "current_vault decrypt h v" using ok assms(3) by (auto simp: load_ok_def current_vault_def)
    from current_vault_mono [OF this grown_noted] 2 show ?thesis by (simp add: load_settle_def Let_def)
  qed simp
qed (auto simp: load_settle_def Let_def split: if_splits)

interpretation vault: inductive_invariant history_init "history_step decrypt" "vault_inv decrypt" for decrypt
proof unfold_locales
  fix p assume "history_init p"
  then show "vault_inv decrypt p" by (auto simp: history_init_def vault_inv_def new_vault_state_def)
next
  fix p q assume inv: "vault_inv decrypt p" and step: "history_step decrypt p q"
  obtain s h where p: "p = (s, h)" by (cases p)
  define t where "t = fst q"
  have q: "q = (t, if vaultGeneration t = vaultGeneration s then noted t h else ({table t}, set_option (master_key t)))"
    using step p by (simp add: history_step_def t_def prod_eq_iff)
  have "vault_step decrypt s t" using step p by (simp add: history_step_def t_def)
  then show "vault_inv decrypt q"
  proof (cases rule: vault_step.cases)
    case (Call c)
    show ?thesis unfolding q Call using vault_inv_call [of decrypt s h c] inv p by (simp only:)
  next
    case (Select l)
    then show ?thesis using vault_inv_select [of decrypt s h l] inv p q by (simp add: load_select_def)
  next
    case (Settle l v c)
    moreover have "vaultGeneration (load_settle l v s) = vaultGeneration s" by (simp add: load_settle_def Let_def)
    ultimately show ?thesis using vault_inv_settle [of decrypt s h l v] inv p q by simp
  next
    case (Fail l)
    then show ?thesis
      using vault_inv_same_generation [of decrypt s h t] inv p q by (auto simp: load_fail_def Let_def)
  next
    case Invalidate
    then show ?thesis using vault_inv_invalidate [of decrypt s h t] inv p q by (simp add: invalidateSecretsVault_def)
  next
    case (Unlock k)
    show ?thesis
    proof (cases "master_key s")
      case None
      then show ?thesis using Unlock vault_inv_invalidate [of decrypt s h t] inv p q by (simp add: setUnlocked_def invalidateSecretsVault_def)
    next
      case (Some k')
      then show ?thesis using Unlock vault_inv_same_generation [of decrypt s h t] inv p q by (simp add: setUnlocked_def)
    qed
  next
    case (Write rows)
    then show ?thesis using vault_inv_same_generation [of decrypt s h t] inv p q by simp
  next
    case (Tick d)
    then show ?thesis using vault_inv_same_generation [of decrypt s h t] inv p q by simp
  qed
qed

section \<open>Properties\<close>

text \<open>
  (C23) A published vault is current: under every interleaving of loads, writes, invalidations and unlocks, what the cache holds was decrypted
  from a content the table has had since the last invalidation, with a key the instance has held since then; so once a write is followed by its
  invalidation, no read that raced it can put the old values back. The first unlock is itself such an invalidation, a repeated one is not: where
  all unlocks since then were with one key, which is what the canary sees to, that key is the one the instance holds and the one the vault was
  decrypted with.
\<close>

theorem vault_cache_current:
  assumes "reach history_init (history_step decrypt) (s, contents, keys)" and "vaultCache s = Some (secrets, t)"
  shows "t \<le> clock s \<and> (\<exists>rows \<in> contents. \<exists>k \<in> keys. readAndDecryptVault decrypt k rows = Some secrets)
    \<and> (keys \<subseteq> {k} \<longrightarrow> master_key s = Some k \<and> (\<exists>rows \<in> contents. readAndDecryptVault decrypt k rows = Some secrets))"
proof -
  have inv: "t \<le> clock s" "current_vault decrypt (contents, keys) secrets" "set_option (master_key s) \<subseteq> keys" "master_key s = None \<longrightarrow> keys = {}"
    using vault.reach_inv [OF assms(1)] assms(2) by (auto simp: vault_inv_def)
  then obtain rows k' where "rows \<in> contents" "k' \<in> keys" "readAndDecryptVault decrypt k' rows = Some secrets"
    by (auto simp: current_vault_def)
  with inv show ?thesis by (cases "master_key s") auto
qed

text \<open>
  The callback is not run for an instance that is unlocked already. A second unlock, with whatever key, leaves the cache as it is, and calls go on
  being answered from it until its time is over.
\<close>

lemma reunlock_keeps_vault:
  assumes "master_key s \<noteq> None" "vaultCache s = Some (secrets, t)" "clock s - t < VAULT_CACHE_TTL_MS"
  shows "answers (loadAllSecrets c (setUnlocked k s)) = (c, Inr secrets) # answers s"
  using assms by (auto simp: loadAllSecrets_def setUnlocked_def)

text \<open>A row that decrypts to itself, and the run of a load racing a write.\<close>

definition demo_decrypt :: "utext \<Rightarrow> key \<Rightarrow> utext option" where
  "demo_decrypt v k = Some v"

definition demo_row :: "string \<Rightarrow> secret_row" where
  "demo_row v = \<lparr>row_name = cps ''A'', encrypted_value = cps v, row_allowed_hosts = None, row_allow_all_hosts = True,
     row_allow_body = None\<rparr>"

definition demo_decrypted :: "string \<Rightarrow> vault" where
  "demo_decrypted v = [cps ''A'' \<mapsto> \<lparr>secret_name_of = cps ''A'', secret_value = cps v, allowedHosts = [], allowAllHosts = True,
     allowBodySubstitution = False\<rparr>]"

definition demo_start :: vault_state where
  "demo_start = new_vault_state [demo_row ''old''] (Some 7) 0"

definition demo_loading :: vault_state where
  "demo_loading = load_select demo_decrypt 0 (loadAllSecrets 1 demo_start)"

lemma demo_read: "readAndDecryptVault demo_decrypt k [demo_row v] = Some (demo_decrypted v)"
  by (simp add: readAndDecryptVault_def demo_decrypt_def demo_row_def demo_decrypted_def)

lemma demo_loading_state:
  "loads demo_loading = [\<lparr>load_generation = 0, load_key = 7, outcome = Some (Some (demo_decrypted ''old''))\<rparr>]"
  "waiting demo_loading = [(1, 0)]" "vaultGeneration demo_loading = 0" "vaultInflight demo_loading = Some 0"
  "master_key demo_loading = Some 7" "answers demo_loading = []" "vaultCache demo_loading = None"
  "table demo_loading = [demo_row ''old'']" "clock demo_loading = 0"
  by (simp_all add: demo_loading_def demo_start_def load_select_def loadAllSecrets_def new_vault_state_def demo_read)

lemma demo_loading_reach: "reach history_init (history_step demo_decrypt) (demo_loading, {[demo_row ''old'']}, {7})"
proof -
  let ?s1 = "loadAllSecrets 1 demo_start"
  have "reach history_init (history_step demo_decrypt) (demo_start, {[demo_row ''old'']}, {7})"
    by (rule reach_init) (auto simp: history_init_def demo_start_def)
  moreover have "history_step demo_decrypt (demo_start, {[demo_row ''old'']}, {7}) (?s1, {[demo_row ''old'']}, {7})"
    using vault_step.Call [of demo_decrypt demo_start 1]
    by (simp add: history_step_def demo_start_def loadAllSecrets_def new_vault_state_def)
  moreover have "history_step demo_decrypt (?s1, {[demo_row ''old'']}, {7}) (demo_loading, {[demo_row ''old'']}, {7})"
    using vault_step.Select [of 0 ?s1 demo_decrypt]
    by (simp add: history_step_def demo_loading_def demo_start_def loadAllSecrets_def new_vault_state_def load_select_def)
  ultimately show ?thesis by (blast intro: reach_step)
qed

theorem vault_cache_current_witness:
  "vaultCache (load_settle 0 (demo_decrypted ''old'') demo_loading) = Some (demo_decrypted ''old'', 0)
    \<and> master_key (load_settle 0 (demo_decrypted ''old'') demo_loading) = Some 7
    \<and> (\<exists>rows \<in> {[demo_row ''old'']}. readAndDecryptVault demo_decrypt 7 rows = Some (demo_decrypted ''old''))"
proof -
  let ?t = "load_settle 0 (demo_decrypted ''old'') demo_loading"
  have "vault_step demo_decrypt demo_loading ?t"
    by (rule vault_step.Settle [of _ _ _ 1]) (simp_all add: demo_loading_state)
  then have "history_step demo_decrypt (demo_loading, {[demo_row ''old'']}, {7}) (?t, {[demo_row ''old'']}, {7})"
    by (simp add: history_step_def load_settle_def demo_loading_state Let_def)
  then have r: "reach history_init (history_step demo_decrypt) (?t, {[demo_row ''old'']}, {7})"
    using demo_loading_reach by (blast intro: reach_step)
  have c: "vaultCache ?t = Some (demo_decrypted ''old'', 0)" by (simp add: load_settle_def demo_loading_state Let_def)
  show ?thesis using vault_cache_current [OF r c, of 7] c by auto
qed

text \<open>
  (Lemma) The answer to one call is not always current: a call made after a write and its
  invalidation joins a load whose SELECT came before them, because the in-flight slot survives an
  invalidation, and is answered with the values the write replaced.
\<close>

theorem coalesced_call_stale:
  "\<exists>written joined settled.
     vault_step demo_decrypt demo_loading (demo_loading\<lparr>table := [demo_row ''new'']\<rparr>)
   \<and> written = invalidateSecretsVault (demo_loading\<lparr>table := [demo_row ''new'']\<rparr>)
   \<and> vault_step demo_decrypt (demo_loading\<lparr>table := [demo_row ''new'']\<rparr>) written
   \<and> joined = loadAllSecrets 2 written \<and> vault_step demo_decrypt written joined
   \<and> vault_step demo_decrypt joined settled
   \<and> (2, Inr (demo_decrypted ''old'')) \<in> set (answers settled)
   \<and> readAndDecryptVault demo_decrypt 7 (table written) = Some (demo_decrypted ''new'')
   \<and> vaultCache settled = None \<and> demo_decrypted ''old'' \<noteq> demo_decrypted ''new''"
proof -
  let ?w = "invalidateSecretsVault (demo_loading\<lparr>table := [demo_row ''new'']\<rparr>)"
  let ?j = "loadAllSecrets 2 ?w"
  let ?s = "load_settle 0 (demo_decrypted ''old'') ?j"
  have j: "loads ?j = loads demo_loading" "waiting ?j = [(2, 0), (1, 0)]" "vaultCache ?j = None" "vaultGeneration ?j = 1"
    by (simp_all add: loadAllSecrets_def invalidateSecretsVault_def demo_loading_state)
  have "vault_step demo_decrypt ?j ?s"
    by (rule vault_step.Settle [of _ _ _ 2]) (simp_all add: j demo_loading_state)
  moreover have "(2, Inr (demo_decrypted ''old'')) \<in> set (answers ?s)" "vaultCache ?s = None"
    by (simp_all add: load_settle_def j demo_loading_state Let_def)
  moreover have "table ?w = [demo_row ''new'']" by (simp add: invalidateSecretsVault_def)
  then have "readAndDecryptVault demo_decrypt 7 (table ?w) = Some (demo_decrypted ''new'')" by (simp add: demo_read)
  moreover have "demo_decrypted ''old'' (cps ''A'') \<noteq> demo_decrypted ''new'' (cps ''A'')"
    by (simp add: demo_decrypted_def cps_def)
  then have "demo_decrypted ''old'' \<noteq> demo_decrypted ''new''" by metis
  moreover have "vault_step demo_decrypt demo_loading (demo_loading\<lparr>table := [demo_row ''new'']\<rparr>)"
    "vault_step demo_decrypt (demo_loading\<lparr>table := [demo_row ''new'']\<rparr>) ?w" "vault_step demo_decrypt ?w ?j"
    by (rule vault_step.Write vault_step.Invalidate vault_step.Call)+
  ultimately show ?thesis by (intro exI [of _ ?w] exI [of _ ?j] exI [of _ ?s]) (simp only: simp_thms)
qed

text \<open>
  (Lemma) A locked instance serves nothing: a call without the key is answered with the lock error
  and drops whatever was cached; and a call answered at once from the cache is answered with an
  entry younger than the time to live.
\<close>

theorem vault_locked_serves_nothing:
  "(master_key s = None \<longrightarrow> vaultCache (loadAllSecrets c s) = None
      \<and> answers (loadAllSecrets c s) = (c, Inl MasterKeyLocked) # answers s)
   \<and> (answers (loadAllSecrets c s) = (c, Inr secrets) # answers s \<longrightarrow>
        (\<exists>t. vaultCache s = Some (secrets, t) \<and> clock s - t < VAULT_CACHE_TTL_MS \<and> master_key s \<noteq> None))"
  by (auto simp: loadAllSecrets_def invalidateSecretsVault_def Let_def split: option.splits if_splits)

theorem vault_locked_serves_nothing_witness:
  "vaultCache (loadAllSecrets 3 (demo_loading\<lparr>master_key := None\<rparr>)) = None"
  using vault_locked_serves_nothing [of "demo_loading\<lparr>master_key := None\<rparr>" 3] by simp

end
