(* ===== verification/Text_Split.thy ===== *)
theory Text_Split
  imports Hezo_Prelude
begin

text \<open>
  The string operations several modules share: \<open>toLowerCase\<close> on ASCII text, \<open>split\<close> at a character and its
  inverse. Text is a list of characters.
\<close>

definition lower :: "char \<Rightarrow> char" where
  "lower c = (if of_char c \<in> {65..90 :: nat} then char_of (of_char c + 32 :: nat) else c)"

definition toLowerCase :: "string \<Rightarrow> string" where
  "toLowerCase s = map lower s"

text \<open>\<open>split\<close> at a character, and \<open>join\<close> with one, for text of any alphabet.\<close>

fun split_char :: "'a \<Rightarrow> 'a list \<Rightarrow> 'a list list" where
  "split_char c [] = [[]]"
| "split_char c (x # xs) = (if x = c then [] # split_char c xs
     else (case split_char c xs of [] \<Rightarrow> [[x]] | p # ps \<Rightarrow> (x # p) # ps))"

fun join_char :: "'a \<Rightarrow> 'a list list \<Rightarrow> 'a list" where
  "join_char c [] = []"
| "join_char c [p] = p"
| "join_char c (p # ps) = p @ c # join_char c ps"

section \<open>Splitting and joining\<close>

lemma split_char_nonempty [simp]: "split_char c s \<noteq> []"
  by (induction s) (auto split: list.split)

lemma split_char_none: "c \<notin> set s \<Longrightarrow> split_char c s = [s]"
  by (induction s) auto

lemma split_char_parts: "p \<in> set (split_char c s) \<Longrightarrow> c \<notin> set p"
proof (induction s arbitrary: p)
  case (Cons x xs)
  obtain q qs where q: "split_char c xs = q # qs" by (meson neq_Nil_conv split_char_nonempty)
  then show ?case using Cons by (auto split: if_splits)
qed simp

lemma join_split: "join_char c (split_char c s) = s"
proof (induction s)
  case (Cons x xs)
  obtain q qs where q: "split_char c xs = q # qs" by (meson neq_Nil_conv split_char_nonempty)
  then show ?case using Cons by (cases qs) auto
qed simp

lemma split_char_append:
  "split_char c (x @ r) = butlast (split_char c x) @ (last (split_char c x) @ hd (split_char c r)) # tl (split_char c r)"
proof (induction x)
  case (Cons y ys)
  obtain q qs where q: "split_char c ys = q # qs" by (meson neq_Nil_conv split_char_nonempty)
  then show ?case using Cons by auto
qed simp

lemma split_char_sep: "split_char c (x @ c # r) = split_char c x @ split_char c r"
proof -
  have "split_char c (c # r) = [] # split_char c r" by simp
  then show ?thesis by (simp add: split_char_append [of c x "c # r"])
qed

lemma join_snoc: "join_char c (zs @ [q]) = (if zs = [] then q else join_char c zs @ c # q)"
proof (induction zs)
  case (Cons z zs)
  then show ?case by (cases zs) auto
qed simp

lemma split_join: "zs \<noteq> [] \<Longrightarrow> \<forall>z \<in> set zs. c \<notin> set z \<Longrightarrow> split_char c (join_char c zs) = zs"
proof (induction c zs rule: join_char.induct)
  case (3 c p q ps)
  then show ?case by (simp add: split_char_sep split_char_none)
qed (simp_all add: split_char_none)

lemma split_char_set: "p \<in> set (split_char c s) \<Longrightarrow> set p \<subseteq> set s"
proof (induction s arbitrary: p)
  case (Cons x xs)
  obtain q qs where q: "split_char c xs = q # qs" by (meson neq_Nil_conv split_char_nonempty)
  then show ?case using Cons by (fastforce split: if_splits)
qed simp

section \<open>Lower case\<close>

lemma lower_code: "of_char (lower c) = (if of_char c \<in> {65..90 :: nat} then of_char c + 32 else of_char c :: nat)"
  by (simp add: lower_def)

lemma lower_lower [simp]: "lower (lower c) = lower c"
  by (auto simp: lower_def)

lemma lower_fixed: "of_char c \<notin> {65..90 :: nat} \<union> {97..122} \<Longrightarrow> lower d = c \<longleftrightarrow> d = c"
  by (auto simp: lower_def)

lemma lower_Nil [simp]: "toLowerCase [] = []" "toLowerCase h = [] \<longleftrightarrow> h = []" "length (toLowerCase h) = length h"
  by (simp_all add: toLowerCase_def)

lemma lower_twice [simp]: "toLowerCase (toLowerCase h) = toLowerCase h"
  by (simp add: toLowerCase_def)

lemma lower_chars: "toLowerCase s = s \<Longrightarrow> c \<in> set s \<Longrightarrow> lower c = c"
  by (metis (no_types, lifting) in_set_conv_nth nth_map toLowerCase_def)

lemma split_char_lower: "lower c = c \<Longrightarrow> (\<And>d. lower d = c \<longleftrightarrow> d = c) \<Longrightarrow> split_char c (toLowerCase s) = map toLowerCase (split_char c s)"
proof (induction s)
  case (Cons x xs)
  then show ?case by (cases "split_char c xs") (auto simp: toLowerCase_def)
qed (simp add: toLowerCase_def)

end
