(* ===== verification/Net_Guard.thy ===== *)
theory Net_Guard
  imports Text_Split
begin

text \<open>
  The destination guard of the egress proxy, \<open>services/egress/net-guard.ts\<close>: which addresses a run
  may not reach through the host's network. Host names and addresses are ASCII strings.

  \<open>isIP\<close> is the platform's and is modelled by what it accepts: an IPv4 dotted quad in canonical decimal, and
  for IPv6 the text form with one optional \<open>::\<close> standing for at least one group, a dotted quad as the last two groups
  and an optional zone. \<open>inet6\<close> is the reading of such a text as its eight groups. Name resolution is a parameter.
  \<open>Number\<close> is applied to digit strings only: \<open>isIP\<close> and the pattern of the dotted tail let nothing else through.
\<close>

unbundle bit_operations_syntax

section \<open>Text\<close>

text \<open>\<open>split\<close> at the two colons.\<close>

fun split_colons :: "string \<Rightarrow> string list" where
  "split_colons [] = [[]]"
| "split_colons [x] = [[x]]"
| "split_colons (x # y # zs) = (if x = CHR '':'' \<and> y = CHR '':'' then [] # split_colons zs
     else (case split_colons (y # zs) of [] \<Rightarrow> [[x]] | p # ps \<Rightarrow> (x # p) # ps))"

definition is_digit :: "char \<Rightarrow> bool" where
  "is_digit c \<longleftrightarrow> of_char c \<in> {48..57 :: nat}"

definition digit_of :: "char \<Rightarrow> nat" where
  "digit_of c = of_char c - 48"

definition Number :: "string \<Rightarrow> nat option" where
  "Number p = (if list_all is_digit p then Some (foldl (\<lambda>n c. n * 10 + digit_of c) 0 p) else None)"

definition hex_char :: "nat \<Rightarrow> char" where
  "hex_char n = char_of (if n < 10 then 48 + n else 87 + n)"

fun toString16 :: "nat \<Rightarrow> string" where
  "toString16 n = (if n < 16 then [hex_char n] else toString16 (n div 16) @ [hex_char (n mod 16)])"

declare toString16.simps [simp del]

text \<open>The characters of \<open>[0-9a-f]\<close>, and \<open>parseInt(h, 16)\<close> of a string of them.\<close>

definition is_hex :: "char \<Rightarrow> bool" where
  "is_hex c \<longleftrightarrow> of_char c \<in> {48..57 :: nat} \<union> {97..102}"

definition hex_of :: "char \<Rightarrow> nat" where
  "hex_of c = (if is_digit c then of_char c - 48 else of_char c - 87)"

definition parseInt16 :: "string \<Rightarrow> nat" where
  "parseInt16 h = foldl (\<lambda>n c. n * 16 + hex_of c) 0 h"

section \<open>Addresses as the platform reads them\<close>

definition octet_text :: "string \<Rightarrow> bool" where
  "octet_text p \<longleftrightarrow> p \<noteq> [] \<and> length p \<le> 3 \<and> list_all is_digit p \<and> (length p = 1 \<or> hd p \<noteq> CHR ''0'')
     \<and> (case Number p of None \<Rightarrow> False | Some n \<Rightarrow> n \<le> 255)"

definition isIPv4 :: "string \<Rightarrow> bool" where
  "isIPv4 s \<longleftrightarrow> length (split_char CHR ''.'' s) = 4 \<and> list_all octet_text (split_char CHR ''.'' s)"

definition inet4 :: "string \<Rightarrow> nat list" where
  "inet4 s = map (\<lambda>p. the (Number p)) (split_char CHR ''.'' s)"

definition v6Seg :: "string \<Rightarrow> bool" where
  "v6Seg h \<longleftrightarrow> h \<noteq> [] \<and> length h \<le> 4 \<and> list_all (\<lambda>c. is_hex (lower c)) h"

definition read_groups :: "bool \<Rightarrow> string \<Rightarrow> nat list option" where
  "read_groups quad part =
     (if part = [] then Some []
      else (let ps = split_char CHR '':'' part; front = map (\<lambda>h. parseInt16 (toLowerCase h)) (butlast ps) in
        if \<not> list_all v6Seg (butlast ps) then None
        else if v6Seg (last ps) then Some (front @ [parseInt16 (toLowerCase (last ps))])
        else if quad \<and> isIPv4 (last ps)
        then (let o4 = inet4 (last ps) in Some (front @ [o4 ! 0 * 256 + o4 ! 1, o4 ! 2 * 256 + o4 ! 3]))
        else None))"

definition inet6 :: "string \<Rightarrow> nat list option" where
  "inet6 s = (case split_colons s of
     [a] \<Rightarrow> (case read_groups True a of None \<Rightarrow> None | Some g \<Rightarrow> if length g = 8 then Some g else None)
   | [a, b] \<Rightarrow> (case (read_groups False a, read_groups True b) of
        (Some g, Some h) \<Rightarrow> if length g + length h \<le> 7 then Some (g @ replicate (8 - length g - length h) 0 @ h) else None
      | _ \<Rightarrow> None)
   | _ \<Rightarrow> None)"

definition zone_char :: "char \<Rightarrow> bool" where
  "zone_char c \<longleftrightarrow> of_char c \<in> {48..57 :: nat} \<union> {65..90} \<union> {97..122} \<or> c \<in> set ''-.:''"

definition isIPv6 :: "string \<Rightarrow> bool" where
  "isIPv6 s \<longleftrightarrow> (case split_char CHR 0x25 s of
     [a] \<Rightarrow> inet6 a \<noteq> None
   | [a, zone] \<Rightarrow> inet6 a \<noteq> None \<and> zone \<noteq> [] \<and> list_all zone_char zone
   | _ \<Rightarrow> False)"

definition isIP :: "string \<Rightarrow> nat" where
  "isIP s = (if isIPv4 s then 4 else if isIPv6 s then 6 else 0)"

section \<open>The guard\<close>

definition ipv4Octets :: "string \<Rightarrow> nat list option" where
  "ipv4Octets address =
     (let parts = split_char CHR ''.'' address in
      if length parts \<noteq> 4 then None
      else (let nums = map Number parts in
        if list_ex (\<lambda>n. case n of None \<Rightarrow> True | Some k \<Rightarrow> k > 255) nums then None else Some (map the nums)))"

text \<open>\<open>/^(.*:)(\d+\.\d+\.\d+\.\d+)$/\<close>: the second group has no colon, so it starts after the last one.\<close>

definition dotted :: "string \<Rightarrow> (string \<times> string) option" where
  "dotted v6 =
     (let ps = split_char CHR '':'' v6; quad = split_char CHR ''.'' (last ps) in
      if 2 \<le> length ps \<and> length quad = 4 \<and> list_all (\<lambda>p. p \<noteq> [] \<and> list_all is_digit p) quad
      then Some (join_char CHR '':'' (butlast ps) @ '':'', last ps) else None)"

definition hex_group :: "string \<Rightarrow> nat option" where
  "hex_group h = (if h \<noteq> [] \<and> length h \<le> 4 \<and> list_all is_hex h then Some (parseInt16 h) else None)"

definition groups :: "string \<Rightarrow> nat option list" where
  "groups part = (if part = [] then [] else map hex_group (split_char CHR '':'' part))"

definition expand_halves :: "string \<Rightarrow> nat list option" where
  "expand_halves v6 =
     (let halves = split_colons v6 in
      if length halves > 2 then None
      else (let hd_groups = groups (halves ! 0); tl_groups = (if length halves = 2 then groups (halves ! 1) else []);
                zeros = 8 - int (length hd_groups) - int (length tl_groups) in
        if list_ex (\<lambda>g. g = None) (hd_groups @ tl_groups) then None
        else if (if length halves = 2 then zeros < 1 else zeros \<noteq> 0) then None
        else Some (map the hd_groups @ replicate (if length halves = 2 then nat zeros else 0) 0 @ map the tl_groups)))"

definition ipv6Hextets :: "string \<Rightarrow> nat list option" where
  "ipv6Hextets address =
     (case dotted address of
        None \<Rightarrow> expand_halves address
      | Some (front, quad) \<Rightarrow> (case ipv4Octets quad of
          None \<Rightarrow> None
        | Some o4 \<Rightarrow> expand_halves (front @ toString16 (push_bit 8 (o4 ! 0) OR o4 ! 1) @ '':'' @ toString16 (push_bit 8 (o4 ! 2) OR o4 ! 3))))"

definition embeddedIpv4 :: "nat list \<Rightarrow> string" where
  "embeddedIpv4 h = digits (drop_bit 8 (h ! 6)) @ ''.'' @ digits (h ! 6 AND 0xff) @ ''.'' @ digits (drop_bit 8 (h ! 7)) @ ''.'' @ digits (h ! 7 AND 0xff)"

definition zeroUpTo :: "nat \<Rightarrow> nat list \<Rightarrow> bool" where
  "zeroUpTo n h \<longleftrightarrow> list_all (\<lambda>g. g = 0) (take n h)"

definition carriesIpv4 :: "nat list \<Rightarrow> bool" where
  "carriesIpv4 h \<longleftrightarrow> zeroUpTo 5 h \<and> (h ! 5 = 0xffff \<or> h ! 5 = 0)
     \<or> zeroUpTo 4 h \<and> h ! 4 = 0xffff \<and> h ! 5 = 0
     \<or> h ! 0 = 0x64 \<and> h ! 1 = 0xff9b \<and> list_all (\<lambda>g. g = 0) (take 4 (drop 2 h))"

definition blocked_octets :: "nat list \<Rightarrow> bool" where
  "blocked_octets octets \<longleftrightarrow> (let a = octets ! 0; b = octets ! 1 in
     a = 0 \<or> a = 127 \<or> a = 10 \<or> a = 172 \<and> 16 \<le> b \<and> b \<le> 31 \<or> a = 192 \<and> b = 168 \<or> a = 169 \<and> b = 254 \<or> a = 100 \<and> 64 \<le> b \<and> b \<le> 127)"

section \<open>Splitting and joining\<close>

lemma split_colons_nonempty [simp]: "split_colons s \<noteq> []"
  by (induction s rule: split_colons.induct) (auto split: list.split)

lemma split_colons_none: "CHR '':'' \<notin> set s \<Longrightarrow> split_colons s = [s]"
  by (induction s rule: split_colons.induct) auto

lemma split_colons_single: "hd s \<noteq> CHR '':'' \<Longrightarrow> CHR '':'' \<notin> set t \<Longrightarrow> t \<noteq> [] \<Longrightarrow> CHR '':'' \<notin> set s \<Longrightarrow> split_colons (s @ CHR '':'' # t) = [s @ CHR '':'' # t]"
proof (induction s)
  case Nil
  then show ?case using split_colons_none [of t] by (cases t) auto
next
  case (Cons x s)
  show ?case
  proof (cases s)
    case Nil
    then show ?thesis using Cons.prems split_colons_none [of t] by (cases t) auto
  next
    case (Cons y ys)
    then show ?thesis using Cons.IH Cons.prems by auto
  qed
qed

text \<open>What follows the last character of a text and does not begin with a colon is part of the last half.\<close>

lemma split_colons_append:
  assumes "split_colons r = [r]" and "r = b # bs" and "b \<noteq> CHR '':''"
  shows "split_colons (x @ r) = butlast (split_colons x) @ [last (split_colons x) @ r]"
proof (induction x rule: split_colons.induct)
  case 1
  then show ?case using assms by simp
next
  case (2 x)
  then show ?case using assms by simp
next
  case (3 x y zs)
  show ?case
  proof (cases "x = CHR '':'' \<and> y = CHR '':''")
    case True
    then show ?thesis using 3 by simp
  next
    case False
    obtain q qs where q: "split_colons (y # zs) = q # qs" by (meson neq_Nil_conv split_colons_nonempty)
    then have "split_colons (x # y # zs) = (x # q) # qs" using False by simp
    moreover have "split_colons ((x # y # zs) @ r) = (case split_colons ((y # zs) @ r) of [] \<Rightarrow> [[x]] | p # ps \<Rightarrow> (x # p) # ps)"
      unfolding append_Cons split_colons.simps if_not_P [OF False] ..
    ultimately show ?thesis using 3(2) [OF False] q by (cases qs) auto
  qed
qed

fun join_colons :: "string list \<Rightarrow> string" where
  "join_colons [] = []"
| "join_colons [p] = p"
| "join_colons (p # ps) = p @ '':'' @ '':'' @ join_colons ps"

lemma join_split_colons: "join_colons (split_colons s) = s"
proof (induction s rule: split_colons.induct)
  case (3 x y zs)
  show ?case
  proof (cases "x = CHR '':'' \<and> y = CHR '':''")
    case True
    then show ?thesis using 3(1) by (cases "split_colons zs") auto
  next
    case False
    obtain q qs where q: "split_colons (y # zs) = q # qs" by (meson neq_Nil_conv split_colons_nonempty)
    then show ?thesis using False 3(2) [OF False] by (cases qs) auto
  qed
qed simp_all

section \<open>Letters and digits\<close>

lemma lower_is [simp]: "is_digit (lower c) = is_digit c"
  by (auto simp: is_digit_def lower_code)

lemma lower_punct [simp]: "lower d = CHR '':'' \<longleftrightarrow> d = CHR '':''" "lower d = CHR ''.'' \<longleftrightarrow> d = CHR ''.''" "lower d = CHR ''0'' \<longleftrightarrow> d = CHR ''0''" "lower d = CHR 0x25 \<longleftrightarrow> d = CHR 0x25"
  by (rule lower_fixed; simp)+

lemma lower_digit: "is_digit c \<Longrightarrow> lower c = c"
  by (auto simp: lower_def is_digit_def)

lemma lower_hex: "is_hex c \<Longrightarrow> lower c = c"
  by (auto simp: lower_def is_hex_def)

lemma hex_no_punct: "is_hex c \<Longrightarrow> c \<noteq> CHR '':'' \<and> c \<noteq> CHR ''.''"
  by (auto simp: is_hex_def)

lemma digit_no_punct: "is_digit c \<Longrightarrow> c \<noteq> CHR '':'' \<and> c \<noteq> CHR ''.''"
  by (auto simp: is_digit_def)

lemma split_colons_lower: "split_colons (toLowerCase s) = map toLowerCase (split_colons s)"
proof (induction s rule: split_colons.induct)
  case (3 x y zs)
  then show ?case by (cases "split_colons (y # zs)") (auto simp: toLowerCase_def)
qed (simp_all add: toLowerCase_def)

section \<open>Numbers\<close>

lemma parse_snoc: "parseInt16 (h @ [c]) = parseInt16 h * 16 + hex_of c"
  by (simp add: parseInt16_def)

lemma hex_char_ok: "n < 16 \<Longrightarrow> is_hex (hex_char n) \<and> hex_of (hex_char n) = n"
  by (auto simp: is_hex_def hex_char_def hex_of_def is_digit_def)

lemma hex_text: "list_all is_hex (toString16 n) \<and> parseInt16 (toString16 n) = n \<and> toString16 n \<noteq> []"
proof (induction n rule: toString16.induct)
  case (1 n)
  show ?case
  proof (cases "n < 16")
    case True
    then show ?thesis using hex_char_ok [OF True] by (simp add: toString16.simps [of n] parseInt16_def)
  next
    case False
    then show ?thesis using 1 hex_char_ok [of "n mod 16"] by (simp add: toString16.simps [of n] parse_snoc)
  qed
qed

lemma hex_text_length: "n < 16 ^ Suc k \<Longrightarrow> length (toString16 n) \<le> Suc k"
proof (induction k arbitrary: n)
  case 0
  then show ?case by (simp add: toString16.simps)
next
  case (Suc k)
  have "length (toString16 (n div 16)) \<le> Suc k" if "16 \<le> n" using Suc that by (intro Suc.IH) (simp add: less_mult_imp_div_less)
  then show ?case by (simp add: toString16.simps [of n])
qed

lemma hex_group_text: "n < 65536 \<Longrightarrow> hex_group (toString16 n) = Some n"
  using hex_text [of n] hex_text_length [of n 3] by (simp add: hex_group_def)

lemma hex_of_less: "is_hex c \<Longrightarrow> hex_of c < 16"
  by (auto simp: is_hex_def hex_of_def is_digit_def)

lemma parse_less: "list_all is_hex h \<Longrightarrow> parseInt16 h < 16 ^ length h"
proof (induction h rule: rev_induct)
  case (snoc c h)
  then have "parseInt16 h < 16 ^ length h" "hex_of c < 16" using hex_of_less by auto
  then have "parseInt16 h * 16 + hex_of c < 16 ^ length h * 16" by linarith
  then show ?case by (simp add: parse_snoc)
qed (simp add: parseInt16_def)

lemma group_less: "hex_group h = Some n \<Longrightarrow> n < 65536"
proof -
  assume h: "hex_group h = Some n"
  then have "n < 16 ^ length h" "length h \<le> 4" using parse_less by (auto simp: hex_group_def split: if_splits)
  moreover have "(16 :: nat) ^ length h \<le> 16 ^ 4" using \<open>length h \<le> 4\<close> by (intro power_increasing) auto
  ultimately show ?thesis by simp
qed

lemma or_disjoint: "b < 2 ^ n \<Longrightarrow> push_bit n a OR b = push_bit n a + (b :: nat)"
proof -
  assume b: "b < 2 ^ n"
  have "\<not> bit (push_bit n a) k \<or> \<not> bit b k" for k
  proof (cases "k < n")
    case False
    then have "b < 2 ^ k" using b by (meson le_less_trans less_le_trans not_less one_le_numeral power_increasing)
    then have "\<not> bit b k" by (simp add: bit_iff_odd)
    then show ?thesis ..
  qed (simp add: bit_simps)
  then show ?thesis by (rule disjunctive_add [symmetric])
qed

lemma octet_pair: "b < 256 \<Longrightarrow> push_bit 8 a OR b = a * 256 + (b :: nat)"
  using or_disjoint [of b 8 a] by (simp add: push_bit_eq_mult)

section \<open>The decision\<close>

lemma read_groups_flat: "CHR '':'' \<notin> set a \<Longrightarrow> read_groups quad a = Some g \<Longrightarrow> length g \<le> 2"
  by (auto simp: read_groups_def split_char_none Let_def split: if_splits)

lemma no_colon_not_v6: "CHR '':'' \<notin> set s \<Longrightarrow> \<not> isIPv6 s"
proof
  assume no: "CHR '':'' \<notin> set s" and v6: "isIPv6 s"
  then obtain a g where a: "a \<in> set (split_char CHR 0x25 s)" "inet6 a = Some g" by (auto simp: isIPv6_def split: list.splits)
  have "CHR '':'' \<notin> set a" using split_char_set [OF a(1)] no by auto
  then show False using a(2) read_groups_flat [of a True] by (auto simp: inet6_def split_colons_none split: option.splits if_splits)
qed

lemma digits_are: "list_all is_digit (digits n)"
proof (induction n rule: digits.induct)
  case (1 n)
  then show ?case by (cases "n < 10") (simp_all add: digits.simps [of n] is_digit_def)
qed

lemma embedded_flat: "CHR '':'' \<notin> set (embeddedIpv4 h)"
proof -
  have "CHR '':'' \<notin> set (digits n)" for n using digits_are [of n] digit_no_punct by (auto simp: list_all_iff)
  then show ?thesis by (simp add: embeddedIpv4_def)
qed

function isBlockedEgressAddress :: "string \<Rightarrow> bool" where
  "isBlockedEgressAddress address =
     (if isIP address = 0 then False
      else if isIP address = 6 then
        (case ipv6Hextets (hd (split_char CHR 0x25 (toLowerCase address))) of
           None \<Rightarrow> True
         | Some h \<Rightarrow>
             if zeroUpTo 7 h \<and> (h ! 7 = 0 \<or> h ! 7 = 1) then True
             else if carriesIpv4 h then isBlockedEgressAddress (embeddedIpv4 h)
             else if h ! 0 AND 0xffc0 = 0xfe80 then True
             else if h ! 0 AND 0xfe00 = 0xfc00 then True
             else False)
      else (case ipv4Octets address of None \<Rightarrow> False | Some octets \<Rightarrow> blocked_octets octets))"
  by pat_completeness auto
termination
proof (relation "measure (\<lambda>a. if isIP a = 6 then 1 else 0)")
  fix address h assume "isIP address = 6"
  moreover have "isIP (embeddedIpv4 h) \<noteq> 6" using no_colon_not_v6 [OF embedded_flat] by (simp add: isIP_def)
  ultimately show "(embeddedIpv4 h, address) \<in> measure (\<lambda>a. if isIP a = 6 then 1 else 0)" by simp
qed simp

declare isBlockedEgressAddress.simps [simp del]

datatype guard_error = BlockedEgressTargetError string string | LookupError

definition bare :: "string \<Rightarrow> string" where
  "bare host = (if host \<noteq> [] \<and> hd host = CHR ''['' \<and> last host = CHR '']'' then butlast (tl host) else host)"

text \<open>\<open>dnsLookup\<close> is the argument \<open>resolve\<close>: nothing when the lookup fails.\<close>

definition resolveGuardedAddress :: "(string \<Rightarrow> string option) \<Rightarrow> (string \<Rightarrow> bool) \<Rightarrow> string \<Rightarrow> guard_error + string" where
  "resolveGuardedAddress resolve isBlocked host =
     (if isIP (bare host) \<noteq> 0
      then (if isBlocked (bare host) then Inl (BlockedEgressTargetError host (bare host)) else Inr (bare host))
      else (case resolve (bare host) of
          None \<Rightarrow> Inl LookupError
        | Some address \<Rightarrow> if isBlocked address then Inl (BlockedEgressTargetError host address) else Inr address))"

definition no_trailing_dot :: "string \<Rightarrow> string" where
  "no_trailing_dot s = (if s \<noteq> [] \<and> last s = CHR ''.'' then butlast s else s)"

definition endsWith :: "string \<Rightarrow> string \<Rightarrow> bool" where
  "endsWith s t \<longleftrightarrow> length t \<le> length s \<and> drop (length s - length t) s = t"

definition isBlockedEgressHost :: "string \<Rightarrow> bool" where
  "isBlockedEgressHost host =
     (if isIP (bare host) \<noteq> 0 then isBlockedEgressAddress (bare host)
      else (let lowered = no_trailing_dot (toLowerCase (bare host)) in lowered = ''localhost'' \<or> endsWith lowered ''.localhost''))"

record SelfEndpoint =
  self_host :: string
  self_port :: nat

definition isSelfEndpoint :: "string \<Rightarrow> nat \<Rightarrow> SelfEndpoint option \<Rightarrow> bool" where
  "isSelfEndpoint host port self \<longleftrightarrow> (case self of
     None \<Rightarrow> False
   | Some s \<Rightarrow> port = self_port s \<and> no_trailing_dot (toLowerCase host) = no_trailing_dot (toLowerCase (self_host s)))"

section \<open>The parser reads what the platform reads\<close>

lemma octets_read:
  assumes "isIPv4 q"
  shows "ipv4Octets q = Some (inet4 q)" and "length (inet4 q) = 4" and "\<forall>n \<in> set (inet4 q). n < 256"
proof -
  let ?ps = "split_char CHR ''.'' q"
  have ps: "length ?ps = 4" "\<And>p. p \<in> set ?ps \<Longrightarrow> \<exists>n. Number p = Some n \<and> n \<le> 255"
    using assms by (auto simp: isIPv4_def octet_text_def list_all_iff split: option.splits)
  have "\<not> list_ex (\<lambda>n. case n of None \<Rightarrow> True | Some k \<Rightarrow> k > 255) (map Number ?ps)"
    using ps(2) by (fastforce simp: list_ex_iff)
  then show "ipv4Octets q = Some (inet4 q)" using ps(1) by (simp add: ipv4Octets_def inet4_def Let_def comp_def)
  show "length (inet4 q) = 4" using ps(1) by (simp add: inet4_def)
  show "\<forall>n \<in> set (inet4 q). n < 256" using ps(2) by (fastforce simp: inet4_def)
qed

lemma quad_chars: "isIPv4 q \<Longrightarrow> c \<in> set q \<Longrightarrow> is_digit c \<or> c = CHR ''.''"
proof -
  assume q: "isIPv4 q" and c: "c \<in> set q"
  have "c \<in> set (join_char CHR ''.'' (split_char CHR ''.'' q))" using c by (simp add: join_split)
  moreover have "c \<in> set (join_char d ps) \<Longrightarrow> c = d \<or> (\<exists>p \<in> set ps. c \<in> set p)" for d ps
    by (induction d ps rule: join_char.induct) auto
  ultimately show ?thesis using q by (fastforce simp: isIPv4_def octet_text_def list_all_iff)
qed

lemma quad_start: "isIPv4 q \<Longrightarrow> \<exists>b bs. q = b # bs \<and> b \<noteq> CHR '':''"
proof -
  assume q: "isIPv4 q"
  have "q \<noteq> []" using q by (auto simp: isIPv4_def)
  then obtain b bs where "q = b # bs" by (cases q) auto
  then show ?thesis using quad_chars [OF q, of b] digit_no_punct by auto
qed

lemma quad_flat: "isIPv4 q \<Longrightarrow> CHR '':'' \<notin> set q"
  using quad_chars digit_no_punct by blast

text \<open>The dotted tail as two hexadecimal groups.\<close>

definition quad_hex :: "string \<Rightarrow> string" where
  "quad_hex q = toString16 (inet4 q ! 0 * 256 + inet4 q ! 1) @ '':'' @ toString16 (inet4 q ! 2 * 256 + inet4 q ! 3)"

lemma hex_text_flat: "CHR '':'' \<notin> set (toString16 n)"
  using hex_text [of n] hex_no_punct by (auto simp: list_all_iff)

lemma quad_hex_shape:
  "split_colons (quad_hex q) = [quad_hex q]" "\<exists>b bs. quad_hex q = b # bs \<and> b \<noteq> CHR '':''"
  "split_char CHR '':'' (quad_hex q) = [toString16 (inet4 q ! 0 * 256 + inet4 q ! 1), toString16 (inet4 q ! 2 * 256 + inet4 q ! 3)]"
proof -
  let ?a = "toString16 (inet4 q ! 0 * 256 + inet4 q ! 1)" and ?b = "toString16 (inet4 q ! 2 * 256 + inet4 q ! 3)"
  have q: "quad_hex q = ?a @ CHR '':'' # ?b" by (simp add: quad_hex_def)
  have a: "?a \<noteq> []" "CHR '':'' \<notin> set ?a" and b: "?b \<noteq> []" "CHR '':'' \<notin> set ?b" using hex_text hex_text_flat by auto
  then have "hd ?a \<noteq> CHR '':''" by (cases ?a) auto
  then show "split_colons (quad_hex q) = [quad_hex q]" unfolding q using split_colons_single a b by blast
  show "\<exists>b bs. quad_hex q = b # bs \<and> b \<noteq> CHR '':''" using a unfolding q by (cases ?a) auto
  show "split_char CHR '':'' (quad_hex q) = [?a, ?b]" unfolding q split_char_sep using a b by (simp add: split_char_none)
qed

lemma Number_lower [simp]: "Number (toLowerCase p) = Number p"
proof (cases "list_all is_digit p")
  case True
  then have "toLowerCase p = p" by (auto simp: toLowerCase_def list_all_iff lower_digit intro: map_idI)
  then show ?thesis by simp
next
  case False
  moreover have "list_all is_digit (toLowerCase p) = list_all is_digit p" by (simp add: toLowerCase_def list_all_iff)
  ultimately show ?thesis by (simp add: Number_def)
qed

lemma octet_text_lower [simp]: "octet_text (toLowerCase p) = octet_text p"
proof -
  have "list_all is_digit (toLowerCase p) = list_all is_digit p" by (simp add: toLowerCase_def list_all_iff)
  moreover have "p \<noteq> [] \<Longrightarrow> hd (toLowerCase p) = CHR ''0'' \<longleftrightarrow> hd p = CHR ''0''" by (cases p) (simp_all add: toLowerCase_def)
  ultimately show ?thesis by (auto simp: octet_text_def)
qed

lemma split_lower [simp]:
  "split_char CHR ''.'' (toLowerCase s) = map toLowerCase (split_char CHR ''.'' s)" "split_char CHR '':'' (toLowerCase s) = map toLowerCase (split_char CHR '':'' s)"
  "split_char CHR 0x25 (toLowerCase s) = map toLowerCase (split_char CHR 0x25 s)"
  by (rule split_char_lower; simp)+

lemma v4_lower [simp]: "isIPv4 (toLowerCase q) = isIPv4 q" "inet4 (toLowerCase q) = inet4 q"
  by (simp_all add: isIPv4_def inet4_def list_all_iff comp_def)

lemma v6Seg_lower [simp]: "v6Seg (toLowerCase h) = v6Seg h"
  by (simp add: v6Seg_def toLowerCase_def list_all_iff)

lemma read_groups_lower: "read_groups quad (toLowerCase part) = read_groups quad part"
proof -
  have "last (map toLowerCase (split_char CHR '':'' part)) = toLowerCase (last (split_char CHR '':'' part))" by (simp add: last_map)
  moreover have "list_all v6Seg (butlast (map toLowerCase (split_char CHR '':'' part))) = list_all v6Seg (butlast (split_char CHR '':'' part))"
    by (simp add: map_butlast [symmetric] list_all_iff)
  moreover have "map (\<lambda>h. parseInt16 (toLowerCase h)) (butlast (map toLowerCase (split_char CHR '':'' part))) = map (\<lambda>h. parseInt16 (toLowerCase h)) (butlast (split_char CHR '':'' part))"
    by (simp add: map_butlast [symmetric])
  ultimately show ?thesis by (simp add: read_groups_def Let_def)
qed

lemma inet6_lower: "inet6 (toLowerCase s) = inet6 s"
  by (simp add: inet6_def split_colons_lower read_groups_lower split: list.split option.split)

lemma segment_group: "toLowerCase h = h \<Longrightarrow> v6Seg h \<Longrightarrow> hex_group h = Some (parseInt16 (toLowerCase h))"
  using lower_chars [of h] by (auto simp: v6Seg_def hex_group_def list_all_iff)

text \<open>A half of the text, read by the platform, is the groups the parser finds in it.\<close>

lemma parts_lower: "toLowerCase s = s \<Longrightarrow> p \<in> set (split_char CHR '':'' s) \<Longrightarrow> toLowerCase p = p"
proof -
  assume l: "toLowerCase s = s" and p: "p \<in> set (split_char CHR '':'' s)"
  show ?thesis using split_char_set [OF p] lower_chars [OF l] by (auto simp: toLowerCase_def intro: map_idI)
qed

lemma groups_hex:
  assumes "toLowerCase part = part" and "read_groups quad part = Some g" and "part = [] \<or> v6Seg (last (split_char CHR '':'' part))"
  shows "groups part = map Some g"
proof (cases "part = []")
  case False
  let ?ps = "split_char CHR '':'' part"
  have "list_all v6Seg (butlast ?ps)" "v6Seg (last ?ps)" and g: "g = map (\<lambda>h. parseInt16 (toLowerCase h)) (butlast ?ps) @ [parseInt16 (toLowerCase (last ?ps))]"
    using assms(2,3) False by (auto simp: read_groups_def Let_def split: if_splits)
  then have "list_all v6Seg ?ps" by (metis append_butlast_last_id list_all_append list.pred_inject split_char_nonempty)
  then have "map hex_group ?ps = map (\<lambda>h. Some (parseInt16 (toLowerCase h))) ?ps"
    using segment_group parts_lower [OF assms(1)] by (simp add: list_all_iff)
  moreover have "g = map (\<lambda>h. parseInt16 (toLowerCase h)) (butlast ?ps @ [last ?ps])" unfolding g map_append list.map ..
  then have "g = map (\<lambda>h. parseInt16 (toLowerCase h)) ?ps" by (simp only: append_butlast_last_id [OF split_char_nonempty])
  ultimately show ?thesis using False by (simp add: groups_def comp_def)
qed (use assms(2) in \<open>simp add: groups_def read_groups_def\<close>)

lemma groups_quad:
  assumes "toLowerCase part = part" and "read_groups True part = Some g" and "split_char CHR '':'' part = zs @ [q]" and "\<not> v6Seg q" and "part \<noteq> []"
  shows "isIPv4 q" and "\<exists>z. part = z @ q \<and> groups (z @ quad_hex q) = map Some g"
proof -
  note pair = octets_read [of q]
  let ?o = "inet4 q"
  have zs: "list_all v6Seg zs" and q: "isIPv4 q"
    and g: "g = map (\<lambda>h. parseInt16 (toLowerCase h)) zs @ [?o ! 0 * 256 + ?o ! 1, ?o ! 2 * 256 + ?o ! 3]"
    using assms(2,3,4,5) by (auto simp: read_groups_def Let_def split: if_splits)
  show "isIPv4 q" by (rule q)
  define z where "z = (if zs = [] then [] else join_char CHR '':'' zs @ '':'')"
  have part: "part = z @ q" using join_split [of "CHR '':''" part] by (simp add: assms(3) join_snoc z_def split: if_splits)
  have "split_char CHR '':'' (z @ quad_hex q) = zs @ split_char CHR '':'' (quad_hex q)"
  proof (cases "zs = []")
    case False
    have "\<forall>x \<in> set zs. CHR '':'' \<notin> set x" using split_char_parts [of _ "CHR '':''" part] by (simp add: assms(3))
    then show ?thesis using False split_join [of zs] by (simp add: z_def split_char_sep)
  qed (simp add: z_def)
  moreover have "hex_group (toString16 (?o ! i * 256 + ?o ! j)) = Some (?o ! i * 256 + ?o ! j)" if "i < 4" "j < 4" for i j
  proof -
    have "?o ! i < 256" "?o ! j < 256" using pair(2,3) [OF q] that by simp_all
    then show ?thesis by (intro hex_group_text) linarith
  qed
  moreover have "map hex_group zs = map (\<lambda>h. Some (parseInt16 (toLowerCase h))) zs"
    using zs segment_group parts_lower [OF assms(1)] by (simp add: list_all_iff assms(3))
  moreover have "z @ quad_hex q \<noteq> []" using quad_hex_shape(2) [of q] by auto
  ultimately have "groups (z @ quad_hex q) = map Some g" by (simp add: groups_def quad_hex_shape(3) g comp_def)
  then show "\<exists>z. part = z @ q \<and> groups (z @ quad_hex q) = map Some g" using part by blast
qed

lemma expand_one: "split_colons v6 = [a] \<Longrightarrow> groups a = map Some g \<Longrightarrow> length g = 8 \<Longrightarrow> expand_halves v6 = Some g"
  by (simp add: expand_halves_def list_ex_iff comp_def)

lemma expand_two:
  "split_colons v6 = [a, b] \<Longrightarrow> groups a = map Some g \<Longrightarrow> groups b = map Some h \<Longrightarrow> length g + length h \<le> 7 \<Longrightarrow>
   expand_halves v6 = Some (g @ replicate (8 - length g - length h) 0 @ h)"
  by (auto simp: expand_halves_def list_ex_iff comp_def nat_diff_distrib' Let_def intro!: arg_cong [where f = "\<lambda>n. replicate n 0"])

lemma last_half: "split_colons s = hs @ [b] \<Longrightarrow> last (split_char CHR '':'' s) = last (split_char CHR '':'' b)"
proof -
  have "last (split_char CHR '':'' (join_colons (hs @ [b]))) = last (split_char CHR '':'' b)" for hs
  proof (induction hs)
    case (Cons h hs)
    have "join_colons ((h # hs) @ [b]) = h @ CHR '':'' # (CHR '':'' # join_colons (hs @ [b]))" by (cases hs) simp_all
    then show ?case using Cons by (simp add: split_char_sep)
  qed simp
  then show "split_colons s = hs @ [b] \<Longrightarrow> last (split_char CHR '':'' s) = last (split_char CHR '':'' b)" by (metis join_split_colons)
qed

text \<open>Where the dotted tail starts, and what the text is without it.\<close>

lemma dotted_quad:
  assumes "split_char CHR '':'' s = us @ [q]" and "us \<noteq> []" and "isIPv4 q"
  shows "dotted s = Some (join_char CHR '':'' us @ '':'', q)" and "s = (join_char CHR '':'' us @ '':'') @ q"
proof -
  show "dotted s = Some (join_char CHR '':'' us @ '':'', q)"
    using assms by (cases us) (auto simp: dotted_def Let_def isIPv4_def octet_text_def list_all_iff)
  show "s = (join_char CHR '':'' us @ '':'') @ q" using join_split [of "CHR '':''" s] by (simp add: assms(1,2) join_snoc)
qed

lemma dotted_hex:
  assumes "last (split_char CHR '':'' s) = [] \<or> v6Seg (last (split_char CHR '':'' s))"
  shows "dotted s = None"
proof -
  have "CHR ''.'' \<notin> set (last (split_char CHR '':'' s))" using assms
  proof
    assume "v6Seg (last (split_char CHR '':'' s))"
    then have "is_hex (lower c)" if "c \<in> set (last (split_char CHR '':'' s))" for c using that by (simp add: v6Seg_def list_all_iff)
    then show ?thesis using hex_no_punct lower_punct(2) by blast
  qed simp
  then show ?thesis by (simp add: dotted_def split_char_none Let_def)
qed

lemma hextets_lower:
  assumes low: "toLowerCase s = s" and read: "inet6 s = Some g"
  shows "ipv6Hextets s = Some g"
proof -
  have halves_low: "toLowerCase p = p" if "p \<in> set (split_colons s)" for p
    using that split_colons_lower [of s] low by (metis (no_types, lifting) in_set_conv_nth nth_map)
  obtain hs b where S: "split_colons s = hs @ [b]" by (metis rev_exhaust split_colons_nonempty)
  have b_low: "toLowerCase b = b" using halves_low S by simp
  obtain zs q where b: "split_char CHR '':'' b = zs @ [q]" by (metis rev_exhaust split_char_nonempty)
  have q: "last (split_char CHR '':'' s) = q" using last_half [OF S] b by simp
  consider (one) h where "hs = []" "read_groups True b = Some h" "length h = 8" "g = h"
    | (two) a h1 h where "hs = [a]" "read_groups False a = Some h1" "read_groups True b = Some h" "length h1 + length h \<le> 7"
        "g = h1 @ replicate (8 - length h1 - length h) 0 @ h"
    using read S by (auto simp: inet6_def Cons_eq_append_conv split: list.splits option.splits if_splits)
  note cases = this
  then obtain h where h: "read_groups True b = Some h" by cases auto
  have expand: "expand_halves v6 = Some g" if v6: "split_colons v6 = hs @ [b']" "groups b' = map Some h" for v6 b'
    using cases
  proof cases
    case one
    then show ?thesis using expand_one v6 h by simp
  next
    case two
    have "a = [] \<or> v6Seg (last (split_char CHR '':'' a))" using two(2) by (auto simp: read_groups_def Let_def split: if_splits)
    moreover have "toLowerCase a = a" using halves_low S two(1) by simp
    ultimately have "groups a = map Some h1" using groups_hex two(2) by blast
    then show ?thesis using expand_two [of v6 a b' h1 h] two v6 h by simp
  qed
  show ?thesis
  proof (cases "b = [] \<or> v6Seg q")
    case True
    then have "groups b = map Some h" using groups_hex [OF b_low h] b by simp
    moreover have "dotted s = None" using True q b by (intro dotted_hex) (auto simp: q)
    ultimately show ?thesis using expand [OF S] by (simp add: ipv6Hextets_def)
  next
    case False
    then obtain z where v4: "isIPv4 q" and z: "b = z @ q" "groups (z @ quad_hex q) = map Some h"
      using groups_quad [OF b_low h b] by blast
    obtain us where us: "split_char CHR '':'' s = us @ [q]" using q by (metis append_butlast_last_id split_char_nonempty)
    have "us \<noteq> []"
    proof
      assume "us = []"
      then have flat: "CHR '':'' \<notin> set s" using us split_char_parts [of q "CHR '':''" s] join_split [of "CHR '':''" s] by simp
      then have "split_colons s = [s]" by (rule split_colons_none)
      then show False using read read_groups_flat [OF flat, of True] by (auto simp: inet6_def split: option.splits if_splits)
    qed
    note front = dotted_quad [OF us this v4]
    let ?front = "join_char CHR '':'' us @ '':''"
    obtain c cs where q_hd: "q = c # cs" "c \<noteq> CHR '':''" using quad_start [OF v4] by blast
    obtain d ds where x_hd: "quad_hex q = d # ds" "d \<noteq> CHR '':''" using quad_hex_shape(2) by blast
    have "butlast (split_colons ?front) @ [last (split_colons ?front) @ q] = hs @ [z @ q]"
      using split_colons_append [OF split_colons_none [OF quad_flat [OF v4]] q_hd, of ?front] S front(2) z(1) by simp
    then have "split_colons (?front @ quad_hex q) = hs @ [z @ quad_hex q]"
      using split_colons_append [OF quad_hex_shape(1) x_hd, of ?front] by simp
    moreover have "push_bit 8 (inet4 q ! i) OR inet4 q ! j = inet4 q ! i * 256 + inet4 q ! j" if "j < 4" for i j
      using octet_pair octets_read(2,3) [OF v4] that by simp
    ultimately show ?thesis using expand [OF _ z(2)] front(1) octets_read(1) [OF v4] by (simp add: ipv6Hextets_def quad_hex_def)
  qed
qed

lemma hextets_exact: "inet6 s = Some g \<Longrightarrow> ipv6Hextets (toLowerCase s) = Some g"
  using hextets_lower [of "toLowerCase s"] by (simp add: inet6_lower)

section \<open>Addresses as numbers\<close>

definition radix :: "nat \<Rightarrow> nat list \<Rightarrow> nat" where
  "radix base g = foldl (\<lambda>v x. v * base + x) 0 g"

text \<open>A block of addresses is its leading bits and how many they are.\<close>

definition in_blocks :: "nat \<Rightarrow> (nat \<times> nat) list \<Rightarrow> nat \<Rightarrow> bool" where
  "in_blocks width blocks v \<longleftrightarrow> list_ex (\<lambda>(prefix, n). v div 2 ^ (width - n) = prefix) blocks"

text \<open>0/8, 127/8, 10/8, 172.16/12, 192.168/16, 169.254/16 and 100.64/10.\<close>

definition BLOCKED_V4 :: "(nat \<times> nat) list" where
  "BLOCKED_V4 = [(0, 8), (127, 8), (10, 8), (172 * 16 + 1, 12), (192 * 256 + 168, 16), (169 * 256 + 254, 16), (100 * 4 + 1, 10)]"

text \<open>::ffff:0:0/96, ::/96, ::ffff:0:0:0/96 and 64:ff9b::/96.\<close>

definition V4_CARRIERS :: "nat list" where
  "V4_CARRIERS = [0xffff, 0, 0xffff * 65536, (0x64 * 65536 + 0xff9b) * 65536 ^ 4]"

definition BLOCKED_V6 :: "(nat \<times> nat) list" where
  "BLOCKED_V6 = concat (map (\<lambda>carrier. map (\<lambda>(prefix, n). (carrier * 2 ^ n + prefix, 96 + n)) BLOCKED_V4) V4_CARRIERS)
     @ [(0x3fa, 10), (0x7e, 7)]"

lemma value_snoc [simp]: "radix base [] = 0" "radix base (g @ [x]) = radix base g * base + x"
  by (simp_all add: radix_def)

lemma value_less: "list_all (\<lambda>x. x < base) g \<Longrightarrow> radix base g < base ^ length g"
proof (induction g rule: rev_induct)
  case (snoc x g)
  then have "radix base g + 1 \<le> base ^ length g" "x < base" by simp_all
  then have "(radix base g + 1) * base \<le> base ^ length g * base" by (intro mult_right_mono) simp_all
  moreover have "radix base g * base + x < (radix base g + 1) * base" using \<open>x < base\<close> by simp
  ultimately show ?case by (simp add: mult.commute)
qed simp

lemma digit_pair:
  assumes "y < k" and "z < (k :: nat)"
  shows "x * k + y = m * k + z \<longleftrightarrow> x = m \<and> y = z"
proof
  assume eq: "x * k + y = m * k + z"
  have "(x * k + y) div k = x" "(m * k + z) div k = m" using assms by simp_all
  then show "x = m \<and> y = z" using eq by simp
qed simp

lemma value_inj:
  "length g = length h \<Longrightarrow> list_all (\<lambda>x. x < base) g \<Longrightarrow> list_all (\<lambda>x. x < base) h \<Longrightarrow> radix base g = radix base h \<longleftrightarrow> g = h"
proof (induction g arbitrary: h rule: rev_induct)
  case (snoc x g)
  then obtain k y where h: "h = k @ [y]" by (metis append_Nil2 length_append_singleton length_0_conv nat.distinct(1) rev_exhaust)
  have "x < base" "y < base" using snoc.prems h by auto
  then have "radix base g * base + x = radix base k * base + y \<longleftrightarrow> radix base g = radix base k \<and> x = y" by (rule digit_pair)
  then show ?case using snoc h by simp
qed simp

lemma value_append: "radix base (g @ h) = radix base g * base ^ length h + radix base h"
proof (induction h rule: rev_induct)
  case (snoc x h)
  then show ?case by (simp add: append_assoc [symmetric] algebra_simps del: append_assoc)
qed simp

lemma div_is_one: "0 < k \<Longrightarrow> b div k = 1 \<longleftrightarrow> k \<le> b \<and> b < 2 * (k :: nat)"
proof
  assume k: "0 < k" and "b div k = 1"
  then have "b = k + b mod k" using div_mult_mod_eq [of b k] by simp
  then show "k \<le> b \<and> b < 2 * k" using mod_less_divisor [OF k, of b] by linarith
qed (auto intro: div_nat_eqI)

lemma v4_blocks:
  assumes "a < 256" "b < 256" "c < 256" "d < 256"
  shows "blocked_octets [a, b, c, d] \<longleftrightarrow> in_blocks 32 BLOCKED_V4 (radix 256 [a, b, c, d])"
proof -
  define v where "v = ((a * 256 + b) * 256 + c) * 256 + d"
  have blocks: "v div 2 ^ (32 - 8) = a" "v div 2 ^ (32 - 12) = a * 16 + b div 16" "v div 2 ^ (32 - 16) = a * 256 + b" "v div 2 ^ (32 - 10) = a * 4 + b div 64"
    using assms unfolding v_def by simp_all
  have small: "b div 16 < 16" "b div 64 < 4" using assms(2) by simp_all
  have "in_blocks 32 BLOCKED_V4 v \<longleftrightarrow> a = 0 \<or> a = 127 \<or> a = 10 \<or> a * 16 + b div 16 = 172 * 16 + 1 \<or> a * 256 + b = 192 * 256 + 168
      \<or> a * 256 + b = 169 * 256 + 254 \<or> a * 4 + b div 64 = 100 * 4 + 1"
    unfolding in_blocks_def BLOCKED_V4_def list_ex_Cons_iff list_ex_Nil_iff prod.case blocks by (simp only: simp_thms)
  also have "\<dots> \<longleftrightarrow> a = 0 \<or> a = 127 \<or> a = 10 \<or> a = 172 \<and> b div 16 = 1 \<or> a = 192 \<and> b = 168 \<or> a = 169 \<and> b = 254 \<or> a = 100 \<and> b div 64 = 1"
    using digit_pair [where x = a and m = 172, OF small(1), of 1] digit_pair [where x = a and m = 192, OF assms(2), of 168]
      digit_pair [where x = a and m = 169, OF assms(2), of 254] digit_pair [where x = a and m = 100, OF small(2), of 1] by simp
  also have "\<dots> \<longleftrightarrow> blocked_octets [a, b, c, d]"
    using div_is_one [of 16 b] div_is_one [of 64 b] by (auto simp: blocked_octets_def)
  finally show ?thesis by (simp add: radix_def v_def)
qed

text \<open>Masks that keep the leading bits of a group.\<close>

lemma high_bits: "g < 2 ^ 16 \<Longrightarrow> k \<le> 16 \<Longrightarrow> g AND push_bit k (mask (16 - k)) = push_bit k (drop_bit k (g :: nat))"
proof (rule bit_eqI)
  fix n assume g: "g < 2 ^ 16" and k: "k \<le> 16"
  have "n < 16" if "bit g n"
  proof (rule ccontr)
    assume "\<not> n < 16"
    then have "g < 2 ^ n" using g by (meson less_le_trans not_less one_le_numeral power_increasing)
    then show False using that by (simp add: bit_iff_odd)
  qed
  then show "bit (g AND push_bit k (mask (16 - k))) n = bit (push_bit k (drop_bit k g)) n"
    by (auto simp: bit_simps intro: diff_less_mono)
qed

lemma masked:
  assumes "g < 65536"
  shows "g AND 0xffc0 = 0xfe80 \<longleftrightarrow> g div 64 = (0x3fa :: nat)" and "g AND 0xfe00 = 0xfc00 \<longleftrightarrow> g div 512 = (0x7e :: nat)"
proof -
  have "(0xffc0 :: nat) = push_bit 6 (mask (16 - 6))" "(0xfe00 :: nat) = push_bit 9 (mask (16 - 9))" by (simp_all add: push_bit_eq_mult mask_eq_exp_minus_1)
  then have "g AND 0xffc0 = g div 64 * 64" "g AND 0xfe00 = g div 512 * 512"
    using high_bits [of g 6] high_bits [of g 9] assms by (simp_all add: push_bit_eq_mult drop_bit_eq_div)
  then show "g AND 0xffc0 = 0xfe80 \<longleftrightarrow> g div 64 = (0x3fa :: nat)" "g AND 0xfe00 = 0xfc00 \<longleftrightarrow> g div 512 = (0x7e :: nat)" by simp_all
qed

section \<open>Dotted quads the guard writes itself\<close>

lemma Number_digits: "Number (digits n) = Some n"
proof (induction n rule: digits.induct)
  case (1 n)
  show ?case
  proof (cases "n < 10")
    case True
    then show ?thesis by (simp add: digits.simps [of n] Number_def is_digit_def digit_of_def)
  next
    case False
    then show ?thesis using 1 by (simp add: digits.simps [of n] Number_def is_digit_def digit_of_def split: if_splits)
  qed
qed

lemma digits_hd: "0 < n \<Longrightarrow> hd (digits n) \<noteq> CHR ''0'' \<and> digits n \<noteq> []"
proof (induction n rule: digits.induct)
  case (1 n)
  show ?case
  proof (cases "n < 10")
    case True
    have "char_of (48 + n) \<noteq> CHR ''0''"
    proof
      assume "char_of (48 + n) = CHR ''0''"
      then have "of_char (char_of (48 + n) :: char) = (of_char (CHR ''0'') :: nat)" by simp
      then show False using True \<open>0 < n\<close> by simp
    qed
    then show ?thesis using True by (simp add: digits.simps [of n])
  next
    case False
    then have "hd (digits (n div 10)) \<noteq> CHR ''0'' \<and> digits (n div 10) \<noteq> []" using 1 by simp
    then show ?thesis using False by (simp add: digits.simps [of n])
  qed
qed

lemma octet_digits: "n < 256 \<Longrightarrow> octet_text (digits n)"
proof -
  assume n: "n < 256"
  have "length (digits n) \<le> 3" using n by (simp add: digits.simps [of n] digits.simps [of "n div 10"] digits.simps [of "n div 10 div 10"])
  moreover have "digits n \<noteq> []" by (simp add: digits.simps [of n])
  moreover have "length (digits n) = 1 \<or> hd (digits n) \<noteq> CHR ''0''" using digits_hd [of n] by (cases "n = 0") (simp_all add: digits.simps [of 0])
  ultimately show ?thesis using n digits_are [of n] by (simp add: octet_text_def Number_digits)
qed

lemma dotted_digits:
  assumes "a < 256" "b < 256" "c < 256" "d < 256"
  shows "isIP (digits a @ ''.'' @ digits b @ ''.'' @ digits c @ ''.'' @ digits d) = 4"
    and "ipv4Octets (digits a @ ''.'' @ digits b @ ''.'' @ digits c @ ''.'' @ digits d) = Some [a, b, c, d]"
proof -
  let ?s = "digits a @ ''.'' @ digits b @ ''.'' @ digits c @ ''.'' @ digits d"
  have flat: "CHR ''.'' \<notin> set (digits n)" for n using digits_are [of n] digit_no_punct by (auto simp: list_all_iff)
  have split: "split_char CHR ''.'' ?s = [digits a, digits b, digits c, digits d]"
    using split_char_sep [of "CHR ''.''"] split_char_none [OF flat] by simp
  have v4: "isIPv4 ?s" unfolding isIPv4_def split using octet_digits assms by simp
  then show "isIP ?s = 4" by (simp add: isIP_def)
  show "ipv4Octets ?s = Some [a, b, c, d]" using octets_read(1) [OF v4] unfolding inet4_def split by (simp add: Number_digits)
qed

section \<open>The decision on eight groups\<close>

definition groups_ok :: "nat list \<Rightarrow> bool" where
  "groups_ok g \<longleftrightarrow> length g = 8 \<and> list_all (\<lambda>x. x < 65536) g"

lemma groups_ok_cases:
  assumes "groups_ok g"
  obtains a b c d e f x y where "g = [a, b, c, d, e, f, x, y]" "a < 65536" "b < 65536" "c < 65536" "d < 65536" "e < 65536" "f < 65536" "x < 65536" "y < 65536"
proof -
  have "length g = Suc (Suc (Suc (Suc (Suc (Suc (Suc (Suc 0)))))))" using assms by (simp add: groups_ok_def)
  then obtain a b c d e f x y where g: "g = [a, b, c, d, e, f, x, y]" unfolding length_Suc_conv length_0_conv by blast
  show ?thesis using assms by (intro that [OF g]) (simp_all add: groups_ok_def g)
qed

lemma carries_iff: "groups_ok g \<Longrightarrow> carriesIpv4 g \<longleftrightarrow> radix 65536 (take 6 g) \<in> set V4_CARRIERS"
proof (erule groups_ok_cases)
  fix a b c d e f x y assume g: "g = [a, b, c, d, e, f, x, y]" and small: "a < 65536" "b < 65536" "c < 65536" "d < 65536" "e < 65536" "f < 65536"
  have same: "radix 65536 [a, b, c, d, e, f] = radix 65536 h \<longleftrightarrow> [a, b, c, d, e, f] = h" if "length h = 6" "list_all (\<lambda>x. x < 65536) h" for h
    using value_inj [of "[a, b, c, d, e, f]" h 65536] that small by simp
  have carriers: "set V4_CARRIERS = {radix 65536 [0, 0, 0, 0, 0, 0xffff], radix 65536 [0, 0, 0, 0, 0, 0], radix 65536 [0, 0, 0, 0, 0xffff, 0], radix 65536 [0x64, 0xff9b, 0, 0, 0, 0]}"
    by (simp add: V4_CARRIERS_def radix_def)
  have "take 6 g = [a, b, c, d, e, f]" by (simp add: g)
  then have "radix 65536 (take 6 g) \<in> set V4_CARRIERS \<longleftrightarrow> [a, b, c, d, e, f] = [0, 0, 0, 0, 0, 0xffff] \<or> [a, b, c, d, e, f] = [0, 0, 0, 0, 0, 0]
      \<or> [a, b, c, d, e, f] = [0, 0, 0, 0, 0xffff, 0] \<or> [a, b, c, d, e, f] = [0x64, 0xff9b, 0, 0, 0, 0]"
    unfolding carriers insert_iff empty_iff by (simp add: same del: list.inject)
  then show "carriesIpv4 g \<longleftrightarrow> radix 65536 (take 6 g) \<in> set V4_CARRIERS" by (auto simp: carriesIpv4_def zeroUpTo_def g)
qed

lemma carried_block:
  assumes "n \<le> 32" and "p < 2 ^ n" and "lo < 2 ^ 32"
  shows "(hi * 2 ^ 32 + lo) div 2 ^ (32 - n) = carrier * 2 ^ n + p \<longleftrightarrow> hi = carrier \<and> lo div 2 ^ (32 - n) = (p :: nat)"
proof -
  have split: "(2 :: nat) ^ 32 = 2 ^ n * 2 ^ (32 - n)" using assms(1) by (simp flip: power_add)
  have "(hi * 2 ^ 32 + lo) div 2 ^ (32 - n) = hi * 2 ^ n + lo div 2 ^ (32 - n)"
    unfolding split by (simp add: mult.assoc [symmetric] del: power_add)
  moreover have "lo div 2 ^ (32 - n) < 2 ^ n" using assms(3) unfolding split by (rule less_mult_imp_div_less)
  ultimately show ?thesis using digit_pair [OF _ assms(2)] by simp
qed

lemma list_ex_map: "list_ex P (map f xs) = list_ex (P \<circ> f) xs"
  by (induction xs) simp_all

lemma list_ex_concat: "list_ex P (concat xss) = list_ex (list_ex P) xss"
  by (induction xss) simp_all

lemma v6_blocks:
  assumes "lo < 2 ^ 32"
  shows "in_blocks 128 BLOCKED_V6 (hi * 2 ^ 32 + lo) \<longleftrightarrow>
     hi \<in> set V4_CARRIERS \<and> in_blocks 32 BLOCKED_V4 lo
     \<or> (hi * 2 ^ 32 + lo) div 2 ^ 118 = 0x3fa \<or> (hi * 2 ^ 32 + lo) div 2 ^ 121 = 0x7e"
proof -
  have ok: "n \<le> 32 \<and> p < 2 ^ n" if "(p, n) \<in> set BLOCKED_V4" for p n using that by (auto simp: BLOCKED_V4_def)
  have "(hi * 2 ^ 32 + lo) div 2 ^ (128 - (96 + n)) = carrier * 2 ^ n + p \<longleftrightarrow> hi = carrier \<and> lo div 2 ^ (32 - n) = p"
    if "(p, n) \<in> set BLOCKED_V4" for p n carrier
    using carried_block [of n p lo hi carrier] ok [OF that] assms by simp
  then have "(\<exists>carrier \<in> set V4_CARRIERS. \<exists>(p, n) \<in> set BLOCKED_V4. (hi * 2 ^ 32 + lo) div 2 ^ (128 - (96 + n)) = carrier * 2 ^ n + p)
      \<longleftrightarrow> hi \<in> set V4_CARRIERS \<and> in_blocks 32 BLOCKED_V4 lo"
    unfolding in_blocks_def list_ex_iff by fast
  moreover have "in_blocks 128 BLOCKED_V6 v \<longleftrightarrow>
      (\<exists>carrier \<in> set V4_CARRIERS. \<exists>(p, n) \<in> set BLOCKED_V4. v div 2 ^ (128 - (96 + n)) = carrier * 2 ^ n + p) \<or> v div 2 ^ 118 = 0x3fa \<or> v div 2 ^ 121 = 0x7e" for v
    unfolding in_blocks_def BLOCKED_V6_def case_prod_beta list_ex_append list_ex_concat list_ex_map comp_def fst_conv snd_conv list_ex_iff by simp blast
  ultimately show ?thesis by blast
qed

lemma and_ff: "g AND 0xff = g mod (256 :: nat)"
proof -
  have "g AND mask 8 = g mod 256" by (simp add: take_bit_eq_mask [symmetric] take_bit_eq_mod)
  then show ?thesis by (simp add: mask_eq_exp_minus_1)
qed

lemma embedded_blocked:
  assumes "h ! 6 < 65536" and "h ! 7 < 65536"
  shows "isBlockedEgressAddress (embeddedIpv4 h) \<longleftrightarrow> in_blocks 32 BLOCKED_V4 (h ! 6 * 65536 + h ! 7)"
proof -
  let ?a = "h ! 6 div 256" and ?b = "h ! 6 mod 256" and ?c = "h ! 7 div 256" and ?d = "h ! 7 mod 256"
  have small: "?a < 256" "?b < 256" "?c < 256" "?d < 256" using assms by (simp_all add: less_mult_imp_div_less)
  have wrote: "embeddedIpv4 h = digits ?a @ ''.'' @ digits ?b @ ''.'' @ digits ?c @ ''.'' @ digits ?d"
    by (simp add: embeddedIpv4_def and_ff drop_bit_eq_div)
  have v4: "isIP (embeddedIpv4 h) = 4" "ipv4Octets (embeddedIpv4 h) = Some [?a, ?b, ?c, ?d]" unfolding wrote by (rule dotted_digits [OF small])+
  have "isBlockedEgressAddress (embeddedIpv4 h) \<longleftrightarrow> blocked_octets [?a, ?b, ?c, ?d]"
    by (simp add: isBlockedEgressAddress.simps [of "embeddedIpv4 h"] v4)
  moreover have "radix 256 [?a, ?b, ?c, ?d] = h ! 6 * 65536 + h ! 7" by (simp add: radix_def)
  ultimately show ?thesis using v4_blocks [OF small] by simp
qed

lemma groups_decided:
  assumes "groups_ok g"
  shows "(zeroUpTo 7 g \<and> (g ! 7 = 0 \<or> g ! 7 = 1) \<or> (if carriesIpv4 g then isBlockedEgressAddress (embeddedIpv4 g)
      else g ! 0 AND 0xffc0 = 0xfe80 \<or> g ! 0 AND 0xfe00 = 0xfc00)) \<longleftrightarrow> in_blocks 128 BLOCKED_V6 (radix 65536 g)"
  using assms
proof (rule groups_ok_cases)
  fix a b c d e f x y
  assume g: "g = [a, b, c, d, e, f, x, y]" and small: "a < 65536" "b < 65536" "c < 65536" "d < 65536" "e < 65536" "f < 65536" "x < 65536" "y < 65536"
  define hi where "hi = radix 65536 [a, b, c, d, e, f]"
  define lo where "lo = x * 65536 + y"
  have lo: "lo < 2 ^ 32" using small(7,8) by (simp add: lo_def)
  have v: "radix 65536 g = hi * 2 ^ 32 + lo"
    using value_append [of 65536 "[a, b, c, d, e, f]" "[x, y]"] by (simp add: g hi_def lo_def radix_def [of 65536 "[x, y]"])
  have rest: "radix 65536 [b, c, d, e, f, x, y] < 2 ^ 112"
    using value_less [of 65536 "[b, c, d, e, f, x, y]"] small by simp
  have "radix 65536 g = a * 2 ^ 112 + radix 65536 [b, c, d, e, f, x, y]"
    using value_append [of 65536 "[a]" "[b, c, d, e, f, x, y]"] by (simp add: g radix_def [of 65536 "[a]"])
  then have "radix 65536 g div 2 ^ 112 = a" using rest by simp
  then have top: "radix 65536 g div 2 ^ 118 = a div 64" "radix 65536 g div 2 ^ 121 = a div 512"
    using div_mult2_eq [of "radix 65536 g" "2 ^ 112" 64] div_mult2_eq [of "radix 65536 g" "2 ^ 112" 512] by simp_all
  have carries: "carriesIpv4 g \<longleftrightarrow> hi \<in> set V4_CARRIERS" using carries_iff [OF assms] by (simp add: g hi_def)
  have embedded: "isBlockedEgressAddress (embeddedIpv4 g) \<longleftrightarrow> in_blocks 32 BLOCKED_V4 lo"
    using embedded_blocked [of g] small(7,8) by (simp add: g lo_def)
  have low: "a = 0 \<or> a = 100" if "carriesIpv4 g" using that by (auto simp: carriesIpv4_def zeroUpTo_def g)
  have tiny: "carriesIpv4 g \<and> in_blocks 32 BLOCKED_V4 lo" if "zeroUpTo 7 g" "y = 0 \<or> y = 1"
    using that by (auto simp: carriesIpv4_def zeroUpTo_def g lo_def in_blocks_def BLOCKED_V4_def)
  have blocks: "in_blocks 128 BLOCKED_V6 (radix 65536 g) \<longleftrightarrow> carriesIpv4 g \<and> in_blocks 32 BLOCKED_V4 lo \<or> a div 64 = 0x3fa \<or> a div 512 = 0x7e"
    using v6_blocks [OF lo, of hi] unfolding v [symmetric] top carries .
  have "g ! 7 = y" "g ! 0 = a" by (simp_all add: g)
  then show ?thesis using tiny low by (auto simp: blocks embedded masked [OF small(1)])
qed

lemma read_groups_small:
  assumes "read_groups quad part = Some g"
  shows "list_all (\<lambda>x. x < 65536) g"
proof (cases "part = []")
  case True
  then show ?thesis using assms by (simp add: read_groups_def)
next
  case False
  have hex: "parseInt16 (toLowerCase h) < 65536" if "v6Seg h" for h
    using group_less segment_group [of "toLowerCase h"] that by simp
  have quad: "inet4 q ! i * 256 + inet4 q ! j < 65536" if "isIPv4 q" "i < 4" "j < 4" for q i j
  proof -
    have "inet4 q ! i < 256" "inet4 q ! j < 256" using octets_read(2,3) [OF that(1)] that(2,3) by simp_all
    then show ?thesis by linarith
  qed
  show ?thesis using assms False hex quad by (auto simp: read_groups_def Let_def list_all_iff split: if_splits)
qed

lemma inet6_ok: "inet6 s = Some g \<Longrightarrow> groups_ok g"
  using read_groups_small by (auto simp: inet6_def groups_ok_def list_all_iff split: list.splits option.splits if_splits)

lemma blocked_iff:
  assumes "isIP address \<noteq> 0"
  shows "isBlockedEgressAddress address \<longleftrightarrow>
    (if isIPv4 address then in_blocks 32 BLOCKED_V4 (radix 256 (inet4 address))
     else in_blocks 128 BLOCKED_V6 (radix 65536 (the (inet6 (hd (split_char CHR 0x25 address))))))"
proof (cases "isIPv4 address")
  case True
  let ?o = "inet4 address"
  have "length ?o = Suc (Suc (Suc (Suc 0)))" using octets_read(2) [OF True] by simp
  then obtain a b c d where o4: "?o = [a, b, c, d]" unfolding length_Suc_conv length_0_conv by blast
  have small: "a < 256" "b < 256" "c < 256" "d < 256" using octets_read(3) [OF True] by (simp_all add: o4)
  have "isBlockedEgressAddress address \<longleftrightarrow> blocked_octets ?o"
    using True octets_read(1) [OF True] by (simp add: isBlockedEgressAddress.simps [of address] isIP_def)
  then show ?thesis using True v4_blocks [OF small] by (simp add: o4)
next
  case False
  then have v6: "isIPv6 address" "isIP address = 6" using assms by (auto simp: isIP_def split: if_splits)
  then obtain g where g: "inet6 (hd (split_char CHR 0x25 address)) = Some g" by (auto simp: isIPv6_def split: list.splits)
  have "hd (split_char CHR 0x25 (toLowerCase address)) = toLowerCase (hd (split_char CHR 0x25 address))" by (simp add: hd_map)
  then have "ipv6Hextets (hd (split_char CHR 0x25 (toLowerCase address))) = Some g" using hextets_exact [OF g] by simp
  then have "isBlockedEgressAddress address \<longleftrightarrow> in_blocks 128 BLOCKED_V6 (radix 65536 g)"
    unfolding groups_decided [OF inet6_ok [OF g], symmetric] by (auto simp: isBlockedEgressAddress.simps [of address] v6(2))
  then show ?thesis using False g by simp
qed

section \<open>Properties\<close>

text \<open>
  (C17) The guard blocks exactly the private, loopback, link-local and shared address blocks, however the address is
  spelled: an IPv4 address when its number lies in one of the IPv4 blocks, an IPv6 address, zone and letter case aside, when its
  number lies in fe80::/10, in fc00::/7 or in one of those IPv4 blocks behind any of the four prefixes that carry an IPv4 address.
\<close>

theorem guard_blocks_exactly:
  assumes "isIP address \<noteq> 0"
  shows "isBlockedEgressAddress address \<longleftrightarrow>
    (if isIPv4 address then in_blocks 32 BLOCKED_V4 (radix 256 (inet4 address))
     else in_blocks 128 BLOCKED_V6 (radix 65536 (the (inet6 (hd (split_char CHR 0x25 address))))))"
  using assms by (rule blocked_iff)

lemma replicate_5: "replicate 5 x = [x, x, x, x, x]"
  by (simp add: numeral_eq_Suc)

lemmas address_reads = isIP_def isIPv4_def isIPv6_def inet6_def read_groups_def v6Seg_def zone_char_def is_hex_def lower_def parseInt16_def
  toLowerCase_def hex_of_def is_digit_def Let_def replicate_5

theorem guard_blocks_exactly_witness:
  "isBlockedEgressAddress ''::FFFF:7f00:1%eth0'' \<longleftrightarrow> in_blocks 128 BLOCKED_V6 (radix 65536 [0, 0, 0, 0, 0, 0xffff, 0x7f00, 1])"
proof -
  have "isIP ''::FFFF:7f00:1%eth0'' \<noteq> 0" "\<not> isIPv4 ''::FFFF:7f00:1%eth0''"
    "inet6 (hd (split_char CHR 0x25 ''::FFFF:7f00:1%eth0'')) = Some [0, 0, 0, 0, 0, 0xffff, 0x7f00, 1]"
    by (simp_all add: address_reads)
  then show ?thesis using guard_blocks_exactly [of "''::FFFF:7f00:1%eth0''"] by simp
qed

text \<open>
  (Lemma) What the proxy dials was checked. Whatever name service says, an address that comes back is the literal that was asked for or
  the one the name resolved to, and it lies in no blocked block; a host refused before resolution because it is an address is refused after it too.
\<close>

theorem guarded_address_allowed:
  assumes "\<And>name address. resolve name = Some address \<Longrightarrow> isIP address \<noteq> 0"
    and "resolveGuardedAddress resolve isBlockedEgressAddress host = Inr address"
  shows "(address = bare host \<or> resolve (bare host) = Some address) \<and> \<not> (isIP (bare host) \<noteq> 0 \<and> isBlockedEgressHost host)
    \<and> \<not> (if isIPv4 address then in_blocks 32 BLOCKED_V4 (radix 256 (inet4 address))
         else in_blocks 128 BLOCKED_V6 (radix 65536 (the (inet6 (hd (split_char CHR 0x25 address))))))"
proof -
  have checked: "isIP address \<noteq> 0" "\<not> isBlockedEgressAddress address" "address = bare host \<or> resolve (bare host) = Some address"
    "isIP (bare host) \<noteq> 0 \<Longrightarrow> address = bare host"
    using assms by (auto simp: resolveGuardedAddress_def split: if_splits option.splits)
  then show ?thesis using blocked_iff [OF checked(1)] by (auto simp: isBlockedEgressHost_def)
qed

theorem guarded_address_allowed_witness:
  "\<not> in_blocks 32 BLOCKED_V4 (radix 256 [8, 8, 8, 8])"
proof -
  let ?r = "\<lambda>n :: string. Some ''8.8.8.8''"
  have v4: "isIPv4 ''8.8.8.8''" "inet4 ''8.8.8.8'' = [8, 8, 8, 8]"
    by (simp_all add: isIPv4_def octet_text_def Number_def is_digit_def digit_of_def inet4_def)
  have ip: "isIP ''8.8.8.8'' \<noteq> 0" using v4 by (simp add: isIP_def)
  have "resolveGuardedAddress ?r isBlockedEgressAddress ''[8.8.8.8]'' = Inr ''8.8.8.8''"
    using ip v4 by (simp add: resolveGuardedAddress_def bare_def isBlockedEgressAddress.simps isIP_def octets_read(1) blocked_octets_def)
  from guarded_address_allowed [of ?r, OF _ this] show ?thesis using ip v4 by simp
qed

text \<open>
  (Lemma) The list of the forms that carry an IPv4 address is not complete. The 6to4 address of the loopback address,
  2002:7f00:1::, is not blocked.
\<close>

theorem sixtofour_not_blocked: "\<not> isBlockedEgressAddress ''2002:7f00:1::''"
proof -
  have "isIP ''2002:7f00:1::'' \<noteq> 0" "\<not> isIPv4 ''2002:7f00:1::''"
    "inet6 (hd (split_char CHR 0x25 ''2002:7f00:1::'')) = Some [0x2002, 0x7f00, 1, 0, 0, 0, 0, 0]"
    by (simp_all add: address_reads)
  then have "isBlockedEgressAddress ''2002:7f00:1::'' \<longleftrightarrow> in_blocks 128 BLOCKED_V6 (radix 65536 [0x2002, 0x7f00, 1, 0, 0, 0, 0, 0])"
    using blocked_iff [of "''2002:7f00:1::''"] by simp
  then show ?thesis by (simp add: in_blocks_def BLOCKED_V6_def BLOCKED_V4_def V4_CARRIERS_def radix_def)
qed

end
