(* ===== verification/Mcp_Access.thy ===== *)
theory Mcp_Access
  imports Credentials Text_Split
begin

text \<open>
  Which methods of a remote MCP server only read, \<open>shared/src/mcp/method-access.ts\<close>: the words of a
  method name, the vendor prefix of a catalog, the classification of a \<open>tools/list\<close> answer, and the
  counts every display of a method allowlist shares.

  Names are texts of code points; the replacements by regular expressions are written out as the
  passes they make over the text. MCP names its methods in ASCII, and lower-casing acts there.
\<close>

section \<open>Words of a name\<close>

definition separator :: "nat \<Rightarrow> bool" where
  "separator c \<longleftrightarrow> c = 95 \<or> c = 45 \<or> c = 46 \<or> is_ws c"

text \<open>\<open>replace(/[_\-.\s]+/g, ' ')\<close>: every run of separators becomes one space.\<close>

fun collapse :: "utext \<Rightarrow> utext" where
  "collapse [] = []"
| "collapse [c] = (if separator c then [32] else [c])"
| "collapse (c # d # cs) = (if separator c then (if separator d then collapse (d # cs) else 32 # collapse (d # cs))
     else c # collapse (d # cs))"

definition low_or_digit :: "nat \<Rightarrow> bool" where
  "low_or_digit c \<longleftrightarrow> (97 \<le> c \<and> c \<le> 122) \<or> (48 \<le> c \<and> c \<le> 57)"

text \<open>\<open>replace(/([a-z0-9])([A-Z])/g, '$1 $2')\<close>\<close>

fun break_humps :: "utext \<Rightarrow> utext" where
  "break_humps [] = []"
| "break_humps [c] = [c]"
| "break_humps (c # d # cs) = (if low_or_digit c \<and> is_upper d then c # 32 # d # break_humps cs
     else c # break_humps (d # cs))"

definition splitWords :: "utext \<Rightarrow> utext list" where
  "splitWords name =
     map Credentials.toLowerCase
       (filter (\<lambda>word. word \<noteq> []) (split_char 32 (trim (break_humps (collapse name)))))"

section \<open>Classification\<close>

record McpToolDescriptor =
  tool_name :: utext
  tool_description :: "utext option"
  tool_readOnlyHint :: "json option"

record McpMethodInfo =
  method_name :: utext
  method_description :: "utext option"
  readOnly :: bool
  inferred :: bool

definition READ_ONLY_PREFIXES :: "utext list" where
  "READ_ONLY_PREFIXES = map cps
     [''get'', ''list'', ''search'', ''read'', ''fetch'', ''find'', ''query'', ''describe'', ''view'', ''show'', ''count'',
      ''check'', ''inspect'', ''preview'', ''export'', ''download'']"

definition WRITE_VERB_PREFIXES :: "utext list" where
  "WRITE_VERB_PREFIXES = map cps
     [''create'', ''update'', ''delete'', ''remove'', ''set'', ''add'', ''put'', ''patch'', ''post'', ''write'', ''send'',
      ''reset'', ''clear'', ''drop'', ''insert'', ''upsert'', ''move'', ''rename'', ''archive'', ''publish'', ''cancel'',
      ''run'', ''execute'', ''start'', ''stop'']"

text \<open>The loop of \<open>sharedVendorPrefix\<close>, with every early return of null.\<close>

fun shared_first :: "utext option \<Rightarrow> McpToolDescriptor list \<Rightarrow> utext option" where
  "shared_first shared [] = shared"
| "shared_first shared (tool # tools) =
     (let words = splitWords (tool_name tool)
      in if length words < 2 then None
      else (case shared of
          None \<Rightarrow> shared_first (Some (hd words)) tools
        | Some s \<Rightarrow> if s \<noteq> hd words then None else shared_first shared tools))"

definition sharedVendorPrefix :: "McpToolDescriptor list \<Rightarrow> utext option" where
  "sharedVendorPrefix tools =
     (if length tools = 0 then None
      else (case shared_first None tools of
          None \<Rightarrow> None
        | Some shared \<Rightarrow>
            if shared \<in> set READ_ONLY_PREFIXES then None
            else if shared \<in> set WRITE_VERB_PREFIXES then None
            else Some shared))"

text \<open>\<open>words[i] ?? ''\<close>\<close>

definition word_at :: "utext list \<Rightarrow> nat \<Rightarrow> utext" where
  "word_at words i = (if i < length words then words ! i else [])"

definition non_empty :: "utext option \<Rightarrow> utext option" where
  "non_empty t = (case t of Some s \<Rightarrow> if s = [] then None else Some s | None \<Rightarrow> None)"

definition leads_with :: "utext list \<Rightarrow> utext option \<Rightarrow> bool" where
  "leads_with words namespace = (case namespace of
     None \<Rightarrow> False
   | Some ns \<Rightarrow> ns \<noteq> [] \<and> words \<noteq> [] \<and> hd words = ns)"

definition classifyMcpMethod :: "McpToolDescriptor \<Rightarrow> utext option \<Rightarrow> McpMethodInfo" where
  "classifyMcpMethod tool namespace = (case tool_readOnlyHint tool of
     Some (Bool declared) \<Rightarrow>
       \<lparr>method_name = tool_name tool, method_description = non_empty (tool_description tool),
        readOnly = declared, inferred = False\<rparr>
   | _ \<Rightarrow>
       (let words = splitWords (tool_name tool);
            verb = (if leads_with words namespace then word_at words 1 else word_at words 0)
        in \<lparr>method_name = tool_name tool, method_description = non_empty (tool_description tool),
            readOnly = (verb \<in> set READ_ONLY_PREFIXES), inferred = True\<rparr>))"

definition classifyMcpMethods :: "McpToolDescriptor list \<Rightarrow> McpMethodInfo list" where
  "classifyMcpMethods tools =
     (let namespace = sharedVendorPrefix tools in map (\<lambda>tool. classifyMcpMethod tool namespace) tools)"

section \<open>Counts\<close>

datatype MethodAccessMode = All_methods | Restricted

record MethodAccessSummary =
  mode :: MethodAccessMode
  total :: nat
  enabled_total :: nat
  readOnlyTotal :: nat
  readOnlyEnabled :: nat
  writeTotal :: nat
  writeEnabled :: nat
  writeDisabled :: nat

definition isOn :: "utext list option \<Rightarrow> McpMethodInfo \<Rightarrow> bool" where
  "isOn enabled m = (case enabled of None \<Rightarrow> True | Some names \<Rightarrow> method_name m \<in> set names)"

definition summarizeMethodAccess :: "McpMethodInfo list \<Rightarrow> utext list option \<Rightarrow> MethodAccessSummary" where
  "summarizeMethodAccess catalog enabled =
     (let readers = filter readOnly catalog;
          writers = filter (\<lambda>m. \<not> readOnly m) catalog;
          roEnabled = length (filter (isOn enabled) readers);
          wrEnabled = length (filter (isOn enabled) writers)
      in \<lparr>mode = (if enabled = None then All_methods else Restricted), total = length catalog,
          enabled_total = roEnabled + wrEnabled, readOnlyTotal = length readers, readOnlyEnabled = roEnabled,
          writeTotal = length writers, writeEnabled = wrEnabled, writeDisabled = length writers - wrEnabled\<rparr>)"

definition readOnlyMethodNames :: "McpMethodInfo list \<Rightarrow> utext list" where
  "readOnlyMethodNames catalog = map method_name (filter readOnly catalog)"

definition isReadOnlyRestricted :: "McpMethodInfo list \<Rightarrow> utext list option \<Rightarrow> bool" where
  "isReadOnlyRestricted catalog enabled =
     (if enabled = None then False
      else let s = summarizeMethodAccess catalog enabled in 0 < writeTotal s \<and> writeEnabled s = 0)"

section \<open>The words of every spelling\<close>

definition plain_word :: "utext \<Rightarrow> bool" where
  "plain_word w \<longleftrightarrow> 2 \<le> length w \<and> list_all low_or_digit w \<and> 97 \<le> hd w"

definition capitalize :: "utext \<Rightarrow> utext" where
  "capitalize w = (case w of [] \<Rightarrow> [] | c # cs \<Rightarrow> (c - 32) # cs)"

fun camelCase :: "utext list \<Rightarrow> utext" where
  "camelCase [] = []"
| "camelCase (w # ws) = w @ concat (map capitalize ws)"

definition PascalCase :: "utext list \<Rightarrow> utext" where
  "PascalCase ws = concat (map capitalize ws)"

lemma low_plain: "low_or_digit c \<Longrightarrow> \<not> separator c \<and> \<not> is_upper c \<and> \<not> is_ws c \<and> c \<noteq> 32 \<and> lower_cp c = c"
  by (auto simp: low_or_digit_def separator_def is_upper_def is_ws_def lower_cp_def)

lemma upper_plain: "is_upper c \<Longrightarrow> \<not> separator c \<and> \<not> low_or_digit c \<and> \<not> is_ws c \<and> c \<noteq> 32"
  by (auto simp: low_or_digit_def separator_def is_upper_def is_ws_def)

lemma lower_word: "list_all low_or_digit w \<Longrightarrow> Credentials.toLowerCase w = w"
  by (induction w) (auto simp: Credentials.toLowerCase_def low_plain)

lemma plain_wordE:
  assumes "plain_word w"
  obtains c d t where "w = c # d # t" "low_or_digit c" "97 \<le> c" "list_all low_or_digit (d # t)" "is_upper (c - 32)"
proof -
  obtain c d t where w: "w = c # d # t" using assms by (cases w; cases "tl w") (auto simp: plain_word_def)
  have "is_upper (c - 32)" using assms w by (auto simp: plain_word_def low_or_digit_def is_upper_def)
  then show ?thesis using that w assms by (auto simp: plain_word_def)
qed

lemma collapse_none: "list_all (\<lambda>c. \<not> separator c) s \<Longrightarrow> collapse s = s"
  by (induction s rule: collapse.induct) auto

lemma collapse_word: "list_all (\<lambda>c. \<not> separator c) w \<Longrightarrow> separator c \<Longrightarrow> s \<noteq> [] \<Longrightarrow> \<not> separator (hd s) \<Longrightarrow>
   collapse (w @ c # s) = w @ 32 # collapse s"
proof (induction w)
  case Nil
  then show ?case by (cases s) auto
next
  case (Cons x w)
  then show ?case by (cases w) (auto simp: neq_Nil_conv)
qed

lemma collapse_join:
  assumes "separator c" "list_all plain_word ws"
  shows "collapse (join_char c ws) = join_char 32 ws"
  using assms
proof (induction c ws rule: join_char.induct)
  case (2 c p)
  then show ?case by (auto simp: plain_word_def list_all_iff low_plain intro!: collapse_none)
next
  case (3 c p q ps)
  have p: "list_all (\<lambda>c. \<not> separator c) p" using 3 by (auto simp: plain_word_def list_all_iff low_plain)
  have q: "q \<noteq> []" "\<not> separator (hd q)" using 3 by (auto elim!: plain_wordE simp: low_plain)
  have "join_char c (q # ps) \<noteq> []" "hd (join_char c (q # ps)) = hd q" using q(1) by (cases ps; simp)+
  then show ?case using 3 p q by (simp add: collapse_word)
qed simp

lemma break_none: "list_all (\<lambda>c. \<not> is_upper c) s \<Longrightarrow> break_humps s = s"
  by (induction s rule: break_humps.induct) auto

lemma break_word: "list_all low_or_digit w \<Longrightarrow> w \<noteq> [] \<Longrightarrow> is_upper c \<Longrightarrow>
   break_humps (w @ c # s) = w @ 32 # c # break_humps s"
proof (induction w)
  case (Cons x w)
  then show ?case by (cases w) (auto simp: low_plain)
qed simp

lemma break_camel: "list_all low_or_digit w \<Longrightarrow> w \<noteq> [] \<Longrightarrow> list_all plain_word ws \<Longrightarrow>
   break_humps (w @ concat (map capitalize ws)) = join_char 32 (w # map capitalize ws)"
proof (induction ws arbitrary: w)
  case Nil
  then show ?case by (auto simp: list_all_iff low_plain intro!: break_none)
next
  case (Cons v ws)
  obtain c d t where v: "v = c # d # t" "list_all low_or_digit (d # t)" "is_upper (c - 32)"
    using Cons.prems(3) by (auto elim: plain_wordE)
  have "break_humps (w @ (c - 32) # (d # t) @ concat (map capitalize ws))
      = w @ 32 # (c - 32) # break_humps ((d # t) @ concat (map capitalize ws))"
    using Cons.prems v(3) by (intro break_word)
  also have "break_humps ((d # t) @ concat (map capitalize ws)) = join_char 32 ((d # t) # map capitalize ws)"
    by (rule Cons.IH) (use Cons.prems v in auto)
  finally have "break_humps (w @ (c - 32) # (d # t) @ concat (map capitalize ws))
      = w @ 32 # (c - 32) # join_char 32 ((d # t) # map capitalize ws)" .
  moreover have "capitalize v = (c - 32) # d # t" by (simp add: v(1) capitalize_def)
  ultimately show ?case by (cases ws) simp_all
qed

lemma break_pascal: "list_all plain_word ws \<Longrightarrow> break_humps (concat (map capitalize ws)) = join_char 32 (map capitalize ws)"
proof (cases ws)
  case (Cons v vs)
  assume "list_all plain_word ws"
  then obtain c d t where v: "v = c # d # t" "list_all low_or_digit (d # t)" "is_upper (c - 32)" and vs: "list_all plain_word vs"
    using Cons by (auto elim: plain_wordE)
  have "break_humps ((d # t) @ concat (map capitalize vs)) = join_char 32 ((d # t) # map capitalize vs)"
    by (rule break_camel) (use v vs in auto)
  moreover have "\<not> low_or_digit (c - 32)" using v(3) upper_plain by blast
  ultimately show ?thesis using Cons v(1) by (cases vs) (auto simp: capitalize_def)
qed simp

lemma trim_id: "s \<noteq> [] \<Longrightarrow> \<not> is_ws (hd s) \<Longrightarrow> \<not> is_ws (last s) \<Longrightarrow> trim s = s"
proof -
  assume s: "s \<noteq> []" "\<not> is_ws (hd s)" "\<not> is_ws (last s)"
  have "dropWhile is_ws s = s" using s by (cases s) auto
  moreover have "dropWhile is_ws (rev s) = rev s" using s by (cases "rev s") (auto simp: last_rev hd_rev dest: arg_cong [of _ _ rev])
  ultimately show ?thesis by (simp add: trim_def)
qed

lemma trim_Nil [simp]: "trim [] = []"
  by (simp add: trim_def)

lemma join_ends: "ws \<noteq> [] \<Longrightarrow> list_all (\<lambda>w. w \<noteq> []) ws \<Longrightarrow>
   join_char c ws \<noteq> [] \<and> hd (join_char c ws) = hd (hd ws) \<and> last (join_char c ws) = last (last ws)"
  by (induction c ws rule: join_char.induct) auto

text \<open>Once the text is its words with single spaces between them, the split yields the words.\<close>

lemma words_of_join:
  assumes "list_all (\<lambda>w. w \<noteq> [] \<and> list_all (\<lambda>c. c \<noteq> 32 \<and> \<not> is_ws c) w) ws"
  shows "filter (\<lambda>word. word \<noteq> []) (split_char 32 (trim (join_char 32 ws))) = ws"
proof (cases "ws = []")
  case False
  have ends: "hd (hd ws) \<in> set (hd ws)" "last (last ws) \<in> set (last ws)" "hd ws \<in> set ws" "last ws \<in> set ws"
    using False assms by (auto simp: list_all_iff)
  have "\<not> is_ws (hd (hd ws))" "\<not> is_ws (last (last ws))" using assms ends by (metis (lifting) list_all_iff)+
  then have "trim (join_char 32 ws) = join_char 32 ws"
    using join_ends [of ws 32] False assms by (intro trim_id) (auto simp: list_all_iff)
  moreover have "split_char 32 (join_char 32 ws) = ws" using False assms by (intro split_join) (auto simp: list_all_iff)
  ultimately show ?thesis using assms by (auto simp: list_all_iff intro: filter_True)
qed simp

lemma plain_chars: "plain_word w \<Longrightarrow> w \<noteq> [] \<and> list_all (\<lambda>c. c \<noteq> 32 \<and> \<not> is_ws c \<and> \<not> is_upper c \<and> \<not> separator c) w"
  by (auto simp: plain_word_def list_all_iff low_plain)

lemma capital_chars: "plain_word w \<Longrightarrow>
   capitalize w \<noteq> [] \<and> list_all (\<lambda>c. c \<noteq> 32 \<and> \<not> is_ws c \<and> \<not> separator c) (capitalize w) \<and> Credentials.toLowerCase (capitalize w) = w"
  by (erule plain_wordE)
    (auto simp: capitalize_def list_all_iff low_plain upper_plain Credentials.toLowerCase_def lower_cp_def is_upper_def
        low_or_digit_def intro!: map_idI)

lemma join_chars: "list_all P (join_char c ws) \<longleftrightarrow> list_all (list_all P) ws \<and> (P c \<or> length ws < 2)"
  by (induction c ws rule: join_char.induct) auto

lemma all_words: "list_all plain_word ws \<Longrightarrow> (\<And>w. plain_word w \<Longrightarrow> Q w) \<Longrightarrow> list_all Q ws"
  by (simp add: list_all_iff)

lemma lower_map: "list_all plain_word ws \<Longrightarrow> map Credentials.toLowerCase ws = ws \<and> map (Credentials.toLowerCase \<circ> capitalize) ws = ws"
  by (auto simp: list_all_iff capital_chars plain_word_def intro!: map_idI lower_word)

lemma split_separated:
  assumes "separator c" "list_all plain_word ws"
  shows "splitWords (join_char c ws) = ws"
proof -
  have no_caps: "list_all (\<lambda>c. \<not> is_upper c) (join_char 32 ws)"
    unfolding join_chars by (intro conjI all_words [OF assms(2)]) (auto simp: list_all_iff is_upper_def dest!: plain_chars)
  have "splitWords (join_char c ws) = map Credentials.toLowerCase (filter (\<lambda>word. word \<noteq> []) (split_char 32 (trim (join_char 32 ws))))"
    by (simp add: splitWords_def collapse_join [OF assms] break_none [OF no_caps])
  also have "filter (\<lambda>word. word \<noteq> []) (split_char 32 (trim (join_char 32 ws))) = ws"
    by (intro words_of_join all_words [OF assms(2)]) (auto simp: list_all_iff dest!: plain_chars)
  finally show ?thesis using lower_map [OF assms(2)] by simp
qed

lemma split_camel:
  assumes "list_all plain_word ws"
  shows "splitWords (camelCase ws) = ws"
proof (cases ws)
  case Nil
  then show ?thesis by (simp add: splitWords_def)
next
  case (Cons w vs)
  have w: "list_all low_or_digit w" "w \<noteq> []" and vs: "list_all plain_word vs" using assms Cons by (auto simp: plain_word_def)
  have "plain_word w" using assms Cons by simp
  note w_chars = plain_chars [OF this]
  have caps: "list_all (\<lambda>w. w \<noteq> [] \<and> list_all (\<lambda>c. c \<noteq> 32 \<and> \<not> is_ws c \<and> \<not> separator c) w) (map capitalize vs)"
    unfolding list.pred_map comp_def by (intro all_words [OF vs]) (simp add: capital_chars)
  have "list_all (\<lambda>c. \<not> separator c) (camelCase ws)" using w_chars caps Cons by (auto simp: list_all_iff)
  then have "collapse (camelCase ws) = camelCase ws" by (rule collapse_none)
  then have "break_humps (collapse (camelCase ws)) = join_char 32 (w # map capitalize vs)"
    using Cons break_camel [OF w vs] by simp
  moreover have "filter (\<lambda>word. word \<noteq> []) (split_char 32 (trim (join_char 32 (w # map capitalize vs)))) = w # map capitalize vs"
    by (rule words_of_join) (use w_chars caps in \<open>auto simp: list_all_iff\<close>)
  ultimately show ?thesis using Cons lower_map [OF vs] lower_word [OF w(1)] by (simp add: splitWords_def)
qed

lemma split_pascal:
  assumes "list_all plain_word ws"
  shows "splitWords (PascalCase ws) = ws"
proof -
  have caps: "list_all (\<lambda>w. w \<noteq> [] \<and> list_all (\<lambda>c. c \<noteq> 32 \<and> \<not> is_ws c \<and> \<not> separator c) w) (map capitalize ws)"
    unfolding list.pred_map comp_def by (intro all_words [OF assms]) (simp add: capital_chars)
  have "list_all (\<lambda>c. \<not> separator c) (PascalCase ws)" using caps by (auto simp: PascalCase_def list_all_iff)
  then have "collapse (PascalCase ws) = PascalCase ws" by (rule collapse_none)
  then have "break_humps (collapse (PascalCase ws)) = join_char 32 (map capitalize ws)"
    by (simp add: PascalCase_def break_pascal [OF assms])
  moreover have "filter (\<lambda>word. word \<noteq> []) (split_char 32 (trim (join_char 32 (map capitalize ws)))) = map capitalize ws"
    by (rule words_of_join) (use caps in \<open>auto simp: list_all_iff\<close>)
  ultimately show ?thesis using lower_map [OF assms] by (simp add: splitWords_def)
qed

text \<open>
  (Lemma) One prefix table covers every spelling: words of at least two letters or digits that start
  with a letter are read back from their name whether they are joined by underscores, hyphens, dots or
  blanks, in camelCase or in PascalCase.
\<close>

theorem every_spelling_same_words:
  assumes "list_all plain_word ws" "separator c"
  shows "splitWords (join_char c ws) = ws \<and> splitWords (camelCase ws) = ws \<and> splitWords (PascalCase ws) = ws"
  using assms by (simp add: split_separated split_camel split_pascal)

lemmas text_eval = cps_def splitWords_def separator_def is_ws_def low_or_digit_def is_upper_def trim_def
  Credentials.toLowerCase_def lower_cp_def

theorem every_spelling_same_words_witness:
  "splitWords (cps ''list_open_issues'') = map cps [''list'', ''open'', ''issues'']
   \<and> splitWords (cps ''listOpenIssues'') = map cps [''list'', ''open'', ''issues'']
   \<and> splitWords (cps ''ListOpenIssues'') = map cps [''list'', ''open'', ''issues'']"
  using every_spelling_same_words [of "map cps [''list'', ''open'', ''issues'']" 95]
  by (simp add: plain_word_def separator_def low_or_digit_def cps_def PascalCase_def capitalize_def)
section \<open>Vendor prefixes and verbs\<close>

lemma prefix_tables:
  "distinct (READ_ONLY_PREFIXES @ WRITE_VERB_PREFIXES)" "[] \<notin> set (READ_ONLY_PREFIXES @ WRITE_VERB_PREFIXES)"
  by (simp_all add: READ_ONLY_PREFIXES_def WRITE_VERB_PREFIXES_def cps_def)

lemma write_verb_not_read: "v \<in> set WRITE_VERB_PREFIXES \<Longrightarrow> v \<notin> set READ_ONLY_PREFIXES"
  using prefix_tables(1) by auto

lemma words_non_empty: "w \<in> set (splitWords s) \<Longrightarrow> w \<noteq> []"
  by (auto simp: splitWords_def Credentials.toLowerCase_def)

text \<open>The words of a name, as the prefix sees them: at least two, and the first is the prefix.\<close>

definition prefixed :: "utext \<Rightarrow> McpToolDescriptor \<Rightarrow> bool" where
  "prefixed ns tool \<longleftrightarrow> 2 \<le> length (splitWords (tool_name tool)) \<and> hd (splitWords (tool_name tool)) = ns"

lemma shared_first_Some: "shared_first (Some s) tools = Some ns \<longleftrightarrow> ns = s \<and> list_all (prefixed s) tools"
  by (induction tools) (auto simp: prefixed_def Let_def not_less)

lemma sharedVendorPrefix_iff:
  "sharedVendorPrefix tools = Some ns \<longleftrightarrow>
     tools \<noteq> [] \<and> list_all (prefixed ns) tools \<and> ns \<notin> set READ_ONLY_PREFIXES \<and> ns \<notin> set WRITE_VERB_PREFIXES"
proof (cases tools)
  case (Cons a list)
  have "shared_first None tools = Some s \<longleftrightarrow> list_all (prefixed s) tools" for s
    by (auto simp: Cons Let_def shared_first_Some prefixed_def not_less)
  then have "shared_first None tools = Some ns \<longleftrightarrow> list_all (prefixed ns) tools" .
  then show ?thesis using Cons by (cases "shared_first None tools") (auto simp: sharedVendorPrefix_def)
qed (simp add: sharedVendorPrefix_def)

definition declared :: "McpToolDescriptor \<Rightarrow> bool option" where
  "declared tool = (case tool_readOnlyHint tool of Some (Bool b) \<Rightarrow> Some b | _ \<Rightarrow> None)"

definition verb_of :: "McpToolDescriptor list \<Rightarrow> McpToolDescriptor \<Rightarrow> utext" where
  "verb_of tools tool =
     (let words = splitWords (tool_name tool)
      in word_at words (if \<exists>ns. sharedVendorPrefix tools = Some ns then 1 else 0))"

lemma classify_one:
  "classifyMcpMethod tool ns = \<lparr>method_name = tool_name tool, method_description = non_empty (tool_description tool),
     readOnly = (case declared tool of Some b \<Rightarrow> b
       | None \<Rightarrow> word_at (splitWords (tool_name tool)) (if leads_with (splitWords (tool_name tool)) ns then 1 else 0) \<in> set READ_ONLY_PREFIXES),
     inferred = (declared tool = None)\<rparr>"
  by (auto simp: classifyMcpMethod_def declared_def Let_def split: option.split json.split)

lemma prefix_leads: "sharedVendorPrefix tools = Some ns \<Longrightarrow> tool \<in> set tools \<Longrightarrow> leads_with (splitWords (tool_name tool)) (Some ns)"
proof -
  assume *: "sharedVendorPrefix tools = Some ns" "tool \<in> set tools"
  then have p: "prefixed ns tool" by (simp add: sharedVendorPrefix_iff list_all_iff)
  then obtain w ws where w: "splitWords (tool_name tool) = w # ws" by (cases "splitWords (tool_name tool)") (auto simp: prefixed_def)
  moreover have "w \<noteq> []" using words_non_empty [of w "tool_name tool"] w by simp
  ultimately show ?thesis using p by (simp add: leads_with_def prefixed_def)
qed

text \<open>
  (Lemma) What the classification of a catalog decides: a declared hint always wins; without one a method
  counts as read-only exactly when its verb is in the table, where the verb is the second word if all
  methods of the catalog have two words and share a first word that is in neither table, and the first
  word otherwise. The order and the names of the catalog are kept.
\<close>

theorem classification_exact:
  "classifyMcpMethods tools = map (\<lambda>tool.
     \<lparr>method_name = tool_name tool, method_description = non_empty (tool_description tool),
      readOnly = (case declared tool of Some b \<Rightarrow> b | None \<Rightarrow> verb_of tools tool \<in> set READ_ONLY_PREFIXES),
      inferred = (declared tool = None)\<rparr>) tools
   \<and> ((\<exists>ns. sharedVendorPrefix tools = Some ns) \<longleftrightarrow>
        (\<exists>ns. tools \<noteq> [] \<and> list_all (prefixed ns) tools \<and> ns \<notin> set (READ_ONLY_PREFIXES @ WRITE_VERB_PREFIXES)))"
proof -
  have "classifyMcpMethod tool (sharedVendorPrefix tools) =
      \<lparr>method_name = tool_name tool, method_description = non_empty (tool_description tool),
       readOnly = (case declared tool of Some b \<Rightarrow> b | None \<Rightarrow> verb_of tools tool \<in> set READ_ONLY_PREFIXES),
       inferred = (declared tool = None)\<rparr>" if "tool \<in> set tools" for tool
  proof (cases "sharedVendorPrefix tools")
    case None
    then show ?thesis by (simp add: classify_one verb_of_def leads_with_def split: option.split)
  next
    case (Some ns)
    then show ?thesis using prefix_leads [OF Some that] by (simp add: classify_one verb_of_def split: option.split)
  qed
  then show ?thesis by (auto simp: classifyMcpMethods_def sharedVendorPrefix_iff)
qed

text \<open>
  (Lemma) The direction the heuristic promises never to fail in: a method that declares nothing and whose name
  starts with a mutation verb of the table is never taken for read-only, whatever else the catalog holds;
  and neither is a method that declares itself writing.
\<close>

lemma mutations_classified_write:
  assumes "m \<in> set (classifyMcpMethods tools)" "readOnly m"
  shows "\<exists>tool \<in> set tools. tool_name tool = method_name m \<and> (declared tool = Some True
     \<or> declared tool = None \<and> word_at (splitWords (tool_name tool)) 0 \<notin> set WRITE_VERB_PREFIXES)"
proof -
  obtain tool where t: "tool \<in> set tools" "m = classifyMcpMethod tool (sharedVendorPrefix tools)"
    using assms(1) by (auto simp: classifyMcpMethods_def)
  have "word_at (splitWords (tool_name tool)) 0 \<notin> set WRITE_VERB_PREFIXES" if "declared tool = None"
  proof (cases "sharedVendorPrefix tools")
    case None
    then show ?thesis using assms(2) t that write_verb_not_read by (auto simp: classify_one leads_with_def)
  next
    case (Some ns)
    then have "word_at (splitWords (tool_name tool)) 0 = ns"
      using prefix_leads [OF Some t(1)] by (auto simp: leads_with_def word_at_def hd_conv_nth split: option.splits)
    then show ?thesis using Some by (simp add: sharedVendorPrefix_iff)
  qed
  then show ?thesis using t assms(2) by (intro bexI [of _ tool]) (auto simp: classify_one split: option.splits)
qed

definition demo_tool :: "string \<Rightarrow> bool option \<Rightarrow> McpToolDescriptor" where
  "demo_tool name hint = \<lparr>tool_name = cps name, tool_description = None, tool_readOnlyHint = map_option Bool hint\<rparr>"

lemma demo_words:
  "splitWords (cps ''typefully_list_drafts'') = map cps [''typefully'', ''list'', ''drafts'']"
  "splitWords (cps ''typefully_delete_draft'') = map cps [''typefully'', ''delete'', ''draft'']"
  "splitWords (cps ''approve_view'') = map cps [''approve'', ''view'']"
  by (simp_all add: text_eval)

lemma demo_catalog:
  "classifyMcpMethods [demo_tool ''typefully_list_drafts'' None, demo_tool ''typefully_delete_draft'' None] =
     [\<lparr>method_name = cps ''typefully_list_drafts'', method_description = None, readOnly = True, inferred = True\<rparr>,
      \<lparr>method_name = cps ''typefully_delete_draft'', method_description = None, readOnly = False, inferred = True\<rparr>]"
proof -
  have tables: "cps ''typefully'' \<notin> set READ_ONLY_PREFIXES" "cps ''typefully'' \<notin> set WRITE_VERB_PREFIXES" "cps ''typefully'' \<noteq> []"
    "cps ''list'' \<in> set READ_ONLY_PREFIXES" "cps ''delete'' \<notin> set READ_ONLY_PREFIXES"
    by (simp_all add: READ_ONLY_PREFIXES_def WRITE_VERB_PREFIXES_def cps_def)
  have "sharedVendorPrefix [demo_tool ''typefully_list_drafts'' None, demo_tool ''typefully_delete_draft'' None] = Some (cps ''typefully'')"
    by (simp add: sharedVendorPrefix_iff prefixed_def demo_tool_def demo_words tables)
  then show ?thesis
    using tables by (simp add: classifyMcpMethods_def classify_one declared_def demo_tool_def demo_words word_at_def leads_with_def non_empty_def)
qed

text \<open>
  (Lemma) A catalog of one method that starts with a verb outside both tables: the verb is taken for a vendor's
  name, the noun for the verb, and the method for read-only.
\<close>

lemma lone_unlisted_verb_reads:
  "map readOnly (classifyMcpMethods [demo_tool ''approve_view'' None]) = [True]
   \<and> map readOnly (classifyMcpMethods [demo_tool ''approve_view'' None, demo_tool ''list_items'' None]) = [False, True]"
proof -
  have items: "splitWords (cps ''list_items'') = map cps [''list'', ''items'']" by (simp add: text_eval)
  have tables: "cps ''approve'' \<notin> set READ_ONLY_PREFIXES" "cps ''approve'' \<notin> set WRITE_VERB_PREFIXES"
    "cps ''view'' \<in> set READ_ONLY_PREFIXES" "cps ''list'' \<in> set READ_ONLY_PREFIXES" "cps ''list'' \<noteq> cps ''approve''" "cps ''approve'' \<noteq> []"
    by (simp_all add: READ_ONLY_PREFIXES_def WRITE_VERB_PREFIXES_def cps_def)
  have "sharedVendorPrefix [demo_tool ''approve_view'' None] = Some (cps ''approve'')"
    by (simp add: sharedVendorPrefix_iff prefixed_def demo_tool_def demo_words tables)
  moreover have "sharedVendorPrefix [demo_tool ''approve_view'' None, demo_tool ''list_items'' None] = None"
    using tables by (simp add: sharedVendorPrefix_def demo_tool_def demo_words items)
  ultimately show ?thesis
    using tables by (simp add: classifyMcpMethods_def classify_one declared_def demo_tool_def demo_words items word_at_def leads_with_def)
qed
section \<open>Counts that agree\<close>

lemma filter_split: "length (filter P xs) + length (filter (\<lambda>x. \<not> P x) xs) = length xs"
  by (induction xs) auto

lemma filter_both: "length (filter (\<lambda>x. P x \<and> Q x) xs) + length (filter (\<lambda>x. \<not> P x \<and> Q x) xs) = length (filter Q xs)"
  by (induction xs) auto

lemma filter_part: "length (filter (\<lambda>x. P x \<and> Q x) xs) \<le> length (filter P xs)"
  by (induction xs) auto

lemma enabled_count: "enabled_total (summarizeMethodAccess catalog enabled) = length (filter (isOn enabled) catalog)"
  using filter_both [of readOnly "isOn enabled" catalog] by (simp add: summarizeMethodAccess_def Let_def)

text \<open>
  (Lemma) The counts of every display agree: reading and writing methods partition the catalog, so do
  the enabled ones and, among writers, the enabled and the disabled; without an allowlist everything is
  enabled; and the read-only badge is shown exactly for an allowlist that leaves out every writing method
  of a catalog that has one.
\<close>

theorem method_counts_agree:
  "let s = summarizeMethodAccess catalog enabled in
     readOnlyTotal s + writeTotal s = total s
     \<and> readOnlyEnabled s + writeEnabled s = length (filter (isOn enabled) catalog)
     \<and> enabled_total s = length (filter (isOn enabled) catalog)
     \<and> writeEnabled s + writeDisabled s = writeTotal s
     \<and> (mode s = All_methods \<longleftrightarrow> enabled = None)
     \<and> (enabled = None \<longrightarrow> enabled_total s = total s \<and> writeDisabled s = 0)
     \<and> (isReadOnlyRestricted catalog enabled \<longleftrightarrow>
          enabled \<noteq> None \<and> (\<exists>m \<in> set catalog. \<not> readOnly m) \<and> (\<forall>m \<in> set catalog. isOn enabled m \<longrightarrow> readOnly m))"
proof -
  let ?s = "summarizeMethodAccess catalog enabled"
  have le: "writeEnabled ?s \<le> writeTotal ?s" by (simp add: summarizeMethodAccess_def Let_def filter_part)
  have on: "isOn None = (\<lambda>m. True)" by (rule ext) (simp add: isOn_def)
  have badge: "isReadOnlyRestricted catalog enabled \<longleftrightarrow>
      enabled \<noteq> None \<and> (\<exists>m \<in> set catalog. \<not> readOnly m) \<and> (\<forall>m \<in> set catalog. isOn enabled m \<longrightarrow> readOnly m)"
    by (auto simp: isReadOnlyRestricted_def summarizeMethodAccess_def Let_def filter_empty_conv)
  have "readOnlyTotal ?s + writeTotal ?s = total ?s" "mode ?s = All_methods \<longleftrightarrow> enabled = None"
    "writeEnabled ?s + writeDisabled ?s = writeTotal ?s"
    "readOnlyEnabled ?s + writeEnabled ?s = length (filter (isOn enabled) catalog)"
    using filter_split [of readOnly catalog] enabled_count [of catalog enabled] le
    by (simp_all add: summarizeMethodAccess_def Let_def)
  moreover have "enabled = None \<longrightarrow> enabled_total ?s = total ?s \<and> writeDisabled ?s = 0"
    by (auto simp: enabled_count on) (auto simp: summarizeMethodAccess_def Let_def on)
  ultimately show ?thesis using badge enabled_count [of catalog enabled] unfolding Let_def by blast
qed

text \<open>
  (Lemma) The count documented as \<open>zero on a catalog-backed read-only connector\<close> is the number of all
  its writing methods there.
\<close>

lemma read_only_write_disabled:
  assumes "isReadOnlyRestricted catalog enabled"
  shows "writeDisabled (summarizeMethodAccess catalog enabled) = length (filter (\<lambda>m. \<not> readOnly m) catalog)
    \<and> 0 < writeDisabled (summarizeMethodAccess catalog enabled)"
  using assms by (auto simp: isReadOnlyRestricted_def summarizeMethodAccess_def Let_def split: if_splits)

lemma read_access_names:
  "x \<in> set (readOnlyMethodNames catalog) \<longleftrightarrow> (\<exists>m \<in> set catalog. readOnly m \<and> method_name m = x)"
  by (auto simp: readOnlyMethodNames_def)

end
