(* ===== verification/Mcp_Guard.thy ===== *)
theory Mcp_Guard
  imports Mcp_Access "HOL-Library.AList" "HOL-Library.Product_Lexorder"
begin

text \<open>
  The allowlist of MCP methods as the egress proxy enforces it: the verdict on a request body
  (\<open>services/egress/mcp-method-guard.ts\<close>), and the bindings of hosts to connectors a run's proxy is
  given (\<open>services/connectors/connections.ts\<close>). A table is a list of rows. \<open>JSON.parse\<close>, \<open>new URL\<close> and
  the collation of the database are arguments.
\<close>

section \<open>The verdict on a body\<close>

definition TOOLS_CALL :: utext where
  "TOOLS_CALL = cps ''tools/call''"

datatype McpGuardVerdict = Not_blocked | Not_enabled utext | Unparseable

definition isRecord :: "json \<Rightarrow> bool" where
  "isRecord v = (case v of Obj _ \<Rightarrow> True | Arr _ \<Rightarrow> True | _ \<Rightarrow> False)"

fun check_messages :: "utext set \<Rightarrow> json list \<Rightarrow> McpGuardVerdict" where
  "check_messages enabled [] = Not_blocked"
| "check_messages enabled (message # messages) =
     (if \<not> isRecord message then Unparseable
      else if member_of message (cps ''method'') \<noteq> Some (Str TOOLS_CALL) then check_messages enabled messages
      else (case member_of message (cps ''params'') of
          None \<Rightarrow> Unparseable
        | Some params \<Rightarrow>
            if \<not> isRecord params then Unparseable
            else (case member_of params (cps ''name'') of
                Some (Str name) \<Rightarrow> if name \<notin> enabled then Not_enabled name else check_messages enabled messages
              | _ \<Rightarrow> Unparseable)))"

definition messages_of :: "json \<Rightarrow> json list" where
  "messages_of parsed = (case parsed of Arr xs \<Rightarrow> xs | _ \<Rightarrow> [parsed])"

definition shouldBlockMcpRequest :: "(utext \<Rightarrow> json option) \<Rightarrow> utext \<Rightarrow> utext set \<Rightarrow> McpGuardVerdict" where
  "shouldBlockMcpRequest parse bodyText enabled = (case parse bodyText of
     None \<Rightarrow> Unparseable
   | Some parsed \<Rightarrow>
       let messages = messages_of parsed
       in if length messages = 0 then Not_blocked else check_messages enabled messages)"

definition QUOTE :: utext where
  "QUOTE = [34]"

definition mcpMethodBlockedMessage :: "McpGuardVerdict \<Rightarrow> utext \<Rightarrow> utext" where
  "mcpMethodBlockedMessage verdict connectorName = (case verdict of
     Not_enabled name \<Rightarrow>
       cps ''Blocked by Hezo: the '' @ QUOTE @ name @ QUOTE @ cps '' method is not enabled for the '' @
       QUOTE @ connectorName @ QUOTE @ cps '' connector. An operator chose which of this server's methods '' @
       cps ''agents may call; ask them to enable it from the connector's Settings if you need it.''
   | _ \<Rightarrow>
       cps ''Blocked by Hezo: this request to the '' @ QUOTE @ connectorName @ QUOTE @ cps '' MCP server could not be '' @
       cps ''inspected, and that server has a restricted method allowlist. Send one JSON-RPC '' @
       cps ''message (or a batch) as an uncompressed application/json body with a Content-Length.'')"

section \<open>Connectors in scope\<close>

datatype ConnectorTransport = Saas | Local | Api

record ConnectorRow =
  row_id :: nat
  row_name :: utext
  row_project :: "nat option"
  row_kind :: ConnectorTransport
  row_url :: "utext option"
  row_headers :: utext
  oauth_connection_id :: "nat option"
  api_key_secret_id :: "nat option"
  enabled_methods :: "utext list option"
  probed_at :: "int option"
  probe_error :: "utext option"
  revoked_at :: "int option"

text \<open>\<open>SAAS_CREDENTIALED_SQL\<close>; \<open>row_headers\<close> is the text of the configured headers, empty when there are none.\<close>

definition credentialed :: "ConnectorRow \<Rightarrow> bool" where
  "credentialed row \<longleftrightarrow> oauth_connection_id row \<noteq> None \<or> api_key_secret_id row \<noteq> None
     \<or> containsCredentialPlaceholder (row_headers row)"

text \<open>
  The rows in the order of the query: by name, and for one name the global row before those of
  projects. Then the map the rows are written to, in the order of their first insertion.
\<close>

definition query_rows :: "(utext \<Rightarrow> nat) \<Rightarrow> nat option \<Rightarrow> (ConnectorRow \<Rightarrow> bool) \<Rightarrow> ConnectorRow list \<Rightarrow> ConnectorRow list" where
  "query_rows collate projectId gate table =
     sort_key (\<lambda>row. (collate (row_name row), row_project row \<noteq> None))
       (filter (\<lambda>row. revoked_at row = None \<and> gate row
          \<and> (projectId \<noteq> None \<longrightarrow> row_project row = projectId \<or> row_project row = None)) table)"

definition selectConnectorsInScope ::
  "(utext \<Rightarrow> nat) \<Rightarrow> nat option \<Rightarrow> (ConnectorRow \<Rightarrow> bool) \<Rightarrow> ConnectorRow list \<Rightarrow> ConnectorRow list" where
  "selectConnectorsInScope collate projectId gate table =
     map snd (fold (\<lambda>row out. AList.update (row_name row) row out) (query_rows collate projectId gate table) [])"

definition run_gate :: "ConnectorRow \<Rightarrow> bool" where
  "run_gate row \<longleftrightarrow> row_kind row \<noteq> Saas \<or> credentialed row \<or> (probed_at row \<noteq> None \<and> probe_error row = None)"

definition loadConnectorsForRun :: "(utext \<Rightarrow> nat) \<Rightarrow> nat option \<Rightarrow> ConnectorRow list \<Rightarrow> ConnectorRow list" where
  "loadConnectorsForRun collate projectId = selectConnectorsInScope collate projectId run_gate"

definition loadConnectorsInScope :: "(utext \<Rightarrow> nat) \<Rightarrow> nat option \<Rightarrow> ConnectorRow list \<Rightarrow> ConnectorRow list" where
  "loadConnectorsInScope collate projectId = selectConnectorsInScope collate projectId (\<lambda>_. True)"

section \<open>Bindings of hosts\<close>

record McpHostRestriction =
  connectorName :: utext
  enabled :: "utext set"

record McpHostConnector =
  conn_id :: nat
  conn_name :: utext
  conn_pathname :: utext
  conn_credentialed :: bool

record McpHostBinding =
  connectors :: "McpHostConnector list"
  restriction :: "McpHostRestriction option"

text \<open>A parsed URL; the port is absent when the URL leaves it to the scheme.\<close>

record URL =
  protocol :: utext
  hostname :: string
  url_port :: "nat option"
  pathname :: utext
  search :: utext

definition mcpRestrictionKey :: "string \<Rightarrow> nat \<Rightarrow> string" where
  "mcpRestrictionKey host port = Text_Split.toLowerCase host @ '':'' @ digits port"

definition normalizeMcpPathname :: "utext \<Rightarrow> utext" where
  "normalizeMcpPathname path =
     (let trimmed = rev (dropWhile (\<lambda>c. c = 47) (rev path)) in if 0 < length trimmed then trimmed else [47])"

definition url_key :: "URL \<Rightarrow> string" where
  "url_key u =
     mcpRestrictionKey (hostname u) (case url_port u of Some p \<Rightarrow> p | None \<Rightarrow> if protocol u = cps ''https:'' then 443 else 80)"

text \<open>The key and the pathname of a row, nothing for a row the loop skips.\<close>

definition row_target :: "(utext \<Rightarrow> URL option) \<Rightarrow> ConnectorRow \<Rightarrow> (string \<times> utext) option" where
  "row_target parse_url row =
     (if row_kind row \<noteq> Saas then None
      else (case row_url row of
          None \<Rightarrow> None
        | Some url \<Rightarrow>
            if url = [] then None
            else (case parse_url url of
                None \<Rightarrow> None
              | Some parsed \<Rightarrow> Some (url_key parsed, normalizeMcpPathname (pathname parsed)))))"

definition connector_of :: "ConnectorRow \<Rightarrow> utext \<Rightarrow> McpHostConnector" where
  "connector_of row path =
     \<lparr>conn_id = row_id row, conn_name = row_name row, conn_pathname = path, conn_credentialed = credentialed row\<rparr>"

definition tighten :: "ConnectorRow \<Rightarrow> McpHostRestriction option \<Rightarrow> McpHostRestriction option" where
  "tighten row r = (case enabled_methods row of
     None \<Rightarrow> r
   | Some names \<Rightarrow> (case r of
       Some s \<Rightarrow> Some \<lparr>connectorName = connectorName s, enabled = enabled s \<union> set names\<rparr>
     | None \<Rightarrow> Some \<lparr>connectorName = row_name row, enabled = set names\<rparr>))"

definition bind_row ::
  "(utext \<Rightarrow> URL option) \<Rightarrow> ConnectorRow \<Rightarrow> (string \<times> McpHostBinding) list \<Rightarrow> (string \<times> McpHostBinding) list" where
  "bind_row parse_url row bindings = (case row_target parse_url row of
     None \<Rightarrow> bindings
   | Some (key, path) \<Rightarrow>
       let binding = (case map_of bindings key of Some b \<Rightarrow> b | None \<Rightarrow> \<lparr>connectors = [], restriction = None\<rparr>)
       in AList.update key
            \<lparr>connectors = connectors binding @ [connector_of row path], restriction = tighten row (restriction binding)\<rparr> bindings)"

definition longest_first :: "McpHostBinding \<Rightarrow> McpHostBinding" where
  "longest_first binding = binding\<lparr>connectors := sort_key (\<lambda>c. - int (length (conn_pathname c))) (connectors binding)\<rparr>"

definition loadMcpHostBindings ::
  "(utext \<Rightarrow> nat) \<Rightarrow> (utext \<Rightarrow> URL option) \<Rightarrow> nat option \<Rightarrow> ConnectorRow list \<Rightarrow> (string \<times> McpHostBinding) list" where
  "loadMcpHostBindings collate parse_url projectId table =
     map (\<lambda>(key, b). (key, longest_first b))
       (fold (bind_row parse_url) (loadConnectorsInScope collate projectId table) [])"

text \<open>The path of a request, up to its query.\<close>

definition request_pathname :: "utext \<Rightarrow> utext" where
  "request_pathname requestPath = normalizeMcpPathname (takeWhile (\<lambda>c. c \<noteq> 63) requestPath)"

definition covers :: "utext \<Rightarrow> McpHostConnector \<Rightarrow> bool" where
  "covers path c \<longleftrightarrow> conn_pathname c = [47] \<or> path = conn_pathname c \<or> startsWith path (conn_pathname c @ [47])"

definition connectorForPath :: "McpHostBinding \<Rightarrow> utext \<Rightarrow> McpHostConnector option" where
  "connectorForPath binding requestPath = find (covers (request_pathname requestPath)) (connectors binding)"

section \<open>What passes\<close>

definition is_call :: "json \<Rightarrow> bool" where
  "is_call m \<longleftrightarrow> member_of m (cps ''method'') = Some (Str TOOLS_CALL)"

definition called :: "json \<Rightarrow> utext option" where
  "called m = (case member_of m (cps ''params'') of
     Some p \<Rightarrow> (case member_of p (cps ''name'') of Some (Str n) \<Rightarrow> Some n | _ \<Rightarrow> None)
   | None \<Rightarrow> None)"

lemma named_record: "member_of p k \<noteq> None \<Longrightarrow> isRecord p"
  by (auto simp: member_of_def isRecord_def split: json.splits)

lemma passing_messages:
  "check_messages allowed ms = Not_blocked \<longleftrightarrow>
     (\<forall>m \<in> set ms. isRecord m \<and> (is_call m \<longrightarrow> (\<exists>n \<in> allowed. called m = Some n)))"
proof (induction ms)
  case (Cons m ms)
  show ?case
  proof (cases "isRecord m \<and> is_call m")
    case True
    show ?thesis
    proof (cases "called m")
      case None
      then have "check_messages allowed (m # ms) = Unparseable"
        using True by (auto simp: called_def is_call_def split: option.splits json.splits)
      then show ?thesis using True None by simp
    next
      case (Some n)
      then obtain p where p: "member_of m (cps ''params'') = Some p" "member_of p (cps ''name'') = Some (Str n)"
        by (auto simp: called_def split: option.splits json.splits)
      then have "check_messages allowed (m # ms) = (if n \<notin> allowed then Not_enabled n else check_messages allowed ms)"
        using True named_record [of p "cps ''name''"] by (simp add: is_call_def)
      then show ?thesis using True Some Cons by simp
    qed
  qed (use Cons in \<open>auto simp: is_call_def\<close>)
qed simp

lemma guard_exact:
  "shouldBlockMcpRequest parse body allowed = Not_blocked \<longleftrightarrow>
     (\<exists>parsed. parse body = Some parsed \<and>
       (\<forall>m \<in> set (messages_of parsed). isRecord m \<and> (is_call m \<longrightarrow> (\<exists>n \<in> allowed. called m = Some n))))"
proof (cases "parse body")
  case (Some parsed)
  then show ?thesis using passing_messages [of allowed "messages_of parsed"]
    by (cases "messages_of parsed") (simp_all add: shouldBlockMcpRequest_def Let_def)
qed (simp add: shouldBlockMcpRequest_def)

text \<open>
  (Lemma) A body is forwarded to a restricted server exactly when it parses, every message of it is an object or
  an array, and every \<open>tools/call\<close> among the messages, alone or anywhere in a batch, names a method of the
  allowlist.
\<close>

theorem guard_forwards_exactly:
  "shouldBlockMcpRequest parse body allowed = Not_blocked \<longleftrightarrow>
     (\<exists>parsed. parse body = Some parsed \<and>
       (\<forall>m \<in> set (messages_of parsed). isRecord m \<and> (is_call m \<longrightarrow> (\<exists>n \<in> allowed. called m = Some n))))"
  by (rule guard_exact)


section \<open>Rows that shadow each other\<close>

lemma find_app: "find P (xs @ ys) = (case find P xs of Some x \<Rightarrow> Some x | None \<Rightarrow> find P ys)"
  by (induction xs) auto

lemma find_holds: "find P xs = Some x \<Longrightarrow> x \<in> set xs \<and> P x"
  by (induction xs) (auto split: if_splits)

lemma written_last:
  "map_of (fold (\<lambda>row out. AList.update (row_name row) row out) rows out) name =
     (case find (\<lambda>row. row_name row = name) (rev rows) of Some row \<Rightarrow> Some row | None \<Rightarrow> map_of out name)"
  by (induction rows arbitrary: out) (auto simp: update_conv find_app split: option.splits)

lemma written_keys: "distinct (map fst out) \<Longrightarrow> list_all (\<lambda>(k, r). k = row_name r) out \<Longrightarrow>
   distinct (map fst (fold (\<lambda>row out. AList.update (row_name row) row out) rows out))
   \<and> list_all (\<lambda>(k, r). k = row_name r) (fold (\<lambda>row out. AList.update (row_name row) row out) rows out)"
proof (induction rows arbitrary: out)
  case (Cons r rows)
  have "list_all (\<lambda>(k, r). k = row_name r) (AList.update (row_name r) r out)"
    using Cons.prems by (induction out) auto
  then show ?case using Cons by (simp add: distinct_update)
qed simp

lemma selected_iff:
  "row \<in> set (selectConnectorsInScope collate pid gate table) \<longleftrightarrow>
     find (\<lambda>r. row_name r = row_name row) (rev (query_rows collate pid gate table)) = Some row"
proof -
  let ?out = "fold (\<lambda>row out. AList.update (row_name row) row out) (query_rows collate pid gate table) []"
  have k: "distinct (map fst ?out)" "list_all (\<lambda>(k, r). k = row_name r) ?out"
    using written_keys [of "[]" "query_rows collate pid gate table"] by simp_all
  have "row \<in> snd ` set ?out \<longleftrightarrow> (row_name row, row) \<in> set ?out" using k(2) by (force simp: list_all_iff)
  also have "\<dots> \<longleftrightarrow> map_of ?out (row_name row) = Some row" using k(1) by simp
  finally show ?thesis by (auto simp: selectConnectorsInScope_def written_last split: option.splits)
qed

section \<open>Bindings in closed form\<close>

definition rows_at :: "(utext \<Rightarrow> URL option) \<Rightarrow> string \<Rightarrow> ConnectorRow list \<Rightarrow> ConnectorRow list" where
  "rows_at parse_url key rows = filter (\<lambda>row. \<exists>path. row_target parse_url row = Some (key, path)) rows"

definition row_path :: "(utext \<Rightarrow> URL option) \<Rightarrow> ConnectorRow \<Rightarrow> utext" where
  "row_path parse_url row = (case row_target parse_url row of Some (_, path) \<Rightarrow> path | None \<Rightarrow> [])"

definition restricted_rows :: "ConnectorRow list \<Rightarrow> ConnectorRow list" where
  "restricted_rows rows = filter (\<lambda>row. enabled_methods row \<noteq> None) rows"

definition merged :: "ConnectorRow list \<Rightarrow> McpHostRestriction option" where
  "merged rows = (case restricted_rows rows of
     [] \<Rightarrow> None
   | first # rest \<Rightarrow> Some \<lparr>connectorName = row_name first,
       enabled = (\<Union>row \<in> set (first # rest). set (the (enabled_methods row)))\<rparr>)"

definition bound :: "(utext \<Rightarrow> URL option) \<Rightarrow> ConnectorRow list \<Rightarrow> McpHostBinding" where
  "bound parse_url rows = \<lparr>connectors = map (\<lambda>row. connector_of row (row_path parse_url row)) rows, restriction = merged rows\<rparr>"

lemma merged_snoc: "merged (rows @ [row]) = tighten row (merged rows)"
  by (cases "enabled_methods row"; cases "restricted_rows rows")
    (auto simp: merged_def tighten_def restricted_rows_def)

lemma rows_at_snoc: "rows_at parse_url key (rows @ [row]) =
   rows_at parse_url key rows @ (if \<exists>path. row_target parse_url row = Some (key, path) then [row] else [])"
  by (simp add: rows_at_def)

lemma bindings_closed:
  "map_of (fold (bind_row parse_url) rows []) key =
     (if rows_at parse_url key rows = [] then None else Some (bound parse_url (rows_at parse_url key rows)))"
proof (induction rows rule: rev_induct)
  case Nil
  then show ?case by (simp add: rows_at_def)
next
  case (snoc row rows)
  show ?case
  proof (cases "row_target parse_url row")
    case None
    then show ?thesis using snoc by (simp add: bind_row_def rows_at_snoc)
  next
    case (Some kp)
    then obtain k p where kp: "row_target parse_url row = Some (k, p)" by (cases kp) auto
    then have "row_path parse_url row = p" by (simp add: row_path_def)
    then show ?thesis using snoc kp
      by (auto simp: bind_row_def rows_at_snoc update_conv bound_def merged_snoc Let_def)
        (simp add: merged_def restricted_rows_def tighten_def)
  qed
qed

lemma host_restriction:
  "map_option restriction (map_of (loadMcpHostBindings collate parse_url pid table) key) =
     (let rows = rows_at parse_url key (loadConnectorsInScope collate pid table)
      in if rows = [] then None
      else if \<forall>row \<in> set rows. enabled_methods row = None then Some None
      else Some (Some \<lparr>connectorName = row_name (hd (restricted_rows rows)),
             enabled = {m. \<exists>row names. row \<in> set rows \<and> enabled_methods row = Some names \<and> m \<in> set names}\<rparr>))"
proof -
  have mp: "map_of (map (\<lambda>(key, b). (key, longest_first b)) xs) k = map_option longest_first (map_of xs k)"
    for xs :: "(string \<times> McpHostBinding) list" and k
    by (induction xs) auto
  have r: "merged rows = (if \<forall>row \<in> set rows. enabled_methods row = None then None
      else Some \<lparr>connectorName = row_name (hd (restricted_rows rows)),
             enabled = {m. \<exists>row names. row \<in> set rows \<and> enabled_methods row = Some names \<and> m \<in> set names}\<rparr>)" for rows
  proof (cases "restricted_rows rows")
    case Nil
    then show ?thesis by (auto simp: merged_def restricted_rows_def filter_empty_conv)
  next
    case (Cons first rest)
    have rs: "set (first # rest) = {row \<in> set rows. enabled_methods row \<noteq> None}"
      unfolding Cons [symmetric] by (auto simp: restricted_rows_def)
    have "(\<Union>row \<in> set (first # rest). set (the (enabled_methods row))) =
        {m. \<exists>row names. row \<in> set rows \<and> enabled_methods row = Some names \<and> m \<in> set names}"
      unfolding rs by force
    moreover have "first \<in> {row \<in> set rows. enabled_methods row \<noteq> None}" unfolding rs [symmetric] by simp
    then have "\<not> (\<forall>row \<in> set rows. enabled_methods row = None)" by auto
    ultimately show ?thesis using Cons by (simp add: merged_def)
  qed
  have lf: "restriction (longest_first b) = restriction b" for b by (simp add: longest_first_def)
  show ?thesis
    unfolding loadMcpHostBindings_def mp by (simp add: bindings_closed bound_def r lf Let_def)
qed

text \<open>
  (Lemma) What the proxy of a run enforces at a host and port: nothing when no connector in scope there
  restricts its methods, and otherwise the union of the allowlists of those that do. Every connector in scope
  at the key is bound there.
\<close>

theorem host_restriction_is_union:
  "map_option restriction (map_of (loadMcpHostBindings collate parse_url pid table) key) =
     (let rows = rows_at parse_url key (loadConnectorsInScope collate pid table)
      in if rows = [] then None
      else if \<forall>row \<in> set rows. enabled_methods row = None then Some None
      else Some (Some \<lparr>connectorName = row_name (hd (restricted_rows rows)),
             enabled = {m. \<exists>row names. row \<in> set rows \<and> enabled_methods row = Some names \<and> m \<in> set names}\<rparr>))"
  by (rule host_restriction)

section \<open>The connector a request is aimed at\<close>

lemma find_sorted_min:
  assumes "sorted (map f xs)" "find P xs = Some x" "y \<in> set xs" "P y"
  shows "f x \<le> (f y :: 'b :: linorder)"
  using assms by (induction xs) (auto split: if_splits)

text \<open>
  (Lemma) A request is attributed to a connector whose pathname covers its path, segment by segment, and no
  connector of the host with a longer pathname covers it; it is attributed to none only if none covers it.
\<close>

theorem attributed_to_longest:
  assumes "map_of (loadMcpHostBindings collate parse_url pid table) key = Some b"
  shows "case connectorForPath b path of
      None \<Rightarrow> \<forall>c \<in> set (connectors b). \<not> covers (request_pathname path) c
    | Some c \<Rightarrow> c \<in> set (connectors b) \<and> covers (request_pathname path) c
        \<and> (\<forall>d \<in> set (connectors b). covers (request_pathname path) d \<longrightarrow> length (conn_pathname d) \<le> length (conn_pathname c))"
proof -
  obtain b0 where b: "b = longest_first b0"
    using map_of_SomeD [OF assms] by (auto simp: loadMcpHostBindings_def)
  have "sorted (map (\<lambda>c. - int (length (conn_pathname c))) (connectors b))"
    by (simp add: b longest_first_def)
  from find_sorted_min [OF this] show ?thesis
    by (fastforce simp: connectorForPath_def find_None_iff split: option.split dest: find_holds)
qed

section \<open>Where the enforcement falls short of its comments\<close>

definition demo_row :: "nat \<Rightarrow> nat option \<Rightarrow> string \<Rightarrow> nat option \<Rightarrow> string list option \<Rightarrow> ConnectorRow" where
  "demo_row i project url key allowed =
     \<lparr>row_id = i, row_name = cps ''linear'', row_project = project, row_kind = Saas, row_url = Some (cps url), row_headers = [],
      oauth_connection_id = None, api_key_secret_id = key, enabled_methods = map_option (map cps) allowed,
      probed_at = None, probe_error = None, revoked_at = None\<rparr>"

text \<open>A reading of the URLs of the examples.\<close>

definition demo_url :: "utext \<Rightarrow> URL option" where
  "demo_url t = (if t = cps ''https://mcp.linear.app/mcp'' then
       Some \<lparr>protocol = cps ''https:'', hostname = ''mcp.linear.app'', url_port = None, pathname = cps ''/mcp'', search = []\<rparr>
     else if t = cps ''https://linear.test/mcp'' then
       Some \<lparr>protocol = cps ''https:'', hostname = ''linear.test'', url_port = None, pathname = cps ''/mcp'', search = []\<rparr>
     else None)"

text \<open>A restricted global connector, and a connector of project 7 with its name that has no credential yet.\<close>

definition demo_table :: "ConnectorRow list" where
  "demo_table = [demo_row 1 None ''https://mcp.linear.app/mcp'' (Some 5) (Some [''list_issues'']),
                 demo_row 2 (Some 7) ''https://linear.test/mcp'' None None]"

lemma find_filter: "(\<And>x. x \<in> set xs \<Longrightarrow> P x \<Longrightarrow> Q x) \<Longrightarrow> find P (filter Q xs) = find P xs"
  by (induction xs) auto

lemma gated_query: "query_rows collate pid gate table = filter gate (query_rows collate pid (\<lambda>_. True) table)"
  by (simp add: query_rows_def filter_sort conj_commute conj_left_commute cong: conj_cong)

definition in_scope :: "nat option \<Rightarrow> ConnectorRow list \<Rightarrow> ConnectorRow \<Rightarrow> bool" where
  "in_scope pid table row \<longleftrightarrow> row \<in> set table \<and> revoked_at row = None
     \<and> (pid = None \<or> row_project row = pid \<or> row_project row = None)"

lemma query_scope: "set (query_rows collate pid (\<lambda>_. True) table) = {row. in_scope pid table row}"
  by (auto simp: query_rows_def in_scope_def)

text \<open>
  (C24) A connector a run is handed with an allowlist is also enforced: the proxy of the run has a
  restriction at its host and port that lets its methods pass, provided every connector in scope with its
  name is fit for the run.
\<close>

theorem handed_restrictions_enforced:
  assumes "row \<in> set (loadConnectorsForRun collate pid table)" "enabled_methods row = Some names"
    "row_target parse_url row = Some (key, path)"
    "\<And>other. in_scope pid table other \<Longrightarrow> row_name other = row_name row \<Longrightarrow> run_gate other"
  shows "\<exists>r. map_option restriction (map_of (loadMcpHostBindings collate parse_url pid table) key) = Some (Some r)
    \<and> set names \<subseteq> enabled r"
proof -
  let ?q = "query_rows collate pid (\<lambda>_. True) table"
  have "find (\<lambda>r. row_name r = row_name row) (rev (filter run_gate ?q)) = Some row"
    using assms(1) by (simp add: loadConnectorsForRun_def selected_iff gated_query [symmetric])
  moreover have "find (\<lambda>r. row_name r = row_name row) (filter run_gate (rev ?q)) = find (\<lambda>r. row_name r = row_name row) (rev ?q)"
    using assms(4) by (intro find_filter) (auto simp: query_scope)
  ultimately have "row \<in> set (loadConnectorsInScope collate pid table)"
    by (simp add: loadConnectorsInScope_def selected_iff rev_filter)
  then have "row \<in> set (rows_at parse_url key (loadConnectorsInScope collate pid table))"
    using assms(3) by (simp add: rows_at_def)
  then have "\<exists>r. map_option restriction (map_of (loadMcpHostBindings collate parse_url pid table) key) = Some (Some r)
      \<and> enabled r = {m. \<exists>row names. row \<in> set (rows_at parse_url key (loadConnectorsInScope collate pid table))
            \<and> enabled_methods row = Some names \<and> m \<in> set names}"
    using assms(2) unfolding host_restriction by (auto simp: Let_def)
  then show ?thesis
    using \<open>row \<in> set (rows_at parse_url key (loadConnectorsInScope collate pid table))\<close> assms(2) by auto
qed

lemma demo_keys:
  "row_target demo_url (demo_row i p ''https://mcp.linear.app/mcp'' k a) = Some (''mcp.linear.app:443'', cps ''/mcp'')"
  "row_target demo_url (demo_row i p ''https://linear.test/mcp'' k a) = Some (''linear.test:443'', cps ''/mcp'')"
  by (simp_all add: row_target_def demo_row_def demo_url_def url_key_def mcpRestrictionKey_def normalizeMcpPathname_def
      cps_def digits.simps Text_Split.toLowerCase_def lower_def char_of_def bit_Suc_0_iff)

lemma demo_run:
  "demo_row 1 None ''https://mcp.linear.app/mcp'' (Some 5) (Some [''list_issues''])
     \<in> set (loadConnectorsForRun (\<lambda>_. 0) (Some 7) demo_table)"
  by (simp add: loadConnectorsForRun_def selectConnectorsInScope_def query_rows_def demo_table_def demo_row_def run_gate_def
      credentialed_def cps_def)

theorem handed_restrictions_enforced_witness:
  "\<exists>r. map_option restriction (map_of (loadMcpHostBindings (\<lambda>_. 0) demo_url (Some 7) [hd demo_table]) ''mcp.linear.app:443'') = Some (Some r)
    \<and> set (map cps [''list_issues'']) \<subseteq> enabled r"
proof (rule handed_restrictions_enforced)
  show "hd demo_table \<in> set (loadConnectorsForRun (\<lambda>_. 0) (Some 7) [hd demo_table])"
    by (simp add: loadConnectorsForRun_def selectConnectorsInScope_def query_rows_def demo_table_def demo_row_def run_gate_def
        credentialed_def cps_def)
  show "run_gate other" if "in_scope (Some 7) [hd demo_table] other" for other
    using that by (simp add: in_scope_def demo_table_def demo_row_def run_gate_def credentialed_def)
qed (simp_all add: demo_table_def demo_keys, simp add: demo_row_def)

text \<open>Of two rows of one name the query puts the project's behind the global one, so that it is the one that stays.\<close>

lemma find_rev_sorted_max:
  assumes "sorted (map f xs)" "find P (rev xs) = Some x" "y \<in> set xs" "P y"
  shows "(f y :: 'b :: linorder) \<le> f x"
  using assms by (induction xs rule: rev_induct) (auto simp: sorted_append split: if_splits dest: find_holds)

lemma project_row_stays:
  assumes "find (\<lambda>r. row_name r = name) (rev (query_rows collate pid gate table)) = Some w"
    and "y \<in> set (query_rows collate pid gate table)" "row_name y = name" "row_project y \<noteq> None"
  shows "row_project w \<noteq> None"
proof -
  have "sorted (map (\<lambda>row. (collate (row_name row), row_project row \<noteq> None)) (query_rows collate pid gate table))" by (simp add: query_rows_def)
  from find_rev_sorted_max [OF this assms(1,2)] find_holds [OF assms(1)] assms(3,4) show ?thesis by (auto simp: less_eq_prod_def)
qed

text \<open>
  (C40) The proviso of the enforcement is exact. In a project's run, take a connector the run is handed with an allowlist, at a host and port where
  no other connector in scope restricts its methods, names being unique among the global connectors and among the project's, as the indexes of the table have it. The proxy
  restricts nothing there exactly when the project has a connector of the same name that is not fit for the run: it was passed over when the
  run's connectors were chosen, but it is the row the bindings are built from.
\<close>

theorem shadowed_restriction_lost:
  assumes handed: "row \<in> set (loadConnectorsForRun collate (Some p) table)" and allow: "enabled_methods row = Some names"
    and at: "row_target parse_url row = Some (key, path)"
    and unique: "\<And>a b. in_scope (Some p) table a \<Longrightarrow> in_scope (Some p) table b \<Longrightarrow> row_name a = row_name b \<Longrightarrow> row_project a = row_project b \<Longrightarrow> a = b"
    and alone: "\<And>other path'. in_scope (Some p) table other \<Longrightarrow> other \<noteq> row \<Longrightarrow> row_target parse_url other = Some (key, path') \<Longrightarrow> enabled_methods other = None"
  shows "map_option restriction (map_of (loadMcpHostBindings collate parse_url (Some p) table) key) \<in> {None, Some None} \<longleftrightarrow>
    (\<exists>other. in_scope (Some p) table other \<and> row_name other = row_name row \<and> row_project other = Some p \<and> \<not> run_gate other)"
proof -
  let ?q = "\<lambda>gate. query_rows collate (Some p) gate table"
  let ?P = "\<lambda>r. row_name r = row_name row"
  have sub: "set (?q run_gate) = {r. in_scope (Some p) table r \<and> run_gate r}" unfolding gated_query [of _ _ run_gate] using query_scope by auto
  have h: "find ?P (rev (?q run_gate)) = Some row" using handed by (simp add: loadConnectorsForRun_def selected_iff)
  then have row: "in_scope (Some p) table row" "run_gate row" using find_holds [OF h] sub by auto
  obtain w where w: "find ?P (rev (?q (\<lambda>_. True))) = Some w"
    using row(1) query_scope [of collate "Some p" table] by (cases "find ?P (rev (?q (\<lambda>_. True)))") (auto simp: find_None_iff)
  then have w': "in_scope (Some p) table w" "row_name w = row_name row" using find_holds [OF w] query_scope by auto
  have same: "row \<in> set (loadConnectorsInScope collate (Some p) table) \<longleftrightarrow> w = row" using w by (auto simp: loadConnectorsInScope_def selected_iff)
  have scope: "r \<in> set (loadConnectorsInScope collate (Some p) table) \<Longrightarrow> in_scope (Some p) table r" for r
    using find_holds query_scope by (fastforce simp: loadConnectorsInScope_def selected_iff)
  have "(map_option restriction (map_of (loadMcpHostBindings collate parse_url (Some p) table) key) \<in> {None, Some None}) \<longleftrightarrow>
      (\<forall>r \<in> set (rows_at parse_url key (loadConnectorsInScope collate (Some p) table)). enabled_methods r = None)"
    unfolding host_restriction by (auto simp: Let_def)
  also have "\<dots> \<longleftrightarrow> w \<noteq> row" using same scope alone allow at by (fastforce simp: rows_at_def)
  also have "\<dots> \<longleftrightarrow> (\<exists>other. in_scope (Some p) table other \<and> row_name other = row_name row \<and> row_project other = Some p \<and> \<not> run_gate other)"
  proof
    assume "w \<noteq> row"
    then have "row_project w \<noteq> row_project row" using unique [OF w'(1) row(1) w'(2)] by blast
    then have wp: "row_project w = Some p" "row_project row = None"
      using w'(1) row(1) project_row_stays [OF w, of row] query_scope [of collate "Some p" table] by (auto simp: in_scope_def)
    then have "\<not> run_gate w" using project_row_stays [OF h, of w] sub w' by auto
    with w' wp show "\<exists>other. in_scope (Some p) table other \<and> row_name other = row_name row \<and> row_project other = Some p \<and> \<not> run_gate other" by blast
  next
    assume "\<exists>other. in_scope (Some p) table other \<and> row_name other = row_name row \<and> row_project other = Some p \<and> \<not> run_gate other"
    then obtain other where o: "in_scope (Some p) table other" "row_name other = row_name row" "row_project other = Some p" "\<not> run_gate other" by blast
    then have "row_project w \<noteq> None" using project_row_stays [OF w, of other] query_scope [of collate "Some p" table] by auto
    moreover have "row_project row = None" using unique [OF row(1) o(1)] o row by (auto simp: in_scope_def)
    ultimately show "w \<noteq> row" by auto
  qed
  finally show ?thesis .
qed

theorem shadowed_restriction_lost_witness:
  "map_option restriction (map_of (loadMcpHostBindings (\<lambda>_. 0) demo_url (Some 7) demo_table) ''mcp.linear.app:443'') \<in> {None, Some None}"
proof -
  have rows: "in_scope (Some 7) demo_table r \<Longrightarrow> r = hd demo_table \<or> r = hd (tl demo_table)" for r by (auto simp: in_scope_def demo_table_def)
  have two: "row_project (hd demo_table) = None" "row_project (hd (tl demo_table)) = Some 7" "enabled_methods (hd (tl demo_table)) = None"
    "row_name (hd demo_table) = row_name (hd (tl demo_table))" "\<not> run_gate (hd (tl demo_table))" "in_scope (Some 7) demo_table (hd (tl demo_table))"
    by (simp_all add: demo_table_def demo_row_def run_gate_def credentialed_def in_scope_def)
  have "hd demo_table \<in> set (loadConnectorsForRun (\<lambda>_. 0) (Some 7) demo_table)" using demo_run by (simp add: demo_table_def)
  moreover have "enabled_methods (hd demo_table) = Some [cps ''list_issues'']" by (simp add: demo_table_def demo_row_def)
  moreover have "row_target demo_url (hd demo_table) = Some (''mcp.linear.app:443'', cps ''/mcp'')" by (simp add: demo_table_def demo_keys)
  ultimately have "map_option restriction (map_of (loadMcpHostBindings (\<lambda>_. 0) demo_url (Some 7) demo_table) ''mcp.linear.app:443'') \<in> {None, Some None} \<longleftrightarrow>
    (\<exists>other. in_scope (Some 7) demo_table other \<and> row_name other = row_name (hd demo_table) \<and> row_project other = Some 7 \<and> \<not> run_gate other)"
  proof (rule shadowed_restriction_lost)
    show "a = b" if "in_scope (Some 7) demo_table a" "in_scope (Some 7) demo_table b" "row_project a = row_project b" for a b
      using rows [OF that(1)] rows [OF that(2)] that(3) two(1,2) by auto
    show "enabled_methods other = None" if "in_scope (Some 7) demo_table other" "other \<noteq> hd demo_table" for other
      using rows [OF that(1)] that(2) two(3) by simp
  qed
  then show ?thesis using two by metis
qed

text \<open>
  (Lemma) An array inside a batch is a message without a method: whatever calls it holds, it is let through.
\<close>

lemma nested_batch_passes:
  assumes "parse body = Some (Arr [Arr calls])"
  shows "shouldBlockMcpRequest parse body allowed = Not_blocked"
  using assms by (simp add: shouldBlockMcpRequest_def messages_of_def isRecord_def member_of_def)

definition demo_call :: "string \<Rightarrow> json" where
  "demo_call name = Obj [(cps ''method'', Str TOOLS_CALL), (cps ''params'', Obj [(cps ''name'', Str (cps name))])]"

theorem attributed_to_longest_witness:
  "map_option conn_id (connectorForPath (longest_first (bound demo_url [hd demo_table])) (cps ''/mcp/sse?x=1'')) = Some 1"
proof -
  have m: "map_of (loadMcpHostBindings (\<lambda>_. 0) demo_url (Some 7) [hd demo_table]) ''mcp.linear.app:443'' =
      Some (longest_first (bound demo_url [hd demo_table]))"
  proof -
    have "loadConnectorsInScope (\<lambda>_. 0) (Some 7) [hd demo_table] = [hd demo_table]"
      by (simp add: loadConnectorsInScope_def selectConnectorsInScope_def query_rows_def demo_table_def demo_row_def)
    then show ?thesis
      by (simp add: loadMcpHostBindings_def bind_row_def demo_keys demo_table_def bound_def row_path_def merged_def
          restricted_rows_def tighten_def) (simp add: demo_row_def)
  qed
  have c: "set (connectors (longest_first (bound demo_url [hd demo_table]))) = {connector_of (hd demo_table) (cps ''/mcp'')}"
    by (simp add: longest_first_def bound_def row_path_def demo_table_def demo_keys)
  have "covers (request_pathname (cps ''/mcp/sse?x=1'')) (connector_of (hd demo_table) (cps ''/mcp''))"
    by (simp add: covers_def connector_of_def request_pathname_def normalizeMcpPathname_def cps_def startsWith_def)
  then show ?thesis using attributed_to_longest [OF m, of "cps ''/mcp/sse?x=1''"] c
    by (auto split: option.splits simp: connector_of_def demo_table_def demo_row_def)
qed

section \<open>Read access, end to end\<close>

text \<open>
  (C18) Read access as an agent meets it: when a connector's allowlist is the read-only methods of its
  classified catalog, every call the proxy forwards names a method that the server declared read-only, or that
  declares nothing and does not start with a verb of the mutation table.
\<close>

theorem read_access_forwards_reads:
  assumes "shouldBlockMcpRequest parse body (set (readOnlyMethodNames (classifyMcpMethods tools))) = Not_blocked"
    "parse body = Some parsed" "m \<in> set (messages_of parsed)" "is_call m"
  shows "\<exists>tool \<in> set tools. called m = Some (tool_name tool) \<and> (declared tool = Some True
     \<or> declared tool = None \<and> word_at (splitWords (tool_name tool)) 0 \<notin> set WRITE_VERB_PREFIXES)"
proof -
  have "check_messages (set (readOnlyMethodNames (classifyMcpMethods tools))) (messages_of parsed) = Not_blocked"
    using assms(1,2) by (simp add: shouldBlockMcpRequest_def Let_def split: if_splits)
  then obtain n where "called m = Some n" "n \<in> set (readOnlyMethodNames (classifyMcpMethods tools))"
    using assms(3,4) by (auto simp: passing_messages)
  then obtain info where "info \<in> set (classifyMcpMethods tools)" "readOnly info" "called m = Some (method_name info)"
    by (auto simp: read_access_names)
  then show ?thesis using mutations_classified_write [of info tools] by (metis (no_types, lifting))
qed

theorem read_access_forwards_reads_witness:
  "\<exists>tool \<in> set [demo_tool ''typefully_list_drafts'' None, demo_tool ''typefully_delete_draft'' None].
     called (demo_call ''typefully_list_drafts'') = Some (tool_name tool) \<and> (declared tool = Some True
     \<or> declared tool = None \<and> word_at (splitWords (tool_name tool)) 0 \<notin> set WRITE_VERB_PREFIXES)"
proof (rule read_access_forwards_reads [where parse = "\<lambda>_. Some (demo_call ''typefully_list_drafts'')"])
  let ?c = "demo_call ''typefully_list_drafts''"
  show ms: "?c \<in> set (messages_of ?c)" by (simp add: messages_of_def demo_call_def)
  show "is_call ?c" by (simp add: is_call_def demo_call_def member_of_def)
  show "shouldBlockMcpRequest (\<lambda>_. Some ?c) [] (set (readOnlyMethodNames (classifyMcpMethods
      [demo_tool ''typefully_list_drafts'' None, demo_tool ''typefully_delete_draft'' None]))) = Not_blocked"
    by (simp add: demo_catalog shouldBlockMcpRequest_def messages_of_def readOnlyMethodNames_def demo_call_def isRecord_def
        member_of_def TOOLS_CALL_def) (simp add: cps_def)
qed simp

end
