(* ===== verification/Egress_Forward.thy ===== *)
theory Egress_Forward
  imports Mcp_Guard Net_Guard Egress_Substitution State_Systems
begin

text \<open>
  A run's egress proxy, \<open>services/egress/proxy.ts\<close>: the caller's token, the CONNECT handler, and the handler of a
  decrypted or plain request (\<open>forward\<close>) with everything it decides: the target and its guard, the headers that are
  relayed, the reading of the body under a cap, the method allowlist, substitution, and the request that is sent.
  Sockets and TLS are the environment: the outcome of a request is the answer given to the agent or the
  request sent upstream.

  A header or request line holds Latin-1 text, a body bytes. What the platform computes (URL parsing, \<open>Number\<close>,
  base64, \<open>JSON.parse\<close>, name resolution) is collected in a record of arguments; \<open>Number\<close> is nothing for a text that
  is not a natural number, so a request whose port or length is spelled as a fraction or a negative number is outside the model (the
  socket layer refuses to dial such a port).
\<close>

section \<open>Requests, configuration, outcomes\<close>

record proxy_platform =
  codecs :: platform
  new_URL :: "utext \<Rightarrow> URL option"
  js_number :: "utext \<Rightarrow> nat option"
  dnsLookup :: "string \<Rightarrow> string option"
  lookup_message :: "string \<Rightarrow> utext"

datatype body_event = Body_data bytes | Body_end | Body_error utext

record IncomingMessage =
  in_method :: utext
  in_url :: utext
  in_headers :: "(utext \<times> header_value) list"
  in_body :: "body_event list"

datatype leg = Tls string | Plain

record RunProxyConfig =
  token :: "bytes option"
  mcpBindings :: "(string \<times> McpHostBinding) list"
  allowPrivateTargets :: bool
  selfEndpoint :: "SelfEndpoint option"
  onConnectorRejection :: bool

datatype vault_load = Loaded vault | MasterKeyLocked | Load_error utext

datatype upstream_body = Piped "body_event list" | Fixed bytes

record Upstream =
  up_ssl :: bool
  up_host :: string
  up_dial :: string
  up_port :: nat
  up_method :: utext
  up_path :: utext
  up_headers :: "(utext \<times> header_value) list"
  up_body :: upstream_body
  up_logPath :: utext
  up_observer :: "(McpHostConnector \<times> bool) option"

datatype outcome = Respond nat string utext | Forwarded Upstream | Unanswered

datatype rejection_kind = Upstream_rejected | Upstream_unreachable | Substitution_failed

record ConnectorRunRejection =
  rej_connector :: McpHostConnector
  rej_kind :: rejection_kind
  rej_status :: nat
  rej_reason :: utext
  rej_detail :: "utext option"
  credentialSent :: bool

record proxy_state =
  reportedRejections :: "(nat \<times> rejection_kind \<times> bool) set"
  closed :: bool
  reports :: "ConnectorRunRejection list"

definition MAX_BODY_SUBSTITUTION_BYTES :: nat where
  "MAX_BODY_SUBSTITUTION_BYTES = 8192"

definition MAX_MCP_INSPECTION_BYTES :: nat where
  "MAX_MCP_INSPECTION_BYTES = 262144"

definition HOP_BY_HOP_HEADERS :: "utext list" where
  "HOP_BY_HOP_HEADERS = map cps [''connection'', ''keep-alive'', ''upgrade'']"

section \<open>The token of the run\<close>

definition hex_digit :: "nat \<Rightarrow> nat option" where
  "hex_digit c = (if 48 \<le> c \<and> c \<le> 57 then Some (c - 48) else if 97 \<le> c \<and> c \<le> 102 then Some (c - 87)
     else if 65 \<le> c \<and> c \<le> 70 then Some (c - 55) else None)"

text \<open>\<open>Buffer.from(text, 'hex')\<close>: pairs of digits up to the first that is not one.\<close>

fun from_hex :: "utext \<Rightarrow> bytes" where
  "from_hex (a # b # rest) = (case (hex_digit a, hex_digit b) of
     (Some x, Some y) \<Rightarrow> of_nat (16 * x + y) # from_hex rest
   | _ \<Rightarrow> [])"
| "from_hex _ = []"

definition line_end :: "nat \<Rightarrow> bool" where
  "line_end c \<longleftrightarrow> c = 10 \<or> c = 13 \<or> c = 0x2028 \<or> c = 0x2029"

text \<open>\<open>/^Basic\s+(.+)$/i\<close> on a trimmed header.\<close>

definition basic_credentials :: "utext \<Rightarrow> utext option" where
  "basic_credentials h =
     (let rest = drop 5 h; credential = dropWhile is_ws rest
      in if Credentials.toLowerCase (take 5 h) = cps ''basic'' \<and> takeWhile is_ws rest \<noteq> [] \<and> credential \<noteq> []
            \<and> list_all (\<lambda>c. \<not> line_end c) credential
         then Some credential else None)"

definition isAuthorized :: "platform \<Rightarrow> bytes option \<Rightarrow> utext option \<Rightarrow> bool" where
  "isAuthorized pf expected header = (case expected of
     None \<Rightarrow> True
   | Some tok \<Rightarrow> (case header of
       None \<Rightarrow> False
     | Some h \<Rightarrow>
         if h = [] then False
         else (case basic_credentials (trim h) of
             None \<Rightarrow> False
           | Some b64 \<Rightarrow>
               let decoded = buffer_to_text (base64_decode pf b64)
               in if 58 \<notin> set decoded then False
               else from_hex (tl (dropWhile (\<lambda>c. c \<noteq> 58) decoded)) = tok)))"

text \<open>\<open>formatEgressProxyUrl\<close>, and the \<open>hex\<close> spelling of the token it carries.\<close>

definition hex_cp :: "nat \<Rightarrow> nat" where
  "hex_cp n = (if n < 10 then 48 + n else 87 + n)"

definition to_hex :: "bytes \<Rightarrow> utext" where
  "to_hex bs = concat (map (\<lambda>b. [hex_cp (unat b div 16), hex_cp (unat b mod 16)]) bs)"

definition PROXY_AUTH_USERNAME :: utext where
  "PROXY_AUTH_USERNAME = cps ''run''"

definition formatEgressProxyUrl :: "utext \<Rightarrow> nat \<Rightarrow> utext option \<Rightarrow> utext" where
  "formatEgressProxyUrl host port tok = (case tok of
     Some t \<Rightarrow> if t = [] then cps ''http://'' @ host @ cps '':'' @ digits_text port
       else cps ''http://'' @ PROXY_AUTH_USERNAME @ cps '':'' @ t @ cps ''@'' @ host @ cps '':'' @ digits_text port
   | None \<Rightarrow> cps ''http://'' @ host @ cps '':'' @ digits_text port)"

section \<open>CONNECT\<close>

datatype connect_outcome = Proxy_auth_required | Forbidden | Bridge string

definition header_one :: "(utext \<times> header_value) list \<Rightarrow> string \<Rightarrow> utext option" where
  "header_one hs name = (case map_of hs (cps name) of Some (HOne v) \<Rightarrow> Some v | _ \<Rightarrow> None)"

definition latin1 :: "utext \<Rightarrow> string" where
  "latin1 t = map char_of t"

text \<open>The text before and after the last colon, all of it on both sides when there is none.\<close>

definition connect_parts :: "utext \<Rightarrow> utext \<times> utext" where
  "connect_parts target = (let parts = split_char 58 target
     in if length parts = 1 then (target, target) else (join_char 58 (butlast parts), last parts))"

definition onConnect :: "proxy_platform \<Rightarrow> RunProxyConfig \<Rightarrow> IncomingMessage \<Rightarrow> connect_outcome" where
  "onConnect pp cfg req = (case connect_parts (in_url req) of (h, p) \<Rightarrow>
     let host = Text_Split.toLowerCase (latin1 h);
         connectPort = (case js_number pp p of Some n \<Rightarrow> if n = 0 then 443 else n | None \<Rightarrow> 443)
     in if \<not> isAuthorized (codecs pp) (token cfg) (header_one (in_headers req) ''proxy-authorization'') then Proxy_auth_required
        else if \<not> allowPrivateTargets cfg \<and> \<not> isSelfEndpoint host connectPort (selfEndpoint cfg) \<and> isBlockedEgressHost host
        then Forbidden
        else Bridge host)"

section \<open>The target of a request\<close>

record TargetAddress =
  target_host :: string
  target_port :: nat
  target_path :: utext

definition resolveTarget :: "proxy_platform \<Rightarrow> leg \<Rightarrow> IncomingMessage \<Rightarrow> TargetAddress" where
  "resolveTarget pp l req =
     (let hostHeader = (case header_one (in_headers req) ''host'' of Some h \<Rightarrow> h | None \<Rightarrow> [])
      in case l of
        Tls connectHost \<Rightarrow>
          \<lparr>target_host = connectHost,
           target_port = (case split_char 58 hostHeader of
               _ # p # _ \<Rightarrow> (case js_number pp p of Some n \<Rightarrow> if 0 < n then n else 443 | None \<Rightarrow> 443)
             | _ \<Rightarrow> 443),
           target_path = in_url req\<rparr>
      | Plain \<Rightarrow>
          (let rawUrl = in_url req
           in case new_URL pp (if startsWith rawUrl (cps ''http'') then rawUrl else cps ''http://'' @ hostHeader @ rawUrl) of
             Some u \<Rightarrow> \<lparr>target_host = Text_Split.toLowerCase (hostname u),
               target_port = (case url_port u of Some p \<Rightarrow> p | None \<Rightarrow> 80), target_path = pathname u @ search u\<rparr>
           | None \<Rightarrow> \<lparr>target_host = latin1 (hd (split_char 58 hostHeader)), target_port = 80, target_path = rawUrl\<rparr>))"

definition blocked_message :: "string \<Rightarrow> utext" where
  "blocked_message host = cps ''Egress to '' @ cps host @
     cps '' is blocked: private and loopback addresses are not reachable through the proxy.''"

text \<open>The destination checks: the address to dial, or the answer that refuses it.\<close>

definition check_target :: "proxy_platform \<Rightarrow> RunProxyConfig \<Rightarrow> TargetAddress \<Rightarrow> outcome + string" where
  "check_target pp cfg t =
     (let host = target_host t;
          guardTarget = (\<not> allowPrivateTargets cfg \<and> \<not> isSelfEndpoint host (target_port t) (selfEndpoint cfg))
      in if guardTarget \<and> isBlockedEgressHost host then Inl (Respond 403 ''target_not_allowed'' (blocked_message host))
      else if guardTarget then
        (case resolveGuardedAddress (dnsLookup pp) isBlockedEgressAddress host of
           Inl (BlockedEgressTargetError _ _) \<Rightarrow> Inl (Respond 403 ''target_not_allowed'' (blocked_message host))
         | Inl LookupError \<Rightarrow>
             Inl (Respond 502 ''dns_failed'' (cps ''Egress to '' @ cps host @ cps '' failed: '' @ lookup_message pp host))
         | Inr address \<Rightarrow> Inr address)
      else Inr host)"

section \<open>Headers\<close>

definition relayed :: "utext \<Rightarrow> bool" where
  "relayed name \<longleftrightarrow> \<not> (startsWith (Credentials.toLowerCase name) (cps ''proxy-'')
     \<or> Credentials.toLowerCase name \<in> set HOP_BY_HOP_HEADERS)"

definition request_headers ::
  "bool \<Rightarrow> string \<Rightarrow> string \<Rightarrow> nat \<Rightarrow> (utext \<times> header_value) list \<Rightarrow> (utext \<times> header_value) list" where
  "request_headers isSSL host dialHost port incoming =
     (let kept = filter (\<lambda>(name, _). relayed name) incoming;
          no_host = (if isSSL then AList.delete (cps ''Host'') (AList.delete (cps ''host'') kept) else kept)
      in if dialHost \<noteq> host
         then AList.update (cps ''host'')
                (HOne (if port = (if isSSL then 443 else 80) then cps host else cps host @ cps '':'' @ digits_text port)) no_host
         else no_host)"

definition headersContainProbe :: "platform \<Rightarrow> (utext \<times> header_value) list \<Rightarrow> bool" where
  "headersContainProbe pf hs = list_ex (\<lambda>(name, v). case v of
     HOne s \<Rightarrow> headerValueCarriesPlaceholder pf name s
   | HMany ss \<Rightarrow> list_ex (headerValueCarriesPlaceholder pf name) ss
   | HUndefined \<Rightarrow> False) hs"

definition headerValue :: "(utext \<times> header_value) list \<Rightarrow> string \<Rightarrow> utext option" where
  "headerValue hs name = (case map_of hs (cps name) of
     Some (HOne v) \<Rightarrow> Some v
   | Some (HMany (v # _)) \<Rightarrow> Some v
   | _ \<Rightarrow> None)"

definition to_upper :: "nat \<Rightarrow> nat" where
  "to_upper c = (if 97 \<le> c \<and> c \<le> 122 then c - 32 else c)"

definition bodied_method :: "utext \<Rightarrow> bool" where
  "bodied_method method \<longleftrightarrow> map to_upper method \<in> set (map cps [''POST'', ''PUT'', ''PATCH''])"

definition word_char :: "nat \<Rightarrow> bool" where
  "word_char c \<longleftrightarrow> low_or_digit c \<or> is_upper c \<or> c = 95"

text \<open>\<open>/^\s*application\/json\b/i\<close>\<close>

definition json_type :: "utext \<Rightarrow> bool" where
  "json_type contentType =
     (let t = dropWhile is_ws contentType; rest = drop 16 t
      in Credentials.toLowerCase (take 16 t) = cps ''application/json'' \<and> (rest = [] \<or> \<not> word_char (hd rest)))"

definition isBodySubstitutionEligible :: "proxy_platform \<Rightarrow> utext \<Rightarrow> (utext \<times> header_value) list \<Rightarrow> bool" where
  "isBodySubstitutionEligible pp method hs =
     (if \<not> bodied_method method then False
      else (case headerValue hs ''content-type'' of
          None \<Rightarrow> False
        | Some contentType \<Rightarrow>
            if \<not> json_type contentType then False
            else if headerValue hs ''content-encoding'' \<notin> {None, Some []} then False
            else (case headerValue hs ''content-length'' of
                None \<Rightarrow> False
              | Some lenRaw \<Rightarrow> (case js_number pp lenRaw of
                  None \<Rightarrow> False
                | Some len \<Rightarrow> len \<le> MAX_BODY_SUBSTITUTION_BYTES))))"

definition mayCarryJsonRpc :: "utext \<Rightarrow> (utext \<times> header_value) list \<Rightarrow> bool" where
  "mayCarryJsonRpc method hs =
     (if \<not> bodied_method method then False
      else (case headerValue hs ''content-type'' of
          Some contentType \<Rightarrow> if contentType \<noteq> [] \<and> \<not> json_type contentType then False else True
        | None \<Rightarrow> True))"

section \<open>The body\<close>

datatype body_read = Too_large | Buffered bytes | Read_failed utext | Unsettled

fun readBodyCapped :: "nat \<Rightarrow> bytes \<Rightarrow> body_event list \<Rightarrow> body_read" where
  "readBodyCapped cap chunks [] = Unsettled"
| "readBodyCapped cap chunks (Body_data chunk # events) =
     (if cap < length chunks + length chunk then Too_large else readBodyCapped cap (chunks @ chunk) events)"
| "readBodyCapped cap chunks (Body_end # events) = Buffered chunks"
| "readBodyCapped cap chunks (Body_error e # events) = Read_failed e"

definition too_large_for_inspection :: "utext \<Rightarrow> utext" where
  "too_large_for_inspection name =
     cps ''Blocked by Hezo: this request to the '' @ QUOTE @ name @ QUOTE @ cps '' MCP server '' @
     cps ''exceeds the '' @ digits_text MAX_MCP_INSPECTION_BYTES @ cps ''-byte limit for method-allowlist inspection, '' @
     cps ''and that connector only exposes a subset of its server's methods.''"

definition too_large_for_substitution :: utext where
  "too_large_for_substitution = cps ''Request body exceeds the '' @ digits_text MAX_BODY_SUBSTITUTION_BYTES @
     cps ''-byte limit for body substitution.''"

text \<open>
  The buffered body of a request, nothing when it is streamed, or the answer that refuses it.
  An error of the stream rejects the read and is answered by \<open>onHandlerError\<close>.
\<close>

definition take_body ::
  "proxy_platform \<Rightarrow> bool \<Rightarrow> McpHostRestriction option \<Rightarrow> utext \<Rightarrow> (utext \<times> header_value) list \<Rightarrow> body_event list
     \<Rightarrow> outcome + bytes option" where
  "take_body pp bodyEligible r method hs events =
     (let inspectForMcp = (r \<noteq> None \<and> mayCarryJsonRpc method hs)
      in if bodyEligible \<or> inspectForMcp then
        (case readBodyCapped (if inspectForMcp then MAX_MCP_INSPECTION_BYTES else MAX_BODY_SUBSTITUTION_BYTES) [] events of
           Too_large \<Rightarrow>
             if inspectForMcp
             then Inl (Respond 403 ''mcp_method_not_enabled'' (too_large_for_inspection (connectorName (the r))))
             else Inl (Respond 413 ''body_too_large'' too_large_for_substitution)
         | Read_failed e \<Rightarrow> Inl (Respond 502 ''upstream_error'' e)
         | Unsettled \<Rightarrow> Inl Unanswered
         | Buffered bufferedBody \<Rightarrow>
             if inspectForMcp then
               (let verdict = shouldBlockMcpRequest (json_parse (codecs pp)) (buffer_to_text bufferedBody) (enabled (the r))
                in if verdict \<noteq> Not_blocked
                   then Inl (Respond 403 ''mcp_method_not_enabled'' (mcpMethodBlockedMessage verdict (connectorName (the r))))
                   else Inr (Some bufferedBody))
             else Inr (Some bufferedBody))
      else Inr None)"

section \<open>Refusals\<close>

fun join_text :: "utext \<Rightarrow> utext list \<Rightarrow> utext" where
  "join_text sep [] = []"
| "join_text sep [t] = t"
| "join_text sep (t # ts) = t @ sep @ join_text sep ts"

definition more_text :: "nat \<Rightarrow> utext" where
  "more_text n = (if 0 < n then cps '' and '' @ digits_text n @ cps '' more'' else [])"

definition describeBodyLocation :: "utext list \<Rightarrow> nat list \<Rightarrow> utext" where
  "describeBodyLocation bodyPaths byteOffsets =
     (if 0 < length bodyPaths then
        cps '' at '' @ join_text (cps '', '') (take 5 bodyPaths) @ more_text (length bodyPaths - length (take 5 bodyPaths))
      else if 0 < length byteOffsets then
        cps '' at byte offset '' @ join_text (cps '', '') (map digits_text (take 5 byteOffsets)) @
        more_text (length byteOffsets - length (take 5 byteOffsets)) @ cps '' (the body is not valid JSON)''
      else [])"

definition describeFailure :: "SubstitutionFailure \<Rightarrow> nat \<times> string \<times> utext" where
  "describeFailure failure = (case failure of
     Unknown_secret name \<Rightarrow> (400, ''unknown_secret'',
       cps ''No secret named '' @ name @ cps '' is available to this run.'')
   | Secret_not_allowed_for_host name host \<Rightarrow> (403, ''secret_not_allowed_for_host'',
       cps ''Secret '' @ name @ cps '' is not permitted for host '' @ host @ cps ''. '' @
       cps ''If this request should deliver that credential, an admin can add the host to the secret's allowed hosts. '' @
       cps ''If the placeholder is only quoted as text, describe the credential in words instead - do not add the host for that, or substitution would send the real value into this content.'')
   | Secret_not_allowed_in_body name bodyPaths byteOffsets \<Rightarrow> (403, ''secret_not_allowed_in_body'',
       cps ''A placeholder for secret '' @ name @ cps '' appears in this JSON request body'' @ describeBodyLocation bodyPaths byteOffsets @
       cps '', and no other part of this request carries that credential. '' @
       cps ''Hezo substitutes secrets into headers and the URL, never into a body unless an admin has enabled body substitution on that credential. '' @
       cps ''Send the credential in a header, or ask an admin to enable body substitution. '' @
       cps ''A placeholder quoted as literal text is forwarded unchanged only when the same credential is already delivered in a header or the URL.'')
   | Secrets_unavailable \<Rightarrow> (503, ''secrets_unavailable'', cps ''Secrets store is locked.''))"

text \<open>A refusal is reported once per connector, kind and credential shape, until the next reset.\<close>

definition rejection_key :: "ConnectorRunRejection \<Rightarrow> nat \<times> rejection_kind \<times> bool" where
  "rejection_key rej = (conn_id (rej_connector rej), rej_kind rej, credentialSent rej)"

definition reportRejection :: "RunProxyConfig \<Rightarrow> ConnectorRunRejection \<Rightarrow> proxy_state \<Rightarrow> proxy_state" where
  "reportRejection cfg rej st =
     (if \<not> onConnectorRejection cfg \<or> closed st then st
      else if rejection_key rej \<in> reportedRejections st then st
      else st\<lparr>reportedRejections := insert (rejection_key rej) (reportedRejections st), reports := reports st @ [rej]\<rparr>)"

definition report_substitution ::
  "RunProxyConfig \<Rightarrow> McpHostConnector option \<Rightarrow> string \<Rightarrow> utext \<Rightarrow> bool \<Rightarrow> proxy_state \<Rightarrow> proxy_state" where
  "report_substitution cfg connector reason detail sent st = (case connector of
     None \<Rightarrow> st
   | Some c \<Rightarrow> reportRejection cfg \<lparr>rej_connector = c, rej_kind = Substitution_failed, rej_status = 0, rej_reason = cps reason,
       rej_detail = Some detail, credentialSent = sent\<rparr> st)"

text \<open>The observer of a request aimed at a connector, when the upstream answers and when it never does.\<close>

definition onResponse :: "RunProxyConfig \<Rightarrow> McpHostConnector \<times> bool \<Rightarrow> nat \<Rightarrow> proxy_state \<Rightarrow> proxy_state" where
  "onResponse cfg obs status st = (case obs of (connector, sent) \<Rightarrow>
     if status \<noteq> 401 \<and> status \<noteq> 403 then st
     else reportRejection cfg \<lparr>rej_connector = connector, rej_kind = Upstream_rejected, rej_status = status,
       rej_reason = cps ''http_'' @ digits_text status, rej_detail = None, credentialSent = sent\<rparr> st)"

definition onUnreachable ::
  "RunProxyConfig \<Rightarrow> McpHostConnector \<times> bool \<Rightarrow> utext option \<Rightarrow> utext \<Rightarrow> proxy_state \<Rightarrow> proxy_state" where
  "onUnreachable cfg obs code msg st = (case obs of (connector, sent) \<Rightarrow>
     reportRejection cfg \<lparr>rej_connector = connector, rej_kind = Upstream_unreachable, rej_status = 0,
       rej_reason = (case code of Some c \<Rightarrow> c | None \<Rightarrow> msg), rej_detail = Some msg, credentialSent = sent\<rparr> st)"

definition resetConnectorRejections :: "proxy_state \<Rightarrow> proxy_state" where
  "resetConnectorRejections st = st\<lparr>reportedRejections := {}\<rparr>"

definition close_proxy :: "proxy_state \<Rightarrow> proxy_state" where
  "close_proxy st = st\<lparr>closed := True\<rparr>"

section \<open>Forwarding\<close>

definition pipeUpstream :: "Upstream \<Rightarrow> body_event list \<Rightarrow> outcome" where
  "pipeUpstream u events = Forwarded (u\<lparr>up_body := Piped events\<rparr>)"

definition forwardBuffered :: "Upstream \<Rightarrow> bytes \<Rightarrow> outcome" where
  "forwardBuffered u body = Forwarded (u\<lparr>up_body := Fixed body,
     up_headers := AList.delete (cps ''transfer-encoding'')
       (AList.update (cps ''content-length'') (HOne (digits_text (length body))) (up_headers u))\<rparr>)"

definition send_upstream :: "Upstream \<Rightarrow> bytes option \<Rightarrow> body_event list \<Rightarrow> outcome" where
  "send_upstream u bufferedBody events = (case bufferedBody of
     Some body \<Rightarrow> forwardBuffered u body
   | None \<Rightarrow> pipeUpstream u events)"

definition request_url :: "bool \<Rightarrow> TargetAddress \<Rightarrow> utext" where
  "request_url isSSL t = (if isSSL then cps ''https'' else cps ''http'') @ cps ''://'' @ cps (target_host t) @ target_path t"

definition upstream_path :: "proxy_platform \<Rightarrow> utext \<Rightarrow> SubstitutionResult \<Rightarrow> utext" where
  "upstream_path pp path result =
     (if urlChanged result
      then (case new_URL pp (res_url result) of Some u \<Rightarrow> pathname u @ search u | None \<Rightarrow> path)
      else path)"

text \<open>The request sent once the body has been taken: with the placeholders rewritten, or as it is.\<close>

definition deliver ::
  "proxy_platform \<Rightarrow> RunProxyConfig \<Rightarrow> vault_load \<Rightarrow> TargetAddress \<Rightarrow> McpHostConnector option \<Rightarrow> bool \<Rightarrow> bytes option
     \<Rightarrow> body_event list \<Rightarrow> Upstream \<Rightarrow> proxy_state \<Rightarrow> outcome \<times> proxy_state" where
  "deliver pp cfg load t connector probeInUrlOrHeaders bufferedBody events u st =
     (let probeInBody = (case bufferedBody of Some b \<Rightarrow> contains_text (buffer_to_text b) PLACEHOLDER_PROBE | None \<Rightarrow> False)
      in if probeInUrlOrHeaders \<or> probeInBody then
        (case load of
           MasterKeyLocked \<Rightarrow> (Respond 503 ''secrets_unavailable'' (cps ''Master key is locked.''),
             report_substitution cfg connector ''secrets_unavailable'' (cps ''Master key is locked.'') True st)
         | Load_error e \<Rightarrow> (Respond 502 ''upstream_error'' e, st)
         | Loaded secrets \<Rightarrow>
             let result = substituteRequest (codecs pp) \<lparr>req_url = request_url (up_ssl u) t, req_headers = up_headers u,
                   req_method = up_method u, req_host = cps (target_host t), req_body = map_option buffer_to_text bufferedBody\<rparr> secrets
             in case res_failure result of
                  Some failure \<Rightarrow> (case describeFailure failure of (status, code, msg) \<Rightarrow>
                    (Respond status code msg,
                     report_substitution cfg connector code msg (probeInUrlOrHeaders \<or> probeInBody) st))
                | None \<Rightarrow>
                    let hs = (if headersChanged result
                           then fold (\<lambda>(name, v) hs. AList.update name v hs) (res_headers result) (up_headers u) else up_headers u);
                        outBody = (case bufferedBody of
                            None \<Rightarrow> None
                          | Some b \<Rightarrow> (case res_body result of
                              Some s \<Rightarrow> Some (if bodyChanged result then utf8_encode s else b)
                            | None \<Rightarrow> Some b))
                    in (send_upstream (u\<lparr>up_headers := hs, up_path := upstream_path pp (target_path t) result\<rparr>) outBody events, st))
      else (send_upstream u bufferedBody events, st))"

definition forward ::
  "proxy_platform \<Rightarrow> RunProxyConfig \<Rightarrow> vault_load \<Rightarrow> leg \<Rightarrow> IncomingMessage \<Rightarrow> proxy_state \<Rightarrow> outcome \<times> proxy_state" where
  "forward pp cfg load l req st =
     (let isSSL = (l \<noteq> Plain);
          t = resolveTarget pp l req
      in case check_target pp cfg t of
        Inl refusal \<Rightarrow> (refusal, st)
      | Inr dialHost \<Rightarrow>
          let hs = request_headers isSSL (target_host t) dialHost (target_port t) (in_headers req);
              probeInUrlOrHeaders = (contains_text (target_path t) PLACEHOLDER_PROBE \<or> headersContainProbe (codecs pp) hs);
              bodyEligible = isBodySubstitutionEligible pp (in_method req) hs;
              binding = map_of (mcpBindings cfg) (mcpRestrictionKey (target_host t) (target_port t));
              connector = Option.bind binding (\<lambda>b. connectorForPath b (target_path t));
              u = \<lparr>up_ssl = isSSL, up_host = target_host t, up_dial = dialHost, up_port = target_port t, up_method = in_method req,
                   up_path = target_path t, up_headers = hs, up_body = Piped [], up_logPath = target_path t,
                   up_observer = map_option (\<lambda>c. (c, probeInUrlOrHeaders)) connector\<rparr>
          in case take_body pp bodyEligible (Option.bind binding restriction) (in_method req) hs (in_body req) of
               Inl refusal \<Rightarrow> (refusal, st)
             | Inr bufferedBody \<Rightarrow> deliver pp cfg load t connector probeInUrlOrHeaders bufferedBody (in_body req) u st)"

text \<open>The front server's handler of a plain request.\<close>

definition onRequest ::
  "proxy_platform \<Rightarrow> RunProxyConfig \<Rightarrow> vault_load \<Rightarrow> IncomingMessage \<Rightarrow> proxy_state \<Rightarrow> outcome \<times> proxy_state" where
  "onRequest pp cfg load req st =
     (if \<not> isAuthorized (codecs pp) (token cfg) (header_one (in_headers req) ''proxy-authorization'')
      then (Respond 407 ''proxy_auth_required'' (cps ''Missing or invalid per-run egress proxy credentials.''), st)
      else forward pp cfg load Plain req st)"
section \<open>What a forwarded request went through\<close>

lemma read_prefix: "readBodyCapped cap chunks events = Buffered b \<Longrightarrow> length chunks \<le> cap \<Longrightarrow>
   \<exists>ds rest. events = map Body_data ds @ Body_end # rest \<and> b = chunks @ concat ds \<and> length b \<le> cap"
proof (induction cap chunks events rule: readBodyCapped.induct)
  case (2 cap chunks chunk events)
  then have "readBodyCapped cap (chunks @ chunk) events = Buffered b" "length (chunks @ chunk) \<le> cap" by (auto split: if_splits)
  then obtain ds rest where "events = map Body_data ds @ Body_end # rest" "b = (chunks @ chunk) @ concat ds" "length b \<le> cap"
    using 2 by (auto split: if_splits)
  then show ?case by (intro exI [of _ "chunk # ds"] exI [of _ rest]) auto
next
  case (3 cap chunks events)
  then show ?case by (intro exI [of _ "[]"] exI [of _ events]) auto
qed auto

text \<open>The parts of a forwarded request, read off the handler.\<close>

definition binding_at :: "RunProxyConfig \<Rightarrow> TargetAddress \<Rightarrow> McpHostBinding option" where
  "binding_at cfg t = map_of (mcpBindings cfg) (mcpRestrictionKey (target_host t) (target_port t))"

definition connector_at :: "RunProxyConfig \<Rightarrow> TargetAddress \<Rightarrow> McpHostConnector option" where
  "connector_at cfg t = Option.bind (binding_at cfg t) (\<lambda>b. connectorForPath b (target_path t))"

definition restriction_at :: "RunProxyConfig \<Rightarrow> TargetAddress \<Rightarrow> McpHostRestriction option" where
  "restriction_at cfg t = Option.bind (binding_at cfg t) restriction"

definition prepared :: "proxy_platform \<Rightarrow> RunProxyConfig \<Rightarrow> leg \<Rightarrow> IncomingMessage \<Rightarrow> string \<Rightarrow> Upstream" where
  "prepared pp cfg l req dialHost =
     (let t = resolveTarget pp l req;
          hs = request_headers (l \<noteq> Plain) (target_host t) dialHost (target_port t) (in_headers req);
          probe = (contains_text (target_path t) PLACEHOLDER_PROBE \<or> headersContainProbe (codecs pp) hs)
      in \<lparr>up_ssl = (l \<noteq> Plain), up_host = target_host t, up_dial = dialHost, up_port = target_port t, up_method = in_method req,
          up_path = target_path t, up_headers = hs, up_body = Piped [], up_logPath = target_path t,
          up_observer = map_option (\<lambda>c. (c, probe)) (connector_at cfg t)\<rparr>)"

definition probe_seen :: "proxy_platform \<Rightarrow> Upstream \<Rightarrow> bool" where
  "probe_seen pp u \<longleftrightarrow> contains_text (up_path u) PLACEHOLDER_PROBE \<or> headersContainProbe (codecs pp) (up_headers u)"

lemma forward_stages:
  "forward pp cfg load l req st =
     (let t = resolveTarget pp l req
      in case check_target pp cfg t of
        Inl refusal \<Rightarrow> (refusal, st)
      | Inr dialHost \<Rightarrow>
          let u = prepared pp cfg l req dialHost
          in case take_body pp (isBodySubstitutionEligible pp (in_method req) (up_headers u)) (restriction_at cfg t)
                 (in_method req) (up_headers u) (in_body req) of
               Inl refusal \<Rightarrow> (refusal, st)
             | Inr body \<Rightarrow> deliver pp cfg load t (connector_at cfg t) (probe_seen pp u) body (in_body req) u st)"
  by (simp add: forward_def prepared_def probe_seen_def Let_def connector_at_def restriction_at_def binding_at_def
      split: sum.split)

lemma refusal_not_forwarded: "check_target pp cfg t = Inl r \<Longrightarrow> r \<noteq> Forwarded u"
  "take_body pp e res m hs ev = Inl r \<Longrightarrow> r \<noteq> Forwarded u"
  by (auto simp: check_target_def take_body_def Let_def split: if_splits sum.splits guard_error.splits body_read.splits)

lemma forwardedE:
  assumes "forward pp cfg load l req st = (Forwarded u, st')"
  obtains dialHost body where "check_target pp cfg (resolveTarget pp l req) = Inr dialHost"
    "take_body pp (isBodySubstitutionEligible pp (in_method req) (up_headers (prepared pp cfg l req dialHost)))
       (restriction_at cfg (resolveTarget pp l req)) (in_method req) (up_headers (prepared pp cfg l req dialHost)) (in_body req) = Inr body"
    "deliver pp cfg load (resolveTarget pp l req) (connector_at cfg (resolveTarget pp l req)) (probe_seen pp (prepared pp cfg l req dialHost))
       body (in_body req) (prepared pp cfg l req dialHost) st = (Forwarded u, st')"
  using assms refusal_not_forwarded unfolding forward_stages Let_def
  by (auto split: sum.splits)

text \<open>What \<open>deliver\<close> sends, by whether a placeholder was seen.\<close>

definition seen_in_body :: "bytes option \<Rightarrow> bool" where
  "seen_in_body body = (case body of Some b \<Rightarrow> contains_text (buffer_to_text b) PLACEHOLDER_PROBE | None \<Rightarrow> False)"

definition substituted :: "proxy_platform \<Rightarrow> TargetAddress \<Rightarrow> Upstream \<Rightarrow> bytes option \<Rightarrow> vault \<Rightarrow> SubstitutionResult" where
  "substituted pp t u body secrets =
     substituteRequest (codecs pp) \<lparr>req_url = request_url (up_ssl u) t, req_headers = up_headers u,
       req_method = up_method u, req_host = cps (target_host t), req_body = map_option buffer_to_text body\<rparr> secrets"

definition rewritten_headers :: "SubstitutionResult \<Rightarrow> (utext \<times> header_value) list \<Rightarrow> (utext \<times> header_value) list" where
  "rewritten_headers result hs =
     (if headersChanged result then fold (\<lambda>(name, v) hs. AList.update name v hs) (res_headers result) hs else hs)"

definition rewritten_body :: "SubstitutionResult \<Rightarrow> bytes option \<Rightarrow> bytes option" where
  "rewritten_body result body = (case body of
     None \<Rightarrow> None
   | Some b \<Rightarrow> (case res_body result of Some s \<Rightarrow> Some (if bodyChanged result then utf8_encode s else b) | None \<Rightarrow> Some b))"

lemma send_forwards: "\<exists>u'. send_upstream u body events = Forwarded u'"
  by (simp add: send_upstream_def forwardBuffered_def pipeUpstream_def split: option.split)

lemma deliver_cases:
  assumes "deliver pp cfg load t connector probe body events u st = (Forwarded v, st')"
  obtains "\<not> probe" "\<not> seen_in_body body" "send_upstream u body events = Forwarded v" "st' = st"
  | secrets where "probe \<or> seen_in_body body" "load = Loaded secrets" "res_failure (substituted pp t u body secrets) = None"
    "send_upstream (u\<lparr>up_headers := rewritten_headers (substituted pp t u body secrets) (up_headers u),
        up_path := upstream_path pp (target_path t) (substituted pp t u body secrets)\<rparr>)
      (rewritten_body (substituted pp t u body secrets) body) events = Forwarded v" "st' = st"
proof (cases "probe \<or> seen_in_body body")
  case False
  then show ?thesis using assms that(1) by (auto simp: deliver_def seen_in_body_def [symmetric])
next
  case True
  note d = assms [unfolded deliver_def Let_def, folded seen_in_body_def substituted_def rewritten_headers_def rewritten_body_def]
  obtain secrets where l: "load = Loaded secrets" using d True by (cases load) auto
  then have "res_failure (substituted pp t u body secrets) = None" using d True by (auto split: option.splits prod.splits)
  then show ?thesis using d True l that(2) [of secrets] by auto
qed
section \<open>Properties of the handler\<close>

lemma sent_body:
  "send_upstream u body events = Forwarded v \<Longrightarrow> up_body v = (case body of Some b \<Rightarrow> Fixed b | None \<Rightarrow> Piped events)"
  "send_upstream u body events = Forwarded v \<Longrightarrow> up_dial v = up_dial u \<and> up_host v = up_host u \<and> up_port v = up_port u
     \<and> up_ssl v = up_ssl u \<and> up_method v = up_method u \<and> up_path v = up_path u"
  by (auto simp: send_upstream_def forwardBuffered_def pipeUpstream_def split: option.splits)

lemma inspected_body:
  assumes "take_body pp e (Some r) method hs events = Inr body" "mayCarryJsonRpc method hs"
  obtains b where "body = Some b" "shouldBlockMcpRequest (json_parse (codecs pp)) (buffer_to_text b) (enabled r) = Not_blocked"
    "\<exists>ds rest. events = map Body_data ds @ Body_end # rest \<and> b = concat ds" "length b \<le> MAX_MCP_INSPECTION_BYTES"
proof -
  obtain b where b: "readBodyCapped MAX_MCP_INSPECTION_BYTES [] events = Buffered b" "body = Some b"
    "shouldBlockMcpRequest (json_parse (codecs pp)) (buffer_to_text b) (enabled r) = Not_blocked"
    using assms by (auto simp: take_body_def Let_def split: body_read.splits if_splits)
  from read_prefix [OF b(1)] that [OF b(2,3)] show ?thesis by auto
qed

text \<open>
  (C3) The method allowlist holds at the proxy, whatever the run sent: a request to a restricted host that the
  proxy inspects and forwards has a body of at most the inspection cap that was received completely and parsed, every
  \<open>tools/call\<close> in it names an enabled method, and the body sent is that one or its rewriting by
  substitution, never an unread stream.
\<close>

theorem allowlist_enforced:
  assumes "forward pp cfg load l req st = (Forwarded u, st')"
    "restriction_at cfg (resolveTarget pp l req) = Some r"
    "mayCarryJsonRpc (in_method req) (up_headers (prepared pp cfg l req (up_dial u)))"
  shows "\<exists>ds rest parsed. in_body req = map Body_data ds @ Body_end # rest \<and> length (concat ds) \<le> MAX_MCP_INSPECTION_BYTES
    \<and> json_parse (codecs pp) (buffer_to_text (concat ds)) = Some parsed
    \<and> (\<forall>m \<in> set (messages_of parsed). is_call m \<longrightarrow> (\<exists>n \<in> enabled r. called m = Some n))
    \<and> (up_body u = Fixed (concat ds) \<or> (\<exists>secrets s. load = Loaded secrets \<and> up_body u = Fixed (utf8_encode s)
         \<and> res_body (substituted pp (resolveTarget pp l req) (prepared pp cfg l req (up_dial u)) (Some (concat ds)) secrets) = Some s))"
proof -
  obtain dialHost body where f:
    "take_body pp (isBodySubstitutionEligible pp (in_method req) (up_headers (prepared pp cfg l req dialHost)))
       (Some r) (in_method req) (up_headers (prepared pp cfg l req dialHost)) (in_body req) = Inr body"
    "deliver pp cfg load (resolveTarget pp l req) (connector_at cfg (resolveTarget pp l req)) (probe_seen pp (prepared pp cfg l req dialHost))
       body (in_body req) (prepared pp cfg l req dialHost) st = (Forwarded u, st')"
    using forwardedE [OF assms(1)] assms(2) by metis
  have dial: "up_dial u = dialHost" using f(2) by (rule deliver_cases) (auto dest!: sent_body(2) simp: prepared_def Let_def)
  obtain b where b: "body = Some b" "shouldBlockMcpRequest (json_parse (codecs pp)) (buffer_to_text b) (enabled r) = Not_blocked"
    "\<exists>ds rest. in_body req = map Body_data ds @ Body_end # rest \<and> b = concat ds" "length b \<le> MAX_MCP_INSPECTION_BYTES"
    using inspected_body [OF f(1)] assms(3) dial by metis
  from b(2) obtain parsed where p: "json_parse (codecs pp) (buffer_to_text b) = Some parsed"
    "\<forall>m \<in> set (messages_of parsed). is_call m \<longrightarrow> (\<exists>n \<in> enabled r. called m = Some n)"
    by (auto simp: guard_exact)
  have "up_body u = Fixed b \<or> (\<exists>secrets s. load = Loaded secrets \<and> up_body u = Fixed (utf8_encode s)
         \<and> res_body (substituted pp (resolveTarget pp l req) (prepared pp cfg l req dialHost) (Some b) secrets) = Some s)"
    using f(2) by (rule deliver_cases) (auto simp: b(1) rewritten_body_def dest!: sent_body(1) split: option.splits if_splits)
  then show ?thesis using b(3,4) p dial by blast
qed

text \<open>
  (C36) What the proxy dials: unless the deployment allows private targets, a forwarded request other than one to the server's own endpoint is
  dialled by the address that was checked, never by name. It is the host itself when that is an address literal and otherwise the one address
  the name service gave for it; it lies in none of the blocked blocks, read off its bits; and the request still names the host it
  was addressed to. Of the name service only this is assumed, that it answers with addresses.
\<close>

theorem forwarded_address_guarded:
  assumes "forward pp cfg load l req st = (Forwarded u, st')" "\<not> allowPrivateTargets cfg"
    "\<not> isSelfEndpoint (up_host u) (up_port u) (selfEndpoint cfg)"
    and dns: "\<And>name address. dnsLookup pp name = Some address \<Longrightarrow> isIP address \<noteq> 0"
  shows "isIP (up_dial u) \<noteq> 0
    \<and> (if isIP (bare (up_host u)) \<noteq> 0 then up_dial u = bare (up_host u) else dnsLookup pp (bare (up_host u)) = Some (up_dial u))
    \<and> \<not> (if isIPv4 (up_dial u) then in_blocks 32 BLOCKED_V4 (radix 256 (inet4 (up_dial u)))
         else in_blocks 128 BLOCKED_V6 (radix 65536 (the (inet6 (hd (split_char CHR 0x25 (up_dial u)))))))
    \<and> \<not> isBlockedEgressHost (up_host u) \<and> up_host u = target_host (resolveTarget pp l req)"
proof -
  obtain dialHost body where c: "check_target pp cfg (resolveTarget pp l req) = Inr dialHost" and
    d: "deliver pp cfg load (resolveTarget pp l req) (connector_at cfg (resolveTarget pp l req)) (probe_seen pp (prepared pp cfg l req dialHost))
       body (in_body req) (prepared pp cfg l req dialHost) st = (Forwarded u, st')"
    using forwardedE [OF assms(1)] by metis
  have u: "up_dial u = dialHost \<and> up_host u = target_host (resolveTarget pp l req) \<and> up_port u = target_port (resolveTarget pp l req)"
    using d by (rule deliver_cases) (auto dest!: sent_body(2) simp: prepared_def Let_def)
  moreover have guarded: "resolveGuardedAddress (dnsLookup pp) isBlockedEgressAddress (up_host u) = Inr (up_dial u)" "\<not> isBlockedEgressHost (up_host u)"
    using c u assms(2,3) by (auto simp: check_target_def Let_def split: if_splits sum.splits guard_error.splits)
  moreover have "isIP (up_dial u) \<noteq> 0" "\<not> isBlockedEgressAddress (up_dial u)"
    "if isIP (bare (up_host u)) \<noteq> 0 then up_dial u = bare (up_host u) else dnsLookup pp (bare (up_host u)) = Some (up_dial u)"
    using guarded(1) dns by (auto simp: resolveGuardedAddress_def split: if_splits option.splits)
  ultimately show ?thesis using blocked_iff [of "up_dial u"] by simp
qed

section \<open>Secrets through the whole handler\<close>

text \<open>
  (C2) Secrets are confined through the whole handler: what the proxy answers, what it sends upstream and what it
  reports are the same for two vaults with the same policy that agree on the secrets permitted for the
  target's host.
\<close>

theorem handler_confines_secrets:
  assumes "same_policy V W" "\<forall>n. permitted V (cps (target_host (resolveTarget pp l req))) n \<longrightarrow> V n = W n"
  shows "forward pp cfg (Loaded V) l req st = forward pp cfg (Loaded W) l req st"
proof -
  have "substituted pp (resolveTarget pp l req) u body V = substituted pp (resolveTarget pp l req) u body W" for u body
    using substitution_confined [OF assms(1)] assms(2) by (simp add: substituted_def)
  then have "deliver pp cfg (Loaded V) (resolveTarget pp l req) c p body ev u st
      = deliver pp cfg (Loaded W) (resolveTarget pp l req) c p body ev u st" for c p body ev u
    by (simp add: deliver_def Let_def substituted_def)
  then show ?thesis unfolding forward_stages Let_def by (simp only:)
qed

text \<open>
  (Lemma) Without an open vault nothing that mentions a placeholder leaves: when the secrets cannot be
  loaded, a forwarded request has no placeholder probe in its path, its headers or a buffered body, Basic
  credentials decoded, and its path and body are the ones received.
\<close>

theorem locked_vault_sends_no_placeholder:
  assumes "forward pp cfg load l req st = (Forwarded u, st')" "\<And>secrets. load \<noteq> Loaded secrets"
  shows "up_path u = target_path (resolveTarget pp l req) \<and> \<not> contains_text (up_path u) PLACEHOLDER_PROBE
    \<and> \<not> headersContainProbe (codecs pp) (up_headers (prepared pp cfg l req (up_dial u)))
    \<and> (\<forall>b. up_body u = Fixed b \<longrightarrow> \<not> contains_text (buffer_to_text b) PLACEHOLDER_PROBE) \<and> st' = st"
proof -
  obtain dialHost body where
    d: "deliver pp cfg load (resolveTarget pp l req) (connector_at cfg (resolveTarget pp l req)) (probe_seen pp (prepared pp cfg l req dialHost))
       body (in_body req) (prepared pp cfg l req dialHost) st = (Forwarded u, st')"
    using forwardedE [OF assms(1)] by metis
  have p: "\<not> probe_seen pp (prepared pp cfg l req dialHost)" "\<not> seen_in_body body"
    "send_upstream (prepared pp cfg l req dialHost) body (in_body req) = Forwarded u" "st' = st"
    using deliver_cases [OF d] assms(2) by metis+
  have "up_path u = up_path (prepared pp cfg l req dialHost)" "up_dial u = dialHost"
    using sent_body(2) [OF p(3)] by (auto simp: prepared_def Let_def)
  moreover have "\<forall>b. up_body u = Fixed b \<longrightarrow> body = Some b" using sent_body(1) [OF p(3)] by (auto split: option.splits)
  ultimately show ?thesis using p(1,2,4) by (auto simp: probe_seen_def seen_in_body_def prepared_def Let_def)
qed

section \<open>Headers that stay on the first hop\<close>

lemma rewritten_header_names: "map fst (fst (apply_headers pf secrets host hs st)) = map fst (filter (\<lambda>(_, v). v \<noteq> HUndefined) hs)"
proof (induction hs arbitrary: st)
  case (Cons h hs)
  obtain name v where h: "h = (name, v)" by (cases h)
  obtain c u f where st: "st = (c, u, f)" by (metis prod_cases3)
  have rest: "map fst out = map fst (filter (\<lambda>(_, v). v \<noteq> HUndefined) hs)" if "apply_headers pf secrets host hs s = (out, s')" for out s s'
    using Cons [of s] that by simp
  show ?case unfolding h st by (cases v) (auto simp: Cons dest: rest split: prod.splits)
qed simp

lemma res_header_names: "fst ` set (res_headers (substituteRequest pf input secrets)) \<subseteq> fst ` set (req_headers input)"
proof -
  obtain hs c u f where h: "apply_headers pf secrets (req_host input) (req_headers input) (False, {}, None) = (hs, c, u, f)"
    by (metis prod_cases4)
  then have "res_headers (substituteRequest pf input secrets) = hs"
    by (simp add: substituteRequest_def Let_def split: prod.splits option.splits)
  moreover have "map fst hs = map fst (filter (\<lambda>(_, v). v \<noteq> HUndefined) (req_headers input))"
    using rewritten_header_names [of "codecs_of" secrets "req_host input" "req_headers input" "(False, {}, None)" for codecs_of] h
    by (metis fst_conv rewritten_header_names)
  then have "fst ` set hs = fst ` set (filter (\<lambda>(_, v). v \<noteq> HUndefined) (req_headers input))" by (metis set_map)
  ultimately show ?thesis by auto
qed

lemma updated_names: "fst ` set (fold (\<lambda>(name, v) hs. AList.update name v hs) new hs) = fst ` set hs \<union> fst ` set new"
proof (induction new arbitrary: hs)
  case (Cons h new)
  obtain name v where h: "h = (name, v)" by (cases h)
  show ?case unfolding h using Cons [of "AList.update name v hs"] by (simp add: dom_update)
qed simp

lemma rewritten_names: "fst ` set (rewritten_headers (substituted pp t u body secrets) (up_headers u)) \<subseteq> fst ` set (up_headers u)"
proof -
  have "fst ` set (res_headers (substituted pp t u body secrets)) \<subseteq> fst ` set (up_headers u)"
    using res_header_names [of "codecs pp" "\<lparr>req_url = request_url (up_ssl u) t, req_headers = up_headers u,
       req_method = up_method u, req_host = cps (target_host t), req_body = map_option buffer_to_text body\<rparr>" secrets]
    by (simp add: substituted_def)
  then show ?thesis by (auto simp only: rewritten_headers_def updated_names split: if_splits)
qed

lemma delete_names: "fst ` set (AList.delete k hs) = fst ` set hs - {k}"
  by (auto simp: AList.delete_eq)

lemma sent_names: "send_upstream u body events = Forwarded v \<Longrightarrow> fst ` set (up_headers v) \<subseteq> insert (cps ''content-length'') (fst ` set (up_headers u))"
proof (cases body)
  case (Some b)
  moreover assume "send_upstream u body events = Forwarded v"
  ultimately have "up_headers v = AList.delete (cps ''transfer-encoding'')
      (AList.update (cps ''content-length'') (HOne (digits_text (length b))) (up_headers u))"
    by (auto simp: send_upstream_def forwardBuffered_def)
  then show ?thesis by (simp only: delete_names dom_update) blast
qed (auto simp: send_upstream_def pipeUpstream_def)

lemma prepared_names: "fst ` set (up_headers (prepared pp cfg l req dial)) \<subseteq> insert (cps ''host'') (Collect relayed)"
proof -
  have "fst ` set (filter (\<lambda>(name, _). relayed name) hs) \<subseteq> Collect relayed" for hs :: "(utext \<times> header_value) list" by auto
  then show ?thesis
    by (auto simp only: prepared_def Let_def Upstream.simps request_headers_def dom_update delete_names split: if_splits)
qed

lemma relayed_examples: "relayed (cps ''host'')" "relayed (cps ''content-length'')"
  by (simp_all add: relayed_def HOP_BY_HOP_HEADERS_def startsWith_def Credentials.toLowerCase_def lower_cp_def cps_def)

text \<open>
  (Lemma) What describes the hop from the agent to the proxy stays there: no forwarded request carries a
  \<open>proxy-*\<close> header, the run's token among them, or a connection-management header, whatever case it was sent in.
\<close>

theorem hop_headers_not_relayed:
  assumes "forward pp cfg load l req st = (Forwarded u, st')" "(name, v) \<in> set (up_headers u)"
  shows "\<not> startsWith (Credentials.toLowerCase name) (cps ''proxy-'') \<and> Credentials.toLowerCase name \<notin> set HOP_BY_HOP_HEADERS"
proof -
  obtain dialHost body where
    d: "deliver pp cfg load (resolveTarget pp l req) (connector_at cfg (resolveTarget pp l req)) (probe_seen pp (prepared pp cfg l req dialHost))
       body (in_body req) (prepared pp cfg l req dialHost) st = (Forwarded u, st')"
    using forwardedE [OF assms(1)] by metis
  have "fst ` set (up_headers u) \<subseteq> insert (cps ''content-length'') (fst ` set (up_headers (prepared pp cfg l req dialHost)))"
    using d
  proof (rule deliver_cases)
    assume "send_upstream (prepared pp cfg l req dialHost) body (in_body req) = Forwarded u"
    then show ?thesis by (rule sent_names)
  next
    fix secrets
    let ?u = "prepared pp cfg l req dialHost"
    let ?r = "substituted pp (resolveTarget pp l req) ?u body secrets"
    assume "send_upstream (?u\<lparr>up_headers := rewritten_headers ?r (up_headers ?u),
        up_path := upstream_path pp (target_path (resolveTarget pp l req)) ?r\<rparr>) (rewritten_body ?r body) (in_body req) = Forwarded u"
    from sent_names [OF this]
    have "fst ` set (up_headers u) \<subseteq> insert (cps ''content-length'') (fst ` set (rewritten_headers ?r (up_headers ?u)))" by simp
    then show ?thesis using rewritten_names [of pp "resolveTarget pp l req" ?u body secrets] by blast
  qed
  moreover have "name \<in> fst ` set (up_headers u)" using assms(2) by force
  ultimately have "name \<in> insert (cps ''content-length'') (insert (cps ''host'') (Collect relayed))"
    using prepared_names [of pp cfg l req dialHost] by blast
  then have "relayed name" using relayed_examples by auto
  then show ?thesis by (simp add: relayed_def)
qed

section \<open>The token\<close>

lemma hex_digit_cp: "n < 16 \<Longrightarrow> hex_digit (hex_cp n) = Some n"
  by (auto simp: hex_digit_def hex_cp_def)

lemma unat_byte_less: "unat (b :: byte) < 256"
proof -
  have "unat b < 2 ^ LENGTH(8)" by (rule unsigned_less)
  then show ?thesis by simp
qed

lemma half_byte: "(of_nat (16 * (unat b div 16) + unat b mod 16) :: byte) = b"
  by (simp only: mult_div_mod_eq) simp

lemma from_to_hex: "from_hex (to_hex bs) = bs"
proof (induction bs)
  case (Cons b bs)
  have "unat b < 256" using unat_byte_less [of b] by simp
  then have "hex_digit (hex_cp (unat b div 16)) = Some (unat b div 16)" "hex_digit (hex_cp (unat b mod 16)) = Some (unat b mod 16)"
    by (auto intro: hex_digit_cp)
  moreover have "(of_nat (16 * (unat b div 16) + unat b mod 16) :: byte) = b" by (rule half_byte)
  ultimately have "from_hex (hex_cp (unat b div 16) # hex_cp (unat b mod 16) # to_hex bs) = b # bs"
    by (simp only: from_hex.simps prod.case option.case Cons)
  then show ?case by (simp add: to_hex_def)
qed (simp add: to_hex_def)

lemma utf8_ascii: "list_all (\<lambda>c. c < 128) t \<Longrightarrow> utf8_encode t = ascii_bytes (map char_of t) \<and> cps (map char_of t) = t"
  by (induction t) (auto simp: utf8_encode_def ascii_bytes_def cps_def utf8_cp_def)

lemma buffer_ascii: "list_all (\<lambda>c. c < 128) t \<Longrightarrow> buffer_to_text (utf8_encode t) = t"
proof -
  assume t: "list_all (\<lambda>c. c < 128) t"
  have "decode_stream (new_TextDecoder\<lparr>bom_seen := True\<rparr>) (ascii_bytes (map char_of t)) = (new_TextDecoder\<lparr>bom_seen := True\<rparr>, cps (map char_of t))"
    by (rule decode_stream_ascii_seen) (use t in \<open>auto simp: new_TextDecoder_def list_all_iff\<close>)
  then show ?thesis using utf8_ascii [OF t] by (simp add: buffer_to_text_def decode_end_def new_TextDecoder_def)
qed

lemma hex_chars: "c \<in> set (to_hex bs) \<Longrightarrow> c < 128 \<and> c \<noteq> 58"
proof -
  assume "c \<in> set (to_hex bs)"
  then obtain b :: byte where "c = hex_cp (unat b div 16) \<or> c = hex_cp (unat b mod 16)" by (auto simp: to_hex_def)
  moreover have "unat b div 16 < 16" "unat b mod 16 < 16" using unat_byte_less [of b] by auto
  ultimately show ?thesis by (auto simp: hex_cp_def split: if_splits)
qed

text \<open>The header a client sends for a proxy URL of \<open>formatEgressProxyUrl\<close>: the user information, base64-encoded.\<close>

definition proxy_authorization :: "platform \<Rightarrow> bytes \<Rightarrow> utext" where
  "proxy_authorization pf tok =
     cps ''Basic '' @ base64_encode pf (utf8_encode (PROXY_AUTH_USERNAME @ cps '':'' @ to_hex tok))"

text \<open>What base64 promises: text of its alphabet, not empty for bytes that are not, and read back.\<close>

definition base64_codec :: "platform \<Rightarrow> bool" where
  "base64_codec pf \<longleftrightarrow> (\<forall>bs. base64_decode pf (base64_encode pf bs) = bs \<and> (base64_encode pf bs = [] \<longrightarrow> bs = []) \<and> list_all base64_char (base64_encode pf bs))"

lemma base64_plain: "base64_char c \<Longrightarrow> \<not> is_ws c \<and> \<not> line_end c"
  by (auto simp: base64_char_def is_upper_def is_ws_def line_end_def)

lemma authorized_iff:
  assumes "base64_codec pf"
  shows "isAuthorized pf (Some tok') (Some (proxy_authorization pf tok)) \<longleftrightarrow> tok' = tok"
proof -
  define user where "user = PROXY_AUTH_USERNAME @ cps '':'' @ to_hex tok"
  define b where "b = base64_encode pf (utf8_encode user)"
  have ascii: "list_all (\<lambda>c. c < 128) user" using hex_chars [of _ tok] by (auto simp: user_def list_all_iff PROXY_AUTH_USERNAME_def cps_def)
  have dec: "base64_decode pf b = utf8_encode user" and chars: "list_all base64_char b" using assms by (auto simp: base64_codec_def b_def)
  have "utf8_encode user \<noteq> []" by (simp add: user_def PROXY_AUTH_USERNAME_def cps_def utf8_encode_def utf8_cp_def)
  then have ne: "b \<noteq> []" using assms unfolding base64_codec_def b_def by blast
  then have ends: "\<not> is_ws (last b)" "\<not> is_ws (hd b)" using chars base64_plain by (auto simp: list_all_iff)
  have h: "proxy_authorization pf tok = [66, 97, 115, 105, 99, 32] @ b" by (simp add: proxy_authorization_def cps_def b_def user_def)
  have trim: "trim ([66, 97, 115, 105, 99, 32] @ b) = [66, 97, 115, 105, 99, 32] @ b"
    using ne ends by (intro trim_id) (auto simp: is_ws_def)
  have drop: "dropWhile is_ws b = b" using ne ends(2) by (cases b) auto
  have basic: "basic_credentials ([66, 97, 115, 105, 99, 32] @ b) = Some b"
    using ne drop chars base64_plain
    by (auto simp: basic_credentials_def Let_def Credentials.toLowerCase_def lower_cp_def cps_def is_ws_def list_all_iff)
  have tail: "tl (dropWhile (\<lambda>c. c \<noteq> 58) user) = to_hex tok" "58 \<in> set user" by (simp_all add: user_def PROXY_AUTH_USERNAME_def cps_def)
  have "isAuthorized pf (Some tok') (Some ([66, 97, 115, 105, 99, 32] @ b)) \<longleftrightarrow> from_hex (to_hex tok) = tok'"
    unfolding isAuthorized_def trim option.case basic Let_def dec buffer_ascii [OF ascii] tail(1) using tail(2) by simp
  then show ?thesis by (auto simp: h from_to_hex)
qed

text \<open>
  (C28) The token keeps runs apart: with the header a client derives from the proxy URL it was given, a proxy serves
  the request when the URL was its own, and when it was another run's it answers 407 to a plain request and to a
  CONNECT alike, and does nothing else.
\<close>

theorem proxy_serves_own_run:
  assumes "base64_codec (codecs pp)" "token cfg = Some mine"
    "header_one (in_headers req) ''proxy-authorization'' = Some (proxy_authorization (codecs pp) theirs)"
  shows "if theirs = mine
    then onRequest pp cfg load req st = forward pp cfg load Plain req st \<and> onConnect pp cfg req \<noteq> Proxy_auth_required
    else onRequest pp cfg load req st = (Respond 407 ''proxy_auth_required'' (cps ''Missing or invalid per-run egress proxy credentials.''), st)
      \<and> onConnect pp cfg req = Proxy_auth_required"
  using assms(2,3) authorized_iff [OF assms(1), of mine theirs]
  by (auto simp: onRequest_def onConnect_def Let_def split: prod.splits)

section \<open>Reports of refusals\<close>

text \<open>What can happen to the state of a run's proxy between two resets: a request, an answer or failure of an upstream, the close.\<close>

inductive proxy_step :: "proxy_platform \<Rightarrow> RunProxyConfig \<Rightarrow> proxy_state \<Rightarrow> proxy_state \<Rightarrow> bool" for pp cfg where
  request: "proxy_step pp cfg st (snd (forward pp cfg load l req st))"
| response: "proxy_step pp cfg st (onResponse cfg obs status st)"
| unreachable: "proxy_step pp cfg st (onUnreachable cfg obs code msg st)"
| close: "proxy_step pp cfg st (close_proxy st)"

lemma report_cases:
  "reportRejection cfg rej st = st
   \<or> (rejection_key rej \<notin> reportedRejections st \<and> \<not> closed st
      \<and> reportRejection cfg rej st = st\<lparr>reportedRejections := insert (rejection_key rej) (reportedRejections st), reports := reports st @ [rej]\<rparr>)"
  by (simp add: reportRejection_def)

lemma step_reports:
  assumes "proxy_step pp cfg st st'"
  shows "(\<exists>rej. st' = reportRejection cfg rej st) \<or> st' = st \<or> st' = close_proxy st"
proof -
  have sub: "(\<exists>rej. report_substitution cfg c reason detail sent st = reportRejection cfg rej st) \<or> report_substitution cfg c reason detail sent st = st"
    for c reason detail sent
    by (auto simp: report_substitution_def split: option.split)
  have deliver: "(\<exists>rej. snd (deliver pp cfg load t c p body ev u st) = reportRejection cfg rej st) \<or> snd (deliver pp cfg load t c p body ev u st) = st"
    for load t c p body ev u
    using sub by (auto simp: deliver_def Let_def split: vault_load.split option.split prod.split)
  from assms show ?thesis
  proof cases
    case (request load l req)
    have "(\<exists>rej. snd (forward pp cfg load l req st) = reportRejection cfg rej st) \<or> snd (forward pp cfg load l req st) = st"
      unfolding forward_stages Let_def using deliver by (simp split: sum.split)
    then show ?thesis using request by blast
  qed (auto simp: onResponse_def onUnreachable_def split: prod.splits)
qed

text \<open>
  A state in which the reports since some point are exactly the reported keys, each once.
\<close>

definition reports_once :: "nat \<Rightarrow> proxy_state \<Rightarrow> bool" where
  "reports_once n st \<longleftrightarrow> n \<le> length (reports st) \<and> distinct (map rejection_key (drop n (reports st)))
     \<and> rejection_key ` set (drop n (reports st)) = reportedRejections st"

lemma reports_once_report: "reports_once n st \<Longrightarrow> reports_once n (reportRejection cfg rej st)"
proof -
  assume inv: "reports_once n st"
  then have "rejection_key rej \<notin> reportedRejections st \<Longrightarrow> rejection_key rej \<notin> rejection_key ` set (drop n (reports st))"
    by (simp add: reports_once_def)
  with report_cases [of cfg rej st] show ?thesis
    by (elim disjE) (use inv in \<open>simp_all add: reports_once_def\<close>)
qed

interpretation once: inductive_invariant "\<lambda>st. reportedRejections st = {} \<and> n = length (reports st)" "proxy_step pp cfg" "reports_once n"
  for pp cfg n
proof
  fix st st' assume inv: "reports_once n st" and step: "proxy_step pp cfg st st'"
  then consider rej where "st' = reportRejection cfg rej st" | "st' = st" | "st' = close_proxy st" using step_reports by blast
  then show "reports_once n st'"
    by cases (use inv reports_once_report in \<open>auto simp: reports_once_def close_proxy_def\<close>)
qed (auto simp: reports_once_def)

text \<open>
  (Lemma) A connector that refuses a run is reported once: from the last reset on, through requests, answers, failures
  and the close in any order, the reports are pairwise different in connector, kind and credential shape, and they are
  exactly the ones remembered as reported.
\<close>

theorem refusals_reported_once:
  assumes "reach (\<lambda>st. st = resetConnectorRejections st0) (proxy_step pp cfg) st"
  shows "\<exists>new. reports st = reports st0 @ new \<and> distinct (map rejection_key new) \<and> rejection_key ` set new = reportedRejections st"
proof -
  have "reach (\<lambda>st. reportedRejections st = {} \<and> length (reports st0) = length (reports st)) (proxy_step pp cfg) st
      \<and> take (length (reports st0)) (reports st) = reports st0 \<and> length (reports st0) \<le> length (reports st)"
    using assms
  proof (induction rule: reach.induct)
    case (reach_init s)
    then show ?case by (auto simp: resetConnectorRejections_def intro: reach.reach_init)
  next
    case (reach_step s t)
    have "take (length (reports st0)) (reports t) = reports st0 \<and> length (reports st0) \<le> length (reports t)"
      using step_reports [OF reach_step.hyps(2)] reach_step.IH by (auto simp: close_proxy_def reportRejection_def)
    then show ?case using reach_step by (blast intro: reach.reach_step)
  qed
  then show ?thesis using once.reach_inv [of "length (reports st0)" pp cfg st]
    by (intro exI [of _ "drop (length (reports st0)) (reports st)"]) (auto simp: reports_once_def, metis append_take_drop_id)
qed

section \<open>Witnesses\<close>

text \<open>A codec with the alphabet of base64, half a byte to a letter.\<close>

fun half_decode :: "utext \<Rightarrow> bytes" where
  "half_decode (a # b # rest) = of_nat (16 * (a - 65) + (b - 65)) # half_decode rest"
| "half_decode _ = []"

definition demo_codecs :: platform where
  "demo_codecs = \<lparr>base64_decode = half_decode, base64_encode = concat \<circ> map (\<lambda>b. [65 + unat b div 16, 65 + unat b mod 16]),
     json_parse = (\<lambda>_. Some (demo_call ''list_issues''))\<rparr>"

lemma demo_codec: "base64_codec demo_codecs"
proof -
  let ?enc = "\<lambda>bs :: bytes. concat (map (\<lambda>b. [65 + unat b div 16, 65 + unat b mod 16]) bs)"
  have dec: "half_decode (?enc bs) = bs" for bs
  proof (induction bs)
    case (Cons b bs)
    have "half_decode (?enc (b # bs)) = of_nat (16 * (unat b div 16) + unat b mod 16) # half_decode (?enc bs)"
      by (simp only: list.map concat.simps append.simps half_decode.simps add_diff_cancel_left')
    then show ?case by (simp only: half_byte Cons)
  qed simp
  have "list_all base64_char (?enc bs)" for bs
  proof (induction bs)
    case (Cons b bs)
    have "unat b div 16 \<le> 25" using unat_byte_less [of b] by linarith
    moreover have "unat b mod 16 \<le> 25" using mod_less_divisor [of 16 "unat b"] by linarith
    ultimately show ?case using Cons by (simp add: base64_char_def is_upper_def)
  qed simp
  moreover have "?enc bs = [] \<Longrightarrow> bs = []" for bs by (cases bs) simp_all
  ultimately show ?thesis using dec by (auto simp: base64_codec_def demo_codecs_def)
qed

definition demo_pp :: proxy_platform where
  "demo_pp = \<lparr>codecs = demo_codecs, new_URL = (\<lambda>_. None), js_number = (\<lambda>_. None), dnsLookup = (\<lambda>_. Some ''203.0.113.9''),
     lookup_message = (\<lambda>_. [])\<rparr>"

definition demo_cfg :: RunProxyConfig where
  "demo_cfg = \<lparr>token = Some [1, 2], mcpBindings = [(''mcp.linear.app:443'', \<lparr>connectors = [],
      restriction = Some \<lparr>connectorName = cps ''linear'', enabled = {cps ''list_issues''}\<rparr>\<rparr>)],
     allowPrivateTargets = False, selfEndpoint = None, onConnectorRejection = True\<rparr>"

definition demo_body :: bytes where
  "demo_body = utf8_encode (cps ''{}'')"

definition demo_in :: "string \<Rightarrow> IncomingMessage" where
  "demo_in type = \<lparr>in_method = cps ''POST'', in_url = cps ''/mcp'', in_headers = [(cps ''content-type'', HOne (cps type))],
     in_body = [Body_data demo_body, Body_end]\<rparr>"

definition demo_st :: proxy_state where
  "demo_st = \<lparr>reportedRejections = {}, closed = False, reports = []\<rparr>"

definition demo_target :: TargetAddress where
  "demo_target = \<lparr>target_host = ''mcp.linear.app'', target_port = 443, target_path = cps ''/mcp''\<rparr>"

lemma demo_resolved: "resolveTarget demo_pp (Tls ''mcp.linear.app'') (demo_in type) = demo_target"
  by (simp add: resolveTarget_def demo_in_def demo_target_def header_one_def cps_def)

lemma demo_address: "isIP ''203.0.113.9'' = 4" "isIP ''mcp.linear.app'' = 0"
  by (simp_all add: isIP_def isIPv4_def octet_text_def isIPv6_def inet6_def read_groups_def v6Seg_def zone_char_def is_digit_def
      is_hex_def Number_def digit_of_def)

lemma demo_open: "\<not> isBlockedEgressAddress ''203.0.113.9''" 
  by (simp add: isBlockedEgressAddress.simps demo_address ipv4Octets_def blocked_octets_def Number_def is_digit_def digit_of_def)

lemma demo_checked: "check_target demo_pp demo_cfg demo_target = Inr ''203.0.113.9''"
  by (simp add: check_target_def demo_target_def demo_cfg_def isSelfEndpoint_def isBlockedEgressHost_def bare_def
      demo_address demo_open resolveGuardedAddress_def demo_pp_def no_trailing_dot_def Net_Guard.endsWith_def Text_Split.toLowerCase_def lower_def)

definition demo_up :: "string \<Rightarrow> Upstream" where
  "demo_up type = \<lparr>up_ssl = True, up_host = ''mcp.linear.app'', up_dial = ''203.0.113.9'', up_port = 443, up_method = cps ''POST'',
     up_path = cps ''/mcp'', up_headers = [(cps ''content-type'', HOne (cps type)), (cps ''host'', HOne (cps ''mcp.linear.app''))],
     up_body = Piped [], up_logPath = cps ''/mcp'', up_observer = None\<rparr>"

lemma demo_binding: "restriction_at demo_cfg demo_target = Some \<lparr>connectorName = cps ''linear'', enabled = {cps ''list_issues''}\<rparr>"
  "connector_at demo_cfg demo_target = None"
  by (simp_all add: restriction_at_def connector_at_def binding_at_def demo_cfg_def demo_target_def mcpRestrictionKey_def connectorForPath_def
      digits.simps Text_Split.toLowerCase_def lower_def char_of_def bit_Suc_0_iff)

lemma demo_prepared: "prepared demo_pp demo_cfg (Tls ''mcp.linear.app'') (demo_in type) ''203.0.113.9'' = demo_up type"
  by (simp add: prepared_def Let_def demo_resolved demo_binding)
    (simp add: demo_target_def demo_up_def demo_in_def request_headers_def relayed_def HOP_BY_HOP_HEADERS_def startsWith_def
      Credentials.toLowerCase_def lower_cp_def cps_def)

lemma no_probe: "length s < 14 \<Longrightarrow> \<not> contains_text s PLACEHOLDER_PROBE" for s
proof -
  assume "length s < 14"
  then have "\<not> occurs_at PLACEHOLDER_PROBE s i" for i by (simp add: occurs_at_def PLACEHOLDER_PROBE_def cps_def)
  then show ?thesis using index_of_Some_iff by (fastforce simp: contains_text_def)
qed

lemma no_underscore: "95 \<notin> set s \<Longrightarrow> \<not> contains_text s PLACEHOLDER_PROBE" for s
proof -
  assume s: "95 \<notin> set s"
  have "\<not> occurs_at PLACEHOLDER_PROBE s i" for i
  proof
    assume "occurs_at PLACEHOLDER_PROBE s i"
    then have "set PLACEHOLDER_PROBE \<subseteq> set s" unfolding occurs_at_def by (metis order_trans set_drop_subset set_take_subset)
    then show False using s by (simp add: PLACEHOLDER_PROBE_def cps_def)
  qed
  then show ?thesis using index_of_Some_iff by (fastforce simp: contains_text_def)
qed

lemma demo_clean: "95 \<notin> set (cps type) \<Longrightarrow> \<not> probe_seen demo_pp (demo_up type)" "\<not> seen_in_body (Some demo_body)"
proof -
  show "95 \<notin> set (cps type) \<Longrightarrow> \<not> probe_seen demo_pp (demo_up type)"
    by (auto simp: probe_seen_def demo_up_def headersContainProbe_def headerValueCarriesPlaceholder_def no_underscore
        Credentials.toLowerCase_def lower_cp_def cps_def)
  have "buffer_to_text demo_body = cps ''{}''" unfolding demo_body_def by (rule buffer_ascii) (simp add: cps_def)
  then show "\<not> seen_in_body (Some demo_body)" by (simp add: seen_in_body_def no_underscore cps_def)
qed

lemma demo_body_clean: "\<not> contains_text (buffer_to_text demo_body) PLACEHOLDER_PROBE"
  using demo_clean(2) by (simp add: seen_in_body_def)

lemma demo_in_simps: "in_method (demo_in type) = cps ''POST''" "in_body (demo_in type) = [Body_data demo_body, Body_end]"
  "up_headers (demo_up type) = [(cps ''content-type'', HOne (cps type)), (cps ''host'', HOne (cps ''mcp.linear.app''))]"
  "length demo_body = 2" "codecs demo_pp = demo_codecs" "json_parse demo_codecs = (\<lambda>_. Some (demo_call ''list_issues''))"
  by (simp_all add: demo_in_def demo_up_def demo_body_def utf8_encode_def utf8_cp_def cps_def demo_pp_def demo_codecs_def)

lemma demo_method: "bodied_method (cps ''POST'')" "headerValue (up_headers (demo_up type)) ''content-type'' = Some (cps type)"
  "headerValue (up_headers (demo_up type)) ''content-length'' = None"
  by (simp_all add: bodied_method_def to_upper_def headerValue_def demo_up_def cps_def)

lemma demo_json: "json_type (cps ''application/json'')" "\<not> json_type (cps ''text/plain'')"
  by (simp_all add: json_type_def is_ws_def Credentials.toLowerCase_def lower_cp_def cps_def)

lemma demo_inspects: "mayCarryJsonRpc (cps ''POST'') (up_headers (demo_up ''application/json''))"
  "\<not> mayCarryJsonRpc (cps ''POST'') (up_headers (demo_up ''text/plain''))"
  by (simp_all add: mayCarryJsonRpc_def demo_method demo_json) (simp add: cps_def)

lemma demo_ineligible: "\<not> isBodySubstitutionEligible demo_pp (cps ''POST'') (up_headers (demo_up type))"
  by (simp add: isBodySubstitutionEligible_def demo_method)

lemma demo_allowed: "shouldBlockMcpRequest (\<lambda>_. Some (demo_call ''list_issues'')) b {cps ''list_issues''} = Not_blocked"
  by (simp add: shouldBlockMcpRequest_def messages_of_def demo_call_def isRecord_def member_of_def TOOLS_CALL_def) (simp add: cps_def)

lemma demo_forwarded:
  "forward demo_pp demo_cfg MasterKeyLocked (Tls ''mcp.linear.app'') (demo_in ''application/json'') demo_st =
     (forwardBuffered (demo_up ''application/json'') demo_body, demo_st)"
proof -
  have "take_body demo_pp False (Some \<lparr>connectorName = cps ''linear'', enabled = {cps ''list_issues''}\<rparr>) (cps ''POST'')
      (up_headers (demo_up ''application/json'')) [Body_data demo_body, Body_end] = Inr (Some demo_body)"
    by (simp add: take_body_def demo_inspects MAX_MCP_INSPECTION_BYTES_def demo_in_simps(4,5,6) demo_allowed)
  moreover have "95 \<notin> set (cps ''application/json'')" by (simp add: cps_def)
  ultimately show ?thesis
    by (simp add: forward_stages Let_def demo_resolved demo_checked demo_prepared demo_binding demo_in_simps(1,2) demo_ineligible deliver_def
        demo_body_clean demo_clean(1) send_upstream_def)
qed

lemma demo_forwarded_up: "\<exists>u. forwardBuffered (demo_up ''application/json'') demo_body = Forwarded u \<and> up_dial u = ''203.0.113.9'' \<and> up_host u = ''mcp.linear.app''
   \<and> up_port u = 443 \<and> (cps ''host'', HOne (cps ''mcp.linear.app'')) \<in> set (up_headers u)"
  by (simp add: forwardBuffered_def demo_up_def) (simp add: cps_def)

lemma demo_messages: "messages_of (demo_call name) = [demo_call name]"
  by (simp add: messages_of_def demo_call_def)

theorem allowlist_enforced_witness: "\<exists>n \<in> {cps ''list_issues''}. called (demo_call ''list_issues'') = Some n"
proof -
  obtain u where u: "forwardBuffered (demo_up ''application/json'') demo_body = Forwarded u" "up_dial u = ''203.0.113.9''"
    using demo_forwarded_up by blast
  have "mayCarryJsonRpc (in_method (demo_in ''application/json''))
      (up_headers (prepared demo_pp demo_cfg (Tls ''mcp.linear.app'') (demo_in ''application/json'') (up_dial u)))"
    by (simp add: u(2) demo_prepared demo_in_simps(1) demo_inspects)
  from allowlist_enforced [OF demo_forwarded [unfolded u(1)] _ this] obtain parsed where "\<exists>t. json_parse (codecs demo_pp) t = Some parsed"
    "\<forall>m \<in> set (messages_of parsed). is_call m \<longrightarrow> (\<exists>n \<in> {cps ''list_issues''}. called m = Some n)"
    by (simp add: demo_resolved demo_binding) blast
  then have "is_call (demo_call ''list_issues'') \<longrightarrow> (\<exists>n \<in> {cps ''list_issues''}. called (demo_call ''list_issues'') = Some n)"
    by (auto simp: demo_in_simps(5,6) demo_messages)
  moreover have "is_call (demo_call ''list_issues'')" by (simp add: is_call_def demo_call_def member_of_def)
  ultimately show ?thesis by blast
qed

theorem forwarded_address_guarded_witness:
  "isIP (bare ''mcp.linear.app'') = 0 \<and> dnsLookup demo_pp (bare ''mcp.linear.app'') = Some ''203.0.113.9'' \<and> \<not> in_blocks 32 BLOCKED_V4 (radix 256 [203, 0, 113, 9])"
proof -
  obtain u where u: "forwardBuffered (demo_up ''application/json'') demo_body = Forwarded u" "up_dial u = ''203.0.113.9''"
    "up_host u = ''mcp.linear.app''" "up_port u = 443"
    using demo_forwarded_up by blast
  have v4: "isIPv4 ''203.0.113.9''" "inet4 ''203.0.113.9'' = [203, 0, 113, 9]"
    by (simp_all add: isIPv4_def octet_text_def Number_def is_digit_def digit_of_def inet4_def)
  then have dns: "isIP address \<noteq> 0" if "dnsLookup demo_pp name = Some address" for name address
    using that by (auto simp: demo_pp_def isIP_def)
  show ?thesis using forwarded_address_guarded [OF demo_forwarded [unfolded u(1)] _ _ dns] u v4
    by (simp add: demo_cfg_def isSelfEndpoint_def demo_pp_def demo_address bare_def)
qed

theorem locked_vault_sends_no_placeholder_witness:
  "\<not> contains_text (cps ''/mcp'') PLACEHOLDER_PROBE \<and> \<not> headersContainProbe demo_codecs (up_headers (demo_up ''application/json''))"
proof -
  obtain u where u: "forwardBuffered (demo_up ''application/json'') demo_body = Forwarded u" "up_dial u = ''203.0.113.9''"
    using demo_forwarded_up by blast
  have "up_path u = cps ''/mcp''" using u(1) by (auto simp: forwardBuffered_def demo_up_def)
  with locked_vault_sends_no_placeholder [OF demo_forwarded [unfolded u(1)]] u(2) show ?thesis
    by (simp add: demo_prepared demo_in_simps(5)) metis
qed

theorem hop_headers_not_relayed_witness:
  "\<not> startsWith (Credentials.toLowerCase (cps ''host'')) (cps ''proxy-'') \<and> Credentials.toLowerCase (cps ''host'') \<notin> set HOP_BY_HOP_HEADERS"
proof -
  obtain u where u: "forwardBuffered (demo_up ''application/json'') demo_body = Forwarded u"
    "(cps ''host'', HOne (cps ''mcp.linear.app'')) \<in> set (up_headers u)"
    using demo_forwarded_up by blast
  show ?thesis using hop_headers_not_relayed [OF demo_forwarded [unfolded u(1)] u(2)] .
qed

theorem handler_confines_secrets_witness:
  "forward demo_pp demo_cfg (Loaded (demo_vault ''one'')) (Tls ''mcp.linear.app'') (demo_in ''application/json'') demo_st
   = forward demo_pp demo_cfg (Loaded (demo_vault ''two'')) (Tls ''mcp.linear.app'') (demo_in ''application/json'') demo_st"
proof (rule handler_confines_secrets [OF demo_policy])
  show "\<forall>n. permitted (demo_vault ''one'') (cps (target_host (resolveTarget demo_pp (Tls ''mcp.linear.app'') (demo_in ''application/json'')))) n \<longrightarrow>
      demo_vault ''one'' n = demo_vault ''two'' n"
    by (simp add: demo_resolved demo_target_def permitted_def demo_request_defs hostMatchesAllowedHosts_def trim_def is_ws_def
        Credentials.toLowerCase_def lower_cp_def cps_def startsWith_def)
qed

definition demo_auth :: IncomingMessage where
  "demo_auth = (demo_in ''application/json'')\<lparr>in_headers := [(cps ''proxy-authorization'', HOne (proxy_authorization demo_codecs [1, 3]))]\<rparr>"

theorem proxy_serves_own_run_witness: "onConnect demo_pp demo_cfg demo_auth = Proxy_auth_required"
proof -
  have "header_one (in_headers demo_auth) ''proxy-authorization'' = Some (proxy_authorization (codecs demo_pp) [1, 3])"
    by (simp add: demo_auth_def header_one_def demo_in_simps(5))
  from proxy_serves_own_run [OF _ _ this, of demo_cfg "[1, 2]" MasterKeyLocked demo_st] show ?thesis
    by (simp add: demo_in_simps(5) demo_codec demo_cfg_def)
qed

definition demo_refusal :: proxy_state where
  "demo_refusal = onResponse demo_cfg (connector_of (demo_row 1 None [] None None) (cps ''/mcp''), True) 401 (resetConnectorRejections demo_st)"

theorem refusals_reported_once_witness:
  "\<exists>new. reports demo_refusal = [] @ new \<and> distinct (map rejection_key new) \<and> rejection_key ` set new = reportedRejections demo_refusal"
proof -
  have "reach (\<lambda>st. st = resetConnectorRejections demo_st) (proxy_step demo_pp demo_cfg) demo_refusal"
    unfolding demo_refusal_def by (rule reach_step, rule reach_init, rule refl, rule response)
  from refusals_reported_once [OF this] show ?thesis by (simp add: demo_st_def)
qed

section \<open>Where the handler falls short of its comments\<close>

text \<open>
  (C39) The allowlist is advisory for a body of another type: a request to a restricted host whose content type does not
  start with \<open>application/json\<close> and that mentions no placeholder is streamed upstream unread, whatever calls its
  body holds.
\<close>

theorem other_types_bypass_allowlist:
  assumes "check_target pp cfg (resolveTarget pp l req) = Inr dial"
    "headerValue (up_headers (prepared pp cfg l req dial)) ''content-type'' = Some type" "type \<noteq> []" "\<not> json_type type"
    "\<not> probe_seen pp (prepared pp cfg l req dial)"
  shows "forward pp cfg load l req st = (Forwarded ((prepared pp cfg l req dial)\<lparr>up_body := Piped (in_body req)\<rparr>), st)"
proof -
  have "\<not> mayCarryJsonRpc m (up_headers (prepared pp cfg l req dial))" "\<not> isBodySubstitutionEligible pp m (up_headers (prepared pp cfg l req dial))" for m
    using assms(2-4) by (simp_all add: mayCarryJsonRpc_def isBodySubstitutionEligible_def)
  then have "take_body pp (isBodySubstitutionEligible pp m (up_headers (prepared pp cfg l req dial))) r m
      (up_headers (prepared pp cfg l req dial)) ev = Inr None" for m r ev
    by (simp add: take_body_def)
  then show ?thesis using assms(1,5)
    by (simp add: forward_stages Let_def deliver_def send_upstream_def pipeUpstream_def)
qed

theorem other_types_bypass_allowlist_witness:
  "restriction_at demo_cfg demo_target \<noteq> None
   \<and> forward demo_pp demo_cfg MasterKeyLocked (Tls ''mcp.linear.app'') (demo_in ''text/plain'') demo_st
     = (Forwarded ((demo_up ''text/plain'')\<lparr>up_body := Piped [Body_data demo_body, Body_end]\<rparr>), demo_st)"
proof -
  have "check_target demo_pp demo_cfg (resolveTarget demo_pp (Tls ''mcp.linear.app'') (demo_in ''text/plain'')) = Inr ''203.0.113.9''"
    by (simp add: demo_resolved demo_checked)
  moreover have "95 \<notin> set (cps ''text/plain'')" "cps ''text/plain'' \<noteq> []" by (simp_all add: cps_def)
  ultimately show ?thesis
    using other_types_bypass_allowlist [of demo_pp demo_cfg "Tls ''mcp.linear.app''" "demo_in ''text/plain''" "''203.0.113.9''" "cps ''text/plain''"
        MasterKeyLocked demo_st]
    by (simp add: demo_prepared demo_method demo_json demo_clean(1) demo_binding demo_in_simps(2))
qed

text \<open>
  (Lemma) A refusal quotes the keys of the body, so it can spell the placeholder it avoids: when the placeholder is also the key of
  the field, the message holds it.
\<close>

lemma refusal_spells_placeholder:
  assumes "json_parse pf body = Some (Obj [(credentialPlaceholder n, Str (credentialPlaceholder n))])"
  shows "\<exists>before after. snd (snd (describeFailure (Secret_not_allowed_in_body n (fst (locatePlaceholder pf body n)) offsets)))
    = before @ credentialPlaceholder n @ after"
proof -
  have "contains_text (credentialPlaceholder n) (credentialPlaceholder n)"
    unfolding contains_text_def by (subst index_of.simps) simp
  then have "fst (locatePlaceholder pf body n) = [credentialPlaceholder n]"
    using assms by (simp add: locatePlaceholder_def Let_def credentialPlaceholder_def PLACEHOLDER_PROBE_def cps_def)
  then have "snd (snd (describeFailure (Secret_not_allowed_in_body n (fst (locatePlaceholder pf body n)) offsets)))
      = (cps ''A placeholder for secret '' @ n @ cps '' appears in this JSON request body'' @ cps '' at '') @ credentialPlaceholder n @
       (cps '', and no other part of this request carries that credential. '' @
       cps ''Hezo substitutes secrets into headers and the URL, never into a body unless an admin has enabled body substitution on that credential. '' @
       cps ''Send the credential in a header, or ask an admin to enable body substitution. '' @
       cps ''A placeholder quoted as literal text is forwarded unchanged only when the same credential is already delivered in a header or the URL.'')"
    by (simp add: describeFailure_def describeBodyLocation_def more_text_def)
  then show ?thesis by blast
qed

end
