(* ===== verification/Pool_Ledger.thy ===== *)
theory Pool_Ledger
  imports Run_Concurrency State_Systems
begin

text \<open>
  The pool table and the container-hours ledger, written together:
  \<open>services/sandbox/pool-db.ts\<close> and \<open>services/sandbox/uptime-ledger.ts\<close>. Tables are lists of
  rows in insertion order, a statement is a function on them, and \<open>RETURNING\<close> is the list of ids
  it touched. Times are integers in milliseconds and \<open>now_at\<close> is the transaction's \<open>now()\<close>.

  An operation is the sequence of its statements run to the end: the server has one serialized
  database handle, and the operations on one container are issued under its lifecycle lock.
\<close>

section \<open>Rows\<close>

record pool_row = member_row +
  pm_updated_at :: int
  pm_chat_released_at :: "int option"
  pm_last_logs :: "string option"
  pm_last_error :: "string option"

datatype ContainerUptimeEndReason = EndStopped | EndSuspended | EndDestroyed | EndReconciled

record uptime_entry =
  ue_project_id :: "string option"
  ue_container_id :: string
  ue_memory_bytes :: "nat option"
  ue_disk_ceiling_bytes :: nat
  ue_backend :: string
  ue_started_at :: int
  ue_ended_at :: "int option"
  ue_end_reason :: "ContainerUptimeEndReason option"

record pool_db =
  pool_rows :: "pool_row list"
  entries :: "uptime_entry list"
  running_on :: "string set"
  now_at :: int
  sandbox_backend :: string

definition DEFAULT_CONTAINER_DISK_GB :: rat where
  "DEFAULT_CONTAINER_DISK_GB = 5"

definition POOL_DISK_HEADROOM_GB :: rat where
  "POOL_DISK_HEADROOM_GB = 1"

definition poolDiskCeilingBytes :: "rat \<Rightarrow> nat" where
  "poolDiskCeilingBytes diskGb =
     nat (math_round (max (diskGb / 2) (diskGb - POOL_DISK_HEADROOM_GB) * 1024 ^ 3))"

definition INTERRUPTED_PROVISION_ERROR :: string where
  "INTERRUPTED_PROVISION_ERROR = ''Provisioning did not finish. The container was never handed to a run; Hezo starts a fresh one when the next run needs it.''"

text \<open>\<open>UPDATE ... WHERE\<close> and what it returns.\<close>

definition update_where :: "('a \<Rightarrow> bool) \<Rightarrow> ('a \<Rightarrow> 'a) \<Rightarrow> 'a list \<Rightarrow> 'a list" where
  "update_where P f rows = map (\<lambda>r. if P r then f r else r) rows"

definition has_member :: "string \<Rightarrow> pool_db \<Rightarrow> bool" where
  "has_member cid db \<longleftrightarrow> list_ex (\<lambda>m. pm_container_id m = cid) (pool_rows db)"

definition is_open :: "string \<Rightarrow> uptime_entry \<Rightarrow> bool" where
  "is_open cid e \<longleftrightarrow> ue_container_id e = cid \<and> ue_ended_at e = None"

definition has_open :: "string \<Rightarrow> pool_db \<Rightarrow> bool" where
  "has_open cid db \<longleftrightarrow> list_ex (is_open cid) (entries db)"

section \<open>The ledger\<close>

text \<open>\<open>max(e.ended_at)\<close> over the rows of one container; null when there is none.\<close>

definition ended_times :: "string \<Rightarrow> uptime_entry list \<Rightarrow> int list" where
  "ended_times cid es = concat (map (\<lambda>e. if ue_container_id e = cid
     then (case ue_ended_at e of None \<Rightarrow> [] | Some t \<Rightarrow> [t]) else []) es)"

definition last_ended :: "string \<Rightarrow> uptime_entry list \<Rightarrow> int option" where
  "last_ended cid es = (if ended_times cid es = [] then None else Some (Max (set (ended_times cid es))))"

definition greatest :: "int \<Rightarrow> int option \<Rightarrow> int" where
  "greatest t m = (case m of None \<Rightarrow> t | Some u \<Rightarrow> max t u)"

definition openUptimeInterval :: "string \<Rightarrow> int option \<Rightarrow> pool_db \<Rightarrow> pool_db" where
  "openUptimeInterval cid startedAt db =
     (if has_open cid db then db
      else db\<lparr>entries := entries db @ map (\<lambda>m.
        \<lparr>ue_project_id = Some (pm_project_id m), ue_container_id = pm_container_id m,
         ue_memory_bytes = pm_memory_bytes m, ue_disk_ceiling_bytes = pm_disk_ceiling_bytes m,
         ue_backend = sandbox_backend db,
         ue_started_at = greatest (case startedAt of None \<Rightarrow> now_at db | Some t \<Rightarrow> t) (last_ended cid (entries db)),
         ue_ended_at = None, ue_end_reason = None\<rparr>)
        (filter (\<lambda>m. pm_container_id m = cid) (pool_rows db))\<rparr>)"

definition PROVISIONAL_KEY_PREFIX :: string where
  "PROVISIONAL_KEY_PREFIX = ''provisioning:''"

definition provisionalContainerKey :: "string \<Rightarrow> string" where
  "provisionalContainerKey containerName = PROVISIONAL_KEY_PREFIX @ containerName"

definition containerNameFromProvisionalKey :: "string \<Rightarrow> string" where
  "containerNameFromProvisionalKey key = drop (length PROVISIONAL_KEY_PREFIX) key"

definition is_provisional :: "string \<Rightarrow> bool" where
  "is_provisional key \<longleftrightarrow> take (length PROVISIONAL_KEY_PREFIX) key = PROVISIONAL_KEY_PREFIX"

definition openProvisionalInterval :: "string \<Rightarrow> string \<Rightarrow> nat \<Rightarrow> nat \<Rightarrow> int \<Rightarrow> pool_db \<Rightarrow> pool_db" where
  "openProvisionalInterval containerName project memory diskCeiling startedAt db =
     (if has_open (provisionalContainerKey containerName) db then db
      else db\<lparr>entries := entries db @
        [\<lparr>ue_project_id = Some project, ue_container_id = provisionalContainerKey containerName,
          ue_memory_bytes = Some memory, ue_disk_ceiling_bytes = diskCeiling,
          ue_backend = sandbox_backend db, ue_started_at = startedAt, ue_ended_at = None, ue_end_reason = None\<rparr>]\<rparr>)"

definition discardProvisionalInterval :: "string \<Rightarrow> pool_db \<Rightarrow> pool_db" where
  "discardProvisionalInterval containerName db =
     db\<lparr>entries := filter (\<lambda>e. \<not> is_open (provisionalContainerKey containerName) e) (entries db)\<rparr>"

definition adoptProvisionalInterval :: "string \<Rightarrow> string \<Rightarrow> pool_db \<Rightarrow> bool \<times> pool_db" where
  "adoptProvisionalInterval containerName cid db =
     (let key = provisionalContainerKey containerName;
          db1 = (if has_open cid db then db\<lparr>entries := filter (\<lambda>e. \<not> is_open key e) (entries db)\<rparr> else db)
      in (has_open key db1,
          db1\<lparr>entries := update_where (is_open key) (\<lambda>e. e\<lparr>ue_container_id := cid\<rparr>) (entries db1)\<rparr>))"

record UnsettledInterval =
  unsettled_id :: string
  provisional :: bool

definition listUnsettledIntervals :: "int \<Rightarrow> nat \<Rightarrow> pool_db \<Rightarrow> UnsettledInterval list" where
  "listUnsettledIntervals minAgeSec limit db =
     map (\<lambda>e. \<lparr>unsettled_id = ue_container_id e, provisional = is_provisional (ue_container_id e)\<rparr>)
       (take limit (sort_by (\<lambda>a b. ue_started_at a - ue_started_at b)
         (filter (\<lambda>e. ue_ended_at e = None \<and> ue_started_at e < now_at db - minAgeSec * 1000
            \<and> \<not> has_member (ue_container_id e) db) (entries db))))"

definition close_entry :: "ContainerUptimeEndReason \<Rightarrow> pool_db \<Rightarrow> uptime_entry \<Rightarrow> uptime_entry" where
  "close_entry reason db e = e\<lparr>ue_ended_at := Some (now_at db), ue_end_reason := Some reason\<rparr>"

definition closeUptimeInterval :: "string \<Rightarrow> ContainerUptimeEndReason \<Rightarrow> pool_db \<Rightarrow> pool_db" where
  "closeUptimeInterval cid reason db =
     db\<lparr>entries := update_where (is_open cid) (close_entry reason db) (entries db)\<rparr>"

definition closeUptimeIntervalsForMembers :: "ContainerUptimeEndReason \<Rightarrow> pool_db \<Rightarrow> pool_db" where
  "closeUptimeIntervalsForMembers reason db =
     db\<lparr>entries := update_where (\<lambda>e. ue_ended_at e = None \<and> has_member (ue_container_id e) db)
        (close_entry reason db) (entries db)\<rparr>"

section \<open>The pool table\<close>

definition syncUptimeForState ::
  "string \<Rightarrow> container_pool_state \<Rightarrow> ContainerUptimeEndReason option \<Rightarrow> int option \<Rightarrow> pool_db \<Rightarrow> pool_db" where
  "syncUptimeForState cid st endReason upSince db = (case st of
     PoolSuspended \<Rightarrow> closeUptimeInterval cid (case endReason of None \<Rightarrow> EndStopped | Some r \<Rightarrow> r) db
   | PoolError \<Rightarrow> db
   | _ \<Rightarrow> openUptimeInterval cid upSince db)"

definition ensurePoolMemberUptimeOpen :: "string \<Rightarrow> pool_db \<Rightarrow> pool_db" where
  "ensurePoolMemberUptimeOpen cid db = openUptimeInterval cid None db"

definition openCreateRequestUptime :: "string \<Rightarrow> string \<Rightarrow> nat \<Rightarrow> rat \<Rightarrow> int \<Rightarrow> pool_db \<Rightarrow> pool_db" where
  "openCreateRequestUptime containerName project memory diskGb requestedAt db =
     openProvisionalInterval containerName project memory (poolDiskCeilingBytes diskGb) requestedAt db"

definition adoptCreateRequestUptime :: "string \<Rightarrow> string \<Rightarrow> pool_db \<Rightarrow> pool_db" where
  "adoptCreateRequestUptime containerName cid db = snd (adoptProvisionalInterval containerName cid db)"

definition settleCreateRequestUptime :: "string \<Rightarrow> string option \<Rightarrow> pool_db \<Rightarrow> pool_db" where
  "settleCreateRequestUptime containerName createdId db = (case createdId of
     None \<Rightarrow> discardProvisionalInterval containerName db
   | Some cid \<Rightarrow> snd (adoptProvisionalInterval containerName cid db))"

definition closeContainerUptime :: "string \<Rightarrow> ContainerUptimeEndReason \<Rightarrow> pool_db \<Rightarrow> pool_db" where
  "closeContainerUptime cid reason db = closeUptimeInterval cid reason db"

definition listUnsettledUptime :: "int \<Rightarrow> nat \<Rightarrow> pool_db \<Rightarrow> UnsettledInterval list" where
  "listUnsettledUptime minAgeSec limit db = listUnsettledIntervals minAgeSec limit db"

definition strip_slash :: "string \<Rightarrow> string" where
  "strip_slash name = (case name of [] \<Rightarrow> [] | c # cs \<Rightarrow> if c = CHR ''/'' then cs else name)"

fun adopt_first :: "string \<Rightarrow> string list \<Rightarrow> pool_db \<Rightarrow> pool_db" where
  "adopt_first cid [] db = db"
| "adopt_first cid (name # names) db = (case adoptProvisionalInterval (strip_slash name) cid db of
     (True, db') \<Rightarrow> db'
   | (False, db') \<Rightarrow> adopt_first cid names db')"

definition settleReapedContainerUptime :: "string \<Rightarrow> string list \<Rightarrow> pool_db \<Rightarrow> pool_db" where
  "settleReapedContainerUptime cid names db = closeUptimeInterval cid EndDestroyed (adopt_first cid names db)"

definition touch_members :: "(pool_row \<Rightarrow> bool) \<Rightarrow> (pool_row \<Rightarrow> pool_row) \<Rightarrow> pool_db \<Rightarrow> pool_db" where
  "touch_members P f db = db\<lparr>pool_rows := update_where P (\<lambda>m. (f m)\<lparr>pm_updated_at := now_at db\<rparr>) (pool_rows db)\<rparr>"

definition at_state :: "string \<Rightarrow> container_pool_state \<Rightarrow> pool_row \<Rightarrow> bool" where
  "at_state cid st m \<longleftrightarrow> pm_container_id m = cid \<and> pm_state m = st"

definition beginPoolMemberStop :: "string \<Rightarrow> pool_db \<Rightarrow> bool \<times> pool_db" where
  "beginPoolMemberStop cid db =
     (list_ex (at_state cid PoolIdle) (pool_rows db) \<or> \<not> has_member cid db,
      touch_members (at_state cid PoolIdle) (\<lambda>m. m\<lparr>pm_state := PoolSuspended\<rparr>) db)"

definition setPoolMemberUnpushedFlag :: "string \<Rightarrow> bool option \<Rightarrow> pool_db \<Rightarrow> pool_db" where
  "setPoolMemberUnpushedFlag cid flag db = (case flag of
     None \<Rightarrow> db
   | Some b \<Rightarrow> touch_members (\<lambda>m. pm_container_id m = cid \<and> pm_has_unpushed m \<noteq> b) (\<lambda>m. m\<lparr>pm_has_unpushed := b\<rparr>) db)"

definition coalesce :: "'a option \<Rightarrow> 'a option \<Rightarrow> 'a option" where
  "coalesce a b = (case a of None \<Rightarrow> b | Some x \<Rightarrow> Some x)"

definition upsertPoolMember ::
  "string \<Rightarrow> string \<Rightarrow> container_pool_state \<Rightarrow> rat option \<Rightarrow> nat option \<Rightarrow> string option \<Rightarrow> int option \<Rightarrow> pool_db \<Rightarrow> pool_db" where
  "upsertPoolMember project cid st diskGb memory agentImage upSince db =
     (let ceiling = map_option poolDiskCeilingBytes diskGb;
          moved = (\<lambda>m. m\<lparr>pm_state := st, pm_project_id := project,
             pm_disk_ceiling_bytes := (case ceiling of None \<Rightarrow> pm_disk_ceiling_bytes m | Some c \<Rightarrow> c),
             pm_memory_bytes := coalesce memory (pm_memory_bytes m),
             pm_image_version := coalesce agentImage (pm_image_version m)\<rparr>);
          fresh = \<lparr>pm_project_id = project, pm_container_id = cid, pm_state = st, pm_last_task_id = None,
             pm_disk_used_bytes = 0,
             pm_disk_ceiling_bytes = (case ceiling of None \<Rightarrow> poolDiskCeilingBytes DEFAULT_CONTAINER_DISK_GB | Some c \<Rightarrow> c),
             pm_memory_bytes = memory, pm_image_version = agentImage, pm_has_unpushed = False,
             pm_last_released_at = None, pm_created_at = now_at db, pm_updated_at = now_at db,
             pm_chat_released_at = None, pm_last_logs = None, pm_last_error = None\<rparr>;
          db1 = (if has_member cid db
             then touch_members (\<lambda>m. pm_container_id m = cid \<and> moved m \<noteq> m) moved db
             else db\<lparr>pool_rows := pool_rows db @ [fresh]\<rparr>)
      in syncUptimeForState cid st None upSince db1)"

definition claimPoolMember :: "string \<Rightarrow> string option \<Rightarrow> pool_db \<Rightarrow> bool \<times> pool_db" where
  "claimPoolMember cid taskId db =
     (if \<not> list_ex (at_state cid PoolIdle) (pool_rows db) then (False, db)
      else (True, syncUptimeForState cid PoolBusy None None
        (touch_members (at_state cid PoolIdle)
           (\<lambda>m. m\<lparr>pm_state := PoolBusy, pm_last_task_id := coalesce taskId (pm_last_task_id m), pm_chat_released_at := None\<rparr>) db)))"

definition readPoolMemberAllocation :: "string \<Rightarrow> pool_db \<Rightarrow> (nat option \<times> nat) option" where
  "readPoolMemberAllocation cid db = (case filter (\<lambda>m. pm_container_id m = cid) (pool_rows db) of
     [] \<Rightarrow> None
   | m # _ \<Rightarrow> Some (pm_memory_bytes m, pm_disk_ceiling_bytes m))"

definition releasePoolMember :: "string \<Rightarrow> string option \<Rightarrow> bool \<Rightarrow> pool_db \<Rightarrow> pool_db" where
  "releasePoolMember cid taskId releasedByChat db =
     (let moves = (\<lambda>m. pm_container_id m = cid \<and> pm_state m \<noteq> PoolSuspended);
          db1 = touch_members moves
            (\<lambda>m. m\<lparr>pm_state := PoolIdle, pm_last_task_id := coalesce taskId (pm_last_task_id m),
                  pm_last_released_at := Some (now_at db),
                  pm_chat_released_at := (if releasedByChat then Some (now_at db) else None)\<rparr>) db
      in if list_ex moves (pool_rows db) then syncUptimeForState cid PoolIdle None None db1 else db1)"

definition setPoolMemberState ::
  "string \<Rightarrow> container_pool_state \<Rightarrow> ContainerUptimeEndReason option \<Rightarrow> int option \<Rightarrow> pool_db \<Rightarrow> pool_db" where
  "setPoolMemberState cid st endReason upSince db =
     syncUptimeForState cid st endReason upSince
       (touch_members (\<lambda>m. pm_container_id m = cid \<and> pm_state m \<noteq> st) (\<lambda>m. m\<lparr>pm_state := st\<rparr>) db)"

definition forgetPoolMember :: "string \<Rightarrow> pool_db \<Rightarrow> pool_db" where
  "forgetPoolMember cid db = db\<lparr>pool_rows := filter (\<lambda>m. pm_container_id m \<noteq> cid) (pool_rows db)\<rparr>"

definition removePoolMember :: "string \<Rightarrow> pool_db \<Rightarrow> pool_db" where
  "removePoolMember cid db = forgetPoolMember cid (closeUptimeInterval cid EndDestroyed db)"

definition clearAllPoolMembers :: "pool_db \<Rightarrow> nat \<times> pool_db" where
  "clearAllPoolMembers db =
     (length (pool_rows db), (closeUptimeIntervalsForMembers EndDestroyed db)\<lparr>pool_rows := []\<rparr>)"

definition markPoolMemberRunning :: "string \<Rightarrow> int option \<Rightarrow> pool_db \<Rightarrow> bool \<times> pool_db" where
  "markPoolMemberRunning cid upSince db =
     (if \<not> list_ex (at_state cid PoolSuspended) (pool_rows db) then (False, db)
      else (True, syncUptimeForState cid PoolIdle None upSince
        (touch_members (at_state cid PoolSuspended) (\<lambda>m. m\<lparr>pm_state := PoolIdle\<rparr>) db)))"

definition reclaimBusyPoolMembers :: "pool_db \<Rightarrow> string list \<times> pool_db" where
  "reclaimBusyPoolMembers db =
     (let ids = map pm_container_id (filter (\<lambda>m. pm_state m = PoolBusy) (pool_rows db));
          db1 = touch_members (\<lambda>m. pm_state m = PoolBusy)
            (\<lambda>m. m\<lparr>pm_state := PoolIdle, pm_last_released_at := Some (now_at db)\<rparr>) db
      in (ids, fold (\<lambda>i. syncUptimeForState i PoolIdle None None) ids db1))"

definition releaseClaimIfRunGone :: "string \<Rightarrow> pool_db \<Rightarrow> bool \<times> pool_db" where
  "releaseClaimIfRunGone cid db =
     (if list_ex (at_state cid PoolBusy) (pool_rows db) \<and> cid \<notin> running_on db
      then (True, syncUptimeForState cid PoolSuspended None None
        (touch_members (at_state cid PoolBusy) (\<lambda>m. m\<lparr>pm_state := PoolSuspended\<rparr>) db))
      else (False, db))"

definition setPoolMemberOutcome :: "string \<Rightarrow> string option \<Rightarrow> string option \<Rightarrow> pool_db \<Rightarrow> pool_db" where
  "setPoolMemberOutcome cid lastLogs lastError db =
     touch_members (\<lambda>m. pm_container_id m = cid
        \<and> (pm_last_logs m \<noteq> coalesce lastLogs (pm_last_logs m) \<or> pm_last_error m \<noteq> lastError))
       (\<lambda>m. m\<lparr>pm_last_logs := coalesce lastLogs (pm_last_logs m), pm_last_error := lastError\<rparr>) db"

definition failWedgedProvision :: "string \<Rightarrow> pool_db \<Rightarrow> pool_db" where
  "failWedgedProvision cid db =
     setPoolMemberOutcome cid None (Some INTERRUPTED_PROVISION_ERROR) (setPoolMemberState cid PoolError None None db)"

definition failInterruptedProvisions :: "pool_db \<Rightarrow> string list \<times> pool_db" where
  "failInterruptedProvisions db =
     (let ids = map pm_container_id (filter (\<lambda>m. pm_state m = PoolCreating) (pool_rows db));
          db1 = touch_members (\<lambda>m. pm_state m = PoolCreating)
            (\<lambda>m. m\<lparr>pm_state := PoolError, pm_last_error := Some INTERRUPTED_PROVISION_ERROR\<rparr>) db
      in (ids, fold (\<lambda>i. syncUptimeForState i PoolError None None) ids db1))"

definition setPoolMemberDiskUsage :: "string \<Rightarrow> nat \<Rightarrow> pool_db \<Rightarrow> pool_db" where
  "setPoolMemberDiskUsage cid bytes db =
     touch_members (\<lambda>m. pm_container_id m = cid \<and> pm_disk_used_bytes m \<noteq> bytes) (\<lambda>m. m\<lparr>pm_disk_used_bytes := bytes\<rparr>) db"

definition recordPoolMemberMemoryIfUnknown :: "string \<Rightarrow> nat option \<Rightarrow> pool_db \<Rightarrow> pool_db" where
  "recordPoolMemberMemoryIfUnknown cid memory db = (case memory of
     None \<Rightarrow> db
   | Some b \<Rightarrow> touch_members (\<lambda>m. pm_container_id m = cid \<and> pm_memory_bytes m = None) (\<lambda>m. m\<lparr>pm_memory_bytes := Some b\<rparr>) db)"

section \<open>Reads\<close>

definition listPoolContainerIds :: "string \<Rightarrow> pool_db \<Rightarrow> string list" where
  "listPoolContainerIds project db = map pm_container_id (filter (\<lambda>m. pm_project_id m = project) (pool_rows db))"

definition strandedCommitsExistsSql :: "string \<Rightarrow> pool_db \<Rightarrow> bool" where
  "strandedCommitsExistsSql project db \<longleftrightarrow> list_ex (\<lambda>m. pm_project_id m = project \<and> pm_has_unpushed m) (pool_rows db)"

definition listReferencedContainerIds :: "project_row list \<Rightarrow> pool_db \<Rightarrow> string set" where
  "listReferencedContainerIds projects db =
     set (concat (map (\<lambda>p. case project_container_id p of None \<Rightarrow> [] | Some c \<Rightarrow> [c]) projects))
     \<union> set (map pm_container_id (pool_rows db))"

section \<open>Operations as steps\<close>

datatype pool_op =
    OpenCreate string string nat rat int
  | AdoptCreate string string
  | SettleCreate string "string option"
  | CloseContainer string ContainerUptimeEndReason
  | SettleReaped string "string list"
  | EnsureOpen string
  | BeginStop string
  | SetUnpushed string "bool option"
  | Upsert string string container_pool_state "rat option" "nat option" "string option" "int option"
  | Claim string "string option"
  | Release string "string option" bool
  | SetState string container_pool_state "ContainerUptimeEndReason option" "int option"
  | Remove string
  | Forget string
  | ClearAll
  | MarkRunning string "int option"
  | ReclaimBusy
  | ReleaseIfGone string
  | FailWedged string
  | FailInterrupted
  | SetDisk string nat
  | RecordMemory string "nat option"
  | SetOutcome string "string option" "string option"
  | Advance int
  | RunsOn "string set"

fun apply_op :: "pool_op \<Rightarrow> pool_db \<Rightarrow> pool_db" where
  "apply_op (OpenCreate name p mem disk sent) db = openCreateRequestUptime name p mem disk sent db"
| "apply_op (AdoptCreate name cid) db = adoptCreateRequestUptime name cid db"
| "apply_op (SettleCreate name cid) db = settleCreateRequestUptime name cid db"
| "apply_op (CloseContainer cid r) db = closeContainerUptime cid r db"
| "apply_op (SettleReaped cid names) db = settleReapedContainerUptime cid names db"
| "apply_op (EnsureOpen cid) db = ensurePoolMemberUptimeOpen cid db"
| "apply_op (BeginStop cid) db = snd (beginPoolMemberStop cid db)"
| "apply_op (SetUnpushed cid b) db = setPoolMemberUnpushedFlag cid b db"
| "apply_op (Upsert p cid st disk mem img since) db = upsertPoolMember p cid st disk mem img since db"
| "apply_op (Claim cid t) db = snd (claimPoolMember cid t db)"
| "apply_op (Release cid t c) db = releasePoolMember cid t c db"
| "apply_op (SetState cid st r since) db = setPoolMemberState cid st r since db"
| "apply_op (Remove cid) db = removePoolMember cid db"
| "apply_op (Forget cid) db = forgetPoolMember cid db"
| "apply_op ClearAll db = snd (clearAllPoolMembers db)"
| "apply_op (MarkRunning cid since) db = snd (markPoolMemberRunning cid since db)"
| "apply_op ReclaimBusy db = snd (reclaimBusyPoolMembers db)"
| "apply_op (ReleaseIfGone cid) db = snd (releaseClaimIfRunGone cid db)"
| "apply_op (FailWedged cid) db = failWedgedProvision cid db"
| "apply_op FailInterrupted db = snd (failInterruptedProvisions db)"
| "apply_op (SetDisk cid n) db = setPoolMemberDiskUsage cid n db"
| "apply_op (RecordMemory cid n) db = recordPoolMemberMemoryIfUnknown cid n db"
| "apply_op (SetOutcome cid l e) db = setPoolMemberOutcome cid l e db"
| "apply_op (Advance t) db = db\<lparr>now_at := t\<rparr>"
| "apply_op (RunsOn R) db = db\<lparr>running_on := R\<rparr>"

definition up :: "container_pool_state \<Rightarrow> bool" where
  "up st \<longleftrightarrow> st = PoolCreating \<or> st = PoolIdle \<or> st = PoolBusy"

definition past :: "int option \<Rightarrow> pool_db \<Rightarrow> bool" where
  "past since db \<longleftrightarrow> (case since of None \<Rightarrow> True | Some t \<Rightarrow> t \<le> now_at db)"

text \<open>
  What the callers and the engine keep to: a request was sent no later than now; engine ids are
  not provisional keys; a create still provisional produced a container with no finished stretch under its
  own id; time does not run backwards. Any interval may be closed by hand, also one of a container
  the pool believes up: the liveness pass acts on a listing that other callers outdate.
\<close>

definition fresh_adoption :: "string \<Rightarrow> string \<Rightarrow> pool_db \<Rightarrow> bool" where
  "fresh_adoption name cid db \<longleftrightarrow> \<not> is_provisional cid
     \<and> (\<forall>e \<in> set (entries db). ue_container_id e = cid \<longrightarrow> ue_ended_at e = None)"

definition believed_up :: "string \<Rightarrow> pool_db \<Rightarrow> bool" where
  "believed_up cid db \<longleftrightarrow> (\<exists>m \<in> set (pool_rows db). pm_container_id m = cid \<and> up (pm_state m))"

fun allowed :: "pool_op \<Rightarrow> pool_db \<Rightarrow> bool" where
  "allowed (OpenCreate name p mem disk sent) db = (sent \<le> now_at db)"
| "allowed (AdoptCreate name cid) db = fresh_adoption name cid db"
| "allowed (SettleCreate name c) db = (case c of None \<Rightarrow> True | Some cid \<Rightarrow> fresh_adoption name cid db)"
| "allowed (CloseContainer cid r) db = (\<not> is_provisional cid)"
| "allowed (SettleReaped cid names) db =
     (\<not> is_provisional cid \<and> (\<forall>n \<in> set names. fresh_adoption n cid db))"
| "allowed (EnsureOpen cid) db = True"
| "allowed (Upsert p cid st disk mem img since) db = (\<not> is_provisional cid \<and> past since db)"
| "allowed (SetState cid st r since) db = (\<not> is_provisional cid \<and> past since db)"
| "allowed (Remove cid) db = (\<not> is_provisional cid)"
| "allowed (MarkRunning cid since) db = past since db"
| "allowed (Advance t) db = (now_at db \<le> t)"
| "allowed _ db = True"

inductive pool_step :: "pool_db \<Rightarrow> pool_db \<Rightarrow> bool" where
  "allowed op db \<Longrightarrow> pool_step db (apply_op op db)"

inductive_cases pool_stepE: "pool_step db db'"

definition pool_init :: "pool_db \<Rightarrow> bool" where
  "pool_init db \<longleftrightarrow> pool_rows db = [] \<and> entries db = []"

section \<open>The invariant of the ledger\<close>

definition apart :: "uptime_entry \<Rightarrow> uptime_entry \<Rightarrow> bool" where
  "apart a b \<longleftrightarrow> (ue_container_id a = ue_container_id b \<longrightarrow> (\<exists>t. ue_ended_at a = Some t \<and> t \<le> ue_started_at b))"

definition entry_ok :: "int \<Rightarrow> uptime_entry \<Rightarrow> bool" where
  "entry_ok now e \<longleftrightarrow> ue_started_at e \<le> now
     \<and> (\<forall>t. ue_ended_at e = Some t \<longrightarrow> ue_started_at e \<le> t \<and> t \<le> now \<and> \<not> is_provisional (ue_container_id e))"

definition ledger_ok :: "pool_db \<Rightarrow> bool" where
  "ledger_ok db \<longleftrightarrow> sorted_wrt apart (entries db) \<and> (\<forall>e \<in> set (entries db). entry_ok (now_at db) e)"

definition rows_ok :: "pool_db \<Rightarrow> bool" where
  "rows_ok db \<longleftrightarrow> distinct (map pm_container_id (pool_rows db))
     \<and> (\<forall>m \<in> set (pool_rows db). \<not> is_provisional (pm_container_id m))"

definition metered_but :: "string set \<Rightarrow> pool_db \<Rightarrow> bool" where
  "metered_but X db \<longleftrightarrow> (\<forall>m \<in> set (pool_rows db). pm_container_id m \<notin> X \<longrightarrow> up (pm_state m) \<longrightarrow> has_open (pm_container_id m) db)"

definition pool_inv_but :: "string set \<Rightarrow> pool_db \<Rightarrow> bool" where
  "pool_inv_but X db \<longleftrightarrow> ledger_ok db \<and> rows_ok db \<and> metered_but X db"

abbreviation pool_inv :: "pool_db \<Rightarrow> bool" where
  "pool_inv \<equiv> pool_inv_but {}"

definition pool_ok :: "pool_db \<Rightarrow> bool" where
  "pool_ok db \<longleftrightarrow> ledger_ok db \<and> rows_ok db"

lemma in_ended_times:
  "t \<in> set (ended_times cid es) \<longleftrightarrow> (\<exists>e \<in> set es. ue_container_id e = cid \<and> ue_ended_at e = Some t)"
  by (auto simp: ended_times_def option.case_eq_if) force

lemma last_ended_ge:
  assumes "e \<in> set es" "ue_container_id e = cid" "ue_ended_at e = Some t"
  shows "\<exists>u. last_ended cid es = Some u \<and> t \<le> u"
proof -
  have "t \<in> set (ended_times cid es)" using assms in_ended_times by blast
  then show ?thesis by (auto simp: last_ended_def)
qed

lemma last_ended_in:
  assumes "last_ended cid es = Some u"
  shows "\<exists>e \<in> set es. ue_container_id e = cid \<and> ue_ended_at e = Some u"
proof -
  have "set (ended_times cid es) \<noteq> {}" "u = Max (set (ended_times cid es))"
    using assms by (auto simp: last_ended_def split: if_splits)
  then have "u \<in> set (ended_times cid es)" using Max_in [of "set (ended_times cid es)"] by simp
  then show ?thesis by (simp add: in_ended_times)
qed

lemma in_update_where: "y \<in> set (update_where P f xs) \<Longrightarrow> \<exists>x \<in> set xs. y = (if P x then f x else x)"
  unfolding update_where_def set_map by blast

lemma sorted_wrt_update_where:
  assumes "sorted_wrt R xs"
    and "\<And>x y. R x y \<Longrightarrow> x \<in> set xs \<Longrightarrow> y \<in> set xs \<Longrightarrow> R (if P x then f x else x) (if P y then f y else y)"
  shows "sorted_wrt R (update_where P f xs)"
  unfolding update_where_def sorted_wrt_map
  by (rule sorted_wrt_mono_rel [OF _ assms(1)]) (use assms(2) in blast)

lemma entry_ok_mono: "entry_ok t e \<Longrightarrow> t \<le> u \<Longrightarrow> entry_ok u e"
  by (auto simp: entry_ok_def)

lemma ledger_ok_cong: "entries db' = entries db \<Longrightarrow> now_at db' = now_at db \<Longrightarrow> ledger_ok db' = ledger_ok db"
  by (simp add: ledger_ok_def)

lemma ledger_ok_close_where:
  assumes "ledger_ok db" and "\<And>e. P e \<Longrightarrow> e \<in> set (entries db) \<Longrightarrow> ue_ended_at e = None \<and> \<not> is_provisional (ue_container_id e)"
  shows "ledger_ok (db\<lparr>entries := update_where P (close_entry r db) (entries db)\<rparr>)"
proof -
  have "sorted_wrt apart (update_where P (close_entry r db) (entries db))"
  proof (rule sorted_wrt_update_where)
    show "sorted_wrt apart (entries db)" using assms(1) by (simp add: ledger_ok_def)
    fix x y assume xy: "apart x y" "x \<in> set (entries db)" "y \<in> set (entries db)"
    then show "apart (if P x then close_entry r db x else x) (if P y then close_entry r db y else y)"
      using assms(2) [of x] by (auto simp: apart_def close_entry_def)
  qed
  moreover have "entry_ok (now_at db) (if P e then close_entry r db e else e)" if "e \<in> set (entries db)" for e
    using assms(1) assms(2) [of e] that by (auto simp: ledger_ok_def entry_ok_def close_entry_def)
  then have "entry_ok (now_at db) e" if "e \<in> set (update_where P (close_entry r db) (entries db))" for e
    using in_update_where [OF that] by metis
  ultimately show ?thesis by (simp add: ledger_ok_def)
qed

lemma ledger_ok_close [hezo_inv]: "ledger_ok db \<Longrightarrow> \<not> is_provisional cid \<Longrightarrow> ledger_ok (closeUptimeInterval cid r db)"
  unfolding closeUptimeInterval_def by (rule ledger_ok_close_where) (auto simp: is_open_def)

lemma ledger_ok_filter: "ledger_ok db \<Longrightarrow> ledger_ok (db\<lparr>entries := filter P (entries db)\<rparr>)"
  by (auto simp: ledger_ok_def intro: sorted_wrt_filter)

lemma ledger_ok_append:
  assumes "ledger_ok db" "entry_ok (now_at db) e" "\<And>a. a \<in> set (entries db) \<Longrightarrow> apart a e"
  shows "ledger_ok (db\<lparr>entries := entries db @ [e]\<rparr>)"
  using assms by (auto simp: ledger_ok_def sorted_wrt_append)

lemma not_has_open: "\<not> has_open cid db \<Longrightarrow> e \<in> set (entries db) \<Longrightarrow> ue_container_id e = cid \<Longrightarrow> \<exists>t. ue_ended_at e = Some t"
  by (auto simp: has_open_def is_open_def list_ex_iff)

lemma filter_members:
  assumes "distinct (map pm_container_id rows)"
  shows "filter (\<lambda>m. pm_container_id m = cid) rows = [] \<or> (\<exists>m \<in> set rows. pm_container_id m = cid \<and> filter (\<lambda>m. pm_container_id m = cid) rows = [m])"
proof (cases "\<exists>m \<in> set rows. pm_container_id m = cid")
  case True
  then show ?thesis using distinct_map_unique [OF assms] by blast
qed (simp add: filter_empty_conv)

lemma ledger_ok_open [hezo_inv]:
  assumes inv: "ledger_ok db" "rows_ok db" and since: "past since db"
  shows "ledger_ok (openUptimeInterval cid since db)"
proof (cases "has_open cid db \<or> filter (\<lambda>m. pm_container_id m = cid) (pool_rows db) = []")
  case True
  then show ?thesis using inv(1) by (auto simp: openUptimeInterval_def)
next
  case False
  then obtain m where m: "m \<in> set (pool_rows db)" "pm_container_id m = cid" "filter (\<lambda>m. pm_container_id m = cid) (pool_rows db) = [m]"
    using filter_members [of "pool_rows db" cid] inv(2) by (auto simp: rows_ok_def)
  let ?s = "greatest (case since of None \<Rightarrow> now_at db | Some t \<Rightarrow> t) (last_ended cid (entries db))"
  let ?e = "\<lparr>ue_project_id = Some (pm_project_id m), ue_container_id = pm_container_id m,
         ue_memory_bytes = pm_memory_bytes m, ue_disk_ceiling_bytes = pm_disk_ceiling_bytes m,
         ue_backend = sandbox_backend db, ue_started_at = ?s, ue_ended_at = None, ue_end_reason = None\<rparr>"
  have "u \<le> now_at db" if "last_ended cid (entries db) = Some u" for u
    using last_ended_in [OF that] inv(1) by (auto simp: ledger_ok_def entry_ok_def)
  then have "?s \<le> now_at db" using since by (auto simp: greatest_def past_def split: option.splits)
  then have ok: "entry_ok (now_at db) ?e" by (simp add: entry_ok_def)
  have "apart a ?e" if a: "a \<in> set (entries db)" for a
  proof -
    have "\<exists>t. ue_ended_at a = Some t \<and> t \<le> ?s" if c: "ue_container_id a = cid"
    proof -
      have "\<not> has_open cid db" using False by simp
      then obtain t where t: "ue_ended_at a = Some t" using not_has_open [OF _ a c] by auto
      then show ?thesis using last_ended_ge [OF a c t] by (auto simp: greatest_def)
    qed
    then show ?thesis using m(2) by (simp add: apart_def)
  qed
  then have "ledger_ok (db\<lparr>entries := entries db @ [?e]\<rparr>)" using ledger_ok_append [OF inv(1) ok] by blast
  then show ?thesis using False m(3) by (simp add: openUptimeInterval_def)
qed

lemma provisional_key [simp]: "is_provisional (provisionalContainerKey name)"
  by (simp add: is_provisional_def provisionalContainerKey_def)

lemma ledger_ok_provisional [hezo_inv]:
  assumes "ledger_ok db" "t \<le> now_at db"
  shows "ledger_ok (openProvisionalInterval name p mem disk t db)"
proof (cases "has_open (provisionalContainerKey name) db")
  case True
  then show ?thesis using assms(1) by (simp add: openProvisionalInterval_def)
next
  case False
  then have "ue_container_id a \<noteq> provisionalContainerKey name" if "a \<in> set (entries db)" for a
    using not_has_open [OF False that] assms(1) that by (fastforce simp: ledger_ok_def entry_ok_def)
  then show ?thesis
    using False assms by (simp add: openProvisionalInterval_def, intro ledger_ok_append) (auto simp: entry_ok_def apart_def)
qed

lemma update_where_none: "(\<And>x. x \<in> set xs \<Longrightarrow> \<not> P x) \<Longrightarrow> update_where P f xs = xs"
  unfolding update_where_def by (rule map_idI) simp

lemma ledger_ok_adopt [hezo_inv]:
  assumes inv: "ledger_ok db" and new: "fresh_adoption name cid db"
  shows "ledger_ok (snd (adoptProvisionalInterval name cid db))"
proof (cases "has_open cid db")
  case True
  let ?es = "filter (\<lambda>e. \<not> is_open (provisionalContainerKey name) e) (entries db)"
  have "update_where (is_open (provisionalContainerKey name)) (ue_container_id_update (\<lambda>_. cid)) ?es = ?es"
    by (rule update_where_none) simp
  then show ?thesis
    using True ledger_ok_filter [OF inv, of "\<lambda>e. \<not> is_open (provisionalContainerKey name) e"]
    by (simp add: adoptProvisionalInterval_def Let_def)
next
  case False
  let ?P = "is_open (provisionalContainerKey name)" and ?f = "\<lambda>e. e\<lparr>ue_container_id := cid\<rparr>"
  have none: "ue_container_id e \<noteq> cid" if "e \<in> set (entries db)" for e
    using False new that by (auto simp: has_open_def list_ex_iff is_open_def fresh_adoption_def)
  have "sorted_wrt apart (update_where ?P ?f (entries db))"
  proof (rule sorted_wrt_update_where)
    show "sorted_wrt apart (entries db)" using inv by (simp add: ledger_ok_def)
    fix x y assume "apart x y" "x \<in> set (entries db)" "y \<in> set (entries db)"
    then show "apart (if ?P x then ?f x else x) (if ?P y then ?f y else y)"
      using none [of x] none [of y] by (auto simp: apart_def is_open_def)
  qed
  moreover have "entry_ok (now_at db) (if ?P e then ?f e else e)" if "e \<in> set (entries db)" for e
    using inv that by (auto simp: ledger_ok_def entry_ok_def is_open_def)
  then have "entry_ok (now_at db) e" if "e \<in> set (update_where ?P ?f (entries db))" for e
    using in_update_where [OF that] by metis
  ultimately show ?thesis using False by (simp add: adoptProvisionalInterval_def Let_def ledger_ok_def)
qed

section \<open>Which containers are being billed\<close>

lemma has_open_open [simp]:
  "has_open c (openUptimeInterval cid s db) \<longleftrightarrow> has_open c db \<or> c = cid \<and> has_member cid db"
  by (auto simp: openUptimeInterval_def has_open_def has_member_def list_ex_iff is_open_def bex_Un)

lemma has_open_close [simp]: "has_open c (closeUptimeInterval cid r db) \<longleftrightarrow> has_open c db \<and> c \<noteq> cid"
  by (auto simp: closeUptimeInterval_def has_open_def list_ex_iff update_where_def is_open_def close_entry_def)

lemma has_open_touch [simp]: "has_open c (touch_members P f db) = has_open c db"
  by (simp add: touch_members_def has_open_def)

lemma has_open_rows [simp]: "has_open c (db\<lparr>pool_rows := rs\<rparr>) = has_open c db"
  by (simp add: has_open_def)

lemma has_open_provisional: "has_open c db \<Longrightarrow> has_open c (openProvisionalInterval name p mem disk t db)"
  by (auto simp: openProvisionalInterval_def has_open_def)

lemma has_open_discard: "\<not> is_provisional c \<Longrightarrow> has_open c db \<Longrightarrow> has_open c (discardProvisionalInterval name db)"
  by (auto simp: discardProvisionalInterval_def has_open_def list_ex_iff is_open_def)

lemma has_open_adopt:
  assumes "\<not> is_provisional c" "has_open c db"
  shows "has_open c (snd (adoptProvisionalInterval name cid db))"
proof -
  obtain e where e: "e \<in> set (entries db)" "is_open c e" using assms(2) by (auto simp: has_open_def list_ex_iff)
  have "\<not> is_open (provisionalContainerKey name) e" using assms(1) e(2) by (auto simp: is_open_def)
  then show ?thesis
    using e by (auto simp: adoptProvisionalInterval_def Let_def has_open_def list_ex_iff update_where_def intro!: rev_bexI [of e])
qed

lemma ledger_fields [simp]:
  "pool_rows (openUptimeInterval cid s db) = pool_rows db" "now_at (openUptimeInterval cid s db) = now_at db"
  "pool_rows (closeUptimeInterval cid r db) = pool_rows db" "now_at (closeUptimeInterval cid r db) = now_at db"
  "pool_rows (openProvisionalInterval name p mem disk t db) = pool_rows db"
  "pool_rows (discardProvisionalInterval name db) = pool_rows db"
  "pool_rows (snd (adoptProvisionalInterval name cid db)) = pool_rows db"
  "now_at (snd (adoptProvisionalInterval name cid db)) = now_at db"
  "now_at (touch_members P f db) = now_at db" "entries (touch_members P f db) = entries db"
  by (simp_all add: openUptimeInterval_def closeUptimeInterval_def openProvisionalInterval_def discardProvisionalInterval_def
        adoptProvisionalInterval_def Let_def touch_members_def)

lemma sync_fields [simp]:
  "pool_rows (syncUptimeForState cid st why s db) = pool_rows db" "now_at (syncUptimeForState cid st why s db) = now_at db"
  by (cases st; simp add: syncUptimeForState_def)+

lemma adopt_first_rows [simp]: "pool_rows (adopt_first cid names db) = pool_rows db"
proof (induction cid names db rule: adopt_first.induct)
  case (2 cid name names db)
  then show ?case
    using ledger_fields(7) [of "strip_slash name" cid db]
    by (cases "adoptProvisionalInterval (strip_slash name) cid db") (auto split: bool.split)
qed simp

section \<open>Every operation keeps the invariant\<close>

lemma rows_touch: "pool_rows (touch_members P f db) = map (\<lambda>m. if P m then (f m)\<lparr>pm_updated_at := now_at db\<rparr> else m) (pool_rows db)"
  by (simp add: touch_members_def update_where_def)

lemma ids_touch:
  "(\<And>m. pm_container_id (f m) = pm_container_id m) \<Longrightarrow>
   map pm_container_id (pool_rows (touch_members P f db)) = map pm_container_id (pool_rows db)"
  by (simp add: rows_touch comp_def if_distrib [where f = pm_container_id] cong: if_cong)

lemma rows_ok_ids: "rows_ok db \<longleftrightarrow> distinct (map pm_container_id (pool_rows db))
    \<and> (\<forall>i \<in> set (map pm_container_id (pool_rows db)). \<not> is_provisional i)"
  by (auto simp: rows_ok_def)

lemma rows_ok_touch: "(\<And>m. pm_container_id (f m) = pm_container_id m) \<Longrightarrow> rows_ok (touch_members P f db) = rows_ok db"
  by (simp only: rows_ok_ids ids_touch)

lemma has_member_touch: "(\<And>m. pm_container_id (f m) = pm_container_id m) \<Longrightarrow> has_member c (touch_members P f db) = has_member c db"
proof -
  assume "\<And>m. pm_container_id (f m) = pm_container_id m"
  from ids_touch [OF this, of P db] show ?thesis
    unfolding has_member_def list_ex_iff by (metis (no_types, lifting) image_iff list.set_map)
qed

lemma ledger_ok_touch [simp]: "ledger_ok (touch_members P f db) = ledger_ok db"
  by (simp add: ledger_ok_def)

lemma unique_row:
  "rows_ok db \<Longrightarrow> m \<in> set (pool_rows db) \<Longrightarrow> n \<in> set (pool_rows db) \<Longrightarrow> pm_container_id m = pm_container_id n \<Longrightarrow> m = n"
  by (auto simp: rows_ok_def distinct_map inj_on_def)

lemma metered_touch:
  assumes "metered_but X db" and "\<And>m. pm_container_id (f m) = pm_container_id m"
    and "\<And>m. m \<in> set (pool_rows db) \<Longrightarrow> P m \<Longrightarrow> pm_container_id m \<notin> X \<Longrightarrow> up (pm_state (f m)) \<Longrightarrow> up (pm_state m)"
  shows "metered_but X (touch_members P f db)"
  using assms by (fastforce simp: metered_but_def rows_touch)

lemma metered_sync:
  assumes "metered_but (insert cid X) db" and "\<And>m. m \<in> set (pool_rows db) \<Longrightarrow> pm_container_id m = cid \<Longrightarrow> pm_state m = st"
  shows "metered_but X (syncUptimeForState cid st why s db)"
proof -
  have "has_member cid db" if "m \<in> set (pool_rows db)" "pm_container_id m = cid" for m
    using that by (auto simp: has_member_def list_ex_iff)
  then show ?thesis
    using assms by (cases st) (fastforce simp: metered_but_def syncUptimeForState_def up_def)+
qed

lemma ledger_ok_sync:
  "ledger_ok db \<Longrightarrow> rows_ok db \<Longrightarrow> past s db \<Longrightarrow> \<not> is_provisional cid \<Longrightarrow> ledger_ok (syncUptimeForState cid st why s db)"
  by (cases st) (simp_all add: syncUptimeForState_def ledger_ok_open ledger_ok_close)

lemma past_touch [simp]: "past s (touch_members P f db) = past s db"
  by (cases s) (simp_all add: past_def)

lemma rows_ok_sync [simp]: "rows_ok (syncUptimeForState cid st why s db) = rows_ok db"
  by (simp add: rows_ok_def)

text \<open>The pattern of every state write: some rows of one container move to a state, and its interval follows.\<close>

lemma pool_inv_move:
  assumes inv: "pool_inv_but X db" and env: "\<not> is_provisional cid" "past s db"
    and f: "\<And>m. pm_container_id (f m) = pm_container_id m" "\<And>m. pm_state (f m) = st"
    and P: "\<And>m. P m \<Longrightarrow> pm_container_id m = cid"
      "\<And>m. m \<in> set (pool_rows db) \<Longrightarrow> pm_container_id m = cid \<Longrightarrow> \<not> P m \<Longrightarrow> pm_state m = st"
  shows "pool_inv_but X (syncUptimeForState cid st why s (touch_members P f db))"
proof -
  have "metered_but (insert cid X) db" using inv by (auto simp: pool_inv_but_def metered_but_def)
  then have "metered_but (insert cid X) (touch_members P f db)" by (rule metered_touch) (use f(1) P(1) in auto)
  moreover have "pm_state m = st" if row: "m \<in> set (pool_rows (touch_members P f db))" "pm_container_id m = cid" for m
  proof -
    obtain n where n: "n \<in> set (pool_rows db)" "m = (if P n then (f n)\<lparr>pm_updated_at := now_at db\<rparr> else n)"
      using row(1) unfolding rows_touch set_map by blast
    show ?thesis using n row(2) f(2) [of n] P(2) [of n] by (cases "P n") simp_all
  qed
  ultimately have "metered_but X (syncUptimeForState cid st why s (touch_members P f db))" by (rule metered_sync)
  then show ?thesis
    using inv env f(1) by (auto simp: pool_inv_but_def rows_ok_touch intro!: ledger_ok_sync)
qed

lemma pool_inv_touch:
  assumes "pool_inv_but X db" and "\<And>m. pm_container_id (f m) = pm_container_id m"
    and "\<And>m. m \<in> set (pool_rows db) \<Longrightarrow> P m \<Longrightarrow> up (pm_state (f m)) \<Longrightarrow> up (pm_state m)"
  shows "pool_inv_but X (touch_members P f db)"
  using assms by (auto simp: pool_inv_but_def rows_ok_touch intro!: metered_touch)

lemma at_stateD:
  assumes "rows_ok db" "list_ex (at_state cid st) (pool_rows db)"
  shows "\<not> is_provisional cid" "m \<in> set (pool_rows db) \<Longrightarrow> pm_container_id m = cid \<Longrightarrow> at_state cid st m"
proof -
  obtain n where n: "n \<in> set (pool_rows db)" "pm_container_id n = cid" "pm_state n = st"
    using assms(2) by (auto simp: list_ex_iff at_state_def)
  then show "\<not> is_provisional cid" using assms(1) by (auto simp: rows_ok_def)
  show "at_state cid st m" if "m \<in> set (pool_rows db)" "pm_container_id m = cid"
    using unique_row [OF assms(1) n(1) that(1)] n that by (simp add: at_state_def)
qed

lemma pool_inv_claim [hezo_inv]: "pool_inv_but X db \<Longrightarrow> pool_inv_but X (snd (claimPoolMember cid t db))"
proof (cases "list_ex (at_state cid PoolIdle) (pool_rows db)")
  case True
  assume inv: "pool_inv_but X db"
  then have "rows_ok db" by (simp add: pool_inv_but_def)
  then show ?thesis
    unfolding claimPoolMember_def using True inv at_stateD [OF _ True]
    by (simp, intro pool_inv_move) (auto simp: past_def at_state_def)
qed (simp add: claimPoolMember_def)

lemma pool_inv_markRunning [hezo_inv]: "pool_inv_but X db \<Longrightarrow> past s db \<Longrightarrow> pool_inv_but X (snd (markPoolMemberRunning cid s db))"
proof (cases "list_ex (at_state cid PoolSuspended) (pool_rows db)")
  case True
  assume inv: "pool_inv_but X db" "past s db"
  then have "rows_ok db" by (simp add: pool_inv_but_def)
  then show ?thesis
    unfolding markPoolMemberRunning_def using True inv at_stateD [OF _ True]
    by (simp, intro pool_inv_move) (auto simp: at_state_def)
qed (simp add: markPoolMemberRunning_def)

lemma pool_inv_releaseIfGone [hezo_inv]: "pool_inv_but X db \<Longrightarrow> pool_inv_but X (snd (releaseClaimIfRunGone cid db))"
proof (cases "list_ex (at_state cid PoolBusy) (pool_rows db) \<and> cid \<notin> running_on db")
  case True
  assume inv: "pool_inv_but X db"
  then have "rows_ok db" by (simp add: pool_inv_but_def)
  then show ?thesis
    unfolding releaseClaimIfRunGone_def using True inv at_stateD [of db cid PoolBusy]
    by (simp, intro pool_inv_move) (auto simp: past_def at_state_def)
qed (auto simp: releaseClaimIfRunGone_def)

lemma pool_inv_release [hezo_inv]: "pool_inv_but X db \<Longrightarrow> pool_inv_but X (releasePoolMember cid t c db)"
proof -
  assume inv: "pool_inv_but X db"
  let ?moves = "\<lambda>m. pm_container_id m = cid \<and> pm_state m \<noteq> PoolSuspended"
  let ?f = "\<lambda>m. m\<lparr>pm_state := PoolIdle, pm_last_task_id := coalesce t (pm_last_task_id m),
                  pm_last_released_at := Some (now_at db),
                  pm_chat_released_at := (if c then Some (now_at db) else None)\<rparr>"
  show ?thesis
  proof (cases "list_ex ?moves (pool_rows db)")
    case True
    then obtain n where n: "n \<in> set (pool_rows db)" "pm_container_id n = cid" "pm_state n \<noteq> PoolSuspended"
      by (auto simp: list_ex_iff)
    have ok: "rows_ok db" using inv by (simp add: pool_inv_but_def)
    have np: "\<not> is_provisional cid" using ok n by (auto simp: rows_ok_def)
    have "m = n" if "m \<in> set (pool_rows db)" "pm_container_id m = cid" for m
      using unique_row [OF ok that(1) n(1)] that(2) n(2) by simp
    then have "pool_inv_but X (syncUptimeForState cid PoolIdle None None (touch_members ?moves ?f db))"
      using n(3) by (intro pool_inv_move [OF inv np]) (simp_all add: past_def)
    then show ?thesis using True by (simp add: releasePoolMember_def Let_def)
  next
    case False
    then have "touch_members ?moves ?f db = db"
      by (simp add: touch_members_def list_ex_iff update_where_none)
    then show ?thesis using False inv by (simp add: releasePoolMember_def Let_def)
  qed
qed

lemma pool_inv_setState [hezo_inv]:
  assumes "pool_inv_but X db" "\<not> is_provisional cid" "past s db"
  shows "pool_inv_but X (setPoolMemberState cid st why s db)"
  unfolding setPoolMemberState_def by (intro pool_inv_move assms) simp_all

lemma pool_inv_outcome [hezo_inv]: "pool_inv_but X db \<Longrightarrow> pool_inv_but X (setPoolMemberOutcome cid l e db)"
  unfolding setPoolMemberOutcome_def by (intro pool_inv_touch) simp_all

lemma pool_inv_flag [hezo_inv]: "pool_inv_but X db \<Longrightarrow> pool_inv_but X (setPoolMemberUnpushedFlag cid b db)"
  unfolding setPoolMemberUnpushedFlag_def by (cases b) (auto intro!: pool_inv_touch)

lemma pool_inv_disk [hezo_inv]: "pool_inv_but X db \<Longrightarrow> pool_inv_but X (setPoolMemberDiskUsage cid n db)"
  unfolding setPoolMemberDiskUsage_def by (intro pool_inv_touch) simp_all

lemma pool_inv_memory [hezo_inv]: "pool_inv_but X db \<Longrightarrow> pool_inv_but X (recordPoolMemberMemoryIfUnknown cid n db)"
  unfolding recordPoolMemberMemoryIfUnknown_def by (cases n) (auto intro!: pool_inv_touch)

lemma pool_inv_beginStop [hezo_inv]: "pool_inv_but X db \<Longrightarrow> pool_inv_but X (snd (beginPoolMemberStop cid db))"
  unfolding beginPoolMemberStop_def by (simp, intro pool_inv_touch) (simp_all add: up_def)

lemma pool_inv_error:
  "pool_inv_but X db \<Longrightarrow> pool_inv_but X (touch_members (\<lambda>m. pm_state m = PoolCreating)
     (\<lambda>m. m\<lparr>pm_state := PoolError, pm_last_error := e\<rparr>) db)"
  by (intro pool_inv_touch) (simp_all add: up_def)

lemma fold_sync_error: "fold (\<lambda>i. syncUptimeForState i PoolError None None) ids db = db"
  by (induction ids) (simp_all add: syncUptimeForState_def)

lemma pool_inv_interrupted [hezo_inv]: "pool_inv_but X db \<Longrightarrow> pool_inv_but X (snd (failInterruptedProvisions db))"
  by (simp add: failInterruptedProvisions_def Let_def fold_sync_error pool_inv_error)

text \<open>A pass of syncs over several containers that now stand in one state.\<close>

lemma pool_inv_sync_all:
  assumes "ledger_ok db" "rows_ok db" "metered_but (set ids \<union> X) db"
    and "\<And>m. m \<in> set (pool_rows db) \<Longrightarrow> pm_container_id m \<in> set ids \<Longrightarrow> pm_state m = PoolIdle"
    and "\<And>i. i \<in> set ids \<Longrightarrow> \<not> is_provisional i"
  shows "pool_inv_but X (fold (\<lambda>i. syncUptimeForState i PoolIdle None None) ids db)"
  using assms
proof (induction ids arbitrary: db)
  case Nil
  then show ?case by (simp add: pool_inv_but_def)
next
  case (Cons i ids)
  let ?db = "syncUptimeForState i PoolIdle None None db"
  have "metered_but (set ids \<union> X) ?db" using Cons.prems by (intro metered_sync) simp_all
  moreover have "ledger_ok ?db" using Cons.prems by (intro ledger_ok_sync) (simp_all add: past_def)
  ultimately have "pool_inv_but X (fold (\<lambda>i. syncUptimeForState i PoolIdle None None) ids ?db)"
    using Cons.prems by (intro Cons.IH) simp_all
  then show ?case by simp
qed

lemma pool_inv_reclaimBusy [hezo_inv]:
  assumes inv: "pool_inv_but X db"
  shows "pool_inv_but X (snd (reclaimBusyPoolMembers db))"
proof -
  let ?busy = "\<lambda>m. pm_state m = PoolBusy"
  let ?ids = "map pm_container_id (filter ?busy (pool_rows db))"
  let ?f = "\<lambda>m. m\<lparr>pm_state := PoolIdle, pm_last_released_at := Some (now_at db)\<rparr>"
  have ok: "rows_ok db" and led: "ledger_ok db" and met: "metered_but X db" using inv by (simp_all add: pool_inv_but_def)
  have "metered_but (set ?ids \<union> X) db" using met by (auto simp: metered_but_def)
  then have "metered_but (set ?ids \<union> X) (touch_members ?busy ?f db)" by (rule metered_touch) auto
  moreover have "pm_state m = PoolIdle"
    if row: "m \<in> set (pool_rows (touch_members ?busy ?f db))" "pm_container_id m \<in> set ?ids" for m
  proof -
    obtain n where n: "n \<in> set (pool_rows db)" "m = (if ?busy n then (?f n)\<lparr>pm_updated_at := now_at db\<rparr> else n)"
      using row(1) unfolding rows_touch set_map by blast
    obtain k where k: "k \<in> set (pool_rows db)" "?busy k" "pm_container_id k = pm_container_id m" using row(2) by auto
    have "n = k" using unique_row [OF ok n(1) k(1)] n(2) k(3) by (auto split: if_splits)
    then show ?thesis using n(2) k(2) by simp
  qed
  moreover have "\<not> is_provisional i" if "i \<in> set ?ids" for i using ok that by (auto simp: rows_ok_def)
  ultimately have "pool_inv_but X (fold (\<lambda>i. syncUptimeForState i PoolIdle None None) ?ids (touch_members ?busy ?f db))"
    using led ok by (intro pool_inv_sync_all) (simp_all add: rows_ok_touch)
  then show ?thesis by (simp add: reclaimBusyPoolMembers_def Let_def)
qed

lemma pool_inv_upsert [hezo_inv]:
  assumes inv: "pool_inv_but X db" and np: "\<not> is_provisional cid" and since: "past s db"
  shows "pool_inv_but X (upsertPoolMember p cid st disk mem img s db)"
proof (cases "has_member cid db")
  case True
  define moved where "moved = (\<lambda>m :: pool_row. m\<lparr>pm_state := st, pm_project_id := p,
             pm_disk_ceiling_bytes := (case map_option poolDiskCeilingBytes disk of None \<Rightarrow> pm_disk_ceiling_bytes m | Some c \<Rightarrow> c),
             pm_memory_bytes := coalesce mem (pm_memory_bytes m),
             pm_image_version := coalesce img (pm_image_version m)\<rparr>)"
  have moved: "pm_container_id (moved m) = pm_container_id m" "pm_state (moved m) = st" for m
    by (simp_all add: moved_def)
  have "pm_state m = st" if "moved m = m" for m using moved(2) [of m] that by simp
  then have "pool_inv_but X (syncUptimeForState cid st None s (touch_members (\<lambda>m. pm_container_id m = cid \<and> moved m \<noteq> m) moved db))"
    by (intro pool_inv_move inv np since moved) auto
  then show ?thesis using True by (simp add: upsertPoolMember_def Let_def moved_def)
next
  case False
  then have new: "cid \<notin> set (map pm_container_id (pool_rows db))" by (auto simp: has_member_def list_ex_iff)
  obtain fresh where fresh: "upsertPoolMember p cid st disk mem img s db =
      syncUptimeForState cid st None s (db\<lparr>pool_rows := pool_rows db @ [fresh]\<rparr>)"
      "pm_container_id fresh = cid" "pm_state fresh = st"
    using False by (auto simp: upsertPoolMember_def Let_def)
  let ?db = "db\<lparr>pool_rows := pool_rows db @ [fresh]\<rparr>"
  have "metered_but (insert cid X) ?db" using inv fresh by (auto simp: metered_but_def pool_inv_but_def)
  then have "metered_but X (syncUptimeForState cid st None s ?db)"
    by (rule metered_sync) (use new fresh in auto)
  moreover have "rows_ok ?db" using inv new np fresh by (auto simp: pool_inv_but_def rows_ok_def)
  moreover have "ledger_ok ?db" "past s ?db" using inv since by (auto simp: pool_inv_but_def ledger_ok_def past_def split: option.splits)
  ultimately show ?thesis using np by (simp add: fresh(1) pool_inv_but_def ledger_ok_sync)
qed

lemma metered_mono:
  "metered_but X db \<Longrightarrow> pool_rows db' = pool_rows db \<Longrightarrow>
   (\<And>m. m \<in> set (pool_rows db) \<Longrightarrow> up (pm_state m) \<Longrightarrow> has_open (pm_container_id m) db \<Longrightarrow> has_open (pm_container_id m) db') \<Longrightarrow>
   metered_but X db'"
  by (auto simp: metered_but_def)

text \<open>An operation on the ledger alone keeps the invariant if it closes nothing the pool believes up.\<close>

lemma pool_inv_ledger:
  assumes "pool_inv_but X db" "pool_rows db' = pool_rows db" "ledger_ok db'"
    and "\<And>m. m \<in> set (pool_rows db) \<Longrightarrow> up (pm_state m) \<Longrightarrow> \<not> is_provisional (pm_container_id m) \<Longrightarrow>
      has_open (pm_container_id m) db \<Longrightarrow> has_open (pm_container_id m) db'"
  shows "pool_inv_but X db'"
  using assms by (auto simp: pool_inv_but_def rows_ok_def intro!: metered_mono [of X db db'])

lemma pool_inv_adopt:
  assumes "pool_inv_but X db" "fresh_adoption name cid db"
  shows "pool_inv_but X (snd (adoptProvisionalInterval name cid db))"
  using assms by (intro pool_inv_ledger [OF assms(1)]) (auto simp: pool_inv_but_def ledger_ok_adopt has_open_adopt)

lemma fresh_after_adopt:
  assumes "fresh_adoption name cid db"
  shows "fresh_adoption name' cid (snd (adoptProvisionalInterval n cid db))"
proof -
  have "ue_ended_at e = None"
    if e: "e \<in> set (entries (snd (adoptProvisionalInterval n cid db)))" "ue_container_id e = cid" for e
  proof -
    let ?es = "if has_open cid db then filter (\<lambda>e. \<not> is_open (provisionalContainerKey n) e) (entries db) else entries db"
    have "e \<in> set (update_where (is_open (provisionalContainerKey n)) (\<lambda>e. e\<lparr>ue_container_id := cid\<rparr>) ?es)"
      using e(1) by (simp add: adoptProvisionalInterval_def Let_def split: if_splits)
    from in_update_where [OF this]
    obtain x where x: "x \<in> set (entries db)" "e = (if is_open (provisionalContainerKey n) x then x\<lparr>ue_container_id := cid\<rparr> else x)"
      by (auto split: if_splits)
    then show ?thesis
      using e(2) assms by (cases "is_open (provisionalContainerKey n) x") (auto simp: fresh_adoption_def is_open_def)
  qed
  then show ?thesis using assms by (simp add: fresh_adoption_def)
qed

lemma pool_inv_adopt_first:
  "pool_inv_but X db \<Longrightarrow> \<forall>n \<in> set names. fresh_adoption n cid db \<Longrightarrow> pool_inv_but X (adopt_first cid names db)"
proof (induction cid names db rule: adopt_first.induct)
  case (2 cid name names db)
  have fresh: "fresh_adoption n' cid db" for n' using 2(3) by (auto simp: fresh_adoption_def)
  then show ?case
    using 2 pool_inv_adopt [OF 2(2) fresh, of "strip_slash name"] fresh_after_adopt [OF fresh]
    by (auto split: prod.split bool.split) (metis snd_conv)+
qed simp

lemma pool_inv_close:
  assumes "pool_inv_but X db" "\<not> is_provisional cid"
  shows "pool_inv_but (insert cid X) (closeUptimeInterval cid r db)"
  using assms by (auto simp: pool_inv_but_def ledger_ok_close rows_ok_def metered_but_def)

lemma pool_inv_forget: "pool_inv_but X db \<Longrightarrow> pool_inv_but X (forgetPoolMember cid db)"
  by (auto simp: pool_inv_but_def forgetPoolMember_def ledger_ok_def rows_ok_def metered_but_def distinct_map_filter)

lemma pool_inv_remove:
  assumes "pool_inv_but X db" "\<not> is_provisional cid"
  shows "pool_inv_but X (removePoolMember cid db)"
  using assms unfolding removePoolMember_def
  by (auto simp: pool_inv_but_def forgetPoolMember_def rows_ok_def metered_but_def distinct_map_filter ledger_ok_close
      ledger_ok_cong [of "closeUptimeInterval cid EndDestroyed db\<lparr>pool_rows := _\<rparr>" "closeUptimeInterval cid EndDestroyed db"])

lemma pool_inv_clear:
  assumes "pool_inv_but X db"
  shows "pool_inv_but X (snd (clearAllPoolMembers db))"
proof -
  have "ledger_ok (closeUptimeIntervalsForMembers EndDestroyed db)"
    unfolding closeUptimeIntervalsForMembers_def
    by (rule ledger_ok_close_where) (use assms in \<open>auto simp: pool_inv_but_def rows_ok_def has_member_def list_ex_iff\<close>)
  then show ?thesis by (simp add: clearAllPoolMembers_def pool_inv_but_def ledger_ok_def rows_ok_def metered_but_def)
qed

lemma pool_inv_openCreate:
  assumes "pool_inv_but X db" "sent \<le> now_at db"
  shows "pool_inv_but X (openCreateRequestUptime name p mem disk sent db)"
  unfolding openCreateRequestUptime_def using assms(1)
  by (rule pool_inv_ledger) (use assms in \<open>auto simp: pool_inv_but_def ledger_ok_provisional has_open_provisional\<close>)

lemma pool_inv_discard: "pool_inv_but X db \<Longrightarrow> pool_inv_but X (discardProvisionalInterval name db)"
  by (rule pool_inv_ledger [of X db])
    (auto simp: pool_inv_but_def has_open_discard, auto simp: discardProvisionalInterval_def ledger_ok_filter)

lemma pool_inv_ensure: "pool_inv_but X db \<Longrightarrow> pool_inv_but X (ensurePoolMemberUptimeOpen cid db)"
  unfolding ensurePoolMemberUptimeOpen_def
  by (rule pool_inv_ledger [of X db]) (auto simp: pool_inv_but_def ledger_ok_open past_def)

lemma pool_inv_wedged: "pool_inv_but X db \<Longrightarrow> pool_inv_but X (failWedgedProvision cid db)"
  unfolding failWedgedProvision_def setPoolMemberState_def syncUptimeForState_def
  by (intro pool_inv_outcome) (auto simp: up_def intro!: pool_inv_touch)

lemma pool_inv_reaped:
  assumes "pool_inv_but X db" "allowed (SettleReaped cid names) db"
  shows "pool_inv_but (insert cid X) (settleReapedContainerUptime cid names db)"
proof -
  have "pool_inv_but X (adopt_first cid names db)" using assms by (intro pool_inv_adopt_first) simp_all
  then show ?thesis unfolding settleReapedContainerUptime_def by (rule pool_inv_close) (use assms(2) in simp)
qed

lemma pool_inv_settle:
  "pool_inv_but X db \<Longrightarrow> allowed (SettleCreate name c) db \<Longrightarrow> pool_inv_but X (settleCreateRequestUptime name c db)"
  by (cases c) (simp_all add: settleCreateRequestUptime_def pool_inv_discard pool_inv_adopt)

lemma pool_inv_advance: "pool_inv_but X db \<Longrightarrow> now_at db \<le> t \<Longrightarrow> pool_inv_but X (db\<lparr>now_at := t\<rparr>)"
  by (auto simp: pool_inv_but_def ledger_ok_def rows_ok_def metered_but_def has_open_def intro: entry_ok_mono)

lemma pool_inv_runs: "pool_inv_but X db \<Longrightarrow> pool_inv_but X (db\<lparr>running_on := R\<rparr>)"
  by (simp add: pool_inv_but_def ledger_ok_def rows_ok_def metered_but_def has_open_def)

lemmas pool_inv_ops = pool_inv_openCreate pool_inv_ensure pool_inv_wedged pool_inv_settle pool_inv_advance
  pool_inv_runs pool_inv_adopt pool_inv_forget pool_inv_remove pool_inv_clear

text \<open>The containers an operation closes without moving their member.\<close>

fun closed_by_hand :: "pool_op \<Rightarrow> string set" where
  "closed_by_hand (CloseContainer cid r) = {cid}"
| "closed_by_hand (SettleReaped cid names) = {cid}"
| "closed_by_hand _ = {}"

lemma pool_step_inv: "pool_inv_but X db \<Longrightarrow> allowed op db \<Longrightarrow> pool_inv_but (closed_by_hand op \<union> X) (apply_op op db)"
  by (cases op)
    (simp_all add: hezo_inv pool_inv_ops pool_inv_close pool_inv_reaped adoptCreateRequestUptime_def closeContainerUptime_def)

lemma pool_step_ok: "pool_ok db \<Longrightarrow> allowed op db \<Longrightarrow> pool_ok (apply_op op db)"
proof -
  assume "pool_ok db" "allowed op db"
  then have "pool_inv_but UNIV db" by (simp add: pool_ok_def pool_inv_but_def metered_but_def)
  from pool_step_inv [OF this \<open>allowed op db\<close>] show ?thesis by (simp add: pool_ok_def pool_inv_but_def)
qed

interpretation pool: inductive_invariant pool_init pool_step pool_ok
proof unfold_locales
  show "pool_init db \<Longrightarrow> pool_ok db" for db
    by (simp add: pool_init_def pool_ok_def ledger_ok_def rows_ok_def)
  show "pool_ok db \<Longrightarrow> pool_step db db' \<Longrightarrow> pool_ok db'" for db db'
    by (auto elim!: pool_stepE intro: pool_step_ok)
qed

text \<open>A run of the pool, with the operations it made in order.\<close>

inductive pool_run :: "pool_op list \<Rightarrow> pool_db \<Rightarrow> bool" where
  run_init: "pool_init db \<Longrightarrow> pool_run [] db"
| run_op: "pool_run ops db \<Longrightarrow> allowed op db \<Longrightarrow> pool_run (ops @ [op]) (apply_op op db)"

lemma run_reach: "pool_run ops db \<Longrightarrow> reach pool_init pool_step db"
  by (induction rule: pool_run.induct) (auto intro: reach_init reach_step pool_step.intros)

lemma reach_run: "reach pool_init pool_step db \<Longrightarrow> \<exists>ops. pool_run ops db"
  by (induction rule: reach.induct) (auto elim!: pool_stepE intro: pool_run.intros)


section \<open>The meter a container has\<close>

text \<open>
  What the ledger promises for one container, without rows: the time billed by finished
  stretches, the start of the running one, and when the last one ended. Starting a running meter
  and stopping a stopped one change nothing, and a stretch never starts before the last one ended.
\<close>

record meter =
  billed :: int
  since :: "int option"
  last_stop :: "int option"

definition meter_start :: "int \<Rightarrow> meter \<Rightarrow> meter" where
  "meter_start t m = (if since m = None then m\<lparr>since := Some (greatest t (last_stop m))\<rparr> else m)"

definition meter_stop :: "int \<Rightarrow> meter \<Rightarrow> meter" where
  "meter_stop now m = (case since m of
     None \<Rightarrow> m
   | Some s \<Rightarrow> \<lparr>billed = billed m + (now - s), since = None, last_stop = Some now\<rparr>)"

locale meter_implementation =
  fixes ok :: "'s \<Rightarrow> bool" and read :: "'s \<Rightarrow> meter" and clock :: "'s \<Rightarrow> int"
    and start :: "int option \<Rightarrow> 's \<Rightarrow> 's" and stop :: "'s \<Rightarrow> 's"
  assumes start_refines: "ok s \<Longrightarrow> read (start t s) = meter_start (case t of None \<Rightarrow> clock s | Some u \<Rightarrow> u) (read s)"
    and stop_refines: "ok s \<Longrightarrow> read (stop s) = meter_stop (clock s) (read s)"
    and start_ok: "ok s \<Longrightarrow> (\<forall>u. t = Some u \<longrightarrow> u \<le> clock s) \<Longrightarrow> ok (start t s)"
    and stop_ok: "ok s \<Longrightarrow> ok (stop s)"
    and same_clock: "clock (start t s) = clock s" "clock (stop s) = clock s"
begin

lemma start_twice:
  assumes "ok s" "\<forall>u. t = Some u \<longrightarrow> u \<le> clock s"
  shows "read (start t' (start t s)) = read (start t s)"
  using assms start_refines start_ok by (simp add: meter_start_def)

lemma stop_twice: "ok s \<Longrightarrow> read (stop (stop s)) = read (stop s)"
  using stop_refines stop_ok by (simp add: meter_stop_def split: option.splits)

lemma stop_then_start:
  assumes "ok s" "since (read s) = Some b" "\<forall>u. t = Some u \<longrightarrow> u \<le> clock s"
  shows "since (read (start t (stop s))) = Some (clock s)" "billed (read (start t (stop s))) = billed (read s) + (clock s - b)"
  using assms stop_refines [of s] start_refines [of "stop s" t] stop_ok [of s] same_clock(2) [of s]
  by (auto simp: meter_start_def meter_stop_def greatest_def split: option.splits)

end

definition span :: "uptime_entry \<Rightarrow> int" where
  "span e = (case ue_ended_at e of None \<Rightarrow> 0 | Some t \<Rightarrow> t - ue_started_at e)"

definition read_meter :: "string \<Rightarrow> pool_db \<Rightarrow> meter" where
  "read_meter cid db =
     \<lparr>billed = sum_list (map span (filter (\<lambda>e. ue_container_id e = cid) (entries db))),
      since = map_option ue_started_at (find (is_open cid) (entries db)),
      last_stop = last_ended cid (entries db)\<rparr>"

lemma open_split:
  assumes "ledger_ok db" "has_open cid db"
  obtains xs e ys where "entries db = xs @ e # ys" "is_open cid e" "\<And>x. x \<in> set xs \<Longrightarrow> \<not> is_open cid x"
    "\<And>y. y \<in> set ys \<Longrightarrow> ue_container_id y \<noteq> cid"
proof -
  obtain xs e ys where split: "entries db = xs @ e # ys" "is_open cid e" "\<And>x. x \<in> set xs \<Longrightarrow> \<not> is_open cid x"
    using split_list_first_prop [of "entries db" "is_open cid"] assms(2) by (auto simp: has_open_def list_ex_iff)
  have "ue_container_id y \<noteq> cid" if "y \<in> set ys" for y
    using assms(1) split(1,2) that by (fastforce simp: ledger_ok_def sorted_wrt_append apart_def is_open_def)
  with split show ?thesis by (rule that)
qed

lemma open_once: "ledger_ok db \<Longrightarrow> length (filter (is_open cid) (entries db)) = (if has_open cid db then 1 else 0)"
proof (cases "has_open cid db")
  case True
  assume "ledger_ok db"
  then obtain xs e ys where e: "entries db = xs @ e # ys" "is_open cid e" "\<And>x. x \<in> set xs \<Longrightarrow> \<not> is_open cid x"
    "\<And>y. y \<in> set ys \<Longrightarrow> ue_container_id y \<noteq> cid"
    using True by (rule open_split) blast
  have "filter (is_open cid) xs = []" "filter (is_open cid) ys = []"
    using e(3,4) by (auto simp: filter_empty_conv is_open_def)
  then show ?thesis using True e(1,2) by simp
next
  case False
  then show ?thesis by (auto simp: has_open_def list_ex_iff filter_empty_conv)
qed

lemma find_None_open: "find (is_open cid) (entries db) = None \<longleftrightarrow> \<not> has_open cid db"
  by (auto simp: find_None_iff has_open_def list_ex_iff)

lemma ended_times_append: "ended_times cid (xs @ ys) = ended_times cid xs @ ended_times cid ys"
  by (simp add: ended_times_def)

lemma ended_times_Cons: "ended_times cid (e # es) =
   (if ue_container_id e = cid then (case ue_ended_at e of None \<Rightarrow> [] | Some t \<Rightarrow> [t]) else []) @ ended_times cid es"
  by (simp add: ended_times_def)

lemma last_ended_append_open: "ue_ended_at e = None \<Longrightarrow> last_ended cid (es @ [e]) = last_ended cid es"
proof -
  assume "ue_ended_at e = None"
  then have "ended_times cid (es @ [e]) = ended_times cid es" by (simp add: ended_times_def)
  then show ?thesis by (simp add: last_ended_def)
qed

lemma find_append: "find P (xs @ ys) = (case find P xs of None \<Rightarrow> find P ys | Some x \<Rightarrow> Some x)"
  by (induction xs) auto

lemma meter_open:
  assumes "rows_ok db" "has_member cid db"
  shows "read_meter cid (openUptimeInterval cid t db)
    = meter_start (case t of None \<Rightarrow> now_at db | Some u \<Rightarrow> u) (read_meter cid db)"
proof (cases "has_open cid db")
  case True
  then have "find (is_open cid) (entries db) \<noteq> None" by (simp add: find_None_open)
  then show ?thesis using True by (auto simp: openUptimeInterval_def meter_start_def read_meter_def)
next
  case False
  obtain m where m: "pm_container_id m = cid" "filter (\<lambda>m. pm_container_id m = cid) (pool_rows db) = [m]"
    using assms filter_members [of "pool_rows db" cid] by (auto simp: rows_ok_def has_member_def list_ex_iff filter_empty_conv)
  have "find (is_open cid) (entries db) = None" using False by (simp add: find_None_open)
  then show ?thesis
    using False m by (simp add: openUptimeInterval_def read_meter_def meter_start_def find_append last_ended_append_open
        is_open_def span_def)
qed

lemma close_split:
  assumes "entries db = xs @ e # ys" "is_open cid e" "\<And>x. x \<in> set xs \<Longrightarrow> \<not> is_open cid x"
    "\<And>y. y \<in> set ys \<Longrightarrow> ue_container_id y \<noteq> cid"
  shows "entries (closeUptimeInterval cid r db) = xs @ close_entry r db e # ys"
  using assms update_where_none [of xs "is_open cid" "close_entry r db"] update_where_none [of ys "is_open cid" "close_entry r db"]
  by (auto simp: closeUptimeInterval_def update_where_def is_open_def)

lemma meter_close:
  assumes "ledger_ok db"
  shows "read_meter cid (closeUptimeInterval cid r db) = meter_stop (now_at db) (read_meter cid db)"
proof (cases "has_open cid db")
  case True
  obtain xs e ys where e: "entries db = xs @ e # ys" "is_open cid e" "\<And>x. x \<in> set xs \<Longrightarrow> \<not> is_open cid x"
    "\<And>y. y \<in> set ys \<Longrightarrow> ue_container_id y \<noteq> cid"
    using assms True by (rule open_split) blast
  let ?e = "close_entry r db e"
  have cid: "ue_container_id e = cid" "ue_ended_at e = None" using e(2) by (simp_all add: is_open_def)
  have ys: "filter (\<lambda>e. ue_container_id e = cid) ys = []" "ended_times cid ys = []" "find (is_open cid) ys = None"
    using e(4) by (auto simp: filter_empty_conv ended_times_def find_None_iff is_open_def)
  have xs: "find (is_open cid) xs = None" using e(3) by (simp add: find_None_iff)
  have "t \<le> now_at db" if "t \<in> set (ended_times cid xs)" for t
    using that assms e(1) by (auto simp: in_ended_times ledger_ok_def entry_ok_def)
  then have "Max (insert (now_at db) (set (ended_times cid xs))) = now_at db" by (intro Max_eqI) auto
  then have last: "last_ended cid (xs @ ?e # ys) = Some (now_at db)"
    using cid ys(2) by (simp add: last_ended_def ended_times_append ended_times_Cons close_entry_def)
  have "read_meter cid (closeUptimeInterval cid r db) =
      \<lparr>billed = sum_list (map span (filter (\<lambda>e. ue_container_id e = cid) xs)) + (now_at db - ue_started_at e),
       since = None, last_stop = Some (now_at db)\<rparr>"
    unfolding read_meter_def close_split [OF e, simplified] using last xs ys cid
    by (simp add: find_append span_def close_entry_def is_open_def)
  moreover have "billed (read_meter cid db) = sum_list (map span (filter (\<lambda>e. ue_container_id e = cid) xs))"
    "since (read_meter cid db) = Some (ue_started_at e)"
    using e(1,2) xs ys cid by (simp_all add: read_meter_def find_append span_def)
  ultimately show ?thesis by (simp add: meter_stop_def)
next
  case False
  then have "closeUptimeInterval cid r db = db"
    by (simp add: closeUptimeInterval_def has_open_def list_ex_iff update_where_none)
  then show ?thesis using False find_None_open [of cid db] by (simp add: meter_stop_def read_meter_def)
qed

lemma member_not_provisional: "rows_ok db \<Longrightarrow> has_member cid db \<Longrightarrow> \<not> is_provisional cid"
  by (auto simp: rows_ok_def has_member_def list_ex_iff)

interpretation ledger: meter_implementation
  "\<lambda>db. ledger_ok db \<and> rows_ok db \<and> has_member cid db" "read_meter cid" now_at
  "openUptimeInterval cid" "closeUptimeInterval cid r" for cid r
proof unfold_locales
  fix t :: "int option" and s
  assume "ledger_ok s \<and> rows_ok s \<and> has_member cid s" and "\<forall>u. t = Some u \<longrightarrow> u \<le> now_at s"
  then show "ledger_ok (openUptimeInterval cid t s) \<and> rows_ok (openUptimeInterval cid t s) \<and> has_member cid (openUptimeInterval cid t s)"
    by (auto simp: rows_ok_def has_member_def past_def intro!: ledger_ok_open split: option.splits)
qed (auto simp: meter_open meter_close rows_ok_def has_member_def list_ex_iff intro!: ledger_ok_close)

lemma meter_other:
  "c \<noteq> cid \<Longrightarrow> read_meter c (openUptimeInterval cid t db) = read_meter c db"
  "c \<noteq> cid \<Longrightarrow> read_meter c (closeUptimeInterval cid r db) = read_meter c db"
proof -
  assume c: "c \<noteq> cid"
  have app: "entries db' = entries db @ es \<Longrightarrow> (\<And>e. e \<in> set es \<Longrightarrow> ue_container_id e \<noteq> c) \<Longrightarrow> read_meter c db' = read_meter c db"
    for db' es
  proof -
    assume es: "entries db' = entries db @ es" "\<And>e. e \<in> set es \<Longrightarrow> ue_container_id e \<noteq> c"
    have "filter (\<lambda>e. ue_container_id e = c) es = []" "ended_times c es = []" "find (is_open c) es = None"
      using es(2) by (auto simp: filter_empty_conv ended_times_def find_None_iff is_open_def)
    then show ?thesis
      by (simp add: read_meter_def es(1) last_ended_def ended_times_append find_append split: option.split)
  qed
  show "read_meter c (openUptimeInterval cid t db) = read_meter c db"
  proof (cases "has_open cid db")
    case False
    then show ?thesis by (intro app) (use c in \<open>auto simp: openUptimeInterval_def\<close>)
  qed (simp add: openUptimeInterval_def)
  have "filter (\<lambda>e. ue_container_id e = c) (update_where (is_open cid) (close_entry r db) es) = filter (\<lambda>e. ue_container_id e = c) es"
    "ended_times c (update_where (is_open cid) (close_entry r db) es) = ended_times c es"
    "find (is_open c) (update_where (is_open cid) (close_entry r db) es) = find (is_open c) es" for es
    using c by (induction es) (auto simp: update_where_def is_open_def close_entry_def ended_times_def)
  then show "read_meter c (closeUptimeInterval cid r db) = read_meter c db"
    by (simp add: read_meter_def closeUptimeInterval_def last_ended_def)
qed

lemma meter_touch [simp]: "read_meter c (touch_members P f db) = read_meter c db"
  by (simp add: read_meter_def)

section \<open>Who holds a container\<close>

text \<open>The operations that may end a claim on a container.\<close>

fun gives_back :: "string \<Rightarrow> pool_op \<Rightarrow> bool" where
  "gives_back cid (Release c t b) = (c = cid)"
| "gives_back cid (SetState c st r s) = (c = cid)"
| "gives_back cid (Upsert p c st d m i s) = (c = cid)"
| "gives_back cid (Remove c) = (c = cid)"
| "gives_back cid (Forget c) = (c = cid)"
| "gives_back cid ClearAll = True"
| "gives_back cid ReclaimBusy = True"
| "gives_back cid (ReleaseIfGone c) = (c = cid)"
| "gives_back cid (FailWedged c) = (c = cid)"
| "gives_back cid _ = False"

definition held_busy :: "string \<Rightarrow> pool_db \<Rightarrow> bool" where
  "held_busy cid db \<longleftrightarrow> (\<forall>m \<in> set (pool_rows db). pm_container_id m = cid \<longrightarrow> pm_state m = PoolBusy)"

lemma held_touch:
  assumes "held_busy cid db" "\<And>m. pm_container_id (f m) = pm_container_id m"
    "\<And>m. P m \<Longrightarrow> pm_container_id m = cid \<Longrightarrow> pm_state m = PoolBusy \<Longrightarrow> pm_state (f m) = PoolBusy"
  shows "held_busy cid (touch_members P f db)"
  using assms by (fastforce simp: held_busy_def rows_touch)

lemma held_ledger [simp]:
  "held_busy cid (syncUptimeForState i st why s db) = held_busy cid db"
  "held_busy cid (openUptimeInterval i s db) = held_busy cid db"
  "held_busy cid (closeUptimeInterval i r db) = held_busy cid db"
  "held_busy cid (openProvisionalInterval name p mem disk t db) = held_busy cid db"
  "held_busy cid (discardProvisionalInterval name db) = held_busy cid db"
  "held_busy cid (snd (adoptProvisionalInterval name i db)) = held_busy cid db"
  "held_busy cid (adopt_first i names db) = held_busy cid db"
  by (simp_all add: held_busy_def)

lemma held_upsert:
  assumes held: "held_busy cid db" and c: "c \<noteq> cid"
  shows "held_busy cid (upsertPoolMember p c st d m i s db)"
proof (cases "has_member c db")
  case True
  then show ?thesis unfolding upsertPoolMember_def Let_def
    by (simp only: held_ledger if_True) (rule held_touch [OF held], use c in auto)
next
  case False
  then show ?thesis unfolding upsertPoolMember_def Let_def
    using held c by (simp only: held_ledger if_False) (auto simp: held_busy_def)
qed

lemma held_others:
  assumes held: "held_busy cid db"
  shows "held_busy cid (snd (claimPoolMember i t db))"
    "held_busy cid (snd (markPoolMemberRunning i s db))"
    "held_busy cid (snd (beginPoolMemberStop i db))"
    "held_busy cid (snd (failInterruptedProvisions db))"
    "held_busy cid (setPoolMemberUnpushedFlag i b db)"
    "held_busy cid (setPoolMemberDiskUsage i n db)"
    "held_busy cid (recordPoolMemberMemoryIfUnknown i k db)"
    "held_busy cid (setPoolMemberOutcome i l e db)"
    "i \<noteq> cid \<Longrightarrow> held_busy cid (releasePoolMember i t c db)"
    "i \<noteq> cid \<Longrightarrow> held_busy cid (setPoolMemberState i st why s db)"
    "i \<noteq> cid \<Longrightarrow> held_busy cid (snd (releaseClaimIfRunGone i db))"
    "held_busy cid (forgetPoolMember i db)"
proof -
  show "held_busy cid (snd (claimPoolMember i t db))"
    using held by (auto simp: claimPoolMember_def at_state_def intro!: held_touch)
  show "held_busy cid (snd (markPoolMemberRunning i s db))"
    using held by (auto simp: markPoolMemberRunning_def at_state_def intro!: held_touch)
  show "held_busy cid (snd (beginPoolMemberStop i db))"
    using held by (auto simp: beginPoolMemberStop_def at_state_def intro!: held_touch)
  show "held_busy cid (snd (failInterruptedProvisions db))"
    using held by (auto simp: failInterruptedProvisions_def Let_def fold_sync_error intro!: held_touch)
  show "held_busy cid (setPoolMemberUnpushedFlag i b db)"
    using held by (cases b) (auto simp: setPoolMemberUnpushedFlag_def intro!: held_touch)
  show "held_busy cid (setPoolMemberDiskUsage i n db)"
    using held by (auto simp: setPoolMemberDiskUsage_def intro!: held_touch)
  show "held_busy cid (recordPoolMemberMemoryIfUnknown i k db)"
    using held by (cases k) (auto simp: recordPoolMemberMemoryIfUnknown_def intro!: held_touch)
  show "held_busy cid (setPoolMemberOutcome i l e db)"
    using held by (auto simp: setPoolMemberOutcome_def intro!: held_touch)
  show "i \<noteq> cid \<Longrightarrow> held_busy cid (releasePoolMember i t c db)"
    using held by (auto simp: releasePoolMember_def Let_def intro!: held_touch)
  show "i \<noteq> cid \<Longrightarrow> held_busy cid (setPoolMemberState i st why s db)"
    using held by (auto simp: setPoolMemberState_def intro!: held_touch)
  show "i \<noteq> cid \<Longrightarrow> held_busy cid (snd (releaseClaimIfRunGone i db))"
    using held by (auto simp: releaseClaimIfRunGone_def at_state_def intro!: held_touch)
  show "held_busy cid (forgetPoolMember i db)"
    using held by (auto simp: forgetPoolMember_def held_busy_def)
qed

lemma held_settle: "held_busy cid (settleCreateRequestUptime name c db) = held_busy cid db"
  by (cases c) (simp_all add: settleCreateRequestUptime_def)

lemma held_fields [simp]: "held_busy cid (db\<lparr>now_at := t\<rparr>) = held_busy cid db" "held_busy cid (db\<lparr>running_on := R\<rparr>) = held_busy cid db"
  by (simp_all add: held_busy_def)

lemma held_step: "held_busy cid db \<Longrightarrow> \<not> gives_back cid op \<Longrightarrow> held_busy cid (apply_op op db)"
  by (cases op)
     (simp_all add: held_others held_upsert held_settle openCreateRequestUptime_def adoptCreateRequestUptime_def
        closeContainerUptime_def settleReapedContainerUptime_def ensurePoolMemberUptimeOpen_def removePoolMember_def
        failWedgedProvision_def)

lemma held_run: "held_busy cid db \<Longrightarrow> \<forall>op \<in> set ops. \<not> gives_back cid op \<Longrightarrow> held_busy cid (fold apply_op ops db)"
  by (induction ops arbitrary: db) (simp_all add: held_step)

lemma claim_holds: "rows_ok db \<Longrightarrow> claimPoolMember cid t db = (True, db') \<Longrightarrow> held_busy cid db'"
proof -
  assume ok: "rows_ok db" and c: "claimPoolMember cid t db = (True, db')"
  have idle: "list_ex (at_state cid PoolIdle) (pool_rows db)" using c by (simp add: claimPoolMember_def split: if_splits)
  have "at_state cid PoolIdle m" if "m \<in> set (pool_rows db)" "pm_container_id m = cid" for m
    using at_stateD(2) [OF ok idle that] .
  then show ?thesis using c idle by (auto simp: claimPoolMember_def held_busy_def rows_touch)
qed

section \<open>A small pool\<close>

definition empty_pool :: pool_db where
  "empty_pool = \<lparr>pool_rows = [], entries = [], running_on = {}, now_at = 0, sandbox_backend = ''docker''\<rparr>"

definition demo_pool :: pool_db where
  "demo_pool = apply_op (Advance 9) (apply_op (Upsert ''p'' ''c'' PoolCreating None None None None) empty_pool)"

lemma reach_apply: "reach pool_init pool_step db \<Longrightarrow> allowed op db \<Longrightarrow> reach pool_init pool_step (apply_op op db)"
  by (blast intro: reach_step pool_step.intros)

lemma empty_pool_reach: "reach pool_init pool_step empty_pool"
  by (rule reach_init) (simp add: pool_init_def empty_pool_def)

lemma demo_pool_rows:
  "\<exists>m. pool_rows demo_pool = [m] \<and> pm_container_id m = ''c'' \<and> pm_state m = PoolCreating" "has_open ''c'' demo_pool"
  by (simp_all add: demo_pool_def empty_pool_def upsertPoolMember_def has_member_def syncUptimeForState_def Let_def
      has_open_def openUptimeInterval_def is_open_def)

lemma demo_pool_reach: "reach pool_init pool_step demo_pool"
  unfolding demo_pool_def
  by (intro reach_apply empty_pool_reach)
    (simp_all add: is_provisional_def PROVISIONAL_KEY_PREFIX_def past_def empty_pool_def upsertPoolMember_def
      has_member_def Let_def)

definition demo_ready :: pool_db where
  "demo_ready = apply_op (SetState ''c'' PoolIdle None None) demo_pool"

lemma demo_ready_reach: "reach pool_init pool_step demo_ready"
  unfolding demo_ready_def
  by (intro reach_apply demo_pool_reach) (simp add: is_provisional_def PROVISIONAL_KEY_PREFIX_def past_def)

lemma demo_ready_rows: "\<exists>m. pool_rows demo_ready = [m] \<and> pm_container_id m = ''c'' \<and> pm_state m = PoolIdle"
  using demo_pool_rows(1) by (auto simp: demo_ready_def setPoolMemberState_def rows_touch)

section \<open>Properties\<close>




text \<open>
  (Lemma) One run per container: after a claim succeeded, every further claim of the container fails
  and changes nothing, through any sequence of operations that does not give that container back.
\<close>

theorem claim_exclusive:
  assumes "rows_ok db" and "claimPoolMember cid t db = (True, db1)"
    and "\<forall>op \<in> set ops. \<not> gives_back cid op"
  shows "claimPoolMember cid t' (fold apply_op ops db1) = (False, fold apply_op ops db1)"
proof -
  have "held_busy cid (fold apply_op ops db1)" by (intro held_run claim_holds [OF assms(1,2)] assms(3))
  then show ?thesis by (auto simp: claimPoolMember_def held_busy_def list_ex_iff at_state_def)
qed

theorem claim_exclusive_witness:
  "fst (claimPoolMember ''c'' None demo_ready)
   \<and> \<not> fst (claimPoolMember ''c'' None (fold apply_op [BeginStop ''c'', Advance 20] (snd (claimPoolMember ''c'' None demo_ready))))"
proof -
  have ok: "rows_ok demo_ready" using pool.reach_inv [OF demo_ready_reach] by (simp add: pool_ok_def)
  have c: "fst (claimPoolMember ''c'' None demo_ready)"
    using demo_ready_rows by (auto simp: claimPoolMember_def at_state_def)
  then have eq: "claimPoolMember ''c'' None demo_ready = (True, snd (claimPoolMember ''c'' None demo_ready))"
    by (cases "claimPoolMember ''c'' None demo_ready") simp
  show ?thesis
    using c claim_exclusive [OF ok eq, of "[BeginStop ''c'', Advance 20]" None] by simp
qed

text \<open>
  (C16) The ledger implements a meter per container. In every reachable pool, recording a state for a member stops its
  container's meter for \<open>suspended\<close>, leaves it for \<open>error\<close> and starts it otherwise; a claim that succeeds, a
  release of a container that is not suspended and the repair of the liveness pass start it, at the present;
  closing the interval by hand stops it. Starting a running meter and stopping a stopped one have no effect, and
  no operation moves another container's meter.
\<close>

theorem ledger_refines_meter:
  assumes "reach pool_init pool_step db" and "has_member cid db"
  shows "read_meter c (setPoolMemberState cid st why s db) =
      (if c \<noteq> cid then read_meter c db
       else case st of
           PoolSuspended \<Rightarrow> meter_stop (now_at db) (read_meter c db)
         | PoolError \<Rightarrow> read_meter c db
         | _ \<Rightarrow> meter_start (case s of None \<Rightarrow> now_at db | Some u \<Rightarrow> u) (read_meter c db))
    \<and> read_meter c (snd (claimPoolMember cid t db)) =
      (if c = cid \<and> fst (claimPoolMember cid t db) then meter_start (now_at db) (read_meter c db) else read_meter c db)
    \<and> read_meter c (releasePoolMember cid t b db) =
      (if c = cid \<and> (\<exists>m \<in> set (pool_rows db). pm_container_id m = cid \<and> pm_state m \<noteq> PoolSuspended)
       then meter_start (now_at db) (read_meter c db) else read_meter c db)
    \<and> read_meter c (ensurePoolMemberUptimeOpen cid db) = (if c = cid then meter_start (now_at db) (read_meter c db) else read_meter c db)
    \<and> read_meter c (closeContainerUptime cid r db) = (if c = cid then meter_stop (now_at db) (read_meter c db) else read_meter c db)"
proof -
  have ok: "rows_ok db" "ledger_ok db" using pool.reach_inv [OF assms(1)] by (simp_all add: pool_ok_def)
  have touched: "rows_ok (touch_members P f db)" "has_member cid (touch_members P f db)"
    if "\<And>m. pm_container_id (f m) = pm_container_id m" for P f
    using ok(1) assms(2) that by (simp_all add: rows_ok_touch has_member_touch)
  have "read_meter c (setPoolMemberState cid st why s db) =
      (if c \<noteq> cid then read_meter c db
       else case st of
           PoolSuspended \<Rightarrow> meter_stop (now_at db) (read_meter c db)
         | PoolError \<Rightarrow> read_meter c db
         | _ \<Rightarrow> meter_start (case s of None \<Rightarrow> now_at db | Some u \<Rightarrow> u) (read_meter c db))"
    using ok assms(2)
    by (cases st; cases s) (auto simp: setPoolMemberState_def syncUptimeForState_def meter_open meter_other meter_close
        rows_ok_touch has_member_touch)
  moreover have "read_meter c (snd (claimPoolMember cid t db)) =
      (if c = cid \<and> fst (claimPoolMember cid t db) then meter_start (now_at db) (read_meter c db) else read_meter c db)"
    by (simp add: claimPoolMember_def syncUptimeForState_def meter_open meter_other touched)
  moreover have "read_meter c (releasePoolMember cid t b db) =
      (if c = cid \<and> (\<exists>m \<in> set (pool_rows db). pm_container_id m = cid \<and> pm_state m \<noteq> PoolSuspended)
       then meter_start (now_at db) (read_meter c db) else read_meter c db)"
    by (cases "c = cid") (auto simp: releasePoolMember_def syncUptimeForState_def Let_def meter_open meter_other touched list_ex_iff)
  moreover have "read_meter c (ensurePoolMemberUptimeOpen cid db) = (if c = cid then meter_start (now_at db) (read_meter c db) else read_meter c db)"
    using ok assms(2) by (simp add: ensurePoolMemberUptimeOpen_def meter_open meter_other)
  moreover have "read_meter c (closeContainerUptime cid r db) = (if c = cid then meter_stop (now_at db) (read_meter c db) else read_meter c db)"
    using ok by (simp add: closeContainerUptime_def meter_close meter_other)
  ultimately show ?thesis by blast
qed

theorem ledger_refines_meter_witness:
  "read_meter ''c'' (setPoolMemberState ''c'' PoolSuspended None None demo_pool) = meter_stop (now_at demo_pool) (read_meter ''c'' demo_pool)"
proof -
  have "has_member ''c'' demo_pool" using demo_pool_rows(1) by (auto simp: has_member_def)
  from ledger_refines_meter [OF demo_pool_reach this, of "''c''" PoolSuspended] show ?thesis by simp
qed

text \<open>
  (Lemma) A provision failed at boot goes on being billed: its member moves to \<open>error\<close> and its
  open interval stays open, whatever the pool held.
\<close>

theorem failed_provision_still_billed:
  assumes "reach pool_init pool_step db" and "m \<in> set (pool_rows db)" and "pm_state m = PoolCreating" and "has_open (pm_container_id m) db"
  shows "pm_container_id m \<in> set (fst (failInterruptedProvisions db))
    \<and> (\<exists>m' \<in> set (pool_rows (snd (failInterruptedProvisions db))). pm_container_id m' = pm_container_id m \<and> pm_state m' = PoolError)
    \<and> length (filter (is_open (pm_container_id m)) (entries (snd (failInterruptedProvisions db)))) = 1"
proof -
  have "has_open (pm_container_id m) db" "ledger_ok db"
    using assms(4) pool.reach_inv [OF assms(1)] by (simp_all add: pool_ok_def)
  then show ?thesis
    using assms(2,3) open_once [of db "pm_container_id m"]
    by (auto simp: failInterruptedProvisions_def Let_def fold_sync_error rows_touch bex_Un)
qed

theorem failed_provision_still_billed_witness:
  "length (filter (is_open ''c'') (entries (snd (failInterruptedProvisions demo_pool)))) = 1"
proof -
  obtain m where m: "m \<in> set (pool_rows demo_pool)" "pm_container_id m = ''c''" "pm_state m = PoolCreating"
    using demo_pool_rows(1) by auto
  show ?thesis using failed_provision_still_billed [OF demo_pool_reach m(1,3)] m(2) demo_pool_rows(2) by simp
qed

end
