(* ===== verification/Pool_Reconcile.thy ===== *)
theory Pool_Reconcile
  imports Pool_Ledger
begin

text \<open>
  The liveness pass over the pool: \<open>reconcilePoolMembers\<close>, \<open>settleUnaccountedUptime\<close> and
  \<open>dueForPoolLivenessCheck\<close> of \<open>services/containers.ts\<close>, with the keyset page
  \<open>listPoolMembersForReconcile\<close> of \<open>services/sandbox/pool-db.ts\<close>.

  The engine is a parameter: \<open>inspectContainer\<close> and \<open>findContainerByNamePrefix\<close> answer or throw. So is
  the order of the database's text type, by which the page is sorted and continued. A database
  error aborts the pass and is not modelled. One pass is the sequence of its statements; what happens
  between two passes is unconstrained.
\<close>

section \<open>The engine's answers\<close>

datatype 'a answer = Throws | Answer 'a

record ContainerInfo =
  info_id :: string
  info_status :: string
  info_running :: bool
  info_exit_code :: int
  info_transitioning :: bool
  info_memory_bytes :: "nat option"

record ContainerEngine =
  inspectContainer :: "string \<Rightarrow> ContainerInfo option answer"
  findContainerByNamePrefix :: "string \<Rightarrow> ContainerInfo option answer"

datatype ContainerStatus = StatusRunning | StatusStopped | StatusError

record ContainerTransition =
  tr_projectId :: string
  tr_projectSlug :: string
  tr_teamId :: string
  tr_containerId :: string
  tr_oldStatus :: ContainerStatus
  tr_newStatus :: ContainerStatus

section \<open>The page of members\<close>

record project_listing = project_row +
  project_slug :: string

record PoolMemberForReconcile =
  rm_containerId :: string
  rm_projectId :: string
  rm_projectSlug :: string
  rm_teamId :: string
  rm_state :: container_pool_state
  rm_memoryBytes :: "nat option"
  rm_updatedAtMs :: int

definition after_cursor :: "(string \<Rightarrow> string \<Rightarrow> int) \<Rightarrow> string option \<Rightarrow> string \<Rightarrow> bool" where
  "after_cursor collate cursor cid \<longleftrightarrow> (case cursor of None \<Rightarrow> True | Some a \<Rightarrow> 0 < collate cid a)"

definition reconcile_row :: "pool_row \<Rightarrow> project_listing \<Rightarrow> PoolMemberForReconcile" where
  "reconcile_row m p = \<lparr>rm_containerId = pm_container_id m, rm_projectId = pm_project_id m,
     rm_projectSlug = project_slug p, rm_teamId = project_team_id p, rm_state = pm_state m,
     rm_memoryBytes = pm_memory_bytes m, rm_updatedAtMs = pm_updated_at m\<rparr>"

definition due_rows :: "project_listing list \<Rightarrow> int \<Rightarrow> pool_db \<Rightarrow> PoolMemberForReconcile list" where
  "due_rows projects minAgeSeconds db =
     concat (map (\<lambda>m. map (reconcile_row m) (filter (\<lambda>p. project_row_id p = pm_project_id m) projects))
       (filter (\<lambda>m. pm_updated_at m < now_at db - minAgeSeconds * 1000) (pool_rows db)))"

definition listPoolMembersForReconcile ::
  "(string \<Rightarrow> string \<Rightarrow> int) \<Rightarrow> project_listing list \<Rightarrow> int \<Rightarrow> nat \<Rightarrow> string option \<Rightarrow> pool_db \<Rightarrow> PoolMemberForReconcile list" where
  "listPoolMembersForReconcile collate projects minAgeSeconds limit afterContainerId db =
     take limit (sort_by (\<lambda>a b. collate (rm_containerId a) (rm_containerId b))
       (filter (\<lambda>r. after_cursor collate afterContainerId (rm_containerId r)) (due_rows projects minAgeSeconds db)))"

section \<open>The pass\<close>

definition POOL_RECONCILE_MIN_AGE_SECONDS :: int where
  "POOL_RECONCILE_MIN_AGE_SECONDS = 60"

definition POOL_RECONCILE_LIMIT :: nat where
  "POOL_RECONCILE_LIMIT = 50"

definition POOL_LIVENESS_CHECK_INTERVAL_MS :: int where
  "POOL_LIVENESS_CHECK_INTERVAL_MS = 15000"

definition POOL_LIVENESS_STAMP_TTL_MS :: int where
  "POOL_LIVENESS_STAMP_TTL_MS = POOL_LIVENESS_CHECK_INTERVAL_MS * 20"

definition PROVISION_WEDGED_AFTER_MS :: int where
  "PROVISION_WEDGED_AFTER_MS = 15 * 60000"

record reconcile_deps =
  deps_docker :: ContainerEngine
  poolLivenessIntervalMs :: "int option"
  callsInFlight :: "string set"
  text_order :: "string \<Rightarrow> string \<Rightarrow> int"
  deps_projects :: "project_listing list"

record reconcile_state =
  rs_db :: pool_db
  poolReconcileCursor :: "string option"
  lastPoolLivenessCheckAt :: "string \<rightharpoonup> int"

record reconcile_result =
  dropped :: nat
  wedged :: nat
  transitions :: "ContainerTransition list"

definition dueForPoolLivenessCheck :: "string \<Rightarrow> int \<Rightarrow> int \<Rightarrow> (string \<rightharpoonup> int) \<Rightarrow> bool \<times> (string \<rightharpoonup> int)" where
  "dueForPoolLivenessCheck cid now intervalMs stamps =
     (let last_at = (case stamps cid of None \<Rightarrow> 0 | Some t \<Rightarrow> t)
      in if now - last_at < intervalMs then (False, stamps) else (True, stamps(cid \<mapsto> now)))"

definition forget_stamps :: "int \<Rightarrow> (string \<rightharpoonup> int) \<Rightarrow> (string \<rightharpoonup> int)" where
  "forget_stamps now stamps = (\<lambda>cid. case stamps cid of
     None \<Rightarrow> None
   | Some t \<Rightarrow> if now - t > POOL_LIVENESS_STAMP_TTL_MS then None else Some t)"

definition settle_interval :: "reconcile_deps \<Rightarrow> UnsettledInterval \<Rightarrow> pool_db \<Rightarrow> pool_db" where
  "settle_interval deps interval db =
     (let key = unsettled_id interval in
      if key \<in> callsInFlight deps then db
      else if provisional interval then
        (let name = containerNameFromProvisionalKey key
         in case findContainerByNamePrefix (deps_docker deps) name of
              Throws \<Rightarrow> db
            | Answer found \<Rightarrow> settleCreateRequestUptime name (map_option info_id found) db)
      else case inspectContainer (deps_docker deps) key of
          Throws \<Rightarrow> db
        | Answer None \<Rightarrow> closeContainerUptime key EndDestroyed db
        | Answer (Some info) \<Rightarrow>
            if \<not> info_running info \<and> \<not> info_transitioning info
            then closeContainerUptime key EndReconciled db else db)"

definition settleUnaccountedUptime :: "reconcile_deps \<Rightarrow> pool_db \<Rightarrow> pool_db" where
  "settleUnaccountedUptime deps db =
     fold (settle_interval deps) (listUnsettledUptime POOL_RECONCILE_MIN_AGE_SECONDS POOL_RECONCILE_LIMIT db) db"

definition show_int :: "int \<Rightarrow> string" where
  "show_int i = (if i < 0 then ''-'' @ digits (nat (- i)) else digits (nat i))"

definition stop_message :: "ContainerInfo \<Rightarrow> string" where
  "stop_message info =
     (if info_exit_code info \<noteq> 0
      then ''Container exited with code '' @ show_int (info_exit_code info) @ '' ('' @ info_status info @ '').''
      else ''Container stopped ('' @ info_status info @ '').'')"

text \<open>One member, once it is due and no call of this process is in flight on it.\<close>

definition judge_member ::
  "reconcile_deps \<Rightarrow> int \<Rightarrow> PoolMemberForReconcile \<Rightarrow> pool_db \<times> reconcile_result \<Rightarrow> pool_db \<times> reconcile_result" where
  "judge_member deps now member acc =
     (let (db, result) = acc; cid = rm_containerId member in
      if rm_state member = PoolCreating \<and> now - rm_updatedAtMs member > PROVISION_WEDGED_AFTER_MS
      then (failWedgedProvision cid db, result\<lparr>wedged := wedged result + 1\<rparr>)
      else case inspectContainer (deps_docker deps) cid of
        Throws \<Rightarrow> (db, result)
      | Answer None \<Rightarrow> (removePoolMember cid db, result\<lparr>dropped := dropped result + 1\<rparr>)
      | Answer (Some info) \<Rightarrow>
          (let db1 = (if rm_memoryBytes member = None
                      then recordPoolMemberMemoryIfUnknown cid (info_memory_bytes info) db else db) in
           if info_running info then
             (if rm_state member = PoolIdle \<or> rm_state member = PoolBusy
              then (ensurePoolMemberUptimeOpen cid db1, result)
              else if rm_state member = PoolSuspended
              then (snd (markPoolMemberRunning cid None db1), result)
              else (db1, result))
           else if info_transitioning info then (db1, result)
           else if rm_state member = PoolSuspended \<or> rm_state member = PoolError
           then (closeContainerUptime cid EndReconciled db1, result)
           else if rm_state member \<noteq> PoolIdle \<and> rm_state member \<noteq> PoolBusy then (db1, result)
           else
             (let db2 = setPoolMemberOutcome cid None (Some (stop_message info)) db1;
                  db3 = (if rm_state member = PoolBusy then db2
                         else setPoolMemberState cid PoolSuspended None None db2)
              in (db3, result\<lparr>transitions := transitions result @
                   [\<lparr>tr_projectId = rm_projectId member, tr_projectSlug = rm_projectSlug member,
                     tr_teamId = rm_teamId member, tr_containerId = cid, tr_oldStatus = StatusRunning,
                     tr_newStatus = (if info_exit_code info \<noteq> 0 then StatusError else StatusStopped)\<rparr>]\<rparr>))))"

definition liveness_interval :: "reconcile_deps \<Rightarrow> int" where
  "liveness_interval deps =
     (case poolLivenessIntervalMs deps of None \<Rightarrow> POOL_LIVENESS_CHECK_INTERVAL_MS | Some ms \<Rightarrow> ms)"

definition reconcile_member ::
  "reconcile_deps \<Rightarrow> int \<Rightarrow> PoolMemberForReconcile \<Rightarrow> (string \<rightharpoonup> int) \<times> pool_db \<times> reconcile_result
    \<Rightarrow> (string \<rightharpoonup> int) \<times> pool_db \<times> reconcile_result" where
  "reconcile_member deps now member acc =
     (let (stamps, db, result) = acc;
          (due, stamps') = dueForPoolLivenessCheck (rm_containerId member) now (liveness_interval deps) stamps
      in if \<not> due then (stamps', db, result)
         else if rm_containerId member \<in> callsInFlight deps then (stamps', db, result)
         else (stamps', judge_member deps now member (db, result)))"

definition page_of :: "reconcile_deps \<Rightarrow> reconcile_state \<Rightarrow> PoolMemberForReconcile list" where
  "page_of deps s = listPoolMembersForReconcile (text_order deps) (deps_projects deps)
     POOL_RECONCILE_MIN_AGE_SECONDS POOL_RECONCILE_LIMIT (poolReconcileCursor s) (rs_db s)"

definition reconcilePoolMembers :: "reconcile_deps \<Rightarrow> int \<Rightarrow> reconcile_state \<Rightarrow> reconcile_result \<times> reconcile_state" where
  "reconcilePoolMembers deps now s =
     (let stamps = forget_stamps now (lastPoolLivenessCheckAt s);
          stale = page_of deps s;
          cursor = (if length stale < POOL_RECONCILE_LIMIT then None
                    else if stale = [] then None else Some (rm_containerId (last stale)));
          result = \<lparr>dropped = 0, wedged = 0, transitions = []\<rparr>;
          db1 = settleUnaccountedUptime deps (rs_db s)
      in if stale = []
         then (result, s\<lparr>rs_db := db1, poolReconcileCursor := cursor, lastPoolLivenessCheckAt := stamps\<rparr>)
         else (let (stamps', db2, result') = fold (reconcile_member deps now) stale (stamps, db1, result)
               in (result', s\<lparr>rs_db := db2, poolReconcileCursor := cursor, lastPoolLivenessCheckAt := stamps'\<rparr>)))"

section \<open>Paging by key\<close>

text \<open>
  A cursor that moves to the last key of a full page and back to the start after a short one. The
  keys a page may show change from one page to the next.
\<close>

definition beyond :: "('k \<Rightarrow> 'k \<Rightarrow> bool) \<Rightarrow> 'k option \<Rightarrow> 'k \<Rightarrow> bool" where
  "beyond before c k \<longleftrightarrow> (case c of None \<Rightarrow> True | Some a \<Rightarrow> before a k)"

locale keyset_cursor =
  fixes before :: "'k \<Rightarrow> 'k \<Rightarrow> bool" and limit :: nat
    and ok :: "'s \<Rightarrow> bool" and eligible :: "'s \<Rightarrow> 'k set" and cursor :: "'s \<Rightarrow> 'k option" and page :: "'s \<Rightarrow> 'k list"
  assumes irrefl: "\<not> before k k" and trans: "before a b \<Longrightarrow> before b c \<Longrightarrow> before a c"
    and limit_pos: "0 < limit"
    and page_sorted: "ok s \<Longrightarrow> sorted_wrt before (page s)"
    and page_short: "ok s \<Longrightarrow> length (page s) \<le> limit"
    and page_sound: "ok s \<Longrightarrow> k \<in> set (page s) \<Longrightarrow> k \<in> eligible s \<and> beyond before (cursor s) k"
    and page_complete: "ok s \<Longrightarrow> k \<in> eligible s \<Longrightarrow> beyond before (cursor s) k \<Longrightarrow> k \<notin> set (page s) \<Longrightarrow>
        length (page s) = limit \<and> before (last (page s)) k"
begin

definition next_cursor :: "'s \<Rightarrow> 'k option" where
  "next_cursor s = (if length (page s) < limit then None else Some (last (page s)))"

definition ahead :: "'k set \<Rightarrow> 'k option \<Rightarrow> nat" where
  "ahead S c = card {k \<in> S. beyond before c k}"

lemma distinct_page: "ok s \<Longrightarrow> distinct (page s)"
proof -
  assume ok: "ok s"
  have "sorted_wrt before xs \<Longrightarrow> distinct xs" for xs
    by (induction xs) (auto simp: irrefl)
  then show ?thesis using page_sorted [OF ok] by blast
qed

lemma before_last: "ok s \<Longrightarrow> k \<in> set (page s) \<Longrightarrow> k = last (page s) \<or> before k (last (page s))"
proof -
  assume ok: "ok s" and k: "k \<in> set (page s)"
  then have "page s = butlast (page s) @ [last (page s)]" by (cases "page s" rule: rev_cases) auto
  then have "sorted_wrt before (butlast (page s) @ [last (page s)])" using page_sorted [OF ok] by metis
  moreover have "k \<in> set (butlast (page s)) \<or> k = last (page s)"
    using k by (cases "page s" rule: rev_cases) auto
  ultimately show ?thesis by (auto simp: sorted_wrt_append)
qed

lemma full_page_progress:
  assumes ok: "ok s" and "length (page s) = limit" and "finite S" and "eligible s \<subseteq> S"
  shows "ahead S (Some (last (page s))) + limit \<le> ahead S (cursor s)"
proof -
  let ?rest = "{k \<in> S. before (last (page s)) k}" and ?all = "{k \<in> S. beyond before (cursor s) k}"
  have ne: "page s \<noteq> []" using assms(2) limit_pos by auto
  have last: "beyond before (cursor s) (last (page s))" using page_sound [OF ok] ne by simp
  have "?rest \<subseteq> ?all" using last trans by (auto simp: beyond_def split: option.splits)
  moreover have "set (page s) \<subseteq> ?all" using page_sound [OF ok] assms(4) by blast
  moreover have "?rest \<inter> set (page s) = {}" using before_last [OF ok] irrefl trans by blast
  moreover have "card (set (page s)) = limit" using assms(2) distinct_card [OF distinct_page [OF ok]] by metis
  ultimately have "card (?rest \<union> set (page s)) \<le> card ?all" "card (?rest \<union> set (page s)) = card ?rest + limit"
    using assms(3) by (intro card_mono, auto) (subst card_Un_disjoint, auto)
  then show ?thesis by (simp add: ahead_def beyond_def)
qed

lemma division_step: "a + limit \<le> b \<Longrightarrow> Suc (a div limit) \<le> b div limit"
proof -
  assume le: "a + limit \<le> b"
  have "(a + limit) div limit = Suc (a div limit)" using limit_pos by simp
  then show ?thesis using div_le_mono [OF le, of limit] by simp
qed

lemma met_ahead:
  assumes nxt: "\<And>i. cursor (run (Suc i)) = next_cursor (run i)" and ok: "\<And>i. ok (run i)"
    and fin: "finite S" and bound: "\<And>i. eligible (run i) \<subseteq> S" and stays: "\<And>i. k \<in> eligible (run i)"
    and "beyond before (cursor (run i)) k"
  shows "\<exists>j \<le> ahead S (cursor (run i)) div limit. k \<in> set (page (run (i + j)))"
  using assms(6)
proof (induction "ahead S (cursor (run i))" arbitrary: i rule: less_induct)
  case less
  show ?case
  proof (cases "k \<in> set (page (run i))")
    case False
    then have full: "length (page (run i)) = limit" "before (last (page (run i))) k"
      using page_complete [OF ok] stays less.prems by blast+
    let ?c = "Some (last (page (run i)))"
    have c: "cursor (run (Suc i)) = ?c" using full(1) nxt by (simp add: next_cursor_def)
    have step: "ahead S ?c + limit \<le> ahead S (cursor (run i))"
      by (rule full_page_progress [OF ok full(1) fin bound])
    have "\<exists>j \<le> ahead S ?c div limit. k \<in> set (page (run (Suc i + j)))"
      using less.hyps [of "Suc i"] step limit_pos full(2) unfolding c by (simp add: beyond_def)
    then obtain j where "j \<le> ahead S ?c div limit" "k \<in> set (page (run (i + Suc j)))" by auto
    then show ?thesis using division_step [OF step] by (intro exI [of _ "Suc j"]) simp
  qed (auto intro!: exI [of _ 0])
qed

lemma wraps:
  assumes nxt: "\<And>i. cursor (run (Suc i)) = next_cursor (run i)" and ok: "\<And>i. ok (run i)"
    and fin: "finite S" and bound: "\<And>i. eligible (run i) \<subseteq> S"
    and "\<not> beyond before (cursor (run i)) k"
  shows "\<exists>j \<le> Suc (ahead S (cursor (run i)) div limit). beyond before (cursor (run (i + j))) k"
  using assms(5)
proof (induction "ahead S (cursor (run i))" arbitrary: i rule: less_induct)
  case less
  show ?case
  proof (cases "length (page (run i)) < limit")
    case True
    then have "beyond before (cursor (run (i + 1))) k" using nxt by (simp add: next_cursor_def beyond_def)
    then show ?thesis by (intro exI [of _ 1]) simp
  next
    case False
    then have full: "length (page (run i)) = limit" using page_short [OF ok, of i] by simp
    let ?c = "Some (last (page (run i)))"
    have c: "cursor (run (Suc i)) = ?c" using full nxt by (simp add: next_cursor_def)
    have step: "ahead S ?c + limit \<le> ahead S (cursor (run i))"
      by (rule full_page_progress [OF ok full fin bound])
    have "\<exists>j \<le> Suc (ahead S ?c div limit). beyond before (cursor (run (Suc i + j))) k"
    proof (cases "beyond before ?c k")
      case True
      then show ?thesis using c by (intro exI [of _ 0]) simp
    next
      case False
      then show ?thesis using less.hyps [of "Suc i"] step limit_pos unfolding c by simp
    qed
    then obtain j where "j \<le> Suc (ahead S ?c div limit)" "beyond before (cursor (run (i + Suc j))) k" by auto
    then show ?thesis using division_step [OF step] by (intro exI [of _ "Suc j"]) simp
  qed
qed

lemma every_key_met:
  assumes nxt: "\<And>i. cursor (run (Suc i)) = next_cursor (run i)" and ok: "\<And>i. ok (run i)"
    and fin: "finite S" and bound: "\<And>i. eligible (run i) \<subseteq> S" and stays: "\<And>i. k \<in> eligible (run i)"
  shows "\<exists>j \<le> 2 * (card S div limit) + 1. k \<in> set (page (run (i + j)))"
proof -
  have le: "ahead S c div limit \<le> card S div limit" for c
    using fin by (auto simp: ahead_def intro!: div_le_mono card_mono)
  have "\<exists>a \<le> Suc (card S div limit). beyond before (cursor (run (i + a))) k"
  proof (cases "beyond before (cursor (run i)) k")
    case True
    then show ?thesis by (intro exI [of _ 0]) simp
  next
    case False
    then show ?thesis using wraps [OF nxt ok fin bound False] le [of "cursor (run i)"] by (meson Suc_le_mono le_trans)
  qed
  then obtain a where a: "a \<le> Suc (card S div limit)" "beyond before (cursor (run (i + a))) k" by blast
  obtain j where "j \<le> ahead S (cursor (run (i + a))) div limit" "k \<in> set (page (run (i + a + j)))"
    using met_ahead [OF nxt ok fin bound stays a(2)] by blast
  then show ?thesis using a(1) le [of "cursor (run (i + a))"] by (intro exI [of _ "a + j"]) (simp add: add.assoc)
qed

end

section \<open>The page is a keyset page\<close>

text \<open>The database's order on text: total, and equal only on equal strings.\<close>

definition text_collation :: "(string \<Rightarrow> string \<Rightarrow> int) \<Rightarrow> bool" where
  "text_collation c \<longleftrightarrow> (\<forall>a b. c a b = 0 \<longleftrightarrow> a = b) \<and> (\<forall>a b. 0 < c a b \<longleftrightarrow> c b a < 0)
     \<and> (\<forall>x y z. c x y < 0 \<longrightarrow> c y z < 0 \<longrightarrow> c x z < 0)"

type_synonym pass = "reconcile_deps \<times> reconcile_state"

definition pass_ok :: "(string \<Rightarrow> string \<Rightarrow> int) \<Rightarrow> pass \<Rightarrow> bool" where
  "pass_ok collate p \<longleftrightarrow> text_order (fst p) = collate
     \<and> distinct (map project_row_id (deps_projects (fst p)))
     \<and> distinct (map pm_container_id (pool_rows (rs_db (snd p))))"

definition eligible_ids :: "pass \<Rightarrow> string set" where
  "eligible_ids p = set (map rm_containerId
     (due_rows (deps_projects (fst p)) POOL_RECONCILE_MIN_AGE_SECONDS (rs_db (snd p))))"

definition page_ids :: "pass \<Rightarrow> string list" where
  "page_ids p = map rm_containerId (page_of (fst p) (snd p))"

lemma distinct_filter_le1: "distinct (map f xs) \<Longrightarrow> length (filter (\<lambda>x. f x = v) xs) \<le> 1"
proof (induction xs)
  case (Cons x xs)
  then have "f x = v \<Longrightarrow> filter (\<lambda>y. f y = v) xs = []" by (auto simp: filter_empty_conv rev_image_eqI)
  then show ?case using Cons by simp
qed simp

lemma distinct_due_rows:
  assumes "distinct (map project_row_id projects)" and "distinct (map pm_container_id (pool_rows db))"
  shows "distinct (map rm_containerId (due_rows projects age db))"
proof -
  let ?ps = "\<lambda>m. filter (\<lambda>p. project_row_id p = pm_project_id m) projects"
  have "distinct (map rm_containerId (concat (map (\<lambda>m. map (reconcile_row m) (?ps m)) ms)))"
    if "distinct (map pm_container_id ms)" for ms :: "pool_row list"
    using that
  proof (induction ms)
    case (Cons m ms)
    let ?A = "map rm_containerId (map (reconcile_row m) (?ps m))"
      and ?B = "map rm_containerId (concat (map (\<lambda>m. map (reconcile_row m) (?ps m)) ms))"
    have "length (?ps m) \<le> 1" by (rule distinct_filter_le1 [OF assms(1)])
    then have "distinct ?A" by (cases "?ps m") auto
    moreover have "distinct ?B" using Cons by simp
    moreover have "set ?A \<subseteq> {pm_container_id m}" by (auto simp: reconcile_row_def)
    moreover have "set ?B \<subseteq> pm_container_id ` set ms" by (auto simp: reconcile_row_def)
    moreover have "pm_container_id m \<notin> pm_container_id ` set ms" using Cons.prems by simp
    ultimately have "distinct (?A @ ?B)" unfolding distinct_append by blast
    then show ?case by (simp only: list.map concat.simps map_append)
  qed simp
  moreover have "distinct (map pm_container_id (filter P (pool_rows db)))" for P
    using assms(2) by (rule distinct_map_filter)
  ultimately show ?thesis unfolding due_rows_def by blast
qed

locale reconcile_order =
  fixes collate :: "string \<Rightarrow> string \<Rightarrow> int"
  assumes collation: "text_collation collate"
begin

lemma collate_trans: "collate x y < 0 \<Longrightarrow> collate y z < 0 \<Longrightarrow> collate x z < 0"
  using collation unfolding text_collation_def by blast

lemma collate_zero: "collate a b = 0 \<longleftrightarrow> a = b" and collate_flip: "0 < collate a b \<longleftrightarrow> collate b a < 0"
  using collation unfolding text_collation_def by blast+

lemma sorted_page:
  assumes "distinct (map rm_containerId rs)"
  shows "sorted_wrt (\<lambda>a b. collate a b < 0)
    (map rm_containerId (sort_by (\<lambda>a b. collate (rm_containerId a) (rm_containerId b)) rs))"
proof -
  let ?c = "\<lambda>a b. collate (rm_containerId a) (rm_containerId b)"
  have "sorts_by ?c (\<lambda>a b. ?c a b \<le> 0)"
  proof
    fix x y z
    show "?c x y \<le> 0 \<Longrightarrow> ?c y z \<le> 0 \<Longrightarrow> ?c x z \<le> 0"
      using collate_trans [of "rm_containerId x" "rm_containerId y" "rm_containerId z"] collate_zero
      by (smt (verit))
  qed (use collate_flip in force)+
  then have le: "sorted_wrt (\<lambda>a b. ?c a b \<le> 0) (sort_by ?c rs)" by (rule sorts_by.sorted_sort_by)
  have "mset (map rm_containerId (sort_by ?c rs)) = mset (map rm_containerId rs)" by (simp add: mset_sort_by)
  then have dist: "distinct (map rm_containerId (sort_by ?c rs))" using assms mset_eq_imp_distinct_iff by blast
  have neq: "rm_containerId (sort_by ?c rs ! i) \<noteq> rm_containerId (sort_by ?c rs ! j)"
    if "i < j" "j < length (sort_by ?c rs)" for i j
    using that nth_eq_iff_index_eq [OF dist, of i j] by simp
  show ?thesis unfolding sorted_wrt_map sorted_wrt_iff_nth_less
    using le neq by (auto simp: sorted_wrt_iff_nth_less) (metis collate_zero order_le_imp_less_or_eq)
qed

end

sublocale reconcile_order \<subseteq> pages: keyset_cursor "\<lambda>a b. collate a b < 0" POOL_RECONCILE_LIMIT
  "pass_ok collate" eligible_ids "\<lambda>p. poolReconcileCursor (snd p)" page_ids
proof
  fix p :: pass and k
  let ?rows = "due_rows (deps_projects (fst p)) POOL_RECONCILE_MIN_AGE_SECONDS (rs_db (snd p))"
  let ?rs = "filter (\<lambda>r. after_cursor collate (poolReconcileCursor (snd p)) (rm_containerId r)) ?rows"
  let ?sorted = "map rm_containerId (sort_by (\<lambda>a b. collate (rm_containerId a) (rm_containerId b)) ?rs)"
  assume ok: "pass_ok collate p"
  have page: "page_ids p = take POOL_RECONCILE_LIMIT ?sorted"
    using ok by (simp add: page_ids_def page_of_def listPoolMembersForReconcile_def pass_ok_def take_map)
  have sorted: "sorted_wrt (\<lambda>a b. collate a b < 0) ?sorted"
    using ok distinct_due_rows by (intro sorted_page distinct_map_filter) (simp add: pass_ok_def)
  have "set (sort_by c xs) = set xs" for c and xs :: "PoolMemberForReconcile list" by (metis mset_sort_by set_mset_mset)
  then have members: "k' \<in> set ?sorted \<longleftrightarrow> k' \<in> eligible_ids p \<and> beyond (\<lambda>a b. collate a b < 0) (poolReconcileCursor (snd p)) k'" for k'
    by (auto simp: eligible_ids_def beyond_def after_cursor_def collate_flip split: option.splits)
  show "sorted_wrt (\<lambda>a b. collate a b < 0) (page_ids p)" using sorted page by (simp add: sorted_wrt_take)
  show "length (page_ids p) \<le> POOL_RECONCILE_LIMIT" using page by simp
  show "k \<in> eligible_ids p \<and> beyond (\<lambda>a b. collate a b < 0) (poolReconcileCursor (snd p)) k" if "k \<in> set (page_ids p)"
    using that members [of k] page by (metis in_set_takeD)
  assume k: "k \<in> eligible_ids p" "beyond (\<lambda>a b. collate a b < 0) (poolReconcileCursor (snd p)) k" "k \<notin> set (page_ids p)"
  have split: "?sorted = page_ids p @ drop POOL_RECONCILE_LIMIT ?sorted" using page by simp
  then have rest: "k \<in> set (drop POOL_RECONCILE_LIMIT ?sorted)"
    using k members [of k] by (metis Un_iff set_append)
  then have full: "length (page_ids p) = POOL_RECONCILE_LIMIT" using page by (cases "length ?sorted \<le> POOL_RECONCILE_LIMIT") auto
  then have "last (page_ids p) \<in> set (page_ids p)" by (cases "page_ids p") (auto simp: POOL_RECONCILE_LIMIT_def)
  moreover have "sorted_wrt (\<lambda>a b. collate a b < 0) (page_ids p @ drop POOL_RECONCILE_LIMIT ?sorted)"
    using sorted split by simp
  ultimately show "length (page_ids p) = POOL_RECONCILE_LIMIT \<and> collate (last (page_ids p)) k < 0"
    using rest full by (auto simp: sorted_wrt_append)
next
  show "\<not> collate k k < 0" for k using collate_zero [of k k] by simp
qed (use collate_trans in \<open>auto simp: POOL_RECONCILE_LIMIT_def\<close>)

section \<open>Every member is asked about\<close>






lemma pass_cursor:
  "poolReconcileCursor (snd (reconcilePoolMembers deps now s)) =
     (if length (page_ids (deps, s)) < POOL_RECONCILE_LIMIT then None else Some (last (page_ids (deps, s))))"
  by (auto simp: reconcilePoolMembers_def Let_def page_ids_def last_map POOL_RECONCILE_LIMIT_def split: prod.splits)

lemma eligible_iff:
  "cid \<in> eligible_ids (deps, s) \<longleftrightarrow> (\<exists>m \<in> set (pool_rows (rs_db s)). pm_container_id m = cid
     \<and> pm_updated_at m < now_at (rs_db s) - 60000 \<and> pm_project_id m \<in> project_row_id ` set (deps_projects deps))"
  by (force simp: eligible_ids_def due_rows_def reconcile_row_def POOL_RECONCILE_MIN_AGE_SECONDS_def)

context reconcile_order
begin

lemma every_member_paged:
  assumes ok: "\<And>i. pass_ok collate (deps i, st i)"
    and nxt: "\<And>i. poolReconcileCursor (st (Suc i)) = poolReconcileCursor (snd (reconcilePoolMembers (deps i) (clock i) (st i)))"
    and fin: "finite S" and bound: "\<And>i. pm_container_id ` set (pool_rows (rs_db (st i))) \<subseteq> S"
    and stays: "\<And>i. cid \<in> eligible_ids (deps i, st i)"
  shows "\<exists>j \<le> 2 * (card S div POOL_RECONCILE_LIMIT) + 1. cid \<in> set (page_ids (deps (i + j), st (i + j)))"
proof -
  let ?run = "\<lambda>i. (deps i, st i)"
  have "eligible_ids (?run i) \<subseteq> S" for i using bound [of i] by (fastforce simp: eligible_iff)
  then show ?thesis
    using pages.every_key_met [of ?run S cid i] ok nxt fin stays by (simp add: pages.next_cursor_def pass_cursor)
qed

end

text \<open>Comparison by code units, the order of the \<open>C\<close> collation.\<close>

fun by_code :: "string \<Rightarrow> string \<Rightarrow> int" where
  "by_code [] [] = 0"
| "by_code [] (b # bs) = -1"
| "by_code (a # as) [] = 1"
| "by_code (a # as) (b # bs) =
     (if a = b then by_code as bs else if (of_char a :: nat) < of_char b then -1 else 1)"

lemma by_code_trans: "by_code x y < 0 \<Longrightarrow> by_code y z < 0 \<Longrightarrow> by_code x z < 0"
proof (induction x y arbitrary: z rule: by_code.induct)
  case (2 b bs)
  then show ?case by (cases z) auto
next
  case (4 a as b bs)
  then show ?case by (cases z) (auto split: if_splits)
qed auto

interpretation by_code: reconcile_order by_code
proof
  have "by_code a b = 0 \<longleftrightarrow> a = b" for a b by (induction a b rule: by_code.induct) auto
  moreover have "0 < by_code a b \<longleftrightarrow> by_code b a < 0" for a b
    by (induction a b rule: by_code.induct) (auto simp: not_less_iff_gr_or_eq)
  ultimately show "text_collation by_code" unfolding text_collation_def using by_code_trans by blast
qed

section \<open>The pass as pool operations\<close>

definition judge_ops :: "reconcile_deps \<Rightarrow> int \<Rightarrow> PoolMemberForReconcile \<Rightarrow> pool_op list" where
  "judge_ops deps now member =
     (let cid = rm_containerId member; st = rm_state member in
      if st = PoolCreating \<and> now - rm_updatedAtMs member > PROVISION_WEDGED_AFTER_MS then [FailWedged cid]
      else case inspectContainer (deps_docker deps) cid of
        Throws \<Rightarrow> []
      | Answer None \<Rightarrow> [Remove cid]
      | Answer (Some info) \<Rightarrow>
          (if rm_memoryBytes member = None then [RecordMemory cid (info_memory_bytes info)] else []) @
          (if info_running info then
             (if st = PoolIdle \<or> st = PoolBusy then [EnsureOpen cid]
              else if st = PoolSuspended then [MarkRunning cid None] else [])
           else if info_transitioning info then []
           else if st = PoolSuspended \<or> st = PoolError then [CloseContainer cid EndReconciled]
           else if st = PoolCreating then []
           else SetOutcome cid None (Some (stop_message info)) #
                (if st = PoolBusy then [] else [SetState cid PoolSuspended None None])))"

lemma judge_ops: "fst (judge_member deps now member (db, r)) = fold apply_op (judge_ops deps now member) db"
proof (cases "inspectContainer (deps_docker deps) (rm_containerId member)")
  case (Answer found)
  then show ?thesis
    by (cases found; cases "rm_state member") (simp_all add: judge_member_def judge_ops_def Let_def)
qed (simp add: judge_member_def judge_ops_def Let_def)

text \<open>What the pass does to a member depends on what was listed and what the engine answers.\<close>

fun aims_at :: "string \<Rightarrow> pool_op \<Rightarrow> bool" where
  "aims_at cid (FailWedged i) = (i = cid)"
| "aims_at cid (Remove i) = (i = cid)"
| "aims_at cid (RecordMemory i n) = (i = cid)"
| "aims_at cid (EnsureOpen i) = (i = cid)"
| "aims_at cid (MarkRunning i t) = (i = cid)"
| "aims_at cid (CloseContainer i r) = (i = cid)"
| "aims_at cid (SetOutcome i l e) = (i = cid)"
| "aims_at cid (SetState i st r t) = (i = cid)"
| "aims_at cid _ = False"

definition others :: "string \<Rightarrow> pool_db \<Rightarrow> pool_row list" where
  "others cid db = filter (\<lambda>m. pm_container_id m \<noteq> cid) (pool_rows db)"

lemma judge_aims: "op \<in> set (judge_ops deps now member) \<Longrightarrow> aims_at (rm_containerId member) op"
proof (cases "inspectContainer (deps_docker deps) (rm_containerId member)")
  case (Answer found)
  assume "op \<in> set (judge_ops deps now member)"
  then show ?thesis using Answer
    by (cases found) (auto simp: judge_ops_def Let_def split: if_splits)
qed (auto simp: judge_ops_def Let_def split: if_splits)

lemma others_touch:
  assumes "\<And>m. P m \<Longrightarrow> pm_container_id m = cid" "\<And>m. pm_container_id (f m) = pm_container_id m"
  shows "others cid (touch_members P f db) = others cid db"
proof -
  have "filter (\<lambda>m. pm_container_id m \<noteq> cid) (map (\<lambda>r. if P r then (f r)\<lparr>pm_updated_at := now_at db\<rparr> else r) ms)
      = filter (\<lambda>m. pm_container_id m \<noteq> cid) ms" for ms
    using assms by (induction ms) auto
  then show ?thesis by (simp add: others_def touch_members_def update_where_def)
qed

lemma others_ledger [simp]:
  "others cid (syncUptimeForState i st why s db) = others cid db"
  "others cid (openUptimeInterval i s db) = others cid db"
  "others cid (closeUptimeInterval i r db) = others cid db"
  by (simp_all add: others_def)

lemma others_writes:
  "others cid (setPoolMemberOutcome cid l e db) = others cid db"
  "others cid (setPoolMemberState cid st why s db) = others cid db"
  "others cid (snd (markPoolMemberRunning cid s db)) = others cid db"
  "others cid (forgetPoolMember cid db) = others cid db"
  "others cid (recordPoolMemberMemoryIfUnknown cid n db) = others cid db"
proof -
  show "others cid (setPoolMemberOutcome cid l e db) = others cid db"
    unfolding setPoolMemberOutcome_def by (rule others_touch) simp_all
  show "others cid (setPoolMemberState cid st why s db) = others cid db"
    unfolding setPoolMemberState_def others_ledger by (rule others_touch) simp_all
  show "others cid (snd (markPoolMemberRunning cid s db)) = others cid db"
    using others_touch [of "at_state cid PoolSuspended" cid "\<lambda>m. m\<lparr>pm_state := PoolIdle\<rparr>" db]
    by (simp add: markPoolMemberRunning_def at_state_def)
  show "others cid (forgetPoolMember cid db) = others cid db"
    by (simp add: forgetPoolMember_def others_def)
  show "others cid (recordPoolMemberMemoryIfUnknown cid n db) = others cid db"
    by (cases n) (auto simp: recordPoolMemberMemoryIfUnknown_def intro!: others_touch)
qed

lemma others_kept: "aims_at cid op \<Longrightarrow> others cid (apply_op op db) = others cid db"
  by (cases op) (simp_all add: others_writes failWedgedProvision_def removePoolMember_def
      ensurePoolMemberUptimeOpen_def closeContainerUptime_def)

section \<open>What a pass keeps\<close>

definition listed_as :: "PoolMemberForReconcile \<Rightarrow> pool_db \<Rightarrow> bool" where
  "listed_as member db \<longleftrightarrow> (\<forall>m \<in> set (pool_rows db). pm_container_id m = rm_containerId member \<longrightarrow> pm_state m = rm_state member)"

definition member_ops :: "reconcile_deps \<Rightarrow> int \<Rightarrow> (string \<rightharpoonup> int) \<Rightarrow> PoolMemberForReconcile \<Rightarrow> pool_op list" where
  "member_ops deps now stamps m =
     (if fst (dueForPoolLivenessCheck (rm_containerId m) now (liveness_interval deps) stamps)
         \<and> rm_containerId m \<notin> callsInFlight deps then judge_ops deps now m else [])"

lemma member_ops:
  "fst (snd (reconcile_member deps now m (stamps, db, r))) = fold apply_op (member_ops deps now stamps m) db"
  by (simp add: reconcile_member_def member_ops_def Let_def judge_ops split: prod.splits)

lemma member_ops_aim: "op \<in> set (member_ops deps now stamps m) \<Longrightarrow> aims_at (rm_containerId m) op"
  by (auto simp: member_ops_def judge_aims split: if_splits)

lemma others_run: "(\<And>op. op \<in> set ops \<Longrightarrow> aims_at cid op) \<Longrightarrow> others cid (fold apply_op ops db) = others cid db"
  by (induction ops arbitrary: db) (simp_all add: others_kept)

lemma in_others: "m \<in> set (others cid db) \<longleftrightarrow> m \<in> set (pool_rows db) \<and> pm_container_id m \<noteq> cid"
  by (simp add: others_def)

lemma listed_elsewhere:
  assumes "\<And>op. op \<in> set ops \<Longrightarrow> aims_at cid op" and "rm_containerId m \<noteq> cid"
  shows "listed_as m (fold apply_op ops db) = listed_as m db"
proof -
  have "listed_as m d \<longleftrightarrow> (\<forall>x \<in> set (others cid d). pm_container_id x = rm_containerId m \<longrightarrow> pm_state x = rm_state m)" for d
    using assms(2) by (auto simp: listed_as_def in_others)
  then show ?thesis using others_run [OF assms(1)] by simp
qed

lemma listed_touch:
  assumes "\<And>x. pm_state (f x) = pm_state x" and "\<And>x. pm_container_id (f x) = pm_container_id x"
  shows "listed_as m (touch_members P f db) = listed_as m db"
proof -
  let ?g = "\<lambda>x. if P x then (f x)\<lparr>pm_updated_at := now_at db\<rparr> else x"
  have "pm_state (?g x) = pm_state x" "pm_container_id (?g x) = pm_container_id x" for x
    using assms by simp_all
  then show ?thesis unfolding listed_as_def rows_touch set_map ball_simps by metis
qed

lemma listed_memory: "listed_as m (recordPoolMemberMemoryIfUnknown cid n db) = listed_as m db"
  by (cases n) (simp_all add: recordPoolMemberMemoryIfUnknown_def listed_touch)

lemma rest_not_up:
  assumes "listed_as m db" and "rm_state m = PoolSuspended \<or> rm_state m = PoolError"
  shows "\<not> believed_up (rm_containerId m) db"
  using assms by (auto simp: listed_as_def believed_up_def up_def)

lemma judge_reach:
  assumes reach: "reach pool_init pool_step db" and real: "\<not> is_provisional (rm_containerId m)" and listed: "listed_as m db"
  shows "reach pool_init pool_step (fold apply_op (judge_ops deps now m) db)"
proof (cases "inspectContainer (deps_docker deps) (rm_containerId m)")
  case Throws
  then show ?thesis using reach_apply [OF reach, of "FailWedged (rm_containerId m)"] reach
    by (simp add: judge_ops_def Let_def)
next
  case (Answer found)
  show ?thesis
  proof (cases found)
    case None
    then show ?thesis
      using Answer real reach_apply [OF reach, of "FailWedged (rm_containerId m)"] reach_apply [OF reach, of "Remove (rm_containerId m)"]
      by (simp add: judge_ops_def Let_def)
  next
    case (Some info)
    let ?mem = "if rm_memoryBytes m = None then [RecordMemory (rm_containerId m) (info_memory_bytes info)] else []"
    let ?db = "fold apply_op ?mem db"
    have r: "reach pool_init pool_step ?db"
      using reach reach_apply [OF reach, of "RecordMemory (rm_containerId m) (info_memory_bytes info)"] by simp
    have l: "listed_as m ?db" using listed by (simp add: listed_memory)
    have next1: "allowed op ?db \<Longrightarrow> reach pool_init pool_step (apply_op op ?db)" for op by (rule reach_apply [OF r])
    note steps = next1 [of "EnsureOpen (rm_containerId m)"] next1 [of "MarkRunning (rm_containerId m) None"]
      next1 [of "CloseContainer (rm_containerId m) EndReconciled"]
      next1 [of "SetOutcome (rm_containerId m) None (Some (stop_message info))"]
      reach_apply [OF next1 [of "SetOutcome (rm_containerId m) None (Some (stop_message info))"],
        of "SetState (rm_containerId m) PoolSuspended None None"]
    show ?thesis
      using Answer Some real steps r rest_not_up [OF l] reach_apply [OF reach, of "FailWedged (rm_containerId m)"]
      by (simp add: judge_ops_def Let_def past_def del: apply_op.simps)
  qed
qed

lemma fold_members_reach:
  assumes "reach pool_init pool_step db" and "distinct (map rm_containerId ms)"
    and "\<forall>m \<in> set ms. listed_as m db \<and> \<not> is_provisional (rm_containerId m)"
  shows "reach pool_init pool_step (fst (snd (fold (reconcile_member deps now) ms (stamps, db, r))))"
  using assms
proof (induction ms arbitrary: stamps db r)
  case (Cons m ms)
  obtain stamps' db' r' where step: "reconcile_member deps now m (stamps, db, r) = (stamps', db', r')"
    by (rule prod_cases3)
  then have db': "db' = fold apply_op (member_ops deps now stamps m) db"
    using member_ops [of deps now m stamps db r] by simp
  have "reach pool_init pool_step db'"
    using Cons.prems judge_reach [of db m] by (simp add: db' member_ops_def)
  moreover have "listed_as x db' \<and> \<not> is_provisional (rm_containerId x)" if "x \<in> set ms" for x
  proof -
    have "rm_containerId x \<noteq> rm_containerId m" using that Cons.prems(2) by (auto simp: rev_image_eqI)
    from listed_elsewhere [OF member_ops_aim this] have "listed_as x db' = listed_as x db" unfolding db' .
    then show ?thesis using that Cons.prems(3) by simp
  qed
  ultimately show ?case using Cons.IH Cons.prems(2) step by simp
qed simp

definition found_ids :: "reconcile_deps \<Rightarrow> string set" where
  "found_ids deps = {info_id i | i name. findContainerByNamePrefix (deps_docker deps) name = Answer (Some i)}"

definition adoptable :: "reconcile_deps \<Rightarrow> pool_db \<Rightarrow> bool" where
  "adoptable deps db \<longleftrightarrow> (\<forall>cid \<in> found_ids deps. \<not> is_provisional cid
     \<and> (\<forall>e \<in> set (entries db). ue_container_id e = cid \<longrightarrow> ue_ended_at e = None))"

lemma rows_settle [simp]: "pool_rows (settle_interval deps iv db) = pool_rows db"
  by (auto simp: settle_interval_def Let_def settleCreateRequestUptime_def closeContainerUptime_def
      split: answer.splits option.splits)

lemma adoptable_adopt: "adoptable deps db \<Longrightarrow> adoptable deps (snd (adoptProvisionalInterval name cid db))"
  by (auto simp: adoptable_def adoptProvisionalInterval_def Let_def update_where_def is_open_def)

lemma adoptable_close: "adoptable deps db \<Longrightarrow> cid \<notin> found_ids deps \<Longrightarrow> adoptable deps (closeUptimeInterval cid r db)"
  by (auto simp: adoptable_def closeUptimeInterval_def update_where_def is_open_def close_entry_def)

lemma adoptable_discard: "adoptable deps db \<Longrightarrow> adoptable deps (discardProvisionalInterval name db)"
  by (auto simp: adoptable_def discardProvisionalInterval_def)

lemma settle_keeps:
  assumes reach: "reach pool_init pool_step db" and adopt: "adoptable deps db"
    and key: "\<not> provisional iv \<longrightarrow> \<not> is_provisional (unsettled_id iv) \<and> \<not> believed_up (unsettled_id iv) db \<and> unsettled_id iv \<notin> found_ids deps"
  shows "reach pool_init pool_step (settle_interval deps iv db) \<and> adoptable deps (settle_interval deps iv db)"
proof (cases "unsettled_id iv \<in> callsInFlight deps")
  case False
  show ?thesis
  proof (cases "provisional iv")
    case True
    let ?name = "containerNameFromProvisionalKey (unsettled_id iv)"
    have "reach pool_init pool_step (settleCreateRequestUptime ?name (map_option info_id found) db)
        \<and> adoptable deps (settleCreateRequestUptime ?name (map_option info_id found) db)"
      if "findContainerByNamePrefix (deps_docker deps) ?name = Answer found" for found
    proof -
      have "i \<in> found_ids deps" if "map_option info_id found = Some i" for i
        using that \<open>_ = Answer found\<close> by (auto simp: found_ids_def)
      then have ok: "allowed (SettleCreate ?name (map_option info_id found)) db"
        using adopt by (auto simp: adoptable_def fresh_adoption_def split: option.splits)
      show ?thesis using reach_apply [OF reach ok] adopt
        by (cases found) (simp_all add: settleCreateRequestUptime_def adoptable_discard adoptable_adopt)
    qed
    then show ?thesis using reach adopt False True by (auto simp: settle_interval_def Let_def split: answer.splits)
  next
    case real: False
    then have "reach pool_init pool_step (closeContainerUptime (unsettled_id iv) r db)
        \<and> adoptable deps (closeContainerUptime (unsettled_id iv) r db)" for r
      using key reach_apply [OF reach, of "CloseContainer (unsettled_id iv) r"] adopt
      by (simp add: closeContainerUptime_def adoptable_close)
    then show ?thesis using reach adopt False real by (auto simp: settle_interval_def Let_def split: answer.splits option.splits)
  qed
qed (simp add: settle_interval_def Let_def reach adopt)

lemma settle_all_keeps:
  assumes "reach pool_init pool_step db" and "adoptable deps db"
    and "\<forall>iv \<in> set ivs. \<not> provisional iv \<longrightarrow> \<not> is_provisional (unsettled_id iv)
      \<and> \<not> believed_up (unsettled_id iv) db \<and> unsettled_id iv \<notin> found_ids deps"
  shows "reach pool_init pool_step (fold (settle_interval deps) ivs db) \<and> pool_rows (fold (settle_interval deps) ivs db) = pool_rows db"
  using assms
proof (induction ivs arbitrary: db)
  case (Cons iv ivs)
  have "reach pool_init pool_step (settle_interval deps iv db) \<and> adoptable deps (settle_interval deps iv db)"
    using Cons.prems by (intro settle_keeps) simp_all
  then show ?case using Cons by (simp add: believed_up_def)
qed simp

text \<open>A container found under a name still provisional was never metered under its own id.\<close>

definition finds_unmetered :: "reconcile_deps \<Rightarrow> pool_db \<Rightarrow> bool" where
  "finds_unmetered deps db \<longleftrightarrow> (\<forall>cid \<in> found_ids deps. \<not> is_provisional cid \<and> cid \<notin> ue_container_id ` set (entries db))"

lemma settleUnaccounted_keeps:
  assumes "reach pool_init pool_step db" and "finds_unmetered deps db"
  shows "reach pool_init pool_step (settleUnaccountedUptime deps db)" and "pool_rows (settleUnaccountedUptime deps db) = pool_rows db"
proof -
  have "set (sort_by c xs) = set xs" for c and xs :: "uptime_entry list" by (metis mset_sort_by set_mset_mset)
  then have listed: "\<exists>e \<in> set (entries db). unsettled_id iv = ue_container_id e \<and> \<not> has_member (ue_container_id e) db
      \<and> provisional iv = is_provisional (ue_container_id e)"
    if "iv \<in> set (listUnsettledUptime age n db)" for iv age n
    using that by (auto simp: listUnsettledUptime_def listUnsettledIntervals_def dest!: in_set_takeD)
  have "adoptable deps db" using assms(2) by (auto simp: adoptable_def finds_unmetered_def)
  then have "reach pool_init pool_step (settleUnaccountedUptime deps db) \<and> pool_rows (settleUnaccountedUptime deps db) = pool_rows db"
    unfolding settleUnaccountedUptime_def using listed assms
    by (intro settle_all_keeps) (fastforce simp: finds_unmetered_def believed_up_def has_member_def list_ex_iff)+
  then show "reach pool_init pool_step (settleUnaccountedUptime deps db)" "pool_rows (settleUnaccountedUptime deps db) = pool_rows db"
    by simp_all
qed

lemma pass_db:
  "rs_db (snd (reconcilePoolMembers deps now s)) =
     fst (snd (fold (reconcile_member deps now) (page_of deps s)
       (forget_stamps now (lastPoolLivenessCheckAt s), settleUnaccountedUptime deps (rs_db s), \<lparr>dropped = 0, wedged = 0, transitions = []\<rparr>)))"
  by (simp add: reconcilePoolMembers_def Let_def split: prod.splits)

lemma page_row:
  assumes "m \<in> set (page_of deps s)"
  shows "\<exists>x \<in> set (pool_rows (rs_db s)). rm_containerId m = pm_container_id x \<and> rm_state m = pm_state x
    \<and> rm_updatedAtMs m = pm_updated_at x"
proof -
  let ?rows = "due_rows (deps_projects deps) POOL_RECONCILE_MIN_AGE_SECONDS (rs_db s)"
  have "set (sort_by c xs) = set xs" for c and xs :: "PoolMemberForReconcile list" by (metis mset_sort_by set_mset_mset)
  then have "m \<in> set ?rows"
    using assms by (auto simp: page_of_def listPoolMembersForReconcile_def dest!: in_set_takeD)
  then show ?thesis by (auto simp: due_rows_def reconcile_row_def)
qed

lemma page_members:
  assumes "distinct (map project_row_id (deps_projects deps))" and rows: "distinct (map pm_container_id (pool_rows (rs_db s)))"
  shows "distinct (map rm_containerId (page_of deps s))"
    and "m \<in> set (page_of deps s) \<Longrightarrow> listed_as m (rs_db s) \<and> has_member (rm_containerId m) (rs_db s)"
proof -
  let ?rows = "due_rows (deps_projects deps) POOL_RECONCILE_MIN_AGE_SECONDS (rs_db s)"
  let ?rs = "filter (\<lambda>r. after_cursor (text_order deps) (poolReconcileCursor s) (rm_containerId r)) ?rows"
  let ?sorted = "sort_by (\<lambda>a b. text_order deps (rm_containerId a) (rm_containerId b)) ?rs"
  have page: "page_of deps s = take POOL_RECONCILE_LIMIT ?sorted"
    by (simp add: page_of_def listPoolMembersForReconcile_def)
  have "distinct (map rm_containerId ?rs)" by (intro distinct_map_filter distinct_due_rows assms(1) rows)
  moreover have "mset (map rm_containerId ?sorted) = mset (map rm_containerId ?rs)" by (simp add: mset_sort_by)
  ultimately have "distinct (map rm_containerId ?sorted)" using mset_eq_imp_distinct_iff by blast
  then show "distinct (map rm_containerId (page_of deps s))" by (simp add: page flip: take_map)
  assume "m \<in> set (page_of deps s)"
  then obtain x where x: "x \<in> set (pool_rows (rs_db s))" "rm_containerId m = pm_container_id x" "rm_state m = pm_state x"
    using page_row by blast
  have "y = x" if "y \<in> set (pool_rows (rs_db s))" "pm_container_id y = pm_container_id x" for y
    using rows x(1) that by (auto simp: distinct_map inj_on_def)
  then show "listed_as m (rs_db s) \<and> has_member (rm_containerId m) (rs_db s)"
    using x by (auto simp: listed_as_def has_member_def list_ex_iff)
qed

lemma aims_elsewhere: "aims_at cid op \<Longrightarrow> c \<noteq> cid \<Longrightarrow> \<not> gives_back c op"
  by (cases op) auto

lemma has_member_ledger [simp]:
  "has_member c (syncUptimeForState i st why s db) = has_member c db"
  "has_member c (openUptimeInterval i s db) = has_member c db"
  "has_member c (closeUptimeInterval i r db) = has_member c db"
  by (simp_all add: has_member_def)

lemma member_stays: "has_member c db \<Longrightarrow> aims_at cid op \<Longrightarrow> op \<noteq> Remove c \<Longrightarrow> has_member c (apply_op op db)"
proof (cases "c = cid")
  case True
  assume "has_member c db" "aims_at cid op" "op \<noteq> Remove c"
  then show ?thesis using True
    by (cases op) (simp_all add: failWedgedProvision_def setPoolMemberOutcome_def setPoolMemberState_def
      markPoolMemberRunning_def ensurePoolMemberUptimeOpen_def closeContainerUptime_def recordPoolMemberMemoryIfUnknown_def
      has_member_touch split: option.splits)
next
  case False
  assume has: "has_member c db" and aim: "aims_at cid op"
  have "has_member c d \<longleftrightarrow> c \<in> pm_container_id ` set (others cid d)" for d
    using False by (auto simp: has_member_def list_ex_iff others_def)
  then show ?thesis using has others_kept [OF aim] by simp
qed

lemma member_stays_run:
  "has_member c db \<Longrightarrow> \<forall>op \<in> set ops. aims_at cid op \<and> op \<noteq> Remove c \<Longrightarrow> has_member c (fold apply_op ops db)"
  by (induction ops arbitrary: db) (auto dest: member_stays)

lemma no_remove:
  "inspectContainer (deps_docker deps) c \<noteq> Answer None \<Longrightarrow> op \<in> set (member_ops deps now stamps m) \<Longrightarrow> op \<noteq> Remove c"
proof (cases "inspectContainer (deps_docker deps) (rm_containerId m)")
  case (Answer found)
  assume "inspectContainer (deps_docker deps) c \<noteq> Answer None" "op \<in> set (member_ops deps now stamps m)"
  then show ?thesis using Answer by (cases found) (auto simp: member_ops_def judge_ops_def Let_def split: if_splits)
qed (auto simp: member_ops_def judge_ops_def Let_def split: if_splits)

lemma busy_not_given_back:
  assumes "inspectContainer (deps_docker deps) (rm_containerId m) \<noteq> Answer None" and "rm_state m = PoolBusy"
    and "op \<in> set (member_ops deps now stamps m)"
  shows "\<not> gives_back (rm_containerId m) op"
proof (cases "inspectContainer (deps_docker deps) (rm_containerId m)")
  case (Answer found)
  then show ?thesis using assms by (cases found) (auto simp: member_ops_def judge_ops_def Let_def split: if_splits)
qed (use assms in \<open>auto simp: member_ops_def judge_ops_def Let_def split: if_splits\<close>)

lemma pass_keeps_member:
  assumes "has_member c db" and "inspectContainer (deps_docker deps) c \<noteq> Answer None"
    and "distinct (map rm_containerId ms)" and "\<forall>m \<in> set ms. listed_as m db"
  shows "has_member c (fst (snd (fold (reconcile_member deps now) ms (stamps, db, r))))
    \<and> (held_busy c db \<longrightarrow> held_busy c (fst (snd (fold (reconcile_member deps now) ms (stamps, db, r)))))"
  using assms(1,3,4)
proof (induction ms arbitrary: stamps db r)
  case (Cons m ms)
  obtain stamps' db' r' where step: "reconcile_member deps now m (stamps, db, r) = (stamps', db', r')"
    by (rule prod_cases3)
  then have db': "db' = fold apply_op (member_ops deps now stamps m) db"
    using member_ops [of deps now m stamps db r] by simp
  have has: "has_member c db'" unfolding db'
    using Cons.prems(1) no_remove [OF assms(2)] member_ops_aim by (intro member_stays_run) blast+
  have held: "held_busy c db'" if "held_busy c db"
  proof -
    have "\<not> gives_back c op" if op: "op \<in> set (member_ops deps now stamps m)" for op
    proof (cases "c = rm_containerId m")
      case True
      obtain x where "x \<in> set (pool_rows db)" "pm_container_id x = c"
        using Cons.prems(1) by (auto simp: has_member_def list_ex_iff)
      then have "rm_state m = PoolBusy"
        using Cons.prems(3) True \<open>held_busy c db\<close> by (auto simp: listed_as_def held_busy_def)
      then show ?thesis using busy_not_given_back op assms(2) True by blast
    qed (use aims_elsewhere member_ops_aim op in blast)
    then show ?thesis unfolding db' using that by (blast intro: held_run)
  qed
  have "listed_as x db'" if "x \<in> set ms" for x
  proof -
    have "rm_containerId x \<noteq> rm_containerId m" using that Cons.prems(2) by (auto simp: rev_image_eqI)
    from listed_elsewhere [OF member_ops_aim this] have "listed_as x db' = listed_as x db" unfolding db' .
    then show ?thesis using that Cons.prems(3) by simp
  qed
  then show ?case using Cons.IH [OF has] Cons.prems(2) held step by simp
qed simp

section \<open>The states a container is recorded in\<close>

definition states :: "string \<Rightarrow> pool_db \<Rightarrow> container_pool_state set" where
  "states cid db = pm_state ` {m \<in> set (pool_rows db). pm_container_id m = cid}"

lemma states_touch:
  assumes "\<And>m. pm_container_id (f m) = pm_container_id m"
  shows "states cid (touch_members P f db) =
    (\<lambda>m. if P m then pm_state (f m) else pm_state m) ` {m \<in> set (pool_rows db). pm_container_id m = cid}"
proof -
  let ?g = "\<lambda>m. if P m then (f m)\<lparr>pm_updated_at := now_at db\<rparr> else m"
  have "pm_container_id (?g m) = pm_container_id m" for m using assms by simp
  then have "{m \<in> ?g ` set (pool_rows db). pm_container_id m = cid} = ?g ` {m \<in> set (pool_rows db). pm_container_id m = cid}"
    by (simp only: Compr_image_eq)
  moreover have "pm_state \<circ> ?g = (\<lambda>m. if P m then pm_state (f m) else pm_state m)" by (simp add: fun_eq_iff)
  ultimately show ?thesis unfolding states_def rows_touch set_map by (simp only: image_comp)
qed

lemma states_ledger [simp]:
  "states cid (syncUptimeForState i st why s db) = states cid db"
  "states cid (openUptimeInterval i s db) = states cid db"
  "states cid (closeUptimeInterval i r db) = states cid db"
  by (simp_all add: states_def)

lemma believed_states: "believed_up cid db \<longleftrightarrow> (\<exists>st \<in> states cid db. up st)"
  by (auto simp: believed_up_def states_def)

lemma member_states: "has_member cid db \<longleftrightarrow> states cid db \<noteq> {}"
  by (auto simp: has_member_def states_def list_ex_iff)

lemma has_memberI: "list_ex (at_state cid st) (pool_rows db) \<Longrightarrow> has_member cid db"
  by (auto simp: has_member_def list_ex_iff at_state_def)

lemma states_one:
  "states cid db = {st} \<longleftrightarrow> has_member cid db \<and> (\<forall>m \<in> set (pool_rows db). pm_container_id m = cid \<longrightarrow> pm_state m = st)"
  by (auto simp: states_def has_member_def list_ex_iff image_iff)

lemma states_same:
  assumes "\<And>m. pm_container_id (f m) = pm_container_id m" and "\<And>m. pm_state (f m) = pm_state m"
  shows "states cid (touch_members P f db) = states cid db"
  unfolding states_touch [OF assms(1)] assms(2) by (simp only: if_cancel states_def)

lemma states_moved:
  assumes "\<And>m. pm_container_id (f m) = pm_container_id m" and "states cid db \<noteq> {}"
    and "\<And>m. m \<in> set (pool_rows db) \<Longrightarrow> pm_container_id m = cid \<Longrightarrow> (if P m then pm_state (f m) else pm_state m) = st"
  shows "states cid (touch_members P f db) = {st}"
proof -
  have "(\<lambda>m. if P m then pm_state (f m) else pm_state m) ` {m \<in> set (pool_rows db). pm_container_id m = cid}
      = (\<lambda>_. st) ` {m \<in> set (pool_rows db). pm_container_id m = cid}"
    by (rule image_cong) (use assms(3) in auto)
  moreover have "{m \<in> set (pool_rows db). pm_container_id m = cid} \<noteq> {}" using assms(2) by (auto simp: states_def)
  ultimately show ?thesis unfolding states_touch [OF assms(1)] by (simp only: image_constant_conv if_False)
qed

lemma recorded_memory_keeps:
  "states cid (recordPoolMemberMemoryIfUnknown i n db) = states cid db"
  "has_open cid (recordPoolMemberMemoryIfUnknown i n db) = has_open cid db"
  by (cases n; simp add: recordPoolMemberMemoryIfUnknown_def states_same)+

lemma states_outcome: "states cid (setPoolMemberOutcome i l e db) = states cid db"
  by (simp add: setPoolMemberOutcome_def states_same)

lemma states_stop:
  assumes "states cid db \<noteq> {}"
  shows "states cid (setPoolMemberState cid PoolSuspended None None (setPoolMemberOutcome cid None e db)) = {PoolSuspended}"
  unfolding setPoolMemberState_def states_ledger by (rule states_moved) (use assms in \<open>auto simp: states_outcome\<close>)

lemma states_mark: "states cid db = {PoolSuspended} \<Longrightarrow> states cid (snd (markPoolMemberRunning cid s db)) = {PoolIdle}"
proof -
  assume st: "states cid db = {PoolSuspended}"
  then have "list_ex (at_state cid PoolSuspended) (pool_rows db)"
    by (auto simp: states_one has_member_def list_ex_iff at_state_def)
  moreover have "states cid (touch_members (at_state cid PoolSuspended) (\<lambda>m. m\<lparr>pm_state := PoolIdle\<rparr>) db) = {PoolIdle}"
  proof (rule states_moved)
    show "states cid db \<noteq> {}" using st by simp
  qed (use st in \<open>auto simp: states_one at_state_def\<close>)
  ultimately show ?thesis by (simp add: markPoolMemberRunning_def)
qed

lemma has_open_mark: "states cid db = {PoolSuspended} \<Longrightarrow> has_open cid (snd (markPoolMemberRunning cid s db))"
proof -
  assume st: "states cid db = {PoolSuspended}"
  then have "list_ex (at_state cid PoolSuspended) (pool_rows db)"
    by (auto simp: states_one has_member_def list_ex_iff at_state_def)
  moreover have "has_member cid db" using st by (simp add: member_states)
  ultimately show ?thesis by (simp add: markPoolMemberRunning_def syncUptimeForState_def has_member_touch)
qed

lemma has_open_stop: "\<not> has_open cid (setPoolMemberState cid PoolSuspended None None db)"
  by (simp add: setPoolMemberState_def syncUptimeForState_def)

section \<open>A pass over one member\<close>

definition demo_engine :: "ContainerInfo option answer \<Rightarrow> ContainerEngine" where
  "demo_engine a = \<lparr>inspectContainer = (\<lambda>_. a), findContainerByNamePrefix = (\<lambda>_. Answer None)\<rparr>"

definition listed_project :: project_listing where
  "listed_project = \<lparr>project_row_id = ''p'', project_team_id = ''t'', project_container_id = None, container_running = True,
     memory_limit_gib = None, project_slug = ''slug''\<rparr>"

definition demo_deps :: "ContainerInfo option answer \<Rightarrow> reconcile_deps" where
  "demo_deps a = \<lparr>deps_docker = demo_engine a, poolLivenessIntervalMs = None, callsInFlight = {}, text_order = by_code,
     deps_projects = [listed_project]\<rparr>"

definition at_rest :: ContainerInfo where
  "at_rest = \<lparr>info_id = ''c'', info_status = ''exited'', info_running = False, info_exit_code = 1,
     info_transitioning = False, info_memory_bytes = Some 4\<rparr>"

definition aged_pool :: pool_db where
  "aged_pool = apply_op (Advance 100000) demo_ready"

definition demo_start :: reconcile_state where
  "demo_start = \<lparr>rs_db = aged_pool, poolReconcileCursor = None, lastPoolLivenessCheckAt = Map.empty\<rparr>"

lemma demo_ready_row:
  "pool_rows demo_ready = [\<lparr>pm_project_id = ''p'', pm_container_id = ''c'', pm_state = PoolIdle, pm_last_task_id = None,
     pm_disk_used_bytes = 0, pm_disk_ceiling_bytes = poolDiskCeilingBytes DEFAULT_CONTAINER_DISK_GB,
     pm_memory_bytes = None, pm_image_version = None, pm_has_unpushed = False, pm_last_released_at = None,
     pm_created_at = 0, pm_updated_at = 9, pm_chat_released_at = None, pm_last_logs = None, pm_last_error = None\<rparr>]"
  by (simp add: demo_ready_def demo_pool_def empty_pool_def upsertPoolMember_def has_member_def setPoolMemberState_def
      rows_touch Let_def)

lemma aged_pool_facts:
  "pool_rows aged_pool = pool_rows demo_ready" "now_at aged_pool = 100000" "reach pool_init pool_step aged_pool"
proof -
  have "now_at demo_ready \<le> 100000"
    by (simp add: demo_ready_def demo_pool_def empty_pool_def setPoolMemberState_def)
  then show "reach pool_init pool_step aged_pool" unfolding aged_pool_def by (intro reach_apply demo_ready_reach) simp
qed (simp_all add: aged_pool_def)

section \<open>Properties\<close>

text \<open>
  (Lemma) A pass never loses a container it was not told is gone, and never ends a claim. Over a pool
  as it was listed, every member the engine does not report gone - answers that stop the container,
  and no answer at all, included - is still a member afterwards, and one a run holds is still held;
  the pass is itself a run of pool operations, so the ledger's invariant holds after it.
\<close>

theorem reconcile_keeps_claims:
  assumes "reach pool_init pool_step (rs_db s)" and "distinct (map project_row_id (deps_projects deps))"
    and "finds_unmetered deps (rs_db s)"
  shows "reach pool_init pool_step (rs_db (snd (reconcilePoolMembers deps now s)))
    \<and> (\<forall>m \<in> set (pool_rows (rs_db s)). inspectContainer (deps_docker deps) (pm_container_id m) \<noteq> Answer None \<longrightarrow>
        (\<exists>m' \<in> set (pool_rows (rs_db (snd (reconcilePoolMembers deps now s)))). pm_container_id m' = pm_container_id m
           \<and> (pm_state m = PoolBusy \<longrightarrow> pm_state m' = PoolBusy)))"
proof -
  let ?db = "settleUnaccountedUptime deps (rs_db s)" and ?db' = "rs_db (snd (reconcilePoolMembers deps now s))"
  note settled = settleUnaccounted_keeps [OF assms(1,3)]
  have ok: "rows_ok (rs_db s)" using pool.reach_inv [OF assms(1)] by (simp add: pool_ok_def)
  then have "distinct (map pm_container_id (pool_rows (rs_db s)))" by (simp add: rows_ok_def)
  note page = page_members [OF assms(2) this]
  have listed: "\<forall>m \<in> set (page_of deps s). listed_as m ?db \<and> \<not> is_provisional (rm_containerId m)"
    using page(2) page_row settled(2) ok by (fastforce simp: listed_as_def rows_ok_def)
  have "\<exists>m' \<in> set (pool_rows ?db'). pm_container_id m' = pm_container_id m \<and> (pm_state m = PoolBusy \<longrightarrow> pm_state m' = PoolBusy)"
    if m: "m \<in> set (pool_rows (rs_db s))" and there: "inspectContainer (deps_docker deps) (pm_container_id m) \<noteq> Answer None" for m
  proof -
    have "has_member (pm_container_id m) ?db" using m settled(2) by (auto simp: has_member_def list_ex_iff)
    moreover have "held_busy (pm_container_id m) ?db" if "pm_state m = PoolBusy"
      using that m ok settled(2) by (auto simp: held_busy_def rows_ok_def distinct_map inj_on_def)
    ultimately have "has_member (pm_container_id m) ?db'" "pm_state m = PoolBusy \<longrightarrow> held_busy (pm_container_id m) ?db'"
      using pass_keeps_member [OF _ there page(1)] listed unfolding pass_db by blast+
    then show ?thesis by (auto simp: has_member_def list_ex_iff held_busy_def)
  qed
  moreover have "reach pool_init pool_step ?db'"
    unfolding pass_db by (rule fold_members_reach [OF settled(1) page(1) listed])
  ultimately show ?thesis by blast
qed

definition busy_start :: reconcile_state where
  "busy_start = demo_start\<lparr>rs_db := snd (claimPoolMember ''c'' None aged_pool)\<rparr>"

theorem reconcile_keeps_claims_witness:
  "\<exists>m' \<in> set (pool_rows (rs_db (snd (reconcilePoolMembers (demo_deps (Answer (Some at_rest))) 200000 busy_start)))).
     pm_container_id m' = ''c'' \<and> pm_state m' = PoolBusy"
proof -
  let ?deps = "demo_deps (Answer (Some at_rest))"
  have r: "reach pool_init pool_step (rs_db busy_start)"
    using reach_apply [OF aged_pool_facts(3), of "Claim ''c'' None"] by (simp add: busy_start_def)
  have "distinct (map project_row_id (deps_projects ?deps))" "finds_unmetered ?deps (rs_db busy_start)"
    by (simp_all add: demo_deps_def finds_unmetered_def found_ids_def demo_engine_def)
  from reconcile_keeps_claims [OF r this]
  have "\<forall>m \<in> set (pool_rows (rs_db busy_start)). inspectContainer (deps_docker ?deps) (pm_container_id m) \<noteq> Answer None \<longrightarrow>
      (\<exists>m' \<in> set (pool_rows (rs_db (snd (reconcilePoolMembers ?deps 200000 busy_start)))). pm_container_id m' = pm_container_id m
        \<and> (pm_state m = PoolBusy \<longrightarrow> pm_state m' = PoolBusy))" by blast
  moreover have "\<exists>m. pool_rows (rs_db busy_start) = [m] \<and> pm_container_id m = ''c'' \<and> pm_state m = PoolBusy"
    by (simp add: busy_start_def claimPoolMember_def aged_pool_facts demo_ready_row at_state_def rows_touch)
  ultimately show ?thesis by (auto simp: demo_deps_def demo_engine_def)
qed

text \<open>
  (Lemma) A definite answer settles the meter. For a member listed as the pool has it, an answer that the
  container is gone leaves neither a member nor an open interval; that it runs leaves an open
  interval and, for one recorded suspended, an idle member; that it is at rest closes the
  interval of an idle, suspended or failed member and leaves an idle one suspended; and an
  engine that throws changes nothing.
\<close>

theorem reconcile_settles_meter:
  assumes listed: "listed_as member db" and has: "has_member (rm_containerId member) db"
    and fresh: "rm_state member \<noteq> PoolCreating"
    and db': "db' = fst (judge_member deps now member (db, r))"
    and answer: "answer = inspectContainer (deps_docker deps) (rm_containerId member)"
  shows "(answer = Throws \<longrightarrow> db' = db)
    \<and> (answer = Answer None \<longrightarrow> \<not> has_member (rm_containerId member) db' \<and> \<not> has_open (rm_containerId member) db')
    \<and> (\<forall>info. answer = Answer (Some info) \<and> info_running info \<and> rm_state member \<noteq> PoolError \<longrightarrow>
        has_open (rm_containerId member) db' \<and> believed_up (rm_containerId member) db')
    \<and> (\<forall>info. answer = Answer (Some info) \<and> \<not> info_running info \<and> \<not> info_transitioning info \<and> rm_state member \<noteq> PoolBusy \<longrightarrow>
        \<not> has_open (rm_containerId member) db' \<and> \<not> believed_up (rm_containerId member) db')"
proof -
  let ?cid = "rm_containerId member"
  have st: "states ?cid db = {rm_state member}" using listed has by (simp add: states_one listed_as_def)
  show ?thesis
  proof (cases answer)
    case Throws
    then show ?thesis using db' answer fresh by (simp add: judge_member_def Let_def)
  next
    case (Answer found)
    show ?thesis
    proof (cases found)
      case None
      then show ?thesis using Answer db' answer fresh
        by (simp add: judge_member_def Let_def removePoolMember_def forgetPoolMember_def has_member_def list_ex_iff)
    next
      case (Some info)
      let ?db = "if rm_memoryBytes member = None then recordPoolMemberMemoryIfUnknown ?cid (info_memory_bytes info) db else db"
      have mem: "states ?cid ?db = {rm_state member}" "has_open ?cid ?db = has_open ?cid db"
        using st by (simp_all add: recorded_memory_keeps)
      show ?thesis
      proof (cases "rm_state member")
        case PoolCreating
        then show ?thesis using fresh by simp
      qed (use Answer Some db' answer states_mark [of ?cid ?db] states_stop [of ?cid ?db "Some (stop_message info)"] mem in
        \<open>simp_all add: judge_member_def Let_def believed_states up_def member_states ensurePoolMemberUptimeOpen_def
          closeContainerUptime_def has_open_mark has_open_stop\<close>)
    qed
  qed
qed

theorem reconcile_settles_meter_witness:
  "\<not> has_open ''c'' (fst (judge_member (demo_deps (Answer (Some at_rest))) 100000
      (reconcile_row (hd (pool_rows aged_pool)) listed_project) (aged_pool, \<lparr>dropped = 0, wedged = 0, transitions = []\<rparr>)))"
proof -
  let ?m = "reconcile_row (hd (pool_rows aged_pool)) listed_project" and ?deps = "demo_deps (Answer (Some at_rest))"
  have m: "listed_as ?m aged_pool" "has_member (rm_containerId ?m) aged_pool" "rm_state ?m \<noteq> PoolCreating" "rm_containerId ?m = ''c''"
    "rm_state ?m \<noteq> PoolBusy"
    by (simp_all add: listed_as_def has_member_def reconcile_row_def aged_pool_facts demo_ready_row)
  have "inspectContainer (deps_docker ?deps) (rm_containerId ?m) = Answer (Some at_rest)" "\<not> info_running at_rest" "\<not> info_transitioning at_rest"
    by (simp_all add: demo_deps_def demo_engine_def at_rest_def)
  then show ?thesis
    using reconcile_settles_meter [OF m(1,2,3) refl refl, of ?deps 100000] m(4,5) by simp
qed

text \<open>
  What an answer of the engine leaves of a member, read off the pool and the ledger afterwards: \<open>m\<close>
  is its row before.
\<close>

definition settled :: "ContainerInfo option answer \<Rightarrow> int \<Rightarrow> pool_row \<Rightarrow> pool_db \<Rightarrow> bool" where
  "settled answer now m db \<longleftrightarrow>
     (let cid = pm_container_id m in
      if pm_state m = PoolCreating then now - pm_updated_at m > 15 * 60000 \<longrightarrow> states cid db = {PoolError}
      else case answer of
        Throws \<Rightarrow> states cid db = {pm_state m}
      | Answer None \<Rightarrow> states cid db = {} \<and> \<not> has_open cid db
      | Answer (Some info) \<Rightarrow>
          if info_running info then pm_state m \<noteq> PoolError \<longrightarrow> has_open cid db \<and> (\<exists>st \<in> states cid db. up st)
          else if info_transitioning info then states cid db = {pm_state m}
          else pm_state m \<noteq> PoolBusy \<longrightarrow> \<not> has_open cid db \<and> (\<forall>st \<in> states cid db. \<not> up st))"


















text \<open>
  (Lemma) The listing can be older than the pool it is applied to. A member listed idle that a run
  claimed before its turn in the pass came is suspended when the engine reports it at rest: the
  claim is gone although the run still holds the container.
\<close>

theorem stale_listing_ends_claim:
  assumes "rows_ok db" and "claimPoolMember (rm_containerId member) t db = (True, db1)" and "rm_state member = PoolIdle"
    and "inspectContainer (deps_docker deps) (rm_containerId member) = Answer (Some info)"
    and "\<not> info_running info" and "\<not> info_transitioning info"
  shows "states (rm_containerId member) db1 = {PoolBusy}
    \<and> states (rm_containerId member) (fst (judge_member deps now member (db1, r))) = {PoolSuspended}"
proof -
  let ?cid = "rm_containerId member"
  let ?db = "if rm_memoryBytes member = None then recordPoolMemberMemoryIfUnknown ?cid (info_memory_bytes info) db1 else db1"
  have "has_member ?cid db1"
    using assms(2) has_memberI by (auto simp: claimPoolMember_def has_member_touch split: if_splits)
  then have st: "states ?cid db1 = {PoolBusy}"
    using claim_holds [OF assms(1,2)] by (simp add: states_one held_busy_def)
  then have "states ?cid ?db = {PoolBusy}" by (simp add: recorded_memory_keeps)
  then show ?thesis using st assms(3-6) states_stop [of ?cid ?db "Some (stop_message info)"] by (simp add: judge_member_def Let_def)
qed

theorem stale_listing_ends_claim_witness:
  "states ''c'' (fst (judge_member (demo_deps (Answer (Some at_rest))) 100000 (reconcile_row (hd (pool_rows aged_pool)) listed_project)
     (snd (claimPoolMember ''c'' None aged_pool), \<lparr>dropped = 0, wedged = 0, transitions = []\<rparr>))) = {PoolSuspended}"
proof -
  let ?m = "reconcile_row (hd (pool_rows aged_pool)) listed_project" and ?deps = "demo_deps (Answer (Some at_rest))"
  have ok: "rows_ok aged_pool" using pool.reach_inv [OF aged_pool_facts(3)] by (simp add: pool_ok_def)
  have m: "rm_containerId ?m = ''c''" "rm_state ?m = PoolIdle"
    by (simp_all add: reconcile_row_def aged_pool_facts demo_ready_row)
  have claim: "claimPoolMember (rm_containerId ?m) None aged_pool = (True, snd (claimPoolMember ''c'' None aged_pool))"
    unfolding m by (simp add: claimPoolMember_def aged_pool_facts demo_ready_row at_state_def)
  have "inspectContainer (deps_docker ?deps) (rm_containerId ?m) = Answer (Some at_rest)" "\<not> info_running at_rest" "\<not> info_transitioning at_rest"
    by (simp_all add: demo_deps_def demo_engine_def at_rest_def)
  from stale_listing_ends_claim [OF ok claim m(2) this, of 100000] show ?thesis by (simp add: m(1))
qed

end
