(* ===== verification/Container_Hours.thy ===== *)
theory Container_Hours
  imports Pool_Ledger Budget
begin

text \<open>
  Reading the ledger: \<open>services/container-hours.ts\<close>, the figures the Budget page draws and the
  one the container-hours allowance is enforced on. Queries are functions on the ledger's rows.
  Seconds are rationals until the query's \<open>::int\<close>, which rounds to the nearest integer; \<open>Date\<close> and the
  database read one clock, and the session's time zone is UTC.
\<close>

section \<open>Clipping an interval to a window\<close>

definition ended_or_now :: "int \<Rightarrow> uptime_entry \<Rightarrow> int" where
  "ended_or_now now e = (case ue_ended_at e of None \<Rightarrow> now | Some t \<Rightarrow> t)"

definition clippedSeconds :: "int \<Rightarrow> uptime_entry option \<Rightarrow> int \<Rightarrow> int \<Rightarrow> rat option" where
  "clippedSeconds now row from to = (case row of
     None \<Rightarrow> None
   | Some e \<Rightarrow> Some (max (of_int (min (ended_or_now now e) to - max (ue_started_at e) from) / 1000) 0))"

definition overlapsWindow :: "int \<Rightarrow> uptime_entry \<Rightarrow> int \<Rightarrow> int \<Rightarrow> bool" where
  "overlapsWindow now e from to \<longleftrightarrow> ue_started_at e < to \<and> ended_or_now now e > from"

text \<open>\<open>COALESCE(SUM(...), 0)\<close> passes over nulls; \<open>::int\<close> rounds halves away from zero.\<close>

fun sum_or_zero :: "rat option list \<Rightarrow> rat" where
  "sum_or_zero [] = 0"
| "sum_or_zero (None # xs) = sum_or_zero xs"
| "sum_or_zero (Some x # xs) = x + sum_or_zero xs"

definition as_int :: "rat \<Rightarrow> int" where
  "as_int x = (if x < 0 then - \<lfloor>- x + 1 / 2\<rfloor> else \<lfloor>x + 1 / 2\<rfloor>)"

definition clipped_sum :: "int \<Rightarrow> uptime_entry list \<Rightarrow> int \<Rightarrow> int \<Rightarrow> rat" where
  "clipped_sum now rows from to = sum_or_zero (map (\<lambda>e. clippedSeconds now (Some e) from to) rows)"

definition in_scope :: "string option \<Rightarrow> uptime_entry \<Rightarrow> bool" where
  "in_scope project e \<longleftrightarrow> (case project of None \<Rightarrow> True | Some p \<Rightarrow> ue_project_id e = Some p)"

section \<open>The windows\<close>

record hours_pins =
  containerHoursAnchorDay :: "rat option"
  containerHoursSince :: "int option"

definition countedSince :: "hours_pins \<Rightarrow> int option" where
  "countedSince pins = containerHoursSince pins"

definition currentContainerHoursWindow :: "hours_pins \<Rightarrow> int \<Rightarrow> int \<times> int" where
  "currentContainerHoursWindow pins now = containerHoursWindow (containerHoursAnchorDay pins) now (countedSince pins)"

datatype HoursBucket = Day | Week | Month

definition HOURS_BUCKET_SPAN :: "HoursBucket \<Rightarrow> nat" where
  "HOURS_BUCKET_SPAN bucket = (case bucket of Day \<Rightarrow> 30 | Week \<Rightarrow> 12 | Month \<Rightarrow> 12)"

text \<open>\<open>date_trunc\<close> in UTC, moved by \<open>k\<close> units; the week begins on Monday and day 0 is a Thursday.\<close>

definition truncated_day :: "HoursBucket \<Rightarrow> int \<Rightarrow> int \<Rightarrow> int" where
  "truncated_day bucket now k = (case bucket of
     Day \<Rightarrow> now div DAY_MS + k
   | Week \<Rightarrow> now div DAY_MS - (now div DAY_MS + 3) mod 7 + 7 * k
   | Month \<Rightarrow> first_day (month_of now + k))"

definition utcWindowStartSql :: "HoursBucket \<Rightarrow> int \<Rightarrow> int" where
  "utcWindowStartSql bucket now = truncated_day bucket now 0 * DAY_MS"

definition bucketGridSql :: "HoursBucket \<Rightarrow> nat \<Rightarrow> int \<Rightarrow> (int \<times> int) list" where
  "bucketGridSql bucket n now =
     map (\<lambda>k. (truncated_day bucket now k * DAY_MS, truncated_day bucket now (k + 1) * DAY_MS))
       [1 - int n .. 0]"

section \<open>The series\<close>

record ContainerHoursBucket =
  bucket_day :: int
  bucket_seconds :: int

text \<open>A \<open>LEFT JOIN\<close>: a bucket that matches nothing still yields one row, of nulls.\<close>

definition joined :: "int \<Rightarrow> uptime_entry list \<Rightarrow> string option \<Rightarrow> int \<times> int \<Rightarrow> uptime_entry option list" where
  "joined now es project b =
     (case filter (\<lambda>e. overlapsWindow now e (fst b) (snd b) \<and> in_scope project e) es of
        [] \<Rightarrow> [None]
      | matched \<Rightarrow> map Some matched)"

definition bucket_sum :: "int \<Rightarrow> uptime_entry list \<Rightarrow> string option \<Rightarrow> int \<times> int \<Rightarrow> rat" where
  "bucket_sum now es project b =
     sum_or_zero (map (\<lambda>row. clippedSeconds now row (fst b) (snd b)) (joined now es project b))"

definition containerHoursSeries :: "pool_db \<Rightarrow> HoursBucket \<Rightarrow> string option \<Rightarrow> ContainerHoursBucket list" where
  "containerHoursSeries db bucket project =
     map (\<lambda>b. \<lparr>bucket_day = fst b div DAY_MS, bucket_seconds = as_int (bucket_sum (now_at db) (entries db) project b)\<rparr>)
       (bucketGridSql bucket (HOURS_BUCKET_SPAN bucket) (now_at db))"

section \<open>Totals\<close>

record ContainerHoursTotals =
  today_seconds :: int
  week_seconds :: int
  window_seconds :: int
  prev_window_seconds :: int
  open_intervals :: nat
  window_start :: int
  window_end :: int

definition containerHoursTotals :: "hours_pins \<Rightarrow> pool_db \<Rightarrow> string option \<Rightarrow> ContainerHoursTotals" where
  "containerHoursTotals pins db project =
     (let now = now_at db;
          (start, windowEnd) = currentContainerHoursWindow pins now;
          prevStart = previousContainerHoursWindowStart (containerHoursAnchorDay pins) now (countedSince pins);
          rows = filter (\<lambda>e. overlapsWindow now e prevStart now \<and> in_scope project e) (entries db)
      in \<lparr>today_seconds = as_int (clipped_sum now rows (utcWindowStartSql Day now) now),
          week_seconds = as_int (clipped_sum now rows (utcWindowStartSql Week now) now),
          window_seconds = as_int (clipped_sum now rows start now),
          prev_window_seconds = as_int (clipped_sum now rows prevStart start),
          open_intervals = length (filter (\<lambda>e. ue_ended_at e = None) rows),
          window_start = start, window_end = windowEnd\<rparr>)"

definition currentWindowContainerSeconds :: "hours_pins \<Rightarrow> pool_db \<Rightarrow> int" where
  "currentWindowContainerSeconds pins db =
     (let now = now_at db; start = fst (currentContainerHoursWindow pins now)
      in as_int (clipped_sum now (filter (\<lambda>e. overlapsWindow now e start now) (entries db)) start now))"

record ProjectBudgetWindowSeconds =
  daily_s :: int
  weekly_s :: int
  monthly_s :: int
  monthStart :: int

definition projectBudgetWindowSeconds :: "hours_pins \<Rightarrow> pool_db \<Rightarrow> string \<Rightarrow> ProjectBudgetWindowSeconds" where
  "projectBudgetWindowSeconds pins db project =
     (let now = now_at db;
          month = fst (currentContainerHoursWindow pins now);
          day = utcWindowStartSql Day now; week = utcWindowStartSql Week now;
          least = min day (min week month);
          rows = filter (\<lambda>e. ue_project_id e = Some project
             \<and> (case ue_ended_at e of None \<Rightarrow> True | Some t \<Rightarrow> t > least)
             \<and> overlapsWindow now e least now) (entries db)
      in \<lparr>daily_s = as_int (clipped_sum now rows day now), weekly_s = as_int (clipped_sum now rows week now),
          monthly_s = as_int (clipped_sum now rows month now), monthStart = month\<rparr>)"

section \<open>Sums of clipped intervals\<close>

definition clip :: "int \<Rightarrow> int \<Rightarrow> int \<Rightarrow> uptime_entry \<Rightarrow> rat" where
  "clip now from to e = max (of_int (min (ended_or_now now e) to - max (ue_started_at e) from) / 1000) 0"

lemma clipped_sum_clip: "clipped_sum now rows from to = sum_list (map (clip now from to) rows)"
  by (induction rows) (simp_all add: clipped_sum_def clippedSeconds_def clip_def)

lemma clip_nonneg: "0 \<le> clip now from to e"
  by (simp add: clip_def)

lemma clip_int: "clip now from to e = of_int (max (min (ended_or_now now e) to - max (ue_started_at e) from) 0) / 1000"
  by (simp add: clip_def max_def divide_le_0_iff)

lemma clip_outside: "\<not> overlapsWindow now e from to \<Longrightarrow> clip now from to e = 0"
  by (auto simp: clip_def overlapsWindow_def not_less max_def min_def divide_le_0_iff)

lemma clip_within: "from \<le> from' \<Longrightarrow> \<not> overlapsWindow now e from to \<Longrightarrow> clip now from' to e = 0"
  by (rule clip_outside) (auto simp: overlapsWindow_def)

lemma sum_filter_zero: "(\<And>x. x \<in> set xs \<Longrightarrow> \<not> P x \<Longrightarrow> f x = (0 :: rat)) \<Longrightarrow> sum_list (map f (filter P xs)) = sum_list (map f xs)"
  by (induction xs) auto

text \<open>The join predicate drops only intervals that would have counted nothing.\<close>

lemma sum_overlapping:
  assumes "from \<le> from'"
  shows "clipped_sum now (filter (\<lambda>e. overlapsWindow now e from to \<and> P e) es) from' to = clipped_sum now (filter P es) from' to"
proof -
  have "filter (\<lambda>e. overlapsWindow now e from to \<and> P e) es = filter (\<lambda>e. overlapsWindow now e from to) (filter P es)"
    by (auto intro: filter_cong)
  then show ?thesis using clip_within [OF assms] by (simp add: clipped_sum_clip sum_filter_zero del: filter_filter)
qed

lemma bucket_sum_clip:
  "bucket_sum now es project b = sum_list (map (clip now (fst b) (snd b)) (filter (in_scope project) es))"
proof -
  let ?m = "filter (\<lambda>e. overlapsWindow now e (fst b) (snd b) \<and> in_scope project e) es"
  have "bucket_sum now es project b = clipped_sum now ?m (fst b) (snd b)"
    by (cases ?m) (simp_all add: bucket_sum_def joined_def clipped_sum_def clippedSeconds_def comp_def)
  then show ?thesis using sum_overlapping [of "fst b" "fst b" now "snd b" "in_scope project" es] by (simp add: clipped_sum_clip)
qed

lemma clip_split:
  assumes "from \<le> mid" "mid \<le> to"
  shows "clip now from to e = clip now from mid e + clip now mid to e"
proof -
  have "max (min E to - max S from) 0 = max (min E mid - max S from) 0 + max (min E to - max S mid) 0" for E S :: int
  proof (cases "E \<le> mid")
    case False
    then show ?thesis using assms by (cases "S \<le> mid") (simp_all add: max_def min_def)
  qed (use assms in \<open>simp add: max_def min_def\<close>)
  then show ?thesis unfolding clip_int by (simp only: of_int_add add_divide_distrib)
qed

lemma clip_tiles:
  assumes "\<And>k. a \<le> k \<Longrightarrow> k < b \<Longrightarrow> f k \<le> f (k + 1)" and "a \<le> b"
  shows "f a \<le> f b \<and> sum_list (map (\<lambda>k. clip now (f k) (f (k + 1)) e) [a .. b - 1]) = clip now (f a) (f b) e"
  using assms(2,1)
proof (induction b rule: int_ge_induct)
  case base
  then show ?case by (simp add: clip_def max_def min_def)
next
  case (step b)
  have "[a .. b] = [a .. b - 1] @ [b]" using step.hyps by (simp add: upto_rec2)
  then show ?case using step clip_split [of "f a" "f b" "f (b + 1)" now e] by force
qed

lemma sum_list_swap: "sum_list (map (\<lambda>x. sum_list (map (f x) ys)) xs) = sum_list (map (\<lambda>y. sum_list (map (\<lambda>x. f x y) xs)) (ys :: 'b list))"
  for f :: "'a \<Rightarrow> 'b \<Rightarrow> rat"
  by (induction xs) (simp_all add: sum_list_addf)

lemma truncated_day_mono: "truncated_day bucket now k \<le> truncated_day bucket now (k + 1)"
  by (cases bucket) (simp_all add: truncated_day_def first_day_mono)

section \<open>One container's time\<close>

lemma clip_le: "from \<le> to \<Longrightarrow> clip now from to e \<le> of_int (to - from) / 1000"
  by (auto simp: clip_def max_def min_def divide_right_mono)

lemma clip_later: "t \<le> ue_started_at e \<Longrightarrow> from \<le> to \<Longrightarrow> clip now from to e = clip now (max from (min t to)) to e"
  by (auto simp: clip_def max_def min_def)

lemma clip_earlier: "ue_ended_at e = Some t \<Longrightarrow> from \<le> to \<Longrightarrow> clip now from to e = clip now from (max from (min t to)) e"
  by (auto simp: clip_def max_def min_def ended_or_now_def)

lemma container_time:
  assumes "sorted_wrt apart es" and "\<forall>e \<in> set es. ue_container_id e = cid" and "from \<le> to"
  shows "sum_list (map (clip now from to) es) \<le> of_int (to - from) / 1000"
  using assms
proof (induction es arbitrary: "from")
  case (Cons e es)
  show ?case
  proof (cases es)
    case Nil
    then show ?thesis using clip_le [OF Cons.prems(3)] by simp
  next
    case (Cons x xs)
    then obtain t where t: "ue_ended_at e = Some t" using Cons.prems(1,2) by (auto simp: apart_def)
    let ?mid = "max from (min t to)"
    have mid: "from \<le> ?mid" "?mid \<le> to" using Cons.prems(3) by auto
    have "clip now from to y = clip now ?mid to y" if "y \<in> set es" for y
      using that Cons.prems t by (intro clip_later) (auto simp: apart_def)
    then have "sum_list (map (clip now from to) es) = sum_list (map (clip now ?mid to) es)"
      by (metis map_cong)
    also have "\<dots> \<le> of_int (to - ?mid) / 1000" using Cons.IH [OF _ _ mid(2)] Cons.prems(1,2) by simp
    finally have "sum_list (map (clip now from to) es) \<le> of_int (to - ?mid) / 1000" .
    moreover have "clip now from to e \<le> of_int (?mid - from) / 1000"
      unfolding clip_earlier [OF t Cons.prems(3)] by (rule clip_le [OF mid(1)])
    ultimately show ?thesis by (simp add: diff_divide_distrib)
  qed
qed simp

text \<open>A sum over rows, container by container.\<close>

lemma sum_by_container:
  "sum_list (map f es) = (\<Sum>cid \<in> ue_container_id ` set es. sum_list (map f (filter (\<lambda>e. ue_container_id e = cid) es)))"
  for f :: "uptime_entry \<Rightarrow> rat"
proof (induction es)
  case (Cons e es)
  let ?g = "\<lambda>xs c. sum_list (map f (filter (\<lambda>e. ue_container_id e = c) xs))" and ?S = "ue_container_id ` set (e # es)"
  have "?g (e # es) c = (if c = ue_container_id e then f e else 0) + ?g es c" for c by simp
  then have "(\<Sum>c \<in> ?S. ?g (e # es) c) = f e + (\<Sum>c \<in> ?S. ?g es c)" by (simp only: sum.distrib) (simp add: sum.delta)
  moreover have "(\<Sum>c \<in> ?S. ?g es c) = (\<Sum>c \<in> ue_container_id ` set es. ?g es c)"
  proof (rule sum.mono_neutral_right)
    show "\<forall>c \<in> ?S - ue_container_id ` set es. ?g es c = 0"
      by (auto simp: filter_empty_conv intro!: sum_list_0)
         (metis (mono_tags, lifting) filter_False image_eqI list.simps(8) sum_list.Nil)
  qed auto
  ultimately show ?case using Cons by simp
qed simp

lemma as_int_mono: "x \<le> y \<Longrightarrow> as_int x \<le> as_int y"
proof -
  assume le: "x \<le> y"
  consider "0 \<le> x" | "y < 0" | "x < 0" "0 \<le> y" by linarith
  then show ?thesis
  proof cases
    case 3
    then have "0 \<le> \<lfloor>1 / 2 - x\<rfloor>" "0 \<le> \<lfloor>y + 1 / 2\<rfloor>" by (simp_all add: zero_le_floor)
    then have "- \<lfloor>1 / 2 - x\<rfloor> \<le> \<lfloor>y + 1 / 2\<rfloor>" by linarith
    then show ?thesis using 3 by (simp add: as_int_def)
  qed (use le in \<open>auto simp: as_int_def floor_mono\<close>)
qed

lemma as_int_near: "\<bar>of_int (as_int x) - x\<bar> \<le> 1 / 2"
proof -
  have "\<bar>of_int \<lfloor>y + 1 / 2\<rfloor> - y\<bar> \<le> 1 / 2" for y :: rat
    using of_int_floor_le [of "y + 1 / 2"] floor_correct [of "y + 1 / 2"] unfolding abs_le_iff by linarith
  moreover have "of_int (as_int x) - x = - (of_int \<lfloor>- x + 1 / 2\<rfloor> - (- x))" if "x < 0" using that by (simp add: as_int_def)
  ultimately show ?thesis by (cases "x < 0") (simp_all only: abs_minus_cancel, simp add: as_int_def)
qed

lemma rounded_sum_near: "\<bar>of_int (sum_list (map (\<lambda>b. as_int (f b)) bs)) - sum_list (map f bs)\<bar> \<le> of_nat (length bs) / 2"
proof (induction bs)
  case (Cons b bs)
  let ?r = "of_int (sum_list (map (\<lambda>b. as_int (f b)) bs)) :: rat" and ?s = "sum_list (map f bs)"
  have "\<bar>(of_int (as_int (f b)) - f b) + (?r - ?s)\<bar> \<le> 1 / 2 + of_nat (length bs) / 2"
    using Cons as_int_near [of "f b"] by (intro order_trans [OF abs_triangle_ineq] add_mono)
  then show ?case by (simp add: algebra_simps add_divide_distrib)
qed simp

section \<open>Properties\<close>

text \<open>
  (Lemma) The buckets of a series share out every interval exactly: before rounding, the buckets'
  seconds add up to the seconds of the whole grid, whichever buckets an interval spans, and the
  series as returned is off by at most half a second a bucket.
\<close>

theorem series_splits_exactly:
  "sum_list (map (bucket_sum now es project) (bucketGridSql bucket n now)) =
      clipped_sum now (filter (in_scope project) es) (truncated_day bucket now (1 - int n) * DAY_MS) (truncated_day bucket now 1 * DAY_MS)
   \<and> \<bar>of_int (sum_list (map bucket_seconds (containerHoursSeries db bucket project))) -
        clipped_sum (now_at db) (filter (in_scope project) (entries db))
          (truncated_day bucket (now_at db) (1 - int (HOURS_BUCKET_SPAN bucket)) * DAY_MS) (truncated_day bucket (now_at db) 1 * DAY_MS)\<bar>
      \<le> of_nat (HOURS_BUCKET_SPAN bucket) / 2"
proof -
  have exact: "sum_list (map (bucket_sum now es project) (bucketGridSql bucket n now)) =
      clipped_sum now (filter (in_scope project) es) (truncated_day bucket now (1 - int n) * DAY_MS) (truncated_day bucket now 1 * DAY_MS)"
    for now es n
  proof -
    let ?f = "\<lambda>k. truncated_day bucket now k * DAY_MS"
    have mono: "?f k \<le> ?f (k + 1)" for k
      using truncated_day_mono DAY_MS_pos by (simp add: mult_right_mono)
    have "sum_list (map (\<lambda>k. clip now (?f k) (?f (k + 1)) e) [1 - int n .. 0]) = clip now (?f (1 - int n)) (?f 1) e" for e
      using clip_tiles [of "1 - int n" 1 ?f now e] mono by simp
    then show ?thesis
      using sum_list_swap [of "\<lambda>k e. clip now (?f k) (?f (k + 1)) e" "filter (in_scope project) es" "[1 - int n .. 0]"]
      by (simp add: bucketGridSql_def bucket_sum_clip clipped_sum_clip comp_def)
  qed
  moreover have "length (bucketGridSql bucket k now) = k" for k now by (simp add: bucketGridSql_def)
  ultimately show ?thesis
    using rounded_sum_near [of "bucket_sum (now_at db) (entries db) project" "bucketGridSql bucket (HOURS_BUCKET_SPAN bucket) (now_at db)"]
    by (simp add: containerHoursSeries_def comp_def)
qed

text \<open>
  (Lemma) The meter and the cap read one figure: the seconds the Budget page shows for the window are
  the seconds the instance allowance is enforced on, and a project's monthly figure is the one
  its own page shows, although the three queries bound their scans differently.
\<close>

theorem meter_agrees_with_gate:
  "window_seconds (containerHoursTotals pins db None) = currentWindowContainerSeconds pins db
   \<and> monthly_s (projectBudgetWindowSeconds pins db p) = window_seconds (containerHoursTotals pins db (Some p))"
proof -
  let ?now = "now_at db" and ?start = "fst (currentContainerHoursWindow pins (now_at db))"
  let ?prev = "previousContainerHoursWindowStart (containerHoursAnchorDay pins) ?now (countedSince pins)"
  have prev: "?prev \<le> ?start"
    by (simp add: previousContainerHoursWindowStart_def currentContainerHoursWindow_def containerHoursWindow_def Let_def)
  have totals: "window_seconds (containerHoursTotals pins db q) = as_int (clipped_sum ?now (filter (in_scope q) (entries db)) ?start ?now)" for q
    using sum_overlapping [OF prev, of ?now ?now "in_scope q" "entries db"]
    by (simp add: containerHoursTotals_def Let_def case_prod_beta)
  let ?least = "min (utcWindowStartSql Day ?now) (min (utcWindowStartSql Week ?now) ?start)"
  have "filter (\<lambda>e. ue_project_id e = Some p \<and> (case ue_ended_at e of None \<Rightarrow> True | Some t \<Rightarrow> t > ?least)
        \<and> overlapsWindow ?now e ?least ?now) (entries db)
      = filter (\<lambda>e. overlapsWindow ?now e ?least ?now \<and> in_scope (Some p) e) (entries db)"
    by (rule filter_cong) (auto simp: overlapsWindow_def ended_or_now_def in_scope_def split: option.splits)
  moreover have "?least \<le> ?start" by simp
  ultimately have "monthly_s (projectBudgetWindowSeconds pins db p) = window_seconds (containerHoursTotals pins db (Some p))"
    unfolding totals using sum_overlapping [of ?least ?start ?now ?now "in_scope (Some p)" "entries db"]
    by (simp add: projectBudgetWindowSeconds_def Let_def)
  moreover have "currentWindowContainerSeconds pins db = window_seconds (containerHoursTotals pins db None)"
    unfolding totals using sum_overlapping [of ?start ?start ?now ?now "\<lambda>_. True" "entries db"]
    by (simp add: currentWindowContainerSeconds_def Let_def in_scope_def)
  ultimately show ?thesis by simp
qed

text \<open>
  (Lemma) Nobody is billed more than the clock. Whatever operations the pool ran, one container's
  seconds within a window are at most the window's length, and what the allowance is enforced on
  is at most the elapsed window times the number of containers that were up in it.
\<close>

theorem hours_bounded_by_clock:
  assumes "reach pool_init pool_step db" and "from \<le> to" and "start = fst (currentContainerHoursWindow pins (now_at db))"
    and "start \<le> now_at db"
  shows "clipped_sum (now_at db) (filter (\<lambda>e. ue_container_id e = cid) (entries db)) from to \<le> of_int (to - from) / 1000
    \<and> currentWindowContainerSeconds pins db
        \<le> as_int (of_nat (card (ue_container_id ` {e \<in> set (entries db). overlapsWindow (now_at db) e start (now_at db)}))
            * of_int (now_at db - start) / 1000)"
proof -
  have sorted: "sorted_wrt apart (entries db)" using pool.reach_inv [OF assms(1)] by (simp add: pool_ok_def ledger_ok_def)
  have time: "sum_list (map (clip (now_at db) f t) (filter (\<lambda>e. ue_container_id e = c) es)) \<le> of_int (t - f) / 1000"
    if "f \<le> t" "sorted_wrt apart es" for f t c es
    using that by (intro container_time [of _ c]) (auto intro: sorted_wrt_filter)
  let ?es = "filter (\<lambda>e. overlapsWindow (now_at db) e start (now_at db)) (entries db)"
  have "clipped_sum (now_at db) ?es start (now_at db)
      \<le> (\<Sum>c \<in> ue_container_id ` set ?es. of_int (now_at db - start) / 1000)"
    unfolding clipped_sum_clip sum_by_container [of _ ?es]
    by (intro sum_mono time assms(4)) (rule sorted_wrt_filter [OF sorted])
  then have "currentWindowContainerSeconds pins db
      \<le> as_int (of_nat (card (ue_container_id ` set ?es)) * of_int (now_at db - start) / 1000)"
    using assms(3) by (simp add: currentWindowContainerSeconds_def Let_def as_int_mono)
  then show ?thesis using time [OF assms(2) sorted] by (simp add: clipped_sum_clip)
qed

theorem hours_bounded_by_clock_witness:
  "clipped_sum (now_at demo_pool) (filter (\<lambda>e. ue_container_id e = ''c'') (entries demo_pool)) 0 9 \<le> 9 / 1000"
proof -
  let ?pins = "\<lparr>containerHoursAnchorDay = None, containerHoursSince = None\<rparr>"
  have now: "now_at demo_pool = 9" by (simp add: demo_pool_def)
  have "anchoredWindowStart None 9 \<le> 9"
    using anchoredWindowStart_occ [of 9 None] by (metis zero_le_numeral)
  then have "fst (currentContainerHoursWindow ?pins (now_at demo_pool)) \<le> now_at demo_pool"
    by (simp add: now currentContainerHoursWindow_def containerHoursWindow_def containerHoursWindowStart_def countedSince_def Let_def)
  from hours_bounded_by_clock [OF demo_pool_reach _ refl this, of 0 9 "''c''"] show ?thesis by simp
qed

text \<open>One closed interval of ten hours, on Tuesday 6 January 1970, read on Thursday the 8th.\<close>

definition tuesday_ledger :: pool_db where
  "tuesday_ledger = \<lparr>pool_rows = [],
     entries = [\<lparr>ue_project_id = Some ''p'', ue_container_id = ''c'', ue_memory_bytes = None, ue_disk_ceiling_bytes = 0,
       ue_backend = ''docker'', ue_started_at = 5 * 86400000, ue_ended_at = Some (5 * 86400000 + 36000000),
       ue_end_reason = Some EndStopped\<rparr>],
     running_on = {}, now_at = 7 * 86400000, sandbox_backend = ''docker''\<rparr>"

definition since_wednesday :: hours_pins where
  "since_wednesday = \<lparr>containerHoursAnchorDay = None, containerHoursSince = Some (6 * 86400000)\<rparr>"

lemma january_start: "anchoredWindowStart None (7 * 86400000) = 0"
proof -
  have "occ (day_of None) 23640 = 0" "occ (day_of None) (23640 + 1) = 31 * 86400000"
    by (simp_all add: occ_def day_of_def first_day_def month_days_def DayFromYear_def month_start_def is_leap_def DAY_MS_def)
  then show ?thesis using anchoredWindowStart_eq [of "7 * 86400000" None 23640] by simp
qed

text \<open>
  (Lemma) The two weekly figures of one project differ once a deployer pins counting to start within
  the week: the figure the project's budget is checked on counts the ten hours of Tuesday, the
  page's total, whose scan is bounded by that start, counts none of them.
\<close>

theorem weekly_figures_differ:
  "weekly_s (projectBudgetWindowSeconds since_wednesday tuesday_ledger ''p'') = 36000
   \<and> week_seconds (containerHoursTotals since_wednesday tuesday_ledger (Some ''p'')) = 0"
proof -
  have now: "now_at tuesday_ledger = 7 * 86400000" by (simp add: tuesday_ledger_def)
  have start: "fst (currentContainerHoursWindow since_wednesday (7 * 86400000)) = 6 * 86400000"
    by (simp add: currentContainerHoursWindow_def containerHoursWindow_def containerHoursWindowStart_def
        january_start [simplified] since_wednesday_def countedSince_def Let_def)
  have windows: "utcWindowStartSql Week (7 * 86400000) = 4 * 86400000" "utcWindowStartSql Day (7 * 86400000) = 7 * 86400000"
    by (simp_all add: utcWindowStartSql_def truncated_day_def DAY_MS_def)
  have "6 * 86400000 \<le> previousContainerHoursWindowStart None (7 * 86400000) (Some (6 * 86400000))"
    by (simp add: previousContainerHoursWindowStart_def containerHoursWindowStart_def january_start [simplified] Let_def)
  then have "week_seconds (containerHoursTotals since_wednesday tuesday_ledger (Some ''p'')) = 0"
    unfolding containerHoursTotals_def now Let_def
    by (simp add: tuesday_ledger_def since_wednesday_def countedSince_def overlapsWindow_def ended_or_now_def case_prod_beta
        clipped_sum_def as_int_def floor_eq_iff)
  moreover have "weekly_s (projectBudgetWindowSeconds since_wednesday tuesday_ledger ''p'') = 36000"
    unfolding projectBudgetWindowSeconds_def now Let_def start windows
    by (simp add: tuesday_ledger_def overlapsWindow_def ended_or_now_def clipped_sum_def clippedSeconds_def as_int_def floor_eq_iff)
  ultimately show ?thesis by blast
qed

end
