(* ===== verification/Wakeups.thy ===== *)
theory Wakeups
  imports Run_Concurrency State_Systems
begin

text \<open>
  The wakeup queue: \<open>services/wakeup.ts\<close> whole, and the statements of \<open>services/job-manager.ts\<close>
  that claim, skip, defer and requeue a wakeup. The table is a list of rows, a statement a function
  on it, \<open>RETURNING\<close> the rows it touched. Payloads are partial maps from keys to JSON values; a
  property that is \<open>undefined\<close> is one the map does not have. Row ids come from the database and are
  arguments of the inserts.

  An \<open>await\<close> between two statements lets other connections run: where the code guards against
  that, what they did is the argument \<open>meanwhile\<close>.
\<close>

section \<open>Rows\<close>

datatype WakeupStatus =
  WQueued | WClaimed | WCompleted | WFailed | WSkipped | WCoalesced | WDeferred | WCancelled

definition ACTIVE_WAKEUP_STATUSES :: "WakeupStatus list" where
  "ACTIVE_WAKEUP_STATUSES = [WQueued, WClaimed, WDeferred]"

definition TERMINAL_WAKEUP_STATUSES :: "WakeupStatus list" where
  "TERMINAL_WAKEUP_STATUSES = [WCompleted, WFailed, WSkipped, WCoalesced, WCancelled]"

datatype WakeupSource =
    Timer | Assignment | OnDemand | Mention | Automation | CredentialProvided
  | AssetDeletionResolved | ApprovalResolved | Comment | Reply | Heartbeat

definition DISPATCH_SUPPRESSION_EXEMPT_SOURCES :: "WakeupSource list" where
  "DISPATCH_SUPPRESSION_EXEMPT_SOURCES =
     [Mention, Comment, Reply, OnDemand, CredentialProvided, AssetDeletionResolved, ApprovalResolved]"

datatype WakeupSkipReason =
    TaskBusy | InstanceAtCapacity | AgentRunning | OverBudget | NoWorkCooldown | ParkedOnAdmin
  | AttemptsExhausted | RetrospectiveHold | HandoffRoundsExhausted | TaskTokenCeiling | RunSizeStop
  | CredentialBusy | ServerShutdown | HoursExhausted | RunNeverStarted | ProviderAtCapacity
  | ProviderUsageLimit | ProviderAllowancePace

definition CREDENTIAL_HOLD_REASONS :: "WakeupSkipReason list" where
  "CREDENTIAL_HOLD_REASONS = [ProviderUsageLimit, ProviderAllowancePace]"

text \<open>
  JSON values as the payloads use them: strings, arrays, objects, null, and every other value as the text
  \<open>jsonb\<close> prints for it.
\<close>

datatype payload_value = Text string | Items "payload_value list" | Obj "(string \<times> payload_value) list" | Null | Raw string

type_synonym payload = "string \<rightharpoonup> payload_value"

definition hex_digit :: "nat \<Rightarrow> char" where
  "hex_digit n = char_of (if n < 10 then 48 + n else 87 + n)"

definition escaped :: "char \<Rightarrow> string" where
  "escaped c =
     (if c = CHR 0x22 \<or> c = CHR 0x5C then [CHR 0x5C, c]
      else if c = CHR 0x08 then [CHR 0x5C, CHR ''b''] else if c = CHR 0x0C then [CHR 0x5C, CHR ''f'']
      else if c = CHR 0x0A then [CHR 0x5C, CHR ''n''] else if c = CHR 0x0D then [CHR 0x5C, CHR ''r'']
      else if c = CHR 0x09 then [CHR 0x5C, CHR ''t'']
      else if (of_char c :: nat) < 32
      then [CHR 0x5C, CHR ''u'', CHR ''0'', CHR ''0'', hex_digit (of_char c div 16), hex_digit (of_char c mod 16)]
      else [c])"

definition quoted :: "string \<Rightarrow> string" where
  "quoted s = [CHR 0x22] @ concat (map escaped s) @ [CHR 0x22]"

fun json_text :: "payload_value \<Rightarrow> string" and items_text :: "payload_value list \<Rightarrow> string"
  and members_text :: "(string \<times> payload_value) list \<Rightarrow> string" where
  "json_text (Text s) = quoted s"
| "json_text (Items vs) = ''['' @ items_text vs @ '']''"
| "json_text (Obj ms) = ''{'' @ members_text ms @ ''}''"
| "json_text Null = ''null''"
| "json_text (Raw t) = t"
| "items_text [] = []"
| "items_text [v] = json_text v"
| "items_text (v # vs) = json_text v @ '', '' @ items_text vs"
| "members_text [] = []"
| "members_text [(k, v)] = quoted k @ '': '' @ json_text v"
| "members_text ((k, v) # ms) = quoted k @ '': '' @ json_text v @ '', '' @ members_text ms"

text \<open>\<open>payload->>'key'\<close>: a string as itself, any other value as its text, null as no value.\<close>

definition field :: "payload \<Rightarrow> string \<Rightarrow> string option" where
  "field p key = (case p key of
     None \<Rightarrow> None
   | Some Null \<Rightarrow> None
   | Some (Text s) \<Rightarrow> Some s
   | Some v \<Rightarrow> Some (json_text v))"

definition string_field :: "payload \<Rightarrow> string \<Rightarrow> string option" where
  "string_field p key = (case p key of Some (Text s) \<Rightarrow> Some s | _ \<Rightarrow> None)"

record wakeup_row =
  w_id :: string
  w_member_id :: string
  w_team_id :: string
  w_source :: WakeupSource
  w_status :: WakeupStatus
  w_idempotency_key :: "string option"
  w_coalesced_count :: nat
  w_payload :: payload
  w_created_at :: int
  w_claimed_at :: "int option"
  w_completed_at :: "int option"
  w_last_skipped_at :: "int option"
  w_last_skipped_reason :: "WakeupSkipReason option"
  w_last_skipped_blocker :: "string option"
  w_not_before :: "int option"
  w_held_config_id :: "string option"
  w_created_by_run_id :: "string option"

record wakeup_db =
  wakeups :: "wakeup_row list"
  w_now :: int

definition set_wakeups :: "(wakeup_row \<Rightarrow> bool) \<Rightarrow> (wakeup_row \<Rightarrow> wakeup_row) \<Rightarrow> wakeup_db \<Rightarrow> wakeup_db" where
  "set_wakeups P f db = db\<lparr>wakeups := map (\<lambda>w. if P w then f w else w) (wakeups db)\<rparr>"

definition ids_where :: "(wakeup_row \<Rightarrow> bool) \<Rightarrow> wakeup_db \<Rightarrow> string list" where
  "ids_where P db = map w_id (filter P (wakeups db))"

text \<open>A string is truthy when it is there and not empty.\<close>

definition truthy :: "string option \<Rightarrow> bool" where
  "truthy s \<longleftrightarrow> (case s of None \<Rightarrow> False | Some t \<Rightarrow> t \<noteq> [])"

definition or_else :: "'a option \<Rightarrow> 'a option \<Rightarrow> 'a option" where
  "or_else a b = (case a of None \<Rightarrow> b | Some x \<Rightarrow> Some x)"

section \<open>Queueing a wakeup\<close>

definition mergePayloads :: "payload \<Rightarrow> payload \<Rightarrow> payload" where
  "mergePayloads existing incoming = (\<lambda>key. case incoming key of
     None \<Rightarrow> existing key
   | Some v \<Rightarrow> (case (existing key, v) of
        (Some (Items a), Items b) \<Rightarrow> Some (Items (a @ b))
      | _ \<Rightarrow> Some v))"

definition new_wakeup ::
  "string \<Rightarrow> string \<Rightarrow> string \<Rightarrow> WakeupSource \<Rightarrow> payload \<Rightarrow> string option \<Rightarrow> string option \<Rightarrow> int \<Rightarrow> wakeup_row" where
  "new_wakeup i member team source payload key run now =
     \<lparr>w_id = i, w_member_id = member, w_team_id = team, w_source = source, w_status = WQueued,
      w_idempotency_key = key, w_coalesced_count = 0, w_payload = payload, w_created_at = now,
      w_claimed_at = None, w_completed_at = None, w_last_skipped_at = None, w_last_skipped_reason = None,
      w_last_skipped_blocker = None, w_not_before = None, w_held_config_id = None, w_created_by_run_id = run\<rparr>"

definition coalesce_target :: "string \<Rightarrow> string option \<Rightarrow> wakeup_row \<Rightarrow> bool" where
  "coalesce_target member taskId w \<longleftrightarrow> w_member_id w = member \<and> w_status w = WQueued
     \<and> field (w_payload w) ''trigger'' = None
     \<and> (taskId = None \<and> field (w_payload w) ''task_id'' = None
        \<or> taskId \<noteq> None \<and> field (w_payload w) ''task_id'' = taskId)"

definition latest_first :: "wakeup_row \<Rightarrow> wakeup_row \<Rightarrow> int" where
  "latest_first a b = w_created_at b - w_created_at a"

definition merged_payload :: "payload \<Rightarrow> payload \<Rightarrow> string option \<Rightarrow> payload" where
  "merged_payload existing incoming run =
     (let merged = mergePayloads existing incoming
      in if truthy run then merged(''triggered_by'' := None) else merged)"

definition promoteSource :: "WakeupSource \<Rightarrow> WakeupSource \<Rightarrow> bool" where
  "promoteSource source existing \<longleftrightarrow>
     source \<in> set DISPATCH_SUPPRESSION_EXEMPT_SOURCES \<and> existing \<notin> set DISPATCH_SUPPRESSION_EXEMPT_SOURCES"

definition merge_row :: "payload \<Rightarrow> bool \<Rightarrow> WakeupSource \<Rightarrow> string option \<Rightarrow> wakeup_row \<Rightarrow> wakeup_row" where
  "merge_row payload promote source run w = w\<lparr>w_coalesced_count := w_coalesced_count w + 1, w_payload := payload,
     w_source := (if promote then source else w_source w),
     w_created_by_run_id := or_else run (w_created_by_run_id w)\<rparr>"

definition insert_wakeup ::
  "string \<Rightarrow> string \<Rightarrow> string \<Rightarrow> WakeupSource \<Rightarrow> payload \<Rightarrow> string option \<Rightarrow> string option \<Rightarrow> wakeup_db \<Rightarrow> string \<times> wakeup_db" where
  "insert_wakeup fresh member team source payload key run db =
     (fresh, db\<lparr>wakeups := wakeups db @ [new_wakeup fresh member team source payload key run (w_now db)]\<rparr>)"

definition createWakeup ::
  "(wakeup_db \<Rightarrow> wakeup_db) \<Rightarrow> string \<Rightarrow> string \<Rightarrow> string \<Rightarrow> WakeupSource \<Rightarrow> payload \<Rightarrow> string option \<Rightarrow> string option
    \<Rightarrow> wakeup_db \<Rightarrow> string \<times> wakeup_db" where
  "createWakeup meanwhile fresh member team source payload key run db =
     (case (if truthy key then filter (\<lambda>w. w_idempotency_key w = key \<and> w_status w = WQueued) (wakeups db) else []) of
        e # _ \<Rightarrow> (w_id e, if truthy run then set_wakeups (\<lambda>w. w_id w = w_id e) (\<lambda>w. w\<lparr>w_created_by_run_id := run\<rparr>) db else db)
      | [] \<Rightarrow> (case sort_by latest_first (filter (coalesce_target member (string_field payload ''task_id'')) (wakeups db)) of
          [] \<Rightarrow> insert_wakeup fresh member team source payload key run (meanwhile db)
        | e # _ \<Rightarrow>
            (let db1 = meanwhile db;
                 there = (\<lambda>w. w_id w = w_id e \<and> w_status w = WQueued)
             in if list_ex there (wakeups db1)
                then (w_id e, set_wakeups there (merge_row (merged_payload (w_payload e) payload run)
                   (promoteSource source (w_source e)) source run) db1)
                else insert_wakeup fresh member team source payload key run db1)))"

definition createProgressUpdateWakeup ::
  "string \<Rightarrow> string \<Rightarrow> string \<Rightarrow> string \<Rightarrow> WakeupSource \<Rightarrow> string \<Rightarrow> payload_value option \<Rightarrow> wakeup_db \<Rightarrow> string \<times> wakeup_db" where
  "createProgressUpdateWakeup fresh captain team project source source_text triggeredBy db =
     (case filter (\<lambda>w. w_member_id w = captain \<and> w_status w = WQueued
          \<and> field (w_payload w) ''trigger'' = Some ''progress_update_now'') (wakeups db) of
        e # _ \<Rightarrow> (w_id e, db)
      | [] \<Rightarrow> insert_wakeup fresh captain team source
          ([''source'' \<mapsto> Text source_text, ''trigger'' \<mapsto> Text ''progress_update_now'', ''project_id'' \<mapsto> Text project]
             (''triggered_by'' := triggeredBy))
          (Some (''progress_update_now:'' @ captain)) None db)"

definition wakeAgentIfAssigned ::
  "(wakeup_db \<Rightarrow> wakeup_db) \<Rightarrow> string set \<Rightarrow> string \<Rightarrow> string option \<Rightarrow> string \<Rightarrow> string \<Rightarrow> WakeupSource \<Rightarrow> payload \<Rightarrow> string option
    \<Rightarrow> wakeup_db \<Rightarrow> wakeup_db" where
  "wakeAgentIfAssigned meanwhile agents fresh assignee team task source extra run db =
     (if \<not> truthy assignee \<or> the assignee \<notin> agents then db
      else snd (createWakeup meanwhile fresh (the assignee) team source ([''task_id'' \<mapsto> Text task] ++ extra) None run db))"

section \<open>Serving a wakeup\<close>

definition absorbQueuedTaskWakeups :: "string \<Rightarrow> string \<Rightarrow> string \<Rightarrow> wakeup_db \<Rightarrow> string list \<times> wakeup_db" where
  "absorbQueuedTaskWakeups member task exceptId db =
     (let sibling = (\<lambda>w. w_member_id w = member \<and> w_status w = WQueued
          \<and> field (w_payload w) ''task_id'' = Some task \<and> w_id w \<noteq> exceptId)
      in (ids_where sibling db, set_wakeups sibling (\<lambda>w. w\<lparr>w_status := WCoalesced\<rparr>) db))"

record served_run =
  sr_member_id :: string
  sr_task_id :: "string option"
  sr_succeeded :: bool
  sr_started_at :: "int option"

definition assignmentWakeupAlreadyServed :: "served_run list \<Rightarrow> string \<Rightarrow> string \<Rightarrow> int \<Rightarrow> bool" where
  "assignmentWakeupAlreadyServed runs member task wakeupCreatedAt \<longleftrightarrow>
     list_ex (\<lambda>r. sr_member_id r = member \<and> sr_task_id r = Some task \<and> sr_succeeded r
       \<and> (case sr_started_at r of None \<Rightarrow> False | Some t \<Rightarrow> wakeupCreatedAt \<le> t)) runs"

section \<open>Settling the wakeup of a finished run\<close>

datatype HandbackCause =
    OnCredential WakeupSkipReason int string
  | ForReason WakeupSkipReason "int option"

text \<open>What the union type admits: a credential hold reason exactly in the variant that names one.\<close>

definition cause_typed :: "HandbackCause \<Rightarrow> bool" where
  "cause_typed c \<longleftrightarrow> (case c of
     OnCredential r _ _ \<Rightarrow> r \<in> set CREDENTIAL_HOLD_REASONS
   | ForReason r _ \<Rightarrow> r \<notin> set CREDENTIAL_HOLD_REASONS)"

definition cause_reason :: "HandbackCause \<Rightarrow> WakeupSkipReason" where
  "cause_reason c = (case c of OnCredential r _ _ \<Rightarrow> r | ForReason r _ \<Rightarrow> r)"

definition cause_notBefore :: "HandbackCause \<Rightarrow> int option" where
  "cause_notBefore c = (case c of OnCredential _ t _ \<Rightarrow> Some t | ForReason _ t \<Rightarrow> t)"

definition cause_config :: "HandbackCause \<Rightarrow> string option" where
  "cause_config c = (case c of OnCredential _ _ k \<Rightarrow> Some k | ForReason _ _ \<Rightarrow> None)"

datatype SettlementIntent = Handback HandbackCause | Complete | Fail | Withdraw

datatype WakeupSettlement = Requeued | HandbackFailed | Terminal WakeupStatus | NothingToSettle

definition SETTLEMENT_TERMINAL_STATUS :: "SettlementIntent \<Rightarrow> WakeupStatus" where
  "SETTLEMENT_TERMINAL_STATUS intent = (case intent of Complete \<Rightarrow> WCompleted | Fail \<Rightarrow> WFailed | _ \<Rightarrow> WCancelled)"

definition handback_row :: "HandbackCause \<Rightarrow> int \<Rightarrow> wakeup_row \<Rightarrow> wakeup_row" where
  "handback_row cause now w = w\<lparr>w_status := WQueued, w_claimed_at := None, w_last_skipped_at := Some now,
     w_last_skipped_reason := Some (cause_reason cause), w_not_before := cause_notBefore cause,
     w_held_config_id := cause_config cause\<rparr>"

definition settleWakeupForRun :: "string option \<Rightarrow> SettlementIntent \<Rightarrow> wakeup_db \<Rightarrow> WakeupSettlement \<times> wakeup_db" where
  "settleWakeupForRun wakeupId intent db =
     (if \<not> truthy wakeupId then (NothingToSettle, db)
      else (let i = the wakeupId in case intent of
          Handback cause \<Rightarrow>
            (let claimed = (\<lambda>w. w_id w = i \<and> w_status w = WClaimed)
             in (if list_ex claimed (wakeups db) then Requeued else HandbackFailed,
                 set_wakeups claimed (handback_row cause (w_now db)) db))
        | _ \<Rightarrow>
            (let status = SETTLEMENT_TERMINAL_STATUS intent;
                 standing = (\<lambda>w. w_id w = i \<and> w_status w \<notin> set TERMINAL_WAKEUP_STATUSES)
             in if list_ex standing (wakeups db)
                then (Terminal status, set_wakeups standing (\<lambda>w. w\<lparr>w_status := status, w_completed_at := Some (w_now db)\<rparr>) db)
                else (case filter (\<lambda>w. w_id w = i) (wakeups db) of
                    w # _ \<Rightarrow> (Terminal (w_status w), db)
                  | [] \<Rightarrow> (NothingToSettle, db)))))"

definition WAKEUP_HOLD_ELAPSED_SQL :: "int \<Rightarrow> wakeup_row \<Rightarrow> bool" where
  "WAKEUP_HOLD_ELAPSED_SQL now w \<longleftrightarrow> (case w_not_before w of None \<Rightarrow> True | Some t \<Rightarrow> t \<le> now)"

definition USAGE_HOLD_RELEASE_SPACING_SEC :: int where
  "USAGE_HOLD_RELEASE_SPACING_SEC = 30"

definition usage_held :: "string \<Rightarrow> int \<Rightarrow> wakeup_row \<Rightarrow> bool" where
  "usage_held config now w \<longleftrightarrow> w_status w = WQueued \<and> w_last_skipped_reason w = Some ProviderUsageLimit
     \<and> (case w_not_before w of None \<Rightarrow> False | Some t \<Rightarrow> now < t)
     \<and> (w_held_config_id w = Some config \<or> w_held_config_id w = None)"

text \<open>\<open>row_number() OVER (ORDER BY created_at, id) - 1\<close>: how many held rows come before, ids in the database's order.\<close>

definition release_position :: "(string \<Rightarrow> string \<Rightarrow> bool) \<Rightarrow> wakeup_row list \<Rightarrow> wakeup_row \<Rightarrow> nat" where
  "release_position id_less held_rows w =
     length (filter (\<lambda>v. w_created_at v < w_created_at w \<or> w_created_at v = w_created_at w \<and> id_less (w_id v) (w_id w)) held_rows)"

definition releaseUsageHeldWakeups :: "(string \<Rightarrow> string \<Rightarrow> bool) \<Rightarrow> string \<Rightarrow> wakeup_db \<Rightarrow> nat \<times> wakeup_db" where
  "releaseUsageHeldWakeups id_less config db =
     (let held_rows = filter (usage_held config (w_now db)) (wakeups db)
      in (length held_rows,
          set_wakeups (usage_held config (w_now db))
            (\<lambda>w. w\<lparr>w_not_before := Some (w_now db + int (release_position id_less held_rows w) * USAGE_HOLD_RELEASE_SPACING_SEC * 1000)\<rparr>) db))"

section \<open>Dispatching\<close>

definition claim_row :: "int \<Rightarrow> wakeup_row \<Rightarrow> wakeup_row" where
  "claim_row now w = w\<lparr>w_status := WClaimed, w_claimed_at := Some now, w_last_skipped_at := None,
     w_last_skipped_reason := None, w_last_skipped_blocker := None, w_not_before := None, w_held_config_id := None\<rparr>"

definition claim_if_queued :: "string \<Rightarrow> wakeup_db \<Rightarrow> bool \<times> wakeup_db" where
  "claim_if_queued i db =
     (let queued = (\<lambda>w. w_id w = i \<and> w_status w = WQueued)
      in (list_ex queued (wakeups db), set_wakeups queued (claim_row (w_now db)) db))"

definition claim_by_id :: "string \<Rightarrow> wakeup_db \<Rightarrow> wakeup_db" where
  "claim_by_id i db = set_wakeups (\<lambda>w. w_id w = i) (claim_row (w_now db)) db"

definition heartbeat_claim :: "string \<Rightarrow> wakeup_db \<Rightarrow> bool \<times> wakeup_db" where
  "heartbeat_claim i db =
     (let free = (\<lambda>w. w_id w = i \<and> w_status w = WQueued \<and> WAKEUP_HOLD_ELAPSED_SQL (w_now db) w)
      in (list_ex free (wakeups db),
          set_wakeups free (\<lambda>w. w\<lparr>w_status := WClaimed, w_claimed_at := Some (w_now db), w_not_before := None, w_held_config_id := None\<rparr>) db))"

definition markWakeupSkipped :: "string \<Rightarrow> WakeupSkipReason \<Rightarrow> string option \<Rightarrow> wakeup_db \<Rightarrow> wakeup_db" where
  "markWakeupSkipped i reason blocker db = set_wakeups (\<lambda>w. w_id w = i)
     (\<lambda>w. w\<lparr>w_last_skipped_at := Some (w_now db),
        w_last_skipped_reason := (case (w_last_skipped_reason w, w_not_before w) of
            (Some r, Some t) \<Rightarrow> if r \<in> set CREDENTIAL_HOLD_REASONS \<and> w_now db < t then Some r else Some reason
          | _ \<Rightarrow> Some reason),
        w_last_skipped_blocker := blocker\<rparr>) db"

definition deferWakeup :: "string \<Rightarrow> wakeup_db \<Rightarrow> wakeup_db" where
  "deferWakeup i db = set_wakeups (\<lambda>w. w_id w = i)
     (\<lambda>w. w\<lparr>w_status := WDeferred, w_payload := (w_payload w)(''reason'' \<mapsto> Text ''blocked'')\<rparr>) db"

definition requeueWakeup :: "string option \<Rightarrow> wakeup_db \<Rightarrow> wakeup_db" where
  "requeueWakeup i db = (if \<not> truthy i then db
     else set_wakeups (\<lambda>w. w_id w = the i) (\<lambda>w. w\<lparr>w_status := WQueued, w_claimed_at := None\<rparr>) db)"

text \<open>What the gates answered for one wakeup: every answer is another component's.\<close>

record gate_answers =
  ga_taskBusy :: bool
  ga_capacity :: CapacityVerdict
  ga_agentBusy :: bool
  ga_memberRunning :: bool
  ga_defer :: bool
  ga_served :: bool

datatype DispatchNowResult = Dispatched | NotDispatched string

definition dispatchWakeupNow :: "(wakeup_db \<Rightarrow> wakeup_db) \<Rightarrow> gate_answers \<Rightarrow> string \<Rightarrow> wakeup_db \<Rightarrow> DispatchNowResult \<times> wakeup_db" where
  "dispatchWakeupNow meanwhile gates wakeupId db =
     (case filter (\<lambda>w. w_id w = wakeupId) (wakeups db) of
        [] \<Rightarrow> (NotDispatched ''not_found'', db)
      | wakeup # _ \<Rightarrow>
          if w_status wakeup \<noteq> WQueued then (NotDispatched ''not_queued'', db)
          else (let taskId = string_field (w_payload wakeup) ''task_id''; db1 = meanwhile db in
            if truthy taskId \<and> ga_taskBusy gates
            then (NotDispatched ''task_busy'', markWakeupSkipped wakeupId TaskBusy taskId db1)
            else if truthy taskId \<and> blocked (ga_capacity gates)
            then (NotDispatched (if verdict_hoursExhausted (ga_capacity gates) then ''hours_exhausted'' else ''instance_at_capacity''),
                  markWakeupSkipped wakeupId (if verdict_hoursExhausted (ga_capacity gates) then HoursExhausted else InstanceAtCapacity) None db1)
            else if truthy taskId \<and> ga_agentBusy gates
            then (NotDispatched ''agent_busy'', markWakeupSkipped wakeupId AgentRunning None db1)
            else if truthy taskId \<and> ga_defer gates
            then (NotDispatched ''blocked'', deferWakeup wakeupId db1)
            else (case claim_if_queued wakeupId db1 of
                (False, db2) \<Rightarrow> (NotDispatched ''not_queued'', db2)
              | (True, db2) \<Rightarrow> (Dispatched, db2))))"

text \<open>The scan, and what one row of it leads to; the flag says whether the agent is activated.\<close>

definition scan_wakeups :: "int \<Rightarrow> wakeup_db \<Rightarrow> wakeup_row list" where
  "scan_wakeups coalescingMs db = take 10 (sort_by (\<lambda>a b. w_created_at a - w_created_at b)
     (filter (\<lambda>w. w_status w = WQueued \<and> w_created_at w < w_now db - coalescingMs \<and> WAKEUP_HOLD_ELAPSED_SQL (w_now db) w)
       (wakeups db)))"

definition process_wakeup :: "gate_answers \<Rightarrow> wakeup_row \<Rightarrow> wakeup_db \<Rightarrow> bool \<times> wakeup_db" where
  "process_wakeup gates wakeup db =
     (let taskId = string_field (w_payload wakeup) ''task_id'' in
      if truthy taskId \<and> ga_taskBusy gates then (False, markWakeupSkipped (w_id wakeup) TaskBusy taskId db)
      else if truthy taskId \<and> blocked (ga_capacity gates) then (False, markWakeupSkipped (w_id wakeup) InstanceAtCapacity None db)
      else if truthy taskId \<and> ga_agentBusy gates then (False, markWakeupSkipped (w_id wakeup) AgentRunning None db)
      else if \<not> truthy taskId \<and> ga_memberRunning gates then (False, markWakeupSkipped (w_id wakeup) AgentRunning None db)
      else if truthy taskId \<and> w_source wakeup = Assignment \<and> ga_served gates
      then (False, set_wakeups (\<lambda>w. w_id w = w_id wakeup) (\<lambda>w. w\<lparr>w_status := WCoalesced\<rparr>) db)
      else if ga_defer gates then (False, deferWakeup (w_id wakeup) db)
      else (True, claim_by_id (w_id wakeup) db))"

section \<open>Rows through a statement\<close>

lemma wakeups_set [simp]: "wakeups (set_wakeups P f db) = map (\<lambda>w. if P w then f w else w) (wakeups db)" "w_now (set_wakeups P f db) = w_now db"
  by (simp_all add: set_wakeups_def)

definition find_wakeup :: "string \<Rightarrow> wakeup_db \<Rightarrow> wakeup_row option" where
  "find_wakeup i db = find (\<lambda>w. w_id w = i) (wakeups db)"

definition wakeup_ids :: "wakeup_db \<Rightarrow> string list" where
  "wakeup_ids db = map w_id (wakeups db)"

lemma find_wakeup_Some: "find_wakeup i db = Some w \<Longrightarrow> w \<in> set (wakeups db) \<and> w_id w = i"
  by (auto simp: find_wakeup_def find_Some_iff)

lemma find_wakeup_None: "find_wakeup i db = None \<longleftrightarrow> i \<notin> set (wakeup_ids db)"
  by (auto simp: find_wakeup_def find_None_iff wakeup_ids_def)

lemma find_wakeup_in: "distinct (wakeup_ids db) \<Longrightarrow> w \<in> set (wakeups db) \<Longrightarrow> find_wakeup (w_id w) db = Some w"
proof (cases "find_wakeup (w_id w) db")
  case (Some v)
  assume "distinct (wakeup_ids db)" "w \<in> set (wakeups db)"
  then show ?thesis using Some find_wakeup_Some [OF Some] by (auto simp: wakeup_ids_def distinct_map inj_on_def)
qed (auto simp: find_wakeup_None wakeup_ids_def)

lemma find_set_wakeups:
  assumes "\<And>w. w_id (f w) = w_id w"
  shows "find_wakeup i (set_wakeups P f db) = map_option (\<lambda>w. if P w then f w else w) (find_wakeup i db)"
proof -
  have "find (\<lambda>w. w_id w = i) (map (\<lambda>w. if P w then f w else w) ws) = map_option (\<lambda>w. if P w then f w else w) (find (\<lambda>w. w_id w = i) ws)" for ws
    using assms by (induction ws) auto
  then show ?thesis by (simp add: find_wakeup_def)
qed

lemma ids_set_wakeups: "(\<And>w. w_id (f w) = w_id w) \<Longrightarrow> wakeup_ids (set_wakeups P f db) = wakeup_ids db"
  by (auto simp: wakeup_ids_def)

lemma find_insert:
  "find_wakeup i (snd (insert_wakeup fresh member team source payload key run db)) =
     or_else (find_wakeup i db) (if i = fresh then Some (new_wakeup fresh member team source payload key run (w_now db)) else None)"
proof -
  have "find P (xs @ [x]) = or_else (find P xs) (if P x then Some x else None)" for P and xs :: "wakeup_row list" and x
    by (induction xs) (auto simp: or_else_def)
  then show ?thesis by (auto simp: insert_wakeup_def find_wakeup_def new_wakeup_def)
qed

lemma row_ids [simp]:
  "w_id (claim_row t w) = w_id w" "w_id (handback_row c t w) = w_id w" "w_id (merge_row p b s r w) = w_id w"
  by (simp_all add: claim_row_def handback_row_def merge_row_def)

lemma list_ex_find: "distinct (wakeup_ids db) \<Longrightarrow> list_ex (\<lambda>w. w_id w = i \<and> P w) (wakeups db) \<longleftrightarrow> (\<exists>w. find_wakeup i db = Some w \<and> P w)"
  using find_wakeup_in find_wakeup_Some by (auto simp: list_ex_iff) blast+

section \<open>What a trigger leaves behind\<close>

lemma hd_sort_by: "sort_by c xs = y # ys \<Longrightarrow> y \<in> set xs"
  by (metis list.set_intros(1) mset_sort_by set_mset_mset)

lemma field_merge:
  assumes "i key = None \<or> (\<exists>s. i key = Some (Text s))"
  shows "field (mergePayloads e i) key = (case string_field i key of None \<Rightarrow> field e key | Some s \<Rightarrow> Some s)"
  using assms by (auto simp: field_def mergePayloads_def string_field_def split: option.splits payload_value.splits)

abbreviation exempt :: "WakeupSource \<Rightarrow> bool" where
  "exempt source \<equiv> source \<in> set DISPATCH_SUPPRESSION_EXEMPT_SOURCES"

text \<open>
  Other connections between the two statements may claim, settle or fold more work into a row, as long
  as a row stays its agent's and no exempt source is demoted, and they do not use the id the
  database is about to give out.
\<close>

definition meanwhile_ok :: "string \<Rightarrow> (wakeup_db \<Rightarrow> wakeup_db) \<Rightarrow> wakeup_db \<Rightarrow> bool" where
  "meanwhile_ok fresh meanwhile db \<longleftrightarrow> distinct (wakeup_ids (meanwhile db)) \<and> fresh \<notin> set (wakeup_ids (meanwhile db))
     \<and> (\<forall>w \<in> set (wakeups db). \<forall>v. find_wakeup (w_id w) (meanwhile db) = Some v \<longrightarrow>
         w_member_id v = w_member_id w \<and> (exempt (w_source w) \<longrightarrow> exempt (w_source v)))"

lemma insert_serves:
  assumes "fresh \<notin> set (wakeup_ids db)"
  shows "find_wakeup fresh (snd (insert_wakeup fresh member team source payload key run db))
    = Some (new_wakeup fresh member team source payload key run (w_now db))"
  using assms by (simp add: find_insert or_else_def flip: find_wakeup_None)

lemma field_payload:
  assumes "p key = None \<or> (\<exists>s. p key = Some (Text s))"
  shows "field p key = string_field p key"
  using assms by (auto simp: field_def string_field_def)

definition key_free :: "string option \<Rightarrow> wakeup_db \<Rightarrow> bool" where
  "key_free key db \<longleftrightarrow> (truthy key \<longrightarrow> (\<forall>w \<in> set (wakeups db). w_idempotency_key w = key \<longrightarrow> w_status w \<noteq> WQueued))"

lemma key_free_lookup:
  "key_free key db \<Longrightarrow> (if truthy key then filter (\<lambda>w. w_idempotency_key w = key \<and> w_status w = WQueued) (wakeups db) else []) = []"
  by (auto simp: key_free_def filter_empty_conv)

lemma createWakeup_free:
  assumes "key_free key db"
  shows "createWakeup meanwhile fresh member team source payload key run db =
     (case sort_by latest_first (filter (coalesce_target member (string_field payload ''task_id'')) (wakeups db)) of
          [] \<Rightarrow> insert_wakeup fresh member team source payload key run (meanwhile db)
        | e # _ \<Rightarrow>
            (let db1 = meanwhile db;
                 there = (\<lambda>w. w_id w = w_id e \<and> w_status w = WQueued)
             in if list_ex there (wakeups db1)
                then (w_id e, set_wakeups there (merge_row (merged_payload (w_payload e) payload run)
                   (promoteSource source (w_source e)) source run) db1)
                else insert_wakeup fresh member team source payload key run db1))"
  unfolding createWakeup_def key_free_lookup [OF assms] list.case ..

lemma createWakeup_serves:
  assumes free: "key_free key db" and ok: "meanwhile_ok fresh meanwhile db"
    and task: "payload ''task_id'' = None \<or> (\<exists>s. payload ''task_id'' = Some (Text s))"
  shows "\<exists>w. find_wakeup (fst (createWakeup meanwhile fresh member team source payload key run db))
        (snd (createWakeup meanwhile fresh member team source payload key run db)) = Some w
     \<and> w_status w = WQueued \<and> w_member_id w = member \<and> field (w_payload w) ''task_id'' = string_field payload ''task_id''
     \<and> (exempt source \<longrightarrow> exempt (w_source w))"
proof -
  let ?r = "createWakeup meanwhile fresh member team source payload key run db" and ?db1 = "meanwhile db"
  let ?cands = "sort_by latest_first (filter (coalesce_target member (string_field payload ''task_id'')) (wakeups db))"
  have fresh: "fresh \<notin> set (wakeup_ids ?db1)" and dist: "distinct (wakeup_ids ?db1)" using ok by (simp_all add: meanwhile_ok_def)
  have inserted: ?thesis if r: "?r = insert_wakeup fresh member team source payload key run ?db1"
    using insert_serves [OF fresh] field_payload [of payload "''task_id''"] task unfolding r by (simp add: insert_wakeup_def new_wakeup_def)
  show ?thesis
  proof (cases ?cands)
    case Nil
    then show ?thesis by (intro inserted) (simp add: createWakeup_free [OF free])
  next
    case (Cons e es)
    let ?there = "\<lambda>w. w_id w = w_id e \<and> w_status w = WQueued"
    let ?f = "merge_row (merged_payload (w_payload e) payload run) (promoteSource source (w_source e)) source run"
    have e: "e \<in> set (wakeups db)" "coalesce_target member (string_field payload ''task_id'') e"
      using hd_sort_by [OF Cons] by auto
    show ?thesis
    proof (cases "list_ex ?there (wakeups ?db1)")
      case False
      then show ?thesis using Cons by (intro inserted) (simp add: createWakeup_free [OF free] Let_def)
    next
      case True
      then obtain v where v: "find_wakeup (w_id e) ?db1 = Some v" "w_status v = WQueued"
        using list_ex_find [OF dist, of "w_id e" "\<lambda>w. w_status w = WQueued"] by auto
      have same: "w_member_id v = w_member_id e" "exempt (w_source e) \<longrightarrow> exempt (w_source v)"
        using ok e(1) v(1) by (auto simp: meanwhile_ok_def)
      have r: "?r = (w_id e, set_wakeups ?there ?f ?db1)" using Cons True by (simp add: createWakeup_free [OF free] Let_def)
      have "w_id v = w_id e" using find_wakeup_Some [OF v(1)] by simp
      then have found: "find_wakeup (w_id e) (set_wakeups ?there ?f ?db1) = Some (?f v)"
        using v by (simp add: find_set_wakeups)
      have "field (mergePayloads (w_payload e) payload) ''task_id'' = string_field payload ''task_id''"
        using e(2) field_merge [of payload "''task_id''" "w_payload e"] task by (auto simp: coalesce_target_def split: option.splits)
      then have "field (merged_payload (w_payload e) payload run) ''task_id'' = string_field payload ''task_id''"
        by (simp add: merged_payload_def Let_def field_def)
      then show ?thesis
        using found v(2) e(2) same unfolding r by (auto simp: merge_row_def promoteSource_def coalesce_target_def)
    qed
  qed
qed

section \<open>The queue as a state machine\<close>

datatype wake_op =
    Create string string string WakeupSource payload "string option" "string option"
  | Progress string string string string WakeupSource string "payload_value option"
  | Absorb string string string
  | Settle "string option" SettlementIntent
  | ReleaseHeld "string \<Rightarrow> string \<Rightarrow> bool" string
  | ClaimQueued string
  | ClaimHeartbeat string
  | Skip string WakeupSkipReason "string option"
  | Defer string
  | Requeue "string option"
  | ClaimById string
  | Clock int

fun wake_apply :: "wake_op \<Rightarrow> wakeup_db \<Rightarrow> wakeup_db" where
  "wake_apply (Create fresh m t s p k r) db = snd (createWakeup (\<lambda>d. d) fresh m t s p k r db)"
| "wake_apply (Progress fresh c t p s st by) db = snd (createProgressUpdateWakeup fresh c t p s st by db)"
| "wake_apply (Absorb m t i) db = snd (absorbQueuedTaskWakeups m t i db)"
| "wake_apply (Settle i intent) db = snd (settleWakeupForRun i intent db)"
| "wake_apply (ReleaseHeld before c) db = snd (releaseUsageHeldWakeups before c db)"
| "wake_apply (ClaimQueued i) db = snd (claim_if_queued i db)"
| "wake_apply (ClaimHeartbeat i) db = snd (heartbeat_claim i db)"
| "wake_apply (Skip i r b) db = markWakeupSkipped i r b db"
| "wake_apply (Defer i) db = deferWakeup i db"
| "wake_apply (Requeue i) db = requeueWakeup i db"
| "wake_apply (ClaimById i) db = claim_by_id i db"
| "wake_apply (Clock t) db = db\<lparr>w_now := t\<rparr>"

text \<open>What the database and the types ensure of an operation's arguments.\<close>

fun wake_allowed :: "wake_op \<Rightarrow> wakeup_db \<Rightarrow> bool" where
  "wake_allowed (Create fresh m t s p k r) db = (fresh \<notin> set (wakeup_ids db))"
| "wake_allowed (Progress fresh c t p s st by) db = (fresh \<notin> set (wakeup_ids db))"
| "wake_allowed (Settle i (Handback cause)) db = cause_typed cause"
| "wake_allowed (Skip i r b) db = (r \<notin> set CREDENTIAL_HOLD_REASONS)"
| "wake_allowed _ db = True"

text \<open>
  The column \<open>held_config_id\<close> references the table of credentials: a credential that is deleted empties
  it (\<open>ON DELETE SET NULL\<close>), and a row is never given the id of one that is gone.
\<close>

definition forget_config :: "string \<Rightarrow> wakeup_db \<Rightarrow> wakeup_db" where
  "forget_config config db = set_wakeups (\<lambda>w. w_held_config_id w = Some config) (\<lambda>w. w\<lparr>w_held_config_id := None\<rparr>) db"

fun names_live :: "string set \<Rightarrow> wake_op \<Rightarrow> bool" where
  "names_live gone (Settle i (Handback (OnCredential r t config))) = (config \<notin> gone)"
| "names_live gone op = True"

text \<open>A state is the queue and the ids of the credentials deleted so far.\<close>

inductive wake_step :: "wakeup_db \<times> string set \<Rightarrow> wakeup_db \<times> string set \<Rightarrow> bool" where
  step_op: "wake_allowed op db \<Longrightarrow> names_live gone op \<Longrightarrow> wake_step (db, gone) (wake_apply op db, gone)"
| step_delete_config: "wake_step (db, gone) (forget_config config db, insert config gone)"

inductive_cases wake_stepE: "wake_step (db, gone) s"

definition wake_init :: "wakeup_db \<times> string set \<Rightarrow> bool" where
  "wake_init s \<longleftrightarrow> wakeups (fst s) = [] \<and> snd s = {}"

text \<open>The effect of each operation: rows rewritten in place, or one row added.\<close>

definition rewritten :: "(wakeup_row \<Rightarrow> wakeup_row \<Rightarrow> bool) \<Rightarrow> wakeup_db \<Rightarrow> wakeup_db \<Rightarrow> bool" where
  "rewritten R db db' \<longleftrightarrow> list_all2 R (wakeups db) (wakeups db')"

lemma rewritten_set: "(\<And>w. w \<in> set (wakeups db) \<Longrightarrow> P w \<Longrightarrow> R w (f w)) \<Longrightarrow> (\<And>w. R w w) \<Longrightarrow> rewritten R db (set_wakeups P f db)"
  by (auto simp: rewritten_def list_all2_map2 intro!: list.rel_refl_strong)

lemma rewritten_refl: "(\<And>w. R w w) \<Longrightarrow> rewritten R db db"
  by (simp add: rewritten_def list.rel_refl)

definition adds :: "wakeup_db \<Rightarrow> wakeup_db \<Rightarrow> bool" where
  "adds db db' \<longleftrightarrow> (\<exists>i m t s p k r. wakeups db' = wakeups db @ [new_wakeup i m t s p k r (w_now db)] \<and> (i \<notin> set (wakeup_ids db)))"

lemma adds_insert: "fresh \<notin> set (wakeup_ids db) \<Longrightarrow> adds db (snd (insert_wakeup fresh m t s p k r db))"
  unfolding adds_def insert_wakeup_def by (intro exI conjI) (rule trans, simp, rule refl, assumption)

lemma create_effect:
  assumes "fresh \<notin> set (wakeup_ids db)" and "\<And>w. R w w" and "\<And>w run. R w (w\<lparr>w_created_by_run_id := run\<rparr>)"
    and "\<And>w p b s run. w_status w = WQueued \<Longrightarrow> R w (merge_row p b s run w)"
  shows "adds db (snd (createWakeup (\<lambda>d. d) fresh m t s p k r db)) \<or> rewritten R db (snd (createWakeup (\<lambda>d. d) fresh m t s p k r db))"
proof -
  show ?thesis
    using adds_insert [OF assms(1)] by (auto simp: createWakeup_def Let_def assms intro!: rewritten_set rewritten_refl split: list.splits)
qed

lemma progress_effect:
  assumes "fresh \<notin> set (wakeup_ids db)" and "\<And>w. R w w"
  shows "adds db (snd (createProgressUpdateWakeup fresh c t p s st by db)) \<or> rewritten R db (snd (createProgressUpdateWakeup fresh c t p s st by db))"
  using adds_insert [OF assms(1)] by (auto simp: createProgressUpdateWakeup_def assms(2) intro!: rewritten_refl split: list.splits)

lemma settle_effect:
  assumes "\<And>w. R w w" and "\<And>w cause. intent = Handback cause \<Longrightarrow> w_status w = WClaimed \<Longrightarrow> R w (handback_row cause (w_now db) w)"
    and "\<And>w st t. w_status w \<notin> set TERMINAL_WAKEUP_STATUSES \<Longrightarrow> R w (w\<lparr>w_status := st, w_completed_at := t\<rparr>)"
  shows "rewritten R db (snd (settleWakeupForRun i intent db))"
  using assms by (cases intent) (auto simp: settleWakeupForRun_def Let_def intro!: rewritten_set rewritten_refl split: list.splits)

section \<open>Terminal means final\<close>

text \<open>The operations whose statement names the status it moves from.\<close>

fun guarded :: "wake_op \<Rightarrow> bool" where
  "guarded (Defer i) = False"
| "guarded (Requeue i) = False"
| "guarded (ClaimById i) = False"
| "guarded _ = True"

definition keeps_terminal :: "wakeup_row \<Rightarrow> wakeup_row \<Rightarrow> bool" where
  "keeps_terminal w v \<longleftrightarrow> w_id v = w_id w \<and> (w_status w \<in> set TERMINAL_WAKEUP_STATUSES \<longrightarrow> w_status v = w_status w)"

lemma queued_open [simp]: "WQueued \<notin> set TERMINAL_WAKEUP_STATUSES" "WClaimed \<notin> set TERMINAL_WAKEUP_STATUSES"
  by (simp_all add: TERMINAL_WAKEUP_STATUSES_def)

lemma guarded_effect:
  assumes "guarded op" and "wake_allowed op db"
  shows "adds db (wake_apply op db) \<or> rewritten keeps_terminal db (wake_apply op db)"
proof -
  have refl: "keeps_terminal w w" for w by (simp add: keeps_terminal_def)
  show ?thesis
  proof (cases op)
    case (Create fresh m t s p k r)
    then show ?thesis using assms(2) create_effect [of fresh db keeps_terminal m t s p k r]
      by (simp add: refl) (simp add: keeps_terminal_def merge_row_def)
  next
    case (Progress fresh c t p s st b)
    then show ?thesis using assms(2) progress_effect [of fresh db keeps_terminal c t p s st b] by (simp add: refl)
  next
    case (Settle i intent)
    have "rewritten keeps_terminal db (snd (settleWakeupForRun i intent db))"
      by (rule settle_effect) (auto simp: keeps_terminal_def handback_row_def)
    then show ?thesis using Settle by simp
  qed (use assms(1) in \<open>auto simp: absorbQueuedTaskWakeups_def releaseUsageHeldWakeups_def claim_if_queued_def heartbeat_claim_def
      markWakeupSkipped_def Let_def keeps_terminal_def claim_row_def rewritten_def list_all2_map2 list.rel_refl intro!: list.rel_refl_strong\<close>)
qed

lemma keeps_terminal_at:
  assumes "rewritten keeps_terminal db db'" and "w \<in> set (wakeups db)" and "w_status w \<in> set TERMINAL_WAKEUP_STATUSES"
  shows "\<exists>v \<in> set (wakeups db'). w_id v = w_id w \<and> w_status v = w_status w"
proof -
  from assms(2) obtain n where n: "n < length (wakeups db)" "wakeups db ! n = w" by (auto simp: in_set_conv_nth)
  have "length (wakeups db') = length (wakeups db)" using assms(1) by (auto simp: rewritten_def dest: list_all2_lengthD)
  moreover have "keeps_terminal w (wakeups db' ! n)" using assms(1) n by (auto simp: rewritten_def dest: list_all2_nthD)
  ultimately show ?thesis using n(1) assms(3) by (auto simp: keeps_terminal_def intro!: bexI [of _ "wakeups db' ! n"])
qed

lemma terminal_stays:
  assumes "guarded op" and "wake_allowed op db" and "w \<in> set (wakeups db)" and "w_status w \<in> set TERMINAL_WAKEUP_STATUSES"
  shows "\<exists>v \<in> set (wakeups (wake_apply op db)). w_id v = w_id w \<and> w_status v = w_status w"
  using guarded_effect [OF assms(1,2)] assms(3,4) keeps_terminal_at by (auto simp: adds_def)

section \<open>A hold names a credential that is still there\<close>

definition hold_typed :: "string set \<Rightarrow> wakeup_row \<Rightarrow> bool" where
  "hold_typed gone w \<longleftrightarrow> (\<forall>c. w_held_config_id w = Some c \<longrightarrow> c \<notin> gone)
     \<and> ((\<exists>r \<in> set CREDENTIAL_HOLD_REASONS. w_last_skipped_reason w = Some r) \<and> w_not_before w \<noteq> None
          \<and> w_held_config_id w = None \<longrightarrow> gone \<noteq> {})"

definition keeps_typed :: "string set \<Rightarrow> wakeup_row \<Rightarrow> wakeup_row \<Rightarrow> bool" where
  "keeps_typed gone w v \<longleftrightarrow> w_id v = w_id w \<and> (hold_typed gone w \<longrightarrow> hold_typed gone v)"

definition wake_inv :: "wakeup_db \<times> string set \<Rightarrow> bool" where
  "wake_inv s \<longleftrightarrow> distinct (wakeup_ids (fst s)) \<and> (\<forall>w \<in> set (wakeups (fst s)). hold_typed (snd s) w)"

lemma handback_typed:
  "cause_typed cause \<Longrightarrow> names_live gone (Settle i (Handback cause)) \<Longrightarrow> hold_typed gone (handback_row cause t w)"
  by (cases cause) (auto simp: hold_typed_def handback_row_def cause_typed_def cause_reason_def cause_config_def)

lemma skip_typed:
  assumes "r \<notin> set CREDENTIAL_HOLD_REASONS"
  shows "rewritten (keeps_typed gone) db (markWakeupSkipped i r b db)"
  unfolding markWakeupSkipped_def
  by (rule rewritten_set) (use assms in \<open>auto simp: keeps_typed_def hold_typed_def split: option.splits if_splits\<close>)

lemma release_typed: "rewritten (keeps_typed gone) db (snd (releaseUsageHeldWakeups before c db))"
  unfolding releaseUsageHeldWakeups_def Let_def snd_conv
  by (rule rewritten_set) (auto simp: keeps_typed_def hold_typed_def usage_held_def split: option.splits)

lemma typed_effect:
  assumes "wake_allowed op db" and "names_live gone op"
  shows "adds db (wake_apply op db) \<or> rewritten (keeps_typed gone) db (wake_apply op db)"
proof -
  have refl: "keeps_typed gone w w" for w by (simp add: keeps_typed_def)
  show ?thesis
  proof (cases op)
    case (Create fresh m t s p k r)
    then show ?thesis using assms create_effect [of fresh db "keeps_typed gone" m t s p k r]
      by (simp add: refl) (simp add: keeps_typed_def merge_row_def hold_typed_def)
  next
    case (Progress fresh c t p s st b)
    then show ?thesis using assms progress_effect [of fresh db "keeps_typed gone" c t p s st b] by (simp add: refl)
  next
    case (Settle i intent)
    have "rewritten (keeps_typed gone) db (snd (settleWakeupForRun i intent db))"
    proof (rule settle_effect)
      show "keeps_typed gone w (handback_row cause (w_now db) w)" if "intent = Handback cause" for w cause
        using assms Settle that handback_typed [of cause gone i] by (simp add: keeps_typed_def)
    qed (auto simp: keeps_typed_def hold_typed_def)
    then show ?thesis using Settle by simp
  next
    case (Skip i r b)
    then show ?thesis using assms skip_typed by simp
  next
    case (ReleaseHeld before c)
    then show ?thesis using release_typed by simp
  qed (auto simp: absorbQueuedTaskWakeups_def claim_if_queued_def heartbeat_claim_def deferWakeup_def requeueWakeup_def claim_by_id_def
      Let_def keeps_typed_def hold_typed_def claim_row_def rewritten_def list_all2_map2 list.rel_refl intro!: list.rel_refl_strong)
qed

lemma rewritten_ids: "rewritten R db db' \<Longrightarrow> (\<And>w v. R w v \<Longrightarrow> w_id v = w_id w) \<Longrightarrow> wakeup_ids db' = wakeup_ids db"
  unfolding rewritten_def wakeup_ids_def by (induction rule: list_all2_induct) auto

lemma op_keeps_typed:
  assumes inv: "wake_inv (db, gone)" and op: "wake_allowed op db" "names_live gone op"
  shows "wake_inv (wake_apply op db, gone)"
  using typed_effect [OF op]
proof
  assume "adds db (wake_apply op db)"
  then show ?thesis using inv by (auto simp: adds_def wake_inv_def wakeup_ids_def new_wakeup_def hold_typed_def)
next
  assume r: "rewritten (keeps_typed gone) db (wake_apply op db)"
  have "wakeup_ids (wake_apply op db) = wakeup_ids db" using rewritten_ids [OF r] by (simp add: keeps_typed_def)
  moreover have "hold_typed gone v" if "v \<in> set (wakeups (wake_apply op db))" for v
    using r inv that by (fastforce simp: rewritten_def wake_inv_def keeps_typed_def list_all2_conv_all_nth in_set_conv_nth)
  ultimately show ?thesis using inv by (simp add: wake_inv_def)
qed

lemma forget_keeps_typed: "wake_inv (db, gone) \<Longrightarrow> wake_inv (forget_config config db, insert config gone)"
  by (auto simp: wake_inv_def forget_config_def ids_set_wakeups hold_typed_def)

interpretation queue: inductive_invariant wake_init wake_step wake_inv
proof
  show "wake_init s \<Longrightarrow> wake_inv s" for s by (simp add: wake_init_def wake_inv_def wakeup_ids_def)
next
  fix s s' assume inv: "wake_inv s" and "wake_step s s'"
  then show "wake_inv s'" by (cases s) (auto elim!: wake_stepE intro: op_keeps_typed forget_keeps_typed)
qed

lemma wake_reach:
  "reach wake_init wake_step (db, gone) \<Longrightarrow> wake_allowed op db \<Longrightarrow> names_live gone op \<Longrightarrow> reach wake_init wake_step (wake_apply op db, gone)"
  by (blast intro: reach_step step_op)

section \<open>The order of release\<close>

definition id_order :: "(string \<Rightarrow> string \<Rightarrow> bool) \<Rightarrow> bool" where
  "id_order lt \<longleftrightarrow> (\<forall>a. \<not> lt a a) \<and> (\<forall>a b c. lt a b \<longrightarrow> lt b c \<longrightarrow> lt a c) \<and> (\<forall>a b. a \<noteq> b \<longrightarrow> lt a b \<or> lt b a)"

definition released_before :: "(string \<Rightarrow> string \<Rightarrow> bool) \<Rightarrow> wakeup_row \<Rightarrow> wakeup_row \<Rightarrow> bool" where
  "released_before lt v w \<longleftrightarrow> w_created_at v < w_created_at w \<or> w_created_at v = w_created_at w \<and> lt (w_id v) (w_id w)"

lemma filter_shorter:
  assumes "\<And>x. P x \<Longrightarrow> Q x" and "v \<in> set xs" and "Q v" and "\<not> P v"
  shows "length (filter P xs) < length (filter Q xs)"
proof -
  have "filter P xs = filter P (filter Q xs)" using assms(1) by (auto intro: filter_cong)
  moreover have "length (filter P (filter Q xs)) < length (filter Q xs)"
    by (rule length_filter_less [of v]) (use assms in auto)
  ultimately show ?thesis by simp
qed

lemma release_position_less:
  assumes "id_order lt" and "released_before lt v w" and "v \<in> set rows"
  shows "release_position lt rows v < release_position lt rows w"
proof -
  have lt_trans: "lt a b \<Longrightarrow> lt b c \<Longrightarrow> lt a c" for a b c using assms(1) unfolding id_order_def by blast
  have "length (filter (\<lambda>x. released_before lt x v) rows) < length (filter (\<lambda>x. released_before lt x w) rows)"
  proof (rule filter_shorter)
    show "released_before lt x w" if "released_before lt x v" for x
      using that assms(2) lt_trans [of "w_id x" "w_id v" "w_id w"] unfolding released_before_def by auto
    show "\<not> released_before lt v v" using assms(1) by (simp add: released_before_def id_order_def)
  qed (use assms in auto)
  then show ?thesis by (simp add: release_position_def released_before_def)
qed

lemma release_position_bound:
  assumes "id_order lt" and "w \<in> set rows"
  shows "release_position lt rows w < length rows"
proof -
  have "length (filter (\<lambda>x. released_before lt x w) rows) < length rows"
    by (rule length_filter_less [of w]) (use assms in \<open>auto simp: released_before_def id_order_def\<close>)
  then show ?thesis by (simp add: release_position_def released_before_def)
qed

lemma find_released:
  assumes "distinct (wakeup_ids db)" and "w \<in> set (wakeups db)" and "usage_held config (w_now db) w"
  shows "find_wakeup (w_id w) (snd (releaseUsageHeldWakeups lt config db)) =
    Some (w\<lparr>w_not_before := Some (w_now db + int (release_position lt (filter (usage_held config (w_now db)) (wakeups db)) w) * 30000)\<rparr>)"
  using assms by (simp add: releaseUsageHeldWakeups_def Let_def find_set_wakeups find_wakeup_in USAGE_HOLD_RELEASE_SPACING_SEC_def)

section \<open>A small queue\<close>

definition demo_cause :: HandbackCause where
  "demo_cause = OnCredential ProviderUsageLimit 90 ''k''"

definition demo_queue :: wakeup_db where
  "demo_queue = \<lparr>wakeups = [new_wakeup ''w1'' ''m'' ''t'' Assignment [''task_id'' \<mapsto> Text ''T''] None None 1,
     (new_wakeup ''w2'' ''m'' ''t'' Mention [''task_id'' \<mapsto> Text ''U''] None None 2)\<lparr>w_status := WClaimed\<rparr>], w_now = 5\<rparr>"

lemma demo_queue_rows:
  "find_wakeup ''w1'' demo_queue = Some (new_wakeup ''w1'' ''m'' ''t'' Assignment [''task_id'' \<mapsto> Text ''T''] None None 1)"
  "find_wakeup ''w2'' demo_queue = Some ((new_wakeup ''w2'' ''m'' ''t'' Mention [''task_id'' \<mapsto> Text ''U''] None None 2)\<lparr>w_status := WClaimed\<rparr>)"
  "distinct (wakeup_ids demo_queue)"
  by (simp_all add: find_wakeup_def wakeup_ids_def demo_queue_def new_wakeup_def)

section \<open>Properties\<close>

text \<open>
  (C12) A trigger whose idempotency key no queued wakeup has - or that has no key - is never lost and
  never stacks. Between its two statements
  other connections may add, claim, merge, settle or remove rows in any way that keeps ids unique, does
  not draw the new row's id, does not hand a row to another agent and does not replace a source that
  bypasses the dispatcher's suppressions by one that does not. Then \<open>createWakeup\<close> returns a row that is
  queued for that agent and that task, whose source bypasses the suppressions if the trigger's does;
  and if an unmarked wakeup of the agent for the task is waiting undisturbed, the trigger folds into it
  instead of adding a row. (A trigger whose key is queued is answered with the row of that key, whoever
  it is for, and when two triggers fold into one row at once the payload of the second write stands;
  neither is claimed here.)
\<close>

theorem wakeup_never_lost:
  assumes "key_free key db" and "meanwhile_ok fresh meanwhile db"
    and "payload ''task_id'' = None \<or> (\<exists>s. payload ''task_id'' = Some (Text s))"
    and "createWakeup meanwhile fresh member team source payload key run db = (i, db')"
  shows "(\<exists>w. find_wakeup i db' = Some w \<and> w_status w = WQueued \<and> w_member_id w = member
       \<and> field (w_payload w) ''task_id'' = string_field payload ''task_id''
       \<and> (source \<in> set DISPATCH_SUPPRESSION_EXEMPT_SOURCES \<longrightarrow> w_source w \<in> set DISPATCH_SUPPRESSION_EXEMPT_SOURCES))
    \<and> (\<forall>e \<in> set (wakeups db). coalesce_target member (string_field payload ''task_id'') e \<longrightarrow> meanwhile db = db \<longrightarrow>
         wakeup_ids db' = wakeup_ids db)"
proof -
  have "wakeup_ids db' = wakeup_ids db"
    if e: "e \<in> set (wakeups db)" "coalesce_target member (string_field payload ''task_id'') e" and same: "meanwhile db = db" for e
  proof -
    let ?cands = "sort_by latest_first (filter (coalesce_target member (string_field payload ''task_id'')) (wakeups db))"
    have "set ?cands = set (filter (coalesce_target member (string_field payload ''task_id'')) (wakeups db))"
      by (metis mset_sort_by set_mset_mset)
    then have "?cands \<noteq> []" using e by auto
    then obtain x xs where x: "?cands = x # xs" by (cases ?cands) auto
    then have "x \<in> set (wakeups db)" "w_status x = WQueued" using hd_sort_by [OF x] by (auto simp: coalesce_target_def)
    then have "list_ex (\<lambda>w. w_id w = w_id x \<and> w_status w = WQueued) (wakeups db)" by (auto simp: list_ex_iff)
    then show ?thesis using assms(4) x same by (auto simp: createWakeup_free [OF assms(1)] Let_def ids_set_wakeups)
  qed
  then show ?thesis using createWakeup_serves [OF assms(1,2), of payload member team source run] assms(3,4) by auto
qed

theorem wakeup_never_lost_witness:
  "\<exists>w. find_wakeup (fst (createWakeup (\<lambda>d. snd (claim_if_queued ''w1'' d)) ''w3'' ''m'' ''t'' Reply [''task_id'' \<mapsto> Text ''T''] None None demo_queue))
      (snd (createWakeup (\<lambda>d. snd (claim_if_queued ''w1'' d)) ''w3'' ''m'' ''t'' Reply [''task_id'' \<mapsto> Text ''T''] None None demo_queue)) = Some w
     \<and> w_status w = WQueued"
proof -
  let ?mw = "\<lambda>d. snd (claim_if_queued ''w1'' d)"
  have ok: "meanwhile_ok ''w3'' ?mw demo_queue"
    by (simp add: meanwhile_ok_def demo_queue_def claim_if_queued_def Let_def wakeup_ids_def new_wakeup_def claim_row_def find_wakeup_def)
  have r: "createWakeup ?mw ''w3'' ''m'' ''t'' Reply [''task_id'' \<mapsto> Text ''T''] None None demo_queue =
      (fst (createWakeup ?mw ''w3'' ''m'' ''t'' Reply [''task_id'' \<mapsto> Text ''T''] None None demo_queue),
       snd (createWakeup ?mw ''w3'' ''m'' ''t'' Reply [''task_id'' \<mapsto> Text ''T''] None None demo_queue))" by simp
  have none: "key_free None demo_queue" by (simp add: key_free_def truthy_def)
  from wakeup_never_lost [OF none ok _ r] show ?thesis by auto
qed

text \<open>
  (Lemma) A decided wakeup stays decided. Through any sequence of the operations that name the status
  they move from, a completed, failed, skipped, coalesced or cancelled wakeup keeps its status.
\<close>

theorem terminal_wakeup_final:
  assumes "(\<lambda>d d'. \<exists>op. guarded op \<and> wake_allowed op d \<and> d' = wake_apply op d)\<^sup>*\<^sup>* db db'"
    and "w \<in> set (wakeups db)" and "w_status w \<in> set TERMINAL_WAKEUP_STATUSES"
  shows "\<exists>v \<in> set (wakeups db'). w_id v = w_id w \<and> w_status v = w_status w"
  using assms
proof (induction rule: rtranclp_induct)
  case (step d d')
  then obtain v op where "v \<in> set (wakeups d)" "w_id v = w_id w" "w_status v = w_status w"
    "guarded op" "wake_allowed op d" "d' = wake_apply op d" by auto
  then show ?case using terminal_stays [of op d v] step.prems by auto
qed auto

theorem terminal_wakeup_final_witness:
  "\<exists>v \<in> set (wakeups (wake_apply (Settle (Some ''w2'') Fail) (wake_apply (Settle (Some ''w2'') Withdraw) demo_queue))).
     w_id v = ''w2'' \<and> w_status v = WCancelled"
proof -
  let ?db = "wake_apply (Settle (Some ''w2'') Withdraw) demo_queue"
  have "\<exists>w \<in> set (wakeups ?db). w_id w = ''w2'' \<and> w_status w = WCancelled"
    by (simp add: demo_queue_def settleWakeupForRun_def truthy_def Let_def new_wakeup_def TERMINAL_WAKEUP_STATUSES_def SETTLEMENT_TERMINAL_STATUS_def)
  then obtain w where w: "w \<in> set (wakeups ?db)" "w_id w = ''w2''" "w_status w = WCancelled" by blast
  have run: "(\<lambda>d d'. \<exists>op. guarded op \<and> wake_allowed op d \<and> d' = wake_apply op d)\<^sup>*\<^sup>* ?db (wake_apply (Settle (Some ''w2'') Fail) ?db)"
    by (rule r_into_rtranclp) (intro exI [of _ "Settle (Some ''w2'') Fail"], simp)
  have "w_status w \<in> set TERMINAL_WAKEUP_STATUSES" using w by (simp add: TERMINAL_WAKEUP_STATUSES_def)
  from terminal_wakeup_final [OF run w(1) this] w(2,3) show ?thesis by simp
qed

text \<open>
  (Lemma) The verdict of a settlement is what happened. A handback answers \<open>requeued\<close> exactly for a
  claimed row, which is then queued again with its cause, and otherwise changes nothing; any other
  outcome answers the status the row now has - the outcome asked for, or the one decided before.
\<close>

theorem settle_verdict:
  assumes "distinct (wakeup_ids db)" and "i \<noteq> []" and "find_wakeup i db = Some w"
    and "settleWakeupForRun (Some i) intent db = (verdict, db')"
  shows "(case intent of
       Handback cause \<Rightarrow> (verdict = Requeued \<longleftrightarrow> w_status w = WClaimed)
         \<and> find_wakeup i db' = Some (if w_status w = WClaimed then handback_row cause (w_now db) w else w)
         \<and> (w_status w \<noteq> WClaimed \<longrightarrow> verdict = HandbackFailed \<and> wakeups db' = wakeups db)
     | _ \<Rightarrow> (\<exists>v. find_wakeup i db' = Some v \<and> verdict = Terminal (w_status v)
         \<and> w_status v = (if w_status w \<in> set TERMINAL_WAKEUP_STATUSES then w_status w else SETTLEMENT_TERMINAL_STATUS intent)))"
proof -
  have w: "w \<in> set (wakeups db)" "w_id w = i" using find_wakeup_Some [OF assms(3)] by simp_all
  have only: "x = w" if "x \<in> set (wakeups db)" "w_id x = i" for x
    using find_wakeup_in [OF assms(1) that(1)] that(2) assms(3) by simp
  have ex: "list_ex (\<lambda>x. w_id x = i \<and> P x) (wakeups db) \<longleftrightarrow> P w" for P
    unfolding list_ex_iff using w only by blast
  have at: "find_wakeup i (set_wakeups (\<lambda>x. w_id x = i \<and> P x) f db) = Some (if P w then f w else w)" if "\<And>x. w_id (f x) = w_id x" for P f
    using that assms(3) w(2) by (simp add: find_set_wakeups)
  have "w \<in> set (filter (\<lambda>x. w_id x = i) (wakeups db))" using w by simp
  then obtain x xs where x: "filter (\<lambda>x. w_id x = i) (wakeups db) = x # xs"
    by (metis empty_iff empty_set neq_Nil_conv)
  then have "x \<in> set (filter (\<lambda>x. w_id x = i) (wakeups db))" by simp
  then have "x = w" using only by simp
  with x have first: "filter (\<lambda>x. w_id x = i) (wakeups db) = w # xs" by simp
  have same: "wakeups (set_wakeups (\<lambda>x. w_id x = i \<and> P x) f db) = wakeups db" if "\<not> P w" for P f
    unfolding wakeups_set by (rule map_idI) (use that only in force)
  show ?thesis
  proof (cases intent)
    case (Handback cause)
    then show ?thesis using assms(2,4) same [of "\<lambda>x. w_status x = WClaimed"]
      by (auto simp: settleWakeupForRun_def truthy_def Let_def ex at)
  qed (use assms(2,3,4) in \<open>auto simp: settleWakeupForRun_def truthy_def Let_def ex at first split: if_splits\<close>)
qed

theorem settle_verdict_witness:
  "find_wakeup ''w2'' (snd (settleWakeupForRun (Some ''w2'') (Handback demo_cause) demo_queue)) =
     Some (handback_row demo_cause 5 ((new_wakeup ''w2'' ''m'' ''t'' Mention [''task_id'' \<mapsto> Text ''U''] None None 2)\<lparr>w_status := WClaimed\<rparr>))"
proof -
  have "settleWakeupForRun (Some ''w2'') (Handback demo_cause) demo_queue =
      (fst (settleWakeupForRun (Some ''w2'') (Handback demo_cause) demo_queue), snd (settleWakeupForRun (Some ''w2'') (Handback demo_cause) demo_queue))"
    by simp
  from settle_verdict [OF demo_queue_rows(3) _ demo_queue_rows(2) this] show ?thesis by (simp add: demo_queue_def)
qed

text \<open>
  (C37) A wait for a usage allowance ends with the credential it waits on. Let any operations on the
  queue run in any order, every handback typed as the settlement's union demands, and let credentials
  be deleted in between. A queued wakeup that waits for a provider's allowance then names a credential
  that has not been deleted, or names none and some credential was deleted. Lifting the hold of the
  credential it names - of any credential, when it names none - gives it a slot between now and
  thirty seconds for each other wakeup released with it, and lifting the hold of a credential
  that it does not wait on leaves it as it was. (A wait at a pace line is not a usage wait: no
  release looks at it.)
\<close>

theorem usage_wait_ends_with_its_credential:
  assumes "reach wake_init wake_step (db, gone)" and "id_order lt" and "w \<in> set (wakeups db)" and "w_status w = WQueued"
    and "w_last_skipped_reason w = Some ProviderUsageLimit" and "w_not_before w = Some t" and "w_now db < t"
    and "releaseUsageHeldWakeups lt config db = (n, db')"
  shows "(case w_held_config_id w of Some c \<Rightarrow> c \<notin> gone | None \<Rightarrow> gone \<noteq> {})
    \<and> (if w_held_config_id w = Some config \<or> w_held_config_id w = None
       then \<exists>slot. find_wakeup (w_id w) db' = Some (w\<lparr>w_not_before := Some slot\<rparr>)
              \<and> w_now db \<le> slot \<and> slot \<le> w_now db + (int n - 1) * 30000
       else find_wakeup (w_id w) db' = Some w)"
proof -
  have inv: "distinct (wakeup_ids db)" "hold_typed gone w" using queue.reach_inv [OF assms(1)] assms(3) by (simp_all add: wake_inv_def)
  have reason: "ProviderUsageLimit \<in> set CREDENTIAL_HOLD_REASONS" by (simp add: CREDENTIAL_HOLD_REASONS_def)
  have held: "usage_held config (w_now db) w \<longleftrightarrow> w_held_config_id w = Some config \<or> w_held_config_id w = None"
    using assms(4-7) by (simp add: usage_held_def)
  have db': "db' = snd (releaseUsageHeldWakeups lt config db)" "n = length (filter (usage_held config (w_now db)) (wakeups db))"
    using assms(8) by (simp_all add: releaseUsageHeldWakeups_def Let_def)
  have "case w_held_config_id w of Some c \<Rightarrow> c \<notin> gone | None \<Rightarrow> gone \<noteq> {}"
    using inv(2) assms(5,6) reason by (auto simp: hold_typed_def split: option.split)
  moreover have "find_wakeup (w_id w) db' = Some w" if "\<not> usage_held config (w_now db) w"
    using that find_wakeup_in [OF inv(1) assms(3)] by (simp add: db' releaseUsageHeldWakeups_def Let_def find_set_wakeups)
  moreover have "\<exists>slot. find_wakeup (w_id w) db' = Some (w\<lparr>w_not_before := Some slot\<rparr>) \<and> w_now db \<le> slot \<and> slot \<le> w_now db + (int n - 1) * 30000"
    if h: "usage_held config (w_now db) w"
    using find_released [OF inv(1) assms(3) h, of lt] release_position_bound [OF assms(2), of w "filter (usage_held config (w_now db)) (wakeups db)"] h assms(3)
    unfolding db' by auto
  ultimately show ?thesis unfolding held by auto
qed

definition held_queue :: wakeup_db where
  "held_queue = fold wake_apply [Create ''w'' ''m'' ''t'' Assignment [''task_id'' \<mapsto> Text ''T''] None None,
     ClaimQueued ''w'', Settle (Some ''w'') (Handback demo_cause)] \<lparr>wakeups = [], w_now = 5\<rparr>"

lemma held_queue_row:
  "wakeups held_queue = [handback_row demo_cause 5 (claim_row 5 (new_wakeup ''w'' ''m'' ''t'' Assignment [''task_id'' \<mapsto> Text ''T''] None None 5))]"
  "w_now held_queue = 5"
  by (simp_all add: held_queue_def createWakeup_def truthy_def sort_by_def insert_wakeup_def claim_if_queued_def settleWakeupForRun_def
      Let_def claim_row_def new_wakeup_def)

text \<open>The order of the ids in the database, for the witnesses: by code units.\<close>

definition by_units :: "string \<Rightarrow> string \<Rightarrow> bool" where
  "by_units x y \<longleftrightarrow> (x, y) \<in> lexord {(c, d). (of_char c :: nat) < of_char d}"

lemma by_units_order: "id_order by_units"
proof -
  let ?r = "{(c, d). (of_char c :: nat) < of_char d}"
  have irrefl: "\<not> by_units x x" for x unfolding by_units_def by (rule lexord_irreflexive) auto
  have trans: "by_units x z" if "by_units x y" "by_units y z" for x y z
    using that unfolding by_units_def by (rule lexord_trans) (auto simp: trans_def)
  have total: "by_units x y \<or> by_units y x" if "x \<noteq> y" for x y
  proof -
    have "total ?r" unfolding total_on_def by (auto simp: neq_iff) (metis of_char_eq_iff neq_iff)
    then have "total (lexord ?r)" by (rule total_lexord)
    then show ?thesis using that by (auto simp: total_on_def by_units_def)
  qed
  show ?thesis unfolding id_order_def using irrefl trans total by blast
qed

theorem usage_wait_ends_with_its_credential_witness:
  "\<exists>w slot. wakeups (forget_config ''k'' held_queue) = [w] \<and>
     find_wakeup (w_id w) (snd (releaseUsageHeldWakeups by_units ''other'' (forget_config ''k'' held_queue))) = Some (w\<lparr>w_not_before := Some slot\<rparr>)
     \<and> 5 \<le> slot"
proof -
  have "reach wake_init wake_step (\<lparr>wakeups = [], w_now = 5\<rparr>, {})" by (rule reach_init) (simp add: wake_init_def)
  then have "reach wake_init wake_step (held_queue, {})"
    unfolding held_queue_def fold_simps
    by (intro wake_reach) (simp_all add: wakeup_ids_def demo_cause_def cause_typed_def CREDENTIAL_HOLD_REASONS_def del: wake_apply.simps)
  then have r: "reach wake_init wake_step (forget_config ''k'' held_queue, {''k''})" by (rule reach_step) (rule step_delete_config)
  let ?w = "(handback_row demo_cause 5 (claim_row 5 (new_wakeup ''w'' ''m'' ''t'' Assignment [''task_id'' \<mapsto> Text ''T''] None None 5)))\<lparr>w_held_config_id := None\<rparr>"
  have q: "wakeups (forget_config ''k'' held_queue) = [?w]" "w_now (forget_config ''k'' held_queue) = 5"
    by (simp_all add: forget_config_def held_queue_row handback_row_def demo_cause_def cause_config_def)
  have w: "?w \<in> set (wakeups (forget_config ''k'' held_queue))" "w_status ?w = WQueued" "w_last_skipped_reason ?w = Some ProviderUsageLimit"
    "w_not_before ?w = Some 90" "w_now (forget_config ''k'' held_queue) < 90" "w_held_config_id ?w = None"
    by (simp_all add: q) (simp_all add: handback_row_def demo_cause_def cause_reason_def cause_notBefore_def)
  obtain n db' where rel: "releaseUsageHeldWakeups by_units ''other'' (forget_config ''k'' held_queue) = (n, db')" by (rule prod.exhaust)
  from usage_wait_ends_with_its_credential [OF r by_units_order w(1-5) rel] w(6) q show ?thesis unfolding rel snd_conv by auto
qed

text \<open>
  (Lemma) A lifted usage hold is let out one wakeup at a time. The release gives every wakeup held on
  the credential its own slot: the slots start now, lie thirty seconds apart, follow the order
  the wakeups were created in and span no more than the number released; every other row is
  left as it was.
\<close>

theorem usage_release_paced:
  assumes "id_order lt" and "distinct (wakeup_ids db)" and "w_id v \<noteq> w_id w"
    and "v \<in> set (wakeups db)" "usage_held config (w_now db) v"
    and "w \<in> set (wakeups db)" "usage_held config (w_now db) w"
    and "releaseUsageHeldWakeups lt config db = (n, db')"
  shows "\<exists>a b. find_wakeup (w_id v) db' = Some (v\<lparr>w_not_before := Some a\<rparr>) \<and> find_wakeup (w_id w) db' = Some (w\<lparr>w_not_before := Some b\<rparr>)
     \<and> 30000 \<le> \<bar>a - b\<bar> \<and> w_now db \<le> a \<and> a \<le> w_now db + (int n - 1) * 30000
     \<and> (w_created_at v < w_created_at w \<longrightarrow> a < b)
     \<and> (\<forall>u \<in> set (wakeups db). \<not> usage_held config (w_now db) u \<longrightarrow> find_wakeup (w_id u) db' = Some u)"
proof -
  let ?rows = "filter (usage_held config (w_now db)) (wakeups db)"
  let ?pos = "release_position lt ?rows"
  have db': "db' = snd (releaseUsageHeldWakeups lt config db)" and n: "n = length ?rows"
    using assms(8) by (simp_all add: releaseUsageHeldWakeups_def Let_def)
  have in_rows: "v \<in> set ?rows" "w \<in> set ?rows" using assms by simp_all
  have "lt (w_id v) (w_id w) \<or> lt (w_id w) (w_id v)" using assms(1,3) unfolding id_order_def by blast
  then have "released_before lt v w \<or> released_before lt w v" by (auto simp: released_before_def)
  then have apart: "?pos v < ?pos w \<or> ?pos w < ?pos v" using release_position_less [OF assms(1)] in_rows by blast
  have order: "w_created_at v < w_created_at w \<Longrightarrow> ?pos v < ?pos w"
    using release_position_less [OF assms(1) _ in_rows(1), of w] by (simp add: released_before_def)
  have bound: "int (?pos v) \<le> int n - 1" using release_position_bound [OF assms(1) in_rows(1)] n by simp
  have rest: "find_wakeup (w_id u) db' = Some u" if "u \<in> set (wakeups db)" "\<not> usage_held config (w_now db) u" for u
    using that find_wakeup_in [OF assms(2) that(1)] by (simp add: db' releaseUsageHeldWakeups_def Let_def find_set_wakeups)
  have "30000 \<le> \<bar>(w_now db + int (?pos v) * 30000) - (w_now db + int (?pos w) * 30000)\<bar>" using apart by auto
  then show ?thesis
    using find_released [OF assms(2,4,5), of lt] find_released [OF assms(2,6,7), of lt] bound order rest unfolding db'
    by (intro exI [of _ "w_now db + int (?pos v) * 30000"] exI [of _ "w_now db + int (?pos w) * 30000"]) auto
qed

definition waiting :: "string \<Rightarrow> int \<Rightarrow> wakeup_row" where
  "waiting i t = (new_wakeup i ''m'' ''t'' Assignment Map.empty None None t)\<lparr>w_last_skipped_reason := Some ProviderUsageLimit,
     w_not_before := Some 90, w_held_config_id := Some ''k''\<rparr>"

theorem usage_release_paced_witness:
  "\<exists>a b. find_wakeup ''w1'' (snd (releaseUsageHeldWakeups by_units ''k''
        \<lparr>wakeups = [waiting ''w2'' 2, waiting ''w1'' 1], w_now = 5\<rparr>)) = Some ((waiting ''w1'' 1)\<lparr>w_not_before := Some a\<rparr>)
     \<and> 5 \<le> a \<and> 30000 \<le> \<bar>a - b\<bar>"
proof -
  let ?db = "\<lparr>wakeups = [waiting ''w2'' 2, waiting ''w1'' 1], w_now = 5\<rparr>" and ?lt = by_units
  have rows: "distinct (wakeup_ids ?db)" "w_id (waiting ''w1'' 1) \<noteq> w_id (waiting ''w2'' 2)" "waiting ''w1'' 1 \<in> set (wakeups ?db)"
    "usage_held ''k'' (w_now ?db) (waiting ''w1'' 1)" "waiting ''w2'' 2 \<in> set (wakeups ?db)" "usage_held ''k'' (w_now ?db) (waiting ''w2'' 2)"
    by (simp_all add: wakeup_ids_def waiting_def new_wakeup_def usage_held_def)
  from usage_release_paced [OF by_units_order rows, of "fst (releaseUsageHeldWakeups ?lt ''k'' ?db)" "snd (releaseUsageHeldWakeups ?lt ''k'' ?db)"]
  obtain a b where "find_wakeup (w_id (waiting ''w1'' 1)) (snd (releaseUsageHeldWakeups ?lt ''k'' ?db)) = Some ((waiting ''w1'' 1)\<lparr>w_not_before := Some a\<rparr>)"
    "30000 \<le> \<bar>a - b\<bar>" "w_now ?db \<le> a" by auto
  moreover have "w_id (waiting ''w1'' 1) = ''w1''" by (simp add: waiting_def new_wakeup_def)
  ultimately show ?thesis by auto
qed

text \<open>
  (Lemma) The dispatcher claims by id alone. A wakeup that was queued when the scan read it and has been
  decided since - cancelled by a person, served by another run - is claimed all the same when its
  turn comes, and its agent is started.
\<close>

theorem decided_wakeup_dispatched:
  assumes "find_wakeup (w_id wakeup) db = Some v" and "w_status v \<in> set TERMINAL_WAKEUP_STATUSES"
    and "\<not> ga_taskBusy gates" "\<not> blocked (ga_capacity gates)" "\<not> ga_agentBusy gates" "\<not> ga_memberRunning gates"
    and "\<not> ga_served gates" "\<not> ga_defer gates"
  shows "fst (process_wakeup gates wakeup db)
     \<and> find_wakeup (w_id wakeup) (snd (process_wakeup gates wakeup db)) = Some (claim_row (w_now db) v)"
  using assms find_wakeup_Some [OF assms(1)] by (simp add: process_wakeup_def Let_def claim_by_id_def find_set_wakeups)

definition open_gates :: gate_answers where
  "open_gates = \<lparr>ga_taskBusy = False, ga_capacity = \<lparr>blocked = False, verdict_hoursExhausted = False\<rparr>, ga_agentBusy = False,
     ga_memberRunning = False, ga_defer = False, ga_served = False\<rparr>"

theorem decided_wakeup_dispatched_witness:
  "fst (process_wakeup open_gates (new_wakeup ''w2'' ''m'' ''t'' Mention [''task_id'' \<mapsto> Text ''U''] None None 2)
     (snd (settleWakeupForRun (Some ''w2'') Withdraw demo_queue)))"
proof -
  let ?w = "new_wakeup ''w2'' ''m'' ''t'' Mention [''task_id'' \<mapsto> Text ''U''] None None 2"
  have "\<exists>v. find_wakeup (w_id ?w) (snd (settleWakeupForRun (Some ''w2'') Withdraw demo_queue)) = Some v \<and> w_status v \<in> set TERMINAL_WAKEUP_STATUSES"
    by (simp add: settleWakeupForRun_def truthy_def Let_def demo_queue_def new_wakeup_def find_wakeup_def TERMINAL_WAKEUP_STATUSES_def
        SETTLEMENT_TERMINAL_STATUS_def)
  then obtain v where v: "find_wakeup (w_id ?w) (snd (settleWakeupForRun (Some ''w2'') Withdraw demo_queue)) = Some v" "w_status v \<in> set TERMINAL_WAKEUP_STATUSES"
    by blast
  have gates: "\<not> ga_taskBusy open_gates" "\<not> blocked (ga_capacity open_gates)" "\<not> ga_agentBusy open_gates" "\<not> ga_memberRunning open_gates"
    "\<not> ga_served open_gates" "\<not> ga_defer open_gates" by (simp_all add: open_gates_def)
  show ?thesis using decided_wakeup_dispatched [OF v gates] by blast
qed

text \<open>
  (Lemma) Two triggers folded into one row at once keep only one payload. When a second
  \<open>createWakeup\<close> merges into the row between the first one's read and its write, what it
  added is overwritten: the row ends up without the key only the second trigger carried.
\<close>

theorem concurrent_merge_loses_payload:
  assumes "db = \<lparr>wakeups = [new_wakeup ''w'' ''m'' ''t'' Mention [''task_id'' \<mapsto> Text ''T''] None None 1], w_now = 5\<rparr>"
    and "other = snd \<circ> createWakeup (\<lambda>d. d) ''x'' ''m'' ''t'' Reply [''task_id'' \<mapsto> Text ''T'', key \<mapsto> value] None None"
    and "key \<noteq> ''task_id''" and "key \<noteq> ''trigger''"
  shows "(\<exists>w. find_wakeup ''w'' (other db) = Some w \<and> w_payload w key = Some value)
     \<and> (\<exists>w. find_wakeup ''w'' (snd (createWakeup other ''y'' ''m'' ''t'' Reply [''task_id'' \<mapsto> Text ''T''] None None db)) = Some w
          \<and> w_coalesced_count w = 2 \<and> w_payload w key = None)"
  using assms(3,4) unfolding assms(1,2)
  by (simp add: createWakeup_def truthy_def sort_by_def coalesce_target_def field_def string_field_def new_wakeup_def Let_def
      merge_row_def merged_payload_def mergePayloads_def find_wakeup_def)

theorem concurrent_merge_loses_payload_witness:
  "\<exists>w. find_wakeup ''w'' (snd (createWakeup (snd \<circ> createWakeup (\<lambda>d. d) ''x'' ''m'' ''t'' Reply [''task_id'' \<mapsto> Text ''T'', ''note'' \<mapsto> Text ''n''] None None)
       ''y'' ''m'' ''t'' Reply [''task_id'' \<mapsto> Text ''T''] None None
       \<lparr>wakeups = [new_wakeup ''w'' ''m'' ''t'' Mention [''task_id'' \<mapsto> Text ''T''] None None 1], w_now = 5\<rparr>)) = Some w
     \<and> w_payload w ''note'' = None"
  using concurrent_merge_loses_payload [OF refl refl, of "''note''" "Text ''n''"] by auto

end
