(* ===== verification/Dispatch_Holds.thy ===== *)
theory Dispatch_Holds
  imports Wakeups
begin

text \<open>
  What holds an agent off a task: \<open>services/no-work-backoff.ts\<close> whole, and the part of
  \<open>activateAgent\<close> in \<open>services/job-manager.ts\<close> that applies it to a wakeup's candidate tasks, posts the
  notice of a hold and settles the wakeup. The reply that resumes a held task is
  \<open>resumeHeldTaskOnAdminReply\<close> of \<open>services/comment-wakeups.ts\<close>.

  The tables are lists of rows and a query is a function on them. A timestamp is an integer of
  milliseconds; SQL's \<open>NULL\<close> is \<open>None\<close>, and so is \<open>'-infinity'\<close> where the code coalesces to it. Every
  comparison with \<open>NULL\<close> in these queries stands under an \<open>EXISTS\<close>, a \<open>WHERE\<close> or a \<open>COALESCE\<close>, or beside a
  conjunct that is false with it, so two truth values are enough. Of two runs finished or started in the
  same instant the database may take either; the model takes them in table order. The wording of the notices is not modelled.
\<close>

section \<open>Rows\<close>

datatype HeartbeatRunStatus = HrQueued | HrRunning | HrSucceeded | HrFailed | HrCancelled | HrTimedOut

datatype HeartbeatRunKind = TaskRun | ProgressUpdate | Retrospective

datatype RunCancelReason = OperatorTerminated | WorkWithdrawn | HandedBack | Abandoned

datatype CommentContentType =
  CtText | CtPreview | CtSystem | CtRun | CtAction | CtCredentialRequest | CtConnectRequired | CtAssetDeletionRequest

record run_row =
  hr_id :: string
  hr_member :: string
  hr_task :: "string option"
  hr_wakeup :: "string option"
  hr_kind :: HeartbeatRunKind
  hr_status :: HeartbeatRunStatus
  hr_cancel_reason :: "RunCancelReason option"
  hr_stop_reason :: "string option"
  hr_started_at :: "int option"
  hr_finished_at :: "int option"
  hr_reported_no_work :: bool
  hr_input_tokens :: nat
  hr_output_tokens :: nat

record comment_row =
  cm_id :: string
  cm_task :: string
  cm_author_member :: "string option"
  cm_author_user :: "string option"
  cm_author_api_key :: "string option"
  cm_created_by_run :: "string option"
  cm_created_at :: int
  cm_content_type :: CommentContentType
  cm_kind :: "string option"
  cm_chosen_option :: "payload_value option"
  cm_chosen_at :: "int option"
  cm_chosen_by_user :: "string option"

record member_user =
  mu_id :: string
  mu_user :: string
  mu_admin :: bool

record agent_row =
  ag_id :: string
  ag_slug :: string
  ag_heartbeat_interval_min :: int
  ag_last_heartbeat_at :: "int option"

record held_task =
  ht_id :: string
  ht_team :: string
  ht_assignee :: "string option"

record hold_db =
  comments :: "comment_row list"
  runs :: "run_row list"
  queue :: wakeup_db
  users :: "(string \<times> bool) list"
  member_users :: "member_user list"
  members :: "(string \<times> string) list"
  agents :: "agent_row list"
  hold_tasks :: "held_task list"
  admin_mentions :: "(string \<times> string) list"
  choice_attribution_from :: "int option"

definition now :: "hold_db \<Rightarrow> int" where
  "now db = w_now (queue db)"

definition comments_on :: "hold_db \<Rightarrow> string \<Rightarrow> comment_row list" where
  "comments_on db task = filter (\<lambda>c. cm_task c = task) (comments db)"

definition runs_on :: "hold_db \<Rightarrow> string \<Rightarrow> run_row list" where
  "runs_on db task = filter (\<lambda>r. hr_task r = Some task) (runs db)"

definition task_team :: "hold_db \<Rightarrow> string \<Rightarrow> string option" where
  "task_team db task = map_option ht_team (find (\<lambda>t. ht_id t = task) (hold_tasks db))"

text \<open>\<open>GREATEST\<close> and \<open>max\<close>, which ignore \<open>NULL\<close>, and \<open>t > COALESCE(since, '-infinity')\<close>.\<close>

fun greatest_of :: "int option \<Rightarrow> int option \<Rightarrow> int option" where
  "greatest_of None b = b"
| "greatest_of (Some a) None = Some a"
| "greatest_of (Some a) (Some b) = Some (max a b)"

definition latest :: "int option list \<Rightarrow> int option" where
  "latest xs = foldr greatest_of xs None"

definition after :: "int \<Rightarrow> int option \<Rightarrow> bool" where
  "after t since \<longleftrightarrow> (case since of None \<Rightarrow> True | Some s \<Rightarrow> s < t)"

definition option_after :: "int option \<Rightarrow> int option \<Rightarrow> bool" where
  "option_after t since \<longleftrightarrow> (case t of None \<Rightarrow> False | Some a \<Rightarrow> after a since)"

section \<open>Who has spoken\<close>

definition CONVERSATIONAL_SOURCES :: "WakeupSource list" where
  "CONVERSATIONAL_SOURCES = [Mention, Comment, Reply]"

definition isAdminUserSql :: "hold_db \<Rightarrow> string option \<Rightarrow> string option \<Rightarrow> bool" where
  "isAdminUserSql db user team \<longleftrightarrow> (case user of
     None \<Rightarrow> False
   | Some u \<Rightarrow> list_ex (\<lambda>(i, is_superuser). i = u \<and> is_superuser) (users db)
       \<or> list_ex (\<lambda>amu. mu_user amu = u \<and> mu_admin amu \<and> list_ex (\<lambda>(i, t). i = mu_id amu \<and> Some t = team) (members db))
           (member_users db))"

definition personCommentSql :: "comment_row \<Rightarrow> bool" where
  "personCommentSql c \<longleftrightarrow> cm_author_user c \<noteq> None \<or> cm_author_api_key c \<noteq> None"

definition adminCommentSql :: "hold_db \<Rightarrow> string option \<Rightarrow> comment_row \<Rightarrow> bool" where
  "adminCommentSql db team c \<longleftrightarrow> cm_author_api_key c \<noteq> None
     \<or> cm_author_user c \<noteq> None \<and> isAdminUserSql db (cm_author_user c) team"

definition preAttributionChoiceSql :: "hold_db \<Rightarrow> comment_row \<Rightarrow> bool" where
  "preAttributionChoiceSql db c \<longleftrightarrow> (case (cm_chosen_at c, choice_attribution_from db) of
     (Some t, Some from) \<Rightarrow> t < from | _ \<Rightarrow> False)"

definition personChoiceSql :: "hold_db \<Rightarrow> comment_row \<Rightarrow> bool" where
  "personChoiceSql db c \<longleftrightarrow> cm_chosen_by_user c \<noteq> None \<or> preAttributionChoiceSql db c"

definition adminChoiceSql :: "hold_db \<Rightarrow> string option \<Rightarrow> comment_row \<Rightarrow> bool" where
  "adminChoiceSql db team c \<longleftrightarrow>
     cm_chosen_by_user c \<noteq> None \<and> isAdminUserSql db (cm_chosen_by_user c) team \<or> preAttributionChoiceSql db c"

definition personSpokeAtSql :: "hold_db \<Rightarrow> string \<Rightarrow> int option" where
  "personSpokeAtSql db task = latest (map
     (\<lambda>sc. greatest_of (if personCommentSql sc then Some (cm_created_at sc) else None)
        (if personChoiceSql db sc then cm_chosen_at sc else None))
     (filter (\<lambda>sc. personCommentSql sc \<or> personChoiceSql db sc) (comments_on db task)))"

text \<open>\<open>before\<close> is the optional bound: none leaves every word in.\<close>

definition earlier :: "int option \<Rightarrow> int option \<Rightarrow> bool" where
  "earlier t before \<longleftrightarrow> (case before of None \<Rightarrow> True | Some b \<Rightarrow> (case t of None \<Rightarrow> False | Some a \<Rightarrow> a < b))"

definition adminSpokeAtSql :: "hold_db \<Rightarrow> string \<Rightarrow> int option \<Rightarrow> int option" where
  "adminSpokeAtSql db task before = (case task_team db task of
     None \<Rightarrow> None
   | Some team \<Rightarrow> latest (map
       (\<lambda>sc. greatest_of
          (if adminCommentSql db (Some team) sc \<and> earlier (Some (cm_created_at sc)) before then Some (cm_created_at sc) else None)
          (if adminChoiceSql db (Some team) sc \<and> earlier (cm_chosen_at sc) before then cm_chosen_at sc else None))
       (filter (\<lambda>sc. personCommentSql sc \<or> personChoiceSql db sc) (comments_on db task))))"

definition spokeSinceSql :: "hold_db \<Rightarrow> string option \<Rightarrow> int option \<Rightarrow> string option option \<Rightarrow> bool" where
  "spokeSinceSql db task since team \<longleftrightarrow>
     (let comment = (case team of Some tm \<Rightarrow> adminCommentSql db tm | None \<Rightarrow> personCommentSql);
          choice = (case team of Some tm \<Rightarrow> adminChoiceSql db tm | None \<Rightarrow> personChoiceSql db)
      in list_ex (\<lambda>sc. Some (cm_task sc) = task
           \<and> (comment sc \<and> after (cm_created_at sc) since \<or> choice sc \<and> option_after (cm_chosen_at sc) since)) (comments db))"

section \<open>Exemptions\<close>

text \<open>\<open>NULLIF(actor->>'key', '')\<close> of a JSON value that may not be there.\<close>

definition actor_field :: "payload_value option \<Rightarrow> string \<Rightarrow> string option" where
  "actor_field actor key = (case actor of
     Some (Obj ms) \<Rightarrow> (case field (map_of ms) key of Some [] \<Rightarrow> None | v \<Rightarrow> v)
   | _ \<Rightarrow> None)"

definition is_object :: "payload_value option \<Rightarrow> bool" where
  "is_object v \<longleftrightarrow> (case v of Some (Obj _) \<Rightarrow> True | _ \<Rightarrow> False)"

definition legacyActorSql :: "hold_db \<Rightarrow> payload_value option \<Rightarrow> string option option \<Rightarrow> bool" where
  "legacyActorSql db actor team \<longleftrightarrow> is_object actor
     \<and> actor_field actor ''user_id'' = None \<and> actor_field actor ''api_key_id'' = None
     \<and> list_ex (\<lambda>mu. Some (mu_id mu) = actor_field actor ''member_id''
          \<and> (case team of None \<Rightarrow> True | Some tm \<Rightarrow> isAdminUserSql db (Some (mu_user mu)) tm)) (member_users db)"

definition actorIsPersonSql :: "hold_db \<Rightarrow> payload_value option \<Rightarrow> bool" where
  "actorIsPersonSql db actor \<longleftrightarrow>
     is_object actor \<and> (actor_field actor ''user_id'' \<noteq> None \<or> actor_field actor ''api_key_id'' \<noteq> None)
     \<or> legacyActorSql db actor None"

definition actorIsAdminSql :: "hold_db \<Rightarrow> payload_value option \<Rightarrow> string option \<Rightarrow> bool" where
  "actorIsAdminSql db actor team \<longleftrightarrow>
     is_object actor \<and> (actor_field actor ''api_key_id'' \<noteq> None \<or> isAdminUserSql db (actor_field actor ''user_id'') team)
     \<or> legacyActorSql db actor (Some team)"

definition adminTriggeredSql :: "hold_db \<Rightarrow> payload \<Rightarrow> string option \<Rightarrow> bool" where
  "adminTriggeredSql db payload team \<longleftrightarrow> actorIsAdminSql db (payload ''triggered_by'') team"

record SuppressionExemption =
  byPerson :: bool
  byAdmin :: bool

definition FULL_EXEMPTION :: SuppressionExemption where
  "FULL_EXEMPTION = \<lparr>byPerson = True, byAdmin = True\<rparr>"

definition NO_EXEMPTION :: SuppressionExemption where
  "NO_EXEMPTION = \<lparr>byPerson = False, byAdmin = False\<rparr>"

definition DECISION_SOURCES :: "WakeupSource list" where
  "DECISION_SOURCES = [CredentialProvided, AssetDeletionResolved, ApprovalResolved]"

text \<open>When this agent last ran on the task, a handed-back run aside.\<close>

definition last_ran :: "hold_db \<Rightarrow> string \<Rightarrow> string option \<Rightarrow> int option" where
  "last_ran db member task = latest (map hr_started_at
     (filter (\<lambda>r. task \<noteq> None \<and> hr_task r = task \<and> hr_member r = member \<and> hr_cancel_reason r \<noteq> Some HandedBack) (runs db)))"

definition wake_run :: "hold_db \<Rightarrow> string option \<Rightarrow> string option" where
  "wake_run db wakeupId = (case wakeupId of
     None \<Rightarrow> None
   | Some i \<Rightarrow> (case find (\<lambda>w. w_id w = i) (wakeups (queue db)) of None \<Rightarrow> None | Some w \<Rightarrow> w_created_by_run_id w))"

definition dispatchSuppressionExempt ::
  "hold_db \<Rightarrow> string \<Rightarrow> string \<Rightarrow> string option \<Rightarrow> WakeupSource \<Rightarrow> payload \<Rightarrow> string option \<Rightarrow> SuppressionExemption" where
  "dispatchSuppressionExempt db member teamId task source payload wakeupId =
     (let triggered = is_object (payload ''triggered_by'');
          decision = source \<in> set DECISION_SOURCES;
          conversational = source \<in> set CONVERSATIONAL_SOURCES
      in if \<not> triggered \<and> \<not> decision \<and> \<not> conversational then NO_EXEMPTION
         else if \<not> truthy task \<and> \<not> triggered \<and> \<not> decision then NO_EXEMPTION
         else (let since = last_ran db member task;
                   team = (case Option.bind task (task_team db) of None \<Rightarrow> Some teamId | Some tm \<Rightarrow> Some tm);
                   run = wake_run db wakeupId
           in if triggered
              then \<lparr>byPerson = actorIsPersonSql db (payload ''triggered_by''), byAdmin = actorIsAdminSql db (payload ''triggered_by'') team\<rparr>
              else if decision \<and> run = None
              then \<lparr>byPerson = actorIsPersonSql db (payload ''decided_by''), byAdmin = actorIsAdminSql db (payload ''decided_by'') team\<rparr>
              else \<lparr>byPerson = (run = None \<or> spokeSinceSql db task since None), byAdmin = spokeSinceSql db task since (Some team)\<rparr>))"

section \<open>The soft holds\<close>

definition newest_finished :: "hold_db \<Rightarrow> string \<Rightarrow> string \<Rightarrow> run_row option" where
  "newest_finished db member task =
     (case sort_by (\<lambda>a b. the (hr_finished_at b) - the (hr_finished_at a))
        (filter (\<lambda>r. hr_member r = member \<and> hr_task r = Some task \<and> hr_finished_at r \<noteq> None) (runs db)) of
        [] \<Rightarrow> None | r # _ \<Rightarrow> Some r)"

definition noWorkCooldownActive :: "int \<Rightarrow> hold_db \<Rightarrow> string \<Rightarrow> string option \<Rightarrow> bool \<Rightarrow> bool" where
  "noWorkCooldownActive floor_min db member task skipped \<longleftrightarrow>
     (if \<not> truthy task \<or> skipped then False
      else (case (newest_finished db member (the task), find (\<lambda>ma. ag_id ma = member) (agents db)) of
          (Some lr, Some ma) \<Rightarrow>
            (let finished = the (hr_finished_at lr) in
             hr_reported_no_work lr
             \<and> finished + max (ag_heartbeat_interval_min ma) floor_min * 60000 > now db
             \<and> \<not> list_ex (\<lambda>c. cm_created_at c > finished \<and> (cm_created_by_run c = None \<or> cm_created_by_run c \<noteq> Some (hr_id lr)))
                   (comments_on db (the task))
             \<and> \<not> list_ex (\<lambda>a. option_after (cm_chosen_at a) (Some finished)) (comments_on db (the task)))
        | _ \<Rightarrow> False))"

definition PENDING_ASK_CONTENT_TYPES :: "CommentContentType list" where
  "PENDING_ASK_CONTENT_TYPES = [CtAction, CtCredentialRequest, CtAssetDeletionRequest]"

definition outstandingAdminAskExistsSql :: "hold_db \<Rightarrow> comment_row \<Rightarrow> bool" where
  "outstandingAdminAskExistsSql db c \<longleftrightarrow> list_ex (\<lambda>(comment, _). comment = cm_id c) (admin_mentions db)
     \<or> cm_chosen_option c = None \<and> cm_content_type c \<in> set PENDING_ASK_CONTENT_TYPES"

definition newest_other :: "hold_db \<Rightarrow> string \<Rightarrow> string \<Rightarrow> int option" where
  "newest_other db member task = latest (map
     (\<lambda>c. greatest_of (if cm_author_member c \<noteq> Some member then Some (cm_created_at c) else None) (cm_chosen_at c))
     (filter (\<lambda>c. cm_author_member c \<noteq> Some member \<or> cm_chosen_at c \<noteq> None) (comments_on db task)))"

definition parkedOnAdminAsk :: "hold_db \<Rightarrow> string \<Rightarrow> string option \<Rightarrow> bool \<Rightarrow> bool" where
  "parkedOnAdminAsk db member task skipped \<longleftrightarrow>
     (if \<not> truthy task \<or> skipped then False
      else list_ex (\<lambda>ask. after (cm_created_at ask) (newest_other db member (the task)) \<and> outstandingAdminAskExistsSql db ask)
             (comments_on db (the task)))"

definition MAX_TASK_ATTEMPT_GIVEUPS :: nat where
  "MAX_TASK_ATTEMPT_GIVEUPS = 6"

definition TASK_ATTEMPT_WINDOW_HOURS :: int where
  "TASK_ATTEMPT_WINDOW_HOURS = 24"

definition UNPRODUCTIVE_CANCEL_REASONS :: "RunCancelReason list" where
  "UNPRODUCTIVE_CANCEL_REASONS = [HandedBack, Abandoned]"

definition unproductive :: "run_row \<Rightarrow> bool" where
  "unproductive r \<longleftrightarrow> hr_status r \<in> {HrFailed, HrTimedOut}
     \<or> hr_status r = HrCancelled \<and> (case hr_cancel_reason r of None \<Rightarrow> False | Some c \<Rightarrow> c \<in> set UNPRODUCTIVE_CANCEL_REASONS)"

definition last_success :: "hold_db \<Rightarrow> string \<Rightarrow> string \<Rightarrow> int option" where
  "last_success db member task =
     latest (map hr_finished_at (filter (\<lambda>r. hr_member r = member \<and> hr_status r = HrSucceeded) (runs_on db task)))"

definition attempts :: "hold_db \<Rightarrow> string \<Rightarrow> string \<Rightarrow> run_row list" where
  "attempts db member task = filter (\<lambda>r. hr_member r = member
      \<and> (case hr_finished_at r of None \<Rightarrow> False
         | Some f \<Rightarrow> f > now db - TASK_ATTEMPT_WINDOW_HOURS * 3600000 \<and> after f (last_success db member task))
      \<and> unproductive r) (runs_on db task)"

definition attemptsExhaustedOnTask :: "hold_db \<Rightarrow> string \<Rightarrow> string option \<Rightarrow> bool \<Rightarrow> bool" where
  "attemptsExhaustedOnTask db member task skipped \<longleftrightarrow>
     (if \<not> truthy task \<or> skipped then False else MAX_TASK_ATTEMPT_GIVEUPS \<le> length (attempts db member (the task)))"

definition finding_at :: "hold_db \<Rightarrow> string \<Rightarrow> int option" where
  "finding_at db task = latest (map (\<lambda>c. Some (cm_created_at c))
     (filter (\<lambda>c. list_ex (\<lambda>r. Some (hr_id r) = cm_created_by_run c \<and> hr_kind r = Retrospective) (runs db)) (comments_on db task)))"

definition retrospectiveHoldActive :: "hold_db \<Rightarrow> string option \<Rightarrow> bool \<Rightarrow> bool" where
  "retrospectiveHoldActive db task skipped \<longleftrightarrow>
     (if \<not> truthy task \<or> skipped then False
      else (case finding_at db (the task) of
          None \<Rightarrow> False
        | Some f \<Rightarrow> (case personSpokeAtSql db (the task) of None \<Rightarrow> True | Some p \<Rightarrow> p \<le> f)))"

section \<open>What a task has spent\<close>

definition HANDOFF_ROUND_LIMIT :: nat where
  "HANDOFF_ROUND_LIMIT = 8"

definition HANDOFF_SCAN_RUNS :: nat where
  "HANDOFF_SCAN_RUNS = HANDOFF_ROUND_LIMIT * 8"

definition TASK_TOKEN_CEILING :: nat where
  "TASK_TOKEN_CEILING = 100000000"

definition RUN_SIZE_STOP_REASONS :: "string list" where
  "RUN_SIZE_STOP_REASONS = [''token_ceiling'', ''tool_call_ceiling'']"

definition isRunSizeStopReason :: "string option \<Rightarrow> bool" where
  "isRunSizeStopReason reason \<longleftrightarrow> (case reason of None \<Rightarrow> '''' | Some r \<Rightarrow> r) \<in> set RUN_SIZE_STOP_REASONS"

definition run_tokens :: "run_row \<Rightarrow> nat" where
  "run_tokens r = hr_input_tokens r + hr_output_tokens r"

definition wakeup_of :: "hold_db \<Rightarrow> run_row \<Rightarrow> wakeup_row option" where
  "wakeup_of db r = (case hr_wakeup r of None \<Rightarrow> None | Some i \<Rightarrow> find (\<lambda>w. w_id w = i) (wakeups (queue db)))"

text \<open>A round of a handoff: a run whose wakeup an agent's comment, mention or reply raised.\<close>

definition is_handoff :: "hold_db \<Rightarrow> string \<Rightarrow> run_row \<Rightarrow> bool" where
  "is_handoff db task r \<longleftrightarrow> (case wakeup_of db r of
     None \<Rightarrow> False
   | Some w \<Rightarrow> w_source w \<in> set CONVERSATIONAL_SOURCES \<and> w_created_by_run_id w \<noteq> None
       \<and> \<not> adminTriggeredSql db (w_payload w) (task_team db task))"

definition started_runs :: "hold_db \<Rightarrow> string \<Rightarrow> run_row list" where
  "started_runs db task = filter (\<lambda>r. hr_started_at r \<noteq> None) (runs_on db task)"

definition recent_runs :: "hold_db \<Rightarrow> string \<Rightarrow> run_row list" where
  "recent_runs db task = take HANDOFF_SCAN_RUNS (sort_by (\<lambda>a b. the (hr_started_at b) - the (hr_started_at a))
     (filter (\<lambda>r. option_after (hr_started_at r) (adminSpokeAtSql db task None) \<and> hr_cancel_reason r \<noteq> Some HandedBack)
        (started_runs db task)))"

definition handoff_chain :: "hold_db \<Rightarrow> string \<Rightarrow> run_row list" where
  "handoff_chain db task = (let recent = recent_runs db task;
       broken = latest (map hr_started_at (filter (\<lambda>r. \<not> is_handoff db task r) recent))
     in filter (\<lambda>r. is_handoff db task r \<and> option_after (hr_started_at r) broken) recent)"

record TaskSpend =
  sp_runs :: nat
  sp_tokens :: nat
  sp_adminAt :: "int option"
  sp_sinceAdmin_runs :: nat
  sp_sinceAdmin_tokens :: nat
  sp_sizeStops_count :: nat
  sp_sizeStops_since :: "int option"
  sp_rounds :: nat
  sp_chain_tokens :: nat
  sp_agentSlugs :: "string list"
  sp_newest :: "int option"

definition admin_run_at :: "hold_db \<Rightarrow> string \<Rightarrow> int option" where
  "admin_run_at db task = latest (map hr_started_at (filter (\<lambda>r. case wakeup_of db r of
       None \<Rightarrow> False | Some aw \<Rightarrow> adminTriggeredSql db (w_payload aw) (task_team db task)) (started_runs db task)))"

definition not_before_at :: "int option \<Rightarrow> int option \<Rightarrow> bool" where
  "not_before_at t since \<longleftrightarrow> (case since of None \<Rightarrow> True | Some s \<Rightarrow> (case t of None \<Rightarrow> False | Some a \<Rightarrow> s \<le> a))"

definition agent_slug :: "hold_db \<Rightarrow> string \<Rightarrow> string option" where
  "agent_slug db member = map_option ag_slug (find (\<lambda>ma. ag_id ma = member) (agents db))"

definition loadTaskSpend :: "hold_db \<Rightarrow> string \<Rightarrow> TaskSpend" where
  "loadTaskSpend db task =
     (let started = started_runs db task;
          admin_at = adminSpokeAtSql db task None;
          admin_run = admin_run_at db task;
          since = filter (\<lambda>r. option_after (hr_started_at r) admin_at) started;
          sized = filter (\<lambda>r. not_before_at (hr_started_at r) admin_run
                     \<and> (case hr_stop_reason r of None \<Rightarrow> False | Some s \<Rightarrow> s \<in> set RUN_SIZE_STOP_REASONS)) since;
          chain = handoff_chain db task
      in \<lparr>sp_runs = length started, sp_tokens = sum_list (map run_tokens started), sp_adminAt = admin_at,
          sp_sinceAdmin_runs = length since, sp_sinceAdmin_tokens = sum_list (map run_tokens since),
          sp_sizeStops_count = length sized, sp_sizeStops_since = greatest_of admin_at admin_run,
          sp_rounds = length (remdups (List.map_filter hr_wakeup chain)),
          sp_chain_tokens = sum_list (map run_tokens chain),
          sp_agentSlugs = remdups (List.map_filter (\<lambda>r. agent_slug db (hr_member r)) chain),
          sp_newest = latest (map hr_started_at chain)\<rparr>)"

record TaskUsageSoFar =
  us_runs :: nat
  us_tokens :: nat
  us_sinceAdminReply :: "(nat \<times> nat) option"
  us_handoffRounds :: nat

definition loadTaskUsageSoFar :: "hold_db \<Rightarrow> string \<Rightarrow> TaskUsageSoFar" where
  "loadTaskUsageSoFar db task = (let spend = loadTaskSpend db task in
     \<lparr>us_runs = sp_runs spend, us_tokens = sp_tokens spend,
      us_sinceAdminReply = (case sp_adminAt spend of None \<Rightarrow> None
        | Some _ \<Rightarrow> Some (sp_sinceAdmin_runs spend, sp_sinceAdmin_tokens spend)),
      us_handoffRounds = sp_rounds spend\<rparr>)"

section \<open>The hard stops\<close>

record HandoffRounds =
  hf_rounds :: nat
  hf_tokens :: nat
  hf_agentSlugs :: "string list"
  hf_noticeSince :: int

definition handoffHold :: "TaskSpend \<Rightarrow> HandoffRounds option" where
  "handoffHold spend = (case sp_newest spend of
     None \<Rightarrow> None
   | Some newest \<Rightarrow> if sp_rounds spend < HANDOFF_ROUND_LIMIT then None
       else Some \<lparr>hf_rounds = sp_rounds spend, hf_tokens = sp_chain_tokens spend, hf_agentSlugs = sp_agentSlugs spend, hf_noticeSince = newest\<rparr>)"

record RunSizeStops =
  ss_stops :: nat
  ss_noticeSince :: "int option"

definition runSizeStopHold :: "TaskSpend \<Rightarrow> RunSizeStops option" where
  "runSizeStopHold spend = (if sp_sizeStops_count spend = 0 then None
     else Some \<lparr>ss_stops = sp_sizeStops_count spend, ss_noticeSince = sp_sizeStops_since spend\<rparr>)"

record TaskTokenUsage =
  tu_tokens :: nat
  tu_noticeSince :: "int option"

definition tokenCeilingHold :: "TaskSpend \<Rightarrow> TaskTokenUsage option" where
  "tokenCeilingHold spend = (if sp_sinceAdmin_tokens spend < TASK_TOKEN_CEILING then None
     else Some \<lparr>tu_tokens = sp_sinceAdmin_tokens spend, tu_noticeSince = sp_adminAt spend\<rparr>)"

definition HANDOFF_LIMIT_COMMENT_KIND :: string where
  "HANDOFF_LIMIT_COMMENT_KIND = ''handoff_limit''"

definition TASK_TOKEN_CEILING_COMMENT_KIND :: string where
  "TASK_TOKEN_CEILING_COMMENT_KIND = ''task_token_ceiling''"

definition RUN_SIZE_STOP_COMMENT_KIND :: string where
  "RUN_SIZE_STOP_COMMENT_KIND = ''run_size_stop''"

definition ADMIN_HOLD_NOTICE_KINDS :: "string list" where
  "ADMIN_HOLD_NOTICE_KINDS = [HANDOFF_LIMIT_COMMENT_KIND, TASK_TOKEN_CEILING_COMMENT_KIND, RUN_SIZE_STOP_COMMENT_KIND]"

section \<open>Dispatch\<close>

record hold_notice =
  nt_kind :: string
  nt_unlessPostedSince :: "int option"

record suppression =
  su_reason :: WakeupSkipReason
  su_notice :: "hold_notice option"

definition dispatchSuppression :: "int \<Rightarrow> hold_db \<Rightarrow> string \<Rightarrow> string \<Rightarrow> SuppressionExemption \<Rightarrow> suppression option" where
  "dispatchSuppression floor_min db member task exemption =
     (let skipped = byPerson exemption in
      if noWorkCooldownActive floor_min db member (Some task) skipped then Some \<lparr>su_reason = NoWorkCooldown, su_notice = None\<rparr>
      else if parkedOnAdminAsk db member (Some task) skipped then Some \<lparr>su_reason = ParkedOnAdmin, su_notice = None\<rparr>
      else if attemptsExhaustedOnTask db member (Some task) skipped then Some \<lparr>su_reason = AttemptsExhausted, su_notice = None\<rparr>
      else if retrospectiveHoldActive db (Some task) skipped then Some \<lparr>su_reason = RetrospectiveHold, su_notice = None\<rparr>
      else if byAdmin exemption then None
      else (let spend = loadTaskSpend db task in
        case handoffHold spend of
          Some h \<Rightarrow> Some \<lparr>su_reason = HandoffRoundsExhausted,
            su_notice = Some \<lparr>nt_kind = HANDOFF_LIMIT_COMMENT_KIND, nt_unlessPostedSince = Some (hf_noticeSince h)\<rparr>\<rparr>
        | None \<Rightarrow> (case tokenCeilingHold spend of
            Some u \<Rightarrow> Some \<lparr>su_reason = TaskTokenCeiling,
              su_notice = Some \<lparr>nt_kind = TASK_TOKEN_CEILING_COMMENT_KIND, nt_unlessPostedSince = tu_noticeSince u\<rparr>\<rparr>
          | None \<Rightarrow> (case runSizeStopHold spend of
              Some s \<Rightarrow> Some \<lparr>su_reason = RunSizeStop,
                su_notice = Some \<lparr>nt_kind = RUN_SIZE_STOP_COMMENT_KIND, nt_unlessPostedSince = ss_noticeSince s\<rparr>\<rparr>
            | None \<Rightarrow> None))))"

definition insertSystemComment :: "string \<Rightarrow> string \<Rightarrow> string \<Rightarrow> hold_db \<Rightarrow> hold_db" where
  "insertSystemComment fresh task kind db = db\<lparr>comments := comments db @
     [\<lparr>cm_id = fresh, cm_task = task, cm_author_member = None, cm_author_user = None, cm_author_api_key = None,
       cm_created_by_run = None, cm_created_at = now db, cm_content_type = CtSystem, cm_kind = Some kind,
       cm_chosen_option = None, cm_chosen_at = None, cm_chosen_by_user = None\<rparr>]\<rparr>"

text \<open>The inbox rows of a comment nobody authored: one for every user who is an admin of the team.\<close>

definition insertAdminMentions :: "string \<Rightarrow> string \<Rightarrow> hold_db \<Rightarrow> hold_db" where
  "insertAdminMentions team comment db = db\<lparr>admin_mentions := admin_mentions db @
     filter (\<lambda>m. m \<notin> set (admin_mentions db))
       (map (\<lambda>(u, _). (comment, u)) (filter (\<lambda>(u, is_superuser).
          (is_superuser \<or> list_ex (\<lambda>mu. mu_user mu = u \<and> list_ex (\<lambda>(i, t). i = mu_id mu \<and> t = team) (members db)) (member_users db))
          \<and> isAdminUserSql db (Some u) (Some team)) (users db)))\<rparr>"

definition postAdminNotice :: "string \<Rightarrow> string \<Rightarrow> string \<Rightarrow> hold_notice \<Rightarrow> hold_db \<Rightarrow> string option \<times> hold_db" where
  "postAdminNotice fresh team task notice db =
     (if list_ex (\<lambda>c. cm_content_type c = CtSystem \<and> cm_kind c = Some (nt_kind notice)
          \<and> after (cm_created_at c) (nt_unlessPostedSince notice)) (comments_on db task)
      then (None, db)
      else (Some fresh, insertAdminMentions team fresh (insertSystemComment fresh task (nt_kind notice) db)))"

text \<open>
  The loop over the candidates: the first one nothing holds is taken, a held one gives way to the
  next, and what is reported is the first hold met. The ids of the notices come from the database.
\<close>

fun pick_candidate ::
  "int \<Rightarrow> (hold_db \<Rightarrow> held_task \<Rightarrow> SuppressionExemption) \<Rightarrow> string \<Rightarrow> (held_task \<times> string) list \<Rightarrow> hold_db \<Rightarrow> held_task option \<times> suppression option \<times> hold_db" where
  "pick_candidate floor_min exempts member [] db = (None, None, db)"
| "pick_candidate floor_min exempts member ((candidate, fresh) # candidates) db =
     (case dispatchSuppression floor_min db member (ht_id candidate) (exempts db candidate) of
        None \<Rightarrow> (Some candidate, None, db)
      | Some held \<Rightarrow>
          (let db1 = (case su_notice held of None \<Rightarrow> db | Some n \<Rightarrow> snd (postAdminNotice fresh (ht_team candidate) (ht_id candidate) n db))
           in case pick_candidate floor_min exempts member candidates db1 of
                (task, _, db2) \<Rightarrow> (task, Some held, db2)))"

datatype activation = Dispatch held_task | Held WakeupSkipReason | NothingToDo

definition complete_wakeup :: "string \<Rightarrow> wakeup_db \<Rightarrow> wakeup_db" where
  "complete_wakeup i q = set_wakeups (\<lambda>w. w_id w = i) (\<lambda>w. w\<lparr>w_status := WCompleted, w_completed_at := Some (w_now q)\<rparr>) q"

definition stamp_heartbeat :: "string \<Rightarrow> hold_db \<Rightarrow> hold_db" where
  "stamp_heartbeat member db = db\<lparr>agents := map (\<lambda>a. if ag_id a = member then a\<lparr>ag_last_heartbeat_at := Some (now db)\<rparr> else a) (agents db)\<rparr>"

text \<open>Whether the wakeup is the Coach's review of a finished task, which nothing holds, is an argument.\<close>

definition apply_suppressions ::
  "int \<Rightarrow> bool \<Rightarrow> string \<Rightarrow> string \<Rightarrow> WakeupSource \<Rightarrow> payload \<Rightarrow> string \<Rightarrow> (held_task \<times> string) list \<Rightarrow> hold_db \<Rightarrow> activation \<times> hold_db" where
  "apply_suppressions floor_min coachReview member teamId source payload wakeupId candidates db =
     (let exempts = (\<lambda>db candidate. if coachReview then FULL_EXEMPTION
            else dispatchSuppressionExempt db member teamId (Some (ht_id candidate)) source payload (Some wakeupId))
      in case pick_candidate floor_min exempts member candidates db of
           (Some task, _, db1) \<Rightarrow> (Dispatch task, db1)
         | (None, Some held, db1) \<Rightarrow>
             (Held (su_reason held),
              (let db2 = stamp_heartbeat member (db1\<lparr>queue := markWakeupSkipped wakeupId (su_reason held) None (queue db1)\<rparr>)
               in db2\<lparr>queue := complete_wakeup wakeupId (queue db2)\<rparr>))
         | (None, None, db1) \<Rightarrow> (NothingToDo, db1))"

section \<open>The reply that resumes a held task\<close>

definition spoken_at :: "comment_row \<Rightarrow> int" where
  "spoken_at c = (case cm_chosen_at c of None \<Rightarrow> cm_created_at c | Some t \<Rightarrow> t)"

definition resume_target :: "hold_db \<Rightarrow> string \<Rightarrow> agent_row option" where
  "resume_target db commentId =
     (case find (\<lambda>c. cm_id c = commentId) (comments db) of
        None \<Rightarrow> None
      | Some c \<Rightarrow> (case find (\<lambda>t. ht_id t = cm_task c) (hold_tasks db) of
          None \<Rightarrow> None
        | Some t \<Rightarrow> (case find (\<lambda>ma. Some (ag_id ma) = ht_assignee t) (agents db) of
            None \<Rightarrow> None
          | Some ma \<Rightarrow>
              if (adminCommentSql db (Some (ht_team t)) c \<or> adminChoiceSql db (Some (ht_team t)) c)
                \<and> list_ex (\<lambda>n. cm_content_type n = CtSystem
                     \<and> (case cm_kind n of None \<Rightarrow> False | Some k \<Rightarrow> k \<in> set ADMIN_HOLD_NOTICE_KINDS)
                     \<and> cm_created_at n \<le> spoken_at c
                     \<and> after (cm_created_at n) (adminSpokeAtSql db (ht_id t) (Some (spoken_at c)))) (comments_on db (ht_id t))
              then Some ma else None)))"

definition resumeHeldTaskOnAdminReply ::
  "(wakeup_db \<Rightarrow> wakeup_db) \<Rightarrow> string \<Rightarrow> string \<Rightarrow> string \<Rightarrow> string \<Rightarrow> string list \<Rightarrow> payload \<Rightarrow> hold_db \<Rightarrow> string option \<times> hold_db" where
  "resumeHeldTaskOnAdminReply meanwhile fresh task team commentId alreadyWoken effort db =
     (case resume_target db commentId of
        None \<Rightarrow> (None, db)
      | Some ma \<Rightarrow>
          if ag_id ma \<in> set alreadyWoken then (None, db)
          else (Some (ag_slug ma),
            db\<lparr>queue := snd (createWakeup meanwhile fresh (ag_id ma) team Comment
               ([''source'' \<mapsto> Text ''comment'', ''task_id'' \<mapsto> Text task, ''comment_id'' \<mapsto> Text commentId] ++ effort)
               (Some (''resume:'' @ task @ '':'' @ commentId)) None (queue db))\<rparr>))"

lemma set_sort_by: "set (sort_by c xs) = set xs"
  by (metis mset_sort_by set_mset_mset)

section \<open>Instants\<close>

lemma latest_Nil [simp]: "latest [] = None"
  by (simp add: latest_def)

lemma latest_Cons [simp]: "latest (x # xs) = greatest_of x (latest xs)"
  by (simp add: latest_def)

lemma greatest_of_None [simp]: "greatest_of x None = x"
  by (cases x) simp_all

lemma greatest_of_assoc: "greatest_of (greatest_of x y) z = greatest_of x (greatest_of y z)"
  by (cases x; cases y; cases z) (simp_all add: max.assoc)

lemma greatest_of_cases: "greatest_of x y = x \<or> greatest_of x y = y"
  by (cases x; cases y) (auto simp: max_def)

lemma greatest_of_upper: "greatest_of x y = Some m \<Longrightarrow> x = Some t \<or> y = Some t \<Longrightarrow> t \<le> m"
  by (cases x; cases y) auto

lemma greatest_of_some: "x = Some t \<or> y = Some t \<Longrightarrow> \<exists>m. greatest_of x y = Some m \<and> t \<le> m"
  by (cases x; cases y) auto

lemma latest_append: "latest (xs @ ys) = greatest_of (latest xs) (latest ys)"
  by (induction xs) (simp_all add: greatest_of_assoc)

lemma latest_upper: "Some t \<in> set xs \<Longrightarrow> \<exists>m. latest xs = Some m \<and> t \<le> m"
proof (induction xs)
  case (Cons x xs)
  show ?case
  proof (cases "x = Some t")
    case False
    then obtain m where "latest xs = Some m" "t \<le> m" using Cons by auto
    moreover from this obtain n where "greatest_of x (latest xs) = Some n" "m \<le> n" using greatest_of_some by blast
    ultimately show ?thesis by auto
  qed (simp add: greatest_of_some)
qed simp

lemma latest_member: "latest xs = Some m \<Longrightarrow> Some m \<in> set xs"
proof (induction xs)
  case (Cons x xs)
  then show ?case using greatest_of_cases [of x "latest xs"] by auto
qed simp

lemma latest_empty: "latest xs = None \<Longrightarrow> Some t \<notin> set xs"
  using latest_upper by fastforce

lemma after_trans: "after s since \<Longrightarrow> s \<le> t \<Longrightarrow> after t since"
  by (auto simp: after_def split: option.splits)

section \<open>The admin's word\<close>

lemma admin_comment_person: "adminCommentSql db team c \<Longrightarrow> personCommentSql c"
  by (auto simp: adminCommentSql_def personCommentSql_def)

lemma admin_choice_person: "adminChoiceSql db team c \<Longrightarrow> personChoiceSql db c"
  by (auto simp: adminChoiceSql_def personChoiceSql_def)

lemma legacy_admin_person: "legacyActorSql db actor (Some team) \<Longrightarrow> legacyActorSql db actor None"
  by (auto simp: legacyActorSql_def list_ex_iff)

lemma actor_admin_person: "actorIsAdminSql db actor team \<Longrightarrow> actorIsPersonSql db actor"
  using legacy_admin_person by (auto simp: actorIsAdminSql_def actorIsPersonSql_def isAdminUserSql_def split: option.splits)

lemma spoke_admin_person: "spokeSinceSql db task since (Some team) \<Longrightarrow> spokeSinceSql db task since None"
  using admin_comment_person admin_choice_person by (fastforce simp: spokeSinceSql_def list_ex_iff Let_def)

text \<open>What only the admin may lift, the admin lifts as a person.\<close>

lemma exempt_ordered:
  "byAdmin (dispatchSuppressionExempt db member team task source payload wakeup) \<Longrightarrow>
   byPerson (dispatchSuppressionExempt db member team task source payload wakeup)"
  using actor_admin_person spoke_admin_person
  by (auto simp: dispatchSuppressionExempt_def Let_def NO_EXEMPTION_def split: if_splits)

lemma earlier_any [simp]: "earlier t None"
  by (simp add: earlier_def)

text \<open>The instants at which the admin spoke, one per comment and one per answered card.\<close>

definition admin_words :: "hold_db \<Rightarrow> string \<Rightarrow> string \<Rightarrow> int set" where
  "admin_words db team task =
     {t. \<exists>c \<in> set (comments_on db task). adminCommentSql db (Some team) c \<and> t = cm_created_at c
           \<or> adminChoiceSql db (Some team) c \<and> cm_chosen_at c = Some t}"

lemma admin_spoke_words:
  assumes "task_team db task = Some team"
  shows "adminSpokeAtSql db task before = Some a \<Longrightarrow> a \<in> admin_words db team task \<and> earlier (Some a) before"
    and "t \<in> admin_words db team task \<Longrightarrow> earlier (Some t) before \<Longrightarrow> \<exists>a. adminSpokeAtSql db task before = Some a \<and> t \<le> a"
proof -
  let ?said = "\<lambda>sc. if adminCommentSql db (Some team) sc \<and> earlier (Some (cm_created_at sc)) before then Some (cm_created_at sc) else None"
  let ?chose = "\<lambda>sc. if adminChoiceSql db (Some team) sc \<and> earlier (cm_chosen_at sc) before then cm_chosen_at sc else None"
  let ?word = "\<lambda>sc. greatest_of (?said sc) (?chose sc)"
  let ?cs = "filter (\<lambda>sc. personCommentSql sc \<or> personChoiceSql db sc) (comments_on db task)"
  have spoke: "adminSpokeAtSql db task before = latest (map ?word ?cs)" by (simp add: adminSpokeAtSql_def assms)
  show "a \<in> admin_words db team task \<and> earlier (Some a) before" if said: "adminSpokeAtSql db task before = Some a"
  proof -
    obtain c where c: "c \<in> set (comments_on db task)" "?word c = Some a" using latest_member [OF said [unfolded spoke]] by auto
    then have "?said c = Some a \<or> ?chose c = Some a" using greatest_of_cases [of "?said c" "?chose c"] by argo
    then show ?thesis
    proof
      assume "?said c = Some a"
      then have "adminCommentSql db (Some team) c \<and> a = cm_created_at c \<and> earlier (Some a) before" by (auto split: if_splits)
      then show ?thesis using c(1) unfolding admin_words_def by blast
    next
      assume "?chose c = Some a"
      then have "adminChoiceSql db (Some team) c \<and> cm_chosen_at c = Some a \<and> earlier (Some a) before" by (auto split: if_splits)
      then show ?thesis using c(1) unfolding admin_words_def by blast
    qed
  qed
  show "\<exists>a. adminSpokeAtSql db task before = Some a \<and> t \<le> a" if t: "t \<in> admin_words db team task" "earlier (Some t) before"
  proof -
    obtain c where c: "c \<in> set (comments_on db task)"
      "adminCommentSql db (Some team) c \<and> t = cm_created_at c \<or> adminChoiceSql db (Some team) c \<and> cm_chosen_at c = Some t"
      using t(1) by (auto simp: admin_words_def)
    then have "c \<in> set ?cs" using admin_comment_person admin_choice_person by fastforce
    then have word: "?word c \<in> set (map ?word ?cs)" unfolding set_map by (rule imageI)
    have "?said c = Some t \<or> ?chose c = Some t" using c(2) t(2) by auto
    then obtain m where m: "?word c = Some m" "t \<le> m" using greatest_of_some [of "?said c" t "?chose c"] by blast
    then show ?thesis using latest_upper [OF word [unfolded m(1)]] order_trans unfolding spoke by blast
  qed
qed

lemma spoke_since_words:
  "spokeSinceSql db (Some task) since (Some (Some team)) \<longleftrightarrow> (\<exists>t \<in> admin_words db team task. after t since)"
proof
  assume "spokeSinceSql db (Some task) since (Some (Some team))"
  then obtain c where c: "c \<in> set (comments_on db task)"
    "adminCommentSql db (Some team) c \<and> after (cm_created_at c) since \<or> adminChoiceSql db (Some team) c \<and> option_after (cm_chosen_at c) since"
    by (auto simp: spokeSinceSql_def comments_on_def list_ex_iff)
  then show "\<exists>t \<in> admin_words db team task. after t since"
    by (cases "cm_chosen_at c") (auto simp: admin_words_def option_after_def)
next
  assume "\<exists>t \<in> admin_words db team task. after t since"
  then show "spokeSinceSql db (Some task) since (Some (Some team))"
    by (auto simp: spokeSinceSql_def admin_words_def comments_on_def list_ex_iff option_after_def)
qed

lemma spoke_since_admin:
  assumes "task_team db task = Some team"
  shows "spokeSinceSql db (Some task) since (Some (Some team)) \<longleftrightarrow> (\<exists>a. adminSpokeAtSql db task None = Some a \<and> after a since)"
  using spoke_since_words [of db task since team] admin_spoke_words [OF assms, where before = None] after_trans earlier_any by blast

section \<open>Hard stops and the admin\<close>

definition hard_stopped :: "hold_db \<Rightarrow> string \<Rightarrow> bool" where
  "hard_stopped db task \<longleftrightarrow> handoffHold (loadTaskSpend db task) \<noteq> None
     \<or> tokenCeilingHold (loadTaskSpend db task) \<noteq> None \<or> runSizeStopHold (loadTaskSpend db task) \<noteq> None"

lemma suppression_full: "byPerson e \<Longrightarrow> byAdmin e \<Longrightarrow> dispatchSuppression floor_min db member task e = None"
  by (simp add: dispatchSuppression_def noWorkCooldownActive_def parkedOnAdminAsk_def attemptsExhaustedOnTask_def retrospectiveHoldActive_def)

lemma suppression_hard: "\<not> byAdmin e \<Longrightarrow> hard_stopped db task \<Longrightarrow> dispatchSuppression floor_min db member task e \<noteq> None"
  by (auto simp: dispatchSuppression_def hard_stopped_def Let_def split: option.splits)

text \<open>
  The admin is behind a wakeup he pressed, or whose decision is his and was not folded with what an agent
  raised; the other wakeups that can be lifted are talk: a mention, a comment or a reply, or a decision an
  agent's mention was folded into.
\<close>

definition admin_behind :: "hold_db \<Rightarrow> string \<Rightarrow> WakeupSource \<Rightarrow> payload \<Rightarrow> string option \<Rightarrow> bool" where
  "admin_behind db team source payload wakeup \<longleftrightarrow>
     (if is_object (payload ''triggered_by'') then actorIsAdminSql db (payload ''triggered_by'') (Some team)
      else source \<in> set DECISION_SOURCES \<and> wake_run db wakeup = None \<and> actorIsAdminSql db (payload ''decided_by'') (Some team))"

definition talk :: "hold_db \<Rightarrow> WakeupSource \<Rightarrow> payload \<Rightarrow> string option \<Rightarrow> bool" where
  "talk db source payload wakeup \<longleftrightarrow> \<not> is_object (payload ''triggered_by'')
     \<and> (source \<in> set CONVERSATIONAL_SOURCES \<or> source \<in> set DECISION_SOURCES \<and> wake_run db wakeup \<noteq> None)"

lemma sources_apart: "source \<in> set CONVERSATIONAL_SOURCES \<Longrightarrow> source \<notin> set DECISION_SOURCES"
  by (auto simp: CONVERSATIONAL_SOURCES_def DECISION_SOURCES_def)

lemma exempt_admin:
  assumes "task_team db task = Some team" and "task \<noteq> []"
  shows "byAdmin (dispatchSuppressionExempt db member teamId (Some task) source payload wakeup) \<longleftrightarrow>
     admin_behind db team source payload wakeup
     \<or> talk db source payload wakeup \<and> (\<exists>a. adminSpokeAtSql db task None = Some a \<and> after a (last_ran db member (Some task)))"
  using assms(2) spoke_since_admin [OF assms(1)] sources_apart
  by (auto simp: dispatchSuppressionExempt_def admin_behind_def talk_def Let_def NO_EXEMPTION_def truthy_def assms(1))

lemma lifted_by_word:
  assumes "adminSpokeAtSql db task None = Some a" and "\<forall>r \<in> set (runs_on db task). \<forall>s. hr_started_at r = Some s \<longrightarrow> s \<le> a"
  shows "\<not> hard_stopped db task"
proof -
  have none: "filter (\<lambda>r. option_after (hr_started_at r) (Some a)) (started_runs db task) = []"
    using assms(2) by (auto simp: filter_empty_conv started_runs_def option_after_def after_def split: option.splits)
  have "recent_runs db task = []"
    using none by (auto simp: recent_runs_def assms(1) sort_by_def filter_empty_conv)
  moreover have "filter (\<lambda>r. option_after (hr_started_at r) (Some a) \<and> P r) (started_runs db task) = []" for P
    using none by (auto simp: filter_empty_conv)
  ultimately show ?thesis using none
    by (simp add: hard_stopped_def loadTaskSpend_def Let_def assms(1) handoffHold_def tokenCeilingHold_def runSizeStopHold_def handoff_chain_def TASK_TOKEN_CEILING_def)
qed

definition ran_since_admin :: "hold_db \<Rightarrow> string \<Rightarrow> string \<Rightarrow> bool" where
  "ran_since_admin db member task \<longleftrightarrow> (case adminSpokeAtSql db task None of
     None \<Rightarrow> True
   | Some a \<Rightarrow> list_ex (\<lambda>r. hr_member r = member \<and> hr_cancel_reason r \<noteq> Some HandedBack
       \<and> (case hr_started_at r of None \<Rightarrow> False | Some s \<Rightarrow> a \<le> s)) (runs_on db task))"

lemma all_before:
  "(\<forall>s. Some s \<in> set (map f xs) \<longrightarrow> s < a) \<longleftrightarrow> \<not> list_ex (\<lambda>r. case f r of None \<Rightarrow> False | Some s \<Rightarrow> (a :: int) \<le> s) xs"
  by (induction xs) (auto split: option.splits)

lemma ran_since_admin:
  "(\<exists>a. adminSpokeAtSql db task None = Some a \<and> after a (last_ran db member (Some task))) \<longleftrightarrow> \<not> ran_since_admin db member task"
proof (cases "adminSpokeAtSql db task None")
  case (Some a)
  let ?mine = "filter (\<lambda>r. Some task \<noteq> None \<and> hr_task r = Some task \<and> hr_member r = member \<and> hr_cancel_reason r \<noteq> Some HandedBack) (runs db)"
  have last: "last_ran db member (Some task) = latest (map hr_started_at ?mine)" by (simp add: last_ran_def)
  have "after a (latest (map hr_started_at ?mine)) \<longleftrightarrow> (\<forall>s. Some s \<in> set (map hr_started_at ?mine) \<longrightarrow> s < a)"
  proof
    assume late: "after a (latest (map hr_started_at ?mine))"
    show "\<forall>s. Some s \<in> set (map hr_started_at ?mine) \<longrightarrow> s < a"
    proof (intro allI impI)
      fix s assume "Some s \<in> set (map hr_started_at ?mine)"
      from latest_upper [OF this] show "s < a" using late by (auto simp: after_def)
    qed
  next
    assume "\<forall>s. Some s \<in> set (map hr_started_at ?mine) \<longrightarrow> s < a"
    then show "after a (latest (map hr_started_at ?mine))" using latest_member [of "map hr_started_at ?mine"] by (auto simp: after_def split: option.split)
  qed
  also have "\<dots> \<longleftrightarrow> \<not> list_ex (\<lambda>r. case hr_started_at r of None \<Rightarrow> False | Some s \<Rightarrow> a \<le> s) ?mine"
    by (rule all_before)
  also have "list_ex (\<lambda>r. case hr_started_at r of None \<Rightarrow> False | Some s \<Rightarrow> a \<le> s) ?mine = ran_since_admin db member task"
    by (auto simp: ran_since_admin_def Some runs_on_def list_ex_iff)
  finally show ?thesis using Some unfolding last by simp
qed (simp add: ran_since_admin_def)

section \<open>Posting a comment\<close>

definition post_comment :: "comment_row \<Rightarrow> hold_db \<Rightarrow> hold_db" where
  "post_comment c db = db\<lparr>comments := comments db @ [c]\<rparr>"

lemma posted [simp]:
  "comments (post_comment c db) = comments db @ [c]" "runs (post_comment c db) = runs db" "queue (post_comment c db) = queue db"
  "users (post_comment c db) = users db" "member_users (post_comment c db) = member_users db" "members (post_comment c db) = members db"
  "agents (post_comment c db) = agents db" "hold_tasks (post_comment c db) = hold_tasks db"
  "admin_mentions (post_comment c db) = admin_mentions db" "choice_attribution_from (post_comment c db) = choice_attribution_from db"
  by (simp_all add: post_comment_def)

lemma posted_reads [simp]:
  "isAdminUserSql (post_comment c db) = isAdminUserSql db" "runs_on (post_comment c db) = runs_on db"
  "task_team (post_comment c db) = task_team db" "now (post_comment c db) = now db"
  "preAttributionChoiceSql (post_comment c db) = preAttributionChoiceSql db"
  unfolding fun_eq_iff isAdminUserSql_def runs_on_def task_team_def now_def preAttributionChoiceSql_def posted by simp_all

lemma posted_words [simp]:
  "adminCommentSql (post_comment c db) = adminCommentSql db" "adminChoiceSql (post_comment c db) = adminChoiceSql db"
  "personChoiceSql (post_comment c db) = personChoiceSql db"
  "comments_on (post_comment c db) task = comments_on db task @ (if cm_task c = task then [c] else [])"
  by (simp_all add: fun_eq_iff adminCommentSql_def adminChoiceSql_def personChoiceSql_def comments_on_def)

lemma admin_words_posted:
  "cm_task c = task \<Longrightarrow> cm_chosen_at c = None \<Longrightarrow> adminCommentSql db (Some team) c \<Longrightarrow>
   admin_words (post_comment c db) team task = insert (cm_created_at c) (admin_words db team task)"
  by (auto simp: admin_words_def)

text \<open>A run and an admin's comment: the comment is the admin's last word, and every run came before it.\<close>

lemma admin_word_last:
  assumes "cm_task c = task" and "cm_chosen_at c = None" and "task_team db task = Some team" and "adminCommentSql db (Some team) c"
    and "\<forall>w \<in> admin_words db team task. w \<le> cm_created_at c"
  shows "adminSpokeAtSql (post_comment c db) task None = Some (cm_created_at c)"
proof -
  have words: "admin_words (post_comment c db) team task = insert (cm_created_at c) (admin_words db team task)"
    using admin_words_posted assms by blast
  have team: "task_team (post_comment c db) task = Some team" using assms by simp
  obtain a where a: "adminSpokeAtSql (post_comment c db) task None = Some a" "cm_created_at c \<le> a"
    using admin_spoke_words(2) [OF team, of "cm_created_at c" None] words by auto
  moreover have "a \<le> cm_created_at c" using admin_spoke_words(1) [OF team a(1)] words assms(5) by auto
  ultimately show ?thesis by simp
qed

section \<open>Reading a task through other tasks' notices\<close>

text \<open>Two databases that differ only in what was said on other tasks.\<close>

definition same_for :: "string \<Rightarrow> hold_db \<Rightarrow> hold_db \<Rightarrow> bool" where
  "same_for task db db' \<longleftrightarrow> (\<exists>cs ms. db' = db\<lparr>comments := cs, admin_mentions := ms\<rparr>
     \<and> filter (\<lambda>c. cm_task c = task) cs = comments_on db task
     \<and> (\<forall>c \<in> set (comments_on db task). (\<exists>u. (cm_id c, u) \<in> set ms) \<longleftrightarrow> (\<exists>u. (cm_id c, u) \<in> set (admin_mentions db))))"

lemma same_for_refl: "same_for task db db"
  unfolding same_for_def by (rule exI [of _ "comments db"], rule exI [of _ "admin_mentions db"]) (simp add: comments_on_def)

lemma same_for_trans:
  assumes "same_for task db db'" and "same_for task db' db''"
  shows "same_for task db db''"
proof -
  obtain cs ms where 1: "db' = db\<lparr>comments := cs, admin_mentions := ms\<rparr>" "filter (\<lambda>c. cm_task c = task) cs = comments_on db task"
    "\<forall>c \<in> set (comments_on db task). (\<exists>u. (cm_id c, u) \<in> set ms) \<longleftrightarrow> (\<exists>u. (cm_id c, u) \<in> set (admin_mentions db))"
    using assms(1) by (auto simp: same_for_def)
  have on: "comments_on db' task = comments_on db task" using 1(1,2) by (simp add: comments_on_def)
  obtain cs' ms' where 2: "db'' = db'\<lparr>comments := cs', admin_mentions := ms'\<rparr>" "filter (\<lambda>c. cm_task c = task) cs' = comments_on db task"
    "\<forall>c \<in> set (comments_on db task). (\<exists>u. (cm_id c, u) \<in> set ms') \<longleftrightarrow> (\<exists>u. (cm_id c, u) \<in> set (admin_mentions db'))"
    using assms(2) by (auto simp: same_for_def on)
  have "db'' = db\<lparr>comments := cs', admin_mentions := ms'\<rparr>" using 1(1) 2(1) by simp
  moreover have "admin_mentions db' = ms" using 1(1) by simp
  ultimately show ?thesis unfolding same_for_def using 1(3) 2(2,3) by (intro exI [of _ cs'] exI [of _ ms']) simp
qed

lemma same_for_reads:
  assumes "same_for task db db'"
  shows "isAdminUserSql db' = isAdminUserSql db" "preAttributionChoiceSql db' = preAttributionChoiceSql db" "comments_on db' task = comments_on db task"
    "runs db' = runs db" "queue db' = queue db" "agents db' = agents db" "task_team db' = task_team db" "now db' = now db"
    "member_users db' = member_users db"
proof -
  obtain cs ms where d: "db' = db\<lparr>comments := cs, admin_mentions := ms\<rparr>" "filter (\<lambda>c. cm_task c = task) cs = comments_on db task"
    using assms by (auto simp: same_for_def)
  have tables: "users db' = users db" "members db' = members db" "member_users db' = member_users db" "hold_tasks db' = hold_tasks db"
    "queue db' = queue db" "choice_attribution_from db' = choice_attribution_from db"
    by (simp_all add: d(1))
  show "isAdminUserSql db' = isAdminUserSql db" "preAttributionChoiceSql db' = preAttributionChoiceSql db" "comments_on db' task = comments_on db task"
    "runs db' = runs db" "queue db' = queue db" "agents db' = agents db" "task_team db' = task_team db" "now db' = now db" "member_users db' = member_users db"
    using d(2) unfolding fun_eq_iff isAdminUserSql_def preAttributionChoiceSql_def task_team_def now_def tables by (simp_all add: comments_on_def d(1))
qed

lemma same_for_words:
  assumes "same_for task db db'"
  shows "adminCommentSql db' = adminCommentSql db" "adminChoiceSql db' = adminChoiceSql db" "personChoiceSql db' = personChoiceSql db"
    "actorIsAdminSql db' = actorIsAdminSql db" "actorIsPersonSql db' = actorIsPersonSql db"
    "adminSpokeAtSql db' task = adminSpokeAtSql db task" "personSpokeAtSql db' task = personSpokeAtSql db task"
proof -
  note reads = same_for_reads [OF assms]
  show comment: "adminCommentSql db' = adminCommentSql db" and choice: "adminChoiceSql db' = adminChoiceSql db" and person: "personChoiceSql db' = personChoiceSql db"
    by (simp_all add: fun_eq_iff adminCommentSql_def adminChoiceSql_def personChoiceSql_def reads)
  have "legacyActorSql db' = legacyActorSql db" unfolding fun_eq_iff legacyActorSql_def reads by simp
  then show "actorIsAdminSql db' = actorIsAdminSql db" "actorIsPersonSql db' = actorIsPersonSql db"
    by (simp_all add: fun_eq_iff actorIsAdminSql_def actorIsPersonSql_def reads)
  show "adminSpokeAtSql db' task = adminSpokeAtSql db task" unfolding fun_eq_iff adminSpokeAtSql_def reads comment choice person by simp
  show "personSpokeAtSql db' task = personSpokeAtSql db task" by (simp add: personSpokeAtSql_def reads person)
qed

lemma spoke_since_on:
  "spokeSinceSql db (Some task) since team = list_ex (\<lambda>sc.
     (case team of Some tm \<Rightarrow> adminCommentSql db tm sc | None \<Rightarrow> personCommentSql sc) \<and> after (cm_created_at sc) since
     \<or> (case team of Some tm \<Rightarrow> adminChoiceSql db tm sc | None \<Rightarrow> personChoiceSql db sc) \<and> option_after (cm_chosen_at sc) since) (comments_on db task)"
  by (auto simp: spokeSinceSql_def comments_on_def list_ex_iff Let_def split: option.splits)

lemma same_for_exempt:
  assumes "same_for task db db'"
  shows "dispatchSuppressionExempt db' member team (Some task) source payload wakeup = dispatchSuppressionExempt db member team (Some task) source payload wakeup"
  unfolding dispatchSuppressionExempt_def last_ran_def wake_run_def spoke_since_on same_for_reads [OF assms] same_for_words [OF assms] bind.simps by simp

lemma same_for_spend:
  assumes "same_for task db db'"
  shows "loadTaskSpend db' task = loadTaskSpend db task"
proof -
  note reads = same_for_reads [OF assms] same_for_words [OF assms]
  have started: "started_runs db' task = started_runs db task" by (simp add: started_runs_def runs_on_def reads)
  have handoff: "is_handoff db' task = is_handoff db task"
    unfolding fun_eq_iff is_handoff_def wakeup_of_def adminTriggeredSql_def reads by simp
  have slug: "agent_slug db' = agent_slug db" by (simp add: fun_eq_iff agent_slug_def reads)
  have "admin_run_at db' task = admin_run_at db task" unfolding admin_run_at_def wakeup_of_def adminTriggeredSql_def started reads ..
  moreover have "handoff_chain db' task = handoff_chain db task" unfolding handoff_chain_def recent_runs_def started handoff reads ..
  ultimately show ?thesis unfolding loadTaskSpend_def started reads slug by simp
qed

lemma same_for_suppression:
  assumes "same_for task db db'"
  shows "dispatchSuppression floor_min db' member task e = dispatchSuppression floor_min db member task e"
proof -
  note reads = same_for_reads [OF assms] same_for_words [OF assms]
  obtain cs ms where d: "db' = db\<lparr>comments := cs, admin_mentions := ms\<rparr>"
    and m: "\<forall>c \<in> set (comments_on db task). (\<exists>u. (cm_id c, u) \<in> set ms) \<longleftrightarrow> (\<exists>u. (cm_id c, u) \<in> set (admin_mentions db))"
    using assms by (auto simp: same_for_def)
  have ask: "outstandingAdminAskExistsSql db' c = outstandingAdminAskExistsSql db c" if "c \<in> set (comments_on db task)" for c
    using bspec [OF m that] by (force simp: outstandingAdminAskExistsSql_def d list_ex_iff)
  have "noWorkCooldownActive floor_min db' member (Some task) x = noWorkCooldownActive floor_min db member (Some task) x" for x
    unfolding noWorkCooldownActive_def newest_finished_def option.sel reads ..
  moreover have "parkedOnAdminAsk db' member (Some task) x = parkedOnAdminAsk db member (Some task) x" for x
    using ask by (auto simp: parkedOnAdminAsk_def newest_other_def list_ex_iff reads)
  moreover have "attemptsExhaustedOnTask db' member (Some task) x = attemptsExhaustedOnTask db member (Some task) x" for x
    unfolding attemptsExhaustedOnTask_def attempts_def last_success_def runs_on_def option.sel reads ..
  moreover have "retrospectiveHoldActive db' (Some task) x = retrospectiveHoldActive db (Some task) x" for x
    unfolding retrospectiveHoldActive_def finding_at_def option.sel reads ..
  ultimately show ?thesis by (simp add: dispatchSuppression_def same_for_spend [OF assms] Let_def)
qed

lemma mentions_of_others:
  "i \<noteq> fresh \<Longrightarrow> (\<exists>u. (i, u) \<in> set (admin_mentions (insertAdminMentions team fresh db))) \<longleftrightarrow> (\<exists>u. (i, u) \<in> set (admin_mentions db))"
  by (auto simp: insertAdminMentions_def)

lemma notice_elsewhere:
  assumes "task' \<noteq> task" and "\<forall>c \<in> set (comments db). cm_id c \<noteq> fresh"
  shows "same_for task' db (snd (postAdminNotice fresh team task n db))"
proof (cases "fst (postAdminNotice fresh team task n db)")
  case None
  then show ?thesis by (auto simp: postAdminNotice_def same_for_refl split: if_splits)
next
  case (Some i)
  let ?db1 = "insertSystemComment fresh task (nt_kind n) db"
  let ?db2 = "insertAdminMentions team fresh ?db1"
  have posted: "snd (postAdminNotice fresh team task n db) = ?db2" using Some by (auto simp: postAdminNotice_def split: if_splits)
  have "?db2 = db\<lparr>comments := comments ?db1, admin_mentions := admin_mentions ?db2\<rparr>"
    by (simp add: insertAdminMentions_def insertSystemComment_def)
  moreover have "filter (\<lambda>c. cm_task c = task') (comments ?db1) = comments_on db task'"
    using assms(1) by (simp add: insertSystemComment_def comments_on_def)
  moreover have "(\<exists>u. (cm_id c, u) \<in> set (admin_mentions ?db2)) \<longleftrightarrow> (\<exists>u. (cm_id c, u) \<in> set (admin_mentions db))"
    if "c \<in> set (comments_on db task')" for c
  proof -
    have "cm_id c \<noteq> fresh" using that assms(2) by (simp add: comments_on_def)
    then show ?thesis using mentions_of_others [of "cm_id c" fresh team ?db1] by (simp add: insertSystemComment_def)
  qed
  ultimately show ?thesis unfolding posted same_for_def by blast
qed

section \<open>The candidates of a wakeup\<close>

lemma notice_comments:
  "c \<in> set (comments (snd (postAdminNotice fresh team task n db))) \<Longrightarrow> c \<in> set (comments db) \<or> cm_id c = fresh"
  by (auto simp: postAdminNotice_def insertAdminMentions_def insertSystemComment_def split: if_splits)

lemma pick_finds:
  assumes frame: "\<And>db db' t. same_for (ht_id t) db db' \<Longrightarrow> exempts db' t = exempts db t"
  shows "distinct (map (ht_id \<circ> fst) cands) \<Longrightarrow> distinct (map snd cands) \<Longrightarrow>
     \<forall>c \<in> set (comments db). cm_id c \<notin> snd ` set cands \<Longrightarrow>
     fst (pick_candidate floor_min exempts member cands db)
       = find (\<lambda>t. dispatchSuppression floor_min db member (ht_id t) (exempts db t) = None) (map fst cands)"
proof (induction cands arbitrary: db)
  case (Cons c cands)
  obtain t i where c: "c = (t, i)" by (cases c)
  show ?case
  proof (cases "dispatchSuppression floor_min db member (ht_id t) (exempts db t)")
    case None
    then show ?thesis by (simp add: c)
  next
    case (Some held)
    define db1 where "db1 = (case su_notice held of None \<Rightarrow> db | Some n \<Rightarrow> snd (postAdminNotice i (ht_team t) (ht_id t) n db))"
    have "k \<in> set (comments db) \<or> cm_id k = i" if "k \<in> set (comments db1)" for k
      using that notice_comments by (auto simp: db1_def split: option.splits)
    moreover have "i \<notin> snd ` set cands" using Cons.prems(2) by (simp add: c)
    ultimately have ids: "\<forall>c \<in> set (comments db1). cm_id c \<notin> snd ` set cands" using Cons.prems(3) by auto
    have same: "same_for (ht_id u) db db1" if "u \<in> fst ` set cands" for u
    proof -
      have other: "ht_id u \<noteq> ht_id t" using that Cons.prems(1) by (fastforce simp: c image_iff)
      have "\<forall>k \<in> set (comments db). cm_id k \<noteq> i" using Cons.prems(3) by (auto simp: c)
      from notice_elsewhere [OF other this] show ?thesis by (cases "su_notice held") (simp_all add: db1_def same_for_refl)
    qed
    have "fst (pick_candidate floor_min exempts member (c # cands) db) = fst (pick_candidate floor_min exempts member cands db1)"
      by (simp add: c Some db1_def Let_def split: prod.split)
    also have "\<dots> = find (\<lambda>t. dispatchSuppression floor_min db1 member (ht_id t) (exempts db1 t) = None) (map fst cands)"
      using Cons.IH [OF _ _ ids] Cons.prems(1,2) by (simp add: c)
    also have "\<dots> = find (\<lambda>t. dispatchSuppression floor_min db member (ht_id t) (exempts db t) = None) (map fst cands)"
    proof (rule find_cong [OF refl])
      fix u assume "u \<in> set (map fst cands)"
      then have "same_for (ht_id u) db db1" using same by simp
      from same_for_suppression [OF this] frame [OF this]
      show "(dispatchSuppression floor_min db1 member (ht_id u) (exempts db1 u) = None) = (dispatchSuppression floor_min db member (ht_id u) (exempts db u) = None)" by simp
    qed
    finally show ?thesis by (simp add: c Some)
  qed
qed simp

lemma pick_reports:
  "fst (snd (pick_candidate floor_min exempts member ((t, i) # cands) db)) = dispatchSuppression floor_min db member (ht_id t) (exempts db t)"
  by (cases "dispatchSuppression floor_min db member (ht_id t) (exempts db t)") (simp_all add: Let_def split: prod.split)

lemma complete_settles:
  "list_all (\<lambda>w. w_id w = i \<longrightarrow> w_status w = WCompleted) (wakeups (complete_wakeup i q))"
proof -
  have "list_all (\<lambda>w. w_id w = i \<longrightarrow> w_status w = WCompleted)
      (map (\<lambda>w. if w_id w = i then w\<lparr>w_status := WCompleted, w_completed_at := t\<rparr> else w) ws)" for t ws
    by (induction ws) simp_all
  then show ?thesis by (simp add: complete_wakeup_def set_wakeups_def)
qed

section \<open>Properties\<close>

text \<open>
  (C13) What gets a task past a hard stop - eight handoff rounds, the token ceiling, a run stopped for its size.
  A wakeup is dispatched exactly when the admin is behind it - he pressed it, or he made the decision it carries and
  no agent's mention was folded into it - or when nobody pressed it, it is a mention, a comment, a reply or a
  decision an agent's mention was folded into, and the agent has not run on the task since the admin's last word on it.
  So a decision an agent made, a press by anybody else and what the system raises lift nothing, and an agent that
  has run since the admin spoke waits for him whatever wakes it; one that has not is let through, although the
  notice says that no agent will run.
\<close>

theorem stopped_agents_wait:
  assumes "task_team db task = Some team" and "task \<noteq> []" and "hard_stopped db task"
  shows "dispatchSuppression floor_min db member task (dispatchSuppressionExempt db member teamId (Some task) source payload wakeup) = None
    \<longleftrightarrow> admin_behind db team source payload wakeup \<or> talk db source payload wakeup \<and> \<not> ran_since_admin db member task"
    (is "?held = None \<longleftrightarrow> ?through")
proof -
  have admin: "byAdmin (dispatchSuppressionExempt db member teamId (Some task) source payload wakeup) \<longleftrightarrow> ?through"
    using exempt_admin [OF assms(1,2)] ran_since_admin by simp
  show ?thesis
  proof
    assume "?held = None"
    then show ?through using suppression_hard [OF _ assms(3)] admin by blast
  next
    assume ?through
    then show "?held = None" using suppression_full [OF exempt_ordered] admin by blast
  qed
qed

text \<open>
  (Lemma) The retrospective's brake waits for a person. Whatever comment arrives on a held task, the hold goes exactly when
  a person wrote it after the finding; an agent's answer leaves it standing.
\<close>

theorem retrospective_waits_for_person:
  assumes "retrospectiveHoldActive db (Some task) False" and "finding_at db task = Some f"
    and "cm_task c = task" and "cm_chosen_at c = None" and "personChoiceSql db c = False" and "personCommentSql c \<Longrightarrow> cm_created_by_run c = None"
  shows "retrospectiveHoldActive (post_comment c db) (Some task) False \<longleftrightarrow> \<not> (personCommentSql c \<and> f < cm_created_at c)"
proof -
  have task: "task \<noteq> []" using assms(1) by (auto simp: retrospectiveHoldActive_def truthy_def)
  have spoke: "personSpokeAtSql (post_comment c db) task
      = greatest_of (personSpokeAtSql db task) (if personCommentSql c then Some (cm_created_at c) else None)"
    using assms(3,4,5) by (simp add: personSpokeAtSql_def latest_append)
  have found: "finding_at (post_comment c db) task = greatest_of (finding_at db task)
      (if list_ex (\<lambda>r. Some (hr_id r) = cm_created_by_run c \<and> hr_kind r = Retrospective) (runs db) then Some (cm_created_at c) else None)"
    using assms(3) by (simp add: finding_at_def latest_append)
  have held: "\<And>p. personSpokeAtSql db task = Some p \<Longrightarrow> p \<le> f"
    using assms(1,2) by (auto simp: retrospectiveHoldActive_def split: if_splits)
  show ?thesis
  proof (cases "personCommentSql c")
    case True
    then have "\<not> list_ex (\<lambda>r. Some (hr_id r) = cm_created_by_run c \<and> hr_kind r = Retrospective) (runs db)"
      using assms(6) by (simp add: list_ex_iff)
    then show ?thesis using True task held by (cases "personSpokeAtSql db task") (auto simp: retrospectiveHoldActive_def truthy_def spoke found assms(2))
  next
    case False
    then show ?thesis using task held by (cases "personSpokeAtSql db task") (auto simp: retrospectiveHoldActive_def truthy_def spoke found assms(2))
  qed
qed

text \<open>
  (Lemma) A heartbeat is not stalled by a held task. Of the candidates the first one nothing holds is dispatched, judged as
  the database stood before any notice was posted; when every one is held the first one's reason is reported and the wakeup is completed.
\<close>

theorem first_free_candidate:
  assumes "distinct (map (ht_id \<circ> fst) cands)" and "distinct (map snd cands)" and "\<forall>c \<in> set (comments db). cm_id c \<notin> snd ` set cands"
    and "cands = (t0, i0) # rest"
    and "held = (\<lambda>t. dispatchSuppression floor_min db member (ht_id t)
            (dispatchSuppressionExempt db member teamId (Some (ht_id t)) source payload (Some wakeup)))"
    and "apply_suppressions floor_min False member teamId source payload wakeup cands db = (outcome, db')"
  shows "outcome = (case find (\<lambda>t. held t = None) (map fst cands) of
            Some t \<Rightarrow> Dispatch t | None \<Rightarrow> Held (su_reason (the (held t0))))
    \<and> ((\<exists>reason. outcome = Held reason) \<longrightarrow> list_all (\<lambda>w. w_id w = wakeup \<longrightarrow> w_status w = WCompleted) (wakeups (queue db')))"
proof -
  let ?ex = "\<lambda>db t. dispatchSuppressionExempt db member teamId (Some (ht_id t)) source payload (Some wakeup)"
  obtain task rep db1 where pick: "pick_candidate floor_min ?ex member cands db = (task, rep, db1)" by (metis prod_cases3)
  have task: "task = find (\<lambda>t. held t = None) (map fst cands)"
    using pick_finds [where exempts = ?ex and floor_min = floor_min and member = member, OF same_for_exempt assms(1,2,3)] pick assms(5) by simp
  have rep: "rep = held t0" using pick_reports [of floor_min ?ex member t0 i0 rest db] pick assms(4,5) by simp
  have "held t0 \<noteq> None" if "task = None" using that task assms(4) by (simp split: if_splits)
  then show ?thesis using assms(6) pick rep task complete_settles
    by (auto simp: apply_suppressions_def Let_def split: option.splits)
qed

text \<open>
  (Lemma) Only a success buys more attempts. A run that ends any other way, or belongs to another agent or task,
  leaves an exhausted task exhausted; a success that finishes after the attempts that count clears it.
\<close>

theorem only_success_resets:
  assumes "attemptsExhaustedOnTask db member (Some task) False" and "db' = db\<lparr>runs := runs db @ [r]\<rparr>"
    and "mine = (hr_member r = member \<and> hr_task r = Some task \<and> hr_status r = HrSucceeded)"
  shows "(\<not> mine \<longrightarrow> attemptsExhaustedOnTask db' member (Some task) False)
    \<and> (mine \<and> hr_finished_at r = Some f \<and> list_all (\<lambda>a. \<not> option_after (hr_finished_at a) (Some f)) (attempts db member task)
        \<longrightarrow> \<not> attemptsExhaustedOnTask db' member (Some task) False)"
proof (intro conjI impI)
  assume "\<not> mine"
  then have same: "last_success db' member task = last_success db member task"
    using assms(2,3) by (auto simp: last_success_def runs_on_def)
  obtain more where longer: "runs_on db' task = runs_on db task @ more" using assms(2) by (simp add: runs_on_def)
  have clock: "now db' = now db" using assms(2) by (simp add: now_def)
  have "\<exists>more. attempts db' member task = attempts db member task @ more" unfolding attempts_def same longer clock filter_append by blast
  then show "attemptsExhaustedOnTask db' member (Some task) False"
    using assms(1) by (auto simp: attemptsExhaustedOnTask_def split: if_splits)
next
  assume cleared: "mine \<and> hr_finished_at r = Some f \<and> list_all (\<lambda>a. \<not> option_after (hr_finished_at a) (Some f)) (attempts db member task)"
  then have success: "last_success db' member task = greatest_of (last_success db member task) (Some f)"
    using assms(2,3) by (simp add: last_success_def runs_on_def latest_append)
  have later: "after t (last_success db member task) \<and> f < t" if "after t (last_success db' member task)" for t
    using that success by (cases "last_success db member task") (auto simp: after_def)
  have "a \<in> set (attempts db member task) \<and> option_after (hr_finished_at a) (Some f)" if a: "a \<in> set (attempts db' member task)" for a
  proof -
    obtain t where t: "hr_finished_at a = Some t" "after t (last_success db' member task)" using a by (auto simp: attempts_def split: option.splits)
    have "a \<noteq> r" using later [OF t(2)] cleared t(1) by auto
    then show ?thesis using a later [OF t(2)] t(1) assms(2) by (auto simp: attempts_def runs_on_def now_def option_after_def after_def split: if_splits)
  qed
  then have "a \<notin> set (attempts db' member task)" for a using cleared unfolding list_all_iff by blast
  then have "attempts db' member task = []" using ex_in_conv [of "set (attempts db' member task)"] by simp
  then show "\<not> attemptsExhaustedOnTask db' member (Some task) False" by (simp add: attemptsExhaustedOnTask_def MAX_TASK_ATTEMPT_GIVEUPS_def)
qed

text \<open>
  (Lemma) A hold tells the admin once. While a notice stands on the task, another dispatch that meets the same hold
  posts nothing, as long as the instant the hold is counted from lies before the notice.
\<close>

theorem hold_notice_once:
  assumes "postAdminNotice fresh team task notice db = (Some i, db1)" and "set (comments db1) \<subseteq> set (comments db2)"
    and "nt_kind again = nt_kind notice" and "after (now db) (nt_unlessPostedSince again)"
  shows "postAdminNotice other team task again db2 = (None, db2)"
proof -
  have "db1 = insertAdminMentions team fresh (insertSystemComment fresh task (nt_kind notice) db)"
    using assms(1) by (auto simp: postAdminNotice_def split: if_splits)
  then have "\<exists>c \<in> set (comments_on db2 task). cm_content_type c = CtSystem \<and> cm_kind c = Some (nt_kind again) \<and> cm_created_at c = now db"
    using assms(2,3) by (auto simp: insertAdminMentions_def insertSystemComment_def comments_on_def)
  then show ?thesis using assms(4) by (auto simp: postAdminNotice_def list_ex_iff)
qed

lemma queue_reads [simp]:
  "isAdminUserSql (db\<lparr>queue := q\<rparr>) = isAdminUserSql db" "preAttributionChoiceSql (db\<lparr>queue := q\<rparr>) = preAttributionChoiceSql db"
  "task_team (db\<lparr>queue := q\<rparr>) = task_team db" "comments_on (db\<lparr>queue := q\<rparr>) = comments_on db" "runs_on (db\<lparr>queue := q\<rparr>) = runs_on db"
  by (simp_all add: fun_eq_iff isAdminUserSql_def preAttributionChoiceSql_def task_team_def comments_on_def runs_on_def split: option.split)

lemma queue_words [simp]: "adminSpokeAtSql (db\<lparr>queue := q\<rparr>) = adminSpokeAtSql db"
  unfolding fun_eq_iff adminSpokeAtSql_def adminCommentSql_def adminChoiceSql_def personChoiceSql_def queue_reads by simp

lemma find_posted: "cm_id c \<notin> cm_id ` set cs \<Longrightarrow> find (\<lambda>k. cm_id k = cm_id c) (cs @ [c]) = Some c"
  by (induction cs) auto

lemma resume_words:
  assumes "task_team db task = Some team" and "cm_task c = task" and "cm_chosen_at c = None" and "adminCommentSql db (Some team) c"
    and "adminSpokeAtSql (post_comment c db) task (Some (cm_created_at c)) = Some a"
  shows "a \<in> admin_words db team task"
proof -
  have team: "task_team (post_comment c db) task = Some team" using assms(1) by simp
  have "a \<in> admin_words (post_comment c db) team task \<and> a < cm_created_at c"
    using admin_spoke_words(1) [OF team assms(5)] by (simp add: earlier_def)
  then show ?thesis using admin_words_posted [OF assms(2,3,4)] by auto
qed

text \<open>The row a trigger ends in when nothing interferes: a new one, or one that was there.\<close>

lemma resume_row:
  assumes "key_free key q" and "fresh \<notin> set (wakeup_ids q)"
  shows "find_wakeup (fst (createWakeup (\<lambda>q. q) fresh member team source payload key None q))
      (snd (createWakeup (\<lambda>q. q) fresh member team source payload key None q))
        = Some (new_wakeup fresh member team source payload key None (w_now q))
    \<or> fst (createWakeup (\<lambda>q. q) fresh member team source payload key None q) \<in> set (wakeup_ids q)"
proof (cases "sort_by latest_first (filter (coalesce_target member (string_field payload ''task_id'')) (wakeups q))")
  case Nil
  then show ?thesis using insert_serves [OF assms(2)] by (simp add: createWakeup_free [OF assms(1)] insert_wakeup_def)
next
  case (Cons e es)
  then have "e \<in> set (wakeups q)" using hd_sort_by [OF Cons] by auto
  then show ?thesis using Cons insert_serves [OF assms(2)]
    by (auto simp: createWakeup_free [OF assms(1)] insert_wakeup_def wakeup_ids_def Let_def)
qed

text \<open>
  A row that carries nobody's word: a press no person made, a "Run now" whose press was folded away, or a
  decision no person made.
\<close>

definition wordless :: "hold_db \<Rightarrow> wakeup_row \<Rightarrow> bool" where
  "wordless db w \<longleftrightarrow> (if is_object (w_payload w ''triggered_by'') then \<not> actorIsPersonSql db (w_payload w ''triggered_by'')
     else w_source w = OnDemand
       \<or> w_source w \<in> set DECISION_SOURCES \<and> w_created_by_run_id w = None \<and> \<not> actorIsPersonSql db (w_payload w ''decided_by''))"

lemma suppression_soft: "byPerson e \<Longrightarrow> \<not> hard_stopped db task \<Longrightarrow> dispatchSuppression floor_min db member task e = None"
  by (simp add: dispatchSuppression_def noWorkCooldownActive_def parkedOnAdminAsk_def attemptsExhaustedOnTask_def retrospectiveHoldActive_def
      hard_stopped_def Let_def)

lemma word_dispatched:
  assumes team: "task_team db task = Some team" and task: "task \<noteq> []" and free: "\<not> hard_stopped db task"
    and fresh: "\<not> ran_since_admin db member task"
    and w: "find_wakeup (w_id w) (queue db) = Some w" "w_source w \<in> set DISPATCH_SUPPRESSION_EXEMPT_SOURCES" and word: "\<not> wordless db w"
  shows "dispatchSuppression floor_min db member task
    (dispatchSuppressionExempt db member teamId (Some task) (w_source w) (w_payload w) (Some (w_id w))) = None"
proof (cases "talk db (w_source w) (w_payload w) (Some (w_id w))")
  case True
  then have "byAdmin (dispatchSuppressionExempt db member teamId (Some task) (w_source w) (w_payload w) (Some (w_id w)))"
    using exempt_admin [OF team task] ran_since_admin fresh by blast
  then show ?thesis using suppression_full [OF exempt_ordered] by blast
next
  case False
  have run: "wake_run db (Some (w_id w)) = w_created_by_run_id w" using w(1) by (simp add: wake_run_def find_wakeup_def)
  have "byPerson (dispatchSuppressionExempt db member teamId (Some task) (w_source w) (w_payload w) (Some (w_id w)))"
    using False word w(2) task sources_apart [of "w_source w"]
    by (auto simp: dispatchSuppressionExempt_def talk_def wordless_def run Let_def truthy_def NO_EXEMPTION_def DISPATCH_SUPPRESSION_EXEMPT_SOURCES_def
        CONVERSATIONAL_SOURCES_def DECISION_SOURCES_def split: if_splits)
  then show ?thesis using suppression_soft free by blast
qed

text \<open>
  (C26) The admin's reply resumes a held task. When a hold notice stands since the admin's previous word and the admin
  comments, and no run has started since, then no hard stop is left and the assignee has a queued wakeup for the
  task, a new one or one that was waiting and took the reply in. Dispatching it meets no hold at all, neither a soft
  one nor a hard one, unless it was waiting before and carries nobody's word: a "Run now" whose press an agent's
  mention took away, a press or a decision no person made. (The queue is otherwise arbitrary; nothing else writes to it
  while the reply is handled.)
\<close>

theorem admin_reply_resumes:
  assumes "find (\<lambda>t. ht_id t = task) (hold_tasks db) = Some t" and "task \<noteq> []"
    and "find (\<lambda>ma. Some (ag_id ma) = ht_assignee t) (agents db) = Some ma"
    and "cm_task c = task" and "cm_chosen_at c = None" and "adminCommentSql db (Some (ht_team t)) c" and "cm_id c \<notin> cm_id ` set (comments db)"
    and "n \<in> set (comments_on db task)" and "cm_content_type n = CtSystem" and "cm_kind n = Some kind" and "kind \<in> set ADMIN_HOLD_NOTICE_KINDS"
    and "cm_created_at n \<le> cm_created_at c" and "\<forall>w \<in> admin_words db (ht_team t) task. w < cm_created_at n"
    and "\<forall>r \<in> set (runs_on db task). \<forall>s. hr_started_at r = Some s \<longrightarrow> s < cm_created_at c"
    and ids: "distinct (wakeup_ids (queue db))" "fresh \<notin> set (wakeup_ids (queue db))"
    and key: "\<forall>w \<in> set (wakeups (queue db)). w_idempotency_key w \<noteq> Some (''resume:'' @ task @ '':'' @ cm_id c)"
    and resume: "resumeHeldTaskOnAdminReply (\<lambda>q. q) fresh task (ht_team t) (cm_id c) [] Map.empty (post_comment c db) = (woke, db')"
  shows "woke = Some (ag_slug ma) \<and> \<not> hard_stopped db' task
    \<and> (\<exists>w \<in> set (wakeups (queue db')). w_member_id w = ag_id ma \<and> w_status w = WQueued \<and> field (w_payload w) ''task_id'' = Some task
        \<and> (dispatchSuppression floor_min db' (ag_id ma) task
             (dispatchSuppressionExempt db' (ag_id ma) (ht_team t) (Some task) (w_source w) (w_payload w) (Some (w_id w))) = None
           \<or> w_id w \<in> set (wakeup_ids (queue db)) \<and> wordless db' w))"
proof -
  let ?db = "post_comment c db" and ?team = "ht_team t"
  have team: "task_team db task = Some ?team" using assms(1) by (simp add: task_team_def)
  have tid: "ht_id t = task" using assms(1) by (auto simp: find_Some_iff)
  have target: "resume_target ?db (cm_id c) = Some ma"
  proof -
    have "after (cm_created_at n) (adminSpokeAtSql ?db task (Some (cm_created_at c)))"
      using resume_words [OF team assms(4,5,6)] assms(13) by (auto simp: after_def split: option.split)
    then have "list_ex (\<lambda>n. cm_content_type n = CtSystem
        \<and> (case cm_kind n of None \<Rightarrow> False | Some k \<Rightarrow> k \<in> set ADMIN_HOLD_NOTICE_KINDS) \<and> cm_created_at n \<le> cm_created_at c
        \<and> after (cm_created_at n) (adminSpokeAtSql ?db task (Some (cm_created_at c)))) (comments_on ?db task)"
      using assms(8,9,10,11,12) by (auto simp: list_ex_iff)
    then show ?thesis using assms(1,3,6) find_posted [OF assms(7)]
      by (simp add: resume_target_def spoken_at_def assms(4,5) tid del: posted_words(4))
  qed
  let ?payload = "[''source'' \<mapsto> Text ''comment'', ''task_id'' \<mapsto> Text task, ''comment_id'' \<mapsto> Text (cm_id c)] :: payload"
  let ?create = "createWakeup (\<lambda>q. q) fresh (ag_id ma) ?team Comment ?payload (Some (''resume:'' @ task @ '':'' @ cm_id c)) None (queue db)"
  have after: "woke = Some (ag_slug ma)" "db' = ?db\<lparr>queue := snd ?create\<rparr>"
    using resume by (simp_all add: resumeHeldTaskOnAdminReply_def target)
  have last: "adminSpokeAtSql db' task None = Some (cm_created_at c)"
    using admin_word_last [OF assms(4,5) team assms(6)] assms(12,13) unfolding after(2) queue_words by force
  have runs: "runs_on db' task = runs_on db task" by (simp add: after(2))
  have free: "\<not> hard_stopped db' task" using lifted_by_word [OF last] assms(14) runs by fastforce
  have quiet: "\<not> ran_since_admin db' (ag_id ma) task" using assms(14) by (force simp: ran_since_admin_def last runs list_ex_iff split: option.splits)
  have keyfree: "key_free (Some (''resume:'' @ task @ '':'' @ cm_id c)) (queue db)" using key by (auto simp: key_free_def)
  have ok: "meanwhile_ok fresh (\<lambda>q. q) (queue db)" using ids by (auto simp: meanwhile_ok_def find_wakeup_in)
  obtain w where w: "find_wakeup (fst ?create) (snd ?create) = Some w" "w_status w = WQueued" "w_member_id w = ag_id ma"
    "field (w_payload w) ''task_id'' = Some task" "w_source w \<in> set DISPATCH_SUPPRESSION_EXEMPT_SOURCES"
    using createWakeup_serves [OF keyfree ok, of ?payload "ag_id ma" ?team Comment None]
    by (auto simp: string_field_def DISPATCH_SUPPRESSION_EXEMPT_SOURCES_def)
  have wid: "w_id w = fst ?create" "w \<in> set (wakeups (queue db'))" using find_wakeup_Some [OF w(1)] by (simp_all add: after(2))
  have old: "w_id w \<in> set (wakeup_ids (queue db))" if "wordless db' w"
    using that w(1) wid(1) ids(2) resume_row [OF keyfree ids(2), of "ag_id ma" ?team Comment ?payload] 
    by (auto simp: wordless_def new_wakeup_def is_object_def DECISION_SOURCES_def)
  have "dispatchSuppression floor_min db' (ag_id ma) task
      (dispatchSuppressionExempt db' (ag_id ma) ?team (Some task) (w_source w) (w_payload w) (Some (w_id w))) = None" if "\<not> wordless db' w"
    by (rule word_dispatched [OF _ assms(2) free quiet _ w(5) that]) (use team w(1) wid(1) in \<open>simp_all add: after(2)\<close>)
  then show ?thesis using after(1) free w(2-4) wid(2) old by blast
qed

text \<open>
  (Lemma) A word from somebody else lifts the two soft holds that wait for news: after a comment by anyone but
  the agent, later than its last run and than everything on the thread, neither the no-work backoff nor the parked ask holds the agent off.
\<close>

theorem others_word_lifts:
  assumes "cm_task c = task" and "cm_author_member c \<noteq> Some member" and "cm_chosen_at c = None"
    and "list_all (\<lambda>k. cm_created_at k \<le> cm_created_at c) (comments_on db task)"
    and "list_all (\<lambda>r. (case hr_finished_at r of None \<Rightarrow> True | Some f \<Rightarrow> f < cm_created_at c) \<and> cm_created_by_run c \<noteq> Some (hr_id r)) (runs_on db task)"
  shows "\<not> noWorkCooldownActive floor_min (post_comment c db) member (Some task) False
    \<and> \<not> parkedOnAdminAsk (post_comment c db) member (Some task) False"
proof
  show "\<not> parkedOnAdminAsk (post_comment c db) member (Some task) False"
  proof -
    let ?cs = "filter (\<lambda>c. cm_author_member c \<noteq> Some member \<or> cm_chosen_at c \<noteq> None) (comments_on (post_comment c db) task)"
    have "Some (cm_created_at c) \<in> set (map (\<lambda>c. greatest_of (if cm_author_member c \<noteq> Some member then Some (cm_created_at c) else None) (cm_chosen_at c)) ?cs)"
      using assms(1,2,3) by (auto simp: image_iff intro!: disjI1)
    from latest_upper [OF this] obtain m where m: "newest_other (post_comment c db) member task = Some m" "cm_created_at c \<le> m"
      by (auto simp: newest_other_def)
    have "\<not> m < cm_created_at k" if "k \<in> set (comments_on (post_comment c db) task)" for k
      using that assms(1,4) m(2) by (fastforce simp: list_all_iff)
    then show ?thesis by (auto simp: parkedOnAdminAsk_def list_ex_iff after_def m(1) simp del: posted_words(4))
  qed
  show "\<not> noWorkCooldownActive floor_min (post_comment c db) member (Some task) False"
  proof (cases "newest_finished (post_comment c db) member task")
    case None
    then show ?thesis by (simp add: noWorkCooldownActive_def)
  next
    case (Some lr)
    then have "lr \<in> set (sort_by (\<lambda>a b. the (hr_finished_at b) - the (hr_finished_at a))
        (filter (\<lambda>r. hr_member r = member \<and> hr_task r = Some task \<and> hr_finished_at r \<noteq> None) (runs db)))"
      by (auto simp: newest_finished_def split: list.splits)
    then have "the (hr_finished_at lr) < cm_created_at c" "cm_created_by_run c \<noteq> Some (hr_id lr)"
      using assms(5) unfolding set_sort_by by (auto simp: runs_on_def list_all_iff)
    then show ?thesis using assms(1) Some by (auto simp: noWorkCooldownActive_def Let_def split: option.splits)
  qed
qed

text \<open>
  (Lemma) An agent's mention folded into a queued "Run now" takes the press away. The merge drops \<open>triggered_by\<close> and keeps
  the source, and an \<open>on_demand\<close> row without a press is exempt from nothing, whoever has spoken: the run the person asked for
  meets every hold it was pressed to lift.
\<close>

theorem folded_press_exempts_nothing:
  assumes "sort_by latest_first (filter (coalesce_target member (string_field p ''task_id'')) (wakeups q)) = e # es"
    and "w_source e = OnDemand" and "p ''triggered_by'' = None" and "run \<noteq> []"
  shows "\<exists>w \<in> set (wakeups (snd (createWakeup (\<lambda>q. q) fresh member team Mention p None (Some run) q))). w_id w = w_id e
    \<and> dispatchSuppressionExempt db member teamId (Some task) (w_source w) (w_payload w) wakeup = NO_EXEMPTION"
proof -
  have e: "e \<in> set (wakeups q)" "w_status e = WQueued"
  proof -
    have "e \<in> set (sort_by latest_first (filter (coalesce_target member (string_field p ''task_id'')) (wakeups q)))"
      by (simp add: assms(1))
    then show "e \<in> set (wakeups q)" "w_status e = WQueued" unfolding set_sort_by by (auto simp: coalesce_target_def)
  qed
  let ?merge = "merge_row (merged_payload (w_payload e) p (Some run)) (promoteSource Mention (w_source e)) Mention (Some run)"
  have "snd (createWakeup (\<lambda>q. q) fresh member team Mention p None (Some run) q) = set_wakeups (\<lambda>w. w_id w = w_id e \<and> w_status w = WQueued) ?merge q"
    using e assms(1) by (auto simp: createWakeup_def truthy_def Let_def list_ex_iff)
  moreover have "?merge e \<in> set (wakeups (set_wakeups (\<lambda>w. w_id w = w_id e \<and> w_status w = WQueued) ?merge q))"
    using e by (force simp: set_wakeups_def)
  moreover have "w_id (?merge e) = w_id e" "w_source (?merge e) = OnDemand" "w_payload (?merge e) ''triggered_by'' = None"
    using assms(2,4) by (simp_all add: merge_row_def promoteSource_def DISPATCH_SUPPRESSION_EXEMPT_SOURCES_def merged_payload_def truthy_def Let_def)
  then have "w_id (?merge e) = w_id e \<and> dispatchSuppressionExempt db member teamId (Some task) (w_source (?merge e)) (w_payload (?merge e)) wakeup = NO_EXEMPTION"
    by (simp add: dispatchSuppressionExempt_def is_object_def DECISION_SOURCES_def CONVERSATIONAL_SOURCES_def)
  ultimately show ?thesis by metis
qed

section \<open>Witnesses\<close>

definition demo_run :: "string \<Rightarrow> string \<Rightarrow> string \<Rightarrow> int \<Rightarrow> run_row" where
  "demo_run i member task at_time = \<lparr>hr_id = i, hr_member = member, hr_task = Some task, hr_wakeup = None, hr_kind = TaskRun,
     hr_status = HrFailed, hr_cancel_reason = None, hr_stop_reason = None, hr_started_at = Some at_time, hr_finished_at = Some (at_time + 5),
     hr_reported_no_work = False, hr_input_tokens = 0, hr_output_tokens = 0\<rparr>"

definition demo_comment :: "string \<Rightarrow> string \<Rightarrow> int \<Rightarrow> comment_row" where
  "demo_comment i task at_time = \<lparr>cm_id = i, cm_task = task, cm_author_member = None, cm_author_user = None, cm_author_api_key = None,
     cm_created_by_run = None, cm_created_at = at_time, cm_content_type = CtText, cm_kind = None, cm_chosen_option = None, cm_chosen_at = None,
     cm_chosen_by_user = None\<rparr>"

text \<open>The admin spoke at 10, agent A's run was stopped for its size, and the notice of it stands since 40.\<close>

definition demo_db :: hold_db where
  "demo_db = \<lparr>comments = [(demo_comment ''c'' ''T'' 10)\<lparr>cm_author_user := Some ''u''\<rparr>,
       (demo_comment ''n'' ''T'' 40)\<lparr>cm_content_type := CtSystem, cm_kind := Some ''run_size_stop''\<rparr>],
     runs = [(demo_run ''r'' ''A'' ''T'' 20)\<lparr>hr_stop_reason := Some ''token_ceiling''\<rparr>],
     queue = \<lparr>wakeups = [], w_now = 100\<rparr>, users = [(''u'', True)], member_users = [], members = [],
     agents = [\<lparr>ag_id = ''A'', ag_slug = ''a'', ag_heartbeat_interval_min = 60, ag_last_heartbeat_at = None\<rparr>],
     hold_tasks = [\<lparr>ht_id = ''T'', ht_team = ''m'', ht_assignee = Some ''A''\<rparr>, \<lparr>ht_id = ''S'', ht_team = ''m'', ht_assignee = Some ''A''\<rparr>],
     admin_mentions = [], choice_attribution_from = None\<rparr>"

lemmas hold_reads = loadTaskSpend_def admin_run_at_def handoff_chain_def recent_runs_def sort_by_def started_runs_def runs_on_def comments_on_def
  adminSpokeAtSql_def task_team_def adminCommentSql_def adminChoiceSql_def personCommentSql_def personChoiceSql_def preAttributionChoiceSql_def
  isAdminUserSql_def wakeup_of_def option_after_def after_def not_before_at_def run_tokens_def RUN_SIZE_STOP_REASONS_def HANDOFF_SCAN_RUNS_def
  HANDOFF_ROUND_LIMIT_def TASK_TOKEN_CEILING_def is_handoff_def map_filter_def latest_def Let_def

lemma demo_stopped: "hard_stopped demo_db ''T''"
  by (simp add: hard_stopped_def runSizeStopHold_def demo_db_def demo_run_def demo_comment_def hold_reads)

lemma demo_team: "task_team demo_db ''T'' = Some ''m''"
  by code_simp

theorem stopped_agents_wait_witness:
  "dispatchSuppression 60 demo_db ''A'' ''T'' (dispatchSuppressionExempt demo_db ''A'' ''m'' (Some ''T'') Mention Map.empty (Some ''w'')) \<noteq> None
   \<and> dispatchSuppression 60 demo_db ''B'' ''T'' (dispatchSuppressionExempt demo_db ''B'' ''m'' (Some ''T'') Mention Map.empty (Some ''w'')) = None
   \<and> dispatchSuppression 60 demo_db ''B'' ''T'' (dispatchSuppressionExempt demo_db ''B'' ''m'' (Some ''T'') ApprovalResolved Map.empty (Some ''w'')) \<noteq> None"
proof -
  have kinds: "\<not> admin_behind demo_db ''m'' Mention Map.empty (Some ''w'')" "talk demo_db Mention Map.empty (Some ''w'')"
    "\<not> admin_behind demo_db ''m'' ApprovalResolved Map.empty (Some ''w'')" "\<not> talk demo_db ApprovalResolved Map.empty (Some ''w'')" by code_simp+
  have "ran_since_admin demo_db ''A'' ''T''" "\<not> ran_since_admin demo_db ''B'' ''T''" by code_simp+
  then show ?thesis using kinds stopped_agents_wait [OF demo_team _ demo_stopped] by simp
qed

theorem retrospective_waits_for_person_witness:
  "retrospectiveHoldActive (post_comment (demo_comment ''d'' ''T'' 60)
     (demo_db\<lparr>comments := [(demo_comment ''f'' ''T'' 50)\<lparr>cm_created_by_run := Some ''r''\<rparr>], runs := [(demo_run ''r'' ''C'' ''S'' 20)\<lparr>hr_kind := Retrospective\<rparr>]\<rparr>)) (Some ''T'') False
   \<and> \<not> retrospectiveHoldActive (post_comment ((demo_comment ''d'' ''T'' 60)\<lparr>cm_author_user := Some ''u''\<rparr>)
     (demo_db\<lparr>comments := [(demo_comment ''f'' ''T'' 50)\<lparr>cm_created_by_run := Some ''r''\<rparr>], runs := [(demo_run ''r'' ''C'' ''S'' 20)\<lparr>hr_kind := Retrospective\<rparr>]\<rparr>)) (Some ''T'') False"
proof -
  let ?db = "demo_db\<lparr>comments := [(demo_comment ''f'' ''T'' 50)\<lparr>cm_created_by_run := Some ''r''\<rparr>], runs := [(demo_run ''r'' ''C'' ''S'' 20)\<lparr>hr_kind := Retrospective\<rparr>]\<rparr>"
  let ?c = "demo_comment ''d'' ''T'' 60" and ?p = "(demo_comment ''d'' ''T'' 60)\<lparr>cm_author_user := Some ''u''\<rparr>"
  have db: "retrospectiveHoldActive ?db (Some ''T'') False" "finding_at ?db ''T'' = Some 50" by code_simp+
  have c: "cm_task ?c = ''T''" "cm_chosen_at ?c = None" "personChoiceSql ?db ?c = False" "cm_created_by_run ?c = None" "\<not> personCommentSql ?c" by code_simp+
  have p: "cm_task ?p = ''T''" "cm_chosen_at ?p = None" "personChoiceSql ?db ?p = False" "cm_created_by_run ?p = None" "personCommentSql ?p" "cm_created_at ?p = 60" by code_simp+
  show ?thesis using retrospective_waits_for_person [OF db c(1,2,3) c(4)] retrospective_waits_for_person [OF db p(1,2,3) p(4)] c(5) p(5,6) by linarith
qed

theorem first_free_candidate_witness:
  "fst (apply_suppressions 60 False ''A'' ''m'' Heartbeat Map.empty ''w''
      [(\<lparr>ht_id = ''T'', ht_team = ''m'', ht_assignee = Some ''A''\<rparr>, ''x''), (\<lparr>ht_id = ''S'', ht_team = ''m'', ht_assignee = Some ''A''\<rparr>, ''y'')] demo_db)
    = Dispatch \<lparr>ht_id = ''S'', ht_team = ''m'', ht_assignee = Some ''A''\<rparr>"
proof -
  let ?t = "\<lparr>ht_id = ''T'', ht_team = ''m'', ht_assignee = Some ''A''\<rparr> :: held_task" and ?s = "\<lparr>ht_id = ''S'', ht_team = ''m'', ht_assignee = Some ''A''\<rparr> :: held_task"
  let ?cands = "[(?t, ''x''), (?s, ''y'')]"
  define held where "held = (\<lambda>t :: held_task. dispatchSuppression 60 demo_db ''A'' (ht_id t)
      (dispatchSuppressionExempt demo_db ''A'' ''m'' (Some (ht_id t)) Heartbeat Map.empty (Some ''w'')))"
  obtain outcome db' where out: "apply_suppressions 60 False ''A'' ''m'' Heartbeat Map.empty ''w'' ?cands demo_db = (outcome, db')" by fastforce
  have d: "distinct (map (ht_id \<circ> fst) ?cands)" "distinct (map snd ?cands)" "\<forall>c \<in> set (comments demo_db). cm_id c \<notin> snd ` set ?cands"
    by (simp_all add: demo_db_def demo_comment_def)
  have "dispatchSuppression 60 demo_db ''A'' ''T'' (dispatchSuppressionExempt demo_db ''A'' ''m'' (Some ''T'') Heartbeat Map.empty (Some ''w'')) \<noteq> None"
    "dispatchSuppression 60 demo_db ''A'' ''S'' (dispatchSuppressionExempt demo_db ''A'' ''m'' (Some ''S'') Heartbeat Map.empty (Some ''w'')) = None"
    by (simp_all add: dispatchSuppression_def dispatchSuppressionExempt_def noWorkCooldownActive_def newest_finished_def parkedOnAdminAsk_def attemptsExhaustedOnTask_def
        retrospectiveHoldActive_def attempts_def finding_at_def handoffHold_def tokenCeilingHold_def runSizeStopHold_def is_object_def DECISION_SOURCES_def
        CONVERSATIONAL_SOURCES_def NO_EXEMPTION_def truthy_def demo_db_def demo_run_def demo_comment_def hold_reads unproductive_def now_def last_success_def
        newest_other_def outstandingAdminAskExistsSql_def PENDING_ASK_CONTENT_TYPES_def MAX_TASK_ATTEMPT_GIVEUPS_def TASK_ATTEMPT_WINDOW_HOURS_def personSpokeAtSql_def)
  then have "find (\<lambda>t. held t = None) (map fst ?cands) = Some ?s" by (simp add: held_def)
  then show ?thesis using first_free_candidate [OF d refl held_def out] out by simp
qed

definition tired_db :: hold_db where
  "tired_db = demo_db\<lparr>runs := map (demo_run ''r'' ''A'' ''T'') [20, 30, 40, 50, 60, 70]\<rparr>"

theorem only_success_resets_witness:
  "attemptsExhaustedOnTask (tired_db\<lparr>runs := runs tired_db @ [demo_run ''x'' ''A'' ''T'' 80]\<rparr>) ''A'' (Some ''T'') False
   \<and> \<not> attemptsExhaustedOnTask (tired_db\<lparr>runs := runs tired_db @ [(demo_run ''x'' ''A'' ''T'' 80)\<lparr>hr_status := HrSucceeded\<rparr>]\<rparr>) ''A'' (Some ''T'') False"
proof -
  let ?s = "(demo_run ''x'' ''A'' ''T'' 80)\<lparr>hr_status := HrSucceeded\<rparr>"
  have spent: "attemptsExhaustedOnTask tired_db ''A'' (Some ''T'') False" by code_simp
  have f: "hr_finished_at ?s = Some 85" "hr_member ?s = ''A''" "hr_task ?s = Some ''T''" "hr_status ?s = HrSucceeded" "hr_status (demo_run ''x'' ''A'' ''T'' 80) = HrFailed"
    by (simp_all add: demo_run_def)
  have "list_all (\<lambda>a. \<not> option_after (hr_finished_at a) (Some 85)) (attempts tired_db ''A'' ''T'')" by code_simp
  then show ?thesis using only_success_resets [OF spent refl refl, of "demo_run ''x'' ''A'' ''T'' 80"] only_success_resets [OF spent refl refl, of ?s 85] f by simp
qed

theorem hold_notice_once_witness:
  "fst (postAdminNotice ''y'' ''m'' ''S'' \<lparr>nt_kind = ''handoff_limit'', nt_unlessPostedSince = Some 20\<rparr>
     (snd (postAdminNotice ''x'' ''m'' ''S'' \<lparr>nt_kind = ''handoff_limit'', nt_unlessPostedSince = None\<rparr> demo_db))) = None"
proof -
  let ?n = "\<lparr>nt_kind = ''handoff_limit'', nt_unlessPostedSince = None\<rparr> :: hold_notice" and ?m = "\<lparr>nt_kind = ''handoff_limit'', nt_unlessPostedSince = Some 20\<rparr> :: hold_notice"
  have "fst (postAdminNotice ''x'' ''m'' ''S'' ?n demo_db) = Some ''x''" by code_simp
  then obtain db1 where posted: "postAdminNotice ''x'' ''m'' ''S'' ?n demo_db = (Some ''x'', db1)" by (cases "postAdminNotice ''x'' ''m'' ''S'' ?n demo_db") simp
  have "after (now demo_db) (nt_unlessPostedSince ?m)" by code_simp
  then show ?thesis using hold_notice_once [OF posted subset_refl, of ?m "''y''"] posted by simp
qed

theorem admin_reply_resumes_witness:
  "\<exists>w \<in> set (wakeups (queue (snd (resumeHeldTaskOnAdminReply (\<lambda>q. q) ''W'' ''T'' ''m'' ''d'' [] Map.empty
      (post_comment ((demo_comment ''d'' ''T'' 60)\<lparr>cm_author_user := Some ''u''\<rparr>) demo_db))))). w_member_id w = ''A'' \<and> w_status w = WQueued"
proof -
  let ?c = "(demo_comment ''d'' ''T'' 60)\<lparr>cm_author_user := Some ''u''\<rparr>" and ?t = "\<lparr>ht_id = ''T'', ht_team = ''m'', ht_assignee = Some ''A''\<rparr> :: held_task"
  let ?n = "(demo_comment ''n'' ''T'' 40)\<lparr>cm_content_type := CtSystem, cm_kind := Some ''run_size_stop''\<rparr>"
  let ?ma = "\<lparr>ag_id = ''A'', ag_slug = ''a'', ag_heartbeat_interval_min = 60, ag_last_heartbeat_at = None\<rparr> :: agent_row"
  obtain woke db' where r: "resumeHeldTaskOnAdminReply (\<lambda>q. q) ''W'' ''T'' (ht_team ?t) (cm_id ?c) [] Map.empty (post_comment ?c demo_db) = (woke, db')" by fastforce
  have t: "find (\<lambda>t. ht_id t = ''T'') (hold_tasks demo_db) = Some ?t" "''T'' \<noteq> []" "find (\<lambda>ma. Some (ag_id ma) = ht_assignee ?t) (agents demo_db) = Some ?ma"
    by (simp_all add: demo_db_def)
  have c: "cm_task ?c = ''T''" "cm_chosen_at ?c = None" "adminCommentSql demo_db (Some (ht_team ?t)) ?c" "cm_id ?c \<notin> cm_id ` set (comments demo_db)"
    by (simp_all add: demo_db_def demo_comment_def adminCommentSql_def isAdminUserSql_def)
  have n: "?n \<in> set (comments_on demo_db ''T'')" "cm_content_type ?n = CtSystem" "cm_kind ?n = Some ''run_size_stop''" "''run_size_stop'' \<in> set ADMIN_HOLD_NOTICE_KINDS"
    "cm_created_at ?n \<le> cm_created_at ?c"
    by (simp_all add: demo_db_def demo_comment_def comments_on_def ADMIN_HOLD_NOTICE_KINDS_def RUN_SIZE_STOP_COMMENT_KIND_def)
  have w: "\<forall>w \<in> admin_words demo_db (ht_team ?t) ''T''. w < cm_created_at ?n"
    by (auto simp: admin_words_def demo_db_def demo_comment_def comments_on_def adminCommentSql_def adminChoiceSql_def preAttributionChoiceSql_def)
  have q: "\<forall>r \<in> set (runs_on demo_db ''T''). \<forall>s. hr_started_at r = Some s \<longrightarrow> s < cm_created_at ?c" "distinct (wakeup_ids (queue demo_db))"
    "''W'' \<notin> set (wakeup_ids (queue demo_db))" "\<forall>w \<in> set (wakeups (queue demo_db)). w_idempotency_key w \<noteq> Some (''resume:'' @ ''T'' @ '':'' @ cm_id ?c)"
    by (simp_all add: demo_db_def demo_run_def demo_comment_def runs_on_def wakeup_ids_def)
  show ?thesis using admin_reply_resumes [OF t c n w q r, of 60] r by (auto simp: demo_comment_def)
qed

theorem others_word_lifts_witness:
  "\<not> noWorkCooldownActive 60 (post_comment (demo_comment ''d'' ''T'' 60) demo_db) ''A'' (Some ''T'') False
   \<and> \<not> parkedOnAdminAsk (post_comment (demo_comment ''d'' ''T'' 60) demo_db) ''A'' (Some ''T'') False"
proof -
  have "cm_task (demo_comment ''d'' ''T'' 60) = ''T''" "cm_author_member (demo_comment ''d'' ''T'' 60) \<noteq> Some ''A''" "cm_chosen_at (demo_comment ''d'' ''T'' 60) = None"
    "list_all (\<lambda>k. cm_created_at k \<le> cm_created_at (demo_comment ''d'' ''T'' 60)) (comments_on demo_db ''T'')"
    "list_all (\<lambda>r. (case hr_finished_at r of None \<Rightarrow> True | Some f \<Rightarrow> f < cm_created_at (demo_comment ''d'' ''T'' 60))
        \<and> cm_created_by_run (demo_comment ''d'' ''T'' 60) \<noteq> Some (hr_id r)) (runs_on demo_db ''T'')"
    by (simp_all add: demo_db_def demo_comment_def demo_run_def comments_on_def runs_on_def)
  from others_word_lifts [OF this] show ?thesis by blast
qed

definition pressed_queue :: wakeup_db where
  "pressed_queue = \<lparr>wakeups = [new_wakeup ''e'' ''A'' ''m'' OnDemand
      [''task_id'' \<mapsto> Text ''T'', ''triggered_by'' \<mapsto> Obj [(''user_id'', Text ''u'')]] None None 90], w_now = 100\<rparr>"

text \<open>Before the mention the press is the admin's and skips every hold; after it, none.\<close>

theorem folded_press_exempts_nothing_witness:
  "dispatchSuppressionExempt (demo_db\<lparr>queue := pressed_queue\<rparr>) ''A'' ''m'' (Some ''T'') OnDemand
      [''task_id'' \<mapsto> Text ''T'', ''triggered_by'' \<mapsto> Obj [(''user_id'', Text ''u'')]] (Some ''e'') = FULL_EXEMPTION
   \<and> (\<exists>w \<in> set (wakeups (snd (createWakeup (\<lambda>q. q) ''f'' ''A'' ''m'' Mention [''task_id'' \<mapsto> Text ''T''] None (Some ''r'') pressed_queue))). w_id w = ''e''
      \<and> dispatchSuppressionExempt (demo_db\<lparr>queue := snd (createWakeup (\<lambda>q. q) ''f'' ''A'' ''m'' Mention [''task_id'' \<mapsto> Text ''T''] None (Some ''r'') pressed_queue)\<rparr>)
            ''A'' ''m'' (Some ''T'') (w_source w) (w_payload w) (Some ''e'') = NO_EXEMPTION)"
proof -
  let ?e = "new_wakeup ''e'' ''A'' ''m'' OnDemand [''task_id'' \<mapsto> Text ''T'', ''triggered_by'' \<mapsto> Obj [(''user_id'', Text ''u'')]] None None 90"
  let ?p = "[''task_id'' \<mapsto> Text ''T''] :: payload"
  have target: "sort_by latest_first (filter (coalesce_target ''A'' (string_field ?p ''task_id'')) (wakeups pressed_queue)) = ?e # []"
    by (simp add: pressed_queue_def sort_by_def coalesce_target_def new_wakeup_def string_field_def field_def)
  have e: "w_source ?e = OnDemand" "w_id ?e = ''e''" "?p ''triggered_by'' = None" "''r'' \<noteq> []" by (simp_all add: new_wakeup_def)
  have "dispatchSuppressionExempt (demo_db\<lparr>queue := pressed_queue\<rparr>) ''A'' ''m'' (Some ''T'') OnDemand
      [''task_id'' \<mapsto> Text ''T'', ''triggered_by'' \<mapsto> Obj [(''user_id'', Text ''u'')]] (Some ''e'') = FULL_EXEMPTION"
    by (simp add: dispatchSuppressionExempt_def is_object_def FULL_EXEMPTION_def actorIsPersonSql_def actorIsAdminSql_def actor_field_def field_def isAdminUserSql_def demo_db_def)
  then show ?thesis using folded_press_exempts_nothing [OF target e(1,3,4)] e(2) by metis
qed

end
