(* ===== verification/Task_Dependencies.thy ===== *)
theory Task_Dependencies
  imports Wakeups
begin

text \<open>
  Blocking between tasks: \<open>lib/dependencies.ts\<close> whole, with the writes that change the graph or a
  status around it (\<open>attachBlockers\<close> of \<open>services/tasks.ts\<close>, the two dependency routes and the
  status update of \<open>routes/tasks.ts\<close>, the cascade of \<open>services/task-automation.ts\<close>). An edge
  \<open>(t, b)\<close> says that task \<open>t\<close> is blocked by task \<open>b\<close>. Broadcasts are left out; a recorded status
  change is an entry of the event list.

  Ids are the text form of the database's uuid values. A reference written by a caller reaches a
  query as text and is read by \<open>uuid_in\<close> there, while JavaScript compares the text itself.
\<close>

section \<open>Tasks and edges\<close>

datatype TaskStatus = Backlog | InProgress | Blocked | Done | Cancelled

definition TERMINAL_TASK_STATUSES :: "TaskStatus list" where
  "TERMINAL_TASK_STATUSES = [Done, Cancelled]"

definition terminal :: "TaskStatus \<Rightarrow> bool" where
  "terminal s \<longleftrightarrow> s \<in> set TERMINAL_TASK_STATUSES"

definition GATED_WAKEUP_SOURCES :: "WakeupSource list" where
  "GATED_WAKEUP_SOURCES = [Assignment, Heartbeat, Timer]"

record dep_task =
  t_id :: string
  t_identifier :: string
  t_team_id :: string
  t_project_id :: string
  t_parent_task_id :: "string option"
  t_assignee_id :: "string option"
  t_status :: TaskStatus

record status_event =
  ev_task :: string
  ev_from :: TaskStatus
  ev_to :: TaskStatus
  ev_cascade :: "string option"

record dep_db =
  dep_tasks :: "dep_task list"
  task_dependencies :: "(string \<times> string) list"
  dep_queue :: wakeup_db
  member_agents :: "string set"
  active_runs :: "(string \<times> string) list"
  events :: "status_event list"

section \<open>References\<close>

definition ascii_lower :: "char \<Rightarrow> char" where
  "ascii_lower c = (let n = of_char c :: nat in if 65 \<le> n \<and> n \<le> 90 then char_of (n + 32) else c)"

definition uuid_in :: "string \<Rightarrow> string" where
  "uuid_in s = map ascii_lower s"

definition is_hex :: "char \<Rightarrow> bool" where
  "is_hex c = (let n = of_char (ascii_lower c) :: nat in 48 \<le> n \<and> n \<le> 57 \<or> 97 \<le> n \<and> n \<le> 102)"

definition isUuid :: "string \<Rightarrow> bool" where
  "isUuid s \<longleftrightarrow> length s = 36
     \<and> list_all (\<lambda>i. if i \<in> {8, 13, 18, 23} then s ! i = CHR ''-'' else is_hex (s ! i)) [0..<36]"

definition task_of :: "string \<Rightarrow> dep_db \<Rightarrow> dep_task option" where
  "task_of i db = find (\<lambda>t. t_id t = uuid_in i) (dep_tasks db)"

definition status_of :: "string \<Rightarrow> dep_db \<Rightarrow> TaskStatus option" where
  "status_of i db = map_option t_status (task_of i db)"

definition resolveTaskId :: "dep_db \<Rightarrow> string \<Rightarrow> string \<Rightarrow> string option" where
  "resolveTaskId db team raw =
     (if isUuid raw then Some raw
      else map_option t_id (find (\<lambda>t. t_team_id t = team \<and> map ascii_lower (t_identifier t) = map ascii_lower raw) (dep_tasks db)))"

section \<open>Open blockers\<close>

definition hasOpenBlockers :: "dep_db \<Rightarrow> string \<Rightarrow> bool" where
  "hasOpenBlockers db taskId \<longleftrightarrow> list_ex (\<lambda>(t, b). t = uuid_in taskId
     \<and> list_ex (\<lambda>row. t_id row = b \<and> \<not> terminal (t_status row)) (dep_tasks db)) (task_dependencies db)"

definition shouldDeferWakeupForBlockers :: "dep_db \<Rightarrow> WakeupSource \<Rightarrow> string option \<Rightarrow> bool" where
  "shouldDeferWakeupForBlockers db source taskId =
     (if source \<notin> set GATED_WAKEUP_SOURCES then False
      else if \<not> truthy taskId then False
      else (case status_of (the taskId) db of
          Some s \<Rightarrow> if terminal s then False else hasOpenBlockers db (the taskId)
        | None \<Rightarrow> hasOpenBlockers db (the taskId)))"

definition coerceTargetStatusForBlockers :: "dep_db \<Rightarrow> string \<Rightarrow> TaskStatus \<Rightarrow> TaskStatus" where
  "coerceTargetStatusForBlockers db taskId requested =
     (if terminal requested then requested
      else if hasOpenBlockers db taskId then Blocked
      else if requested = Blocked then Backlog
      else requested)"

section \<open>Cycles\<close>

text \<open>
  \<open>WITH RECURSIVE ... UNION\<close>: the rows found so far and the rows of the last round; a round joins the
  last one with the edges and keeps what is new.
\<close>

definition blockers_of :: "(string \<times> string) list \<Rightarrow> string list \<Rightarrow> string list" where
  "blockers_of deps ts = map snd (filter (\<lambda>(t, b). t \<in> set ts) deps)"

definition chain_start :: "(string \<times> string) list \<Rightarrow> string \<Rightarrow> string list \<times> string list" where
  "chain_start deps blocker = (let first = remdups (blockers_of deps [blocker]) in (first, first))"

definition chain_round :: "(string \<times> string) list \<Rightarrow> string list \<times> string list \<Rightarrow> string list \<times> string list" where
  "chain_round deps s =
     (let (found, last_round) = s; new = remdups (filter (\<lambda>b. b \<notin> set found) (blockers_of deps last_round))
      in (found @ new, new))"

function chain :: "(string \<times> string) list \<Rightarrow> string list \<times> string list \<Rightarrow> string list" where
  "chain deps s = (if snd s = [] then fst s else chain deps (chain_round deps s))"
  by pat_completeness auto

lemma round_progress:
  assumes "snd (chain_round deps s) \<noteq> []"
  shows "card (snd ` set deps - set (fst (chain_round deps s))) < card (snd ` set deps - set (fst s))"
proof (rule psubset_card_mono)
  obtain found last_round where s: "s = (found, last_round)" by fastforce
  let ?new = "remdups (filter (\<lambda>b. b \<notin> set found) (blockers_of deps last_round))"
  have "?new \<noteq> []" using assms s by (simp add: chain_round_def Let_def)
  then obtain x where x: "x \<in> set ?new" using last_in_set by blast
  then have "x \<in> snd ` set deps" "x \<notin> set found" by (auto simp: blockers_of_def)
  then show "snd ` set deps - set (fst (chain_round deps s)) \<subset> snd ` set deps - set (fst s)"
    using x s by (auto simp: chain_round_def Let_def)
qed simp

lemma round_stuck: "snd (chain_round deps s) = [] \<Longrightarrow> fst (chain_round deps s) = fst s"
  by (auto simp: chain_round_def Let_def split: prod.splits)

termination chain
proof (relation "measures [\<lambda>(deps, s). card (snd ` set deps - set (fst s)), \<lambda>(deps, s). length (snd s)]")
  fix deps and s :: "string list \<times> string list" assume "snd s \<noteq> []"
  then show "((deps, chain_round deps s), deps, s) \<in> measures [\<lambda>(deps, s). card (snd ` set deps - set (fst s)), \<lambda>(deps, s). length (snd s)]"
    using round_progress [of deps s] round_stuck [of deps s] by (cases "snd (chain_round deps s) = []") auto
qed simp

declare chain.simps [simp del]

definition wouldCreateCycle :: "(string \<times> string) list \<Rightarrow> string \<Rightarrow> string \<Rightarrow> bool" where
  "wouldCreateCycle deps taskId blockerId =
     (if taskId = blockerId then True else uuid_in taskId \<in> set (chain deps (chain_start deps (uuid_in blockerId))))"

section \<open>Statuses derived from blockers\<close>

definition recordStatusChange :: "string \<Rightarrow> TaskStatus \<Rightarrow> TaskStatus \<Rightarrow> string option \<Rightarrow> dep_db \<Rightarrow> dep_db" where
  "recordStatusChange taskId old new cascade db =
     (if old = new then db
      else db\<lparr>events := events db @ [\<lparr>ev_task = uuid_in taskId, ev_from = old, ev_to = new, ev_cascade = cascade\<rparr>]\<rparr>)"

definition set_status :: "string \<Rightarrow> TaskStatus \<Rightarrow> dep_db \<Rightarrow> dep_db" where
  "set_status taskId s db = db\<lparr>dep_tasks := map (\<lambda>t. if t_id t = uuid_in taskId then t\<lparr>t_status := s\<rparr> else t) (dep_tasks db)\<rparr>"

definition blocked_target :: "bool \<Rightarrow> TaskStatus \<Rightarrow> TaskStatus option" where
  "blocked_target open_blockers current =
     (if open_blockers \<and> current \<noteq> Blocked then Some Blocked
      else if \<not> open_blockers \<and> current = Blocked then Some Backlog else None)"

definition reconcileBlockedStatus :: "string \<Rightarrow> string option \<Rightarrow> dep_db \<Rightarrow> TaskStatus option \<times> dep_db" where
  "reconcileBlockedStatus taskId cascade db = (case status_of taskId db of
     None \<Rightarrow> (None, db)
   | Some current \<Rightarrow>
       if terminal current then (None, db)
       else (case blocked_target (hasOpenBlockers db taskId) current of
           None \<Rightarrow> (None, db)
         | Some target \<Rightarrow> (Some target,
             recordStatusChange taskId current target (if target = Backlog then cascade else None) (set_status taskId target db))))"

definition flip_deferred :: "string \<Rightarrow> string \<Rightarrow> string option \<Rightarrow> wakeup_db \<Rightarrow> bool \<times> wakeup_db" where
  "flip_deferred member taskId run q =
     (let parked = (\<lambda>w. w_member_id w = member \<and> w_status w = WDeferred
          \<and> field (w_payload w) ''task_id'' = Some taskId \<and> field (w_payload w) ''reason'' = Some ''blocked'')
      in (list_ex parked (wakeups q),
          set_wakeups parked (\<lambda>w. w\<lparr>w_status := WQueued, w_claimed_at := None, w_created_at := w_now q,
             w_created_by_run_id := or_else run (w_created_by_run_id w)\<rparr>) q))"

definition wakeIfReady :: "string \<Rightarrow> string \<Rightarrow> string option \<Rightarrow> dep_db \<Rightarrow> dep_db" where
  "wakeIfReady fresh taskId run db =
     (if hasOpenBlockers db taskId then db
      else (case task_of taskId db of
          None \<Rightarrow> db
        | Some row \<Rightarrow>
            if \<not> truthy (t_assignee_id row) then db
            else (let member = the (t_assignee_id row) in
              if member \<notin> member_agents db then db
              else (case flip_deferred member taskId run (dep_queue db) of
                  (True, q) \<Rightarrow> db\<lparr>dep_queue := q\<rparr>
                | (False, q) \<Rightarrow>
                    if (member, uuid_in taskId) \<in> set (active_runs db) then db
                    else db\<lparr>dep_queue := snd (createWakeup (\<lambda>d. d) fresh member (t_team_id row) Assignment
                      [''task_id'' \<mapsto> Text taskId, ''reason'' \<mapsto> Text ''unblocked''] (Some (''unblock:'' @ taskId)) run q)\<rparr>))))"

fun reconcile_each :: "(string \<Rightarrow> string) \<Rightarrow> string option \<Rightarrow> string option \<Rightarrow> string list \<Rightarrow> dep_db \<Rightarrow> dep_db" where
  "reconcile_each fresh cascade run [] db = db"
| "reconcile_each fresh cascade run (d # ds) db =
     (case reconcileBlockedStatus d cascade db of
        (new, db1) \<Rightarrow> reconcile_each fresh cascade run ds
          (if new = Some Backlog \<or> new = None then wakeIfReady (fresh d) d run db1 else db1))"

definition downstream_of :: "string \<Rightarrow> dep_db \<Rightarrow> string list" where
  "downstream_of blocker db = remdups (map fst (filter (\<lambda>(t, b). b = uuid_in blocker) (task_dependencies db)))"

definition recomputeDownstreamReadiness :: "(string \<Rightarrow> string) \<Rightarrow> string \<Rightarrow> string option \<Rightarrow> dep_db \<Rightarrow> dep_db" where
  "recomputeDownstreamReadiness fresh blocker run db =
     (let cascade = (case status_of blocker db of Some s \<Rightarrow> if terminal s then Some blocker else None | None \<Rightarrow> None)
      in reconcile_each fresh cascade run (downstream_of blocker db) db)"

definition OPEN_CHILD_STATUSES :: "TaskStatus list" where
  "OPEN_CHILD_STATUSES = [Backlog, InProgress, Blocked]"

definition assertChildrenAllClosed :: "dep_db \<Rightarrow> string \<Rightarrow> string \<Rightarrow> bool" where
  "assertChildrenAllClosed db team taskId \<longleftrightarrow> \<not> list_ex (\<lambda>t. t_parent_task_id t = Some (uuid_in taskId) \<and> t_team_id t = team
     \<and> t_status t \<in> set OPEN_CHILD_STATUSES) (dep_tasks db)"

definition wakeTaskIfChildrenClosed :: "string \<Rightarrow> string \<Rightarrow> string \<Rightarrow> string option \<Rightarrow> dep_db \<Rightarrow> dep_db" where
  "wakeTaskIfChildrenClosed fresh team parent run db =
     (if \<not> assertChildrenAllClosed db team parent then db
      else (case task_of parent db of
          None \<Rightarrow> db
        | Some row \<Rightarrow>
            if \<not> truthy (t_assignee_id row) \<or> the (t_assignee_id row) \<notin> member_agents db then db
            else db\<lparr>dep_queue := snd (createWakeup (\<lambda>d. d) fresh (the (t_assignee_id row)) (t_team_id row) Assignment
              [''task_id'' \<mapsto> Text parent, ''reason'' \<mapsto> Text ''children_closed''] (Some (''children-closed:'' @ parent)) run (dep_queue db))\<rparr>))"

definition wakeParentIfChildrenClosed :: "string \<Rightarrow> string \<Rightarrow> string \<Rightarrow> string option \<Rightarrow> dep_db \<Rightarrow> dep_db" where
  "wakeParentIfChildrenClosed fresh team taskId run db =
     (case find (\<lambda>t. t_id t = uuid_in taskId \<and> t_team_id t = team) (dep_tasks db) of
        None \<Rightarrow> db
      | Some row \<Rightarrow>
          if truthy (t_parent_task_id row) then wakeTaskIfChildrenClosed fresh team (the (t_parent_task_id row)) run db else db)"

text \<open>
  The Coach to wake on a completed task is the answer of a query over labels and the agents table, a
  parameter here; worktree removal, the chat breadcrumb and the notice to the parent of an OAuth
  verification write no task, edge or blocking status and are left out.
\<close>

definition triggerStatusAutomations ::
  "(string \<Rightarrow> string) \<Rightarrow> string option \<Rightarrow> string \<Rightarrow> string \<Rightarrow> TaskStatus \<Rightarrow> TaskStatus \<Rightarrow> string option \<Rightarrow> dep_db \<Rightarrow> dep_db" where
  "triggerStatusAutomations fresh coach team taskId old new run db =
     (let db1 = recordStatusChange taskId old new None db;
          db2 = (if terminal old \<noteq> terminal new then recomputeDownstreamReadiness fresh taskId run db1 else db1);
          db3 = (if terminal new then wakeParentIfChildrenClosed (fresh ''parent'') team taskId run db2 else db2)
      in if new = Done \<and> coach \<noteq> None
         then db3\<lparr>dep_queue := snd (createWakeup (\<lambda>d. d) (fresh ''coach'') (the coach) team Automation
           [''task_id'' \<mapsto> Text taskId, ''trigger'' \<mapsto> Text ''task_done''] None run (dep_queue db3))\<rparr>
         else db3)"

section \<open>The dependency requests\<close>

datatype dep_error = DepNotFound | DepMissing | DepSelf | DepCycle | DepExists | ForeignKeyViolation

text \<open>\<open>INSERT ... ON CONFLICT DO NOTHING\<close>; both columns reference \<open>tasks\<close>.\<close>

definition insert_edge :: "string \<Rightarrow> string \<Rightarrow> dep_db \<Rightarrow> dep_error + bool \<times> dep_db" where
  "insert_edge taskId blockerId db =
     (let e = (uuid_in taskId, uuid_in blockerId) in
      if e \<in> set (task_dependencies db) then Inr (False, db)
      else if task_of taskId db = None \<or> task_of blockerId db = None then Inl ForeignKeyViolation
      else Inr (True, db\<lparr>task_dependencies := task_dependencies db @ [e]\<rparr>))"

definition post_dependency :: "(dep_db \<Rightarrow> dep_db) \<Rightarrow> string \<Rightarrow> string \<Rightarrow> string \<Rightarrow> dep_db \<Rightarrow> dep_error + dep_db" where
  "post_dependency meanwhile team task_param blocked_by db =
     (case resolveTaskId db team task_param of
        None \<Rightarrow> Inl DepNotFound
      | Some taskId \<Rightarrow>
          if blocked_by = [] then Inl DepMissing
          else (case resolveTaskId db team blocked_by of
              None \<Rightarrow> Inl DepNotFound
            | Some blockerId \<Rightarrow>
                if blockerId = taskId then Inl DepSelf
                else if wouldCreateCycle (task_dependencies db) taskId blockerId then Inl DepCycle
                else (case insert_edge taskId blockerId (meanwhile db) of
                    Inl e \<Rightarrow> Inl e
                  | Inr (False, db1) \<Rightarrow> Inl DepExists
                  | Inr (True, db1) \<Rightarrow> Inr (snd (reconcileBlockedStatus taskId None db1)))))"

text \<open>A row of the edge table is named by its id; the pair it holds is unique and stands for it.\<close>

definition delete_dependency :: "string \<Rightarrow> string \<Rightarrow> string \<Rightarrow> string \<times> string \<Rightarrow> dep_db \<Rightarrow> dep_error + dep_db" where
  "delete_dependency fresh team task_param dep db =
     (case resolveTaskId db team task_param of
        None \<Rightarrow> Inl DepNotFound
      | Some taskId \<Rightarrow>
          if dep \<in> set (task_dependencies db) \<and> fst dep = uuid_in taskId
             \<and> list_ex (\<lambda>t. t_id t = fst dep \<and> t_team_id t = team) (dep_tasks db)
          then Inr (wakeIfReady fresh taskId None (snd (reconcileBlockedStatus taskId None
            (db\<lparr>task_dependencies := filter (\<lambda>e. e \<noteq> dep) (task_dependencies db)\<rparr>))))
          else Inl DepNotFound)"

definition js_ws :: "char \<Rightarrow> bool" where
  "js_ws c \<longleftrightarrow> (of_char c :: nat) \<in> {9, 10, 11, 12, 13, 32, 160}"

definition js_trim :: "string \<Rightarrow> string" where
  "js_trim s = rev (dropWhile js_ws (rev (dropWhile js_ws s)))"

fun attachBlockers :: "string \<Rightarrow> string \<Rightarrow> string set \<Rightarrow> string list \<Rightarrow> dep_db \<Rightarrow> dep_error + dep_db" where
  "attachBlockers team taskId seen [] db = Inr db"
| "attachBlockers team taskId seen (raw # raws) db =
     (let trimmed = js_trim raw in
      if trimmed = [] then attachBlockers team taskId seen raws db
      else (case resolveTaskId db team trimmed of
          None \<Rightarrow> Inl DepNotFound
        | Some blockerId \<Rightarrow>
            if blockerId = taskId then Inl DepSelf
            else if blockerId \<in> seen then attachBlockers team taskId seen raws db
            else if wouldCreateCycle (task_dependencies db) taskId blockerId then Inl DepCycle
            else (case insert_edge taskId blockerId db of
                Inl e \<Rightarrow> Inl e
              | Inr (_, db1) \<Rightarrow> attachBlockers team taskId (insert blockerId seen) raws db1)))"

section \<open>The chain of blockers\<close>

text \<open>Found so far: only blockers reachable from the start, closed but for the last round.\<close>

definition chain_inv :: "(string \<times> string) list \<Rightarrow> string \<Rightarrow> string list \<times> string list \<Rightarrow> bool" where
  "chain_inv deps blocker s \<longleftrightarrow> set (snd s) \<subseteq> set (fst s)
     \<and> (\<forall>x \<in> set (fst s). (blocker, x) \<in> (set deps)\<^sup>+)
     \<and> (\<forall>b. (blocker, b) \<in> set deps \<longrightarrow> b \<in> set (fst s))
     \<and> (\<forall>x b. x \<in> set (fst s) \<and> x \<notin> set (snd s) \<and> (x, b) \<in> set deps \<longrightarrow> b \<in> set (fst s))"

lemma chain_inv_start: "chain_inv deps blocker (chain_start deps blocker)"
  by (auto simp: chain_inv_def chain_start_def Let_def blockers_of_def image_iff intro: r_into_trancl)

lemma in_blockers: "b \<in> set (blockers_of deps ts) \<longleftrightarrow> (\<exists>t \<in> set ts. (t, b) \<in> set deps)"
  by (force simp: blockers_of_def)

lemma set_round:
  "set (snd (chain_round deps (found, last_round))) = {b. (\<exists>t \<in> set last_round. (t, b) \<in> set deps) \<and> b \<notin> set found}"
  "set (fst (chain_round deps (found, last_round))) = set found \<union> {b. \<exists>t \<in> set last_round. (t, b) \<in> set deps}"
  by (auto simp: chain_round_def Let_def in_blockers)

lemma chain_inv_round:
  assumes "chain_inv deps blocker s"
  shows "chain_inv deps blocker (chain_round deps s)"
proof -
  obtain found last_round where s: "s = (found, last_round)" by fastforce
  note inv = assms [unfolded s chain_inv_def fst_conv snd_conv]
  have "(blocker, b) \<in> (set deps)\<^sup>+" if "t \<in> set last_round" "(t, b) \<in> set deps" for t b
    using inv that by (meson subsetD trancl_into_trancl)
  then show ?thesis unfolding s chain_inv_def set_round using inv by blast
qed

lemma chain_inv_chain: "chain_inv deps blocker s \<Longrightarrow> chain_inv deps blocker (chain deps s, [])"
proof (induction deps s rule: chain.induct)
  case (1 deps s)
  show ?case
  proof (cases "snd s = []")
    case True
    then show ?thesis using "1.prems" by (cases s) (simp add: chain.simps)
  next
    case False
    then show ?thesis using "1.IH" [OF False chain_inv_round] "1.prems" by (simp add: chain.simps [of deps s])
  qed
qed

lemma chain_reachable: "set (chain deps (chain_start deps blocker)) = {x. (blocker, x) \<in> (set deps)\<^sup>+}"
proof -
  let ?C = "set (chain deps (chain_start deps blocker))"
  have inv: "chain_inv deps blocker (chain deps (chain_start deps blocker), [])" by (rule chain_inv_chain [OF chain_inv_start])
  have closed: "x \<in> ?C \<Longrightarrow> (x, b) \<in> set deps \<Longrightarrow> b \<in> ?C" for x b
    using inv unfolding chain_inv_def fst_conv snd_conv by simp
  have "x \<in> ?C" if "(blocker, x) \<in> (set deps)\<^sup>+" for x
    using that
  proof (induction rule: trancl_induct)
    case (base y)
    then show ?case using inv by (simp add: chain_inv_def)
  next
    case (step y z)
    from closed [OF step.IH step.hyps(2)] show ?case .
  qed
  moreover have "(blocker, x) \<in> (set deps)\<^sup>+" if "x \<in> ?C" for x
    using inv that unfolding chain_inv_def fst_conv by simp
  ultimately show ?thesis by blast
qed

lemma wouldCreateCycle_iff: "wouldCreateCycle deps t b \<longleftrightarrow> t = b \<or> (uuid_in b, uuid_in t) \<in> (set deps)\<^sup>+"
  by (simp add: wouldCreateCycle_def chain_reachable)

lemma cycle_closed:
  assumes "acyclic (set deps)" and "t = b \<longleftrightarrow> uuid_in t = uuid_in b"
  shows "wouldCreateCycle deps t b \<longleftrightarrow> \<not> acyclic (insert (uuid_in t, uuid_in b) (set deps))"
  using assms by (auto simp: wouldCreateCycle_iff acyclic_insert rtrancl_eq_or_trancl)

section \<open>The rounds\<close>

lemma rounds_left:
  "\<exists>n \<le> Suc (card (snd ` set deps - set (fst s))). snd ((chain_round deps ^^ n) s) = [] \<and> chain deps s = fst ((chain_round deps ^^ n) s)"
proof (induction deps s rule: chain.induct)
  case (1 deps s)
  show ?case
  proof (cases "snd s = []")
    case True
    then show ?thesis by (intro exI [of _ 0]) (simp add: chain.simps)
  next
    case False
    then obtain n where n: "n \<le> Suc (card (snd ` set deps - set (fst (chain_round deps s))))"
      "snd ((chain_round deps ^^ n) (chain_round deps s)) = []"
      "chain deps (chain_round deps s) = fst ((chain_round deps ^^ n) (chain_round deps s))" using "1.IH" by blast
    have eq: "chain deps s = chain deps (chain_round deps s)" using False by (simp add: chain.simps [of deps s])
    show ?thesis
    proof (cases "snd (chain_round deps s) = []")
      case True
      then show ?thesis using eq by (intro exI [of _ 1]) (simp add: chain.simps [of deps "chain_round deps s"])
    next
      case more: False
      then show ?thesis using n eq round_progress [OF more] by (intro exI [of _ "Suc n"]) (simp add: funpow_swap1)
    qed
  qed
qed

section \<open>What a status change leaves alone\<close>

definition open_ids :: "dep_db \<Rightarrow> string set" where
  "open_ids db = t_id ` {t \<in> set (dep_tasks db). \<not> terminal (t_status t)}"

definition task_ids :: "dep_db \<Rightarrow> string list" where
  "task_ids db = map t_id (dep_tasks db)"

text \<open>The primary key of \<open>tasks\<close>: uuid values, no two alike.\<close>

definition wf_ids :: "dep_db \<Rightarrow> bool" where
  "wf_ids db \<longleftrightarrow> distinct (task_ids db) \<and> (\<forall>i \<in> set (task_ids db). uuid_in i = i)"

lemma ascii_lower_idem [simp]: "ascii_lower (ascii_lower c) = ascii_lower c"
  by (simp add: ascii_lower_def Let_def of_char_of)

lemma uuid_in_idem [simp]: "uuid_in (uuid_in s) = uuid_in s"
  by (simp add: uuid_in_def comp_def)

lemma hasOpenBlockers_iff: "hasOpenBlockers db i \<longleftrightarrow> (\<exists>b. (uuid_in i, b) \<in> set (task_dependencies db) \<and> b \<in> open_ids db)"
  unfolding hasOpenBlockers_def list_ex_iff open_ids_def by auto

lemma task_of_Some: "task_of i db = Some t \<Longrightarrow> t \<in> set (dep_tasks db) \<and> t_id t = uuid_in i"
  by (auto simp: task_of_def find_Some_iff)

lemma task_of_None: "task_of i db = None \<longleftrightarrow> uuid_in i \<notin> set (task_ids db)"
  by (force simp: task_of_def find_None_iff task_ids_def)

lemma task_of_uuid [simp]: "task_of (uuid_in i) db = task_of i db"
  by (simp add: task_of_def)

lemma status_of_uuid [simp]: "status_of (uuid_in i) db = status_of i db"
  by (simp add: status_of_def)

lemma hasOpenBlockers_uuid [simp]: "hasOpenBlockers db (uuid_in i) = hasOpenBlockers db i"
  by (simp add: hasOpenBlockers_iff)

lemma same_uuid:
  assumes "uuid_in j = uuid_in i"
  shows "status_of j db = status_of i db" and "hasOpenBlockers db j = hasOpenBlockers db i"
  using assms status_of_uuid [of i db] status_of_uuid [of j db] hasOpenBlockers_uuid [of db i] hasOpenBlockers_uuid [of db j] by simp_all

lemma find_updated:
  "(\<And>t. key (f t) = key t) \<Longrightarrow> find (\<lambda>t. key t = k) (map (\<lambda>t. if P t then f t else t) ts)
     = map_option (\<lambda>t. if P t then f t else t) (find (\<lambda>t. key t = k) ts)"
  by (induction ts) auto

lemma status_set_status:
  "status_of j (set_status i s db) = (if uuid_in j = uuid_in i \<and> status_of i db \<noteq> None then Some s else status_of j db)"
proof -
  have "task_of j (set_status i s db) = map_option (\<lambda>t. if t_id t = uuid_in i then t\<lparr>t_status := s\<rparr> else t) (task_of j db)"
    unfolding task_of_def set_status_def by (simp add: find_updated)
  moreover have "task_of i db = task_of j db" if "uuid_in j = uuid_in i" using that by (simp add: task_of_def)
  ultimately show ?thesis using task_of_Some [of j db] by (cases "task_of j db") (auto simp: status_of_def)
qed

lemma set_status_fields [simp]:
  "task_dependencies (set_status i s db) = task_dependencies db" "task_ids (set_status i s db) = task_ids db"
  "dep_queue (set_status i s db) = dep_queue db" "member_agents (set_status i s db) = member_agents db"
  "active_runs (set_status i s db) = active_runs db"
  by (auto simp: set_status_def task_ids_def)

lemma task_of_member: "wf_ids db \<Longrightarrow> t \<in> set (dep_tasks db) \<Longrightarrow> task_of (t_id t) db = Some t"
proof (cases "task_of (t_id t) db")
  case (Some u)
  assume "wf_ids db" "t \<in> set (dep_tasks db)"
  then show ?thesis using task_of_Some [OF Some] Some by (auto simp: wf_ids_def task_ids_def distinct_map inj_on_def)
qed (auto simp: task_of_None wf_ids_def task_ids_def)

lemma open_iff: "wf_ids db \<Longrightarrow> i \<in> open_ids db \<longleftrightarrow> uuid_in i = i \<and> (\<exists>s. status_of i db = Some s \<and> \<not> terminal s)"
proof -
  assume wf: "wf_ids db"
  have "uuid_in i = i \<and> (\<exists>s. status_of i db = Some s \<and> \<not> terminal s)" if "i \<in> open_ids db"
    using that wf task_of_member [OF wf] by (auto simp: open_ids_def status_of_def wf_ids_def task_ids_def)
  moreover have "i \<in> open_ids db" if "uuid_in i = i" "status_of i db = Some s" "\<not> terminal s" for s
    using that task_of_Some [of i db] by (force simp: open_ids_def status_of_def)
  ultimately show ?thesis by blast
qed

definition derived_at :: "string \<Rightarrow> dep_db \<Rightarrow> bool" where
  "derived_at i db \<longleftrightarrow> (\<forall>s. status_of i db = Some s \<longrightarrow> \<not> terminal s \<longrightarrow> (s = Blocked \<longleftrightarrow> hasOpenBlockers db i))"

text \<open>Everything the derivation reads of other tasks.\<close>

definition same_graph :: "dep_db \<Rightarrow> dep_db \<Rightarrow> bool" where
  "same_graph db db' \<longleftrightarrow> task_dependencies db' = task_dependencies db \<and> task_ids db' = task_ids db
     \<and> (wf_ids db \<longrightarrow> open_ids db' = open_ids db)"

lemma same_graph_refl [simp]: "same_graph db db"
  by (simp add: same_graph_def)

lemma same_graph_wf: "same_graph db db' \<Longrightarrow> wf_ids db' = wf_ids db"
  by (simp add: same_graph_def wf_ids_def)

lemma same_graph_trans: "same_graph a b \<Longrightarrow> same_graph b c \<Longrightarrow> same_graph a c"
  using same_graph_wf [of a b] by (simp add: same_graph_def)

lemma same_graph_open: "same_graph db db' \<Longrightarrow> wf_ids db \<Longrightarrow> hasOpenBlockers db' i = hasOpenBlockers db i"
  by (simp add: same_graph_def hasOpenBlockers_iff)

lemma same_graph_set_status:
  assumes "status_of i db = Some old" and "terminal s = terminal old"
  shows "same_graph db (set_status i s db)"
proof -
  have "open_ids (set_status i s db) = open_ids db" if wf: "wf_ids db"
  proof -
    have wf': "wf_ids (set_status i s db)" using wf by (simp add: wf_ids_def)
    have "j \<in> open_ids (set_status i s db) \<longleftrightarrow> j \<in> open_ids db" for j
      using assms same_uuid(1) [of j i db] by (auto simp: open_iff [OF wf] open_iff [OF wf'] status_set_status)
    then show ?thesis by blast
  qed
  then show ?thesis by (simp add: same_graph_def)
qed

lemma recorded_fields [simp]:
  "dep_tasks (recordStatusChange i a b c db) = dep_tasks db" "task_dependencies (recordStatusChange i a b c db) = task_dependencies db"
  "dep_queue (recordStatusChange i a b c db) = dep_queue db" "member_agents (recordStatusChange i a b c db) = member_agents db"
  "active_runs (recordStatusChange i a b c db) = active_runs db"
  by (simp_all add: recordStatusChange_def)

lemma by_tasks:
  "dep_tasks db' = dep_tasks db \<Longrightarrow> status_of i db' = status_of i db" "dep_tasks db' = dep_tasks db \<Longrightarrow> task_ids db' = task_ids db"
  "dep_tasks db' = dep_tasks db \<Longrightarrow> open_ids db' = open_ids db"
  by (simp_all add: status_of_def task_of_def task_ids_def open_ids_def)

lemma recorded_same [simp]:
  "status_of j (recordStatusChange i a b c db) = status_of j db" "task_ids (recordStatusChange i a b c db) = task_ids db"
  "open_ids (recordStatusChange i a b c db) = open_ids db"
  by (rule by_tasks; simp)+

lemma wake_fields [simp]:
  "dep_tasks (wakeIfReady fresh i run db) = dep_tasks db" "task_dependencies (wakeIfReady fresh i run db) = task_dependencies db"
  "member_agents (wakeIfReady fresh i run db) = member_agents db" "active_runs (wakeIfReady fresh i run db) = active_runs db"
  by (simp_all add: wakeIfReady_def Let_def split: option.splits prod.splits bool.splits)

lemma wake_same [simp]:
  "status_of j (wakeIfReady fresh i run db) = status_of j db" "task_ids (wakeIfReady fresh i run db) = task_ids db"
  "open_ids (wakeIfReady fresh i run db) = open_ids db"
  by (rule by_tasks; simp)+

lemma blocked_target_terminal: "blocked_target b s = Some t \<Longrightarrow> \<not> terminal t"
  by (auto simp: blocked_target_def terminal_def TERMINAL_TASK_STATUSES_def split: if_splits)

lemma reconcile_same: "same_graph db (snd (reconcileBlockedStatus i c db))"
proof (cases "status_of i db")
  case (Some old)
  show ?thesis
  proof (cases "terminal old \<or> blocked_target (hasOpenBlockers db i) old = None")
    case False
    then obtain t where t: "blocked_target (hasOpenBlockers db i) old = Some t" by auto
    have "same_graph db (set_status i t db)"
      using same_graph_set_status [OF Some] blocked_target_terminal [OF t] False by simp
    then show ?thesis using Some False t by (simp add: reconcileBlockedStatus_def same_graph_def)
  qed (use Some in \<open>auto simp: reconcileBlockedStatus_def\<close>)
qed (simp add: reconcileBlockedStatus_def)

lemma reconcile_status:
  "status_of j (snd (reconcileBlockedStatus i c db)) =
     (case status_of i db of
        Some s \<Rightarrow> if uuid_in j = uuid_in i \<and> \<not> terminal s
          then Some (if hasOpenBlockers db i then Blocked else if s = Blocked then Backlog else s) else status_of j db
      | None \<Rightarrow> status_of j db)"
proof (cases "status_of i db")
  case (Some s)
  then show ?thesis using same_uuid(1) [of j i db]
    by (auto simp: reconcileBlockedStatus_def blocked_target_def status_set_status)
qed (simp add: reconcileBlockedStatus_def)

lemma reconcile_derives:
  assumes "wf_ids db"
  shows "derived_at i (snd (reconcileBlockedStatus i c db))"
    and "derived_at j db \<Longrightarrow> derived_at j (snd (reconcileBlockedStatus i c db))"
  using same_graph_open [OF reconcile_same assms, of i c] same_uuid [of j i db]
  by (auto simp: derived_at_def reconcile_status split: option.splits if_splits)

lemma reconcile_each_derives:
  assumes "wf_ids db"
  shows "same_graph db (reconcile_each fresh c run ds db)
    \<and> (\<forall>j. j \<in> set ds \<or> derived_at j db \<longrightarrow> derived_at j (reconcile_each fresh c run ds db))"
  using assms
proof (induction ds arbitrary: db)
  case (Cons d ds)
  let ?db1 = "snd (reconcileBlockedStatus d c db)"
  let ?db2 = "if fst (reconcileBlockedStatus d c db) = Some Backlog \<or> fst (reconcileBlockedStatus d c db) = None then wakeIfReady (fresh d) d run ?db1 else ?db1"
  have step: "reconcile_each fresh c run (d # ds) db = reconcile_each fresh c run ds ?db2" by (simp split: prod.split)
  have same1: "same_graph db ?db1" by (rule reconcile_same)
  then have same2: "same_graph db ?db2" by (simp add: same_graph_def)
  have d2: "wf_ids ?db2" using same2 Cons.prems by (simp add: same_graph_wf)
  have "derived_at j ?db2 = derived_at j ?db1" for j by (simp add: derived_at_def hasOpenBlockers_iff)
  then have "derived_at j ?db2" if "j = d \<or> derived_at j db" for j using reconcile_derives [OF Cons.prems] that by auto
  then show ?case using Cons.IH [OF d2] same_graph_trans [OF same2] unfolding step by auto
qed simp

section \<open>Properties of the graph\<close>

text \<open>
  (C38) The recursive query that looks for a cycle ends on every graph, one that already has cycles
  included: after at most one round more than there are blocking tasks a round finds nothing new, the
  result is what was found by then, and it is exactly the tasks that block the start directly or through
  others.
\<close>

theorem cycle_check_terminates:
  "(\<exists>n \<le> Suc (card (snd ` set deps)). snd ((chain_round deps ^^ n) (chain_start deps blocker)) = []
       \<and> chain deps (chain_start deps blocker) = fst ((chain_round deps ^^ n) (chain_start deps blocker)))
   \<and> set (chain deps (chain_start deps blocker)) = {x. (blocker, x) \<in> (set deps)\<^sup>+}"
proof -
  have "card (snd ` set deps - A) \<le> card (snd ` set deps)" for A by (simp add: card_mono)
  then show ?thesis using rounds_left [of deps "chain_start deps blocker"] chain_reachable
    by (meson Suc_le_mono order_trans)
qed

text \<open>
  (C25) The check before an edge is exact: on a graph without cycles, for two references that name
  the same task only when they are the same text, it answers yes exactly when the new edge would close a
  cycle.
\<close>

theorem cycle_check_exact:
  assumes "acyclic (set deps)" and "t = b \<longleftrightarrow> uuid_in t = uuid_in b"
  shows "wouldCreateCycle deps t b \<longleftrightarrow> \<not> acyclic (insert (uuid_in t, uuid_in b) (set deps))"
  by (rule cycle_closed [OF assms])

theorem cycle_check_exact_witness:
  "wouldCreateCycle [(''b'', ''c''), (''c'', ''d'')] ''d'' ''b''
   \<and> \<not> acyclic (insert (uuid_in ''d'', uuid_in ''b'') (set [(''b'', ''c''), (''c'', ''d'')]))"
proof -
  have a: "acyclic (set [(''b'', ''c''), (''c'', ''d'')])" by (rule acyclicI_order [of _ "\<lambda>s. - int (of_char (hd s))"]) auto
  have b: "''d'' = ''b'' \<longleftrightarrow> uuid_in ''d'' = uuid_in ''b''" by (simp add: uuid_in_def ascii_lower_def)
  have c: "wouldCreateCycle [(''b'', ''c''), (''c'', ''d'')] ''d'' ''b''" by code_simp
  show ?thesis by (rule conjI [OF c cycle_check_exact [THEN iffD1, OF a b c]])
qed

lemma ended_well: "(case r of Inl _ \<Rightarrow> False | Inr y \<Rightarrow> P y) \<Longrightarrow> \<exists>y. r = Inr y \<and> P y"
  by (cases r) auto

lemma ended_badly: "(case r of Inl e \<Rightarrow> e = x | Inr _ \<Rightarrow> False) \<Longrightarrow> r = Inl x"
  by (cases r) auto

definition demo_id :: string where
  "demo_id = ''0a000000-0000-4000-8000-000000000001''"

definition demo_id_upper :: string where
  "demo_id_upper = ''0A000000-0000-4000-8000-000000000001''"

definition demo_other :: string where
  "demo_other = ''0a000000-0000-4000-8000-000000000002''"

definition demo_tasks :: dep_db where
  "demo_tasks = \<lparr>dep_tasks = map (\<lambda>(i, ident). \<lparr>t_id = i, t_identifier = ident, t_team_id = ''a'', t_project_id = ''p'',
       t_parent_task_id = None, t_assignee_id = None, t_status = Backlog\<rparr>) [(demo_id, ''BE-1''), (demo_other, ''BE-2'')],
     task_dependencies = [], dep_queue = \<lparr>wakeups = [], w_now = 0\<rparr>, member_agents = {}, active_runs = [], events = []\<rparr>"

text \<open>
  (Lemma) A reference given as a uuid is checked less than one given as an identifier. Written in the
  other case, the uuid of the task itself passes both comparisons with the task and the task is then
  blocked by itself; and a caller of another team, whose identifiers do not resolve, blocks this team's task.
\<close>

theorem uuid_reference_unchecked:
  "(\<exists>db. post_dependency (\<lambda>d. d) ''a'' demo_id demo_id_upper demo_tasks = Inr db
      \<and> task_dependencies db = [(demo_id, demo_id)] \<and> status_of demo_id db = Some Blocked)
   \<and> (\<exists>db. post_dependency (\<lambda>d. d) ''b'' demo_id demo_other demo_tasks = Inr db \<and> status_of demo_id db = Some Blocked)
   \<and> post_dependency (\<lambda>d. d) ''b'' ''BE-1'' ''BE-2'' demo_tasks = Inl DepNotFound"
  by (intro conjI ended_well ended_badly; code_simp)

text \<open>
  (Lemma) The check and the insert are two statements. When the opposite edge is added between them,
  both requests succeed and the graph has a cycle.
\<close>

theorem concurrent_edges_make_cycle:
  "\<exists>db. post_dependency (\<lambda>d. case post_dependency (\<lambda>d. d) ''a'' ''BE-2'' ''BE-1'' d of Inl _ \<Rightarrow> d | Inr d' \<Rightarrow> d') ''a'' ''BE-1'' ''BE-2'' demo_tasks = Inr db
     \<and> \<not> acyclic (set (task_dependencies db)) \<and> status_of demo_id db = Some Blocked \<and> status_of demo_other db = Some Blocked"
proof -
  let ?r = "post_dependency (\<lambda>d. case post_dependency (\<lambda>d. d) ''a'' ''BE-2'' ''BE-1'' d of Inl _ \<Rightarrow> d | Inr d' \<Rightarrow> d') ''a'' ''BE-1'' ''BE-2'' demo_tasks"
  have "\<exists>db. ?r = Inr db \<and> (task_dependencies db = [(demo_other, demo_id), (demo_id, demo_other)]
      \<and> status_of demo_id db = Some Blocked \<and> status_of demo_other db = Some Blocked)"
    by (rule ended_well) code_simp
  moreover have "\<not> acyclic {(demo_other, demo_id), (demo_id, demo_other)}"
    by (meson acyclic_def insertI1 insertI2 r_into_trancl trancl_trans)
  ultimately show ?thesis by auto
qed

end
