(* ===== verification/Task_Tree.thy ===== *)
theory Task_Tree
  imports Task_Dependencies
begin

text \<open>
  Sub-tasks and the writes of a task: \<open>lib/task-relationships.ts\<close> (the walks up and down the tree, the
  depth cap, the parent a task may be moved under, the checks before a task is closed),
  \<open>lib/reassign-guard.ts\<close>, the update route of \<open>routes/tasks.ts\<close> for the fields status, assignee and
  parent, \<open>createTask\<close> of \<open>services/tasks.ts\<close> and the status flip a run starts with in
  \<open>services/agent-runner.ts\<close>. Together with the dependency requests they are the steps that write a
  task's status, its parent or an edge, and the theory shows what every sequence of them keeps.

  The checks on agents' \<open>@admin\<close> questions and task suggestions guard the agents' own update tool and
  are not part of this route; what the update starts in the background (ending the runs of a cancelled
  task, retiring a Coach review) writes neither tasks nor edges.
\<close>

section \<open>Where a task sits\<close>

definition MAX_SUB_TASK_DEPTH :: nat where
  "MAX_SUB_TASK_DEPTH = 3"

definition TREE_WALK_LIMIT :: nat where
  "TREE_WALK_LIMIT = MAX_SUB_TASK_DEPTH + 2"

record ParentPlacement =
  parentFound :: bool
  parentProjectId :: "string option"
  parentIdentifier :: "string option"
  parentStatus :: "TaskStatus option"
  parentDepth :: nat
  movingHeight :: nat
  parentInMovingSubtree :: bool

text \<open>
  \<open>WITH RECURSIVE ... UNION ALL\<close> with the depth as a column: the rows of one round all have the same
  depth, and a round is followed by another while that depth is below the limit.
\<close>

function tree_walk :: "(dep_task \<Rightarrow> dep_task list) \<Rightarrow> nat \<Rightarrow> dep_task list \<Rightarrow> (dep_task \<times> nat) list" where
  "tree_walk next_rows depth rows = map (\<lambda>r. (r, depth)) rows
     @ (if depth < TREE_WALK_LIMIT then tree_walk next_rows (depth + 1) (concat (map next_rows rows)) else [])"
  by pat_completeness auto
termination by (relation "measure (\<lambda>(_, depth, _). TREE_WALK_LIMIT - depth)") auto

declare tree_walk.simps [simp del]

definition seed :: "dep_db \<Rightarrow> string \<Rightarrow> string \<Rightarrow> dep_task list" where
  "seed db team i = filter (\<lambda>t. t_id t = uuid_in i \<and> t_team_id t = team) (dep_tasks db)"

definition parents_in :: "dep_db \<Rightarrow> string \<Rightarrow> dep_task \<Rightarrow> dep_task list" where
  "parents_in db team a = filter (\<lambda>p. t_parent_task_id a = Some (t_id p) \<and> t_team_id p = team) (dep_tasks db)"

definition children_in :: "dep_db \<Rightarrow> string \<Rightarrow> dep_task \<Rightarrow> dep_task list" where
  "children_in db team d = filter (\<lambda>c. t_parent_task_id c = Some (t_id d) \<and> t_team_id c = team) (dep_tasks db)"

definition deepest :: "(dep_task \<times> nat) list \<Rightarrow> nat" where
  "deepest rows = foldr max (map snd rows) 0"

definition measureParentPlacement :: "dep_db \<Rightarrow> string \<Rightarrow> string \<Rightarrow> string option \<Rightarrow> ParentPlacement" where
  "measureParentPlacement db team parent moving =
     (let ancestors = tree_walk (parents_in db team) 0 (seed db team parent);
          descendants = tree_walk (children_in db team) 0 (case moving of None \<Rightarrow> [] | Some m \<Rightarrow> seed db team m);
          found = map fst (filter (\<lambda>(r, d). d = 0) ancestors)
      in \<lparr>parentFound = found \<noteq> [],
          parentProjectId = (case found of [] \<Rightarrow> None | r # _ \<Rightarrow> Some (t_project_id r)),
          parentIdentifier = (case found of [] \<Rightarrow> None | r # _ \<Rightarrow> Some (t_identifier r)),
          parentStatus = (case found of [] \<Rightarrow> None | r # _ \<Rightarrow> Some (t_status r)),
          parentDepth = deepest ancestors, movingHeight = deepest descendants,
          parentInMovingSubtree = list_ex (\<lambda>(r, d). t_id r = uuid_in parent) descendants\<rparr>)"

definition depthFits :: "ParentPlacement \<Rightarrow> bool" where
  "depthFits placement \<longleftrightarrow> parentDepth placement + 1 + movingHeight placement \<le> MAX_SUB_TASK_DEPTH"

datatype task_error =
    TaskNotFound | ParentNotFound | OwnParent | OtherProject | InsideSubtree | TooDeep | ClosedParent
  | ChildrenOpen | Outstanding | NullAssignee | ThirdPartyRun | Dependency dep_error

definition assertChildDepthAllowed :: "dep_db \<Rightarrow> string \<Rightarrow> string \<Rightarrow> task_error option" where
  "assertChildDepthAllowed db team parent =
     (let placement = measureParentPlacement db team parent None
      in if \<not> parentFound placement then Some ParentNotFound
         else if \<not> depthFits placement then Some TooDeep
         else None)"

record ReparentSubject =
  rs_taskId :: string
  rs_projectId :: string
  rs_currentParentTaskId :: "string option"
  rs_status :: TaskStatus

text \<open>The resolved parent and whether it is a change.\<close>

definition resolveParentAssignment ::
  "dep_db \<Rightarrow> string \<Rightarrow> ReparentSubject \<Rightarrow> string option \<Rightarrow> task_error + (string option \<times> bool)" where
  "resolveParentAssignment db team subject rawParent =
     (let trimmed = (case rawParent of None \<Rightarrow> [] | Some r \<Rightarrow> js_trim r) in
      if trimmed = [] then Inr (None, rs_currentParentTaskId subject \<noteq> None)
      else (case resolveTaskId db team trimmed of
          None \<Rightarrow> Inl ParentNotFound
        | Some parent \<Rightarrow>
            if parent = rs_taskId subject then Inl OwnParent
            else if Some parent = rs_currentParentTaskId subject then Inr (Some parent, False)
            else (let placement = measureParentPlacement db team parent (Some (rs_taskId subject))
              in if \<not> parentFound placement then Inl ParentNotFound
                 else if parentProjectId placement \<noteq> Some (rs_projectId subject) then Inl OtherProject
                 else if parentInMovingSubtree placement then Inl InsideSubtree
                 else if \<not> depthFits placement then Inl TooDeep
                 else if (case parentStatus placement of None \<Rightarrow> False
                     | Some s \<Rightarrow> terminal s \<and> \<not> terminal (rs_status subject)) then Inl ClosedParent
                 else Inr (Some parent, True))))"

section \<open>Checks before a write\<close>

definition PING_WAKEUP_SOURCES :: "WakeupSource list" where
  "PING_WAKEUP_SOURCES = [Mention, Comment, Reply]"

definition assertNoOutstandingActivity :: "dep_db \<Rightarrow> string \<Rightarrow> string option \<Rightarrow> bool" where
  "assertNoOutstandingActivity db taskId caller \<longleftrightarrow>
     \<not> list_ex (\<lambda>(m, t). t = uuid_in taskId \<and> caller \<noteq> Some m) (active_runs db)
     \<and> \<not> list_ex (\<lambda>w. field (w_payload w) ''task_id'' = Some taskId \<and> caller \<noteq> Some (w_member_id w)
          \<and> w_source w \<in> set PING_WAKEUP_SOURCES \<and> w_status w \<in> set ACTIVE_WAKEUP_STATUSES) (wakeups (dep_queue db))"

definition assertNoBlockingRun :: "dep_db \<Rightarrow> string \<Rightarrow> string option \<Rightarrow> string option \<Rightarrow> bool" where
  "assertNoBlockingRun db taskId callerMemberId incomingAssigneeId \<longleftrightarrow>
     \<not> list_ex (\<lambda>(m, t). t = uuid_in taskId \<and> callerMemberId \<noteq> Some m \<and> map_option uuid_in incomingAssigneeId \<noteq> Some m) (active_runs db)"

section \<open>Updating a task\<close>

text \<open>The fields of the request body: absent, or the value sent; null for an assignee or a parent is a value.\<close>

record task_patch =
  p_status :: "TaskStatus option"
  p_assignee_id :: "string option option"
  p_parent_task_id :: "string option option"

definition set_row :: "string \<Rightarrow> (dep_task \<Rightarrow> dep_task) \<Rightarrow> dep_db \<Rightarrow> dep_db" where
  "set_row taskId f db = db\<lparr>dep_tasks := map (\<lambda>t. if t_id t = uuid_in taskId then f t else t) (dep_tasks db)\<rparr>"

text \<open>The columns of the update: \<open>moved\<close> and \<open>parent_changed\<close> say which of the two ids are among them.\<close>

definition patched_row :: "TaskStatus option \<Rightarrow> bool \<Rightarrow> string option \<Rightarrow> bool \<Rightarrow> string option \<Rightarrow> dep_task \<Rightarrow> dep_task" where
  "patched_row status moved assignee parent_changed parent t = t\<lparr>
     t_status := (case status of Some s \<Rightarrow> s | None \<Rightarrow> t_status t),
     t_assignee_id := (if moved then map_option uuid_in assignee else t_assignee_id t),
     t_parent_task_id := (if parent_changed then map_option uuid_in parent else t_parent_task_id t)\<rparr>"

text \<open>The transaction: the checks in their order, then one update of the columns that change.\<close>

definition patch_transaction ::
  "string \<Rightarrow> string \<Rightarrow> task_patch \<Rightarrow> dep_db \<Rightarrow> task_error + (dep_task \<times> (dep_task \<Rightarrow> dep_task)) option" where
  "patch_transaction team taskId body db =
     (case find (\<lambda>t. t_id t = uuid_in taskId \<and> t_team_id t = team) (dep_tasks db) of
        None \<Rightarrow> Inl TaskNotFound
      | Some existing \<Rightarrow>
          if p_status body = Some Done \<and> t_status existing \<noteq> Done \<and> \<not> assertChildrenAllClosed db team taskId then Inl ChildrenOpen
          else if p_status body = Some Done \<and> t_status existing \<noteq> Done \<and> \<not> assertNoOutstandingActivity db taskId None then Inl Outstanding
          else
            (let status = map_option (coerceTargetStatusForBlockers db taskId) (p_status body)
             in case (case p_parent_task_id body of
                  None \<Rightarrow> Inr (None, False)
                | Some raw \<Rightarrow> resolveParentAssignment db team \<lparr>rs_taskId = taskId, rs_projectId = t_project_id existing,
                    rs_currentParentTaskId = t_parent_task_id existing, rs_status = t_status existing\<rparr> raw) of
                 Inl e \<Rightarrow> Inl e
               | Inr (parent, parent_changed) \<Rightarrow>
                   if p_assignee_id body = Some None then Inl NullAssignee
                   else
                     (let assignee = (case p_assignee_id body of Some a \<Rightarrow> a | None \<Rightarrow> None);
                          moved = p_assignee_id body \<noteq> None \<and> assignee \<noteq> t_assignee_id existing
                      in if moved \<and> \<not> assertNoBlockingRun db taskId None assignee then Inl ThirdPartyRun
                         else if (case status of Some s \<Rightarrow> s = t_status existing | None \<Rightarrow> True) \<and> \<not> moved \<and> \<not> parent_changed then Inr None
                         else Inr (Some (existing, patched_row status moved assignee parent_changed parent)))))"

definition wake_assigned :: "string \<Rightarrow> string \<Rightarrow> string option \<Rightarrow> string \<Rightarrow> WakeupSource \<Rightarrow> payload \<Rightarrow> dep_db \<Rightarrow> dep_db" where
  "wake_assigned fresh team assignee taskId source extra db =
     db\<lparr>dep_queue := wakeAgentIfAssigned (\<lambda>d. d) (member_agents db) fresh assignee team taskId source extra None (dep_queue db)\<rparr>"

text \<open>What follows the commit, in the route's order.\<close>

definition after_patch ::
  "(string \<Rightarrow> string) \<Rightarrow> string option \<Rightarrow> string \<Rightarrow> string \<Rightarrow> dep_task \<Rightarrow> dep_task \<Rightarrow> dep_db \<Rightarrow> dep_db" where
  "after_patch fresh coach team taskId before updated db =
     (let db1 = (if truthy (t_assignee_id updated) \<and> t_assignee_id updated \<noteq> t_assignee_id before
                 then wake_assigned (fresh ''assigned'') team (t_assignee_id updated) taskId Assignment Map.empty db else db);
          db2 = (if t_status before \<noteq> t_status updated \<and> terminal (t_status before) \<and> \<not> terminal (t_status updated)
                 then wake_assigned (fresh ''reopened'') team (t_assignee_id before) taskId Automation [''trigger'' \<mapsto> Text ''task_reopened''] db1 else db1);
          db3 = (if t_parent_task_id before \<noteq> t_parent_task_id updated \<and> truthy (t_parent_task_id before)
                 then wakeTaskIfChildrenClosed (fresh ''former parent'') team (the (t_parent_task_id before)) None db2 else db2)
      in if t_status before \<noteq> t_status updated
         then triggerStatusAutomations fresh coach team taskId (t_status before) (t_status updated) None db3 else db3)"

definition patch_task ::
  "(string \<Rightarrow> string) \<Rightarrow> string option \<Rightarrow> string \<Rightarrow> string \<Rightarrow> task_patch \<Rightarrow> dep_db \<Rightarrow> task_error + dep_db" where
  "patch_task fresh coach team task_param body db =
     (case resolveTaskId db team task_param of
        None \<Rightarrow> Inl TaskNotFound
      | Some taskId \<Rightarrow> (case patch_transaction team taskId body db of
            Inl e \<Rightarrow> Inl e
          | Inr None \<Rightarrow> Inr db
          | Inr (Some (before, f)) \<Rightarrow> Inr (after_patch fresh coach team taskId before (f before) (set_row taskId f db))))"

section \<open>Creating a task, starting a run\<close>

text \<open>
  Resolving the assignee, the goal link and the subordinate check read other tables; their outcome is
  the assignee. \<open>setupBlocker\<close> is the answer of \<open>pendingSetupReviewBlockerId\<close>, the id and identifier of
  the new row come from the database. An error in the transaction rolls the insert back.
\<close>

definition create_transaction ::
  "string \<Rightarrow> string \<Rightarrow> string \<Rightarrow> string \<Rightarrow> string option \<Rightarrow> string \<Rightarrow> string list \<Rightarrow> string option \<Rightarrow> dep_db \<Rightarrow> dep_error + dep_db" where
  "create_transaction newId identifier team project parent assignee blockedBy setupBlocker db =
     (let db0 = db\<lparr>dep_tasks := dep_tasks db @ [\<lparr>t_id = newId, t_identifier = identifier, t_team_id = team, t_project_id = project,
            t_parent_task_id = map_option uuid_in parent, t_assignee_id = Some (uuid_in assignee), t_status = Backlog\<rparr>]\<rparr>
      in case attachBlockers team newId {} blockedBy db0 of
          Inl e \<Rightarrow> Inl e
        | Inr db1 \<Rightarrow>
            (case (case setupBlocker of None \<Rightarrow> Inr db1 | Some b \<Rightarrow> map_sum id snd (insert_edge newId b db1)) of
               Inl e \<Rightarrow> Inl e
             | Inr db2 \<Rightarrow> Inr (if (blockedBy \<noteq> [] \<or> setupBlocker \<noteq> None) \<and> hasOpenBlockers db2 newId
                 then set_status newId Blocked db2 else db2)))"

definition create_task ::
  "string \<Rightarrow> string \<Rightarrow> string \<Rightarrow> string \<Rightarrow> string \<Rightarrow> string option \<Rightarrow> string \<Rightarrow> string list \<Rightarrow> string option \<Rightarrow> string option \<Rightarrow> dep_db
     \<Rightarrow> task_error + dep_db" where
  "create_task fresh newId identifier team project parent_ref assignee blockedBy setupBlocker run db =
     (case (if truthy parent_ref
            then (case resolveTaskId db team (the parent_ref) of
                None \<Rightarrow> Inl ParentNotFound
              | Some p \<Rightarrow> (case assertChildDepthAllowed db team p of Some e \<Rightarrow> Inl e | None \<Rightarrow> Inr (Some p)))
            else Inr None) of
        Inl e \<Rightarrow> Inl e
      | Inr parent \<Rightarrow>
          (case create_transaction newId identifier team project parent assignee blockedBy setupBlocker db of
             Inl e \<Rightarrow> Inl (Dependency e)
           | Inr db1 \<Rightarrow> Inr (if uuid_in assignee \<in> member_agents db1
               then db1\<lparr>dep_queue := snd (createWakeup (\<lambda>d. d) fresh (uuid_in assignee) team Assignment [''task_id'' \<mapsto> Text newId] None run (dep_queue db1))\<rparr>
               else db1)))"

text \<open>The run's own copy of the task decides, the update checks the row again.\<close>

definition start_run_flip :: "string \<Rightarrow> dep_task \<Rightarrow> dep_db \<Rightarrow> dep_db" where
  "start_run_flip agent task db =
     (if t_assignee_id task = Some agent \<and> t_status task = Backlog \<and> status_of (t_id task) db = Some Backlog
      then recordStatusChange (t_id task) Backlog InProgress None (set_status (t_id task) InProgress db)
      else db)"

section \<open>Blockers over MCP\<close>

text \<open>The scope's team and project are the answer of \<open>resolveScope\<close>; the actor only goes into the event.\<close>

definition findProjectTask :: "dep_db \<Rightarrow> string \<Rightarrow> string \<Rightarrow> string \<Rightarrow> string option" where
  "findProjectTask db team project raw =
     (case resolveTaskId db team raw of
        None \<Rightarrow> None
      | Some taskId \<Rightarrow> (case find (\<lambda>t. t_id t = uuid_in taskId \<and> t_team_id t = team) (dep_tasks db) of
            None \<Rightarrow> None
          | Some t \<Rightarrow> if t_project_id t = project then Some taskId else None))"

definition add_task_blocker ::
  "(dep_db \<Rightarrow> dep_db) \<Rightarrow> string \<Rightarrow> string \<Rightarrow> string \<Rightarrow> string \<Rightarrow> dep_db \<Rightarrow> dep_error + dep_db" where
  "add_task_blocker meanwhile team project task_id blocked_by db =
     (if task_id = [] then Inl DepMissing
      else case findProjectTask db team project task_id of
        None \<Rightarrow> Inl DepNotFound
      | Some taskId \<Rightarrow> (case resolveTaskId db team blocked_by of
            None \<Rightarrow> Inl DepNotFound
          | Some blockerId \<Rightarrow>
              if blockerId = taskId then Inl DepSelf
              else if wouldCreateCycle (task_dependencies db) taskId blockerId then Inl DepCycle
              else (case insert_edge taskId blockerId (meanwhile db) of
                  Inl e \<Rightarrow> Inl e
                | Inr (False, db1) \<Rightarrow> Inl DepExists
                | Inr (True, db1) \<Rightarrow> Inr (snd (reconcileBlockedStatus taskId None db1)))))"

definition remove_task_blocker ::
  "string \<Rightarrow> string \<Rightarrow> string \<Rightarrow> string \<Rightarrow> string \<Rightarrow> string option \<Rightarrow> dep_db \<Rightarrow> dep_error + dep_db" where
  "remove_task_blocker fresh team project task_id blocked_by run db =
     (if task_id = [] then Inl DepMissing
      else case findProjectTask db team project task_id of
        None \<Rightarrow> Inl DepNotFound
      | Some taskId \<Rightarrow> (case resolveTaskId db team blocked_by of
            None \<Rightarrow> Inl DepNotFound
          | Some blockerId \<Rightarrow>
              (let dep = (uuid_in taskId, uuid_in blockerId) in
               if dep \<in> set (task_dependencies db)
               then Inr (wakeIfReady fresh taskId run (snd (reconcileBlockedStatus taskId None
                 (db\<lparr>task_dependencies := filter (\<lambda>e. e \<noteq> dep) (task_dependencies db)\<rparr>))))
               else Inl DepNotFound)))"

section \<open>Steps\<close>

text \<open>A uuid as the database prints it; an identifier is always plain.\<close>

definition plain :: "string \<Rightarrow> bool" where
  "plain raw \<longleftrightarrow> (isUuid raw \<longrightarrow> uuid_in raw = raw)"

text \<open>
  The requests on the board, one at a time: adding and removing a blocker over the REST routes and over
  MCP, updating a task, creating one, and the flip to in progress when a run starts. A request that
  adds a blocker names both tasks by identifier, or by uuid as the database prints it
  (\<open>uuid_reference_unchecked\<close> shows what another spelling does). \<open>step_other\<close> changes the queue, the
  runs and the events only. The id of a new task is drawn by the database, so no row has it and no
  request names it.

  Not among the steps: \<open>createLabeledInternalTask\<close> (\<open>services/description-tasks.ts\<close>) and the planning
  task of \<open>services/project-create.ts\<close>, which insert a task as blocked together with its edge, and two
  requests whose check and write interleave (\<open>concurrent_edges_make_cycle\<close>).
\<close>

inductive task_step :: "dep_db \<Rightarrow> dep_db \<Rightarrow> bool" where
  step_post: "plain task_param \<Longrightarrow> plain blocked_by \<Longrightarrow> post_dependency (\<lambda>d. d) team task_param blocked_by db = Inr db'
    \<Longrightarrow> task_step db db'"
| step_delete: "delete_dependency fresh team task_param dep db = Inr db' \<Longrightarrow> task_step db db'"
| step_add: "plain task_param \<Longrightarrow> plain blocked_by \<Longrightarrow> add_task_blocker (\<lambda>d. d) team project task_param blocked_by db = Inr db'
    \<Longrightarrow> task_step db db'"
| step_remove: "remove_task_blocker fresh team project task_param blocked_by run db = Inr db' \<Longrightarrow> task_step db db'"
| step_patch: "patch_task freshes coach team task_param body db = Inr db' \<Longrightarrow> task_step db db'"
| step_create: "uuid_in newId = newId \<Longrightarrow> newId \<notin> set (task_ids db) \<union> uuid_in ` js_trim ` set blockedBy \<Longrightarrow> set_option setupBlocker \<subseteq> set (task_ids db)
    \<Longrightarrow> create_task fresh newId identifier team project parent assignee blockedBy setupBlocker run db = Inr db' \<Longrightarrow> task_step db db'"
| step_run: "task_step db (start_run_flip agent task db)"
| step_other: "dep_tasks db' = dep_tasks db \<Longrightarrow> task_dependencies db' = task_dependencies db \<Longrightarrow> task_step db db'"

section \<open>Blocked is derived\<close>

definition graph_inv :: "dep_db \<Rightarrow> bool" where
  "graph_inv db \<longleftrightarrow> wf_ids db \<and> (\<forall>(t, b) \<in> set (task_dependencies db). t \<in> set (task_ids db) \<and> b \<in> set (task_ids db))
     \<and> acyclic (set (task_dependencies db)) \<and> (\<forall>i. derived_at i db)"

lemma set_status_row: "set_status i s = set_row i (\<lambda>t. t\<lparr>t_status := s\<rparr>)"
  by (simp add: fun_eq_iff set_status_def set_row_def)

lemma task_of_set_row:
  assumes "\<And>t. t_id (f t) = t_id t"
  shows "task_of j (set_row i f db) = (if uuid_in j = uuid_in i then map_option f (task_of j db) else task_of j db)"
proof -
  have "task_of j (set_row i f db) = map_option (\<lambda>t. if t_id t = uuid_in i then f t else t) (task_of j db)"
    unfolding task_of_def set_row_def by (simp add: find_updated assms)
  then show ?thesis using task_of_Some [of j db] by (cases "task_of j db") auto
qed

lemma set_row_fields [simp]:
  "task_dependencies (set_row i f db) = task_dependencies db" "dep_queue (set_row i f db) = dep_queue db"
  by (simp_all add: set_row_def)

lemma set_row_ids: "(\<And>t. t_id (f t) = t_id t) \<Longrightarrow> task_ids (set_row i f db) = task_ids db"
  by (simp add: set_row_def task_ids_def)

lemma derived_uuid: "derived_at (uuid_in i) db = derived_at i db"
  by (simp add: derived_at_def)

lemma same_tasks_inv:
  assumes "dep_tasks db' = dep_tasks db" and "task_dependencies db' = task_dependencies db"
  shows "graph_inv db' = graph_inv db" and "derived_at i db' = derived_at i db" and "wf_ids db' = wf_ids db"
  using by_tasks [OF assms(1)] assms(2) by (simp_all add: graph_inv_def derived_at_def hasOpenBlockers_iff wf_ids_def)

text \<open>One task's status moves; who else has an open blocker can only change among its dependants.\<close>

lemma moved_open:
  assumes wf: "wf_ids db" "wf_ids db'" and deps: "task_dependencies db' = task_dependencies db"
    and others: "\<And>j. uuid_in j \<noteq> uuid_in i \<Longrightarrow> status_of j db' = status_of j db"
    and j: "(uuid_in j, uuid_in i) \<in> set (task_dependencies db) \<Longrightarrow> uuid_in i \<in> open_ids db' \<longleftrightarrow> uuid_in i \<in> open_ids db"
  shows "hasOpenBlockers db' j = hasOpenBlockers db j"
proof -
  have "b \<in> open_ids db' \<longleftrightarrow> b \<in> open_ids db" if "b \<noteq> uuid_in i" for b
    using that others [of b] by (cases "uuid_in b = b") (simp_all add: open_iff [OF wf(1)] open_iff [OF wf(2)])
  then have "(uuid_in j, b) \<in> set (task_dependencies db) \<Longrightarrow> b \<in> open_ids db' \<longleftrightarrow> b \<in> open_ids db" for b
    using j by (cases "b = uuid_in i") simp_all
  then show ?thesis unfolding hasOpenBlockers_iff deps by blast
qed

lemma moved_derived:
  assumes inv: "graph_inv db" and wf: "wf_ids db'" and deps: "task_dependencies db' = task_dependencies db"
    and others: "\<And>j. uuid_in j \<noteq> uuid_in i \<Longrightarrow> status_of j db' = status_of j db"
    and new: "status_of i db' = Some s" "\<not> terminal s \<Longrightarrow> s = Blocked \<longleftrightarrow> hasOpenBlockers db i"
    and j: "(uuid_in j, uuid_in i) \<in> set (task_dependencies db) \<Longrightarrow> uuid_in i \<in> open_ids db' \<longleftrightarrow> uuid_in i \<in> open_ids db"
  shows "derived_at j db'"
proof (cases "uuid_in j = uuid_in i")
  case True
  have "(uuid_in i, uuid_in i) \<notin> set (task_dependencies db)" using inv by (auto simp: graph_inv_def acyclic_def)
  then have "hasOpenBlockers db' i = hasOpenBlockers db i"
    by (intro moved_open [OF _ wf deps others]) (use inv in \<open>auto simp: graph_inv_def\<close>)
  then show ?thesis using new same_uuid [OF True, of db'] by (simp add: derived_at_def)
next
  case False
  then show ?thesis using moved_open [OF _ wf deps others j] others [OF False] inv by (simp add: graph_inv_def derived_at_def)
qed

lemma coerced_derives:
  "\<not> terminal (coerceTargetStatusForBlockers db i s) \<Longrightarrow> coerceTargetStatusForBlockers db i s = Blocked \<longleftrightarrow> hasOpenBlockers db i"
  by (auto simp: coerceTargetStatusForBlockers_def terminal_def TERMINAL_TASK_STATUSES_def)


lemma recompute_derives:
  assumes "wf_ids db" and "\<And>j. (uuid_in j, uuid_in i) \<notin> set (task_dependencies db) \<Longrightarrow> derived_at j db"
  shows "same_graph db (recomputeDownstreamReadiness fresh i run db)" and "derived_at j (recomputeDownstreamReadiness fresh i run db)"
proof -
  have "uuid_in j \<in> set (downstream_of i db) \<or> derived_at (uuid_in j) db" for j
    using assms(2) [of j] by (force simp: downstream_of_def derived_uuid)
  then show "same_graph db (recomputeDownstreamReadiness fresh i run db)" "derived_at j (recomputeDownstreamReadiness fresh i run db)"
    using reconcile_each_derives [OF assms(1)] derived_uuid unfolding recomputeDownstreamReadiness_def Let_def by blast+
qed

lemma wakes_keep_tasks [simp]:
  "dep_tasks (wakeTaskIfChildrenClosed f team p run db) = dep_tasks db" "task_dependencies (wakeTaskIfChildrenClosed f team p run db) = task_dependencies db"
  "dep_tasks (wakeParentIfChildrenClosed f team p run db) = dep_tasks db" "task_dependencies (wakeParentIfChildrenClosed f team p run db) = task_dependencies db"
  "dep_tasks (wake_assigned f team a i source extra db) = dep_tasks db" "task_dependencies (wake_assigned f team a i source extra db) = task_dependencies db"
  by (simp_all add: wakeTaskIfChildrenClosed_def wakeParentIfChildrenClosed_def wake_assigned_def split: option.split)

lemma automations_tasks:
  "dep_tasks (triggerStatusAutomations fresh coach team i old new run db)
     = dep_tasks (if terminal old \<noteq> terminal new then recomputeDownstreamReadiness fresh i run (recordStatusChange i old new None db) else db)"
  "task_dependencies (triggerStatusAutomations fresh coach team i old new run db)
     = task_dependencies (if terminal old \<noteq> terminal new then recomputeDownstreamReadiness fresh i run (recordStatusChange i old new None db) else db)"
  by (simp_all add: triggerStatusAutomations_def Let_def)

text \<open>A status written under the check, with the cascade that follows it.\<close>

lemma automations_derive:
  assumes inv: "graph_inv db" and wf: "wf_ids db'" and ids: "task_ids db' = task_ids db" and deps: "task_dependencies db' = task_dependencies db"
    and others: "\<And>j. uuid_in j \<noteq> uuid_in i \<Longrightarrow> status_of j db' = status_of j db"
    and old: "status_of i db = Some old" and new: "status_of i db' = Some s" "\<not> terminal s \<Longrightarrow> s = Blocked \<longleftrightarrow> hasOpenBlockers db i"
  shows "graph_inv (triggerStatusAutomations fresh coach team i old s run db')"
proof -
  let ?r = "recordStatusChange i old s None db'"
  have wf0: "wf_ids db" using inv by (simp add: graph_inv_def)
  have open_i: "uuid_in i \<in> open_ids db' \<longleftrightarrow> uuid_in i \<in> open_ids db" if "terminal old = terminal s"
    using that old new by (simp add: open_iff [OF wf] open_iff [OF wf0])
  have d: "derived_at j db'" if "(uuid_in j, uuid_in i) \<notin> set (task_dependencies db) \<or> terminal old = terminal s" for j
    using that open_i by (intro moved_derived [OF inv wf deps others new]) auto
  have rest: "graph_inv x" if "same_graph db' x" "\<And>j. derived_at j x" for x
    using that inv same_graph_wf [OF that(1)] wf ids deps by (auto simp: graph_inv_def same_graph_def)
  have wf_r: "wf_ids ?r" using wf by (simp add: wf_ids_def)
  have dr: "(uuid_in j, uuid_in i) \<notin> set (task_dependencies ?r) \<Longrightarrow> derived_at j ?r" for j
    using d [of j] same_tasks_inv(2) [of ?r db' j] by (simp add: deps)
  have sr: "same_graph db' ?r" by (simp add: same_graph_def)
  have "graph_inv (if terminal old \<noteq> terminal s then recomputeDownstreamReadiness fresh i run ?r else db')"
    using rest [OF same_graph_trans [OF sr recompute_derives(1) [OF wf_r dr]] recompute_derives(2) [OF wf_r dr]] rest [of db'] d by simp
  then show ?thesis using same_tasks_inv(1) [OF automations_tasks] by blast
qed


subsection \<open>Edges\<close>

definition edges_known :: "dep_db \<Rightarrow> bool" where
  "edges_known db \<longleftrightarrow> (\<forall>(t, b) \<in> set (task_dependencies db). t \<in> set (task_ids db) \<and> b \<in> set (task_ids db))"

lemma graph_invI: "wf_ids db \<Longrightarrow> edges_known db \<Longrightarrow> acyclic (set (task_dependencies db)) \<Longrightarrow> (\<And>i. derived_at i db) \<Longrightarrow> graph_inv db"
  by (simp add: graph_inv_def edges_known_def)

lemma graph_invD:
  assumes "graph_inv db"
  shows "wf_ids db" and "edges_known db" and "acyclic (set (task_dependencies db))" and "derived_at i db"
  using assms by (simp_all add: graph_inv_def edges_known_def)

lemma same_graph_keeps: "same_graph db db' \<Longrightarrow> edges_known db' = edges_known db"
  by (simp add: same_graph_def edges_known_def)

lemma reconcile_restores:
  assumes "wf_ids db" and "edges_known db" and acyc: "acyclic (set (task_dependencies db))"
    and "\<And>j. uuid_in j \<noteq> uuid_in i \<Longrightarrow> derived_at j db"
  shows "graph_inv (snd (reconcileBlockedStatus i c db))"
proof (rule graph_invI)
  note same = reconcile_same [of db i c]
  show "wf_ids (snd (reconcileBlockedStatus i c db))" "edges_known (snd (reconcileBlockedStatus i c db))"
    using assms same_graph_wf [OF same] same_graph_keeps [OF same] by simp_all
  show "acyclic (set (task_dependencies (snd (reconcileBlockedStatus i c db))))" using assms(3) same by (simp add: same_graph_def)
  show "derived_at j (snd (reconcileBlockedStatus i c db))" for j
    using reconcile_derives(1) [OF assms(1), of i c] reconcile_derives(2) [OF assms(1), of j i c] assms(4) [of j] derived_uuid
    by (cases "uuid_in j = uuid_in i") metis+
qed

lemma resolve_canonical: "wf_ids db \<Longrightarrow> plain raw \<Longrightarrow> resolveTaskId db team raw = Some i \<Longrightarrow> uuid_in i = i"
  by (auto simp: resolveTaskId_def plain_def wf_ids_def task_ids_def find_Some_iff split: if_splits)

lemma insert_edge_new:
  assumes "insert_edge t b db = Inr (True, db')"
  shows "db' = db\<lparr>task_dependencies := task_dependencies db @ [(uuid_in t, uuid_in b)]\<rparr>"
    and "uuid_in t \<in> set (task_ids db)" and "uuid_in b \<in> set (task_ids db)"
  using assms by (auto simp: insert_edge_def Let_def task_of_None split: if_splits)

lemma edges_change:
  assumes "dep_tasks db' = dep_tasks db" and "\<And>b. (uuid_in j, b) \<in> set (task_dependencies db') \<longleftrightarrow> (uuid_in j, b) \<in> set (task_dependencies db)"
  shows "derived_at j db' = derived_at j db"
  using by_tasks [OF assms(1)] assms(2) by (simp add: derived_at_def hasOpenBlockers_iff)

text \<open>An edge the check let in, or one taken out, with the reconciliation that follows.\<close>

lemma edge_in_keeps_graph:
  assumes inv: "graph_inv db" and canon: "uuid_in t = t" "uuid_in b = b"
    and ok: "b \<noteq> t" "\<not> wouldCreateCycle (task_dependencies db) t b" and db1: "insert_edge t b db = Inr (True, db1)"
  shows "graph_inv (snd (reconcileBlockedStatus t c db1))"
proof (rule reconcile_restores)
  note new = insert_edge_new [OF db1]
  have deps: "set (task_dependencies db1) = insert (t, b) (set (task_dependencies db))" by (simp add: new(1) canon)
  show "acyclic (set (task_dependencies db1))"
    using cycle_closed [of "task_dependencies db" t b] graph_invD(3) [OF inv] ok by (simp add: deps canon)
  show "wf_ids db1" "edges_known db1"
    using graph_invD(1,2) [OF inv] new(2,3) canon by (auto simp: edges_known_def deps wf_ids_def task_ids_def new(1))
  show "derived_at j db1" if "uuid_in j \<noteq> uuid_in t" for j
    using edges_change [of db1 db j] graph_invD(4) [OF inv] that canon by (simp add: new(1))
qed

lemma edge_out_keeps_graph:
  assumes inv: "graph_inv db" and ok: "fst dep = uuid_in t"
    and db1: "db1 = db\<lparr>task_dependencies := filter (\<lambda>e. e \<noteq> dep) (task_dependencies db)\<rparr>"
  shows "graph_inv (wakeIfReady fresh t run (snd (reconcileBlockedStatus t c db1)))"
proof -
  have "graph_inv (snd (reconcileBlockedStatus t c db1))"
  proof (rule reconcile_restores)
    show "acyclic (set (task_dependencies db1))" by (rule acyclic_subset [OF graph_invD(3) [OF inv]]) (auto simp: db1)
    show "wf_ids db1" "edges_known db1" using graph_invD(1,2) [OF inv] by (auto simp: edges_known_def wf_ids_def task_ids_def db1)
    show "derived_at j db1" if "uuid_in j \<noteq> uuid_in t" for j
      using edges_change [of db1 db j] graph_invD(4) [OF inv] that ok by (cases dep) (simp add: db1)
  qed
  then show ?thesis using same_tasks_inv(1) [of "wakeIfReady fresh t run (snd (reconcileBlockedStatus t c db1))"] by simp
qed

lemma post_keeps_graph:
  assumes inv: "graph_inv db" and plain: "plain task_param" "plain blocked_by"
    and post: "post_dependency (\<lambda>d. d) team task_param blocked_by db = Inr db'"
  shows "graph_inv db'"
proof -
  obtain t b db1 where t: "resolveTaskId db team task_param = Some t" and b: "resolveTaskId db team blocked_by = Some b"
    and ok: "b \<noteq> t" "\<not> wouldCreateCycle (task_dependencies db) t b"
    and db1: "insert_edge t b db = Inr (True, db1)" and fin: "db' = snd (reconcileBlockedStatus t None db1)"
    using post by (auto simp: post_dependency_def split: option.splits if_splits sum.splits prod.splits bool.splits)
  have "uuid_in t = t" "uuid_in b = b" using resolve_canonical graph_invD(1) [OF inv] plain t b by blast+
  then show ?thesis unfolding fin by (rule edge_in_keeps_graph [OF inv _ _ ok db1])
qed

lemma delete_keeps_graph:
  assumes inv: "graph_inv db" and del: "delete_dependency fresh team task_param dep db = Inr db'"
  shows "graph_inv db'"
proof -
  obtain t where ok: "fst dep = uuid_in t" and db': "db' = wakeIfReady fresh t None (snd (reconcileBlockedStatus t None
      (db\<lparr>task_dependencies := filter (\<lambda>e. e \<noteq> dep) (task_dependencies db)\<rparr>)))"
    using del by (auto simp: delete_dependency_def split: option.splits if_splits)
  show ?thesis unfolding db' by (rule edge_out_keeps_graph [OF inv ok refl])
qed

lemma add_blocker_writes:
  assumes "add_task_blocker (\<lambda>d. d) team project task_id blocked_by db = Inr db'"
  obtains t b db1 where "resolveTaskId db team task_id = Some t" "resolveTaskId db team blocked_by = Some b" "b \<noteq> t"
    "\<not> wouldCreateCycle (task_dependencies db) t b" "insert_edge t b db = Inr (True, db1)" "db' = snd (reconcileBlockedStatus t None db1)"
proof -
  obtain t where t: "findProjectTask db team project task_id = Some t"
    using assms by (cases "findProjectTask db team project task_id") (auto simp: add_task_blocker_def split: if_splits)
  then have "resolveTaskId db team task_id = Some t" by (auto simp: findProjectTask_def split: option.splits if_splits)
  then show thesis using assms that t
    by (auto simp: add_task_blocker_def split: option.splits if_splits sum.splits prod.splits bool.splits)
qed

lemma remove_blocker_writes:
  assumes "remove_task_blocker fresh team project task_id blocked_by run db = Inr db'"
  obtains t dep where "fst dep = uuid_in t" "db' = wakeIfReady fresh t run (snd (reconcileBlockedStatus t None
      (db\<lparr>task_dependencies := filter (\<lambda>e. e \<noteq> dep) (task_dependencies db)\<rparr>)))"
  using assms by (auto simp: remove_task_blocker_def Let_def split: option.splits if_splits)

lemma blocker_tools_keep_graph:
  assumes inv: "graph_inv db"
  shows "plain task_id \<Longrightarrow> plain blocked_by \<Longrightarrow> add_task_blocker (\<lambda>d. d) team project task_id blocked_by db = Inr db' \<Longrightarrow> graph_inv db'"
    and "remove_task_blocker fresh team project task_id blocked_by run db = Inr db' \<Longrightarrow> graph_inv db'"
proof -
  show "graph_inv db'" if plain: "plain task_id" "plain blocked_by" and add: "add_task_blocker (\<lambda>d. d) team project task_id blocked_by db = Inr db'"
  proof (rule add_blocker_writes [OF add])
    fix t b db1
    assume w: "resolveTaskId db team task_id = Some t" "resolveTaskId db team blocked_by = Some b" "b \<noteq> t"
      "\<not> wouldCreateCycle (task_dependencies db) t b" "insert_edge t b db = Inr (True, db1)" and fin: "db' = snd (reconcileBlockedStatus t None db1)"
    have "uuid_in t = t" "uuid_in b = b" using resolve_canonical graph_invD(1) [OF inv] plain w(1,2) by blast+
    then show ?thesis unfolding fin by (rule edge_in_keeps_graph [OF inv _ _ w(3-5)])
  qed
  show "graph_inv db'" if "remove_task_blocker fresh team project task_id blocked_by run db = Inr db'"
    using remove_blocker_writes [OF that] edge_out_keeps_graph [OF inv] by metis
qed


subsection \<open>Updates\<close>

lemma same_status_graph:
  assumes "graph_inv db" and "wf_ids db'" and "task_ids db' = task_ids db" and "task_dependencies db' = task_dependencies db"
    and st: "\<And>j. status_of j db' = status_of j db"
  shows "graph_inv db'"
proof -
  have "open_ids db' = open_ids db" by (rule set_eqI) (simp add: open_iff [OF assms(2)] open_iff [OF graph_invD(1) [OF assms(1)]] st)
  then show ?thesis using assms by (simp add: graph_inv_def derived_at_def hasOpenBlockers_iff)
qed

text \<open>What an accepted patch writes: the columns named, with a status that passed the check.\<close>

definition allowed_status :: "dep_db \<Rightarrow> string \<Rightarrow> TaskStatus \<Rightarrow> TaskStatus \<Rightarrow> bool" where
  "allowed_status db taskId old new \<longleftrightarrow> new = old \<or> (\<exists>r. new = coerceTargetStatusForBlockers db taskId r)"

lemma transaction_row:
  assumes "patch_transaction team taskId body db = Inr (Some (before, f))"
  obtains moved assignee changed parent where
    "find (\<lambda>t. t_id t = uuid_in taskId \<and> t_team_id t = team) (dep_tasks db) = Some before"
    "f = patched_row (map_option (coerceTargetStatusForBlockers db taskId) (p_status body)) moved assignee changed parent"
    "(case p_parent_task_id body of None \<Rightarrow> Inr (None, False)
      | Some raw \<Rightarrow> resolveParentAssignment db team \<lparr>rs_taskId = taskId, rs_projectId = t_project_id before,
          rs_currentParentTaskId = t_parent_task_id before, rs_status = t_status before\<rparr> raw) = Inr (parent, changed)"
proof -
  obtain row where row: "find (\<lambda>t. t_id t = uuid_in taskId \<and> t_team_id t = team) (dep_tasks db) = Some row"
    using assms by (cases "find (\<lambda>t. t_id t = uuid_in taskId \<and> t_team_id t = team) (dep_tasks db)") (simp_all add: patch_transaction_def)
  let ?r = "case p_parent_task_id body of None \<Rightarrow> Inr (None, False)
      | Some raw \<Rightarrow> resolveParentAssignment db team \<lparr>rs_taskId = taskId, rs_projectId = t_project_id row,
          rs_currentParentTaskId = t_parent_task_id row, rs_status = t_status row\<rparr> raw"
  note tx = assms [unfolded patch_transaction_def row option.case Let_def]
  obtain parent changed where r: "?r = Inr (parent, changed)"
    using tx by (cases ?r) (auto split: if_splits)
  have "before = row \<and> (\<exists>moved assignee. f = patched_row (map_option (coerceTargetStatusForBlockers db taskId) (p_status body)) moved assignee changed parent)"
    using tx unfolding r by (auto split: if_splits)
  then show thesis using that row r by blast
qed

lemma transaction_writes:
  assumes "patch_transaction team taskId body db = Inr (Some (before, f))"
  shows "find (\<lambda>t. t_id t = uuid_in taskId \<and> t_team_id t = team) (dep_tasks db) = Some before"
    and "t_id (f t) = t_id t" and "t_team_id (f t) = t_team_id t" and "allowed_status db taskId (t_status t) (t_status (f t))"
  by (rule transaction_row [OF assms]; auto simp: patched_row_def allowed_status_def split: option.split)+

lemma found_row: "wf_ids db \<Longrightarrow> find (\<lambda>t. t_id t = uuid_in i \<and> P t) (dep_tasks db) = Some r \<Longrightarrow> task_of i db = Some r \<and> r \<in> set (dep_tasks db)"
  using task_of_member [of db r] by (auto simp: find_Some_iff in_set_conv_nth) (metis task_of_uuid nth_mem)+

lemma after_patch_tasks:
  "\<exists>db3. dep_tasks db3 = dep_tasks db \<and> task_dependencies db3 = task_dependencies db
     \<and> after_patch fresh coach team i before updated db
         = (if t_status before \<noteq> t_status updated then triggerStatusAutomations fresh coach team i (t_status before) (t_status updated) None db3 else db3)"
  unfolding after_patch_def Let_def by (rule exI, rule conjI [rotated], rule conjI [rotated], rule refl) simp_all

lemma patch_keeps_graph:
  assumes inv: "graph_inv db" and patch: "patch_task fresh coach team task_param body db = Inr db'"
  shows "graph_inv db'"
proof -
  obtain i where "db' = db \<or> (\<exists>before f. patch_transaction team i body db = Inr (Some (before, f))
      \<and> db' = after_patch fresh coach team i before (f before) (set_row i f db))"
    using patch by (auto simp: patch_task_def split: option.splits sum.splits prod.splits)
  then consider (unchanged) "db' = db" | (wrote) before f where "patch_transaction team i body db = Inr (Some (before, f))"
      "db' = after_patch fresh coach team i before (f before) (set_row i f db)" by blast
  then show ?thesis
  proof cases
    case wrote
    note w = transaction_writes [OF wrote(1)]
    have row: "task_of i db = Some before" using found_row [OF graph_invD(1) [OF inv] w(1)] by simp
    obtain db3 where db3: "dep_tasks db3 = dep_tasks (set_row i f db)" "task_dependencies db3 = task_dependencies db"
      and after: "db' = (if t_status before \<noteq> t_status (f before)
          then triggerStatusAutomations fresh coach team i (t_status before) (t_status (f before)) None db3 else db3)"
      using after_patch_tasks [of "set_row i f db" fresh coach team i before "f before"] wrote(2) by auto
    have ids: "task_ids db3 = task_ids db" using by_tasks(2) [OF db3(1)] set_row_ids [of f i db] w(2) by simp
    have wf: "wf_ids db3" using ids graph_invD(1) [OF inv] by (simp add: wf_ids_def)
    have row3: "task_of j db3 = (if uuid_in j = uuid_in i then map_option f (task_of j db) else task_of j db)" for j
      using task_of_set_row [of f j i db] w(2) db3(1) by (simp add: task_of_def)
    have others: "status_of j db3 = status_of j db" if "uuid_in j \<noteq> uuid_in i" for j using row3 [of j] that by (simp add: status_of_def)
    have new: "status_of i db3 = Some (t_status (f before))" using row3 [of i] row by (simp add: status_of_def)
    have old: "status_of i db = Some (t_status before)" using row by (simp add: status_of_def)
    show ?thesis
    proof (cases "t_status before = t_status (f before)")
      case True
      have "status_of j db3 = status_of j db" for j
        using others [of j] new old True same_uuid(1) [of j i db] same_uuid(1) [of j i db3] by (cases "uuid_in j = uuid_in i") simp_all
      then show ?thesis using same_status_graph [OF inv wf ids db3(2)] after True by simp
    next
      case False
      have "\<not> terminal (t_status (f before)) \<Longrightarrow> t_status (f before) = Blocked \<longleftrightarrow> hasOpenBlockers db i"
        using w(4) [of before] False coerced_derives unfolding allowed_status_def by metis
      then show ?thesis using automations_derive [OF inv wf ids db3(2) others old new] after False by simp
    qed
  qed (use inv in simp)
qed

lemma run_keeps_graph:
  assumes inv: "graph_inv db"
  shows "graph_inv (start_run_flip agent task db)"
proof (cases "t_assignee_id task = Some agent \<and> t_status task = Backlog \<and> status_of (t_id task) db = Some Backlog")
  case True
  let ?i = "t_id task" let ?db = "set_status ?i InProgress db"
  have st: "status_of ?i db = Some Backlog" using True by simp
  have nt: "\<not> terminal Backlog" "\<not> terminal InProgress" by (simp_all add: terminal_def TERMINAL_TASK_STATUSES_def)
  have same: "same_graph db ?db" by (rule same_graph_set_status [OF st]) (simp add: nt)
  have "derived_at j ?db" for j
    using same_graph_open [OF same graph_invD(1) [OF inv]] graph_invD(4) [OF inv, of j] st nt same_uuid(1) [of j ?i db]
    by (auto simp: derived_at_def status_set_status)
  then have "graph_inv ?db" using graph_invD [OF inv] same_graph_wf [OF same] same_graph_keeps [OF same]
    by (intro graph_invI) simp_all
  then show ?thesis using True same_tasks_inv(1) [of "start_run_flip agent task db" ?db] by (simp add: start_run_flip_def)
qed (use inv in \<open>auto simp: start_run_flip_def\<close>)


subsection \<open>New tasks\<close>

text \<open>Edges out of a task nothing depends on close no cycle.\<close>

lemma acyclic_fresh:
  assumes "acyclic E" and "x \<notin> Range E" and "\<And>e. e \<in> set es \<Longrightarrow> fst e = x \<and> snd e \<noteq> x"
  shows "acyclic (E \<union> set es) \<and> x \<notin> Range (E \<union> set es)"
  using assms(3)
proof (induction es)
  case (Cons e es)
  let ?r = "E \<union> set es"
  have ih: "acyclic ?r" "x \<notin> Range ?r" using Cons by auto
  obtain b where e: "e = (x, b)" "b \<noteq> x" using Cons.prems [of e] by (cases e) auto
  have "(b, x) \<notin> ?r\<^sup>*" using e(2) ih(2) by (meson Range.intros rtranclE)
  then show ?case using ih e by (auto simp: acyclic_insert)
qed (use assms in auto)

lemma attach_adds:
  assumes "wf_ids db" and "newId \<notin> uuid_in ` js_trim ` set raws" and "uuid_in newId = newId"
    and "attachBlockers team newId seen raws db = Inr db'"
  shows "dep_tasks db' = dep_tasks db
    \<and> (\<exists>es. task_dependencies db' = task_dependencies db @ es \<and> (\<forall>e \<in> set es. fst e = newId \<and> snd e \<noteq> newId \<and> snd e \<in> set (task_ids db)))"
  using assms
proof (induction team newId seen raws db rule: attachBlockers.induct)
  case (2 team newId seen raw raws db)
  note ok = "2.prems"(4) [unfolded attachBlockers.simps(2) Let_def]
  show ?case
  proof (cases "js_trim raw = []")
    case True
    then show ?thesis using "2.IH"(1) "2.prems" ok by simp
  next
    case False
    then obtain b where b: "resolveTaskId db team (js_trim raw) = Some b" "b \<noteq> newId" using ok by (auto split: option.splits if_splits)
    have ne: "uuid_in b \<noteq> newId"
    proof (cases "isUuid (js_trim raw)")
      case True
      then show ?thesis using b "2.prems"(2) by (auto simp: resolveTaskId_def)
    next
      case no: False
      then show ?thesis using b resolve_canonical [OF "2.prems"(1) _ b(1)] by (simp add: plain_def)
    qed
    show ?thesis
    proof (cases "b \<in> seen")
      case True
      then show ?thesis using "2.IH"(2) [OF refl False b] "2.prems" ok False b by simp
    next
      case nseen: False
      then obtain fresh db1 where db1: "insert_edge newId b db = Inr (fresh, db1)" and nc: "\<not> wouldCreateCycle (task_dependencies db) newId b"
        and rest: "attachBlockers team newId (insert b seen) raws db1 = Inr db'"
        using ok False b by (auto split: sum.splits prod.splits if_splits)
      have one: "dep_tasks db1 = dep_tasks db \<and> (\<exists>es. task_dependencies db1 = task_dependencies db @ es
          \<and> (\<forall>e \<in> set es. fst e = newId \<and> snd e \<noteq> newId \<and> snd e \<in> set (task_ids db)))"
        using db1 ne "2.prems"(3) by (auto simp: insert_edge_def Let_def task_of_None split: if_splits)
      then have "wf_ids db1" using "2.prems"(1) by (simp add: wf_ids_def task_ids_def)
      moreover have "task_ids db1 = task_ids db" using one by (simp add: task_ids_def)
      ultimately show ?thesis using "2.IH"(3) [OF refl False b nseen nc db1 refl _ _ _ rest] "2.prems"(2,3) one by fastforce
    qed
  qed
qed auto


text \<open>The database after the edges of a new task are in, before its status is settled.\<close>

definition with_new_task :: "dep_task \<Rightarrow> (string \<times> string) list \<Rightarrow> dep_db \<Rightarrow> dep_db \<Rightarrow> bool" where
  "with_new_task row es db db2 \<longleftrightarrow> dep_tasks db2 = dep_tasks db @ [row] \<and> task_dependencies db2 = task_dependencies db @ es
     \<and> (\<forall>e \<in> set es. fst e = t_id row \<and> snd e \<noteq> t_id row \<and> snd e \<in> set (task_ids db))"

lemma create_edges:
  assumes wf: "wf_ids db" and known: "edges_known db" and i: "uuid_in newId = newId" and fresh: "newId \<notin> set (task_ids db) \<union> uuid_in ` js_trim ` set blockedBy"
    and sb: "set_option setupBlocker \<subseteq> set (task_ids db)"
    and create: "create_transaction newId identifier team project parent assignee blockedBy setupBlocker db = Inr db'"
  shows "\<exists>row es db2. t_id row = newId \<and> t_status row = Backlog \<and> t_team_id row = team \<and> t_parent_task_id row = map_option uuid_in parent
     \<and> with_new_task row es db db2 \<and> db' = (if es \<noteq> [] \<and> hasOpenBlockers db2 newId then set_status newId Blocked db2 else db2)"
proof -
  define row where "row = \<lparr>t_id = newId, t_identifier = identifier, t_team_id = team, t_project_id = project,
    t_parent_task_id = map_option uuid_in parent, t_assignee_id = Some (uuid_in assignee), t_status = Backlog\<rparr>"
  let ?db0 = "db\<lparr>dep_tasks := dep_tasks db @ [row]\<rparr>"
  have row: "t_id row = newId" "t_status row = Backlog" "t_team_id row = team" "t_parent_task_id row = map_option uuid_in parent"
    by (simp_all add: row_def)
  have wf0: "wf_ids ?db0" using wf i fresh row(1) by (auto simp: wf_ids_def task_ids_def)
  obtain db1 where att: "attachBlockers team newId {} blockedBy ?db0 = Inr db1"
    using create by (auto simp: create_transaction_def Let_def row_def split: sum.splits)
  have ids0: "set (task_ids ?db0) = insert newId (set (task_ids db))" by (simp add: task_ids_def row(1))
  have "newId \<notin> uuid_in ` js_trim ` set blockedBy" using fresh by simp
  from attach_adds [OF wf0 this i att] obtain es where es: "dep_tasks db1 = dep_tasks db @ [row]" "task_dependencies db1 = task_dependencies db @ es"
    "\<forall>e \<in> set es. fst e = newId \<and> snd e \<noteq> newId \<and> snd e \<in> set (task_ids db)"
    unfolding ids0 by auto
  obtain db2 where db2: "(case setupBlocker of None \<Rightarrow> Inr db1 | Some b \<Rightarrow> map_sum id snd (insert_edge newId b db1)) = Inr db2"
    and fin: "db' = (if (blockedBy \<noteq> [] \<or> setupBlocker \<noteq> None) \<and> hasOpenBlockers db2 newId then set_status newId Blocked db2 else db2)"
    using create att by (auto simp: create_transaction_def Let_def row_def split: sum.splits)
  have "\<exists>es'. task_dependencies db2 = task_dependencies db1 @ es' \<and> dep_tasks db2 = dep_tasks db1
      \<and> (\<forall>e \<in> set es'. fst e = newId \<and> snd e \<noteq> newId \<and> snd e \<in> set (task_ids db))"
  proof (cases setupBlocker)
    case (Some b)
    then have b: "b \<in> set (task_ids db)" "uuid_in b = b" "b \<noteq> newId" using sb fresh wf by (auto simp: wf_ids_def)
    then show ?thesis using db2 Some i by (auto simp: insert_edge_def Let_def split: if_splits)
  qed (use db2 in simp)
  then obtain es' where es': "with_new_task row (es @ es') db db2" using es row(1) by (auto simp: with_new_task_def)
  have "\<not> hasOpenBlockers db2 newId" if "es @ es' = []"
    using es' fresh that i known by (auto simp: with_new_task_def hasOpenBlockers_iff edges_known_def)
  moreover have "es @ es' = []" if "blockedBy = []" "setupBlocker = None"
    using that att db2 es' by (auto simp: with_new_task_def)
  ultimately have "db' = (if es @ es' \<noteq> [] \<and> hasOpenBlockers db2 newId then set_status newId Blocked db2 else db2)" using fin by auto
  then show ?thesis using row es' by blast
qed


lemma find_last: "\<not> P x \<Longrightarrow> find P (xs @ [x]) = find P xs"
  by (induction xs) auto

lemma new_task_graph:
  assumes inv: "graph_inv db" and i: "uuid_in (t_id row) = t_id row" and fresh: "t_id row \<notin> set (task_ids db)"
    and backlog: "t_status row = Backlog" and new: "with_new_task row es db db2"
    and db': "db' = (if es \<noteq> [] \<and> hasOpenBlockers db2 (t_id row) then set_status (t_id row) Blocked db2 else db2)"
  shows "graph_inv db'"
proof -
  let ?i = "t_id row"
  note d = new [unfolded with_new_task_def]
  have nt: "\<not> terminal Backlog" "\<not> terminal Blocked" by (simp_all add: terminal_def TERMINAL_TASK_STATUSES_def)
  have wf2: "wf_ids db2" using graph_invD(1) [OF inv] d i fresh by (auto simp: wf_ids_def task_ids_def)
  have known2: "edges_known db2" using graph_invD(2) [OF inv] d by (force simp: edges_known_def task_ids_def)
  have acyc2: "acyclic (set (task_dependencies db2))"
    using acyclic_fresh [of "set (task_dependencies db)" ?i es] graph_invD(2,3) [OF inv] d fresh by (fastforce simp: edges_known_def)
  have st_i: "status_of ?i db2 = Some Backlog"
    using task_of_member [OF wf2, of row] d backlog by (simp add: status_of_def)
  have old_row: "task_of j db2 = task_of j db" if "uuid_in j \<noteq> ?i" for j
    using d that find_last [of "\<lambda>t. t_id t = uuid_in j" row] by (simp add: task_of_def)
  have old_open: "hasOpenBlockers db2 j = hasOpenBlockers db j" if "uuid_in j \<noteq> ?i" for j
  proof -
    have e: "(uuid_in j, b) \<in> set (task_dependencies db2) \<longleftrightarrow> (uuid_in j, b) \<in> set (task_dependencies db)" for b using d that by force
    have "b \<in> open_ids db2 \<longleftrightarrow> b \<in> open_ids db" if "(uuid_in j, b) \<in> set (task_dependencies db)" for b
      using d that graph_invD(2) [OF inv] fresh by (auto simp: open_ids_def edges_known_def)
    then show ?thesis unfolding hasOpenBlockers_iff e by blast
  qed
  have old: "derived_at j db2" if "uuid_in j \<noteq> ?i" for j
    using graph_invD(4) [OF inv, of j] old_row [OF that] old_open [OF that] by (simp add: derived_at_def status_of_def)
  show ?thesis
  proof (cases "hasOpenBlockers db2 ?i")
    case True
    then have "es \<noteq> []" using graph_invD(2) [OF inv] d fresh i by (auto simp: hasOpenBlockers_iff edges_known_def)
    then have e: "db' = set_status ?i Blocked db2" using db' True by simp
    have same: "same_graph db2 db'" unfolding e by (rule same_graph_set_status [OF st_i]) (simp add: nt)
    have "derived_at j db'" for j
      using old [of j] True same_graph_open [OF same wf2] same_uuid [of j ?i db2] i st_i by (auto simp: e derived_at_def status_set_status)
    then show ?thesis using wf2 known2 acyc2 same_graph_wf [OF same] same_graph_keeps [OF same] same
      by (intro graph_invI) (simp_all add: same_graph_def)
  next
    case False
    then have "derived_at j db2" for j using old [of j] same_uuid [of j ?i db2] i st_i by (cases "uuid_in j = ?i") (auto simp: derived_at_def)
    then show ?thesis using db' False wf2 known2 acyc2 by (simp add: graph_invI)
  qed
qed

lemma create_keeps_graph:
  assumes inv: "graph_inv db" and i: "uuid_in newId = newId" and fresh: "newId \<notin> set (task_ids db) \<union> uuid_in ` js_trim ` set blockedBy"
    and sb: "set_option setupBlocker \<subseteq> set (task_ids db)"
    and create: "create_task wid newId identifier team project parent_ref assignee blockedBy setupBlocker run db = Inr db'"
  shows "graph_inv db'"
proof -
  obtain parent db1 where tx: "create_transaction newId identifier team project parent assignee blockedBy setupBlocker db = Inr db1"
    and db': "dep_tasks db' = dep_tasks db1" "task_dependencies db' = task_dependencies db1"
    using create by (auto simp: create_task_def split: sum.splits if_splits)
  have "graph_inv db1"
    using create_edges [OF graph_invD(1,2) [OF inv] i fresh sb tx] new_task_graph [OF inv] i fresh by blast
  then show ?thesis using same_tasks_inv(1) [OF db'] by blast
qed


section \<open>The tree stays shallow\<close>

definition parent_rel :: "dep_db \<Rightarrow> (string \<times> string) set" where
  "parent_rel db = {(t_id c, p) |c p. c \<in> set (dep_tasks db) \<and> t_parent_task_id c = Some p}"

definition parents_known :: "dep_db \<Rightarrow> bool" where
  "parents_known db \<longleftrightarrow> (\<forall>c \<in> set (dep_tasks db). \<forall>p. t_parent_task_id c = Some p
     \<longrightarrow> (\<exists>r \<in> set (dep_tasks db). t_id r = p \<and> t_team_id r = t_team_id c))"

definition tree_inv :: "dep_db \<Rightarrow> bool" where
  "tree_inv db \<longleftrightarrow> wf_ids db \<and> parents_known db \<and> parent_rel db ^^ Suc MAX_SUB_TASK_DEPTH = {}"

subsection \<open>Relations without long chains\<close>

lemma no_longer_chain: "(R :: ('a \<times> 'a) set) ^^ Suc n = {} \<Longrightarrow> (x, y) \<in> R ^^ k \<Longrightarrow> k \<le> n"
proof (rule ccontr)
  assume R: "R ^^ Suc n = ({} :: ('a \<times> 'a) set)" and xy: "(x, y) \<in> R ^^ k" and "\<not> k \<le> n"
  then have "R ^^ k = R ^^ Suc n O R ^^ (k - Suc n)" using relpow_add [of "Suc n" "k - Suc n" R] by simp
  then show False using R xy by simp
qed

lemma chain_with_edge:
  assumes "(p, x) \<notin> R\<^sup>*"
  shows "(a, b) \<in> (insert (x, p) R) ^^ n \<Longrightarrow> (a, b) \<in> R ^^ n \<or> (\<exists>i j. n = i + 1 + j \<and> (a, x) \<in> R ^^ i \<and> (p, b) \<in> R ^^ j)"
proof (induction n arbitrary: b)
  case (Suc n)
  then obtain c where c: "(a, c) \<in> (insert (x, p) R) ^^ n" "(c, b) \<in> insert (x, p) R" by auto
  from Suc.IH [OF c(1)] show ?case
  proof (elim disjE exE conjE)
    assume ac: "(a, c) \<in> R ^^ n"
    show ?thesis
    proof (cases "(c, b) \<in> R")
      case False
      then have "c = x" "b = p" using c(2) by auto
      then show ?thesis using ac by (intro disjI2 exI [of _ n] exI [of _ 0]) simp
    qed (use ac in auto)
  next
    fix i j assume ij: "n = i + 1 + j" "(a, x) \<in> R ^^ i" "(p, c) \<in> R ^^ j"
    then have "c \<noteq> x" using assms relpow_imp_rtrancl by blast
    then have "(p, b) \<in> R ^^ Suc j" using c(2) ij by auto
    then show ?thesis using ij by (intro disjI2 exI [of _ i] exI [of _ "Suc j"]) simp
  qed
qed simp

lemma nest_depth:
  assumes "(p, x) \<notin> R\<^sup>*" and "R ^^ Suc n = {}" and sub: "R' \<subseteq> insert (x, p) R"
    and up: "\<And>y k. (p, y) \<in> R ^^ k \<Longrightarrow> k \<le> d" and down: "\<And>y k. (y, x) \<in> R ^^ k \<Longrightarrow> k \<le> h" and fits: "d + 1 + h \<le> n"
  shows "R' ^^ Suc n = {}"
proof -
  have "(a, b) \<notin> (insert (x, p) R) ^^ Suc n" for a b
  proof
    assume "(a, b) \<in> (insert (x, p) R) ^^ Suc n"
    then obtain i j where "Suc n = i + 1 + j" "(a, x) \<in> R ^^ i" "(p, b) \<in> R ^^ j"
      using chain_with_edge [OF assms(1)] assms(2) by blast
    then show False using up [of b j] down [of a i] fits by simp
  qed
  moreover have "R' ^^ k \<subseteq> (insert (x, p) R) ^^ k" for k using sub by (induction k) (auto intro: relcomp_mono [THEN subsetD])
  ultimately show ?thesis by (metis ex_in_conv subsetD surj_pair)
qed

subsection \<open>The walks\<close>

lemma walk_empty [simp]: "tree_walk nx d [] = []"
proof (induction nx d "[] :: dep_task list" rule: tree_walk.induct)
  case (1 nx d)
  then show ?case by (simp add: tree_walk.simps [of nx d])
qed

lemma walk_reaches:
  "r0 \<in> set rows \<Longrightarrow> (r0, r) \<in> {(a, b). b \<in> set (nx a)} ^^ k \<Longrightarrow> d + k \<le> TREE_WALK_LIMIT \<Longrightarrow> (r, d + k) \<in> set (tree_walk nx d rows)"
proof (induction k arbitrary: d rows r0)
  case 0
  then show ?case by (simp add: tree_walk.simps [of nx d rows])
next
  case (Suc k)
  from relpow_Suc_D2 [OF Suc.prems(2)] obtain r1 where r1: "r1 \<in> set (nx r0)" "(r1, r) \<in> {(a, b). b \<in> set (nx a)} ^^ k" by auto
  have "(r, Suc d + k) \<in> set (tree_walk nx (Suc d) (concat (map nx rows)))"
    using r1(1) Suc.prems(1,3) by (intro Suc.IH [OF _ r1(2)]) auto
  then show ?case using Suc.prems by (simp add: tree_walk.simps [of nx d rows])
qed

lemma deepest_ge: "(r, n) \<in> set rows \<Longrightarrow> n \<le> deepest rows"
  by (induction rows) (auto simp: deepest_def max_def)

lemma chain_up:
  assumes inv: "tree_inv db" and "(t_id a, y) \<in> parent_rel db ^^ k" and "a \<in> set (dep_tasks db)" and "t_team_id a = team"
  shows "\<exists>b \<in> set (dep_tasks db). t_id b = y \<and> t_team_id b = team \<and> (a, b) \<in> {(a, b). b \<in> set (parents_in db team a)} ^^ k"
  using assms(2)
proof (induction k arbitrary: y)
  case (Suc k)
  then obtain z where z: "(t_id a, z) \<in> parent_rel db ^^ k" "(z, y) \<in> parent_rel db" by auto
  obtain b where b: "b \<in> set (dep_tasks db)" "t_id b = z" "t_team_id b = team" "(a, b) \<in> {(a, b). b \<in> set (parents_in db team a)} ^^ k"
    using Suc.IH [OF z(1)] by blast
  have "t_parent_task_id b = Some y"
    using z(2) b(1,2) inv task_of_member [of db] by (auto simp: parent_rel_def tree_inv_def) (metis option.inject)
  then obtain r where r: "r \<in> set (dep_tasks db)" "t_id r = y" "t_team_id r = team"
    using inv b(1,3) by (auto simp: tree_inv_def parents_known_def)
  then show ?case using b(4) \<open>t_parent_task_id b = Some y\<close> by (auto simp: parents_in_def)
qed (use assms in auto)

lemma chain_down:
  assumes inv: "tree_inv db" and "(y, t_id a) \<in> parent_rel db ^^ k" and "a \<in> set (dep_tasks db)" and "t_team_id a = team"
  shows "\<exists>b \<in> set (dep_tasks db). t_id b = y \<and> t_team_id b = team \<and> (a, b) \<in> {(d, c). c \<in> set (children_in db team d)} ^^ k"
  using assms(2)
proof (induction k arbitrary: y)
  case (Suc k)
  from relpow_Suc_D2 [OF Suc.prems] obtain z where z: "(y, z) \<in> parent_rel db" "(z, t_id a) \<in> parent_rel db ^^ k" by blast
  obtain b where b: "b \<in> set (dep_tasks db)" "t_id b = z" "t_team_id b = team" "(a, b) \<in> {(d, c). c \<in> set (children_in db team d)} ^^ k"
    using Suc.IH [OF z(2)] by blast
  obtain c where c: "c \<in> set (dep_tasks db)" "t_id c = y" "t_parent_task_id c = Some z" using z(1) by (auto simp: parent_rel_def)
  then obtain r where "r \<in> set (dep_tasks db)" "t_id r = z" "t_team_id r = t_team_id c" using inv by (auto simp: tree_inv_def parents_known_def)
  then have "t_team_id c = team" using b(1,2,3) inv task_of_member [of db] by (metis tree_inv_def option.inject)
  then show ?case using b(2,4) c by (auto simp: children_in_def)
qed (use assms in auto)


text \<open>The placement measures what it says, as long as the tree is within the limit of the walk.\<close>

lemma within_limit: "tree_inv db \<Longrightarrow> (x, y) \<in> parent_rel db ^^ k \<Longrightarrow> k \<le> TREE_WALK_LIMIT"
  using no_longer_chain [of MAX_SUB_TASK_DEPTH "parent_rel db" x y k] by (simp add: tree_inv_def TREE_WALK_LIMIT_def)

lemma in_seed: "r \<in> set (seed db team i) \<longleftrightarrow> r \<in> set (dep_tasks db) \<and> t_id r = uuid_in i \<and> t_team_id r = team"
  by (auto simp: seed_def)

lemma found_seed: "parentFound (measureParentPlacement db team p m) \<Longrightarrow> \<exists>r \<in> set (dep_tasks db). t_id r = uuid_in p \<and> t_team_id r = team"
proof (rule ccontr)
  assume f: "parentFound (measureParentPlacement db team p m)" and "\<not> (\<exists>r \<in> set (dep_tasks db). t_id r = uuid_in p \<and> t_team_id r = team)"
  then have "seed db team p = []" by (simp add: seed_def filter_empty_conv)
  then show False using f by (simp add: measureParentPlacement_def Let_def)
qed

lemma depth_measured:
  assumes inv: "tree_inv db" and found: "parentFound (measureParentPlacement db team p m)" and up: "(uuid_in p, y) \<in> parent_rel db ^^ k"
  shows "k \<le> parentDepth (measureParentPlacement db team p m)"
proof -
  obtain r where r: "r \<in> set (dep_tasks db)" "t_id r = uuid_in p" "t_team_id r = team" using found_seed [OF found] by blast
  obtain b where "(r, b) \<in> {(a, b). b \<in> set (parents_in db team a)} ^^ k" using chain_up [OF inv _ r(1,3)] up r(2) by metis
  then have "(b, 0 + k) \<in> set (tree_walk (parents_in db team) 0 (seed db team p))"
    using r within_limit [OF inv up] by (intro walk_reaches [of r]) (auto simp: in_seed)
  then show ?thesis by (simp add: measureParentPlacement_def Let_def deepest_ge)
qed

lemma height_measured:
  assumes inv: "tree_inv db" and row: "r \<in> set (dep_tasks db)" "t_id r = uuid_in m" "t_team_id r = team"
    and down: "(y, uuid_in m) \<in> parent_rel db ^^ k"
  shows "k \<le> movingHeight (measureParentPlacement db team p (Some m))"
    and "y = uuid_in p \<Longrightarrow> parentInMovingSubtree (measureParentPlacement db team p (Some m))"
proof -
  obtain b where b: "t_id b = y" "(r, b) \<in> {(d, c). c \<in> set (children_in db team d)} ^^ k" using chain_down [OF inv _ row(1,3)] down row(2) by metis
  have "(b, 0 + k) \<in> set (tree_walk (children_in db team) 0 (seed db team m))"
    using b(2) row within_limit [OF inv down] by (intro walk_reaches [of r]) (auto simp: in_seed)
  then show "k \<le> movingHeight (measureParentPlacement db team p (Some m))"
    "y = uuid_in p \<Longrightarrow> parentInMovingSubtree (measureParentPlacement db team p (Some m))"
    using b(1) by (auto simp: measureParentPlacement_def Let_def deepest_ge list_ex_iff)
qed

subsection \<open>Steps\<close>

definition tree_view :: "dep_db \<Rightarrow> (string \<times> string \<times> string option) list" where
  "tree_view db = map (\<lambda>t. (t_id t, t_team_id t, t_parent_task_id t)) (dep_tasks db)"

lemma tree_inv_view: "tree_view db' = tree_view db \<Longrightarrow> tree_inv db' = tree_inv db"
proof -
  assume v: "tree_view db' = tree_view db"
  have ids: "task_ids x = map fst (tree_view x)" for x by (simp add: task_ids_def tree_view_def comp_def)
  have rel: "parent_rel x = {(i, p). \<exists>tm. (i, tm, Some p) \<in> set (tree_view x)}" for x
    by (force simp: parent_rel_def tree_view_def)
  have known: "parents_known x \<longleftrightarrow> (\<forall>i tm p. (i, tm, Some p) \<in> set (tree_view x) \<longrightarrow> (\<exists>q. (p, tm, q) \<in> set (tree_view x)))" for x
    unfolding parents_known_def tree_view_def set_map by (auto simp: image_iff) (metis+)
  show ?thesis by (simp add: tree_inv_def wf_ids_def ids rel known v)
qed

lemma view_by_tasks: "dep_tasks db' = dep_tasks db \<Longrightarrow> tree_view db' = tree_view db"
  by (simp add: tree_view_def)

lemma view_set_row:
  assumes "\<And>t. t_id (f t) = t_id t \<and> t_team_id (f t) = t_team_id t \<and> t_parent_task_id (f t) = t_parent_task_id t"
  shows "tree_view (set_row i f db) = tree_view db"
  using assms by (simp add: tree_view_def set_row_def)

lemma view_status [simp]: "tree_view (set_status i s db) = tree_view db"
  unfolding set_status_row by (rule view_set_row) simp

lemma view_recorded [simp]: "tree_view (recordStatusChange i a b c db) = tree_view db"
  by (rule view_by_tasks) simp

lemma view_reconcile [simp]: "tree_view (snd (reconcileBlockedStatus i c db)) = tree_view db"
  by (simp add: reconcileBlockedStatus_def split: option.split)

lemma view_each [simp]: "tree_view (reconcile_each fresh c run ds db) = tree_view db"
proof (induction ds arbitrary: db)
  case (Cons d ds)
  have "tree_view (wakeIfReady fr d run db1) = tree_view db1" for fr db1 by (rule view_by_tasks) simp
  then show ?case using view_reconcile [of d c db] by (cases "reconcileBlockedStatus d c db") (simp add: Cons)
qed simp

lemma view_automations [simp]: "tree_view (triggerStatusAutomations fresh coach team i old s run db) = tree_view db"
  using view_by_tasks [OF automations_tasks(1) [of fresh coach team i old s run db]]
  by (simp add: recomputeDownstreamReadiness_def Let_def split: if_splits)

lemma view_after_patch [simp]: "tree_view (after_patch fresh coach team i before updated db) = tree_view db"
proof -
  obtain db3 where db3: "dep_tasks db3 = dep_tasks db" and "after_patch fresh coach team i before updated db
      = (if t_status before \<noteq> t_status updated then triggerStatusAutomations fresh coach team i (t_status before) (t_status updated) None db3 else db3)"
    using after_patch_tasks [of db fresh coach team i before updated] by blast
  then show ?thesis using view_by_tasks [OF db3] by simp
qed


text \<open>A parent that was accepted: promoted to the top, or placed by the measurement.\<close>

definition placed :: "dep_db \<Rightarrow> string \<Rightarrow> string \<Rightarrow> string option \<Rightarrow> bool" where
  "placed db team i parent \<longleftrightarrow> (case parent of None \<Rightarrow> True | Some p \<Rightarrow>
     (let m = measureParentPlacement db team p (Some i) in parentFound m \<and> \<not> parentInMovingSubtree m \<and> depthFits m))"

lemma assignment_placed: "resolveParentAssignment db team subject raw = Inr (parent, True) \<Longrightarrow> placed db team (rs_taskId subject) parent"
  by (auto simp: resolveParentAssignment_def placed_def Let_def split: option.splits if_splits)

lemma transaction_parent:
  assumes "patch_transaction team i body db = Inr (Some (before, f))"
  shows "(\<forall>t. t_parent_task_id (f t) = t_parent_task_id t) \<or> (\<exists>parent. placed db team i parent \<and> (\<forall>t. t_parent_task_id (f t) = map_option uuid_in parent))"
proof (rule transaction_row [OF assms])
  fix moved assignee changed parent
  let ?subject = "\<lparr>rs_taskId = i, rs_projectId = t_project_id before, rs_currentParentTaskId = t_parent_task_id before, rs_status = t_status before\<rparr>"
  assume f: "f = patched_row (map_option (coerceTargetStatusForBlockers db i) (p_status body)) moved assignee changed parent"
    and r: "(case p_parent_task_id body of None \<Rightarrow> Inr (None, False) | Some raw \<Rightarrow> resolveParentAssignment db team ?subject raw) = Inr (parent, changed)"
  have "placed db team i parent" if changed
    using r that assignment_placed [of db team ?subject] by (auto split: option.splits)
  then show ?thesis by (cases changed) (auto simp: f patched_row_def)
qed

lemma reparent_tree:
  assumes inv: "tree_inv db" and row: "r \<in> set (dep_tasks db)" "t_id r = uuid_in i" "t_team_id r = team"
    and f: "\<And>t. t_id (f t) = t_id t" "\<And>t. t_team_id (f t) = t_team_id t" "\<And>t. t_parent_task_id (f t) = map_option uuid_in parent"
    and placed: "placed db team i parent"
  shows "tree_inv (set_row i f db)"
proof -
  let ?P = "parent_rel db" and ?P' = "parent_rel (set_row i f db)"
  have wf: "wf_ids (set_row i f db)" using inv f(1) by (simp add: tree_inv_def wf_ids_def set_row_ids)
  have r: "t = r" if "t \<in> set (dep_tasks db)" "t_id t = uuid_in i" for t
    using that row inv task_of_member [of db] by (metis option.inject tree_inv_def)
  have sub: "?P' \<subseteq> ?P \<union> (case parent of None \<Rightarrow> {} | Some p \<Rightarrow> {(uuid_in i, uuid_in p)})"
    using f by (auto simp: parent_rel_def set_row_def split: option.splits if_splits)
  have rows: "\<exists>r' \<in> set (dep_tasks (set_row i f db)). t_id r' = t_id q \<and> t_team_id r' = t_team_id q" if "q \<in> set (dep_tasks db)" for q
    using that f(1,2) by (intro bexI [of _ "if t_id q = uuid_in i then f q else q"]) (auto simp: set_row_def)
  have parent_row: "\<exists>q \<in> set (dep_tasks db). t_id q = uuid_in p \<and> t_team_id q = team" if "parent = Some p" for p
    using placed that found_seed by (auto simp: placed_def Let_def)
  have "parents_known (set_row i f db)" unfolding parents_known_def
  proof (intro ballI allI impI)
    fix c p assume c: "c \<in> set (dep_tasks (set_row i f db))" "t_parent_task_id c = Some p"
    then obtain t where t: "t \<in> set (dep_tasks db)" "c = (if t_id t = uuid_in i then f t else t)" by (auto simp: set_row_def)
    have "\<exists>q \<in> set (dep_tasks db). t_id q = p \<and> t_team_id q = t_team_id c"
    proof (cases "t_id t = uuid_in i")
      case True
      then show ?thesis using t c(2) f(2,3) r [OF t(1) True] row(3) parent_row by auto
    next
      case False
      then show ?thesis using t c(2) inv by (auto simp: tree_inv_def parents_known_def)
    qed
    then show "\<exists>q \<in> set (dep_tasks (set_row i f db)). t_id q = p \<and> t_team_id q = t_team_id c" using rows by metis
  qed
  moreover have "?P' ^^ Suc MAX_SUB_TASK_DEPTH = {}"
  proof (cases parent)
    case None
    have "?P' ^^ k \<subseteq> ?P ^^ k" for k using sub None by (induction k) auto
    then have "?P' ^^ Suc MAX_SUB_TASK_DEPTH \<subseteq> ?P ^^ Suc MAX_SUB_TASK_DEPTH" .
    then show ?thesis using inv unfolding tree_inv_def by blast
  next
    case (Some p)
    let ?m = "measureParentPlacement db team p (Some i)"
    have m: "parentFound ?m" "\<not> parentInMovingSubtree ?m" "parentDepth ?m + 1 + movingHeight ?m \<le> MAX_SUB_TASK_DEPTH"
      using placed Some by (simp_all add: placed_def Let_def depthFits_def)
    show ?thesis
    proof (rule nest_depth [where R = ?P])
      show "(uuid_in p, uuid_in i) \<notin> ?P\<^sup>*" using m(2) height_measured(2) [OF inv row] by (metis rtrancl_imp_relpow)
      show "?P ^^ Suc MAX_SUB_TASK_DEPTH = {}" using inv by (simp add: tree_inv_def)
      show "?P' \<subseteq> insert (uuid_in i, uuid_in p) ?P" using sub Some by auto
      show "k \<le> parentDepth ?m" if "(uuid_in p, y) \<in> ?P ^^ k" for y k by (rule depth_measured [OF inv m(1) that])
      show "k \<le> movingHeight ?m" if "(y, uuid_in i) \<in> ?P ^^ k" for y k by (rule height_measured(1) [OF inv row that])
    qed (rule m(3))
  qed
  ultimately show ?thesis using wf by (simp add: tree_inv_def)
qed


lemma patch_keeps_tree:
  assumes inv: "tree_inv db" and patch: "patch_task fresh coach team task_param body db = Inr db'"
  shows "tree_inv db'"
proof -
  obtain i where "db' = db \<or> (\<exists>before f. patch_transaction team i body db = Inr (Some (before, f))
      \<and> db' = after_patch fresh coach team i before (f before) (set_row i f db))"
    using patch by (auto simp: patch_task_def split: option.splits sum.splits prod.splits)
  then consider (unchanged) "db' = db" | (wrote) before f where "patch_transaction team i body db = Inr (Some (before, f))"
      "db' = after_patch fresh coach team i before (f before) (set_row i f db)" by blast
  then show ?thesis
  proof cases
    case wrote
    note w = transaction_writes [OF wrote(1)]
    have row: "before \<in> set (dep_tasks db)" "t_id before = uuid_in i" "t_team_id before = team"
      using w(1) by (auto simp: find_Some_iff)
    have "tree_inv (set_row i f db)" using transaction_parent [OF wrote(1)]
    proof (elim disjE exE conjE)
      assume "\<forall>t. t_parent_task_id (f t) = t_parent_task_id t"
      then show ?thesis using inv w(2,3) by (simp add: tree_inv_view [OF view_set_row])
    next
      fix parent assume "placed db team i parent" "\<forall>t. t_parent_task_id (f t) = map_option uuid_in parent"
      then show ?thesis using reparent_tree [OF inv row] w(2,3) by blast
    qed
    then show ?thesis using tree_inv_view [of db' "set_row i f db"] by (simp add: wrote(2))
  qed (use inv in simp)
qed

lemma new_task_tree:
  assumes inv: "tree_inv db" and i: "uuid_in (t_id row) = t_id row" and fresh: "t_id row \<notin> set (task_ids db)"
    and new: "with_new_task row es db db2"
    and parent: "\<And>p. t_parent_task_id row = Some p \<Longrightarrow> \<exists>q. uuid_in q = p \<and> assertChildDepthAllowed db (t_team_id row) q = None"
  shows "tree_inv db2"
proof -
  let ?P = "parent_rel db" and ?P' = "parent_rel db2"
  note d = new [unfolded with_new_task_def]
  have wf: "wf_ids db2" using inv d i fresh by (auto simp: tree_inv_def wf_ids_def task_ids_def)
  have known: "p \<in> set (task_ids db)" if "(c, p) \<in> ?P" for c p
    using that inv by (force simp: tree_inv_def parents_known_def parent_rel_def task_ids_def)
  have nochild: "(y, t_id row) \<notin> ?P" for y using known fresh by blast
  have placed: "\<exists>q. uuid_in q = p \<and> parentFound (measureParentPlacement db (t_team_id row) q None) \<and> depthFits (measureParentPlacement db (t_team_id row) q None)"
    if "t_parent_task_id row = Some p" for p
    using parent [OF that] by (auto simp: assertChildDepthAllowed_def Let_def split: if_splits)
  have "parents_known db2" unfolding parents_known_def
  proof (intro ballI allI impI)
    fix c p assume c: "c \<in> set (dep_tasks db2)" "t_parent_task_id c = Some p"
    show "\<exists>r \<in> set (dep_tasks db2). t_id r = p \<and> t_team_id r = t_team_id c"
    proof (cases "c = row")
      case True
      then show ?thesis using placed c(2) found_seed d by fastforce
    next
      case False
      then show ?thesis using inv c d by (auto simp: tree_inv_def parents_known_def)
    qed
  qed
  moreover have "?P' ^^ Suc MAX_SUB_TASK_DEPTH = {}"
  proof (cases "t_parent_task_id row")
    case None
    then have "?P' = ?P" using d by (auto simp: parent_rel_def)
    then show ?thesis using inv by (simp add: tree_inv_def)
  next
    case (Some p)
    then obtain q where q: "uuid_in q = p" and found: "parentFound (measureParentPlacement db (t_team_id row) q None)"
      and fits: "depthFits (measureParentPlacement db (t_team_id row) q None)" using placed by blast
    have "p \<noteq> t_id row" using found_seed [OF found] q fresh unfolding task_ids_def set_map by (metis imageI)
    show ?thesis
    proof (rule nest_depth [where R = ?P and p = p and x = "t_id row" and h = 0])
      show "(p, t_id row) \<notin> ?P\<^sup>*" using \<open>p \<noteq> t_id row\<close> nochild by (meson rtranclE)
      show "?P ^^ Suc MAX_SUB_TASK_DEPTH = {}" using inv by (simp add: tree_inv_def)
      show "?P' \<subseteq> insert (t_id row, p) ?P" using d Some by (auto simp: parent_rel_def)
      show "k \<le> parentDepth (measureParentPlacement db (t_team_id row) q None)" if "(p, y) \<in> ?P ^^ k" for y k
        using depth_measured [OF inv found] that q by blast
      show "k \<le> 0" if "(y, t_id row) \<in> ?P ^^ k" for y k using that nochild by (cases k) auto
      show "parentDepth (measureParentPlacement db (t_team_id row) q None) + 1 + 0 \<le> MAX_SUB_TASK_DEPTH" using fits by (simp add: depthFits_def)
    qed
  qed
  ultimately show ?thesis using wf by (simp add: tree_inv_def)
qed

lemma create_keeps_tree:
  assumes inv: "tree_inv db" and graph: "graph_inv db" and i: "uuid_in newId = newId"
    and fresh: "newId \<notin> set (task_ids db) \<union> uuid_in ` js_trim ` set blockedBy" and sb: "set_option setupBlocker \<subseteq> set (task_ids db)"
    and create: "create_task wid newId identifier team project parent_ref assignee blockedBy setupBlocker run db = Inr db'"
  shows "tree_inv db'"
proof -
  let ?par = "if truthy parent_ref
    then (case resolveTaskId db team (the parent_ref) of
        None \<Rightarrow> Inl ParentNotFound
      | Some p \<Rightarrow> (case assertChildDepthAllowed db team p of Some e \<Rightarrow> Inl e | None \<Rightarrow> Inr (Some p)))
    else Inr None"
  obtain parent db1 where ok: "?par = Inr parent"
    and tx: "create_transaction newId identifier team project parent assignee blockedBy setupBlocker db = Inr db1"
    and db': "dep_tasks db' = dep_tasks db1"
    using create unfolding create_task_def by (cases ?par) (auto split: sum.splits if_splits)
  have par: "assertChildDepthAllowed db team p = None" if "parent = Some p" for p
    using ok that by (auto split: if_splits option.splits)
  obtain row es db2 where row: "t_id row = newId" "t_team_id row = team" "t_parent_task_id row = map_option uuid_in parent"
    "with_new_task row es db db2" "db1 = (if es \<noteq> [] \<and> hasOpenBlockers db2 newId then set_status newId Blocked db2 else db2)"
    using create_edges [OF graph_invD(1,2) [OF graph] i fresh sb tx] by blast
  have "tree_inv db2" using new_task_tree [OF inv _ _ row(4)] row(1,2,3) i fresh par by auto
  moreover have "tree_view db' = tree_view db2" using view_by_tasks [OF db'] row(5) by simp
  ultimately show ?thesis using tree_inv_view by blast
qed


section \<open>Every reachable state\<close>

definition task_inv :: "dep_db \<Rightarrow> bool" where
  "task_inv db \<longleftrightarrow> graph_inv db \<and> tree_inv db"

definition no_tasks :: "dep_db \<Rightarrow> bool" where
  "no_tasks db \<longleftrightarrow> dep_tasks db = [] \<and> task_dependencies db = []"

lemma no_tasks_inv: "no_tasks db \<Longrightarrow> task_inv db"
  by (auto simp: no_tasks_def task_inv_def graph_inv_def tree_inv_def wf_ids_def task_ids_def derived_at_def status_of_def task_of_def
      parents_known_def parent_rel_def wf_acyclic)

lemma view_requests:
  "post_dependency (\<lambda>d. d) team t b db = Inr db' \<Longrightarrow> tree_view db' = tree_view db"
  "delete_dependency fresh team t dep db = Inr db' \<Longrightarrow> tree_view db' = tree_view db"
  "tree_view (start_run_flip agent task db) = tree_view db"
proof -
  show "tree_view db' = tree_view db" if post: "post_dependency (\<lambda>d. d) team t b db = Inr db'"
  proof -
    obtain i j db1 where "insert_edge i j db = Inr (True, db1)" and "db' = snd (reconcileBlockedStatus i None db1)"
      using post by (auto simp: post_dependency_def split: option.splits if_splits sum.splits prod.splits bool.splits)
    then show ?thesis using insert_edge_new(1) [of i j db db1] view_by_tasks [of db1 db] by simp
  qed
  show "tree_view db' = tree_view db" if del: "delete_dependency fresh team t dep db = Inr db'"
  proof -
    obtain i where "db' = wakeIfReady fresh i None (snd (reconcileBlockedStatus i None
        (db\<lparr>task_dependencies := filter (\<lambda>e. e \<noteq> dep) (task_dependencies db)\<rparr>)))"
      using del by (auto simp: delete_dependency_def split: option.splits if_splits)
    then show ?thesis using view_by_tasks [of db'] view_by_tasks [of "db\<lparr>task_dependencies := _\<rparr>" db] by simp
  qed
  show "tree_view (start_run_flip agent task db) = tree_view db" by (simp add: start_run_flip_def)
qed

lemma view_blocker_tools:
  "add_task_blocker (\<lambda>d. d) team project t b db = Inr db' \<Longrightarrow> tree_view db' = tree_view db"
  "remove_task_blocker fresh team project t b run db = Inr db' \<Longrightarrow> tree_view db' = tree_view db"
proof -
  show "tree_view db' = tree_view db" if add: "add_task_blocker (\<lambda>d. d) team project t b db = Inr db'"
  proof (rule add_blocker_writes [OF add])
    fix i j db1 assume "insert_edge i j db = Inr (True, db1)" "db' = snd (reconcileBlockedStatus i None db1)"
    then show ?thesis using insert_edge_new(1) [of i j db db1] view_by_tasks [of db1 db] by simp
  qed
  show "tree_view db' = tree_view db" if rm: "remove_task_blocker fresh team project t b run db = Inr db'"
  proof (rule remove_blocker_writes [OF rm])
    fix i dep assume "db' = wakeIfReady fresh i run (snd (reconcileBlockedStatus i None
        (db\<lparr>task_dependencies := filter (\<lambda>e. e \<noteq> dep) (task_dependencies db)\<rparr>)))"
    then show ?thesis using view_by_tasks [of db'] view_by_tasks [of "db\<lparr>task_dependencies := _\<rparr>" db] by simp
  qed
qed

lemma step_keeps:
  assumes "task_step db db'" and inv: "task_inv db"
  shows "task_inv db'"
  using assms(1)
proof cases
  case (step_post t b team)
  then show ?thesis using inv post_keeps_graph view_requests(1) tree_inv_view unfolding task_inv_def by metis
next
  case (step_delete fresh team t dep)
  then show ?thesis using inv delete_keeps_graph view_requests(2) tree_inv_view unfolding task_inv_def by metis
next
  case (step_add t b team project)
  then show ?thesis using inv blocker_tools_keep_graph(1) view_blocker_tools(1) tree_inv_view unfolding task_inv_def by metis
next
  case (step_remove fresh team project t b run)
  then show ?thesis using inv blocker_tools_keep_graph(2) view_blocker_tools(2) tree_inv_view unfolding task_inv_def by metis
next
  case (step_patch freshes coach team t body)
  then show ?thesis using inv patch_keeps_graph patch_keeps_tree unfolding task_inv_def by metis
next
  case step_create
  then show ?thesis using inv create_keeps_graph create_keeps_tree unfolding task_inv_def by metis
next
  case (step_run agent task)
  then show ?thesis using inv run_keeps_graph view_requests(3) tree_inv_view unfolding task_inv_def by metis
next
  case step_other
  then show ?thesis using inv same_tasks_inv(1) view_by_tasks tree_inv_view unfolding task_inv_def by metis
qed

interpretation tasks: inductive_invariant no_tasks task_step task_inv
  by unfold_locales (auto intro: no_tasks_inv step_keeps)


section \<open>Properties\<close>

text \<open>
  (C6) Blocked is a derived status. Start from an empty board and let the requests of \<open>task_step\<close> run, one
  at a time, in any order: a blocker added or removed over the REST routes or over MCP, a task updated,
  a task created, the flip to in progress when a run starts, and whatever the system does to the queue,
  the runs and the events; a request that adds a blocker names its tasks by identifier, or by uuid in
  the database's own spelling. Then the blocking graph has no cycle, and a task that is not closed is
  blocked exactly when one of its blockers is not closed. (Interleaved requests, other spellings of a
  uuid and the two services that insert a task already blocked are outside this statement.)
\<close>

theorem blocked_status_derived:
  assumes "reach no_tasks task_step db" and "status_of i db = Some s" and "\<not> terminal s"
  shows "acyclic (set (task_dependencies db)) \<and> (s = Blocked \<longleftrightarrow> hasOpenBlockers db i)"
  using tasks.reach_inv [OF assms(1)] assms(2,3) by (simp add: task_inv_def graph_inv_def derived_at_def)

text \<open>
  (C29) Sub-tasks are never nested deeper than the cap. In every reachable state a chain of parents
  has at most \<open>MAX_SUB_TASK_DEPTH\<close> edges, so no task is its own ancestor, although each request measures
  only the parent's depth and the height of what is moved.
\<close>

theorem sub_tasks_shallow:
  assumes "reach no_tasks task_step db" and "(x, y) \<in> parent_rel db ^^ k"
  shows "k \<le> MAX_SUB_TASK_DEPTH \<and> acyclic (parent_rel db)"
proof -
  have long: "parent_rel db ^^ Suc MAX_SUB_TASK_DEPTH = {}" using tasks.reach_inv [OF assms(1)] by (simp add: task_inv_def tree_inv_def)
  have "(z, z) \<notin> (parent_rel db)\<^sup>+" for z
  proof
    assume "(z, z) \<in> (parent_rel db)\<^sup>+"
    then obtain n where n: "0 < n" "(z, z) \<in> parent_rel db ^^ n" using trancl_power by blast
    have "(z, z) \<in> parent_rel db ^^ (m * n)" for m
    proof (induction m)
      case (Suc m)
      then show ?case using n(2) by (simp add: relpow_add relcomp.relcompI)
    qed simp
    then have "Suc MAX_SUB_TASK_DEPTH * n \<le> MAX_SUB_TASK_DEPTH" by (rule no_longer_chain [OF long])
    then show False using n(1) by (cases n) simp_all
  qed
  then show ?thesis using no_longer_chain [OF long assms(2)] by (simp add: acyclic_def)
qed

subsection \<open>A reachable state\<close>

definition empty_tasks :: dep_db where
  "empty_tasks = \<lparr>dep_tasks = [], task_dependencies = [], dep_queue = \<lparr>wakeups = [], w_now = 0\<rparr>, member_agents = {''m''}, active_runs = [], events = []\<rparr>"

definition first_created :: "task_error + dep_db" where
  "first_created = create_task ''w1'' ''t1'' ''BE-1'' ''a'' ''p'' None ''m'' [] None None empty_tasks"

definition second_created :: "task_error + dep_db" where
  "second_created = create_task ''w2'' ''t2'' ''BE-2'' ''a'' ''p'' (Some ''BE-1'') ''m'' ['' be-1 ''] None None (projr first_created)"

lemma second_reachable: "reach no_tasks task_step (projr second_created)"
proof -
  have fits: "create_task ''w1'' ''t1'' ''BE-1'' ''a'' ''p'' None ''m'' [] None None empty_tasks = Inr (projr first_created)"
    "create_task ''w2'' ''t2'' ''BE-2'' ''a'' ''p'' (Some ''BE-1'') ''m'' ['' be-1 ''] None None (projr first_created) = Inr (projr second_created)"
    unfolding first_created_def second_created_def by (rule sum.collapse(2) [symmetric], code_simp)+
  have "reach no_tasks task_step empty_tasks" by (rule reach_init) (simp add: no_tasks_def empty_tasks_def)
  then have "reach no_tasks task_step (projr first_created)"
    by (rule reach_step) (rule step_create [OF _ _ _ fits(1)]; code_simp)
  then show ?thesis by (rule reach_step) (rule step_create [OF _ _ _ fits(2)]; code_simp)
qed

theorem blocked_status_derived_witness:
  "reach no_tasks task_step (projr second_created) \<and> status_of ''t2'' (projr second_created) = Some Blocked
   \<and> hasOpenBlockers (projr second_created) ''t2''"
proof -
  have s: "status_of ''t2'' (projr second_created) = Some Blocked" "\<not> terminal Blocked" by code_simp+
  show ?thesis using blocked_status_derived [OF second_reachable s] second_reachable s by simp
qed

theorem sub_tasks_shallow_witness:
  "reach no_tasks task_step (projr second_created) \<and> (''t2'', ''t1'') \<in> parent_rel (projr second_created) ^^ 1
   \<and> acyclic (parent_rel (projr second_created))"
proof -
  have "map (\<lambda>t. (t_id t, t_parent_task_id t)) (dep_tasks (projr second_created)) = [(''t1'', None), (''t2'', Some ''t1'')]" by code_simp
  then have "(''t2'', ''t1'') \<in> parent_rel (projr second_created) ^^ 1"
    by (auto simp: parent_rel_def intro: exI [of _ "dep_tasks (projr second_created) ! 1"])
  then show ?thesis using sub_tasks_shallow [OF second_reachable] second_reachable by blast
qed


subsection \<open>Waking on unblock\<close>

lemma touched_row: "e \<in> set (wakeups q) \<Longrightarrow> P e \<Longrightarrow> f e \<in> set (wakeups (set_wakeups P f q))"
  by (force simp: set_wakeups_def)

lemma set_wakeups_none:
  assumes "\<And>w. w \<in> set (wakeups q) \<Longrightarrow> \<not> P w"
  shows "set_wakeups P f q = q"
proof -
  have "map (\<lambda>w. if P w then f w else w) (wakeups q) = wakeups q" using assms by (intro map_idI) auto
  then show ?thesis by (simp add: set_wakeups_def)
qed

lemma created_wakeup_there:
  assumes own: "\<And>w. w \<in> set (wakeups q) \<Longrightarrow> w_idempotency_key w = key \<Longrightarrow> w_status w = WQueued \<Longrightarrow> w_member_id w = m \<and> field (w_payload w) ''task_id'' = Some t"
    and p: "payload ''task_id'' = Some (Text t)"
  shows "\<exists>w \<in> set (wakeups (snd (createWakeup (\<lambda>d. d) fresh m team source payload key run q))).
     w_member_id w = m \<and> w_status w = WQueued \<and> field (w_payload w) ''task_id'' = Some t" (is "\<exists>w \<in> set (wakeups (snd ?r)). ?ok w")
proof -
  let ?keyed = "if truthy key then filter (\<lambda>w. w_idempotency_key w = key \<and> w_status w = WQueued) (wakeups q) else []"
  let ?cands = "sort_by latest_first (filter (coalesce_target m (Some t)) (wakeups q))"
  have touched: "\<exists>w \<in> set (wakeups (set_wakeups P f q)). ?ok w" if "e \<in> set (wakeups q)" "P e" "?ok (f e)" for P f e
    using that touched_row [of e q P f] by blast
  have task: "string_field payload ''task_id'' = Some t" by (simp add: string_field_def p)
  show ?thesis
  proof (cases ?keyed)
    case (Cons e es)
    then have "e \<in> set ?keyed" by simp
    then have e: "e \<in> set (wakeups q)" "?ok e" using own [of e] by (auto split: if_splits)
    then show ?thesis using Cons touched [of e "\<lambda>w. w_id w = w_id e"] by (auto simp: createWakeup_def)
  next
    case keyed: Nil
    show ?thesis
    proof (cases ?cands)
      case Nil
      then show ?thesis using keyed p by (simp add: createWakeup_def task insert_wakeup_def new_wakeup_def field_def)
    next
      case (Cons e es)
      let ?f = "merge_row (merged_payload (w_payload e) payload run) (promoteSource source (w_source e)) source run"
      have e: "e \<in> set (wakeups q)" "coalesce_target m (Some t) e" using hd_sort_by [OF Cons] by auto
      then have q: "w_status e = WQueued" "w_member_id e = m" by (simp_all add: coalesce_target_def)
      have "list_ex (\<lambda>w. w_id w = w_id e \<and> w_status w = WQueued) (wakeups q)" using e(1) q(1) by (auto simp: list_ex_iff)
      then have r: "snd ?r = set_wakeups (\<lambda>w. w_id w = w_id e \<and> w_status w = WQueued) ?f q"
        using keyed Cons by (simp add: createWakeup_def task Let_def)
      have "field (merged_payload (w_payload e) payload run) ''task_id'' = Some t"
        by (simp add: merged_payload_def Let_def field_def mergePayloads_def p split: option.splits payload_value.splits)
      then show ?thesis unfolding r using e(1) q by (intro touched [of e]) (simp_all add: merge_row_def)
    qed
  qed
qed

text \<open>
  (Lemma) An agent is told when its task is unblocked. With no open blocker left on a task assigned to
  an agent, the check leaves the agent with a run under way on the task or a queued wakeup for it, as long as
  the queued rows under the task's unblock key are that agent's own.
\<close>

theorem unblocked_agent_woken:
  assumes "\<not> hasOpenBlockers db t" and "task_of t db = Some row" and "t_assignee_id row = Some m" and "m \<noteq> []" and "m \<in> member_agents db"
    and key: "\<And>w. w \<in> set (wakeups (dep_queue db)) \<Longrightarrow> w_idempotency_key w = Some (''unblock:'' @ t) \<Longrightarrow> w_status w = WQueued
      \<Longrightarrow> w_member_id w = m \<and> field (w_payload w) ''task_id'' = Some t"
  shows "(m, uuid_in t) \<in> set (active_runs db)
    \<or> (\<exists>w \<in> set (wakeups (dep_queue (wakeIfReady fresh t run db))). w_member_id w = m \<and> w_status w = WQueued \<and> field (w_payload w) ''task_id'' = Some t)"
proof -
  let ?parked = "\<lambda>w. w_member_id w = m \<and> w_status w = WDeferred \<and> field (w_payload w) ''task_id'' = Some t \<and> field (w_payload w) ''reason'' = Some ''blocked''"
  have task: "truthy (t_assignee_id row)" "the (t_assignee_id row) = m" using assms(3,4) by (simp_all add: truthy_def)
  show ?thesis
  proof (cases "list_ex ?parked (wakeups (dep_queue db))")
    case True
    then obtain w where "w \<in> set (wakeups (dep_queue db))" "?parked w" by (auto simp: list_ex_iff)
    then have woken: "w\<lparr>w_status := WQueued, w_claimed_at := None, w_created_at := w_now (dep_queue db),
        w_created_by_run_id := or_else run (w_created_by_run_id w)\<rparr> \<in> set (wakeups (snd (flip_deferred m t run (dep_queue db))))" (is "?w \<in> _")
      unfolding flip_deferred_def Let_def snd_conv by (intro touched_row)
    have "dep_queue (wakeIfReady fresh t run db) = snd (flip_deferred m t run (dep_queue db))"
      using assms(1,2,5) task True by (simp add: wakeIfReady_def flip_deferred_def Let_def)
    then show ?thesis using woken \<open>?parked w\<close> by (intro disjI2 bexI [of _ ?w]) simp_all
  next
    case False
    then have q: "flip_deferred m t run (dep_queue db) = (False, dep_queue db)"
      using set_wakeups_none [of "dep_queue db" ?parked] by (simp add: flip_deferred_def Let_def list_ex_iff)
    show ?thesis using assms(1,2,5) task created_wakeup_there [OF key] by (auto simp: wakeIfReady_def q)
  qed
qed

definition woken_tasks :: dep_db where
  "woken_tasks = demo_tasks\<lparr>dep_tasks := map (\<lambda>t. t\<lparr>t_assignee_id := Some ''m''\<rparr>) (dep_tasks demo_tasks), member_agents := {''m''}\<rparr>"

theorem unblocked_agent_woken_witness:
  "\<exists>w. w \<in> set (wakeups (dep_queue (wakeIfReady ''w'' demo_id None woken_tasks))) \<and> w_member_id w = ''m'' \<and> w_status w = WQueued"
proof -
  have "map_option t_assignee_id (task_of demo_id woken_tasks) = Some (Some ''m'')" by code_simp
  then obtain row where row: "task_of demo_id woken_tasks = Some row" "t_assignee_id row = Some ''m''" by auto
  have "\<not> hasOpenBlockers woken_tasks demo_id" "''m'' \<in> member_agents woken_tasks" by code_simp+
  then show ?thesis using unblocked_agent_woken [OF _ row, where fresh = "''w''" and run = None] by (auto simp: woken_tasks_def demo_tasks_def)
qed


text \<open>
  (Lemma) A closed parent can have open children. The re-parent check takes this to be impossible, but
  it reads the status the moved task had before the same request reopens it; cancelling a parent asks
  nothing of its children.
\<close>

theorem closed_parent_open_child:
  "(\<exists>db. patch_task id None ''a'' ''BE-2'' \<lparr>p_status = Some Backlog, p_assignee_id = None, p_parent_task_id = Some (Some ''BE-1'')\<rparr>
       (demo_tasks\<lparr>dep_tasks := map (\<lambda>t. t\<lparr>t_status := Done\<rparr>) (dep_tasks demo_tasks)\<rparr>) = Inr db
     \<and> status_of demo_id db = Some Done \<and> status_of demo_other db = Some Backlog \<and> map t_parent_task_id (dep_tasks db) = [None, Some demo_id])
   \<and> patch_task id None ''a'' ''BE-2'' \<lparr>p_status = None, p_assignee_id = None, p_parent_task_id = Some (Some ''BE-1'')\<rparr>
       (set_status demo_id Done demo_tasks) = Inl ClosedParent
   \<and> (\<exists>db. patch_task id None ''a'' ''BE-1'' \<lparr>p_status = Some Cancelled, p_assignee_id = None, p_parent_task_id = None\<rparr>
       (demo_tasks\<lparr>dep_tasks := map (\<lambda>t. if t_id t = demo_other then t\<lparr>t_parent_task_id := Some demo_id\<rparr> else t) (dep_tasks demo_tasks)\<rparr>) = Inr db
     \<and> status_of demo_id db = Some Cancelled \<and> status_of demo_other db = Some Backlog)"
  by (intro conjI ended_well ended_badly; code_simp)

end
