(* ===== verification/Ssh_Agent.thy ===== *)
theory Ssh_Agent
  imports Framing State_Systems
begin

text \<open>
  The ssh-agent a run's container talks to: the wire protocol of \<open>services/ssh-agent/protocol.ts\<close>
  and the connection handlers of \<open>services/ssh-agent/server.ts\<close>. Buffers are byte lists;
  \<open>readUInt32BE\<close> and \<open>writeUInt32BE\<close> throw a range error outside their bounds, which is an error value
  here. The keys of a team (database, decryption) and the signature primitive are parameters.

  A connection handler is a step relation: \<open>processFrames\<close> runs until it awaits the team's keys, every
  data event starts another such loop over the same buffer, and a waiting loop goes on when its keys
  arrive, in whatever order they do.
\<close>

section \<open>Wire format\<close>

definition MSG_FAILURE :: byte where "MSG_FAILURE = 5"

definition MSG_REQUEST_IDENTITIES :: byte where "MSG_REQUEST_IDENTITIES = 11"

definition MSG_IDENTITIES_ANSWER :: byte where "MSG_IDENTITIES_ANSWER = 12"

definition MSG_SIGN_REQUEST :: byte where "MSG_SIGN_REQUEST = 13"

definition MSG_SIGN_RESPONSE :: byte where "MSG_SIGN_RESPONSE = 14"

text \<open>A comment is kept as its UTF-8 bytes, which is all the encoder uses of it.\<close>

record AgentIdentity =
  id_keyBlob :: bytes
  id_comment :: bytes

record SignRequest =
  sr_keyBlob :: bytes
  sr_data :: bytes
  sr_flags :: nat

datatype AgentMessage = RequestIdentities | SignMessage SignRequest | FailureMessage

datatype range_error = RangeError

definition writeUInt32BE :: "nat \<Rightarrow> range_error + bytes" where
  "writeUInt32BE n = (if n < 2 ^ 32 then Inr (be32 (word_of_nat n)) else Inl RangeError)"

definition readUInt32BE :: "bytes \<Rightarrow> nat \<Rightarrow> range_error + nat" where
  "readUInt32BE buf off = (if off + 4 \<le> length buf then Inr (unat (of_be32 (take 4 (drop off buf)))) else Inl RangeError)"

definition encodeString :: "bytes \<Rightarrow> range_error + bytes" where
  "encodeString v = map_sum id (\<lambda>len. len @ v) (writeUInt32BE (length v))"

definition frameMessage :: "byte \<Rightarrow> bytes \<Rightarrow> range_error + bytes" where
  "frameMessage t payload = map_sum id (\<lambda>len. len @ t # payload) (writeUInt32BE (1 + length payload))"

fun encode_identities :: "AgentIdentity list \<Rightarrow> range_error + bytes" where
  "encode_identities [] = Inr []"
| "encode_identities (identity # identities) =
     (case encodeString (id_keyBlob identity) of
        Inl e \<Rightarrow> Inl e
      | Inr blob \<Rightarrow> (case encodeString (id_comment identity) of
          Inl e \<Rightarrow> Inl e
        | Inr comment \<Rightarrow> map_sum id (\<lambda>rest. blob @ comment @ rest) (encode_identities identities)))"

definition encodeIdentitiesAnswer :: "AgentIdentity list \<Rightarrow> range_error + bytes" where
  "encodeIdentitiesAnswer identities =
     (case writeUInt32BE (length identities) of
        Inl e \<Rightarrow> Inl e
      | Inr nkeys \<Rightarrow> (case encode_identities identities of
          Inl e \<Rightarrow> Inl e
        | Inr parts \<Rightarrow> frameMessage MSG_IDENTITIES_ANSWER (nkeys @ parts)))"

definition encodeSignResponse :: "bytes \<Rightarrow> range_error + bytes" where
  "encodeSignResponse signatureBlob =
     (case encodeString signatureBlob of Inl e \<Rightarrow> Inl e | Inr s \<Rightarrow> frameMessage MSG_SIGN_RESPONSE s)"

definition encodeFailure :: "range_error + bytes" where
  "encodeFailure = frameMessage MSG_FAILURE []"

text \<open>\<open>Reader\<close>: a buffer and an offset; \<open>subarray\<close> past the end is what there is.\<close>

definition readString :: "bytes \<Rightarrow> nat \<Rightarrow> range_error + bytes \<times> nat" where
  "readString buf off = map_sum id (\<lambda>len. (take len (drop (off + 4) buf), off + 4 + len)) (readUInt32BE buf off)"

definition readUInt32 :: "bytes \<Rightarrow> nat \<Rightarrow> range_error + nat \<times> nat" where
  "readUInt32 buf off = map_sum id (\<lambda>n. (n, off + 4)) (readUInt32BE buf off)"

definition decodeMessage :: "bytes \<Rightarrow> range_error + AgentMessage" where
  "decodeMessage payload =
     (case payload of
        [] \<Rightarrow> Inr FailureMessage
      | t # rest \<Rightarrow>
          if t = MSG_REQUEST_IDENTITIES then Inr RequestIdentities
          else if t = MSG_SIGN_REQUEST then
            (case readString rest 0 of
               Inl e \<Rightarrow> Inl e
             | Inr (keyBlob, off1) \<Rightarrow> (case readString rest off1 of
                 Inl e \<Rightarrow> Inl e
               | Inr (data, off2) \<Rightarrow> (case readUInt32 rest off2 of
                   Inl e \<Rightarrow> Inl e
                 | Inr (flags, _) \<Rightarrow> Inr (SignMessage \<lparr>sr_keyBlob = keyBlob, sr_data = data, sr_flags = flags\<rparr>))))
          else Inr FailureMessage)"

definition ssh_ed25519 :: bytes where
  "ssh_ed25519 = map (\<lambda>c. of_char c) ''ssh-ed25519''"

definition ed25519PublicKeyBlob :: "bytes \<Rightarrow> range_error + bytes" where
  "ed25519PublicKeyBlob rawPublicKey =
     (case encodeString ssh_ed25519 of Inl e \<Rightarrow> Inl e | Inr name \<Rightarrow> map_sum id (\<lambda>k. name @ k) (encodeString rawPublicKey))"

definition ed25519SignatureBlob :: "('k \<Rightarrow> bytes \<Rightarrow> bytes) \<Rightarrow> 'k \<Rightarrow> bytes \<Rightarrow> range_error + bytes" where
  "ed25519SignatureBlob sign privateKey data =
     (case encodeString ssh_ed25519 of Inl e \<Rightarrow> Inl e | Inr name \<Rightarrow> map_sum id (\<lambda>s. name @ s) (encodeString (sign privateKey data)))"

section \<open>Frames\<close>

text \<open>\<open>FrameReader.next\<close>: the payload and what stays in the buffer.\<close>

definition next_frame :: "bytes \<Rightarrow> (bytes \<times> bytes) option" where
  "next_frame buffer =
     (if length buffer < 4 then None
      else (let len = unat (of_be32 (take 4 buffer)) in
        if length buffer < 4 + len then None
        else Some (take len (drop 4 buffer), drop (4 + len) buffer)))"

definition push :: "bytes \<Rightarrow> bytes \<Rightarrow> bytes" where
  "push buffer chunk = (if buffer = [] then chunk else buffer @ chunk)"

lemma ssh_frame_shrinks: "next_frame b = Some (p, rest) \<Longrightarrow> length rest < length b"
  by (auto simp: next_frame_def Let_def split: if_splits)

section \<open>Answering\<close>

record 'k KeyEntry =
  keyBlob :: bytes
  comment :: bytes
  privateKey :: 'k

fun signWithMatchingKey :: "('k \<Rightarrow> bytes \<Rightarrow> bytes) \<Rightarrow> 'k KeyEntry list \<Rightarrow> SignRequest \<Rightarrow> (range_error + bytes) option" where
  "signWithMatchingKey sign [] req = None"
| "signWithMatchingKey sign (key # keys) req =
     (if keyBlob key = sr_keyBlob req then Some (ed25519SignatureBlob sign (privateKey key) (sr_data req))
      else signWithMatchingKey sign keys req)"

text \<open>
  One pass of the \<open>switch\<close> once the keys are there; an error in it is answered with a failure. \<open>keys\<close> is
  what \<open>resolveKeys\<close> came back with, an error when the master key is locked.
\<close>

definition or_failure :: "range_error + bytes \<Rightarrow> bytes" where
  "or_failure r = (case r of Inr b \<Rightarrow> b | Inl _ \<Rightarrow> (case encodeFailure of Inr f \<Rightarrow> f | Inl _ \<Rightarrow> []))"

definition respond :: "('k \<Rightarrow> bytes \<Rightarrow> bytes) \<Rightarrow> unit + 'k KeyEntry list \<Rightarrow> AgentMessage \<Rightarrow> bytes" where
  "respond sign keys message =
     (case message of
        FailureMessage \<Rightarrow> or_failure encodeFailure
      | RequestIdentities \<Rightarrow> (case keys of
          Inl _ \<Rightarrow> or_failure encodeFailure
        | Inr ks \<Rightarrow> or_failure (encodeIdentitiesAnswer (map (\<lambda>k. \<lparr>id_keyBlob = keyBlob k, id_comment = comment k\<rparr>) ks)))
      | SignMessage req \<Rightarrow> (case keys of
          Inl _ \<Rightarrow> or_failure encodeFailure
        | Inr ks \<Rightarrow> (case signWithMatchingKey sign ks req of
            Some r \<Rightarrow> or_failure (case r of Inl e \<Rightarrow> Inl e | Inr s \<Rightarrow> encodeSignResponse s)
          | None \<Rightarrow> or_failure encodeFailure)))"

section \<open>A connection\<close>

text \<open>
  How a run of the loop ends: out of whole frames, waiting for the keys with a message in hand, or
  rejected because \<open>decodeMessage\<close>, which is outside the \<open>try\<close>, threw.
\<close>

datatype loop_end = Drained | Awaiting AgentMessage | Rejected

function process_frames :: "bytes \<Rightarrow> bytes list \<times> bytes \<times> loop_end" where
  "process_frames buffer =
     (case next_frame buffer of
        None \<Rightarrow> ([], buffer, Drained)
      | Some (payload, rest) \<Rightarrow> (case decodeMessage payload of
          Inl _ \<Rightarrow> ([], rest, Rejected)
        | Inr FailureMessage \<Rightarrow> (case process_frames rest of (out, b, e) \<Rightarrow> (or_failure encodeFailure # out, b, e))
        | Inr m \<Rightarrow> ([], rest, Awaiting m)))"
  by pat_completeness auto
termination by (relation "measure length") (auto dest: ssh_frame_shrinks)

declare process_frames.simps [simp del]

record conn =
  frames :: bytes
  waiting :: "AgentMessage list"
  written :: "bytes list"
  rejected :: nat

definition run_loop :: "conn \<Rightarrow> conn" where
  "run_loop c = (case process_frames (frames c) of
     (out, b, e) \<Rightarrow> (let c1 = c\<lparr>frames := b, written := written c @ out\<rparr> in
       case e of
         Drained \<Rightarrow> c1
       | Awaiting m \<Rightarrow> c1\<lparr>waiting := waiting c @ [m]\<rparr>
       | Rejected \<Rightarrow> c1\<lparr>rejected := Suc (rejected c)\<rparr>))"

definition on_data :: "bytes \<Rightarrow> conn \<Rightarrow> conn" where
  "on_data chunk c = run_loop (c\<lparr>frames := push (frames c) chunk\<rparr>)"

text \<open>The \<open>i\<close>-th waiting loop is given its keys: it writes its answer and goes on with the buffer as it is now.\<close>

definition on_keys :: "('k \<Rightarrow> bytes \<Rightarrow> bytes) \<Rightarrow> nat \<Rightarrow> unit + 'k KeyEntry list \<Rightarrow> conn \<Rightarrow> conn" where
  "on_keys sign i keys c =
     run_loop (c\<lparr>waiting := take i (waiting c) @ drop (Suc i) (waiting c), written := written c @ [respond sign keys (waiting c ! i)]\<rparr>)"

definition new_conn :: conn where
  "new_conn = \<lparr>frames = [], waiting = [], written = [], rejected = 0\<rparr>"

section \<open>The token of the TCP bridge\<close>

definition TCP_TOKEN_BYTES :: nat where
  "TCP_TOKEN_BYTES = 16"

record tcp_conn =
  tokenChunks :: "bytes list"
  authenticated :: bool
  destroyed :: bool
  tcp_written :: "bytes list"
  tcp_conn :: conn

definition new_tcp_conn :: tcp_conn where
  "new_tcp_conn = \<lparr>tokenChunks = [], authenticated = False, destroyed = False, tcp_written = [], tcp_conn = new_conn\<rparr>"

definition onData :: "bytes \<Rightarrow> bytes \<Rightarrow> tcp_conn \<Rightarrow> tcp_conn" where
  "onData expectedToken chunk t =
     (if destroyed t then t
      else if authenticated t then t\<lparr>tcp_conn := on_data chunk (tcp_conn t)\<rparr>
      else (let all_bytes = concat (tokenChunks t @ [chunk]); t1 = t\<lparr>tokenChunks := tokenChunks t @ [chunk]\<rparr> in
        if length all_bytes < TCP_TOKEN_BYTES then t1
        else (let candidate = take TCP_TOKEN_BYTES all_bytes; remainder = drop TCP_TOKEN_BYTES all_bytes in
          if candidate \<noteq> expectedToken
          then t1\<lparr>tcp_written := tcp_written t @ [or_failure encodeFailure], destroyed := True\<rparr>
          else (let t2 = t1\<lparr>authenticated := True\<rparr>
            in if remainder = [] then t2 else t2\<lparr>tcp_conn := on_data remainder (tcp_conn t2)\<rparr>))))"

section \<open>The frames of a stream\<close>

definition ssh_step :: "bytes \<Rightarrow> (unit, bytes) parse" where
  "ssh_step b = (case next_frame b of None \<Rightarrow> Need | Some (p, rest) \<Rightarrow> Got p rest)"

function ssh_drain :: "bytes \<Rightarrow> bytes \<times> (unit + bytes list)" where
  "ssh_drain b = (case next_frame b of
     None \<Rightarrow> (b, Inr [])
   | Some (p, rest) \<Rightarrow> (case ssh_drain rest of (r, Inl e) \<Rightarrow> (r, Inl e) | (r, Inr ps) \<Rightarrow> (r, Inr (p # ps))))"
  by pat_completeness auto
termination by (relation "measure length") (auto dest: ssh_frame_shrinks)

declare ssh_drain.simps [simp del]

lemma next_frame_append:
  assumes "next_frame b = Some (p, rest)"
  shows "next_frame (b @ xs) = Some (p, rest @ xs)"
proof -
  have "4 \<le> length b" using assms by (auto simp: next_frame_def split: if_splits)
  then have "take 4 (b @ xs) = take 4 b" by simp
  then show ?thesis using assms by (auto simp: next_frame_def Let_def split: if_splits)
qed

interpretation ssh: incremental_parser ssh_step ssh_drain
proof unfold_locales
  show "ssh_step (b @ xs) = Got p (rest @ xs)" if "ssh_step b = Got p rest" for b p rest xs
    using that next_frame_append by (auto simp: ssh_step_def split: option.splits prod.splits)
  show "ssh_step (b @ xs) = Bad e" if "ssh_step b = Bad e" for b e xs
    using that by (auto simp: ssh_step_def split: option.splits)
  show "length rest < length b" if "ssh_step b = Got p rest" for b p rest
    using that ssh_frame_shrinks by (auto simp: ssh_step_def split: option.splits)
  show "ssh_drain b = (case ssh_step b of Need \<Rightarrow> (b, Inr []) | Bad e \<Rightarrow> (b, Inl e)
     | Got f rest \<Rightarrow> (case ssh_drain rest of (b, Inl e) \<Rightarrow> (b, Inl e) | (b, Inr fs) \<Rightarrow> (b, Inr (f # fs))))" for b
    by (subst ssh_drain.simps) (auto simp: ssh_step_def split: option.splits prod.splits)
qed

text \<open>No frame is malformed: whatever the bytes, what comes out is payloads and a pending rest.\<close>

lemma drain_total: "\<exists>r ps. ssh_drain b = (r, Inr ps)"
proof (induction b rule: ssh_drain.induct)
  case (1 b)
  show ?case
  proof (cases "next_frame b")
    case (Some f)
    then obtain p rest where f: "next_frame b = Some (p, rest)" by (cases f) auto
    then obtain r ps where "ssh_drain rest = (r, Inr ps)" using 1 by blast
    then show ?thesis using f by (simp add: ssh_drain.simps [of b])
  qed (simp add: ssh_drain.simps [of b])
qed

definition payloads :: "bytes \<Rightarrow> bytes list" where
  "payloads b = projr (snd (ssh_drain b))"

definition pending :: "bytes \<Rightarrow> bytes" where
  "pending b = fst (ssh_drain b)"

lemma drained: "ssh_drain b = (pending b, Inr (payloads b))"
  using drain_total [of b] by (auto simp: pending_def payloads_def)

lemma payloads_append: "payloads (b @ c) = payloads b @ payloads (pending b @ c)" "pending (b @ c) = pending (pending b @ c)"
  using ssh.drain_append_ok [OF drained, of b c] drained [of "b @ c"] drained [of "pending b @ c"] by (auto split: prod.splits sum.splits)

lemma payloads_None: "next_frame b = None \<Longrightarrow> payloads b = [] \<and> pending b = b"
  using drained [of b] by (simp add: ssh_drain.simps [of b])

lemma payloads_Some: "next_frame b = Some (p, rest) \<Longrightarrow> payloads b = p # payloads rest \<and> pending b = pending rest"
  using drained [of b] drained [of rest] by (auto simp: ssh_drain.simps [of b])

lemma payloads_pending: "payloads (pending b) = [] \<and> pending (pending b) = pending b"
proof -
  have "next_frame (pending b) = None" using ssh.drain_rest_Need [OF drained, of b] by (auto simp: ssh_step_def split: option.splits)
  then show ?thesis by (rule payloads_None)
qed

text \<open>A frame on the wire, and a buffer that begins with a whole one, as the protocol has them.\<close>

definition frame :: "bytes \<Rightarrow> bytes" where
  "frame payload = be32 (word_of_nat (length payload)) @ payload"

definition holds_frame :: "bytes \<Rightarrow> bool" where
  "holds_frame b \<longleftrightarrow> 4 \<le> length b \<and> 4 + unat (of_be32 (take 4 b)) \<le> length b"

lemma next_is_frame: "next_frame b = Some (p, rest) \<Longrightarrow> b = frame p @ rest"
proof -
  assume "next_frame b = Some (p, rest)"
  then have b: "4 \<le> length b" "4 + unat (of_be32 (take 4 b)) \<le> length b" "p = take (unat (of_be32 (take 4 b))) (drop 4 b)"
      "rest = drop (4 + unat (of_be32 (take 4 b))) b"
    by (auto simp: next_frame_def Let_def split: if_splits)
  then have "word_of_nat (length p) = of_be32 (take 4 b)" by simp
  then have "be32 (word_of_nat (length p)) = take 4 b" using b(1) be32_of_be32 [of "take 4 b"] by simp
  moreover have "drop 4 b = p @ rest" using b(3,4) append_take_drop_id [of "unat (of_be32 (take 4 b))" "drop 4 b"] by (simp add: add.commute)
  ultimately show "b = frame p @ rest" using append_take_drop_id [of 4 b] by (simp add: frame_def)
qed

lemma in_frames: "b = concat (map frame (payloads b)) @ pending b"
proof (induction b rule: ssh_drain.induct)
  case (1 b)
  show ?case
  proof (cases "next_frame b")
    case None
    then show ?thesis using payloads_None by simp
  next
    case (Some f)
    then obtain p rest where f: "next_frame b = Some (p, rest)" by (cases f) auto
    then show ?thesis using "1" [OF f refl] next_is_frame [OF f] payloads_Some [OF f] by simp
  qed
qed

lemma holds_iff: "holds_frame b \<longleftrightarrow> payloads b \<noteq> []"
proof (cases "next_frame b")
  case None
  then show ?thesis using payloads_None by (auto simp: next_frame_def holds_frame_def Let_def split: if_splits)
next
  case (Some f)
  then obtain p rest where f: "next_frame b = Some (p, rest)" by (cases f) auto
  then show ?thesis using payloads_Some [OF f] by (auto simp: next_frame_def holds_frame_def Let_def split: if_splits)
qed

section \<open>A client that waits for its answers\<close>

function settle :: "('k \<Rightarrow> bytes \<Rightarrow> bytes) \<Rightarrow> unit + 'k KeyEntry list \<Rightarrow> conn \<Rightarrow> conn" where
  "settle sign keys c = (if waiting c = [] then c else settle sign keys (on_keys sign 0 keys c))"
  by pat_completeness auto

lemma process_frames_length: "process_frames b = (out, r, e) \<Longrightarrow> length r + (case e of Awaiting _ \<Rightarrow> 1 | _ \<Rightarrow> 0) \<le> length b"
proof (induction b arbitrary: out r e rule: process_frames.induct)
  case (1 b)
  show ?case
  proof (cases "next_frame b")
    case None
    then show ?thesis using "1.prems" by (auto simp: process_frames.simps [of b])
  next
    case (Some f)
    then obtain p rest where f: "next_frame b = Some (p, rest)" by (cases f) auto
    show ?thesis using "1.prems" "1.IH" [OF f refl] ssh_frame_shrinks [OF f]
      by (fastforce simp: process_frames.simps [of b] f split: sum.splits AgentMessage.splits prod.splits loop_end.splits)
  qed
qed

termination settle
proof (relation "measure (\<lambda>(_, _, c). length (frames c) + length (waiting c))")
  fix sign :: "'k \<Rightarrow> bytes \<Rightarrow> bytes" and keys and c :: conn assume w: "waiting c \<noteq> []"
  obtain out r e where p: "process_frames (frames c) = (out, r, e)" by (metis prod_cases3)
  show "((sign, keys, on_keys sign 0 keys c), sign, keys, c) \<in> measure (\<lambda>(_, _, c). length (frames c) + length (waiting c))"
    using w process_frames_length [OF p] by (cases "waiting c") (auto simp: on_keys_def run_loop_def p Let_def split: loop_end.splits)
qed simp

declare settle.simps [simp del]

text \<open>The answers to a list of payloads that decode.\<close>

definition decodable :: "bytes \<Rightarrow> bool" where
  "decodable p \<longleftrightarrow> \<not> isl (decodeMessage p)"

definition answers :: "('k \<Rightarrow> bytes \<Rightarrow> bytes) \<Rightarrow> unit + 'k KeyEntry list \<Rightarrow> bytes list \<Rightarrow> bytes list" where
  "answers sign keys ps = map (\<lambda>p. respond sign keys (projr (decodeMessage p))) ps"

text \<open>
  From \<open>c\<close> to \<open>d\<close> the payloads \<open>ps\<close> were taken off the buffer: those that decode are answered, the others counted as rejected, and whole
  frames are left behind only by a rejection.
\<close>

definition served :: "('k \<Rightarrow> bytes \<Rightarrow> bytes) \<Rightarrow> unit + 'k KeyEntry list \<Rightarrow> bytes list \<Rightarrow> bytes \<Rightarrow> conn \<Rightarrow> conn \<Rightarrow> bool" where
  "served sign keys ps received c d \<longleftrightarrow> payloads received = ps @ payloads (frames d) \<and> pending (frames d) = pending received
     \<and> waiting d = waiting c \<and> written d = written c @ answers sign keys (filter decodable ps)
     \<and> rejected d = rejected c + length (filter (\<lambda>p. \<not> decodable p) ps)
     \<and> (payloads (frames d) \<noteq> [] \<longrightarrow> ps \<noteq> [] \<and> \<not> decodable (last ps))"

lemma served_step:
  assumes "served sign keys ps received' c1 d" "payloads received = p # payloads received'" "pending received = pending received'"
    "c1 = c\<lparr>frames := rest, written := written c @ answers sign keys (filter decodable [p]), rejected := rejected c + length (filter (\<lambda>p. \<not> decodable p) [p])\<rparr>"
  shows "served sign keys (p # ps) received c d"
  using assms unfolding served_def by (auto simp: answers_def)

lemma settle_run:
  assumes "waiting c = []"
  shows "\<exists>ps. served sign keys ps (frames c) c (settle sign keys (run_loop c))"
  using assms
proof (induction "length (frames c)" arbitrary: c rule: less_induct)
  case less
  show ?case
  proof (cases "next_frame (frames c)")
    case None
    then have "run_loop c = c" by (simp add: run_loop_def process_frames.simps [of "frames c"])
    then have "settle sign keys (run_loop c) = c" using less.prems by (simp add: settle.simps)
    then have "served sign keys [] (frames c) c (settle sign keys (run_loop c))" using payloads_None [OF None] by (simp add: served_def answers_def)
    then show ?thesis by blast
  next
    case (Some f)
    then obtain p rest where f: "next_frame (frames c) = Some (p, rest)" by (cases f) auto
    note split = payloads_Some [OF f]
    show ?thesis
    proof (cases "decodeMessage p")
      case (Inl e)
      then have "run_loop c = c\<lparr>frames := rest, rejected := Suc (rejected c)\<rparr>" by (simp add: run_loop_def process_frames.simps [of "frames c"] f)
      then have "settle sign keys (run_loop c) = c\<lparr>frames := rest, rejected := Suc (rejected c)\<rparr>" using less.prems by (simp add: settle.simps)
      then have "served sign keys [p] (frames c) c (settle sign keys (run_loop c))"
        using split Inl by (simp add: served_def answers_def decodable_def)
      then show ?thesis by blast
    next
      case (Inr m)
      define c1 where "c1 = c\<lparr>frames := rest, written := written c @ [respond sign keys m]\<rparr>"
      have "length (frames c1) < length (frames c)" "waiting c1 = []" using less.prems ssh_frame_shrinks [OF f] by (simp_all add: c1_def)
      from less.hyps [OF this] obtain ps where ps: "served sign keys ps rest c1 (settle sign keys (run_loop c1))" by (auto simp: c1_def)
      have "settle sign keys (run_loop c) = settle sign keys (run_loop c1)"
      proof (cases "m = FailureMessage")
        case True
        have "run_loop c = run_loop c1"
          by (simp add: run_loop_def process_frames.simps [of "frames c"] f Inr True c1_def respond_def Let_def split: prod.split loop_end.split)
        then show ?thesis by simp
      next
        case False
        have "run_loop c = c\<lparr>frames := rest, waiting := [m]\<rparr>"
          using False less.prems by (cases m) (simp_all add: run_loop_def process_frames.simps [of "frames c"] f Inr Let_def)
        moreover have "c\<lparr>frames := rest, waiting := [], written := written c @ [respond sign keys m]\<rparr> = c1"
          using less.prems by (cases c) (simp add: c1_def)
        ultimately show ?thesis by (simp add: settle.simps [of sign keys "c\<lparr>frames := rest, waiting := [m]\<rparr>"] on_keys_def)
      qed
      moreover have "served sign keys (p # ps) (frames c) c (settle sign keys (run_loop c1))"
        by (rule served_step [OF ps]) (simp_all add: split Inr c1_def decodable_def answers_def)
      ultimately show ?thesis by auto
    qed
  qed
qed

lemma push_append [simp]: "push b c = b @ c"
  by (simp add: push_def)

lemma served_more:
  assumes "served sign keys ps received c d" "served sign keys qs (frames d @ chunk) (d\<lparr>frames := frames d @ chunk\<rparr>) e"
  shows "served sign keys (ps @ qs) (received @ chunk) c e"
proof -
  have "payloads (frames d @ chunk) = payloads (frames d) @ payloads (pending received @ chunk)" "pending (frames d @ chunk) = pending (received @ chunk)"
    using payloads_append [of "frames d" chunk] payloads_append(2) [of received chunk] assms(1) by (simp_all add: served_def)
  then show ?thesis using assms payloads_append [of received chunk] unfolding served_def by (auto simp: answers_def)
qed

section \<open>The gate\<close>

definition gate_inv :: "bytes \<Rightarrow> bytes \<Rightarrow> tcp_conn \<Rightarrow> bool" where
  "gate_inv token received t \<longleftrightarrow>
     (if length received < TCP_TOKEN_BYTES
      then \<not> authenticated t \<and> \<not> destroyed t \<and> concat (tokenChunks t) = received \<and> tcp_conn t = new_conn
      else if take TCP_TOKEN_BYTES received = token
      then authenticated t \<and> \<not> destroyed t \<and> (\<exists>given. concat given = drop TCP_TOKEN_BYTES received \<and> tcp_conn t = fold on_data given new_conn)
      else \<not> authenticated t \<and> destroyed t \<and> tcp_conn t = new_conn)"

lemma gate_step:
  assumes "length token = TCP_TOKEN_BYTES" and inv: "gate_inv token received t"
  shows "gate_inv token (received @ chunk) (onData token chunk t)"
proof (cases "length received < TCP_TOKEN_BYTES")
  case True
  then have t: "\<not> authenticated t" "\<not> destroyed t" "concat (tokenChunks t) = received" "tcp_conn t = new_conn"
    using inv by (simp_all add: gate_inv_def)
  let ?all = "received @ chunk"
  have "\<exists>given. concat given = drop TCP_TOKEN_BYTES ?all \<and> on_data (drop TCP_TOKEN_BYTES ?all) new_conn = fold on_data given new_conn"
    by (rule exI [of _ "[drop TCP_TOKEN_BYTES ?all]"]) simp
  moreover have "\<exists>given. concat given = [] \<and> new_conn = fold on_data given new_conn" by (rule exI [of _ "[]"]) simp
  ultimately show ?thesis using t by (simp add: gate_inv_def onData_def Let_def del: drop_append drop_eq_Nil)
next
  case False
  show ?thesis
  proof (cases "take TCP_TOKEN_BYTES received = token")
    case True
    then obtain given where t: "authenticated t" "\<not> destroyed t" and g: "concat given = drop TCP_TOKEN_BYTES received" "tcp_conn t = fold on_data given new_conn"
      using inv False by (auto simp: gate_inv_def)
    have "concat (given @ [chunk]) = drop TCP_TOKEN_BYTES (received @ chunk) \<and> on_data chunk (tcp_conn t) = fold on_data (given @ [chunk]) new_conn"
      using g False by simp
    then have "\<exists>given. concat given = drop TCP_TOKEN_BYTES (received @ chunk) \<and> on_data chunk (tcp_conn t) = fold on_data given new_conn" by blast
    then show ?thesis using t True False by (simp add: gate_inv_def onData_def)
  next
    case wrong: False
    then show ?thesis using inv False by (simp add: gate_inv_def onData_def)
  qed
qed

section \<open>Reading what was written\<close>

fun read_identities :: "nat \<Rightarrow> bytes \<Rightarrow> nat \<Rightarrow> range_error + AgentIdentity list \<times> nat" where
  "read_identities 0 buf off = Inr ([], off)"
| "read_identities (Suc n) buf off =
     (case readString buf off of
        Inl e \<Rightarrow> Inl e
      | Inr (blob, off1) \<Rightarrow> (case readString buf off1 of
          Inl e \<Rightarrow> Inl e
        | Inr (com, off2) \<Rightarrow> map_sum id (\<lambda>(ids, off3). (\<lparr>id_keyBlob = blob, id_comment = com\<rparr> # ids, off3)) (read_identities n buf off2)))"

lemma unat_word_of_nat_small: "n < 2 ^ 32 \<Longrightarrow> unat (word_of_nat n :: u32) = n"
  by (simp add: unat_of_nat take_bit_nat_eq_self)

lemma read_written: "writeUInt32BE n = Inr len \<Longrightarrow> readUInt32BE (pre @ len @ post) (length pre) = Inr n"
  by (auto simp: writeUInt32BE_def readUInt32BE_def unat_word_of_nat_small split: if_splits)

lemma string_read:
  assumes "encodeString v = Inr s"
  shows "readString (pre @ s @ post) (length pre) = Inr (v, length pre + length s)"
proof -
  obtain len where len: "writeUInt32BE (length v) = Inr len" "s = len @ v"
    using assms by (cases "writeUInt32BE (length v)") (auto simp: encodeString_def)
  have "length len = 4" using len(1) by (auto simp: writeUInt32BE_def split: if_splits)
  then show ?thesis using read_written [OF len(1), of pre "v @ post"] by (simp add: readString_def len(2))
qed

lemma identities_read:
  "encode_identities identities = Inr parts \<Longrightarrow>
   read_identities (length identities) (pre @ parts @ post) (length pre) = Inr (identities, length pre + length parts)"
proof (induction identities arbitrary: pre parts)
  case (Cons i ids)
  obtain blob com rest where e: "encodeString (id_keyBlob i) = Inr blob" "encodeString (id_comment i) = Inr com" "encode_identities ids = Inr rest"
    and parts: "parts = blob @ com @ rest"
    using Cons.prems by (cases "encode_identities ids") (auto split: sum.splits)
  show ?case
    using string_read [OF e(1), of pre "com @ rest @ post"] string_read [OF e(2), of "pre @ blob" "rest @ post"] Cons.IH [OF e(3), of "pre @ blob @ com"]
    by (simp add: parts e add.assoc)
qed simp

lemma framed:
  assumes "frameMessage t payload = Inr f"
  shows "next_frame f = Some (t # payload, [])"
proof -
  obtain len where len: "writeUInt32BE (1 + length payload) = Inr len" "f = len @ t # payload"
    using assms by (cases "writeUInt32BE (1 + length payload)") (auto simp: frameMessage_def)
  have "length len = 4" using len(1) by (auto simp: writeUInt32BE_def split: if_splits)
  moreover from this have "unat (of_be32 len) = Suc (length payload)"
    using read_written [OF len(1), of "[]" "[]"] by (simp add: readUInt32BE_def)
  ultimately show ?thesis by (simp add: next_frame_def len(2) Let_def)
qed

lemma short_sign_request: "length args < 12 \<Longrightarrow> \<exists>e. decodeMessage (MSG_SIGN_REQUEST # args) = Inl e"
  by (auto simp: decodeMessage_def MSG_SIGN_REQUEST_def MSG_REQUEST_IDENTITIES_def readString_def readUInt32_def readUInt32BE_def split: sum.split)

text \<open>Encoded answers of a known length, for concrete inputs.\<close>

lemma writes_small: "n < 2 ^ 32 \<Longrightarrow> writeUInt32BE n = Inr (be32 (word_of_nat n))"
  by (simp add: writeUInt32BE_def)

lemmas encoded = encodeIdentitiesAnswer_def encodeFailure_def frameMessage_def encodeString_def writes_small be32_def
  MSG_IDENTITIES_ANSWER_def MSG_FAILURE_def or_failure_def respond_def

section \<open>Properties\<close>

text \<open>
  (C30) A client that waits for its answers gets them in order, however its bytes are cut into chunks. After any chunks, each served (with the
  same keys) before the next one arrives, the stream is a sequence of whole frames and what is still buffered: what was written is the
  answers of exactly those among the frames that decode, one each and in their order, the others were rejected without an answer, and
  nothing else waits. A whole frame stays in the buffer only behind a rejected one, so where every frame taken off decodes, every whole frame
  has been answered.
\<close>

theorem ssh_answers_in_order:
  assumes c: "c = fold (\<lambda>chunk c. settle sign keys (on_data chunk c)) chunks new_conn"
  shows "\<exists>ps. concat chunks = concat (map frame ps) @ frames c
      \<and> written c = answers sign keys (filter decodable ps) \<and> rejected c = length (filter (\<lambda>p. \<not> decodable p) ps) \<and> waiting c = []
      \<and> (holds_frame (frames c) \<longrightarrow> ps \<noteq> [] \<and> \<not> decodable (last ps))"
proof -
  have "\<exists>ps. served sign keys ps (concat chunks) new_conn c" unfolding c
  proof (induction chunks rule: rev_induct)
    case Nil
    have "next_frame [] = None" by (simp add: next_frame_def)
    from payloads_None [OF this] have "served sign keys [] [] new_conn new_conn" by (simp add: served_def new_conn_def answers_def)
    then show ?case by auto
  next
    case (snoc chunk chunks)
    let ?d = "fold (\<lambda>chunk c. settle sign keys (on_data chunk c)) chunks new_conn"
    obtain ps where ps: "served sign keys ps (concat chunks) new_conn ?d" using snoc by blast
    then have "waiting ?d = []" by (simp add: served_def new_conn_def)
    then have "\<exists>qs. served sign keys qs (frames ?d @ chunk) (?d\<lparr>frames := frames ?d @ chunk\<rparr>) (settle sign keys (on_data chunk ?d))"
      using settle_run [of "?d\<lparr>frames := frames ?d @ chunk\<rparr>" sign keys] by (simp add: on_data_def)
    then show ?case using served_more [OF ps] by auto
  qed
  then obtain ps where ps: "served sign keys ps (concat chunks) new_conn c" ..
  have "concat chunks = concat (map frame ps) @ frames c"
    using in_frames [of "concat chunks"] in_frames [of "frames c"] ps by (simp add: served_def)
  then show ?thesis using ps by (auto simp: served_def new_conn_def holds_iff)
qed

text \<open>
  (C27) Nothing behind the TCP bridge runs before the token. For every way of cutting what a peer sends into
  chunks: the connection is authenticated exactly when the first sixteen bytes are the run's token, and then the agent
  has been handed exactly the bytes after it; otherwise the agent saw nothing, and a wrong token ends the connection.
\<close>

theorem tcp_token_gate:
  assumes "length token = TCP_TOKEN_BYTES" and "t = fold (onData token) chunks new_tcp_conn"
  shows "(authenticated t \<longleftrightarrow> take TCP_TOKEN_BYTES (concat chunks) = token)
    \<and> (destroyed t \<longleftrightarrow> TCP_TOKEN_BYTES \<le> length (concat chunks) \<and> take TCP_TOKEN_BYTES (concat chunks) \<noteq> token)
    \<and> (if authenticated t then \<exists>given. concat given = drop TCP_TOKEN_BYTES (concat chunks) \<and> tcp_conn t = fold on_data given new_conn
       else tcp_conn t = new_conn)"
proof -
  have "gate_inv token (concat chunks) t" unfolding assms(2)
  proof (induction chunks rule: rev_induct)
    case Nil
    then show ?case by (simp add: gate_inv_def new_tcp_conn_def TCP_TOKEN_BYTES_def)
  next
    case (snoc chunk chunks)
    then show ?case using gate_step [OF assms(1) snoc] by simp
  qed
  moreover have "TCP_TOKEN_BYTES \<le> length (concat chunks)" if "take TCP_TOKEN_BYTES (concat chunks) = token"
    using that assms(1) by (metis length_take min.cobounded1)
  ultimately show ?thesis by (auto simp: gate_inv_def split: if_splits)
qed


definition demo_chunks :: "bytes list" where
  "demo_chunks = [[0, 0, 0], [1, 11, 0], [0, 0, 1, 99]]"

theorem ssh_answers_in_order_witness:
  "\<exists>ps. concat demo_chunks = concat (map frame ps) @ frames (fold (\<lambda>chunk c. settle (\<lambda>(k :: unit) d. d) (Inr []) (on_data chunk c)) demo_chunks new_conn)
    \<and> written (fold (\<lambda>chunk c. settle (\<lambda>(k :: unit) d. d) (Inr []) (on_data chunk c)) demo_chunks new_conn) =
        answers (\<lambda>(k :: unit) d. d) (Inr []) (filter decodable ps)"
  using ssh_answers_in_order [OF refl, where sign = "\<lambda>(k :: unit) d. d" and keys = "Inr []" and chunks = demo_chunks] by blast

theorem tcp_token_gate_witness:
  "\<not> authenticated (fold (onData (replicate 16 7)) [replicate 10 7, replicate 6 8, [0, 0, 0, 1, 11]] new_tcp_conn)
   \<and> destroyed (fold (onData (replicate 16 7)) [replicate 10 7, replicate 6 8, [0, 0, 0, 1, 11]] new_tcp_conn)
   \<and> tcp_conn (fold (onData (replicate 16 7)) [replicate 10 7, replicate 6 8, [0, 0, 0, 1, 11]] new_tcp_conn) = new_conn"
proof -
  let ?cs = "[replicate 10 7, replicate 6 8, [0, 0, 0, 1, 11]] :: bytes list"
  have len: "length (replicate 16 7 :: bytes) = TCP_TOKEN_BYTES" by (simp add: TCP_TOKEN_BYTES_def)
  have "take TCP_TOKEN_BYTES (concat ?cs) \<noteq> replicate 16 7" "TCP_TOKEN_BYTES \<le> length (concat ?cs)" by code_simp+
  with tcp_token_gate [OF len refl, of ?cs] show ?thesis by argo
qed

text \<open>
  (Lemma) A malformed sign request is not answered. \<open>decodeMessage\<close> runs outside the \<open>try\<close>: a request too short for
  its fields ends the loop with nothing written, and the frames behind it in the buffer wait for the next data event.
\<close>

theorem malformed_sign_unanswered:
  assumes "next_frame (frames c @ chunk) = Some (MSG_SIGN_REQUEST # args, rest)" and "length args < 12"
  shows "on_data chunk c = c\<lparr>frames := rest, rejected := Suc (rejected c)\<rparr>"
  using assms(1) short_sign_request [OF assms(2)]
  by (auto simp: on_data_def run_loop_def process_frames.simps [of "frames c @ chunk"])

theorem malformed_sign_unanswered_witness:
  "on_data [0, 0, 0, 1, 13, 0, 0, 0, 1, 11] new_conn = new_conn\<lparr>frames := [0, 0, 0, 1, 11], rejected := 1\<rparr>"
proof -
  have "next_frame (frames new_conn @ [0, 0, 0, 1, 13, 0, 0, 0, 1, 11]) = Some (MSG_SIGN_REQUEST # [], [0, 0, 0, 1, 11])" by code_simp
  from malformed_sign_unanswered [OF this] show ?thesis by (simp add: new_conn_def)
qed

text \<open>
  (Lemma) A client that does not wait can get its answers out of order. Every data event starts its own loop over the
  shared buffer, and the loop whose keys arrive first writes first.
\<close>

theorem pipelined_answers_swap:
  assumes "next_frame (frames c @ a) = Some (p, [])" and "decodeMessage p = Inr m" and "m \<noteq> FailureMessage"
    and "next_frame b = Some (q, [])" and "decodeMessage q = Inr n" and "n \<noteq> FailureMessage" and "waiting c = []"
  shows "written (on_keys sign 0 keys (on_keys sign 1 keys' (on_data b (on_data a c)))) = written c @ [respond sign keys' n, respond sign keys m]"
proof -
  have a: "on_data a c = c\<lparr>frames := [], waiting := [m]\<rparr>"
    using assms(1,2,3,7) by (cases m) (simp_all add: on_data_def run_loop_def process_frames.simps [of "frames c @ a"] Let_def)
  have b: "on_data b (on_data a c) = c\<lparr>frames := [], waiting := [m, n]\<rparr>"
    using assms(4,5,6) unfolding a by (cases n) (simp_all add: on_data_def run_loop_def process_frames.simps [of b] Let_def)
  have idle: "process_frames [] = ([], [], Drained)" by (simp add: process_frames.simps next_frame_def)
  show ?thesis unfolding b by (simp add: on_keys_def run_loop_def idle Let_def)
qed

theorem pipelined_answers_swap_witness:
  "written (on_keys (\<lambda>(k :: unit) d. d) 0 (Inr []) (on_keys (\<lambda>(k :: unit) d. d) 1 (Inl ()) (on_data [0, 0, 0, 1, 11] (on_data [0, 0, 0, 1, 11] new_conn))))
    = [[0, 0, 0, 1, 5], [0, 0, 0, 5, 12, 0, 0, 0, 0]]"
proof -
  have f: "next_frame (frames new_conn @ [0, 0, 0, 1, 11]) = Some ([11], [])" "next_frame [0, 0, 0, 1, 11] = Some ([11], [])"
    "decodeMessage [11] = Inr RequestIdentities" by code_simp+
  have r: "respond (\<lambda>(k :: unit) d. d) (Inr []) RequestIdentities = [0, 0, 0, 5, 12, 0, 0, 0, 0]"
    "respond (\<lambda>(k :: unit) d. d) (Inl ()) RequestIdentities = [0, 0, 0, 1, 5]" by (simp_all add: encoded)
  show ?thesis using pipelined_answers_swap [OF f(1,3) _ f(2,3), where sign = "\<lambda>(k :: unit) d. d" and keys = "Inr []" and keys' = "Inl ()"]
    by (simp add: r new_conn_def)
qed

text \<open>
  (Lemma) What the agent advertises can be read back. The answer to an identities request is one frame whose payload
  holds the count, and reading that many pairs of strings gives the team's keys and their comments, every byte used.
\<close>

theorem identities_roundtrip:
  assumes "encodeIdentitiesAnswer identities = Inr answer"
  shows "\<exists>payload. next_frame answer = Some (MSG_IDENTITIES_ANSWER # payload, [])
     \<and> readUInt32 payload 0 = Inr (length identities, 4) \<and> read_identities (length identities) payload 4 = Inr (identities, length payload)"
proof -
  obtain nkeys parts where n: "writeUInt32BE (length identities) = Inr nkeys" and p: "encode_identities identities = Inr parts"
    and f: "frameMessage MSG_IDENTITIES_ANSWER (nkeys @ parts) = Inr answer"
    using assms by (auto simp: encodeIdentitiesAnswer_def split: sum.splits)
  have len: "length nkeys = 4" using n by (auto simp: writeUInt32BE_def split: if_splits)
  have "readUInt32BE (nkeys @ parts) 0 = Inr (length identities)" using read_written [OF n, of "[]" parts] by simp
  then show ?thesis using framed [OF f] identities_read [OF p, of nkeys "[]"] len by (intro exI [of _ "nkeys @ parts"]) (simp add: readUInt32_def)
qed

theorem identities_roundtrip_witness:
  "\<exists>payload. next_frame [0, 0, 0, 15, 12, 0, 0, 0, 1, 0, 0, 0, 1, 7, 0, 0, 0, 1, 104] = Some (MSG_IDENTITIES_ANSWER # payload, [])
     \<and> read_identities 1 payload 4 = Inr ([\<lparr>id_keyBlob = [7], id_comment = [104]\<rparr>], length payload)"
proof -
  have "encodeIdentitiesAnswer [\<lparr>id_keyBlob = [7], id_comment = [104]\<rparr>] = Inr [0, 0, 0, 15, 12, 0, 0, 0, 1, 0, 0, 0, 1, 7, 0, 0, 0, 1, 104]" by (simp add: encoded)
  from identities_roundtrip [OF this] show ?thesis by auto
qed

end
