(* ===== verification/Sso_Token.thy ===== *)
theory Sso_Token
  imports Credentials Text_Split
begin

text \<open>
  Signed payloads: the messages the sign-in flows sign (\<open>shared/src/crypto/auth.ts\<close>) and the assertions of an
  external issuer (\<open>shared/src/crypto/sso.ts\<close>) with their wire form, their freshness and the configured keys.

  Ed25519 is an argument, a predicate on signature, message and public key that is false where the library raises;
  so are \<open>JSON.parse\<close> of decoded bytes and \<open>JSON.stringify\<close>. The encoder's buffer is a 32-bit word, as the shifts of the
  language make it.
\<close>

section \<open>Messages that are signed\<close>

definition buildSetupMessage :: "utext \<Rightarrow> utext \<Rightarrow> utext" where
  "buildSetupMessage publicKeyHex unlockKeyHex = cps ''hezo-auth-v1:setup:'' @ publicKeyHex @ cps '':'' @ unlockKeyHex"

definition buildLoginMessage :: "utext \<Rightarrow> utext" where
  "buildLoginMessage nonceHex = cps ''hezo-auth-v1:login:'' @ nonceHex"

definition buildUnlockMessage :: "utext \<Rightarrow> utext \<Rightarrow> utext" where
  "buildUnlockMessage nonceHex unlockKeyHex = cps ''hezo-auth-v1:unlock:'' @ nonceHex @ cps '':'' @ unlockKeyHex"

definition buildPasswordLoginMessage :: "utext \<Rightarrow> utext" where
  "buildPasswordLoginMessage nonceHex = cps ''hezo-auth-v1:password-login:'' @ nonceHex"

definition buildPasswordSetupMessage :: "utext \<Rightarrow> utext \<Rightarrow> utext" where
  "buildPasswordSetupMessage publicKeyHex saltHex = cps ''hezo-auth-v1:password-setup:'' @ publicKeyHex @ cps '':'' @ saltHex"

text \<open>\<open>hexToBytes\<close>: nothing for an odd length or a character that is no digit.\<close>

definition hex_value :: "nat \<Rightarrow> nat option" where
  "hex_value c = (if 48 \<le> c \<and> c \<le> 57 then Some (c - 48) else if 97 \<le> c \<and> c \<le> 102 then Some (c - 87)
     else if 65 \<le> c \<and> c \<le> 70 then Some (c - 55) else None)"

fun hexToBytes :: "utext \<Rightarrow> bytes option" where
  "hexToBytes [] = Some []"
| "hexToBytes [_] = None"
| "hexToBytes (a # b # rest) = (case (hex_value a, hex_value b, hexToBytes rest) of
     (Some x, Some y, Some bs) \<Rightarrow> Some (of_nat (16 * x + y) # bs)
   | _ \<Rightarrow> None)"

type_synonym ed25519_verify = "bytes \<Rightarrow> bytes \<Rightarrow> bytes \<Rightarrow> bool"

definition verifyAuthSignature :: "ed25519_verify \<Rightarrow> utext \<Rightarrow> utext \<Rightarrow> utext \<Rightarrow> bool" where
  "verifyAuthSignature ed publicKeyHex msg signatureHex = (case (hexToBytes signatureHex, hexToBytes publicKeyHex) of
     (Some sig, Some pub) \<Rightarrow> ed sig (utf8_encode msg) pub
   | _ \<Rightarrow> False)"

section \<open>Assertions\<close>

definition SSO_TOKEN_DOMAIN :: utext where
  "SSO_TOKEN_DOMAIN = cps ''hezo-sso-v1''"

definition SSO_TOKEN_MAX_LIFETIME_SECONDS :: nat where
  "SSO_TOKEN_MAX_LIFETIME_SECONDS = 60"

definition SSO_TOKEN_CLOCK_SKEW_SECONDS :: nat where
  "SSO_TOKEN_CLOCK_SKEW_SECONDS = 30"

definition MAX_TOKEN_LENGTH :: nat where
  "MAX_TOKEN_LENGTH = 4096"

record SsoTokenPayload =
  kid :: utext
  aud :: utext
  sub :: utext
  jti :: utext
  iat :: nat
  exp :: nat

definition field :: "utext \<Rightarrow> utext" where
  "field v = cps '':'' @ cps (digits (length (utf8_encode v))) @ cps '':'' @ v"

definition buildSsoTokenMessage :: "SsoTokenPayload \<Rightarrow> utext" where
  "buildSsoTokenMessage p = SSO_TOKEN_DOMAIN @ field (kid p) @ field (aud p) @ field (sub p) @ field (jti p)
     @ field (cps (digits (iat p))) @ field (cps (digits (exp p)))"

definition verifySsoTokenSignature :: "ed25519_verify \<Rightarrow> SsoTokenPayload \<Rightarrow> utext \<Rightarrow> utext \<Rightarrow> bool" where
  "verifySsoTokenSignature ed p signatureHex publicKeyHex = verifyAuthSignature ed publicKeyHex (buildSsoTokenMessage p) signatureHex"

section \<open>Base64url\<close>

definition BASE64URL_ALPHABET :: utext where
  "BASE64URL_ALPHABET = cps ''ABCDEFGHIJKLMNOPQRSTUVWXYZabcdefghijklmnopqrstuvwxyz0123456789-_''"

type_synonym int32 = "32 word"

unbundle bit_operations_syntax

definition letter :: "int32 \<Rightarrow> nat" where
  "letter w = BASE64URL_ALPHABET ! unat (w AND 63)"

text \<open>The inner loop of the encoder: it runs while six bits are buffered.\<close>

fun emit :: "int32 \<Rightarrow> nat \<Rightarrow> utext \<times> nat" where
  "emit buffer bits = (if 6 \<le> bits then
     (case emit buffer (bits - 6) of (out, bits') \<Rightarrow> (letter (drop_bit (bits - 6) buffer) # out, bits'))
   else ([], bits))"

fun encode_loop :: "int32 \<Rightarrow> nat \<Rightarrow> bytes \<Rightarrow> utext" where
  "encode_loop buffer bits [] = (if 0 < bits then [letter (push_bit (6 - bits) buffer)] else [])"
| "encode_loop buffer bits (byte # bytes) =
     (let buffer' = push_bit 8 buffer OR ucast byte
      in case emit buffer' (bits + 8) of (out, bits') \<Rightarrow> out @ encode_loop buffer' bits' bytes)"

definition bytesToBase64Url :: "bytes \<Rightarrow> utext" where
  "bytesToBase64Url bytes = encode_loop 0 0 bytes"

definition index_in :: "utext \<Rightarrow> nat \<Rightarrow> nat option" where
  "index_in alphabet ch = find (\<lambda>i. alphabet ! i = ch) [0..<length alphabet]"

fun decode_loop :: "int32 \<Rightarrow> nat \<Rightarrow> utext \<Rightarrow> bytes option" where
  "decode_loop buffer bits [] =
     (if 0 < bits \<and> buffer AND (push_bit bits 1 - 1) \<noteq> 0 then None else Some [])"
| "decode_loop buffer bits (ch # chs) = (case index_in BASE64URL_ALPHABET ch of
     None \<Rightarrow> None
   | Some index \<Rightarrow>
       (let buffer' = push_bit 6 buffer OR of_nat index; bits' = bits + 6
        in if 8 \<le> bits'
           then map_option (\<lambda>rest. ucast (drop_bit (bits' - 8) buffer' AND 0xff) # rest) (decode_loop buffer' (bits' - 8) chs)
           else decode_loop buffer' bits' chs))"

definition base64UrlToBytes :: "utext \<Rightarrow> bytes option" where
  "base64UrlToBytes s = (if length s = 0 then None else decode_loop 0 0 s)"

section \<open>The wire form\<close>

record ParsedSsoToken =
  payload :: SsoTokenPayload
  signatureHex :: utext

definition text_field :: "json option \<Rightarrow> utext option" where
  "text_field v = (case v of Some (Str s) \<Rightarrow> if 0 < length s then Some s else None | _ \<Rightarrow> None)"

definition MAX_SAFE_INTEGER :: nat where
  "MAX_SAFE_INTEGER = 9007199254740991"

definition seconds :: "json option \<Rightarrow> nat option" where
  "seconds v = (case v of
     Some (Num r) \<Rightarrow> if r = of_int \<lfloor>r\<rfloor> \<and> 0 < r \<and> r \<le> of_nat MAX_SAFE_INTEGER then Some (nat \<lfloor>r\<rfloor>) else None
   | _ \<Rightarrow> None)"

definition hex_text :: "nat \<Rightarrow> utext \<Rightarrow> bool" where
  "hex_text n s \<longleftrightarrow> length s = n \<and> list_all (\<lambda>c. (48 \<le> c \<and> c \<le> 57) \<or> (97 \<le> c \<and> c \<le> 102)) s"

definition is_object :: "json \<Rightarrow> bool" where
  "is_object raw = (case raw of Obj _ \<Rightarrow> True | Arr _ \<Rightarrow> True | _ \<Rightarrow> False)"

definition parseSsoToken :: "(bytes \<Rightarrow> json option) \<Rightarrow> utext \<Rightarrow> ParsedSsoToken option" where
  "parseSsoToken parse token =
     (if MAX_TOKEN_LENGTH < length token then None
      else (case base64UrlToBytes token of
          None \<Rightarrow> None
        | Some bytes \<Rightarrow> (case parse bytes of
            None \<Rightarrow> None
          | Some raw \<Rightarrow>
              if \<not> is_object raw then None
              else
                (case (text_field (member_of raw (cps ''kid'')), text_field (member_of raw (cps ''aud'')),
                    text_field (member_of raw (cps ''sub'')), text_field (member_of raw (cps ''jti'')),
                    text_field (member_of raw (cps ''sig'')), seconds (member_of raw (cps ''iat'')), seconds (member_of raw (cps ''exp''))) of
                   (Some k, Some a, Some s, Some j, Some sig, Some i, Some e) \<Rightarrow>
                     if \<not> hex_text 128 sig then None
                     else Some \<lparr>payload = \<lparr>kid = k, aud = a, sub = s, jti = j, iat = i, exp = e\<rparr>, signatureHex = sig\<rparr>
                 | _ \<Rightarrow> None))))"

definition encodeSsoToken :: "(json \<Rightarrow> utext) \<Rightarrow> SsoTokenPayload \<Rightarrow> utext \<Rightarrow> utext" where
  "encodeSsoToken stringify p sig =
     bytesToBase64Url (utf8_encode (stringify (Obj [(cps ''kid'', Str (kid p)), (cps ''aud'', Str (aud p)), (cps ''sub'', Str (sub p)),
       (cps ''jti'', Str (jti p)), (cps ''iat'', Num (of_nat (iat p))), (cps ''exp'', Num (of_nat (exp p))), (cps ''sig'', Str sig)])))"

section \<open>Freshness and keys\<close>

datatype SsoTokenFreshness = Fresh | Expired | Not_yet_valid | Lifetime_too_long

definition checkSsoTokenFreshness :: "SsoTokenPayload \<Rightarrow> nat \<Rightarrow> SsoTokenFreshness" where
  "checkSsoTokenFreshness p nowSeconds =
     (let lifetime = int (exp p) - int (iat p)
      in if lifetime \<le> 0 \<or> int SSO_TOKEN_MAX_LIFETIME_SECONDS < lifetime then Lifetime_too_long
      else if int nowSeconds < int (iat p) - int SSO_TOKEN_CLOCK_SKEW_SECONDS then Not_yet_valid
      else if exp p + SSO_TOKEN_CLOCK_SKEW_SECONDS < nowSeconds then Expired
      else Fresh)"

datatype issuer_error = No_keys | Not_kid_hex utext | Bad_key utext | Listed_twice utext

text \<open>The loop over the entries, with the keys read so far.\<close>

fun read_keys :: "(utext \<times> utext) list \<Rightarrow> utext list \<Rightarrow> issuer_error + (utext \<times> utext) list" where
  "read_keys keys [] = Inr keys"
| "read_keys keys (entry # entries) =
     (let k = takeWhile (\<lambda>c. c \<noteq> 58) entry; hex = drop (Suc (length k)) entry
      in if 58 \<notin> set entry \<or> k = [] then Inl (Not_kid_hex entry)
      else if \<not> hex_text 64 hex then Inl (Bad_key k)
      else if map_of keys k \<noteq> None then Inl (Listed_twice k)
      else read_keys (keys @ [(k, hex)]) entries)"

definition parseIssuerPublicKeys :: "utext \<Rightarrow> issuer_error + (utext \<times> utext) list" where
  "parseIssuerPublicKeys list =
     (let entries = filter (\<lambda>entry. 0 < length entry) (map trim (split_char 44 list))
      in if length entries = 0 then Inl No_keys else read_keys [] entries)"

section \<open>The codec in closed form\<close>

lemma alphabet: "length BASE64URL_ALPHABET = 64" "distinct BASE64URL_ALPHABET"
  by (simp_all add: BASE64URL_ALPHABET_def cps_def)

lemma index_iff: "index_in BASE64URL_ALPHABET ch = Some i \<longleftrightarrow> i < 64 \<and> BASE64URL_ALPHABET ! i = ch"
proof -
  have "find (\<lambda>i. BASE64URL_ALPHABET ! i = ch) [0..<64] = Some i \<longleftrightarrow> i < 64 \<and> BASE64URL_ALPHABET ! i = ch"
    by (auto simp: find_Some_iff nth_eq_iff_index_eq alphabet)
  then show ?thesis by (simp add: index_in_def alphabet)
qed

lemma pushed: "unat (push_bit 8 w OR ucast b :: int32) = (256 * unat w + unat b) mod 2 ^ 32" for b :: byte
proof -
  have "push_bit 8 w OR ucast b = push_bit 8 w + (ucast b :: int32)"
    by (rule disjunctive_add [symmetric]) (auto simp: bit_simps dest: bit_imp_le_length)
  also have "\<dots> = of_nat (256 * unat w + unat b)" by (simp add: push_bit_eq_mult)
  finally show ?thesis by (simp only: unat_of_nat) simp
qed

lemma pushed_six: "i < 64 \<Longrightarrow> unat (push_bit 6 w OR of_nat i :: int32) = (64 * unat w + i) mod 2 ^ 32"
proof -
  assume i: "i < 64"
  have "\<not> bit (of_nat i :: int32) n" if "6 \<le> n" for n
  proof -
    have "(2 :: nat) ^ 6 \<le> 2 ^ n" using that by (intro power_increasing) auto
    then have "i < 2 ^ n" using i by simp
    then have "\<not> bit i n" by (simp add: bit_iff_odd)
    then show ?thesis by (simp add: bit_of_nat_iff)
  qed
  then have "push_bit 6 w OR of_nat i = push_bit 6 w + (of_nat i :: int32)"
    by (intro disjunctive_add [symmetric]) (auto simp: bit_push_bit_iff not_less)
  also have "\<dots> = of_nat (64 * unat w + i)" by (simp add: push_bit_eq_mult)
  finally show ?thesis by (simp only: unat_of_nat) simp
qed

lemma low_six: "unat (w AND 63) = unat w mod 64" for w :: int32
proof -
  have "w AND 63 = take_bit 6 w" by (simp add: take_bit_eq_mask mask_eq_exp_minus_1)
  then have "unat (w AND 63) = take_bit 6 (unat w)" by (simp only: unsigned_take_bit_eq)
  then show ?thesis by (simp only: take_bit_eq_mod) simp
qed

lemma letter_drop: "letter (drop_bit k w) = BASE64URL_ALPHABET ! (unat w div 2 ^ k mod 64)"
proof -
  have "take_bit 32 (unat w) = unat w" using unsigned_less [where ?'a = nat, of w] by (intro take_bit_nat_eq_self) simp
  then have "unat (drop_bit k w) = drop_bit k (unat w)" by (simp add: unsigned_drop_bit_eq)
  then show ?thesis by (simp only: letter_def low_six drop_bit_eq_div)
qed

lemma letter_push: "k < 26 \<Longrightarrow> letter (push_bit k w) = BASE64URL_ALPHABET ! (2 ^ k * unat w mod 64)"
proof -
  assume "k < 26"
  have "push_bit k w = of_nat (2 ^ k * unat w)" by (simp add: push_bit_eq_mult mult.commute)
  then have "unat (push_bit k w) = 2 ^ k * unat w mod 2 ^ 32" by (simp only: unat_of_nat) simp
  then show ?thesis by (simp add: letter_def low_six mod_mod_cancel)
qed

text \<open>Three bytes are four letters; one or two left over are two or three.\<close>

fun b64 :: "nat list \<Rightarrow> nat list" where
  "b64 (a # b # c # r) = a div 4 # (a mod 4 * 16 + b div 16) # (b mod 16 * 4 + c div 64) # c mod 64 # b64 r"
| "b64 [a, b] = [a div 4, a mod 4 * 16 + b div 16, b mod 16 * 4]"
| "b64 [a] = [a div 4, a mod 4 * 16]"
| "b64 [] = []"

abbreviation A64 :: "nat \<Rightarrow> nat" where
  "A64 \<equiv> (!) BASE64URL_ALPHABET"

lemma emit_8: "emit w 8 = ([letter (drop_bit 2 w)], 2)" and emit_10: "emit w 10 = ([letter (drop_bit 4 w)], 4)"
  and emit_12: "emit w 12 = ([letter (drop_bit 6 w), letter w], 0)"
  by simp_all

lemma div_mod_swap: "n div b mod c = n mod (b * c) div b" if "0 < b" for b n :: nat
  using that by (simp add: mod_mult2_eq)

lemma low_digit: "q < b \<Longrightarrow> (b * n + q) mod (b * c) = b * (n mod c) + q" for n :: nat
  by (simp add: mod_mult2_eq)

lemma sextets_1: "n div 4 mod 64 = n mod 256 div 4" "16 * n mod 64 = n mod 256 mod 4 * 16" for n :: nat
  using div_mod_swap [of 4 n 64] mult_mod_right [of 16 n 4] mod_mod_cancel [of 4 256 n] by simp_all

lemma sextets_2:
  fixes n b :: nat
  assumes "b < 256"
  shows "(256 * n + b) div 16 mod 64 = n mod 4 * 16 + b div 16" "4 * (256 * n + b) mod 64 = b mod 16 * 4"
proof -
  have "(256 * n + b) div 16 = 16 * n + b div 16" using div_mult_self4 [of 16 "16 * n" b] by simp
  moreover have "(16 * n + b div 16) mod (16 * 4) = 16 * (n mod 4) + b div 16" by (rule low_digit) (use assms in simp)
  ultimately show "(256 * n + b) div 16 mod 64 = n mod 4 * 16 + b div 16" by simp
  have "4 * (256 * n + b) mod (4 * 16) = 4 * ((256 * n + b) mod 16)" by (rule mult_mod_right [symmetric])
  moreover have "(256 * n + b) mod 16 = b mod 16" using mod_mult_self4 [of 16 "16 * n" b] by simp
  ultimately show "4 * (256 * n + b) mod 64 = b mod 16 * 4" by simp
qed

lemma sextets_3:
  fixes n c :: nat
  assumes "c < 256"
  shows "(256 * n + c) div 64 mod 64 = n mod 16 * 4 + c div 64" "(256 * n + c) mod 64 = c mod 64"
proof -
  have "(256 * n + c) div 64 = 4 * n + c div 64" using div_mult_self4 [of 64 "4 * n" c] by simp
  moreover have "(4 * n + c div 64) mod (4 * 16) = 4 * (n mod 16) + c div 64" by (rule low_digit) (use assms in simp)
  ultimately show "(256 * n + c) div 64 mod 64 = n mod 16 * 4 + c div 64" by simp
  show "(256 * n + c) mod 64 = c mod 64" using mod_mult_self4 [of 64 "4 * n" c] by simp
qed


text \<open>The buffer after a byte, kept folded so that the library's bitwise rules leave it alone.\<close>

definition appended :: "int32 \<Rightarrow> byte \<Rightarrow> int32" where
  "appended w b = push_bit 8 w OR ucast b"

lemma encode_step: "encode_loop w bits (b # bs) = (case emit (appended w b) (bits + 8) of (out, bits') \<Rightarrow> out @ encode_loop (appended w b) bits' bs)"
  by (simp only: encode_loop.simps appended_def Let_def)

lemma pushed_low: "unat (appended w b) mod 2 ^ k = (256 * unat w + unat b) mod 2 ^ k" if "k \<le> 32"
  unfolding appended_def pushed using that by (intro mod_mod_cancel le_imp_power_dvd)

lemma letter_appended:
  assumes "k \<le> 26"
  shows "letter (drop_bit k (appended w b)) = A64 ((256 * unat w + unat b) div 2 ^ k mod 64)"
proof -
  have "unat (appended w b) mod (2 ^ k * 64) = (256 * unat w + unat b) mod (2 ^ k * 64)"
    using pushed_low [of "k + 6" w b] assms by (simp add: power_add)
  then show ?thesis by (simp only: letter_drop div_mod_swap [of "2 ^ k"] zero_less_power zero_less_numeral)
qed

lemma letter_last:
  assumes "k \<le> 6"
  shows "letter (push_bit k (appended w b)) = A64 (2 ^ k * (256 * unat w + unat b) mod 64)"
proof -
  have "unat (appended w b) mod 64 = (256 * unat w + unat b) mod 64" using pushed_low [of 6 w b] by simp
  then have "2 ^ k * unat (appended w b) mod 64 = 2 ^ k * (256 * unat w + unat b) mod 64" by (rule mod_mult_cong [OF refl])
  then show ?thesis using assms by (simp add: letter_push)
qed

lemma octet_less: "unat b < 256" for b :: byte
  using unsigned_less [where ?'a = nat, of b] by simp

lemma mod_appended: "unat (appended w b) mod 4 = unat b mod 4" "unat (appended w b) mod 16 = unat b mod 16"
proof -
  have "unat (appended w b) mod 4 = (256 * unat w + unat b) mod 4" "unat (appended w b) mod 16 = (256 * unat w + unat b) mod 16"
    using pushed_low [of 2 w b] pushed_low [of 4 w b] by simp_all
  then show "unat (appended w b) mod 4 = unat b mod 4" "unat (appended w b) mod 16 = unat b mod 16"
    using mod_mult_self4 [of 4 "64 * unat w" "unat b"] mod_mult_self4 [of 16 "16 * unat w" "unat b"] by simp_all
qed

lemma letters_1: "letter (drop_bit 2 (appended w b)) = A64 (unat b div 4)" "letter (push_bit 4 (appended w b)) = A64 (unat b mod 4 * 16)"
proof -
  have "(256 * unat w + unat b) mod 256 = unat b" using octet_less [of b] by simp
  then show "letter (drop_bit 2 (appended w b)) = A64 (unat b div 4)" "letter (push_bit 4 (appended w b)) = A64 (unat b mod 4 * 16)"
    using sextets_1 [of "256 * unat w + unat b"] by (simp_all add: letter_appended letter_last)
qed

lemma letters_2: "letter (drop_bit 4 (appended w b)) = A64 (unat w mod 4 * 16 + unat b div 16)"
  "letter (push_bit 2 (appended w b)) = A64 (unat b mod 16 * 4)"
  using sextets_2 [OF octet_less, of "unat w" b] by (simp_all add: letter_appended letter_last)

lemma letters_3: "letter (drop_bit 6 (appended w b)) = A64 (unat w mod 16 * 4 + unat b div 64)"
  "letter (appended w b) = A64 (unat b mod 64)"
  using sextets_3 [OF octet_less, of "unat w" b] letter_appended [of 0 w b] by (simp_all add: letter_appended)

lemma encode_closed: "encode_loop w 0 bs = map A64 (b64 (map unat bs))"
proof (induction "map unat bs" arbitrary: bs w rule: b64.induct)
  case (1 a b c r)
  then obtain x y z zs where bs: "bs = x # y # z # zs" "r = map unat zs" by auto
  have "encode_loop v 0 zs = map A64 (b64 (map unat zs))" for v using 1 bs by auto
  then show ?case unfolding bs by (simp add: encode_step emit_8 emit_10 emit_12 letters_1 letters_2 letters_3 mod_appended del: emit.simps encode_loop.simps(2))
qed (auto simp: encode_step emit_8 emit_10 letters_1 letters_2 mod_appended simp del: emit.simps encode_loop.simps(2))

text \<open>Reading four letters gives three bytes; what is left over after the last whole byte must be zero.\<close>

fun d64 :: "nat list \<Rightarrow> nat list option" where
  "d64 (p # q # r # t # s) = map_option (\<lambda>bs. (p * 4 + q div 16) # (q mod 16 * 16 + r div 4) # (r mod 4 * 64 + t) # bs) (d64 s)"
| "d64 [p, q, r] = (if r mod 4 = 0 then Some [p * 4 + q div 16, q mod 16 * 16 + r div 4] else None)"
| "d64 [p, q] = (if q mod 16 = 0 then Some [p * 4 + q div 16] else None)"
| "d64 [p] = (if p = 0 then Some [] else None)"
| "d64 [] = Some []"

definition sextet :: "int32 \<Rightarrow> nat \<Rightarrow> int32" where
  "sextet w i = push_bit 6 w OR of_nat i"

lemma sextet_low: "unat (sextet w i) mod 2 ^ k = (64 * unat w + i) mod 2 ^ k" if "i < 64" "k \<le> 32"
  unfolding sextet_def pushed_six [OF that(1)] using that(2) by (intro mod_mod_cancel le_imp_power_dvd)

lemma leftover: "w AND (push_bit k 1 - 1) = 0 \<longleftrightarrow> unat w mod 2 ^ k = 0" if "k \<le> 32" for w :: int32
proof -
  have "push_bit k 1 - 1 = (mask k :: int32)" by (simp add: mask_eq_exp_minus_1 push_bit_eq_mult)
  then have "w AND (push_bit k 1 - 1) = take_bit k w" by (simp only: take_bit_eq_mask)
  then have "unat (w AND (push_bit k 1 - 1)) = take_bit k (unat w)" by (simp only: unsigned_take_bit_eq)
  then have "unat (w AND (push_bit k 1 - 1)) = unat w mod 2 ^ k" by (simp only: take_bit_eq_mod)
  then show ?thesis by (metis unat_eq_0)
qed

lemma byte_out: "ucast (drop_bit k w AND 0xff) = (of_nat (unat w div 2 ^ k mod 256) :: byte)" for w :: int32
proof -
  have "drop_bit k w AND 0xff = take_bit 8 (drop_bit k w)" by (simp add: take_bit_eq_mask mask_eq_exp_minus_1)
  then have "unat (drop_bit k w AND 0xff) = take_bit 8 (unat (drop_bit k w))" by (simp only: unsigned_take_bit_eq)
  then have "unat (drop_bit k w AND 0xff) = unat (drop_bit k w) mod 256" by (simp only: take_bit_eq_mod) simp
  moreover have "take_bit 32 (unat w) = unat w" using unsigned_less [where ?'a = nat, of w] by (intro take_bit_nat_eq_self) simp
  then have "unat (drop_bit k w) = drop_bit k (unat w)" by (simp add: unsigned_drop_bit_eq)
  then have "unat (drop_bit k w) = unat w div 2 ^ k" by (simp only: drop_bit_eq_div)
  ultimately show ?thesis by (metis of_nat_unat)
qed

lemma byte_sextet: "ucast (drop_bit k (sextet w i) AND 0xff) = (of_nat ((64 * unat w + i) div 2 ^ k mod 256) :: byte)" if "i < 64" "k \<le> 24"
proof -
  have "unat (sextet w i) mod (2 ^ k * 256) = (64 * unat w + i) mod (2 ^ k * 256)"
    using sextet_low [of i "k + 8" w] that by (simp add: power_add)
  then show ?thesis by (simp only: byte_out div_mod_swap [of "2 ^ k"] zero_less_power zero_less_numeral)
qed

lemma decode_step: "i < 64 \<Longrightarrow> decode_loop w bits (A64 i # chs) =
  (if 8 \<le> bits + 6 then map_option (\<lambda>rest. ucast (drop_bit (bits + 6 - 8) (sextet w i) AND 0xff) # rest) (decode_loop (sextet w i) (bits + 6 - 8) chs)
   else decode_loop (sextet w i) (bits + 6) chs)"
  using index_iff [of "A64 i" i] by (simp only: decode_loop.simps sextet_def Let_def option.case simp_thms)

lemma bytes_2: "q < 64 \<Longrightarrow> (64 * n + q) div 16 mod 256 = n mod 64 * 4 + q div 16"
  and bytes_3: "q < 64 \<Longrightarrow> (64 * n + q) div 4 mod 256 = n mod 16 * 16 + q div 4"
  and bytes_4: "q < 64 \<Longrightarrow> (64 * n + q) mod 256 = n mod 4 * 64 + q" for n q :: nat
proof -
  assume q: "q < 64"
  have "(64 * n + q) div 16 = 4 * n + q div 16" "(64 * n + q) div 4 = 16 * n + q div 4"
    using div_mult_self4 [of 16 "4 * n" q] div_mult_self4 [of 4 "16 * n" q] by simp_all
  then show "(64 * n + q) div 16 mod 256 = n mod 64 * 4 + q div 16" "(64 * n + q) div 4 mod 256 = n mod 16 * 16 + q div 4"
      "(64 * n + q) mod 256 = n mod 4 * 64 + q"
    using low_digit [of "q div 16" 4 n 64] low_digit [of "q div 4" 16 n 16] low_digit [of q 64 n 4] q by simp_all
qed

lemma mod_sextet: "unat (sextet w i) mod 64 = i" "unat (sextet w i) mod 16 = i mod 16" "unat (sextet w i) mod 4 = i mod 4" if "i < 64"
proof -
  have "unat (sextet w i) mod 64 = (64 * unat w + i) mod 64" "unat (sextet w i) mod 16 = (64 * unat w + i) mod 16"
      "unat (sextet w i) mod 4 = (64 * unat w + i) mod 4"
    using sextet_low [OF that, of 6 w] sextet_low [OF that, of 4 w] sextet_low [OF that, of 2 w] by simp_all
  then show "unat (sextet w i) mod 64 = i" "unat (sextet w i) mod 16 = i mod 16" "unat (sextet w i) mod 4 = i mod 4"
    using mod_mult_self4 [of 16 "4 * unat w" i] mod_mult_self4 [of 4 "16 * unat w" i] that by simp_all
qed

lemma bytes_read:
  assumes "i < 64"
  shows "ucast (drop_bit 4 (sextet w i) AND 0xff) = (of_nat (unat w mod 64 * 4 + i div 16) :: byte)"
    and "ucast (drop_bit 2 (sextet w i) AND 0xff) = (of_nat (unat w mod 16 * 16 + i div 4) :: byte)"
    and "ucast (sextet w i AND 0xff) = (of_nat (unat w mod 4 * 64 + i) :: byte)"
  using byte_sextet [OF assms, of 4 w] byte_sextet [OF assms, of 2 w] byte_sextet [OF assms, of 0 w]
    bytes_2 [OF assms, of "unat w"] bytes_3 [OF assms, of "unat w"] bytes_4 [OF assms, of "unat w"] by simp_all

lemma decode_end: "bits \<le> 32 \<Longrightarrow> decode_loop w bits [] = (if unat w mod 2 ^ bits = 0 then Some [] else None)"
  using leftover [of bits w] by (cases "bits = 0") simp_all

lemma decode_closed: "\<forall>i \<in> set ks. i < 64 \<Longrightarrow> decode_loop w 0 (map A64 ks) = map_option (map of_nat) (d64 ks)"
proof (induction ks arbitrary: w rule: d64.induct)
  case (1 p q r t s)
  then have "decode_loop v 0 (map A64 s) = map_option (map of_nat) (d64 s)" for v by simp
  with 1 show ?case by (simp add: decode_step bytes_read mod_sextet option.map_comp comp_def del: decode_loop.simps)
qed (auto simp: decode_step decode_end bytes_read mod_sextet simp del: decode_loop.simps)

lemma decode_alphabet: "decode_loop w bits s = Some bs \<Longrightarrow> \<exists>ks. (\<forall>i \<in> set ks. i < 64) \<and> s = map A64 ks"
proof (induction w bits s arbitrary: bs rule: decode_loop.induct)
  case (2 w bits ch chs)
  then obtain i where i: "index_in BASE64URL_ALPHABET ch = Some i" by (auto split: option.splits)
  with 2 have "\<exists>ks. (\<forall>i \<in> set ks. i < 64) \<and> chs = map A64 ks" by (auto simp: Let_def split: if_splits)
  then obtain ks where "\<forall>i \<in> set ks. i < 64" "chs = map A64 ks" by blast
  with i show ?case by (intro exI [of _ "i # ks"]) (simp add: index_iff)
qed (auto intro: exI [of _ "[]"])

lemma b64_less: "\<forall>n \<in> set ns. n < 256 \<Longrightarrow> \<forall>k \<in> set (b64 ns). k < 64"
  by (induction ns rule: b64.induct) auto

lemma regroup:
  "(a mod 4 * 16 + b div 16) div 16 = a mod 4" "(a mod 4 * 16 + b div 16) mod 16 = b div 16" if "b < 256" for a b :: nat
  using that by auto

lemma regroup':
  "(b mod 16 * 4 + c div 64) div 4 = b mod 16" "(b mod 16 * 4 + c div 64) mod 4 = c div 64" if "c < 256" for b c :: nat
  using that by auto

lemma d64_b64: "\<forall>n \<in> set ns. n < 256 \<Longrightarrow> d64 (b64 ns) = Some ns"
  by (induction ns rule: b64.induct) (auto simp: regroup regroup')

lemma three_more: "length (a # b # c # r) mod 3 = length r mod 3"
proof -
  have "length (a # b # c # r) = length r + 3" by simp
  then show ?thesis by (simp only: mod_add_self2)
qed

lemma d64_b64_zero: "\<forall>n \<in> set ns. n < 256 \<Longrightarrow> length ns mod 3 = 0 \<Longrightarrow> d64 (b64 ns @ [0]) = Some ns"
proof (induction ns rule: b64.induct)
  case (1 a b c r)
  have "length r mod 3 = 0" using 1(3) unfolding three_more .
  with 1 show ?case by (auto simp: regroup regroup')
qed auto

lemma b64_d64:
  "d64 ks = Some ns \<Longrightarrow> \<forall>k \<in> set ks. k < 64 \<Longrightarrow> (\<forall>n \<in> set ns. n < 256) \<and> (ks = b64 ns \<or> length ns mod 3 = 0 \<and> ks = b64 ns @ [0])"
proof (induction ks arbitrary: ns rule: d64.induct)
  case (1 p q r t s)
  then obtain ms where ms: "d64 s = Some ms" "ns = (p * 4 + q div 16) # (q mod 16 * 16 + r div 4) # (r mod 4 * 64 + t) # ms" by auto
  with 1 have "(\<forall>n \<in> set ms. n < 256) \<and> (s = b64 ms \<or> length ms mod 3 = 0 \<and> s = b64 ms @ [0])" by simp
  moreover have "length ns mod 3 = length ms mod 3" unfolding ms three_more ..
  ultimately show ?case using 1(3) unfolding ms by auto
qed (auto split: if_splits)

lemma unat_bytes: "\<forall>n \<in> set (map unat bs). n < 256" for bs :: bytes
  using octet_less by auto

lemma map_unat_of_nat: "\<forall>n \<in> set ns. n < 256 \<Longrightarrow> map unat (map of_nat ns :: bytes) = ns"
  by (induction ns) (auto simp: unat_of_nat)

lemma decode_iff:
  "decode_loop w 0 s = Some bs \<longleftrightarrow>
     s = map A64 (b64 (map unat bs)) \<or> length bs mod 3 = 0 \<and> s = map A64 (b64 (map unat bs) @ [0])"
  (is "?l \<longleftrightarrow> ?r")
proof
  assume l: ?l
  then obtain ks where ks: "\<forall>k \<in> set ks. k < 64" "s = map A64 ks" using decode_alphabet by blast
  with l obtain ns where ns: "d64 ks = Some ns" "bs = map of_nat ns" by (auto simp: decode_closed)
  with b64_d64 [OF ns(1) ks(1)] have "\<forall>n \<in> set ns. n < 256" "ks = b64 ns \<or> length ns mod 3 = 0 \<and> ks = b64 ns @ [0]" by auto
  moreover from this have "map unat bs = ns" unfolding ns(2) by (intro map_unat_of_nat)
  ultimately show ?r unfolding ks(2) by (metis length_map)
next
  let ?ns = "map unat bs"
  have "decode_loop w 0 (map A64 (b64 ?ns)) = Some bs"
    using decode_closed [OF b64_less [OF unat_bytes], of w bs] d64_b64 [OF unat_bytes, of bs] by (simp add: comp_def)
  moreover have "decode_loop w 0 (map A64 (b64 ?ns @ [0])) = Some bs" if "length bs mod 3 = 0"
    using decode_closed [of "b64 ?ns @ [0]" w] b64_less [OF unat_bytes, of bs] d64_b64_zero [OF unat_bytes, of bs] that by (simp add: comp_def)
  moreover assume ?r
  ultimately show ?l by auto
qed

lemma encode_empty: "bytesToBase64Url bs = [] \<longleftrightarrow> bs = []"
  unfolding bytesToBase64Url_def encode_closed by (cases "map unat bs" rule: b64.cases) auto

lemma decode_spellings:
  "base64UrlToBytes s = Some bs \<longleftrightarrow> s \<noteq> [] \<and> (s = bytesToBase64Url bs \<or> length bs mod 3 = 0 \<and> s = bytesToBase64Url bs @ cps ''A'')"
proof -
  have "cps ''A'' = [A64 0]" by (simp add: BASE64URL_ALPHABET_def cps_def)
  then show ?thesis by (cases "s = []") (simp_all add: base64UrlToBytes_def bytesToBase64Url_def encode_closed decode_iff)
qed

section \<open>What a signature covers\<close>

text \<open>UTF-8 is prefix free on scalar values; a lone surrogate is written as the replacement character.\<close>

definition scalar :: "nat \<Rightarrow> bool" where
  "scalar c \<longleftrightarrow> c < 0x110000 \<and> \<not> (0xD800 \<le> c \<and> c \<le> 0xDFFF)"

lemma digits_64: "c div 64 = d div 64 \<Longrightarrow> c mod 64 = d mod 64 \<Longrightarrow> c = d" for c d :: nat
  by (metis div_mult_mod_eq)

lemma digits_4096: "c div 4096 = d div 4096 \<Longrightarrow> c div 64 mod 64 = d div 64 mod 64 \<Longrightarrow> c mod 64 = d mod 64 \<Longrightarrow> c = d" for c d :: nat
  using digits_64 [of "c div 64" "d div 64"] digits_64 [of c d] by (simp add: div_mult2_eq [symmetric])

lemma digits_262144: "c div 262144 = d div 262144 \<Longrightarrow> c div 4096 mod 64 = d div 4096 mod 64 \<Longrightarrow> c div 64 mod 64 = d div 64 mod 64 \<Longrightarrow> c mod 64 = d mod 64 \<Longrightarrow> c = d" for c d :: nat
  using digits_64 [of "c div 4096" "d div 4096"] digits_4096 [of c d] by (simp add: div_mult2_eq [symmetric])

lemma utf8_cp_less: "scalar c \<Longrightarrow> b \<in> set (utf8_cp c) \<Longrightarrow> b < 256"
  by (auto simp: utf8_cp_def scalar_def split: if_splits)

lemma utf8_cp_prefix: "scalar c \<Longrightarrow> scalar d \<Longrightarrow> utf8_cp c @ r = utf8_cp d @ s \<Longrightarrow> c = d \<and> r = s"
  unfolding utf8_cp_def scalar_def
  by (simp split: if_splits) (auto dest: digits_64 digits_4096 digits_262144)

abbreviation scalars :: "utext \<Rightarrow> bool" where
  "scalars t \<equiv> list_all scalar t"

lemma utf8_cp_nonempty [simp]: "utf8_cp c \<noteq> []"
  by (simp add: utf8_cp_def)

lemma concat_cps_inj: "scalars s \<Longrightarrow> scalars t \<Longrightarrow> concat (map utf8_cp s) = concat (map utf8_cp t) \<Longrightarrow> s = t"
proof (induction s arbitrary: t)
  case Nil
  then show ?case by (cases t) simp_all
next
  case (Cons c s)
  from Cons.prems(3) obtain d u where t: "t = d # u" by (cases t) simp_all
  have "c = d \<and> concat (map utf8_cp s) = concat (map utf8_cp u)" using Cons.prems t by (intro utf8_cp_prefix) simp_all
  then show ?case using Cons.IH [of u] Cons.prems t by simp
qed

lemma utf8_inj: "scalars s \<Longrightarrow> scalars t \<Longrightarrow> utf8_encode s = utf8_encode t \<longleftrightarrow> s = t"
proof
  assume st: "scalars s" "scalars t" and eq: "utf8_encode s = utf8_encode t"
  have less: "\<forall>n \<in> set (concat (map utf8_cp u)). n < 256" if "scalars u" for u
    using that utf8_cp_less by (fastforce simp: list_all_iff)
  from eq have "map unat (utf8_encode s) = map unat (utf8_encode t)" by simp
  then have "concat (map utf8_cp s) = concat (map utf8_cp t)"
    using map_unat_of_nat [OF less [OF st(1)]] map_unat_of_nat [OF less [OF st(2)]] by (simp only: utf8_encode_def)
  then show "s = t" by (rule concat_cps_inj [OF st])
qed simp

text \<open>A number and the colon after it are read back from any text.\<close>

fun number :: "nat list \<Rightarrow> nat" where
  "number [] = 0"
| "number (d # ds) = (d - 48) * 10 ^ length ds + number ds"

lemma number_snoc: "number (ds @ [d]) = 10 * number ds + (d - 48)"
  by (induction ds) auto

lemma number_digits: "number (cps (digits n)) = n \<and> (\<forall>d \<in> set (cps (digits n)). 48 \<le> d \<and> d \<le> 57)"
proof (induction n rule: digits.induct)
  case (1 n)
  have "cps (digits n) = (if n < 10 then [48 + n] else cps (digits (n div 10)) @ [48 + n mod 10])"
    by (subst digits.simps) (simp add: cps_def)
  with 1 show ?case by (auto simp: number_snoc)
qed

lemma cut_number:
  assumes "cps (digits m) @ 58 # r = cps (digits n) @ 58 # s"
  shows "m = n \<and> r = s"
proof -
  have "takeWhile (\<lambda>c. c \<noteq> 58) (cps (digits k) @ 58 # u) = cps (digits k)" for k u
    using number_digits [of k] by (subst takeWhile_append2) force+
  with assms have same: "cps (digits m) = cps (digits n)" by metis
  then have "m = n" using number_digits by metis
  with assms same show ?thesis by simp
qed

lemma length_utf8_append: "length (utf8_encode (s @ t)) = length (utf8_encode s) + length (utf8_encode t)"
  by (simp add: utf8_encode_def)

lemma utf8_nonempty: "utf8_encode t = [] \<longleftrightarrow> t = []"
  by (cases t) (auto simp: utf8_encode_def utf8_cp_def)

text \<open>The reader takes as many bytes as the prefix names.\<close>

lemma field_cut:
  assumes "field v @ r = field w @ s"
  shows "v = w \<and> r = s"
proof -
  have "length (utf8_encode v) = length (utf8_encode w) \<and> v @ r = w @ s"
    using assms cut_number [of "length (utf8_encode v)" "v @ r" "length (utf8_encode w)" "w @ s"] by (simp add: field_def cps_def)
  then obtain u where same: "length (utf8_encode v) = length (utf8_encode w)" and "v = w @ u \<and> u @ r = s \<or> v @ u = w \<and> r = u @ s"
    by (auto simp: append_eq_append_conv2)
  then show ?thesis using length_utf8_append [of w u] length_utf8_append [of v u] utf8_nonempty [of u] by auto
qed

lemma buildSsoTokenMessage_inj: "buildSsoTokenMessage p = buildSsoTokenMessage q \<longleftrightarrow> p = q"
proof
  assume "buildSsoTokenMessage p = buildSsoTokenMessage q"
  then have "field (kid p) @ field (aud p) @ field (sub p) @ field (jti p) @ field (cps (digits (iat p))) @ field (cps (digits (exp p))) @ [] =
      field (kid q) @ field (aud q) @ field (sub q) @ field (jti q) @ field (cps (digits (iat q))) @ field (cps (digits (exp q))) @ []"
    by (simp add: buildSsoTokenMessage_def)
  then have "kid p = kid q" "aud p = aud q" "sub p = sub q" "jti p = jti q" "cps (digits (iat p)) = cps (digits (iat q))"
      "cps (digits (exp p)) = cps (digits (exp q))"
    by (meson field_cut)+
  moreover from this have "iat p = iat q" "exp p = exp q" using number_digits by metis+
  ultimately show "p = q" by (cases p; cases q) simp
qed simp

text \<open>Every message a key signs in this protocol, with the widths the server checks before it verifies one.\<close>

datatype signed =
    Setup utext utext
  | Login utext
  | Unlock utext utext
  | Password_login utext
  | Password_setup utext utext
  | Sso SsoTokenPayload

fun signed_text :: "signed \<Rightarrow> utext" where
  "signed_text (Setup pub key) = buildSetupMessage pub key"
| "signed_text (Login nonce) = buildLoginMessage nonce"
| "signed_text (Unlock nonce key) = buildUnlockMessage nonce key"
| "signed_text (Password_login nonce) = buildPasswordLoginMessage nonce"
| "signed_text (Password_setup pub salt) = buildPasswordSetupMessage pub salt"
| "signed_text (Sso p) = buildSsoTokenMessage p"

fun fixed_width :: "signed \<Rightarrow> bool" where
  "fixed_width (Setup pub key) \<longleftrightarrow> hex_text 64 pub"
| "fixed_width (Unlock nonce key) \<longleftrightarrow> hex_text 64 nonce"
| "fixed_width (Password_setup pub salt) \<longleftrightarrow> hex_text 64 pub"
| "fixed_width _ \<longleftrightarrow> True"

lemmas message_defs = buildSetupMessage_def buildLoginMessage_def buildUnlockMessage_def buildPasswordLoginMessage_def
  buildPasswordSetupMessage_def

lemma cps_Cons [simp]: "cps [] = []" "cps (c # s) = of_char c # cps s"
  by (simp_all add: cps_def)

lemma sso_tag: "\<exists>r. buildSsoTokenMessage p = cps ''hezo-s'' @ r"
  by (simp add: buildSsoTokenMessage_def SSO_TOKEN_DOMAIN_def)

lemma signed_text_inj: "fixed_width m \<Longrightarrow> fixed_width m' \<Longrightarrow> signed_text m = signed_text m' \<longleftrightarrow> m = m'"
  using sso_tag [of "case m of Sso p \<Rightarrow> p | _ \<Rightarrow> undefined"] sso_tag [of "case m' of Sso p \<Rightarrow> p | _ \<Rightarrow> undefined"]
  by (cases m; cases m') (auto simp: message_defs hex_text_def buildSsoTokenMessage_inj)

text \<open>
  (C11) A signature counts for one message only. The bytes that are signed differ whenever the flow differs or any field of it does,
  for texts of Unicode scalar values: the tags tell the sign-in flows and the assertions of an issuer apart, the fixed widths
  of the hex fields and the length prefixes of an assertion's free fields tell the fields apart. So a signature verified for a login cannot
  unlock, set a password or sign in as another account.
\<close>

theorem signed_bytes_distinct:
  assumes "fixed_width m" "fixed_width m'" "scalars (signed_text m)" "scalars (signed_text m')"
  shows "utf8_encode (signed_text m) = utf8_encode (signed_text m') \<longleftrightarrow> m = m'"
  using assms by (simp add: utf8_inj signed_text_inj)

text \<open>A lone surrogate that \<open>JSON.parse\<close> lets through is signed as the replacement character, so outside scalar values it fails.\<close>

lemma surrogates_share_signature:
  "utf8_encode (buildSsoTokenMessage (p\<lparr>jti := [0xD800]\<rparr>)) = utf8_encode (buildSsoTokenMessage (p\<lparr>jti := [0xFFFD]\<rparr>))"
  by (simp add: buildSsoTokenMessage_def field_def utf8_encode_def utf8_cp_def)

theorem signed_bytes_distinct_witness:
  "utf8_encode (signed_text (Unlock (replicate 64 48) (cps ''ab''))) \<noteq> utf8_encode (signed_text (Login (replicate 64 48 @ cps '':ab'')))"
  using signed_bytes_distinct [of "Unlock (replicate 64 48) (cps ''ab'')" "Login (replicate 64 48 @ cps '':ab'')"]
  by (simp add: message_defs hex_text_def scalar_def list_all_iff)

section \<open>The wire form\<close>

text \<open>
  (C34) What a token on the wire can be: text decodes to given bytes exactly when it is their encoding, or their encoding with one
  more \<open>A\<close> where their number is a multiple of three (six leftover bits that are zero pass the check as two or four do).
\<close>

theorem token_spellings:
  "base64UrlToBytes s = Some bs \<longleftrightarrow>
     s \<noteq> [] \<and> (s = bytesToBase64Url bs \<or> length bs mod 3 = 0 \<and> s = bytesToBase64Url bs @ cps ''A'')"
  by (rule decode_spellings)

text \<open>The values a token carries: non-empty texts, times in the range of exact integers, a signature in lower-case hex.\<close>

definition well_formed :: "SsoTokenPayload \<Rightarrow> utext \<Rightarrow> bool" where
  "well_formed p sig \<longleftrightarrow> kid p \<noteq> [] \<and> aud p \<noteq> [] \<and> sub p \<noteq> [] \<and> jti p \<noteq> [] \<and> 0 < iat p \<and> iat p \<le> MAX_SAFE_INTEGER
     \<and> 0 < exp p \<and> exp p \<le> MAX_SAFE_INTEGER \<and> hex_text 128 sig"

definition token_object :: "SsoTokenPayload \<Rightarrow> utext \<Rightarrow> json" where
  "token_object p sig = Obj [(cps ''kid'', Str (kid p)), (cps ''aud'', Str (aud p)), (cps ''sub'', Str (sub p)),
     (cps ''jti'', Str (jti p)), (cps ''iat'', Num (of_nat (iat p))), (cps ''exp'', Num (of_nat (exp p))), (cps ''sig'', Str sig)]"

lemma seconds_nat: "0 < n \<Longrightarrow> n \<le> MAX_SAFE_INTEGER \<Longrightarrow> seconds (Some (Num (of_nat n))) = Some n"
  by (simp add: seconds_def)

lemma seconds_range: "seconds v = Some n \<Longrightarrow> 0 < n \<and> n \<le> MAX_SAFE_INTEGER"
proof -
  assume "seconds v = Some n"
  then obtain r :: rat where r: "r = of_int \<lfloor>r\<rfloor>" "0 < r" "r \<le> of_nat MAX_SAFE_INTEGER" "n = nat \<lfloor>r\<rfloor>"
    by (simp add: seconds_def split: option.splits json.splits if_splits)
  then have "0 < \<lfloor>r\<rfloor>" "\<lfloor>r\<rfloor> \<le> int MAX_SAFE_INTEGER" by (metis of_int_0_less_iff, metis of_int_le_iff of_int_of_nat_eq)
  then show ?thesis using r by simp
qed

lemma text_field_nonempty: "text_field v = Some s \<Longrightarrow> s \<noteq> []"
  by (auto simp: text_field_def split: option.splits json.splits if_splits)

lemma parsed_well_formed: "parseSsoToken parse token = Some t \<Longrightarrow> well_formed (payload t) (signatureHex t) \<and> length token \<le> MAX_TOKEN_LENGTH"
  unfolding parseSsoToken_def
  by (auto simp: well_formed_def dest!: seconds_range text_field_nonempty split: if_splits option.splits)

lemma parse_object:
  assumes "parse bytes = Some (token_object p sig)" "base64UrlToBytes token = Some bytes" "length token \<le> MAX_TOKEN_LENGTH" "well_formed p sig"
  shows "parseSsoToken parse token = Some \<lparr>payload = p, signatureHex = sig\<rparr>"
proof -
  have "seconds (Some (Num (of_nat (iat p)))) = Some (iat p)" "seconds (Some (Num (of_nat (exp p)))) = Some (exp p)"
    using assms(4) by (simp_all add: seconds_nat well_formed_def)
  moreover have "member_of (token_object p sig) (cps ''kid'') = Some (Str (kid p))" "member_of (token_object p sig) (cps ''aud'') = Some (Str (aud p))"
      "member_of (token_object p sig) (cps ''sub'') = Some (Str (sub p))" "member_of (token_object p sig) (cps ''jti'') = Some (Str (jti p))"
      "member_of (token_object p sig) (cps ''sig'') = Some (Str sig)" "member_of (token_object p sig) (cps ''iat'') = Some (Num (of_nat (iat p)))"
      "member_of (token_object p sig) (cps ''exp'') = Some (Num (of_nat (exp p)))"
    by (simp_all add: member_of_def token_object_def)
  moreover have "is_object (token_object p sig)" by (simp add: is_object_def token_object_def)
  ultimately show ?thesis using assms by (auto simp: parseSsoToken_def well_formed_def text_field_def hex_text_def)
qed

text \<open>
  (Lemma) A token the issuer writes is read back as it was written, given that \<open>JSON.parse\<close> gives back what \<open>JSON.stringify\<close> wrote and refuses the empty text:
  the payload and the signature, field for field, whenever the text is within the length the server looks at. And whatever text is accepted at all has
  non-empty names, positive exact times and a signature of one spelling.
\<close>

theorem sso_token_roundtrip:
  assumes json: "parse (utf8_encode (stringify (token_object p sig))) = Some (token_object p sig)" and empty: "parse [] = None"
    and "well_formed p sig" "length (encodeSsoToken stringify p sig) \<le> MAX_TOKEN_LENGTH"
  shows "parseSsoToken parse (encodeSsoToken stringify p sig) = Some \<lparr>payload = p, signatureHex = sig\<rparr>
    \<and> (\<forall>token t. parseSsoToken parse token = Some t \<longrightarrow> well_formed (payload t) (signatureHex t))"
proof (intro conjI)
  let ?bytes = "utf8_encode (stringify (token_object p sig))"
  have token: "encodeSsoToken stringify p sig = bytesToBase64Url ?bytes" by (simp add: encodeSsoToken_def token_object_def)
  have "?bytes \<noteq> []" using json empty by auto
  then have "base64UrlToBytes (bytesToBase64Url ?bytes) = Some ?bytes" by (simp add: decode_spellings encode_empty)
  then show "parseSsoToken parse (encodeSsoToken stringify p sig) = Some \<lparr>payload = p, signatureHex = sig\<rparr>"
    using assms token by (intro parse_object) simp_all
qed (use parsed_well_formed in blast)

theorem sso_token_roundtrip_witness:
  "let p = \<lparr>kid = cps ''k1'', aud = cps ''eu'', sub = cps ''acct'', jti = cps ''j'', iat = 100, exp = 160\<rparr>; sig = replicate 128 48;
       written = (\<lambda>v. cps ''{}''); parse = (\<lambda>bs. if bs = utf8_encode (cps ''{}'') then Some (token_object p sig) else None)
   in parseSsoToken parse (encodeSsoToken written p sig) = Some \<lparr>payload = p, signatureHex = sig\<rparr>"
  unfolding Let_def
  by (rule sso_token_roundtrip [THEN conjunct1])
    (simp_all add: well_formed_def hex_text_def list_all_iff MAX_SAFE_INTEGER_def MAX_TOKEN_LENGTH_def encodeSsoToken_def utf8_encode_def utf8_cp_def
       bytesToBase64Url_def encode_closed)

section \<open>Freshness and keys\<close>

lemma freshness_window:
  "checkSsoTokenFreshness p now = Fresh \<longleftrightarrow>
     iat p < exp p \<and> exp p \<le> iat p + 60 \<and> iat p \<le> now + 30 \<and> now \<le> exp p + 30"
  by (auto simp: checkSsoTokenFreshness_def Let_def SSO_TOKEN_MAX_LIFETIME_SECONDS_def SSO_TOKEN_CLOCK_SKEW_SECONDS_def)

lemma fresh_two_minutes: "checkSsoTokenFreshness p t = Fresh \<Longrightarrow> checkSsoTokenFreshness p t' = Fresh \<Longrightarrow> t' \<le> t + 120"
  by (simp add: freshness_window)

lemma read_keys_sound:
  "read_keys keys entries = Inr out \<Longrightarrow> distinct (map fst keys) \<Longrightarrow> \<forall>(k, hex) \<in> set keys. k \<noteq> [] \<and> hex_text 64 hex \<Longrightarrow>
     distinct (map fst out) \<and> (\<forall>(k, hex) \<in> set out. k \<noteq> [] \<and> hex_text 64 hex) \<and> length out = length keys + length entries"
proof (induction keys entries rule: read_keys.induct)
  case (2 keys entry entries)
  let ?k = "takeWhile (\<lambda>c. c \<noteq> 58) entry" and ?hex = "drop (Suc (length (takeWhile (\<lambda>c. c \<noteq> 58) entry))) entry"
  from 2(2) have c: "58 \<in> set entry" "?k \<noteq> []" "hex_text 64 ?hex" "map_of keys ?k = None" "read_keys (keys @ [(?k, ?hex)]) entries = Inr out"
    by (simp_all only: read_keys.simps Let_def split: if_splits) auto
  then have "distinct (map fst (keys @ [(?k, ?hex)]))" "\<forall>(k, hex) \<in> set (keys @ [(?k, ?hex)]). k \<noteq> [] \<and> hex_text 64 hex"
    using 2(3,4) by (auto simp: map_of_eq_None_iff)
  moreover have "length (keys @ [(?k, ?hex)]) + length entries = length keys + length (entry # entries)" by simp
  ultimately show ?case using 2(1) [OF refl refl] c by metis
qed simp

lemma issuer_keys_sound:
  "parseIssuerPublicKeys list = Inr keys \<Longrightarrow> keys \<noteq> [] \<and> distinct (map fst keys) \<and> (\<forall>(k, hex) \<in> set keys. k \<noteq> [] \<and> hex_text 64 hex)"
proof -
  let ?entries = "filter (\<lambda>entry. 0 < length entry) (map trim (split_char 44 list))"
  assume "parseIssuerPublicKeys list = Inr keys"
  then have some: "0 < length ?entries" and "read_keys [] ?entries = Inr keys"
    by (simp_all only: parseIssuerPublicKeys_def Let_def split: if_splits) auto
  then have "distinct (map fst keys) \<and> (\<forall>(k, hex) \<in> set keys. k \<noteq> [] \<and> hex_text 64 hex) \<and> length keys = length ?entries"
    using read_keys_sound [of "[]" ?entries keys] by simp
  then show ?thesis using some by (metis length_0_conv less_numeral_extra(3))
qed
end
