(* ===== verification/Master_Key.thy ===== *)
theory Master_Key
  imports State_Systems Sso_Token
begin

text \<open>
  The master key (\<open>crypto/master-key.ts\<close>) and its handover across an update (\<open>lib/unlock-handoff.ts\<close>).

  Every \<open>await\<close> is a point where other calls may run: a call does its synchronous part, leaves a continuation behind and is resumed
  by a later step, in any order. Key derivation, sealing and opening (HKDF and AES-GCM behind \<open>crypto/encryption.ts\<close>) are
  arguments, gathered in a record; what is relied on of them is \<open>crypto_laws\<close>. The boot runs alone, before any request.
\<close>

section \<open>State\<close>

record crypto =
  deriveKey :: "utext \<Rightarrow> utext \<Rightarrow> bytes"
  seal :: "nat \<Rightarrow> utext \<Rightarrow> bytes \<Rightarrow> utext"
  unseal :: "utext \<Rightarrow> bytes \<Rightarrow> utext option"
  ed25519 :: ed25519_verify

definition CANARY_PLAINTEXT :: utext where
  "CANARY_PLAINTEXT = cps ''CANARY''"

definition CANARY_PURPOSE :: utext where
  "CANARY_PURPOSE = cps ''master-key-canary''"

datatype MasterKeyState = Unset | Locked | Unlocked

text \<open>Where a call stands when it awaits.\<close>

datatype continuation =
    Enrol utext utext
  | Enrolled utext utext
  | Load_canary utext
  | Check_canary utext utext
  | Derive_encryption utext
  | Derived nat utext
  | Load_public_key "(utext \<times> utext) option"

datatype reply = Answer bool | Key_for utext bytes | Not_available | Public_key "utext option"

record manager =
  held_key :: "bytes option"
  derivedKeys :: "utext \<rightharpoonup> bytes"
  derivingKeys :: "utext \<rightharpoonup> nat"
  unlockKeyHex :: "utext option"
  authPublicKeyHex :: "utext option"
  mk_state :: MasterKeyState
  unlockCallbacks :: "nat list"
  master_key_canary :: "utext option"
  auth_public_key :: "utext option"
  derivations :: "(utext \<times> utext) list"
  awaiting :: "(nat \<times> continuation) list"
  replies :: "(nat \<times> reply) list"
  fired :: "nat list"

text \<open>A new process: what the database holds, and nothing in memory.\<close>

definition new_manager :: "utext option \<Rightarrow> utext option \<Rightarrow> manager" where
  "new_manager canary pub = \<lparr>held_key = None, derivedKeys = Map.empty, derivingKeys = Map.empty, unlockKeyHex = None,
     authPublicKeyHex = None, mk_state = Unset, unlockCallbacks = [], master_key_canary = canary, auth_public_key = pub,
     derivations = [], awaiting = [], replies = [], fired = []\<rparr>"

definition truthy :: "utext option \<Rightarrow> utext option" where
  "truthy t = (case t of Some s \<Rightarrow> if s = [] then None else Some s | None \<Rightarrow> None)"

section \<open>Operations\<close>

definition checkCanary :: "crypto \<Rightarrow> utext \<Rightarrow> utext \<Rightarrow> bool" where
  "checkCanary cr encryptedCanary k \<longleftrightarrow> unseal cr encryptedCanary (deriveKey cr k CANARY_PURPOSE) = Some CANARY_PLAINTEXT"

definition sealed_canary :: "crypto \<Rightarrow> nat \<Rightarrow> utext \<Rightarrow> utext" where
  "sealed_canary cr iv k = seal cr iv CANARY_PLAINTEXT (deriveKey cr k CANARY_PURPOSE)"

definition storeCanary :: "crypto \<Rightarrow> nat \<Rightarrow> utext \<Rightarrow> manager \<Rightarrow> manager" where
  "storeCanary cr iv k s = s\<lparr>master_key_canary := Some (sealed_canary cr iv k)\<rparr>"

text \<open>\<open>setUnlocked\<close>, before and after its \<open>await\<close>; the callbacks run in the order they were given.\<close>

definition setUnlocked_begin :: "utext \<Rightarrow> manager \<Rightarrow> manager" where
  "setUnlocked_begin k s = s\<lparr>unlockKeyHex := Some k, derivedKeys := Map.empty, derivingKeys := Map.empty\<rparr>"

definition setUnlocked_end :: "crypto \<Rightarrow> utext \<Rightarrow> manager \<Rightarrow> manager" where
  "setUnlocked_end cr k s =
     (let s1 = s\<lparr>held_key := Some (deriveKey cr k (cps ''encryption'')), mk_state := Unlocked\<rparr>
      in if mk_state s \<noteq> Unlocked then s1\<lparr>fired := fired s @ unlockCallbacks s\<rparr> else s1)"

text \<open>The transaction of \<open>setup\<close>: the canary is inserted unless one is stored, and then the public key is written.\<close>

definition enrol :: "crypto \<Rightarrow> nat \<Rightarrow> utext \<Rightarrow> utext \<Rightarrow> manager \<Rightarrow> bool \<times> manager" where
  "enrol cr iv k pub s = (case master_key_canary s of
     Some _ \<Rightarrow> (False, s)
   | None \<Rightarrow> (True, s\<lparr>master_key_canary := Some (sealed_canary cr iv k), auth_public_key := Some pub\<rparr>))"

definition onUnlock :: "nat \<Rightarrow> manager \<Rightarrow> manager" where
  "onUnlock cb s =
     (let s1 = s\<lparr>unlockCallbacks := unlockCallbacks s @ [cb]\<rparr>
      in if mk_state s = Unlocked then s1\<lparr>fired := fired s @ [cb]\<rparr> else s1)"

definition reply_to :: "nat \<Rightarrow> reply \<Rightarrow> manager \<Rightarrow> manager" where
  "reply_to c r s = s\<lparr>replies := (c, r) # replies s\<rparr>"

definition await :: "nat \<Rightarrow> continuation \<Rightarrow> manager \<Rightarrow> manager" where
  "await c k s = s\<lparr>awaiting := (c, k) # awaiting s\<rparr>"

text \<open>The synchronous part of each call.\<close>

definition setup_call :: "nat \<Rightarrow> utext \<Rightarrow> utext \<Rightarrow> manager \<Rightarrow> manager" where
  "setup_call c k pub s = (if mk_state s \<noteq> Unset then reply_to c (Answer False) s else await c (Enrol k pub) s)"

definition unlock :: "nat \<Rightarrow> utext \<Rightarrow> manager \<Rightarrow> manager" where
  "unlock c k s = await c (Load_canary k) s"

definition getDerivedKey :: "nat \<Rightarrow> utext \<Rightarrow> manager \<Rightarrow> manager" where
  "getDerivedKey c purpose s = (case derivedKeys s purpose of
     Some key \<Rightarrow> reply_to c (Key_for purpose key) s
   | None \<Rightarrow> (case truthy (unlockKeyHex s) of
       None \<Rightarrow> reply_to c Not_available s
     | Some k \<Rightarrow> (case derivingKeys s purpose of
         Some n \<Rightarrow> await c (Derived n purpose) s
       | None \<Rightarrow>
           let n = length (derivations s)
           in await c (Derived n purpose) (s\<lparr>derivations := derivations s @ [(k, purpose)], derivingKeys := (derivingKeys s)(purpose \<mapsto> n)\<rparr>))))"

text \<open>\<open>getAuthPublicKeyHex\<close>, and with a message and a signature \<open>verifySignature\<close>, which waits for it.\<close>

definition with_public_key :: "crypto \<Rightarrow> (utext \<times> utext) option \<Rightarrow> utext option \<Rightarrow> reply" where
  "with_public_key cr check pub = (case check of
     None \<Rightarrow> Public_key pub
   | Some (msg, sig) \<Rightarrow> Answer (case truthy pub of None \<Rightarrow> False | Some key \<Rightarrow> verifyAuthSignature (ed25519 cr) key msg sig))"

definition verifySignature :: "crypto \<Rightarrow> nat \<Rightarrow> (utext \<times> utext) option \<Rightarrow> manager \<Rightarrow> manager" where
  "verifySignature cr c check s = (case truthy (authPublicKeyHex s) of
     Some pub \<Rightarrow> reply_to c (with_public_key cr check (Some pub)) s
   | None \<Rightarrow> await c (Load_public_key check) s)"

text \<open>What a call does when it is resumed.\<close>

fun resume :: "crypto \<Rightarrow> nat \<Rightarrow> nat \<Rightarrow> continuation \<Rightarrow> manager \<Rightarrow> manager" where
  "resume cr iv c (Enrol k pub) s =
     (case enrol cr iv k pub s of (ok, s1) \<Rightarrow> if ok then await c (Enrolled k pub) s1 else reply_to c (Answer False) s1)"
| "resume cr iv c (Enrolled k pub) s = await c (Derive_encryption k) (setUnlocked_begin k (s\<lparr>authPublicKeyHex := Some pub\<rparr>))"
| "resume cr iv c (Load_canary k) s = (case truthy (master_key_canary s) of
     None \<Rightarrow> reply_to c (Answer False) s
   | Some canary \<Rightarrow> await c (Check_canary k canary) s)"
| "resume cr iv c (Check_canary k canary) s =
     (if checkCanary cr canary k then await c (Derive_encryption k) (setUnlocked_begin k s) else reply_to c (Answer False) s)"
| "resume cr iv c (Derive_encryption k) s = reply_to c (Answer True) (setUnlocked_end cr k s)"
| "resume cr iv c (Derived n purpose) s =
     (let key = deriveKey cr (fst (derivations s ! n)) purpose
      in reply_to c (Key_for purpose key) (s\<lparr>derivedKeys := (derivedKeys s)(purpose \<mapsto> key)\<rparr>))"
| "resume cr iv c (Load_public_key check) s =
     reply_to c (with_public_key cr check (auth_public_key s)) (s\<lparr>authPublicKeyHex := auth_public_key s\<rparr>)"

text \<open>The \<open>finally\<close> of derivation \<open>n\<close> frees its purpose, whoever holds it by then.\<close>

definition derivation_settled :: "nat \<Rightarrow> manager \<Rightarrow> manager" where
  "derivation_settled n s = s\<lparr>derivingKeys := (derivingKeys s)(snd (derivations s ! n) := None)\<rparr>"

section \<open>The boot\<close>

definition ensureAuthPublicKey :: "utext \<Rightarrow> manager \<Rightarrow> manager" where
  "ensureAuthPublicKey pub s =
     (let stored = (case truthy (authPublicKeyHex s) of Some p \<Rightarrow> Some p | None \<Rightarrow> auth_public_key s); s1 = s\<lparr>authPublicKeyHex := stored\<rparr>
      in if stored = Some pub then s1 else s1\<lparr>auth_public_key := Some pub, authPublicKeyHex := Some pub\<rparr>)"

definition setUnlocked :: "crypto \<Rightarrow> utext \<Rightarrow> manager \<Rightarrow> manager" where
  "setUnlocked cr k s = setUnlocked_end cr k (setUnlocked_begin k s)"

definition initialize :: "crypto \<Rightarrow> nat \<Rightarrow> utext option \<Rightarrow> utext option \<Rightarrow> manager \<Rightarrow> manager" where
  "initialize cr iv k pub s = (case truthy (master_key_canary s) of
     Some canary \<Rightarrow>
       (case truthy k of
          Some k' \<Rightarrow> if checkCanary cr canary k'
            then setUnlocked cr k' (case truthy pub of Some p \<Rightarrow> ensureAuthPublicKey p s | None \<Rightarrow> s)
            else s\<lparr>mk_state := Locked\<rparr>
        | None \<Rightarrow> s\<lparr>mk_state := Locked\<rparr>)
   | None \<Rightarrow>
       (case (truthy k, truthy pub) of
          (Some k', Some p) \<Rightarrow> (if mk_state s \<noteq> Unset then s else case enrol cr iv k' p s of
              (ok, s1) \<Rightarrow> if ok then setUnlocked cr k' (s1\<lparr>authPublicKeyHex := Some p\<rparr>) else s1)
        | (Some k', None) \<Rightarrow> setUnlocked cr k' (storeCanary cr iv k' s)
        | (None, _) \<Rightarrow> s\<lparr>mk_state := Unset\<rparr>))"

section \<open>Runs\<close>

inductive mk_step :: "crypto \<Rightarrow> manager \<Rightarrow> manager \<Rightarrow> bool" for cr where
  step_setup: "mk_step cr s (setup_call c k pub s)"
| step_unlock: "mk_step cr s (unlock c k s)"
| step_derived: "mk_step cr s (getDerivedKey c purpose s)"
| step_verify: "mk_step cr s (verifySignature cr c check s)"
| step_callback: "mk_step cr s (onUnlock cb s)"
| step_resume: "(c, k) \<in> set (awaiting s) \<Longrightarrow> mk_step cr s (resume cr iv c k (s\<lparr>awaiting := remove1 (c, k) (awaiting s)\<rparr>))"
| step_settled: "n < length (derivations s) \<Longrightarrow> mk_step cr s (derivation_settled n s)"

text \<open>A database holds no canary or one sealed at an enrolment.\<close>

definition booted :: "crypto \<Rightarrow> manager \<Rightarrow> bool" where
  "booted cr s \<longleftrightarrow> (\<exists>canary pub iv k key. (\<forall>c. canary = Some c \<longrightarrow> c \<noteq> [] \<and> (\<exists>iv' k'. c = sealed_canary cr iv' k')) \<and> s = initialize cr iv k key (new_manager canary pub))"

text \<open>What is relied on: what was sealed opens with its key to the text and with no other key, and no two master keys derive one canary key.\<close>

definition crypto_laws :: "crypto \<Rightarrow> bool" where
  "crypto_laws cr \<longleftrightarrow>
     (\<forall>iv t key. seal cr iv t key \<noteq> [] \<and> unseal cr (seal cr iv t key) key = Some t) \<and>
     (\<forall>iv t key key' t'. unseal cr (seal cr iv t key) key' = Some t' \<longrightarrow> key' = key) \<and>
     (\<forall>k k'. deriveKey cr k CANARY_PURPOSE = deriveKey cr k' CANARY_PURPOSE \<longrightarrow> k = k')"

section \<open>The handover\<close>

definition UNLOCK_KEY_MESSAGE_TYPE :: utext where
  "UNLOCK_KEY_MESSAGE_TYPE = cps ''hezo:unlock-key''"

definition UNLOCK_KEY_REQUEST_TYPE :: utext where
  "UNLOCK_KEY_REQUEST_TYPE = cps ''hezo:request-unlock-key''"

definition unlockKeyMessage :: "utext \<Rightarrow> json" where
  "unlockKeyMessage k = Obj [(cps ''type'', Str UNLOCK_KEY_MESSAGE_TYPE), (cps ''unlockKeyHex'', Str k)]"

definition unlockKeyRequest :: json where
  "unlockKeyRequest = Obj [(cps ''type'', Str UNLOCK_KEY_REQUEST_TYPE)]"

text \<open>\<open>isUnlockKeyMessage\<close>, with the key it narrows to.\<close>

definition isUnlockKeyMessage :: "json \<Rightarrow> utext option" where
  "isUnlockKeyMessage msg =
     (if is_object msg \<and> member_of msg (cps ''type'') = Some (Str UNLOCK_KEY_MESSAGE_TYPE)
      then (case member_of msg (cps ''unlockKeyHex'') of Some (Str k) \<Rightarrow> Some k | _ \<Rightarrow> None) else None)"

definition isUnlockKeyRequest :: "json \<Rightarrow> bool" where
  "isUnlockKeyRequest msg \<longleftrightarrow> is_object msg \<and> member_of msg (cps ''type'') = Some (Str UNLOCK_KEY_REQUEST_TYPE)"

text \<open>The supervisor's half: the key it holds, and its replies to a message.\<close>

definition handleMessage :: "json \<Rightarrow> utext option \<Rightarrow> utext option \<times> json list" where
  "handleMessage msg store = (case isUnlockKeyMessage msg of
     Some k \<Rightarrow> (Some k, [])
   | None \<Rightarrow> (case truthy store of
       Some k \<Rightarrow> if isUnlockKeyRequest msg then (store, [unlockKeyMessage k]) else (store, [])
     | None \<Rightarrow> (store, [])))"

text \<open>
  The worker's half. The callback it registers sends the key the manager holds when it fires; the call gives what is sent at
  once and whether the worker listens for a reply.
\<close>

definition pushed_key :: "manager \<Rightarrow> json list" where
  "pushed_key s = (case truthy (unlockKeyHex s) of Some k \<Rightarrow> [unlockKeyMessage k] | None \<Rightarrow> [])"

definition setupWorkerUnlockHandoff :: "nat \<Rightarrow> manager \<Rightarrow> manager \<times> json list \<times> bool" where
  "setupWorkerUnlockHandoff cb s =
     (let s1 = onUnlock cb s; sent = (if mk_state s = Unlocked then pushed_key s else [])
      in if mk_state s1 \<noteq> Locked then (s1, sent, False) else (s1, sent @ [unlockKeyRequest], True))"

definition worker_message :: "nat \<Rightarrow> json \<Rightarrow> manager \<Rightarrow> manager" where
  "worker_message c msg s = (case isUnlockKeyMessage msg of
     None \<Rightarrow> s
   | Some k \<Rightarrow> if mk_state s \<noteq> Locked then s else unlock c k s)"

text \<open>A call run to its end with nothing between its steps.\<close>

fun run_call :: "nat \<Rightarrow> crypto \<Rightarrow> nat \<Rightarrow> nat \<Rightarrow> manager \<Rightarrow> manager" where
  "run_call 0 cr iv c s = s"
| "run_call (Suc fuel) cr iv c s = (case map_of (awaiting s) c of
     None \<Rightarrow> s
   | Some k \<Rightarrow> run_call fuel cr iv c (resume cr iv c k (s\<lparr>awaiting := remove1 (c, k) (awaiting s)\<rparr>)))"

section \<open>What the key guards\<close>

lemmas mk_defs = setup_call_def unlock_def getDerivedKey_def verifySignature_def onUnlock_def derivation_settled_def reply_to_def await_def
  setUnlocked_begin_def setUnlocked_end_def enrol_def

lemma step_keeps_canary: "mk_step cr s t \<Longrightarrow> master_key_canary s = Some c \<Longrightarrow> master_key_canary t = Some c"
proof (induction rule: mk_step.induct)
  case (step_resume c k s iv)
  then show ?case by (cases k) (auto simp: mk_defs Let_def split: option.splits)
qed (auto simp: mk_defs Let_def split: option.splits)

definition accepted :: "crypto \<Rightarrow> manager \<Rightarrow> utext \<Rightarrow> bool" where
  "accepted cr s k \<longleftrightarrow> (\<exists>c. master_key_canary s = Some c \<and> checkCanary cr c k)"

lemma accepted_mono: "accepted cr s k \<Longrightarrow> (\<And>c. master_key_canary s = Some c \<Longrightarrow> master_key_canary t = Some c) \<Longrightarrow> accepted cr t k"
  by (auto simp: accepted_def)

definition canary_honest :: "crypto \<Rightarrow> manager \<Rightarrow> bool" where
  "canary_honest cr s \<longleftrightarrow> (\<forall>c. master_key_canary s = Some c \<longrightarrow> (\<exists>iv k. c = sealed_canary cr iv k))"

lemma accepts_own: "crypto_laws cr \<Longrightarrow> checkCanary cr (sealed_canary cr iv k) k' \<longleftrightarrow> k' = k"
  unfolding crypto_laws_def checkCanary_def sealed_canary_def by metis

lemma accepted_unique: "crypto_laws cr \<Longrightarrow> canary_honest cr s \<Longrightarrow> accepted cr s k \<Longrightarrow> accepted cr s k' \<Longrightarrow> k = k'"
  by (auto simp: canary_honest_def accepted_def accepts_own)

fun continuation_ok :: "crypto \<Rightarrow> manager \<Rightarrow> continuation \<Rightarrow> bool" where
  "continuation_ok cr s (Enrolled k pub) \<longleftrightarrow> accepted cr s k"
| "continuation_ok cr s (Check_canary k canary) \<longleftrightarrow> master_key_canary s = Some canary"
| "continuation_ok cr s (Derive_encryption k) \<longleftrightarrow> accepted cr s k \<and> unlockKeyHex s \<noteq> None"
| "continuation_ok cr s (Derived n purpose) \<longleftrightarrow> n < length (derivations s)"
| "continuation_ok cr s _ \<longleftrightarrow> True"

fun reply_ok :: "crypto \<Rightarrow> manager \<Rightarrow> reply \<Rightarrow> bool" where
  "reply_ok cr s (Key_for purpose key) \<longleftrightarrow> (\<exists>k. accepted cr s k \<and> key = deriveKey cr k purpose)"
| "reply_ok cr s _ \<longleftrightarrow> True"

definition mk_inv :: "crypto \<Rightarrow> manager \<Rightarrow> bool" where
  "mk_inv cr s \<longleftrightarrow>
     canary_honest cr s \<and>
     (\<forall>k. unlockKeyHex s = Some k \<longrightarrow> accepted cr s k) \<and>
     (\<forall>key. held_key s = Some key \<longrightarrow> (\<exists>k. accepted cr s k \<and> key = deriveKey cr k (cps ''encryption''))) \<and>
     (\<forall>p key. derivedKeys s p = Some key \<longrightarrow> (\<exists>k. accepted cr s k \<and> key = deriveKey cr k p)) \<and>
     (\<forall>p n. derivingKeys s p = Some n \<longrightarrow> n < length (derivations s)) \<and>
     (\<forall>(k, p) \<in> set (derivations s). accepted cr s k) \<and>
     (\<forall>(c, k) \<in> set (awaiting s). continuation_ok cr s k) \<and>
     (\<forall>(c, r) \<in> set (replies s). reply_ok cr s r) \<and>
     (mk_state s = Unlocked \<longrightarrow> held_key s \<noteq> None \<and> unlockKeyHex s \<noteq> None) \<and>
     (mk_state s = Locked \<longrightarrow> master_key_canary s \<noteq> None)"

text \<open>The parts of the invariant survive whatever leaves the canary in place.\<close>

definition grows :: "manager \<Rightarrow> manager \<Rightarrow> bool" where
  "grows s t \<longleftrightarrow> (\<forall>c. master_key_canary s = Some c \<longrightarrow> master_key_canary t = Some c)
     \<and> length (derivations s) \<le> length (derivations t) \<and> (unlockKeyHex s \<noteq> None \<longrightarrow> unlockKeyHex t \<noteq> None)"

lemma accepted_grows: "grows s t \<Longrightarrow> accepted cr s k \<Longrightarrow> accepted cr t k"
  by (auto simp: grows_def accepted_def)

lemma continuation_grows: "grows s t \<Longrightarrow> continuation_ok cr s k \<Longrightarrow> continuation_ok cr t k"
  using accepted_grows [of s t cr] by (cases k) (auto simp: grows_def)

lemma reply_grows: "grows s t \<Longrightarrow> reply_ok cr s r \<Longrightarrow> reply_ok cr t r"
  by (cases r) (auto intro: accepted_grows)

lemma mk_invI:
  assumes inv: "mk_inv cr s" and "grows s t"
    and "canary_honest cr t"
    and "\<And>k. unlockKeyHex t = Some k \<Longrightarrow> unlockKeyHex s \<noteq> Some k \<Longrightarrow> accepted cr t k"
    and "\<And>key. held_key t = Some key \<Longrightarrow> held_key s \<noteq> Some key \<Longrightarrow> \<exists>k. accepted cr t k \<and> key = deriveKey cr k (cps ''encryption'')"
    and "\<And>p key. derivedKeys t p = Some key \<Longrightarrow> derivedKeys s p \<noteq> Some key \<Longrightarrow> \<exists>k. accepted cr t k \<and> key = deriveKey cr k p"
    and "\<And>p n. derivingKeys t p = Some n \<Longrightarrow> derivingKeys s p \<noteq> Some n \<Longrightarrow> n < length (derivations t)"
    and "\<And>d. d \<in> set (derivations t) \<Longrightarrow> d \<notin> set (derivations s) \<Longrightarrow> accepted cr t (fst d)"
    and "\<And>a. a \<in> set (awaiting t) \<Longrightarrow> a \<notin> set (awaiting s) \<Longrightarrow> continuation_ok cr t (snd a)"
    and "\<And>r. r \<in> set (replies t) \<Longrightarrow> r \<notin> set (replies s) \<Longrightarrow> reply_ok cr t (snd r)"
    and "mk_state t = Unlocked \<Longrightarrow> held_key t \<noteq> None \<and> unlockKeyHex t \<noteq> None"
    and "mk_state t = Locked \<Longrightarrow> master_key_canary t \<noteq> None"
  shows "mk_inv cr t"
proof -
  note g = accepted_grows [OF assms(2)] continuation_grows [OF assms(2)] reply_grows [OF assms(2)]
  have "\<forall>k. unlockKeyHex t = Some k \<longrightarrow> accepted cr t k" using inv g(1) assms(4) unfolding mk_inv_def by metis
  moreover have "\<forall>key. held_key t = Some key \<longrightarrow> (\<exists>k. accepted cr t k \<and> key = deriveKey cr k (cps ''encryption''))"
    using inv g(1) assms(5) unfolding mk_inv_def by metis
  moreover have "\<forall>p key. derivedKeys t p = Some key \<longrightarrow> (\<exists>k. accepted cr t k \<and> key = deriveKey cr k p)"
    using inv g(1) assms(6) unfolding mk_inv_def by metis
  moreover have "\<forall>p n. derivingKeys t p = Some n \<longrightarrow> n < length (derivations t)"
  proof (intro allI impI)
    fix p n assume "derivingKeys t p = Some n"
    moreover have "derivingKeys s p = Some n \<Longrightarrow> n < length (derivations s)" using inv unfolding mk_inv_def by blast
    ultimately show "n < length (derivations t)" using assms(2,7) unfolding grows_def by (meson order_less_le_trans)
  qed
  moreover have "\<forall>d \<in> set (derivations s). accepted cr s (fst d)" "\<forall>a \<in> set (awaiting s). continuation_ok cr s (snd a)"
      "\<forall>r \<in> set (replies s). reply_ok cr s (snd r)" using inv unfolding mk_inv_def by (simp_all add: split_beta)
  then have "\<forall>d \<in> set (derivations t). accepted cr t (fst d)" "\<forall>a \<in> set (awaiting t). continuation_ok cr t (snd a)"
      "\<forall>r \<in> set (replies t). reply_ok cr t (snd r)" using g assms(8-10) by blast+
  ultimately show ?thesis using assms(3,11,12) unfolding mk_inv_def by (simp add: split_beta)
qed

lemma inv_parts:
  assumes "mk_inv cr s"
  shows "canary_honest cr s" "mk_state s = Unlocked \<Longrightarrow> held_key s \<noteq> None" "mk_state s = Unlocked \<Longrightarrow> unlockKeyHex s \<noteq> None"
    "mk_state s = Locked \<Longrightarrow> master_key_canary s \<noteq> None"
    "(c, k) \<in> set (awaiting s) \<Longrightarrow> continuation_ok cr s k" "unlockKeyHex s = Some u \<Longrightarrow> accepted cr s u"
    "n < length (derivations s) \<Longrightarrow> accepted cr s (fst (derivations s ! n))" "derivingKeys s p = Some n \<Longrightarrow> n < length (derivations s)"
    "derivedKeys s p = Some key \<Longrightarrow> \<exists>k. accepted cr s k \<and> key = deriveKey cr k p"
    "held_key s = Some x \<Longrightarrow> \<exists>k. accepted cr s k \<and> x = deriveKey cr k (cps ''encryption'')"
  using assms nth_mem [of n "derivations s"] unfolding mk_inv_def by (auto simp: split_beta)

lemma inv_reply: "mk_inv cr s \<Longrightarrow> reply_ok cr s r \<Longrightarrow> mk_inv cr (reply_to c r s)"
  by (rule mk_invI [of cr s]) (auto simp: reply_to_def grows_def canary_honest_def dest: inv_parts intro: reply_grows [rotated])

lemma inv_await: "mk_inv cr s \<Longrightarrow> continuation_ok cr s k \<Longrightarrow> mk_inv cr (await c k s)"
  by (rule mk_invI [of cr s]) (auto simp: await_def grows_def canary_honest_def dest: inv_parts intro: continuation_grows [rotated])

lemma inv_remove: "mk_inv cr s \<Longrightarrow> mk_inv cr (s\<lparr>awaiting := remove1 x (awaiting s)\<rparr>)"
  by (rule mk_invI [of cr s]) (auto simp: grows_def canary_honest_def dest: inv_parts set_remove1_subset [THEN subsetD])

lemma inv_begin: "mk_inv cr s \<Longrightarrow> accepted cr s k \<Longrightarrow> mk_inv cr (setUnlocked_begin k (s\<lparr>authPublicKeyHex := pub\<rparr>))"
  by (rule mk_invI [of cr s]) (auto simp: setUnlocked_begin_def grows_def canary_honest_def accepted_def dest: inv_parts)

lemma inv_end: "mk_inv cr s \<Longrightarrow> accepted cr s k \<Longrightarrow> unlockKeyHex s \<noteq> None \<Longrightarrow> mk_inv cr (setUnlocked_end cr k s)"
  by (rule mk_invI [of cr s]) (auto simp: setUnlocked_end_def Let_def grows_def canary_honest_def accepted_def dest: inv_parts split: if_splits)

lemma inv_enrol:
  assumes "mk_inv cr s" "enrol cr iv k pub s = (ok, t)" "crypto_laws cr"
  shows "mk_inv cr t \<and> (ok \<longrightarrow> accepted cr t k)"
proof (cases "master_key_canary s")
  case None
  then have t: "t = s\<lparr>master_key_canary := Some (sealed_canary cr iv k), auth_public_key := Some pub\<rparr>" using assms(2) by (simp add: enrol_def)
  have "canary_honest cr t" by (auto simp: t canary_honest_def)
  then have "mk_inv cr t" using inv_parts [OF assms(1)] None
    by (intro mk_invI [OF assms(1)]) (simp_all add: t grows_def)
  moreover have "accepted cr t k" using accepts_own [OF assms(3), of iv k k] by (simp add: t accepted_def)
  ultimately show ?thesis by simp
qed (use assms in \<open>auto simp: enrol_def\<close>)

lemma inv_pub: "mk_inv cr s \<Longrightarrow> mk_inv cr (s\<lparr>authPublicKeyHex := pub\<rparr>)"
  by (rule mk_invI [of cr s]) (auto simp: grows_def canary_honest_def dest: inv_parts)

lemma inv_memo: "mk_inv cr s \<Longrightarrow> accepted cr s k \<Longrightarrow> mk_inv cr (s\<lparr>derivedKeys := (derivedKeys s)(p \<mapsto> deriveKey cr k p)\<rparr>)"
  by (rule mk_invI [of cr s]) (auto simp: grows_def canary_honest_def accepted_def dest: inv_parts split: if_splits)

lemma accepted_frame [simp]:
  "accepted cr (s\<lparr>awaiting := a\<rparr>) k = accepted cr s k" "accepted cr (s\<lparr>derivedKeys := d\<rparr>) k = accepted cr s k"
  "accepted cr (setUnlocked_begin u s) k = accepted cr s k" "accepted cr (s\<lparr>authPublicKeyHex := p\<rparr>) k = accepted cr s k"
  "accepted cr (setUnlocked_end cr u s) k = accepted cr s k" "accepted cr (s\<lparr>derivations := x, derivingKeys := y\<rparr>) k = accepted cr s k"
  by (simp_all add: accepted_def setUnlocked_begin_def setUnlocked_end_def Let_def)

lemma inv_resume:
  assumes laws: "crypto_laws cr" and inv: "mk_inv cr s" and ok: "continuation_ok cr s k"
  shows "mk_inv cr (resume cr iv c k s)"
proof (cases k)
  case (Enrol key pub)
  obtain fine t where e: "enrol cr iv key pub s = (fine, t)" by (cases "enrol cr iv key pub s")
  then show ?thesis using inv_enrol [OF inv e laws] unfolding Enrol by (auto intro: inv_await inv_reply)
next
  case (Enrolled key pub)
  then show ?thesis using inv_begin [OF inv, of key "Some pub"] ok by (auto simp: setUnlocked_begin_def intro!: inv_await) (simp add: accepted_def)
next
  case (Load_canary key)
  then show ?thesis using inv by (auto simp: truthy_def split: option.splits intro!: inv_await inv_reply)
next
  case (Check_canary key canary)
  then have "checkCanary cr canary key \<Longrightarrow> accepted cr s key" using ok by (auto simp: accepted_def)
  then show ?thesis using inv inv_begin [OF inv, of key "authPublicKeyHex s"] unfolding Check_canary
    by (auto intro!: inv_await inv_reply) (simp add: setUnlocked_begin_def)
next
  case (Derive_encryption key)
  then show ?thesis using ok inv_end [OF inv, of key] by (auto intro!: inv_reply)
next
  case (Derived n purpose)
  then have a: "accepted cr s (fst (derivations s ! n))" using ok inv_parts(7) [OF inv] by simp
  then show ?thesis using inv_memo [OF inv a] unfolding Derived by (auto simp: Let_def intro!: inv_reply)
next
  case (Load_public_key check)
  then show ?thesis using inv_pub [OF inv] by (auto simp: with_public_key_def intro!: inv_reply split: option.splits)
qed

lemma inv_derive: "mk_inv cr s \<Longrightarrow> accepted cr s k \<Longrightarrow>
    mk_inv cr (s\<lparr>derivations := derivations s @ [(k, p)], derivingKeys := (derivingKeys s)(p \<mapsto> length (derivations s))\<rparr>)"
  by (rule mk_invI [of cr s]) (auto simp: grows_def canary_honest_def dest: inv_parts split: if_splits)

lemma inv_getDerivedKey:
  assumes inv: "mk_inv cr s"
  shows "mk_inv cr (getDerivedKey c p s)"
proof (cases "derivedKeys s p")
  case None
  show ?thesis
  proof (cases "truthy (unlockKeyHex s)")
    case (Some k)
    then have "unlockKeyHex s = Some k" by (auto simp: truthy_def split: option.splits if_splits)
    then have a: "accepted cr s k" by (rule inv_parts(6) [OF inv])
    show ?thesis
    proof (cases "derivingKeys s p")
      case None
      with \<open>derivedKeys s p = None\<close> Some show ?thesis using inv_derive [OF inv a, of p] by (simp add: getDerivedKey_def Let_def inv_await)
    next
      case (Some n)
      with \<open>derivedKeys s p = None\<close> \<open>truthy (unlockKeyHex s) = Some k\<close> show ?thesis
        using inv_parts(8) [OF inv Some] inv by (simp add: getDerivedKey_def inv_await)
    qed
  qed (use None inv in \<open>simp add: getDerivedKey_def inv_reply\<close>)
next
  case (Some key)
  then show ?thesis using inv_parts(9) [OF inv Some] inv by (simp add: getDerivedKey_def inv_reply)
qed

lemma inv_step: "crypto_laws cr \<Longrightarrow> mk_inv cr s \<Longrightarrow> mk_step cr s t \<Longrightarrow> mk_inv cr t"
proof -
  assume laws: "crypto_laws cr" and inv: "mk_inv cr s" and step: "mk_step cr s t"
  from step inv show ?thesis
  proof cases
    case (step_setup c k pub)
    then show ?thesis using inv by (auto simp: setup_call_def intro!: inv_reply inv_await)
  next
    case (step_unlock c k)
    then show ?thesis using inv by (auto simp: unlock_def intro!: inv_await)
  next
    case (step_derived c p)
    then show ?thesis using inv_getDerivedKey [OF inv] by simp
  next
    case (step_verify c check)
    then show ?thesis using inv by (auto simp: verifySignature_def with_public_key_def split: option.splits intro!: inv_reply inv_await)
  next
    case (step_callback cb)
    show ?thesis unfolding step_callback using inv_parts [OF inv]
      by (intro mk_invI [OF inv]) (auto simp: onUnlock_def Let_def grows_def canary_honest_def split: if_splits)
  next
    case (step_resume c k iv)
    have "grows s (s\<lparr>awaiting := remove1 (c, k) (awaiting s)\<rparr>)" by (simp add: grows_def)
    with inv_parts(5) [OF inv step_resume(2)] have "continuation_ok cr (s\<lparr>awaiting := remove1 (c, k) (awaiting s)\<rparr>) k" by (rule continuation_grows [rotated])
    then show ?thesis unfolding step_resume by (intro inv_resume laws inv_remove inv)
  next
    case (step_settled n)
    show ?thesis unfolding step_settled using inv_parts [OF inv]
      by (intro mk_invI [OF inv]) (auto simp: derivation_settled_def grows_def canary_honest_def split: if_splits)
  qed
qed

lemma inv_setUnlocked: "mk_inv cr s \<Longrightarrow> accepted cr s k \<Longrightarrow> mk_inv cr (setUnlocked cr k s)"
  using inv_begin [of cr s k "authPublicKeyHex s"] by (simp add: setUnlocked_def inv_end) (simp add: inv_end setUnlocked_begin_def accepted_def)

lemma inv_ensure: "mk_inv cr s \<Longrightarrow> mk_inv cr (ensureAuthPublicKey p s) \<and> accepted cr (ensureAuthPublicKey p s) k = accepted cr s k"
proof -
  assume inv: "mk_inv cr s"
  have "mk_inv cr (s\<lparr>auth_public_key := a, authPublicKeyHex := b\<rparr>)" for a b
    using inv_parts [OF inv] by (intro mk_invI [OF inv]) (auto simp: grows_def canary_honest_def)
  then show ?thesis using inv_pub [OF inv] by (simp add: ensureAuthPublicKey_def Let_def accepted_def)
qed

lemma inv_new: "(\<And>c. canary = Some c \<Longrightarrow> \<exists>iv k. c = sealed_canary cr iv k) \<Longrightarrow> mk_inv cr (new_manager canary pub)"
  by (auto simp: mk_inv_def new_manager_def canary_honest_def)

lemma inv_initialize:
  assumes laws: "crypto_laws cr" and inv: "mk_inv cr s" and new: "mk_state s = Unset" "held_key s = None"
    and canary: "truthy (master_key_canary s) = master_key_canary s"
  shows "mk_inv cr (initialize cr iv k pub s)"
proof (cases "master_key_canary s")
  case None
  have enrol: "mk_inv cr t \<and> accepted cr t k'" if "enrol cr iv k' p s = (True, t)" for k' p t using inv_enrol [OF inv that laws] by simp
  have store: "mk_inv cr (storeCanary cr iv k' s) \<and> accepted cr (storeCanary cr iv k' s) k'" for k'
  proof -
    have "mk_inv cr (s\<lparr>master_key_canary := Some (sealed_canary cr iv k')\<rparr>)"
      using inv_parts [OF inv] None by (intro mk_invI [OF inv]) (auto simp: grows_def canary_honest_def)
    then show ?thesis using accepts_own [OF laws] by (simp add: storeCanary_def accepted_def)
  qed
  have unset: "mk_inv cr (s\<lparr>mk_state := Unset\<rparr>)" using inv_parts [OF inv] by (intro mk_invI [OF inv]) (auto simp: grows_def canary_honest_def)
  show ?thesis using None canary new store enrol unset
    by (auto simp: initialize_def enrol_def truthy_def split: option.splits if_splits intro!: inv_setUnlocked inv_pub) 
next
  case (Some c)
  have locked: "mk_inv cr (s\<lparr>mk_state := Locked\<rparr>)" using inv_parts [OF inv] Some by (intro mk_invI [OF inv]) (auto simp: grows_def canary_honest_def)
  have "accepted cr s k'" if "checkCanary cr c k'" for k' using that Some by (simp add: accepted_def)
  then show ?thesis using Some canary locked inv inv_ensure [OF inv]
    by (auto simp: initialize_def split: option.splits intro!: inv_setUnlocked)
qed

lemma new_manager_sel [simp]:
  "mk_state (new_manager canary pub) = Unset" "held_key (new_manager canary pub) = None" "master_key_canary (new_manager canary pub) = canary"
  "unlockCallbacks (new_manager canary pub) = []" "fired (new_manager canary pub) = []" "awaiting (new_manager canary pub) = []"
  "authPublicKeyHex (new_manager canary pub) = None" "auth_public_key (new_manager canary pub) = pub"
  by (simp_all add: new_manager_def)

lemma inv_boot: "crypto_laws cr \<Longrightarrow> booted cr s \<Longrightarrow> mk_inv cr s"
  unfolding booted_def by (auto intro!: inv_initialize inv_new simp: truthy_def split: option.splits)

interpretation master_key: inductive_invariant "booted cr" "\<lambda>s t. crypto_laws cr \<and> mk_step cr s t" "\<lambda>s. crypto_laws cr \<longrightarrow> mk_inv cr s" for cr
  by unfold_locales (auto intro: inv_boot inv_step)

lemma reach_laws: "crypto_laws cr \<Longrightarrow> reach (booted cr) (mk_step cr) s \<Longrightarrow> reach (booted cr) (\<lambda>s t. crypto_laws cr \<and> mk_step cr s t) s"
  by (rotate_tac, induction rule: reach.induct) (auto intro: reach.intros)

lemma reach_mk_inv: "crypto_laws cr \<Longrightarrow> reach (booted cr) (mk_step cr) s \<Longrightarrow> mk_inv cr s"
  using master_key.reach_inv [OF reach_laws] by blast

text \<open>
  (C9) One key for the life of the database. In every state that any interleaving of enrolments, unlocks, derivations and signature checks
  reaches, there is one master key such that the key held in memory, the encryption key and every key ever handed out for a
  purpose are the ones derived from it, and an unlocked instance holds it. A derivation that was under way when another unlock cleared
  the cache still writes into it afterwards; it cannot be stale, because an unlock is only accepted for the key the canary was sealed with.
\<close>

theorem one_key_for_all:
  assumes "crypto_laws cr" "reach (booted cr) (mk_step cr) s"
  shows "\<exists>k. (unlockKeyHex s = None \<or> unlockKeyHex s = Some k)
    \<and> (held_key s = None \<or> held_key s = Some (deriveKey cr k (cps ''encryption'')))
    \<and> (\<forall>p key. derivedKeys s p = Some key \<longrightarrow> key = deriveKey cr k p)
    \<and> (\<forall>c p key. (c, Key_for p key) \<in> set (replies s) \<longrightarrow> key = deriveKey cr k p)
    \<and> (mk_state s = Unlocked \<longrightarrow> unlockKeyHex s = Some k \<and> held_key s \<noteq> None)"
proof -
  have inv: "mk_inv cr s" by (rule reach_mk_inv [OF assms])
  define k where "k = (SOME k. accepted cr s k)"
  have k: "k' = k" if "accepted cr s k'" for k'
    using that someI [of "accepted cr s" k'] accepted_unique [OF assms(1) inv_parts(1) [OF inv]] unfolding k_def by blast
  have a: "key = deriveKey cr k p" if "(c, Key_for p key) \<in> set (replies s)" for c p key
  proof -
    have "reply_ok cr s (Key_for p key)" using inv that unfolding mk_inv_def by blast
    then show ?thesis using k by auto
  qed
  have b: "held_key s = None \<or> held_key s = Some (deriveKey cr k (cps ''encryption''))" using inv_parts(10) [OF inv] k by (cases "held_key s") auto
  have d: "key = deriveKey cr k p" if "derivedKeys s p = Some key" for p key using inv_parts(9) [OF inv that] k by auto
  have e: "unlockKeyHex s = None \<or> unlockKeyHex s = Some k" using inv_parts(6) [OF inv] k by (metis option.exhaust)
  have "mk_state s = Unlocked \<longrightarrow> unlockKeyHex s = Some k \<and> held_key s \<noteq> None" using e inv_parts(2,3) [OF inv] by metis
  then show ?thesis using e b d a by (intro exI [of _ k] conjI allI impI) simp_all
qed

lemma step_keeps_public_key: "mk_step cr s t \<Longrightarrow> master_key_canary s \<noteq> None \<Longrightarrow> auth_public_key t = auth_public_key s"
proof (induction rule: mk_step.induct)
  case (step_resume c k s iv)
  then show ?case by (cases k) (auto simp: mk_defs Let_def split: option.splits)
qed (auto simp: mk_defs Let_def split: option.splits)

lemma steps_keep_enrolment:
  "(mk_step cr)\<^sup>*\<^sup>* s t \<Longrightarrow> master_key_canary s = Some c \<Longrightarrow> master_key_canary t = Some c \<and> auth_public_key t = auth_public_key s"
  by (induction rule: rtranclp_induct) (auto dest: step_keeps_canary step_keeps_public_key)

text \<open>
  (C32) An enrolment is never replaced. Once a canary is stored, no sequence of calls in any interleaving changes it or the enrolled public
  key, whatever state the process believes itself to be in; a setup that was already under way is answered with a refusal and keeps
  nothing of what it would have written.
\<close>

theorem enrolment_never_replaced:
  assumes "(mk_step cr)\<^sup>*\<^sup>* s t" "master_key_canary s = Some canary"
  shows "master_key_canary t = Some canary \<and> auth_public_key t = auth_public_key s
    \<and> resume cr iv c (Enrol k pub) t = reply_to c (Answer False) t"
  using steps_keep_enrolment [OF assms] by (simp add: enrol_def)

section \<open>Callbacks\<close>

definition callbacks_ok :: "manager \<Rightarrow> bool" where
  "callbacks_ok s \<longleftrightarrow> fired s = (if mk_state s = Unlocked then unlockCallbacks s else [])"

lemma callbacks_step: "callbacks_ok s \<Longrightarrow> mk_step cr s t \<Longrightarrow> callbacks_ok t"
proof -
  assume ok: "callbacks_ok s" and "mk_step cr s t"
  from this(2) ok show ?thesis
  proof (induction rule: mk_step.induct)
    case (step_resume c k s iv)
    then show ?case by (cases k) (auto simp: callbacks_ok_def mk_defs Let_def split: option.splits if_splits)
  qed (auto simp: callbacks_ok_def mk_defs Let_def split: option.splits if_splits)
qed

lemma callbacks_boot: "booted cr s \<Longrightarrow> callbacks_ok s"
  unfolding booted_def initialize_def callbacks_ok_def
  by (auto simp: setUnlocked_def mk_defs Let_def storeCanary_def ensureAuthPublicKey_def split: option.splits)

interpretation callbacks: inductive_invariant "booted cr" "mk_step cr" callbacks_ok for cr
  by unfold_locales (auto intro: callbacks_boot callbacks_step)

text \<open>
  (Lemma) Whoever asks to be told of the unlock is told exactly once, in the order of asking: at the unlock or, registering later, at once. An
  unlock of an instance that is already unlocked tells no one again.
\<close>

theorem unlock_told_once:
  assumes "reach (booted cr) (mk_step cr) s"
  shows "fired s = (if mk_state s = Unlocked then unlockCallbacks s else [])"
  using callbacks.reach_inv [OF assms] by (simp add: callbacks_ok_def)

section \<open>The handover\<close>

lemma messages [simp]:
  "isUnlockKeyMessage (unlockKeyMessage k) = Some k" "isUnlockKeyMessage unlockKeyRequest = None" "isUnlockKeyRequest unlockKeyRequest"
  by (simp_all add: isUnlockKeyMessage_def isUnlockKeyRequest_def unlockKeyMessage_def unlockKeyRequest_def is_object_def member_of_def
      UNLOCK_KEY_MESSAGE_TYPE_def UNLOCK_KEY_REQUEST_TYPE_def)

lemma locked_boot: "truthy canary = Some c \<Longrightarrow> initialize cr iv None pub (new_manager canary pk) = (new_manager canary pk)\<lparr>mk_state := Locked\<rparr>"
  by (simp add: initialize_def truthy_def split: option.splits)

lemma three: "(3 :: nat) = Suc (Suc (Suc 0))"
  by simp

lemma run_unlock:
  assumes "awaiting s = []" "mk_state s = Locked" "master_key_canary s = Some canary" "canary \<noteq> []"
  shows "run_call 3 cr iv c (unlock c k s) =
     (if checkCanary cr canary k then reply_to c (Answer True) (setUnlocked cr k s) else reply_to c (Answer False) s)"
  using assms by (simp add: three unlock_def await_def truthy_def setUnlocked_def) (auto simp: mk_defs Let_def)

text \<open>Three steps are as many as a call ever awaits: run alone, each is answered.\<close>

lemma calls_answered:
  "\<exists>b. map_of (replies (run_call 3 cr iv c (setup_call c k pub s))) c = Some (Answer b)"
  "\<exists>b. map_of (replies (run_call 3 cr iv c (unlock c k s))) c = Some (Answer b)"
  "\<exists>b. map_of (replies (run_call 1 cr iv c (verifySignature cr c (Some (msg, sig)) s))) c = Some (Answer b)"
  if "map_of (awaiting s) c = None"
  using that by (auto simp: three mk_defs Let_def with_public_key_def split: option.splits)

text \<open>
  (Lemma) An update carries the key over. A worker that starts unlocked gives its key to the supervisor; the worker that replaces it boots
  locked on the same database, asks, and is answered with that key. It ends unlocked with the encryption key of before if the canary
  takes the key, and otherwise stays locked: a stale key changes nothing but the reply.
\<close>

theorem update_restores_unlock:
  assumes old: "mk_state old = Unlocked" "unlockKeyHex old = Some k" "k \<noteq> []"
    and db: "master_key_canary old = Some canary" "canary \<noteq> []"
    and push: "setupWorkerUnlockHandoff cb old = (old', [sent], listens)" "handleMessage sent store = (store', quiet)"
    and boot: "setupWorkerUnlockHandoff cb (initialize cr iv None None (new_manager (Some canary) pub)) = (s, [asked], listens')"
    and reply: "handleMessage asked store' = (store'', [message])"
    and run: "t = run_call 3 cr iv c (worker_message c message s)"
  shows "store'' = Some k \<and> listens' \<and> master_key_canary t = Some canary
    \<and> (if checkCanary cr canary k
       then mk_state t = Unlocked \<and> unlockKeyHex t = Some k \<and> held_key t = Some (deriveKey cr k (cps ''encryption'')) \<and> fired t = [cb]
       else mk_state t = Locked \<and> unlockKeyHex t = None \<and> held_key t = None \<and> fired t = [])"
proof -
  have "sent = unlockKeyMessage k" using push(1) old by (simp add: setupWorkerUnlockHandoff_def pushed_key_def truthy_def onUnlock_def Let_def)
  then have store: "store' = Some k" using push(2) by (simp add: handleMessage_def)
  have locked: "initialize cr iv None None (new_manager (Some canary) pub) = (new_manager (Some canary) pub)\<lparr>mk_state := Locked\<rparr>"
    using db(2) by (intro locked_boot [of _ canary]) (simp add: truthy_def)
  have s: "s = (new_manager (Some canary) pub)\<lparr>mk_state := Locked, unlockCallbacks := [cb]\<rparr> \<and> asked = unlockKeyRequest \<and> listens'"
    using boot unfolding locked by (auto simp: setupWorkerUnlockHandoff_def onUnlock_def Let_def)
  then have msg: "message = unlockKeyMessage k \<and> store'' = Some k" using reply store old(3) by (auto simp: handleMessage_def truthy_def)
  have "t = (if checkCanary cr canary k then reply_to c (Answer True) (setUnlocked cr k s) else reply_to c (Answer False) s)"
    unfolding run using s msg db(2) by (simp add: worker_message_def run_unlock)
  then show ?thesis using s msg by (auto simp: mk_defs setUnlocked_def Let_def new_manager_def)
qed

section \<open>Witnesses\<close>

text \<open>Sealing by writing the key before the text, and a derivation that spells the master key out.\<close>

definition spelled :: "utext \<Rightarrow> bytes" where
  "spelled k = concat (map (\<lambda>n. replicate n 1 @ [0]) k)"

definition demo_crypto :: crypto where
  "demo_crypto = \<lparr>deriveKey = (\<lambda>k p. spelled k), seal = (\<lambda>iv t key. length key # map unat key @ t),
     unseal = (\<lambda>c key. if take (Suc (length key)) c = length key # map unat key then Some (drop (Suc (length key)) c) else None),
     ed25519 = (\<lambda>sig msg pub. sig = pub)\<rparr>"

lemma unary_cut: "replicate m (1 :: byte) @ 0 # r = replicate n 1 @ 0 # s \<Longrightarrow> m = n \<and> r = s"
proof (induction m arbitrary: n)
  case 0
  then show ?case by (cases n) auto
next
  case (Suc m)
  then show ?case by (cases n) auto
qed

lemma spelled_inj: "spelled k = spelled k' \<Longrightarrow> k = k'"
proof (induction k arbitrary: k')
  case Nil
  then show ?case by (cases k') (auto simp: spelled_def)
next
  case (Cons n k)
  from Cons.prems obtain n' j where k': "k' = n' # j" by (cases k') (auto simp: spelled_def)
  have "n = n' \<and> spelled k = spelled j" using Cons.prems unary_cut [of n "spelled k" n' "spelled j"] unfolding k' by (simp add: spelled_def)
  then show ?case using Cons.IH k' by blast
qed

lemma demo_laws: "crypto_laws demo_crypto"
proof -
  have "key' = key" if "take (Suc (length key')) (length key # map unat key @ t) = length key' # map unat key'" for key key' :: bytes and t
    using that by (auto dest!: map_injective [OF _ inj_onI, rotated])
  then show ?thesis unfolding crypto_laws_def by (auto simp: demo_crypto_def dest: spelled_inj split: if_splits)
qed

lemma reach_run_call: "reach I (mk_step cr) s \<Longrightarrow> reach I (mk_step cr) (run_call n cr iv c s)"
proof (induction n arbitrary: s)
  case (Suc n)
  show ?case
  proof (cases "map_of (awaiting s) c")
    case (Some k)
    then have "mk_step cr s (resume cr iv c k (s\<lparr>awaiting := remove1 (c, k) (awaiting s)\<rparr>))" by (intro step_resume map_of_SomeD)
    then show ?thesis using Suc Some by (auto intro: reach_step)
  qed (use Suc in simp)
qed simp

definition demo_fresh :: manager where
  "demo_fresh = initialize demo_crypto 0 None None (new_manager None None)"

definition demo_enrolled :: manager where
  "demo_enrolled = run_call 3 demo_crypto 0 1 (setup_call 1 (cps ''a'') (cps ''ff'') demo_fresh)"

definition demo_jwt :: manager where
  "demo_jwt = run_call 1 demo_crypto 0 2 (getDerivedKey 2 (cps ''jwt'') demo_enrolled)"

lemma demo_reach: "reach (booted demo_crypto) (mk_step demo_crypto) demo_fresh" "reach (booted demo_crypto) (mk_step demo_crypto) demo_enrolled"
  "reach (booted demo_crypto) (mk_step demo_crypto) demo_jwt"
proof -
  show f: "reach (booted demo_crypto) (mk_step demo_crypto) demo_fresh"
    unfolding demo_fresh_def booted_def by (intro reach_init exI [of _ None]) (auto simp: booted_def)
  show e: "reach (booted demo_crypto) (mk_step demo_crypto) demo_enrolled"
    unfolding demo_enrolled_def by (intro reach_run_call reach_step [OF f] step_setup)
  show "reach (booted demo_crypto) (mk_step demo_crypto) demo_jwt"
    unfolding demo_jwt_def by (intro reach_run_call reach_step [OF e] step_derived)
qed

lemmas mk_demo_defs = demo_jwt_def demo_enrolled_def demo_fresh_def initialize_def new_manager_def truthy_def mk_defs numeral_3_eq_3
  demo_crypto_def sealed_canary_def CANARY_PLAINTEXT_def CANARY_PURPOSE_def

lemma demo_values: "mk_state demo_jwt = Unlocked" "replies demo_jwt = [(2, Key_for (cps ''jwt'') (spelled (cps ''a''))), (1, Answer True)]"
  "mk_state demo_enrolled = Unlocked" "unlockKeyHex demo_enrolled = Some (cps ''a'')" "master_key_canary demo_enrolled \<noteq> None"
  by (simp_all add: mk_demo_defs Let_def)

theorem one_key_for_all_witness:
  "mk_state demo_jwt = Unlocked \<and> (\<exists>k. unlockKeyHex demo_jwt = Some k \<and> spelled (cps ''a'') = deriveKey demo_crypto k (cps ''jwt''))"
  using one_key_for_all [OF demo_laws demo_reach(3)] demo_values(1,2) by fastforce

theorem enrolment_never_replaced_witness:
  "master_key_canary (unlock 3 (cps ''b'') demo_enrolled) = master_key_canary demo_enrolled
   \<and> resume demo_crypto 7 4 (Enrol (cps ''b'') (cps ''00'')) (unlock 3 (cps ''b'') demo_enrolled) =
       reply_to 4 (Answer False) (unlock 3 (cps ''b'') demo_enrolled)"
proof -
  obtain canary where c: "master_key_canary demo_enrolled = Some canary" using demo_values(5) by blast
  have "(mk_step demo_crypto)\<^sup>*\<^sup>* demo_enrolled (unlock 3 (cps ''b'') demo_enrolled)" by (intro r_into_rtranclp step_unlock)
  from enrolment_never_replaced [OF this c, of 7 4 "cps ''b''" "cps ''00''"] c show ?thesis by simp
qed

theorem unlock_told_once_witness: "fired (onUnlock 9 demo_enrolled) = unlockCallbacks (onUnlock 9 demo_enrolled)"
  using unlock_told_once [OF reach_step [OF demo_reach(2) step_callback [of demo_crypto demo_enrolled 9]]] demo_values(3)
  by (simp add: onUnlock_def)

lemma demo_handover: "mk_state demo_enrolled = Unlocked" "unlockKeyHex demo_enrolled = Some (cps ''a'')"
  "master_key_canary demo_enrolled = Some (sealed_canary demo_crypto 0 (cps ''a''))" "sealed_canary demo_crypto 0 (cps ''a'') \<noteq> []"
  by (simp_all add: mk_demo_defs Let_def)

theorem update_restores_unlock_witness:
  "\<exists>t. mk_state t = Unlocked \<and> unlockKeyHex t = Some (cps ''a'') \<and> fired t = [5]
     \<and> t = run_call 3 demo_crypto 0 6 (worker_message 6 (unlockKeyMessage (cps ''a''))
         (onUnlock 5 (initialize demo_crypto 0 None None (new_manager (master_key_canary demo_enrolled) None))))"
proof -
  let ?canary = "sealed_canary demo_crypto 0 (cps ''a'')"
  let ?boot = "initialize demo_crypto 0 None None (new_manager (Some ?canary) None)"
  have boot: "mk_state ?boot = Locked" using demo_handover(4) by (subst locked_boot [of _ ?canary]) (simp_all add: truthy_def)
  have p: "setupWorkerUnlockHandoff 5 demo_enrolled = (onUnlock 5 demo_enrolled, [unlockKeyMessage (cps ''a'')], False)"
    using demo_handover by (simp add: setupWorkerUnlockHandoff_def pushed_key_def truthy_def onUnlock_def Let_def)
  have b: "setupWorkerUnlockHandoff 5 ?boot = (onUnlock 5 ?boot, [unlockKeyRequest], True)"
    using boot by (simp add: setupWorkerUnlockHandoff_def onUnlock_def Let_def)
  have h: "handleMessage (unlockKeyMessage (cps ''a'')) None = (Some (cps ''a''), [])" by (simp add: handleMessage_def)
  have r: "handleMessage unlockKeyRequest (Some (cps ''a'')) = (Some (cps ''a''), [unlockKeyMessage (cps ''a'')])"
    by (simp add: handleMessage_def truthy_def)
  have "cps ''a'' \<noteq> []" "checkCanary demo_crypto ?canary (cps ''a'')" by (simp_all add: accepts_own [OF demo_laws])
  then show ?thesis
    using update_restores_unlock [OF demo_handover(1,2) _ demo_handover(3,4) p h b r refl, of 6] unfolding demo_handover(3)
    by (intro exI [of _ "run_call 3 demo_crypto 0 6 (worker_message 6 (unlockKeyMessage (cps ''a'')) (onUnlock 5 ?boot))"]) simp
qed
end
