(* ===== verification/Auth_Tokens.thy ===== *)
theory Auth_Tokens
  imports Master_Key
begin

text \<open>
  Who a request acts as: \<open>middleware/auth.ts\<close> (tokens, the gate in front of the REST API, team access), \<open>services/api-keys.ts\<close> with
  its routes, and the gate of the MCP endpoint (\<open>mcp/server.ts\<close>, \<open>mcp/onboarding.ts\<close>).

  Signing and verifying a JWT (\<open>hono/jwt\<close>) and SHA-256 are arguments; what is relied on of the former is \<open>jwt_laws\<close>. The claims of a
  token are the JSON object it was signed over; the casts of claims to text are unchecked in the code and are read as text here, which is
  what every token minted here carries. A key stands for the base64 text of it.
\<close>

declare cps_Cons [simp del]

section \<open>Principals and tables\<close>

record agent_auth =
  memberId :: utext
  teamId :: utext
  runId :: "utext option"
  taskId :: "utext option"
  projectId :: utext
  crossProject :: bool
  sessionId :: "utext option"
  crossTeam :: bool

datatype AuthInfo = Admin (userId: utext) (isSuperuser: bool) | ApiKey (apiKeyId: utext) | Agent agent_auth

datatype ApiKeyStatus = Pending | Approved

record api_key =
  ak_id :: utext
  ak_name :: utext
  client_info :: json
  prefix :: utext
  key_hash :: utext
  ak_status :: ApiKeyStatus
  approved_at :: "nat option"
  approved_by_user_id :: "utext option"
  last_used_at :: "nat option"

datatype ChatSessionStatus = Chat_starting | Chat_running | Chat_crashed | Chat_stopped | Chat_suspended

record chat_session =
  cs_id :: utext
  cs_member :: utext
  cs_team :: utext
  cs_project :: utext
  cs_status :: ChatSessionStatus

datatype RunStatus = Run_queued | Run_running | Run_succeeded | Run_failed | Run_cancelled | Run_timed_out

record heartbeat_run =
  hb_id :: utext
  hb_member :: utext
  hb_team :: utext
  hb_task :: "utext option"
  hb_status :: RunStatus

record user =
  u_id :: utext
  is_superuser :: bool
  password_salt :: "utext option"
  password_public_key :: "utext option"

record membership =
  m_user :: utext
  m_team :: utext

datatype AuditAction = Created | Requested | Updated | Deleted

record project =
  p_id :: utext
  p_slug :: utext
  p_team :: utext
  p_is_internal :: bool

record auth_db =
  api_keys :: "api_key list"
  chat_sessions :: "chat_session list"
  heartbeat_runs :: "heartbeat_run list"
  users :: "user list"
  member_users :: "membership list"
  teams :: "(utext \<times> utext) list"
  projects :: "project list"
  audit :: "(AuditAction \<times> utext) list"
  apiKeyTouchedAt :: "utext \<rightharpoonup> nat"

record jwt =
  jwt_sign :: "json \<Rightarrow> bytes \<Rightarrow> utext"
  jwt_verify :: "nat \<Rightarrow> utext \<Rightarrow> bytes \<Rightarrow> json option"
  sha256 :: "utext \<Rightarrow> utext"

section \<open>Tokens that are minted\<close>

definition PASSWORD_SETUP_SCOPE :: utext where
  "PASSWORD_SETUP_SCOPE = cps ''password_setup''"

definition AGENT_JWT_TTL_SECONDS :: nat where
  "AGENT_JWT_TTL_SECONDS = 60 * 60 * 4"

definition CEO_SESSION_JWT_TTL_SECONDS :: nat where
  "CEO_SESSION_JWT_TTL_SECONDS = 60 * 60 * 24 * 30"

definition WORKER_SESSION_JWT_TTL_SECONDS :: nat where
  "WORKER_SESSION_JWT_TTL_SECONDS = 60 * 60 * 24"

text \<open>\<open>getJwtKey\<close>, run to its end: the key it answers with, nothing where it raises.\<close>

definition jwt_key :: "crypto \<Rightarrow> manager \<Rightarrow> bytes option" where
  "jwt_key cr mgr = (case derivedKeys mgr (cps ''jwt'') of
     Some key \<Rightarrow> Some key
   | None \<Rightarrow> map_option (\<lambda>k. deriveKey cr k (cps ''jwt'')) (truthy (unlockKeyHex mgr)))"

definition timed :: "(utext \<times> json) list \<Rightarrow> nat \<Rightarrow> nat \<Rightarrow> json" where
  "timed claims now ttl = Obj (claims @ [(cps ''iat'', Num (of_nat now)), (cps ''exp'', Num (of_nat (now + ttl)))])"

definition minted :: "jwt \<Rightarrow> crypto \<Rightarrow> manager \<Rightarrow> json \<Rightarrow> utext option" where
  "minted J cr mgr claims = map_option (jwt_sign J claims) (jwt_key cr mgr)"

definition admin_claims :: "utext \<Rightarrow> nat \<Rightarrow> json" where
  "admin_claims uid now = timed [(cps ''user_id'', Str uid)] now (86400 * 7)"

definition signAdminJwt :: "jwt \<Rightarrow> crypto \<Rightarrow> manager \<Rightarrow> nat \<Rightarrow> utext \<Rightarrow> utext option" where
  "signAdminJwt J cr mgr now uid = minted J cr mgr (admin_claims uid (now div 1000))"

definition setup_claims :: "utext \<Rightarrow> nat \<Rightarrow> json" where
  "setup_claims uid now = timed [(cps ''user_id'', Str uid), (cps ''scope'', Str PASSWORD_SETUP_SCOPE)] now 600"

definition signPasswordSetupToken :: "jwt \<Rightarrow> crypto \<Rightarrow> manager \<Rightarrow> nat \<Rightarrow> utext \<Rightarrow> utext option" where
  "signPasswordSetupToken J cr mgr now uid = minted J cr mgr (setup_claims uid (now div 1000))"

definition agent_claims :: "utext \<Rightarrow> utext \<Rightarrow> utext \<Rightarrow> utext \<Rightarrow> bool \<Rightarrow> nat \<Rightarrow> json" where
  "agent_claims member team run project cross now =
     timed [(cps ''member_id'', Str member), (cps ''team_id'', Str team), (cps ''run_id'', Str run), (cps ''project_id'', Str project),
       (cps ''cross_project'', Bool cross)] now AGENT_JWT_TTL_SECONDS"

definition signAgentJwt :: "jwt \<Rightarrow> crypto \<Rightarrow> manager \<Rightarrow> nat \<Rightarrow> utext \<Rightarrow> utext \<Rightarrow> utext \<Rightarrow> utext \<Rightarrow> bool \<Rightarrow> utext option" where
  "signAgentJwt J cr mgr now member team run project cross = minted J cr mgr (agent_claims member team run project cross (now div 1000))"

record ChatSessionScope =
  scope_crossProject :: bool
  scope_crossTeam :: bool
  ttlSeconds :: "nat option"

definition session_claims :: "utext \<Rightarrow> utext \<Rightarrow> utext \<Rightarrow> utext \<Rightarrow> ChatSessionScope \<Rightarrow> nat \<Rightarrow> json" where
  "session_claims member team session project sc now =
     timed [(cps ''member_id'', Str member), (cps ''team_id'', Str team), (cps ''session_id'', Str session), (cps ''project_id'', Str project),
       (cps ''cross_project'', Bool (scope_crossProject sc)), (cps ''cross_team'', Bool (scope_crossTeam sc))] now
       (case ttlSeconds sc of Some t \<Rightarrow> t | None \<Rightarrow> CEO_SESSION_JWT_TTL_SECONDS)"

definition signChatSessionJwt :: "jwt \<Rightarrow> crypto \<Rightarrow> manager \<Rightarrow> nat \<Rightarrow> utext \<Rightarrow> utext \<Rightarrow> utext \<Rightarrow> utext \<Rightarrow> ChatSessionScope \<Rightarrow> utext option" where
  "signChatSessionJwt J cr mgr now member team session project sc = minted J cr mgr (session_claims member team session project sc (now div 1000))"

section \<open>Tokens that are verified\<close>

definition json_truthy :: "json option \<Rightarrow> bool" where
  "json_truthy v = (case v of
     None \<Rightarrow> False | Some Null \<Rightarrow> False | Some (Bool b) \<Rightarrow> b | Some (Num r) \<Rightarrow> r \<noteq> 0 | Some (Str s) \<Rightarrow> s \<noteq> [] | Some _ \<Rightarrow> True)"

definition as_text :: "json option \<Rightarrow> utext" where
  "as_text v = (case v of Some (Str s) \<Rightarrow> s | _ \<Rightarrow> [])"

fun buffer_hex :: "utext \<Rightarrow> bytes" where
  "buffer_hex (a # b # rest) = (case (hex_value a, hex_value b) of
     (Some x, Some y) \<Rightarrow> of_nat (16 * x + y) # buffer_hex rest
   | _ \<Rightarrow> [])"
| "buffer_hex _ = []"

definition safeCompareHex :: "utext \<Rightarrow> utext \<Rightarrow> bool" where
  "safeCompareHex a b \<longleftrightarrow> buffer_hex a = buffer_hex b"

definition API_KEY_TOUCH_INTERVAL_MS :: nat where
  "API_KEY_TOUCH_INTERVAL_MS = 60000"

text \<open>Written at most once a minute for each key; a key never seen was touched at the epoch.\<close>

definition touchApiKeyLastUsed :: "nat \<Rightarrow> utext \<Rightarrow> auth_db \<Rightarrow> auth_db" where
  "touchApiKeyLastUsed now i db =
     (let last = (case apiKeyTouchedAt db i of Some t \<Rightarrow> t | None \<Rightarrow> 0)
      in if int now - int last < int API_KEY_TOUCH_INTERVAL_MS then db
      else db\<lparr>apiKeyTouchedAt := (apiKeyTouchedAt db)(i \<mapsto> now),
        api_keys := map (\<lambda>r. if ak_id r = i then r\<lparr>last_used_at := Some now\<rparr> else r) (api_keys db)\<rparr>)"

definition session_principal :: "json \<Rightarrow> auth_db \<Rightarrow> AuthInfo option" where
  "session_principal p db =
     (let member = as_text (member_of p (cps ''member_id'')); team = as_text (member_of p (cps ''team_id'')); session = as_text (member_of p (cps ''session_id''))
      in case find (\<lambda>r. cs_id r = session \<and> cs_member r = member \<and> cs_team r = team) (chat_sessions db) of
           Some row \<Rightarrow> if cs_status row \<noteq> Chat_starting \<and> cs_status row \<noteq> Chat_running then None
             else Some (Agent \<lparr>memberId = member, teamId = team, runId = None, taskId = None, projectId = cs_project row,
               crossProject = (member_of p (cps ''cross_project'') = Some (Bool True)), sessionId = Some session,
               crossTeam = (member_of p (cps ''cross_team'') = Some (Bool True))\<rparr>)
         | None \<Rightarrow> None)"

definition run_principal :: "json \<Rightarrow> auth_db \<Rightarrow> AuthInfo option" where
  "run_principal p db =
     (if \<not> json_truthy (member_of p (cps ''run_id'')) \<or> \<not> json_truthy (member_of p (cps ''project_id'')) then None
      else let member = as_text (member_of p (cps ''member_id'')); team = as_text (member_of p (cps ''team_id'')); run = as_text (member_of p (cps ''run_id''))
        in case find (\<lambda>r. hb_id r = run \<and> hb_member r = member \<and> hb_team r = team) (heartbeat_runs db) of
             Some row \<Rightarrow> if hb_status row \<noteq> Run_running then None
               else Some (Agent \<lparr>memberId = member, teamId = team, runId = Some run, taskId = hb_task row,
                 projectId = as_text (member_of p (cps ''project_id'')), crossProject = (member_of p (cps ''cross_project'') = Some (Bool True)),
                 sessionId = None, crossTeam = False\<rparr>)
           | None \<Rightarrow> None)"

definition superuser_row :: "auth_db \<Rightarrow> utext \<Rightarrow> bool" where
  "superuser_row db uid = (case find (\<lambda>u. u_id u = uid) (users db) of Some u \<Rightarrow> is_superuser u | None \<Rightarrow> False)"

definition principal_of :: "json \<Rightarrow> auth_db \<Rightarrow> AuthInfo option" where
  "principal_of p db =
     (if json_truthy (member_of p (cps ''member_id'')) \<and> json_truthy (member_of p (cps ''team_id'')) then
        if json_truthy (member_of p (cps ''session_id'')) then session_principal p db else run_principal p db
      else if json_truthy (member_of p (cps ''user_id'')) then
        if member_of p (cps ''scope'') = Some (Str PASSWORD_SETUP_SCOPE) then None
        else let uid = as_text (member_of p (cps ''user_id'')) in Some (Admin uid (superuser_row db uid))
      else None)"

definition verifyToken :: "jwt \<Rightarrow> crypto \<Rightarrow> nat \<Rightarrow> utext \<Rightarrow> manager \<Rightarrow> auth_db \<Rightarrow> AuthInfo option \<times> auth_db" where
  "verifyToken J cr now token mgr db =
     (if mk_state mgr \<noteq> Unlocked then (None, db)
      else if startsWith token (cps ''hezo_'') then
        (case find (\<lambda>r. prefix r = take 8 (drop 5 token)) (api_keys db) of
           None \<Rightarrow> (None, db)
         | Some row \<Rightarrow>
             if \<not> safeCompareHex (sha256 J token) (key_hash row) then (None, db)
             else if ak_status row \<noteq> Approved then (None, db)
             else (Some (ApiKey (ak_id row)), touchApiKeyLastUsed now (ak_id row) db))
      else (case jwt_key cr mgr of
          None \<Rightarrow> (None, db)
        | Some key \<Rightarrow> (case jwt_verify J (now div 1000) token key of
            None \<Rightarrow> (None, db)
          | Some p \<Rightarrow> (principal_of p db, db))))"

definition resolvePasswordMutationUserId :: "jwt \<Rightarrow> crypto \<Rightarrow> nat \<Rightarrow> utext \<Rightarrow> manager \<Rightarrow> auth_db \<Rightarrow> (utext \<times> bool) option" where
  "resolvePasswordMutationUserId J cr now token mgr db =
     (if mk_state mgr \<noteq> Unlocked then None
      else (case jwt_key cr mgr of
          None \<Rightarrow> None
        | Some key \<Rightarrow> (case jwt_verify J (now div 1000) token key of
            None \<Rightarrow> None
          | Some p \<Rightarrow>
              let scope = member_of p (cps ''scope''); uid = as_text (member_of p (cps ''user_id''))
              in if \<not> json_truthy (member_of p (cps ''user_id'')) then None
              else if json_truthy (member_of p (cps ''member_id'')) \<or> json_truthy (member_of p (cps ''session_id'')) then None
              else if scope \<noteq> None \<and> scope \<noteq> Some (Str PASSWORD_SETUP_SCOPE) then None
              else if \<not> superuser_row db uid then None
              else Some (uid, scope = Some (Str PASSWORD_SETUP_SCOPE)))))"

section \<open>The gate of the REST API\<close>

datatype gate = Next "AuthInfo option" | Refuse nat string

definition PUBLIC_PATHS :: "utext list" where
  "PUBLIC_PATHS = map cps [''/health'', ''/api/status'', ''/api/auth/setup'', ''/api/auth/challenge'', ''/api/auth/verify'',
     ''/api/auth/password-challenge'', ''/api/auth/password-verify'', ''/api/auth/sso'', ''/api/auth/sso/session'', ''/api/auth/password'', ''/'',
     ''/api/oauth/callback'', ''/api/oauth/mcp-callback'', ''/api/api-keys/register'', ''/api/api-keys/status'', ''/api/instance-settings/locale'']"

definition humanSurfaceRefusal :: "AuthInfo \<Rightarrow> string option" where
  "humanSurfaceRefusal auth = (case auth of
     ApiKey _ \<Rightarrow> Some ''API keys authenticate the MCP endpoint only; use a session token for the REST API.''
   | Agent _ \<Rightarrow> Some ''Agent run tokens authenticate the MCP endpoint and /mcp/assets only; the REST API is for people.''
   | Admin _ _ \<Rightarrow> None)"

definition bearer :: "utext option \<Rightarrow> utext option" where
  "bearer header = (case header of Some h \<Rightarrow> if startsWith h (cps ''Bearer '') then Some (drop 7 h) else None | None \<Rightarrow> None)"

definition authMiddleware :: "jwt \<Rightarrow> crypto \<Rightarrow> nat \<Rightarrow> utext \<Rightarrow> utext option \<Rightarrow> manager \<Rightarrow> auth_db \<Rightarrow> gate \<times> auth_db" where
  "authMiddleware J cr now path header mgr db =
     (if path \<in> set PUBLIC_PATHS then (Next None, db)
      else if \<not> startsWith path (cps ''/api'') then (Next None, db)
      else (case bearer header of
          None \<Rightarrow> (Refuse 401 ''UNAUTHORIZED'', db)
        | Some token \<Rightarrow>
            if mk_state mgr \<noteq> Unlocked then (Refuse 401 ''LOCKED'', db)
            else (case verifyToken J cr now token mgr db of
                (None, db') \<Rightarrow> (Refuse 401 ''UNAUTHORIZED'', db')
              | (Some auth, db') \<Rightarrow>
                  if humanSurfaceRefusal auth \<noteq> None then (Refuse 401 ''UNAUTHORIZED'', db') else (Next (Some auth), db'))))"

text \<open>The realtime socket asks the same questions of a token (\<open>validateToken\<close> of \<open>index.ts\<close>).\<close>

definition validateToken :: "jwt \<Rightarrow> crypto \<Rightarrow> nat \<Rightarrow> utext \<Rightarrow> manager \<Rightarrow> auth_db \<Rightarrow> AuthInfo option \<times> auth_db" where
  "validateToken J cr now token mgr db = (case verifyToken J cr now token mgr db of
     (Some auth, db') \<Rightarrow> (if humanSurfaceRefusal auth \<noteq> None then None else Some auth, db')
   | (None, db') \<Rightarrow> (None, db'))"

section \<open>Access to a team\<close>

definition canAuthAccessTeam :: "auth_db \<Rightarrow> AuthInfo \<Rightarrow> utext \<Rightarrow> bool" where
  "canAuthAccessTeam db auth team = (case auth of
     Agent a \<Rightarrow> if crossTeam a then True else teamId a = team
   | ApiKey _ \<Rightarrow> True
   | Admin uid su \<Rightarrow> if su then True else list_ex (\<lambda>m. m_user m = uid \<and> m_team m = team) (member_users db))"

definition assertTeamAccess :: "auth_db \<Rightarrow> AuthInfo \<Rightarrow> utext \<Rightarrow> gate option" where
  "assertTeamAccess db auth team = (if canAuthAccessTeam db auth team then None else Some (Refuse 403 ''FORBIDDEN''))"

definition uuid_shape :: "utext \<Rightarrow> bool" where
  "uuid_shape s \<longleftrightarrow> length s = 36 \<and>
     list_all (\<lambda>i. if i \<in> {8, 13, 18, 23} then s ! i = 45 else hex_value (s ! i) \<noteq> None) [0..<36]"

definition resolveProject :: "auth_db \<Rightarrow> utext \<Rightarrow> project option" where
  "resolveProject db raw =
     find (\<lambda>p. (if uuid_shape raw then p_id p = Credentials.toLowerCase raw else p_slug p = raw) \<and> p_team p \<in> set (map fst (teams db))) (projects db)"

definition requireProjectAccessMiddleware :: "auth_db \<Rightarrow> AuthInfo \<Rightarrow> utext option \<Rightarrow> gate + project" where
  "requireProjectAccessMiddleware db auth raw = (case truthy raw of
     None \<Rightarrow> Inl (Refuse 400 ''BAD_REQUEST'')
   | Some r \<Rightarrow> (case resolveProject db r of
       None \<Rightarrow> Inl (Refuse 404 ''NOT_FOUND'')
     | Some p \<Rightarrow> (case assertTeamAccess db auth (p_team p) of Some denied \<Rightarrow> Inl denied | None \<Rightarrow> Inr p)))"

definition requireTeamAccessForResource :: "auth_db \<Rightarrow> AuthInfo \<Rightarrow> utext \<Rightarrow> gate + utext" where
  "requireTeamAccessForResource db auth team = (case assertTeamAccess db auth team of Some denied \<Rightarrow> Inl denied | None \<Rightarrow> Inr team)"

definition getAccessibleTeamIds :: "auth_db \<Rightarrow> AuthInfo \<Rightarrow> utext list" where
  "getAccessibleTeamIds db auth = (case auth of
     ApiKey _ \<Rightarrow> map fst (teams db)
   | Agent a \<Rightarrow> if crossTeam a then map fst (teams db) else [teamId a]
   | Admin uid su \<Rightarrow> if su then map fst (teams db) else remdups (map m_team (filter (\<lambda>m. m_user m = uid) (member_users db))))"

definition requireSuperuser :: "AuthInfo \<Rightarrow> gate option" where
  "requireSuperuser auth = (case auth of Admin _ True \<Rightarrow> None | _ \<Rightarrow> Some (Refuse 403 ''FORBIDDEN''))"

definition isAdminEquivalent :: "AuthInfo \<Rightarrow> bool" where
  "isAdminEquivalent auth = (case auth of Admin _ su \<Rightarrow> su | ApiKey _ \<Rightarrow> True | Agent _ \<Rightarrow> False)"

definition requireAdminEquivalent :: "AuthInfo \<Rightarrow> gate option" where
  "requireAdminEquivalent auth = (if isAdminEquivalent auth then None else Some (Refuse 403 ''FORBIDDEN''))"

definition requireAdminEquivalentBearer ::
  "jwt \<Rightarrow> crypto \<Rightarrow> nat \<Rightarrow> utext option \<Rightarrow> manager \<Rightarrow> auth_db \<Rightarrow> gate option \<times> auth_db" where
  "requireAdminEquivalentBearer J cr now header mgr db = (case bearer header of
     None \<Rightarrow> (Some (Refuse 401 ''UNAUTHORIZED''), db)
   | Some token \<Rightarrow> (case verifyToken J cr now token mgr db of
       (None, db') \<Rightarrow> (Some (Refuse 401 ''UNAUTHORIZED''), db')
     | (Some auth, db') \<Rightarrow> (requireAdminEquivalent auth, db')))"

section \<open>API keys\<close>

definition hex_byte :: "byte \<Rightarrow> utext" where
  "hex_byte b = map (\<lambda>d. if d < 10 then 48 + d else 87 + d) [unat b div 16, unat b mod 16]"

definition mintToken :: "jwt \<Rightarrow> bytes \<Rightarrow> utext \<times> utext \<times> utext" where
  "mintToken J rnd = (let token = cps ''hezo_'' @ concat (map hex_byte rnd) in (token, take 8 (drop 5 token), sha256 J token))"

text \<open>An insert raises when the prefix is taken; the identifier is the database's.\<close>

definition insert_key :: "api_key \<Rightarrow> auth_db \<Rightarrow> auth_db option" where
  "insert_key row db = (if prefix row \<in> set (map prefix (api_keys db)) then None else Some (db\<lparr>api_keys := api_keys db @ [row]\<rparr>))"

definition tryAudit :: "AuditAction \<Rightarrow> utext \<Rightarrow> auth_db \<Rightarrow> auth_db" where
  "tryAudit action i db = db\<lparr>audit := audit db @ [(action, i)]\<rparr>"

definition createApiKey :: "jwt \<Rightarrow> nat \<Rightarrow> bytes \<Rightarrow> utext \<Rightarrow> utext \<Rightarrow> utext \<Rightarrow> auth_db \<Rightarrow> (utext \<times> auth_db) option" where
  "createApiKey J now rnd i name uid db = (case mintToken J rnd of (token, pre, h) \<Rightarrow>
     map_option (\<lambda>db'. (token, tryAudit Created i db'))
       (insert_key \<lparr>ak_id = i, ak_name = trim name, client_info = Obj [], prefix = pre, key_hash = h, ak_status = Approved, approved_at = Some now,
          approved_by_user_id = Some uid, last_used_at = None\<rparr> db))"

definition registerApiKey :: "jwt \<Rightarrow> bytes \<Rightarrow> utext \<Rightarrow> utext \<Rightarrow> json option \<Rightarrow> auth_db \<Rightarrow> (utext \<times> auth_db) option" where
  "registerApiKey J rnd i name clientInfo db = (case mintToken J rnd of (token, pre, h) \<Rightarrow>
     map_option (\<lambda>db'. (token, tryAudit Requested i db'))
       (insert_key \<lparr>ak_id = i, ak_name = trim name, client_info = (case clientInfo of Some j \<Rightarrow> j | None \<Rightarrow> Obj []), prefix = pre, key_hash = h,
          ak_status = Pending, approved_at = None, approved_by_user_id = None, last_used_at = None\<rparr> db))"

definition getApiKeyStatusByToken :: "jwt \<Rightarrow> utext \<Rightarrow> auth_db \<Rightarrow> ApiKeyStatus option" where
  "getApiKeyStatusByToken J token db =
     (if \<not> startsWith token (cps ''hezo_'') then None
      else (case find (\<lambda>r. prefix r = take 8 (drop 5 token)) (api_keys db) of
          None \<Rightarrow> None
        | Some row \<Rightarrow> if \<not> safeCompareHex (sha256 J token) (key_hash row) then None else Some (ak_status row)))"

definition approveApiKey :: "nat \<Rightarrow> utext \<Rightarrow> utext \<Rightarrow> auth_db \<Rightarrow> bool \<times> auth_db" where
  "approveApiKey now i uid db =
     (if i \<in> set (map ak_id (api_keys db))
      then (True, tryAudit Updated i (db\<lparr>api_keys := map (\<lambda>r. if ak_id r = i
          then r\<lparr>ak_status := Approved, approved_at := Some now, approved_by_user_id := Some uid\<rparr> else r) (api_keys db)\<rparr>))
      else (False, db))"

definition deleteApiKey :: "utext \<Rightarrow> auth_db \<Rightarrow> bool \<times> auth_db" where
  "deleteApiKey i db =
     (if i \<in> set (map ak_id (api_keys db))
      then (True, tryAudit Deleted i (db\<lparr>api_keys := filter (\<lambda>r. ak_id r \<noteq> i) (api_keys db)\<rparr>))
      else (False, db))"

section \<open>Routes of API keys\<close>

datatype key_answer = Key_error nat string | Key_created utext | Key_status ApiKeyStatus | Key_listed "api_key list" | Key_done | Key_raised

definition named :: "utext option \<Rightarrow> utext option" where
  "named name = (case name of Some n \<Rightarrow> if trim n = [] then None else Some n | None \<Rightarrow> None)"

definition register_route :: "jwt \<Rightarrow> bytes \<Rightarrow> utext \<Rightarrow> utext option \<Rightarrow> json option \<Rightarrow> auth_db \<Rightarrow> key_answer \<times> auth_db" where
  "register_route J rnd i name clientInfo db = (case named name of
     None \<Rightarrow> (Key_error 400 ''INVALID_REQUEST'', db)
   | Some n \<Rightarrow> (case registerApiKey J rnd i n clientInfo db of Some (token, db') \<Rightarrow> (Key_created token, db') | None \<Rightarrow> (Key_raised, db)))"

definition status_route :: "jwt \<Rightarrow> utext option \<Rightarrow> auth_db \<Rightarrow> key_answer" where
  "status_route J header db = (case truthy (bearer header) of
     None \<Rightarrow> Key_error 401 ''UNAUTHORIZED''
   | Some token \<Rightarrow> (case getApiKeyStatusByToken J token db of None \<Rightarrow> Key_error 404 ''NOT_FOUND'' | Some st \<Rightarrow> Key_status st))"

definition listApiKeys :: "auth_db \<Rightarrow> api_key list" where
  "listApiKeys db = rev (api_keys db)"

definition list_route :: "AuthInfo \<Rightarrow> auth_db \<Rightarrow> key_answer" where
  "list_route auth db = (if requireSuperuser auth \<noteq> None then Key_error 403 ''FORBIDDEN'' else Key_listed (listApiKeys db))"

definition acting_user :: "AuthInfo \<Rightarrow> utext" where
  "acting_user auth = (case auth of Admin uid _ \<Rightarrow> uid | _ \<Rightarrow> [])"

definition create_route :: "jwt \<Rightarrow> nat \<Rightarrow> bytes \<Rightarrow> utext \<Rightarrow> AuthInfo \<Rightarrow> utext option \<Rightarrow> auth_db \<Rightarrow> key_answer \<times> auth_db" where
  "create_route J now rnd i auth name db =
     (if requireSuperuser auth \<noteq> None then (Key_error 403 ''FORBIDDEN'', db)
      else (case named name of
          None \<Rightarrow> (Key_error 400 ''INVALID_REQUEST'', db)
        | Some n \<Rightarrow> (case createApiKey J now rnd i n (acting_user auth) db of Some (token, db') \<Rightarrow> (Key_created token, db') | None \<Rightarrow> (Key_raised, db))))"

definition approve_route :: "nat \<Rightarrow> AuthInfo \<Rightarrow> utext \<Rightarrow> auth_db \<Rightarrow> key_answer \<times> auth_db" where
  "approve_route now auth i db =
     (if requireSuperuser auth \<noteq> None then (Key_error 403 ''FORBIDDEN'', db)
      else (case approveApiKey now i (acting_user auth) db of (found, db') \<Rightarrow> (if found then Key_done else Key_error 404 ''NOT_FOUND'', db')))"

definition delete_route :: "AuthInfo \<Rightarrow> utext \<Rightarrow> auth_db \<Rightarrow> key_answer \<times> auth_db" where
  "delete_route auth i db =
     (if requireSuperuser auth \<noteq> None then (Key_error 403 ''FORBIDDEN'', db)
      else (case deleteApiKey i db of (found, db') \<Rightarrow> (if found then Key_done else Key_error 404 ''NOT_FOUND'', db')))"

section \<open>The gate of the MCP endpoint\<close>

definition REGISTER_TOOL :: utext where
  "REGISTER_TOOL = cps ''register''"

definition CONNECTION_STATUS_TOOL :: utext where
  "CONNECTION_STATUS_TOOL = cps ''connection_status''"

definition ONBOARDING_TOOL_NAMES :: "utext list" where
  "ONBOARDING_TOOL_NAMES = [REGISTER_TOOL, CONNECTION_STATUS_TOOL]"

datatype mcp_answer =
    Not_initialized
  | Mcp_locked
  | Notification_taken
  | Initialize_result
  | Registered utext
  | Status_of ApiKeyStatus
  | Onboarding_error string
  | Onboarding_listed
  | Not_connected
  | Unknown_method
  | List_tools AuthInfo
  | Call_tool AuthInfo json
  | Mcp_raised

definition handleRegisterTool :: "jwt \<Rightarrow> bytes \<Rightarrow> utext \<Rightarrow> json \<Rightarrow> auth_db \<Rightarrow> mcp_answer \<times> auth_db" where
  "handleRegisterTool J rnd i args db =
     (let name = (case member_of args (cps ''name'') of Some (Str s) \<Rightarrow> trim s | _ \<Rightarrow> []);
          info = (case member_of args (cps ''client_info'') of Some v \<Rightarrow> if is_object v then Some v else None | None \<Rightarrow> None)
      in if name = [] then (Onboarding_error ''name is required'', db)
      else (case registerApiKey J rnd i name info db of Some (token, db') \<Rightarrow> (Registered token, db') | None \<Rightarrow> (Mcp_raised, db)))"

definition handleConnectionStatusTool :: "jwt \<Rightarrow> utext option \<Rightarrow> auth_db \<Rightarrow> mcp_answer" where
  "handleConnectionStatusTool J token db = (case truthy token of
     None \<Rightarrow> Onboarding_error ''No bearer token.''
   | Some t \<Rightarrow> (case getApiKeyStatusByToken J t db of None \<Rightarrow> Onboarding_error ''Unknown token'' | Some st \<Rightarrow> Status_of st))"

definition authenticateRequest :: "jwt \<Rightarrow> crypto \<Rightarrow> nat \<Rightarrow> utext option \<Rightarrow> manager \<Rightarrow> auth_db \<Rightarrow> AuthInfo option \<times> auth_db" where
  "authenticateRequest J cr now header mgr db = (case truthy (bearer header) of
     None \<Rightarrow> (None, db)
   | Some token \<Rightarrow> verifyToken J cr now token mgr db)"

definition method_is :: "json \<Rightarrow> string \<Rightarrow> bool" where
  "method_is body name \<longleftrightarrow> member_of body (cps ''method'') = Some (Str (cps name))"

definition param :: "json \<Rightarrow> string \<Rightarrow> json option" where
  "param body name = (case member_of body (cps ''params'') of Some ps \<Rightarrow> member_of ps (cps name) | None \<Rightarrow> None)"

definition handleMcpRequest ::
  "jwt \<Rightarrow> crypto \<Rightarrow> bool \<Rightarrow> nat \<Rightarrow> bytes \<Rightarrow> utext \<Rightarrow> utext option \<Rightarrow> json \<Rightarrow> manager \<Rightarrow> auth_db \<Rightarrow> mcp_answer \<times> auth_db" where
  "handleMcpRequest J cr ready now rnd i header body mgr db0 =
     (if \<not> ready then (Not_initialized, db0)
      else if mk_state mgr \<noteq> Unlocked then (Mcp_locked, db0)
      else (case authenticateRequest J cr now header mgr db0 of (auth, db) \<Rightarrow>
        if member_of body (cps ''id'') = None then (Notification_taken, db)
        else if method_is body ''initialize'' then (Initialize_result, db)
        else if method_is body ''tools/call'' \<and> (\<exists>n \<in> set ONBOARDING_TOOL_NAMES. param body ''name'' = Some (Str n)) then
          (if param body ''name'' = Some (Str REGISTER_TOOL)
           then handleRegisterTool J rnd i (case param body ''arguments'' of None \<Rightarrow> Obj [] | Some Null \<Rightarrow> Obj [] | Some a \<Rightarrow> a) db
           else (handleConnectionStatusTool J (bearer header) db, db))
        else (case auth of
            None \<Rightarrow> (if method_is body ''tools/list'' then Onboarding_listed else if method_is body ''tools/call'' then Not_connected else Unknown_method, db)
          | Some a \<Rightarrow>
              (if method_is body ''tools/list'' then List_tools a
               else if method_is body ''tools/call'' then Call_tool a (case member_of body (cps ''params'') of Some ps \<Rightarrow> ps | None \<Rightarrow> Null)
               else Unknown_method, db))))"

section \<open>What is relied on of JWTs\<close>

text \<open>A token verifies under the key it was signed with, from its issue until before its expiry, and is no API key.\<close>

definition in_time :: "nat \<Rightarrow> json \<Rightarrow> bool" where
  "in_time now p = (case (member_of p (cps ''iat''), member_of p (cps ''exp'')) of
     (Some (Num i), Some (Num e)) \<Rightarrow> i \<le> of_nat now \<and> of_nat now < e
   | _ \<Rightarrow> False)"

definition jwt_laws :: "jwt \<Rightarrow> json \<Rightarrow> bool" where
  "jwt_laws J claims \<longleftrightarrow>
     (\<forall>now key. jwt_verify J now (jwt_sign J claims key) key = (if in_time now claims then Some claims else None)) \<and>
     (\<forall>key. \<not> startsWith (jwt_sign J claims key) (cps ''hezo_''))"

section \<open>Tokens mean what they were minted for\<close>

lemma jwt_key_of: "mk_inv cr s \<Longrightarrow> jwt_key cr s = Some key \<Longrightarrow> \<exists>k. accepted cr s k \<and> key = deriveKey cr k (cps ''jwt'')"
  using inv_parts(9) [of cr s "cps ''jwt''" key] inv_parts(6) [of cr s]
  by (auto simp: jwt_key_def truthy_def split: option.splits if_splits)

lemma one_jwt_key:
  assumes laws: "crypto_laws cr" and "reach (booted cr) (mk_step cr) s" "reach (booted cr) (mk_step cr) t" and same: "master_key_canary s = master_key_canary t"
    and "jwt_key cr s = Some a" "jwt_key cr t = Some b"
  shows "a = b"
proof -
  have inv: "mk_inv cr s" "mk_inv cr t" using assms by (simp_all add: reach_mk_inv)
  then obtain k k' where k: "accepted cr s k" "a = deriveKey cr k (cps ''jwt'')" "accepted cr t k'" "b = deriveKey cr k' (cps ''jwt'')"
    using jwt_key_of assms by metis
  then have "accepted cr s k'" using same by (simp add: accepted_def)
  then show ?thesis using accepted_unique [OF laws inv_parts(1) [OF inv(1)]] k by blast
qed

lemma timed_members [simp]:
  "member_of (timed cs now ttl) (cps ''iat'') = (case map_of cs (cps ''iat'') of Some v \<Rightarrow> Some v | None \<Rightarrow> Some (Num (of_nat now)))"
  "member_of (timed cs now ttl) (cps ''exp'') = (case map_of cs (cps ''exp'') of Some v \<Rightarrow> Some v | None \<Rightarrow> Some (Num (of_nat (now + ttl))))"
  by (auto simp: timed_def member_of_def map_add_def cps_Cons split: option.splits)

text \<open>A token and the claims in it, at a later moment of the same instance, before or after restarts.\<close>

lemma verify_minted:
  assumes "jwt_laws J claims" "crypto_laws cr" "reach (booted cr) (mk_step cr) s" "reach (booted cr) (mk_step cr) t" "master_key_canary s = master_key_canary t"
    and "minted J cr s claims = Some token" "jwt_key cr t = Some key" "mk_state t = Unlocked"
  shows "verifyToken J cr now token t db = (if in_time (now div 1000) claims then principal_of claims db else None, db)"
    and "\<not> in_time (now div 1000) claims \<Longrightarrow> resolvePasswordMutationUserId J cr now token t db = None"
proof -
  obtain a where "jwt_key cr s = Some a" "token = jwt_sign J claims a" using assms(6) by (auto simp: minted_def)
  with one_jwt_key [OF assms(2-5)] assms(7) have "token = jwt_sign J claims key" by blast
  with assms(1) have "jwt_verify J (now div 1000) token key = (if in_time (now div 1000) claims then Some claims else None)"
      "\<not> startsWith token (cps ''hezo_'')" by (simp_all add: jwt_laws_def)
  then show "verifyToken J cr now token t db = (if in_time (now div 1000) claims then principal_of claims db else None, db)"
      "\<not> in_time (now div 1000) claims \<Longrightarrow> resolvePasswordMutationUserId J cr now token t db = None"
    using assms(7,8) by (simp_all add: verifyToken_def resolvePasswordMutationUserId_def)
qed

lemmas claim_defs = admin_claims_def setup_claims_def agent_claims_def session_claims_def timed_def member_of_def

lemma claims_in_time:
  "in_time now (timed cs t ttl) \<longleftrightarrow> t \<le> now \<and> now < t + ttl" if "map_of cs (cps ''iat'') = None" "map_of cs (cps ''exp'') = None"
  using that unfolding in_time_def by (simp flip: of_nat_add) 

lemma agent_in_time: "in_time now (agent_claims m te r p x t) \<longleftrightarrow> t \<le> now \<and> now < t + AGENT_JWT_TTL_SECONDS"
  and setup_in_time: "in_time now (setup_claims u t) \<longleftrightarrow> t \<le> now \<and> now < t + 600"
  and admin_in_time: "in_time now (admin_claims u t) \<longleftrightarrow> t \<le> now \<and> now < t + 604800"
  unfolding agent_claims_def setup_claims_def admin_claims_def by (subst claims_in_time; simp add: cps_Cons)+

lemma agent_members [simp]:
  "member_of (agent_claims m te r p x t) (cps ''member_id'') = Some (Str m)" "member_of (agent_claims m te r p x t) (cps ''team_id'') = Some (Str te)"
  "member_of (agent_claims m te r p x t) (cps ''run_id'') = Some (Str r)" "member_of (agent_claims m te r p x t) (cps ''project_id'') = Some (Str p)"
  "member_of (agent_claims m te r p x t) (cps ''cross_project'') = Some (Bool x)" "member_of (agent_claims m te r p x t) (cps ''session_id'') = None"
  by (simp_all add: claim_defs cps_Cons)

lemma user_members [simp]:
  "member_of (setup_claims u t) (cps ''user_id'') = Some (Str u)" "member_of (setup_claims u t) (cps ''scope'') = Some (Str PASSWORD_SETUP_SCOPE)"
  "member_of (setup_claims u t) (cps ''member_id'') = None" "member_of (setup_claims u t) (cps ''session_id'') = None"
  "member_of (admin_claims u t) (cps ''user_id'') = Some (Str u)" "member_of (admin_claims u t) (cps ''scope'') = None"
  "member_of (admin_claims u t) (cps ''member_id'') = None" "member_of (admin_claims u t) (cps ''session_id'') = None"
  by (simp_all add: claim_defs cps_Cons)

lemma admin_principal: "uid \<noteq> [] \<Longrightarrow> principal_of (admin_claims uid t) db = Some (Admin uid (superuser_row db uid))"
  by (simp add: principal_of_def json_truthy_def as_text_def Let_def)

definition running_agent :: "utext \<Rightarrow> utext \<Rightarrow> utext \<Rightarrow> utext \<Rightarrow> bool \<Rightarrow> auth_db \<Rightarrow> AuthInfo option" where
  "running_agent member team run project cross db =
     (case find (\<lambda>r. hb_id r = run \<and> hb_member r = member \<and> hb_team r = team) (heartbeat_runs db) of
        Some row \<Rightarrow> if hb_status row = Run_running
          then Some (Agent \<lparr>memberId = member, teamId = team, runId = Some run, taskId = hb_task row, projectId = project, crossProject = cross,
            sessionId = None, crossTeam = False\<rparr>) else None
      | None \<Rightarrow> None)"

lemma agent_principal:
  "member \<noteq> [] \<Longrightarrow> team \<noteq> [] \<Longrightarrow> run \<noteq> [] \<Longrightarrow> project \<noteq> [] \<Longrightarrow>
     principal_of (agent_claims member team run project cross t) db = running_agent member team run project cross db"
  by (simp add: principal_of_def run_principal_def running_agent_def json_truthy_def as_text_def Let_def split: option.splits)

text \<open>
  (C21) A run's token acts for that run and no longer. At any later moment of the same instance, restarts included, it is the agent it was minted
  for, in its own team and project, exactly while the run is running and within four hours; once the run has ended, or on a locked
  instance, it is no one. It never crosses teams, and on the REST API it is refused even while it is valid.
\<close>

theorem run_token_lives_with_run:
  assumes laws: "jwt_laws J (agent_claims member team run project cross (issued div 1000))" "crypto_laws cr"
    and states: "reach (booted cr) (mk_step cr) s" "reach (booted cr) (mk_step cr) t" "master_key_canary s = master_key_canary t" "jwt_key cr t = Some key"
    and mint: "signAgentJwt J cr s issued member team run project cross = Some token"
    and names: "member \<noteq> []" "team \<noteq> []" "run \<noteq> []" "project \<noteq> []"
  shows "fst (verifyToken J cr now token t db) =
      (if mk_state t = Unlocked \<and> issued div 1000 \<le> now div 1000 \<and> now div 1000 < issued div 1000 + 14400
       then running_agent member team run project cross db else None)
    \<and> (path \<notin> set PUBLIC_PATHS \<longrightarrow> startsWith path (cps ''/api'') \<longrightarrow>
      (\<exists>code. fst (authMiddleware J cr now path (Some (cps ''Bearer '' @ token)) t db) = Refuse 401 code))"
proof -
  have v: "verifyToken J cr now token t db = (if in_time (now div 1000) (agent_claims member team run project cross (issued div 1000))
      then principal_of (agent_claims member team run project cross (issued div 1000)) db else None, db)" if "mk_state t = Unlocked"
    using verify_minted(1) [OF laws states(1-3) _ states(4) that] mint unfolding signAgentJwt_def by blast
  have p: "principal_of (agent_claims member team run project cross (issued div 1000)) db = running_agent member team run project cross db"
    by (rule agent_principal [OF names])
  have a: "fst (verifyToken J cr now token t db) =
      (if mk_state t = Unlocked \<and> issued div 1000 \<le> now div 1000 \<and> now div 1000 < issued div 1000 + 14400
       then running_agent member team run project cross db else None)"
  proof (cases "mk_state t = Unlocked")
    case True
    then show ?thesis by (simp add: v p agent_in_time AGENT_JWT_TTL_SECONDS_def)
  qed (simp add: verifyToken_def)
  have "running_agent member team run project cross db = Some a \<Longrightarrow> humanSurfaceRefusal a \<noteq> None" for a
    by (auto simp: running_agent_def humanSurfaceRefusal_def split: option.splits if_splits)
  then have "path \<notin> set PUBLIC_PATHS \<Longrightarrow> startsWith path (cps ''/api'') \<Longrightarrow>
      \<exists>code. fst (authMiddleware J cr now path (Some (cps ''Bearer '' @ token)) t db) = Refuse 401 code"
    by (cases "mk_state t = Unlocked") (auto simp: authMiddleware_def bearer_def startsWith_def cps_Cons v p split: option.splits)
  with a show ?thesis by blast
qed

text \<open>
  (C33) The token the recovery phrase earns is not a session. As a credential it is no one, on every protected path it is refused, and
  its only use is to set the password: there it stands for its user exactly while that user is a superuser, the instance is
  unlocked and ten minutes have not passed, and it is recognised as a recovery, which needs no proof of the old password.
\<close>

theorem setup_token_only_sets_password:
  assumes laws: "jwt_laws J (setup_claims uid (issued div 1000))" "crypto_laws cr"
    and states: "reach (booted cr) (mk_step cr) s" "reach (booted cr) (mk_step cr) t" "master_key_canary s = master_key_canary t" "jwt_key cr t = Some key"
    and mint: "signPasswordSetupToken J cr s issued uid = Some token" "uid \<noteq> []"
  shows "verifyToken J cr now token t db = (None, db)
    \<and> (path \<notin> set PUBLIC_PATHS \<longrightarrow> startsWith path (cps ''/api'') \<longrightarrow>
        (\<exists>code. authMiddleware J cr now path (Some (cps ''Bearer '' @ token)) t db = (Refuse 401 code, db)))
    \<and> resolvePasswordMutationUserId J cr now token t db =
        (if mk_state t = Unlocked \<and> issued div 1000 \<le> now div 1000 \<and> now div 1000 < issued div 1000 + 600 \<and> superuser_row db uid
         then Some (uid, True) else None)"
proof -
  have m: "minted J cr s (setup_claims uid (issued div 1000)) = Some token" using mint(1) by (simp add: signPasswordSetupToken_def)
  have none: "principal_of (setup_claims uid (issued div 1000)) db = None" using mint(2) by (simp add: principal_of_def json_truthy_def)
  have a: "verifyToken J cr now token t db = (None, db)"
    using verify_minted(1) [OF laws states(1-3) m states(4), of now db] none by (cases "mk_state t = Unlocked") (simp_all add: verifyToken_def)
  then have b: "path \<notin> set PUBLIC_PATHS \<longrightarrow> startsWith path (cps ''/api'') \<longrightarrow>
        (\<exists>code. authMiddleware J cr now path (Some (cps ''Bearer '' @ token)) t db = (Refuse 401 code, db))"
    by (simp add: authMiddleware_def bearer_def startsWith_def cps_Cons)
  obtain k where "jwt_key cr s = Some k" "token = jwt_sign J (setup_claims uid (issued div 1000)) k" using m by (auto simp: minted_def)
  with one_jwt_key [OF laws(2) states(1-3)] states(4) have "token = jwt_sign J (setup_claims uid (issued div 1000)) key" by blast
  then have "jwt_verify J (now div 1000) token key =
      (if in_time (now div 1000) (setup_claims uid (issued div 1000)) then Some (setup_claims uid (issued div 1000)) else None)"
    using laws(1) by (simp add: jwt_laws_def)
  then have "resolvePasswordMutationUserId J cr now token t db =
        (if mk_state t = Unlocked \<and> issued div 1000 \<le> now div 1000 \<and> now div 1000 < issued div 1000 + 600 \<and> superuser_row db uid
         then Some (uid, True) else None)"
    using mint(2) states(4) by (simp add: resolvePasswordMutationUserId_def setup_in_time json_truthy_def as_text_def Let_def)
  with a b show ?thesis by blast
qed

section \<open>What the gates let through\<close>

lemma verified_unlocked: "fst (verifyToken J cr now token mgr db) = Some a \<Longrightarrow> mk_state mgr = Unlocked"
  by (simp add: verifyToken_def split: if_splits)

text \<open>
  (C10) The REST API behind its gate is for people. A handler of a path that starts with \<open>/api\<close> and is not on the public list runs only on an unlocked
  instance, for a request that carried a bearer token which verified, and as an admin principal; the list is matched exactly, so
  a longer path under a public one is protected. The principal a socket gets for a token is the one the REST API gets.
\<close>

theorem protected_paths_need_a_person:
  assumes "fst (authMiddleware J cr now path header mgr db) = Next who" "startsWith path (cps ''/api'')" "path \<notin> set PUBLIC_PATHS"
  shows "\<exists>token uid su. header = Some (cps ''Bearer '' @ token) \<and> who = Some (Admin uid su) \<and> mk_state mgr = Unlocked
    \<and> fst (verifyToken J cr now token mgr db) = who \<and> fst (validateToken J cr now token mgr db) = who"
proof -
  obtain token where token: "bearer header = Some token" using assms by (auto simp: authMiddleware_def split: option.splits)
  then have header: "header = Some (cps ''Bearer '' @ token)"
    by (auto simp: bearer_def startsWith_iff cps_Cons split: option.splits if_splits)
  obtain a db' where a: "verifyToken J cr now token mgr db = (Some a, db')" "humanSurfaceRefusal a = None" "who = Some a" "mk_state mgr = Unlocked"
    using assms token by (auto simp: authMiddleware_def split: option.splits if_splits prod.splits)
  then obtain uid su where "a = Admin uid su" by (cases a) (auto simp: humanSurfaceRefusal_def)
  with a header show ?thesis by (auto simp: validateToken_def)
qed

text \<open>
  (Lemma) The two ways to ask about teams agree. For a principal whose own team exists, the teams listed for it are the existing teams
  it may access one by one, whatever kind of principal it is.
\<close>

theorem team_access_agrees:
  assumes "\<And>a. auth = Agent a \<Longrightarrow> teamId a \<in> set (map fst (teams db))" "\<And>m. m \<in> set (member_users db) \<Longrightarrow> m_team m \<in> set (map fst (teams db))"
  shows "set (getAccessibleTeamIds db auth) = {team \<in> set (map fst (teams db)). canAuthAccessTeam db auth team}"
proof (cases auth)
  case (Admin uid su)
  show ?thesis using assms(2) unfolding Admin by (auto simp: getAccessibleTeamIds_def canAuthAccessTeam_def list_ex_iff)
next
  case (Agent a)
  then show ?thesis using assms(1) [OF Agent] by (auto simp: getAccessibleTeamIds_def canAuthAccessTeam_def)
qed (simp add: getAccessibleTeamIds_def canAuthAccessTeam_def)

section \<open>Where an API key's power comes from\<close>

text \<open>
  The keys over time: registrations by anyone, the management routes called as any principal, tokens verified, and whatever else happens to
  the other tables, which reaches a key at most through its foreign key (the approver's column is emptied when that user is deleted). Kept
  beside them is who, as a superuser, minted or approved which key.
\<close>

definition granted_by :: "AuthInfo \<Rightarrow> utext \<Rightarrow> (utext \<times> utext) list" where
  "granted_by auth i = (case auth of Admin uid True \<Rightarrow> [(uid, i)] | _ \<Rightarrow> [])"

inductive key_step :: "jwt \<Rightarrow> auth_db \<times> (utext \<times> utext) list \<Rightarrow> auth_db \<times> (utext \<times> utext) list \<Rightarrow> bool" for J where
  key_register: "key_step J (db, g) (snd (register_route J rnd i name info db), g)"
| key_onboard: "key_step J (db, g) (snd (handleMcpRequest J cr ready now rnd i header body mgr db), g)"
| key_create: "key_step J (db, g) (snd (create_route J now rnd i auth name db), g @ granted_by auth i)"
| key_approve: "key_step J (db, g) (snd (approve_route now auth i db), g @ granted_by auth i)"
| key_delete: "key_step J (db, g) (snd (delete_route auth i db), g)"
| key_verify: "key_step J (db, g) (snd (verifyToken J cr now token mgr db), g)"
| key_other: "map (\<lambda>r. r\<lparr>approved_by_user_id := None\<rparr>) (api_keys db') = map (\<lambda>r. r\<lparr>approved_by_user_id := None\<rparr>) (api_keys db)
    \<Longrightarrow> key_step J (db, g) (db', g)"

definition key_init :: "auth_db \<times> (utext \<times> utext) list \<Rightarrow> bool" where
  "key_init s \<longleftrightarrow> api_keys (fst s) = [] \<and> snd s = []"

definition key_inv :: "auth_db \<times> (utext \<times> utext) list \<Rightarrow> bool" where
  "key_inv s \<longleftrightarrow> distinct (map prefix (api_keys (fst s)))
     \<and> (\<forall>row \<in> set (api_keys (fst s)). ak_status row = Approved \<longrightarrow> (\<exists>uid. (uid, ak_id row) \<in> set (snd s)))"

lemma key_inv_rows:
  assumes "key_inv (db, g)" "set g \<subseteq> set g'" "distinct (map prefix (api_keys db'))"
    and "\<And>row. row \<in> set (api_keys db') \<Longrightarrow> ak_status row = Approved \<Longrightarrow>
      (\<exists>old \<in> set (api_keys db). ak_id old = ak_id row \<and> ak_status old = Approved) \<or> (\<exists>uid. (uid, ak_id row) \<in> set g')"
  shows "key_inv (db', g')"
  using assms unfolding key_inv_def by (metis fst_conv snd_conv subsetD)

lemma touched_rows: "row \<in> set (api_keys (touchApiKeyLastUsed now i db)) \<Longrightarrow>
    \<exists>old \<in> set (api_keys db). ak_id old = ak_id row \<and> ak_status old = ak_status row"
  by (auto simp: touchApiKeyLastUsed_def Let_def split: if_splits)

lemma verified_rows: "row \<in> set (api_keys (snd (verifyToken J cr now token mgr db))) \<Longrightarrow>
    \<exists>old \<in> set (api_keys db). ak_id old = ak_id row \<and> ak_status old = ak_status row"
  by (auto simp: verifyToken_def dest: touched_rows split: if_splits option.splits)

lemma registered_rows: "registerApiKey J rnd i name info db = Some (token, db') \<Longrightarrow> row \<in> set (api_keys db') \<Longrightarrow> ak_status row = Approved \<Longrightarrow> row \<in> set (api_keys db)"
  by (auto simp: registerApiKey_def insert_key_def tryAudit_def mintToken_def Let_def split: if_splits)

text \<open>No operation gives two keys the same prefix, which is the column the lookup goes by.\<close>

lemma touched_prefixes: "map prefix (api_keys (touchApiKeyLastUsed now i db)) = map prefix (api_keys db)"
  by (auto simp: touchApiKeyLastUsed_def Let_def)

lemma verified_prefixes: "map prefix (api_keys (snd (verifyToken J cr now token mgr db))) = map prefix (api_keys db)"
  by (auto simp: verifyToken_def touched_prefixes split: option.splits)

lemma registered_prefixes:
  "distinct (map prefix (api_keys db)) \<Longrightarrow> registerApiKey J rnd i name info db = Some (token, db') \<Longrightarrow> distinct (map prefix (api_keys db'))"
  by (auto simp: registerApiKey_def mintToken_def Let_def tryAudit_def insert_key_def split: if_splits)

lemma created_prefixes:
  "distinct (map prefix (api_keys db)) \<Longrightarrow> createApiKey J now rnd i name uid db = Some (token, db') \<Longrightarrow> distinct (map prefix (api_keys db'))"
  by (auto simp: createApiKey_def mintToken_def Let_def tryAudit_def insert_key_def split: if_splits)

lemma authenticated_rows: "row \<in> set (api_keys (snd (authenticateRequest J cr now header mgr db))) \<Longrightarrow>
    \<exists>old \<in> set (api_keys db). ak_id old = ak_id row \<and> ak_status old = ak_status row"
  by (cases "truthy (bearer header)") (auto simp: authenticateRequest_def intro: verified_rows)

lemma authenticated_prefixes: "map prefix (api_keys (snd (authenticateRequest J cr now header mgr db))) = map prefix (api_keys db)"
  by (cases "truthy (bearer header)") (simp_all add: authenticateRequest_def verified_prefixes)

lemma register_tool_db:
  "snd (handleRegisterTool J rnd i args db) = db \<or> (\<exists>name info token. registerApiKey J rnd i name info db = Some (token, snd (handleRegisterTool J rnd i args db)))"
  unfolding handleRegisterTool_def Let_def by (auto split: option.splits)

lemma onboarded_db:
  "snd (handleMcpRequest J cr ready now rnd i header body mgr db) \<in> {db, snd (authenticateRequest J cr now header mgr db)}
   \<or> (\<exists>args. snd (handleMcpRequest J cr ready now rnd i header body mgr db) = snd (handleRegisterTool J rnd i args (snd (authenticateRequest J cr now header mgr db))))"
proof -
  obtain who db1 where auth: "authenticateRequest J cr now header mgr db = (who, db1)" by (cases "authenticateRequest J cr now header mgr db")
  show ?thesis unfolding handleMcpRequest_def auth by (auto simp: Let_def split: option.splits)
qed

lemma onboarded_cases:
  obtains (same) "snd (handleMcpRequest J cr ready now rnd i header body mgr db) = db"
  | (authenticated) "snd (handleMcpRequest J cr ready now rnd i header body mgr db) = snd (authenticateRequest J cr now header mgr db)"
  | (registered) name info token where "registerApiKey J rnd i name info (snd (authenticateRequest J cr now header mgr db)) =
      Some (token, snd (handleMcpRequest J cr ready now rnd i header body mgr db))"
  using onboarded_db [of J cr ready now rnd i header body mgr db] register_tool_db [of J rnd i _ "snd (authenticateRequest J cr now header mgr db)"] that
  by (metis empty_iff insert_iff)

lemma onboarded_rows: "row \<in> set (api_keys (snd (handleMcpRequest J cr ready now rnd i header body mgr db))) \<Longrightarrow> ak_status row = Approved \<Longrightarrow>
    \<exists>old \<in> set (api_keys db). ak_id old = ak_id row \<and> ak_status old = Approved"
  by (cases rule: onboarded_cases [of J cr ready now rnd i header body mgr db]) (auto dest!: registered_rows authenticated_rows)

lemma onboarded_prefixes:
  "distinct (map prefix (api_keys db)) \<Longrightarrow> distinct (map prefix (api_keys (snd (handleMcpRequest J cr ready now rnd i header body mgr db))))"
  by (cases rule: onboarded_cases [of J cr ready now rnd i header body mgr db])
    (auto simp: authenticated_prefixes intro: registered_prefixes [rotated])

lemma superuser_grants: "requireSuperuser auth = None \<Longrightarrow> \<exists>uid. (uid, i) \<in> set (granted_by auth i)"
  by (auto simp: requireSuperuser_def granted_by_def split: AuthInfo.splits bool.splits if_splits)

lemma created_rows:
  "createApiKey J now rnd i name uid db = Some (token, db') \<Longrightarrow> row \<in> set (api_keys db') \<Longrightarrow> row \<in> set (api_keys db) \<or> ak_id row = i"
  by (auto simp: createApiKey_def insert_key_def tryAudit_def mintToken_def Let_def split: if_splits)

lemma create_route_rows:
  assumes "row \<in> set (api_keys (snd (create_route J now rnd i auth name db)))"
  shows "row \<in> set (api_keys db) \<or> (\<exists>uid. (uid, ak_id row) \<in> set (granted_by auth i))"
  using assms superuser_grants [of auth i] by (auto simp: create_route_def dest: created_rows split: option.splits if_splits)

lemma key_inv_step: "key_inv s \<Longrightarrow> key_step J s t \<Longrightarrow> key_inv t"
proof -
  assume inv: "key_inv s" and step: "key_step J s t"
  from step inv show ?thesis
  proof (induction rule: key_step.induct)
    case (key_register db g rnd i name info)
    then have "distinct (map prefix (api_keys db))" by (simp add: key_inv_def)
    then show ?case using key_register
      by (intro key_inv_rows [OF key_register]) (auto simp: register_route_def dest: registered_rows registered_prefixes split: option.splits)
  next
    case (key_onboard db g cr ready now rnd i header body mgr)
    then have "distinct (map prefix (api_keys db))" by (simp add: key_inv_def)
    then show ?case by (intro key_inv_rows [OF key_onboard]) (auto dest: onboarded_rows onboarded_prefixes)
  next
    case (key_create db g now rnd i auth name)
    then have d: "distinct (map prefix (api_keys db))" by (simp add: key_inv_def)
    show ?case
    proof (rule key_inv_rows [OF key_create])
      show "distinct (map prefix (api_keys (snd (create_route J now rnd i auth name db))))"
        using d by (auto simp: create_route_def dest: created_prefixes split: option.splits)
    qed (use create_route_rows in \<open>fastforce+\<close>)
  next
    case (key_approve db g now auth i)
    then have d: "distinct (map prefix (api_keys db))" by (simp add: key_inv_def)
    have "map prefix (api_keys (snd (approve_route now auth i db))) = map prefix (api_keys db)"
      by (auto simp: approve_route_def approveApiKey_def tryAudit_def)
    with d show ?case
      by (intro key_inv_rows [OF key_approve]) (auto simp: approve_route_def requireSuperuser_def acting_user_def granted_by_def approveApiKey_def tryAudit_def
          split: AuthInfo.splits bool.splits if_splits)
  next
    case (key_delete db g auth i)
    then have "distinct (map prefix (api_keys db))" by (simp add: key_inv_def)
    then show ?case by (intro key_inv_rows [OF key_delete])
        (auto simp: delete_route_def deleteApiKey_def tryAudit_def distinct_map_filter split: if_splits)
  next
    case (key_verify db g cr now token mgr)
    then have "distinct (map prefix (api_keys db))" by (simp add: key_inv_def)
    then show ?case by (intro key_inv_rows [OF key_verify]) (simp_all add: verified_prefixes, metis verified_rows)
  next
    case (key_other db' db g)
    have "map prefix (api_keys db') = map prefix (api_keys db)"
      using arg_cong [OF key_other(1), of "map prefix"] by (simp add: comp_def)
    moreover have "\<exists>old \<in> set (api_keys db). ak_id old = ak_id row \<and> ak_status old = ak_status row" if "row \<in> set (api_keys db')" for row
    proof -
      have "row\<lparr>approved_by_user_id := None\<rparr> \<in> (\<lambda>r. r\<lparr>approved_by_user_id := None\<rparr>) ` set (api_keys db)"
        using that arg_cong [OF key_other(1), of set] by auto
      then obtain old where "old \<in> set (api_keys db)" "row\<lparr>approved_by_user_id := None\<rparr> = old\<lparr>approved_by_user_id := None\<rparr>" by auto
      then show ?thesis by (metis api_key.select_convs(1,6) api_key.surjective api_key.update_convs(8))
    qed
    ultimately show ?case using key_other(2) by (intro key_inv_rows [OF key_other(2)]) (auto simp: key_inv_def, metis)
  qed
qed

interpretation api_keys_inv: inductive_invariant key_init "key_step J" key_inv for J
  by unfold_locales (simp add: key_init_def key_inv_def, rule key_inv_step)

lemma bearer_token: "bearer (Some (cps ''Bearer '' @ token)) = Some token"
  by (simp add: bearer_def startsWith_def cps_Cons)

lemma no_key_principal: "principal_of p db \<noteq> Some (ApiKey i)"
  by (auto simp: principal_of_def session_principal_def run_principal_def Let_def split: if_splits option.splits)

lemma key_row:
  assumes "fst (verifyToken J cr now token mgr db) = Some (ApiKey i)"
  shows "startsWith token (cps ''hezo_'') \<and> (\<exists>row \<in> set (api_keys db). prefix row = take 8 (drop 5 token) \<and> ak_status row = Approved \<and> ak_id row = i)"
proof -
  obtain row where "startsWith token (cps ''hezo_'')" "find (\<lambda>r. prefix r = take 8 (drop 5 token)) (api_keys db) = Some row" "ak_status row = Approved" "ak_id row = i"
    using assms by (auto simp: verifyToken_def no_key_principal split: if_splits option.splits)
  then show ?thesis by (auto simp: find_Some_iff)
qed

lemma no_row_no_one:
  assumes "startsWith token (cps ''hezo_'')" "\<And>row. row \<in> set (api_keys db) \<Longrightarrow> prefix row \<noteq> take 8 (drop 5 token)"
  shows "verifyToken J cr now token mgr db = (None, db)"
proof -
  have "find (\<lambda>r. prefix r = take 8 (drop 5 token)) (api_keys db) = None" using assms(2) by (simp add: find_None_iff)
  then show ?thesis using assms(1) by (simp add: verifyToken_def)
qed

text \<open>
  (C22) An API key acts only by a superuser's word. Starting from no keys, in any order of registrations, management calls made as any
  principal and requests, a token that acts as a key does so because a person acting as superuser minted or approved that very key; no key, agent
  or ordinary user can bring that about. Once the key is deleted the same token is no one at the next request, whatever the clock and the state
  of the master key: it verifies as no principal at all, and so authenticates nobody at the MCP
  endpoint, the one place that takes keys.
\<close>

theorem api_key_needs_superuser:
  assumes "reach key_init (key_step J) (db, grants)" "fst (verifyToken J cr now token mgr db) = Some (ApiKey i)"
  shows "(\<exists>uid. (uid, i) \<in> set grants)
    \<and> fst (verifyToken J cr now' token mgr' (snd (deleteApiKey i db))) = None
    \<and> fst (authenticateRequest J cr now' (Some (cps ''Bearer '' @ token)) mgr' (snd (deleteApiKey i db))) = None"
proof -
  have inv: "key_inv (db, grants)" by (rule api_keys_inv.reach_inv [OF assms(1)])
  obtain row where row: "startsWith token (cps ''hezo_'')" "row \<in> set (api_keys db)" "prefix row = take 8 (drop 5 token)" "ak_status row = Approved" "ak_id row = i"
    using key_row [OF assms(2)] by blast
  then have "\<exists>uid. (uid, i) \<in> set grants" using inv by (auto simp: key_inv_def)
  moreover have "prefix r \<noteq> take 8 (drop 5 token)" if "r \<in> set (api_keys (snd (deleteApiKey i db)))" for r
  proof
    assume "prefix r = take 8 (drop 5 token)"
    moreover have "r \<in> set (api_keys db)" "ak_id r \<noteq> i" using that row(2,5) by (auto simp: deleteApiKey_def tryAudit_def split: if_splits)
    ultimately show False using inv row(2,3,5) inj_onD [of prefix "set (api_keys db)" r row] by (auto simp: key_inv_def distinct_map)
  qed
  then have gone: "verifyToken J cr now' token mgr' (snd (deleteApiKey i db)) = (None, snd (deleteApiKey i db))" by (rule no_row_no_one [OF row(1)])
  ultimately show ?thesis by (simp add: authenticateRequest_def bearer_token truthy_def)
qed

section \<open>Witnesses\<close>

text \<open>A signer that knows one set of claims.\<close>

definition demo_jwt_of :: "json \<Rightarrow> jwt" where
  "demo_jwt_of claims = \<lparr>jwt_sign = (\<lambda>p key. cps ''t''), jwt_verify = (\<lambda>now t key. if t = cps ''t'' \<and> in_time now claims then Some claims else None),
     sha256 = (\<lambda>t. cps ''00'')\<rparr>"

lemma demo_jwt_laws: "jwt_laws (demo_jwt_of claims) claims"
  by (simp add: jwt_laws_def demo_jwt_of_def startsWith_def cps_Cons)

definition demo_auth_db :: auth_db where
  "demo_auth_db = \<lparr>api_keys = [], chat_sessions = [],
     heartbeat_runs = [\<lparr>hb_id = cps ''r'', hb_member = cps ''m'', hb_team = cps ''hq'', hb_task = None, hb_status = Run_running\<rparr>],
     users = [\<lparr>u_id = cps ''u'', is_superuser = True, password_salt = None, password_public_key = None\<rparr>], member_users = [],
     teams = [(cps ''hq'', cps ''hq'')], projects = [], audit = [], apiKeyTouchedAt = Map.empty\<rparr>"

lemma demo_key: "jwt_key demo_crypto demo_enrolled = Some (spelled (cps ''a''))"
proof -
  have "derivedKeys demo_enrolled = Map.empty" by (simp add: mk_demo_defs Let_def)
  moreover have "deriveKey demo_crypto k p = spelled k" for k p by (simp add: demo_crypto_def)
  moreover have "cps ''a'' \<noteq> []" by (simp add: cps_Cons)
  ultimately show ?thesis by (simp add: jwt_key_def truthy_def demo_values(4))
qed

theorem run_token_lives_with_run_witness:
  "\<exists>token. signAgentJwt (demo_jwt_of (agent_claims (cps ''m'') (cps ''hq'') (cps ''r'') (cps ''p'') False 7)) demo_crypto demo_enrolled 7000 (cps ''m'') (cps ''hq'')
       (cps ''r'') (cps ''p'') False = Some token
   \<and> fst (verifyToken (demo_jwt_of (agent_claims (cps ''m'') (cps ''hq'') (cps ''r'') (cps ''p'') False 7)) demo_crypto 9000 token demo_enrolled demo_auth_db) =
     Some (Agent \<lparr>memberId = cps ''m'', teamId = cps ''hq'', runId = Some (cps ''r''), taskId = None, projectId = cps ''p'', crossProject = False,
       sessionId = None, crossTeam = False\<rparr>)"
proof -
  let ?J = "demo_jwt_of (agent_claims (cps ''m'') (cps ''hq'') (cps ''r'') (cps ''p'') False 7)"
  obtain token where mint: "signAgentJwt ?J demo_crypto demo_enrolled 7000 (cps ''m'') (cps ''hq'') (cps ''r'') (cps ''p'') False = Some token"
    by (simp add: signAgentJwt_def minted_def demo_key)
  have "jwt_laws ?J (agent_claims (cps ''m'') (cps ''hq'') (cps ''r'') (cps ''p'') False (7000 div 1000))" using demo_jwt_laws by simp
  from run_token_lives_with_run [OF this demo_laws demo_reach(2) demo_reach(2) refl demo_key mint, of 9000 demo_auth_db "[]"] mint
  show ?thesis by (simp add: demo_values(3) running_agent_def demo_auth_db_def cps_Cons)
qed

theorem setup_token_only_sets_password_witness:
  "\<exists>token. signPasswordSetupToken (demo_jwt_of (setup_claims (cps ''u'') 7)) demo_crypto demo_enrolled 7000 (cps ''u'') = Some token
   \<and> verifyToken (demo_jwt_of (setup_claims (cps ''u'') 7)) demo_crypto 9000 token demo_enrolled demo_auth_db = (None, demo_auth_db)
   \<and> resolvePasswordMutationUserId (demo_jwt_of (setup_claims (cps ''u'') 7)) demo_crypto 9000 token demo_enrolled demo_auth_db = Some (cps ''u'', True)"
proof -
  let ?J = "demo_jwt_of (setup_claims (cps ''u'') 7)"
  obtain token where mint: "signPasswordSetupToken ?J demo_crypto demo_enrolled 7000 (cps ''u'') = Some token"
    by (simp add: signPasswordSetupToken_def minted_def demo_key)
  have "jwt_laws ?J (setup_claims (cps ''u'') (7000 div 1000))" using demo_jwt_laws by simp
  from setup_token_only_sets_password [OF this demo_laws demo_reach(2) demo_reach(2) refl demo_key mint, of 9000 demo_auth_db "[]"] mint
  show ?thesis by (simp add: demo_values(3) superuser_row_def demo_auth_db_def cps_Cons)
qed

theorem protected_paths_need_a_person_witness:
  "\<exists>token uid su. Some (cps ''Bearer t'') = Some (cps ''Bearer '' @ token) \<and>
     fst (authMiddleware (demo_jwt_of (admin_claims (cps ''u'') 7)) demo_crypto 9000 (cps ''/api/teams'') (Some (cps ''Bearer t'')) demo_enrolled demo_auth_db) =
       Next (Some (Admin uid su)) \<and> mk_state demo_enrolled = Unlocked"
proof -
  let ?J = "demo_jwt_of (admin_claims (cps ''u'') 7)"
  have "in_time 9 (admin_claims (cps ''u'') 7)" by (simp add: admin_in_time)
  moreover have "principal_of (admin_claims (cps ''u'') 7) demo_auth_db = Some (Admin (cps ''u'') True)"
    using admin_principal [of "cps ''u''" 7 demo_auth_db] by (simp add: superuser_row_def demo_auth_db_def cps_Cons)
  ultimately have "verifyToken ?J demo_crypto 9000 (cps ''t'') demo_enrolled demo_auth_db = (Some (Admin (cps ''u'') True), demo_auth_db)"
    by (simp add: verifyToken_def demo_values(3) demo_key demo_jwt_of_def startsWith_def) (simp add: cps_Cons)
  then have passed: "fst (authMiddleware ?J demo_crypto 9000 (cps ''/api/teams'') (Some (cps ''Bearer t'')) demo_enrolled demo_auth_db) = Next (Some (Admin (cps ''u'') True))"
    by (simp add: authMiddleware_def PUBLIC_PATHS_def bearer_def startsWith_def humanSurfaceRefusal_def demo_values(3) cps_Cons)
  have "startsWith (cps ''/api/teams'') (cps ''/api'')" "cps ''/api/teams'' \<notin> set PUBLIC_PATHS"
    by (simp_all add: startsWith_def PUBLIC_PATHS_def cps_Cons)
  from protected_paths_need_a_person [OF passed this] passed show ?thesis by auto
qed

theorem team_access_agrees_witness:
  "set (getAccessibleTeamIds demo_auth_db (Admin (cps ''x'') False)) = {team \<in> {cps ''hq''}. canAuthAccessTeam demo_auth_db (Admin (cps ''x'') False) team}"
  using team_access_agrees [of "Admin (cps ''x'') False" demo_auth_db] by (simp add: demo_auth_db_def)

definition demo_keys :: auth_db where
  "demo_keys = snd (create_route (demo_jwt_of Null) 7 [0, 0, 0, 0] (cps ''k'') (Admin (cps ''u'') True) (Some (cps ''ci'')) demo_auth_db)"

theorem api_key_needs_superuser_witness:
  "fst (verifyToken (demo_jwt_of Null) demo_crypto 9 (cps ''hezo_00000000'') demo_enrolled demo_keys) = Some (ApiKey (cps ''k''))
   \<and> (\<exists>uid. (uid, cps ''k'') \<in> set [(cps ''u'', cps ''k'')])
   \<and> fst (verifyToken (demo_jwt_of Null) demo_crypto 10 (cps ''hezo_00000000'') demo_enrolled (snd (deleteApiKey (cps ''k'') demo_keys))) = None"
proof -
  have "reach key_init (key_step (demo_jwt_of Null)) (demo_keys, [] @ granted_by (Admin (cps ''u'') True) (cps ''k''))"
    unfolding demo_keys_def by (rule reach_step [of _ _ "(demo_auth_db, [])"], rule reach_init, simp add: key_init_def demo_auth_db_def, rule key_create)
  then have r: "reach key_init (key_step (demo_jwt_of Null)) (demo_keys, [(cps ''u'', cps ''k'')])" by (simp add: granted_by_def)
  have v: "fst (verifyToken (demo_jwt_of Null) demo_crypto 9 (cps ''hezo_00000000'') demo_enrolled demo_keys) = Some (ApiKey (cps ''k''))"
    by (simp add: verifyToken_def demo_values(3) demo_keys_def create_route_def requireSuperuser_def named_def trim_def is_ws_def createApiKey_def mintToken_def
        hex_byte_def insert_key_def tryAudit_def demo_auth_db_def demo_jwt_of_def safeCompareHex_def startsWith_def cps_Cons)
  from api_key_needs_superuser [OF r v, of 10 demo_enrolled] v show ?thesis by blast
qed
end
