(* ===== verification/Sign_In.thy ===== *)
theory Sign_In
  imports Auth_Tokens "HOL-Library.AList"
begin

text \<open>
  Signing in: the challenges (\<open>services/auth-challenges.ts\<close>), the password verifier (\<open>services/password.ts\<close>), the superuser
  (\<open>services/superuser.ts\<close>), assertions of an issuer with their replay cache and handles (\<open>services/sso.ts\<close>, \<open>lib/bounded-map.ts\<close>) and the
  routes that use them (\<open>routes/auth.ts\<close>).

  A route runs to its end here; \<open>/auth/password-verify\<close> is also given in its two halves, before and after the \<open>await\<close> of its body, because
  its throttle lies between them. Random identifiers and the clock are arguments; so is the parser of the locale a setup may carry.
\<close>

section \<open>Challenges\<close>

record challenge =
  nonce :: utext
  expiresAt :: nat

type_synonym challenges = "(utext \<times> challenge) list"

definition DEFAULT_TTL_MS :: nat where
  "DEFAULT_TTL_MS = 2 * 60 * 1000"

definition DEFAULT_MAX_OUTSTANDING :: nat where
  "DEFAULT_MAX_OUTSTANDING = 1000"

definition sweep :: "nat \<Rightarrow> challenges \<Rightarrow> challenges" where
  "sweep now es = filter (\<lambda>(i, e). \<not> expiresAt e < now) es"

text \<open>The entries are in the order they were set; the oldest go until there is room.\<close>

fun evict :: "nat \<Rightarrow> challenges \<Rightarrow> challenges" where
  "evict m [] = []"
| "evict m (e # es) = (if m \<le> length (e # es) then evict m es else e # es)"

definition issue :: "nat \<Rightarrow> utext \<Rightarrow> utext \<Rightarrow> challenges \<Rightarrow> challenges" where
  "issue now i n es = AList.update i \<lparr>nonce = n, expiresAt = now + DEFAULT_TTL_MS\<rparr> (evict DEFAULT_MAX_OUTSTANDING (sweep now es))"

definition consume :: "nat \<Rightarrow> utext \<Rightarrow> challenges \<Rightarrow> utext option \<times> challenges" where
  "consume now i es = (case map_of es i of
     None \<Rightarrow> (None, es)
   | Some e \<Rightarrow> (if expiresAt e < now then None else Some (nonce e), AList.delete i es))"

section \<open>A map with a ceiling\<close>

type_synonym 'v bounded_map = "(utext \<times> 'v) list"

definition bm_get :: "utext \<Rightarrow> 'v bounded_map \<Rightarrow> 'v option \<times> 'v bounded_map" where
  "bm_get k m = (case map_of m k of
     None \<Rightarrow> (None, m)
   | Some v \<Rightarrow> (Some v, AList.delete k m @ [(k, v)]))"

definition bm_set :: "nat \<Rightarrow> utext \<Rightarrow> 'v \<Rightarrow> 'v bounded_map \<Rightarrow> 'v bounded_map" where
  "bm_set maxSize k v m = (let m' = AList.delete k m @ [(k, v)] in drop (length m' - maxSize) m')"

definition bm_delete :: "utext \<Rightarrow> 'v bounded_map \<Rightarrow> 'v bounded_map" where
  "bm_delete k m = AList.delete k m"

section \<open>Throttles\<close>

record throttle =
  failures :: nat
  lockedUntil :: nat

definition resetThrottle :: throttle where
  "resetThrottle = \<lparr>failures = 0, lockedUntil = 0\<rparr>"

definition lockRemainingMs :: "nat \<Rightarrow> throttle \<Rightarrow> nat" where
  "lockRemainingMs now th = (if now < lockedUntil th then lockedUntil th - now else 0)"

definition LOGIN_MAX_ATTEMPTS :: nat where
  "LOGIN_MAX_ATTEMPTS = 5"

definition LOGIN_LOCKOUT_MS :: nat where
  "LOGIN_LOCKOUT_MS = 60000"

definition recordLoginFailure :: "nat \<Rightarrow> throttle \<Rightarrow> throttle" where
  "recordLoginFailure now th =
     (let f = failures th + 1
      in if LOGIN_MAX_ATTEMPTS \<le> f
         then \<lparr>failures = f, lockedUntil = now + min (LOGIN_LOCKOUT_MS * 2 ^ (f - LOGIN_MAX_ATTEMPTS)) (60 * 60000)\<rparr>
         else th\<lparr>failures := f\<rparr>)"

definition SSO_MAX_ATTEMPTS :: nat where
  "SSO_MAX_ATTEMPTS = 10"

definition SSO_LOCKOUT_MS :: nat where
  "SSO_LOCKOUT_MS = 30000"

definition SSO_MAX_LOCKOUT_MS :: nat where
  "SSO_MAX_LOCKOUT_MS = 5 * 60000"

definition recordSsoFailure :: "nat \<Rightarrow> throttle \<Rightarrow> throttle" where
  "recordSsoFailure now th =
     (let f = failures th + 1
      in if SSO_MAX_ATTEMPTS \<le> f
         then \<lparr>failures = f, lockedUntil = now + min (SSO_LOCKOUT_MS * 2 ^ (f - SSO_MAX_ATTEMPTS)) SSO_MAX_LOCKOUT_MS\<rparr>
         else th\<lparr>failures := f\<rparr>)"

section \<open>Assertions of the issuer\<close>

record SsoConfig =
  issuerPublicKey :: utext
  audience :: utext
  ownerSubject :: utext

datatype SsoFailureReason = MALFORMED_TOKEN | UNKNOWN_KEY | BAD_SIGNATURE | WRONG_AUDIENCE | EXPIRED | NOT_YET_VALID | LIFETIME_TOO_LONG | REPLAYED | UNKNOWN_SUBJECT

definition REPLAY_CACHE_MAX_ENTRIES :: nat where
  "REPLAY_CACHE_MAX_ENTRIES = 1024"

definition HANDLE_TTL_MS :: nat where
  "HANDLE_TTL_MS = 10 * 60000"

definition HANDLE_MAX_ENTRIES :: nat where
  "HANDLE_MAX_ENTRIES = 32"

text \<open>The keys parsed once for each text of the configuration; a text that does not parse gives none.\<close>

type_synonym key_cache = "(utext \<times> (utext \<times> utext) list) option"

definition issuerKeys :: "SsoConfig \<Rightarrow> key_cache \<Rightarrow> (utext \<times> utext) list \<times> key_cache" where
  "issuerKeys config cache =
     (let parsed = (case parseIssuerPublicKeys (issuerPublicKey config) of Inr keys \<Rightarrow> keys | Inl _ \<Rightarrow> []);
          fresh = (parsed, Some (issuerPublicKey config, parsed))
      in case cache of Some (source, keys) \<Rightarrow> if source = issuerPublicKey config then (keys, cache) else fresh | None \<Rightarrow> fresh)"

record sso_state =
  issuerKeyCache :: key_cache
  replayCache :: "nat bounded_map"
  handles :: "(utext \<times> nat) bounded_map"
  ssoThrottle :: throttle

definition verifySsoAssertion ::
  "(bytes \<Rightarrow> json option) \<Rightarrow> ed25519_verify \<Rightarrow> utext \<Rightarrow> SsoConfig \<Rightarrow> nat \<Rightarrow> sso_state \<Rightarrow> (SsoFailureReason + SsoTokenPayload) \<times> sso_state" where
  "verifySsoAssertion parse ed token config nowMs st = (case parseSsoToken parse token of
     None \<Rightarrow> (Inl MALFORMED_TOKEN, st)
   | Some parsed \<Rightarrow>
       let p = payload parsed; (keys, cache) = issuerKeys config (issuerKeyCache st); st1 = st\<lparr>issuerKeyCache := cache\<rparr>
       in case map_of keys (kid p) of
            None \<Rightarrow> (Inl UNKNOWN_KEY, st1)
          | Some publicKeyHex \<Rightarrow>
              if \<not> verifySsoTokenSignature ed p (signatureHex parsed) publicKeyHex then (Inl BAD_SIGNATURE, st1)
              else if aud p \<noteq> audience config then (Inl WRONG_AUDIENCE, st1)
              else (case checkSsoTokenFreshness p (nowMs div 1000) of
                  Expired \<Rightarrow> (Inl EXPIRED, st1)
                | Not_yet_valid \<Rightarrow> (Inl NOT_YET_VALID, st1)
                | Lifetime_too_long \<Rightarrow> (Inl LIFETIME_TOO_LONG, st1)
                | Fresh \<Rightarrow>
                    (case bm_get (jti p) (replayCache st1) of (seenUntil, replay) \<Rightarrow>
                       let st2 = st1\<lparr>replayCache := replay\<rparr>
                       in if (case seenUntil of Some t \<Rightarrow> nowMs < t | None \<Rightarrow> False) then (Inl REPLAYED, st2)
                       else if sub p \<noteq> ownerSubject config then (Inl UNKNOWN_SUBJECT, st2)
                       else (Inr p, st2\<lparr>replayCache := bm_set REPLAY_CACHE_MAX_ENTRIES (jti p)
                           ((SsoTokenPayload.exp p + SSO_TOKEN_CLOCK_SKEW_SECONDS + 1) * 1000) replay\<rparr>))))"

definition issueSsoHandle :: "utext \<Rightarrow> utext \<Rightarrow> nat \<Rightarrow> sso_state \<Rightarrow> sso_state" where
  "issueSsoHandle handle subject nowMs st = st\<lparr>handles := bm_set HANDLE_MAX_ENTRIES handle (subject, nowMs + HANDLE_TTL_MS) (handles st)\<rparr>"

definition consumeSsoHandle :: "utext \<Rightarrow> nat \<Rightarrow> sso_state \<Rightarrow> utext option \<times> sso_state" where
  "consumeSsoHandle handle nowMs st = (case bm_get handle (handles st) of
     (None, hs) \<Rightarrow> (None, st\<lparr>handles := hs\<rparr>)
   | (Some (subject, expiresAtMs), hs) \<Rightarrow> (if nowMs < expiresAtMs then Some subject else None, st\<lparr>handles := bm_delete handle hs\<rparr>))"

section \<open>The superuser and the password\<close>

definition DEFAULT_TEAM_ID :: utext where
  "DEFAULT_TEAM_ID = cps ''00000000-0000-0000-0000-000000000001''"

definition getSuperuserId :: "auth_db \<Rightarrow> utext option" where
  "getSuperuserId db = map_option u_id (find is_superuser (users db))"

definition addUserToDefaultTeam :: "utext \<Rightarrow> auth_db \<Rightarrow> auth_db" where
  "addUserToDefaultTeam uid db =
     (if list_ex (\<lambda>m. m_user m = uid \<and> m_team m = DEFAULT_TEAM_ID) (member_users db) then db
      else db\<lparr>member_users := member_users db @ [\<lparr>m_user = uid, m_team = DEFAULT_TEAM_ID\<rparr>]\<rparr>)"

text \<open>The identifier the database gives a new row is an argument.\<close>

definition ensureSuperuserId :: "utext \<Rightarrow> auth_db \<Rightarrow> utext \<times> auth_db" where
  "ensureSuperuserId new db = (case getSuperuserId db of
     Some uid \<Rightarrow> (uid, db)
   | None \<Rightarrow> (new, addUserToDefaultTeam new
       (db\<lparr>users := users db @ [\<lparr>u_id = new, is_superuser = True, password_salt = None, password_public_key = None\<rparr>]\<rparr>)))"

definition getAdminPasswordVerifier :: "auth_db \<Rightarrow> (utext \<times> utext \<times> utext) option" where
  "getAdminPasswordVerifier db = (case find is_superuser (users db) of
     None \<Rightarrow> None
   | Some u \<Rightarrow> (case (truthy (password_salt u), truthy (password_public_key u)) of
       (Some salt, Some pub) \<Rightarrow> Some (u_id u, salt, pub)
     | _ \<Rightarrow> None))"

definition adminPasswordIsSet :: "auth_db \<Rightarrow> bool" where
  "adminPasswordIsSet db = list_ex (\<lambda>u. is_superuser u \<and> password_public_key u \<noteq> None) (users db)"

definition setAdminPasswordVerifier :: "utext \<Rightarrow> utext \<Rightarrow> utext \<Rightarrow> auth_db \<Rightarrow> auth_db" where
  "setAdminPasswordVerifier uid salt pub db =
     db\<lparr>users := map (\<lambda>u. if u_id u = uid then u\<lparr>password_salt := Some salt, password_public_key := Some pub\<rparr> else u) (users db)\<rparr>"

definition verifyPasswordSignature :: "ed25519_verify \<Rightarrow> utext \<Rightarrow> utext \<Rightarrow> auth_db \<Rightarrow> bool" where
  "verifyPasswordSignature ed msg sig db = (case getAdminPasswordVerifier db of
     None \<Rightarrow> False
   | Some (uid, salt, pub) \<Rightarrow> verifyAuthSignature ed pub msg sig)"

section \<open>The routes\<close>

record sign_in =
  authChallenges :: challenges
  loginThrottle :: throttle
  sso_of :: sso_state
  master :: manager
  tables :: auth_db
  instance_base_url :: "utext option"
  instance_locale :: "json option"

record sign_in_env =
  env_crypto :: crypto
  env_jwt :: jwt
  env_parse :: "bytes \<Rightarrow> json option"
  parseLocaleSettingsPatch :: "json \<Rightarrow> json option"
  sso_config :: "SsoConfig option"

text \<open>What a request draws from outside: the clock, random identifiers, the origin it was sent to.\<close>

record draws =
  now_ms :: nat
  call_id :: nat
  iv_drawn :: nat
  id_drawn :: utext
  nonce_drawn :: utext
  user_drawn :: utext
  origin :: "utext option"

datatype answer =
    Refused nat string
  | Setup_token utext
  | Session utext
  | Challenge utext utext
  | Password_challenge utext utext utext
  | Parked utext
  | Internal_error

definition text_of :: "json \<Rightarrow> string \<Rightarrow> utext option" where
  "text_of body name = (case member_of body (cps name) of Some (Str s) \<Rightarrow> Some s | _ \<Rightarrow> None)"

definition hex_of :: "nat \<Rightarrow> json \<Rightarrow> string \<Rightarrow> utext option" where
  "hex_of n body name = (case text_of body name of Some s \<Rightarrow> if hex_text n s then Some s else None | None \<Rightarrow> None)"

definition answered :: "nat \<Rightarrow> manager \<Rightarrow> bool" where
  "answered c m = (case map_of (replies m) c of Some (Answer b) \<Rightarrow> b | _ \<Rightarrow> False)"

definition session_for :: "sign_in_env \<Rightarrow> draws \<Rightarrow> utext \<Rightarrow> sign_in \<Rightarrow> answer" where
  "session_for e d uid s = (case signAdminJwt (env_jwt e) (env_crypto e) (master s) (now_ms d) uid of Some token \<Rightarrow> Session token | None \<Rightarrow> Internal_error)"

definition issuePasswordSetupToken :: "sign_in_env \<Rightarrow> draws \<Rightarrow> sign_in \<Rightarrow> answer \<times> sign_in" where
  "issuePasswordSetupToken e d s0 =
     (let s1 = (case (truthy (instance_base_url s0), origin d) of (None, Some url) \<Rightarrow> s0\<lparr>instance_base_url := Some url\<rparr> | _ \<Rightarrow> s0)
      in case ensureSuperuserId (user_drawn d) (tables s1) of (uid, db') \<Rightarrow>
           (case signPasswordSetupToken (env_jwt e) (env_crypto e) (master s1) (now_ms d) uid of
              Some token \<Rightarrow> (Setup_token token, s1\<lparr>tables := db'\<rparr>)
            | None \<Rightarrow> (Internal_error, s1\<lparr>tables := db'\<rparr>)))"

definition auth_setup :: "sign_in_env \<Rightarrow> draws \<Rightarrow> json option \<Rightarrow> sign_in \<Rightarrow> answer \<times> sign_in" where
  "auth_setup e d request s = (case request of
     None \<Rightarrow> (Refused 400 ''INVALID_REQUEST'', s)
   | Some Null \<Rightarrow> (Internal_error, s)
   | Some body \<Rightarrow>
       let locale_raw = member_of body (cps ''locale''); locale_read = (case locale_raw of None \<Rightarrow> None | Some l \<Rightarrow> parseLocaleSettingsPatch e l)
       in if locale_raw \<noteq> None \<and> locale_read = None then (Refused 400 ''INVALID_REQUEST'', s)
       else (case (hex_of 64 body ''public_key'', hex_of 64 body ''unlock_key'', hex_of 128 body ''signature'') of
           (Some pub, Some key, Some sig) \<Rightarrow>
             if mk_state (master s) \<noteq> Unset then (Refused 409 ''ALREADY_SET'', s)
             else if \<not> verifyAuthSignature (ed25519 (env_crypto e)) pub (buildSetupMessage pub key) sig then (Refused 401 ''INVALID_SIGNATURE'', s)
             else
               let s1 = s\<lparr>tables := snd (ensureSuperuserId (user_drawn d) (tables s)),
                     master := run_call 3 (env_crypto e) (iv_drawn d) (call_id d) (setup_call (call_id d) key pub (master s))\<rparr>
               in if \<not> answered (call_id d) (master s1) then (Refused 409 ''ALREADY_SET'', s1)
               else issuePasswordSetupToken e d
                 (case locale_read of Some l \<Rightarrow> if instance_locale s1 = None then s1\<lparr>instance_locale := Some l\<rparr> else s1 | None \<Rightarrow> s1)
         | _ \<Rightarrow> (Refused 400 ''INVALID_REQUEST'', s)))"

definition auth_challenge :: "draws \<Rightarrow> sign_in \<Rightarrow> answer \<times> sign_in" where
  "auth_challenge d s =
     (if mk_state (master s) = Unset then (Refused 409 ''SETUP_REQUIRED'', s)
      else (Challenge (id_drawn d) (nonce_drawn d), s\<lparr>authChallenges := issue (now_ms d) (id_drawn d) (nonce_drawn d) (authChallenges s)\<rparr>))"

definition auth_verify :: "sign_in_env \<Rightarrow> draws \<Rightarrow> json option \<Rightarrow> sign_in \<Rightarrow> answer \<times> sign_in" where
  "auth_verify e d request s = (case request of
     None \<Rightarrow> (Refused 400 ''INVALID_REQUEST'', s)
   | Some Null \<Rightarrow> (Internal_error, s)
   | Some body \<Rightarrow>
       let key = member_of body (cps ''unlock_key'')
       in case (truthy (text_of body ''challenge_id''), hex_of 128 body ''signature'') of
            (Some i, Some sig) \<Rightarrow>
              if key \<noteq> None \<and> hex_of 64 body ''unlock_key'' = None then (Refused 400 ''INVALID_REQUEST'', s)
              else if mk_state (master s) = Unset then (Refused 409 ''SETUP_REQUIRED'', s)
              else (case consume (now_ms d) i (authChallenges s) of
                  (None, cs) \<Rightarrow> (Refused 401 ''INVALID_CHALLENGE'', s\<lparr>authChallenges := cs\<rparr>)
                | (Some n, cs) \<Rightarrow>
                    let msg = (case hex_of 64 body ''unlock_key'' of Some k \<Rightarrow> buildUnlockMessage n k | None \<Rightarrow> buildLoginMessage n);
                        m1 = run_call 1 (env_crypto e) (iv_drawn d) (call_id d) (verifySignature (env_crypto e) (call_id d) (Some (msg, sig)) (master s));
                        s1 = s\<lparr>authChallenges := cs, master := m1\<rparr>
                    in if \<not> answered (call_id d) m1 then (Refused 401 ''INVALID_SIGNATURE'', s1)
                    else (case hex_of 64 body ''unlock_key'' of
                        None \<Rightarrow> if mk_state m1 = Locked then (Refused 401 ''UNLOCK_KEY_REQUIRED'', s1) else issuePasswordSetupToken e d s1
                      | Some k \<Rightarrow>
                          let m2 = run_call 3 (env_crypto e) (iv_drawn d) (Suc (call_id d)) (unlock (Suc (call_id d)) k m1); s2 = s1\<lparr>master := m2\<rparr>
                          in if \<not> answered (Suc (call_id d)) m2 then (Refused 401 ''INVALID_UNLOCK_KEY'', s2) else issuePasswordSetupToken e d s2))
          | _ \<Rightarrow> (Refused 400 ''INVALID_REQUEST'', s))"

definition ssoOwnsSignIn :: "sign_in_env \<Rightarrow> bool" where
  "ssoOwnsSignIn e \<longleftrightarrow> sso_config e \<noteq> None"

definition password_challenge :: "sign_in_env \<Rightarrow> draws \<Rightarrow> sign_in \<Rightarrow> answer \<times> sign_in" where
  "password_challenge e d s =
     (if ssoOwnsSignIn e then (Refused 409 ''SSO_ONLY'', s)
      else if mk_state (master s) \<noteq> Unlocked then (Refused 401 ''LOCKED'', s)
      else (case getAdminPasswordVerifier (tables s) of
          None \<Rightarrow> (Refused 409 ''PASSWORD_NOT_SET'', s)
        | Some (uid, salt, pub) \<Rightarrow> (Password_challenge (id_drawn d) (nonce_drawn d) salt,
            s\<lparr>authChallenges := issue (now_ms d) (id_drawn d) (nonce_drawn d) (authChallenges s)\<rparr>)))"

text \<open>
  \<open>/auth/password-verify\<close>: what happens before the body is read, and what happens once it has been. The time of the first half is the time
  a failure is recorded with.
\<close>

definition password_verify_start :: "sign_in_env \<Rightarrow> nat \<Rightarrow> sign_in \<Rightarrow> answer option" where
  "password_verify_start e now s =
     (if ssoOwnsSignIn e then Some (Refused 409 ''SSO_ONLY'')
      else if mk_state (master s) \<noteq> Unlocked then Some (Refused 401 ''LOCKED'')
      else if 0 < lockRemainingMs now (loginThrottle s) then Some (Refused 429 ''TOO_MANY_ATTEMPTS'')
      else None)"

definition password_verify_finish :: "sign_in_env \<Rightarrow> nat \<Rightarrow> draws \<Rightarrow> json option \<Rightarrow> sign_in \<Rightarrow> answer \<times> sign_in" where
  "password_verify_finish e started d request s = (case request of
     None \<Rightarrow> (Refused 400 ''INVALID_REQUEST'', s)
   | Some Null \<Rightarrow> (Internal_error, s)
   | Some body \<Rightarrow> (case (truthy (text_of body ''challenge_id''), hex_of 128 body ''signature'') of
       (Some i, Some sig) \<Rightarrow> (case consume (now_ms d) i (authChallenges s) of
           (None, cs) \<Rightarrow> (Refused 401 ''INVALID_CHALLENGE'', s\<lparr>authChallenges := cs\<rparr>)
         | (Some n, cs) \<Rightarrow>
             let s1 = s\<lparr>authChallenges := cs\<rparr>
             in case getAdminPasswordVerifier (tables s1) of
                  None \<Rightarrow> (Refused 409 ''PASSWORD_NOT_SET'', s1)
                | Some (uid, salt, pub) \<Rightarrow>
                    if \<not> verifyPasswordSignature (ed25519 (env_crypto e)) (buildPasswordLoginMessage n) sig (tables s1)
                    then (Refused 401 ''INVALID_CREDENTIALS'', s1\<lparr>loginThrottle := recordLoginFailure started (loginThrottle s1)\<rparr>)
                    else let s2 = s1\<lparr>loginThrottle := resetThrottle\<rparr> in (session_for e d uid s2, s2))
     | _ \<Rightarrow> (Refused 400 ''INVALID_REQUEST'', s)))"

definition password_verify :: "sign_in_env \<Rightarrow> draws \<Rightarrow> json option \<Rightarrow> sign_in \<Rightarrow> answer \<times> sign_in" where
  "password_verify e d request s = (case password_verify_start e (now_ms d) s of
     Some refusal \<Rightarrow> (refusal, s)
   | None \<Rightarrow> password_verify_finish e (now_ms d) d request s)"

text \<open>The proof of the current password a change by a session needs: a refusal, or nothing when it is given.\<close>

definition current_password :: "sign_in_env \<Rightarrow> draws \<Rightarrow> json \<Rightarrow> sign_in \<Rightarrow> answer option \<times> sign_in" where
  "current_password e d body s =
     (if 0 < lockRemainingMs (now_ms d) (loginThrottle s) then (Some (Refused 429 ''TOO_MANY_ATTEMPTS''), s)
      else (case (truthy (text_of body ''current_challenge_id''), hex_of 128 body ''current_signature'') of
          (Some i, Some sig) \<Rightarrow> (case consume (now_ms d) i (authChallenges s) of
              (None, cs) \<Rightarrow> (Some (Refused 401 ''INVALID_CHALLENGE''), s\<lparr>authChallenges := cs\<rparr>)
            | (Some n, cs) \<Rightarrow>
                let s1 = s\<lparr>authChallenges := cs\<rparr>
                in if \<not> verifyPasswordSignature (ed25519 (env_crypto e)) (buildPasswordLoginMessage n) sig (tables s1)
                   then (Some (Refused 401 ''INVALID_CREDENTIALS''), s1\<lparr>loginThrottle := recordLoginFailure (now_ms d) (loginThrottle s1)\<rparr>)
                   else (None, s1))
        | _ \<Rightarrow> (Some (Refused 400 ''CURRENT_PASSWORD_REQUIRED''), s)))"

definition auth_password :: "sign_in_env \<Rightarrow> draws \<Rightarrow> utext option \<Rightarrow> json option \<Rightarrow> sign_in \<Rightarrow> answer \<times> sign_in" where
  "auth_password e d header request s =
     (if ssoOwnsSignIn e then (Refused 409 ''SSO_ONLY'', s)
      else if mk_state (master s) \<noteq> Unlocked then (Refused 401 ''LOCKED'', s)
      else (case bearer header of
          None \<Rightarrow> (Refused 401 ''UNAUTHORIZED'', s)
        | Some token \<Rightarrow> (case resolvePasswordMutationUserId (env_jwt e) (env_crypto e) (now_ms d) token (master s) (tables s) of
            None \<Rightarrow> (Refused 401 ''UNAUTHORIZED'', s)
          | Some (uid, isSetupScoped) \<Rightarrow> (case request of
              None \<Rightarrow> (Refused 400 ''INVALID_REQUEST'', s)
            | Some Null \<Rightarrow> (Internal_error, s)
            | Some body \<Rightarrow> (case (hex_of 32 body ''salt'', hex_of 64 body ''public_key'', hex_of 128 body ''signature'') of
                (Some salt, Some pub, Some sig) \<Rightarrow>
                  (case (if \<not> isSetupScoped \<and> getAdminPasswordVerifier (tables s) \<noteq> None then current_password e d body s else (None, s)) of
                     (Some refusal, s1) \<Rightarrow> (refusal, s1)
                   | (None, s1) \<Rightarrow>
                       if \<not> verifyAuthSignature (ed25519 (env_crypto e)) pub (buildPasswordSetupMessage pub salt) sig
                       then (Refused 401 ''INVALID_SIGNATURE'', s1)
                       else let s2 = s1\<lparr>tables := setAdminPasswordVerifier uid salt pub (tables s1), loginThrottle := resetThrottle\<rparr>
                         in (session_for e d uid s2, s2))
              | _ \<Rightarrow> (Refused 400 ''INVALID_REQUEST'', s))))))"

definition ssoRejected :: "nat \<Rightarrow> sign_in \<Rightarrow> answer \<times> sign_in" where
  "ssoRejected now s =
     (let s1 = s\<lparr>sso_of := (sso_of s)\<lparr>ssoThrottle := recordSsoFailure now (ssoThrottle (sso_of s))\<rparr>\<rparr>
      in (if 0 < lockRemainingMs now (ssoThrottle (sso_of s1)) then Refused 429 ''TOO_MANY_ATTEMPTS'' else Refused 401 ''INVALID_TOKEN'', s1))"

definition resetSsoThrottle :: "sign_in \<Rightarrow> sign_in" where
  "resetSsoThrottle s = s\<lparr>sso_of := (sso_of s)\<lparr>ssoThrottle := resetThrottle\<rparr>\<rparr>"

definition auth_sso :: "sign_in_env \<Rightarrow> draws \<Rightarrow> json option \<Rightarrow> sign_in \<Rightarrow> answer \<times> sign_in" where
  "auth_sso e d request s = (case sso_config e of
     None \<Rightarrow> (Refused 404 ''NOT_FOUND'', s)
   | Some config \<Rightarrow>
       if mk_state (master s) = Unset then (Refused 409 ''SETUP_REQUIRED'', s)
       else if request = Some Null then (Internal_error, s)
       else (case (case request of None \<Rightarrow> None | Some body \<Rightarrow> truthy (text_of body ''token'')) of
           None \<Rightarrow> (Refused 400 ''INVALID_REQUEST'', s)
         | Some token \<Rightarrow> (case verifySsoAssertion (env_parse e) (ed25519 (env_crypto e)) token config (now_ms d) (sso_of s) of
             (Inl reason, sso') \<Rightarrow> ssoRejected (now_ms d) (s\<lparr>sso_of := sso'\<rparr>)
           | (Inr p, sso') \<Rightarrow>
               let s1 = resetSsoThrottle (s\<lparr>sso_of := sso'\<rparr>)
               in if mk_state (master s1) \<noteq> Unlocked
                  then (Parked (id_drawn d), s1\<lparr>sso_of := issueSsoHandle (id_drawn d) (sub p) (now_ms d) (sso_of s1)\<rparr>)
                  else (case getSuperuserId (tables s1) of
                      None \<Rightarrow> (Refused 409 ''SETUP_REQUIRED'', s1)
                    | Some uid \<Rightarrow> (session_for e d uid s1, s1)))))"

definition auth_sso_session :: "sign_in_env \<Rightarrow> draws \<Rightarrow> json option \<Rightarrow> sign_in \<Rightarrow> answer \<times> sign_in" where
  "auth_sso_session e d request s = (case sso_config e of
     None \<Rightarrow> (Refused 404 ''NOT_FOUND'', s)
   | Some config \<Rightarrow>
       if mk_state (master s) \<noteq> Unlocked then (Refused 401 ''LOCKED'', s)
       else if request = Some Null then (Internal_error, s)
       else (case (case request of None \<Rightarrow> None | Some body \<Rightarrow> truthy (text_of body ''handle'')) of
           None \<Rightarrow> (Refused 400 ''INVALID_REQUEST'', s)
         | Some handle \<Rightarrow> (case consumeSsoHandle handle (now_ms d) (sso_of s) of
             (subject, sso') \<Rightarrow>
               let s1 = s\<lparr>sso_of := sso'\<rparr>
               in case truthy subject of
                    None \<Rightarrow> ssoRejected (now_ms d) s1
                  | Some subj \<Rightarrow>
                      if subj \<noteq> ownerSubject config then ssoRejected (now_ms d) s1
                      else (case getSuperuserId (tables s1) of
                          None \<Rightarrow> (Refused 409 ''SETUP_REQUIRED'', s1)
                        | Some uid \<Rightarrow> let s2 = resetSsoThrottle s1 in (session_for e d uid s2, s2)))))"

section \<open>Requests\<close>

datatype auth_request =
    Post_setup "json option"
  | Post_challenge
  | Post_verify "json option"
  | Post_password_challenge
  | Post_password_verify "json option"
  | Post_password "utext option" "json option"
  | Post_sso "json option"
  | Post_sso_session "json option"

fun handle_auth :: "sign_in_env \<Rightarrow> draws \<Rightarrow> auth_request \<Rightarrow> sign_in \<Rightarrow> answer \<times> sign_in" where
  "handle_auth e d (Post_setup request) s = auth_setup e d request s"
| "handle_auth e d Post_challenge s = auth_challenge d s"
| "handle_auth e d (Post_verify request) s = auth_verify e d request s"
| "handle_auth e d Post_password_challenge s = password_challenge e d s"
| "handle_auth e d (Post_password_verify request) s = password_verify e d request s"
| "handle_auth e d (Post_password header request) s = auth_password e d header request s"
| "handle_auth e d (Post_sso request) s = auth_sso e d request s"
| "handle_auth e d (Post_sso_session request) s = auth_sso_session e d request s"

definition handle_all :: "sign_in_env \<Rightarrow> (draws \<times> auth_request) list \<Rightarrow> sign_in \<Rightarrow> sign_in" where
  "handle_all e rs s = fold (\<lambda>(d, r) s. snd (handle_auth e d r s)) rs s"

section \<open>Tickets\<close>

text \<open>
  Challenges and handles are tickets: one is issued under an identifier and whoever presents the identifier takes it. The contract of such a
  store, and what follows from it for every sequence of issues and presentations.
\<close>

datatype ('a, 'b, 'i) ticket_op = Issue 'a 'i | Present 'b 'i

fun ticket_run :: "('a \<Rightarrow> 'i \<Rightarrow> 's \<Rightarrow> 's) \<Rightarrow> ('b \<Rightarrow> 'i \<Rightarrow> 's \<Rightarrow> 'v option \<times> 's) \<Rightarrow> ('a, 'b, 'i) ticket_op list \<Rightarrow> 's \<Rightarrow> 'i list" where
  "ticket_run put get [] s = []"
| "ticket_run put get (Issue a i # ops) s = ticket_run put get ops (put a i s)"
| "ticket_run put get (Present b i # ops) s = (case get b i s of
     (Some v, s') \<Rightarrow> i # ticket_run put get ops s'
   | (None, s') \<Rightarrow> ticket_run put get ops s')"

fun issued_ids :: "('a, 'b, 'i) ticket_op list \<Rightarrow> 'i list" where
  "issued_ids [] = []"
| "issued_ids (Issue a i # ops) = i # issued_ids ops"
| "issued_ids (Present b i # ops) = issued_ids ops"

locale ticket_store =
  fixes present :: "'s \<Rightarrow> 'i \<Rightarrow> bool" and put :: "'a \<Rightarrow> 'i \<Rightarrow> 's \<Rightarrow> 's" and get :: "'b \<Rightarrow> 'i \<Rightarrow> 's \<Rightarrow> 'v option \<times> 's"
  assumes put_one: "present (put a i s) j \<Longrightarrow> present s j \<or> j = i"
    and get_present: "get b i s = (Some v, s') \<Longrightarrow> present s i"
    and get_removes: "get b i s = (r, s') \<Longrightarrow> \<not> present s' i"
    and get_others: "get b i s = (r, s') \<Longrightarrow> present s' j \<Longrightarrow> present s j"
begin

lemma taken_at_most_issued:
  "count_list (ticket_run put get ops s) i \<le> (if present s i then 1 else 0) + count_list (issued_ids ops) i"
proof (induction ops arbitrary: s)
  case (Cons op ops)
  show ?case
  proof (cases op)
    case (Issue a j)
    then show ?thesis using Cons [of "put a j s"] put_one [of a j s i] by (auto split: if_splits)
  next
    case (Present b j)
    obtain r s' where g: "get b j s = (r, s')" by (cases "get b j s")
    have "\<not> present s' j" "present s' i \<Longrightarrow> present s i" using get_removes [OF g] get_others [OF g] by auto
    moreover have "r \<noteq> None \<Longrightarrow> present s j" using get_present [of b j s] g by auto
    ultimately show ?thesis using Cons [of s'] g unfolding Present by (auto split: option.splits if_splits)
  qed
qed simp

lemma issued_once_taken_once: "\<not> present s i \<Longrightarrow> count_list (issued_ids ops) i \<le> 1 \<Longrightarrow> count_list (ticket_run put get ops s) i \<le> 1"
  using taken_at_most_issued [of ops s i] by simp

end

lemma evict_subset: "set (evict m es) \<subseteq> set es"
  by (induction m es rule: evict.induct) auto

lemma evict_length: "0 < m \<Longrightarrow> length (evict m es) < m"
  by (induction m es rule: evict.induct) auto

lemma map_of_Some_fst: "map_of s i = Some x \<Longrightarrow> i \<in> fst ` set s"
  by (metis domI dom_map_of_conv_image_fst)

definition challenge_present :: "challenges \<Rightarrow> utext \<Rightarrow> bool" where
  "challenge_present es i \<longleftrightarrow> i \<in> fst ` set es"

interpretation challenge_tickets: ticket_store challenge_present "\<lambda>(now, n) i. issue now i n" consume
proof
  show "challenge_present ((case a of (now, n) \<Rightarrow> \<lambda>i. issue now i n) i s) j \<Longrightarrow> challenge_present s j \<or> j = i" for a i s j
    using evict_subset [of DEFAULT_MAX_OUTSTANDING "sweep (fst a) s"]
    by (cases a) (auto simp: challenge_present_def issue_def sweep_def dom_update)
qed (auto simp: challenge_present_def consume_def AList.delete_eq map_of_eq_None_iff dest: map_of_Some_fst split: option.splits)

definition handle_present :: "sso_state \<Rightarrow> utext \<Rightarrow> bool" where
  "handle_present st h \<longleftrightarrow> h \<in> fst ` set (handles st)"

interpretation handle_tickets: ticket_store handle_present "\<lambda>(subject, now) h. issueSsoHandle h subject now" "\<lambda>now h. consumeSsoHandle h now"
proof
  show "handle_present ((case a of (subject, now) \<Rightarrow> \<lambda>h. issueSsoHandle h subject now) i s) j \<Longrightarrow> handle_present s j \<or> j = i" for a i s j
    by (cases a) (auto simp: handle_present_def issueSsoHandle_def bm_set_def Let_def AList.delete_eq dest!: in_set_dropD)
qed (auto simp: handle_present_def consumeSsoHandle_def bm_get_def bm_delete_def AList.delete_eq map_of_eq_None_iff dest: map_of_Some_fst split: option.splits if_splits)

lemma consumed_in_time: "consume now i es = (Some n, es') \<Longrightarrow> \<exists>e. map_of es i = Some e \<and> nonce e = n \<and> now \<le> expiresAt e"
  by (auto simp: consume_def split: option.splits if_splits)

text \<open>
  (C31) A challenge is answered once and a handle is redeemed once. Over any sequence of issues and presentations, at any times and with
  evictions in between, an identifier that is issued once is honoured at most once, whether it is a login challenge or the handle of a parked
  identity; and never more challenges are outstanding than the ceiling.
\<close>

theorem tickets_spent_once:
  assumes "count_list (issued_ids ops) i \<le> 1" "count_list (issued_ids ops') h \<le> 1" "handles st = []"
  shows "count_list (ticket_run (\<lambda>(now, n) i. issue now i n) consume ops []) i \<le> 1
    \<and> count_list (ticket_run (\<lambda>(subject, now) h. issueSsoHandle h subject now) (\<lambda>now h. consumeSsoHandle h now) ops' st) h \<le> 1
    \<and> length (issue now j n es) \<le> DEFAULT_MAX_OUTSTANDING"
proof (intro conjI)
  show "count_list (ticket_run (\<lambda>(now, n) i. issue now i n) consume ops []) i \<le> 1"
    using assms(1) by (intro challenge_tickets.issued_once_taken_once) (simp_all add: challenge_present_def)
  show "count_list (ticket_run (\<lambda>(subject, now) h. issueSsoHandle h subject now) (\<lambda>now h. consumeSsoHandle h now) ops' st) h \<le> 1"
    using assms(2,3) by (intro handle_tickets.issued_once_taken_once) (simp_all add: handle_present_def)
  have "length (AList.update j v xs) \<le> Suc (length xs)" for v and xs :: challenges by (induction xs) auto
  from this [of _ "evict DEFAULT_MAX_OUTSTANDING (sweep now es)"] show "length (issue now j n es) \<le> DEFAULT_MAX_OUTSTANDING"
    using evict_length [of DEFAULT_MAX_OUTSTANDING "sweep now es"] unfolding issue_def by (metis DEFAULT_MAX_OUTSTANDING_def Suc_leI le_trans zero_less_numeral)
qed

theorem tickets_spent_once_witness:
  "let ops = [Issue (0, cps ''n'') (cps ''c''), Present 1 (cps ''c''), Present 2 (cps ''c'')];
       st = \<lparr>issuerKeyCache = None, replayCache = [], handles = [], ssoThrottle = resetThrottle\<rparr>
   in ticket_run (\<lambda>(now, n) i. issue now i n) consume ops [] = [cps ''c''] \<and>
      count_list (ticket_run (\<lambda>(now, n) i. issue now i n) consume ops []) (cps ''c'') \<le> 1 \<and>
      count_list (ticket_run (\<lambda>(subject, now) h. issueSsoHandle h subject now) (\<lambda>now h. consumeSsoHandle h now) [Issue (cps ''o'', 0) (cps ''h'')] st) (cps ''h'') \<le> 1"
  unfolding Let_def
  using tickets_spent_once [of "[Issue (0, cps ''n'') (cps ''c''), Present 1 (cps ''c''), Present 2 (cps ''c'')]" "cps ''c''"
      "[Issue (cps ''o'', 0) (cps ''h'')]" "cps ''h''" "\<lparr>issuerKeyCache = None, replayCache = [], handles = [], ssoThrottle = resetThrottle\<rparr>"]
  by (simp add: issue_def consume_def sweep_def DEFAULT_TTL_MS_def)

section \<open>An assertion is spent\<close>

text \<open>
  A token's identifier stays in the cache, with a time its token cannot outlive, until as many others as the cache holds have been touched after it:
  \<open>spent j x n m\<close> says it is there with at most \<open>n\<close> entries after it.
\<close>

definition spent :: "utext \<Rightarrow> nat \<Rightarrow> nat \<Rightarrow> nat bounded_map \<Rightarrow> bool" where
  "spent j x n m \<longleftrightarrow> length m \<le> REPLAY_CACHE_MAX_ENTRIES \<and>
     (\<exists>xs t ys. m = xs @ (j, t) # ys \<and> (x + 31) * 1000 \<le> t \<and> length ys \<le> n \<and> j \<notin> fst ` set xs \<and> j \<notin> fst ` set ys)"

lemma spentI: "m = xs @ (j, t) # ys \<Longrightarrow> (x + 31) * 1000 \<le> t \<Longrightarrow> length ys \<le> n \<Longrightarrow> j \<notin> fst ` set xs \<Longrightarrow> j \<notin> fst ` set ys \<Longrightarrow>
    length m \<le> REPLAY_CACHE_MAX_ENTRIES \<Longrightarrow> spent j x n m"
  unfolding spent_def by blast

lemma spent_lookup: "spent j x n m \<Longrightarrow> \<exists>t. map_of m j = Some t \<and> (x + 31) * 1000 \<le> t"
proof -
  assume "spent j x n m"
  then obtain xs t ys where "m = xs @ (j, t) # ys" "(x + 31) * 1000 \<le> t" "j \<notin> fst ` set xs" unfolding spent_def by blast
  moreover from this have "map_of xs j = None" by (simp add: map_of_eq_None_iff)
  ultimately show ?thesis by (simp add: map_add_def)
qed

lemma spent_mono: "spent j x n m \<Longrightarrow> n \<le> n' \<Longrightarrow> spent j x n' m"
proof -
  assume "spent j x n m" "n \<le> n'"
  then obtain xs t ys where "m = xs @ (j, t) # ys" "(x + 31) * 1000 \<le> t" "length ys \<le> n'" "j \<notin> fst ` set xs" "j \<notin> fst ` set ys"
      "length m \<le> REPLAY_CACHE_MAX_ENTRIES" unfolding spent_def using le_trans by blast
  then show ?thesis by (rule spentI)
qed

text \<open>Setting an identifier after it was read is setting it.\<close>

lemma set_get: "bm_set c k v (snd (bm_get k m)) = bm_set c k v m"
  by (auto simp: bm_set_def bm_get_def AList.delete_eq split: option.splits)

lemma spent_own_get:
  assumes "spent j x n m"
  shows "spent j x n (snd (bm_get j m))"
proof -
  obtain xs t ys where m: "m = xs @ (j, t) # ys" "(x + 31) * 1000 \<le> t" "j \<notin> fst ` set xs" "j \<notin> fst ` set ys" "length m \<le> REPLAY_CACHE_MAX_ENTRIES"
    using assms unfolding spent_def by blast
  have "filter (\<lambda>e. j \<noteq> fst e) xs = xs" "filter (\<lambda>e. j \<noteq> fst e) ys = ys" using m(3,4) by (auto simp: filter_id_conv image_iff)
  moreover have "map_of m j = Some t" using m(1,3) map_of_eq_None_iff [of xs j] by (simp add: map_add_def)
  ultimately have g: "snd (bm_get j m) = (xs @ ys) @ (j, t) # []" unfolding m(1) by (simp add: bm_get_def AList.delete_eq split_def)
  then show ?thesis by (rule spentI) (use m g in auto)
qed

lemma own_set:
  assumes "length m \<le> REPLAY_CACHE_MAX_ENTRIES" "(x + 31) * 1000 \<le> t"
  shows "spent j x n (bm_set REPLAY_CACHE_MAX_ENTRIES j t m)"
proof -
  let ?r = "AList.delete j m" and ?d = "Suc (length (AList.delete j m)) - REPLAY_CACHE_MAX_ENTRIES"
  have "length ?r \<le> length m" by (simp add: AList.delete_eq)
  then have "?d \<le> length ?r" using assms(1) by (simp add: REPLAY_CACHE_MAX_ENTRIES_def)
  then have s: "bm_set REPLAY_CACHE_MAX_ENTRIES j t m = drop ?d ?r @ (j, t) # []" by (simp add: bm_set_def Let_def)
  have "length (drop ?d ?r @ (j, t) # []) \<le> REPLAY_CACHE_MAX_ENTRIES" by (simp add: REPLAY_CACHE_MAX_ENTRIES_def)
  moreover have "j \<notin> fst ` set (drop ?d ?r)" by (auto simp: AList.delete_eq dest: in_set_dropD)
  ultimately show ?thesis using assms(2) by (intro spentI [OF s]) (simp_all add: s)
qed

lemma other_touch:
  assumes "spent j x n m" "k \<noteq> j" "Suc n < REPLAY_CACHE_MAX_ENTRIES"
  shows "spent j x (Suc n) (bm_set REPLAY_CACHE_MAX_ENTRIES k v m)" and "spent j x (Suc n) (snd (bm_get k m))"
proof -
  obtain xs t ys where m: "m = xs @ (j, t) # ys" "(x + 31) * 1000 \<le> t" "j \<notin> fst ` set xs" "j \<notin> fst ` set ys" "length ys \<le> n"
      "length m \<le> REPLAY_CACHE_MAX_ENTRIES" using assms(1) unfolding spent_def by blast
  let ?xs = "AList.delete k xs" and ?ys = "\<lambda>w. AList.delete k ys @ [(k, w)]"
  have d: "AList.delete k m @ [(k, w)] = ?xs @ (j, t) # ?ys w" for w unfolding m(1) using assms(2) by (simp add: AList.delete_eq)
  have l: "length (?ys w) \<le> Suc n" "length (AList.delete k m) \<le> length m" for w using m(5) by (auto simp: AList.delete_eq intro: le_trans [OF length_filter_le])
  have j: "j \<notin> fst ` set ?xs" "j \<notin> fst ` set (?ys w)" for w using m(3,4) assms(2) by (auto simp: AList.delete_eq)
  let ?d = "Suc (length (AList.delete k m)) - REPLAY_CACHE_MAX_ENTRIES"
  have "length (?xs @ (j, t) # ?ys v) = Suc (length (AList.delete k m))" using arg_cong [OF d [of v], of length] by simp
  then have le: "?d \<le> length ?xs" using l(1) [of v] l(2) assms(3) m(6) by simp
  have "bm_set REPLAY_CACHE_MAX_ENTRIES k v m = drop ?d ?xs @ (j, t) # ?ys v" using le d [of v] by (simp add: bm_set_def Let_def)
  moreover have "length (drop ?d ?xs @ (j, t) # ?ys v) \<le> REPLAY_CACHE_MAX_ENTRIES"
    using \<open>length (?xs @ (j, t) # ?ys v) = Suc (length (AList.delete k m))\<close> le by simp
  ultimately show "spent j x (Suc n) (bm_set REPLAY_CACHE_MAX_ENTRIES k v m)"
    using m(2) l(1) j by (intro spentI [of _ "drop ?d ?xs" j t "?ys v"]) (auto dest: in_set_dropD)
  show "spent j x (Suc n) (snd (bm_get k m))"
  proof (cases "map_of m k")
    case (Some w)
    then have "length (AList.delete k m) < length m" by (auto simp: AList.delete_eq dest!: map_of_SomeD intro: length_filter_less)
    then have "length (AList.delete k m @ [(k, w)]) \<le> REPLAY_CACHE_MAX_ENTRIES" using m(6) by simp
    moreover have "snd (bm_get k m) = AList.delete k m @ [(k, w)]" using Some by (simp add: bm_get_def)
    ultimately show ?thesis using m(2) l(1) [of w] j(1) j(2) [of w] unfolding d by (intro spentI [of _ ?xs j t "?ys w"]) simp_all
  next
    case None
    then show ?thesis using spent_mono [OF assms(1), of "Suc n"] by (simp add: bm_get_def)
  qed
qed

text \<open>What a presentation does to the cache: nothing, a reading, or a reading and a setting.\<close>

lemma verify_cases:
  assumes "verifySsoAssertion parse ed token config now st = (r, st')"
  shows "replayCache st' = replayCache st \<and> (\<forall>p. r \<noteq> Inr p)
    \<or> (\<exists>q :: SsoTokenPayload. replayCache st' = snd (bm_get (jti q) (replayCache st)) \<and> (\<forall>p. r \<noteq> Inr p))
    \<or> (\<exists>q. r = Inr q \<and> checkSsoTokenFreshness q (now div 1000) = Fresh \<and> map_option payload (parseSsoToken parse token) = Some q
        \<and> sub q = ownerSubject config \<and> (\<forall>t. map_of (replayCache st) (jti q) = Some t \<longrightarrow> t \<le> now)
        \<and> replayCache st' = bm_set REPLAY_CACHE_MAX_ENTRIES (jti q) ((SsoTokenPayload.exp q + SSO_TOKEN_CLOCK_SKEW_SECONDS + 1) * 1000) (replayCache st))"
proof (cases "parseSsoToken parse token")
  case None
  then show ?thesis using assms by (auto simp: verifySsoAssertion_def)
next
  case (Some parsed)
  let ?p = "payload parsed"
  obtain keys cache where k: "issuerKeys config (issuerKeyCache st) = (keys, cache)" by (cases "issuerKeys config (issuerKeyCache st)")
  obtain got replay where g: "bm_get (jti ?p) (replayCache st) = (got, replay)" by (cases "bm_get (jti ?p) (replayCache st)")
  have got: "got = map_of (replayCache st) (jti ?p)" using g by (auto simp: bm_get_def split: option.splits)
  note v = assms [unfolded verifySsoAssertion_def Some option.case Let_def k prod.case]
  have replay: "replay = snd (bm_get (jti ?p) (replayCache st))" using g by simp
  show ?thesis
  proof (cases r)
    case (Inl reason)
    then have "replayCache st' = replayCache st \<or> replayCache st' = replay"
      using v g by (auto split: option.splits if_splits SsoTokenFreshness.splits)
    then have "replayCache st' = replayCache st \<or> (\<exists>q :: SsoTokenPayload. replayCache st' = snd (bm_get (jti q) (replayCache st)))" using replay by blast
    then show ?thesis using Inl by simp
  next
    case (Inr q)
    then have "q = ?p" "checkSsoTokenFreshness ?p (now div 1000) = Fresh" "sub ?p = ownerSubject config" "\<forall>t. got = Some t \<longrightarrow> t \<le> now"
        "replayCache st' = bm_set REPLAY_CACHE_MAX_ENTRIES (jti ?p) ((SsoTokenPayload.exp ?p + SSO_TOKEN_CLOCK_SKEW_SECONDS + 1) * 1000) replay"
      using v g by (auto split: option.splits if_splits SsoTokenFreshness.splits)
    then show ?thesis using Inr Some got unfolding replay set_get by auto
  qed
qed

lemma fresh_until: "checkSsoTokenFreshness q (now div 1000) = Fresh \<Longrightarrow> now < (SsoTokenPayload.exp q + 31) * 1000"
  using div_less_iff_less_mult [of 1000 now "SsoTokenPayload.exp q + 31"] by (simp add: freshness_window)

lemma spent_step:
  assumes "verifySsoAssertion parse ed token config now st = (r, st')" "spent j x n (replayCache st)" "Suc n < REPLAY_CACHE_MAX_ENTRIES"
  shows "spent j x (Suc n) (replayCache st')"
  using verify_cases [OF assms(1)]
proof (elim disjE exE conjE)
  assume "replayCache st' = replayCache st"
  then show ?thesis using spent_mono [OF assms(2)] by simp
next
  fix q :: SsoTokenPayload assume c: "replayCache st' = snd (bm_get (jti q) (replayCache st))"
  show ?thesis using spent_mono [OF spent_own_get [OF assms(2)]] other_touch(2) [OF assms(2) _ assms(3)] unfolding c by (cases "jti q = j") auto
next
  fix q assume q: "checkSsoTokenFreshness q (now div 1000) = Fresh" "\<forall>t. map_of (replayCache st) (jti q) = Some t \<longrightarrow> t \<le> now"
    and c: "replayCache st' = bm_set REPLAY_CACHE_MAX_ENTRIES (jti q) ((SsoTokenPayload.exp q + SSO_TOKEN_CLOCK_SKEW_SECONDS + 1) * 1000) (replayCache st)"
  show ?thesis
  proof (cases "jti q = j")
    case True
    obtain t where t: "map_of (replayCache st) j = Some t" "(x + 31) * 1000 \<le> t" using spent_lookup [OF assms(2)] by blast
    then have "(x + 31) * 1000 \<le> now" using q(2) True by force
    moreover have "now < (SsoTokenPayload.exp q + 31) * 1000" using q(1) by (rule fresh_until)
    ultimately have "(x + 31) * 1000 \<le> (SsoTokenPayload.exp q + SSO_TOKEN_CLOCK_SKEW_SECONDS + 1) * 1000" by (simp add: SSO_TOKEN_CLOCK_SKEW_SECONDS_def)
    then show ?thesis using assms(2) unfolding c True by (intro own_set) (simp_all add: spent_def)
  qed (use other_touch(1) [OF assms(2) _ assms(3)] c in simp)
qed

text \<open>Presentations one after the other.\<close>

definition present_all :: "(bytes \<Rightarrow> json option) \<Rightarrow> ed25519_verify \<Rightarrow> SsoConfig \<Rightarrow> (utext \<times> nat) list \<Rightarrow> sso_state \<Rightarrow> sso_state" where
  "present_all parse ed config ts st = fold (\<lambda>(token, now) st. snd (verifySsoAssertion parse ed token config now st)) ts st"

lemma spent_all:
  "spent j x n (replayCache st) \<Longrightarrow> n + length ts < REPLAY_CACHE_MAX_ENTRIES \<Longrightarrow> spent j x (n + length ts) (replayCache (present_all parse ed config ts st))"
proof (induction ts arbitrary: n st)
  case (Cons tn ts)
  obtain token now where tn: "tn = (token, now)" by (cases tn)
  have "spent j x (Suc n) (replayCache (snd (verifySsoAssertion parse ed token config now st)))"
    using Cons.prems by (intro spent_step [of parse ed token config now st]) (simp_all add: prod_eq_iff)
  from Cons.IH [OF this] Cons.prems show ?case by (simp add: present_all_def tn)
qed (simp add: present_all_def)

lemma map_of_touched: "map_of (snd (bm_get k m)) = map_of m"
  by (auto simp: bm_get_def map_of_append delete_conv' fun_eq_iff map_add_def split: option.splits)

lemma refusal_spends_nothing:
  "verifySsoAssertion parse ed token config now st = (Inl reason, st') \<Longrightarrow> map_of (replayCache st') = map_of (replayCache st)"
  by (drule verify_cases) (auto simp: map_of_touched)

text \<open>
  (C19) An assertion of the issuer is accepted once. After a token has been accepted, no text that carries the same identifier and expiry is
  accepted again, whatever the clock says, as long as fewer than 1024 tokens have been presented in between: the entry outlives the last second in
  which the token is fresh. And a presentation that is refused, for whatever reason, spends nothing: every identifier is remembered
  afterwards until the time it was remembered until before, and no other is.
\<close>

theorem sso_token_accepted_once:
  assumes accepted: "verifySsoAssertion parse ed token config now st = (Inr p, st1)" and size: "length (replayCache st) \<le> REPLAY_CACHE_MAX_ENTRIES"
    and few: "length ts < REPLAY_CACHE_MAX_ENTRIES"
    and again: "verifySsoAssertion parse ed token' config now' (present_all parse ed config ts st1) = (r, st2)"
    and same: "parseSsoToken parse token' = Some parsed" "jti (payload parsed) = jti p" "SsoTokenPayload.exp (payload parsed) = SsoTokenPayload.exp p"
  shows "(\<exists>reason. r = Inl reason)
    \<and> (\<forall>tok now0 st3 reason st4. verifySsoAssertion parse ed tok config now0 st3 = (Inl reason, st4) \<longrightarrow>
         map_of (replayCache st4) = map_of (replayCache st3))"
proof
  show "\<exists>reason. r = Inl reason"
  proof (rule ccontr)
    assume "\<not> (\<exists>reason. r = Inl reason)"
    then obtain q where r: "r = Inr q" by (cases r) auto
    have "spent (jti p) (SsoTokenPayload.exp p) 0 (replayCache st1)"
      using verify_cases [OF accepted] size by (auto intro!: own_set simp: SSO_TOKEN_CLOCK_SKEW_SECONDS_def)
    from spent_lookup [OF spent_all [OF this, of ts parse ed config]] few obtain t
      where t: "map_of (replayCache (present_all parse ed config ts st1)) (jti p) = Some t" "(SsoTokenPayload.exp p + 31) * 1000 \<le> t" by auto
    have "q = payload parsed" "checkSsoTokenFreshness q (now' div 1000) = Fresh" "t \<le> now'"
      using verify_cases [OF again] r same t(1) by auto
    then show False using fresh_until [of q now'] t(2) same(3) by simp
  qed
qed (use refusal_spends_nothing in blast)

section \<open>Sessions\<close>

text \<open>What a session rests on, request by request.\<close>

definition password_proof :: "sign_in_env \<Rightarrow> draws \<Rightarrow> utext option \<Rightarrow> utext option \<Rightarrow> sign_in \<Rightarrow> bool" where
  "password_proof e d challenge_id sig s \<longleftrightarrow> lockRemainingMs (now_ms d) (loginThrottle s) = 0 \<and>
     (\<exists>i sg n. challenge_id = Some i \<and> sig = Some sg \<and> fst (consume (now_ms d) i (authChallenges s)) = Some n
        \<and> verifyPasswordSignature (ed25519 (env_crypto e)) (buildPasswordLoginMessage n) sg (tables s))"

fun session_proof :: "sign_in_env \<Rightarrow> draws \<Rightarrow> auth_request \<Rightarrow> sign_in \<Rightarrow> utext \<Rightarrow> bool" where
  "session_proof e d (Post_password_verify (Some body)) s uid \<longleftrightarrow> sso_config e = None
     \<and> password_proof e d (text_of body ''challenge_id'') (hex_of 128 body ''signature'') s
     \<and> (\<exists>salt pub. getAdminPasswordVerifier (tables s) = Some (uid, salt, pub))"
| "session_proof e d (Post_password header (Some body)) s uid \<longleftrightarrow> sso_config e = None
     \<and> (\<exists>token scoped. header = Some (cps ''Bearer '' @ token)
          \<and> resolvePasswordMutationUserId (env_jwt e) (env_crypto e) (now_ms d) token (master s) (tables s) = Some (uid, scoped)
          \<and> (scoped \<or> getAdminPasswordVerifier (tables s) = None
               \<or> password_proof e d (text_of body ''current_challenge_id'') (hex_of 128 body ''current_signature'') s))"
| "session_proof e d (Post_sso (Some body)) s uid \<longleftrightarrow> (\<exists>config token p st. sso_config e = Some config \<and> text_of body ''token'' = Some token
     \<and> verifySsoAssertion (env_parse e) (ed25519 (env_crypto e)) token config (now_ms d) (sso_of s) = (Inr p, st) \<and> sub p = ownerSubject config
     \<and> getSuperuserId (tables s) = Some uid)"
| "session_proof e d (Post_sso_session (Some body)) s uid \<longleftrightarrow> (\<exists>config h until. sso_config e = Some config \<and> text_of body ''handle'' = Some h
     \<and> map_of (handles (sso_of s)) h = Some (ownerSubject config, until) \<and> now_ms d < until \<and> getSuperuserId (tables s) = Some uid)"
| "session_proof e d _ s uid \<longleftrightarrow> False"

lemma truthy_Some: "truthy t = Some x \<longleftrightarrow> t = Some x \<and> x \<noteq> []"
  by (auto simp: truthy_def split: option.splits)

lemma bearer_Some: "bearer header = Some token \<longleftrightarrow> header = Some (cps ''Bearer '' @ token)"
  by (auto simp: bearer_def startsWith_iff cps_Cons split: option.splits)

lemma session_for_Session: "session_for e d uid s = Session token \<longleftrightarrow> signAdminJwt (env_jwt e) (env_crypto e) (master s) (now_ms d) uid = Some token"
  by (auto simp: session_for_def split: option.splits)

lemma no_session_setup_token: "fst (issuePasswordSetupToken e d s) \<noteq> Session token"
  by (auto simp: issuePasswordSetupToken_def Let_def split: option.splits prod.splits)

lemma no_session_setup: "fst (auth_setup e d request s) \<noteq> Session token"
  by (auto simp: auth_setup_def Let_def no_session_setup_token split: option.splits json.splits)

lemma no_session_verify: "fst (auth_verify e d request s) \<noteq> Session token"
  by (auto simp: auth_verify_def Let_def no_session_setup_token split: option.splits json.splits prod.splits)

lemma no_session_rejected: "fst (ssoRejected now s) \<noteq> Session token"
  by (simp add: ssoRejected_def Let_def)

lemma finish_session:
  assumes "password_verify_finish e started d (Some body) s = (Session token, t)"
  shows "\<exists>i sg n uid salt pub. text_of body ''challenge_id'' = Some i \<and> hex_of 128 body ''signature'' = Some sg
    \<and> fst (consume (now_ms d) i (authChallenges s)) = Some n \<and> getAdminPasswordVerifier (tables s) = Some (uid, salt, pub)
    \<and> verifyPasswordSignature (ed25519 (env_crypto e)) (buildPasswordLoginMessage n) sg (tables s)
    \<and> signAdminJwt (env_jwt e) (env_crypto e) (master s) (now_ms d) uid = Some token"
  using assms unfolding password_verify_finish_def
  by (cases body) (auto simp: Let_def truthy_Some session_for_Session split: option.splits prod.splits if_splits)

lemma finish_None: "fst (password_verify_finish e started d None s) \<noteq> Session token"
  by (simp add: password_verify_finish_def)

lemma password_verify_session:
  assumes "fst (password_verify e d request s) = Session token"
  shows "\<exists>uid. session_proof e d (Post_password_verify request) s uid \<and> mk_state (master s) = Unlocked
    \<and> signAdminJwt (env_jwt e) (env_crypto e) (master s) (now_ms d) uid = Some token"
proof -
  have start: "password_verify_start e (now_ms d) s = None" and fin: "fst (password_verify_finish e (now_ms d) d request s) = Session token"
    using assms by (auto simp: password_verify_def password_verify_start_def split: option.splits if_splits)
  from start have "sso_config e = None" "mk_state (master s) = Unlocked" "lockRemainingMs (now_ms d) (loginThrottle s) = 0"
    by (auto simp: password_verify_start_def ssoOwnsSignIn_def split: if_splits)
  moreover obtain body where "request = Some body" using fin finish_None by (cases request) auto
  moreover obtain t where "password_verify_finish e (now_ms d) d request s = (Session token, t)" using fin by (metis prod.collapse)
  ultimately show ?thesis using finish_session [of e "now_ms d" d body s token t] by (auto simp: password_proof_def)
qed

lemma current_password_ok:
  assumes "current_password e d body s = (None, s1)"
  shows "password_proof e d (text_of body ''current_challenge_id'') (hex_of 128 body ''current_signature'') s \<and> master s1 = master s \<and> tables s1 = tables s"
  using assms unfolding current_password_def password_proof_def
  by (auto simp: Let_def truthy_Some split: option.splits prod.splits if_splits)

lemma current_password_refuses: "current_password e d body s = (Some r, s1) \<Longrightarrow> r \<noteq> Session token"
  by (auto simp: current_password_def Let_def split: option.splits prod.splits if_splits)

definition password_tail :: "sign_in_env \<Rightarrow> draws \<Rightarrow> utext \<Rightarrow> bool \<Rightarrow> json \<Rightarrow> sign_in \<Rightarrow> answer \<times> sign_in" where
  "password_tail e d uid scoped body s = (case (hex_of 32 body ''salt'', hex_of 64 body ''public_key'', hex_of 128 body ''signature'') of
     (Some salt, Some pub, Some sig) \<Rightarrow>
       (case (if \<not> scoped \<and> getAdminPasswordVerifier (tables s) \<noteq> None then current_password e d body s else (None, s)) of
          (Some refusal, s1) \<Rightarrow> (refusal, s1)
        | (None, s1) \<Rightarrow>
            if \<not> verifyAuthSignature (ed25519 (env_crypto e)) pub (buildPasswordSetupMessage pub salt) sig then (Refused 401 ''INVALID_SIGNATURE'', s1)
            else let s2 = s1\<lparr>tables := setAdminPasswordVerifier uid salt pub (tables s1), loginThrottle := resetThrottle\<rparr> in (session_for e d uid s2, s2))
   | _ \<Rightarrow> (Refused 400 ''INVALID_REQUEST'', s))"

lemma auth_password_tail:
  "auth_password e d header request s =
     (if ssoOwnsSignIn e then (Refused 409 ''SSO_ONLY'', s) else if mk_state (master s) \<noteq> Unlocked then (Refused 401 ''LOCKED'', s)
      else case bearer header of None \<Rightarrow> (Refused 401 ''UNAUTHORIZED'', s)
        | Some token \<Rightarrow> (case resolvePasswordMutationUserId (env_jwt e) (env_crypto e) (now_ms d) token (master s) (tables s) of
            None \<Rightarrow> (Refused 401 ''UNAUTHORIZED'', s)
          | Some (uid, scoped) \<Rightarrow> (case request of None \<Rightarrow> (Refused 400 ''INVALID_REQUEST'', s)
            | Some body \<Rightarrow> if body = Null then (Internal_error, s) else password_tail e d uid scoped body s)))"
  unfolding auth_password_def password_tail_def by (auto split: option.splits json.splits)

lemma tail_session:
  assumes "password_tail e d uid scoped body s = (Session token, t)"
  shows "(scoped \<or> getAdminPasswordVerifier (tables s) = None
      \<or> password_proof e d (text_of body ''current_challenge_id'') (hex_of 128 body ''current_signature'') s)
    \<and> signAdminJwt (env_jwt e) (env_crypto e) (master s) (now_ms d) uid = Some token"
proof -
  obtain salt pub sig where h: "hex_of 32 body ''salt'' = Some salt" "hex_of 64 body ''public_key'' = Some pub" "hex_of 128 body ''signature'' = Some sig"
    using assms by (auto simp: password_tail_def split: option.splits)
  let ?c = "if \<not> scoped \<and> getAdminPasswordVerifier (tables s) \<noteq> None then current_password e d body s else (None, s)"
  obtain r s1 where c: "?c = (r, s1)" by (cases ?c)
  have "x \<noteq> Session token" if "r = Some x" for x using c that current_password_refuses [of e d body s x s1] by (auto split: if_splits)
  with assms have "r = None" unfolding password_tail_def h option.case prod.case c by (cases r) auto
  with assms have "session_for e d uid (s1\<lparr>tables := setAdminPasswordVerifier uid salt pub (tables s1), loginThrottle := resetThrottle\<rparr>) = Session token"
    unfolding password_tail_def h option.case prod.case c by (auto simp: Let_def split: if_splits)
  then have "signAdminJwt (env_jwt e) (env_crypto e) (master s1) (now_ms d) uid = Some token" by (simp add: session_for_Session)
  then show ?thesis using c \<open>r = None\<close> current_password_ok [of e d body s s1]
    by (cases "getAdminPasswordVerifier (tables s)") (auto split: if_splits)
qed

lemma auth_password_session:
  assumes "fst (auth_password e d header request s) = Session token"
  shows "\<exists>uid. session_proof e d (Post_password header request) s uid \<and> mk_state (master s) = Unlocked
    \<and> signAdminJwt (env_jwt e) (env_crypto e) (master s) (now_ms d) uid = Some token"
proof -
  obtain tok uid scoped body where c: "\<not> ssoOwnsSignIn e" "mk_state (master s) = Unlocked" "bearer header = Some tok"
      "resolvePasswordMutationUserId (env_jwt e) (env_crypto e) (now_ms d) tok (master s) (tables s) = Some (uid, scoped)" "request = Some body"
      "fst (password_tail e d uid scoped body s) = Session token"
    using assms unfolding auth_password_tail by (auto split: if_splits option.splits)
  then obtain t where "password_tail e d uid scoped body s = (Session token, t)" by (metis prod.collapse)
  from tail_session [OF this] c show ?thesis by (auto simp: ssoOwnsSignIn_def bearer_Some)
qed

lemma auth_sso_session_proof:
  assumes "fst (auth_sso e d request s) = Session token"
  shows "\<exists>uid. session_proof e d (Post_sso request) s uid \<and> mk_state (master s) = Unlocked
    \<and> signAdminJwt (env_jwt e) (env_crypto e) (master s) (now_ms d) uid = Some token"
proof -
  obtain config body tok where c: "sso_config e = Some config" "request = Some body" "text_of body ''token'' = Some tok"
    using assms by (auto simp: auth_sso_def truthy_Some split: option.splits if_splits)
  obtain r st where v: "verifySsoAssertion (env_parse e) (ed25519 (env_crypto e)) tok config (now_ms d) (sso_of s) = (r, st)"
    by (cases "verifySsoAssertion (env_parse e) (ed25519 (env_crypto e)) tok config (now_ms d) (sso_of s)")
  obtain p uid where p: "r = Inr p" "mk_state (master s) = Unlocked" "getSuperuserId (tables s) = Some uid"
      "signAdminJwt (env_jwt e) (env_crypto e) (master s) (now_ms d) uid = Some token"
    using assms c v no_session_rejected
    by (auto simp: auth_sso_def truthy_def resetSsoThrottle_def session_for_Session Let_def split: option.splits if_splits sum.splits)
  have "sub p = ownerSubject config" using verify_cases [OF v] p(1) by auto
  then show ?thesis using c v p by auto
qed

lemma auth_handle_session_proof:
  assumes "fst (auth_sso_session e d request s) = Session token"
  shows "\<exists>uid. session_proof e d (Post_sso_session request) s uid \<and> mk_state (master s) = Unlocked
    \<and> signAdminJwt (env_jwt e) (env_crypto e) (master s) (now_ms d) uid = Some token"
proof -
  obtain config body h where c: "sso_config e = Some config" "request = Some body" "text_of body ''handle'' = Some h" "h \<noteq> []"
    using assms by (auto simp: auth_sso_session_def truthy_Some split: option.splits if_splits)
  obtain subject st where v: "consumeSsoHandle h (now_ms d) (sso_of s) = (subject, st)" by (cases "consumeSsoHandle h (now_ms d) (sso_of s)")
  obtain uid where p: "subject = Some (ownerSubject config)" "mk_state (master s) = Unlocked" "getSuperuserId (tables s) = Some uid"
      "signAdminJwt (env_jwt e) (env_crypto e) (master s) (now_ms d) uid = Some token"
    using assms c v no_session_rejected
    by (auto simp: auth_sso_session_def truthy_Some resetSsoThrottle_def session_for_Session Let_def split: option.splits if_splits)
  have "\<exists>until. map_of (handles (sso_of s)) h = Some (ownerSubject config, until) \<and> now_ms d < until"
    using v p(1) by (auto simp: consumeSsoHandle_def bm_get_def split: option.splits if_splits prod.splits)
  then show ?thesis using c p by auto
qed

text \<open>
  (C4) A session is never given without its proof. Whatever request gets a session, the instance is unlocked and the session is the one minted for the
  user the proof names: a fresh challenge signed with the password's key and no lock on the throttle; or a bearer that may set the password
  together with the proof of the current one, unless it came from the recovery phrase or no password was set; or, where an issuer owns sign-in
  and then only so, its verified assertion for the owner, or the unexpired handle of one. The recovery phrase by itself earns no session.
\<close>

theorem session_needs_proof:
  assumes "fst (handle_auth e d request s) = Session token"
  shows "\<exists>uid. session_proof e d request s uid \<and> mk_state (master s) = Unlocked
    \<and> signAdminJwt (env_jwt e) (env_crypto e) (master s) (now_ms d) uid = Some token"
  using assms
proof (cases request)
  case Post_challenge
  then show ?thesis using assms by (simp add: auth_challenge_def split: if_splits)
next
  case Post_password_challenge
  then show ?thesis using assms by (simp add: password_challenge_def split: if_splits option.splits prod.splits)
qed (use assms in \<open>simp_all add: no_session_setup no_session_verify password_verify_session auth_password_session auth_sso_session_proof auth_handle_session_proof\<close>)

section \<open>The throttle\<close>

definition backoff :: "nat \<Rightarrow> nat" where
  "backoff k = min (LOGIN_LOCKOUT_MS * 2 ^ k) (60 * 60000)"

text \<open>The least time that lies before the end of the lock after \<open>f\<close> wrong passwords in a row.\<close>

definition guess_time :: "nat \<Rightarrow> nat" where
  "guess_time f = (if f < LOGIN_MAX_ATTEMPTS then 0 else (\<Sum>k \<le> f - LOGIN_MAX_ATTEMPTS. backoff k))"

definition throttle_ok :: "nat \<Rightarrow> throttle \<Rightarrow> bool" where
  "throttle_ok t0 th \<longleftrightarrow> (LOGIN_MAX_ATTEMPTS \<le> failures th \<longrightarrow> t0 + guess_time (failures th) \<le> lockedUntil th)"

lemma throttle_reset: "throttle_ok t0 resetThrottle"
  by (simp add: throttle_ok_def resetThrottle_def LOGIN_MAX_ATTEMPTS_def)

lemma throttle_failure:
  assumes "throttle_ok t0 th" "lockRemainingMs now th = 0" "t0 \<le> now"
  shows "throttle_ok t0 (recordLoginFailure now th)"
proof -
  have free: "lockedUntil th \<le> now" using assms(2) by (simp add: lockRemainingMs_def split: if_splits)
  consider "failures th + 1 < 5" | "failures th + 1 = 5" | k where "failures th = 5 + k" by (metis add.commute less_iff_succ_less_eq linorder_cases Suc_eq_plus1 le_Suc_ex not_less_eq not_less)
  then show ?thesis
  proof cases
    case (3 k)
    then have "t0 + (\<Sum>i \<le> k. backoff i) \<le> now" using assms(1) free by (simp add: throttle_ok_def guess_time_def LOGIN_MAX_ATTEMPTS_def)
    then show ?thesis using 3 by (simp add: throttle_ok_def recordLoginFailure_def Let_def guess_time_def LOGIN_MAX_ATTEMPTS_def backoff_def)
  qed (use assms in \<open>simp_all add: throttle_ok_def recordLoginFailure_def Let_def guess_time_def LOGIN_MAX_ATTEMPTS_def backoff_def\<close>)
qed

text \<open>A request leaves the throttle alone, clears it, or records one failure at a moment it was free.\<close>

lemma finish_throttle:
  "loginThrottle (snd (password_verify_finish e started d request s)) = loginThrottle s
   \<or> loginThrottle (snd (password_verify_finish e started d request s)) = resetThrottle
   \<or> loginThrottle (snd (password_verify_finish e started d request s)) = recordLoginFailure started (loginThrottle s)"
proof (cases request)
  case (Some body)
  then show ?thesis unfolding password_verify_finish_def by (cases body) (auto simp: Let_def split: option.splits prod.splits)
qed (simp add: password_verify_finish_def)

lemma current_throttle:
  "loginThrottle (snd (current_password e d body s)) = loginThrottle s
   \<or> loginThrottle (snd (current_password e d body s)) = recordLoginFailure (now_ms d) (loginThrottle s) \<and> lockRemainingMs (now_ms d) (loginThrottle s) = 0"
  by (auto simp: current_password_def Let_def split: option.splits prod.splits)

definition throttle_moves :: "nat \<Rightarrow> sign_in \<Rightarrow> sign_in \<Rightarrow> bool" where
  "throttle_moves now s t \<longleftrightarrow> loginThrottle t = loginThrottle s \<or> loginThrottle t = resetThrottle
     \<or> loginThrottle t = recordLoginFailure now (loginThrottle s) \<and> lockRemainingMs now (loginThrottle s) = 0"

lemma throttle_issue: "loginThrottle (snd (issuePasswordSetupToken e d s)) = loginThrottle s"
  by (simp add: issuePasswordSetupToken_def Let_def split: option.splits prod.splits)

lemma throttle_setup: "loginThrottle (snd (auth_setup e d request s)) = loginThrottle s"
  by (auto simp: auth_setup_def Let_def throttle_issue split: option.splits json.splits)

lemma throttle_verify: "loginThrottle (snd (auth_verify e d request s)) = loginThrottle s"
  by (auto simp: auth_verify_def Let_def throttle_issue split: option.splits json.splits prod.splits)

lemma throttle_sso: "loginThrottle (snd (auth_sso e d request s)) = loginThrottle s" "loginThrottle (snd (auth_sso_session e d request s)) = loginThrottle s"
  by (auto simp: auth_sso_def auth_sso_session_def ssoRejected_def resetSsoThrottle_def Let_def split: option.splits sum.splits prod.splits)

lemma throttle_tail: "throttle_moves (now_ms d) s (snd (password_tail e d uid scoped body s))"
  using current_throttle [of e d body s] unfolding throttle_moves_def
  by (auto simp: password_tail_def Let_def split: option.splits prod.splits if_splits)

lemma throttle_request: "throttle_moves (now_ms d) s (snd (handle_auth e d request s))"
proof (cases request)
  case (Post_password_verify body)
  then show ?thesis using finish_throttle [of e "now_ms d" d body s]
    by (auto simp: throttle_moves_def password_verify_def password_verify_start_def split: if_splits)
next
  case (Post_password header body)
  then show ?thesis using throttle_tail [of d s e] unfolding handle_auth.simps Post_password auth_password_tail
    by (auto simp: throttle_moves_def split: option.splits)
qed (auto simp: throttle_moves_def throttle_setup throttle_verify throttle_sso auth_challenge_def password_challenge_def split: option.splits)

lemma throttle_all: "throttle_ok t0 (loginThrottle s) \<Longrightarrow> \<forall>(d, r) \<in> set rs. t0 \<le> now_ms d \<Longrightarrow> throttle_ok t0 (loginThrottle (handle_all e rs s))"
proof (induction rs arbitrary: s)
  case (Cons dr rs)
  obtain d r where dr: "dr = (d, r)" by (cases dr)
  have "throttle_ok t0 (loginThrottle (snd (handle_auth e d r s)))"
    using throttle_request [of d s e r] Cons.prems throttle_failure [of t0 "loginThrottle s" "now_ms d"] throttle_reset [of t0]
    unfolding throttle_moves_def dr by auto
  from Cons.IH [OF this] Cons.prems show ?case by (simp add: handle_all_def dr)
qed (simp add: handle_all_def)

text \<open>
  The history of a sequence of requests: what was asked and what was answered. A wrong password is what a login or a change of the
  password is told \<open>INVALID_CREDENTIALS\<close> for; a run of them ends with a login or a change that is not refused.
\<close>

fun history :: "sign_in_env \<Rightarrow> (draws \<times> auth_request) list \<Rightarrow> sign_in \<Rightarrow> (auth_request \<times> answer) list" where
  "history e [] s = []"
| "history e ((d, r) # rs) s = (r, fst (handle_auth e d r s)) # history e rs (snd (handle_auth e d r s))"

fun asks_password :: "auth_request \<Rightarrow> bool" where
  "asks_password (Post_password_verify body) = True"
| "asks_password (Post_password header body) = True"
| "asks_password _ = False"

fun wrong_after :: "nat \<Rightarrow> auth_request \<times> answer \<Rightarrow> nat" where
  "wrong_after n (r, Refused code reason) =
     (if asks_password r \<and> code = 401 \<and> reason = ''INVALID_CREDENTIALS'' then Suc n else n)"
| "wrong_after n (r, _) = (if asks_password r then 0 else n)"

definition wrong_in_a_row :: "(auth_request \<times> answer) list \<Rightarrow> nat" where
  "wrong_in_a_row h = foldl wrong_after 0 h"

text \<open>Every wrong password is recorded, at a moment the throttle was free, and only an answer that is no refusal clears it.\<close>

definition recorded :: "nat \<Rightarrow> throttle \<Rightarrow> answer \<Rightarrow> throttle \<Rightarrow> bool" where
  "recorded now th a th' \<longleftrightarrow> (case a of
     Refused code reason \<Rightarrow> th' = (if code = 401 \<and> reason = ''INVALID_CREDENTIALS'' then recordLoginFailure now th else th)
   | _ \<Rightarrow> True)"

lemma finish_recorded:
  "recorded started (loginThrottle s) (fst (password_verify_finish e started d request s)) (loginThrottle (snd (password_verify_finish e started d request s)))"
proof (cases request)
  case (Some body)
  then show ?thesis unfolding password_verify_finish_def
    by (cases body) (auto simp: recorded_def Let_def session_for_def split: option.splits prod.splits)
qed (simp add: password_verify_finish_def recorded_def)

lemma tail_recorded:
  "recorded (now_ms d) (loginThrottle s) (fst (password_tail e d uid scoped body s)) (loginThrottle (snd (password_tail e d uid scoped body s)))"
  by (auto simp: recorded_def password_tail_def current_password_def Let_def session_for_def split: option.splits prod.splits if_splits)

lemma request_recorded:
  assumes "asks_password r"
  shows "recorded (now_ms d) (loginThrottle s) (fst (handle_auth e d r s)) (loginThrottle (snd (handle_auth e d r s)))"
proof (cases r)
  case (Post_password_verify body)
  show ?thesis
  proof (cases "password_verify_start e (now_ms d) s")
    case None
    then show ?thesis using finish_recorded [of "now_ms d" s e d body] by (simp add: Post_password_verify password_verify_def)
  next
    case (Some a)
    then show ?thesis by (auto simp: Post_password_verify password_verify_def password_verify_start_def recorded_def split: if_splits)
  qed
next
  case (Post_password header body)
  have "recorded (now_ms d) (loginThrottle s) (Refused code reason) (loginThrottle s)" if "reason \<noteq> ''INVALID_CREDENTIALS''" for code reason
    using that by (simp add: recorded_def)
  moreover have "recorded (now_ms d) (loginThrottle s) Internal_error (loginThrottle s)" by (simp add: recorded_def)
  ultimately show ?thesis unfolding handle_auth.simps Post_password auth_password_tail by (auto split: option.splits intro: tail_recorded)
qed (use assms in simp_all)

lemma other_throttle: "\<not> asks_password r \<Longrightarrow> loginThrottle (snd (handle_auth e d r s)) = loginThrottle s"
  by (cases r) (auto simp: throttle_setup throttle_verify throttle_sso auth_challenge_def password_challenge_def split: option.splits)

lemma recorded_grows: "failures (recordLoginFailure now th) = Suc (failures th)"
  by (simp add: recordLoginFailure_def Let_def)

lemma counted_step:
  assumes "n \<le> failures (loginThrottle s)"
  shows "wrong_after n (r, fst (handle_auth e d r s)) \<le> failures (loginThrottle (snd (handle_auth e d r s)))"
proof (cases "asks_password r")
  case True
  then show ?thesis using request_recorded [OF True, of d s e] assms recorded_grows
    by (cases "fst (handle_auth e d r s)") (auto simp: recorded_def)
next
  case False
  then show ?thesis using other_throttle [OF False] assms by (cases "fst (handle_auth e d r s)") auto
qed

lemma counted_all: "n \<le> failures (loginThrottle s) \<Longrightarrow> foldl wrong_after n (history e rs s) \<le> failures (loginThrottle (handle_all e rs s))"
proof (induction rs arbitrary: n s)
  case (Cons dr rs)
  obtain d r where dr: "dr = (d, r)" by (cases dr)
  show ?case using Cons.IH [OF counted_step [OF Cons.prems, of r e d]] by (simp add: dr handle_all_def)
qed (simp add: handle_all_def)

lemma guess_time_mono: "f \<le> g \<Longrightarrow> guess_time f \<le> guess_time g"
  by (auto simp: guess_time_def intro!: sum_mono2)

text \<open>
  (C20) Wrong passwords cost time. Over any sequence of requests that are answered one after the other, at whatever times from \<open>t0\<close> on, count
  the wrong passwords in a row from the answers alone: a login and a change of the password that is told \<open>INVALID_CREDENTIALS\<close> count alike, and
  a login or change that is not refused starts anew. From the fifth on, the throttle is locked until \<open>t0\<close> and the sum of a minute,
  two, four and so on up to an hour, one for each of them from the fifth. While the lock lasts a login is refused before its challenge is looked
  at, and so is the proof of the current password in a change.
\<close>

theorem wrong_passwords_cost_time:
  assumes "loginThrottle s = resetThrottle" "\<forall>(d, r) \<in> set rs. t0 \<le> now_ms d" "t = handle_all e rs s"
    and f: "f = wrong_in_a_row (history e rs s)" "5 \<le> f"
  shows "t0 + (\<Sum>k \<le> f - 5. min (60000 * 2 ^ k) 3600000) \<le> lockedUntil (loginThrottle t)
    \<and> (now_ms d < lockedUntil (loginThrottle t) \<longrightarrow>
        (sso_config e = None \<and> mk_state (master t) = Unlocked \<longrightarrow> password_verify e d request t = (Refused 429 ''TOO_MANY_ATTEMPTS'', t))
        \<and> current_password e d body t = (Some (Refused 429 ''TOO_MANY_ATTEMPTS''), t))"
proof -
  have "f \<le> failures (loginThrottle t)" using counted_all [of 0 s e rs] f(1) assms(3) by (simp add: wrong_in_a_row_def)
  moreover have "throttle_ok t0 (loginThrottle t)" using throttle_all [of t0 s rs e] assms throttle_reset by simp
  ultimately have "t0 + guess_time f \<le> lockedUntil (loginThrottle t)"
    using f(2) guess_time_mono [of f "failures (loginThrottle t)"] by (auto simp: throttle_ok_def LOGIN_MAX_ATTEMPTS_def)
  then show ?thesis using f(2)
    by (simp add: guess_time_def backoff_def LOGIN_MAX_ATTEMPTS_def LOGIN_LOCKOUT_MS_def password_verify_def password_verify_start_def
        current_password_def ssoOwnsSignIn_def lockRemainingMs_def)
qed

text \<open>
  The throttle is asked in the first half of \<open>/auth/password-verify\<close> only. The second half answers alike whatever has been recorded since, so
  guesses that were all sent before the first is answered are all looked at.
\<close>

lemma throttle_not_asked_again:
  "fst (password_verify_finish e started d request (s\<lparr>loginThrottle := th\<rparr>)) = fst (password_verify_finish e started d request s)"
proof (cases request)
  case (Some body)
  then show ?thesis unfolding password_verify_finish_def by (cases body) (auto simp: Let_def session_for_def split: option.splits prod.splits)
qed (simp add: password_verify_finish_def)

section \<open>Witnesses\<close>

lemma hexToBytes_zeros: "hexToBytes (replicate (2 * n) 48) = Some (replicate n 0)"
  by (induction n) (simp_all add: hex_value_def)

definition demo_env :: "bool \<Rightarrow> sign_in_env" where
  "demo_env good = \<lparr>env_crypto = demo_crypto\<lparr>ed25519 := (\<lambda>sig msg pub. good)\<rparr>, env_jwt = demo_jwt_of Null, env_parse = (\<lambda>bs. None),
     parseLocaleSettingsPatch = (\<lambda>l. None), sso_config = None\<rparr>"

definition demo_sign_in :: sign_in where
  "demo_sign_in = \<lparr>authChallenges = map (\<lambda>i. ([i], \<lparr>nonce = [i], expiresAt = 99\<rparr>)) [1, 2, 3, 4, 5], loginThrottle = resetThrottle,
     sso_of = \<lparr>issuerKeyCache = None, replayCache = [], handles = [], ssoThrottle = resetThrottle\<rparr>, master = demo_enrolled,
     tables = setAdminPasswordVerifier (cps ''u'') (cps ''00'') (replicate 64 48) demo_auth_db, instance_base_url = None, instance_locale = None\<rparr>"

definition demo_draws :: draws where
  "demo_draws = \<lparr>now_ms = 7, call_id = 0, iv_drawn = 0, id_drawn = [], nonce_drawn = [], user_drawn = [], origin = None\<rparr>"

definition demo_guess :: "nat \<Rightarrow> auth_request" where
  "demo_guess i = Post_password_verify (Some (Obj [(cps ''challenge_id'', Str [i]), (cps ''signature'', Str (replicate 128 48))]))"

lemma demo_verifier: "getAdminPasswordVerifier (tables demo_sign_in) = Some (cps ''u'', cps ''00'', replicate 64 48)"
  by (simp add: demo_sign_in_def setAdminPasswordVerifier_def demo_auth_db_def getAdminPasswordVerifier_def truthy_def cps_Cons)

lemma demo_signature: "verifyAuthSignature (\<lambda>sig msg pub. good) (replicate 64 48) msg (replicate 128 48) = good"
  using hexToBytes_zeros [of 32] hexToBytes_zeros [of 64] by (simp add: verifyAuthSignature_def)

lemma demo_finish:
  assumes "map_of (authChallenges s) [i] = Some c" "\<not> expiresAt c < 7" "tables s = tables demo_sign_in" "master s = demo_enrolled"
  shows "password_verify_finish (demo_env good) 7 demo_draws (Some (Obj [(cps ''challenge_id'', Str [i]), (cps ''signature'', Str (replicate 128 48))])) s =
    (if good then (Session (cps ''t''), s\<lparr>authChallenges := AList.delete [i] (authChallenges s), loginThrottle := resetThrottle\<rparr>)
     else (Refused 401 ''INVALID_CREDENTIALS'', s\<lparr>authChallenges := AList.delete [i] (authChallenges s), loginThrottle := recordLoginFailure 7 (loginThrottle s)\<rparr>))"
proof -
  have "jwt_key (demo_crypto\<lparr>ed25519 := f\<rparr>) demo_enrolled = Some (spelled (cps ''a''))" for f
  proof -
    have "deriveKey (demo_crypto\<lparr>ed25519 := f\<rparr>) = deriveKey demo_crypto" by (simp add: demo_crypto_def)
    then show ?thesis using demo_key by (simp only: jwt_key_def)
  qed
  moreover have "text_of (Obj [(cps ''challenge_id'', Str [i]), (cps ''signature'', Str (replicate 128 48))]) ''challenge_id'' = Some [i]"
      "hex_of 128 (Obj [(cps ''challenge_id'', Str [i]), (cps ''signature'', Str (replicate 128 48))]) ''signature'' = Some (replicate 128 48)"
    by (simp_all add: text_of_def hex_of_def member_of_def hex_text_def list_all_iff cps_Cons)
  ultimately show ?thesis using assms demo_verifier demo_signature
    by (simp add: password_verify_finish_def consume_def demo_draws_def truthy_def verifyPasswordSignature_def demo_env_def Let_def session_for_def
        signAdminJwt_def minted_def demo_jwt_of_def)
qed

theorem session_needs_proof_witness:
  "fst (handle_auth (demo_env True) demo_draws (demo_guess 1) demo_sign_in) = Session (cps ''t'')
   \<and> (\<exists>uid. session_proof (demo_env True) demo_draws (demo_guess 1) demo_sign_in uid \<and> mk_state (master demo_sign_in) = Unlocked)"
proof -
  have "map_of (authChallenges demo_sign_in) [1] = Some \<lparr>nonce = [1], expiresAt = 99\<rparr>" by (simp add: demo_sign_in_def)
  moreover have "password_verify_start (demo_env True) 7 demo_sign_in = None"
    by (simp add: password_verify_start_def ssoOwnsSignIn_def demo_env_def demo_sign_in_def demo_values(3) lockRemainingMs_def resetThrottle_def)
  moreover have "master demo_sign_in = demo_enrolled" by (simp add: demo_sign_in_def)
  ultimately have "fst (handle_auth (demo_env True) demo_draws (demo_guess 1) demo_sign_in) = Session (cps ''t'')"
    using demo_finish [of demo_sign_in 1 _ True] by (simp add: demo_guess_def password_verify_def demo_draws_def)
  with session_needs_proof [OF this] show ?thesis by blast
qed

lemma demo_told:
  assumes "\<forall>i \<in> set ks. map_of (authChallenges s) [i] = Some \<lparr>nonce = [i], expiresAt = 99\<rparr>" "distinct ks" "tables s = tables demo_sign_in" "master s = demo_enrolled"
    "loginThrottle s = \<lparr>failures = n, lockedUntil = 0\<rparr>" "n + length ks \<le> 5"
  shows "history (demo_env False) (map (\<lambda>i. (demo_draws, demo_guess i)) ks) s = map (\<lambda>i. (demo_guess i, Refused 401 ''INVALID_CREDENTIALS'')) ks"
  using assms
proof (induction ks arbitrary: s n)
  case (Cons i ks)
  let ?s = "s\<lparr>authChallenges := AList.delete [i] (authChallenges s), loginThrottle := recordLoginFailure 7 (loginThrottle s)\<rparr>"
  have start: "password_verify_start (demo_env False) 7 s = None"
    using Cons.prems by (simp add: password_verify_start_def ssoOwnsSignIn_def demo_env_def demo_values(3) lockRemainingMs_def)
  have step: "handle_auth (demo_env False) demo_draws (demo_guess i) s = (Refused 401 ''INVALID_CREDENTIALS'', ?s)"
    using demo_finish [of s i _ False] start Cons.prems by (simp add: demo_guess_def password_verify_def) (simp add: demo_draws_def)
  show ?case
  proof (cases ks)
    case (Cons j js)
    then have "loginThrottle ?s = \<lparr>failures = Suc n, lockedUntil = 0\<rparr>"
      using Cons.prems by (simp add: recordLoginFailure_def Let_def LOGIN_MAX_ATTEMPTS_def)
    then show ?thesis using Cons.prems by (simp add: step) (rule Cons.IH, auto simp: AList.delete_conv')
  qed (simp add: step)
qed simp

theorem wrong_passwords_cost_time_witness:
  "7 + 60000 \<le> lockedUntil (loginThrottle (handle_all (demo_env False) (map (\<lambda>i. (demo_draws, demo_guess i)) [1, 2, 3, 4, 5]) demo_sign_in))"
proof -
  let ?rs = "map (\<lambda>i. (demo_draws, demo_guess i)) [1, 2, 3, 4, 5]"
  have start: "loginThrottle demo_sign_in = resetThrottle" "\<forall>(d, r) \<in> set ?rs. 7 \<le> now_ms d" by (simp_all add: demo_sign_in_def demo_draws_def)
  have "history (demo_env False) ?rs demo_sign_in = map (\<lambda>i. (demo_guess i, Refused 401 ''INVALID_CREDENTIALS'')) [1, 2, 3, 4, 5]"
    by (rule demo_told) (simp_all add: demo_sign_in_def resetThrottle_def)
  then have five: "5 = wrong_in_a_row (history (demo_env False) ?rs demo_sign_in)" by (simp add: wrong_in_a_row_def demo_guess_def)
  show ?thesis using wrong_passwords_cost_time [OF start refl five] by simp
qed

definition demo_payload :: SsoTokenPayload where
  "demo_payload = \<lparr>kid = cps ''k'', aud = cps ''eu'', sub = cps ''acct'', jti = cps ''j'', iat = 100, exp = 160\<rparr>"

definition demo_config :: SsoConfig where
  "demo_config = \<lparr>issuerPublicKey = cps ''k:'' @ replicate 64 48, audience = cps ''eu'', ownerSubject = cps ''acct''\<rparr>"

definition demo_sso :: sso_state where
  "demo_sso = \<lparr>issuerKeyCache = None, replayCache = [], handles = [], ssoThrottle = resetThrottle\<rparr>"

definition demo_token_parse :: "bytes \<Rightarrow> json option" where
  "demo_token_parse bs = Some (token_object demo_payload (replicate 128 48))"

lemma demo_parsed: "parseSsoToken demo_token_parse (bytesToBase64Url [0]) = Some \<lparr>payload = demo_payload, signatureHex = replicate 128 48\<rparr>"
proof -
  have "base64UrlToBytes (bytesToBase64Url [0]) = Some [0]" by (simp add: decode_spellings encode_empty)
  then show ?thesis
    by (rule parse_object [rotated])
      (simp_all add: demo_token_parse_def well_formed_def demo_payload_def hex_text_def list_all_iff MAX_SAFE_INTEGER_def MAX_TOKEN_LENGTH_def
        bytesToBase64Url_def encode_closed cps_Cons)
qed

lemma demo_issuer: "parseIssuerPublicKeys (issuerPublicKey demo_config) = Inr [(cps ''k'', replicate 64 48)]"
proof -
  let ?t = "issuerPublicKey demo_config"
  have "split_char 44 ?t = [?t]" by (rule split_char_none) (simp add: demo_config_def cps_Cons)
  moreover have "dropWhile is_ws ?t = ?t" by (simp add: demo_config_def cps_Cons is_ws_def)
  moreover have "rev ?t = 48 # (replicate 63 48 @ rev (cps ''k:''))"
    by (simp add: demo_config_def cps_Cons flip: replicate_Suc) 
  then have "dropWhile is_ws (rev ?t) = rev ?t" by (simp add: is_ws_def)
  ultimately have "filter (\<lambda>entry. 0 < length entry) (map trim (split_char 44 ?t)) = [?t]" by (simp add: trim_def demo_config_def)
  moreover have "hex_text 64 (replicate 64 48)" by (simp add: hex_text_def list_all_iff)
  ultimately show ?thesis by (simp add: parseIssuerPublicKeys_def) (simp add: demo_config_def cps_Cons)
qed

lemma demo_accepted:
  "verifySsoAssertion demo_token_parse (\<lambda>sig msg pub. True) (bytesToBase64Url [0]) demo_config 120000 demo_sso =
     (Inr demo_payload, demo_sso\<lparr>issuerKeyCache := Some (issuerPublicKey demo_config, [(cps ''k'', replicate 64 48)]), replayCache := [(cps ''j'', 191000)]\<rparr>)"
proof -
  have "verifySsoTokenSignature (\<lambda>sig msg pub. True) demo_payload (replicate 128 48) (replicate 64 48)"
    using demo_signature by (simp add: verifySsoTokenSignature_def)
  moreover have "checkSsoTokenFreshness demo_payload 120 = Fresh" by (simp add: freshness_window demo_payload_def)
  ultimately show ?thesis
    by (simp add: verifySsoAssertion_def demo_parsed issuerKeys_def demo_issuer demo_sso_def Let_def bm_get_def bm_set_def SSO_TOKEN_CLOCK_SKEW_SECONDS_def
        REPLAY_CACHE_MAX_ENTRIES_def) (simp add: demo_payload_def demo_config_def)
qed

theorem sso_token_accepted_once_witness:
  "let st = snd (verifySsoAssertion demo_token_parse (\<lambda>sig msg pub. True) (bytesToBase64Url [0]) demo_config 120000 demo_sso)
   in \<exists>reason. fst (verifySsoAssertion demo_token_parse (\<lambda>sig msg pub. True) (bytesToBase64Url [0]) demo_config 130000
       (present_all demo_token_parse (\<lambda>sig msg pub. True) demo_config [(cps ''rubbish'', 125000)] st)) = Inl reason"
  unfolding Let_def demo_accepted snd_conv
  by (rule conjunct1 [OF sso_token_accepted_once [OF demo_accepted _ _ prod.collapse [symmetric] demo_parsed]])
    (simp_all add: demo_sso_def REPLAY_CACHE_MAX_ENTRIES_def)
end
