(* ===== verification/Spec2Isabelle.thy ===== *)
theory Spec2Isabelle
  imports
    Tunnel_Mux Exec_Channel Docker_Frames Tunnel_Protocol
    Container_Pool Run_Concurrency Keyed_Lock
    Budget
    Credentials Egress_Substitution Secrets_Vault Net_Guard Egress_Forward
    Pool_Ledger Pool_Reconcile Container_Hours
    Wakeups Dispatch_Holds Task_Dependencies Task_Tree
    Ssh_Agent
    Sso_Token Master_Key Auth_Tokens Sign_In
begin

text \<open>
  \<^bold>\<open>Hezo: a verified model of the core of the server.\<close>

  Hezo runs teams of AI agents in containers. The server (\<open>src/packages/server\<close>) and the shared
  package (\<open>src/packages/shared\<close>) decide which container a run gets and when one is taken away,
  carry the container's network traffic through a tunnel, put credentials into outgoing requests
  only where policy lets them go, and meter what all of it costs. Those decisions are what is
  modelled here; the theories follow the modules of the source, with the source's names.

  \<^bold>\<open>Shared theories.\<close> \<open>Hezo_Prelude\<close> holds bytes, big-endian words, searching a byte string and
  decimal digits. \<open>Framing\<close> is the interface of every length-prefixed decoder, the locale
  \<open>incremental_parser\<close>: a decision about a frame never depends on the bytes after it, and so
  chunk boundaries never matter. \<open>State_Systems\<close> is reachability and the locale
  \<open>inductive_invariant\<close>. \<open>Utf8\<close> is the platform's streaming UTF-8 decoder, \<open>Civil_Time\<close> the UTC
  calendar of its \<open>Date\<close> and \<open>Text_Split\<close> its lower-casing, splitting and joining of strings.

  \<^bold>\<open>The tunnel.\<close> A container reaches the server through one byte channel.
  \<^item> \<open>Tunnel_Protocol\<close> models \<open>services/sandbox/tunnel/protocol.ts\<close>: frames, encoders, and
    \<open>FrameDecoder\<close> with its scan for the preamble. Decoding inverts encoding under any chunking
    and any terminal noise, the scan is bounded, and every byte is accounted for.
  \<^item> \<open>Docker_Frames\<close> models \<open>services/docker-frames.ts\<close> and \<open>tunnel/docker-frames-binary.ts\<close>: the
    engine's stdio framing, in text (with the backing buffer, its compaction and growth, and the
    code points cut by chunk boundaries) and in bytes.
  \<^item> \<open>Exec_Channel\<close> models the data events of \<open>openExecChannel\<close> in \<open>services/docker.ts\<close> and
    proves the two framings compose.
  \<^item> \<open>Tunnel_Mux\<close> models \<open>tunnel/mux.ts\<close>: \<open>TunnelMux\<close> as a record, one function per handler, the
    awaits of \<open>process\<close> and \<open>onOpen\<close> as separate steps, and \<open>mux_step\<close> for every interleaving
    of chunks, connects, socket events and timers. Sockets and the channel are the effects a
    step emits. Frames are handled in order, flow control never stalls, what is written is whole
    frames, and closing is final.

  \<^bold>\<open>Containers.\<close>
  \<^item> \<open>Container_Pool\<close> models \<open>services/sandbox/pool.ts\<close>: the ladder \<open>selectPoolMember\<close>, the two
    idle planners (one locale, two interpretations), the cross-project reclaim and the churn
    detector.
  \<^item> \<open>Run_Concurrency\<close> models \<open>services/run-concurrency.ts\<close> over tables as lists of rows, the
    capacity arithmetic of \<open>shared/src/constants.ts\<close>, the pool reads of \<open>sandbox/pool-db.ts\<close> and
    the decision of an acquire and of a reclaim in \<open>services/containers.ts\<close>. The gate at
    dispatch agrees with the acquire, and what it offers as reclaimable is what the planner
    takes; one case where it does not agree is exhibited. The schema's keys are the predicate
    \<open>db_ok\<close>.
  \<^item> \<open>Keyed_Lock\<close> models \<open>lib/keyed-lock.ts\<close>: the registry and the fate of every acquire as a state
    system with mutual exclusion, the order of service and the safety of giving up.

  \<^item> \<open>Pool_Ledger\<close> models the writes of \<open>sandbox/pool-db.ts\<close> and \<open>sandbox/uptime-ledger.ts\<close>: the pool table
    and the uptime ledger as lists of rows, one function per statement. Whatever the order of the
    operations, no second of a container is billed twice, a claim is exclusive, and the ledger refines an
    abstract meter that only knows which containers run.
  \<^item> \<open>Pool_Reconcile\<close> models the liveness pass of \<open>services/containers.ts\<close>: the paged listing (the locales
    \<open>keyset_cursor\<close> and \<open>reconcile_order\<close>), the stamps and what each member leads to. Every member due is
    reached within a number of passes given by the page size, and a claim is never ended except through a
    stale listing, which is exhibited.
  \<^item> \<open>Container_Hours\<close> models \<open>services/container-hours.ts\<close>: the hours the Budget page draws and the figure the
    allowance is enforced on, their agreement and their bound by the clock.

  \<^bold>\<open>Tasks and wakeups.\<close>
  \<^item> \<open>Wakeups\<close> models \<open>services/wakeup.ts\<close> and the dispatcher's statements of \<open>services/job-manager.ts\<close>. A
    trigger is never lost whatever other connections do between two statements, a decided wakeup stays
    decided, a held one names its credential, and a lifted hold releases its queue at a pace.
  \<^item> \<open>Dispatch_Holds\<close> models \<open>services/no-work-backoff.ts\<close> and the part of \<open>activateAgent\<close> that applies it: who has
    spoken on a task, what a wakeup is exempt from, the soft holds, the hard stops and their notices. A stopped task
    waits for the admin and the admin's reply resumes it; the two ways round the holds that the code leaves are exhibited.
  \<^item> \<open>Task_Dependencies\<close> models \<open>lib/dependencies.ts\<close> and the requests that add and remove edges. The recursive
    query for cycles ends and is exact; what the check misses (a uuid in the other letter case, a
    concurrent edge) is exhibited.
  \<^item> \<open>Task_Tree\<close> models \<open>lib/task-relationships.ts\<close>, the update route, task creation and the flip a run starts
    with, as the step relation \<open>task_step\<close>. In every reachable state an open task is blocked exactly when a
    blocker of it is open, the blocking graph has no cycle and sub-tasks are nested no deeper than the cap.

  \<^bold>\<open>Budgets.\<close> \<open>Budget\<close> models \<open>shared/src/budget.ts\<close> and \<open>lib/budget-validation.ts\<close>: coherent
  windows, the least repair, the one check on a write, and the monthly container-hours windows
  that tile time for any anchor day.

  \<^bold>\<open>Credentials.\<close>
  \<^item> \<open>Credentials\<close> models \<open>shared/src/credentials\<close>: the placeholder grammar with the greedy
    matching of its regular expression, host allowlists and their suggestion.
  \<^item> \<open>Egress_Substitution\<close> models the rewriting of a request in \<open>services/egress/substitution.ts\<close>. The
    confinement of a secret is stated as independence: the result does not depend on the value of
    a secret the host is not allowed. JSON parsing is a parameter.
  \<^item> \<open>Secrets_Vault\<close> models the decrypted-vault cache of the same file, with loads, writes,
    invalidations and key changes interleaved. Decryption is a parameter.

  \<^item> \<open>Net_Guard\<close> models \<open>services/egress/net-guard.ts\<close>: which addresses the proxy may not dial. The parser reads an address as
    the platform does, and the decision on its text is membership of its number in a list of blocks. Name resolution is a parameter.
  \<^item> \<open>Mcp_Access\<close> models \<open>shared/src/mcp/method-access.ts\<close>: the words of a method name, the vendor prefix of a
    catalog, which methods only read, and the counts of an allowlist. \<open>Mcp_Guard\<close> models
    \<open>services/egress/mcp-method-guard.ts\<close> and the rows and bindings of \<open>services/connectors/connections.ts\<close>: what
    the proxy of a run enforces at a host, and the verdict on a body. URL and JSON parsing are parameters.
  \<^item> \<open>Egress_Forward\<close> models \<open>services/egress/proxy.ts\<close>: the token, CONNECT, and the handler of a request, which composes
    the guard, the allowlist and the substitution. The confinement of secrets, the allowlist and the guarded address are
    shown of the handler whole, with the two ways round the allowlist that the code leaves.
  \<^item> \<open>Ssh_Agent\<close> models \<open>services/ssh-agent\<close>: the agent's wire protocol and its connections, with every data event
    as a loop of its own over the shared buffer. Nothing runs before the bridge token, and a client that waits is
    answered in order under any chunking. The keys of a team and the signature primitive are parameters.

  \<^bold>\<open>Signing in.\<close> A locked instance holds no key; the recovery phrase unlocks it, a password or an issuer signs a person in.
  \<^item> \<open>Sso_Token\<close> models \<open>shared/src/crypto/sso.ts\<close> and the messages of \<open>crypto/auth.ts\<close>: what is signed differs whenever its
    meaning does, and the texts that decode to a token are characterised exactly. Ed25519 and JSON are parameters.
  \<^item> \<open>Master_Key\<close> models \<open>crypto/master-key.ts\<close> and \<open>lib/unlock-handoff.ts\<close> as a step relation in which every \<open>await\<close> may be
    overtaken. One master key accounts for every key handed out, an enrolment is never replaced, the callbacks of the unlock fire
    once, and an update restores the key. The laws of the ciphers are the predicate \<open>crypto_laws\<close>.
  \<^item> \<open>Auth_Tokens\<close> models \<open>middleware/auth.ts\<close>, \<open>services/api-keys.ts\<close> and the gates of the REST API and of the MCP endpoint: whom a
    token stands for and for how long, what each gate lets through, and where the power of an API key comes from.
  \<^item> \<open>Sign_In\<close> models \<open>routes/auth.ts\<close> with its stores. The contract of a single-use ticket is the locale \<open>ticket_store\<close>, interpreted for
    challenges and for handles; a session is never given without its proof, an assertion is accepted once, and wrong passwords
    cost time when they come one after the other.

  \<^bold>\<open>Numbers, loops and bounds.\<close> Bytes and wire integers are words of their width. JavaScript
  numbers that count bytes, milliseconds or GB are naturals, integers or rationals; where the code
  bounds them (safe integers, payload caps) the bound is in the definition. Loops are structural or have a
  termination proof by the length of what is left to read. Fuel occurs once, in \<open>run_call\<close>, which takes a call of the master
  key through its awaits with nothing between them: three, the most a call has, and \<open>calls_answered\<close> shows they are enough.

  \<^bold>\<open>Databases and concurrency.\<close> A table is a list of rows, a statement a function on it, its keys and
  foreign keys invariants. Where the code awaits between two statements that must agree, what other
  connections do meanwhile is an argument (\<open>meanwhile\<close>) or a step of its own; elsewhere a request is one step.

  \<^bold>\<open>Not modelled.\<close> The web client, the database engine and its migrations, the engine clients and the
  agent processes: they are input and output around the decisions above. The job manager, the
  container lifecycle and the HTTP routes are modelled only where they decide. The prompts and the parsers of agent output, the tools behind
  the MCP endpoint and the timers that select work by heartbeats are not modelled: their decisions are spread over text and I/O.
\<close>

end
